(* ===== verification/Prelude.thy ===== *)
theory Prelude
  imports "HOL-Library.Word"
begin

text \<open>
  What every theory of the development shares.

  \<^item> \<open>error\<close> and \<open>'a res\<close>: the code never returns an error code; it stops the process.
    \<open>ASSERT\<close> and \<open>FATAL\<close> of \<open>common/macros.h\<close> call \<open>exit\<close>; \<open>std::array::at\<close> throws inside
    \<open>noexcept\<close> functions and so terminates; a null pointer is dereferenced; a loop never ends.
    Each is a value of \<open>error\<close>, and a function that can stop this way returns \<open>error + 'a\<close>.
  \<^item> \<open>bindE\<close>, \<open>assertE\<close>, \<open>derefE\<close>, \<open>atE\<close>: sequencing and the four kinds of check.
  \<^item> collections: \<open>res_simps\<close> unfolds the error monad; \<open>book_simps\<close> collects the selector
    lemmas of the order books.
\<close>

named_theorems res_simps
named_theorems book_simps

datatype error =
    AssertFailed   \<comment> \<open>\<open>ASSERT\<close> of \<open>common/macros.h\<close>\<close>
  | Fatal          \<comment> \<open>\<open>FATAL\<close> of \<open>common/macros.h\<close>\<close>
  | OutOfRange     \<comment> \<open>\<open>std::array::at\<close> or a read past the end of a vector\<close>
  | NullDeref      \<comment> \<open>dereference of \<open>nullptr\<close>\<close>
  | Diverges       \<comment> \<open>a loop that does not return\<close>

type_synonym 'a res = "error + 'a"

definition bindE :: "'a res \<Rightarrow> ('a \<Rightarrow> 'b res) \<Rightarrow> 'b res" where
  "bindE m f = (case m of Inl e \<Rightarrow> Inl e | Inr x \<Rightarrow> f x)"

definition assertE :: "bool \<Rightarrow> unit res" where
  "assertE c = (if c then Inr () else Inl AssertFailed)"

definition fatalE :: "bool \<Rightarrow> unit res" where
  "fatalE c = (if c then Inl Fatal else Inr ())"

definition derefE :: "'a option \<Rightarrow> 'a res" where
  "derefE p = (case p of None \<Rightarrow> Inl NullDeref | Some a \<Rightarrow> Inr a)"

definition atE :: "nat \<Rightarrow> nat \<Rightarrow> nat res" where
  "atE n i = (if i < n then Inr i else Inl OutOfRange)"

lemma bindE_Inr [simp]: "bindE (Inr x) f = f x"
  by (simp add: bindE_def)

lemma bindE_Inl [simp]: "bindE (Inl e) f = Inl e"
  by (simp add: bindE_def)

lemma bindE_eq_Inr [res_simps]: "bindE m f = Inr y \<longleftrightarrow> (\<exists>x. m = Inr x \<and> f x = Inr y)"
  by (cases m) auto

lemma bindE_assoc: "bindE (bindE m f) g = bindE m (\<lambda>x. bindE (f x) g)"
  by (cases m) auto

lemma bindE_cong [fundef_cong]:
  "m = m' \<Longrightarrow> (\<And>x. m' = Inr x \<Longrightarrow> f x = f' x) \<Longrightarrow> bindE m f = bindE m' f'"
  by (cases m') auto

lemma assertE_True [simp]: "c \<Longrightarrow> assertE c = Inr ()"
  by (simp add: assertE_def)

lemma assertE_False [simp]: "\<not> c \<Longrightarrow> assertE c = Inl AssertFailed"
  by (simp add: assertE_def)

lemma assertE_eq_Inr [res_simps]: "assertE c = Inr u \<longleftrightarrow> c"
  by (simp add: assertE_def)

lemma fatalE_False [simp]: "\<not> c \<Longrightarrow> fatalE c = Inr ()"
  by (simp add: fatalE_def)

lemma fatalE_True [simp]: "c \<Longrightarrow> fatalE c = Inl Fatal"
  by (simp add: fatalE_def)

lemma fatalE_eq_Inr [res_simps]: "fatalE c = Inr u \<longleftrightarrow> \<not> c"
  by (simp add: fatalE_def)

lemma derefE_Some [simp]: "derefE (Some a) = Inr a"
  by (simp add: derefE_def)

lemma derefE_None [simp]: "derefE None = Inl NullDeref"
  by (simp add: derefE_def)

lemma derefE_eq_Inr [res_simps]: "derefE p = Inr a \<longleftrightarrow> p = Some a"
  by (simp add: derefE_def split: option.split)

lemma atE_in [simp]: "i < n \<Longrightarrow> atE n i = Inr i"
  by (simp add: atE_def)

lemma atE_out [simp]: "\<not> i < n \<Longrightarrow> atE n i = Inl OutOfRange"
  by (simp add: atE_def)

lemma atE_eq_Inr [res_simps]: "atE n i = Inr j \<longleftrightarrow> i < n \<and> j = i"
  by (auto simp: atE_def)

text \<open>Running a list of steps stops at the first error, as the process does.\<close>

fun foldE :: "('a \<Rightarrow> 's \<Rightarrow> 's res) \<Rightarrow> 'a list \<Rightarrow> 's \<Rightarrow> 's res" where
  "foldE f [] s = Inr s"
| "foldE f (x # xs) s = bindE (f x s) (foldE f xs)"

lemma foldE_append: "foldE f (xs @ ys) s = bindE (foldE f xs s) (foldE f ys)"
proof (induction xs arbitrary: s)
  case Nil
  show ?case by simp
next
  case (Cons x xs)
  then show ?case by (cases "f x s") simp_all
qed

lemma foldE_snoc: "foldE f (xs @ [y]) s = bindE (foldE f xs s) (f y)"
proof -
  have "foldE f [y] = f y"
    by (rule ext) (auto simp: bindE_def split: sum.split)
  then show ?thesis by (simp add: foldE_append)
qed

text \<open>An invariant that every step keeps and under which no step fails holds after a run.\<close>

lemma foldE_invariant:
  assumes "I s" and "\<And>x s. x \<in> set xs \<Longrightarrow> I s \<Longrightarrow> \<exists>s'. f x s = Inr s' \<and> I s'"
  shows "\<exists>s'. foldE f xs s = Inr s' \<and> I s'"
  using assms
proof (induction xs arbitrary: s)
  case Nil
  then show ?case by simp
next
  case (Cons x xs)
  then obtain s1 where s1: "f x s = Inr s1" "I s1" by fastforce
  have "\<exists>s'. foldE f xs s1 = Inr s' \<and> I s'"
    using Cons.prems(2) by (intro Cons.IH [OF s1(2)]) simp
  with s1(1) show ?case by simp
qed

text \<open>Words: subtraction that does not wrap.\<close>

lemma unat_diff_le: "b \<le> a \<Longrightarrow> unat (a - b) = unat a - unat b" for a b :: "'a::len word"
  by (rule unat_sub)

lemma unat_min: "unat (min a b) = min (unat a) (unat b)" for a b :: "'a::len word"
  by (simp add: min_def word_le_nat_alt)

lemma word_diff_self_min: "a - min a b = 0 \<longleftrightarrow> a \<le> b" for a b :: "'a::len word"
  by (auto simp: min_def)

lemma unat_pos_iff: "0 < unat a \<longleftrightarrow> a \<noteq> 0" for a :: "'a::len word"
  by (simp add: unat_gt_0)

lemma unat_plus_one: "a < b \<Longrightarrow> unat (a + 1) = unat a + 1" for a b :: "'a::len word"
proof -
  assume "a < b"
  then have "a \<noteq> - 1" using word_order.extremum_strict by blast
  then have "1 + a \<noteq> 0" by (metis add.commute add_eq_0_iff)
  from unatSuc [OF this] show ?thesis by (simp add: add.commute)
qed

lemma word_less_plus_one: "a \<noteq> - 1 \<Longrightarrow> a < a + 1" for a :: "'a::len word"
proof -
  assume "a \<noteq> - 1"
  then have "a < - 1" by (simp add: order.not_eq_order_implies_strict)
  then show ?thesis using unat_plus_one [of a "- 1"] by (simp add: word_less_nat_alt)
qed

lemma find_SomeD: "find P xs = Some x \<Longrightarrow> x \<in> set xs \<and> P x"
  by (induction xs) (auto split: if_splits)

text \<open>A list is distinct when each of its classes is, and it is no longer than its classes together.\<close>

lemma distinct_by_class: "(\<And>c. distinct (filter (\<lambda>x. key x = c) xs)) \<Longrightarrow> distinct xs"
proof (induction xs)
  case Nil
  then show ?case by simp
next
  case (Cons x xs)
  have "distinct (filter (\<lambda>y. key y = c) xs)" for c using Cons.prems [of c] by (simp split: if_splits)
  moreover have "x \<notin> set xs" using Cons.prems [of "key x"] by simp
  ultimately show ?case using Cons.IH by simp
qed

lemma length_by_class:
  "\<forall>x \<in> set xs. key x \<in> set cs \<Longrightarrow> length xs \<le> sum_list (map (\<lambda>c. length (filter (\<lambda>x. key x = c) xs)) cs)"
proof (induction cs arbitrary: xs)
  case Nil
  then show ?case by simp
next
  case (Cons c cs)
  let ?ys = "filter (\<lambda>x. key x \<noteq> c) xs"
  have "length ?ys \<le> sum_list (map (\<lambda>d. length (filter (\<lambda>x. key x = d) ?ys)) cs)"
    using Cons.prems by (intro Cons.IH) auto
  also have "\<dots> \<le> sum_list (map (\<lambda>d. length (filter (\<lambda>x. key x = d) xs)) cs)"
  proof (rule sum_list_mono)
    fix d
    have "filter (\<lambda>x. key x = d) ?ys = filter (\<lambda>x. key x \<noteq> c) (filter (\<lambda>x. key x = d) xs)"
      by (simp add: conj_commute)
    then show "length (filter (\<lambda>x. key x = d) ?ys) \<le> length (filter (\<lambda>x. key x = d) xs)"
      by (metis length_filter_le)
  qed
  finally show ?case using sum_length_filter_compl [of "\<lambda>x. key x = c" xs] by simp
qed

end
