(* ===== verification/Doubles.thy ===== *)
theory Doubles
  imports Complex_Main Prelude
begin

text \<open>
  C++ \<open>double\<close> values, as far as the trading client depends on them: the not-a-number that
  \<open>Feature_INVALID\<close> is, the infinities a division by zero gives, and the comparisons that are
  false on a not-a-number. Finite values are reals: rounding is not modelled, nor is the sign of
  zero (a zero divisor counts as positive).
\<close>

datatype double = NaN | PInf | NInf | Fin real

definition double_of_int :: "int \<Rightarrow> double" where
  "double_of_int i = Fin (of_int i)"

fun d_neg :: "double \<Rightarrow> double" where
  "d_neg NaN = NaN"
| "d_neg PInf = NInf"
| "d_neg NInf = PInf"
| "d_neg (Fin x) = Fin (- x)"

fun d_add :: "double \<Rightarrow> double \<Rightarrow> double" where
  "d_add NaN b = NaN"
| "d_add a NaN = NaN"
| "d_add (Fin x) (Fin y) = Fin (x + y)"
| "d_add (Fin x) b = b"
| "d_add a (Fin y) = a"
| "d_add PInf b = (if b = PInf then PInf else NaN)"
| "d_add NInf b = (if b = NInf then NInf else NaN)"

definition d_sub :: "double \<Rightarrow> double \<Rightarrow> double" where
  "d_sub a b = d_add a (d_neg b)"

definition inf_of_sign :: "real \<Rightarrow> double" where
  "inf_of_sign s = (if s > 0 then PInf else if s < 0 then NInf else NaN)"

fun d_sign :: "double \<Rightarrow> real" where
  "d_sign NaN = 0"
| "d_sign PInf = 1"
| "d_sign NInf = - 1"
| "d_sign (Fin x) = sgn x"

fun d_mul :: "double \<Rightarrow> double \<Rightarrow> double" where
  "d_mul (Fin x) (Fin y) = Fin (x * y)"
| "d_mul a b = (if a = NaN \<or> b = NaN then NaN else inf_of_sign (d_sign a * d_sign b))"

fun d_div :: "double \<Rightarrow> double \<Rightarrow> double" where
  "d_div (Fin x) (Fin y) = (if y = 0 then inf_of_sign x else Fin (x / y))"
| "d_div (Fin x) b = (if b = NaN then NaN else Fin 0)"
| "d_div a (Fin y) = (if a = NaN then NaN else inf_of_sign (d_sign a * (if y = 0 then 1 else sgn y)))"
| "d_div a b = NaN"

fun d_lt :: "double \<Rightarrow> double \<Rightarrow> bool" where
  "d_lt NaN b = False"
| "d_lt a NaN = False"
| "d_lt (Fin x) (Fin y) = (x < y)"
| "d_lt a b = (a \<noteq> b \<and> (a = NInf \<or> b = PInf))"

fun d_eq :: "double \<Rightarrow> double \<Rightarrow> bool" where
  "d_eq NaN b = False"
| "d_eq a b = (a = b)"

definition d_le :: "double \<Rightarrow> double \<Rightarrow> bool" where
  "d_le a b = (d_lt a b \<or> d_eq a b)"

definition d_neq :: "double \<Rightarrow> double \<Rightarrow> bool" where
  "d_neq a b = (\<not> d_eq a b)"

definition d_min :: "double \<Rightarrow> double \<Rightarrow> double" where
  "d_min a b = (if d_lt b a then b else a)"

definition d_max :: "double \<Rightarrow> double \<Rightarrow> double" where
  "d_max a b = (if d_lt a b then b else a)"

lemmas double_defs = d_sub_def d_le_def d_neq_def d_min_def d_max_def double_of_int_def

lemma d_add_Fin [simp]: "d_add (Fin x) (Fin y) = Fin (x + y)"
  by simp

lemma d_sub_Fin [simp]: "d_sub (Fin x) (Fin y) = Fin (x - y)"
  by (simp add: d_sub_def)

lemma d_le_Fin [simp]: "d_le (Fin x) (Fin y) \<longleftrightarrow> x \<le> y"
  by (auto simp: d_le_def)

lemma d_lt_NaN [simp]: "\<not> d_lt a NaN" "\<not> d_lt NaN a"
  by (cases a; simp)+

lemma d_le_NaN [simp]: "\<not> d_le a NaN" "\<not> d_le NaN a"
  by (cases a; simp add: d_le_def)+

lemma d_neq_NaN [simp]: "d_neq a NaN"
  by (cases a) (simp_all add: d_neq_def)

lemma d_add_NaN [simp]: "d_add a NaN = NaN"
  by (cases a) simp_all

lemma d_max_Fin [simp]: "d_max (Fin x) (Fin y) = Fin (max x y)"
  by (simp add: d_max_def max_def)

end
