(* ===== verification/Types.thy ===== *)
theory Types
  imports Doubles
begin

text \<open>
  \<open>common/types.h\<close>: the identifiers, quantities and prices every message carries, the sentinels
  that stand for "no value", the two enumerations and the configuration records.

  Identifiers, quantities and priorities are words of their C++ width. \<open>Price\<close> is \<open>int64_t\<close>; it is
  an \<open>int\<close> here because the code compares prices, subtracts the base price and adds or subtracts
  one, and signed overflow is undefined in C++.
\<close>

type_synonym OrderId = "64 word"
type_synonym TickerId = "32 word"
type_synonym ClientId = "32 word"
type_synonym Price = int
type_synonym Qty = "32 word"
type_synonym Priority = "64 word"
type_synonym Nanos = int

definition ME_MAX_TICKERS :: nat where "ME_MAX_TICKERS = 8"

definition ME_MAX_CLIENT_UPDATES :: nat where "ME_MAX_CLIENT_UPDATES = 256 * 1024"

definition ME_MAX_MARKET_UPDATES :: nat where "ME_MAX_MARKET_UPDATES = 256 * 1024"

definition ME_MAX_NUM_CLIENTS :: nat where "ME_MAX_NUM_CLIENTS = 256"

definition ME_MAX_ORDER_IDS :: nat where "ME_MAX_ORDER_IDS = 1024 * 1024"

definition ME_MAX_PRICE_LEVELS :: nat where "ME_MAX_PRICE_LEVELS = 2 * 1024 * 1024"

definition OrderId_INVALID :: OrderId where "OrderId_INVALID = - 1"

definition TickerId_INVALID :: TickerId where "TickerId_INVALID = - 1"

definition ClientId_INVALID :: ClientId where "ClientId_INVALID = - 1"

definition Price_INVALID :: Price where "Price_INVALID = 2 ^ 63 - 1"

definition Qty_INVALID :: Qty where "Qty_INVALID = - 1"

definition Priority_INVALID :: Priority where "Priority_INVALID = - 1"

subsection \<open>Decimal printing (\<open>std::to_string\<close>) and the identifier printers\<close>

definition digit_char :: "nat \<Rightarrow> char" where
  "digit_char d = char_of (48 + d)"

fun nat_to_string :: "nat \<Rightarrow> string" where
  "nat_to_string n = (if n < 10 then [digit_char n] else nat_to_string (n div 10) @ [digit_char (n mod 10)])"

declare nat_to_string.simps [simp del]

definition int_to_string :: "int \<Rightarrow> string" where
  "int_to_string i = (if i < 0 then CHR ''-'' # nat_to_string (nat (- i)) else nat_to_string (nat i))"

definition orderIdToString :: "OrderId \<Rightarrow> string" where
  "orderIdToString order_id = (if order_id = OrderId_INVALID then ''INVALID'' else nat_to_string (unat order_id))"

definition tickerIdToString :: "TickerId \<Rightarrow> string" where
  "tickerIdToString ticker_id = (if ticker_id = TickerId_INVALID then ''INVALID'' else nat_to_string (unat ticker_id))"

definition clientIdToString :: "ClientId \<Rightarrow> string" where
  "clientIdToString client_id = (if client_id = ClientId_INVALID then ''INVALID'' else nat_to_string (unat client_id))"

definition priceToString :: "Price \<Rightarrow> string" where
  "priceToString price = (if price = Price_INVALID then ''INVALID'' else int_to_string price)"

definition qtyToString :: "Qty \<Rightarrow> string" where
  "qtyToString qty = (if qty = Qty_INVALID then ''INVALID'' else nat_to_string (unat qty))"

definition priorityToString :: "Priority \<Rightarrow> string" where
  "priorityToString priority = (if priority = Priority_INVALID then ''INVALID'' else nat_to_string (unat priority))"

subsection \<open>Sides\<close>

datatype Side = Side_INVALID | BUY | SELL | Side_MAX

fun side_repr :: "Side \<Rightarrow> int" where
  "side_repr Side_INVALID = 0"
| "side_repr BUY = 1"
| "side_repr SELL = - 1"
| "side_repr Side_MAX = 2"

fun sideToString :: "Side \<Rightarrow> string" where
  "sideToString BUY = ''BUY''"
| "sideToString SELL = ''SELL''"
| "sideToString Side_INVALID = ''INVALID''"
| "sideToString Side_MAX = ''MAX''"

text \<open>\<open>static_cast<size_t>(side) + 1\<close>: the cast of \<open>SELL = -1\<close> is \<open>2 ^ 64 - 1\<close> and the sum wraps to 0.\<close>

definition sideToIndex :: "Side \<Rightarrow> nat" where
  "sideToIndex side = unat ((word_of_int (side_repr side) :: 64 word) + 1)"

definition sideToValue :: "Side \<Rightarrow> int" where
  "sideToValue side = side_repr side"

subsection \<open>Algorithm types\<close>

datatype AlgoType = Algo_INVALID | RANDOM | MAKER | TAKER | Algo_MAX

fun algoTypeToString :: "AlgoType \<Rightarrow> string" where
  "algoTypeToString RANDOM = ''RANDOM''"
| "algoTypeToString MAKER = ''MAKER''"
| "algoTypeToString TAKER = ''TAKER''"
| "algoTypeToString Algo_INVALID = ''INVALID''"
| "algoTypeToString Algo_MAX = ''MAX''"

definition algo_of_nat :: "nat \<Rightarrow> AlgoType" where
  "algo_of_nat i = (if i = 0 then Algo_INVALID else if i = 1 then RANDOM else if i = 2 then MAKER
     else if i = 3 then TAKER else Algo_MAX)"

function stringToAlgoType_from :: "nat \<Rightarrow> string \<Rightarrow> AlgoType" where
  "stringToAlgoType_from i str =
     (if i \<le> 4
      then (if algoTypeToString (algo_of_nat i) = str then algo_of_nat i else stringToAlgoType_from (i + 1) str)
      else Algo_INVALID)"
  by pat_completeness auto
termination
  by (relation "measure (\<lambda>(i, str). 5 - i)") auto

declare stringToAlgoType_from.simps [simp del]

definition stringToAlgoType :: "string \<Rightarrow> AlgoType" where
  "stringToAlgoType str = stringToAlgoType_from 0 str"

subsection \<open>Configuration\<close>

record RiskCfg =
  max_order_size :: Qty
  max_position :: Qty
  max_loss :: double

record TradeEngineCfg =
  clip :: Qty
  threshold :: double
  risk_cfg :: RiskCfg

definition default_cfg :: TradeEngineCfg where
  "default_cfg = \<lparr>clip = 0, threshold = Fin 0,
     risk_cfg = \<lparr>max_order_size = 0, max_position = 0, max_loss = Fin 0\<rparr>\<rparr>"

subsection \<open>Facts\<close>

lemma sideToIndex_simps [simp]:
  "sideToIndex SELL = 0" "sideToIndex Side_INVALID = 1" "sideToIndex BUY = 2" "sideToIndex Side_MAX = 3"
  by (simp_all add: sideToIndex_def)

lemma sideToValue_simps [simp]:
  "sideToValue BUY = 1" "sideToValue SELL = - 1" "sideToValue Side_INVALID = 0" "sideToValue Side_MAX = 2"
  by (simp_all add: sideToValue_def)

lemma sideToIndex_less: "sideToIndex s < 4"
  by (cases s) simp_all

lemma sideToIndex_inj: "sideToIndex s = sideToIndex t \<longleftrightarrow> s = t"
  by (cases s; cases t) simp_all

lemma digit_char_inj: "d < 10 \<Longrightarrow> e < 10 \<Longrightarrow> digit_char d = digit_char e \<longleftrightarrow> d = e"
  by (auto simp: digit_char_def dest!: arg_cong [where f = "of_char :: char \<Rightarrow> nat"])

lemma nat_to_string_nonempty: "nat_to_string n \<noteq> []"
  by (subst nat_to_string.simps) simp

lemma nat_to_string_chars: "c \<in> set (nat_to_string n) \<Longrightarrow> \<exists>d < 10. c = digit_char d"
proof (induction n rule: nat_to_string.induct)
  case (1 n)
  show ?case
  proof (cases "n < 10")
    case True
    then show ?thesis using 1 by (subst (asm) nat_to_string.simps) auto
  next
    case False
    then have "c \<in> set (nat_to_string (n div 10)) \<or> c = digit_char (n mod 10)"
      using "1.prems" by (subst (asm) nat_to_string.simps) auto
    then show ?thesis using "1.IH" [OF False] by (metis mod_less_divisor zero_less_numeral)
  qed
qed

lemma nat_to_string_inj: "nat_to_string m = nat_to_string n \<Longrightarrow> m = n"
proof (induction m arbitrary: n rule: nat_to_string.induct)
  case (1 m)
  show ?case
  proof (cases "m < 10")
    case True
    then have m: "nat_to_string m = [digit_char m]" by (subst nat_to_string.simps) simp
    have "n < 10"
    proof (rule ccontr)
      assume "\<not> n < 10"
      then have "nat_to_string n = nat_to_string (n div 10) @ [digit_char (n mod 10)]"
        by (subst nat_to_string.simps) simp
      with m "1.prems" nat_to_string_nonempty [of "n div 10"] show False by simp
    qed
    then show ?thesis using True m "1.prems"
      by (subst (asm) nat_to_string.simps [of n]) (simp add: digit_char_inj)
  next
    case False
    then have m: "nat_to_string m = nat_to_string (m div 10) @ [digit_char (m mod 10)]"
      by (subst nat_to_string.simps) simp
    have "\<not> n < 10"
    proof
      assume "n < 10"
      then have "nat_to_string n = [digit_char n]" by (subst nat_to_string.simps) simp
      with m "1.prems" nat_to_string_nonempty [of "m div 10"] show False by simp
    qed
    then have n: "nat_to_string n = nat_to_string (n div 10) @ [digit_char (n mod 10)]"
      by (subst nat_to_string.simps) simp
    from m n "1.prems" have "nat_to_string (m div 10) = nat_to_string (n div 10)"
      and "digit_char (m mod 10) = digit_char (n mod 10)" by simp_all
    then have "m div 10 = n div 10" "m mod 10 = n mod 10"
      using "1.IH" [OF False] by (simp_all add: digit_char_inj)
    then show ?thesis by (metis div_mult_mod_eq)
  qed
qed

lemma nat_to_string_not_INVALID: "nat_to_string n \<noteq> ''INVALID''"
proof
  assume "nat_to_string n = ''INVALID''"
  then have "CHR ''I'' \<in> set (nat_to_string n)" by simp
  then obtain d where d: "d < 10" "CHR ''I'' = digit_char d" using nat_to_string_chars by blast
  from d(2) have "of_char (CHR ''I'') = (of_char (digit_char d) :: nat)" by simp
  with d(1) show False by (simp add: digit_char_def)
qed

text \<open>
  A printed order id identifies the order: the sentinel prints as INVALID, every other id as
  its decimal digits, and no two ids print alike.
\<close>

theorem orderIdToString_inject: "orderIdToString a = orderIdToString b \<longleftrightarrow> a = b"
  by (auto simp: orderIdToString_def nat_to_string_not_INVALID nat_to_string_not_INVALID [symmetric]
      dest!: nat_to_string_inj intro: word_unat_eq_iff [THEN iffD2] split: if_splits)

text \<open>
  Reading back a printed algorithm type gives the type, and every string that is no printed
  type is read as INVALID.
\<close>

theorem stringToAlgoType_roundtrip:
  "stringToAlgoType (algoTypeToString t) = t \<and>
   (str \<notin> range algoTypeToString \<longrightarrow> stringToAlgoType str = Algo_INVALID)"
proof -
  have range: "algoTypeToString (algo_of_nat i) \<in> range algoTypeToString" for i by simp
  have "stringToAlgoType (algoTypeToString t) = t"
    by (cases t) (simp_all add: stringToAlgoType_def stringToAlgoType_from.simps algo_of_nat_def)
  moreover have "stringToAlgoType_from i str = Algo_INVALID" if "str \<notin> range algoTypeToString" for i
    using that
  proof (induction i str rule: stringToAlgoType_from.induct)
    case (1 i str)
    then have "algoTypeToString (algo_of_nat i) \<noteq> str" by blast
    with 1 show ?case by (simp add: stringToAlgoType_from.simps [of i str])
  qed
  ultimately show ?thesis by (simp add: stringToAlgoType_def)
qed

theorem stringToAlgoType_roundtrip_witness:
  "stringToAlgoType ''MAKER'' = MAKER \<and> stringToAlgoType ''maker'' = Algo_INVALID"
proof -
  have "''maker'' \<notin> range algoTypeToString"
  proof
    assume "''maker'' \<in> range algoTypeToString"
    then obtain t where "''maker'' = algoTypeToString t" by blast
    then show False by (cases t) simp_all
  qed
  then show ?thesis using stringToAlgoType_roundtrip [of MAKER "''maker''"] by simp
qed

end
