(* ===== verification/SPSC.thy ===== *)
theory SPSC
  imports LFQueue
begin

text \<open>
  \<open>LFQueue\<close> under two threads. The queue's operations are split at their atomic accesses, in program
  order: the producer assigns the slot, stores \<open>next_write_index_\<close>, increments \<open>num_elements_\<close>; the
  consumer loads \<open>num_elements_\<close> and reads the slot, stores \<open>next_read_index_\<close>, and (after the
  \<open>ASSERT\<close>) decrements \<open>num_elements_\<close>. A step is one such access by either thread.

  \<open>sent\<close> and \<open>received\<close> are the histories of published and read elements; \<open>released\<close> counts the
  elements whose slot the consumer has given back. The producer's guard "fewer than capacity elements
  pending" is the contract of the callers: the queue itself does not check it.
\<close>

datatype 'a producer_pc = PIdle | PWritten 'a | PIndexed 'a

datatype consumer_pc = CIdle | CRead | CIndexed

record 'a spsc =
  queue :: "'a lf_queue"
  ppc :: "'a producer_pc"
  cpc :: consumer_pc
  sent :: "'a list"
  received :: "'a list"
  released :: nat

definition spsc_init :: "nat \<Rightarrow> 'a \<Rightarrow> 'a spsc" where
  "spsc_init n x = \<lparr>queue = lfq_new n x, ppc = PIdle, cpc = CIdle, sent = [], received = [], released = 0\<rparr>"

inductive spsc_step :: "'a spsc \<Rightarrow> 'a spsc \<Rightarrow> bool" where
  slot_write: "ppc s = PIdle \<Longrightarrow> num_elements (queue s) < length (store (queue s)) \<Longrightarrow>
     spsc_step s (s\<lparr>queue := lfq_write v (queue s), ppc := PWritten v\<rparr>)"
| index_write: "ppc s = PWritten v \<Longrightarrow>
     spsc_step s (s\<lparr>queue := (queue s)\<lparr>next_write_index :=
         (next_write_index (queue s) + 1) mod length (store (queue s))\<rparr>, ppc := PIndexed v\<rparr>)"
| publish: "ppc s = PIndexed v \<Longrightarrow>
     spsc_step s (s\<lparr>queue := (queue s)\<lparr>num_elements := num_elements (queue s) + 1\<rparr>, ppc := PIdle,
         sent := sent s @ [v]\<rparr>)"
| read_front: "cpc s = CIdle \<Longrightarrow> getNextToRead (queue s) = Some v \<Longrightarrow>
     spsc_step s (s\<lparr>cpc := CRead, received := received s @ [v]\<rparr>)"
| index_read: "cpc s = CRead \<Longrightarrow>
     spsc_step s (s\<lparr>queue := (queue s)\<lparr>next_read_index :=
         (next_read_index (queue s) + 1) mod length (store (queue s))\<rparr>, cpc := CIndexed\<rparr>)"
| release: "cpc s = CIndexed \<Longrightarrow> num_elements (queue s) \<noteq> 0 \<Longrightarrow>
     spsc_step s (s\<lparr>queue := (queue s)\<lparr>num_elements := num_elements (queue s) - 1\<rparr>, cpc := CIdle,
         released := released s + 1\<rparr>)"

inductive_cases spsc_stepE: "spsc_step s t"

inductive spsc_reachable :: "nat \<Rightarrow> 'a \<Rightarrow> 'a spsc \<Rightarrow> bool" for n x where
  start: "spsc_reachable n x (spsc_init n x)"
| step: "spsc_reachable n x s \<Longrightarrow> spsc_step s t \<Longrightarrow> spsc_reachable n x t"

definition slot_value :: "'a spsc \<Rightarrow> nat \<Rightarrow> 'a" where
  "slot_value s k = store (queue s) ! (k mod length (store (queue s)))"

definition producer_ok :: "'a spsc \<Rightarrow> bool" where
  "producer_ok s \<longleftrightarrow>
     (let n = length (store (queue s)); t = length (sent s) in
      case ppc s of
        PIdle \<Rightarrow> next_write_index (queue s) = t mod n
      | PWritten v \<Rightarrow> next_write_index (queue s) = t mod n \<and> t < released s + n \<and> slot_value s t = v
      | PIndexed v \<Rightarrow> next_write_index (queue s) = (t + 1) mod n \<and> t < released s + n \<and> slot_value s t = v)"

definition consumer_ok :: "'a spsc \<Rightarrow> bool" where
  "consumer_ok s \<longleftrightarrow>
     (let n = length (store (queue s)); h = released s in
      case cpc s of
        CIdle \<Rightarrow> next_read_index (queue s) = h mod n \<and> received s = take h (sent s)
      | CRead \<Rightarrow> next_read_index (queue s) = h mod n \<and> h < length (sent s) \<and> received s = take (h + 1) (sent s)
      | CIndexed \<Rightarrow> next_read_index (queue s) = (h + 1) mod n \<and> h < length (sent s) \<and> received s = take (h + 1) (sent s))"

definition spsc_inv :: "nat \<Rightarrow> 'a spsc \<Rightarrow> bool" where
  "spsc_inv n s \<longleftrightarrow> 0 < n \<and> length (store (queue s)) = n \<and> released s \<le> length (sent s) \<and>
     length (sent s) \<le> released s + n \<and> num_elements (queue s) = length (sent s) - released s \<and>
     (\<forall>k. released s \<le> k \<longrightarrow> k < length (sent s) \<longrightarrow> slot_value s k = sent s ! k) \<and>
     producer_ok s \<and> consumer_ok s"

lemmas spsc_defs = spsc_inv_def producer_ok_def consumer_ok_def slot_value_def Let_def

text \<open>Two positions less than a capacity apart lie in different slots.\<close>

lemma mod_neq_window:
  assumes "k < t" and "t < k + (n::nat)"
  shows "k mod n \<noteq> t mod n"
proof
  assume "k mod n = t mod n"
  then have "n dvd t - k" using assms(1) mod_eq_dvd_iff_nat [of k t n] by simp
  then show False using assms by (auto dest!: dvd_imp_le)
qed

lemma spsc_inv_init: "0 < n \<Longrightarrow> spsc_inv n (spsc_init n x)"
  by (simp add: spsc_defs spsc_init_def lfq_new_def)

lemma spsc_inv_write:
  assumes "spsc_inv n s" and "ppc s = PIdle" and "num_elements (queue s) < length (store (queue s))"
  shows "spsc_inv n (s\<lparr>queue := lfq_write v (queue s), ppc := PWritten v\<rparr>)"
proof -
  let ?t = "length (sent s)"
  have n: "0 < n" and len: "length (store (queue s)) = n" and w: "next_write_index (queue s) = ?t mod n"
    and lt: "?t < released s + n"
    using assms by (auto simp: spsc_defs)
  have keep: "(store (queue s))[?t mod n := v] ! (k mod n) = store (queue s) ! (k mod n)"
    if "released s \<le> k" "k < ?t" for k
  proof -
    have "k mod n \<noteq> ?t mod n" using mod_neq_window [of k ?t n] lt that by simp
    then show ?thesis by (metis nth_list_update_neq)
  qed
  have "?t mod n < length (store (queue s))" using n len by simp
  then show ?thesis
    using assms(1,2) keep lt w len n
    by (auto simp: spsc_defs lfq_write_def split: consumer_pc.splits)
qed

lemma spsc_inv_index_write:
  "spsc_inv n s \<Longrightarrow> ppc s = PWritten v \<Longrightarrow>
   spsc_inv n (s\<lparr>queue := (queue s)\<lparr>next_write_index :=
      (next_write_index (queue s) + 1) mod length (store (queue s))\<rparr>, ppc := PIndexed v\<rparr>)"
  by (auto simp: spsc_defs mod_Suc_eq split: consumer_pc.splits)

lemma spsc_inv_publish:
  assumes "spsc_inv n s" and "ppc s = PIndexed v"
  shows "spsc_inv n (s\<lparr>queue := (queue s)\<lparr>num_elements := num_elements (queue s) + 1\<rparr>, ppc := PIdle,
     sent := sent s @ [v]\<rparr>)"
  using assms by (auto simp: spsc_defs nth_append less_Suc_eq split: consumer_pc.splits)

lemma spsc_inv_read_front:
  assumes "spsc_inv n s" and "cpc s = CIdle" and "getNextToRead (queue s) = Some v"
  shows "spsc_inv n (s\<lparr>cpc := CRead, received := received s @ [v]\<rparr>)"
  using assms
  by (auto simp: spsc_defs getNextToRead_def lfq_size_def take_Suc_conv_app_nth split: if_splits producer_pc.splits)

lemma spsc_inv_index_read:
  "spsc_inv n s \<Longrightarrow> cpc s = CRead \<Longrightarrow>
   spsc_inv n (s\<lparr>queue := (queue s)\<lparr>next_read_index :=
      (next_read_index (queue s) + 1) mod length (store (queue s))\<rparr>, cpc := CIndexed\<rparr>)"
  by (auto simp: spsc_defs mod_Suc_eq split: producer_pc.splits)

lemma spsc_inv_release:
  "spsc_inv n s \<Longrightarrow> cpc s = CIndexed \<Longrightarrow>
   spsc_inv n (s\<lparr>queue := (queue s)\<lparr>num_elements := num_elements (queue s) - 1\<rparr>, cpc := CIdle,
      released := released s + 1\<rparr>)"
  by (auto simp: spsc_defs split: producer_pc.splits)

lemma spsc_step_inv: "spsc_step s t \<Longrightarrow> spsc_inv n s \<Longrightarrow> spsc_inv n t"
  by (induction rule: spsc_step.induct)
    (blast intro: spsc_inv_write spsc_inv_index_write spsc_inv_publish spsc_inv_read_front
      spsc_inv_index_read spsc_inv_release)+

lemma spsc_reachable_inv: "spsc_reachable n x s \<Longrightarrow> 0 < n \<Longrightarrow> spsc_inv n s"
  by (induction rule: spsc_reachable.induct) (auto intro: spsc_inv_init spsc_step_inv)

text \<open>
  C25. FIFO under interleaving: whatever the order in which the two threads' atomic accesses happen,
  what the consumer has read is a prefix of what the producer has published, in the same order and
  with nothing lost or duplicated, the count never exceeds the capacity, and the consumer's
  \<open>ASSERT(num_elements_ != 0)\<close> holds whenever it is reached.
\<close>

theorem spsc_fifo:
  assumes "spsc_reachable n x s" and "0 < n"
  shows "received s = take (length (received s)) (sent s) \<and> num_elements (queue s) \<le> n \<and>
     (cpc s = CIndexed \<longrightarrow> num_elements (queue s) \<noteq> 0)"
  using spsc_reachable_inv [OF assms]
  by (auto simp: spsc_defs split: consumer_pc.splits)

theorem spsc_fifo_witness:
  "\<exists>s. spsc_reachable 2 (0::nat) s \<and> received s = [7] \<and> received s = take (length (received s)) (sent s)"
proof -
  let ?s0 = "spsc_init 2 (0::nat)"
  let ?s1 = "?s0\<lparr>queue := lfq_write 7 (queue ?s0), ppc := PWritten 7\<rparr>"
  let ?s2 = "?s1\<lparr>queue := (queue ?s1)\<lparr>next_write_index :=
     (next_write_index (queue ?s1) + 1) mod length (store (queue ?s1))\<rparr>, ppc := PIndexed 7\<rparr>"
  let ?s3 = "?s2\<lparr>queue := (queue ?s2)\<lparr>num_elements := num_elements (queue ?s2) + 1\<rparr>, ppc := PIdle,
     sent := sent ?s2 @ [7]\<rparr>"
  let ?s4 = "?s3\<lparr>cpc := CRead, received := received ?s3 @ [7]\<rparr>"
  have "spsc_step ?s0 ?s1" by (rule spsc_step.slot_write) (simp_all add: spsc_init_def lfq_new_def)
  moreover have "spsc_step ?s1 ?s2" by (rule spsc_step.index_write) simp
  moreover have "spsc_step ?s2 ?s3" by (rule spsc_step.publish) simp
  moreover have "spsc_step ?s3 ?s4"
    by (rule spsc_step.read_front)
      (simp_all add: spsc_init_def lfq_new_def lfq_write_def getNextToRead_def lfq_size_def)
  ultimately have r: "spsc_reachable 2 0 ?s4"
    by (meson spsc_reachable.start spsc_reachable.step)
  have "received ?s4 = [7]" by (simp add: spsc_init_def)
  moreover have "received ?s4 = take (length (received ?s4)) (sent ?s4)"
    by (rule spsc_fifo [OF r, THEN conjunct1]) simp
  ultimately show ?thesis using r by blast
qed

end
