(* ===== verification/MemPool.thy ===== *)
theory MemPool
  imports Types
begin

text \<open>
  \<open>common/mem_pool.h\<close> and \<open>common/opt_mem_pool.h\<close>: the fixed-size object pools.

  The vector of \<open>ObjectBlock\<close>s is a function on indices with its length, and a pointer into the pool
  is the index of its block, which is what \<open>deallocate\<close> computes from it. An object stays readable
  after it was freed, as in C++: \<open>pobj\<close> does not look at \<open>is_free\<close>.

  \<^item> \<open>pool_ok\<close> is the pool's invariant, \<open>live\<close> the set of blocks in use.
  \<^item> \<open>allocator\<close> is the interface the order books and the snapshot synthesizer rely on; both pools
    interpret it.
  \<^item> The last free block cannot be handed out: the search for the next one fails.
\<close>

record 'a object_block =
  object :: 'a
  is_free :: bool

record 'a mem_pool =
  blocks :: "nat \<Rightarrow> 'a object_block"
  pool_size :: nat
  next_free_index :: nat

definition pool_new :: "nat \<Rightarrow> 'a \<Rightarrow> 'a mem_pool" where
  "pool_new num_elems x =
     \<lparr>blocks = (\<lambda>_. \<lparr>object = x, is_free = True\<rparr>), pool_size = num_elems, next_free_index = 0\<rparr>"

definition pobj :: "'a mem_pool \<Rightarrow> nat \<Rightarrow> 'a" where
  "pobj p i = object (blocks p i)"

definition pupd :: "nat \<Rightarrow> ('a \<Rightarrow> 'a) \<Rightarrow> 'a mem_pool \<Rightarrow> 'a mem_pool" where
  "pupd i f p = p\<lparr>blocks := (blocks p)(i := (blocks p i)\<lparr>object := f (pobj p i)\<rparr>)\<rparr>"

definition set_free :: "nat \<Rightarrow> bool \<Rightarrow> 'a mem_pool \<Rightarrow> 'a mem_pool" where
  "set_free i b p = p\<lparr>blocks := (blocks p)(i := (blocks p i)\<lparr>is_free := b\<rparr>)\<rparr>"

definition next_index :: "'a mem_pool \<Rightarrow> nat \<Rightarrow> nat" where
  "next_index p n = (if n + 1 = pool_size p then 0 else n + 1)"

text \<open>
  The loop of \<open>updateNextFreeIndex\<close>; \<open>ini\<close> is \<open>initial_free_index\<close>. An index outside the vector is a
  read past its end.
\<close>

function find_free :: "nat \<Rightarrow> nat \<Rightarrow> 'a mem_pool \<Rightarrow> nat res" where
  "find_free ini n p =
     (if n < pool_size p \<and> ini < pool_size p
      then (if is_free (blocks p n) then Inr n
            else if next_index p n = ini then Inl AssertFailed
            else find_free ini (next_index p n) p)
      else Inl OutOfRange)"
  by pat_completeness auto
termination
  by (relation "measure (\<lambda>(ini, n, p). if n < ini then ini - n else pool_size p + ini - n)")
    (auto simp: next_index_def split: if_splits)

declare find_free.simps [simp del]

definition updateNextFreeIndex :: "'a mem_pool \<Rightarrow> 'a mem_pool res" where
  "updateNextFreeIndex p =
     bindE (find_free (next_free_index p) (next_free_index p) p) (\<lambda>n. Inr (p\<lparr>next_free_index := n\<rparr>))"

definition allocate :: "'a \<Rightarrow> 'a mem_pool \<Rightarrow> (nat \<times> 'a mem_pool) res" where
  "allocate x p =
     (let i = next_free_index p in
      bindE (atE (pool_size p) i) (\<lambda>_.
      bindE (assertE (is_free (blocks p i))) (\<lambda>_.
      bindE (updateNextFreeIndex (p\<lparr>blocks := (blocks p)(i := \<lparr>object = x, is_free = False\<rparr>)\<rparr>)) (\<lambda>p'.
      Inr (i, p')))))"

definition deallocate :: "nat \<Rightarrow> 'a mem_pool \<Rightarrow> 'a mem_pool res" where
  "deallocate i p =
     bindE (assertE (i < pool_size p)) (\<lambda>_.
     bindE (assertE (\<not> is_free (blocks p i))) (\<lambda>_.
     Inr (set_free i True p)))"

subsection \<open>Blocks in use and the invariant\<close>

definition live :: "'a mem_pool \<Rightarrow> nat set" where
  "live p = {i. i < pool_size p \<and> \<not> is_free (blocks p i)}"

definition pool_ok :: "'a mem_pool \<Rightarrow> bool" where
  "pool_ok p \<longleftrightarrow> next_free_index p < pool_size p \<and> next_free_index p \<notin> live p"

definition pool_free :: "'a mem_pool \<Rightarrow> nat" where
  "pool_free p = pool_size p - card (live p)"

lemma finite_live [simp]: "finite (live p)"
  by (simp add: live_def)

lemma card_live: "card (live p) \<le> pool_size p"
proof -
  have "live p \<subseteq> {..<pool_size p}" by (auto simp: live_def)
  then have "card (live p) \<le> card {..<pool_size p}" by (intro card_mono) auto
  then show ?thesis by simp
qed

lemma pool_new_simps [simp]:
  "live (pool_new n x) = {}" "pool_size (pool_new n x) = n" "pool_ok (pool_new n x) \<longleftrightarrow> 0 < n"
  "next_free_index (pool_new n x) = 0"
  by (auto simp: pool_new_def live_def pool_ok_def)

lemma pupd_simps [simp]:
  "live (pupd i f p) = live p" "pool_size (pupd i f p) = pool_size p" "pool_ok (pupd i f p) = pool_ok p"
  "next_free_index (pupd i f p) = next_free_index p"
  by (auto simp: pupd_def live_def pool_ok_def)

lemma pobj_pupd: "pobj (pupd i f p) j = (if j = i then f (pobj p i) else pobj p j)"
  by (simp add: pobj_def pupd_def)

lemma pobj_pupd_same [simp]: "pobj (pupd i f p) i = f (pobj p i)"
  and pobj_pupd_other [simp]: "j \<noteq> i \<Longrightarrow> pobj (pupd i f p) j = pobj p j"
  by (simp_all add: pobj_pupd)

lemma pool_free_pupd [simp]: "pool_free (pupd i f p) = pool_free p"
  by (simp add: pool_free_def)

text \<open>Positions visited by the search: from \<open>n\<close> on, wrapping at the end, up to but not including \<open>ini\<close>.\<close>

lemma find_free_ok:
  assumes "ini < pool_size p" and "n < pool_size p" and "j < pool_size p" and "is_free (blocks p j)"
    and "if n < ini then n \<le> j \<and> j < ini else n \<le> j \<or> j < ini"
  shows "\<exists>i. find_free ini n p = Inr i \<and> i < pool_size p \<and> is_free (blocks p i)"
  using assms
proof (induction ini n p rule: find_free.induct)
  case (1 ini n p)
  show ?case
  proof (cases "is_free (blocks p n)")
    case True
    with "1.prems" show ?thesis by (simp add: find_free.simps [of ini n p])
  next
    case False
    with "1.prems"(4) have jn: "j \<noteq> n" by auto
    let ?m = "next_index p n"
    have m: "?m < pool_size p" using "1.prems"(2) by (auto simp: next_index_def)
    have ne: "?m \<noteq> ini" using "1.prems" jn by (auto simp: next_index_def split: if_splits)
    have "if ?m < ini then ?m \<le> j \<and> j < ini else ?m \<le> j \<or> j < ini"
      using "1.prems" jn ne by (auto simp: next_index_def split: if_splits)
    then show ?thesis
      using "1.IH" [OF _ False ne] "1.prems" m False ne by (simp add: find_free.simps [of ini n p])
  qed
qed

lemma find_free_fails:
  assumes "ini < pool_size p" and "n < pool_size p" and "\<forall>j < pool_size p. \<not> is_free (blocks p j)"
  shows "find_free ini n p = Inl AssertFailed"
  using assms
proof (induction ini n p rule: find_free.induct)
  case (1 ini n p)
  have m: "next_index p n < pool_size p" using "1.prems"(2) by (auto simp: next_index_def)
  with 1 show ?case by (auto simp: find_free.simps [of ini n p])
qed

lemma live_alloc:
  "i < pool_size p \<Longrightarrow> live (p\<lparr>blocks := (blocks p)(i := \<lparr>object = x, is_free = False\<rparr>)\<rparr>) = insert i (live p)"
  by (auto simp: live_def)

lemma ex_free:
  assumes "card (live p) < pool_size p"
  shows "\<exists>j < pool_size p. is_free (blocks p j)"
proof (rule ccontr)
  assume "\<not> ?thesis"
  then have "live p = {..<pool_size p}" by (auto simp: live_def)
  with assms show False by simp
qed

lemma full_pool_no_free:
  assumes "card (live p) = pool_size p"
  shows "\<forall>j < pool_size p. \<not> is_free (blocks p j)"
proof (intro allI impI)
  fix j assume j: "j < pool_size p"
  have "live p \<subseteq> {..<pool_size p}" unfolding live_def by auto
  then have "live p = {..<pool_size p}"
    using assms card_subset_eq [of "{..<pool_size p}" "live p"] by simp
  with j have "j \<in> live p" by blast
  then show "\<not> is_free (blocks p j)" unfolding live_def by blast
qed

lemma allocate_ok:
  assumes ok: "pool_ok p" and room: "card (live p) + 1 < pool_size p"
  shows "\<exists>p'. allocate x p = Inr (next_free_index p, p') \<and> pool_ok p' \<and>
     live p' = insert (next_free_index p) (live p) \<and> next_free_index p \<notin> live p \<and>
     pool_size p' = pool_size p \<and> pobj p' = (pobj p)(next_free_index p := x)"
proof -
  let ?i = "next_free_index p"
  let ?q = "p\<lparr>blocks := (blocks p)(?i := \<lparr>object = x, is_free = False\<rparr>)\<rparr>"
  have i: "?i < pool_size p" "is_free (blocks p ?i)" "?i \<notin> live p"
    using ok by (auto simp: pool_ok_def live_def)
  have lq: "live ?q = insert ?i (live p)" by (rule live_alloc [OF i(1)])
  then have "card (live ?q) < pool_size ?q" using room i(3) by simp
  from ex_free [OF this] obtain j where j: "j < pool_size ?q" "is_free (blocks ?q j)" by blast
  have "\<exists>k. find_free ?i ?i ?q = Inr k \<and> k < pool_size ?q \<and> is_free (blocks ?q k)"
    by (rule find_free_ok [OF _ _ j]) (use i in auto)
  then obtain k where k: "find_free ?i ?i ?q = Inr k" "k < pool_size ?q" "is_free (blocks ?q k)" by blast
  let ?p' = "?q\<lparr>next_free_index := k\<rparr>"
  have "allocate x p = Inr (?i, ?p')"
    using i k(1) by (simp add: allocate_def Let_def updateNextFreeIndex_def)
  moreover have "live ?p' = insert ?i (live p)" using lq by (simp add: live_def)
  moreover have "pool_ok ?p'" using k by (auto simp: pool_ok_def live_def)
  moreover have "pobj ?p' = (pobj p)(?i := x)" by (rule ext) (simp add: pobj_def)
  ultimately show ?thesis using i by auto
qed

lemma allocate_last_block_fails:
  assumes "pool_ok p" and "card (live p) + 1 = pool_size p"
  shows "allocate x p = Inl AssertFailed"
proof -
  let ?i = "next_free_index p"
  let ?q = "p\<lparr>blocks := (blocks p)(?i := \<lparr>object = x, is_free = False\<rparr>)\<rparr>"
  have i: "?i < pool_size p" "is_free (blocks p ?i)" "?i \<notin> live p"
    using assms(1) by (auto simp: pool_ok_def live_def)
  have "\<forall>j < pool_size ?q. \<not> is_free (blocks ?q j)"
    by (rule full_pool_no_free) (use assms i live_alloc [OF i(1)] in simp_all)
  then have "find_free ?i ?i ?q = Inl AssertFailed" using i(1) by (intro find_free_fails) simp_all
  then show ?thesis using i by (simp add: allocate_def Let_def updateNextFreeIndex_def)
qed

lemma deallocate_ok:
  assumes "pool_ok p" and "i \<in> live p"
  shows "\<exists>p'. deallocate i p = Inr p' \<and> pool_ok p' \<and> live p' = live p - {i} \<and>
     pool_size p' = pool_size p \<and> pobj p' = pobj p"
  using assms by (auto simp: deallocate_def pool_ok_def live_def set_free_def pobj_def fun_eq_iff)

lemma deallocate_free_fails: "i \<notin> live p \<Longrightarrow> deallocate i p = Inl AssertFailed"
  by (auto simp: deallocate_def live_def bindE_def assertE_def)

subsection \<open>The allocator interface\<close>

text \<open>A run of allocations.\<close>

fun allocate_all :: "('a \<Rightarrow> 'p \<Rightarrow> (nat \<times> 'p) res) \<Rightarrow> 'a list \<Rightarrow> 'p \<Rightarrow> (nat list \<times> 'p) res" where
  "allocate_all alloc [] p = Inr ([], p)"
| "allocate_all alloc (x # xs) p =
     bindE (alloc x p) (\<lambda>(i, p1). bindE (allocate_all alloc xs p1) (\<lambda>(is, p2). Inr (i # is, p2)))"

locale allocator =
  fixes alloc :: "'a \<Rightarrow> 'p \<Rightarrow> (nat \<times> 'p) res"
    and dealloc :: "nat \<Rightarrow> 'p \<Rightarrow> 'p res"
    and used :: "'p \<Rightarrow> nat set"
    and capacity :: "'p \<Rightarrow> nat"
    and contents :: "'p \<Rightarrow> nat \<Rightarrow> 'a"
    and ok :: "'p \<Rightarrow> bool"
  assumes alloc_ok: "ok p \<Longrightarrow> card (used p) + 1 < capacity p \<Longrightarrow>
      \<exists>i p'. alloc x p = Inr (i, p') \<and> ok p' \<and> i \<notin> used p \<and> used p' = insert i (used p) \<and>
        capacity p' = capacity p \<and> contents p' = (contents p)(i := x)"
    and dealloc_ok: "ok p \<Longrightarrow> i \<in> used p \<Longrightarrow>
      \<exists>p'. dealloc i p = Inr p' \<and> ok p' \<and> used p' = used p - {i} \<and>
        capacity p' = capacity p \<and> contents p' = contents p"
    and used_finite: "finite (used p)"
begin

lemma alloc_all_ok:
  assumes "ok p" and "card (used p) + length xs < capacity p"
  shows "\<exists>is p'. allocate_all alloc xs p = Inr (is, p') \<and> ok p' \<and> distinct is \<and> length is = length xs \<and>
     set is \<inter> used p = {} \<and> used p' = used p \<union> set is \<and> capacity p' = capacity p \<and>
     map (contents p') is = xs \<and> (\<forall>j \<in> used p. contents p' j = contents p j)"
  using assms
proof (induction xs arbitrary: p)
  case Nil
  then show ?case by simp
next
  case (Cons x xs)
  from Cons.prems have "card (used p) + 1 < capacity p" by simp
  with Cons.prems(1) obtain i p1 where a: "alloc x p = Inr (i, p1)" "ok p1" "i \<notin> used p"
    "used p1 = insert i (used p)" "capacity p1 = capacity p" "contents p1 = (contents p)(i := x)"
    using alloc_ok by blast
  have "card (used p1) + length xs < capacity p1"
    using a Cons.prems(2) used_finite [of p] by simp
  with Cons.IH [OF a(2)] obtain js p' where r: "allocate_all alloc xs p1 = Inr (js, p')" "ok p'" "distinct js"
    "length js = length xs" "set js \<inter> used p1 = {}" "used p' = used p1 \<union> set js" "capacity p' = capacity p1"
    "map (contents p') js = xs" "\<forall>j \<in> used p1. contents p' j = contents p1 j"
    by blast
  have c: "contents p' i = x" "\<forall>j \<in> used p. contents p' j = contents p j"
    using r(9) a(3,4,6) by auto
  show ?case using a r c by auto
qed

lemma alloc_dealloc:
  assumes "ok p" and "card (used p) + 1 < capacity p"
  shows "\<exists>i p1 p2. alloc x p = Inr (i, p1) \<and> dealloc i p1 = Inr p2 \<and> ok p2 \<and> used p2 = used p"
proof -
  from alloc_ok [OF assms, of x] obtain i p1 where a: "alloc x p = Inr (i, p1)" "ok p1" "i \<notin> used p"
    "used p1 = insert i (used p)" by blast
  then have "i \<in> used p1" by simp
  from dealloc_ok [OF a(2) this] obtain p2 where "dealloc i p1 = Inr p2" "ok p2" "used p2 = used p1 - {i}"
    by blast
  with a show ?thesis by auto
qed

end

text \<open>With the assertions in, freeing a block that is not in use stops the process.\<close>

locale checked_allocator = allocator +
  assumes dealloc_unused: "i \<notin> used p \<Longrightarrow> dealloc i p = Inl AssertFailed"
begin

lemma double_free:
  assumes "ok p" and "i \<in> used p"
  shows "bindE (dealloc i p) (dealloc i) = Inl AssertFailed"
proof -
  from dealloc_ok [OF assms] obtain p' where "dealloc i p = Inr p'" "used p' = used p - {i}" by blast
  then show ?thesis using dealloc_unused [of i p'] by simp
qed

end

interpretation pool: checked_allocator allocate deallocate live pool_size pobj pool_ok
proof
  fix p :: "'a mem_pool" and x
  assume "pool_ok p" "card (live p) + 1 < pool_size p"
  from allocate_ok [OF this, of x]
  show "\<exists>i p'. allocate x p = Inr (i, p') \<and> pool_ok p' \<and> i \<notin> live p \<and> live p' = insert i (live p) \<and>
      pool_size p' = pool_size p \<and> pobj p' = (pobj p)(i := x)"
    by blast
qed (simp_all add: deallocate_ok deallocate_free_fails)

subsection \<open>The variant without assertions (\<open>OptMemPool\<close>)\<close>

text \<open>
  Under \<open>NDEBUG\<close> the three \<open>ASSERT\<close>s are compiled out. \<open>None\<close> is a call that never returns: with no
  free block the search goes round for ever.
\<close>

partial_function (option) opt_find_free :: "bool \<Rightarrow> nat \<Rightarrow> nat \<Rightarrow> 'a mem_pool \<Rightarrow> nat res option" where
  "opt_find_free ndebug ini n p =
     (if \<not> n < pool_size p then Some (Inl OutOfRange)
      else if is_free (blocks p n) then Some (Inr n)
      else if next_index p n = ini \<and> \<not> ndebug then Some (Inl AssertFailed)
      else opt_find_free ndebug ini (next_index p n) p)"

definition opt_updateNextFreeIndex :: "bool \<Rightarrow> 'a mem_pool \<Rightarrow> 'a mem_pool res option" where
  "opt_updateNextFreeIndex ndebug p =
     map_option (\<lambda>r. bindE r (\<lambda>n. Inr (p\<lparr>next_free_index := n\<rparr>)))
       (opt_find_free ndebug (next_free_index p) (next_free_index p) p)"

definition opt_allocate :: "bool \<Rightarrow> 'a \<Rightarrow> 'a mem_pool \<Rightarrow> (nat \<times> 'a mem_pool) res option" where
  "opt_allocate ndebug x p =
     (let i = next_free_index p in
      if \<not> i < pool_size p then Some (Inl OutOfRange)
      else if \<not> ndebug \<and> \<not> is_free (blocks p i) then Some (Inl AssertFailed)
      else map_option (\<lambda>r. bindE r (\<lambda>p'. Inr (i, p')))
             (opt_updateNextFreeIndex ndebug (p\<lparr>blocks := (blocks p)(i := \<lparr>object = x, is_free = False\<rparr>)\<rparr>)))"

definition opt_deallocate :: "bool \<Rightarrow> nat \<Rightarrow> 'a mem_pool \<Rightarrow> 'a mem_pool res" where
  "opt_deallocate ndebug i p =
     bindE (if ndebug then Inr () else assertE (i < pool_size p)) (\<lambda>_.
     bindE (if ndebug then Inr () else assertE (\<not> is_free (blocks p i))) (\<lambda>_.
     bindE (atE (pool_size p) i) (\<lambda>_.
     Inr (set_free i True p))))"

lemma opt_find_free_eq:
  assumes "find_free ini n p = Inr i"
  shows "opt_find_free ndebug ini n p = Some (Inr i)"
  using assms
proof (induction ini n p rule: find_free.induct)
  case (1 ini n p)
  then show ?case
    by (auto simp: find_free.simps [of ini n p] opt_find_free.simps [of ndebug ini n p] split: if_splits)
qed

lemma opt_find_free_loops:
  assumes "\<forall>j < pool_size p. \<not> is_free (blocks p j)" and "n < pool_size p"
  shows "opt_find_free True ini n p = None"
proof (rule ccontr)
  assume "opt_find_free True ini n p \<noteq> None"
  then obtain r where r: "opt_find_free True ini n p = Some r" by auto
  have "ndebug \<longrightarrow> (\<forall>j < pool_size p. \<not> is_free (blocks p j)) \<longrightarrow> n < pool_size p \<longrightarrow> False"
    if "opt_find_free ndebug ini n p = Some r" for ndebug ini n and p :: "'a mem_pool" and r
  proof (rule opt_find_free.raw_induct [where
        P = "\<lambda>ndebug ini n p r. ndebug \<longrightarrow> (\<forall>j < pool_size p. \<not> is_free (blocks p j)) \<longrightarrow> n < pool_size p \<longrightarrow> False",
        OF _ that])
    fix f ndebug ini n and p :: "'a mem_pool" and r
    assume IH: "\<And>ndebug ini n p r. f ndebug ini n p = Some r \<Longrightarrow>
        ndebug \<longrightarrow> (\<forall>j < pool_size p. \<not> is_free (blocks p j)) \<longrightarrow> n < pool_size p \<longrightarrow> False"
      and eq: "(if \<not> n < pool_size p then Some (Inl OutOfRange)
        else if is_free (blocks p n) then Some (Inr n)
        else if next_index p n = ini \<and> \<not> ndebug then Some (Inl AssertFailed)
        else f ndebug ini (next_index p n) p) = Some r"
    show "ndebug \<longrightarrow> (\<forall>j < pool_size p. \<not> is_free (blocks p j)) \<longrightarrow> n < pool_size p \<longrightarrow> False"
    proof (intro impI)
      assume a: "ndebug" "\<forall>j < pool_size p. \<not> is_free (blocks p j)" "n < pool_size p"
      then have "f ndebug ini (next_index p n) p = Some r" using eq by simp
      moreover have "next_index p n < pool_size p" using a(3) by (auto simp: next_index_def)
      ultimately show False using IH a by blast
    qed
  qed
  with r assms show False by blast
qed

text \<open>While the pool has room the two pools do the same.\<close>

lemma opt_allocate_eq:
  assumes "pool_ok p" and "card (live p) + 1 < pool_size p"
  shows "opt_allocate ndebug x p = Some (allocate x p)"
proof -
  let ?i = "next_free_index p"
  let ?q = "p\<lparr>blocks := (blocks p)(?i := \<lparr>object = x, is_free = False\<rparr>)\<rparr>"
  have i: "?i < pool_size p" "is_free (blocks p ?i)"
    using assms(1) by (auto simp: pool_ok_def live_def)
  from allocate_ok [OF assms, of x] obtain p' where "allocate x p = Inr (?i, p')" by blast
  then obtain k where "find_free ?i ?i ?q = Inr k" "allocate x p = Inr (?i, ?q\<lparr>next_free_index := k\<rparr>)"
    using i by (auto simp: allocate_def Let_def updateNextFreeIndex_def res_simps)
  moreover from this(1) have "opt_find_free ndebug ?i ?i ?q = Some (Inr k)"
    by (rule opt_find_free_eq)
  ultimately show ?thesis
    using i by (simp add: opt_allocate_def Let_def opt_updateNextFreeIndex_def)
qed

lemma opt_deallocate_eq: "i \<in> live p \<Longrightarrow> opt_deallocate ndebug i p = deallocate i p"
  by (simp add: opt_deallocate_def deallocate_def live_def)

definition opt_allocate_res :: "bool \<Rightarrow> 'a \<Rightarrow> 'a mem_pool \<Rightarrow> (nat \<times> 'a mem_pool) res" where
  "opt_allocate_res ndebug x p = (case opt_allocate ndebug x p of None \<Rightarrow> Inl Diverges | Some r \<Rightarrow> r)"

interpretation opt_pool: allocator "opt_allocate_res ndebug" "opt_deallocate ndebug" live pool_size pobj pool_ok
proof
  fix p :: "'a mem_pool" and x
  assume a: "pool_ok p" "card (live p) + 1 < pool_size p"
  show "\<exists>i p'. opt_allocate_res ndebug x p = Inr (i, p') \<and> pool_ok p' \<and> i \<notin> live p \<and> live p' = insert i (live p) \<and>
      pool_size p' = pool_size p \<and> pobj p' = (pobj p)(i := x)"
    using pool.alloc_ok [OF a, of x] opt_allocate_eq [OF a, of ndebug x] by (simp add: opt_allocate_res_def)
qed (simp_all add: deallocate_ok opt_deallocate_eq)

text \<open>
  C37. The pool hands out distinct free blocks: from a pool with \<open>n\<close> blocks of which \<open>k\<close> are in use,
  any \<open>m < n - k\<close> allocations in a row succeed, their addresses are pairwise distinct and different
  from every block in use, each block holds the object it was allocated for and no block in use changes.
\<close>

theorem allocate_run:
  assumes "pool_ok p" and "card (live p) + length xs < pool_size p"
  shows "\<exists>is p'. allocate_all allocate xs p = Inr (is, p') \<and> pool_ok p' \<and> distinct is \<and> length is = length xs \<and>
     set is \<inter> live p = {} \<and> live p' = live p \<union> set is \<and> map (pobj p') is = xs \<and>
     (\<forall>j \<in> live p. pobj p' j = pobj p j)"
  using pool.alloc_all_ok [OF assms] by blast

theorem allocate_run_witness:
  "\<exists>is p'. allocate_all allocate [7, 8] (pool_new 3 (0::nat)) = Inr (is, p') \<and> distinct is \<and> map (pobj p') is = [7, 8]"
  using allocate_run [of "pool_new 3 (0::nat)" "[7, 8]"] by auto

text \<open>
  Capacity. A pool of \<open>n\<close> blocks never gives out its last free block: that allocation marks the
  block and then stops the process at "Memory Pool out of space" because the search for the following
  free block fails, so at most \<open>n - 1\<close> objects can be alive. With the assertions compiled out the same
  call of \<open>OptMemPool\<close> never returns.
\<close>

theorem allocate_last_block:
  assumes "pool_ok p" and "card (live p) + 1 = pool_size p"
  shows "allocate x p = Inl AssertFailed \<and> opt_allocate True x p = None"
proof
  show "allocate x p = Inl AssertFailed" using assms by (rule allocate_last_block_fails)
next
  let ?i = "next_free_index p"
  let ?q = "p\<lparr>blocks := (blocks p)(?i := \<lparr>object = x, is_free = False\<rparr>)\<rparr>"
  have i: "?i < pool_size p" "?i \<notin> live p" using assms(1) by (auto simp: pool_ok_def)
  have "\<forall>j < pool_size ?q. \<not> is_free (blocks ?q j)"
    by (rule full_pool_no_free) (use assms i live_alloc [OF i(1)] in simp_all)
  then have "opt_find_free True ?i ?i ?q = None" using i(1) by (intro opt_find_free_loops) simp_all
  then show "opt_allocate True x p = None"
    using i(1) by (simp add: opt_allocate_def Let_def opt_updateNextFreeIndex_def)
qed

theorem allocate_last_block_witness:
  "allocate (7::nat) (pool_new 1 0) = Inl AssertFailed \<and> opt_allocate True (7::nat) (pool_new 1 0) = None"
  using allocate_last_block [of "pool_new 1 (0::nat)" 7] by simp

end
