(* ===== verification/LinkRings.thy ===== *)
theory LinkRings
  imports Types
begin

text \<open>
  The intrusive circular doubly linked lists of the order books (the \<open>prev_order_/next_order_\<close> links
  of the orders at a price and the \<open>prev_entry_/next_entry_\<close> links of the price levels), as a
  relation between two link functions and the list of addresses they visit.

  \<open>ring nx pv xs\<close>: following \<open>nx\<close> from the head of \<open>xs\<close> visits \<open>xs\<close> and returns to the head, and \<open>pv\<close>
  goes back. Rotation makes every link surgery an operation at the end of the list.
\<close>

fun chain :: "(nat \<Rightarrow> nat option) \<Rightarrow> (nat \<Rightarrow> nat option) \<Rightarrow> nat list \<Rightarrow> bool" where
  "chain nx pv [] = True"
| "chain nx pv [x] = True"
| "chain nx pv (x # y # zs) = (nx x = Some y \<and> pv y = Some x \<and> chain nx pv (y # zs))"

definition ring :: "(nat \<Rightarrow> nat option) \<Rightarrow> (nat \<Rightarrow> nat option) \<Rightarrow> nat list \<Rightarrow> bool" where
  "ring nx pv xs \<longleftrightarrow> xs \<noteq> [] \<and> distinct xs \<and> chain nx pv (xs @ [hd xs])"

lemma chain_append: "chain nx pv (xs @ [y] @ ys) \<longleftrightarrow> chain nx pv (xs @ [y]) \<and> chain nx pv (y # ys)"
proof (induction xs)
  case Nil
  then show ?case by simp
next
  case (Cons x xs)
  then show ?case by (cases xs) auto
qed

lemma chain_cong:
  assumes "\<And>x. x \<in> set xs \<Longrightarrow> nx x = nx' x" and "\<And>x. x \<in> set xs \<Longrightarrow> pv x = pv' x"
  shows "chain nx pv xs = chain nx' pv' xs"
  using assms by (induction xs rule: chain.induct[of _ nx pv]) auto

lemma chain_cong_inner:
  assumes "\<And>x. x \<in> set xs \<Longrightarrow> nx x = nx' x" and "\<And>x. x \<in> set ys \<Longrightarrow> pv x = pv' x"
    and "xs = butlast zs" and "ys = tl zs"
  shows "chain nx pv zs = chain nx' pv' zs"
  using assms
proof (induction zs arbitrary: xs ys rule: chain.induct [of _ nx pv])
  case (3 nx pv x y zs)
  have "chain nx pv (y # zs) = chain nx' pv' (y # zs)"
    by (rule "3.IH" [OF _ _ refl refl]) (use "3.prems" in auto)
  then show ?case using "3.prems" by auto
qed auto

lemma ring_single: "ring nx pv [x] \<longleftrightarrow> nx x = Some x \<and> pv x = Some x"
  by (simp add: ring_def)

lemma ring_nonempty: "ring nx pv xs \<Longrightarrow> xs \<noteq> []"
  and ring_distinct: "ring nx pv xs \<Longrightarrow> distinct xs"
  by (simp_all add: ring_def)

lemma ring_cong:
  assumes "ring nx pv xs" and "\<And>x. x \<in> set xs \<Longrightarrow> nx' x = nx x" and "\<And>x. x \<in> set xs \<Longrightarrow> pv' x = pv x"
  shows "ring nx' pv' xs"
proof -
  have "chain nx' pv' (xs @ [hd xs]) = chain nx pv (xs @ [hd xs])"
    by (rule chain_cong) (use assms ring_nonempty [OF assms(1)] in auto)
  with assms(1) show ?thesis by (simp add: ring_def)
qed

lemma ring_Cons_snoc: "ring nx pv (x # xs) \<longleftrightarrow> ring nx pv (xs @ [x])"
proof (cases xs)
  case Nil
  then show ?thesis by simp
next
  case (Cons y ys)
  have "chain nx pv (x # y # ys @ [x]) \<longleftrightarrow> chain nx pv ((y # ys) @ [x] @ [y])"
    unfolding chain_append by auto
  with Cons show ?thesis by (auto simp: ring_def)
qed

lemma ring_rotate: "ring nx pv (xs @ ys) \<longleftrightarrow> ring nx pv (ys @ xs)"
proof (induction xs arbitrary: ys)
  case Nil
  then show ?case by simp
next
  case (Cons x xs)
  have "ring nx pv ((x # xs) @ ys) \<longleftrightarrow> ring nx pv (xs @ (ys @ [x]))"
    using ring_Cons_snoc [of nx pv x "xs @ ys"] by simp
  also have "\<dots> \<longleftrightarrow> ring nx pv ((ys @ [x]) @ xs)" by (rule Cons.IH)
  finally show ?case by simp
qed

lemma ring_next_hd: "ring nx pv (xs @ [y]) \<Longrightarrow> nx y = Some (hd (xs @ [y]))"
  and ring_prev_hd: "ring nx pv (xs @ [y]) \<Longrightarrow> pv (hd (xs @ [y])) = Some y"
proof -
  assume r: "ring nx pv (xs @ [y])"
  have "chain nx pv (xs @ [y] @ [hd (xs @ [y])])" using r by (simp add: ring_def)
  then show "nx y = Some (hd (xs @ [y]))" "pv (hd (xs @ [y])) = Some y"
    by (simp_all only: chain_append chain.simps)
qed

lemma ring_next: "ring nx pv (xs @ y # ys) \<Longrightarrow> nx y = Some (hd (ys @ xs @ [y]))"
  using ring_rotate [of nx pv xs "y # ys"] ring_Cons_snoc [of nx pv y "ys @ xs"]
    ring_next_hd [of nx pv "ys @ xs" y] by simp

lemma ring_prev: "ring nx pv (xs @ y # ys) \<Longrightarrow> pv y = Some (last (y # ys @ xs))"
proof -
  assume "ring nx pv (xs @ y # ys)"
  then have r: "ring nx pv (y # ys @ xs)" using ring_rotate [of nx pv xs "y # ys"] by simp
  show ?thesis
  proof (cases "ys @ xs" rule: rev_cases)
    case Nil
    with r show ?thesis by (simp add: ring_single)
  next
    case (snoc zs z)
    with r ring_prev_hd [of nx pv "y # zs" z] show ?thesis by simp
  qed
qed

lemma ring_last_prev_hd: "ring nx pv xs \<Longrightarrow> pv (hd xs) = Some (last xs)"
  by (cases xs rule: rev_cases) (auto dest: ring_prev_hd ring_nonempty)

lemma ring_next_last: "ring nx pv xs \<Longrightarrow> nx (last xs) = Some (hd xs)"
  by (cases xs rule: rev_cases) (auto dest: ring_next_hd ring_nonempty)

lemma hd_notin_tl: "distinct xs \<Longrightarrow> hd xs \<notin> set (tl xs)"
  by (cases xs) simp_all

text \<open>Appending: the four link writes of an insertion between the last element and the head.\<close>

lemma ring_append:
  assumes r: "ring nx pv xs" and n: "n \<notin> set xs"
    and nx: "nx' (last xs) = Some n" "nx' n = Some (hd xs)"
    and pv: "pv' (hd xs) = Some n" "pv' n = Some (last xs)"
    and nx_same: "\<And>x. x \<in> set xs \<Longrightarrow> x \<noteq> last xs \<Longrightarrow> nx' x = nx x"
    and pv_same: "\<And>x. x \<in> set xs \<Longrightarrow> x \<noteq> hd xs \<Longrightarrow> pv' x = pv x"
  shows "ring nx' pv' (xs @ [n])"
proof -
  obtain ys l where xs: "xs = ys @ [l]" using ring_nonempty [OF r] by (cases xs rule: rev_cases) auto
  have d: "distinct xs" and c: "chain nx pv (ys @ [l] @ [hd xs])"
    using r xs by (simp_all add: ring_def)
  have d': "l \<notin> set ys" using d xs by simp
  note d' = d' hd_notin_tl [OF d]
  have c': "chain nx pv xs" using c xs unfolding chain_append by simp
  have n1: "nx' x = nx x" if "x \<in> set ys" for x using that nx_same [of x] d' xs by auto
  have p1: "pv' x = pv x" if "x \<in> set (tl xs)" for x
    using that pv_same [of x] d' by (metis list.sel(2) list.set_sel(2))
  have bl: "ys = butlast xs" by (simp add: xs)
  have "chain nx' pv' xs" using c' chain_cong_inner [where nx = nx' and nx' = nx and pv = pv' and pv' = pv, OF n1 p1 bl refl]
    by blast
  then have "chain nx' pv' (ys @ [l] @ [n, hd xs])"
    using nx pv xs unfolding chain_append by simp
  then show ?thesis using xs d n by (cases ys) (simp_all add: ring_def)
qed

text \<open>Removing the head of a ring of at least two elements.\<close>

lemma ring_remove_hd:
  assumes r: "ring nx pv (x # xs)" and xs: "xs \<noteq> []"
    and nx: "nx' (last xs) = Some (hd xs)" and pv: "pv' (hd xs) = Some (last xs)"
    and nx_same: "\<And>y. y \<in> set xs \<Longrightarrow> y \<noteq> last xs \<Longrightarrow> nx' y = nx y"
    and pv_same: "\<And>y. y \<in> set xs \<Longrightarrow> y \<noteq> hd xs \<Longrightarrow> pv' y = pv y"
  shows "ring nx' pv' xs"
proof -
  obtain ys l where l: "xs = ys @ [l]" using xs by (cases xs rule: rev_cases) auto
  have d: "distinct xs" using r by (simp add: ring_def)
  have "chain nx pv ([x] @ xs @ [x])" using r by (simp add: ring_def)
  then have c: "chain nx pv xs"
    unfolding l using chain_append [of nx pv "[]" x] chain_append [of nx pv "x # ys" l "[x]"]
    by (cases ys) (auto simp: chain_append)
  have d': "l \<notin> set ys" using d l by simp
  note d' = d' hd_notin_tl [OF d]
  have n1: "nx' x = nx x" if "x \<in> set ys" for x using that nx_same [of x] d' l by auto
  have p1: "pv' x = pv x" if "x \<in> set (tl xs)" for x
    using that pv_same [of x] d' by (metis list.sel(2) list.set_sel(2))
  have bl: "ys = butlast xs" by (simp add: l)
  have "chain nx' pv' xs" using c chain_cong_inner [where nx = nx' and nx' = nx and pv = pv' and pv' = pv, OF n1 p1 bl refl]
    by blast
  then have "chain nx' pv' (ys @ [l] @ [hd xs])"
    using nx pv l unfolding chain_append by simp
  then show ?thesis using l d by (simp add: ring_def)
qed

lemma ring_remove:
  assumes r: "ring nx pv (xs @ y # ys)" and ne: "ys @ xs \<noteq> []"
    and nx: "nx' (last (ys @ xs)) = Some (hd (ys @ xs))" and pv: "pv' (hd (ys @ xs)) = Some (last (ys @ xs))"
    and nx_same: "\<And>z. z \<in> set (ys @ xs) \<Longrightarrow> z \<noteq> last (ys @ xs) \<Longrightarrow> nx' z = nx z"
    and pv_same: "\<And>z. z \<in> set (ys @ xs) \<Longrightarrow> z \<noteq> hd (ys @ xs) \<Longrightarrow> pv' z = pv z"
  shows "ring nx' pv' (xs @ ys)"
proof -
  have "ring nx pv (y # ys @ xs)" using r ring_rotate [of nx pv xs "y # ys"] by simp
  from ring_remove_hd [OF this ne nx pv nx_same pv_same] show ?thesis
    by (simp add: ring_rotate [of nx' pv' xs ys])
qed

lemma ring_next_in:
  assumes "ring nx pv xs" and "x \<in> set xs"
  shows "\<exists>y \<in> set xs. nx x = Some y"
proof -
  obtain ys zs where xs: "xs = ys @ x # zs" using split_list [OF assms(2)] by blast
  then have "nx x = Some (hd (zs @ ys @ [x]))" using assms(1) ring_next by blast
  moreover have "hd (zs @ ys @ [x]) \<in> set (zs @ ys @ [x])" by (intro hd_in_set) simp
  ultimately show ?thesis using xs by auto
qed

end
