(* ===== verification/BookCore.thy ===== *)
theory BookCore
  imports MemPool LinkRings
begin

text \<open>
  The part the two order books share: \<open>exchange/matcher/me_order_book.h\<close> and
  \<open>trading/strategy/market_order_book.h\<close> keep, with the same code, two circular doubly linked lists
  of price levels (best price first), at every level a circular doubly linked list of orders (first in,
  first out), a dense array from price to level, and two memory pools.

  \<^item> \<open>order_node\<close> holds the fields the two order structs have in common; \<open>MEOrder\<close> and \<open>MarketOrder\<close>
    extend it. \<open>orders_at_price\<close> is \<open>MEOrdersAtPrice\<close> (and \<open>MarketOrdersAtPrice\<close>, field for field).
    \<open>book\<close> holds the containers, and both book classes extend it.
  \<^item> A pointer is an index into its pool, \<open>None\<close> is \<open>nullptr\<close>.
  \<^item> \<open>side_ok\<close> and \<open>book_ok\<close> relate the pointer structure to the lists it represents, a \<open>shape\<close>: for
    each side the level addresses, best first, each with its order addresses, oldest first.
\<close>

subsection \<open>Data\<close>

record order_node =
  o_side :: Side
  o_price :: Price
  o_qty :: Qty
  o_priority :: Priority
  prev_order :: "nat option"
  next_order :: "nat option"

record orders_at_price =
  l_side :: Side
  l_price :: Price
  first_order :: "nat option"
  prev_entry :: "nat option"
  next_entry :: "nat option"

record 'x book =
  orders_at_price_pool :: "orders_at_price mem_pool"
  bids_by_price :: "nat option"
  asks_by_price :: "nat option"
  price_orders_at_price :: "nat \<Rightarrow> nat option"
  order_pool :: "'x order_node_scheme mem_pool"
  base_price :: Price

definition lev :: "('x, 'b) book_scheme \<Rightarrow> nat \<Rightarrow> orders_at_price" where
  "lev b l = pobj (orders_at_price_pool b) l"

definition ord :: "('x, 'b) book_scheme \<Rightarrow> nat \<Rightarrow> 'x order_node_scheme" where
  "ord b p = pobj (order_pool b) p"

definition upd_lev :: "nat \<Rightarrow> (orders_at_price \<Rightarrow> orders_at_price) \<Rightarrow> ('x, 'b) book_scheme \<Rightarrow> ('x, 'b) book_scheme" where
  "upd_lev l f b = b\<lparr>orders_at_price_pool := pupd l f (orders_at_price_pool b)\<rparr>"

definition upd_ord :: "nat \<Rightarrow> ('x order_node_scheme \<Rightarrow> 'x order_node_scheme) \<Rightarrow> ('x, 'b) book_scheme \<Rightarrow> ('x, 'b) book_scheme" where
  "upd_ord p f b = b\<lparr>order_pool := pupd p f (order_pool b)\<rparr>"

text \<open>\<open>(side == Side::BUY ? bids_by_price_ : asks_by_price_)\<close>, read and assigned.\<close>

definition side_head :: "Side \<Rightarrow> ('x, 'b) book_scheme \<Rightarrow> nat option" where
  "side_head s b = (if s = BUY then bids_by_price b else asks_by_price b)"

definition set_side_head :: "Side \<Rightarrow> nat option \<Rightarrow> ('x, 'b) book_scheme \<Rightarrow> ('x, 'b) book_scheme" where
  "set_side_head s h b = (if s = BUY then b\<lparr>bids_by_price := h\<rparr> else b\<lparr>asks_by_price := h\<rparr>)"

subsection \<open>Prices and levels\<close>

definition priceToIndex :: "Price \<Rightarrow> ('x, 'b) book_scheme \<Rightarrow> nat res" where
  "priceToIndex price b =
     (let idx = price - base_price b in
      bindE (fatalE (idx < 0 \<or> idx \<ge> int ME_MAX_PRICE_LEVELS)) (\<lambda>_. Inr (nat idx)))"

definition getOrdersAtPrice :: "Price \<Rightarrow> ('x, 'b) book_scheme \<Rightarrow> nat option res" where
  "getOrdersAtPrice price b = bindE (priceToIndex price b) (\<lambda>i. Inr (price_orders_at_price b i))"

definition less_aggressive :: "Side \<Rightarrow> Price \<Rightarrow> orders_at_price \<Rightarrow> bool" where
  "less_aggressive s px target \<longleftrightarrow> (s = SELL \<and> px > l_price target) \<or> (s = BUY \<and> px < l_price target)"

definition more_aggressive :: "Side \<Rightarrow> Price \<Rightarrow> orders_at_price \<Rightarrow> bool" where
  "more_aggressive s px best \<longleftrightarrow> (s = BUY \<and> px > l_price best) \<or> (s = SELL \<and> px < l_price best)"

text \<open>
  The \<open>while (add_after && target != best)\<close> loop of \<open>addOrdersAtPrice\<close>, entered with \<open>add_after\<close> true.
  A walk that has not come back to \<open>best\<close> after as many steps as the pool has blocks never does:
  \<open>fuel\<close> is the size of the pool.
\<close>

fun walk_levels :: "nat \<Rightarrow> Side \<Rightarrow> Price \<Rightarrow> nat \<Rightarrow> nat \<Rightarrow> ('x, 'b) book_scheme \<Rightarrow> (bool \<times> nat) res" where
  "walk_levels fuel s px best target b =
     (if target = best then Inr (True, target)
      else if less_aggressive s px (lev b target)
      then (if fuel = 0 then Inl Diverges
            else bindE (derefE (next_entry (lev b target))) (\<lambda>t. walk_levels (fuel - 1) s px best t b))
      else Inr (False, target))"

declare walk_levels.simps [simp del]

definition find_target :: "Side \<Rightarrow> Price \<Rightarrow> nat \<Rightarrow> ('x, 'b) book_scheme \<Rightarrow> (bool \<times> nat) res" where
  "find_target s px best b =
     (if less_aggressive s px (lev b best)
      then bindE (derefE (next_entry (lev b best))) (\<lambda>target.
           if less_aggressive s px (lev b target)
           then walk_levels (pool_size (orders_at_price_pool b)) s px best target b
           else Inr (False, target))
      else Inr (False, best))"

definition insert_level_after :: "nat \<Rightarrow> nat \<Rightarrow> ('x, 'b) book_scheme \<Rightarrow> ('x, 'b) book_scheme res" where
  "insert_level_after n target b =
     (let b1 = upd_lev n (\<lambda>l. l\<lparr>prev_entry := Some target\<rparr>) b in
      bindE (derefE (next_entry (lev b1 target))) (\<lambda>after.
      let b2 = upd_lev after (\<lambda>l. l\<lparr>prev_entry := Some n\<rparr>) b1;
          b3 = upd_lev n (\<lambda>l. l\<lparr>next_entry := next_entry (lev b2 target)\<rparr>) b2 in
      Inr (upd_lev target (\<lambda>l. l\<lparr>next_entry := Some n\<rparr>) b3)))"

definition insert_level_before :: "nat \<Rightarrow> nat \<Rightarrow> ('x, 'b) book_scheme \<Rightarrow> ('x, 'b) book_scheme res" where
  "insert_level_before n target b =
     (let b1 = upd_lev n (\<lambda>l. l\<lparr>prev_entry := prev_entry (lev b target)\<rparr>) b;
          b2 = upd_lev n (\<lambda>l. l\<lparr>next_entry := Some target\<rparr>) b1 in
      bindE (derefE (prev_entry (lev b2 target))) (\<lambda>before.
      let b3 = upd_lev before (\<lambda>l. l\<lparr>next_entry := Some n\<rparr>) b2 in
      Inr (upd_lev target (\<lambda>l. l\<lparr>prev_entry := Some n\<rparr>) b3)))"

definition addOrdersAtPrice :: "nat \<Rightarrow> ('x, 'b) book_scheme \<Rightarrow> ('x, 'b) book_scheme res" where
  "addOrdersAtPrice n b =
     (let s = l_side (lev b n); px = l_price (lev b n) in
      bindE (priceToIndex px b) (\<lambda>i.
      let b0 = b\<lparr>price_orders_at_price := (price_orders_at_price b)(i := Some n)\<rparr> in
      case side_head s b0 of
        None \<Rightarrow> Inr (upd_lev n (\<lambda>l. l\<lparr>prev_entry := Some n, next_entry := Some n\<rparr>) (set_side_head s (Some n) b0))
      | Some best \<Rightarrow>
          bindE (find_target s px best b0) (\<lambda>(add_after, target).
          if add_after
          then bindE (if target = best then derefE (prev_entry (lev b0 best)) else Inr target) (\<lambda>t.
               insert_level_after n t b0)
          else bindE (insert_level_before n target b0) (\<lambda>b1.
               if more_aggressive s px (lev b1 best)
               then Inr (set_side_head s (Some n)
                      (upd_lev target (\<lambda>l. l\<lparr>next_entry :=
                         (if next_entry l = Some best then Some n else next_entry l)\<rparr>) b1))
               else Inr b1))))"

definition removeOrdersAtPrice :: "Side \<Rightarrow> Price \<Rightarrow> ('x, 'b) book_scheme \<Rightarrow> ('x, 'b) book_scheme res" where
  "removeOrdersAtPrice s px b =
     (let best = side_head s b in
      bindE (bindE (getOrdersAtPrice px b) derefE) (\<lambda>l.
      bindE (if next_entry (lev b l) = Some l then Inr (set_side_head s None b)
             else bindE (derefE (prev_entry (lev b l))) (\<lambda>before.
                  let b1 = upd_lev before (\<lambda>x. x\<lparr>next_entry := next_entry (lev b l)\<rparr>) b in
                  bindE (derefE (next_entry (lev b1 l))) (\<lambda>after.
                  let b2 = upd_lev after (\<lambda>x. x\<lparr>prev_entry := prev_entry (lev b1 l)\<rparr>) b1 in
                  Inr (if Some l = best then set_side_head s (next_entry (lev b2 l)) b2 else b2)))) (\<lambda>b3.
      let b4 = upd_lev l (\<lambda>x. x\<lparr>next_entry := None, prev_entry := None\<rparr>) b3 in
      bindE (priceToIndex px b4) (\<lambda>i.
      let b5 = b4\<lparr>price_orders_at_price := (price_orders_at_price b4)(i := None)\<rparr> in
      bindE (deallocate l (orders_at_price_pool b5)) (\<lambda>pool.
      Inr (b5\<lparr>orders_at_price_pool := pool\<rparr>))))))"

text \<open>
  \<open>removeOrder\<close> and \<open>addOrder\<close> up to the line where the two books differ (the id map): unlinking an
  order from its level and linking it at the end of the level's queue.
\<close>

definition unlink_order :: "nat \<Rightarrow> ('x, 'b) book_scheme \<Rightarrow> ('x, 'b) book_scheme res" where
  "unlink_order p b =
     (let order = ord b p in
      bindE (getOrdersAtPrice (o_price order) b) (\<lambda>orders_at_price.
      if prev_order order = Some p then removeOrdersAtPrice (o_side order) (o_price order) b
      else bindE (derefE (prev_order order)) (\<lambda>before.
           let b1 = upd_ord before (\<lambda>x. x\<lparr>next_order := next_order order\<rparr>) b in
           bindE (derefE (next_order order)) (\<lambda>after.
           let b2 = upd_ord after (\<lambda>x. x\<lparr>prev_order := prev_order order\<rparr>) b1 in
           bindE (derefE orders_at_price) (\<lambda>l.
           let b3 = (if first_order (lev b2 l) = Some p
                     then upd_lev l (\<lambda>x. x\<lparr>first_order := next_order order\<rparr>) b2 else b2) in
           Inr (upd_ord p (\<lambda>x. x\<lparr>next_order := None, prev_order := None\<rparr>) b3))))))"

definition link_order :: "nat \<Rightarrow> ('x, 'b) book_scheme \<Rightarrow> ('x, 'b) book_scheme res" where
  "link_order p b =
     bindE (getOrdersAtPrice (o_price (ord b p)) b) (\<lambda>orders_at_price.
     case orders_at_price of
       None \<Rightarrow>
         (let b1 = upd_ord p (\<lambda>x. x\<lparr>prev_order := Some p, next_order := Some p\<rparr>) b in
          bindE (allocate \<lparr>l_side = o_side (ord b1 p), l_price = o_price (ord b1 p), first_order = Some p,
                   prev_entry = None, next_entry = None\<rparr> (orders_at_price_pool b1)) (\<lambda>(n, pool).
          addOrdersAtPrice n (b1\<lparr>orders_at_price_pool := pool\<rparr>)))
     | Some l \<Rightarrow>
         bindE (derefE (first_order (lev b l))) (\<lambda>first.
         bindE (derefE (prev_order (ord b first))) (\<lambda>last.
         let b1 = upd_ord last (\<lambda>x. x\<lparr>next_order := Some p\<rparr>) b;
             b2 = upd_ord p (\<lambda>x. x\<lparr>prev_order := prev_order (ord b1 first)\<rparr>) b1;
             b3 = upd_ord p (\<lambda>x. x\<lparr>next_order := Some first\<rparr>) b2 in
         Inr (upd_ord first (\<lambda>x. x\<lparr>prev_order := Some p\<rparr>) b3))))"

subsection \<open>Selectors after updates\<close>

lemma lev_updates [simp]:
  "lev (upd_lev l f b) k = (if k = l then f (lev b l) else lev b k)"
  "lev (upd_ord p g b) k = lev b k"
  "lev (set_side_head s h b) k = lev b k"
  "lev (b\<lparr>price_orders_at_price := m\<rparr>) k = lev b k"
  by (simp_all add: lev_def upd_lev_def upd_ord_def set_side_head_def pobj_pupd)

lemma ord_updates [simp]:
  "ord (upd_lev l f b) k = ord b k"
  "ord (upd_ord p g b) k = (if k = p then g (ord b p) else ord b k)"
  "ord (set_side_head s h b) k = ord b k"
  "ord (b\<lparr>price_orders_at_price := m\<rparr>) k = ord b k"
  "ord (b\<lparr>orders_at_price_pool := q\<rparr>) k = ord b k"
  by (simp_all add: ord_def upd_lev_def upd_ord_def set_side_head_def pobj_pupd)

lemma side_head_updates [simp]:
  "side_head s (upd_lev l f b) = side_head s b"
  "side_head s (upd_ord p g b) = side_head s b"
  "side_head s (b\<lparr>price_orders_at_price := m\<rparr>) = side_head s b"
  "side_head s (b\<lparr>orders_at_price_pool := q\<rparr>) = side_head s b"
  "side_head s (set_side_head t h b) = (if (s = BUY) = (t = BUY) then h else side_head s b)"
  by (auto simp: side_head_def upd_lev_def upd_ord_def set_side_head_def)

lemma price_map_updates [simp]:
  "price_orders_at_price (upd_lev l f b) = price_orders_at_price b"
  "price_orders_at_price (upd_ord p g b) = price_orders_at_price b"
  "price_orders_at_price (set_side_head t h b) = price_orders_at_price b"
  by (simp_all add: upd_lev_def upd_ord_def set_side_head_def)

lemma base_price_updates [simp]:
  "base_price (upd_lev l f b) = base_price b"
  "base_price (upd_ord p g b) = base_price b"
  "base_price (set_side_head t h b) = base_price b"
  by (simp_all add: upd_lev_def upd_ord_def set_side_head_def)

lemma more_updates [simp]:
  "book.more (upd_lev l f b) = book.more b"
  "book.more (upd_ord p g b) = book.more b"
  "book.more (set_side_head t h b) = book.more b"
  by (simp_all add: upd_lev_def upd_ord_def set_side_head_def)

lemma pools_updates [simp]:
  "orders_at_price_pool (upd_lev l f b) = pupd l f (orders_at_price_pool b)"
  "orders_at_price_pool (upd_ord p g b) = orders_at_price_pool b"
  "orders_at_price_pool (set_side_head t h b) = orders_at_price_pool b"
  "order_pool (upd_lev l f b) = order_pool b"
  "order_pool (upd_ord p g b) = pupd p g (order_pool b)"
  "order_pool (set_side_head t h b) = order_pool b"
  by (simp_all add: upd_lev_def upd_ord_def set_side_head_def)

subsection \<open>Price windows\<close>

definition in_window :: "Price \<Rightarrow> ('x, 'b) book_scheme \<Rightarrow> bool" where
  "in_window px b \<longleftrightarrow> base_price b \<le> px \<and> px < base_price b + int ME_MAX_PRICE_LEVELS"

definition index_of :: "Price \<Rightarrow> ('x, 'b) book_scheme \<Rightarrow> nat" where
  "index_of px b = nat (px - base_price b)"

lemma priceToIndex_in: "in_window px b \<Longrightarrow> priceToIndex px b = Inr (index_of px b)"
  by (simp add: priceToIndex_def in_window_def index_of_def Let_def)

lemma priceToIndex_out: "\<not> in_window px b \<Longrightarrow> priceToIndex px b = Inl Fatal"
  by (auto simp: priceToIndex_def in_window_def Let_def fatalE_def)

lemma getOrdersAtPrice_in: "in_window px b \<Longrightarrow> getOrdersAtPrice px b = Inr (price_orders_at_price b (index_of px b))"
  by (simp add: getOrdersAtPrice_def priceToIndex_in)

lemma getOrdersAtPrice_out: "\<not> in_window px b \<Longrightarrow> getOrdersAtPrice px b = Inl Fatal"
  by (simp add: getOrdersAtPrice_def priceToIndex_out)

lemma index_of_inj: "in_window px b \<Longrightarrow> in_window qx b \<Longrightarrow> index_of px b = index_of qx b \<longleftrightarrow> px = qx"
  by (auto simp: index_of_def in_window_def)

lemma in_window_cong: "base_price b' = base_price b \<Longrightarrow> in_window px b' = in_window px b"
  and index_of_cong: "base_price b' = base_price b \<Longrightarrow> index_of px b' = index_of px b"
  by (simp_all add: in_window_def index_of_def)

end
