(* ===== verification/BookLevels.thy ===== *)
theory BookLevels
  imports BookCore
begin

text \<open>
  The circular list of price levels: what \<open>addOrdersAtPrice\<close> and \<open>removeOrdersAtPrice\<close> do to it.

  \<^item> \<open>levels_ok b s ls\<close>: the level list of side \<open>s\<close> is the ring \<open>ls\<close>, best price first.
  \<^item> \<open>level_ok b s (l, os)\<close>: the order queue of level \<open>l\<close> is the ring \<open>os\<close>, oldest first.
  \<^item> \<open>lev_frame s A b b'\<close>: what an operation on the level links leaves alone.
\<close>

definition ahead :: "Side \<Rightarrow> Price \<Rightarrow> Price \<Rightarrow> bool" where
  "ahead s p q \<longleftrightarrow> (if s = BUY then p > q else p < q)"

lemma ahead_trans: "ahead s p q \<Longrightarrow> ahead s q r \<Longrightarrow> ahead s p r"
  by (auto simp: ahead_def split: if_splits)

lemma ahead_irrefl [simp]: "\<not> ahead s p p"
  by (simp add: ahead_def)

lemma ahead_linear: "p \<noteq> q \<Longrightarrow> ahead s p q \<or> ahead s q p"
  by (auto simp: ahead_def)

lemma ahead_asym: "ahead s p q \<Longrightarrow> \<not> ahead s q p"
  by (auto simp: ahead_def split: if_splits)

definition trading_side :: "Side \<Rightarrow> bool" where
  "trading_side s \<longleftrightarrow> s = BUY \<or> s = SELL"

lemma trading_side_simps [simp]: "trading_side BUY" "trading_side SELL"
  by (simp_all add: trading_side_def)

lemma less_aggressive_ahead: "trading_side s \<Longrightarrow> less_aggressive s px l \<longleftrightarrow> ahead s (l_price l) px"
  by (auto simp: less_aggressive_def ahead_def trading_side_def)

lemma more_aggressive_ahead: "trading_side s \<Longrightarrow> more_aggressive s px l \<longleftrightarrow> ahead s px (l_price l)"
  by (auto simp: more_aggressive_def ahead_def trading_side_def)

abbreviation lprice :: "('x, 'b) book_scheme \<Rightarrow> nat \<Rightarrow> Price" where
  "lprice b l \<equiv> l_price (lev b l)"

definition level_ring :: "('x, 'b) book_scheme \<Rightarrow> nat list \<Rightarrow> bool" where
  "level_ring b ls \<longleftrightarrow> ring (\<lambda>l. next_entry (lev b l)) (\<lambda>l. prev_entry (lev b l)) ls"

definition order_ring :: "('x, 'b) book_scheme \<Rightarrow> nat list \<Rightarrow> bool" where
  "order_ring b os \<longleftrightarrow> ring (\<lambda>p. next_order (ord b p)) (\<lambda>p. prev_order (ord b p)) os"

definition levels_ok :: "('x, 'b) book_scheme \<Rightarrow> Side \<Rightarrow> nat list \<Rightarrow> bool" where
  "levels_ok b s ls \<longleftrightarrow> side_head s b = (case ls of [] \<Rightarrow> None | l # _ \<Rightarrow> Some l) \<and>
     (ls \<noteq> [] \<longrightarrow> level_ring b ls) \<and> sorted_wrt (ahead s) (map (lprice b) ls)"

definition level_ok :: "('x, 'b) book_scheme \<Rightarrow> Side \<Rightarrow> nat \<times> nat list \<Rightarrow> bool" where
  "level_ok b s lo \<longleftrightarrow> (case lo of (l, os) \<Rightarrow>
     l_side (lev b l) = s \<and> os \<noteq> [] \<and> first_order (lev b l) = Some (hd os) \<and> order_ring b os \<and>
     (\<forall>p \<in> set os. o_side (ord b p) = s \<and> o_price (ord b p) = lprice b l))"

lemma level_ring_cong:
  assumes "level_ring b ls"
    and "\<And>l. l \<in> set ls \<Longrightarrow> next_entry (lev b' l) = next_entry (lev b l) \<and> prev_entry (lev b' l) = prev_entry (lev b l)"
  shows "level_ring b' ls"
  using assms unfolding level_ring_def by (auto intro: ring_cong)

lemma order_ring_cong:
  assumes "order_ring b os"
    and "\<And>p. p \<in> set os \<Longrightarrow> next_order (ord b' p) = next_order (ord b p) \<and> prev_order (ord b' p) = prev_order (ord b p)"
  shows "order_ring b' os"
  using assms unfolding order_ring_def by (auto intro: ring_cong)

lemma levels_ok_cong:
  assumes "levels_ok b s ls" and "side_head s b' = side_head s b"
    and "\<And>l. l \<in> set ls \<Longrightarrow> next_entry (lev b' l) = next_entry (lev b l) \<and>
           prev_entry (lev b' l) = prev_entry (lev b l) \<and> lprice b' l = lprice b l"
  shows "levels_ok b' s ls"
proof -
  have "map (lprice b') ls = map (lprice b) ls" using assms(3) by simp
  moreover have "ls \<noteq> [] \<longrightarrow> level_ring b' ls"
    using assms(1,3) level_ring_cong [of b ls b'] by (simp add: levels_ok_def)
  ultimately show ?thesis using assms(1,2) by (simp add: levels_ok_def del: map_eq_conv)
qed

lemma level_ok_cong:
  assumes "level_ok b s (l, os)"
    and "l_side (lev b' l) = l_side (lev b l)" and "lprice b' l = lprice b l"
    and "first_order (lev b' l) = first_order (lev b l)"
    and "\<And>p. p \<in> set os \<Longrightarrow> next_order (ord b' p) = next_order (ord b p) \<and> prev_order (ord b' p) = prev_order (ord b p) \<and>
           o_side (ord b' p) = o_side (ord b p) \<and> o_price (ord b' p) = o_price (ord b p)"
  shows "level_ok b' s (l, os)"
proof -
  have "order_ring b' os"
    using assms(1,5) order_ring_cong [of b os b'] by (simp add: level_ok_def)
  with assms show ?thesis by (simp add: level_ok_def)
qed

lemma levels_ok_ring: "levels_ok b s ls \<Longrightarrow> ls \<noteq> [] \<Longrightarrow> level_ring b ls"
  by (simp add: levels_ok_def)

lemma levels_ok_head: "levels_ok b s ls \<Longrightarrow> ls \<noteq> [] \<Longrightarrow> side_head s b = Some (hd ls)"
  by (cases ls) (simp_all add: levels_ok_def)

lemma levels_ok_empty: "levels_ok b s [] \<longleftrightarrow> side_head s b = None"
  by (simp add: levels_ok_def)

lemma levels_ok_head_None: "levels_ok b s ls \<Longrightarrow> side_head s b = None \<longleftrightarrow> ls = []"
  by (cases ls) (simp_all add: levels_ok_def)

lemma level_ring_distinct: "level_ring b ls \<Longrightarrow> distinct ls"
  by (simp add: level_ring_def ring_distinct)

lemma levels_ok_distinct: "levels_ok b s ls \<Longrightarrow> distinct ls"
  by (cases "ls = []") (auto dest: levels_ok_ring level_ring_distinct)

text \<open>What a change of level links leaves alone.\<close>

definition lev_frame :: "Side \<Rightarrow> nat set \<Rightarrow> nat set \<Rightarrow> ('x, 'b) book_scheme \<Rightarrow> ('x, 'b) book_scheme \<Rightarrow> bool" where
  "lev_frame s A D b b' \<longleftrightarrow>
     (\<forall>l. l_side (lev b' l) = l_side (lev b l) \<and> lprice b' l = lprice b l \<and> first_order (lev b' l) = first_order (lev b l)) \<and>
     (\<forall>l. l \<notin> A \<longrightarrow> lev b' l = lev b l) \<and>
     order_pool b' = order_pool b \<and> base_price b' = base_price b \<and> book.more b' = book.more b \<and>
     (\<forall>t. (t = BUY) \<noteq> (s = BUY) \<longrightarrow> side_head t b' = side_head t b) \<and>
     live (orders_at_price_pool b') = live (orders_at_price_pool b) - D \<and>
     (pool_ok (orders_at_price_pool b) \<longrightarrow> pool_ok (orders_at_price_pool b')) \<and>
     pool_size (orders_at_price_pool b') = pool_size (orders_at_price_pool b) \<and>
     next_free_index (orders_at_price_pool b') = next_free_index (orders_at_price_pool b)"

lemma lev_frame_refl [simp]: "lev_frame s A {} b b"
  by (simp add: lev_frame_def)

lemma lev_frame_dealloc:
  assumes "lev_frame s A {} b b'" and "deallocate l (orders_at_price_pool b') = Inr q"
    and "pool_ok (orders_at_price_pool b)" and "l \<in> live (orders_at_price_pool b)"
  shows "lev_frame s A {l} b (b'\<lparr>orders_at_price_pool := q\<rparr>)"
proof -
  have "pool_ok (orders_at_price_pool b')" "l \<in> live (orders_at_price_pool b')"
    using assms(1,3,4) by (auto simp: lev_frame_def)
  from deallocate_ok [OF this] assms(2) have "pool_ok q" "live q = live (orders_at_price_pool b') - {l}"
    "pool_size q = pool_size (orders_at_price_pool b')" "pobj q = pobj (orders_at_price_pool b')"
    by auto
  moreover have "next_free_index q = next_free_index (orders_at_price_pool b')"
    using assms(2) by (auto simp: deallocate_def res_simps set_free_def)
  ultimately show ?thesis using assms(1) by (simp add: lev_frame_def lev_def)
qed

lemma lev_frame_upd:
  assumes "l \<in> A" and "\<And>x. l_side (f x) = l_side x \<and> l_price (f x) = l_price x \<and> first_order (f x) = first_order x"
    and "lev_frame s A {} b b'"
  shows "lev_frame s A {} b (upd_lev l f b')"
  using assms by (auto simp: lev_frame_def)

lemma lev_frame_head: "lev_frame s A {} b b' \<Longrightarrow> lev_frame s A {} b (set_side_head s h b')"
  by (auto simp: lev_frame_def)

lemma lev_frame_map: "lev_frame s A {} b b' \<Longrightarrow> lev_frame s A {} b (b'\<lparr>price_orders_at_price := m\<rparr>)"
  by (simp add: lev_frame_def)

lemmas lev_frame_intros = lev_frame_refl lev_frame_head lev_frame_map lev_frame_upd

lemma lev_frame_ord: "lev_frame s A D b b' \<Longrightarrow> ord b' p = ord b p"
  by (simp add: lev_frame_def ord_def)

lemma lev_frame_level_ok:
  assumes "lev_frame s A D b b'"
  shows "level_ok b' t lo = level_ok b t lo"
proof -
  have "ord b' = ord b" using assms by (auto simp: lev_frame_ord)
  with assms show ?thesis by (simp add: level_ok_def lev_frame_def order_ring_def split: prod.split)
qed

lemma lev_frame_other_side:
  assumes "lev_frame s A D b b'" and "(t = BUY) \<noteq> (s = BUY)" and "set ls \<inter> A = {}" and "levels_ok b t ls"
  shows "levels_ok b' t ls"
proof (rule levels_ok_cong [OF assms(4)])
  show "side_head t b' = side_head t b" using assms(1,2) by (simp add: lev_frame_def)
next
  fix l assume "l \<in> set ls"
  then have "lev b' l = lev b l" using assms(1,3) by (auto simp: lev_frame_def)
  then show "next_entry (lev b' l) = next_entry (lev b l) \<and> prev_entry (lev b' l) = prev_entry (lev b l) \<and> lprice b' l = lprice b l"
    by simp
qed

subsection \<open>Finding the place of a new level\<close>

lemma walk_levels_ok:
  assumes "levels_ok b s (xs @ ys @ zs)" and "xs \<noteq> []" and "trading_side s"
    and "\<forall>y \<in> set ys. ahead s (lprice b y) px" and "\<forall>z \<in> set zs. ahead s px (lprice b z)"
    and "length ys \<le> fuel" and "target = hd (ys @ zs @ [hd xs])"
  shows "walk_levels fuel s px (hd xs) target b = Inr (if zs = [] then (True, hd xs) else (False, hd zs))"
  using assms
proof (induction ys arbitrary: xs fuel target)
  case Nil
  show ?case
  proof (cases zs)
    case Nil
    with Nil.prems show ?thesis by (simp add: walk_levels.simps [of fuel])
  next
    case (Cons z zs')
    have "z \<noteq> hd xs" using levels_ok_distinct [OF Nil.prems(1)] Cons Nil.prems(2) by (cases xs) auto
    with Cons Nil.prems show ?thesis
      by (auto simp: walk_levels.simps [of fuel] less_aggressive_ahead dest: ahead_asym)
  qed
next
  case (Cons y ys)
  have t: "target = y" using Cons.prems(7) by simp
  have ne: "y \<noteq> hd xs" using levels_ok_distinct [OF Cons.prems(1)] Cons.prems(2) by (cases xs) auto
  have r: "level_ring b (xs @ y # ys @ zs)" using levels_ok_ring [OF Cons.prems(1)] by simp
  have h: "hd ((ys @ zs) @ xs @ [y]) = hd (ys @ zs @ [hd xs])"
    using Cons.prems(2) by (cases ys; cases zs; cases xs) simp_all
  have nx: "next_entry (lev b y) = Some (hd (ys @ zs @ [hd xs]))"
    using r ring_next [of _ _ xs y "ys @ zs"] h unfolding level_ring_def by fastforce
  have hx: "hd (xs @ [y]) = hd xs" using Cons.prems(2) by simp
  have "walk_levels (fuel - 1) s px (hd (xs @ [y])) (hd (ys @ zs @ [hd (xs @ [y])])) b =
      Inr (if zs = [] then (True, hd (xs @ [y])) else (False, hd zs))"
    by (rule Cons.IH) (use Cons.prems in auto)
  then show ?case using ne nx t hx Cons.prems(3,4,6)
    by (auto simp: walk_levels.simps [of fuel] less_aggressive_ahead)
qed

lemma find_target_ok:
  assumes ok: "levels_ok b s (ys @ zs)" and ne: "ys @ zs \<noteq> []" and s: "trading_side s"
    and ys: "\<forall>y \<in> set ys. ahead s (lprice b y) px" and zs: "\<forall>z \<in> set zs. ahead s px (lprice b z)"
    and fuel: "length (ys @ zs) \<le> pool_size (orders_at_price_pool b)"
  shows "find_target s px (hd (ys @ zs)) b = Inr (if zs = [] then (True, hd ys) else (False, hd zs))"
proof (cases ys)
  case Nil
  with ne obtain z zs' where z: "zs = z # zs'" by (cases zs) auto
  with Nil zs s show ?thesis by (auto simp: find_target_def less_aggressive_ahead dest: ahead_asym)
next
  case (Cons y ys')
  have r: "level_ring b ([] @ y # ys' @ zs)" using levels_ok_ring [OF ok] Cons by simp
  have nx: "next_entry (lev b y) = Some (hd (ys' @ zs @ [y]))"
    using r ring_next [of _ _ "[]" y "ys' @ zs"] unfolding level_ring_def by fastforce
  let ?t = "hd (ys' @ zs @ [y])"
  have w: "walk_levels (pool_size (orders_at_price_pool b)) s px (hd [y]) ?t b =
      Inr (if zs = [] then (True, hd [y]) else (False, hd zs))"
    by (rule walk_levels_ok [where ys = ys']) (use ok s ys zs fuel Cons in auto)
  have a: "ahead s (lprice b y) px" using ys Cons by simp
  have t2: "?t = hd zs \<and> zs \<noteq> []" if "\<not> ahead s (lprice b ?t) px"
  proof (cases ys')
    case Nil
    show ?thesis
    proof (cases zs)
      case Nil
      with \<open>ys' = []\<close> that a show ?thesis by simp
    next
      case (Cons z zs')
      with \<open>ys' = []\<close> show ?thesis by simp
    qed
  next
    case (Cons y' ys'')
    with that ys \<open>ys = y # ys'\<close> show ?thesis by simp
  qed
  show ?thesis using Cons nx w a t2 s by (auto simp: find_target_def less_aggressive_ahead)
qed

subsection \<open>Linking a level\<close>

lemma insert_level_after_ok:
  assumes r: "level_ring b xs" and n: "n \<notin> set xs" and A: "n \<in> A" "set xs \<subseteq> A"
  shows "\<exists>b'. insert_level_after n (last xs) b = Inr b' \<and> level_ring b' (xs @ [n]) \<and> lev_frame s A {} b b' \<and>
    side_head s b' = side_head s b \<and> price_orders_at_price b' = price_orders_at_price b"
proof -
  have ne: "xs \<noteq> []" and d: "distinct xs" using r by (auto simp: level_ring_def ring_def)
  let ?l = "last xs" and ?h = "hd xs"
  have mem: "?l \<in> set xs" "?h \<in> set xs" using ne by simp_all
  then have nl: "?l \<noteq> n" "?h \<noteq> n" using n by auto
  have nx: "next_entry (lev b ?l) = Some ?h"
    using r ring_next_last [of "\<lambda>l. next_entry (lev b l)"] unfolding level_ring_def by blast
  let ?b1 = "upd_lev n (\<lambda>l. l\<lparr>prev_entry := Some ?l\<rparr>) b"
  let ?b2 = "upd_lev ?h (\<lambda>l. l\<lparr>prev_entry := Some n\<rparr>) ?b1"
  let ?b3 = "upd_lev n (\<lambda>l. l\<lparr>next_entry := next_entry (lev ?b2 ?l)\<rparr>) ?b2"
  let ?b4 = "upd_lev ?l (\<lambda>l. l\<lparr>next_entry := Some n\<rparr>) ?b3"
  have "insert_level_after n ?l b = Inr ?b4"
    using nx nl by (simp add: insert_level_after_def Let_def)
  moreover have "level_ring ?b4 (xs @ [n])"
    unfolding level_ring_def
    by (rule ring_append [OF r [unfolded level_ring_def] n]) (use nx nl n mem in auto)
  moreover have "lev_frame s A {} b ?b4"
    using mem A by (intro lev_frame_intros) auto
  ultimately show ?thesis by auto
qed

lemma insert_level_before_ok:
  assumes r: "level_ring b xs" and n: "n \<notin> set xs" and A: "n \<in> A" "set xs \<subseteq> A"
  shows "\<exists>b'. insert_level_before n (hd xs) b = Inr b' \<and> level_ring b' (xs @ [n]) \<and> lev_frame s A {} b b' \<and>
    side_head s b' = side_head s b \<and> price_orders_at_price b' = price_orders_at_price b"
proof -
  have ne: "xs \<noteq> []" and d: "distinct xs" using r by (auto simp: level_ring_def ring_def)
  let ?l = "last xs" and ?h = "hd xs"
  have mem: "?l \<in> set xs" "?h \<in> set xs" using ne by simp_all
  then have nl: "?l \<noteq> n" "?h \<noteq> n" using n by auto
  have pv: "prev_entry (lev b ?h) = Some ?l"
    using r ring_last_prev_hd [of "\<lambda>l. next_entry (lev b l)"] unfolding level_ring_def by blast
  let ?b1 = "upd_lev n (\<lambda>l. l\<lparr>prev_entry := prev_entry (lev b ?h)\<rparr>) b"
  let ?b2 = "upd_lev n (\<lambda>l. l\<lparr>next_entry := Some ?h\<rparr>) ?b1"
  let ?b3 = "upd_lev ?l (\<lambda>l. l\<lparr>next_entry := Some n\<rparr>) ?b2"
  let ?b4 = "upd_lev ?h (\<lambda>l. l\<lparr>prev_entry := Some n\<rparr>) ?b3"
  have "insert_level_before n ?h b = Inr ?b4"
    using pv nl by (simp add: insert_level_before_def Let_def)
  moreover have "level_ring ?b4 (xs @ [n])"
    unfolding level_ring_def
    by (rule ring_append [OF r [unfolded level_ring_def] n]) (use pv nl n mem in auto)
  moreover have "lev_frame s A {} b ?b4"
    using mem A by (intro lev_frame_intros) auto
  ultimately show ?thesis by auto
qed

lemma level_ring_rotate: "level_ring b (xs @ ys) \<longleftrightarrow> level_ring b (ys @ xs)"
  unfolding level_ring_def by (rule ring_rotate)

lemma levels_ok_insert_sorted:
  assumes "levels_ok b s (ys @ zs)" and "lev_frame s A {} b b'"
    and "\<forall>y \<in> set ys. ahead s (lprice b y) (lprice b n)" and "\<forall>z \<in> set zs. ahead s (lprice b n) (lprice b z)"
  shows "sorted_wrt (ahead s) (map (lprice b') (ys @ n # zs))"
proof -
  have e: "lprice b' = lprice b" using assms(2) by (auto simp: lev_frame_def)
  have "sorted_wrt (ahead s) (map (lprice b) (ys @ n # zs))"
    using assms(1,3,4) by (auto simp: levels_ok_def sorted_wrt_append intro: ahead_trans)
  with e show ?thesis by simp
qed

lemma find_target_map:
  "find_target s px best (b\<lparr>price_orders_at_price := m\<rparr>) = find_target s px best b"
proof -
  have "walk_levels fuel s px best target (b\<lparr>price_orders_at_price := m\<rparr>) = walk_levels fuel s px best target b" for fuel target
  proof (induction fuel arbitrary: target)
    case 0
    show ?case by (simp add: walk_levels.simps [of 0])
  next
    case (Suc fuel)
    then show ?case by (simp add: walk_levels.simps [of "Suc fuel"])
  qed
  then show ?thesis by (simp add: find_target_def cong: if_cong)
qed

lemma addOrdersAtPrice_ok:
  assumes ok: "levels_ok b s (ys @ zs)" and s: "s = l_side (lev b n)" "trading_side s" and n: "n \<notin> set (ys @ zs)"
    and win: "in_window (lprice b n) b"
    and ys: "\<forall>y \<in> set ys. ahead s (lprice b y) (lprice b n)" and zs: "\<forall>z \<in> set zs. ahead s (lprice b n) (lprice b z)"
    and fuel: "length (ys @ zs) \<le> pool_size (orders_at_price_pool b)"
    and A: "A = insert n (set (ys @ zs))"
  shows "\<exists>b'. addOrdersAtPrice n b = Inr b' \<and> levels_ok b' s (ys @ n # zs) \<and> lev_frame s A {} b b' \<and>
    price_orders_at_price b' = (price_orders_at_price b)(index_of (lprice b n) b := Some n)"
proof -
  let ?px = "lprice b n"
  let ?m = "(price_orders_at_price b)(index_of ?px b := Some n)"
  let ?b0 = "b\<lparr>price_orders_at_price := ?m\<rparr>"
  have m0: "price_orders_at_price ?b0 = ?m" by simp
  have f0: "lev_frame s A {} b ?b0" by (intro lev_frame_intros)
  have sorted: "sorted_wrt (ahead s) (map (lprice b') (ys @ n # zs))" if "lev_frame s A {} b b'" for b'
    using ok that ys zs by (rule levels_ok_insert_sorted)
  have idx: "priceToIndex ?px b = Inr (index_of ?px b)" by (rule priceToIndex_in [OF win])
  show ?thesis
  proof (cases "ys @ zs = []")
    case True
    have h: "side_head s b = None" using ok True by (simp add: levels_ok_def)
    let ?b' = "upd_lev n (\<lambda>l. l\<lparr>prev_entry := Some n, next_entry := Some n\<rparr>) (set_side_head s (Some n) ?b0)"
    have "addOrdersAtPrice n b = Inr ?b'" using h idx s(1) by (simp add: addOrdersAtPrice_def Let_def)
    moreover have fr: "lev_frame s A {} b ?b'" using A by (intro lev_frame_intros) auto
    moreover have "levels_ok ?b' s (ys @ n # zs)"
      using True by (simp add: levels_ok_def level_ring_def ring_single)
    ultimately show ?thesis by auto
  next
    case False
    let ?best = "hd (ys @ zs)"
    have h: "side_head s b = Some ?best" by (rule levels_ok_head [OF ok False])
    have ring: "level_ring b (ys @ zs)" by (rule levels_ok_ring [OF ok False])
    have ring0: "level_ring ?b0 (ys @ zs)" by (rule level_ring_cong [OF ring]) simp
    have ft: "find_target s ?px ?best ?b0 = Inr (if zs = [] then (True, hd ys) else (False, hd zs))"
      unfolding find_target_map by (rule find_target_ok [OF ok False s(2) ys zs fuel])
    have step: "addOrdersAtPrice n b = bindE (find_target s ?px ?best ?b0) (\<lambda>(add_after, target).
          if add_after
          then bindE (if target = ?best then derefE (prev_entry (lev ?b0 ?best)) else Inr target) (\<lambda>t.
               insert_level_after n t ?b0)
          else bindE (insert_level_before n target ?b0) (\<lambda>b1.
               if more_aggressive s ?px (lev b1 ?best)
               then Inr (set_side_head s (Some n)
                      (upd_lev target (\<lambda>l. l\<lparr>next_entry :=
                         (if next_entry l = Some ?best then Some n else next_entry l)\<rparr>) b1))
               else Inr b1))"
      using h idx s(1) by (simp add: addOrdersAtPrice_def Let_def cong: if_cong)
    show ?thesis
    proof (cases "zs = []")
      case True
      have best: "?best = hd ys" and ysne: "ys \<noteq> []" using True False by simp_all
      have pv: "prev_entry (lev ?b0 ?best) = Some (last ys)"
        using ring True ring_last_prev_hd [of "\<lambda>l. next_entry (lev b l)"] unfolding level_ring_def by fastforce
      have r: "level_ring ?b0 ys" using ring0 True by simp
      have nys: "n \<notin> set ys" "n \<in> A" "set ys \<subseteq> A" using n A by auto
      from insert_level_after_ok [OF r nys, of s] obtain b' where b':
        "insert_level_after n (last ys) ?b0 = Inr b'" "level_ring b' (ys @ [n])" "lev_frame s A {} ?b0 b'"
        "side_head s b' = side_head s ?b0" "price_orders_at_price b' = price_orders_at_price ?b0"
        by blast
      have fr: "lev_frame s A {} b b'" using b'(3) f0 by (simp add: lev_frame_def)
      have "addOrdersAtPrice n b = Inr b'" unfolding step ft using True best pv b'(1) by simp
      moreover have "levels_ok b' s (ys @ n # zs)"
        using b'(2,4) h sorted [OF fr] True ysne unfolding levels_ok_def by (cases ys) auto
      ultimately show ?thesis using fr b'(5) m0 by auto
    next
      case zsne: False
      have r: "level_ring ?b0 (zs @ ys)" using ring0 level_ring_rotate by blast
      have nzs: "n \<notin> set (zs @ ys)" "n \<in> A" "set (zs @ ys) \<subseteq> A" using n A by auto
      from insert_level_before_ok [OF r nzs, of s] obtain b1 where b1:
        "insert_level_before n (hd zs) ?b0 = Inr b1" "level_ring b1 ((zs @ ys) @ [n])" "lev_frame s A {} ?b0 b1"
        "side_head s b1 = side_head s ?b0" "price_orders_at_price b1 = price_orders_at_price ?b0"
        using zsne by auto
      have fr: "lev_frame s A {} b b1" using b1(3) f0 by (simp add: lev_frame_def)
      have r1: "level_ring b1 (ys @ n # zs)" using b1(2) level_ring_rotate [of b1 zs "ys @ [n]"] by simp
      have e1: "lprice b1 = lprice b" using fr by (auto simp: lev_frame_def)
      show ?thesis
      proof (cases ys)
        case (Cons y ys')
        then have "\<not> more_aggressive s ?px (lev b1 ?best)"
          using ys e1 s(2) by (auto simp: more_aggressive_ahead fun_eq_iff dest: ahead_asym)
        then have "addOrdersAtPrice n b = Inr b1" unfolding step ft using zsne b1(1) by simp
        moreover have "levels_ok b1 s (ys @ n # zs)"
          using r1 b1(4) h sorted [OF fr] Cons unfolding levels_ok_def by auto
        ultimately show ?thesis using fr b1(5) m0 by auto
      next
        case Nil
        then have best: "?best = hd zs" by simp
        have hz: "hd zs \<in> set zs" using zsne by simp
        have more: "more_aggressive s ?px (lev b1 ?best)"
          using zs hz e1 s(2) best by (auto simp: more_aggressive_ahead fun_eq_iff)
        let ?f = "\<lambda>l. l\<lparr>next_entry := (if next_entry l = Some ?best then Some n else next_entry l)\<rparr>"
        let ?b' = "set_side_head s (Some n) (upd_lev (hd zs) ?f b1)"
        have run: "addOrdersAtPrice n b = Inr ?b'" unfolding step ft using zsne b1(1) more by simp
        obtain z zs' where z: "zs = z # zs'" using zsne by (cases zs) auto
        have "level_ring b1 ([n] @ z # zs')" using r1 Nil z by simp
        then have "next_entry (lev b1 z) = Some (hd (zs' @ [n] @ [z]))"
          unfolding level_ring_def by (rule ring_next)
        moreover have "hd (zs' @ [n] @ [z]) \<noteq> z"
          using levels_ok_distinct [OF ok] Nil z n by (cases zs') auto
        ultimately have nb: "next_entry (lev b1 (hd zs)) \<noteq> Some ?best" using best z by simp
        have r': "level_ring ?b' (ys @ n # zs)"
          by (rule level_ring_cong [OF r1]) (use nb in auto)
        have fr': "lev_frame s A {} b ?b'"
          using fr nzs hz by (intro lev_frame_head lev_frame_upd) auto
        have "levels_ok ?b' s (ys @ n # zs)"
          using r' sorted [OF fr'] Nil unfolding levels_ok_def by simp
        with run fr' b1(5) m0 show ?thesis by auto
      qed
    qed
  qed
qed

subsection \<open>Unlinking a level\<close>

lemma removeOrdersAtPrice_ok:
  assumes ok: "levels_ok b s (ys @ l # zs)" and s: "trading_side s"
    and win: "in_window px b" and pm: "price_orders_at_price b (index_of px b) = Some l"
    and pool: "pool_ok (orders_at_price_pool b)" "l \<in> live (orders_at_price_pool b)"
    and A: "A = set (ys @ l # zs)"
  shows "\<exists>b'. removeOrdersAtPrice s px b = Inr b' \<and> levels_ok b' s (ys @ zs) \<and> lev_frame s A {l} b b' \<and>
    price_orders_at_price b' = (price_orders_at_price b)(index_of px b := None)"
proof -
  let ?ls = "ys @ l # zs"
  let ?i = "index_of px b"
  have ring: "level_ring b ?ls" using levels_ok_ring [OF ok] by simp
  have d: "distinct ?ls" by (rule level_ring_distinct [OF ring])
  have nx: "next_entry (lev b l) = Some (hd (zs @ ys @ [l]))"
    using ring unfolding level_ring_def by (rule ring_next)
  have pv: "prev_entry (lev b l) = Some (last (l # zs @ ys))"
    using ring unfolding level_ring_def by (rule ring_prev)
  have head: "side_head s b = Some (hd ?ls)" by (rule levels_ok_head [OF ok]) simp
  have getl: "getOrdersAtPrice px b = Inr (Some l)" using getOrdersAtPrice_in [OF win] pm by simp
  define mid where "mid = (if next_entry (lev b l) = Some l then Inr (set_side_head s None b)
             else bindE (derefE (prev_entry (lev b l))) (\<lambda>before.
                  let b1 = upd_lev before (\<lambda>x. x\<lparr>next_entry := next_entry (lev b l)\<rparr>) b in
                  bindE (derefE (next_entry (lev b1 l))) (\<lambda>after.
                  let b2 = upd_lev after (\<lambda>x. x\<lparr>prev_entry := prev_entry (lev b1 l)\<rparr>) b1 in
                  Inr (if Some l = side_head s b then set_side_head s (next_entry (lev b2 l)) b2 else b2))))"
  have step: "removeOrdersAtPrice s px b = bindE mid (\<lambda>b3.
      let b4 = upd_lev l (\<lambda>x. x\<lparr>next_entry := None, prev_entry := None\<rparr>) b3 in
      bindE (priceToIndex px b4) (\<lambda>i.
      let b5 = b4\<lparr>price_orders_at_price := (price_orders_at_price b4)(i := None)\<rparr> in
      bindE (deallocate l (orders_at_price_pool b5)) (\<lambda>pool.
      Inr (b5\<lparr>orders_at_price_pool := pool\<rparr>))))"
    unfolding removeOrdersAtPrice_def mid_def using getl by (simp add: Let_def)
  have mid: "\<exists>b3. mid = Inr b3 \<and> lev_frame s A {} b b3 \<and> price_orders_at_price b3 = price_orders_at_price b \<and>
      side_head s b3 = (case ys @ zs of [] \<Rightarrow> None | k # _ \<Rightarrow> Some k) \<and>
      (ys @ zs \<noteq> [] \<longrightarrow> level_ring b3 (ys @ zs))"
  proof (cases "ys @ zs = []")
    case True
    then have "mid = Inr (set_side_head s None b)" using nx by (simp add: mid_def)
    then show ?thesis using True by (auto intro!: lev_frame_intros)
  next
    case False
    let ?bf = "last (zs @ ys)" and ?af = "hd (zs @ ys)"
    have ne: "zs @ ys \<noteq> []" using False by auto
    have h1: "hd (zs @ ys @ [l]) = ?af" "last (l # zs @ ys) = ?bf" using ne by (cases zs; simp)+
    have mem: "?bf \<in> set (zs @ ys)" "?af \<in> set (zs @ ys)" using last_in_set [OF ne] hd_in_set [OF ne] by auto
    then have nl: "?bf \<noteq> l" "?af \<noteq> l" using d by (auto simp del: last_append hd_append)
    let ?b1 = "upd_lev ?bf (\<lambda>x. x\<lparr>next_entry := Some ?af\<rparr>) b"
    let ?b2 = "upd_lev ?af (\<lambda>x. x\<lparr>prev_entry := Some ?bf\<rparr>) ?b1"
    let ?b3 = "if Some l = side_head s b then set_side_head s (Some ?af) ?b2 else ?b2"
    have "mid = Inr ?b3"
      unfolding mid_def using nl by (simp add: Let_def nx [unfolded h1] pv [unfolded h1] del: last_append hd_append)
    moreover have "lev_frame s A {} b ?b3"
    proof -
      have "lev_frame s A {} b ?b2" using mem A by (intro lev_frame_intros) auto
      then show ?thesis by (simp add: lev_frame_head)
    qed
    moreover have "level_ring ?b3 (ys @ zs)"
      unfolding level_ring_def
      by (rule ring_remove [OF ring [unfolded level_ring_def] ne])
        (simp_all add: ne del: last_append hd_append)
    moreover have "side_head s ?b3 = (case ys @ zs of [] \<Rightarrow> None | k # _ \<Rightarrow> Some k)"
    proof (cases ys)
      case Nil
      with ne head show ?thesis by (cases zs) simp_all
    next
      case (Cons y ys')
      with d head show ?thesis by auto
    qed
    moreover have "price_orders_at_price ?b3 = price_orders_at_price b" by simp
    ultimately show ?thesis by blast
  qed
  then obtain b3 where b3: "mid = Inr b3" "lev_frame s A {} b b3" "price_orders_at_price b3 = price_orders_at_price b"
    "side_head s b3 = (case ys @ zs of [] \<Rightarrow> None | k # _ \<Rightarrow> Some k)" "ys @ zs \<noteq> [] \<Longrightarrow> level_ring b3 (ys @ zs)"
    by blast
  let ?b4 = "upd_lev l (\<lambda>x. x\<lparr>next_entry := None, prev_entry := None\<rparr>) b3"
  let ?b5 = "?b4\<lparr>price_orders_at_price := (price_orders_at_price b)(?i := None)\<rparr>"
  have f5: "lev_frame s A {} b ?b5" using b3(2) A by (intro lev_frame_map lev_frame_upd) auto
  have base: "base_price ?b4 = base_price b" using f5 by (simp add: lev_frame_def)
  have idx: "priceToIndex px ?b4 = Inr ?i"
    using win in_window_cong [OF base] index_of_cong [OF base] priceToIndex_in [of px ?b4] by simp
  have "pool_ok (orders_at_price_pool ?b5)" "l \<in> live (orders_at_price_pool ?b5)"
    using f5 pool by (auto simp: lev_frame_def)
  from deallocate_ok [OF this] obtain q where q: "deallocate l (orders_at_price_pool ?b5) = Inr q"
      "pobj q = pobj (orders_at_price_pool ?b5)" by blast
  let ?b' = "?b5\<lparr>orders_at_price_pool := q\<rparr>"
  have run: "removeOrdersAtPrice s px b = Inr ?b'"
    unfolding step b3(1) using idx q(1) b3(3) by (simp add: Let_def)
  have fr: "lev_frame s A {l} b ?b'" by (rule lev_frame_dealloc [OF f5 q(1) pool])
  have lev': "lev ?b' k = lev ?b5 k" for k using q(2) by (simp add: lev_def)
  have "level_ring ?b' (ys @ zs)" if "ys @ zs \<noteq> []"
    by (rule level_ring_cong [OF b3(5) [OF that]]) (use d lev' in auto)
  moreover have "side_head s ?b' = (case ys @ zs of [] \<Rightarrow> None | k # _ \<Rightarrow> Some k)"
    using b3(4) by simp
  moreover have "sorted_wrt (ahead s) (map (lprice ?b') (ys @ zs))"
  proof -
    have e: "lprice ?b' = lprice b" using fr by (auto simp: lev_frame_def)
    have "sorted_wrt (ahead s) (map (lprice b) (ys @ zs))"
      using ok by (auto simp: levels_ok_def sorted_wrt_append)
    with e show ?thesis by simp
  qed
  ultimately have "levels_ok ?b' s (ys @ zs)" by (simp add: levels_ok_def)
  with run fr show ?thesis by auto
qed

end
