(* ===== verification/BookOrders.thy ===== *)
theory BookOrders
  imports BookLevels
begin

text \<open>
  The book invariant and the two operations on whole orders that both books are built from:
  \<open>link_order\<close> (\<open>addOrder\<close>) and \<open>unlink_order\<close> (\<open>removeOrder\<close>).

  A \<open>shape\<close> is what the pointers of a book represent: for each side the levels, best first, each with
  its orders, oldest first. \<open>book_ok b S\<close> says that the book \<open>b\<close> has shape \<open>S\<close>, that the price array
  holds exactly the levels of \<open>S\<close> and that exactly these are allocated. \<open>ord_frame\<close> says that nothing
  but links changed in the orders.
\<close>

type_synonym shape = "Side \<Rightarrow> (nat \<times> nat list) list"

definition orders_of :: "(nat \<times> nat list) list \<Rightarrow> nat list" where
  "orders_of sh = concat (map snd sh)"

definition all_levels :: "shape \<Rightarrow> nat set" where
  "all_levels S = {l. \<exists>s os. trading_side s \<and> (l, os) \<in> set (S s)}"

definition all_orders :: "shape \<Rightarrow> nat set" where
  "all_orders S = {p. \<exists>s l os. trading_side s \<and> (l, os) \<in> set (S s) \<and> p \<in> set os}"

definition book_ok :: "('x, 'b) book_scheme \<Rightarrow> shape \<Rightarrow> bool" where
  "book_ok b S \<longleftrightarrow>
     (\<forall>s. trading_side s \<longrightarrow> levels_ok b s (map fst (S s)) \<and>
        (\<forall>(l, os) \<in> set (S s). level_ok b s (l, os) \<and> in_window (lprice b l) b \<and>
           price_orders_at_price b (index_of (lprice b l) b) = Some l)) \<and>
     (\<forall>i l. i < ME_MAX_PRICE_LEVELS \<longrightarrow> price_orders_at_price b i = Some l \<longrightarrow>
        l \<in> all_levels S \<and> i = index_of (lprice b l) b) \<and>
     pool_ok (orders_at_price_pool b) \<and> pool_size (orders_at_price_pool b) = ME_MAX_PRICE_LEVELS \<and>
     live (orders_at_price_pool b) = all_levels S"

definition strip :: "'x order_node_scheme \<Rightarrow> 'x order_node_scheme" where
  "strip x = x\<lparr>prev_order := None, next_order := None\<rparr>"

definition ord_frame :: "('x, 'b) book_scheme \<Rightarrow> ('x, 'b) book_scheme \<Rightarrow> bool" where
  "ord_frame b b' \<longleftrightarrow> (\<forall>q. strip (ord b' q) = strip (ord b q)) \<and>
     live (order_pool b') = live (order_pool b) \<and> pool_ok (order_pool b') = pool_ok (order_pool b) \<and>
     pool_size (order_pool b') = pool_size (order_pool b) \<and>
     next_free_index (order_pool b') = next_free_index (order_pool b) \<and>
     base_price b' = base_price b \<and> book.more b' = book.more b"

lemma strip_simps [simp]:
  "o_side (strip x) = o_side x" "o_price (strip x) = o_price x" "o_qty (strip x) = o_qty x"
  "o_priority (strip x) = o_priority x" "order_node.more (strip x) = order_node.more x"
  "strip (strip x) = strip x" "strip (x\<lparr>prev_order := a\<rparr>) = strip x" "strip (x\<lparr>next_order := c\<rparr>) = strip x"
  by (simp_all add: strip_def)

lemma strip_eqD:
  assumes "strip x = strip y"
  shows "o_side x = o_side y" "o_price x = o_price y" "o_qty x = o_qty y" "o_priority x = o_priority y"
    "order_node.more x = order_node.more y"
  using arg_cong [OF assms, of o_side] arg_cong [OF assms, of o_price] arg_cong [OF assms, of o_qty]
    arg_cong [OF assms, of o_priority] arg_cong [OF assms, of order_node.more]
  by simp_all

lemma ord_frame_refl [simp]: "ord_frame b b"
  by (simp add: ord_frame_def)

lemma ord_frame_trans: "ord_frame b b1 \<Longrightarrow> ord_frame b1 b2 \<Longrightarrow> ord_frame b b2"
  by (simp add: ord_frame_def)

lemma ord_frame_upd_ord:
  "(\<And>x. strip (f x) = strip x) \<Longrightarrow> ord_frame b b' \<Longrightarrow> ord_frame b (upd_ord p f b')"
  by (simp add: ord_frame_def)

lemma ord_frame_upd_lev: "ord_frame b b' \<Longrightarrow> ord_frame b (upd_lev l f b')"
  by (simp add: ord_frame_def)

lemma ord_frame_pool: "ord_frame b b' \<Longrightarrow> ord_frame b (b'\<lparr>orders_at_price_pool := q\<rparr>)"
  by (simp add: ord_frame_def)

lemma lev_frame_ord_frame: "lev_frame s A D b b' \<Longrightarrow> ord_frame b b'"
  by (simp add: ord_frame_def lev_frame_def ord_def)

lemma ord_frame_price: "ord_frame b b' \<Longrightarrow> o_price (ord b' q) = o_price (ord b q)"
  and ord_frame_side: "ord_frame b b' \<Longrightarrow> o_side (ord b' q) = o_side (ord b q)"
  and ord_frame_qty: "ord_frame b b' \<Longrightarrow> o_qty (ord b' q) = o_qty (ord b q)"
  by (auto simp: ord_frame_def dest: spec [where x = q] strip_eqD)

subsection \<open>Consequences of the invariant\<close>

lemma all_levelsI: "trading_side s \<Longrightarrow> (l, os) \<in> set (S s) \<Longrightarrow> l \<in> all_levels S"
  by (auto simp: all_levels_def)

lemma all_ordersI: "trading_side s \<Longrightarrow> (l, os) \<in> set (S s) \<Longrightarrow> p \<in> set os \<Longrightarrow> p \<in> all_orders S"
  by (auto simp: all_orders_def)

lemma orders_of_append [simp]: "orders_of (xs @ ys) = orders_of xs @ orders_of ys"
  and orders_of_Cons [simp]: "orders_of ((l, os) # xs) = os @ orders_of xs"
  and orders_of_Nil [simp]: "orders_of [] = []"
  by (simp_all add: orders_of_def)

lemma in_orders_of: "p \<in> set (orders_of sh) \<longleftrightarrow> (\<exists>l os. (l, os) \<in> set sh \<and> p \<in> set os)"
  by (force simp: orders_of_def)

lemma all_orders_eq: "all_orders S = {p. \<exists>s. trading_side s \<and> p \<in> set (orders_of (S s))}"
  by (auto simp: all_orders_def in_orders_of)

lemma trading_side_cases: "trading_side s \<longleftrightarrow> s = BUY \<or> s = SELL"
  by (simp add: trading_side_def)

lemma all_orders_set: "all_orders S = set (orders_of (S BUY)) \<union> set (orders_of (S SELL))"
  by (auto simp: all_orders_eq trading_side_cases)

lemma all_levels_set: "all_levels S = fst ` set (S BUY) \<union> fst ` set (S SELL)"
  by (force simp: all_levels_def trading_side_cases)

lemma finite_all_orders [simp]: "finite (all_orders S)"
  by (simp add: all_orders_set)

lemma book_okD:
  assumes "book_ok b S" and "trading_side s" and "(l, os) \<in> set (S s)"
  shows "level_ok b s (l, os)" "in_window (lprice b l) b"
    "price_orders_at_price b (index_of (lprice b l) b) = Some l"
  using assms by (auto simp: book_ok_def)

lemma book_ok_levels: "book_ok b S \<Longrightarrow> trading_side s \<Longrightarrow> levels_ok b s (map fst (S s))"
  by (simp add: book_ok_def)

lemma book_ok_pool:
  "book_ok b S \<Longrightarrow> pool_ok (orders_at_price_pool b)"
  "book_ok b S \<Longrightarrow> pool_size (orders_at_price_pool b) = ME_MAX_PRICE_LEVELS"
  "book_ok b S \<Longrightarrow> live (orders_at_price_pool b) = all_levels S"
  by (simp_all add: book_ok_def)

lemma book_okI:
  assumes "\<And>s. trading_side s \<Longrightarrow> levels_ok b s (map fst (S s))"
    and "\<And>s l os. trading_side s \<Longrightarrow> (l, os) \<in> set (S s) \<Longrightarrow> level_ok b s (l, os)"
    and "\<And>s l os. trading_side s \<Longrightarrow> (l, os) \<in> set (S s) \<Longrightarrow>
      in_window (lprice b l) b \<and> price_orders_at_price b (index_of (lprice b l) b) = Some l"
    and "\<And>i l. i < ME_MAX_PRICE_LEVELS \<Longrightarrow> price_orders_at_price b i = Some l \<Longrightarrow>
      l \<in> all_levels S \<and> i = index_of (lprice b l) b"
    and "pool_ok (orders_at_price_pool b)" "pool_size (orders_at_price_pool b) = ME_MAX_PRICE_LEVELS"
    and "live (orders_at_price_pool b) = all_levels S"
  shows "book_ok b S"
  unfolding book_ok_def using assms by blast

lemma book_ok_mapD:
  assumes "book_ok b S" and "i < ME_MAX_PRICE_LEVELS" and "price_orders_at_price b i = Some l"
  shows "l \<in> all_levels S" "i = index_of (lprice b l) b"
  using assms unfolding book_ok_def by blast+

lemma book_ok_map_Some:
  assumes "book_ok b S" and "in_window px b" and "price_orders_at_price b (index_of px b) = Some l"
  shows "\<exists>s os. trading_side s \<and> (l, os) \<in> set (S s) \<and> lprice b l = px \<and> level_ok b s (l, os)"
proof -
  have i: "index_of px b < ME_MAX_PRICE_LEVELS" using assms(2) by (auto simp: in_window_def index_of_def)
  then have "l \<in> all_levels S" "index_of px b = index_of (lprice b l) b"
    using book_ok_mapD [OF assms(1) _ assms(3)] by blast+
  then obtain s os where so: "trading_side s" "(l, os) \<in> set (S s)" by (auto simp: all_levels_def)
  have "in_window (lprice b l) b" using book_okD [OF assms(1) so] by blast
  then have "lprice b l = px" using index_of_inj [OF assms(2)] \<open>index_of px b = _\<close> by blast
  with so book_okD [OF assms(1) so] show ?thesis by blast
qed

lemma level_at_price_unique:
  assumes "book_ok b S" and "trading_side s" "(l, os) \<in> set (S s)" and "trading_side s'" "(l', os') \<in> set (S s')"
    and "lprice b l = lprice b l'"
  shows "l = l' \<and> s = s' \<and> os = os'"
proof -
  have l: "l = l'"
    using book_okD(3) [OF assms(1,2,3)] book_okD(3) [OF assms(1,4,5)] assms(6) by (metis option.inject)
  have "level_ok b s (l, os)" "level_ok b s' (l', os')"
    using book_okD(1) [OF assms(1,2,3)] book_okD(1) [OF assms(1,4,5)] by blast+
  then have s: "s = s'" using l by (auto simp: level_ok_def)
  have "distinct (map fst (S s))" using book_ok_levels [OF assms(1,2)] by (rule levels_ok_distinct)
  then have "os = os'" using assms(3,5) l s by (meson eq_key_imp_eq_value)
  with l s show ?thesis by simp
qed

lemma order_level_unique:
  assumes "book_ok b S" and "trading_side s" "(l, os) \<in> set (S s)" "p \<in> set os"
    and "trading_side s'" "(l', os') \<in> set (S s')" "p \<in> set os'"
  shows "l = l' \<and> s = s' \<and> os = os'"
proof -
  have "level_ok b s (l, os)" "level_ok b s' (l', os')"
    using book_okD(1) [OF assms(1,2,3)] book_okD(1) [OF assms(1,5,6)] by blast+
  then have "lprice b l = lprice b l'" using assms(4,7) by (auto simp: level_ok_def)
  with assms show ?thesis by (intro level_at_price_unique [OF assms(1-3,5,6)])
qed

lemma level_ok_orders: "level_ok b s (l, os) \<Longrightarrow> p \<in> set os \<Longrightarrow> o_side (ord b p) = s \<and> o_price (ord b p) = lprice b l"
  and level_ok_ring: "level_ok b s (l, os) \<Longrightarrow> order_ring b os"
  and level_ok_first: "level_ok b s (l, os) \<Longrightarrow> first_order (lev b l) = Some (hd os)"
  and level_ok_nonempty: "level_ok b s (l, os) \<Longrightarrow> os \<noteq> []"
  by (simp_all add: level_ok_def)

lemma order_in_level:
  assumes "book_ok b S" and "p \<in> all_orders S"
  obtains l os where "trading_side (o_side (ord b p))" "(l, os) \<in> set (S (o_side (ord b p)))" "p \<in> set os"
    "lprice b l = o_price (ord b p)" "in_window (o_price (ord b p)) b"
    "price_orders_at_price b (index_of (o_price (ord b p)) b) = Some l"
proof -
  from assms(2) obtain s l os where m: "trading_side s" "(l, os) \<in> set (S s)" "p \<in> set os"
    by (auto simp: all_orders_def)
  have lo: "level_ok b s (l, os)" using book_okD(1) [OF assms(1) m(1,2)] .
  have "o_side (ord b p) = s" "o_price (ord b p) = lprice b l" using level_ok_orders [OF lo m(3)] by auto
  with m book_okD [OF assms(1) m(1,2)] that show ?thesis by metis
qed

lemma distinct_orders_of:
  assumes "book_ok b S" and "trading_side s"
  shows "distinct (orders_of (S s))"
proof -
  have d: "distinct (map fst (S s))" using book_ok_levels [OF assms] by (rule levels_ok_distinct)
  have "distinct (orders_of sh)" if "set sh \<subseteq> set (S s)" and "distinct (map fst sh)" for sh
    using that
  proof (induction sh)
    case Nil
    then show ?case by simp
  next
    case (Cons lo sh)
    obtain l os where lo: "lo = (l, os)" by (cases lo)
    have m: "(l, os) \<in> set (S s)" using Cons.prems lo by simp
    have "distinct os" using level_ok_ring [OF book_okD(1) [OF assms m]] by (simp add: order_ring_def ring_distinct)
    moreover have "set os \<inter> set (orders_of sh) = {}"
    proof (rule ccontr)
      assume "set os \<inter> set (orders_of sh) \<noteq> {}"
      then obtain p l' os' where "p \<in> set os" "(l', os') \<in> set sh" "p \<in> set os'"
        by (auto simp: in_orders_of)
      then have "l' = l" using order_level_unique [OF assms m _ assms(2), of p l' os'] Cons.prems(1) by auto
      with \<open>(l', os') \<in> set sh\<close> Cons.prems(2) lo show False by force
    qed
    ultimately show ?case using Cons lo by simp
  qed
  with d show ?thesis by blast
qed

text \<open>A book in which only the contents of orders that are not in it, or fields the invariant does
  not read, have changed.\<close>

lemma book_ok_cong:
  assumes ok: "book_ok b S" and lev: "\<And>l. lev b' l = lev b l" and hd: "\<And>s. side_head s b' = side_head s b"
    and pm: "price_orders_at_price b' = price_orders_at_price b" and base: "base_price b' = base_price b"
    and pool: "orders_at_price_pool b' = orders_at_price_pool b"
    and ord: "\<And>q. q \<in> all_orders S \<Longrightarrow> next_order (ord b' q) = next_order (ord b q) \<and>
       prev_order (ord b' q) = prev_order (ord b q) \<and> o_side (ord b' q) = o_side (ord b q) \<and> o_price (ord b' q) = o_price (ord b q)"
  shows "book_ok b' S"
proof -
  have "levels_ok b' s (map fst (S s))" if "trading_side s" for s
    by (rule levels_ok_cong [OF book_ok_levels [OF ok that]]) (simp_all add: hd lev)
  moreover have "level_ok b' s (l, os)" if "trading_side s" and "(l, os) \<in> set (S s)" for s l os
    by (rule level_ok_cong [OF book_okD(1) [OF ok that]]) (use lev ord that in \<open>auto intro: all_ordersI\<close>)
  moreover have "in_window px b' = in_window px b" and "index_of px b' = index_of px b" for px
    using base by (simp_all add: in_window_def index_of_def)
  ultimately show ?thesis
    using ok unfolding book_ok_def by (auto simp: lev pm pool)
qed

text \<open>Replacing the queue of one level.\<close>

lemma book_ok_replace:
  assumes ok: "book_ok b S" and s: "trading_side s" and S: "S s = ys @ (l, os) # zs"
    and lev: "\<And>k. l_side (lev b' k) = l_side (lev b k) \<and> lprice b' k = lprice b k \<and>
        next_entry (lev b' k) = next_entry (lev b k) \<and> prev_entry (lev b' k) = prev_entry (lev b k)"
    and first: "\<And>k. k \<noteq> l \<Longrightarrow> first_order (lev b' k) = first_order (lev b k)"
    and hd: "\<And>s. side_head s b' = side_head s b"
    and pm: "price_orders_at_price b' = price_orders_at_price b" and base: "base_price b' = base_price b"
    and pool: "live (orders_at_price_pool b') = live (orders_at_price_pool b)"
      "pool_ok (orders_at_price_pool b') = pool_ok (orders_at_price_pool b)"
      "pool_size (orders_at_price_pool b') = pool_size (orders_at_price_pool b)"
    and ord: "\<And>q. q \<in> all_orders S \<Longrightarrow> q \<notin> set os \<Longrightarrow> ord b' q = ord b q"
    and lo: "level_ok b' s (l, os')"
  shows "book_ok b' (S(s := ys @ (l, os') # zs))"
proof -
  let ?S = "S(s := ys @ (l, os') # zs)"
  have m: "(l, os) \<in> set (S s)" using S by simp
  have lv: "levels_ok b' t (map fst (?S t))" if "trading_side t" for t
  proof -
    have "levels_ok b' t (map fst (S t))"
      by (rule levels_ok_cong [OF book_ok_levels [OF ok that] hd]) (use lev in auto)
    moreover have "map fst (?S t) = map fst (S t)" using S by simp
    ultimately show ?thesis by metis
  qed
  have lvl: "level_ok b' t (k, us)" if t: "trading_side t" and ks: "(k, us) \<in> set (?S t)" for t k us
  proof (cases "t = s \<and> k = l")
    case True
    have "distinct (map fst (?S s))" using lv [OF s] by (rule levels_ok_distinct)
    then have "us = os'" using ks True by (auto simp: image_iff)
    then show ?thesis using lo True by simp
  next
    case False
    then have k: "(k, us) \<in> set (S t)" using ks S by (auto split: if_splits)
    have dis: "q \<notin> set os" if "q \<in> set us" for q
      using order_level_unique [OF ok t k that s m] False by blast
    have "k \<noteq> l" using False k m book_okD(1) [OF ok t k] book_okD(1) [OF ok s m] by (auto simp: level_ok_def)
    show ?thesis
      by (rule level_ok_cong [OF book_okD(1) [OF ok t k]])
        (use lev first [OF \<open>k \<noteq> l\<close>] ord dis all_ordersI [of t k us S] t k in auto)
  qed
  have win: "in_window px b' = in_window px b" "index_of px b' = index_of px b" for px
    using base by (simp_all add: in_window_def index_of_def)
  have old: "\<exists>us'. (k, us') \<in> set (S t)" if "(k, us) \<in> set (?S t)" for t k us
    using that S by (auto split: if_splits)
  have al: "all_levels ?S = all_levels S"
    using S unfolding all_levels_def by (force split: if_splits)
  have pmk: "in_window (lprice b' k) b' \<and> price_orders_at_price b' (index_of (lprice b' k) b') = Some k"
    if "trading_side t" and "(k, us) \<in> set (?S t)" for t k us
  proof -
    from old [OF that(2)] obtain us' where "(k, us') \<in> set (S t)" by blast
    from book_okD [OF ok that(1) this] show ?thesis using lev win pm by simp
  qed
  show ?thesis
  proof (rule book_okI)
    show "levels_ok b' t (map fst (?S t))" if "trading_side t" for t using that by (rule lv)
    show "level_ok b' t (k, us)" if "trading_side t" "(k, us) \<in> set (?S t)" for t k us using that by (rule lvl)
    show "in_window (lprice b' k) b' \<and> price_orders_at_price b' (index_of (lprice b' k) b') = Some k"
      if "trading_side t" "(k, us) \<in> set (?S t)" for t k us using that by (rule pmk)
    show "k \<in> all_levels ?S \<and> i = index_of (lprice b' k) b'"
      if "i < ME_MAX_PRICE_LEVELS" "price_orders_at_price b' i = Some k" for i k
      using book_ok_mapD [OF ok] that unfolding al pm win by (simp add: lev)
    show "pool_ok (orders_at_price_pool b')" "pool_size (orders_at_price_pool b') = ME_MAX_PRICE_LEVELS"
      "live (orders_at_price_pool b') = all_levels ?S"
      by (simp_all only: al pool book_ok_pool [OF ok])
  qed
qed

subsection \<open>Where an order goes\<close>

text \<open>\<open>queue_insert\<close> is price-time priority: behind everything that is not strictly worse.\<close>

definition queue_insert :: "Side \<Rightarrow> ('a \<Rightarrow> Price) \<Rightarrow> 'a \<Rightarrow> 'a list \<Rightarrow> 'a list" where
  "queue_insert s key x xs =
     takeWhile (\<lambda>y. \<not> ahead s (key x) (key y)) xs @ x # dropWhile (\<lambda>y. \<not> ahead s (key x) (key y)) xs"

lemma queue_insert_split:
  assumes "\<forall>y \<in> set xs. \<not> ahead s (key x) (key y)" and "\<forall>y \<in> set ys. ahead s (key x) (key y)"
  shows "queue_insert s key x (xs @ ys) = xs @ x # ys"
  using assms by (cases ys) (simp_all add: queue_insert_def takeWhile_append dropWhile_append)

lemma set_queue_insert [simp]: "set (queue_insert s key x xs) = insert x (set xs)"
proof -
  have "set xs = set (takeWhile (\<lambda>y. \<not> ahead s (key x) (key y)) xs) \<union> set (dropWhile (\<lambda>y. \<not> ahead s (key x) (key y)) xs)"
    by (metis set_append takeWhile_dropWhile_id)
  then show ?thesis by (auto simp: queue_insert_def)
qed

lemma length_queue_insert: "length (queue_insert s key x xs) = Suc (length xs)"
  by (simp add: queue_insert_def) (metis length_append takeWhile_dropWhile_id)

lemma map_queue_insert:
  assumes "\<And>y. y \<in> insert x (set xs) \<Longrightarrow> key' (f y) = key y"
  shows "map f (queue_insert s key x xs) = queue_insert s key' (f x) (map f xs)"
proof -
  have "takeWhile (\<lambda>y. \<not> ahead s (key x) (key y)) xs = takeWhile (\<lambda>y. \<not> ahead s (key' (f x)) (key' (f y))) xs"
    and "dropWhile (\<lambda>y. \<not> ahead s (key x) (key y)) xs = dropWhile (\<lambda>y. \<not> ahead s (key' (f x)) (key' (f y))) xs"
    using assms by (auto intro!: takeWhile_cong dropWhile_cong)
  then show ?thesis by (simp add: queue_insert_def takeWhile_map dropWhile_map comp_def)
qed

lemma levels_ok_split:
  assumes "levels_ok b s ls" and "\<And>l. l \<in> set ls \<Longrightarrow> lprice b l \<noteq> px"
  shows "(\<forall>l \<in> set (takeWhile (\<lambda>l. ahead s (lprice b l) px) ls). ahead s (lprice b l) px) \<and>
    (\<forall>l \<in> set (dropWhile (\<lambda>l. ahead s (lprice b l) px) ls). ahead s px (lprice b l))"
proof -
  have "sorted_wrt (ahead s) (map (lprice b) ls)" using assms(1) by (simp add: levels_ok_def)
  then have "\<forall>l \<in> set (dropWhile (\<lambda>l. ahead s (lprice b l) px) ls). ahead s px (lprice b l)"
    using assms(2)
  proof (induction ls)
    case Nil
    then show ?case by simp
  next
    case (Cons l ls)
    show ?case
    proof (cases "ahead s (lprice b l) px")
      case True
      with Cons show ?thesis by simp
    next
      case False
      with Cons.prems(2) [of l] have "ahead s px (lprice b l)" using ahead_linear by auto
      with False Cons.prems(1) show ?thesis by (auto intro: ahead_trans)
    qed
  qed
  then show ?thesis by (auto dest: set_takeWhileD)
qed

lemma orders_of_levels:
  assumes "book_ok b S" and "trading_side s" and "set sh \<subseteq> set (S s)" and "q \<in> set (orders_of sh)"
  shows "\<exists>l \<in> fst ` set sh. o_price (ord b q) = lprice b l"
proof -
  from assms(4) obtain l os where m: "(l, os) \<in> set sh" "q \<in> set os" by (auto simp: in_orders_of)
  have "level_ok b s (l, os)" using book_okD(1) [OF assms(1,2)] m assms(3) by blast
  with m level_ok_orders show ?thesis by force
qed

lemma orders_queue_insert:
  assumes ok: "book_ok b S" and s: "trading_side s" and S: "S s = ys @ zs" and px: "o_price (ord b p) = px"
    and ys: "\<forall>(l, os) \<in> set ys. \<not> ahead s px (lprice b l)" and zs: "\<forall>(l, os) \<in> set zs. ahead s px (lprice b l)"
  shows "queue_insert s (\<lambda>q. o_price (ord b q)) p (orders_of (S s)) = orders_of ys @ p # orders_of zs"
proof -
  have "\<not> ahead s px (o_price (ord b q))" if "q \<in> set (orders_of ys)" for q
    using orders_of_levels [OF ok s _ that] S ys by force
  moreover have "ahead s px (o_price (ord b q))" if "q \<in> set (orders_of zs)" for q
    using orders_of_levels [OF ok s _ that] S zs by force
  ultimately show ?thesis unfolding S orders_of_append using px by (intro queue_insert_split) auto
qed

subsection \<open>Linking an order\<close>

lemma upd_ord_same_frame:
  assumes "\<And>x. o_side (f x) = o_side x" "\<And>x. o_price (f x) = o_price x"
  shows "o_side (ord (upd_ord p f b) q) = o_side (ord b q)" "o_price (ord (upd_ord p f b) q) = o_price (ord b q)"
  using assms by simp_all

lemma link_order_existing:
  assumes ok: "book_ok b S" and p: "p \<notin> all_orders S" and s: "trading_side s" "s = o_side (ord b p)"
    and px: "px = o_price (ord b p)" and win: "in_window px b"
    and m: "(l, os) \<in> set (S s)" and l: "lprice b l = px"
  shows "\<exists>b' S'. link_order p b = Inr b' \<and> book_ok b' S' \<and> ord_frame b b' \<and> (\<forall>t. t \<noteq> s \<longrightarrow> S' t = S t) \<and>
     orders_of (S' s) = queue_insert s (\<lambda>q. o_price (ord b q)) p (orders_of (S s))"
proof -
  obtain ys zs where S: "S s = ys @ (l, os) # zs" using m by (meson split_list)
  have lo: "level_ok b s (l, os)" by (rule book_okD(1) [OF ok s(1) m])
  have pos: "p \<notin> set os" using p all_ordersI [of s l os S, OF s(1) m] by blast
  let ?f = "hd os" and ?la = "last os"
  have ne: "os \<noteq> []" by (rule level_ok_nonempty [OF lo])
  have mem: "?f \<in> set os" "?la \<in> set os" using ne by simp_all
  then have np: "?f \<noteq> p" "?la \<noteq> p" using pos by auto
  have ring: "ring (\<lambda>q. next_order (ord b q)) (\<lambda>q. prev_order (ord b q)) os"
    using level_ok_ring [OF lo] by (simp add: order_ring_def)
  have pv: "prev_order (ord b ?f) = Some ?la" using ring_last_prev_hd [OF ring] .
  have first: "first_order (lev b l) = Some ?f" by (rule level_ok_first [OF lo])
  have get: "getOrdersAtPrice (o_price (ord b p)) b = Inr (Some l)"
    using getOrdersAtPrice_in [OF win] book_okD(3) [OF ok s(1) m] l px by simp
  let ?b1 = "upd_ord ?la (\<lambda>x. x\<lparr>next_order := Some p\<rparr>) b"
  let ?b2 = "upd_ord p (\<lambda>x. x\<lparr>prev_order := prev_order (ord ?b1 ?f)\<rparr>) ?b1"
  let ?b3 = "upd_ord p (\<lambda>x. x\<lparr>next_order := Some ?f\<rparr>) ?b2"
  let ?b4 = "upd_ord ?f (\<lambda>x. x\<lparr>prev_order := Some p\<rparr>) ?b3"
  have run: "link_order p b = Inr ?b4"
    unfolding link_order_def get using first pv by (simp add: Let_def)
  have fr: "ord_frame b ?b4" by (intro ord_frame_upd_ord ord_frame_refl) simp_all
  have sp: "o_side (ord ?b4 q) = o_side (ord b q)" "o_price (ord ?b4 q) = o_price (ord b q)" for q
    using ord_frame_side [OF fr] ord_frame_price [OF fr] by auto
  have ring4: "order_ring ?b4 (os @ [p])"
    unfolding order_ring_def by (rule ring_append [OF ring pos]) (use pv np mem pos in auto)
  have lo4: "level_ok ?b4 s (l, os @ [p])"
  proof -
    have "first_order (lev ?b4 l) = Some (hd (os @ [p]))" using first ne by simp
    moreover have "\<forall>q \<in> set (os @ [p]). o_side (ord ?b4 q) = s \<and> o_price (ord ?b4 q) = lprice ?b4 l"
      unfolding sp using level_ok_orders [OF lo] s l px by auto
    moreover have "l_side (lev ?b4 l) = s" using lo by (simp add: level_ok_def)
    ultimately show ?thesis using ring4 unfolding level_ok_def by simp
  qed
  let ?S = "S(s := ys @ (l, os @ [p]) # zs)"
  have "book_ok ?b4 ?S"
  proof (rule book_ok_replace [OF ok s(1) S])
    show "ord ?b4 q = ord b q" if "q \<in> all_orders S" "q \<notin> set os" for q
    proof -
      have "q \<noteq> p" "q \<noteq> ?f" "q \<noteq> ?la" using that p mem by auto
      then show ?thesis by simp
    qed
  qed (use lo4 in simp_all)
  moreover have "orders_of (?S s) = queue_insert s (\<lambda>q. o_price (ord b q)) p (orders_of (S s))"
  proof -
    have srt: "sorted_wrt (ahead s) (map (lprice b) (map fst (ys @ (l, os) # zs)))"
      using book_ok_levels [OF ok s(1)] S by (simp add: levels_ok_def)
    have S2: "S s = (ys @ [(l, os)]) @ zs" using S by simp
    have "queue_insert s (\<lambda>q. o_price (ord b q)) p (orders_of (S s)) = orders_of (ys @ [(l, os)]) @ p # orders_of zs"
    proof (rule orders_queue_insert [OF ok s(1) S2 px [symmetric]])
      have "\<not> ahead s px (lprice b k)" if k: "(k, us) \<in> set (ys @ [(l, os)])" for k us
      proof (cases "(k, us) \<in> set ys")
        case True
        then have "ahead s (lprice b k) (lprice b l)" using srt by (force simp: sorted_wrt_append)
        then show ?thesis using l ahead_asym by blast
      next
        case False
        then show ?thesis using k l by simp
      qed
      then show "\<forall>(k, us) \<in> set (ys @ [(l, os)]). \<not> ahead s px (lprice b k)" by blast
      show "\<forall>(k, us) \<in> set zs. ahead s px (lprice b k)"
        using srt l by (auto simp: sorted_wrt_append)
    qed
    then show ?thesis by simp
  qed
  ultimately show ?thesis using run fr by (intro exI [of _ ?b4] exI [of _ ?S]) simp
qed

lemma link_order_new:
  assumes ok: "book_ok b S" and p: "p \<notin> all_orders S" and s: "trading_side s" "s = o_side (ord b p)"
    and px: "px = o_price (ord b p)" and win: "in_window px b"
    and free: "price_orders_at_price b (index_of px b) = None"
    and room: "card (all_levels S) + 1 < ME_MAX_PRICE_LEVELS"
  shows "\<exists>b' S'. link_order p b = Inr b' \<and> book_ok b' S' \<and> ord_frame b b' \<and> (\<forall>t. t \<noteq> s \<longrightarrow> S' t = S t) \<and>
     orders_of (S' s) = queue_insert s (\<lambda>q. o_price (ord b q)) p (orders_of (S s))"
proof -
  let ?b1 = "upd_ord p (\<lambda>x. x\<lparr>prev_order := Some p, next_order := Some p\<rparr>) b"
  let ?new = "\<lparr>l_side = s, l_price = px, first_order = Some p, prev_entry = None, next_entry = None\<rparr>"
  have "card (live (orders_at_price_pool b)) + 1 < pool_size (orders_at_price_pool b)"
    using room book_ok_pool [OF ok] by simp
  from allocate_ok [OF book_ok_pool(1) [OF ok] this, of ?new] obtain q where
    al: "allocate ?new (orders_at_price_pool b) = Inr (next_free_index (orders_at_price_pool b), q)"
    and q: "pool_ok q" "live q = insert (next_free_index (orders_at_price_pool b)) (live (orders_at_price_pool b))"
      "pool_size q = pool_size (orders_at_price_pool b)"
      "pobj q = (pobj (orders_at_price_pool b))(next_free_index (orders_at_price_pool b) := ?new)"
    and nn: "next_free_index (orders_at_price_pool b) \<notin> live (orders_at_price_pool b)"
    by blast
  define n where "n = next_free_index (orders_at_price_pool b)"
  let ?b2 = "?b1\<lparr>orders_at_price_pool := q\<rparr>"
  have n: "n \<notin> all_levels S" using nn book_ok_pool(3) [OF ok] n_def by simp
  have lev2: "lev ?b2 k = (if k = n then ?new else lev b k)" for k
    using q(4) by (simp add: lev_def n_def)
  have run: "link_order p b = addOrdersAtPrice n ?b2"
    using getOrdersAtPrice_in [OF win] free al px s by (simp add: link_order_def Let_def n_def)
  have nk: "k \<noteq> n" if "trading_side t" "(k, us) \<in> set (S t)" for t k us
    using n all_levelsI [of t k us S] that by blast
  have nk2: "k \<noteq> n" if t: "trading_side t" and k: "k \<in> set (map fst (S t))" for t k
  proof -
    obtain us where us: "(k, us) \<in> set (S t)" using k by auto
    show ?thesis by (rule nk [OF t us])
  qed
  have pus: "p \<notin> set us" if "trading_side t" "(k, us) \<in> set (S t)" for t k us
    using p all_ordersI [of t k us S] that by blast
  have fr2: "ord_frame b ?b2"
    by (intro ord_frame_pool ord_frame_upd_ord ord_frame_refl) (simp add: strip_def)
  have lvs2: "levels_ok ?b2 t (map fst (S t))" if t: "trading_side t" for t
    by (rule levels_ok_cong [OF book_ok_levels [OF ok t]]) (use lev2 nk2 [OF t] in auto)
  have lo2: "level_ok ?b2 t (k, us)" if "trading_side t" "(k, us) \<in> set (S t)" for t k us
    by (rule level_ok_cong [OF book_okD(1) [OF ok that]]) (use lev2 nk [OF that] pus [OF that] in auto)
  have lp: "lprice ?b2 k = lprice b k" if "trading_side t" "(k, us) \<in> set (S t)" for t k us
    using lev2 nk [OF that] by simp
  have win2: "in_window px ?b2" using win by (simp add: in_window_def)
  have ne_px: "lprice b k \<noteq> px" if "trading_side t" "(k, us) \<in> set (S t)" for t k us
    using book_okD(3) [OF ok that] free by auto
  have ne_px2: "lprice b k \<noteq> px" if t: "trading_side t" and k: "k \<in> set (map fst (S t))" for t k
  proof -
    obtain us where us: "(k, us) \<in> set (S t)" using k by auto
    show ?thesis by (rule ne_px [OF t us])
  qed
  let ?P = "\<lambda>lo. ahead s (lprice b (fst lo)) px"
  define ys where "ys = takeWhile ?P (S s)"
  define zs where "zs = dropWhile ?P (S s)"
  have S: "S s = ys @ zs" by (simp add: ys_def zs_def)
  have mf: "map fst ys = takeWhile (\<lambda>l. ahead s (lprice b l) px) (map fst (S s))"
    "map fst zs = dropWhile (\<lambda>l. ahead s (lprice b l) px) (map fst (S s))"
    by (simp_all add: ys_def zs_def takeWhile_map dropWhile_map comp_def)
  have split: "(\<forall>l \<in> set (map fst ys). ahead s (lprice b l) px) \<and> (\<forall>l \<in> set (map fst zs). ahead s px (lprice b l))"
    unfolding mf by (rule levels_ok_split [OF book_ok_levels [OF ok s(1)]]) (rule ne_px2 [OF s(1)])
  have yss: "(k, us) \<in> set (S s)" if "(k, us) \<in> set ys \<or> (k, us) \<in> set zs" for k us using that S by auto
  have cardS: "length (map fst ys @ map fst zs) \<le> pool_size (orders_at_price_pool ?b2)"
  proof -
    have d: "distinct (map fst (S s))" using book_ok_levels [OF ok s(1)] by (rule levels_ok_distinct)
    have "set (map fst (S s)) \<subseteq> all_levels S" using all_levelsI [OF s(1)] by fastforce
    moreover have "finite (all_levels S)" by (simp add: all_levels_set)
    ultimately have "length (map fst (S s)) \<le> card (all_levels S)"
      using distinct_card [OF d] card_mono by metis
    then show ?thesis using room q(3) book_ok_pool(2) [OF ok] S by simp
  qed
  have lpn: "lprice ?b2 n = px" "s = l_side (lev ?b2 n)" using lev2 by simp_all
  have nys: "n \<notin> set (map fst ys @ map fst zs)"
    using nk2 [OF s(1), of n] unfolding S map_append by blast
  have lv: "levels_ok ?b2 s (map fst ys @ map fst zs)" using lvs2 [OF s(1)] S by simp
  have A: "\<forall>y \<in> set (map fst ys). ahead s (lprice ?b2 y) (lprice ?b2 n)"
    "\<forall>z \<in> set (map fst zs). ahead s (lprice ?b2 n) (lprice ?b2 z)"
    using split lp [OF s(1) yss] lpn by fastforce+
  have win3: "in_window (lprice ?b2 n) ?b2" using win2 lpn by simp
  from addOrdersAtPrice_ok [OF lv lpn(2) s(1) nys win3 A cardS refl] lpn(1) obtain b' where b':
    "addOrdersAtPrice n ?b2 = Inr b'" "levels_ok b' s (map fst ys @ n # map fst zs)"
    "lev_frame s (insert n (set (map fst ys @ map fst zs))) {} ?b2 b'"
    "price_orders_at_price b' = (price_orders_at_price ?b2)(index_of px ?b2 := Some n)"
    by auto
  let ?S = "S(s := ys @ (n, [p]) # zs)"
  have frame: "ord_frame b b'" using fr2 lev_frame_ord_frame [OF b'(3)] by (rule ord_frame_trans)
  have base: "base_price b' = base_price b" using frame by (simp add: ord_frame_def)
  have win': "in_window x b' = in_window x b" "index_of x b' = index_of x b" "index_of x ?b2 = index_of x b" for x
    using base by (simp_all add: in_window_def index_of_def)
  have lp': "lprice b' k = lprice ?b2 k" for k using b'(3) by (simp add: lev_frame_def)
  have pm': "price_orders_at_price b' = (price_orders_at_price b)(index_of px b := Some n)"
    using b'(4) win' by simp
  have mem: "(t = s \<and> k = n \<and> us = [p]) \<or> (k, us) \<in> set (S t)" if "(k, us) \<in> set (?S t)" for t k us
    using that S by (auto split: if_splits)
  have al_eq: "all_levels ?S = insert n (all_levels S)"
  proof -
    have "set (?S s) = insert (n, [p]) (set (S s))" using S by auto
    moreover have "set (?S t) = set (S t)" if "t \<noteq> s" for t using that by simp
    ultimately show ?thesis using s(1) unfolding all_levels_def by (auto; metis)
  qed
  have "book_ok b' ?S"
  proof (rule book_okI)
    show "levels_ok b' t (map fst (?S t))" if t: "trading_side t" for t
    proof (cases "t = s")
      case True
      then show ?thesis using b'(2) by simp
    next
      case False
      have sides: "(t = BUY) \<noteq> (s = BUY)" using t s(1) False by (auto simp: trading_side_def)
      have dis: "set (map fst (S t)) \<inter> insert n (set (map fst ys @ map fst zs)) = {}"
      proof -
        have "k \<notin> insert n (set (map fst ys @ map fst zs))" if k0: "k \<in> set (map fst (S t))" for k
        proof
          obtain us where k: "(k, us) \<in> set (S t)" using k0 by auto
          assume "k \<in> insert n (set (map fst ys @ map fst zs))"
          then have "k \<in> fst ` set (S s)" using nk2 [OF t k0] unfolding S by force
          then obtain vs where "(k, vs) \<in> set (S s)" by auto
          from level_at_price_unique [OF ok t k s(1) this] False show False by simp
        qed
        then show ?thesis by blast
      qed
      show ?thesis using lev_frame_other_side [OF b'(3) sides dis lvs2 [OF t]] False by simp
    qed
    have lon: "level_ok ?b2 s (n, [p])"
      using lev2 s px by (simp add: level_ok_def order_ring_def ring_single)
    show "level_ok b' t (k, us)" if "trading_side t" "(k, us) \<in> set (?S t)" for t k us
      unfolding lev_frame_level_ok [OF b'(3)] using mem [OF that(2)] lon lo2 [OF that(1)] by blast
    show "in_window (lprice b' k) b' \<and> price_orders_at_price b' (index_of (lprice b' k) b') = Some k"
      if t: "trading_side t" and k: "(k, us) \<in> set (?S t)" for t k us
    proof -
      from mem [OF k] show ?thesis
      proof
        assume "t = s \<and> k = n \<and> us = [p]"
        then show ?thesis using lp' lpn win win' pm' by simp
      next
        assume k: "(k, us) \<in> set (S t)"
        have "index_of (lprice b k) b \<noteq> index_of px b"
          using index_of_inj [OF book_okD(2) [OF ok t k] win] ne_px [OF t k] by simp
        then show ?thesis using lp' lp [OF t k] book_okD [OF ok t k] win' pm' by simp
      qed
    qed
    show "k \<in> all_levels ?S \<and> i = index_of (lprice b' k) b'"
      if i: "i < ME_MAX_PRICE_LEVELS" "price_orders_at_price b' i = Some k" for i k
    proof (cases "i = index_of px b")
      case True
      then have "k = n" using i pm' by simp
      then show ?thesis using True al_eq lp' lpn win' by simp
    next
      case False
      then have pmi: "price_orders_at_price b i = Some k" using i pm' by simp
      from book_ok_mapD [OF ok i(1) this] have k: "k \<in> all_levels S" "i = index_of (lprice b k) b" .
      then have "lprice ?b2 k = lprice b k" using lev2 n by auto
      then show ?thesis using k al_eq lp' win' by simp
    qed
    show "pool_ok (orders_at_price_pool b')" "pool_size (orders_at_price_pool b') = ME_MAX_PRICE_LEVELS"
      "live (orders_at_price_pool b') = all_levels ?S"
      using b'(3) q book_ok_pool [OF ok] unfolding al_eq by (simp_all add: lev_frame_def n_def)
  qed
  moreover have "orders_of (?S s) = queue_insert s (\<lambda>q. o_price (ord b q)) p (orders_of (S s))"
  proof -
    have b: "\<not> ahead s px (lprice b k)" if "(k, us) \<in> set ys" for k us
      using split that ahead_asym by force
    have "queue_insert s (\<lambda>q. o_price (ord b q)) p (orders_of (S s)) = orders_of ys @ p # orders_of zs"
      by (rule orders_queue_insert [OF ok s(1) S px [symmetric]]) (use split b in auto)
    then show ?thesis by simp
  qed
  ultimately show ?thesis using run b'(1) frame by (intro exI [of _ b'] exI [of _ ?S]) simp
qed

text \<open>\<open>addOrder\<close>: an order may go to a price at which no level of the other side stands.\<close>

lemma link_order_ok:
  assumes ok: "book_ok b S" and p: "p \<notin> all_orders S" and s: "trading_side s" "s = o_side (ord b p)"
    and win: "in_window (o_price (ord b p)) b"
    and opp: "\<And>t q. trading_side t \<Longrightarrow> t \<noteq> s \<Longrightarrow> q \<in> set (orders_of (S t)) \<Longrightarrow> o_price (ord b q) \<noteq> o_price (ord b p)"
    and room: "card (all_levels S) + 1 < ME_MAX_PRICE_LEVELS"
  shows "\<exists>b' S'. link_order p b = Inr b' \<and> book_ok b' S' \<and> ord_frame b b' \<and> (\<forall>t. t \<noteq> s \<longrightarrow> S' t = S t) \<and>
     orders_of (S' s) = queue_insert s (\<lambda>q. o_price (ord b q)) p (orders_of (S s))"
proof (cases "price_orders_at_price b (index_of (o_price (ord b p)) b)")
  case None
  show ?thesis by (rule link_order_new [OF ok p s refl win None room])
next
  case (Some l)
  from book_ok_map_Some [OF ok win Some] obtain t os where
    m: "trading_side t" "(l, os) \<in> set (S t)" "lprice b l = o_price (ord b p)" "level_ok b t (l, os)" by blast
  have "t = s"
  proof (rule ccontr)
    assume "t \<noteq> s"
    obtain q where q: "q \<in> set os" using level_ok_nonempty [OF m(4)] by (meson last_in_set)
    then have "q \<in> set (orders_of (S t))" using m(2) by (auto simp: in_orders_of)
    then have "o_price (ord b q) \<noteq> o_price (ord b p)" by (rule opp [OF m(1) \<open>t \<noteq> s\<close>])
    then show False using level_ok_orders [OF m(4) q] m(3) by simp
  qed
  then show ?thesis using link_order_existing [OF ok p s refl win _ m(3)] m(2) by blast
qed

subsection \<open>Unlinking an order\<close>

lemma order_ring_remove_mid:
  assumes ring: "order_ring b (as @ p # bs)" and ne: "bs @ as \<noteq> []"
    and b': "b' = upd_ord p (\<lambda>x. x\<lparr>next_order := None, prev_order := None\<rparr>)
        (upd_ord (hd (bs @ as)) (\<lambda>x. x\<lparr>prev_order := Some (last (bs @ as))\<rparr>)
          (upd_ord (last (bs @ as)) (\<lambda>x. x\<lparr>next_order := Some (hd (bs @ as))\<rparr>) b))"
  shows "order_ring b' (as @ bs)"
proof -
  have r: "ring (\<lambda>q. next_order (ord b q)) (\<lambda>q. prev_order (ord b q)) (as @ p # bs)"
    using ring by (simp add: order_ring_def)
  have np: "p \<notin> set (bs @ as)" using ring_distinct [OF r] by auto
  then have "hd (bs @ as) \<noteq> p" "last (bs @ as) \<noteq> p"
    using hd_in_set [OF ne] last_in_set [OF ne] by metis+
  then show ?thesis
    unfolding order_ring_def b'
    by (intro ring_remove [OF r ne]) (use np in \<open>auto simp del: hd_append last_append\<close>)
qed

lemma orders_of_remove:
  assumes ok: "book_ok b S" and s: "trading_side s" and S: "S s = ys @ (l, as @ p # bs) # zs"
  shows "remove1 p (orders_of (S s)) = orders_of ys @ as @ bs @ orders_of zs"
proof -
  have d: "distinct (orders_of (S s))" by (rule distinct_orders_of [OF ok s])
  then have "p \<notin> set (orders_of ys)" "p \<notin> set as" unfolding S by auto
  then show ?thesis unfolding S by (simp add: remove1_append)
qed

lemma unlink_order_inner:
  assumes ok: "book_ok b S" and s: "trading_side s" and S: "S s = ys @ (l, as @ p # bs) # zs"
    and ne: "bs @ as \<noteq> []" and side: "o_side (ord b p) = s"
  shows "\<exists>b'. unlink_order p b = Inr b' \<and> book_ok b' (S(s := ys @ (l, as @ bs) # zs)) \<and> ord_frame b b'"
proof -
  have m: "(l, as @ p # bs) \<in> set (S s)" using S by simp
  have lo: "level_ok b s (l, as @ p # bs)" by (rule book_okD(1) [OF ok s m])
  have px: "o_price (ord b p) = lprice b l" using level_ok_orders [OF lo, of p] by simp
  have ring: "order_ring b (as @ p # bs)" by (rule level_ok_ring [OF lo])
  then have d: "distinct (as @ p # bs)" unfolding order_ring_def by (rule ring_distinct)
  let ?bf = "last (bs @ as)" and ?af = "hd (bs @ as)"
  have h: "hd (bs @ as @ [p]) = ?af" "last (p # bs @ as) = ?bf" using ne by (cases bs; simp)+
  have pv: "prev_order (ord b p) = Some ?bf" and nx: "next_order (ord b p) = Some ?af"
    using ring ring_prev [of _ _ as p bs] ring_next [of _ _ as p bs] unfolding order_ring_def h by blast+
  have mem: "?bf \<in> set (bs @ as)" "?af \<in> set (bs @ as)" using last_in_set [OF ne] hd_in_set [OF ne] by auto
  then have nep: "?bf \<noteq> p" "?af \<noteq> p" using d by (auto simp del: hd_append last_append)
  have get: "getOrdersAtPrice (o_price (ord b p)) b = Inr (Some l)"
    using getOrdersAtPrice_in book_okD(2,3) [OF ok s m] px by metis
  let ?b1 = "upd_ord ?bf (\<lambda>x. x\<lparr>next_order := Some ?af\<rparr>) b"
  let ?b2 = "upd_ord ?af (\<lambda>x. x\<lparr>prev_order := Some ?bf\<rparr>) ?b1"
  let ?b3 = "if first_order (lev ?b2 l) = Some p then upd_lev l (\<lambda>x. x\<lparr>first_order := Some ?af\<rparr>) ?b2 else ?b2"
  let ?b4 = "upd_ord p (\<lambda>x. x\<lparr>next_order := None, prev_order := None\<rparr>) ?b3"
  have run: "unlink_order p b = Inr ?b4"
    using get pv nx nep by (simp add: unlink_order_def Let_def del: hd_append last_append)
  have fr: "ord_frame b ?b4"
  proof -
    have "ord_frame b ?b2" by (intro ord_frame_upd_ord ord_frame_refl) simp_all
    then have "ord_frame b ?b3" by (simp add: ord_frame_upd_lev)
    then show ?thesis by (rule ord_frame_upd_ord [rotated]) (simp add: strip_def)
  qed
  have ord4: "ord ?b4 q = ord (upd_ord p (\<lambda>x. x\<lparr>next_order := None, prev_order := None\<rparr>) ?b2) q" for q
    by simp
  have "order_ring (upd_ord p (\<lambda>x. x\<lparr>next_order := None, prev_order := None\<rparr>) ?b2) (as @ bs)"
    by (rule order_ring_remove_mid [OF ring ne refl])
  then have ring4: "order_ring ?b4 (as @ bs)"
    by (rule order_ring_cong) (simp only: ord4)
  have hdp: "first_order (lev b l) = Some p \<longleftrightarrow> as = []"
    using level_ok_first [OF lo] d by (cases as) auto
  have first4: "first_order (lev ?b4 l) = Some (hd (as @ bs))"
  proof (cases as)
    case Nil
    then show ?thesis using hdp by simp
  next
    case (Cons a as')
    then show ?thesis using hdp level_ok_first [OF lo] by simp
  qed
  have lo4: "level_ok ?b4 s (l, as @ bs)"
  proof -
    have "\<forall>q \<in> set (as @ bs). o_side (ord ?b4 q) = s \<and> o_price (ord ?b4 q) = lprice ?b4 l"
    proof
      fix q assume "q \<in> set (as @ bs)"
      then have "o_side (ord b q) = s \<and> o_price (ord b q) = lprice b l" using level_ok_orders [OF lo, of q] by auto
      then show "o_side (ord ?b4 q) = s \<and> o_price (ord ?b4 q) = lprice ?b4 l"
        using ord_frame_side [OF fr, of q] ord_frame_price [OF fr, of q] by simp
    qed
    moreover have "l_side (lev ?b4 l) = s" using lo by (simp add: level_ok_def)
    ultimately show ?thesis using ring4 first4 ne unfolding level_ok_def by auto
  qed
  have "book_ok ?b4 (S(s := ys @ (l, as @ bs) # zs))"
  proof (rule book_ok_replace [OF ok s S])
    show "ord ?b4 q = ord b q" if "q \<in> all_orders S" "q \<notin> set (as @ p # bs)" for q
    proof -
      have "q \<noteq> p" "q \<noteq> ?bf" "q \<noteq> ?af" using that(2) mem by auto
      then show ?thesis by simp
    qed
  qed (use lo4 in simp_all)
  with run fr show ?thesis by blast
qed

lemma unlink_order_last:
  assumes ok: "book_ok b S" and s: "trading_side s" and S: "S s = ys @ (l, [p]) # zs"
    and side: "o_side (ord b p) = s"
  shows "\<exists>b'. unlink_order p b = Inr b' \<and> book_ok b' (S(s := ys @ zs)) \<and> ord_frame b b'"
proof -
  have m: "(l, [p]) \<in> set (S s)" using S by simp
  have lo: "level_ok b s (l, [p])" by (rule book_okD(1) [OF ok s m])
  have px: "o_price (ord b p) = lprice b l" using level_ok_orders [OF lo, of p] by simp
  let ?px = "lprice b l"
  have win: "in_window ?px b" and pm: "price_orders_at_price b (index_of ?px b) = Some l"
    using book_okD [OF ok s m] by auto
  have pv: "prev_order (ord b p) = Some p"
    using level_ok_ring [OF lo] by (simp add: order_ring_def ring_single)
  have run: "unlink_order p b = removeOrdersAtPrice s ?px b"
    using getOrdersAtPrice_in [OF win] pm pv px side by (simp add: unlink_order_def Let_def)
  have lv: "levels_ok b s (map fst ys @ l # map fst zs)" using book_ok_levels [OF ok s] S by simp
  have liv: "l \<in> live (orders_at_price_pool b)"
    using book_ok_pool(3) [OF ok] all_levelsI [of s l "[p]" S, OF s m] by simp
  from removeOrdersAtPrice_ok [OF lv s win pm book_ok_pool(1) [OF ok] liv refl] obtain b' where
    b': "removeOrdersAtPrice s ?px b = Inr b'" "levels_ok b' s (map fst ys @ map fst zs)"
      "lev_frame s (set (map fst ys @ l # map fst zs)) {l} b b'"
      "price_orders_at_price b' = (price_orders_at_price b)(index_of ?px b := None)"
    by blast
  let ?S = "S(s := ys @ zs)"
  have frame: "ord_frame b b'" by (rule lev_frame_ord_frame [OF b'(3)])
  have base: "base_price b' = base_price b" using frame by (simp add: ord_frame_def)
  have win': "in_window x b' = in_window x b" "index_of x b' = index_of x b" for x
    using base by (simp_all add: in_window_def index_of_def)
  have lp': "lprice b' k = lprice b k" for k using b'(3) by (simp add: lev_frame_def)
  have sub: "(k, us) \<in> set (S t)" if "(k, us) \<in> set (?S t)" for t k us
    using that S by (auto split: if_splits)
  have nl: "k \<noteq> l" if t: "trading_side t" and k: "(k, us) \<in> set (?S t)" for t k us
  proof
    assume "k = l"
    then have e: "t = s \<and> us = [p]"
      using level_at_price_unique [OF ok t sub [OF k] s m] by simp
    have "distinct (map fst (S s))" using book_ok_levels [OF ok s] by (rule levels_ok_distinct)
    with e k S \<open>k = l\<close> show False by (auto simp: image_iff)
  qed
  have al: "all_levels ?S = all_levels S - {l}"
  proof
    show "all_levels ?S \<subseteq> all_levels S - {l}"
      using sub nl unfolding all_levels_def by blast
    show "all_levels S - {l} \<subseteq> all_levels ?S"
    proof
      fix k assume "k \<in> all_levels S - {l}"
      then obtain t us where k: "trading_side t" "(k, us) \<in> set (S t)" "k \<noteq> l" by (auto simp: all_levels_def)
      then have "(k, us) \<in> set (?S t)" using S by (cases "t = s") auto
      then show "k \<in> all_levels ?S" by (rule all_levelsI [OF k(1)])
    qed
  qed
  have "book_ok b' ?S"
  proof (rule book_okI)
    show "levels_ok b' t (map fst (?S t))" if t: "trading_side t" for t
    proof (cases "t = s")
      case True
      then show ?thesis using b'(2) by simp
    next
      case False
      have sides: "(t = BUY) \<noteq> (s = BUY)" using t s False by (auto simp: trading_side_def)
      have dis: "set (map fst (S t)) \<inter> set (map fst ys @ l # map fst zs) = {}"
      proof -
        have "k \<notin> set (map fst ys @ l # map fst zs)" if k0: "k \<in> set (map fst (S t))" for k
        proof
          obtain us where k: "(k, us) \<in> set (S t)" using k0 by auto
          assume "k \<in> set (map fst ys @ l # map fst zs)"
          then have "k \<in> fst ` set (S s)" unfolding S by force
          then obtain vs where "(k, vs) \<in> set (S s)" by auto
          from level_at_price_unique [OF ok t k s this] False show False by simp
        qed
        then show ?thesis by blast
      qed
      show ?thesis using lev_frame_other_side [OF b'(3) sides dis book_ok_levels [OF ok t]] False by simp
    qed
    show "level_ok b' t (k, us)" if "trading_side t" "(k, us) \<in> set (?S t)" for t k us
      unfolding lev_frame_level_ok [OF b'(3)] using book_okD(1) [OF ok that(1) sub [OF that(2)]] .
    show "in_window (lprice b' k) b' \<and> price_orders_at_price b' (index_of (lprice b' k) b') = Some k"
      if t: "trading_side t" and k: "(k, us) \<in> set (?S t)" for t k us
    proof -
      have "lprice b k \<noteq> ?px" using level_at_price_unique [OF ok t sub [OF k] s m] nl [OF t k] by blast
      then have "index_of (lprice b k) b \<noteq> index_of ?px b"
        using index_of_inj [OF book_okD(2) [OF ok t sub [OF k]] win] by simp
      then show ?thesis using lp' book_okD [OF ok t sub [OF k]] win' b'(4) by simp
    qed
    show "k \<in> all_levels ?S \<and> i = index_of (lprice b' k) b'"
      if i: "i < ME_MAX_PRICE_LEVELS" "price_orders_at_price b' i = Some k" for i k
    proof -
      have ne: "i \<noteq> index_of ?px b" and pmi: "price_orders_at_price b i = Some k"
        using i(2) b'(4) by (auto split: if_splits)
      from book_ok_mapD [OF ok i(1) pmi] have k: "k \<in> all_levels S" "i = index_of (lprice b k) b" .
      moreover have "k \<noteq> l" using k(2) ne by auto
      ultimately show ?thesis using al lp' win' by simp
    qed
    show "pool_ok (orders_at_price_pool b')" "pool_size (orders_at_price_pool b') = ME_MAX_PRICE_LEVELS"
      "live (orders_at_price_pool b') = all_levels ?S"
      using b'(3) book_ok_pool [OF ok] unfolding al by (simp_all add: lev_frame_def)
  qed
  with run b'(1) frame show ?thesis by auto
qed

lemma unlink_order_ok:
  assumes ok: "book_ok b S" and p: "p \<in> all_orders S"
  shows "\<exists>b' S'. unlink_order p b = Inr b' \<and> book_ok b' S' \<and> ord_frame b b' \<and>
     (\<forall>t. t \<noteq> o_side (ord b p) \<longrightarrow> S' t = S t) \<and>
     orders_of (S' (o_side (ord b p))) = remove1 p (orders_of (S (o_side (ord b p))))"
proof -
  let ?s = "o_side (ord b p)"
  from order_in_level [OF ok p] obtain l os where m: "trading_side ?s" "(l, os) \<in> set (S ?s)" "p \<in> set os"
    by metis
  obtain ys zs where S0: "S ?s = ys @ (l, os) # zs" using m(2) by (meson split_list)
  obtain as bs where os: "os = as @ p # bs" using m(3) by (meson split_list)
  have S: "S ?s = ys @ (l, as @ p # bs) # zs" using S0 os by simp
  note rm = orders_of_remove [OF ok m(1) S]
  show ?thesis
  proof (cases "bs @ as = []")
    case True
    then have S1: "S ?s = ys @ (l, [p]) # zs" using S by simp
    from unlink_order_last [OF ok m(1) S1 refl] obtain b' where
      "unlink_order p b = Inr b'" "book_ok b' (S(?s := ys @ zs))" "ord_frame b b'" by blast
    then show ?thesis using rm True by (intro exI [of _ b'] exI [of _ "S(?s := ys @ zs)"]) simp
  next
    case False
    from unlink_order_inner [OF ok m(1) S False refl] obtain b' where
      "unlink_order p b = Inr b'" "book_ok b' (S(?s := ys @ (l, as @ bs) # zs))" "ord_frame b b'" by blast
    then show ?thesis using rm by (intro exI [of _ b'] exI [of _ "S(?s := ys @ (l, as @ bs) # zs)"]) simp
  qed
qed

subsection \<open>The two sides\<close>

definition opp :: "Side \<Rightarrow> Side" where
  "opp s = (if s = BUY then SELL else BUY)"

lemma opp_simps [simp]: "opp BUY = SELL" "opp SELL = BUY" "trading_side (opp s)" "trading_side s \<Longrightarrow> opp s \<noteq> s"
  by (auto simp: opp_def trading_side_def)

lemma opp_eq: "trading_side s \<Longrightarrow> trading_side t \<Longrightarrow> t \<noteq> s \<longleftrightarrow> t = opp s"
  by (auto simp: opp_def trading_side_def)

lemma all_orders_opp: "trading_side s \<Longrightarrow> all_orders S = set (orders_of (S s)) \<union> set (orders_of (S (opp s)))"
  by (auto simp: all_orders_set trading_side_def)

lemma sides_disjoint:
  assumes "book_ok b S" and "trading_side s"
  shows "set (orders_of (S s)) \<inter> set (orders_of (S (opp s))) = {}"
proof -
  have "opp s \<noteq> s" "trading_side (opp s)" using assms(2) by simp_all
  then show ?thesis using order_level_unique [OF assms] unfolding in_orders_of disjoint_iff by metis
qed

lemma all_orders_remove:
  assumes "book_ok b S" and "trading_side s" and "\<And>t. t \<noteq> s \<Longrightarrow> S' t = S t"
    and "orders_of (S' s) = remove1 p (orders_of (S s))" and "p \<in> set (orders_of (S s))"
  shows "all_orders S' = all_orders S - {p}"
proof -
  have d: "distinct (orders_of (S s))" by (rule distinct_orders_of [OF assms(1,2)])
  have s': "set (orders_of (S' s)) = set (orders_of (S s)) - {p}"
    using assms(4) d by (simp add: set_remove1_eq)
  have "S' (opp s) = S (opp s)" using assms(2,3) by simp
  then show ?thesis
    using s' sides_disjoint [OF assms(1,2)] assms(5) all_orders_opp [OF assms(2), of S] all_orders_opp [OF assms(2), of S']
    by auto
qed

lemma order_side_in: "book_ok b S \<Longrightarrow> p \<in> all_orders S \<Longrightarrow>
  trading_side (o_side (ord b p)) \<and> p \<in> set (orders_of (S (o_side (ord b p))))"
  by (erule order_in_level) (auto simp: in_orders_of)

lemma side_first:
  assumes "book_ok b S" and "trading_side s"
  shows "side_head s b = None \<longleftrightarrow> orders_of (S s) = []"
    "side_head s b = Some l \<Longrightarrow> first_order (lev b l) = Some (hd (orders_of (S s))) \<and> orders_of (S s) \<noteq> []"
proof -
  note lv = book_ok_levels [OF assms]
  have ne: "orders_of sh = [] \<longleftrightarrow> sh = []" if "set sh \<subseteq> set (S s)" for sh
  proof (cases sh)
    case (Cons lo sh')
    obtain l os where lo: "lo = (l, os)" by (cases lo)
    then have "level_ok b s (l, os)" using book_okD(1) [OF assms] that Cons by auto
    then have "os \<noteq> []" by (rule level_ok_nonempty)
    then show ?thesis using Cons lo by simp
  qed simp
  show "side_head s b = None \<longleftrightarrow> orders_of (S s) = []"
    using levels_ok_head_None [OF lv] ne [of "S s"] by simp
  assume h: "side_head s b = Some l"
  then obtain lo sh where S: "S s = lo # sh" using levels_ok_head_None [OF lv] by (cases "S s") auto
  obtain k os where lo: "lo = (k, os)" by (cases lo)
  have k: "k = l" using levels_ok_head [OF lv] h S lo by simp
  have "level_ok b s (l, os)" using book_okD(1) [OF assms, of l os] S lo k by simp
  then have "first_order (lev b l) = Some (hd os)" "os \<noteq> []" by (auto dest: level_ok_first level_ok_nonempty)
  then show "first_order (lev b l) = Some (hd (orders_of (S s))) \<and> orders_of (S s) \<noteq> []"
    using S lo k by simp
qed

lemma filter_level:
  assumes ok: "book_ok b S" and s: "trading_side s" and m: "(l, os) \<in> set (S s)"
  shows "filter (\<lambda>q. o_price (ord b q) = lprice b l) (orders_of (S s)) = os"
proof -
  obtain ys zs where S: "S s = ys @ (l, os) # zs" using m by (meson split_list)
  have d: "distinct (map fst (S s))" using book_ok_levels [OF ok s] by (rule levels_ok_distinct)
  have none: "filter (\<lambda>q. o_price (ord b q) = lprice b l) (orders_of sh) = []"
    if sh: "set sh \<subseteq> set (S s)" "l \<notin> fst ` set sh" for sh
  proof -
    have "o_price (ord b q) \<noteq> lprice b l" if q: "q \<in> set (orders_of sh)" for q
    proof
      assume e: "o_price (ord b q) = lprice b l"
      obtain k where k: "k \<in> fst ` set sh" "o_price (ord b q) = lprice b k"
        using orders_of_levels [OF ok s sh(1) q] by blast
      then obtain us where us: "(k, us) \<in> set (S s)" using sh(1) by auto
      have "lprice b k = lprice b l" using e k(2) by simp
      then have "k = l" using level_at_price_unique [OF ok s us s m] by blast
      with k(1) sh(2) show False by simp
    qed
    then show ?thesis by (simp add: filter_empty_conv)
  qed
  have own: "filter (\<lambda>q. o_price (ord b q) = lprice b l) os = os"
    using level_ok_orders [OF book_okD(1) [OF ok s m]] by (simp add: filter_id_conv)
  have "filter (\<lambda>q. o_price (ord b q) = lprice b l) (orders_of ys) = []"
    by (rule none) (use S d in auto)
  moreover have "filter (\<lambda>q. o_price (ord b q) = lprice b l) (orders_of zs) = []"
    by (rule none) (use S d in auto)
  ultimately show ?thesis unfolding S using own by simp
qed

lemma card_levels_le: "book_ok b S \<Longrightarrow> card (all_levels S) \<le> card (all_orders S)"
proof -
  assume ok: "book_ok b S"
  let ?f = "\<lambda>l. the (first_order (lev b l))"
  have f: "?f l \<in> set os" if "trading_side s" "(l, os) \<in> set (S s)" for s l os
    using book_okD(1) [OF ok that] by (auto simp: level_ok_def)
  have "inj_on ?f (all_levels S)"
  proof (rule inj_onI)
    fix l k assume l: "l \<in> all_levels S" and k: "k \<in> all_levels S" and e: "?f l = ?f k"
    obtain s os where so: "trading_side s" "(l, os) \<in> set (S s)" using l by (auto simp: all_levels_def)
    obtain t us where tu: "trading_side t" "(k, us) \<in> set (S t)" using k by (auto simp: all_levels_def)
    have "?f k \<in> set os" using f [OF so] e by simp
    then show "l = k" using order_level_unique [OF ok so _ tu] f [OF tu] by blast
  qed
  moreover have "?f ` all_levels S \<subseteq> all_orders S"
    using f unfolding all_levels_def all_orders_def by blast
  ultimately show ?thesis using card_inj_on_le finite_all_orders by metis
qed

end
