(* ===== verification/Messages.thy ===== *)
theory Messages
  imports Types
begin

text \<open>
  The messages the components exchange: \<open>exchange/order_server/client_request.h\<close>,
  \<open>exchange/order_server/client_response.h\<close> and \<open>exchange/market_data/market_update.h\<close>, with the
  printers the log lines use. The \<open>OM\<close> and \<open>MDP\<close> structs wrap a message with a sequence number
  (\<open>size_t\<close>, 64 bits).
\<close>

subsection \<open>Client requests\<close>

datatype ClientRequestType = Request_INVALID | NEW | Request_CANCEL

fun clientRequestTypeToString :: "ClientRequestType \<Rightarrow> string" where
  "clientRequestTypeToString NEW = ''NEW''"
| "clientRequestTypeToString Request_CANCEL = ''CANCEL''"
| "clientRequestTypeToString Request_INVALID = ''INVALID''"

record MEClientRequest =
  rq_type :: ClientRequestType
  rq_client_id :: ClientId
  rq_ticker_id :: TickerId
  rq_order_id :: OrderId
  rq_side :: Side
  rq_price :: Price
  rq_qty :: Qty

definition MEClientRequest_default :: MEClientRequest where
  "MEClientRequest_default = \<lparr>rq_type = Request_INVALID, rq_client_id = ClientId_INVALID,
     rq_ticker_id = TickerId_INVALID, rq_order_id = OrderId_INVALID, rq_side = Side_INVALID,
     rq_price = Price_INVALID, rq_qty = Qty_INVALID\<rparr>"

definition MEClientRequest_toString :: "MEClientRequest \<Rightarrow> string" where
  "MEClientRequest_toString r = ''MEClientRequest'' @ '' ['' @
     ''type:'' @ clientRequestTypeToString (rq_type r) @
     '' client:'' @ clientIdToString (rq_client_id r) @
     '' ticker:'' @ tickerIdToString (rq_ticker_id r) @
     '' oid:'' @ orderIdToString (rq_order_id r) @
     '' side:'' @ sideToString (rq_side r) @
     '' qty:'' @ qtyToString (rq_qty r) @
     '' price:'' @ priceToString (rq_price r) @ '']''"

record OMClientRequest =
  om_seq_num :: "64 word"
  me_client_request :: MEClientRequest

definition OMClientRequest_toString :: "OMClientRequest \<Rightarrow> string" where
  "OMClientRequest_toString r = ''OMClientRequest'' @ '' ['' @ ''seq:'' @ nat_to_string (unat (om_seq_num r)) @
     '' '' @ MEClientRequest_toString (me_client_request r) @ '']''"

subsection \<open>Client responses\<close>

datatype ClientResponseType = Response_INVALID | ACCEPTED | CANCELED | FILLED | CANCEL_REJECTED

fun clientResponseTypeToString :: "ClientResponseType \<Rightarrow> string" where
  "clientResponseTypeToString ACCEPTED = ''ACCEPTED''"
| "clientResponseTypeToString CANCELED = ''CANCELED''"
| "clientResponseTypeToString FILLED = ''FILLED''"
| "clientResponseTypeToString CANCEL_REJECTED = ''CANCEL_REJECTED''"
| "clientResponseTypeToString Response_INVALID = ''INVALID''"

record MEClientResponse =
  rs_type :: ClientResponseType
  rs_client_id :: ClientId
  rs_ticker_id :: TickerId
  rs_client_order_id :: OrderId
  rs_market_order_id :: OrderId
  rs_side :: Side
  rs_price :: Price
  rs_exec_qty :: Qty
  rs_leaves_qty :: Qty

definition MEClientResponse_default :: MEClientResponse where
  "MEClientResponse_default = \<lparr>rs_type = Response_INVALID, rs_client_id = ClientId_INVALID,
     rs_ticker_id = TickerId_INVALID, rs_client_order_id = OrderId_INVALID, rs_market_order_id = OrderId_INVALID,
     rs_side = Side_INVALID, rs_price = Price_INVALID, rs_exec_qty = Qty_INVALID, rs_leaves_qty = Qty_INVALID\<rparr>"

definition MEClientResponse_toString :: "MEClientResponse \<Rightarrow> string" where
  "MEClientResponse_toString r = ''MEClientResponse'' @ '' ['' @
     ''type:'' @ clientResponseTypeToString (rs_type r) @
     '' client:'' @ clientIdToString (rs_client_id r) @
     '' ticker:'' @ tickerIdToString (rs_ticker_id r) @
     '' coid:'' @ orderIdToString (rs_client_order_id r) @
     '' moid:'' @ orderIdToString (rs_market_order_id r) @
     '' side:'' @ sideToString (rs_side r) @
     '' exec_qty:'' @ qtyToString (rs_exec_qty r) @
     '' leaves_qty:'' @ qtyToString (rs_leaves_qty r) @
     '' price:'' @ priceToString (rs_price r) @ '']''"

record OMClientResponse =
  omr_seq_num :: "64 word"
  me_client_response :: MEClientResponse

definition OMClientResponse_toString :: "OMClientResponse \<Rightarrow> string" where
  "OMClientResponse_toString r = ''OMClientResponse'' @ '' ['' @ ''seq:'' @ nat_to_string (unat (omr_seq_num r)) @
     '' '' @ MEClientResponse_toString (me_client_response r) @ '']''"

subsection \<open>Market updates\<close>

datatype MarketUpdateType =
  Update_INVALID | CLEAR | ADD | MODIFY | CANCEL | TRADE | SNAPSHOT_START | SNAPSHOT_END

fun marketUpdateTypeToString :: "MarketUpdateType \<Rightarrow> string" where
  "marketUpdateTypeToString CLEAR = ''CLEAR''"
| "marketUpdateTypeToString ADD = ''ADD''"
| "marketUpdateTypeToString MODIFY = ''MODIFY''"
| "marketUpdateTypeToString CANCEL = ''CANCEL''"
| "marketUpdateTypeToString TRADE = ''TRADE''"
| "marketUpdateTypeToString SNAPSHOT_START = ''SNAPSHOT_START''"
| "marketUpdateTypeToString SNAPSHOT_END = ''SNAPSHOT_END''"
| "marketUpdateTypeToString Update_INVALID = ''INVALID''"

record MEMarketUpdate =
  mu_type :: MarketUpdateType
  mu_order_id :: OrderId
  mu_ticker_id :: TickerId
  mu_side :: Side
  mu_price :: Price
  mu_qty :: Qty
  mu_priority :: Priority

definition MEMarketUpdate_default :: MEMarketUpdate where
  "MEMarketUpdate_default = \<lparr>mu_type = Update_INVALID, mu_order_id = OrderId_INVALID, mu_ticker_id = TickerId_INVALID,
     mu_side = Side_INVALID, mu_price = Price_INVALID, mu_qty = Qty_INVALID, mu_priority = Priority_INVALID\<rparr>"

definition MEMarketUpdate_toString :: "MEMarketUpdate \<Rightarrow> string" where
  "MEMarketUpdate_toString u = ''MEMarketUpdate'' @ '' ['' @
     '' type:'' @ marketUpdateTypeToString (mu_type u) @
     '' ticker:'' @ tickerIdToString (mu_ticker_id u) @
     '' oid:'' @ orderIdToString (mu_order_id u) @
     '' side:'' @ sideToString (mu_side u) @
     '' qty:'' @ qtyToString (mu_qty u) @
     '' price:'' @ priceToString (mu_price u) @
     '' priority:'' @ priorityToString (mu_priority u) @ '']''"

record MDPMarketUpdate =
  mdp_seq_num :: "64 word"
  me_market_update :: MEMarketUpdate

definition MDPMarketUpdate_toString :: "MDPMarketUpdate \<Rightarrow> string" where
  "MDPMarketUpdate_toString u = ''MDPMarketUpdate'' @ '' ['' @ '' seq:'' @ nat_to_string (unat (mdp_seq_num u)) @
     '' '' @ MEMarketUpdate_toString (me_market_update u) @ '']''"

lemma clientRequestTypeToString_inject: "clientRequestTypeToString s = clientRequestTypeToString t \<longleftrightarrow> s = t"
  by (cases s; cases t) simp_all

lemma clientResponseTypeToString_inject: "clientResponseTypeToString s = clientResponseTypeToString t \<longleftrightarrow> s = t"
  by (cases s; cases t) simp_all

lemma marketUpdateTypeToString_inject: "marketUpdateTypeToString s = marketUpdateTypeToString t \<longleftrightarrow> s = t"
  by (cases s; cases t) simp_all

end
