(* ===== verification/BookPrint.thy ===== *)
theory BookPrint
  imports BookOrders Messages
begin

text \<open>
  \<open>toString\<close> of the two order books (\<open>me_order_book.cpp\<close>, \<open>market_order_book.cpp\<close>: the same text but for
  the name of the id field, here the argument \<open>oid\<close>), with its validity check, and the sum over a level
  that \<open>MarketOrderBook::updateBBO\<close> shares with it. All three walk the circular lists; a walk gets the
  size of the pool as fuel, more than which a ring cannot need.
\<close>

definition pad_left :: "nat \<Rightarrow> string \<Rightarrow> string" where
  "pad_left n s = replicate (n - length s) CHR '' '' @ s"

definition pad_right :: "nat \<Rightarrow> string \<Rightarrow> string" where
  "pad_right n s = s @ replicate (n - length s) CHR '' ''"

definition newline :: string where
  "newline = [CHR 0x0A]"

text \<open>The orders a \<open>for (o = first;; o = o->next_order_)\<close> loop visits.\<close>

fun orders_walk :: "nat \<Rightarrow> nat \<Rightarrow> nat \<Rightarrow> ('x, 'b) book_scheme \<Rightarrow> nat list res" where
  "orders_walk fuel first p b =
     (if next_order (ord b p) = Some first then Inr [p]
      else if fuel = 0 then Inl Diverges
      else bindE (derefE (next_order (ord b p))) (\<lambda>q.
           bindE (orders_walk (fuel - 1) first q b) (\<lambda>ps. Inr (p # ps))))"

declare orders_walk.simps [simp del]

definition level_orders :: "nat \<Rightarrow> ('x, 'b) book_scheme \<Rightarrow> nat list res" where
  "level_orders l b = bindE (derefE (first_order (lev b l))) (\<lambda>f. orders_walk (pool_size (order_pool b)) f f b)"

definition print_order :: "('x order_node_scheme \<Rightarrow> OrderId) \<Rightarrow> ('x, 'b) book_scheme \<Rightarrow> nat \<Rightarrow> string" where
  "print_order oid b p =
     ''[oid:'' @ orderIdToString (oid (ord b p)) @ '' q:'' @ qtyToString (o_qty (ord b p)) @
     '' p:'' @ orderIdToString (case prev_order (ord b p) of None \<Rightarrow> OrderId_INVALID | Some q \<Rightarrow> oid (ord b q)) @
     '' n:'' @ orderIdToString (case next_order (ord b p) of None \<Rightarrow> OrderId_INVALID | Some q \<Rightarrow> oid (ord b q)) @ ''] ''"

definition print_level :: "('x order_node_scheme \<Rightarrow> OrderId) \<Rightarrow> bool \<Rightarrow> nat \<Rightarrow> ('x, 'b) book_scheme \<Rightarrow> string res" where
  "print_level oid detailed l b =
     bindE (level_orders l b) (\<lambda>ps.
     bindE (derefE (prev_entry (lev b l))) (\<lambda>pe.
     bindE (derefE (next_entry (lev b l))) (\<lambda>ne.
     let qty = foldl (\<lambda>q p. q + o_qty (ord b p)) 0 ps;
         px = priceToString (l_price (lev b l)) in
     Inr ('' <px:'' @ pad_left 3 px @ '' p:'' @ pad_left 3 (priceToString (l_price (lev b pe))) @
          '' n:'' @ pad_left 3 (priceToString (l_price (lev b ne))) @ ''> '' @ pad_right 3 px @ '' @ '' @
          pad_right 5 (qtyToString qty) @ ''('' @ pad_right 4 (nat_to_string (length ps)) @ '')'' @
          (if detailed then concat (map (print_order oid b) ps) else []) @ newline))))"

fun print_side ::
  "nat \<Rightarrow> ('x order_node_scheme \<Rightarrow> OrderId) \<Rightarrow> bool \<Rightarrow> bool \<Rightarrow> string \<Rightarrow> Side \<Rightarrow> nat \<Rightarrow> nat \<Rightarrow> nat \<Rightarrow> Price \<Rightarrow>
   ('x, 'b) book_scheme \<Rightarrow> string res"
where
  "print_side fuel oid detailed sanity_check label s head l count last_price b =
     bindE (print_level oid detailed l b) (\<lambda>line.
     bindE (fatalE (sanity_check \<and> (s = SELL \<and> last_price \<ge> l_price (lev b l) \<or> s = BUY \<and> last_price \<le> l_price (lev b l)))) (\<lambda>_.
     let text = label @ nat_to_string count @ '' => '' @ line in
     if next_entry (lev b l) = Some head then Inr text
     else if fuel = 0 then Inl Diverges
     else bindE (derefE (next_entry (lev b l))) (\<lambda>l'.
          bindE (print_side (fuel - 1) oid detailed sanity_check label s head l' (count + 1)
                   (if sanity_check then l_price (lev b l) else last_price) b) (\<lambda>rest.
          Inr (text @ rest)))))"

declare print_side.simps [simp del]

definition Price_min :: Price where "Price_min = - (2 ^ 63)"

definition book_toString ::
  "('x order_node_scheme \<Rightarrow> OrderId) \<Rightarrow> TickerId \<Rightarrow> bool \<Rightarrow> bool \<Rightarrow> ('x, 'b) book_scheme \<Rightarrow> string res" where
  "book_toString oid ticker detailed validity_check b =
     (let n = pool_size (orders_at_price_pool b) in
      bindE (case asks_by_price b of None \<Rightarrow> Inr []
             | Some h \<Rightarrow> print_side n oid detailed validity_check ''ASKS L:'' SELL h h 0 Price_min b) (\<lambda>asks.
      bindE (case bids_by_price b of None \<Rightarrow> Inr []
             | Some h \<Rightarrow> print_side n oid detailed validity_check ''BIDS L:'' BUY h h 0 Price_INVALID b) (\<lambda>bids.
      Inr (''Ticker:'' @ tickerIdToString ticker @ newline @ asks @ newline @
           ''                          X'' @ newline @ newline @ bids))))"

subsection \<open>The walks visit the rings\<close>

lemma orders_walk_ok:
  assumes "order_ring b (xs @ p # ys)" and "length ys \<le> fuel" and "first = hd (xs @ [p])"
  shows "orders_walk fuel first p b = Inr (p # ys)"
  using assms
proof (induction ys arbitrary: xs p fuel)
  case Nil
  have "next_order (ord b p) = Some (hd (xs @ [p]))"
    using Nil(1) ring_next [of _ _ xs p "[]"] unfolding order_ring_def by fastforce
  then show ?case using Nil(3) by (simp add: orders_walk.simps [of fuel])
next
  case (Cons q ys)
  have r: "order_ring b ((xs @ [p]) @ q # ys)" using Cons.prems(1) by simp
  have d: "distinct (xs @ p # q # ys)" using Cons.prems(1) unfolding order_ring_def by (rule ring_distinct)
  have nx: "next_order (ord b p) = Some q"
    using Cons.prems(1) ring_next [of _ _ xs p "q # ys"] unfolding order_ring_def by fastforce
  have "hd (xs @ [p]) \<noteq> q" using d by (cases xs) auto
  then have ne: "next_order (ord b p) \<noteq> Some first" using nx Cons.prems(3) by simp
  have h: "first = hd ((xs @ [p]) @ [q])" using Cons.prems(3) by (cases xs) simp_all
  have "orders_walk (fuel - 1) first q b = Inr (q # ys)"
    by (rule Cons.IH [OF r _ h]) (use Cons.prems(2) in simp)
  then show ?case using ne nx Cons.prems(2) by (simp add: orders_walk.simps [of fuel])
qed

definition orders_fit :: "('x, 'b) book_scheme \<Rightarrow> shape \<Rightarrow> bool" where
  "orders_fit b S \<longleftrightarrow> (\<forall>s l os. trading_side s \<longrightarrow> (l, os) \<in> set (S s) \<longrightarrow> length os \<le> pool_size (order_pool b))"

lemma orders_fitI:
  assumes ok: "book_ok b S" and "live (order_pool b) = all_orders S"
  shows "orders_fit b S"
  unfolding orders_fit_def
proof (intro allI impI)
  fix s l os assume s: "trading_side s" and m: "(l, os) \<in> set (S s)"
  have "distinct os" using level_ok_ring [OF book_okD(1) [OF ok s m]] unfolding order_ring_def by (rule ring_distinct)
  then have "length os = card (set os)" by (simp add: distinct_card)
  also have "\<dots> \<le> card (live (order_pool b))"
    unfolding assms(2) by (rule card_mono) (use s m all_ordersI [of s l os S] in auto)
  also have "\<dots> \<le> pool_size (order_pool b)" by (rule card_live)
  finally show "length os \<le> pool_size (order_pool b)" .
qed

lemma level_orders_ok:
  assumes ok: "book_ok b S" and fit: "orders_fit b S" and s: "trading_side s" and m: "(l, os) \<in> set (S s)"
  shows "level_orders l b = Inr os"
proof -
  note lo = book_okD(1) [OF ok s m]
  obtain p ps where os: "os = p # ps" using level_ok_nonempty [OF lo] by (cases os) auto
  have "length os \<le> pool_size (order_pool b)" using fit s m by (simp add: orders_fit_def)
  then have "orders_walk (pool_size (order_pool b)) p p b = Inr (p # ps)"
    using level_ok_ring [OF lo] os by (intro orders_walk_ok [of b "[]"]) simp_all
  then show ?thesis using level_ok_first [OF lo] os by (simp add: level_orders_def)
qed

lemma print_level_ok:
  assumes ok: "book_ok b S" and fit: "orders_fit b S" and s: "trading_side s" and m: "(l, os) \<in> set (S s)"
  shows "\<exists>line. print_level oid detailed l b = Inr line"
proof -
  have ne: "map fst (S s) \<noteq> []" using m by auto
  have l: "l \<in> set (map fst (S s))" using m by force
  obtain ys zs where sp: "map fst (S s) = ys @ l # zs" using l by (meson split_list)
  have r: "level_ring b (ys @ l # zs)" using levels_ok_ring [OF book_ok_levels [OF ok s] ne] sp by simp
  have "next_entry (lev b l) = Some (hd (zs @ ys @ [l]))" "prev_entry (lev b l) = Some (last (l # zs @ ys))"
    using r ring_next [of _ _ ys l zs] ring_prev [of _ _ ys l zs] unfolding level_ring_def by blast+
  then show ?thesis using level_orders_ok [OF assms] by (simp add: print_level_def Let_def)
qed

lemma print_side_ok:
  assumes ok: "book_ok b S" and fit: "orders_fit b S" and s: "trading_side s"
    and "map fst (S s) = xs @ l # ys" and "length ys \<le> fuel" and "head = hd (xs @ [l])"
    and "\<forall>k \<in> set (l # ys). if s = BUY then lprice b k < last_price else last_price < lprice b k"
  shows "\<exists>text. print_side fuel oid detailed chk label s head l count last_price b = Inr text"
  using assms(4-7)
proof (induction ys arbitrary: xs l fuel count last_price)
  case Nil
  obtain os where m: "(l, os) \<in> set (S s)" using Nil(1) by (metis (no_types, lifting) in_set_conv_decomp list.set_map image_iff prod.collapse)
  obtain line where pl: "print_level oid detailed l b = Inr line" using print_level_ok [OF ok fit s m] by blast
  have r: "level_ring b (xs @ [l])" using levels_ok_ring [OF book_ok_levels [OF ok s]] Nil(1) by simp
  have nx: "next_entry (lev b l) = Some head"
    using r ring_next [of _ _ xs l "[]"] Nil(3) unfolding level_ring_def by fastforce
  have "\<not> (s = SELL \<and> last_price \<ge> lprice b l \<or> s = BUY \<and> last_price \<le> lprice b l)"
    using Nil(4) s by (auto simp: trading_side_def split: if_splits)
  then show ?case using pl nx by (simp add: print_side.simps [of fuel] Let_def)
next
  case (Cons k ys)
  obtain os where m: "(l, os) \<in> set (S s)" using Cons.prems(1) by (metis (no_types, lifting) in_set_conv_decomp list.set_map image_iff prod.collapse)
  obtain line where pl: "print_level oid detailed l b = Inr line" using print_level_ok [OF ok fit s m] by blast
  have r: "level_ring b (xs @ l # k # ys)" using levels_ok_ring [OF book_ok_levels [OF ok s]] Cons.prems(1) by simp
  have d: "distinct (xs @ l # k # ys)" by (rule level_ring_distinct [OF r])
  have nx: "next_entry (lev b l) = Some k"
    using r ring_next [of _ _ xs l "k # ys"] unfolding level_ring_def by fastforce
  have "hd (xs @ [l]) \<noteq> k" using d by (cases xs) auto
  then have ne: "next_entry (lev b l) \<noteq> Some head" using nx Cons.prems(3) by simp
  have srt: "sorted_wrt (ahead s) (map (lprice b) (xs @ l # k # ys))"
    using book_ok_levels [OF ok s] Cons.prems(1) by (simp add: levels_ok_def)
  have le: "\<not> (s = SELL \<and> last_price \<ge> lprice b l \<or> s = BUY \<and> last_price \<le> lprice b l)"
    using Cons.prems(4) s by (auto simp: trading_side_def split: if_splits)
  let ?lp = "if chk then lprice b l else last_price"
  have lp: "\<forall>j \<in> set (k # ys). if s = BUY then lprice b j < ?lp else ?lp < lprice b j"
  proof
    fix j assume j: "j \<in> set (k # ys)"
    have "ahead s (lprice b l) (lprice b j)" using srt j by (auto simp: sorted_wrt_append)
    moreover have "if s = BUY then lprice b j < last_price else last_price < lprice b j" using Cons.prems(4) j by auto
    ultimately show "if s = BUY then lprice b j < ?lp else ?lp < lprice b j" by (auto simp: ahead_def)
  qed
  have "\<exists>text. print_side (fuel - 1) oid detailed chk label s head k (count + 1) ?lp b = Inr text"
    by (rule Cons.IH [where xs = "xs @ [l]"]) (use Cons.prems(1-3) lp in \<open>auto simp: hd_append\<close>)
  then obtain out where t: "print_side (fuel - 1) oid detailed chk label s head k (count + 1) ?lp b = Inr out" ..
  have f: "fuel \<noteq> 0" using Cons.prems(2) by auto
  show ?case using pl le ne nx f t by (subst print_side.simps) (simp add: Let_def)
qed

text \<open>The printer never stops the process and never finds a well-formed book unsorted.\<close>

lemma book_toString_ok:
  assumes ok: "book_ok b S" and fit: "orders_fit b S"
    and base: "Price_min < base_price b" "base_price b + int ME_MAX_PRICE_LEVELS \<le> Price_INVALID"
  shows "\<exists>text. book_toString oid ticker detailed chk b = Inr text"
proof -
  have side: "\<exists>text. (case side_head s b of None \<Rightarrow> Inr []
       | Some h \<Rightarrow> print_side (pool_size (orders_at_price_pool b)) oid detailed chk label s h h 0
           (if s = BUY then Price_INVALID else Price_min) b) = Inr text" if s: "trading_side s" for s label
  proof (cases "map fst (S s)")
    case Nil
    then show ?thesis using levels_ok_head_None [OF book_ok_levels [OF ok s]] by simp
  next
    case (Cons h ls)
    have h: "side_head s b = Some h" using levels_ok_head [OF book_ok_levels [OF ok s]] Cons by simp
    have d: "distinct (map fst (S s))" using book_ok_levels [OF ok s] by (rule levels_ok_distinct)
    have win: "in_window (lprice b k) b" if "k \<in> set (map fst (S s))" for k
      using book_okD(2) [OF ok s] that by auto
    have "set (map fst (S s)) \<subseteq> live (orders_at_price_pool b)"
      using book_ok_pool(3) [OF ok] all_levelsI [OF s] by fastforce
    then have "length (map fst (S s)) \<le> card (live (orders_at_price_pool b))"
      using distinct_card [OF d] card_mono [OF finite_live] by metis
    also have "\<dots> \<le> pool_size (orders_at_price_pool b)" by (rule card_live)
    finally have len: "length ls \<le> pool_size (orders_at_price_pool b)" using Cons by simp
    have pr: "\<forall>k \<in> set (h # ls). if s = BUY then lprice b k < (if s = BUY then Price_INVALID else Price_min)
        else (if s = BUY then Price_INVALID else Price_min) < lprice b k"
    proof
      fix k assume "k \<in> set (h # ls)"
      then have "in_window (lprice b k) b" using win Cons by simp
      then have "Price_min < lprice b k" "lprice b k < Price_INVALID" using base by (simp_all add: in_window_def)
      then show "if s = BUY then lprice b k < (if s = BUY then Price_INVALID else Price_min)
        else (if s = BUY then Price_INVALID else Price_min) < lprice b k" by simp
    qed
    show ?thesis unfolding h option.case by (rule print_side_ok [OF ok fit s _ len _ pr, of "[]"]) (simp_all add: Cons)
  qed
  from side [of SELL "''ASKS L:''"] obtain asks where a: "(case asks_by_price b of None \<Rightarrow> Inr []
       | Some h \<Rightarrow> print_side (pool_size (orders_at_price_pool b)) oid detailed chk ''ASKS L:'' SELL h h 0 Price_min b) = Inr asks"
    by (auto simp: side_head_def cong: option.case_cong)
  from side [of BUY "''BIDS L:''"] obtain bids where b: "(case bids_by_price b of None \<Rightarrow> Inr []
       | Some h \<Rightarrow> print_side (pool_size (orders_at_price_pool b)) oid detailed chk ''BIDS L:'' BUY h h 0 Price_INVALID b) = Inr bids"
    by (auto simp: side_head_def cong: option.case_cong)
  show ?thesis unfolding book_toString_def Let_def a b bindE_Inr by blast
qed

text \<open>The quantity at a level, as the loops add it up.\<close>

lemma foldl_qty: "foldl (\<lambda>q p. q + f p) (a :: Qty) ps = a + sum_list (map f ps)"
  by (induction ps arbitrary: a) (simp_all add: add.assoc)

end
