(* ===== verification/MEOrderBook.thy ===== *)
theory MEOrderBook
  imports BookOrders Messages
begin

text \<open>
  \<open>exchange/matcher/me_order_book.h\<close> and \<open>me_order_book.cpp\<close>: the limit order book of the exchange,
  with price-time priority matching.

  \<^item> \<open>MEOrder\<close> is \<open>order_node\<close> with the identities; \<open>me_order_book\<close> is \<open>book\<close> with the map from client
    and order id to order and the id counter. \<open>outbox\<close> is the sequence of calls the book makes on its
    matching engine (\<open>sendClientResponse\<close>, \<open>sendMarketUpdate\<close>), in call order: \<open>MatchingEngine\<close>
    carries them out.
  \<^item> \<open>add\<close>, \<open>cancel\<close>, \<open>match\<close>, \<open>checkForMatch\<close>, \<open>addOrder\<close>, \<open>removeOrder\<close> are the operations, each
    suffixed or prefixed with \<open>me\<close> where the name is taken.
  \<^item> The two hash maps are plain arrays the constructor does not initialise: \<open>me_book_new\<close> takes their
    first contents as arguments.
\<close>

record MEOrder = order_node +
  ticker_id :: TickerId
  client_id :: ClientId
  client_order_id :: OrderId
  market_order_id :: OrderId

datatype me_event = Response MEClientResponse | Update MEMarketUpdate

record me_order_book = "unit MEOrder_ext book" +
  book_ticker_id :: TickerId
  cid_oid_to_order :: "ClientId \<Rightarrow> OrderId \<Rightarrow> nat option"
  next_market_order_id :: OrderId
  outbox :: "me_event list"

definition MEOrder_default :: MEOrder where
  "MEOrder_default = \<lparr>o_side = Side_INVALID, o_price = Price_INVALID, o_qty = Qty_INVALID,
     o_priority = Priority_INVALID, prev_order = None, next_order = None, ticker_id = TickerId_INVALID,
     client_id = ClientId_INVALID, client_order_id = OrderId_INVALID, market_order_id = OrderId_INVALID\<rparr>"

definition MEOrdersAtPrice_default :: orders_at_price where
  "MEOrdersAtPrice_default = \<lparr>l_side = Side_INVALID, l_price = Price_INVALID, first_order = None,
     prev_entry = None, next_entry = None\<rparr>"

definition me_book_new ::
  "TickerId \<Rightarrow> Price \<Rightarrow> (ClientId \<Rightarrow> OrderId \<Rightarrow> nat option) \<Rightarrow> (nat \<Rightarrow> nat option) \<Rightarrow> me_order_book" where
  "me_book_new ticker base cids prices =
     \<lparr>orders_at_price_pool = pool_new ME_MAX_PRICE_LEVELS MEOrdersAtPrice_default,
      bids_by_price = None, asks_by_price = None, price_orders_at_price = prices,
      order_pool = pool_new ME_MAX_ORDER_IDS MEOrder_default, base_price = base,
      book_ticker_id = ticker, cid_oid_to_order = cids, next_market_order_id = 1, outbox = []\<rparr>"

text \<open>The calls on the matching engine.\<close>

definition sendClientResponse :: "MEClientResponse \<Rightarrow> me_order_book \<Rightarrow> me_order_book" where
  "sendClientResponse r b = b\<lparr>outbox := outbox b @ [Response r]\<rparr>"

definition sendMarketUpdate :: "MEMarketUpdate \<Rightarrow> me_order_book \<Rightarrow> me_order_book" where
  "sendMarketUpdate u b = b\<lparr>outbox := outbox b @ [Update u]\<rparr>"

definition generateNewMarketOrderId :: "me_order_book \<Rightarrow> OrderId \<times> me_order_book" where
  "generateNewMarketOrderId b =
     (next_market_order_id b, b\<lparr>next_market_order_id := next_market_order_id b + 1\<rparr>)"

definition getNextPriority :: "Price \<Rightarrow> me_order_book \<Rightarrow> Priority res" where
  "getNextPriority price b =
     bindE (getOrdersAtPrice price b) (\<lambda>orders_at_price.
     case orders_at_price of
       None \<Rightarrow> Inr 1
     | Some l \<Rightarrow>
         bindE (derefE (first_order (lev b l))) (\<lambda>first.
         bindE (derefE (prev_order (ord b first))) (\<lambda>last.
         Inr (o_priority (ord b last) + 1))))"

text \<open>\<open>cid_oid_to_order_.at(client_id).at(order_id) = p\<close>\<close>

definition set_cid_oid :: "ClientId \<Rightarrow> OrderId \<Rightarrow> nat option \<Rightarrow> me_order_book \<Rightarrow> me_order_book res" where
  "set_cid_oid c i p b =
     bindE (atE ME_MAX_NUM_CLIENTS (unat c)) (\<lambda>_.
     bindE (atE ME_MAX_ORDER_IDS (unat i)) (\<lambda>_.
     Inr (b\<lparr>cid_oid_to_order := (cid_oid_to_order b)(c := (cid_oid_to_order b c)(i := p))\<rparr>)))"

definition removeOrder :: "nat \<Rightarrow> me_order_book \<Rightarrow> me_order_book res" where
  "removeOrder p b =
     bindE (unlink_order p b) (\<lambda>b1.
     bindE (set_cid_oid (client_id (ord b1 p)) (client_order_id (ord b1 p)) None b1) (\<lambda>b2.
     bindE (deallocate p (order_pool b2)) (\<lambda>pool.
     Inr (b2\<lparr>order_pool := pool\<rparr>))))"

definition addOrder :: "nat \<Rightarrow> me_order_book \<Rightarrow> me_order_book res" where
  "addOrder p b =
     bindE (link_order p b) (\<lambda>b1.
     set_cid_oid (client_id (ord b1 p)) (client_order_id (ord b1 p)) (Some p) b1)"

subsection \<open>Matching\<close>

text \<open>
  \<open>match\<close>: fill the passive order \<open>itr\<close> against the incoming one, tell both clients and the market, and
  remove the passive order when nothing is left of it. \<open>leaves_qty\<close> is the in-out parameter.
\<close>

definition me_match ::
  "TickerId \<Rightarrow> ClientId \<Rightarrow> Side \<Rightarrow> OrderId \<Rightarrow> OrderId \<Rightarrow> nat \<Rightarrow> Qty \<Rightarrow> me_order_book \<Rightarrow> (Qty \<times> me_order_book) res"
where
  "me_match ticker client side coid new_market_order_id itr leaves_qty b =
     (let order_qty = o_qty (ord b itr);
          fill_qty = min leaves_qty order_qty;
          leaves_qty' = leaves_qty - fill_qty;
          b1 = upd_ord itr (\<lambda>x. x\<lparr>o_qty := o_qty x - fill_qty\<rparr>) b;
          order = ord b1 itr;
          b2 = sendClientResponse
            \<lparr>rs_type = FILLED, rs_client_id = client, rs_ticker_id = ticker, rs_client_order_id = coid,
             rs_market_order_id = new_market_order_id, rs_side = side, rs_price = o_price order,
             rs_exec_qty = fill_qty, rs_leaves_qty = leaves_qty'\<rparr> b1;
          b3 = sendClientResponse
            \<lparr>rs_type = FILLED, rs_client_id = client_id order, rs_ticker_id = ticker,
             rs_client_order_id = client_order_id order, rs_market_order_id = market_order_id order,
             rs_side = o_side order, rs_price = o_price order, rs_exec_qty = fill_qty,
             rs_leaves_qty = o_qty order\<rparr> b2;
          b4 = sendMarketUpdate
            \<lparr>mu_type = TRADE, mu_order_id = OrderId_INVALID, mu_ticker_id = ticker, mu_side = side,
             mu_price = o_price order, mu_qty = fill_qty, mu_priority = Priority_INVALID\<rparr> b3 in
      if o_qty order = 0
      then bindE (removeOrder itr (sendMarketUpdate
             \<lparr>mu_type = CANCEL, mu_order_id = market_order_id order, mu_ticker_id = ticker, mu_side = o_side order,
              mu_price = o_price order, mu_qty = order_qty, mu_priority = Priority_INVALID\<rparr> b4)) (\<lambda>b5.
           Inr (leaves_qty', b5))
      else Inr (leaves_qty', sendMarketUpdate
             \<lparr>mu_type = MODIFY, mu_order_id = market_order_id order, mu_ticker_id = ticker, mu_side = o_side order,
              mu_price = o_price order, mu_qty = o_qty order, mu_priority = o_priority order\<rparr> b4))"

text \<open>
  The two loops of \<open>checkForMatch\<close>: a buyer walks the asks while \<open>price >= ask_itr->price_\<close>, a seller the
  bids while \<open>price <= bid_itr->price_\<close>. Every round but the last removes an order, so the number of
  rounds is at most one more than the pool has blocks.
\<close>

definition passive_head :: "Side \<Rightarrow> me_order_book \<Rightarrow> nat option" where
  "passive_head side b = (if side = BUY then asks_by_price b else bids_by_price b)"

definition outside :: "Side \<Rightarrow> Price \<Rightarrow> Price \<Rightarrow> bool" where
  "outside side price passive_price = (if side = BUY then price < passive_price else price > passive_price)"

fun match_loop ::
  "nat \<Rightarrow> TickerId \<Rightarrow> ClientId \<Rightarrow> Side \<Rightarrow> Price \<Rightarrow> OrderId \<Rightarrow> OrderId \<Rightarrow> Qty \<Rightarrow> me_order_book \<Rightarrow>
   (Qty \<times> me_order_book) res"
where
  "match_loop fuel ticker client side price coid new_id leaves_qty b =
     (if leaves_qty = 0 then Inr (leaves_qty, b)
      else case passive_head side b of
        None \<Rightarrow> Inr (leaves_qty, b)
      | Some l \<Rightarrow>
          bindE (derefE (first_order (lev b l))) (\<lambda>itr.
          if outside side price (o_price (ord b itr)) then Inr (leaves_qty, b)
          else if fuel = 0 then Inl Diverges
          else bindE (me_match ticker client side coid new_id itr leaves_qty b) (\<lambda>(leaves_qty', b').
               match_loop (fuel - 1) ticker client side price coid new_id leaves_qty' b')))"

declare match_loop.simps [simp del]

text \<open>
  The parameter \<open>new_market_order_id\<close> is declared \<open>Qty\<close>: the 64-bit id is cut to 32 bits on the way in
  and widened again for \<open>match\<close>.
\<close>

definition checkForMatch ::
  "ClientId \<Rightarrow> OrderId \<Rightarrow> TickerId \<Rightarrow> Side \<Rightarrow> Price \<Rightarrow> Qty \<Rightarrow> Qty \<Rightarrow> me_order_book \<Rightarrow> (Qty \<times> me_order_book) res" where
  "checkForMatch client coid ticker side price qty new_market_order_id b =
     (if side = BUY \<or> side = SELL
      then match_loop (pool_size (order_pool b) + 1) ticker client side price coid (ucast new_market_order_id) qty b
      else Inr (qty, b))"

definition me_add ::
  "ClientId \<Rightarrow> OrderId \<Rightarrow> TickerId \<Rightarrow> Side \<Rightarrow> Price \<Rightarrow> Qty \<Rightarrow> me_order_book \<Rightarrow> me_order_book res" where
  "me_add client coid ticker side price qty b =
     (case generateNewMarketOrderId b of (new_market_order_id, b1) \<Rightarrow>
      let b2 = sendClientResponse
            \<lparr>rs_type = ACCEPTED, rs_client_id = client, rs_ticker_id = ticker, rs_client_order_id = coid,
             rs_market_order_id = new_market_order_id, rs_side = side, rs_price = price,
             rs_exec_qty = 0, rs_leaves_qty = qty\<rparr> b1 in
      bindE (checkForMatch client coid ticker side price qty (ucast new_market_order_id) b2) (\<lambda>(leaves_qty, b3).
      if leaves_qty \<noteq> 0
      then bindE (getNextPriority price b3) (\<lambda>priority.
           bindE (allocate \<lparr>o_side = side, o_price = price, o_qty = leaves_qty, o_priority = priority,
                    prev_order = None, next_order = None, ticker_id = ticker, client_id = client,
                    client_order_id = coid, market_order_id = new_market_order_id\<rparr> (order_pool b3)) (\<lambda>(p, pool).
           bindE (addOrder p (b3\<lparr>order_pool := pool\<rparr>)) (\<lambda>b4.
           Inr (sendMarketUpdate
             \<lparr>mu_type = ADD, mu_order_id = new_market_order_id, mu_ticker_id = ticker, mu_side = side,
              mu_price = price, mu_qty = leaves_qty, mu_priority = priority\<rparr> b4))))
      else Inr b3))"

definition me_cancel :: "ClientId \<Rightarrow> OrderId \<Rightarrow> TickerId \<Rightarrow> me_order_book \<Rightarrow> me_order_book res" where
  "me_cancel client order_id ticker b =
     (let is_cancelable = (unat client < ME_MAX_NUM_CLIENTS) in
      bindE (if is_cancelable
             then bindE (atE ME_MAX_ORDER_IDS (unat order_id)) (\<lambda>_. Inr (cid_oid_to_order b client order_id))
             else Inr None) (\<lambda>exchange_order.
      case exchange_order of
        None \<Rightarrow> Inr (sendClientResponse
          \<lparr>rs_type = CANCEL_REJECTED, rs_client_id = client, rs_ticker_id = ticker, rs_client_order_id = order_id,
           rs_market_order_id = OrderId_INVALID, rs_side = Side_INVALID, rs_price = Price_INVALID,
           rs_exec_qty = Qty_INVALID, rs_leaves_qty = Qty_INVALID\<rparr> b)
      | Some p \<Rightarrow>
          (let order = ord b p;
               response = \<lparr>rs_type = CANCELED, rs_client_id = client, rs_ticker_id = ticker,
                 rs_client_order_id = order_id, rs_market_order_id = market_order_id order, rs_side = o_side order,
                 rs_price = o_price order, rs_exec_qty = Qty_INVALID, rs_leaves_qty = o_qty order\<rparr>;
               update = \<lparr>mu_type = CANCEL, mu_order_id = market_order_id order, mu_ticker_id = ticker,
                 mu_side = o_side order, mu_price = o_price order, mu_qty = 0, mu_priority = o_priority order\<rparr> in
           bindE (removeOrder p b) (\<lambda>b1.
           Inr (sendClientResponse response (sendMarketUpdate update b1))))))"

end
