(* ===== verification/MEBookSpec.thy ===== *)
theory MEBookSpec
  imports MEOrderBook
begin

text \<open>
  What the exchange's book promises, without pointers: a view gives each side as the list of its orders
  in price-time priority (the link fields cleared), and \<open>spec_match\<close>, \<open>spec_add\<close> and \<open>spec_cancel\<close> say
  how it changes and which messages go out. \<open>MEBookRefine\<close> shows that the pointer code does this.

  \<^item> \<open>view_ok\<close>: both sides in price-time priority, the book not crossed, every order with quantity left,
    unique market order ids below the counter, priorities that cannot have wrapped.
  \<^item> the lemmas: \<open>spec_add\<close> and \<open>spec_cancel\<close> keep \<open>view_ok\<close>; matching conserves quantity.
\<close>

type_synonym view = "Side \<Rightarrow> MEOrder list"

subsection \<open>The specification\<close>

definition fill_events :: "TickerId \<Rightarrow> ClientId \<Rightarrow> Side \<Rightarrow> OrderId \<Rightarrow> OrderId \<Rightarrow> Qty \<Rightarrow> Qty \<Rightarrow> MEOrder \<Rightarrow> me_event list" where
  "fill_events ticker client side coid new_id fill leaves x =
     [Response \<lparr>rs_type = FILLED, rs_client_id = client, rs_ticker_id = ticker, rs_client_order_id = coid,
        rs_market_order_id = new_id, rs_side = side, rs_price = o_price x, rs_exec_qty = fill, rs_leaves_qty = leaves\<rparr>,
      Response \<lparr>rs_type = FILLED, rs_client_id = client_id x, rs_ticker_id = ticker, rs_client_order_id = client_order_id x,
        rs_market_order_id = market_order_id x, rs_side = o_side x, rs_price = o_price x, rs_exec_qty = fill,
        rs_leaves_qty = o_qty x\<rparr>,
      Update \<lparr>mu_type = TRADE, mu_order_id = OrderId_INVALID, mu_ticker_id = ticker, mu_side = side,
        mu_price = o_price x, mu_qty = fill, mu_priority = Priority_INVALID\<rparr>]"

fun spec_match ::
  "TickerId \<Rightarrow> ClientId \<Rightarrow> Side \<Rightarrow> Price \<Rightarrow> OrderId \<Rightarrow> OrderId \<Rightarrow> Qty \<Rightarrow> MEOrder list \<Rightarrow>
   Qty \<times> MEOrder list \<times> me_event list"
where
  "spec_match ticker client side price coid new_id leaves [] = (leaves, [], [])"
| "spec_match ticker client side price coid new_id leaves (x # xs) =
     (if leaves = 0 \<or> outside side price (o_price x) then (leaves, x # xs, [])
      else
        (let fill = min leaves (o_qty x);
             x' = x\<lparr>o_qty := o_qty x - fill\<rparr>;
             evs = fill_events ticker client side coid new_id fill (leaves - fill) x' in
         if o_qty x' = 0
         then (case spec_match ticker client side price coid new_id (leaves - fill) xs of (leaves', xs', evs') \<Rightarrow>
                (leaves', xs', evs @ Update \<lparr>mu_type = CANCEL, mu_order_id = market_order_id x, mu_ticker_id = ticker,
                    mu_side = o_side x, mu_price = o_price x, mu_qty = o_qty x, mu_priority = Priority_INVALID\<rparr> # evs'))
         else (leaves - fill, x' # xs,
                evs @ [Update \<lparr>mu_type = MODIFY, mu_order_id = market_order_id x, mu_ticker_id = ticker,
                    mu_side = o_side x, mu_price = o_price x, mu_qty = o_qty x', mu_priority = o_priority x\<rparr>])))"

definition spec_next_priority :: "Price \<Rightarrow> MEOrder list \<Rightarrow> Priority" where
  "spec_next_priority price xs =
     (case filter (\<lambda>x. o_price x = price) xs of [] \<Rightarrow> 1 | y # ys \<Rightarrow> o_priority (last (y # ys)) + 1)"

definition spec_new_order ::
  "TickerId \<Rightarrow> ClientId \<Rightarrow> Side \<Rightarrow> Price \<Rightarrow> OrderId \<Rightarrow> OrderId \<Rightarrow> Qty \<Rightarrow> MEOrder list \<Rightarrow> MEOrder" where
  "spec_new_order ticker client side price coid new_id qty xs =
     \<lparr>o_side = side, o_price = price, o_qty = qty, o_priority = spec_next_priority price xs,
      prev_order = None, next_order = None, ticker_id = ticker, client_id = client,
      client_order_id = coid, market_order_id = new_id\<rparr>"

definition spec_add ::
  "ClientId \<Rightarrow> OrderId \<Rightarrow> TickerId \<Rightarrow> Side \<Rightarrow> Price \<Rightarrow> Qty \<Rightarrow> OrderId \<Rightarrow> view \<Rightarrow> view \<times> me_event list" where
  "spec_add client coid ticker side price qty new_id A =
     (let accepted = Response \<lparr>rs_type = ACCEPTED, rs_client_id = client, rs_ticker_id = ticker,
            rs_client_order_id = coid, rs_market_order_id = new_id, rs_side = side, rs_price = price,
            rs_exec_qty = 0, rs_leaves_qty = qty\<rparr>;
          (leaves, passive, evs) = spec_match ticker client side price coid (ucast (ucast new_id :: 32 word)) qty (A (opp side));
          A1 = A(opp side := passive) in
      if leaves = 0 then (A1, accepted # evs)
      else (let x = spec_new_order ticker client side price coid new_id leaves (A1 side) in
        (A1(side := queue_insert side o_price x (A1 side)),
         accepted # evs @ [Update \<lparr>mu_type = ADD, mu_order_id = new_id, mu_ticker_id = ticker, mu_side = side,
           mu_price = price, mu_qty = leaves, mu_priority = o_priority x\<rparr>])))"

text \<open>What a request leaves to rest in the book.\<close>

definition spec_leaves :: "ClientId \<Rightarrow> OrderId \<Rightarrow> TickerId \<Rightarrow> Side \<Rightarrow> Price \<Rightarrow> Qty \<Rightarrow> OrderId \<Rightarrow> view \<Rightarrow> Qty" where
  "spec_leaves client coid ticker side price qty new_id A =
     fst (spec_match ticker client side price coid (ucast (ucast new_id :: 32 word)) qty (A (opp side)))"

definition cancel_rejected :: "ClientId \<Rightarrow> OrderId \<Rightarrow> TickerId \<Rightarrow> me_event" where
  "cancel_rejected client order_id ticker = Response
     \<lparr>rs_type = CANCEL_REJECTED, rs_client_id = client, rs_ticker_id = ticker, rs_client_order_id = order_id,
      rs_market_order_id = OrderId_INVALID, rs_side = Side_INVALID, rs_price = Price_INVALID,
      rs_exec_qty = Qty_INVALID, rs_leaves_qty = Qty_INVALID\<rparr>"

definition cancel_events :: "ClientId \<Rightarrow> OrderId \<Rightarrow> TickerId \<Rightarrow> MEOrder \<Rightarrow> me_event list" where
  "cancel_events client order_id ticker x =
     [Update \<lparr>mu_type = CANCEL, mu_order_id = market_order_id x, mu_ticker_id = ticker, mu_side = o_side x,
        mu_price = o_price x, mu_qty = 0, mu_priority = o_priority x\<rparr>,
      Response \<lparr>rs_type = CANCELED, rs_client_id = client, rs_ticker_id = ticker, rs_client_order_id = order_id,
        rs_market_order_id = market_order_id x, rs_side = o_side x, rs_price = o_price x,
        rs_exec_qty = Qty_INVALID, rs_leaves_qty = o_qty x\<rparr>]"

definition owned_by :: "ClientId \<Rightarrow> OrderId \<Rightarrow> MEOrder \<Rightarrow> bool" where
  "owned_by client order_id x \<longleftrightarrow> client_id x = client \<and> client_order_id x = order_id"

definition spec_cancel :: "ClientId \<Rightarrow> OrderId \<Rightarrow> TickerId \<Rightarrow> view \<Rightarrow> view \<times> me_event list" where
  "spec_cancel client order_id ticker A =
     (case find (owned_by client order_id) (A BUY @ A SELL) of
        None \<Rightarrow> (A, [cancel_rejected client order_id ticker])
      | Some x \<Rightarrow> (A(o_side x := filter (\<lambda>y. \<not> owned_by client order_id y) (A (o_side x))),
                   cancel_events client order_id ticker x))"

subsection \<open>The invariant of a view\<close>

definition before :: "Side \<Rightarrow> MEOrder \<Rightarrow> MEOrder \<Rightarrow> bool" where
  "before s x y \<longleftrightarrow> ahead s (o_price x) (o_price y) \<or>
     o_price x = o_price y \<and> o_priority x < o_priority y \<and> market_order_id x < market_order_id y"

definition order_ok :: "TickerId \<Rightarrow> OrderId \<Rightarrow> Side \<Rightarrow> MEOrder \<Rightarrow> bool" where
  "order_ok ticker next_id s x \<longleftrightarrow> o_side x = s \<and> o_qty x \<noteq> 0 \<and> ticker_id x = ticker \<and>
     0 < o_priority x \<and> o_priority x \<le> market_order_id x \<and> market_order_id x < next_id"

definition view_ok :: "TickerId \<Rightarrow> OrderId \<Rightarrow> view \<Rightarrow> bool" where
  "view_ok ticker next_id A \<longleftrightarrow>
     (\<forall>s. trading_side s \<longrightarrow> (\<forall>x \<in> set (A s). order_ok ticker next_id s x) \<and> sorted_wrt (before s) (A s)) \<and>
     (\<forall>x \<in> set (A BUY). \<forall>y \<in> set (A SELL). o_price x < o_price y) \<and>
     distinct (map market_order_id (A BUY @ A SELL))"

definition total_qty :: "MEOrder list \<Rightarrow> nat" where
  "total_qty xs = sum_list (map (unat \<circ> o_qty) xs)"

lemma total_qty_simps [simp]:
  "total_qty [] = 0" "total_qty (x # xs) = unat (o_qty x) + total_qty xs" "total_qty (xs @ ys) = total_qty xs + total_qty ys"
  by (simp_all add: total_qty_def)

subsection \<open>Matching\<close>

text \<open>Quantity is conserved: what the incoming order loses is what the resting orders lose.\<close>

lemma unat_min_sub: "unat (a - min a b) + unat (min a b) = unat a" for a b :: "'a::len word"
  by (metis le_add_diff_inverse2 min.cobounded1 unat_diff_le word_le_nat_alt)

lemma unat_min_sub2: "unat (b - min a b) + unat (min a b) = unat b" for a b :: "'a::len word"
  by (metis min.commute unat_min_sub)

lemma spec_match_conserves:
  "spec_match ticker client side price coid new_id leaves xs = (leaves', xs', evs) \<Longrightarrow>
   unat leaves' + total_qty xs = unat leaves + total_qty xs'"
proof (induction xs arbitrary: leaves leaves' xs' evs)
  case Nil
  then show ?case by simp
next
  case (Cons x xs)
  let ?f = "min leaves (o_qty x)"
  note a = unat_min_sub [of leaves "o_qty x"] and c = unat_min_sub2 [of "o_qty x" leaves]
  show ?case
  proof (cases "leaves = 0 \<or> outside side price (o_price x)")
    case True
    then show ?thesis using Cons.prems by auto
  next
    case nz: False
    show ?thesis
    proof (cases "o_qty x - ?f = 0")
      case True
      obtain l1 x1 e1 where r: "spec_match ticker client side price coid new_id (leaves - ?f) xs = (l1, x1, e1)"
        by (metis prod_cases3)
      have "unat l1 + total_qty xs = unat (leaves - ?f) + total_qty x1" by (rule Cons.IH [OF r])
      moreover have "leaves' = l1" "xs' = x1" using Cons.prems nz True r by (auto simp: Let_def)
      moreover have "unat (o_qty x) = unat ?f" using c True by simp
      ultimately show ?thesis using a by simp
    next
      case False
      then have "leaves' = leaves - ?f" "xs' = x\<lparr>o_qty := o_qty x - ?f\<rparr> # xs"
        using Cons.prems nz by (auto simp: Let_def)
      then show ?thesis using a c by simp
    qed
  qed
qed

lemma spec_match_leaves_le:
  "spec_match ticker client side price coid new_id leaves xs = (leaves', xs', evs) \<Longrightarrow> leaves' \<le> leaves"
proof (induction xs arbitrary: leaves leaves' xs' evs)
  case (Cons x xs)
  let ?f = "min leaves (o_qty x)"
  have le: "leaves - ?f \<le> leaves" by (simp add: word_sub_le)
  obtain l1 x1 e1 where r: "spec_match ticker client side price coid new_id (leaves - ?f) xs = (l1, x1, e1)"
    by (metis prod_cases3)
  have "leaves' = leaves \<or> leaves' = leaves - ?f \<or> leaves' = l1"
    using Cons.prems r by (auto simp: Let_def split: if_splits)
  moreover have "l1 \<le> leaves" using Cons.IH [OF r] le by (rule order_trans)
  ultimately show ?case using le by auto
qed simp

text \<open>What is left of the passive side: a suffix of it, whose first order may have shrunk.\<close>

lemma spec_match_suffix:
  "spec_match ticker client side price coid new_id leaves xs = (leaves', xs', evs) \<Longrightarrow>
   xs' = [] \<or> (\<exists>ys x zs. xs = ys @ x # zs \<and> (xs' = x # zs \<or> (\<exists>q. q \<noteq> 0 \<and> xs' = x\<lparr>o_qty := q\<rparr> # zs)))"
proof (induction xs arbitrary: leaves leaves' xs' evs)
  case Nil
  then show ?case by simp
next
  case (Cons x xs)
  let ?f = "min leaves (o_qty x)"
  show ?case
  proof (cases "leaves = 0 \<or> outside side price (o_price x)")
    case True
    then have "xs' = x # xs" using Cons.prems by auto
    then show ?thesis by (intro disjI2 exI [of _ "[]"]) auto
  next
    case nz: False
    show ?thesis
    proof (cases "o_qty x - ?f = 0")
      case True
      obtain l1 x1 e1 where r: "spec_match ticker client side price coid new_id (leaves - ?f) xs = (l1, x1, e1)"
        by (metis prod_cases3)
      have "xs' = x1" using Cons.prems nz True r by (auto simp: Let_def)
      with Cons.IH [OF r] show ?thesis by (metis append_Cons)
    next
      case False
      then have "xs' = x\<lparr>o_qty := o_qty x - ?f\<rparr> # xs"
        using Cons.prems nz by (auto simp: Let_def)
      then have "x # xs = [] @ x # xs \<and> (\<exists>q. q \<noteq> 0 \<and> xs' = x\<lparr>o_qty := q\<rparr> # xs)" using False by blast
      then show ?thesis by blast
    qed
  qed
qed

text \<open>A remainder means that the rest of the passive side is out of reach.\<close>

lemma spec_match_exhausts:
  "spec_match ticker client side price coid new_id leaves xs = (leaves', xs', evs) \<Longrightarrow> leaves' \<noteq> 0 \<Longrightarrow>
   xs' = [] \<or> outside side price (o_price (hd xs'))"
proof (induction xs arbitrary: leaves leaves' xs' evs)
  case Nil
  then show ?case by simp
next
  case (Cons x xs)
  let ?f = "min leaves (o_qty x)"
  show ?case
  proof (cases "leaves = 0 \<or> outside side price (o_price x)")
    case True
    then show ?thesis using Cons.prems by auto
  next
    case nz: False
    show ?thesis
    proof (cases "o_qty x - ?f = 0")
      case True
      obtain l1 x1 e1 where r: "spec_match ticker client side price coid new_id (leaves - ?f) xs = (l1, x1, e1)"
        by (metis prod_cases3)
      have "xs' = x1" "leaves' = l1" using Cons.prems nz True r by (auto simp: Let_def)
      with Cons.IH [OF r] Cons.prems(2) show ?thesis by simp
    next
      case False
      then have "\<not> o_qty x \<le> leaves" by (auto simp: min_def split: if_splits)
      then have "?f = leaves" by (simp add: min.absorb1)
      then have "leaves' = 0" using Cons.prems nz False by (auto simp: Let_def)
      with Cons.prems(2) show ?thesis by simp
    qed
  qed
qed

subsection \<open>The invariant is kept\<close>

lemma view_okD:
  assumes "view_ok ticker next_id A" and "trading_side s"
  shows "\<And>x. x \<in> set (A s) \<Longrightarrow> order_ok ticker next_id s x" "sorted_wrt (before s) (A s)"
    "distinct (map market_order_id (A s))"
  using assms by (auto simp: view_ok_def trading_side_def)

lemma view_okI:
  assumes "trading_side s"
    and "\<And>x. x \<in> set (A s) \<Longrightarrow> order_ok ticker next_id s x" and "sorted_wrt (before s) (A s)"
    and "\<And>x. x \<in> set (A (opp s)) \<Longrightarrow> order_ok ticker next_id (opp s) x" and "sorted_wrt (before (opp s)) (A (opp s))"
    and "\<And>x y. x \<in> set (A s) \<Longrightarrow> y \<in> set (A (opp s)) \<Longrightarrow> outside s (o_price x) (o_price y)"
    and "distinct (map market_order_id (A s))" and "distinct (map market_order_id (A (opp s)))"
    and "market_order_id ` set (A s) \<inter> market_order_id ` set (A (opp s)) = {}"
  shows "view_ok ticker next_id A"
  using assms by (cases s) (auto simp: view_ok_def trading_side_def outside_def Int_commute)

lemma view_ok_other:
  assumes "view_ok ticker next_id A" and "trading_side s"
  shows "market_order_id ` set (A s) \<inter> market_order_id ` set (A (opp s)) = {}"
  using assms by (cases s) (auto simp: view_ok_def trading_side_def)

lemma view_ok_uncrossed:
  assumes "view_ok ticker next_id A" and "trading_side s" and "x \<in> set (A s)" and "y \<in> set (A (opp s))"
  shows "outside s (o_price x) (o_price y)"
  using assms by (cases s) (auto simp: view_ok_def outside_def trading_side_def)

lemma before_same_key:
  assumes "o_price x' = o_price x" "o_priority x' = o_priority x" "market_order_id x' = market_order_id x"
  shows "before s x' y = before s x y" "before s y x' = before s y x"
  using assms by (simp_all add: before_def)

text \<open>Removing orders from a side, or shrinking the first one, keeps the invariant.\<close>

lemma view_ok_shrink:
  assumes ok: "view_ok ticker next_id A" and s: "trading_side s" and xs: "set xs \<subseteq> set (A s)"
    and srt: "sorted_wrt (before s) xs" and d: "distinct (map market_order_id xs)"
  shows "view_ok ticker next_id (A(s := xs))"
proof (rule view_okI [OF s])
  let ?A = "A(s := xs)"
  have o: "opp s \<noteq> s" using s by simp
  show "sorted_wrt (before s) (?A s)" "distinct (map market_order_id (?A s))" using srt d by simp_all
  show "sorted_wrt (before (opp s)) (?A (opp s))" "distinct (map market_order_id (?A (opp s)))"
    using o view_okD [OF ok, of "opp s"] by simp_all
  note ds = view_okD [OF ok s] and dso = view_okD [OF ok, of "opp s"]
  show "order_ok ticker next_id s x" if "x \<in> set (?A s)" for x using ds(1) that xs by auto
  show "order_ok ticker next_id (opp s) x" if "x \<in> set (?A (opp s))" for x using dso(1) that o by simp
  show "outside s (o_price x) (o_price y)" if "x \<in> set (?A s)" "y \<in> set (?A (opp s))" for x y
    using view_ok_uncrossed [OF ok s, of x y] that xs o by auto
  show "market_order_id ` set (?A s) \<inter> market_order_id ` set (?A (opp s)) = {}"
    using view_ok_other [OF ok s] xs o by auto
qed

lemma order_ok_qty: "order_ok ticker next_id s x \<Longrightarrow> q \<noteq> 0 \<Longrightarrow> order_ok ticker next_id s (x\<lparr>o_qty := q\<rparr>)"
  by (simp add: order_ok_def)

lemma view_ok_resize:
  assumes ok: "view_ok ticker next_id A" and s: "trading_side s" and A: "A s = x # xs" and q: "q \<noteq> 0"
  shows "view_ok ticker next_id (A(s := x\<lparr>o_qty := q\<rparr> # xs))"
proof (rule view_okI [OF s])
  let ?x = "x\<lparr>o_qty := q\<rparr>"
  let ?A = "A(s := ?x # xs)"
  have o: "opp s \<noteq> s" using s by simp
  show "sorted_wrt (before (opp s)) (?A (opp s))" "distinct (map market_order_id (?A (opp s)))"
    using o view_okD [OF ok, of "opp s"] by simp_all
  note ds = view_okD [OF ok s] and dso = view_okD [OF ok, of "opp s"]
  show "order_ok ticker next_id s y" if "y \<in> set (?A s)" for y
    using ds(1) [of y] ds(1) [of x] that A q order_ok_qty by auto
  show "sorted_wrt (before s) (?A s)" using ds(2) A before_same_key [of ?x x s] by simp
  show "distinct (map market_order_id (?A s))" using ds(3) A by simp
  show "order_ok ticker next_id (opp s) x" if "x \<in> set (?A (opp s))" for x using dso(1) that o by simp
  show "outside s (o_price y) (o_price z)" if "y \<in> set (?A s)" "z \<in> set (?A (opp s))" for y z
    using view_ok_uncrossed [OF ok s, of y z] view_ok_uncrossed [OF ok s, of x z] that A o by auto
  show "market_order_id ` set (?A s) \<inter> market_order_id ` set (?A (opp s)) = {}"
    using view_ok_other [OF ok s] A o by auto
qed

lemma view_ok_suffix:
  assumes ok: "view_ok ticker next_id A" and s: "trading_side s" and A: "A s = ys @ zs"
  shows "view_ok ticker next_id (A(s := zs))"
proof (rule view_ok_shrink [OF ok s])
  show "sorted_wrt (before s) zs" using view_okD(2) [OF ok s] A by (simp add: sorted_wrt_append)
  show "distinct (map market_order_id zs)" using view_okD(3) [OF ok s] A by simp
qed (use A in simp)

lemma view_ok_filter:
  assumes ok: "view_ok ticker next_id A" and s: "trading_side s"
  shows "view_ok ticker next_id (A(s := filter P (A s)))"
  using view_okD(2,3) [OF ok s]
  by (intro view_ok_shrink [OF ok s]) (auto simp: sorted_wrt_filter distinct_map_filter)

lemma view_ok_match:
  assumes ok: "view_ok ticker next_id A" and s: "trading_side side"
    and m: "spec_match tk client side price coid new_id leaves (A (opp side)) = (leaves', xs', evs)"
  shows "view_ok ticker next_id (A(opp side := xs'))"
  using spec_match_suffix [OF m]
proof (elim disjE exE conjE)
  assume "xs' = []"
  then show ?thesis using view_ok_suffix [OF ok, of "opp side" "A (opp side)" "[]"] by simp
next
  fix ys x zs assume "A (opp side) = ys @ x # zs" "xs' = x # zs"
  then show ?thesis using view_ok_suffix [OF ok, of "opp side" ys "x # zs"] by simp
next
  fix ys x zs q assume a: "A (opp side) = ys @ x # zs" "q \<noteq> 0" "xs' = x\<lparr>o_qty := q\<rparr> # zs"
  let ?A = "A(opp side := x # zs)"
  have "view_ok ticker next_id ?A" using view_ok_suffix [OF ok, of "opp side" ys "x # zs"] a(1) by simp
  from view_ok_resize [OF this, of "opp side" x zs q] show ?thesis using a by simp
qed

lemma view_ok_next: "view_ok ticker n A \<Longrightarrow> n \<le> m \<Longrightarrow> view_ok ticker m A"
  unfolding view_ok_def order_ok_def by (meson order_less_le_trans)

lemma before_trans: "before s x y \<Longrightarrow> before s y z \<Longrightarrow> before s x z"
  by (auto simp: before_def dest: ahead_trans)

lemma sorted_last: "sorted_wrt R (x # xs) \<Longrightarrow> y \<in> set (x # xs) \<Longrightarrow> y = last (x # xs) \<or> R y (last (x # xs))"
proof (induction xs arbitrary: x)
  case (Cons z zs)
  then show ?case by (cases "y = x") auto
qed simp

text \<open>The priority a new order gets is above those already at its price and at most its market order id.\<close>

lemma spec_next_priority_ok:
  assumes ok: "\<And>x. x \<in> set xs \<Longrightarrow> order_ok ticker next_id s x" and srt: "sorted_wrt (before s) xs"
    and n: "0 < next_id"
  shows "0 < spec_next_priority price xs" "spec_next_priority price xs \<le> next_id"
    "\<And>x. x \<in> set xs \<Longrightarrow> o_price x = price \<Longrightarrow> o_priority x < spec_next_priority price xs"
proof -
  let ?ys = "filter (\<lambda>x. o_price x = price) xs"
  have one: "(1 :: 64 word) \<le> next_id" using n by (simp add: word_less_nat_alt word_le_nat_alt)
  have "0 < spec_next_priority price xs \<and> spec_next_priority price xs \<le> next_id \<and>
    (\<forall>x \<in> set xs. o_price x = price \<longrightarrow> o_priority x < spec_next_priority price xs)"
  proof (cases ?ys)
    case Nil
    then have "\<forall>x \<in> set xs. o_price x \<noteq> price" by (auto simp: filter_empty_conv)
    with Nil one show ?thesis by (simp add: spec_next_priority_def)
  next
    case (Cons y ys)
    let ?l = "last (y # ys)"
    have l: "?l \<in> set ?ys" unfolding Cons by (rule last_in_set) simp
    then have lo: "order_ok ticker next_id s ?l" "o_price ?l = price" using ok by auto
    have p: "spec_next_priority price xs = o_priority ?l + 1" using Cons by (simp add: spec_next_priority_def)
    have lt: "o_priority ?l < next_id" using lo(1) by (auto simp: order_ok_def)
    have u: "unat (o_priority ?l + 1) = unat (o_priority ?l) + 1" by (rule unat_plus_one [OF lt])
    have "o_priority x \<le> o_priority ?l" if "x \<in> set xs" "o_price x = price" for x
    proof -
      have "sorted_wrt (before s) (y # ys)" using sorted_wrt_filter [OF srt, of "\<lambda>x. o_price x = price"] Cons by simp
      moreover have "x \<in> set ?ys" using that by simp
      then have "x \<in> set (y # ys)" unfolding Cons .
      ultimately have "x = ?l \<or> before s x ?l" by (rule sorted_last)
      then show ?thesis using that(2) lo(2) by (auto simp: before_def)
    qed
    then show ?thesis using u lt unfolding p by (fastforce simp: word_less_nat_alt word_le_nat_alt)
  qed
  then show "0 < spec_next_priority price xs" "spec_next_priority price xs \<le> next_id"
    "\<And>x. x \<in> set xs \<Longrightarrow> o_price x = price \<Longrightarrow> o_priority x < spec_next_priority price xs"
    by blast+
qed

lemma sorted_queue_insert:
  assumes srt: "sorted_wrt (before s) xs"
    and same: "\<And>y. y \<in> set xs \<Longrightarrow> o_price y = o_price x \<Longrightarrow> before s y x"
  shows "sorted_wrt (before s) (queue_insert s o_price x xs)"
proof -
  let ?P = "\<lambda>y. \<not> ahead s (o_price x) (o_price y)"
  let ?a = "takeWhile ?P xs" and ?b = "dropWhile ?P xs"
  have ab: "sorted_wrt (before s) (?a @ ?b)" using srt by simp
  have a: "before s y x" if "y \<in> set ?a" for y
  proof -
    have "y \<in> set xs" "?P y" using that by (auto dest: set_takeWhileD)
    then show ?thesis using same [of y] ahead_linear [of "o_price x" "o_price y" s]
      by (cases "o_price y = o_price x") (auto simp: before_def)
  qed
  have b: "before s x z" if "z \<in> set ?b" for z
  proof (cases ?b)
    case Nil
    with that show ?thesis unfolding Nil by simp
  next
    case (Cons c cs)
    have c: "ahead s (o_price x) (o_price c)" using hd_dropWhile [of ?P xs] unfolding Cons by simp
    have "z = c \<or> before s c z" using that ab Cons by (auto simp: sorted_wrt_append)
    then show ?thesis using c by (auto simp: before_def dest: ahead_trans)
  qed
  show ?thesis using ab a b before_trans unfolding queue_insert_def
    by (fastforce simp: sorted_wrt_append)
qed

lemma distinct_map_queue_insert:
  "distinct (map f xs) \<Longrightarrow> f x \<notin> f ` set xs \<Longrightarrow> distinct (map f (queue_insert s key x xs))"
proof -
  assume d: "distinct (map f xs)" and n: "f x \<notin> f ` set xs"
  let ?P = "\<lambda>y. \<not> ahead s (key x) (key y)"
  have e: "map f xs = map f (takeWhile ?P xs) @ map f (dropWhile ?P xs)"
    by (simp flip: map_append)
  then have "f ` set xs = f ` set (takeWhile ?P xs) \<union> f ` set (dropWhile ?P xs)"
    by (metis list.set_map set_append)
  with d n e show ?thesis by (auto simp: queue_insert_def)
qed

lemma view_ok_rest:
  assumes ok: "view_ok ticker next_id A" and s: "trading_side side" and n: "0 < next_id" "next_id \<noteq> - 1"
    and un: "\<And>y. y \<in> set (A (opp side)) \<Longrightarrow> outside side price (o_price y)" and q: "qty \<noteq> 0"
    and x: "x = spec_new_order ticker client side price coid next_id qty (A side)"
  shows "view_ok ticker (next_id + 1) (A(side := queue_insert side o_price x (A side)))"
proof -
  have lt: "next_id < next_id + 1" by (rule word_less_plus_one [OF n(2)])
  have ok': "view_ok ticker (next_id + 1) A" using view_ok_next [OF ok] lt by simp
  have o: "opp side \<noteq> side" using s by simp
  note ds = view_okD [OF ok s] and ds' = view_okD [OF ok' s] and dso = view_okD [OF ok', of "opp side"]
  note prio = spec_next_priority_ok [OF ds(1,2) n(1), where price = price]
  have xs: "o_side x = side" "o_price x = price" "o_qty x = qty" "market_order_id x = next_id"
    "o_priority x = spec_next_priority price (A side)" "ticker_id x = ticker"
    by (simp_all add: x spec_new_order_def)
  have moid: "market_order_id y < next_id" if "y \<in> set (A side)" for y
    using ds(1) [OF that] by (simp add: order_ok_def)
  have moid': "market_order_id y < next_id" if "y \<in> set (A (opp side))" for y
    using view_okD(1) [OF ok, of "opp side"] that by (auto simp: order_ok_def)
  show ?thesis
  proof (rule view_okI [OF s])
    let ?A = "A(side := queue_insert side o_price x (A side))"
    show "order_ok ticker (next_id + 1) side y" if "y \<in> set (?A side)" for y
      using that ds'(1) [of y] xs q prio(1,2) lt by (auto simp: order_ok_def)
    show "sorted_wrt (before side) (?A side)"
      using sorted_queue_insert [OF ds(2), of x] xs prio(3) moid by (simp add: before_def)
    show "order_ok ticker (next_id + 1) (opp side) y" if "y \<in> set (?A (opp side))" for y
      using that o dso(1) [of y] by simp
    show "outside side (o_price y) (o_price z)" if "y \<in> set (?A side)" "z \<in> set (?A (opp side))" for y z
      using that o un [of z] xs(2) view_ok_uncrossed [OF ok s, of y z] by auto
    show "distinct (map market_order_id (?A side))"
      using distinct_map_queue_insert [OF ds(3), of x] xs moid by force
    show "market_order_id ` set (?A side) \<inter> market_order_id ` set (?A (opp side)) = {}"
      using view_ok_other [OF ok s] o xs moid' by force
  qed (use dso o in simp_all)
qed

lemma sorted_outside:
  assumes "sorted_wrt (before (opp side)) xs" and "xs = [] \<or> outside side price (o_price (hd xs))"
    and "trading_side side" and "y \<in> set xs"
  shows "outside side price (o_price y)"
  using assms by (cases xs) (auto simp: outside_def before_def ahead_def opp_def trading_side_def split: if_splits)

lemma view_ok_add:
  assumes ok: "view_ok ticker next_id A" and s: "trading_side side" and n: "0 < next_id" "next_id \<noteq> - 1"
    and r: "spec_add client coid ticker side price qty next_id A = (A', evs)"
  shows "view_ok ticker (next_id + 1) A'"
proof -
  let ?nid = "ucast (ucast next_id :: 32 word)"
  obtain leaves xs' me where m: "spec_match ticker client side price coid ?nid qty (A (opp side)) = (leaves, xs', me)"
    by (metis prod_cases3)
  let ?A1 = "A(opp side := xs')"
  have ok1: "view_ok ticker next_id ?A1" by (rule view_ok_match [OF ok s m])
  show ?thesis
  proof (cases "leaves = 0")
    case True
    then have "A' = ?A1" using r m by (simp add: spec_add_def Let_def)
    then show ?thesis using view_ok_next [OF ok1] word_less_plus_one [OF n(2)] by simp
  next
    case False
    let ?x = "spec_new_order ticker client side price coid next_id leaves (?A1 side)"
    have A': "A' = ?A1(side := queue_insert side o_price ?x (?A1 side))"
      using r m False by (simp add: spec_add_def Let_def)
    have out: "outside side price (o_price y)" if "y \<in> set (?A1 (opp side))" for y
      using sorted_outside [OF view_okD(2) [OF ok1, of "opp side"]] spec_match_exhausts [OF m False] s that by simp
    show ?thesis unfolding A' by (rule view_ok_rest [OF ok1 s n out False refl])
  qed
qed

lemma view_ok_cancel:
  assumes ok: "view_ok ticker next_id A" and r: "spec_cancel client oid tk A = (A', evs)"
  shows "view_ok ticker next_id A'"
proof (cases "find (owned_by client oid) (A BUY @ A SELL)")
  case None
  then show ?thesis using ok r by (simp add: spec_cancel_def)
next
  case (Some x)
  then have "x \<in> set (A BUY) \<or> x \<in> set (A SELL)" using find_SomeD by force
  then have s: "trading_side (o_side x)"
    using view_okD(1) [OF ok, of BUY x] view_okD(1) [OF ok, of SELL x] by (auto simp: order_ok_def)
  have "A' = A(o_side x := filter (\<lambda>y. \<not> owned_by client oid y) (A (o_side x)))"
    using Some r by (simp add: spec_cancel_def)
  then show ?thesis using view_ok_filter [OF ok s] by simp
qed

end
