(* ===== verification/MEBookRefine.thy ===== *)
theory MEBookRefine
  imports MEBookSpec
begin

text \<open>
  The pointer code of the exchange's book does what \<open>MEBookSpec\<close> says.

  \<open>me_struct b S\<close> is the invariant of the data structure: the book has shape \<open>S\<close>, the order pool holds
  exactly its orders, and an entry of \<open>cid_oid_to_order_\<close> points to an order of the book with that client
  and order id. \<open>cid_complete\<close> is the converse for every order, which a client that reuses the id of a
  resting order destroys. \<open>view b S\<close> is what the shape represents.
\<close>

definition cid_sound :: "me_order_book \<Rightarrow> shape \<Rightarrow> bool" where
  "cid_sound b S \<longleftrightarrow> (\<forall>c i p. cid_oid_to_order b c i = Some p \<longrightarrow>
     p \<in> all_orders S \<and> client_id (ord b p) = c \<and> client_order_id (ord b p) = i)"

definition cid_complete :: "me_order_book \<Rightarrow> shape \<Rightarrow> bool" where
  "cid_complete b S \<longleftrightarrow> (\<forall>p \<in> all_orders S. cid_oid_to_order b (client_id (ord b p)) (client_order_id (ord b p)) = Some p)"

definition ids_ok :: "MEOrder \<Rightarrow> bool" where
  "ids_ok x \<longleftrightarrow> unat (client_id x) < ME_MAX_NUM_CLIENTS \<and> unat (client_order_id x) < ME_MAX_ORDER_IDS"

definition me_struct :: "me_order_book \<Rightarrow> shape \<Rightarrow> bool" where
  "me_struct b S \<longleftrightarrow> book_ok b S \<and> pool_ok (order_pool b) \<and> pool_size (order_pool b) = ME_MAX_ORDER_IDS \<and>
     live (order_pool b) = all_orders S \<and> (\<forall>p \<in> all_orders S. ids_ok (ord b p)) \<and> cid_sound b S"

definition view :: "me_order_book \<Rightarrow> shape \<Rightarrow> view" where
  "view b S = (\<lambda>s. map (\<lambda>p. strip (ord b p)) (orders_of (S s)))"

definition me_frame :: "me_order_book \<Rightarrow> me_order_book \<Rightarrow> bool" where
  "me_frame b b' \<longleftrightarrow> book_ticker_id b' = book_ticker_id b \<and> next_market_order_id b' = next_market_order_id b \<and>
     base_price b' = base_price b"

subsection \<open>Fields the pointer structure does not read\<close>

lemma me_updates [simp]:
  "ord (b\<lparr>cid_oid_to_order := m\<rparr>) q = ord b q" "ord (b\<lparr>next_market_order_id := n\<rparr>) q = ord b q"
  "ord (b\<lparr>outbox := e\<rparr>) q = ord b q" "lev (b\<lparr>cid_oid_to_order := m\<rparr>) l = lev b l"
  "lev (b\<lparr>next_market_order_id := n\<rparr>) l = lev b l" "lev (b\<lparr>outbox := e\<rparr>) l = lev b l"
  "lev (b\<lparr>order_pool := pl\<rparr>) l = lev b l"
  "side_head s (b\<lparr>cid_oid_to_order := m\<rparr>) = side_head s b" "side_head s (b\<lparr>next_market_order_id := n\<rparr>) = side_head s b"
  "side_head s (b\<lparr>outbox := e\<rparr>) = side_head s b" "side_head s (b\<lparr>order_pool := pl\<rparr>) = side_head s b"
  for b :: me_order_book
  by (simp_all add: ord_def lev_def side_head_def)

lemma me_more_eq:
  fixes b b' :: me_order_book
  assumes "book.more b' = book.more b"
  shows "book_ticker_id b' = book_ticker_id b" "next_market_order_id b' = next_market_order_id b"
    "outbox b' = outbox b" "cid_oid_to_order b' = cid_oid_to_order b"
  using assms by (cases b; cases b'; simp)+

lemma me_upd_ord [simp]:
  "book_ticker_id (upd_ord p f b) = book_ticker_id b" "next_market_order_id (upd_ord p f b) = next_market_order_id b"
  "outbox (upd_ord p f b) = outbox b" "cid_oid_to_order (upd_ord p f b) = cid_oid_to_order b"
  for b :: me_order_book
  by (simp_all add: upd_ord_def)

lemma send_simps [simp]:
  "ord (sendClientResponse r b) q = ord b q" "ord (sendMarketUpdate u b) q = ord b q"
  "lev (sendClientResponse r b) l = lev b l" "lev (sendMarketUpdate u b) l = lev b l"
  "order_pool (sendClientResponse r b) = order_pool b" "order_pool (sendMarketUpdate u b) = order_pool b"
  "base_price (sendClientResponse r b) = base_price b" "base_price (sendMarketUpdate u b) = base_price b"
  "cid_oid_to_order (sendClientResponse r b) = cid_oid_to_order b" "cid_oid_to_order (sendMarketUpdate u b) = cid_oid_to_order b"
  "next_market_order_id (sendClientResponse r b) = next_market_order_id b"
  "next_market_order_id (sendMarketUpdate u b) = next_market_order_id b"
  "book_ticker_id (sendClientResponse r b) = book_ticker_id b" "book_ticker_id (sendMarketUpdate u b) = book_ticker_id b"
  "outbox (sendClientResponse r b) = outbox b @ [Response r]" "outbox (sendMarketUpdate u b) = outbox b @ [Update u]"
  by (simp_all add: sendClientResponse_def sendMarketUpdate_def)

lemma book_ok_me [simp]:
  "book_ok (b\<lparr>cid_oid_to_order := m\<rparr>) S = book_ok b S" "book_ok (b\<lparr>next_market_order_id := n\<rparr>) S = book_ok b S"
  "book_ok (b\<lparr>outbox := e\<rparr>) S = book_ok b S"
  for b :: me_order_book
proof -
  show "book_ok (b\<lparr>cid_oid_to_order := m\<rparr>) S = book_ok b S"
    by (rule iffI; erule book_ok_cong) simp_all
  show "book_ok (b\<lparr>next_market_order_id := n\<rparr>) S = book_ok b S"
    by (rule iffI; erule book_ok_cong) simp_all
  show "book_ok (b\<lparr>outbox := e\<rparr>) S = book_ok b S"
    by (rule iffI; erule book_ok_cong) simp_all
qed

lemma me_struct_send [simp]:
  "me_struct (sendClientResponse r b) S = me_struct b S" "me_struct (sendMarketUpdate u b) S = me_struct b S"
  by (simp_all add: me_struct_def cid_sound_def sendClientResponse_def sendMarketUpdate_def)

lemma cid_complete_send [simp]:
  "cid_complete (sendClientResponse r b) S = cid_complete b S" "cid_complete (sendMarketUpdate u b) S = cid_complete b S"
  by (simp_all add: cid_complete_def)

lemma view_send [simp]:
  "view (sendClientResponse r b) S = view b S" "view (sendMarketUpdate u b) S = view b S"
  by (simp_all add: view_def)

lemma me_struct_next [simp]: "me_struct (b\<lparr>next_market_order_id := n\<rparr>) S = me_struct b S"
  and cid_complete_next [simp]: "cid_complete (b\<lparr>next_market_order_id := n\<rparr>) S = cid_complete b S"
  and view_next [simp]: "view (b\<lparr>next_market_order_id := n\<rparr>) S = view b S"
  by (simp_all add: me_struct_def cid_sound_def cid_complete_def view_def)

lemma strip_ids [simp]:
  "client_id (strip x) = client_id x" "client_order_id (strip x) = client_order_id x"
  "market_order_id (strip x) = market_order_id x" "ticker_id (strip x) = ticker_id x"
  by (simp_all add: strip_def)

lemma strip_eq_ids:
  fixes x y :: MEOrder
  assumes "strip x = strip y"
  shows "client_id x = client_id y" "client_order_id x = client_order_id y" "market_order_id x = market_order_id y"
    "ticker_id x = ticker_id y" "ids_ok x = ids_ok y"
  using arg_cong [OF assms, of client_id] arg_cong [OF assms, of client_order_id]
    arg_cong [OF assms, of market_order_id] arg_cong [OF assms, of ticker_id]
  by (simp_all add: ids_ok_def)

lemma me_structD:
  assumes "me_struct b S"
  shows "book_ok b S" "pool_ok (order_pool b)" "pool_size (order_pool b) = ME_MAX_ORDER_IDS"
    "live (order_pool b) = all_orders S" "\<And>p. p \<in> all_orders S \<Longrightarrow> ids_ok (ord b p)" "cid_sound b S"
  using assms by (simp_all add: me_struct_def)

lemma set_cid_oid_ok:
  "unat c < ME_MAX_NUM_CLIENTS \<Longrightarrow> unat i < ME_MAX_ORDER_IDS \<Longrightarrow>
   set_cid_oid c i p b = Inr (b\<lparr>cid_oid_to_order := (cid_oid_to_order b)(c := (cid_oid_to_order b c)(i := p))\<rparr>)"
  by (simp add: set_cid_oid_def)

subsection \<open>Removing an order\<close>

lemma removeOrder_ok:
  assumes ok: "me_struct b S" and p: "p \<in> all_orders S"
  shows "\<exists>b' S'. removeOrder p b = Inr b' \<and> me_struct b' S' \<and> (cid_complete b S \<longrightarrow> cid_complete b' S') \<and>
     me_frame b b' \<and> outbox b' = outbox b \<and> all_orders S' = all_orders S - {p} \<and>
     (\<forall>q. strip (ord b' q) = strip (ord b q)) \<and> (\<forall>t. t \<noteq> o_side (ord b p) \<longrightarrow> S' t = S t) \<and>
     orders_of (S' (o_side (ord b p))) = remove1 p (orders_of (S (o_side (ord b p))))"
proof -
  note bk = me_structD(1) [OF ok]
  from unlink_order_ok [OF bk p] obtain b1 S' where u: "unlink_order p b = Inr b1" "book_ok b1 S'" "ord_frame b b1"
    "\<forall>t. t \<noteq> o_side (ord b p) \<longrightarrow> S' t = S t" "orders_of (S' (o_side (ord b p))) = remove1 p (orders_of (S (o_side (ord b p))))"
    by blast
  have st: "strip (ord b1 q) = strip (ord b q)" for q using u(3) by (simp add: ord_frame_def)
  note ids = strip_eq_ids [OF st]
  have more: "book.more b1 = book.more b" using u(3) by (simp add: ord_frame_def)
  note m = me_more_eq [OF more]
  have al: "all_orders S' = all_orders S - {p}"
    using all_orders_remove [OF bk] order_side_in [OF bk p] u(4,5) by blast
  let ?c = "client_id (ord b p)" and ?i = "client_order_id (ord b p)"
  let ?m = "(cid_oid_to_order b)(?c := (cid_oid_to_order b ?c)(?i := None))"
  let ?b2 = "b1\<lparr>cid_oid_to_order := ?m\<rparr>"
  have "ids_ok (ord b p)" by (rule me_structD(5) [OF ok p])
  then have sc: "set_cid_oid (client_id (ord b1 p)) (client_order_id (ord b1 p)) None b1 = Inr ?b2"
    using set_cid_oid_ok [of ?c ?i None b1] ids m by (simp add: ids_ok_def)
  have "pool_ok (order_pool ?b2)" "p \<in> live (order_pool ?b2)"
    using u(3) me_structD(2,4) [OF ok] p by (simp_all add: ord_frame_def)
  from deallocate_ok [OF this] obtain pl where pl: "deallocate p (order_pool ?b2) = Inr pl" "pool_ok pl"
    "live pl = live (order_pool ?b2) - {p}" "pool_size pl = pool_size (order_pool ?b2)" "pobj pl = pobj (order_pool ?b2)"
    by blast
  let ?b' = "?b2\<lparr>order_pool := pl\<rparr>"
  have run: "removeOrder p b = Inr ?b'" using u(1) sc pl(1) by (simp add: removeOrder_def)
  have ord': "ord ?b' q = ord b1 q" for q using pl(5) by (simp add: ord_def)
  have bk': "book_ok ?b' S'" by (rule book_ok_cong [OF u(2)]) (simp_all add: ord')
  have "live (order_pool ?b') = all_orders S'"
    using pl(3) u(3) me_structD(4) [OF ok] al by (simp add: ord_frame_def)
  moreover have "pool_size (order_pool ?b') = ME_MAX_ORDER_IDS"
    using pl(4) u(3) me_structD(3) [OF ok] by (simp add: ord_frame_def)
  moreover have "ids_ok (ord ?b' q)" if "q \<in> all_orders S'" for q
    using that al me_structD(5) [OF ok, of q] ids(5) [of q] by (simp add: ord')
  moreover have "cid_sound ?b' S'"
  proof -
    have "q \<in> all_orders S' \<and> client_id (ord ?b' q) = c \<and> client_order_id (ord ?b' q) = i" if "?m c i = Some q" for c i q
    proof -
      have q: "cid_oid_to_order b c i = Some q" and ne: "\<not> (c = ?c \<and> i = ?i)" using that by (auto split: if_splits)
      have "q \<in> all_orders S \<and> client_id (ord b q) = c \<and> client_order_id (ord b q) = i"
        using me_structD(6) [OF ok] q by (simp add: cid_sound_def)
      moreover from this have "q \<noteq> p" using ne by blast
      ultimately show ?thesis using al ids(1,2) [of q] ord' [of q] by simp
    qed
    then show ?thesis by (simp add: cid_sound_def)
  qed
  ultimately have "me_struct ?b' S'" using bk' pl(2) by (simp add: me_struct_def)
  moreover have "cid_complete ?b' S'" if cc: "cid_complete b S"
  proof -
    have "?m (client_id (ord ?b' q)) (client_order_id (ord ?b' q)) = Some q" if "q \<in> all_orders S'" for q
    proof -
      have q: "q \<in> all_orders S" "q \<noteq> p" using that al by auto
      have cq: "cid_oid_to_order b (client_id (ord b q)) (client_order_id (ord b q)) = Some q"
        and "cid_oid_to_order b ?c ?i = Some p"
        using cc q(1) p unfolding cid_complete_def by blast+
      then have "\<not> (client_id (ord b q) = ?c \<and> client_order_id (ord b q) = ?i)"
        using q(2) by (metis option.inject)
      then have "?m (client_id (ord b q)) (client_order_id (ord b q)) = Some q"
        using cq by (cases "client_id (ord b q) = ?c") auto
      then show ?thesis unfolding ord' ids(1,2) .
    qed
    then show ?thesis by (simp add: cid_complete_def)
  qed
  moreover have "me_frame b ?b'" using m u(3) by (simp add: me_frame_def ord_frame_def)
  moreover have "\<forall>q. strip (ord ?b' q) = strip (ord b q)" using st by (simp add: ord')
  moreover have "outbox ?b' = outbox b" using m by simp
  ultimately show ?thesis using run al u(4,5) by (intro exI [of _ ?b'] exI [of _ S']) blast
qed

subsection \<open>One match\<close>

lemma passive_head_opp: "trading_side side \<Longrightarrow> passive_head side b = side_head (opp side) b"
  by (auto simp: passive_head_def side_head_def trading_side_def)

lemma upd_qty_struct:
  assumes "me_struct b S"
  shows "me_struct (upd_ord p (\<lambda>x. x\<lparr>o_qty := o_qty x - q\<rparr>) b) S"
proof -
  let ?b = "upd_ord p (\<lambda>x. x\<lparr>o_qty := o_qty x - q\<rparr>) b"
  have "book_ok ?b S" by (rule book_ok_cong [OF me_structD(1) [OF assms]]) simp_all
  then show ?thesis using assms by (simp add: me_struct_def cid_sound_def ids_ok_def)
qed

lemma upd_qty_complete:
  "cid_complete b S \<Longrightarrow> cid_complete (upd_ord p (\<lambda>x. x\<lparr>o_qty := o_qty x - q\<rparr>) b) S"
  by (simp add: cid_complete_def)

lemma strip_qty: "strip (x\<lparr>o_qty := q\<rparr>) = (strip x)\<lparr>o_qty := q\<rparr>"
  by (simp add: strip_def)

lemma view_side: "book_ok b S \<Longrightarrow> trading_side s \<Longrightarrow> x \<in> set (view b S s) \<Longrightarrow> o_side x = s"
proof -
  assume ok: "book_ok b S" "trading_side s" and "x \<in> set (view b S s)"
  then obtain p l os where p: "x = strip (ord b p)" "(l, os) \<in> set (S s)" "p \<in> set os"
    by (auto simp: view_def in_orders_of)
  have "level_ok b s (l, os)" using book_okD(1) [OF ok p(2)] .
  then show "o_side x = s" using level_ok_orders [of b s l os p] p by simp
qed

lemma view_upd_qty_other:
  assumes "p \<notin> set (orders_of (S s))"
  shows "view (upd_ord p f b) S s = view b S s"
  using assms by (simp add: view_def)

lemma passive_order:
  assumes ok: "me_struct b S" and s: "trading_side side" and v: "view b S (opp side) = x # xs"
  shows "\<exists>p ps. orders_of (S (opp side)) = p # ps \<and> x = strip (ord b p) \<and> xs = map (\<lambda>p. strip (ord b p)) ps \<and>
    p \<in> all_orders S \<and> p \<notin> set ps \<and> p \<notin> set (orders_of (S side)) \<and> o_side (ord b p) = opp side \<and>
    (\<exists>l. passive_head side b = Some l \<and> first_order (lev b l) = Some p)"
proof -
  note bk = me_structD(1) [OF ok]
  obtain p ps where o: "orders_of (S (opp side)) = p # ps" "x = strip (ord b p)" "xs = map (\<lambda>p. strip (ord b p)) ps"
    using v by (auto simp: view_def)
  have d: "distinct (p # ps)" using distinct_orders_of [OF bk, of "opp side"] o(1) by simp
  have al: "p \<in> all_orders S" using all_orders_opp [OF s, of S] o(1) by simp
  have dj: "p \<notin> set (orders_of (S side))" using sides_disjoint [OF bk s] o(1) by auto
  have "side_head (opp side) b \<noteq> None" using side_first(1) [OF bk, of "opp side"] o(1) by simp
  then obtain l where l: "side_head (opp side) b = Some l" by blast
  then have "first_order (lev b l) = Some p" using side_first(2) [OF bk, of "opp side" l] o(1) by simp
  moreover have "o_side x = opp side" using view_side [OF bk, of "opp side" x] v by simp
  ultimately show ?thesis using o d al dj l passive_head_opp [OF s] by auto
qed

lemma me_match_ok:
  assumes ok: "me_struct b S" and s: "trading_side side" and o: "orders_of (S (opp side)) = p # ps"
    and sd: "o_side (ord b p) = opp side" and x: "x = strip (ord b p)" and f: "f = min leaves (o_qty x)"
    and x': "x' = x\<lparr>o_qty := o_qty x - f\<rparr>"
  shows "\<exists>b' S'. me_match ticker client side coid new_id p leaves b = Inr (leaves - f, b') \<and> me_struct b' S' \<and>
     (cid_complete b S \<longrightarrow> cid_complete b' S') \<and> me_frame b b' \<and> view b' S' side = view b S side \<and>
     (if o_qty x' = 0
      then view b' S' (opp side) = tl (view b S (opp side)) \<and>
        outbox b' = outbox b @ fill_events ticker client side coid new_id f (leaves - f) x' @
          [Update \<lparr>mu_type = CANCEL, mu_order_id = market_order_id x, mu_ticker_id = ticker,
            mu_side = o_side x, mu_price = o_price x, mu_qty = o_qty x, mu_priority = Priority_INVALID\<rparr>]
      else view b' S' (opp side) = x' # tl (view b S (opp side)) \<and>
        outbox b' = outbox b @ fill_events ticker client side coid new_id f (leaves - f) x' @
          [Update \<lparr>mu_type = MODIFY, mu_order_id = market_order_id x, mu_ticker_id = ticker,
            mu_side = o_side x, mu_price = o_price x, mu_qty = o_qty x', mu_priority = o_priority x\<rparr>])"
proof -
  note bk = me_structD(1) [OF ok]
  have opp: "opp side \<noteq> side" using s by simp
  have d: "p \<notin> set ps" using distinct_orders_of [OF bk, of "opp side"] o by simp
  have al: "p \<in> all_orders S" using all_orders_opp [OF s, of S] o by simp
  have dj: "p \<notin> set (orders_of (S side))" using sides_disjoint [OF bk s] o by auto
  let ?b1 = "upd_ord p (\<lambda>x. x\<lparr>o_qty := o_qty x - f\<rparr>) b"
  have st1: "me_struct ?b1 S" by (rule upd_qty_struct [OF ok])
  have x1: "strip (ord ?b1 p) = x'" using x x' by (simp add: strip_qty)
  have fx: "o_price (ord b p) = o_price x" "o_side (ord b p) = o_side x" "client_id (ord b p) = client_id x"
    "client_order_id (ord b p) = client_order_id x" "market_order_id (ord b p) = market_order_id x"
    "o_priority (ord b p) = o_priority x" "o_qty (ord b p) = o_qty x" by (simp_all add: x)
  define b4 where "b4 = sendMarketUpdate
            \<lparr>mu_type = TRADE, mu_order_id = OrderId_INVALID, mu_ticker_id = ticker, mu_side = side,
             mu_price = o_price x, mu_qty = f, mu_priority = Priority_INVALID\<rparr> (sendClientResponse
            \<lparr>rs_type = FILLED, rs_client_id = client_id x, rs_ticker_id = ticker,
             rs_client_order_id = client_order_id x, rs_market_order_id = market_order_id x,
             rs_side = o_side x, rs_price = o_price x, rs_exec_qty = f,
             rs_leaves_qty = o_qty x - f\<rparr> (sendClientResponse
            \<lparr>rs_type = FILLED, rs_client_id = client, rs_ticker_id = ticker, rs_client_order_id = coid,
             rs_market_order_id = new_id, rs_side = side, rs_price = o_price x,
             rs_exec_qty = f, rs_leaves_qty = leaves - f\<rparr> ?b1))"
  have st4: "me_struct b4 S" using st1 by (simp add: b4_def)
  have ob4: "outbox b4 = outbox b @ fill_events ticker client side coid new_id f (leaves - f) x'"
    by (simp add: b4_def fill_events_def x')
  have fr4: "me_frame b b4" by (simp add: b4_def me_frame_def)
  have cc4: "cid_complete b S \<longrightarrow> cid_complete b4 S" by (simp add: b4_def upd_qty_complete)
  have v4: "view b4 S side = view b S side" "view b4 S (opp side) = x' # tl (view b S (opp side))"
  proof -
    show "view b4 S side = view b S side" using view_upd_qty_other [of p S side _ b] dj by (simp add: b4_def)
    have "view ?b1 S (opp side) = x' # map (\<lambda>p. strip (ord b p)) ps" using o d x1 by (auto simp: view_def)
    then show "view b4 S (opp side) = x' # tl (view b S (opp side))" using o by (simp add: b4_def view_def)
  qed
  show ?thesis
  proof (cases "o_qty x' = 0")
    case True
    let ?u = "\<lparr>mu_type = CANCEL, mu_order_id = market_order_id x, mu_ticker_id = ticker,
            mu_side = o_side x, mu_price = o_price x, mu_qty = o_qty x, mu_priority = Priority_INVALID\<rparr>"
    have st5: "me_struct (sendMarketUpdate ?u b4) S" using st4 by simp
    from removeOrder_ok [OF st5 al] obtain b' S' where r:
      "removeOrder p (sendMarketUpdate ?u b4) = Inr b'" "me_struct b' S'"
      "cid_complete (sendMarketUpdate ?u b4) S \<longrightarrow> cid_complete b' S'"
      "me_frame (sendMarketUpdate ?u b4) b'" "outbox b' = outbox (sendMarketUpdate ?u b4)"
      "\<forall>q. strip (ord b' q) = strip (ord (sendMarketUpdate ?u b4) q)"
      "\<forall>t. t \<noteq> o_side (ord (sendMarketUpdate ?u b4) p) \<longrightarrow> S' t = S t"
      "orders_of (S' (o_side (ord (sendMarketUpdate ?u b4) p))) =
        remove1 p (orders_of (S (o_side (ord (sendMarketUpdate ?u b4) p))))"
      by blast
    have side4: "o_side (ord (sendMarketUpdate ?u b4) p) = opp side" using sd by (simp add: b4_def)
    have run: "me_match ticker client side coid new_id p leaves b = Inr (leaves - f, b')"
      using r(1) True f x' by (simp add: me_match_def Let_def fx b4_def)
    have o': "orders_of (S' (opp side)) = ps" using r(8) o unfolding side4 by simp
    have "view b' S' (opp side) = tl (view b4 S (opp side))"
      unfolding view_def o' using r(6) o by simp
    moreover have "view b' S' side = view b4 S side"
      using r(6,7) opp unfolding side4 by (simp add: view_def)
    moreover have "me_frame b b'" using r(4) fr4 by (simp add: me_frame_def)
    ultimately show ?thesis using run r(2,3,5) True cc4 ob4 v4
      by (intro exI [of _ b'] exI [of _ S']) simp
  next
    case False
    let ?u = "\<lparr>mu_type = MODIFY, mu_order_id = market_order_id x, mu_ticker_id = ticker,
            mu_side = o_side x, mu_price = o_price x, mu_qty = o_qty x', mu_priority = o_priority x\<rparr>"
    let ?b' = "sendMarketUpdate ?u b4"
    have run: "me_match ticker client side coid new_id p leaves b = Inr (leaves - f, ?b')"
      using False f x' by (simp add: me_match_def Let_def fx b4_def)
    have "me_frame b ?b'" using fr4 by (simp add: me_frame_def)
    then show ?thesis using run st4 cc4 False ob4 v4 by (intro exI [of _ ?b'] exI [of _ S]) simp
  qed
qed

subsection \<open>The matching loop\<close>

lemma match_loop_ok:
  assumes "me_struct b S" and "trading_side side" and "length (view b S (opp side)) \<le> fuel"
    and "spec_match ticker client side price coid new_id leaves (view b S (opp side)) = (leaves', xs', evs)"
  shows "\<exists>b' S'. match_loop fuel ticker client side price coid new_id leaves b = Inr (leaves', b') \<and> me_struct b' S' \<and>
     (cid_complete b S \<longrightarrow> cid_complete b' S') \<and> me_frame b b' \<and> view b' S' side = view b S side \<and>
     view b' S' (opp side) = xs' \<and> outbox b' = outbox b @ evs"
  using assms
proof (induction "view b S (opp side)" arbitrary: b S fuel leaves leaves' xs' evs)
  case Nil
  then have e: "view b S (opp side) = []" by simp
  then have "orders_of (S (opp side)) = []" by (simp add: view_def)
  then have "passive_head side b = None"
    using side_first(1) [OF me_structD(1) [OF Nil.prems(1)], of "opp side"] passive_head_opp [OF Nil.prems(2)] by simp
  then have "match_loop fuel ticker client side price coid new_id leaves b = Inr (leaves, b)"
    by (simp add: match_loop.simps [of fuel])
  then show ?case using Nil e by (intro exI [of _ b] exI [of _ S]) (simp add: me_frame_def)
next
  case (Cons x xs)
  note v = Cons.hyps(2) [symmetric]
  from passive_order [OF Cons.prems(1,2) v] obtain p ps l where p:
    "orders_of (S (opp side)) = p # ps" "x = strip (ord b p)" "o_side (ord b p) = opp side"
    "passive_head side b = Some l" "first_order (lev b l) = Some p"
    by blast
  have px: "o_price (ord b p) = o_price x" using p(2) by simp
  show ?case
  proof (cases "leaves = 0 \<or> outside side price (o_price x)")
    case True
    then have "match_loop fuel ticker client side price coid new_id leaves b = Inr (leaves, b)"
      using p(4,5) px by (auto simp: match_loop.simps [of fuel])
    then show ?thesis using True Cons.prems v by (intro exI [of _ b] exI [of _ S]) (auto simp: me_frame_def)
  next
    case nz: False
    let ?f = "min leaves (o_qty x)"
    let ?x' = "x\<lparr>o_qty := o_qty x - ?f\<rparr>"
    have fuel: "fuel \<noteq> 0" using Cons.prems(3) v by auto
    from me_match_ok [OF Cons.prems(1,2) p(1,3,2) refl refl, where leaves = leaves and ticker = ticker and client = client and coid = coid and new_id = new_id] obtain b1 S1 where m:
      "me_match ticker client side coid new_id p leaves b = Inr (leaves - ?f, b1)" "me_struct b1 S1"
      "cid_complete b S \<longrightarrow> cid_complete b1 S1" "me_frame b b1" "view b1 S1 side = view b S side"
      "if o_qty ?x' = 0
      then view b1 S1 (opp side) = tl (view b S (opp side)) \<and>
        outbox b1 = outbox b @ fill_events ticker client side coid new_id ?f (leaves - ?f) ?x' @
          [Update \<lparr>mu_type = CANCEL, mu_order_id = market_order_id x, mu_ticker_id = ticker,
            mu_side = o_side x, mu_price = o_price x, mu_qty = o_qty x, mu_priority = Priority_INVALID\<rparr>]
      else view b1 S1 (opp side) = ?x' # tl (view b S (opp side)) \<and>
        outbox b1 = outbox b @ fill_events ticker client side coid new_id ?f (leaves - ?f) ?x' @
          [Update \<lparr>mu_type = MODIFY, mu_order_id = market_order_id x, mu_ticker_id = ticker,
            mu_side = o_side x, mu_price = o_price x, mu_qty = o_qty ?x', mu_priority = o_priority x\<rparr>]"
      by blast
    have step: "match_loop fuel ticker client side price coid new_id leaves b =
        match_loop (fuel - 1) ticker client side price coid new_id (leaves - ?f) b1"
      using nz p(4,5) px fuel m(1) by (simp add: match_loop.simps [of fuel])
    show ?thesis
    proof (cases "o_qty ?x' = 0")
      case True
      obtain l1 x1 e1 where r: "spec_match ticker client side price coid new_id (leaves - ?f) xs = (l1, x1, e1)"
        by (metis prod_cases3)
      have v1: "view b1 S1 (opp side) = xs" using m(6) True v by simp
      have len: "length (view b1 S1 (opp side)) \<le> fuel - 1" using Cons.prems(3) v v1 by simp
      from Cons.hyps(1) [OF v1 [symmetric] m(2) Cons.prems(2) len r [folded v1]] obtain b' S' where b':
        "match_loop (fuel - 1) ticker client side price coid new_id (leaves - ?f) b1 = Inr (l1, b')" "me_struct b' S'"
        "cid_complete b1 S1 \<longrightarrow> cid_complete b' S'" "me_frame b1 b'" "view b' S' side = view b1 S1 side"
        "view b' S' (opp side) = x1" "outbox b' = outbox b1 @ e1"
        by blast
      have "me_frame b b'" using m(4) b'(4) by (simp add: me_frame_def)
      moreover have "leaves' = l1" "xs' = x1" "evs = fill_events ticker client side coid new_id ?f (leaves - ?f) ?x' @
          Update \<lparr>mu_type = CANCEL, mu_order_id = market_order_id x, mu_ticker_id = ticker,
            mu_side = o_side x, mu_price = o_price x, mu_qty = o_qty x, mu_priority = Priority_INVALID\<rparr> # e1"
        using Cons.prems(4) nz True r v by (auto simp: Let_def)
      ultimately show ?thesis using step b' m(3,5,6) True
        by (intro exI [of _ b'] exI [of _ S']) simp
    next
      case False
      have "\<not> o_qty x \<le> leaves" using False by (auto simp: min_def split: if_splits)
      then have f0: "leaves - ?f = 0" by (simp add: min.absorb1)
      have "match_loop (fuel - 1) ticker client side price coid new_id (leaves - ?f) b1 = Inr (0, b1)"
        unfolding f0 by (subst match_loop.simps) simp
      moreover have "leaves' = 0" "xs' = ?x' # xs" "evs = fill_events ticker client side coid new_id ?f (leaves - ?f) ?x' @
          [Update \<lparr>mu_type = MODIFY, mu_order_id = market_order_id x, mu_ticker_id = ticker,
            mu_side = o_side x, mu_price = o_price x, mu_qty = o_qty ?x', mu_priority = o_priority x\<rparr>]"
        using Cons.prems(4) nz False v f0 by (auto simp: Let_def)
      ultimately show ?thesis using step m(2-6) False v
        by (intro exI [of _ b1] exI [of _ S1]) simp
    qed
  qed
qed

subsection \<open>Resting an order\<close>

lemma getNextPriority_ok:
  assumes ok: "me_struct b S" and s: "trading_side side" and win: "in_window price b"
    and opp: "\<And>y. y \<in> set (view b S (opp side)) \<Longrightarrow> o_price y \<noteq> price"
  shows "getNextPriority price b = Inr (spec_next_priority price (view b S side))"
proof -
  note bk = me_structD(1) [OF ok]
  have fv: "filter (\<lambda>x. o_price x = price) (view b S side) =
      map (\<lambda>p. strip (ord b p)) (filter (\<lambda>q. o_price (ord b q) = price) (orders_of (S side)))"
    by (simp add: view_def filter_map comp_def)
  show ?thesis
  proof (cases "price_orders_at_price b (index_of price b)")
    case None
    have "o_price (ord b q) \<noteq> price" if q: "q \<in> set (orders_of (S side))" for q
    proof
      assume e: "o_price (ord b q) = price"
      from q have "q \<in> all_orders S" using all_orders_opp [OF s, of S] by simp
      from order_in_level [OF bk this] e None show False by (metis option.distinct(1))
    qed
    then have "filter (\<lambda>x. o_price x = price) (view b S side) = []" unfolding fv by (simp add: filter_empty_conv)
    then show ?thesis using getOrdersAtPrice_in [OF win] None by (simp add: getNextPriority_def spec_next_priority_def)
  next
    case (Some l)
    from book_ok_map_Some [OF bk win Some] obtain t os where
      m: "trading_side t" "(l, os) \<in> set (S t)" "lprice b l = price" "level_ok b t (l, os)" by blast
    have ne: "os \<noteq> []" by (rule level_ok_nonempty [OF m(4)])
    have "t = side"
    proof (rule ccontr)
      assume "t \<noteq> side"
      then have t: "t = opp side" using opp_eq [OF s m(1)] by simp
      obtain q where q: "q \<in> set os" using ne by (meson last_in_set)
      then have "q \<in> set (orders_of (S (opp side)))" using m(2) t by (auto simp: in_orders_of)
      then have "strip (ord b q) \<in> set (view b S (opp side))" by (simp add: view_def)
      from opp [OF this] show False using level_ok_orders [OF m(4) q] m(3) by simp
    qed
    then have "filter (\<lambda>q. o_price (ord b q) = price) (orders_of (S side)) = os"
      using filter_level [OF bk s, of l os] m(2,3) by simp
    then have f: "filter (\<lambda>x. o_price x = price) (view b S side) = map (\<lambda>p. strip (ord b p)) os" unfolding fv by simp
    have pv: "prev_order (ord b (hd os)) = Some (last os)"
      using level_ok_ring [OF m(4)] ring_last_prev_hd unfolding order_ring_def by fastforce
    have "getNextPriority price b = Inr (o_priority (ord b (last os)) + 1)"
      using getOrdersAtPrice_in [OF win] Some level_ok_first [OF m(4)] pv by (simp add: getNextPriority_def)
    moreover have "spec_next_priority price (view b S side) = o_priority (ord b (last os)) + 1"
      unfolding spec_next_priority_def f using ne by (cases os) (auto simp: last_map)
    ultimately show ?thesis by simp
  qed
qed

lemma rest_ok:
  assumes ok: "me_struct b S" and s: "trading_side side" "o_side x = side" and ids: "ids_ok x"
    and win: "in_window (o_price x) b" and xl: "strip x = x"
    and opp: "\<And>y. y \<in> set (view b S (opp side)) \<Longrightarrow> o_price y \<noteq> o_price x"
    and room: "card (all_orders S) + 1 < ME_MAX_ORDER_IDS"
  shows "\<exists>p pl b' S'. allocate x (order_pool b) = Inr (p, pl) \<and> addOrder p (b\<lparr>order_pool := pl\<rparr>) = Inr b' \<and>
     me_struct b' S' \<and> me_frame b b' \<and> outbox b' = outbox b \<and>
     view b' S' side = queue_insert side o_price x (view b S side) \<and> view b' S' (opp side) = view b S (opp side) \<and>
     (cid_complete b S \<and> (\<forall>q \<in> all_orders S. \<not> owned_by (client_id x) (client_order_id x) (ord b q)) \<longrightarrow> cid_complete b' S')"
proof -
  note bk = me_structD(1) [OF ok]
  have "card (live (order_pool b)) + 1 < pool_size (order_pool b)"
    using room me_structD(3,4) [OF ok] by simp
  from allocate_ok [OF me_structD(2) [OF ok] this, of x] obtain pl where
    al: "allocate x (order_pool b) = Inr (next_free_index (order_pool b), pl)" "pool_ok pl"
      "live pl = insert (next_free_index (order_pool b)) (live (order_pool b))"
      "next_free_index (order_pool b) \<notin> live (order_pool b)" "pool_size pl = pool_size (order_pool b)"
      "pobj pl = (pobj (order_pool b))(next_free_index (order_pool b) := x)"
    by blast
  define p where "p = next_free_index (order_pool b)"
  let ?b0 = "b\<lparr>order_pool := pl\<rparr>"
  have p: "p \<notin> all_orders S" using al(4) me_structD(4) [OF ok] by (simp add: p_def)
  have ord0: "ord ?b0 q = (if q = p then x else ord b q)" for q
    using al(6) by (simp add: ord_def p_def)
  have ordS: "ord ?b0 q = ord b q" if "q \<in> all_orders S" for q using that p ord0 by auto
  have bk0: "book_ok ?b0 S" by (rule book_ok_cong [OF bk]) (simp_all add: ordS)
  have v0: "view ?b0 S t = view b S t" if "trading_side t" for t
  proof -
    have "ord ?b0 q = ord b q" if q: "q \<in> set (orders_of (S t))" for q
      using ordS all_orders_opp [OF \<open>trading_side t\<close>, of S] q by simp
    then show ?thesis by (simp add: view_def)
  qed
  have levels: "card (all_levels S) + 1 < ME_MAX_PRICE_LEVELS"
    using card_levels_le [OF bk] room by (simp add: ME_MAX_ORDER_IDS_def ME_MAX_PRICE_LEVELS_def)
  have win0: "in_window (o_price (ord ?b0 p)) ?b0" using win by (simp add: in_window_def ord0)
  have opp0: "o_price (ord ?b0 q) \<noteq> o_price (ord ?b0 p)"
    if "trading_side t" "t \<noteq> side" "q \<in> set (orders_of (S t))" for t q
  proof -
    have "t = opp side" using opp_eq [OF s(1)] that by simp
    then have "strip (ord b q) \<in> set (view b S (opp side))" using that(3) by (simp add: view_def)
    then have "o_price (ord b q) \<noteq> o_price x" using opp by fastforce
    moreover have "q \<in> all_orders S" using that(1,3) by (auto simp: all_orders_eq)
    ultimately show ?thesis using p ord0 by auto
  qed
  have s0: "side = o_side (ord ?b0 p)" using s(2) ord0 by simp
  have "\<exists>b1 S'. link_order p ?b0 = Inr b1 \<and> book_ok b1 S' \<and> ord_frame ?b0 b1 \<and> (\<forall>t. t \<noteq> side \<longrightarrow> S' t = S t) \<and>
     orders_of (S' side) = queue_insert side (\<lambda>q. o_price (ord ?b0 q)) p (orders_of (S side))"
    by (rule link_order_ok [OF bk0 p s(1) s0 win0 _ levels]) (rule opp0)
  then obtain b1 S' where
    l: "link_order p ?b0 = Inr b1" "book_ok b1 S'" "ord_frame ?b0 b1" "\<forall>t. t \<noteq> side \<longrightarrow> S' t = S t"
      "orders_of (S' side) = queue_insert side (\<lambda>q. o_price (ord ?b0 q)) p (orders_of (S side))"
    by blast
  have st: "strip (ord b1 q) = strip (ord ?b0 q)" for q using l(3) by (simp add: ord_frame_def)
  note idsq = strip_eq_ids [OF st]
  have more: "book.more b1 = book.more ?b0" using l(3) by (simp add: ord_frame_def)
  note m = me_more_eq [OF more]
  have ap: "all_orders S' = insert p (all_orders S)"
    using l(4,5) all_orders_opp [OF s(1), of S] all_orders_opp [OF s(1), of S'] opp_simps(4) [OF s(1)] by auto
  let ?m = "(cid_oid_to_order b)(client_id x := (cid_oid_to_order b (client_id x))(client_order_id x := Some p))"
  let ?b' = "b1\<lparr>cid_oid_to_order := ?m\<rparr>"
  have xp: "ord ?b0 p = x" using ord0 by simp
  have "addOrder p ?b0 = Inr ?b'"
    using l(1) idsq(1,2) [of p] ids m(4) set_cid_oid_ok [of "client_id x" "client_order_id x" "Some p" b1]
    by (simp add: addOrder_def xp ids_ok_def)
  moreover have "me_struct ?b' S'"
  proof -
    have "live (order_pool ?b') = all_orders S'"
      using l(3) al(3) me_structD(4) [OF ok] ap by (simp add: ord_frame_def p_def)
    moreover have "pool_ok (order_pool ?b')" "pool_size (order_pool ?b') = ME_MAX_ORDER_IDS"
      using l(3) al(2,5) me_structD(3) [OF ok] by (simp_all add: ord_frame_def)
    moreover have "ids_ok (ord ?b' q)" if "q \<in> all_orders S'" for q
      using that ap ids me_structD(5) [OF ok, of q] idsq(5) [of q] ord0 [of q] by auto
    moreover have "cid_sound ?b' S'"
    proof -
      have "q \<in> all_orders S' \<and> client_id (ord ?b' q) = c \<and> client_order_id (ord ?b' q) = i" if "?m c i = Some q" for c i q
      proof (cases "c = client_id x \<and> i = client_order_id x")
        case True
        then have "q = p" using that by simp
        then show ?thesis using True ap idsq(1,2) [of p] xp by simp
      next
        case False
        then have "cid_oid_to_order b c i = Some q" using that by (auto split: if_splits)
        then have q: "q \<in> all_orders S \<and> client_id (ord b q) = c \<and> client_order_id (ord b q) = i"
          using me_structD(6) [OF ok] by (simp add: cid_sound_def)
        then show ?thesis using ap idsq(1,2) [of q] ordS [of q] by simp
      qed
      then show ?thesis by (simp add: cid_sound_def)
    qed
    ultimately show ?thesis using l(2) by (simp add: me_struct_def)
  qed
  moreover have "me_frame b ?b'" using m l(3) by (simp add: me_frame_def ord_frame_def)
  moreover have "outbox ?b' = outbox b" using m by simp
  moreover have "view ?b' S' side = queue_insert side o_price x (view b S side)"
  proof -
    have "view ?b' S' side = map (\<lambda>q. strip (ord ?b0 q)) (orders_of (S' side))" by (simp add: view_def st)
    also have "\<dots> = queue_insert side o_price (strip (ord ?b0 p)) (map (\<lambda>q. strip (ord ?b0 q)) (orders_of (S side)))"
      unfolding l(5) by (rule map_queue_insert) simp
    also have "\<dots> = queue_insert side o_price x (view b S side)"
    proof -
      have "map (\<lambda>q. strip (ord ?b0 q)) (orders_of (S side)) = view b S side"
        using v0 [OF s(1)] by (simp only: view_def)
      then show ?thesis by (simp only: xl xp)
    qed
    finally show ?thesis .
  qed
  moreover have "view ?b' S' (opp side) = view b S (opp side)"
    using v0 [of "opp side"] l(4) opp_simps(4) [OF s(1)] by (simp add: view_def st)
  moreover have "cid_complete ?b' S'"
    if cc: "cid_complete b S" and fresh: "\<forall>q \<in> all_orders S. \<not> owned_by (client_id x) (client_order_id x) (ord b q)"
  proof -
    have "?m (client_id (ord ?b0 q)) (client_order_id (ord ?b0 q)) = Some q" if "q \<in> all_orders S'" for q
    proof (cases "q = p")
      case True
      then show ?thesis using xp by simp
    next
      case False
      then have q: "q \<in> all_orders S" using that ap by simp
      then have "cid_oid_to_order b (client_id (ord b q)) (client_order_id (ord b q)) = Some q"
        using cc by (simp add: cid_complete_def)
      moreover have "\<not> (client_id (ord b q) = client_id x \<and> client_order_id (ord b q) = client_order_id x)"
        using fresh q by (simp add: owned_by_def)
      ultimately show ?thesis unfolding ordS [OF q] by (cases "client_id (ord b q) = client_id x") auto
    qed
    then show ?thesis using idsq(1,2) by (simp add: cid_complete_def)
  qed
  ultimately show ?thesis using al(1) unfolding p_def by blast
qed

subsection \<open>Adding and cancelling\<close>

lemma spec_add_simps:
  assumes "spec_match ticker client side price coid (ucast (ucast new_id :: 32 word)) qty (A (opp side)) = (leaves, xs', evs)"
  shows "fst (spec_add client coid ticker side price qty new_id A) =
      (if leaves = 0 then A(opp side := xs') else
        (A(opp side := xs'))(side := queue_insert side o_price
          (spec_new_order ticker client side price coid new_id leaves ((A(opp side := xs')) side)) ((A(opp side := xs')) side)))"
    "snd (spec_add client coid ticker side price qty new_id A) =
      Response \<lparr>rs_type = ACCEPTED, rs_client_id = client, rs_ticker_id = ticker, rs_client_order_id = coid,
        rs_market_order_id = new_id, rs_side = side, rs_price = price, rs_exec_qty = 0, rs_leaves_qty = qty\<rparr> #
      evs @ (if leaves = 0 then [] else [Update \<lparr>mu_type = ADD, mu_order_id = new_id, mu_ticker_id = ticker, mu_side = side,
           mu_price = price, mu_qty = leaves, mu_priority = spec_next_priority price ((A(opp side := xs')) side)\<rparr>])"
  using assms by (simp_all add: spec_add_def Let_def spec_new_order_def)

definition resting_orders :: "me_order_book \<Rightarrow> shape \<Rightarrow> nat" where
  "resting_orders b S = length (view b S BUY) + length (view b S SELL)"

lemma card_all_orders:
  assumes "book_ok b S"
  shows "card (all_orders S) = resting_orders b S"
proof -
  have "set (orders_of (S BUY)) \<inter> set (orders_of (S SELL)) = {}" using sides_disjoint [OF assms, of BUY] by simp
  then show ?thesis
    using distinct_orders_of [OF assms, of BUY] distinct_orders_of [OF assms, of SELL]
    by (simp add: all_orders_set card_Un_disjoint distinct_card resting_orders_def view_def)
qed

lemma length_view_le:
  assumes "me_struct b S" and "trading_side s"
  shows "length (view b S s) \<le> pool_size (order_pool b)"
proof -
  have "length (view b S s) \<le> resting_orders b S"
    using assms(2) by (auto simp: resting_orders_def trading_side_def)
  also have "\<dots> = card (live (order_pool b))"
    using card_all_orders [OF me_structD(1) [OF assms(1)]] me_structD(4) [OF assms(1)] by simp
  also have "\<dots> \<le> pool_size (order_pool b)" by (rule card_live)
  finally show ?thesis .
qed

lemma me_frame_trans: "me_frame b b1 \<Longrightarrow> me_frame b1 b2 \<Longrightarrow> me_frame b b2"
  by (simp add: me_frame_def)

lemma checkForMatch_ok:
  assumes "me_struct b S" and "trading_side side"
    and "spec_match ticker client side price coid (ucast new_id) qty (view b S (opp side)) = (leaves, xs', evs)"
  shows "\<exists>b' S'. checkForMatch client coid ticker side price qty new_id b = Inr (leaves, b') \<and> me_struct b' S' \<and>
     (cid_complete b S \<longrightarrow> cid_complete b' S') \<and> me_frame b b' \<and> view b' S' side = view b S side \<and>
     view b' S' (opp side) = xs' \<and> outbox b' = outbox b @ evs"
proof -
  have "length (view b S (opp side)) \<le> pool_size (order_pool b) + 1"
    using length_view_le [OF assms(1), of "opp side"] by simp
  from match_loop_ok [OF assms(1,2) this assms(3)] show ?thesis
    using assms(2) by (auto simp: checkForMatch_def trading_side_def)
qed

definition me_inv :: "me_order_book \<Rightarrow> shape \<Rightarrow> bool" where
  "me_inv b S \<longleftrightarrow> me_struct b S \<and> 0 < next_market_order_id b \<and>
     view_ok (book_ticker_id b) (next_market_order_id b) (view b S)"

lemma view_ok_cong:
  assumes "view_ok ticker next_id A" and "trading_side s" and "B s = A s" and "B (opp s) = A (opp s)"
  shows "view_ok ticker next_id B"
proof -
  have "B BUY = A BUY" "B SELL = A SELL" using assms(2-4) by (auto simp: trading_side_def)
  then show ?thesis using assms(1) by (simp add: view_ok_def trading_side_cases)
qed

lemma fresh_after_match:
  assumes "spec_match ticker client side price coid new_id qty xs = (leaves, xs', evs)"
    and "\<forall>x \<in> set xs. \<not> owned_by c i x" and "y \<in> set xs'"
  shows "\<not> owned_by c i y"
  using spec_match_suffix [OF assms(1)] assms(2,3) by (auto simp: owned_by_def)

lemma me_add_ok:
  assumes inv: "me_inv b S" and s: "trading_side side" and ids: "unat client < ME_MAX_NUM_CLIENTS" "unat coid < ME_MAX_ORDER_IDS"
    and n: "next_market_order_id b \<noteq> - 1" and tk: "ticker = book_ticker_id b"
    and win: "in_window price b \<or> spec_leaves client coid ticker side price qty (next_market_order_id b) (view b S) = 0"
    and room: "resting_orders b S + 1 < ME_MAX_ORDER_IDS"
    and spec: "spec_add client coid ticker side price qty (next_market_order_id b) (view b S) = (A', evs)"
  shows "\<exists>b' S'. me_add client coid ticker side price qty b = Inr b' \<and> me_inv b' S' \<and>
     view b' S' BUY = A' BUY \<and> view b' S' SELL = A' SELL \<and> outbox b' = outbox b @ evs \<and>
     next_market_order_id b' = next_market_order_id b + 1 \<and> book_ticker_id b' = book_ticker_id b \<and>
     base_price b' = base_price b \<and>
     (cid_complete b S \<and> (\<forall>x \<in> set (view b S BUY @ view b S SELL). \<not> owned_by client coid x) \<longrightarrow> cid_complete b' S')"
proof -
  have st: "me_struct b S" and vok: "view_ok (book_ticker_id b) (next_market_order_id b) (view b S)"
    and pos: "0 < next_market_order_id b" using inv by (simp_all add: me_inv_def)
  let ?nid = "next_market_order_id b"
  let ?id32 = "ucast ?nid :: 32 word"
  let ?acc = "\<lparr>rs_type = ACCEPTED, rs_client_id = client, rs_ticker_id = ticker, rs_client_order_id = coid,
             rs_market_order_id = ?nid, rs_side = side, rs_price = price, rs_exec_qty = 0, rs_leaves_qty = qty\<rparr>"
  let ?b2 = "sendClientResponse ?acc (b\<lparr>next_market_order_id := ?nid + 1\<rparr>)"
  have st2: "me_struct ?b2 S" and v2: "view ?b2 S = view b S" using st by simp_all
  have o: "opp side \<noteq> side" using s by simp
  obtain leaves xs' me where m: "spec_match ticker client side price coid (ucast ?id32) qty (view b S (opp side)) = (leaves, xs', me)"
    by (metis prod_cases3)
  note sa = spec_add_simps [where A = "view b S", OF m]
  from checkForMatch_ok [OF st2 s, unfolded v2, OF m] obtain b3 S3 where c:
    "checkForMatch client coid ticker side price qty ?id32 ?b2 = Inr (leaves, b3)" "me_struct b3 S3"
    "cid_complete ?b2 S \<longrightarrow> cid_complete b3 S3" "me_frame ?b2 b3" "view b3 S3 side = view b S side"
    "view b3 S3 (opp side) = xs'" "outbox b3 = outbox ?b2 @ me"
    by blast
  have f3: "next_market_order_id b3 = ?nid + 1" "book_ticker_id b3 = book_ticker_id b" "base_price b3 = base_price b"
    using c(4) by (simp_all add: me_frame_def)
  have vok': "view_ok (book_ticker_id b) (?nid + 1) A'"
    using view_ok_add [OF vok s pos n] spec unfolding tk by blast
  have npos: "0 < ?nid + 1" using word_less_plus_one [OF n] pos by (meson order_less_trans)
  show ?thesis
  proof (cases "leaves = 0")
    case True
    have run: "me_add client coid ticker side price qty b = Inr b3"
      using c(1) True by (simp add: me_add_def generateNewMarketOrderId_def Let_def)
    have A': "A' side = view b S side" "A' (opp side) = xs'" "evs = Response ?acc # me"
      using sa True spec o by auto
    have vv: "view b3 S3 BUY = A' BUY" "view b3 S3 SELL = A' SELL" using A' c(5,6) s by (auto simp: trading_side_def)
    have "view_ok (book_ticker_id b3) (next_market_order_id b3) (view b3 S3)"
      using view_ok_cong [OF vok' s, of "view b3 S3"] A' c(5,6) f3 by simp
    then have "me_inv b3 S3" using c(2) f3 npos by (simp add: me_inv_def)
    then show ?thesis using run vv c(3,7) A'(3) f3 by (intro exI [of _ b3] exI [of _ S3]) simp
  next
    case False
    have win3: "in_window price b3" using win False m f3(3) by (simp add: spec_leaves_def in_window_def)
    let ?A1 = "(view b S)(opp side := xs')"
    have ok1: "view_ok (book_ticker_id b) ?nid ?A1" by (rule view_ok_match [OF vok s m])
    have out: "o_price y \<noteq> price" if "y \<in> set (view b3 S3 (opp side))" for y
    proof -
      have "outside side price (o_price y)"
        using sorted_outside [OF view_okD(2) [OF ok1, of "opp side"]] spec_match_exhausts [OF m False] s that c(6) by simp
      then show ?thesis by (auto simp: outside_def split: if_splits)
    qed
    have prio: "getNextPriority price b3 = Inr (spec_next_priority price (view b S side))"
      using getNextPriority_ok [OF c(2) s win3 out] c(5) by simp
    let ?x = "spec_new_order ticker client side price coid ?nid leaves (view b S side)"
    have x: "o_side ?x = side" "ids_ok ?x" "o_price ?x = price" "strip ?x = ?x" "client_id ?x = client" "client_order_id ?x = coid"
      using ids by (simp_all add: spec_new_order_def ids_ok_def strip_def)
    have room3: "card (all_orders S3) + 1 < ME_MAX_ORDER_IDS"
    proof -
      have "length xs' \<le> length (view b S (opp side))"
        using spec_match_suffix [OF m] by auto
      then have "resting_orders b3 S3 \<le> resting_orders b S"
        using c(5,6) s by (auto simp: resting_orders_def trading_side_def)
      then show ?thesis using room card_all_orders [OF me_structD(1) [OF c(2)]] by simp
    qed
    have "\<exists>p pl b' S'. allocate ?x (order_pool b3) = Inr (p, pl) \<and> addOrder p (b3\<lparr>order_pool := pl\<rparr>) = Inr b' \<and>
     me_struct b' S' \<and> me_frame b3 b' \<and> outbox b' = outbox b3 \<and>
     view b' S' side = queue_insert side o_price ?x (view b3 S3 side) \<and> view b' S' (opp side) = view b3 S3 (opp side) \<and>
     (cid_complete b3 S3 \<and> (\<forall>q \<in> all_orders S3. \<not> owned_by (client_id ?x) (client_order_id ?x) (ord b3 q)) \<longrightarrow> cid_complete b' S')"
      by (rule rest_ok [OF c(2) s x(1,2) _ x(4) _ room3]) (use win3 out x(3) in auto)
    then obtain p pl b' S' where r: "allocate ?x (order_pool b3) = Inr (p, pl)" "addOrder p (b3\<lparr>order_pool := pl\<rparr>) = Inr b'"
     "me_struct b' S'" "me_frame b3 b'" "outbox b' = outbox b3"
     "view b' S' side = queue_insert side o_price ?x (view b3 S3 side)" "view b' S' (opp side) = view b3 S3 (opp side)"
     "cid_complete b3 S3 \<and> (\<forall>q \<in> all_orders S3. \<not> owned_by client coid (ord b3 q)) \<longrightarrow> cid_complete b' S'"
      unfolding x(5,6) by blast
    let ?u = "\<lparr>mu_type = ADD, mu_order_id = ?nid, mu_ticker_id = ticker, mu_side = side,
              mu_price = price, mu_qty = leaves, mu_priority = spec_next_priority price (view b S side)\<rparr>"
    let ?b' = "sendMarketUpdate ?u b'"
    have run: "me_add client coid ticker side price qty b = Inr ?b'"
      using c(1) False prio r(1,2)
      by (simp add: me_add_def generateNewMarketOrderId_def Let_def spec_new_order_def)
    have A': "A' side = queue_insert side o_price ?x (view b S side)" "A' (opp side) = xs'"
      "evs = Response ?acc # me @ [Update ?u]"
      using sa False spec o by auto
    have f': "next_market_order_id ?b' = ?nid + 1" "book_ticker_id ?b' = book_ticker_id b" "base_price ?b' = base_price b"
      using r(4) f3 by (simp_all add: me_frame_def)
    have vv: "view ?b' S' side = A' side" "view ?b' S' (opp side) = A' (opp side)" using r(6,7) c(5,6) A' by simp_all
    have "view_ok (book_ticker_id ?b') (next_market_order_id ?b') (view ?b' S')"
      using view_ok_cong [OF vok' s vv] f' by simp
    then have inv': "me_inv ?b' S'" using r(3) f' npos by (simp add: me_inv_def)
    have vv2: "view ?b' S' BUY = A' BUY" "view ?b' S' SELL = A' SELL" using vv s by (auto simp: trading_side_def)
    have cc: "cid_complete ?b' S'"
      if cb: "cid_complete b S" and fr: "\<forall>x \<in> set (view b S BUY @ view b S SELL). \<not> owned_by client coid x"
    proof -
      have fr': "\<forall>x \<in> set (view b S t). \<not> owned_by client coid x" if "trading_side t" for t
        using fr that by (auto simp: trading_side_def)
      have "\<not> owned_by client coid (ord b3 q)" if q: "q \<in> all_orders S3" for q
      proof -
        have "strip (ord b3 q) \<in> set (view b3 S3 side) \<union> set (view b3 S3 (opp side))"
          using q all_orders_opp [OF s, of S3] by (auto simp: view_def)
        then have "\<not> owned_by client coid (strip (ord b3 q))"
          using fr' [OF s] fresh_after_match [OF m, of client coid] fr' [of "opp side"] c(5,6) by auto
        then show ?thesis by (simp add: owned_by_def)
      qed
      then show ?thesis using r(8) c(3) cb by simp
    qed
    show ?thesis using run inv' vv2 r(5) c(7) A'(3) f' cc by (intro exI [of _ ?b'] exI [of _ S']) simp
  qed
qed

lemma owned_unique:
  assumes "cid_complete b S" and "p \<in> all_orders S" "q \<in> all_orders S"
    and "owned_by c i (ord b p)" "owned_by c i (ord b q)"
  shows "p = q"
  using assms by (metis cid_complete_def option.inject owned_by_def)

lemma in_view: "trading_side s \<Longrightarrow> x \<in> set (view b S s) \<Longrightarrow> \<exists>q \<in> all_orders S. x = strip (ord b q)"
  using all_orders_opp [of s S] by (auto simp: view_def)

lemma in_view_both: "x \<in> set (view b S BUY @ view b S SELL) \<Longrightarrow> \<exists>q \<in> all_orders S. x = strip (ord b q)"
  using in_view [of BUY x b S] in_view [of SELL x b S] by auto

lemma owned_strip [simp]: "owned_by c i (strip x) = owned_by c i x"
  by (simp add: owned_by_def)

lemma find_owned:
  assumes ok: "me_struct b S" and cc: "cid_complete b S" and p: "p \<in> all_orders S" and o: "owned_by c i (ord b p)"
  shows "find (owned_by c i) (view b S BUY @ view b S SELL) = Some (strip (ord b p))"
proof (cases "find (owned_by c i) (view b S BUY @ view b S SELL)")
  case None
  have "strip (ord b p) \<in> set (view b S BUY @ view b S SELL)" using p by (auto simp: all_orders_set view_def)
  then show ?thesis using None o by (auto simp: find_None_iff)
next
  case (Some x)
  have x: "x \<in> set (view b S BUY @ view b S SELL)" "owned_by c i x"
    using find_SomeD [OF Some] by (rule conjunct1, rule conjunct2)
  obtain q where q: "q \<in> all_orders S" "x = strip (ord b q)" using in_view_both [OF x(1)] by blast
  then have "q = p" using owned_unique [OF cc q(1) p] x(2) o by simp
  then show ?thesis using Some q(2) by simp
qed

lemma view_remove:
  assumes ok: "me_struct b S" and cc: "cid_complete b S" and s: "trading_side s" and p: "p \<in> all_orders S"
    and o: "owned_by c i (ord b p)"
  shows "map (\<lambda>q. strip (ord b q)) (remove1 p (orders_of (S s))) = filter (\<lambda>x. \<not> owned_by c i x) (view b S s)"
proof -
  have d: "distinct (orders_of (S s))" by (rule distinct_orders_of [OF me_structD(1) [OF ok] s])
  have e: "remove1 p (orders_of (S s)) = filter (\<lambda>q. q \<noteq> p) (orders_of (S s))"
    using distinct_remove1_removeAll [OF d, of p] by (simp add: removeAll_filter_not_eq eq_commute)
  have "(q \<noteq> p) = (\<not> owned_by c i (ord b q))" if "q \<in> set (orders_of (S s))" for q
  proof -
    have "q \<in> all_orders S" using that all_orders_opp [OF s, of S] by simp
    then show ?thesis using owned_unique [OF cc _ p _ o, of q] o by blast
  qed
  then have "filter (\<lambda>q. q \<noteq> p) (orders_of (S s)) = filter (\<lambda>q. \<not> owned_by c i (ord b q)) (orders_of (S s))"
    by (rule filter_cong [OF refl])
  then show ?thesis unfolding e by (simp add: view_def filter_map comp_def)
qed

lemma me_cancel_ok:
  assumes inv: "me_inv b S" and cc: "cid_complete b S"
    and ids: "unat client < ME_MAX_NUM_CLIENTS \<Longrightarrow> unat order_id < ME_MAX_ORDER_IDS"
    and spec: "spec_cancel client order_id ticker (view b S) = (A', evs)"
  shows "\<exists>b' S'. me_cancel client order_id ticker b = Inr b' \<and> me_inv b' S' \<and> cid_complete b' S' \<and>
     view b' S' BUY = A' BUY \<and> view b' S' SELL = A' SELL \<and> outbox b' = outbox b @ evs \<and> me_frame b b'"
proof -
  have st: "me_struct b S" and vok: "view_ok (book_ticker_id b) (next_market_order_id b) (view b S)"
    and pos: "0 < next_market_order_id b" using inv by (simp_all add: me_inv_def)
  note bk = me_structD(1) [OF st]
  show ?thesis
  proof (cases "unat client < ME_MAX_NUM_CLIENTS \<and> cid_oid_to_order b client order_id \<noteq> None")
    case False
    have none: "\<not> owned_by client order_id x" if "x \<in> set (view b S BUY @ view b S SELL)" for x
    proof
      assume o: "owned_by client order_id x"
      obtain q where q: "q \<in> all_orders S" "x = strip (ord b q)"
        using in_view_both [OF \<open>x \<in> set (view b S BUY @ view b S SELL)\<close>] by blast
      then have "owned_by client order_id (ord b q)" using o by simp
      then have "cid_oid_to_order b client order_id = Some q" "unat client < ME_MAX_NUM_CLIENTS"
        using cc q(1) me_structD(5) [OF st q(1)] by (auto simp: cid_complete_def owned_by_def ids_ok_def)
      with False show False by simp
    qed
    then have "find (owned_by client order_id) (view b S BUY @ view b S SELL) = None" unfolding find_None_iff by blast
    then have e: "A' = view b S" "evs = [cancel_rejected client order_id ticker]" using spec by (simp_all add: spec_cancel_def)
    have run: "me_cancel client order_id ticker b = Inr (sendClientResponse
          \<lparr>rs_type = CANCEL_REJECTED, rs_client_id = client, rs_ticker_id = ticker, rs_client_order_id = order_id,
           rs_market_order_id = OrderId_INVALID, rs_side = Side_INVALID, rs_price = Price_INVALID,
           rs_exec_qty = Qty_INVALID, rs_leaves_qty = Qty_INVALID\<rparr> b)" (is "_ = Inr ?b'")
      using False ids by (auto simp: me_cancel_def Let_def)
    have "me_inv ?b' S" using inv by (simp add: me_inv_def)
    then show ?thesis using run e cc by (intro exI [of _ ?b'] exI [of _ S]) (simp add: cancel_rejected_def me_frame_def)
  next
    case True
    then obtain p where c: "unat client < ME_MAX_NUM_CLIENTS" "cid_oid_to_order b client order_id = Some p" by blast
    then have p: "p \<in> all_orders S" "owned_by client order_id (ord b p)"
      using me_structD(6) [OF st] by (auto simp: cid_sound_def owned_by_def)
    note sd = order_side_in [OF bk p(1)]
    note fnd = find_owned [OF st cc p]
    from removeOrder_ok [OF st p(1)] obtain b1 S' where r: "removeOrder p b = Inr b1" "me_struct b1 S'"
      "cid_complete b S \<longrightarrow> cid_complete b1 S'" "me_frame b b1" "outbox b1 = outbox b"
      "\<forall>q. strip (ord b1 q) = strip (ord b q)" "\<forall>t. t \<noteq> o_side (ord b p) \<longrightarrow> S' t = S t"
      "orders_of (S' (o_side (ord b p))) = remove1 p (orders_of (S (o_side (ord b p))))"
      by blast
    let ?s = "o_side (ord b p)"
    let ?u = "\<lparr>mu_type = CANCEL, mu_order_id = market_order_id (ord b p), mu_ticker_id = ticker,
                 mu_side = ?s, mu_price = o_price (ord b p), mu_qty = 0, mu_priority = o_priority (ord b p)\<rparr>"
    let ?r = "\<lparr>rs_type = CANCELED, rs_client_id = client, rs_ticker_id = ticker,
                 rs_client_order_id = order_id, rs_market_order_id = market_order_id (ord b p), rs_side = ?s,
                 rs_price = o_price (ord b p), rs_exec_qty = Qty_INVALID, rs_leaves_qty = o_qty (ord b p)\<rparr>"
    let ?b' = "sendClientResponse ?r (sendMarketUpdate ?u b1)"
    have run: "me_cancel client order_id ticker b = Inr ?b'"
      using c ids r(1) by (simp add: me_cancel_def Let_def)
    have e: "A' = (view b S)(?s := filter (\<lambda>y. \<not> owned_by client order_id y) (view b S ?s))"
      "evs = cancel_events client order_id ticker (strip (ord b p))"
      using spec fnd by (simp_all add: spec_cancel_def)
    have v1: "view b1 S' t = A' t" if "trading_side t" for t
    proof (cases "t = ?s")
      case True
      then show ?thesis
        using r(6,8) view_remove [OF st cc _ p] sd e(1) by (simp add: view_def)
    next
      case False
      then show ?thesis using r(6,7) e(1) by (simp add: view_def)
    qed
    have "view_ok (book_ticker_id b) (next_market_order_id b) A'" by (rule view_ok_cancel [OF vok spec])
    then have "view_ok (book_ticker_id ?b') (next_market_order_id ?b') (view ?b' S')"
      using view_ok_cong [of _ _ A' BUY "view ?b' S'"] v1 [of BUY] v1 [of SELL] r(4) by (simp add: me_frame_def)
    then have "me_inv ?b' S'" using r(2,4) pos by (simp add: me_inv_def me_frame_def)
    then show ?thesis using run v1 [of BUY] v1 [of SELL] r(3,4,5) cc e(2)
      by (intro exI [of _ ?b'] exI [of _ S']) (simp add: cancel_events_def me_frame_def)
  qed
qed

text \<open>The empty book.\<close>

lemma me_inv_new: "me_inv (me_book_new ticker base (\<lambda>_ _. None) (\<lambda>_. None)) (\<lambda>_. [])"
proof -
  let ?b = "me_book_new ticker base (\<lambda>_ _. None) (\<lambda>_. None)"
  have sh: "side_head s ?b = None" for s by (simp add: side_head_def me_book_new_def)
  have "book_ok ?b (\<lambda>_. [])"
    by (rule book_okI)
      (simp_all add: levels_ok_empty sh all_levels_def, simp_all add: me_book_new_def ME_MAX_PRICE_LEVELS_def)
  then show ?thesis
    by (simp add: me_inv_def me_struct_def cid_sound_def all_orders_def view_ok_def view_def)
      (simp add: me_book_new_def ME_MAX_ORDER_IDS_def)
qed

end
