(* ===== verification/MatchingEngine.thy ===== *)
theory MatchingEngine
  imports MEBookRefine LFQueue
begin

text \<open>
  \<open>exchange/matcher/matching_engine.h\<close> and \<open>matching_engine.cpp\<close>: one order book per instrument, the
  queue of requests from the order server and the two queues of responses and market updates.

  \<^item> \<open>book_request\<close> is the \<open>switch\<close> of \<open>processClientRequest\<close> on the book it picked; \<open>deliver\<close> carries out
    the calls the book made, writing each message to its queue. \<open>engine_step\<close> is one round of \<open>run\<close>.
  \<^item> \<open>spec_request\<close> and \<open>spec_run\<close> are the same on views; \<open>book_run_ok\<close> is the refinement over whole
    sequences of requests.
\<close>

record matching_engine =
  ticker_order_book :: "me_order_book list"
  incoming_requests :: "MEClientRequest lf_queue"
  outgoing_ogw_responses :: "MEClientResponse lf_queue"
  outgoing_md_updates :: "MEMarketUpdate lf_queue"

definition engine_new ::
  "(nat \<Rightarrow> Price) \<Rightarrow> (nat \<Rightarrow> ClientId \<Rightarrow> OrderId \<Rightarrow> nat option) \<Rightarrow> (nat \<Rightarrow> nat \<Rightarrow> nat option) \<Rightarrow> matching_engine" where
  "engine_new ticker_base_prices cids prices =
     \<lparr>ticker_order_book = map (\<lambda>i. me_book_new (word_of_nat i) (ticker_base_prices i) (cids i) (prices i)) [0..<ME_MAX_TICKERS],
      incoming_requests = lfq_new ME_MAX_CLIENT_UPDATES MEClientRequest_default,
      outgoing_ogw_responses = lfq_new ME_MAX_CLIENT_UPDATES MEClientResponse_default,
      outgoing_md_updates = lfq_new ME_MAX_MARKET_UPDATES MEMarketUpdate_default\<rparr>"

definition book_request :: "MEClientRequest \<Rightarrow> me_order_book \<Rightarrow> me_order_book res" where
  "book_request r b =
     (case rq_type r of
        NEW \<Rightarrow> me_add (rq_client_id r) (rq_order_id r) (rq_ticker_id r) (rq_side r) (rq_price r) (rq_qty r) b
      | Request_CANCEL \<Rightarrow> me_cancel (rq_client_id r) (rq_order_id r) (rq_ticker_id r) b
      | Request_INVALID \<Rightarrow> Inl Fatal)"

text \<open>\<open>MatchingEngine::sendClientResponse\<close> and \<open>sendMarketUpdate\<close>.\<close>

fun engine_send :: "me_event \<Rightarrow> matching_engine \<Rightarrow> matching_engine" where
  "engine_send (Response r) e = e\<lparr>outgoing_ogw_responses := lfq_push r (outgoing_ogw_responses e)\<rparr>"
| "engine_send (Update u) e = e\<lparr>outgoing_md_updates := lfq_push u (outgoing_md_updates e)\<rparr>"

definition deliver :: "nat \<Rightarrow> me_order_book \<Rightarrow> matching_engine \<Rightarrow> matching_engine" where
  "deliver i b e = fold engine_send (outbox b)
     (e\<lparr>ticker_order_book := (ticker_order_book e)[i := b\<lparr>outbox := []\<rparr>]\<rparr>)"

definition processClientRequest :: "MEClientRequest \<Rightarrow> matching_engine \<Rightarrow> matching_engine res" where
  "processClientRequest r e =
     bindE (atE (length (ticker_order_book e)) (unat (rq_ticker_id r))) (\<lambda>i.
     bindE (book_request r (ticker_order_book e ! i)) (\<lambda>b.
     Inr (deliver i b e)))"

definition engine_step :: "matching_engine \<Rightarrow> matching_engine res" where
  "engine_step e =
     (case getNextToRead (incoming_requests e) of
        None \<Rightarrow> Inr e
      | Some r \<Rightarrow>
          bindE (processClientRequest r e) (\<lambda>e1.
          bindE (updateReadIndex (incoming_requests e1)) (\<lambda>q.
          Inr (e1\<lparr>incoming_requests := q\<rparr>))))"

subsection \<open>Sequences of requests on one book\<close>

definition spec_request :: "MEClientRequest \<Rightarrow> OrderId \<times> view \<Rightarrow> (OrderId \<times> view) \<times> me_event list" where
  "spec_request r = (\<lambda>(n, A).
     if rq_type r = NEW
     then (case spec_add (rq_client_id r) (rq_order_id r) (rq_ticker_id r) (rq_side r) (rq_price r) (rq_qty r) n A of
             (A', evs) \<Rightarrow> ((n + 1, A'), evs))
     else (case spec_cancel (rq_client_id r) (rq_order_id r) (rq_ticker_id r) A of (A', evs) \<Rightarrow> ((n, A'), evs)))"

fun spec_run :: "MEClientRequest list \<Rightarrow> OrderId \<times> view \<Rightarrow> (OrderId \<times> view) \<times> me_event list" where
  "spec_run [] s = (s, [])"
| "spec_run (r # rs) s = (case spec_request r s of (s1, e1) \<Rightarrow> case spec_run rs s1 of (s2, e2) \<Rightarrow> (s2, e1 @ e2))"

definition request_ok :: "TickerId \<Rightarrow> Price \<Rightarrow> MEClientRequest \<Rightarrow> bool" where
  "request_ok ticker base r \<longleftrightarrow> rq_type r \<noteq> Request_INVALID \<and> rq_ticker_id r = ticker \<and>
     unat (rq_client_id r) < ME_MAX_NUM_CLIENTS \<and> unat (rq_order_id r) < ME_MAX_ORDER_IDS \<and>
     (rq_type r = NEW \<longrightarrow> trading_side (rq_side r) \<and> base \<le> rq_price r \<and> rq_price r < base + int ME_MAX_PRICE_LEVELS)"

definition new_ids :: "MEClientRequest list \<Rightarrow> (ClientId \<times> OrderId) list" where
  "new_ids rs = map (\<lambda>r. (rq_client_id r, rq_order_id r)) (filter (\<lambda>r. rq_type r = NEW) rs)"

definition order_ids :: "view \<Rightarrow> (ClientId \<times> OrderId) set" where
  "order_ids A = (\<lambda>x. (client_id x, client_order_id x)) ` set (A BUY @ A SELL)"

lemma order_ids_side: "trading_side s \<Longrightarrow> order_ids A = (\<lambda>x. (client_id x, client_order_id x)) ` (set (A s) \<union> set (A (opp s)))"
  by (auto simp: order_ids_def trading_side_def)

lemma spec_match_ids:
  assumes "spec_match ticker client side price coid new_id leaves xs = (leaves', xs', evs)"
  shows "(\<lambda>x. (client_id x, client_order_id x)) ` set xs' \<subseteq> (\<lambda>x. (client_id x, client_order_id x)) ` set xs"
    "length xs' \<le> length xs"
  using spec_match_suffix [OF assms] by auto

lemma spec_add_ids:
  assumes "trading_side side" and "spec_add client coid ticker side price qty n A = (A', evs)"
  shows "order_ids A' \<subseteq> insert (client, coid) (order_ids A)"
    "length (A' BUY) + length (A' SELL) \<le> length (A BUY) + length (A SELL) + 1"
proof -
  obtain leaves xs' me where m: "spec_match ticker client side price coid (ucast (ucast n :: 32 word)) qty (A (opp side)) = (leaves, xs', me)"
    by (metis prod_cases3)
  note sa = spec_add_simps(1) [where A = A, OF m] and mi = spec_match_ids [OF m]
  have o: "opp side \<noteq> side" using assms(1) by simp
  have A': "A' (opp side) = xs'" "set (A' side) \<subseteq> insert (spec_new_order ticker client side price coid n leaves (A side)) (set (A side))"
    "length (A' side) \<le> length (A side) + 1"
    using assms(2) sa o by (auto simp: length_queue_insert split: if_splits)
  show "order_ids A' \<subseteq> insert (client, coid) (order_ids A)"
    using A' mi(1) unfolding order_ids_side [OF assms(1)] by (auto simp: spec_new_order_def)
  show "length (A' BUY) + length (A' SELL) \<le> length (A BUY) + length (A SELL) + 1"
    using A' mi(2) assms(1) by (auto simp: trading_side_def)
qed

lemma spec_cancel_ids:
  assumes "spec_cancel client oid ticker A = (A', evs)"
  shows "order_ids A' \<subseteq> order_ids A" "length (A' BUY) + length (A' SELL) \<le> length (A BUY) + length (A SELL)"
proof -
  have "set (A' s) \<subseteq> set (A s) \<and> length (A' s) \<le> length (A s)" for s
    using assms by (auto simp: spec_cancel_def split: option.splits if_splits)
  then show "order_ids A' \<subseteq> order_ids A" "length (A' BUY) + length (A' SELL) \<le> length (A BUY) + length (A SELL)"
    unfolding order_ids_def by (auto intro: add_mono)
qed

lemma spec_request_cong:
  assumes "B BUY = A BUY" and "B SELL = A SELL" and "rq_type r = NEW \<longrightarrow> trading_side (rq_side r)"
    and "spec_request r (n, A) = ((n', A'), evs)" and "spec_request r (n, B) = ((m', B'), evs')"
  shows "m' = n' \<and> B' BUY = A' BUY \<and> B' SELL = A' SELL \<and> evs' = evs"
proof (cases "rq_type r = NEW")
  case True
  then have "rq_side r = BUY \<or> rq_side r = SELL" using assms(3) by (simp add: trading_side_def)
  then show ?thesis using assms True
    by (elim disjE; auto simp: spec_request_def spec_add_def Let_def split: prod.splits if_splits)
next
  case False
  then show ?thesis using assms
    by (auto simp: spec_request_def spec_cancel_def split: option.splits prod.splits)
qed

lemma book_request_ok:
  assumes inv: "me_inv b S" and cc: "cid_complete b S" and r: "request_ok (book_ticker_id b) (base_price b) r"
    and room: "resting_orders b S + 1 < ME_MAX_ORDER_IDS" and n: "next_market_order_id b \<noteq> - 1"
    and fresh: "rq_type r = NEW \<longrightarrow> (rq_client_id r, rq_order_id r) \<notin> order_ids (view b S)"
    and spec: "spec_request r (next_market_order_id b, view b S) = ((n', A'), evs)"
  shows "\<exists>b' S'. book_request r b = Inr b' \<and> me_inv b' S' \<and> cid_complete b' S' \<and> next_market_order_id b' = n' \<and>
     view b' S' BUY = A' BUY \<and> view b' S' SELL = A' SELL \<and> outbox b' = outbox b @ evs \<and>
     book_ticker_id b' = book_ticker_id b \<and> base_price b' = base_price b \<and>
     resting_orders b' S' \<le> resting_orders b S + 1 \<and>
     order_ids (view b' S') \<subseteq> order_ids (view b S) \<union> set (new_ids [r])"
proof (cases "rq_type r = NEW")
  case True
  let ?c = "rq_client_id r" and ?i = "rq_order_id r"
  have s: "trading_side (rq_side r)" and win: "in_window (rq_price r) b"
    and ids: "unat ?c < ME_MAX_NUM_CLIENTS" "unat ?i < ME_MAX_ORDER_IDS" and tk: "rq_ticker_id r = book_ticker_id b"
    using r True by (simp_all add: request_ok_def in_window_def)
  from spec True have sp: "spec_add ?c ?i (rq_ticker_id r) (rq_side r) (rq_price r) (rq_qty r) (next_market_order_id b) (view b S) = (A', evs)"
    and n': "n' = next_market_order_id b + 1"
    by (auto simp: spec_request_def split: prod.splits)
  have fr: "\<forall>x \<in> set (view b S BUY @ view b S SELL). \<not> owned_by ?c ?i x"
  proof (intro ballI notI)
    fix x assume "x \<in> set (view b S BUY @ view b S SELL)" and "owned_by ?c ?i x"
    then have "(?c, ?i) \<in> order_ids (view b S)"
      unfolding order_ids_def by (intro image_eqI [where x = x]) (simp_all add: owned_by_def)
    then show False using fresh True by simp
  qed
  from me_add_ok [OF inv s ids n tk disjI1 [OF win] room sp] obtain b' S' where b':
    "me_add ?c ?i (rq_ticker_id r) (rq_side r) (rq_price r) (rq_qty r) b = Inr b'" "me_inv b' S'"
    "view b' S' BUY = A' BUY" "view b' S' SELL = A' SELL" "outbox b' = outbox b @ evs"
    "next_market_order_id b' = next_market_order_id b + 1" "book_ticker_id b' = book_ticker_id b"
    "base_price b' = base_price b" "cid_complete b' S'"
    using cc fr by blast
  note ids' = spec_add_ids [OF s sp]
  have "order_ids (view b' S') = order_ids A'" using b'(3,4) by (simp add: order_ids_def)
  then show ?thesis using b' ids' n' True
    by (intro exI [of _ b'] exI [of _ S']) (auto simp: book_request_def resting_orders_def new_ids_def)
next
  case False
  let ?c = "rq_client_id r" and ?i = "rq_order_id r"
  have ty: "rq_type r = Request_CANCEL" using r False by (cases "rq_type r") (auto simp: request_ok_def)
  have ids: "unat ?c < ME_MAX_NUM_CLIENTS \<Longrightarrow> unat ?i < ME_MAX_ORDER_IDS" using r by (simp add: request_ok_def)
  from spec False have sp: "spec_cancel ?c ?i (rq_ticker_id r) (view b S) = (A', evs)" and n': "n' = next_market_order_id b"
    by (auto simp: spec_request_def split: prod.splits)
  from me_cancel_ok [OF inv cc ids sp] obtain b' S' where b':
    "me_cancel ?c ?i (rq_ticker_id r) b = Inr b'" "me_inv b' S'" "cid_complete b' S'"
    "view b' S' BUY = A' BUY" "view b' S' SELL = A' SELL" "outbox b' = outbox b @ evs" "me_frame b b'"
    by blast
  note ids' = spec_cancel_ids [OF sp]
  have "order_ids (view b' S') = order_ids A'" using b'(4,5) by (simp add: order_ids_def)
  then show ?thesis using b' ids' n' ty
    by (intro exI [of _ b'] exI [of _ S']) (auto simp: book_request_def resting_orders_def me_frame_def)
qed

lemma spec_run_cong:
  assumes "B BUY = A BUY" and "B SELL = A SELL" and "\<forall>r \<in> set rs. rq_type r = NEW \<longrightarrow> trading_side (rq_side r)"
    and "spec_run rs (n, A) = ((n', A'), evs)"
  shows "\<exists>B'. spec_run rs (n, B) = ((n', B'), evs) \<and> B' BUY = A' BUY \<and> B' SELL = A' SELL"
  using assms
proof (induction rs arbitrary: n A B n' A' evs)
  case Nil
  then show ?case by simp
next
  case (Cons r rs)
  obtain n1 A1 e1 where a: "spec_request r (n, A) = ((n1, A1), e1)" by (metis prod.exhaust)
  obtain m1 B1 f1 where b: "spec_request r (n, B) = ((m1, B1), f1)" by (metis prod.exhaust)
  obtain n2 A2 e2 where c: "spec_run rs (n1, A1) = ((n2, A2), e2)" by (metis prod.exhaust)
  have eq: "m1 = n1" "B1 BUY = A1 BUY" "B1 SELL = A1 SELL" "f1 = e1"
    using spec_request_cong [OF Cons.prems(1,2) _ a b] Cons.prems(3) by auto
  from Cons.IH [OF eq(2,3) _ c] Cons.prems(3) obtain B' where
    "spec_run rs (n1, B1) = ((n2, B'), e2)" "B' BUY = A2 BUY" "B' SELL = A2 SELL" by auto
  then show ?case using a b c eq Cons.prems(4) by auto
qed

lemma book_run_ok:
  assumes "me_inv b S" and "cid_complete b S"
    and "\<forall>r \<in> set rs. request_ok (book_ticker_id b) (base_price b) r"
    and "resting_orders b S + length rs < ME_MAX_ORDER_IDS"
    and "unat (next_market_order_id b) + length rs < 2 ^ 64"
    and "distinct (new_ids rs)" and "set (new_ids rs) \<inter> order_ids (view b S) = {}"
    and "spec_run rs (next_market_order_id b, view b S) = ((n', A'), evs)"
  shows "\<exists>b' S'. foldE book_request rs b = Inr b' \<and> me_inv b' S' \<and> cid_complete b' S' \<and> next_market_order_id b' = n' \<and>
     view b' S' BUY = A' BUY \<and> view b' S' SELL = A' SELL \<and> outbox b' = outbox b @ evs \<and>
     book_ticker_id b' = book_ticker_id b \<and> base_price b' = base_price b"
  using assms
proof (induction rs arbitrary: b S n' A' evs)
  case Nil
  then show ?case by (intro exI [of _ b] exI [of _ S]) simp
next
  case (Cons r rs)
  obtain n1 A1 e1 where a: "spec_request r (next_market_order_id b, view b S) = ((n1, A1), e1)" by (metis prod.exhaust)
  obtain n2 A2 e2 where c: "spec_run rs (n1, A1) = ((n2, A2), e2)" by (metis prod.exhaust)
  have e: "n' = n2" "A' = A2" "evs = e1 @ e2" using Cons.prems(8) a c by auto
  have nn: "next_market_order_id b \<noteq> - 1"
  proof
    assume "next_market_order_id b = - 1"
    then show False using Cons.prems(5) by (simp add: unsigned_minus_1_eq_mask mask_eq_exp_minus_1)
  qed
  have rok: "request_ok (book_ticker_id b) (base_price b) r" using Cons.prems(3) by simp
  have rm: "resting_orders b S + 1 < ME_MAX_ORDER_IDS \<or> rs = []" using Cons.prems(4) by (cases rs) auto
  have rm1: "resting_orders b S + 1 < ME_MAX_ORDER_IDS" using Cons.prems(4) by simp
  have fr: "rq_type r = NEW \<longrightarrow> (rq_client_id r, rq_order_id r) \<notin> order_ids (view b S)"
    using Cons.prems(7) by (auto simp: new_ids_def)
  from book_request_ok [OF Cons.prems(1,2) rok rm1 nn fr a] obtain b1 S1 where b1:
    "book_request r b = Inr b1" "me_inv b1 S1" "cid_complete b1 S1" "next_market_order_id b1 = n1"
    "view b1 S1 BUY = A1 BUY" "view b1 S1 SELL = A1 SELL" "outbox b1 = outbox b @ e1"
    "book_ticker_id b1 = book_ticker_id b" "base_price b1 = base_price b"
    "resting_orders b1 S1 \<le> resting_orders b S + 1"
    "order_ids (view b1 S1) \<subseteq> order_ids (view b S) \<union> set (new_ids [r])"
    by blast
  have tr: "\<forall>r \<in> set rs. rq_type r = NEW \<longrightarrow> trading_side (rq_side r)"
    using Cons.prems(3) by (auto simp: request_ok_def)
  from spec_run_cong [OF b1(5,6) tr c] obtain B' where B': "spec_run rs (n1, view b1 S1) = ((n2, B'), e2)"
    "B' BUY = A2 BUY" "B' SELL = A2 SELL" by blast
  have n1: "unat n1 \<le> unat (next_market_order_id b) + 1"
  proof -
    have "n1 = next_market_order_id b + 1 \<or> n1 = next_market_order_id b"
      using a by (auto simp: spec_request_def split: prod.splits if_splits)
    then show ?thesis using unat_plus_one [of "next_market_order_id b" "next_market_order_id b + 1"]
      word_less_plus_one [OF nn] by auto
  qed
  have "\<exists>b' S'. foldE book_request rs b1 = Inr b' \<and> me_inv b' S' \<and> cid_complete b' S' \<and> next_market_order_id b' = n2 \<and>
     view b' S' BUY = B' BUY \<and> view b' S' SELL = B' SELL \<and> outbox b' = outbox b1 @ e2 \<and>
     book_ticker_id b' = book_ticker_id b1 \<and> base_price b' = base_price b1"
  proof (rule Cons.IH [OF b1(2,3)])
    show "\<forall>r \<in> set rs. request_ok (book_ticker_id b1) (base_price b1) r" using Cons.prems(3) b1(8,9) by simp
    show "resting_orders b1 S1 + length rs < ME_MAX_ORDER_IDS" using Cons.prems(4) b1(10) by simp
    show "unat (next_market_order_id b1) + length rs < 2 ^ 64" using Cons.prems(5) b1(4) n1 by simp
    show "distinct (new_ids rs)" using Cons.prems(6) by (auto simp: new_ids_def split: if_splits)
    have "set (new_ids rs) \<inter> set (new_ids [r]) = {}" using Cons.prems(6) by (auto simp: new_ids_def split: if_splits)
    moreover have "set (new_ids rs) \<subseteq> set (new_ids (r # rs))" by (auto simp: new_ids_def)
    ultimately show "set (new_ids rs) \<inter> order_ids (view b1 S1) = {}" using Cons.prems(7) b1(11) by blast
    show "spec_run rs (next_market_order_id b1, view b1 S1) = ((n2, B'), e2)" using B'(1) b1(4) by simp
  qed
  then show ?case using b1 B'(2,3) e by auto
qed

subsection \<open>Delivery\<close>

definition responses_of :: "me_event list \<Rightarrow> MEClientResponse list" where
  "responses_of evs = concat (map (\<lambda>e. case e of Response r \<Rightarrow> [r] | Update _ \<Rightarrow> []) evs)"

definition updates_of :: "me_event list \<Rightarrow> MEMarketUpdate list" where
  "updates_of evs = concat (map (\<lambda>e. case e of Response _ \<Rightarrow> [] | Update u \<Rightarrow> [u]) evs)"

lemma fold_engine_send:
  "fold engine_send evs e = e\<lparr>outgoing_ogw_responses := fold lfq_push (responses_of evs) (outgoing_ogw_responses e),
     outgoing_md_updates := fold lfq_push (updates_of evs) (outgoing_md_updates e)\<rparr>"
proof (induction evs arbitrary: e)
  case Nil
  then show ?case by (simp add: responses_of_def updates_of_def)
next
  case (Cons ev evs)
  then show ?case by (cases ev) (simp_all add: responses_of_def updates_of_def)
qed

definition engine_ok :: "matching_engine \<Rightarrow> (nat \<Rightarrow> shape) \<Rightarrow> bool" where
  "engine_ok e S \<longleftrightarrow> length (ticker_order_book e) = ME_MAX_TICKERS \<and>
     (\<forall>i < ME_MAX_TICKERS. me_inv (ticker_order_book e ! i) (S i) \<and> cid_complete (ticker_order_book e ! i) (S i) \<and>
        book_ticker_id (ticker_order_book e ! i) = word_of_nat i \<and> outbox (ticker_order_book e ! i) = []) \<and>
     lfq_inv (outgoing_ogw_responses e) \<and> lfq_inv (outgoing_md_updates e)"

lemma view_outbox [simp]: "view (b\<lparr>outbox := e\<rparr>) S = view b S"
  by (simp add: view_def)

lemma me_inv_outbox [simp]: "me_inv (b\<lparr>outbox := e\<rparr>) S = me_inv b S"
  and cid_complete_outbox [simp]: "cid_complete (b\<lparr>outbox := e\<rparr>) S = cid_complete b S"
  by (simp_all add: me_inv_def me_struct_def cid_sound_def cid_complete_def)

lemma processClientRequest_ok:
  fixes e :: matching_engine
  assumes ok: "engine_ok e S" and i: "i = unat (rq_ticker_id r)" "i < ME_MAX_TICKERS"
    and r: "request_ok (rq_ticker_id r) (base_price (ticker_order_book e ! i)) r"
    and room: "resting_orders (ticker_order_book e ! i) (S i) + 1 < ME_MAX_ORDER_IDS"
    and n: "next_market_order_id (ticker_order_book e ! i) \<noteq> - 1"
    and fresh: "rq_type r = NEW \<longrightarrow> (rq_client_id r, rq_order_id r) \<notin> order_ids (view (ticker_order_book e ! i) (S i))"
    and spec: "spec_request r (next_market_order_id (ticker_order_book e ! i), view (ticker_order_book e ! i) (S i)) = ((n', A'), evs)"
    and q: "length (responses_of evs) \<le> lfq_room (outgoing_ogw_responses e)"
      "length (updates_of evs) \<le> lfq_room (outgoing_md_updates e)"
  shows "\<exists>e' Si. processClientRequest r e = Inr e' \<and> engine_ok e' (S(i := Si)) \<and>
     view (ticker_order_book e' ! i) Si BUY = A' BUY \<and> view (ticker_order_book e' ! i) Si SELL = A' SELL \<and>
     (\<forall>j < ME_MAX_TICKERS. j \<noteq> i \<longrightarrow> ticker_order_book e' ! j = ticker_order_book e ! j) \<and>
     lfq_list (outgoing_ogw_responses e') = lfq_list (outgoing_ogw_responses e) @ responses_of evs \<and>
     lfq_list (outgoing_md_updates e') = lfq_list (outgoing_md_updates e) @ updates_of evs \<and>
     incoming_requests e' = incoming_requests e \<and>
     base_price (ticker_order_book e' ! i) = base_price (ticker_order_book e ! i) \<and>
     next_market_order_id (ticker_order_book e' ! i) = n' \<and>
     resting_orders (ticker_order_book e' ! i) Si \<le> resting_orders (ticker_order_book e ! i) (S i) + 1 \<and>
     order_ids (view (ticker_order_book e' ! i) Si) \<subseteq> order_ids (view (ticker_order_book e ! i) (S i)) \<union> set (new_ids [r])"
proof -
  let ?b = "ticker_order_book e ! i"
  have b: "me_inv ?b (S i)" "cid_complete ?b (S i)" "book_ticker_id ?b = word_of_nat i" "outbox ?b = []"
    and len: "length (ticker_order_book e) = ME_MAX_TICKERS"
    and qi: "lfq_inv (outgoing_ogw_responses e)" "lfq_inv (outgoing_md_updates e)"
    using ok i(2) by (auto simp: engine_ok_def)
  have tk: "book_ticker_id ?b = rq_ticker_id r" using b(3) i(1) by simp
  from book_request_ok [OF b(1,2) _ room n fresh spec] r tk obtain b' Si where b':
    "book_request r ?b = Inr b'" "me_inv b' Si" "cid_complete b' Si" "view b' Si BUY = A' BUY" "view b' Si SELL = A' SELL"
    "outbox b' = outbox ?b @ evs" "book_ticker_id b' = book_ticker_id ?b" "base_price b' = base_price ?b" "next_market_order_id b' = n'"
    "resting_orders b' Si \<le> resting_orders ?b (S i) + 1"
    "order_ids (view b' Si) \<subseteq> order_ids (view ?b (S i)) \<union> set (new_ids [r])"
    by (metis (no_types, lifting))
  let ?e' = "deliver i b' e"
  have run: "processClientRequest r e = Inr ?e'"
    using b'(1) i len by (simp add: processClientRequest_def)
  have fields: "ticker_order_book ?e' = (ticker_order_book e)[i := b'\<lparr>outbox := []\<rparr>]"
    "outgoing_ogw_responses ?e' = fold lfq_push (responses_of evs) (outgoing_ogw_responses e)"
    "outgoing_md_updates ?e' = fold lfq_push (updates_of evs) (outgoing_md_updates e)"
    "incoming_requests ?e' = incoming_requests e"
    using b'(6) b(4) by (simp_all add: deliver_def fold_engine_send)
  note p1 = lfq.push_all [OF qi(1) q(1)] and p2 = lfq.push_all [OF qi(2) q(2)]
  have "engine_ok ?e' (S(i := Si))"
    using ok b' b(3) p1 p2 i(2) len
    by (auto simp: engine_ok_def fields nth_list_update)
  moreover have "resting_orders (b'\<lparr>outbox := []\<rparr>) Si = resting_orders b' Si" by (simp add: resting_orders_def)
  ultimately show ?thesis using run fields p1 p2 b'(4,5,8-11) i(2) len
    by (intro exI [of _ ?e'] exI [of _ Si]) simp
qed

end
