(* ===== verification/ExchangeProps.thy ===== *)
theory ExchangeProps
  imports MatchingEngine
begin

text \<open>
  The properties of the exchange's book and matching engine, each an instance or a consequence of the
  refinement lemmas of \<open>MEBookRefine\<close> and \<open>MatchingEngine\<close>. \<open>add_ready\<close> collects what a call of \<open>add\<close>
  needs: the invariant, a real side, ids and price in the ranges the arrays have, room for one order.
\<close>

definition fresh_book :: "TickerId \<Rightarrow> Price \<Rightarrow> me_order_book" where
  "fresh_book ticker base = me_book_new ticker base (\<lambda>_ _. None) (\<lambda>_. None)"

definition add_ready :: "me_order_book \<Rightarrow> shape \<Rightarrow> ClientId \<Rightarrow> OrderId \<Rightarrow> Side \<Rightarrow> Price \<Rightarrow> bool" where
  "add_ready b S client coid side price \<longleftrightarrow> me_inv b S \<and> trading_side side \<and> unat client < ME_MAX_NUM_CLIENTS \<and>
     unat coid < ME_MAX_ORDER_IDS \<and> next_market_order_id b \<noteq> - 1 \<and> in_window price b \<and>
     resting_orders b S + 1 < ME_MAX_ORDER_IDS"

lemma view_empty: "view b (\<lambda>_. []) = (\<lambda>_. [])"
  by (simp add: view_def)

lemma fresh_book_simps [simp]:
  "next_market_order_id (fresh_book t p) = 1" "book_ticker_id (fresh_book t p) = t" "base_price (fresh_book t p) = p"
  "outbox (fresh_book t p) = []" "me_inv (fresh_book t p) (\<lambda>_. [])" "cid_complete (fresh_book t p) (\<lambda>_. [])"
  "resting_orders (fresh_book t p) (\<lambda>_. []) = 0"
  by (simp_all add: fresh_book_def me_inv_new) (simp_all add: me_book_new_def cid_complete_def all_orders_def resting_orders_def view_empty)

lemma add_ready_fresh: "trading_side side \<Longrightarrow> unat client < ME_MAX_NUM_CLIENTS \<Longrightarrow> unat coid < ME_MAX_ORDER_IDS \<Longrightarrow>
    base \<le> price \<Longrightarrow> price < base + int ME_MAX_PRICE_LEVELS \<Longrightarrow>
    add_ready (fresh_book t base) (\<lambda>_. []) client coid side price"
  by (simp add: add_ready_def in_window_def ME_MAX_ORDER_IDS_def)

lemma add_ready_ok:
  assumes "add_ready b S client coid side price"
    and "spec_add client coid (book_ticker_id b) side price qty (next_market_order_id b) (view b S) = (A', evs)"
  shows "\<exists>b' S'. me_add client coid (book_ticker_id b) side price qty b = Inr b' \<and> me_inv b' S' \<and>
     view b' S' BUY = A' BUY \<and> view b' S' SELL = A' SELL \<and> outbox b' = outbox b @ evs"
proof -
  from assms(1) have a: "me_inv b S" "trading_side side" "unat client < ME_MAX_NUM_CLIENTS" "unat coid < ME_MAX_ORDER_IDS"
    "next_market_order_id b \<noteq> - 1" "in_window price b" "resting_orders b S + 1 < ME_MAX_ORDER_IDS"
    by (simp_all add: add_ready_def)
  from me_add_ok [OF a(1-5) refl disjI1 [OF a(6)] a(7) assms(2)] show ?thesis by blast
qed

lemma add_ready_parts:
  fixes b :: me_order_book
  assumes "add_ready b S client coid side price"
    and m: "spec_match (book_ticker_id b) client side price coid (ucast (ucast (next_market_order_id b) :: 32 word)) qty
        (view b S (opp side)) = (leaves, xs', evs)"
  shows "\<exists>b' S'. me_add client coid (book_ticker_id b) side price qty b = Inr b' \<and> me_inv b' S' \<and>
     view b' S' (opp side) = xs' \<and>
     view b' S' side = (if leaves = 0 then view b S side
       else queue_insert side o_price (spec_new_order (book_ticker_id b) client side price coid (next_market_order_id b) leaves
              (view b S side)) (view b S side)) \<and>
     outbox b' = outbox b @ snd (spec_add client coid (book_ticker_id b) side price qty (next_market_order_id b) (view b S))"
proof -
  let ?sp = "spec_add client coid (book_ticker_id b) side price qty (next_market_order_id b) (view b S)"
  have s: "trading_side side" using assms(1) by (simp add: add_ready_def)
  then have o: "opp side \<noteq> side" by simp
  note sa = spec_add_simps(1) [where A = "view b S", OF m]
  from add_ready_ok [OF assms(1), of qty "fst ?sp" "snd ?sp"] obtain b' S' where b':
    "me_add client coid (book_ticker_id b) side price qty b = Inr b'" "me_inv b' S'"
    "view b' S' BUY = fst ?sp BUY" "view b' S' SELL = fst ?sp SELL" "outbox b' = outbox b @ snd ?sp"
    by auto
  have v: "view b' S' t = fst ?sp t" if "trading_side t" for t using b'(3,4) that by (auto simp: trading_side_def)
  have "view b' S' (opp side) = xs'" using v [of "opp side"] sa o by simp
  moreover have "view b' S' side = (if leaves = 0 then view b S side
       else queue_insert side o_price (spec_new_order (book_ticker_id b) client side price coid (next_market_order_id b) leaves
              (view b S side)) (view b S side))"
    using v [OF s] sa o by simp
  ultimately show ?thesis using b'(1,2,5) by blast
qed

lemma total_qty_queue_insert: "total_qty (queue_insert s key x xs) = unat (o_qty x) + total_qty xs"
proof -
  let ?P = "\<lambda>y. \<not> ahead s (key x) (key y)"
  have "total_qty (takeWhile ?P xs) + total_qty (dropWhile ?P xs) = total_qty xs"
    by (metis takeWhile_dropWhile_id total_qty_simps(3))
  then show ?thesis unfolding queue_insert_def by simp
qed

lemma spec_match_prefix:
  assumes "spec_match ticker client side price coid new_id leaves xs = (leaves', xs', evs)"
  shows "\<exists>k \<le> length xs. map market_order_id xs' = map market_order_id (drop k xs) \<and>
    (\<forall>x \<in> set (take k xs). \<not> outside side price (o_price x)) \<and>
    tl xs' = tl (drop k xs) \<and>
    (\<exists>q. xs' = (case drop k xs of [] \<Rightarrow> [] | y # ys \<Rightarrow> y\<lparr>o_qty := q\<rparr> # ys))"
  using assms
proof (induction xs arbitrary: leaves leaves' xs' evs)
  case Nil
  then show ?case by simp
next
  case (Cons x xs)
  let ?f = "min leaves (o_qty x)"
  show ?case
  proof (cases "leaves = 0 \<or> outside side price (o_price x)")
    case True
    then show ?thesis using Cons.prems by (intro exI [of _ 0] conjI exI [of _ "o_qty x"]) auto
  next
    case nz: False
    show ?thesis
    proof (cases "o_qty x - ?f = 0")
      case True
      obtain l1 x1 e1 where r: "spec_match ticker client side price coid new_id (leaves - ?f) xs = (l1, x1, e1)"
        by (metis prod_cases3)
      have "xs' = x1" using Cons.prems nz True r by (auto simp: Let_def)
      moreover from Cons.IH [OF r] obtain k where "k \<le> length xs" "map market_order_id x1 = map market_order_id (drop k xs)"
        "\<forall>x \<in> set (take k xs). \<not> outside side price (o_price x)" "tl x1 = tl (drop k xs)"
        "\<exists>q. x1 = (case drop k xs of [] \<Rightarrow> [] | y # ys \<Rightarrow> y\<lparr>o_qty := q\<rparr> # ys)" by blast
      ultimately show ?thesis using nz by (intro exI [of _ "Suc k"]) auto
    next
      case False
      then have "xs' = x\<lparr>o_qty := o_qty x - ?f\<rparr> # xs" using Cons.prems nz by (auto simp: Let_def)
      then show ?thesis by (intro exI [of _ 0] conjI exI [of _ "o_qty x - ?f"]) simp_all
    qed
  qed
qed

lemma traded_parts:
  assumes "spec_match ticker client side price coid new_id qty xs = (leaves, xs', evs)"
  shows "leaves \<le> qty" "total_qty xs' \<le> total_qty xs" "unat qty = unat leaves + (total_qty xs - total_qty xs')"
proof -
  show le: "leaves \<le> qty" by (rule spec_match_leaves_le [OF assms])
  then have "unat leaves \<le> unat qty" by (simp add: word_le_nat_alt)
  with spec_match_conserves [OF assms] show "total_qty xs' \<le> total_qty xs"
    "unat qty = unat leaves + (total_qty xs - total_qty xs')" by arith+
qed

text \<open>
  C1. Functional correctness of the exchange's book over whole sessions: started empty, on any sequence
  of well-formed requests (sides BUY or SELL, client, order id and price within the arrays, no client
  reusing an order id, fewer requests than the order pool has blocks) the pointer code never stops the
  process, and it ends with exactly the book and exactly the responses and market updates, in order,
  that the pointer-free specification \<open>spec_run\<close> computes.
\<close>

theorem book_run_refines:
  assumes "\<forall>r \<in> set rs. request_ok ticker base r" and "length rs < ME_MAX_ORDER_IDS" and "distinct (new_ids rs)"
    and "spec_run rs (1, \<lambda>_. []) = ((n, A), evs)"
  shows "\<exists>b S. foldE book_request rs (fresh_book ticker base) = Inr b \<and> me_inv b S \<and>
     view b S BUY = A BUY \<and> view b S SELL = A SELL \<and> outbox b = evs \<and> next_market_order_id b = n"
proof -
  have "unat (1 :: 64 word) + length rs < 2 ^ 64" using assms(2) by (simp add: ME_MAX_ORDER_IDS_def)
  then show ?thesis
    using book_run_ok [of "fresh_book ticker base" "\<lambda>_. []" rs n A evs] assms
    by (auto simp: view_empty order_ids_def)
qed

definition demo_requests :: "MEClientRequest list" where
  "demo_requests =
    [\<lparr>rq_type = NEW, rq_client_id = 1, rq_ticker_id = 0, rq_order_id = 1, rq_side = BUY, rq_price = 100, rq_qty = 10\<rparr>,
     \<lparr>rq_type = NEW, rq_client_id = 2, rq_ticker_id = 0, rq_order_id = 1, rq_side = SELL, rq_price = 99, rq_qty = 4\<rparr>,
     \<lparr>rq_type = Request_CANCEL, rq_client_id = 1, rq_ticker_id = 0, rq_order_id = 1, rq_side = Side_INVALID,
      rq_price = Price_INVALID, rq_qty = Qty_INVALID\<rparr>]"

lemma demo_requests_ok: "\<forall>r \<in> set demo_requests. request_ok 0 0 r" "length demo_requests < ME_MAX_ORDER_IDS"
  "distinct (new_ids demo_requests)"
  by (simp_all add: demo_requests_def request_ok_def new_ids_def ME_MAX_NUM_CLIENTS_def ME_MAX_ORDER_IDS_def ME_MAX_PRICE_LEVELS_def)

theorem book_run_refines_witness:
  "\<exists>b S. foldE book_request demo_requests (fresh_book 0 0) = Inr b \<and> view b S BUY = [] \<and> view b S SELL = [] \<and>
     map rs_leaves_qty (responses_of (outbox b)) = [10, 4, 0, 6, 6]"
proof -
  let ?r = "spec_run demo_requests (1, \<lambda>_. [])"
  have e: "(snd (fst ?r)) BUY = [] \<and> (snd (fst ?r)) SELL = [] \<and> map rs_leaves_qty (responses_of (snd ?r)) = [10, 4, 0, 6, 6]"
    by (simp add: demo_requests_def spec_request_def spec_add_def spec_cancel_def Let_def outside_def queue_insert_def
        spec_new_order_def fill_events_def cancel_events_def owned_by_def responses_of_def)
  obtain n A evs where r: "?r = ((n, A), evs)" by (metis prod.exhaust)
  from book_run_refines [OF demo_requests_ok r] e r show ?thesis by fastforce
qed

text \<open>
  C2. Price-time priority and no crossed book: after any such session both sides are sorted by price and,
  at the same price, by arrival (priority and market order id ascending), every resting order has quantity
  left, and every bid is below every ask. The orders are those the book's pointers lead to: \<open>me_inv\<close>
  ties the shape \<open>S\<close> to pools, rings and hash maps.
\<close>

theorem book_run_sorted:
  assumes "\<forall>r \<in> set rs. request_ok ticker base r" and "length rs < ME_MAX_ORDER_IDS" and "distinct (new_ids rs)"
  shows "\<exists>b S. foldE book_request rs (fresh_book ticker base) = Inr b \<and> me_inv b S \<and>
     sorted_wrt (before BUY) (view b S BUY) \<and> sorted_wrt (before SELL) (view b S SELL) \<and>
     (\<forall>x \<in> set (view b S BUY @ view b S SELL). o_qty x \<noteq> 0) \<and>
     (\<forall>x \<in> set (view b S BUY). \<forall>y \<in> set (view b S SELL). o_price x < o_price y)"
proof -
  obtain n A evs where r: "spec_run rs (1, \<lambda>_. []) = ((n, A), evs)" by (metis prod.exhaust)
  have "unat (1 :: 64 word) + length rs < 2 ^ 64" using assms(2) by (simp add: ME_MAX_ORDER_IDS_def)
  then obtain b S where b: "foldE book_request rs (fresh_book ticker base) = Inr b" "me_inv b S"
    using book_run_ok [of "fresh_book ticker base" "\<lambda>_. []" rs n A evs] assms r
    by (auto simp: view_empty order_ids_def)
  have ok: "view_ok (book_ticker_id b) (next_market_order_id b) (view b S)" using b(2) by (simp add: me_inv_def)
  then have "\<forall>x \<in> set (view b S BUY @ view b S SELL). o_qty x \<noteq> 0"
    by (auto simp: order_ok_def dest: view_okD(1) [OF ok, rotated])
  moreover have "\<forall>x \<in> set (view b S BUY). \<forall>y \<in> set (view b S SELL). o_price x < o_price y"
    using ok by (simp add: view_ok_def)
  moreover have "sorted_wrt (before BUY) (view b S BUY)" "sorted_wrt (before SELL) (view b S SELL)"
    using view_okD(2) [OF ok, of BUY] view_okD(2) [OF ok, of SELL] by simp_all
  ultimately show ?thesis using b(1,2) by blast
qed

theorem book_run_sorted_witness:
  "\<exists>b S. foldE book_request demo_requests (fresh_book 0 0) = Inr b \<and> me_inv b S \<and> sorted_wrt (before BUY) (view b S BUY)"
  using book_run_sorted [OF demo_requests_ok] by blast

text \<open>
  C3. Matching is fair and complete: an incoming order consumes a prefix of the passive side in
  price-time order, only orders within its limit; the first of the other orders may lose quantity, the rest
  is untouched. What the order trades is exactly what the passive side loses, and it trades on until its
  quantity is used up or nothing within its limit is left. A remainder, and only a remainder, rests: with this
  quantity, the limit price, the client and the ids of the request, behind every order that is not strictly
  worse. All this of the orders the book's pointers lead to (\<open>me_inv\<close> ties \<open>S'\<close> to them).
\<close>

theorem add_price_time:
  assumes "add_ready b S client coid side price"
  shows "\<exists>b' S' k leaves. me_add client coid (book_ticker_id b) side price qty b = Inr b' \<and> me_inv b' S' \<and>
     map market_order_id (view b' S' (opp side)) = map market_order_id (drop k (view b S (opp side))) \<and>
     (\<forall>x \<in> set (take k (view b S (opp side))). \<not> outside side price (o_price x)) \<and>
     tl (view b' S' (opp side)) = tl (drop k (view b S (opp side))) \<and>
     (\<exists>q. view b' S' (opp side) =
        (case drop k (view b S (opp side)) of [] \<Rightarrow> [] | y # ys \<Rightarrow> y\<lparr>o_qty := q\<rparr> # ys)) \<and>
     leaves \<le> qty \<and> total_qty (view b' S' (opp side)) \<le> total_qty (view b S (opp side)) \<and>
     unat qty = unat leaves + (total_qty (view b S (opp side)) - total_qty (view b' S' (opp side))) \<and>
     (leaves \<noteq> 0 \<longrightarrow> (\<forall>x \<in> set (view b' S' (opp side)). outside side price (o_price x))) \<and>
     (\<exists>x. o_qty x = leaves \<and> o_price x = price \<and> o_side x = side \<and> client_id x = client \<and>
        client_order_id x = coid \<and> market_order_id x = next_market_order_id b \<and>
        view b' S' side = (if leaves = 0 then view b S side else queue_insert side o_price x (view b S side)))"
proof -
  obtain leaves xs' evs where m: "spec_match (book_ticker_id b) client side price coid
      (ucast (ucast (next_market_order_id b) :: 32 word)) qty (view b S (opp side)) = (leaves, xs', evs)"
    by (metis prod_cases3)
  from add_ready_parts [OF assms m] obtain b' S' where b':
    "me_add client coid (book_ticker_id b) side price qty b = Inr b'" "me_inv b' S'" "view b' S' (opp side) = xs'"
    "view b' S' side = (if leaves = 0 then view b S side
       else queue_insert side o_price (spec_new_order (book_ticker_id b) client side price coid (next_market_order_id b) leaves
              (view b S side)) (view b S side))"
    by blast
  from spec_match_prefix [OF m] obtain k where k: "map market_order_id xs' = map market_order_id (drop k (view b S (opp side)))"
    "\<forall>x \<in> set (take k (view b S (opp side))). \<not> outside side price (o_price x)"
    "tl xs' = tl (drop k (view b S (opp side)))"
    "\<exists>q. xs' = (case drop k (view b S (opp side)) of [] \<Rightarrow> [] | y # ys \<Rightarrow> y\<lparr>o_qty := q\<rparr> # ys)" by blast
  have s: "trading_side side" using assms by (simp add: add_ready_def)
  have ok: "view_ok (book_ticker_id b') (next_market_order_id b') (view b' S')" using b'(2) by (simp add: me_inv_def)
  have "\<forall>x \<in> set xs'. outside side price (o_price x)" if "leaves \<noteq> 0"
    using sorted_outside [OF view_okD(2) [OF ok, of "opp side"]] spec_match_exhausts [OF m that] s b'(3) by auto
  moreover have "\<exists>x. o_qty x = leaves \<and> o_price x = price \<and> o_side x = side \<and> client_id x = client \<and>
        client_order_id x = coid \<and> market_order_id x = next_market_order_id b \<and>
        view b' S' side = (if leaves = 0 then view b S side else queue_insert side o_price x (view b S side))"
    unfolding b'(4) by (rule exI [of _ "spec_new_order (book_ticker_id b) client side price coid (next_market_order_id b) leaves
              (view b S side)"]) (simp add: spec_new_order_def)
  moreover note traded_parts [OF m]
  ultimately show ?thesis using b'(1,2) k
    by (intro exI [of _ b'] exI [of _ S'] exI [of _ k] exI [of _ leaves]) (simp add: b'(3))
qed

theorem add_price_time_witness:
  "\<exists>b' S' x. me_add 1 1 0 BUY 100 10 (fresh_book 0 0) = Inr b' \<and> me_inv b' S' \<and> view b' S' SELL = [] \<and>
     view b' S' BUY = [x] \<and> o_qty x = 10 \<and> o_price x = 100 \<and> client_id x = 1"
proof -
  have "add_ready (fresh_book 0 0) (\<lambda>_. []) 1 1 BUY 100"
    by (rule add_ready_fresh) (simp_all add: ME_MAX_NUM_CLIENTS_def ME_MAX_ORDER_IDS_def ME_MAX_PRICE_LEVELS_def)
  from add_price_time [OF this, of 10] obtain b' S' x and k :: nat and leaves :: Qty where
    "me_add 1 1 0 BUY 100 10 (fresh_book 0 0) = Inr b'" "me_inv b' S'" "view b' S' SELL = []" "unat leaves = 10"
    "o_qty x = leaves" "o_price x = 100" "client_id x = 1" "view b' S' BUY = (if leaves = 0 then [] else queue_insert BUY o_price x [])"
    by (auto simp: view_empty)
  moreover from this have "leaves = 10" by (simp add: word_unat_eq_iff)
  ultimately show ?thesis by (intro exI [of _ b'] exI [of _ S'] exI [of _ x]) (simp add: queue_insert_def)
qed

text \<open>
  C24. Quantity is conserved: what an incoming order trades is taken from the passive side, and exactly
  the remainder is added to its own side; nothing is created or lost. The totals are those of the orders
  the book's pointers lead to (\<open>me_inv\<close> ties \<open>S'\<close> to them).
\<close>

theorem add_conserves:
  assumes "add_ready b S client coid side price"
  shows "\<exists>b' S' leaves. me_add client coid (book_ticker_id b) side price qty b = Inr b' \<and> me_inv b' S' \<and> leaves \<le> qty \<and>
     total_qty (view b S (opp side)) - total_qty (view b' S' (opp side)) = unat qty - unat leaves \<and>
     total_qty (view b' S' (opp side)) \<le> total_qty (view b S (opp side)) \<and>
     total_qty (view b' S' side) = total_qty (view b S side) + unat leaves"
proof -
  obtain leaves xs' evs where m: "spec_match (book_ticker_id b) client side price coid
      (ucast (ucast (next_market_order_id b) :: 32 word)) qty (view b S (opp side)) = (leaves, xs', evs)"
    by (metis prod_cases3)
  from add_ready_parts [OF assms m] obtain b' S' where b':
    "me_add client coid (book_ticker_id b) side price qty b = Inr b'" "me_inv b' S'" "view b' S' (opp side) = xs'"
    "view b' S' side = (if leaves = 0 then view b S side
       else queue_insert side o_price (spec_new_order (book_ticker_id b) client side price coid (next_market_order_id b) leaves
              (view b S side)) (view b S side))"
    by blast
  note tr = traded_parts [OF m]
  have "total_qty (view b S (opp side)) - total_qty xs' = unat qty - unat leaves"
    using tr(3) by arith
  moreover have "total_qty (view b' S' side) = total_qty (view b S side) + unat leaves"
    unfolding b'(4) by (simp add: total_qty_queue_insert spec_new_order_def)
  ultimately show ?thesis using b'(1-3) tr(1,2) by blast
qed

theorem add_conserves_witness:
  "\<exists>b' S'. me_add 1 1 0 SELL 7 10 (fresh_book 0 0) = Inr b' \<and> me_inv b' S' \<and> total_qty (view b' S' SELL) = 10"
proof -
  have "add_ready (fresh_book 0 0) (\<lambda>_. []) 1 1 SELL 7"
    by (rule add_ready_fresh) (simp_all add: ME_MAX_NUM_CLIENTS_def ME_MAX_ORDER_IDS_def ME_MAX_PRICE_LEVELS_def)
  from add_conserves [OF this, of 10] obtain b' S' and leaves :: Qty where
    "me_add 1 1 0 SELL 7 10 (fresh_book 0 0) = Inr b'" "me_inv b' S'" "leaves \<le> 10" "10 - unat leaves = 0"
    "total_qty (view b' S' SELL) = unat leaves"
    by (auto simp: view_empty)
  moreover have "unat leaves \<le> 10" using \<open>leaves \<le> 10\<close> by (simp add: word_le_nat_alt)
  ultimately show ?thesis by (intro exI [of _ b'] exI [of _ S']) simp
qed

text \<open>
  Cancelling: under the invariant and with every order reachable by its ids, \<open>cancel\<close> of a resting
  order takes exactly this order out, publishes its removal and then confirms to the client with the
  quantity that was open; of anything else it rejects and changes nothing.
\<close>

theorem cancel_refines:
  assumes "me_inv b S" and "cid_complete b S" and "unat order_id < ME_MAX_ORDER_IDS"
    and "spec_cancel client order_id ticker (view b S) = (A, evs)"
  shows "\<exists>b' S'. me_cancel client order_id ticker b = Inr b' \<and> me_inv b' S' \<and> cid_complete b' S' \<and>
     view b' S' BUY = A BUY \<and> view b' S' SELL = A SELL \<and> outbox b' = outbox b @ evs"
  using me_cancel_ok [OF assms(1,2) _ assms(4)] assms(3) by blast

theorem cancel_refines_witness:
  "\<exists>b'. me_cancel 3 9 0 (fresh_book 0 0) = Inr b' \<and> outbox b' = [cancel_rejected 3 9 0]"
proof -
  have "\<exists>b' S'. me_cancel 3 9 0 (fresh_book 0 0) = Inr b' \<and> me_inv b' S' \<and> cid_complete b' S' \<and>
     view b' S' BUY = (view (fresh_book 0 0) (\<lambda>_. [])) BUY \<and> view b' S' SELL = (view (fresh_book 0 0) (\<lambda>_. [])) SELL \<and>
     outbox b' = outbox (fresh_book 0 0) @ [cancel_rejected 3 9 0]"
    by (rule cancel_refines [where S = "\<lambda>_. []"]) (simp_all add: ME_MAX_ORDER_IDS_def spec_cancel_def view_empty)
  then show ?thesis by auto
qed

text \<open>
  Out of range requests stop the process. An order whose remainder rests outside the price window
  of the book ends in \<open>FATAL\<close>, after its matches; a cancel with an order id beyond the array throws
  inside a \<open>noexcept\<close> function.
\<close>

theorem out_of_range_stops:
  assumes "me_inv b S" and "trading_side side" and "\<not> in_window price b"
    and "spec_leaves client coid ticker side price qty (next_market_order_id b) (view b S) \<noteq> 0"
    and "unat client' < ME_MAX_NUM_CLIENTS" and "ME_MAX_ORDER_IDS \<le> unat order_id"
  shows "me_add client coid ticker side price qty b = Inl Fatal \<and> me_cancel client' order_id ticker b = Inl OutOfRange"
proof
  let ?nid = "next_market_order_id b"
  let ?b2 = "sendClientResponse \<lparr>rs_type = ACCEPTED, rs_client_id = client, rs_ticker_id = ticker, rs_client_order_id = coid,
             rs_market_order_id = ?nid, rs_side = side, rs_price = price, rs_exec_qty = 0, rs_leaves_qty = qty\<rparr>
             (b\<lparr>next_market_order_id := ?nid + 1\<rparr>)"
  have st: "me_struct ?b2 S" using assms(1) by (simp add: me_inv_def)
  obtain leaves xs' evs where m: "spec_match ticker client side price coid (ucast (ucast ?nid :: 32 word)) qty
      (view ?b2 S (opp side)) = (leaves, xs', evs)"
    by (metis prod_cases3)
  from checkForMatch_ok [OF st assms(2) m] obtain b3 S3 where c:
    "checkForMatch client coid ticker side price qty (ucast ?nid) ?b2 = Inr (leaves, b3)" "me_frame ?b2 b3"
    by blast
  have nz: "leaves \<noteq> 0" using assms(4) m by (simp add: spec_leaves_def)
  have "\<not> in_window price b3" using assms(3) c(2) by (simp add: me_frame_def in_window_def)
  then have "getNextPriority price b3 = Inl Fatal" by (simp add: getNextPriority_def getOrdersAtPrice_out)
  then show "me_add client coid ticker side price qty b = Inl Fatal"
    using c(1) nz by (simp add: me_add_def generateNewMarketOrderId_def Let_def)
  show "me_cancel client' order_id ticker b = Inl OutOfRange"
    using assms(5,6) by (simp add: me_cancel_def)
qed

theorem out_of_range_stops_witness:
  "me_add 1 1 0 BUY (- 1) 5 (fresh_book 0 0) = Inl Fatal \<and> me_cancel 1 4000000 0 (fresh_book 0 0) = Inl OutOfRange"
  by (rule out_of_range_stops [where S = "\<lambda>_. []"])
    (simp_all add: in_window_def spec_leaves_def view_empty ME_MAX_NUM_CLIENTS_def ME_MAX_ORDER_IDS_def)

lemma ucast_round_trip: "(ucast (ucast n :: 32 word) :: 64 word) = n \<longleftrightarrow> unat n < 2 ^ 32" for n :: "64 word"
proof -
  have "unat (ucast (ucast n :: 32 word) :: 64 word) = unat n mod 2 ^ 32"
    by (simp add: unsigned_ucast_eq take_bit_eq_mod unat_mod)
  moreover have "unat n mod 2 ^ 32 = unat n \<longleftrightarrow> unat n < 2 ^ 32" by auto
  ultimately show ?thesis by (metis word_unat_eq_iff)
qed

text \<open>
  The market order id in the fill of an incoming order: \<open>checkForMatch\<close> takes the new id as a
  \<open>Qty\<close>, so the first fill the aggressor is told of carries the id it was accepted under exactly as long
  as this id is below 2^32; from then on the two messages disagree.
\<close>

theorem aggressor_fill_id:
  assumes "add_ready b S client coid side price" and "view b S (opp side) = x # xs"
    and "\<not> outside side price (o_price x)" and "qty \<noteq> 0"
  shows "\<exists>b' r1 r2 evs. me_add client coid (book_ticker_id b) side price qty b = Inr b' \<and>
     outbox b' = outbox b @ Response r1 # Response r2 # evs \<and> rs_type r1 = ACCEPTED \<and> rs_type r2 = FILLED \<and>
     rs_client_id r2 = client \<and> rs_client_order_id r2 = coid \<and> rs_market_order_id r1 = next_market_order_id b \<and>
     (rs_market_order_id r2 = rs_market_order_id r1 \<longleftrightarrow> unat (next_market_order_id b) < 2 ^ 32)"
proof -
  let ?nid = "next_market_order_id b"
  let ?id = "ucast (ucast ?nid :: 32 word) :: 64 word"
  obtain leaves xs' evs where m: "spec_match (book_ticker_id b) client side price coid ?id qty (view b S (opp side)) = (leaves, xs', evs)"
    by (metis prod_cases3)
  from add_ready_parts [OF assms(1) m] obtain b' where b': "me_add client coid (book_ticker_id b) side price qty b = Inr b'"
    "outbox b' = outbox b @ snd (spec_add client coid (book_ticker_id b) side price qty ?nid (view b S))"
    by blast
  let ?r1 = "\<lparr>rs_type = ACCEPTED, rs_client_id = client, rs_ticker_id = book_ticker_id b, rs_client_order_id = coid,
        rs_market_order_id = ?nid, rs_side = side, rs_price = price, rs_exec_qty = 0, rs_leaves_qty = qty\<rparr>"
  let ?f = "min qty (o_qty x)"
  let ?r2 = "\<lparr>rs_type = FILLED, rs_client_id = client, rs_ticker_id = book_ticker_id b, rs_client_order_id = coid,
        rs_market_order_id = ?id, rs_side = side, rs_price = o_price x, rs_exec_qty = ?f, rs_leaves_qty = qty - ?f\<rparr>"
  have "\<exists>rest. evs = Response ?r2 # rest"
    using m assms(2-4) by (auto simp: Let_def fill_events_def split: prod.splits if_splits)
  then obtain rest where e: "evs = Response ?r2 # rest" ..
  then obtain rest' where "outbox b' = outbox b @ Response ?r1 # Response ?r2 # rest'"
    using b'(2) spec_add_simps(2) [where A = "view b S", OF m] by simp
  then show ?thesis
    using b'(1) ucast_round_trip [of ?nid]
    by (intro exI [of _ b'] exI [of _ ?r1] exI [of _ ?r2] exI [of _ rest']) simp
qed

lemma sell_then_ready:
  "\<exists>b S x. add_ready b S 2 1 BUY 100 \<and> view b S SELL = [x] \<and> o_price x = 100 \<and> next_market_order_id b = 2 \<and>
     book_ticker_id b = 0"
proof -
  let ?r = "\<lparr>rq_type = NEW, rq_client_id = 1, rq_ticker_id = 0, rq_order_id = 1, rq_side = SELL, rq_price = 100, rq_qty = 10\<rparr>"
  have ok: "\<forall>r \<in> set [?r]. request_ok (book_ticker_id (fresh_book 0 0)) (base_price (fresh_book 0 0)) r"
    by (simp add: request_ok_def ME_MAX_NUM_CLIENTS_def ME_MAX_ORDER_IDS_def ME_MAX_PRICE_LEVELS_def)
  obtain n A evs where r: "spec_run [?r] (1, \<lambda>_. []) = ((n, A), evs)" by (metis prod.exhaust)
  have n: "n = 2" "A BUY = []" "\<exists>x. A SELL = [x] \<and> o_price x = 100"
    using r by (auto simp: spec_request_def spec_add_def Let_def queue_insert_def spec_new_order_def)
  have "\<exists>b' S'. foldE book_request [?r] (fresh_book 0 0) = Inr b' \<and> me_inv b' S' \<and> cid_complete b' S' \<and>
      next_market_order_id b' = n \<and> view b' S' BUY = A BUY \<and> view b' S' SELL = A SELL \<and>
      outbox b' = outbox (fresh_book 0 0) @ evs \<and> book_ticker_id b' = book_ticker_id (fresh_book 0 0) \<and>
      base_price b' = base_price (fresh_book 0 0)"
    by (rule book_run_ok [where S = "\<lambda>_. []"])
      (use ok r in \<open>auto simp: ME_MAX_ORDER_IDS_def new_ids_def order_ids_def view_empty\<close>)
  then obtain b S where b: "me_inv b S" "next_market_order_id b = 2" "view b S BUY = []" "view b S SELL = A SELL"
    "book_ticker_id b = 0" "base_price b = 0"
    using n by auto
  then have "add_ready b S 2 1 BUY 100"
    using n(3) by (auto simp: add_ready_def in_window_def resting_orders_def ME_MAX_NUM_CLIENTS_def ME_MAX_ORDER_IDS_def
        ME_MAX_PRICE_LEVELS_def)
  moreover obtain x where "view b S SELL = [x]" "o_price x = 100" using b(4) n(3) by auto
  ultimately show ?thesis using b(2,5) by blast
qed

theorem aggressor_fill_id_witness:
  "\<exists>b b' r1 r2 evs. me_add 2 1 0 BUY 100 3 b = Inr b' \<and> outbox b' = outbox b @ Response r1 # Response r2 # evs \<and>
     rs_type r2 = FILLED \<and> rs_market_order_id r2 = rs_market_order_id r1"
proof -
  from sell_then_ready obtain b S x where b: "add_ready b S 2 1 BUY 100" "view b S SELL = [x]" "o_price x = 100"
    "next_market_order_id b = 2" "book_ticker_id b = 0" by blast
  obtain b' r1 r2 evs where "me_add 2 1 0 BUY 100 3 b = Inr b'" "outbox b' = outbox b @ Response r1 # Response r2 # evs"
    "rs_type r2 = FILLED" "rs_market_order_id r2 = rs_market_order_id r1"
    using aggressor_fill_id [OF b(1), of x "[]" 3] b(2-5) by (auto simp: outside_def)
  then show ?thesis by blast
qed

subsection \<open>The pointer structure\<close>

text \<open>
  Linking an order into the pointer structure: in a well-formed book whose other side has no order at
  its price, \<open>addOrder\<close> succeeds, leaves the book well-formed, and puts the order behind every order at
  its price or a better one and before every worse one, creating and linking the price level when needed;
  no field of any order but its links changes.
\<close>

theorem link_order_fifo:
  assumes "book_ok b S" and "p \<notin> all_orders S" and "trading_side s" and "s = o_side (ord b p)"
    and "in_window (o_price (ord b p)) b"
    and "\<forall>q \<in> set (orders_of (S (opp s))). o_price (ord b q) \<noteq> o_price (ord b p)"
    and "card (all_levels S) + 1 < ME_MAX_PRICE_LEVELS"
  shows "\<exists>b' S'. link_order p b = Inr b' \<and> book_ok b' S' \<and> (\<forall>q. strip (ord b' q) = strip (ord b q)) \<and>
     S' (opp s) = S (opp s) \<and>
     orders_of (S' s) = queue_insert s (\<lambda>q. o_price (ord b q)) p (orders_of (S s))"
proof -
  have "o_price (ord b q) \<noteq> o_price (ord b p)" if "trading_side t" "t \<noteq> s" "q \<in> set (orders_of (S t))" for t q
    using assms(6) opp_eq [OF assms(3) that(1)] that(2,3) by blast
  then have "\<exists>b' S'. link_order p b = Inr b' \<and> book_ok b' S' \<and> ord_frame b b' \<and> (\<forall>t. t \<noteq> s \<longrightarrow> S' t = S t) \<and>
     orders_of (S' s) = queue_insert s (\<lambda>q. o_price (ord b q)) p (orders_of (S s))"
    by (rule link_order_ok [OF assms(1-5) _ assms(7)])
  then obtain b' S' where r: "link_order p b = Inr b'" "book_ok b' S'" "ord_frame b b'" "\<forall>t. t \<noteq> s \<longrightarrow> S' t = S t"
     "orders_of (S' s) = queue_insert s (\<lambda>q. o_price (ord b q)) p (orders_of (S s))"
    by blast
  moreover have "S' (opp s) = S (opp s)" using r(4) opp_simps(4) [OF assms(3)] by blast
  moreover have "\<forall>q. strip (ord b' q) = strip (ord b q)" using r(3) by (simp add: ord_frame_def)
  ultimately show ?thesis by blast
qed

definition demo_book :: me_order_book where
  "demo_book = upd_ord 0 (\<lambda>x. x\<lparr>o_side := BUY, o_price := 5\<rparr>) (fresh_book 0 0)"

lemma demo_book_simps:
  "book_ok demo_book (\<lambda>_. [])" "o_side (ord demo_book 0) = BUY" "o_price (ord demo_book 0) = 5" "in_window 5 demo_book"
proof -
  have "book_ok (fresh_book 0 0) (\<lambda>_. [])" using fresh_book_simps(5) [of 0 0] by (simp add: me_inv_def me_struct_def)
  then show "book_ok demo_book (\<lambda>_. [])"
    unfolding demo_book_def by (rule book_ok_cong) (simp_all add: all_orders_def)
qed (simp_all add: demo_book_def in_window_def ME_MAX_PRICE_LEVELS_def)

lemma link_demo:
  "\<exists>b' S'. link_order 0 demo_book = Inr b' \<and> book_ok b' S' \<and> orders_of (S' BUY) = [0] \<and> o_side (ord b' 0) = BUY"
proof -
  have "\<exists>b' S'. link_order 0 demo_book = Inr b' \<and> book_ok b' S' \<and> ord_frame demo_book b' \<and> (\<forall>t. t \<noteq> BUY \<longrightarrow> S' t = []) \<and>
     orders_of (S' BUY) = queue_insert BUY (\<lambda>q. o_price (ord demo_book q)) 0 (orders_of [])"
    by (rule link_order_ok [OF demo_book_simps(1)])
      (simp_all add: demo_book_simps all_orders_def all_levels_def ME_MAX_PRICE_LEVELS_def)
  then obtain b' S' where b': "link_order 0 demo_book = Inr b'" "book_ok b' S'" "ord_frame demo_book b'"
    "orders_of (S' BUY) = [0]"
    by (auto simp: queue_insert_def)
  then show ?thesis using ord_frame_side [OF b'(3), of 0] demo_book_simps(2) by auto
qed

theorem link_order_fifo_witness:
  "\<exists>b' S'. link_order 0 demo_book = Inr b' \<and> book_ok b' S' \<and> orders_of (S' BUY) = [0]"
proof -
  have "\<exists>b' S'. link_order 0 demo_book = Inr b' \<and> book_ok b' S' \<and> (\<forall>q. strip (ord b' q) = strip (ord demo_book q)) \<and>
     S' (opp BUY) = [] \<and>
     orders_of (S' BUY) = queue_insert BUY (\<lambda>q. o_price (ord demo_book q)) 0 (orders_of [])"
    by (rule link_order_fifo [OF demo_book_simps(1)])
      (simp_all add: demo_book_simps all_orders_def all_levels_def ME_MAX_PRICE_LEVELS_def)
  then show ?thesis by (auto simp: queue_insert_def)
qed

text \<open>
  Unlinking an order: from a well-formed book any order of it can be taken out; the book stays
  well-formed, the other orders keep their sequence, and a price level that lost its last order is
  unlinked, erased from the price array and freed.
\<close>

theorem unlink_order_removes:
  assumes "book_ok b S" and "p \<in> all_orders S" and "s = o_side (ord b p)"
  shows "\<exists>b' S'. unlink_order p b = Inr b' \<and> book_ok b' S' \<and> (\<forall>q. strip (ord b' q) = strip (ord b q)) \<and>
     S' (opp s) = S (opp s) \<and> orders_of (S' s) = remove1 p (orders_of (S s)) \<and>
     live (orders_at_price_pool b') = all_levels S'"
proof -
  from unlink_order_ok [OF assms(1,2)] obtain b' S' where r: "unlink_order p b = Inr b'" "book_ok b' S'" "ord_frame b b'"
    "\<forall>t. t \<noteq> s \<longrightarrow> S' t = S t" "orders_of (S' s) = remove1 p (orders_of (S s))"
    unfolding assms(3) by blast
  have "trading_side s" using order_side_in [OF assms(1,2)] assms(3) by simp
  then have "S' (opp s) = S (opp s)" using r(4) opp_simps(4) by blast
  moreover have "\<forall>q. strip (ord b' q) = strip (ord b q)" using r(3) by (simp add: ord_frame_def)
  ultimately show ?thesis using r(1,2,5) book_ok_pool(3) [OF r(2)] by blast
qed

theorem unlink_order_removes_witness:
  "\<exists>b b' S'. link_order 0 demo_book = Inr b \<and> unlink_order 0 b = Inr b' \<and> book_ok b' S' \<and> orders_of (S' BUY) = []"
proof -
  from link_demo obtain b S where b: "link_order 0 demo_book = Inr b" "book_ok b S" "orders_of (S BUY) = [0]"
    "o_side (ord b 0) = BUY" by blast
  have "0 \<in> all_orders S" using b(3) by (auto simp: all_orders_set)
  from unlink_order_removes [OF b(2) this refl] b show ?thesis by auto
qed

subsection \<open>The engine\<close>

lemma engine_new_ok: "engine_ok (engine_new bases (\<lambda>_ _ _. None) (\<lambda>_ _. None)) (\<lambda>_ _. [])"
proof -
  have "ticker_order_book (engine_new bases (\<lambda>_ _ _. None) (\<lambda>_ _. None)) ! i = fresh_book (word_of_nat i) (bases i)"
    if "i < ME_MAX_TICKERS" for i
    using that by (simp add: engine_new_def fresh_book_def)
  then show ?thesis
    by (simp add: engine_ok_def) (simp add: engine_new_def ME_MAX_CLIENT_UPDATES_def ME_MAX_MARKET_UPDATES_def)
qed

text \<open>
  The matching engine processes a request on the book of its instrument only: the other books do not
  change, the responses and the market updates are appended to their queues in the order the book issued
  them, and the engine invariant is kept.
\<close>

theorem process_request_isolated:
  assumes "engine_ok e S" and "i = unat (rq_ticker_id r)" and "i < ME_MAX_TICKERS"
    and "request_ok (rq_ticker_id r) (base_price (ticker_order_book e ! i)) r"
    and "resting_orders (ticker_order_book e ! i) (S i) + 1 < ME_MAX_ORDER_IDS"
    and "next_market_order_id (ticker_order_book e ! i) \<noteq> - 1"
    and "rq_type r = NEW \<longrightarrow> (rq_client_id r, rq_order_id r) \<notin> order_ids (view (ticker_order_book e ! i) (S i))"
    and "spec_request r (next_market_order_id (ticker_order_book e ! i), view (ticker_order_book e ! i) (S i)) = ((n, A), evs)"
    and "length (responses_of evs) \<le> lfq_room (outgoing_ogw_responses e)"
    and "length (updates_of evs) \<le> lfq_room (outgoing_md_updates e)"
  shows "\<exists>e' Si. processClientRequest r e = Inr e' \<and> engine_ok e' (S(i := Si)) \<and>
     view (ticker_order_book e' ! i) Si BUY = A BUY \<and> view (ticker_order_book e' ! i) Si SELL = A SELL \<and>
     (\<forall>j < ME_MAX_TICKERS. j \<noteq> i \<longrightarrow> ticker_order_book e' ! j = ticker_order_book e ! j) \<and>
     lfq_list (outgoing_ogw_responses e') = lfq_list (outgoing_ogw_responses e) @ responses_of evs \<and>
     lfq_list (outgoing_md_updates e') = lfq_list (outgoing_md_updates e) @ updates_of evs"
  using processClientRequest_ok [OF assms] by blast

theorem process_request_isolated_witness:
  "\<exists>e'. processClientRequest (demo_requests ! 0) (engine_new (\<lambda>_. 0) (\<lambda>_ _ _. None) (\<lambda>_ _. None)) = Inr e' \<and>
     map rs_type (lfq_list (outgoing_ogw_responses e')) = [ACCEPTED] \<and>
     map mu_type (lfq_list (outgoing_md_updates e')) = [ADD]"
proof -
  let ?e = "engine_new (\<lambda>_. 0) (\<lambda>_ _ _. None) (\<lambda>_ _. None)"
  let ?r = "demo_requests ! 0"
  have bk: "ticker_order_book ?e ! 0 = fresh_book 0 0" "lfq_room (outgoing_ogw_responses ?e) = ME_MAX_CLIENT_UPDATES"
    "lfq_room (outgoing_md_updates ?e) = ME_MAX_MARKET_UPDATES" "lfq_list (outgoing_ogw_responses ?e) = []"
    "lfq_list (outgoing_md_updates ?e) = []"
    by (simp_all add: engine_new_def fresh_book_def ME_MAX_TICKERS_def lfq_room_def, simp_all add: lfq_new_def)
  obtain n A evs where sp: "spec_request ?r (1, \<lambda>_. []) = ((n, A), evs)" by (metis prod.exhaust)
  have e: "map rs_type (responses_of evs) = [ACCEPTED]" "map mu_type (updates_of evs) = [ADD]"
    using sp by (auto simp: demo_requests_def spec_request_def spec_add_def Let_def responses_of_def updates_of_def)
  have len: "length (responses_of evs) = 1" "length (updates_of evs) = 1"
    using arg_cong [OF e(1), of length] arg_cong [OF e(2), of length] by simp_all
  have z: "unat (rq_ticker_id ?r) = 0" by (simp add: demo_requests_def)
  have "\<exists>e' Si. processClientRequest ?r ?e = Inr e' \<and> engine_ok e' ((\<lambda>_ _. [])(0 := Si)) \<and>
     view (ticker_order_book e' ! 0) Si BUY = A BUY \<and> view (ticker_order_book e' ! 0) Si SELL = A SELL \<and>
     (\<forall>j < ME_MAX_TICKERS. j \<noteq> 0 \<longrightarrow> ticker_order_book e' ! j = ticker_order_book ?e ! j) \<and>
     lfq_list (outgoing_ogw_responses e') = lfq_list (outgoing_ogw_responses ?e) @ responses_of evs \<and>
     lfq_list (outgoing_md_updates e') = lfq_list (outgoing_md_updates ?e) @ updates_of evs"
  proof (rule process_request_isolated [OF engine_new_ok])
    show "request_ok (rq_ticker_id ?r) (base_price (ticker_order_book ?e ! 0)) ?r"
      using demo_requests_ok(1) bk(1) by (simp add: demo_requests_def)
  qed (use bk sp z len in \<open>simp_all add: ME_MAX_TICKERS_def ME_MAX_ORDER_IDS_def ME_MAX_CLIENT_UPDATES_def
      ME_MAX_MARKET_UPDATES_def order_ids_def view_empty\<close>)
  then show ?thesis using bk e by auto
qed

end
