(* ===== verification/MarketOrderBook.thy ===== *)
theory MarketOrderBook
  imports BookPrint
begin

text \<open>
  \<open>trading/strategy/market_order_book.h\<close>, \<open>market_order_book.cpp\<close> and \<open>market_order.h\<close>: the trading
  client's copy of the exchange's book, fed with market updates, and the best bid and offer it keeps.

  The containers and most of the code are those of the exchange's book, so \<open>market_order_book\<close> extends
  the same \<open>book\<close>; only \<open>addOrdersAtPrice\<close> has one condition more. \<open>onMarketUpdate\<close> ends with one call on
  the trade engine, which is its result here (\<open>mkt_event\<close>).
\<close>

record MarketOrder = order_node +
  m_order_id :: OrderId

record BBO =
  bid_price :: Price
  ask_price :: Price
  bid_qty :: Qty
  ask_qty :: Qty

definition BBO_default :: BBO where
  "BBO_default = \<lparr>bid_price = Price_INVALID, ask_price = Price_INVALID, bid_qty = Qty_INVALID, ask_qty = Qty_INVALID\<rparr>"

definition BBO_toString :: "BBO \<Rightarrow> string" where
  "BBO_toString x = ''BBO{'' @ qtyToString (bid_qty x) @ ''@'' @ priceToString (bid_price x) @ ''X'' @
     priceToString (ask_price x) @ ''@'' @ qtyToString (ask_qty x) @ ''}''"

record market_order_book = "unit MarketOrder_ext book" +
  mkt_ticker_id :: TickerId
  oid_to_order :: "OrderId \<Rightarrow> nat option"
  bbo :: BBO

datatype mkt_event = OnTradeUpdate MEMarketUpdate | OnOrderBookUpdate TickerId Price Side

definition MarketOrder_default :: MarketOrder where
  "MarketOrder_default = \<lparr>o_side = Side_INVALID, o_price = Price_INVALID, o_qty = Qty_INVALID,
     o_priority = Priority_INVALID, prev_order = None, next_order = None, m_order_id = OrderId_INVALID\<rparr>"

definition MarketOrdersAtPrice_default :: orders_at_price where
  "MarketOrdersAtPrice_default = \<lparr>l_side = Side_INVALID, l_price = Price_INVALID, first_order = None,
     prev_entry = None, next_entry = None\<rparr>"

definition mkt_book_new :: "TickerId \<Rightarrow> Price \<Rightarrow> (OrderId \<Rightarrow> nat option) \<Rightarrow> (nat \<Rightarrow> nat option) \<Rightarrow> market_order_book" where
  "mkt_book_new ticker base oids prices =
     \<lparr>orders_at_price_pool = pool_new ME_MAX_PRICE_LEVELS MarketOrdersAtPrice_default,
      bids_by_price = None, asks_by_price = None, price_orders_at_price = prices,
      order_pool = pool_new ME_MAX_ORDER_IDS MarketOrder_default, base_price = base,
      mkt_ticker_id = ticker, oid_to_order = oids, bbo = BBO_default\<rparr>"

definition MarketOrder_toString :: "market_order_book \<Rightarrow> nat \<Rightarrow> string" where
  "MarketOrder_toString b p = (let x = ord b p in ''MarketOrder['' @
     ''oid:'' @ orderIdToString (m_order_id x) @ '' '' @ ''side:'' @ sideToString (o_side x) @ '' '' @
     ''price:'' @ priceToString (o_price x) @ '' '' @ ''qty:'' @ qtyToString (o_qty x) @ '' '' @
     ''prio:'' @ priorityToString (o_priority x) @ '' '' @
     ''prev:'' @ orderIdToString (case prev_order x of None \<Rightarrow> OrderId_INVALID | Some q \<Rightarrow> m_order_id (ord b q)) @ '' '' @
     ''next:'' @ orderIdToString (case next_order x of None \<Rightarrow> OrderId_INVALID | Some q \<Rightarrow> m_order_id (ord b q)) @ '']'')"

definition MarketOrdersAtPrice_toString :: "market_order_book \<Rightarrow> nat \<Rightarrow> string" where
  "MarketOrdersAtPrice_toString b k = (let l = lev b k in ''MarketOrdersAtPrice['' @
     ''side:'' @ sideToString (l_side l) @ '' '' @ ''price:'' @ priceToString (l_price l) @ '' '' @
     ''first_mkt_order:'' @ (case first_order l of None \<Rightarrow> ''null'' | Some p \<Rightarrow> MarketOrder_toString b p) @ '' '' @
     ''prev:'' @ priceToString (case prev_entry l of None \<Rightarrow> Price_INVALID | Some j \<Rightarrow> l_price (lev b j)) @ '' '' @
     ''next:'' @ priceToString (case next_entry l of None \<Rightarrow> Price_INVALID | Some j \<Rightarrow> l_price (lev b j)) @ '']'')"

definition mkt_toString :: "bool \<Rightarrow> bool \<Rightarrow> market_order_book \<Rightarrow> string res" where
  "mkt_toString detailed validity_check b = book_toString m_order_id (mkt_ticker_id b) detailed validity_check b"

subsection \<open>Best bid and offer\<close>

text \<open>\<open>for (order = first->next_order_; order != first; order = order->next_order_) qty += order->qty_\<close>\<close>

fun qty_loop :: "nat \<Rightarrow> nat \<Rightarrow> nat option \<Rightarrow> Qty \<Rightarrow> market_order_book \<Rightarrow> Qty res" where
  "qty_loop fuel first order acc b =
     (if order = Some first then Inr acc
      else if fuel = 0 then Inl Diverges
      else bindE (derefE order) (\<lambda>p. qty_loop (fuel - 1) first (next_order (ord b p)) (acc + o_qty (ord b p)) b))"

declare qty_loop.simps [simp del]

definition side_bbo :: "nat option \<Rightarrow> market_order_book \<Rightarrow> (Price \<times> Qty) res" where
  "side_bbo head b =
     (case head of
        None \<Rightarrow> Inr (Price_INVALID, Qty_INVALID)
      | Some l \<Rightarrow>
          bindE (derefE (first_order (lev b l))) (\<lambda>first.
          bindE (qty_loop (pool_size (order_pool b)) first (next_order (ord b first)) (o_qty (ord b first)) b) (\<lambda>qty.
          Inr (l_price (lev b l), qty))))"

definition updateBBO :: "bool \<Rightarrow> bool \<Rightarrow> market_order_book \<Rightarrow> market_order_book res" where
  "updateBBO update_bid update_ask b =
     bindE (if update_bid
            then bindE (side_bbo (bids_by_price b) b) (\<lambda>(p, q). Inr (b\<lparr>bbo := (bbo b)\<lparr>bid_price := p, bid_qty := q\<rparr>\<rparr>))
            else Inr b) (\<lambda>b1.
     if update_ask
     then bindE (side_bbo (asks_by_price b1) b1) (\<lambda>(p, q). Inr (b1\<lparr>bbo := (bbo b1)\<lparr>ask_price := p, ask_qty := q\<rparr>\<rparr>))
     else Inr b1)"

subsection \<open>Levels and orders\<close>

text \<open>The text of these four is that of the exchange's book.\<close>

definition mkt_priceToIndex :: "Price \<Rightarrow> market_order_book \<Rightarrow> nat res" where
  "mkt_priceToIndex price b =
     (let idx = price - base_price b in
      bindE (fatalE (idx < 0 \<or> idx \<ge> int ME_MAX_PRICE_LEVELS)) (\<lambda>_. Inr (nat idx)))"

definition mkt_getOrdersAtPrice :: "Price \<Rightarrow> market_order_book \<Rightarrow> nat option res" where
  "mkt_getOrdersAtPrice price b = bindE (mkt_priceToIndex price b) (\<lambda>i. Inr (price_orders_at_price b i))"

definition mkt_removeOrdersAtPrice :: "Side \<Rightarrow> Price \<Rightarrow> market_order_book \<Rightarrow> market_order_book res" where
  "mkt_removeOrdersAtPrice s px b =
     (let best = side_head s b in
      bindE (bindE (mkt_getOrdersAtPrice px b) derefE) (\<lambda>l.
      bindE (if next_entry (lev b l) = Some l then Inr (set_side_head s None b)
             else bindE (derefE (prev_entry (lev b l))) (\<lambda>before.
                  let b1 = upd_lev before (\<lambda>x. x\<lparr>next_entry := next_entry (lev b l)\<rparr>) b in
                  bindE (derefE (next_entry (lev b1 l))) (\<lambda>after.
                  let b2 = upd_lev after (\<lambda>x. x\<lparr>prev_entry := prev_entry (lev b1 l)\<rparr>) b1 in
                  Inr (if Some l = best then set_side_head s (next_entry (lev b2 l)) b2 else b2)))) (\<lambda>b3.
      let b4 = upd_lev l (\<lambda>x. x\<lparr>next_entry := None, prev_entry := None\<rparr>) b3 in
      bindE (mkt_priceToIndex px b4) (\<lambda>i.
      let b5 = b4\<lparr>price_orders_at_price := (price_orders_at_price b4)(i := None)\<rparr> in
      bindE (deallocate l (orders_at_price_pool b5)) (\<lambda>pool.
      Inr (b5\<lparr>orders_at_price_pool := pool\<rparr>))))))"

definition mkt_unlink_order :: "nat \<Rightarrow> market_order_book \<Rightarrow> market_order_book res" where
  "mkt_unlink_order p b =
     (let order = ord b p in
      bindE (mkt_getOrdersAtPrice (o_price order) b) (\<lambda>orders_at_price.
      if prev_order order = Some p then mkt_removeOrdersAtPrice (o_side order) (o_price order) b
      else bindE (derefE (prev_order order)) (\<lambda>before.
           let b1 = upd_ord before (\<lambda>x. x\<lparr>next_order := next_order order\<rparr>) b in
           bindE (derefE (next_order order)) (\<lambda>after.
           let b2 = upd_ord after (\<lambda>x. x\<lparr>prev_order := prev_order order\<rparr>) b1 in
           bindE (derefE orders_at_price) (\<lambda>l.
           let b3 = (if first_order (lev b2 l) = Some p
                     then upd_lev l (\<lambda>x. x\<lparr>first_order := next_order order\<rparr>) b2 else b2) in
           Inr (upd_ord p (\<lambda>x. x\<lparr>next_order := None, prev_order := None\<rparr>) b3))))))"

lemma mkt_levels_eq [simp]:
  "mkt_priceToIndex px b = priceToIndex px b" "mkt_getOrdersAtPrice px b = getOrdersAtPrice px b"
  "mkt_removeOrdersAtPrice s px b = removeOrdersAtPrice s px b" "mkt_unlink_order p b = unlink_order p b"
proof -
  show i: "mkt_priceToIndex px b = priceToIndex px b" for px b by (simp add: mkt_priceToIndex_def priceToIndex_def)
  show g: "mkt_getOrdersAtPrice px b = getOrdersAtPrice px b" for px b
    by (simp add: mkt_getOrdersAtPrice_def getOrdersAtPrice_def i)
  show r: "mkt_removeOrdersAtPrice s px b = removeOrdersAtPrice s px b" for s px b
    by (simp only: mkt_removeOrdersAtPrice_def removeOrdersAtPrice_def i g)
  show "mkt_unlink_order p b = unlink_order p b"
    by (simp only: mkt_unlink_order_def unlink_order_def g r)
qed

definition mkt_addOrdersAtPrice :: "nat \<Rightarrow> market_order_book \<Rightarrow> market_order_book res" where
  "mkt_addOrdersAtPrice n b =
     (let s = l_side (lev b n); px = l_price (lev b n) in
      bindE (mkt_priceToIndex px b) (\<lambda>i.
      let b0 = b\<lparr>price_orders_at_price := (price_orders_at_price b)(i := Some n)\<rparr> in
      case side_head s b0 of
        None \<Rightarrow> Inr (upd_lev n (\<lambda>l. l\<lparr>prev_entry := Some n, next_entry := Some n\<rparr>) (set_side_head s (Some n) b0))
      | Some best \<Rightarrow>
          if next_entry (lev b0 best) = None
          then Inr (upd_lev n (\<lambda>l. l\<lparr>prev_entry := Some n, next_entry := Some n\<rparr>) (set_side_head s (Some n) b0))
          else
          bindE (find_target s px best b0) (\<lambda>(add_after, target).
          if add_after
          then bindE (if target = best then derefE (prev_entry (lev b0 best)) else Inr target) (\<lambda>t.
               insert_level_after n t b0)
          else bindE (insert_level_before n target b0) (\<lambda>b1.
               if more_aggressive s px (lev b1 best)
               then Inr (set_side_head s (Some n)
                      (upd_lev target (\<lambda>l. l\<lparr>next_entry :=
                         (if next_entry l = Some best then Some n else next_entry l)\<rparr>) b1))
               else Inr b1))))"

text \<open>\<open>oid_to_order_.at(order_id) = p\<close>\<close>

definition set_oid :: "OrderId \<Rightarrow> nat option \<Rightarrow> market_order_book \<Rightarrow> market_order_book res" where
  "set_oid i p b = bindE (atE ME_MAX_ORDER_IDS (unat i)) (\<lambda>_. Inr (b\<lparr>oid_to_order := (oid_to_order b)(i := p)\<rparr>))"

definition get_oid :: "OrderId \<Rightarrow> market_order_book \<Rightarrow> nat option res" where
  "get_oid i b = bindE (atE ME_MAX_ORDER_IDS (unat i)) (\<lambda>_. Inr (oid_to_order b i))"

text \<open>\<open>removeOrder\<close>, whose first part is \<open>mkt_unlink_order\<close>.\<close>

definition mkt_removeOrder :: "nat \<Rightarrow> market_order_book \<Rightarrow> market_order_book res" where
  "mkt_removeOrder p b =
     bindE (mkt_unlink_order p b) (\<lambda>b1.
     bindE (set_oid (m_order_id (ord b1 p)) None b1) (\<lambda>b2.
     bindE (deallocate p (order_pool b2)) (\<lambda>pool.
     Inr (b2\<lparr>order_pool := pool\<rparr>))))"

definition mkt_link_order :: "nat \<Rightarrow> market_order_book \<Rightarrow> market_order_book res" where
  "mkt_link_order p b =
     bindE (mkt_getOrdersAtPrice (o_price (ord b p)) b) (\<lambda>orders_at_price.
     case orders_at_price of
       None \<Rightarrow>
         (let b1 = upd_ord p (\<lambda>x. x\<lparr>prev_order := Some p, next_order := Some p\<rparr>) b in
          bindE (allocate \<lparr>l_side = o_side (ord b1 p), l_price = o_price (ord b1 p), first_order = Some p,
                   prev_entry = None, next_entry = None\<rparr> (orders_at_price_pool b1)) (\<lambda>(n, pool).
          mkt_addOrdersAtPrice n (b1\<lparr>orders_at_price_pool := pool\<rparr>)))
     | Some l \<Rightarrow>
         bindE (derefE (first_order (lev b l))) (\<lambda>first.
         bindE (derefE (prev_order (ord b first))) (\<lambda>last.
         let b1 = upd_ord last (\<lambda>x. x\<lparr>next_order := Some p\<rparr>) b;
             b2 = upd_ord p (\<lambda>x. x\<lparr>prev_order := prev_order (ord b1 first)\<rparr>) b1;
             b3 = upd_ord p (\<lambda>x. x\<lparr>next_order := Some first\<rparr>) b2 in
         Inr (upd_ord first (\<lambda>x. x\<lparr>prev_order := Some p\<rparr>) b3))))"

definition mkt_addOrder :: "nat \<Rightarrow> market_order_book \<Rightarrow> market_order_book res" where
  "mkt_addOrder p b =
     bindE (mkt_link_order p b) (\<lambda>b1. set_oid (m_order_id (ord b1 p)) (Some p) b1)"

subsection \<open>Clearing the book\<close>

definition clear_orders :: "market_order_book \<Rightarrow> market_order_book res" where
  "clear_orders b = foldE (\<lambda>i b.
     case oid_to_order b (word_of_nat i) of
       None \<Rightarrow> Inr b
     | Some p \<Rightarrow> bindE (deallocate p (order_pool b)) (\<lambda>pool. Inr (b\<lparr>order_pool := pool\<rparr>))) [0..<ME_MAX_ORDER_IDS] b"

text \<open>\<open>for (bid = head->next_entry_; bid != head; bid = bid->next_entry_) deallocate(bid)\<close>\<close>

fun clear_levels :: "nat \<Rightarrow> nat \<Rightarrow> nat option \<Rightarrow> market_order_book \<Rightarrow> market_order_book res" where
  "clear_levels fuel head l b =
     (if l = Some head then Inr b
      else if fuel = 0 then Inl Diverges
      else case l of
        None \<Rightarrow> Inl AssertFailed
      | Some k \<Rightarrow> bindE (deallocate k (orders_at_price_pool b)) (\<lambda>pool.
          let b1 = b\<lparr>orders_at_price_pool := pool\<rparr> in
          clear_levels (fuel - 1) head (next_entry (lev b1 k)) b1))"

declare clear_levels.simps [simp del]

definition clear_side :: "nat option \<Rightarrow> market_order_book \<Rightarrow> market_order_book res" where
  "clear_side head b =
     (case head of
        None \<Rightarrow> Inr b
      | Some h \<Rightarrow>
          bindE (clear_levels (pool_size (orders_at_price_pool b)) h (next_entry (lev b h)) b) (\<lambda>b1.
          bindE (deallocate h (orders_at_price_pool b1)) (\<lambda>pool.
          Inr (b1\<lparr>orders_at_price_pool := pool\<rparr>))))"

definition clear_book :: "market_order_book \<Rightarrow> market_order_book res" where
  "clear_book b =
     bindE (clear_orders b) (\<lambda>b1.
     let b2 = b1\<lparr>oid_to_order := (\<lambda>_. None)\<rparr> in
     bindE (clear_side (bids_by_price b2) b2) (\<lambda>b3.
     bindE (clear_side (asks_by_price b3) b3) (\<lambda>b4.
     Inr (b4\<lparr>bids_by_price := None, asks_by_price := None\<rparr>))))"

subsection \<open>Market updates\<close>

definition bid_updated :: "MEMarketUpdate \<Rightarrow> market_order_book \<Rightarrow> bool" where
  "bid_updated u b = (case bids_by_price b of None \<Rightarrow> False
     | Some l \<Rightarrow> mu_side u = BUY \<and> mu_price u \<ge> l_price (lev b l))"

definition ask_updated :: "MEMarketUpdate \<Rightarrow> market_order_book \<Rightarrow> bool" where
  "ask_updated u b = (case asks_by_price b of None \<Rightarrow> False
     | Some l \<Rightarrow> mu_side u = SELL \<and> mu_price u \<le> l_price (lev b l))"

definition apply_update :: "MEMarketUpdate \<Rightarrow> market_order_book \<Rightarrow> market_order_book res" where
  "apply_update u b =
     (case mu_type u of
        ADD \<Rightarrow>
          bindE (allocate \<lparr>o_side = mu_side u, o_price = mu_price u, o_qty = mu_qty u, o_priority = mu_priority u,
                   prev_order = None, next_order = None, m_order_id = mu_order_id u\<rparr> (order_pool b)) (\<lambda>(p, pool).
          mkt_addOrder p (b\<lparr>order_pool := pool\<rparr>))
      | MODIFY \<Rightarrow>
          bindE (bindE (get_oid (mu_order_id u) b) derefE) (\<lambda>p.
          Inr (upd_ord p (\<lambda>x. x\<lparr>o_qty := mu_qty u\<rparr>) b))
      | CANCEL \<Rightarrow>
          bindE (bindE (get_oid (mu_order_id u) b) derefE) (\<lambda>p. mkt_removeOrder p b)
      | CLEAR \<Rightarrow> clear_book b
      | _ \<Rightarrow> Inr b)"

definition onMarketUpdate :: "MEMarketUpdate \<Rightarrow> market_order_book \<Rightarrow> (mkt_event \<times> market_order_book) res" where
  "onMarketUpdate u b =
     (let bid_upd = bid_updated u b; ask_upd = ask_updated u b in
      if mu_type u = TRADE then Inr (OnTradeUpdate u, b)
      else bindE (apply_update u b) (\<lambda>b1.
           bindE (updateBBO bid_upd ask_upd b1) (\<lambda>b2.
           Inr (OnOrderBookUpdate (mu_ticker_id u) (mu_price u) (mu_side u), b2))))"

end
