(* ===== verification/MarketBookRefine.thy ===== *)
theory MarketBookRefine
  imports MarketOrderBook
begin

text \<open>
  What \<open>onMarketUpdate\<close> does to the list of orders of each side. \<open>mk_struct b S\<close> is the invariant of the
  trading client's book; \<open>mview b S\<close> is what it represents; \<open>mkt_spec\<close> is the effect of an update on that,
  and \<open>update_ok\<close> says which updates the code can take.
\<close>

definition mk_struct :: "market_order_book \<Rightarrow> shape \<Rightarrow> bool" where
  "mk_struct b S \<longleftrightarrow> book_ok b S \<and> pool_ok (order_pool b) \<and> pool_size (order_pool b) = ME_MAX_ORDER_IDS \<and>
     live (order_pool b) = all_orders S \<and>
     (\<forall>i p. oid_to_order b i = Some p \<longrightarrow> p \<in> all_orders S \<and> m_order_id (ord b p) = i) \<and>
     (\<forall>p \<in> all_orders S. oid_to_order b (m_order_id (ord b p)) = Some p \<and> unat (m_order_id (ord b p)) < ME_MAX_ORDER_IDS)"

type_synonym mkt_view = "Side \<Rightarrow> MarketOrder list"

definition mview :: "market_order_book \<Rightarrow> shape \<Rightarrow> mkt_view" where
  "mview b S = (\<lambda>s. map (\<lambda>p. strip (ord b p)) (orders_of (S s)))"

definition mview_ids :: "mkt_view \<Rightarrow> OrderId set" where
  "mview_ids V = m_order_id ` set (V BUY @ V SELL)"

definition mview_size :: "mkt_view \<Rightarrow> nat" where
  "mview_size V = length (V BUY) + length (V SELL)"

definition new_market_order :: "MEMarketUpdate \<Rightarrow> MarketOrder" where
  "new_market_order u = \<lparr>o_side = mu_side u, o_price = mu_price u, o_qty = mu_qty u, o_priority = mu_priority u,
     prev_order = None, next_order = None, m_order_id = mu_order_id u\<rparr>"

definition mkt_spec :: "MEMarketUpdate \<Rightarrow> mkt_view \<Rightarrow> mkt_view" where
  "mkt_spec u V =
     (if mu_type u = ADD then V(mu_side u := queue_insert (mu_side u) o_price (new_market_order u) (V (mu_side u)))
      else if mu_type u = MODIFY then (\<lambda>s. map (\<lambda>x. if m_order_id x = mu_order_id u then x\<lparr>o_qty := mu_qty u\<rparr> else x) (V s))
      else if mu_type u = CANCEL then (\<lambda>s. filter (\<lambda>x. m_order_id x \<noteq> mu_order_id u) (V s))
      else V)"

definition update_ok :: "Price \<Rightarrow> MEMarketUpdate \<Rightarrow> mkt_view \<Rightarrow> bool" where
  "update_ok base u V \<longleftrightarrow> mu_type u \<noteq> CLEAR \<and>
     (mu_type u = ADD \<longrightarrow> trading_side (mu_side u) \<and> unat (mu_order_id u) < ME_MAX_ORDER_IDS \<and>
        mu_order_id u \<notin> mview_ids V \<and> base \<le> mu_price u \<and> mu_price u < base + int ME_MAX_PRICE_LEVELS \<and>
        (\<forall>x \<in> set (V (opp (mu_side u))). o_price x \<noteq> mu_price u) \<and> mview_size V + 1 < ME_MAX_ORDER_IDS) \<and>
     (mu_type u = MODIFY \<or> mu_type u = CANCEL \<longrightarrow> mu_order_id u \<in> mview_ids V)"

text \<open>The best bid and offer as the view gives it.\<close>

definition best_of :: "MarketOrder list \<Rightarrow> Price \<times> Qty" where
  "best_of xs = (case xs of [] \<Rightarrow> (Price_INVALID, Qty_INVALID)
     | x # _ \<Rightarrow> (o_price x, sum_list (map o_qty (filter (\<lambda>y. o_price y = o_price x) xs))))"

definition bid_touched :: "MEMarketUpdate \<Rightarrow> mkt_view \<Rightarrow> bool" where
  "bid_touched u V \<longleftrightarrow> V BUY \<noteq> [] \<and> mu_side u = BUY \<and> mu_price u \<ge> o_price (hd (V BUY))"

definition ask_touched :: "MEMarketUpdate \<Rightarrow> mkt_view \<Rightarrow> bool" where
  "ask_touched u V \<longleftrightarrow> V SELL \<noteq> [] \<and> mu_side u = SELL \<and> mu_price u \<le> o_price (hd (V SELL))"

definition bbo_spec :: "bool \<Rightarrow> bool \<Rightarrow> mkt_view \<Rightarrow> BBO \<Rightarrow> BBO" where
  "bbo_spec update_bid update_ask V x =
     (let x1 = (if update_bid then x\<lparr>bid_price := fst (best_of (V BUY)), bid_qty := snd (best_of (V BUY))\<rparr> else x) in
      if update_ask then x1\<lparr>ask_price := fst (best_of (V SELL)), ask_qty := snd (best_of (V SELL))\<rparr> else x1)"

subsection \<open>Fields the pointer structure does not read\<close>

lemma mkt_updates [simp]:
  "ord (b\<lparr>oid_to_order := m\<rparr>) q = ord b q" "lev (b\<lparr>oid_to_order := m\<rparr>) l = lev b l"
  "ord (b\<lparr>bbo := x\<rparr>) q = ord b q" "lev (b\<lparr>bbo := x\<rparr>) l = lev b l"
  "lev (b\<lparr>order_pool := pl\<rparr>) l = lev b l"
  "side_head s (b\<lparr>oid_to_order := m\<rparr>) = side_head s b" "side_head s (b\<lparr>bbo := x\<rparr>) = side_head s b"
  "side_head s (b\<lparr>order_pool := pl\<rparr>) = side_head s b"
  for b :: market_order_book
  by (simp_all add: ord_def lev_def side_head_def)

lemma mkt_more_eq:
  fixes b b' :: market_order_book
  assumes "book.more b' = book.more b"
  shows "mkt_ticker_id b' = mkt_ticker_id b" "oid_to_order b' = oid_to_order b" "bbo b' = bbo b"
  using assms by (cases b; cases b'; simp)+

lemma mkt_upd_ord [simp]:
  "mkt_ticker_id (upd_ord p f b) = mkt_ticker_id b" "oid_to_order (upd_ord p f b) = oid_to_order b" "bbo (upd_ord p f b) = bbo b"
  for b :: market_order_book
  by (simp_all add: upd_ord_def)

lemma book_ok_mkt [simp]:
  "book_ok (b\<lparr>oid_to_order := m\<rparr>) S = book_ok b S" "book_ok (b\<lparr>bbo := x\<rparr>) S = book_ok b S"
  for b :: market_order_book
proof -
  show "book_ok (b\<lparr>oid_to_order := m\<rparr>) S = book_ok b S"
    by (rule iffI; erule book_ok_cong) simp_all
  show "book_ok (b\<lparr>bbo := x\<rparr>) S = book_ok b S"
    by (rule iffI; erule book_ok_cong) simp_all
qed

lemma mk_struct_bbo [simp]: "mk_struct (b\<lparr>bbo := x\<rparr>) S = mk_struct b S"
  and mview_bbo [simp]: "mview (b\<lparr>bbo := x\<rparr>) S = mview b S"
  by (simp_all add: mk_struct_def mview_def)

lemma mstrip_id [simp]: "m_order_id (strip x) = m_order_id x"
  by (simp add: strip_def)

lemma mstrip_eq_id: "strip x = strip y \<Longrightarrow> m_order_id x = m_order_id y" for x y :: MarketOrder
  by (metis mstrip_id)

lemma mk_structD:
  assumes "mk_struct b S"
  shows "book_ok b S" "pool_ok (order_pool b)" "pool_size (order_pool b) = ME_MAX_ORDER_IDS"
    "live (order_pool b) = all_orders S"
    "\<And>i p. oid_to_order b i = Some p \<Longrightarrow> p \<in> all_orders S \<and> m_order_id (ord b p) = i"
    "\<And>p. p \<in> all_orders S \<Longrightarrow> oid_to_order b (m_order_id (ord b p)) = Some p"
    "\<And>p. p \<in> all_orders S \<Longrightarrow> unat (m_order_id (ord b p)) < ME_MAX_ORDER_IDS"
  using assms by (simp_all add: mk_struct_def)

lemma mview_ids_iff:
  "i \<in> mview_ids (mview b S) \<longleftrightarrow> (\<exists>p \<in> all_orders S. m_order_id (ord b p) = i)"
  by (auto simp: mview_ids_def mview_def all_orders_set image_Un image_image)

lemma mview_ids_map:
  assumes "mk_struct b S"
  shows "i \<in> mview_ids (mview b S) \<longleftrightarrow> oid_to_order b i \<noteq> None"
  using mk_structD(5,6) [OF assms] unfolding mview_ids_iff by (metis not_None_eq option.distinct(1))

lemma mk_card_orders:
  assumes "book_ok b S"
  shows "card (all_orders S) = mview_size (mview b S)"
proof -
  have "set (orders_of (S BUY)) \<inter> set (orders_of (S SELL)) = {}"
    using order_level_unique [OF assms, of BUY _ _ _ SELL] by (force simp: in_orders_of)
  then show ?thesis
    using distinct_orders_of [OF assms, of BUY] distinct_orders_of [OF assms, of SELL]
    by (simp add: all_orders_set card_Un_disjoint distinct_card mview_size_def mview_def)
qed

subsection \<open>The defensive branch is dead\<close>

lemma head_linked:
  assumes "levels_ok b s ls" and "side_head s b = Some h"
  shows "h \<in> set ls \<and> next_entry (lev b h) \<noteq> None"
proof -
  obtain k ks where ls: "ls = k # ks" using assms levels_ok_head_None [OF assms(1)] by (cases ls) auto
  have h: "h = k" using levels_ok_head [OF assms(1)] assms(2) ls by simp
  have "level_ring b ([] @ k # ks)" using levels_ok_ring [OF assms(1)] ls by simp
  then have "next_entry (lev b k) = Some (hd (ks @ [] @ [k]))" unfolding level_ring_def by (rule ring_next)
  then show ?thesis using h ls by simp
qed

lemma mkt_addOrdersAtPrice_eq:
  assumes "\<And>h. side_head (l_side (lev b n)) b = Some h \<Longrightarrow> next_entry (lev b h) \<noteq> None"
  shows "mkt_addOrdersAtPrice n b = addOrdersAtPrice n b"
proof (cases "side_head (l_side (lev b n)) b")
  case None
  then show ?thesis by (simp add: mkt_addOrdersAtPrice_def addOrdersAtPrice_def Let_def)
next
  case (Some h)
  then have "next_entry (lev b h) \<noteq> None" by (rule assms)
  then have e: "(next_entry (lev (b\<lparr>price_orders_at_price := m\<rparr>) h) = None) = False" for m by simp
  show ?thesis
    unfolding mkt_addOrdersAtPrice_def addOrdersAtPrice_def mkt_levels_eq Let_def side_head_updates Some option.case e if_False ..
qed

lemma mkt_link_order_eq:
  assumes ok: "book_ok b S" and s: "trading_side (o_side (ord b p))"
    and room: "card (all_levels S) + 1 < ME_MAX_PRICE_LEVELS"
  shows "mkt_link_order p b = link_order p b"
proof (cases "getOrdersAtPrice (o_price (ord b p)) b")
  case (Inl e)
  then show ?thesis by (simp add: mkt_link_order_def link_order_def)
next
  case (Inr ol)
  show ?thesis
  proof (cases ol)
    case (Some l)
    then show ?thesis using Inr by (simp add: mkt_link_order_def link_order_def)
  next
    case None
    let ?s = "o_side (ord b p)"
    let ?new = "\<lparr>l_side = ?s, l_price = o_price (ord b p), first_order = Some p, prev_entry = None, next_entry = None\<rparr>"
    let ?b1 = "upd_ord p (\<lambda>x. x\<lparr>prev_order := Some p, next_order := Some p\<rparr>) b"
    have "card (live (orders_at_price_pool b)) + 1 < pool_size (orders_at_price_pool b)"
      using room book_ok_pool [OF ok] by simp
    from allocate_ok [OF book_ok_pool(1) [OF ok] this, of ?new] obtain q where
      q: "allocate ?new (orders_at_price_pool b) = Inr (next_free_index (orders_at_price_pool b), q)"
        "next_free_index (orders_at_price_pool b) \<notin> live (orders_at_price_pool b)"
        "pobj q = (pobj (orders_at_price_pool b))(next_free_index (orders_at_price_pool b) := ?new)"
      by blast
    let ?n = "next_free_index (orders_at_price_pool b)"
    let ?b2 = "?b1\<lparr>orders_at_price_pool := q\<rparr>"
    have lev2: "lev ?b2 k = (if k = ?n then ?new else lev b k)" for k using q(3) by (simp add: lev_def)
    have "mkt_addOrdersAtPrice ?n ?b2 = addOrdersAtPrice ?n ?b2"
    proof (rule mkt_addOrdersAtPrice_eq)
      fix h assume "side_head (l_side (lev ?b2 ?n)) ?b2 = Some h"
      then have "side_head ?s b = Some h" by (simp add: lev2)
      from head_linked [OF book_ok_levels [OF ok s] this]
      have h: "h \<in> set (map fst (S ?s))" "next_entry (lev b h) \<noteq> None" by auto
      obtain os where "(h, os) \<in> set (S ?s)" using h(1) by auto
      then have "h \<in> all_levels S" by (rule all_levelsI [OF s])
      then have "h \<noteq> ?n" using q(2) book_ok_pool(3) [OF ok] by auto
      then show "next_entry (lev ?b2 h) \<noteq> None" using h(2) by (simp add: lev2)
    qed
    then show ?thesis using Inr None q(1) by (simp add: mkt_link_order_def link_order_def Let_def)
  qed
qed

subsection \<open>Removing and adding orders\<close>

lemma mview_filter_id:
  assumes ok: "mk_struct b S" and s: "trading_side s" and p: "p \<in> all_orders S" and d: "distinct (orders_of (S s))"
  shows "map (\<lambda>q. strip (ord b q)) (remove1 p (orders_of (S s))) =
    filter (\<lambda>x. m_order_id x \<noteq> m_order_id (ord b p)) (mview b S s)"
proof -
  have e: "remove1 p (orders_of (S s)) = filter (\<lambda>q. q \<noteq> p) (orders_of (S s))"
    using distinct_remove1_removeAll [OF d, of p] by (simp add: removeAll_filter_not_eq eq_commute)
  have "(q \<noteq> p) = (m_order_id (ord b q) \<noteq> m_order_id (ord b p))" if "q \<in> set (orders_of (S s))" for q
  proof -
    have "q \<in> all_orders S" using that all_orders_opp [OF s, of S] by simp
    then show ?thesis using mk_structD(6) [OF ok, of q] mk_structD(6) [OF ok p] by (metis option.inject)
  qed
  then have "filter (\<lambda>q. q \<noteq> p) (orders_of (S s)) = filter (\<lambda>q. m_order_id (ord b q) \<noteq> m_order_id (ord b p)) (orders_of (S s))"
    by (rule filter_cong [OF refl])
  then show ?thesis unfolding e by (simp add: mview_def filter_map comp_def)
qed

lemma mkt_removeOrder_ok:
  assumes ok: "mk_struct b S" and p: "p \<in> all_orders S"
  shows "\<exists>b' S'. mkt_removeOrder p b = Inr b' \<and> mk_struct b' S' \<and> base_price b' = base_price b \<and> bbo b' = bbo b \<and>
     mkt_ticker_id b' = mkt_ticker_id b \<and>
     (\<forall>s. trading_side s \<longrightarrow> mview b' S' s = filter (\<lambda>x. m_order_id x \<noteq> m_order_id (ord b p)) (mview b S s))"
proof -
  note bk = mk_structD(1) [OF ok]
  let ?s = "o_side (ord b p)"
  note sd = order_side_in [OF bk p]
  then have s: "trading_side ?s" and ps: "p \<in> set (orders_of (S ?s))" by simp_all
  from unlink_order_ok [OF bk p] obtain b1 S' where u: "unlink_order p b = Inr b1" "book_ok b1 S'" "ord_frame b b1"
    "\<forall>t. t \<noteq> ?s \<longrightarrow> S' t = S t" "orders_of (S' ?s) = remove1 p (orders_of (S ?s))"
    by blast
  have st: "strip (ord b1 q) = strip (ord b q)" for q using u(3) by (simp add: ord_frame_def)
  note ids = mstrip_eq_id [OF st]
  have more: "book.more b1 = book.more b" using u(3) by (simp add: ord_frame_def)
  note m = mkt_more_eq [OF more]
  have d: "distinct (orders_of (S ?s))" by (rule distinct_orders_of [OF bk s])
  have al: "all_orders S' = all_orders S - {p}"
  proof -
    have "S' (opp ?s) = S (opp ?s)" using u(4) opp_simps(4) [OF s] by blast
    moreover have "set (orders_of (S' ?s)) = set (orders_of (S ?s)) - {p}" using u(5) d by (simp add: set_remove1_eq)
    ultimately show ?thesis
      using sides_disjoint [OF bk s] ps all_orders_opp [OF s, of S] all_orders_opp [OF s, of S'] by auto
  qed
  let ?i = "m_order_id (ord b p)"
  let ?b2 = "b1\<lparr>oid_to_order := (oid_to_order b)(?i := None)\<rparr>"
  have sc: "set_oid (m_order_id (ord b1 p)) None b1 = Inr ?b2"
    using mk_structD(7) [OF ok p] ids m by (simp add: set_oid_def)
  have "pool_ok (order_pool ?b2)" "p \<in> live (order_pool ?b2)"
    using u(3) mk_structD(2,4) [OF ok] p by (simp_all add: ord_frame_def)
  from deallocate_ok [OF this] obtain pl where pl: "deallocate p (order_pool ?b2) = Inr pl" "pool_ok pl"
    "live pl = live (order_pool ?b2) - {p}" "pool_size pl = pool_size (order_pool ?b2)" "pobj pl = pobj (order_pool ?b2)"
    by blast
  let ?b' = "?b2\<lparr>order_pool := pl\<rparr>"
  have run: "mkt_removeOrder p b = Inr ?b'" using u(1) sc pl(1) by (simp add: mkt_removeOrder_def)
  have ord': "ord ?b' q = ord b1 q" for q using pl(5) by (simp add: ord_def)
  have bk': "book_ok ?b' S'" by (rule book_ok_cong [OF u(2)]) (simp_all add: ord')
  have lv: "live (order_pool ?b') = all_orders S'"
    using pl(3) u(3) mk_structD(4) [OF ok] al by (simp add: ord_frame_def)
  have sz: "pool_size (order_pool ?b') = ME_MAX_ORDER_IDS"
    using pl(4) u(3) mk_structD(3) [OF ok] by (simp add: ord_frame_def)
  have sound: "q \<in> all_orders S' \<and> m_order_id (ord ?b' q) = i" if "oid_to_order ?b' i = Some q" for i q
  proof -
    have ne: "i \<noteq> ?i" and oi: "oid_to_order b i = Some q" using that by (auto split: if_splits)
    have q: "q \<in> all_orders S" "m_order_id (ord b q) = i" using mk_structD(5) [OF ok oi] by simp_all
    have "q \<noteq> p"
    proof
      assume "q = p"
      then show False using q(2) ne by simp
    qed
    then show ?thesis using q al ids [of q] ord' [of q] by simp
  qed
  have complete: "oid_to_order ?b' (m_order_id (ord ?b' q)) = Some q \<and> unat (m_order_id (ord ?b' q)) < ME_MAX_ORDER_IDS"
    if "q \<in> all_orders S'" for q
  proof -
    have q: "q \<in> all_orders S" "q \<noteq> p" using that al by auto
    have "m_order_id (ord b q) \<noteq> ?i"
    proof
      assume "m_order_id (ord b q) = ?i"
      then show False using mk_structD(6) [OF ok q(1)] mk_structD(6) [OF ok p] q(2) by simp
    qed
    then show ?thesis using mk_structD(6,7) [OF ok q(1)] ids [of q] ord' [of q] by simp
  qed
  have "mk_struct ?b' S'" using bk' pl(2) lv sz sound complete by (simp add: mk_struct_def)
  moreover have "mview ?b' S' t = filter (\<lambda>x. m_order_id x \<noteq> ?i) (mview b S t)" if t: "trading_side t" for t
  proof (cases "t = ?s")
    case True
    have "mview ?b' S' ?s = map (\<lambda>q. strip (ord b q)) (remove1 p (orders_of (S ?s)))"
      unfolding mview_def ord' st u(5) ..
    then show ?thesis using mview_filter_id [OF ok s p d] True by simp
  next
    case False
    then have "mview ?b' S' t = mview b S t" using u(4) by (simp add: mview_def ord' st)
    moreover have "m_order_id x \<noteq> ?i" if x: "x \<in> set (mview b S t)" for x
    proof
      assume e: "m_order_id x = ?i"
      obtain q where q: "q \<in> set (orders_of (S t))" "x = strip (ord b q)" using x by (auto simp: mview_def)
      then have qa: "q \<in> all_orders S" using all_orders_opp [OF t, of S] by simp
      have "m_order_id (ord b q) = ?i" using e q(2) by simp
      then have "q = p" using mk_structD(6) [OF ok qa] mk_structD(6) [OF ok p] by (metis option.inject)
      then have "p \<in> set (orders_of (S (opp ?s)))" using q(1) opp_eq [OF s t] False by blast
      then show False using ps sides_disjoint [OF bk s] by blast
    qed
    ultimately show ?thesis by (simp add: filter_id_conv)
  qed
  moreover have "base_price ?b' = base_price b" using u(3) by (simp add: ord_frame_def)
  ultimately show ?thesis using run m(1,3) by (intro exI [of _ ?b'] exI [of _ S']) simp
qed

lemma mkt_add_ok:
  assumes ok: "mk_struct b S" and ty: "mu_type u = ADD" and up: "update_ok (base_price b) u (mview b S)"
  shows "\<exists>b' S'. apply_update u b = Inr b' \<and> mk_struct b' S' \<and> base_price b' = base_price b \<and> bbo b' = bbo b \<and>
     mkt_ticker_id b' = mkt_ticker_id b \<and> (\<forall>s. trading_side s \<longrightarrow> mview b' S' s = mkt_spec u (mview b S) s)"
proof -
  note bk = mk_structD(1) [OF ok]
  let ?s = "mu_side u" and ?x = "new_market_order u" and ?i = "mu_order_id u"
  have s: "trading_side ?s" and i: "unat ?i < ME_MAX_ORDER_IDS" "?i \<notin> mview_ids (mview b S)"
    and win: "in_window (mu_price u) b" and room0: "mview_size (mview b S) + 1 < ME_MAX_ORDER_IDS"
    and opp: "\<forall>x \<in> set (mview b S (opp ?s)). o_price x \<noteq> mu_price u"
    using up ty by (simp_all add: update_ok_def in_window_def)
  have room: "card (all_orders S) + 1 < ME_MAX_ORDER_IDS" using room0 mk_card_orders [OF bk] by simp
  have "card (live (order_pool b)) + 1 < pool_size (order_pool b)" using room mk_structD(3,4) [OF ok] by simp
  from allocate_ok [OF mk_structD(2) [OF ok] this, of ?x] obtain pl where
    al: "allocate ?x (order_pool b) = Inr (next_free_index (order_pool b), pl)" "pool_ok pl"
      "live pl = insert (next_free_index (order_pool b)) (live (order_pool b))"
      "next_free_index (order_pool b) \<notin> live (order_pool b)" "pool_size pl = pool_size (order_pool b)"
      "pobj pl = (pobj (order_pool b))(next_free_index (order_pool b) := ?x)"
    by blast
  define p where "p = next_free_index (order_pool b)"
  let ?b0 = "b\<lparr>order_pool := pl\<rparr>"
  have p: "p \<notin> all_orders S" using al(4) mk_structD(4) [OF ok] by (simp add: p_def)
  have ord0: "ord ?b0 q = (if q = p then ?x else ord b q)" for q
    using al(6) by (simp add: ord_def p_def)
  have ordS: "ord ?b0 q = ord b q" if "q \<in> all_orders S" for q using that p ord0 by auto
  have bk0: "book_ok ?b0 S" by (rule book_ok_cong [OF bk]) (simp_all add: ordS)
  have v0: "map (\<lambda>q. strip (ord ?b0 q)) (orders_of (S t)) = mview b S t" if t: "trading_side t" for t
  proof -
    have "ord ?b0 q = ord b q" if q: "q \<in> set (orders_of (S t))" for q
      using ordS all_orders_opp [OF t, of S] q by simp
    then show ?thesis by (simp add: mview_def)
  qed
  have xs: "o_side ?x = ?s" "o_price ?x = mu_price u" "m_order_id ?x = ?i" "strip ?x = ?x"
    by (simp_all add: new_market_order_def strip_def)
  have xp: "ord ?b0 p = ?x" using ord0 by simp
  have levels: "card (all_levels S) + 1 < ME_MAX_PRICE_LEVELS" 
    using card_levels_le [OF bk] room by (simp add: ME_MAX_ORDER_IDS_def ME_MAX_PRICE_LEVELS_def)
  have opp0: "o_price (ord ?b0 q) \<noteq> o_price (ord ?b0 p)"
    if t: "trading_side t" "t \<noteq> ?s" and q: "q \<in> set (orders_of (S t))" for t q
  proof -
    have "t = opp ?s" using opp_eq [OF s t(1)] t(2) by simp
    then have "strip (ord b q) \<in> set (mview b S (opp ?s))" using q by (simp add: mview_def)
    then have "o_price (ord b q) \<noteq> mu_price u" using opp by fastforce
    moreover have "q \<in> all_orders S" using all_orders_opp [OF t(1), of S] q by simp
    ultimately show ?thesis using ordS xp xs by simp
  qed
  have win0: "in_window (o_price (ord ?b0 p)) ?b0" using win by (simp add: in_window_def xp xs)
  have s0: "?s = o_side (ord ?b0 p)" using xp xs by simp
  have "\<exists>b1 S'. link_order p ?b0 = Inr b1 \<and> book_ok b1 S' \<and> ord_frame ?b0 b1 \<and> (\<forall>t. t \<noteq> ?s \<longrightarrow> S' t = S t) \<and>
     orders_of (S' ?s) = queue_insert ?s (\<lambda>q. o_price (ord ?b0 q)) p (orders_of (S ?s))"
    by (rule link_order_ok [OF bk0 p s s0 win0 _ levels]) (rule opp0)
  then obtain b1 S' where l: "link_order p ?b0 = Inr b1" "book_ok b1 S'" "ord_frame ?b0 b1" "\<forall>t. t \<noteq> ?s \<longrightarrow> S' t = S t"
      "orders_of (S' ?s) = queue_insert ?s (\<lambda>q. o_price (ord ?b0 q)) p (orders_of (S ?s))"
    by blast
  have ml: "mkt_link_order p ?b0 = Inr b1"
    using mkt_link_order_eq [OF bk0 _ levels, of p] s s0 l(1) by simp
  have st: "strip (ord b1 q) = strip (ord ?b0 q)" for q using l(3) by (simp add: ord_frame_def)
  note ids = mstrip_eq_id [OF st]
  have more: "book.more b1 = book.more ?b0" using l(3) by (simp add: ord_frame_def)
  note m = mkt_more_eq [OF more]
  have oth: "S' (opp ?s) = S (opp ?s)" using l(4) opp_simps(4) [OF s] by blast
  have ap: "all_orders S' = insert p (all_orders S)"
    using l(5) oth all_orders_opp [OF s, of S] all_orders_opp [OF s, of S'] by simp
  let ?b' = "b1\<lparr>oid_to_order := (oid_to_order b)(?i := Some p)\<rparr>"
  have run: "apply_update u b = Inr ?b'"
    using ty al(1) ml ids [of p] i(1) m(2) xs
    by (simp add: apply_update_def mkt_addOrder_def new_market_order_def p_def [symmetric] set_oid_def xp [unfolded new_market_order_def])
  have lv: "live (order_pool ?b') = all_orders S'" "pool_ok (order_pool ?b')" "pool_size (order_pool ?b') = ME_MAX_ORDER_IDS"
    using l(3) al(2,3,5) mk_structD(3,4) [OF ok] ap by (simp_all add: ord_frame_def p_def)
  have io: "oid_to_order b ?i = None" using i(2) mview_ids_map [OF ok] by simp
  have sound: "q \<in> all_orders S' \<and> m_order_id (ord ?b' q) = j" if "oid_to_order ?b' j = Some q" for j q
  proof (cases "j = ?i")
    case True
    then have "q = p" using that by simp
    then show ?thesis using True ap ids [of p] xp xs by simp
  next
    case False
    then have "oid_to_order b j = Some q" using that by simp
    then have "q \<in> all_orders S" "m_order_id (ord b q) = j" using mk_structD(5) [OF ok] by auto
    then show ?thesis using ap ids [of q] ordS by simp
  qed
  have complete: "oid_to_order ?b' (m_order_id (ord ?b' q)) = Some q \<and> unat (m_order_id (ord ?b' q)) < ME_MAX_ORDER_IDS"
    if "q \<in> all_orders S'" for q
  proof (cases "q = p")
    case True
    then show ?thesis using ids [of p] xp xs i(1) by simp
  next
    case False
    then have q: "q \<in> all_orders S" using that ap by simp
    then have "m_order_id (ord b q) \<noteq> ?i" using mk_structD(6) [OF ok q] io by auto
    then show ?thesis using mk_structD(6,7) [OF ok q] ids [of q] ordS [OF q] by simp
  qed
  have "mk_struct ?b' S'" using l(2) lv sound complete by (simp add: mk_struct_def)
  moreover have "mview ?b' S' t = mkt_spec u (mview b S) t" if t: "trading_side t" for t
  proof (cases "t = ?s")
    case True
    have "mview ?b' S' ?s = map (\<lambda>q. strip (ord ?b0 q)) (orders_of (S' ?s))" by (simp add: mview_def st)
    also have "\<dots> = queue_insert ?s o_price (strip (ord ?b0 p)) (map (\<lambda>q. strip (ord ?b0 q)) (orders_of (S ?s)))"
      unfolding l(5) by (rule map_queue_insert) simp
    also have "\<dots> = queue_insert ?s o_price ?x (mview b S ?s)" unfolding v0 [OF s] xp xs(4) ..
    finally show ?thesis using True ty by (simp add: mkt_spec_def)
  next
    case False
    have "S' t = S t" using l(4) False by blast
    then have "mview ?b' S' t = map (\<lambda>q. strip (ord ?b0 q)) (orders_of (S t))" by (simp add: mview_def st)
    then show ?thesis using v0 [OF t] False ty by (simp add: mkt_spec_def)
  qed
  moreover have "base_price ?b' = base_price b" using l(3) by (simp add: ord_frame_def)
  ultimately show ?thesis using run m(1,3) by (intro exI [of _ ?b'] exI [of _ S']) simp
qed

subsection \<open>Modifying and cancelling\<close>

lemma get_oid_ok:
  assumes ok: "mk_struct b S" and i: "i \<in> mview_ids (mview b S)"
  shows "\<exists>p. get_oid i b = Inr (Some p) \<and> p \<in> all_orders S \<and> m_order_id (ord b p) = i"
proof -
  obtain p where p: "p \<in> all_orders S" "m_order_id (ord b p) = i" using i unfolding mview_ids_iff by blast
  then show ?thesis using mk_structD(6,7) [OF ok p(1)] by (auto simp: get_oid_def)
qed

lemma mkt_modify_ok:
  assumes ok: "mk_struct b S" and ty: "mu_type u = MODIFY" and up: "update_ok (base_price b) u (mview b S)"
  shows "\<exists>b'. apply_update u b = Inr b' \<and> mk_struct b' S \<and> base_price b' = base_price b \<and> bbo b' = bbo b \<and>
     mkt_ticker_id b' = mkt_ticker_id b \<and> (\<forall>s. trading_side s \<longrightarrow> mview b' S s = mkt_spec u (mview b S) s)"
proof -
  let ?i = "mu_order_id u"
  have "?i \<in> mview_ids (mview b S)" using up ty by (simp add: update_ok_def)
  from get_oid_ok [OF ok this] obtain p where p: "get_oid ?i b = Inr (Some p)" "p \<in> all_orders S" "m_order_id (ord b p) = ?i"
    by blast
  let ?b' = "upd_ord p (\<lambda>x. x\<lparr>o_qty := mu_qty u\<rparr>) b"
  have "book_ok ?b' S" by (rule book_ok_cong [OF mk_structD(1) [OF ok]]) simp_all
  then have "mk_struct ?b' S" using ok by (simp add: mk_struct_def)
  moreover have "mview ?b' S s = mkt_spec u (mview b S) s" if s: "trading_side s" for s
  proof -
    have e: "strip (ord ?b' q) = (let x = strip (ord b q) in if m_order_id x = ?i then x\<lparr>o_qty := mu_qty u\<rparr> else x)"
      if q: "q \<in> set (orders_of (S s))" for q
    proof (cases "q = p")
      case True
      then show ?thesis using p(3) by (simp add: strip_def)
    next
      case False
      have "q \<in> all_orders S" using all_orders_opp [OF s, of S] q by simp
      then have "m_order_id (ord b q) \<noteq> ?i"
        using False mk_structD(6) [OF ok, of q] mk_structD(6) [OF ok p(2)] p(3) by (metis option.inject)
      then show ?thesis using False by simp
    qed
    then show ?thesis using ty by (simp add: mview_def mkt_spec_def Let_def)
  qed
  ultimately show ?thesis using p(1) ty by (intro exI [of _ ?b']) (simp add: apply_update_def)
qed

lemma mkt_cancel_ok:
  assumes ok: "mk_struct b S" and ty: "mu_type u = CANCEL" and up: "update_ok (base_price b) u (mview b S)"
  shows "\<exists>b' S'. apply_update u b = Inr b' \<and> mk_struct b' S' \<and> base_price b' = base_price b \<and> bbo b' = bbo b \<and>
     mkt_ticker_id b' = mkt_ticker_id b \<and> (\<forall>s. trading_side s \<longrightarrow> mview b' S' s = mkt_spec u (mview b S) s)"
proof -
  have "mu_order_id u \<in> mview_ids (mview b S)" using up ty by (simp add: update_ok_def)
  from get_oid_ok [OF ok this] obtain p where p: "get_oid (mu_order_id u) b = Inr (Some p)" "p \<in> all_orders S"
    "m_order_id (ord b p) = mu_order_id u" by blast
  from mkt_removeOrder_ok [OF ok p(2)] show ?thesis using p ty by (auto simp: apply_update_def mkt_spec_def)
qed

lemma apply_update_ok:
  assumes ok: "mk_struct b S" and up: "update_ok (base_price b) u (mview b S)"
  shows "\<exists>b' S'. apply_update u b = Inr b' \<and> mk_struct b' S' \<and> base_price b' = base_price b \<and> bbo b' = bbo b \<and>
     mkt_ticker_id b' = mkt_ticker_id b \<and> (\<forall>s. trading_side s \<longrightarrow> mview b' S' s = mkt_spec u (mview b S) s)"
proof (cases "mu_type u")
  case ADD
  show ?thesis by (rule mkt_add_ok [OF ok ADD up])
next
  case MODIFY
  from mkt_modify_ok [OF ok MODIFY up] show ?thesis by blast
next
  case CANCEL
  show ?thesis by (rule mkt_cancel_ok [OF ok CANCEL up])
next
  case CLEAR
  then show ?thesis using up by (simp add: update_ok_def)
qed (use ok in \<open>auto simp: apply_update_def mkt_spec_def\<close>)

subsection \<open>The best bid and offer\<close>

lemma qty_loop_ok:
  assumes "order_ring b (xs @ p # ys)" and "length ys \<le> fuel" and "first = hd (xs @ [p])"
  shows "qty_loop fuel first (next_order (ord b p)) acc b = Inr (acc + sum_list (map (\<lambda>q. o_qty (ord b q)) ys))"
  using assms
proof (induction ys arbitrary: xs p fuel acc)
  case Nil
  have "next_order (ord b p) = Some (hd (xs @ [p]))"
    using Nil(1) ring_next [of _ _ xs p "[]"] unfolding order_ring_def by fastforce
  then show ?case using Nil(3) by (subst qty_loop.simps) simp
next
  case (Cons q ys)
  have r: "order_ring b ((xs @ [p]) @ q # ys)" using Cons.prems(1) by simp
  have d: "distinct (xs @ p # q # ys)" using Cons.prems(1) unfolding order_ring_def by (rule ring_distinct)
  have nx: "next_order (ord b p) = Some q"
    using Cons.prems(1) ring_next [of _ _ xs p "q # ys"] unfolding order_ring_def by fastforce
  have ne: "q \<noteq> first" using d Cons.prems(3) by (cases xs) auto
  have h: "first = hd ((xs @ [p]) @ [q])" using Cons.prems(3) by (cases xs) simp_all
  have fuel: "fuel \<noteq> 0" "length ys \<le> fuel - 1" using Cons.prems(2) by auto
  from Cons.IH [OF r fuel(2) h, of "acc + o_qty (ord b q)"] show ?case
    unfolding nx by (subst qty_loop.simps) (use ne fuel(1) in \<open>simp add: add.assoc\<close>)
qed

lemma side_bbo_ok:
  assumes ok: "mk_struct b S" and s: "trading_side s"
  shows "side_bbo (side_head s b) b = Inr (best_of (mview b S s))"
proof (cases "side_head s b")
  case None
  then have "orders_of (S s) = []" using side_first(1) [OF mk_structD(1) [OF ok] s] by simp
  then show ?thesis using None by (simp add: side_bbo_def best_of_def mview_def)
next
  case (Some l)
  note bk = mk_structD(1) [OF ok]
  have ls: "levels_ok b s (map fst (S s))" by (rule book_ok_levels [OF bk s])
  obtain lo sh where S: "S s = lo # sh" using Some levels_ok_head_None [OF ls] by (cases "S s") auto
  obtain os where lo: "lo = (l, os)" using levels_ok_head [OF ls] Some S by (cases lo) auto
  have m: "(l, os) \<in> set (S s)" using S lo by simp
  note lk = book_okD(1) [OF bk s m]
  obtain p ps where os: "os = p # ps" using level_ok_nonempty [OF lk] by (cases os) auto
  have "length os \<le> pool_size (order_pool b)"
    using orders_fitI [OF bk mk_structD(4) [OF ok]] s m by (simp add: orders_fit_def)
  then have q: "qty_loop (pool_size (order_pool b)) p (next_order (ord b p)) (o_qty (ord b p)) b =
      Inr (o_qty (ord b p) + sum_list (map (\<lambda>q. o_qty (ord b q)) ps))"
    using level_ok_ring [OF lk] os by (intro qty_loop_ok [of b "[]"]) simp_all
  have v: "mview b S s = strip (ord b p) # map (\<lambda>q. strip (ord b q)) (ps @ orders_of sh)"
    using S lo os by (simp add: mview_def)
  have px: "o_price (ord b p) = lprice b l" using level_ok_orders [OF lk, of p] os by simp
  have f: "filter (\<lambda>y. o_price y = lprice b l) (mview b S s) = map (\<lambda>q. strip (ord b q)) os"
    using filter_level [OF bk s m] by (simp add: mview_def filter_map comp_def)
  have "best_of (mview b S s) = (lprice b l, sum_list (map o_qty (filter (\<lambda>y. o_price y = lprice b l) (mview b S s))))"
    unfolding v by (simp add: best_of_def px)
  also have "\<dots> = (lprice b l, o_qty (ord b p) + sum_list (map (\<lambda>q. o_qty (ord b q)) ps))"
    unfolding f os by (simp add: comp_def)
  finally show ?thesis using Some level_ok_first [OF lk] os q by (simp add: side_bbo_def)
qed

lemma updateBBO_ok:
  assumes ok: "mk_struct b S"
  shows "updateBBO ub ua b = Inr (b\<lparr>bbo := bbo_spec ub ua (mview b S) (bbo b)\<rparr>)"
proof -
  have bid: "side_bbo (bids_by_price b) b = Inr (best_of (mview b S BUY))"
    using side_bbo_ok [OF ok, of BUY] by (simp add: side_head_def)
  have ok1: "mk_struct (b\<lparr>bbo := x\<rparr>) S" for x using ok by simp
  have ask: "side_bbo (asks_by_price b) (b\<lparr>bbo := x\<rparr>) = Inr (best_of (mview b S SELL))" for x
    using side_bbo_ok [OF ok1, of SELL x] by (simp add: side_head_def)
  have ask0: "side_bbo (asks_by_price b) b = Inr (best_of (mview b S SELL))"
    using side_bbo_ok [OF ok, of SELL] by (simp add: side_head_def)
  show ?thesis
    by (cases ub; cases ua) (simp_all add: updateBBO_def bid ask ask0 bbo_spec_def Let_def split_beta)
qed

subsection \<open>One market update\<close>

lemma touched_eq:
  assumes ok: "mk_struct b S"
  shows "bid_updated u b = bid_touched u (mview b S)" "ask_updated u b = ask_touched u (mview b S)"
proof -
  note bk = mk_structD(1) [OF ok]
  have best: "l_price (lev b l) = o_price (hd (mview b S s)) \<and> mview b S s \<noteq> []"
    if s: "trading_side s" and h: "side_head s b = Some l" for s l
  proof -
    from side_first(2) [OF bk s h] have f: "first_order (lev b l) = Some (hd (orders_of (S s)))" "orders_of (S s) \<noteq> []" by auto
    have "l \<in> set (map fst (S s))" using head_linked [OF book_ok_levels [OF bk s] h] by simp
    then obtain os where m: "(l, os) \<in> set (S s)" by auto
    note lk = book_okD(1) [OF bk s m]
    have "hd os = hd (orders_of (S s))" using level_ok_first [OF lk] f(1) by simp
    moreover have "hd os \<in> set os" using level_ok_nonempty [OF lk] by simp
    ultimately have "o_price (ord b (hd (orders_of (S s)))) = l_price (lev b l)" using level_ok_orders [OF lk] by metis
    then show ?thesis using f(2) by (simp add: mview_def hd_map)
  qed
  have none: "mview b S s = []" if "trading_side s" "side_head s b = None" for s
    using side_first(1) [OF bk that(1)] that(2) by (simp add: mview_def)
  show "bid_updated u b = bid_touched u (mview b S)"
    using best [of BUY] none [of BUY]
    by (cases "bids_by_price b") (auto simp: bid_updated_def bid_touched_def side_head_def)
  show "ask_updated u b = ask_touched u (mview b S)"
    using best [of SELL] none [of SELL]
    by (cases "asks_by_price b") (auto simp: ask_updated_def ask_touched_def side_head_def)
qed

lemma best_of_cong: "V' s = V s \<Longrightarrow> best_of (V' s) = best_of (V s)"
  by simp

lemma onMarketUpdate_ok:
  assumes ok: "mk_struct b S" and up: "update_ok (base_price b) u (mview b S)"
  shows "\<exists>b' S'. onMarketUpdate u b = Inr (if mu_type u = TRADE then OnTradeUpdate u
        else OnOrderBookUpdate (mu_ticker_id u) (mu_price u) (mu_side u), b') \<and> mk_struct b' S' \<and>
     mview b' S' BUY = mkt_spec u (mview b S) BUY \<and> mview b' S' SELL = mkt_spec u (mview b S) SELL \<and>
     bbo b' = (if mu_type u = TRADE then bbo b
       else bbo_spec (bid_touched u (mview b S)) (ask_touched u (mview b S)) (mkt_spec u (mview b S)) (bbo b)) \<and>
     base_price b' = base_price b \<and> mkt_ticker_id b' = mkt_ticker_id b"
proof (cases "mu_type u = TRADE")
  case True
  then show ?thesis using ok by (intro exI [of _ b] exI [of _ S]) (simp add: onMarketUpdate_def Let_def mkt_spec_def)
next
  case False
  from apply_update_ok [OF ok up] obtain b1 S' where b1: "apply_update u b = Inr b1" "mk_struct b1 S'"
    "base_price b1 = base_price b" "bbo b1 = bbo b" "mkt_ticker_id b1 = mkt_ticker_id b"
    "\<And>s. trading_side s \<Longrightarrow> mview b1 S' s = mkt_spec u (mview b S) s"
    by blast
  let ?ub = "bid_touched u (mview b S)" and ?ua = "ask_touched u (mview b S)"
  let ?b' = "b1\<lparr>bbo := bbo_spec ?ub ?ua (mview b1 S') (bbo b1)\<rparr>"
  have v: "mview b1 S' BUY = mkt_spec u (mview b S) BUY" "mview b1 S' SELL = mkt_spec u (mview b S) SELL"
    using b1(6) by simp_all
  have "onMarketUpdate u b = Inr (OnOrderBookUpdate (mu_ticker_id u) (mu_price u) (mu_side u), ?b')"
    using False b1(1) updateBBO_ok [OF b1(2)] touched_eq [OF ok] by (simp add: onMarketUpdate_def Let_def)
  moreover have "bbo ?b' = bbo_spec ?ub ?ua (mkt_spec u (mview b S)) (bbo b)"
    using v b1(4) by (simp add: bbo_spec_def Let_def)
  ultimately show ?thesis using False b1 v by (intro exI [of _ ?b'] exI [of _ S']) simp
qed

text \<open>The empty book.\<close>

lemma mk_struct_new: "mk_struct (mkt_book_new ticker base (\<lambda>_. None) (\<lambda>_. None)) (\<lambda>_. [])"
proof -
  let ?b = "mkt_book_new ticker base (\<lambda>_. None) (\<lambda>_. None)"
  have sh: "side_head s ?b = None" for s by (simp add: side_head_def mkt_book_new_def)
  have "book_ok ?b (\<lambda>_. [])"
    by (rule book_okI)
      (simp_all add: levels_ok_empty sh all_levels_def, simp_all add: mkt_book_new_def ME_MAX_PRICE_LEVELS_def)
  then show ?thesis
    by (simp add: mk_struct_def all_orders_def) (simp add: mkt_book_new_def ME_MAX_ORDER_IDS_def)
qed

end
