(* ===== verification/MarketProps.thy ===== *)
theory MarketProps
  imports MarketBookRefine ExchangeProps
begin

text \<open>
  Properties of the trading client's book: it mirrors the exchange's book when fed the exchange's market
  updates, what its best bid and offer say, and what \<open>CLEAR\<close> leaves behind.
\<close>

definition fresh_market_book :: "TickerId \<Rightarrow> Price \<Rightarrow> market_order_book" where
  "fresh_market_book ticker base = mkt_book_new ticker base (\<lambda>_. None) (\<lambda>_. None)"

lemma mview_empty: "mview b (\<lambda>_. []) = (\<lambda>_. [])"
  by (simp add: mview_def)

lemma fresh_market_book_simps [simp]:
  "mk_struct (fresh_market_book t p) (\<lambda>_. [])" "base_price (fresh_market_book t p) = p" "bbo (fresh_market_book t p) = BBO_default"
  by (simp_all add: fresh_market_book_def mk_struct_new) (simp_all add: mkt_book_new_def)

subsection \<open>Mirroring the exchange\<close>

definition to_market :: "MEOrder \<Rightarrow> MarketOrder" where
  "to_market x = \<lparr>o_side = o_side x, o_price = o_price x, o_qty = o_qty x, o_priority = o_priority x,
     prev_order = None, next_order = None, m_order_id = market_order_id x\<rparr>"

definition mirrors :: "view \<Rightarrow> mkt_view \<Rightarrow> bool" where
  "mirrors A V \<longleftrightarrow> (\<forall>s. trading_side s \<longrightarrow> V s = map to_market (A s))"

text \<open>The client's handler without its notification.\<close>

definition feed :: "MEMarketUpdate \<Rightarrow> market_order_book \<Rightarrow> market_order_book res" where
  "feed u b = bindE (onMarketUpdate u b) (\<lambda>(_, b'). Inr b')"

text \<open>An update that carries the side and the price of the order it is about, as the exchange's do.\<close>

definition consistent :: "MEMarketUpdate \<Rightarrow> mkt_view \<Rightarrow> bool" where
  "consistent u V \<longleftrightarrow> (mu_type u = MODIFY \<or> mu_type u = CANCEL \<longrightarrow>
     (\<exists>x \<in> set (V (mu_side u)). trading_side (mu_side u) \<and> m_order_id x = mu_order_id u \<and> o_price x = mu_price u))"

text \<open>The exchange's updates are consistent, and the ids of its orders only grow.\<close>

definition newest :: "MEMarketUpdate \<Rightarrow> mkt_view \<Rightarrow> bool" where
  "newest u V \<longleftrightarrow> (mu_type u = ADD \<longrightarrow> (\<forall>x \<in> set (V BUY @ V SELL). m_order_id x < mu_order_id u))"

definition truthful :: "MEMarketUpdate \<Rightarrow> mkt_view \<Rightarrow> bool" where
  "truthful u V \<longleftrightarrow> consistent u V \<and> newest u V \<and> mu_type u \<in> {ADD, MODIFY, CANCEL, TRADE}"

fun updates_ok :: "Price \<Rightarrow> MEMarketUpdate list \<Rightarrow> mkt_view \<Rightarrow> bool" where
  "updates_ok base [] V = True"
| "updates_ok base (u # us) V = (update_ok base u V \<and> truthful u V \<and> updates_ok base us (mkt_spec u V))"

lemma updates_ok_append: "updates_ok base (us @ vs) V \<longleftrightarrow> updates_ok base us V \<and> updates_ok base vs (fold mkt_spec us V)"
  by (induction us arbitrary: V) auto

lemma mkt_spec_cong:
  assumes "W BUY = V BUY" "W SELL = V SELL"
  shows "update_ok base u W = update_ok base u V" "truthful u W = truthful u V" "trading_side s \<Longrightarrow> mkt_spec u W s = mkt_spec u V s"
proof -
  have e: "W s = V s" if "trading_side s" for s using assms that by (auto simp: trading_side_def)
  show "update_ok base u W = update_ok base u V"
    using assms e [of "opp (mu_side u)"] by (simp add: update_ok_def mview_ids_def mview_size_def)
  show "truthful u W = truthful u V"
    using assms e [of "mu_side u"] by (auto simp: truthful_def consistent_def newest_def)
  show "trading_side s \<Longrightarrow> mkt_spec u W s = mkt_spec u V s"
    using e by (cases "mu_side u = s") (auto simp: mkt_spec_def)
qed

lemma updates_ok_cong:
  assumes "W BUY = V BUY" "W SELL = V SELL"
  shows "updates_ok base us W = updates_ok base us V \<and>
    fold mkt_spec us W BUY = fold mkt_spec us V BUY \<and> fold mkt_spec us W SELL = fold mkt_spec us V SELL"
  using assms
proof (induction us arbitrary: V W)
  case Nil
  then show ?case by simp
next
  case (Cons u us)
  from Cons.IH [of "mkt_spec u W" "mkt_spec u V"] mkt_spec_cong [OF Cons.prems] show ?case by simp
qed

lemma feed_ok:
  assumes "mk_struct b S" and "updates_ok (base_price b) us (mview b S)"
  shows "\<exists>b' S'. foldE feed us b = Inr b' \<and> mk_struct b' S' \<and> base_price b' = base_price b \<and>
     mview b' S' BUY = fold mkt_spec us (mview b S) BUY \<and> mview b' S' SELL = fold mkt_spec us (mview b S) SELL"
  using assms
proof (induction us arbitrary: b S)
  case Nil
  then show ?case by auto
next
  case (Cons u us)
  from onMarketUpdate_ok [OF Cons.prems(1), of u] Cons.prems(2) obtain ev b1 S1 where b1:
    "onMarketUpdate u b = Inr (ev, b1)" "mk_struct b1 S1" "base_price b1 = base_price b"
    "mview b1 S1 BUY = mkt_spec u (mview b S) BUY" "mview b1 S1 SELL = mkt_spec u (mview b S) SELL"
    by auto
  note cong = updates_ok_cong [OF b1(4,5), of "base_price b" us]
  have "updates_ok (base_price b1) us (mview b1 S1)" using Cons.prems(2) cong b1(3) by simp
  from Cons.IH [OF b1(2) this] show ?case using b1 cong by (auto simp: feed_def)
qed

lemma to_market_simps [simp]:
  "o_side (to_market x) = o_side x" "o_price (to_market x) = o_price x" "o_qty (to_market x) = o_qty x"
  "m_order_id (to_market x) = market_order_id x" "to_market (x\<lparr>o_qty := q\<rparr>) = (to_market x)\<lparr>o_qty := q\<rparr>"
  by (simp_all add: to_market_def)

lemma updates_of_simps [simp]:
  "updates_of [] = []" "updates_of (Response r # evs) = updates_of evs" "updates_of (Update u # evs) = u # updates_of evs"
  "updates_of (evs @ evs') = updates_of evs @ updates_of evs'"
  by (simp_all add: updates_of_def)

lemma updates_of_fill: "updates_of (fill_events t c s i n f l x) =
  [\<lparr>mu_type = TRADE, mu_order_id = OrderId_INVALID, mu_ticker_id = t, mu_side = s, mu_price = o_price x, mu_qty = f,
    mu_priority = Priority_INVALID\<rparr>]"
  by (simp add: fill_events_def)

lemma mkt_spec_trade: "mu_type u = TRADE \<Longrightarrow> mkt_spec u V = V" "mu_type u = TRADE \<Longrightarrow> update_ok base u V"
  "mu_type u = TRADE \<Longrightarrow> truthful u V"
  by (auto simp: mkt_spec_def update_ok_def truthful_def consistent_def newest_def)

lemma truthful_passive: "mu_type u = MODIFY \<or> mu_type u = CANCEL \<Longrightarrow> trading_side (mu_side u) \<Longrightarrow>
    \<exists>x \<in> set (V (mu_side u)). m_order_id x = mu_order_id u \<and> o_price x = mu_price u \<Longrightarrow> truthful u V"
  by (auto simp: truthful_def consistent_def newest_def)

lemma mview_ids_side: "trading_side s \<Longrightarrow> mview_ids V = m_order_id ` (set (V s) \<union> set (V (opp s)))"
  by (auto simp: mview_ids_def trading_side_def)

lemma filter_other_ids: "i \<notin> m_order_id ` set xs \<Longrightarrow> filter (\<lambda>x. m_order_id x \<noteq> i) xs = xs"
  by (auto simp: filter_id_conv)

text \<open>The updates of a match take the client's copy of the passive side to what is left of it.\<close>

lemma match_updates:
  assumes "spec_match ticker client side price coid new_id leaves xs = (leaves', xs', evs)" and "trading_side side"
    and "V (opp side) = map to_market xs" and "distinct (map market_order_id xs)"
    and "market_order_id ` set xs \<inter> m_order_id ` set (V side) = {}" and "\<forall>x \<in> set xs. o_side x = opp side"
  shows "updates_ok base (updates_of evs) V \<and> fold mkt_spec (updates_of evs) V (opp side) = map to_market xs' \<and>
     fold mkt_spec (updates_of evs) V side = V side"
  using assms
proof (induction xs arbitrary: leaves leaves' xs' evs V)
  case Nil
  then show ?case by simp
next
  case (Cons x xs)
  let ?f = "min leaves (o_qty x)"
  let ?x' = "x\<lparr>o_qty := o_qty x - ?f\<rparr>"
  have sx: "trading_side (o_side x)" "to_market x \<in> set (V (o_side x))" using Cons.prems(2,3,6) by simp_all
  have idin: "market_order_id x \<in> mview_ids V"
    using Cons.prems(3) mview_ids_side [OF Cons.prems(2), of V] by simp
  have nin: "market_order_id x \<notin> m_order_id ` set (V side)" using Cons.prems(5) by auto
  have nin2: "market_order_id x \<notin> market_order_id ` set xs" using Cons.prems(4) by simp
  have img: "m_order_id ` set (map to_market xs) = market_order_id ` set xs" by (simp add: image_image)
  show ?case
  proof (cases "leaves = 0 \<or> outside side price (o_price x)")
    case True
    then show ?thesis using Cons.prems by auto
  next
    case nz: False
    show ?thesis
    proof (cases "o_qty x - ?f = 0")
      case True
      obtain l1 x1 e1 where r: "spec_match ticker client side price coid new_id (leaves - ?f) xs = (l1, x1, e1)"
        by (metis prod_cases3)
      let ?u = "\<lparr>mu_type = CANCEL, mu_order_id = market_order_id x, mu_ticker_id = ticker,
            mu_side = o_side x, mu_price = o_price x, mu_qty = o_qty x, mu_priority = Priority_INVALID\<rparr>"
      have e: "xs' = x1" "evs = fill_events ticker client side coid new_id ?f (leaves - ?f) ?x' @ Update ?u # e1"
        using Cons.prems(1) nz True r by (auto simp: Let_def)
      let ?V = "mkt_spec ?u V"
      have v: "?V (opp side) = map to_market xs" "?V side = V side"
        using Cons.prems(3) nin nin2 filter_other_ids [of "market_order_id x" "map to_market xs"] filter_other_ids [OF nin] img
        by (simp_all add: mkt_spec_def)
      have "updates_ok base (updates_of e1) ?V \<and> fold mkt_spec (updates_of e1) ?V (opp side) = map to_market x1 \<and>
          fold mkt_spec (updates_of e1) ?V side = ?V side"
        by (rule Cons.IH [where V = "?V", OF r Cons.prems(2) v(1)]) (use Cons.prems(4,5,6) v(2) in auto)
      moreover have "truthful ?u V" using sx by (intro truthful_passive) force+
      ultimately show ?thesis using e v idin by (simp add: updates_of_fill mkt_spec_trade update_ok_def [of base ?u])
    next
      case False
      let ?u = "\<lparr>mu_type = MODIFY, mu_order_id = market_order_id x, mu_ticker_id = ticker,
            mu_side = o_side x, mu_price = o_price x, mu_qty = o_qty x - ?f, mu_priority = o_priority x\<rparr>"
      have e: "xs' = ?x' # xs" "evs = fill_events ticker client side coid new_id ?f (leaves - ?f) ?x' @ [Update ?u]"
        using Cons.prems(1) nz False by (auto simp: Let_def)
      have keep: "map (\<lambda>y. if m_order_id y = market_order_id x then y\<lparr>o_qty := q\<rparr> else y) ys = ys"
        if "market_order_id x \<notin> m_order_id ` set ys" for ys q
        using that by (intro map_idI) (auto simp: image_iff)
      have "mkt_spec ?u V (opp side) = map to_market xs'" "mkt_spec ?u V side = V side"
        using Cons.prems(3) e(1) keep [OF nin] keep [of "map to_market xs"] nin2 img by (simp_all add: mkt_spec_def)
      moreover have "truthful ?u V" using sx by (intro truthful_passive) force+
      ultimately show ?thesis using e idin by (simp add: updates_of_fill mkt_spec_trade update_ok_def [of base ?u])
    qed
  qed
qed

lemma add_updates:
  assumes ok: "view_ok ticker next_id A" and s: "trading_side side" and n: "0 < next_id" "next_id \<noteq> - 1"
    and r: "spec_add client coid tk side price qty next_id A = (A', evs)" and mir: "mirrors A V"
    and win: "base \<le> price" "price < base + int ME_MAX_PRICE_LEVELS"
    and id: "unat next_id < ME_MAX_ORDER_IDS" and room: "length (A BUY) + length (A SELL) + 1 < ME_MAX_ORDER_IDS"
  shows "updates_ok base (updates_of evs) V \<and> mirrors A' (fold mkt_spec (updates_of evs) V)"
proof -
  let ?nid = "ucast (ucast next_id :: 32 word)"
  have o: "opp side \<noteq> side" using s by simp
  obtain leaves xs' me where m: "spec_match tk client side price coid ?nid qty (A (opp side)) = (leaves, xs', me)"
    by (metis prod_cases3)
  note sa = spec_add_simps [where A = A, OF m]
  have V: "V side = map to_market (A side)" "V (opp side) = map to_market (A (opp side))"
    using mir s by (simp_all add: mirrors_def)
  have d: "distinct (map market_order_id (A (opp side)))" using view_okD(3) [OF ok, of "opp side"] by simp
  have dj: "market_order_id ` set (A (opp side)) \<inter> m_order_id ` set (V side) = {}"
    using view_ok_other [OF ok s] V(1) by (auto simp: image_image)
  have mu: "updates_ok base (updates_of me) V \<and> fold mkt_spec (updates_of me) V (opp side) = map to_market xs' \<and>
      fold mkt_spec (updates_of me) V side = V side"
    by (rule match_updates [OF m s V(2) d dj]) (use view_okD(1) [OF ok, of "opp side"] s in \<open>auto simp: order_ok_def\<close>)
  let ?V1 = "fold mkt_spec (updates_of me) V"
  have mirI: "mirrors B W" if "W side = map to_market (B side)" "W (opp side) = map to_market (B (opp side))" for B W
  proof -
    have "W t = map to_market (B t)" if t: "trading_side t" for t
      using opp_eq [OF s t] \<open>W side = _\<close> \<open>W (opp side) = _\<close> by (cases "t = side") auto
    then show ?thesis by (simp add: mirrors_def)
  qed
  show ?thesis
  proof (cases "leaves = 0")
    case True
    then have "A' = A(opp side := xs')" "updates_of evs = updates_of me" using sa r by simp_all
    then show ?thesis using mu V o by (auto intro!: mirI)
  next
    case False
    let ?A1 = "A(opp side := xs')"
    have ok1: "view_ok ticker next_id ?A1" by (rule view_ok_match [OF ok s m])
    let ?x = "spec_new_order tk client side price coid next_id leaves (A side)"
    let ?u = "\<lparr>mu_type = ADD, mu_order_id = next_id, mu_ticker_id = tk, mu_side = side,
              mu_price = price, mu_qty = leaves, mu_priority = spec_next_priority price (A side)\<rparr>"
    have A': "A' side = queue_insert side o_price ?x (A side)" "A' (opp side) = xs'" "updates_of evs = updates_of me @ [?u]"
      using sa r False o by auto
    have nx: "new_market_order ?u = to_market ?x"
      by (simp add: new_market_order_def to_market_def spec_new_order_def)
    have out: "o_price y \<noteq> price" if y: "y \<in> set xs'" for y
    proof -
      have "outside side price (o_price y)"
        using sorted_outside [OF view_okD(2) [OF ok1, of "opp side"]] spec_match_exhausts [OF m False] s y by simp
      then show ?thesis by (auto simp: outside_def split: if_splits)
    qed
    have older: "\<forall>i \<in> market_order_id ` (set (A side) \<union> set xs'). i < next_id"
    proof -
      have "market_order_id y < next_id" if "y \<in> set (A side) \<union> set xs'" for y
        using that view_okD(1) [OF ok1 s, of y] view_okD(1) [OF ok1, of "opp side" y] o by (auto simp: order_ok_def)
      then show ?thesis by blast
    qed
    then have new: "\<forall>i \<in> mview_ids ?V1. i < next_id" using mu V(1) mview_ids_side [OF s, of ?V1] by (simp add: image_image image_Un)
    then have fresh: "next_id \<notin> mview_ids ?V1" by blast
    have tr: "truthful ?u ?V1" using new by (simp add: truthful_def consistent_def newest_def mview_ids_def)
    have "length xs' \<le> length (A (opp side))" using spec_match_ids(2) [OF m] .
    then have sz: "mview_size ?V1 + 1 < ME_MAX_ORDER_IDS"
      using room mu V s by (auto simp: mview_size_def trading_side_def)
    have up: "update_ok base ?u ?V1"
      using s id fresh win out sz mu by (auto simp: update_ok_def)
    have "mkt_spec ?u ?V1 side = map to_market (A' side)"
    proof -
      have "map to_market (queue_insert side o_price ?x (A side)) = queue_insert side o_price (to_market ?x) (map to_market (A side))"
        by (rule map_queue_insert) simp
      then show ?thesis using mu V A' nx by (simp add: mkt_spec_def)
    qed
    moreover have "mkt_spec ?u ?V1 (opp side) = map to_market (A' (opp side))"
      using mu A' o by (simp add: mkt_spec_def)
    ultimately show ?thesis using mu up tr A' mirI by (simp add: updates_ok_append)
  qed
qed

lemma cancel_updates:
  assumes r: "spec_cancel client oid tk A = (A', evs)" and mir: "mirrors A V"
    and ok: "view_ok ticker next_id A"
    and own: "\<And>x y. x \<in> set (A BUY @ A SELL) \<Longrightarrow> y \<in> set (A BUY @ A SELL) \<Longrightarrow> owned_by client oid x \<Longrightarrow>
       owned_by client oid y = (market_order_id y = market_order_id x)"
  shows "updates_ok base (updates_of evs) V \<and> mirrors A' (fold mkt_spec (updates_of evs) V)"
proof (cases "find (owned_by client oid) (A BUY @ A SELL)")
  case None
  then have "A' = A \<and> evs = [cancel_rejected client oid tk]" using r by (simp add: spec_cancel_def)
  then have "A' = A" "updates_of evs = []" by (simp_all add: cancel_rejected_def)
  then show ?thesis using mir by simp
next
  case (Some x)
  have x: "x \<in> set (A BUY @ A SELL)" "owned_by client oid x" using find_SomeD [OF Some] by simp_all
  have e: "A' = A(o_side x := filter (\<lambda>y. \<not> owned_by client oid y) (A (o_side x)))"
    "updates_of evs = [\<lparr>mu_type = CANCEL, mu_order_id = market_order_id x, mu_ticker_id = tk, mu_side = o_side x,
        mu_price = o_price x, mu_qty = 0, mu_priority = o_priority x\<rparr>]" (is "_ = [?u]")
    using Some r by (auto simp: spec_cancel_def cancel_events_def)
  have V: "V BUY = map to_market (A BUY)" "V SELL = map to_market (A SELL)" using mir by (simp_all add: mirrors_def)
  have sx: "trading_side (o_side x)" "x \<in> set (A (o_side x))"
    using x view_okD(1) [OF ok, of BUY x] view_okD(1) [OF ok, of SELL x] by (auto simp: order_ok_def)
  have "truthful ?u V" using sx mir by (intro truthful_passive) (force simp: mirrors_def)+
  moreover have "update_ok base ?u V" using x V by (auto simp: update_ok_def mview_ids_def image_image image_Un)
  moreover have "mkt_spec ?u V t = map to_market (A' t)" if t: "trading_side t" for t
  proof -
    have sub: "set (A t) \<subseteq> set (A BUY @ A SELL)" using t by (auto simp: trading_side_def)
    have f: "filter (\<lambda>y. m_order_id y \<noteq> market_order_id x) (map to_market (A t)) =
        map to_market (filter (\<lambda>y. \<not> owned_by client oid y) (A t))"
    proof -
      have "filter (\<lambda>y. market_order_id y \<noteq> market_order_id x) (A t) = filter (\<lambda>y. \<not> owned_by client oid y) (A t)"
        using own [OF x(1) _ x(2)] sub by (intro filter_cong) auto
      then show ?thesis by (simp add: filter_map comp_def)
    qed
    have Vt: "V t = map to_market (A t)" using mir t by (simp add: mirrors_def)
    show ?thesis
    proof (cases "t = o_side x")
      case True
      then show ?thesis using f Vt e(1) by (simp add: mkt_spec_def)
    next
      case False
      have "filter (\<lambda>y. \<not> owned_by client oid y) (A t) = A t"
      proof -
        have "\<not> owned_by client oid y" if y: "y \<in> set (A t)" for y
        proof
          assume "owned_by client oid y"
          then have "market_order_id y = market_order_id x" using own [OF x(1) _ x(2), of y] sub y by auto
          moreover have "t = opp (o_side x)" using opp_eq [OF sx(1) t] False by simp
          ultimately show False using view_ok_other [OF ok sx(1)] sx(2) y by (auto simp: disjoint_iff)
        qed
        then show ?thesis by (simp add: filter_id_conv)
      qed
      then show ?thesis using f Vt e(1) False by (simp add: mkt_spec_def)
    qed
  qed
  ultimately show ?thesis using e(2) by (simp add: mirrors_def)
qed

lemma owner_unique:
  assumes inv: "me_inv b S" and cc: "cid_complete b S"
    and x: "x \<in> set (view b S BUY @ view b S SELL)" and y: "y \<in> set (view b S BUY @ view b S SELL)" and own: "owned_by c i x"
  shows "owned_by c i y = (market_order_id y = market_order_id x)"
proof -
  have ptr: "\<exists>p. z = strip (ord b p) \<and> cid_oid_to_order b (client_id z) (client_order_id z) = Some p"
    if z: "z \<in> set (view b S BUY @ view b S SELL)" for z
  proof -
    from z obtain s p where "trading_side s" "p \<in> set (orders_of (S s))" "z = strip (ord b p)"
      by (auto simp: view_def trading_side_cases)
    then have "p \<in> all_orders S" by (auto simp: all_orders_def in_orders_of)
    then have "cid_oid_to_order b (client_id z) (client_order_id z) = Some p" using cc \<open>z = _\<close> by (simp add: cid_complete_def)
    then show ?thesis using \<open>z = _\<close> by blast
  qed
  have same: "x = y" if "owned_by c i y"
  proof -
    obtain p q where pq: "x = strip (ord b p)" "y = strip (ord b q)" "cid_oid_to_order b (client_id x) (client_order_id x) = Some p"
      "cid_oid_to_order b (client_id y) (client_order_id y) = Some q"
      using ptr [OF x] ptr [OF y] by blast
    have "client_id x = client_id y" "client_order_id x = client_order_id y"
      using own \<open>owned_by c i y\<close> by (simp_all add: owned_by_def)
    then have "p = q" using pq(3,4) by simp
    then show ?thesis using pq(1,2) by blast
  qed
  have ok: "view_ok (book_ticker_id b) (next_market_order_id b) (view b S)" using inv by (simp add: me_inv_def)
  have inj: "x = y" if m: "market_order_id y = market_order_id x"
  proof -
    have "distinct (map market_order_id (view b S BUY @ view b S SELL))"
      using view_okD(3) [OF ok, of BUY] view_okD(3) [OF ok, of SELL] view_ok_other [OF ok, of BUY] by simp
    then have "inj_on market_order_id (set (view b S BUY @ view b S SELL))" by (simp only: distinct_map)
    then show ?thesis using m x y by (metis inj_onD)
  qed
  show ?thesis using same inj own by blast
qed

lemma request_updates:
  assumes inv: "me_inv b S" and cc: "cid_complete b S" and r: "request_ok (book_ticker_id b) (base_price b) r"
    and room: "resting_orders b S + 1 < ME_MAX_ORDER_IDS" and n: "unat (next_market_order_id b) < ME_MAX_ORDER_IDS"
    and spec: "spec_request r (next_market_order_id b, view b S) = ((n', A'), evs)" and mir: "mirrors (view b S) V"
  shows "updates_ok (base_price b) (updates_of evs) V \<and> mirrors A' (fold mkt_spec (updates_of evs) V)"
proof (cases "rq_type r = NEW")
  case True
  have ok: "view_ok (book_ticker_id b) (next_market_order_id b) (view b S)" "0 < next_market_order_id b"
    using inv by (simp_all add: me_inv_def)
  have n1: "next_market_order_id b \<noteq> - 1"
  proof
    assume "next_market_order_id b = - 1"
    then show False using n by (simp add: ME_MAX_ORDER_IDS_def unsigned_minus_1_eq_mask mask_eq_exp_minus_1)
  qed
  obtain B e where sp: "spec_add (rq_client_id r) (rq_order_id r) (rq_ticker_id r) (rq_side r) (rq_price r) (rq_qty r)
      (next_market_order_id b) (view b S) = (B, e)" by (metis prod.exhaust)
  then have "A' = B" "evs = e" using spec True by (auto simp: spec_request_def)
  then show ?thesis
    using add_updates [OF ok(1) _ ok(2) n1 sp mir _ _ n] r True room
    by (auto simp: request_ok_def resting_orders_def)
next
  case False
  obtain B e where sp: "spec_cancel (rq_client_id r) (rq_order_id r) (rq_ticker_id r) (view b S) = (B, e)" by (metis prod.exhaust)
  have "A' = B" "evs = e" using spec False sp by (auto simp: spec_request_def)
  moreover have ok: "view_ok (book_ticker_id b) (next_market_order_id b) (view b S)" using inv by (simp add: me_inv_def)
  ultimately show ?thesis using cancel_updates [OF sp mir ok owner_unique [OF inv cc]] by blast
qed

lemma mirrors_cong: "B BUY = A BUY \<Longrightarrow> B SELL = A SELL \<Longrightarrow> mirrors B V = mirrors A V"
  by (auto simp: mirrors_def trading_side_cases)

lemma run_updates:
  assumes "me_inv b S" and "cid_complete b S"
    and "\<forall>r \<in> set rs. request_ok (book_ticker_id b) (base_price b) r"
    and "resting_orders b S + length rs < ME_MAX_ORDER_IDS"
    and "unat (next_market_order_id b) + length rs \<le> ME_MAX_ORDER_IDS"
    and "distinct (new_ids rs)" and "set (new_ids rs) \<inter> order_ids (view b S) = {}"
    and "spec_run rs (next_market_order_id b, view b S) = ((n', A'), evs)" and "mirrors (view b S) V"
  shows "updates_ok (base_price b) (updates_of evs) V \<and> mirrors A' (fold mkt_spec (updates_of evs) V)"
  using assms
proof (induction rs arbitrary: b S n' A' evs V)
  case Nil
  then show ?case by (simp add: mirrors_def)
next
  case (Cons r rs)
  obtain n1 A1 e1 where a: "spec_request r (next_market_order_id b, view b S) = ((n1, A1), e1)" by (metis prod.exhaust)
  obtain n2 A2 e2 where c: "spec_run rs (n1, A1) = ((n2, A2), e2)" by (metis prod.exhaust)
  have e: "A' = A2" "evs = e1 @ e2" using Cons.prems(8) a c by auto
  have nn: "unat (next_market_order_id b) < ME_MAX_ORDER_IDS" using Cons.prems(5) by simp
  then have n1: "next_market_order_id b \<noteq> - 1"
    by (auto simp: ME_MAX_ORDER_IDS_def unsigned_minus_1_eq_mask mask_eq_exp_minus_1)
  have rok: "request_ok (book_ticker_id b) (base_price b) r" using Cons.prems(3) by simp
  have rm: "resting_orders b S + 1 < ME_MAX_ORDER_IDS" using Cons.prems(4) by simp
  have fr: "rq_type r = NEW \<longrightarrow> (rq_client_id r, rq_order_id r) \<notin> order_ids (view b S)"
    using Cons.prems(7) by (auto simp: new_ids_def)
  from book_request_ok [OF Cons.prems(1,2) rok rm n1 fr a] obtain b1 S1 where b1:
    "me_inv b1 S1" "cid_complete b1 S1" "next_market_order_id b1 = n1"
    "view b1 S1 BUY = A1 BUY" "view b1 S1 SELL = A1 SELL"
    "book_ticker_id b1 = book_ticker_id b" "base_price b1 = base_price b"
    "resting_orders b1 S1 \<le> resting_orders b S + 1"
    "order_ids (view b1 S1) \<subseteq> order_ids (view b S) \<union> set (new_ids [r])"
    by blast
  have tr: "\<forall>r \<in> set rs. rq_type r = NEW \<longrightarrow> trading_side (rq_side r)"
    using Cons.prems(3) by (auto simp: request_ok_def)
  from spec_run_cong [OF b1(4,5) tr c] obtain B' where B': "spec_run rs (n1, view b1 S1) = ((n2, B'), e2)"
    "B' BUY = A2 BUY" "B' SELL = A2 SELL" by blast
  have ra: "updates_ok (base_price b) (updates_of e1) V" "mirrors A1 (fold mkt_spec (updates_of e1) V)"
    using request_updates [OF Cons.prems(1,2) rok rm nn a Cons.prems(9)] by simp_all
  have n1': "unat n1 \<le> unat (next_market_order_id b) + 1"
  proof -
    have "n1 = next_market_order_id b + 1 \<or> n1 = next_market_order_id b"
      using a by (auto simp: spec_request_def split: prod.splits if_splits)
    then show ?thesis using unat_plus_one [of "next_market_order_id b" "next_market_order_id b + 1"]
      word_less_plus_one [OF n1] by auto
  qed
  have "set (new_ids rs) \<inter> set (new_ids [r]) = {}" using Cons.prems(6) by (auto simp: new_ids_def split: if_splits)
  moreover have "set (new_ids rs) \<subseteq> set (new_ids (r # rs))" by (auto simp: new_ids_def)
  ultimately have "set (new_ids rs) \<inter> order_ids (view b1 S1) = {}" using Cons.prems(7) b1(9) by blast
  moreover have "distinct (new_ids rs)" using Cons.prems(6) by (auto simp: new_ids_def split: if_splits)
  ultimately have dj: "distinct (new_ids rs)" "set (new_ids rs) \<inter> order_ids (view b1 S1) = {}" by simp_all
  have m1: "mirrors (view b1 S1) (fold mkt_spec (updates_of e1) V)"
    using mirrors_cong [OF b1(4,5)] ra(2) by simp
  from Cons.IH [of b1 S1 n2 B' e2, OF b1(1,2) _ _ _ dj _ m1] Cons.prems(3-5) b1 B'(1) n1'
  have "updates_ok (base_price b) (updates_of e2) (fold mkt_spec (updates_of e1) V) \<and>
      mirrors B' (fold mkt_spec (updates_of e2) (fold mkt_spec (updates_of e1) V))" by simp
  then show ?case using e ra(1) mirrors_cong [OF B'(2,3)] by (simp add: updates_ok_append)
qed

text \<open>The updates a book publishes carry its instrument.\<close>

lemma spec_match_tickers:
  "spec_match ticker client side price coid new_id leaves xs = (leaves', xs', evs) \<Longrightarrow> \<forall>u \<in> set (updates_of evs). mu_ticker_id u = ticker"
proof (induction xs arbitrary: leaves leaves' xs' evs)
  case Nil
  then show ?case by simp
next
  case (Cons x xs)
  then show ?case by (fastforce simp: Let_def updates_of_fill split: if_splits prod.splits)
qed

lemma spec_add_tickers: "spec_add client coid tk side price qty n A = (A', evs) \<Longrightarrow> \<forall>u \<in> set (updates_of evs). mu_ticker_id u = tk"
  using spec_match_tickers by (fastforce simp: spec_add_def Let_def split: if_splits prod.splits)

lemma spec_run_tickers:
  assumes "\<forall>r \<in> set rs. rq_ticker_id r = tk" and "spec_run rs x = (y, evs)"
  shows "\<forall>u \<in> set (updates_of evs). mu_ticker_id u = tk"
  using assms
proof (induction rs arbitrary: x y evs)
  case Nil
  then show ?case by simp
next
  case (Cons r rs)
  obtain z e1 where a: "spec_request r x = (z, e1)" by (metis prod.exhaust)
  obtain w e2 where c: "spec_run rs z = (w, e2)" by (metis prod.exhaust)
  have "\<forall>u \<in> set (updates_of e1). mu_ticker_id u = tk"
    using a Cons.prems(1) spec_add_tickers
    by (cases x) (fastforce simp: spec_request_def spec_cancel_def cancel_rejected_def cancel_events_def split: if_splits prod.splits option.splits)
  moreover have "evs = e1 @ e2" using Cons.prems(2) a c by auto
  ultimately show ?case using Cons.IH [OF _ c] Cons.prems(1) by auto
qed

text \<open>What a whole session publishes.\<close>

lemma session_updates:
  assumes rs: "\<forall>r \<in> set rs. request_ok ticker base r" "length rs < ME_MAX_ORDER_IDS" "distinct (new_ids rs)"
    and run: "foldE book_request rs (fresh_book ticker base) = Inr b"
  shows "updates_ok base (updates_of (outbox b)) (\<lambda>_. [])" "\<forall>u \<in> set (updates_of (outbox b)). mu_ticker_id u = ticker"
    "\<exists>S. me_inv b S \<and> (\<forall>s. trading_side s \<longrightarrow> fold mkt_spec (updates_of (outbox b)) (\<lambda>_. []) s = map to_market (view b S s))"
proof -
  let ?f = "fresh_book ticker base"
  obtain n A evs where r: "spec_run rs (1, \<lambda>_. []) = ((n, A), evs)" by (metis prod.exhaust)
  have n1: "unat (1 :: 64 word) + length rs < 2 ^ 64" "unat (1 :: 64 word) + length rs \<le> ME_MAX_ORDER_IDS"
    using assms(2) by (simp_all add: ME_MAX_ORDER_IDS_def)
  obtain S where b: "me_inv b S" "view b S BUY = A BUY" "view b S SELL = A SELL" "outbox b = evs"
    using book_run_ok [of ?f "\<lambda>_. []" rs n A evs] assms r n1 by (auto simp: view_empty order_ids_def)
  have u: "updates_ok base (updates_of evs) (\<lambda>_. []) \<and> mirrors A (fold mkt_spec (updates_of evs) (\<lambda>_. []))"
    using run_updates [of ?f "\<lambda>_. []" rs n A evs "\<lambda>_. []"] assms r n1 by (simp add: view_empty order_ids_def mirrors_def)
  then show "updates_ok base (updates_of (outbox b)) (\<lambda>_. [])" using b(4) by simp
  show "\<forall>u \<in> set (updates_of (outbox b)). mu_ticker_id u = ticker"
    using spec_run_tickers [OF _ r] rs(1) b(4) by (simp add: request_ok_def)
  show "\<exists>S. me_inv b S \<and> (\<forall>s. trading_side s \<longrightarrow> fold mkt_spec (updates_of (outbox b)) (\<lambda>_. []) s = map to_market (view b S s))"
    using b u by (intro exI [of _ S]) (auto simp: mirrors_def trading_side_def)
qed

text \<open>
  C4. The client's book mirrors the exchange's: run any well-formed sequence of requests on the exchange's
  book of an instrument and hand every market update it publishes, in order, to the trading client's
  empty book of the same instrument. No update stops the client, and in the end both of its sides hold
  exactly the exchange's resting orders, with the same ids, prices, quantities and priorities, in the
  same order.
\<close>

theorem market_book_mirrors:
  assumes "\<forall>r \<in> set rs. request_ok ticker base r" and "length rs < ME_MAX_ORDER_IDS" and "distinct (new_ids rs)"
  shows "\<exists>b S m T. foldE book_request rs (fresh_book ticker base) = Inr b \<and> me_inv b S \<and>
     foldE feed (updates_of (outbox b)) (fresh_market_book ticker base) = Inr m \<and> mk_struct m T \<and>
     mview m T BUY = map to_market (view b S BUY) \<and> mview m T SELL = map to_market (view b S SELL)"
proof -
  let ?f = "fresh_book ticker base" and ?m = "fresh_market_book ticker base"
  obtain n A evs where r: "spec_run rs (1, \<lambda>_. []) = ((n, A), evs)" by (metis prod.exhaust)
  have n1: "unat (1 :: 64 word) + length rs < 2 ^ 64" "unat (1 :: 64 word) + length rs \<le> ME_MAX_ORDER_IDS"
    using assms(2) by (simp_all add: ME_MAX_ORDER_IDS_def)
  obtain b where b: "foldE book_request rs ?f = Inr b"
    using book_run_ok [of ?f "\<lambda>_. []" rs n A evs] assms r n1 by (auto simp: view_empty order_ids_def)
  note u = session_updates [OF assms b]
  obtain S where S: "me_inv b S" "\<And>s. trading_side s \<Longrightarrow> fold mkt_spec (updates_of (outbox b)) (\<lambda>_. []) s = map to_market (view b S s)"
    using u(3) by blast
  obtain m T where "foldE feed (updates_of (outbox b)) ?m = Inr m" "mk_struct m T"
    "mview m T BUY = fold mkt_spec (updates_of (outbox b)) (\<lambda>_. []) BUY" "mview m T SELL = fold mkt_spec (updates_of (outbox b)) (\<lambda>_. []) SELL"
    using feed_ok [of ?m "\<lambda>_. []" "updates_of (outbox b)"] u(1) by (auto simp: mview_empty)
  then show ?thesis using b S by (intro exI [of _ b] exI [of _ S] exI [of _ m] exI [of _ T]) simp
qed

theorem market_book_mirrors_witness:
  "\<exists>b m. foldE book_request demo_requests (fresh_book 0 0) = Inr b \<and>
     foldE feed (updates_of (outbox b)) (fresh_market_book 0 0) = Inr m"
  using market_book_mirrors [OF demo_requests_ok] by blast

lemma demo_session: "\<exists>b. foldE book_request demo_requests (fresh_book 0 0) = Inr b \<and> length (updates_of (outbox b)) = 4"
proof -
  let ?r = "spec_run demo_requests (1, \<lambda>_. [])"
  have e: "length (updates_of (snd ?r)) = 4"
    by (simp add: demo_requests_def spec_request_def spec_add_def spec_cancel_def Let_def outside_def queue_insert_def
        spec_new_order_def fill_events_def cancel_events_def owned_by_def)
  obtain n A evs where r: "?r = ((n, A), evs)" by (metis prod.exhaust)
  have "unat (1 :: 64 word) + length demo_requests < 2 ^ 64" using demo_requests_ok(2) by (simp add: ME_MAX_ORDER_IDS_def)
  then have "\<exists>b. foldE book_request demo_requests (fresh_book 0 0) = Inr b \<and> outbox b = evs"
    using book_run_ok [of "fresh_book 0 0" "\<lambda>_. []" demo_requests n A evs] demo_requests_ok r by (auto simp: view_empty order_ids_def)
  then show ?thesis using e r by auto
qed

end
