(* ===== verification/MarketClear.thy ===== *)
theory MarketClear
  imports MarketProps
begin

text \<open>
  The \<open>CLEAR\<close> update of the trading client's book: what it frees, what it forgets to reset, and what an
  order added afterwards at a price the old book had meets.
\<close>

lemma mk_order_pool:
  assumes "mk_struct b S"
  shows "pool_ok (order_pool b)" "live (order_pool b) = all_orders S" "pool_size (order_pool b) = ME_MAX_ORDER_IDS"
    "oid_to_order b i = Some p \<Longrightarrow> p \<in> all_orders S \<and> m_order_id (ord b p) = i"
    "p \<in> all_orders S \<Longrightarrow> oid_to_order b (m_order_id (ord b p)) = Some p \<and> unat (m_order_id (ord b p)) < ME_MAX_ORDER_IDS"
  using assms by (simp_all add: mk_struct_def)

lemma clear_orders_upto:
  assumes ok: "mk_struct b S" and n: "n \<le> ME_MAX_ORDER_IDS"
  shows "\<exists>pool. foldE (\<lambda>i b. case oid_to_order b (word_of_nat i) of None \<Rightarrow> Inr b
       | Some p \<Rightarrow> bindE (deallocate p (order_pool b)) (\<lambda>pool. Inr (b\<lparr>order_pool := pool\<rparr>))) [0..<n] b =
         Inr (b\<lparr>order_pool := pool\<rparr>) \<and>
       pool_ok pool \<and> pool_size pool = ME_MAX_ORDER_IDS \<and> pobj pool = pobj (order_pool b) \<and>
       live pool = {p \<in> all_orders S. n \<le> unat (m_order_id (ord b p))}"
  using n
proof (induction n)
  case 0
  then show ?case using mk_order_pool(1-3) [OF ok] by (intro exI [of _ "order_pool b"]) simp
next
  case (Suc n)
  let ?w = "word_of_nat n :: OrderId"
  have w: "unat ?w = n" using Suc.prems by (simp add: unsigned_of_nat take_bit_nat_eq_self ME_MAX_ORDER_IDS_def)
  from Suc obtain pool where p: "foldE (\<lambda>i b. case oid_to_order b (word_of_nat i) of None \<Rightarrow> Inr b
       | Some p \<Rightarrow> bindE (deallocate p (order_pool b)) (\<lambda>pool. Inr (b\<lparr>order_pool := pool\<rparr>))) [0..<n] b =
         Inr (b\<lparr>order_pool := pool\<rparr>)" "pool_ok pool" "pool_size pool = ME_MAX_ORDER_IDS" "pobj pool = pobj (order_pool b)"
     "live pool = {p \<in> all_orders S. n \<le> unat (m_order_id (ord b p))}" by auto
  show ?case
  proof (cases "oid_to_order b ?w")
    case None
    have "unat (m_order_id (ord b q)) \<noteq> n" if "q \<in> all_orders S" for q
      using mk_order_pool(5) [OF ok that] None w word_unat_eq_iff [of "m_order_id (ord b q)" ?w] by auto
    then have "live pool = {p \<in> all_orders S. Suc n \<le> unat (m_order_id (ord b p))}"
      using p(5) by (auto simp: Suc_le_eq le_less)
    then show ?thesis using p None by (intro exI [of _ pool]) (simp add: foldE_append)
  next
    case (Some q)
    note q = mk_order_pool(4) [OF ok Some]
    have "q \<in> live pool" using q w p(5) by simp
    from deallocate_ok [OF p(2) this] obtain pool' where p': "deallocate q pool = Inr pool'" "pool_ok pool'"
      "live pool' = live pool - {q}" "pool_size pool' = pool_size pool" "pobj pool' = pobj pool" by blast
    have "unat (m_order_id (ord b x)) = n \<longleftrightarrow> x = q" if "x \<in> all_orders S" for x
    proof
      assume "unat (m_order_id (ord b x)) = n"
      then have "m_order_id (ord b x) = ?w" using w by (simp add: word_unat_eq_iff)
      then show "x = q" using mk_order_pool(5) [OF ok that] Some by simp
    qed (use q w in simp)
    then have "live pool' = {p \<in> all_orders S. Suc n \<le> unat (m_order_id (ord b p))}"
      unfolding p'(3) p(5) by (fastforce simp: Suc_le_eq le_less)
    then show ?thesis using p p' Some by (intro exI [of _ pool']) (simp add: foldE_append)
  qed
qed

lemma clear_orders_ok:
  assumes ok: "mk_struct b S"
  shows "\<exists>pool. clear_orders b = Inr (b\<lparr>order_pool := pool\<rparr>) \<and> pool_ok pool \<and> pool_size pool = ME_MAX_ORDER_IDS \<and>
     pobj pool = pobj (order_pool b) \<and> live pool = {}"
proof -
  have "{p \<in> all_orders S. ME_MAX_ORDER_IDS \<le> unat (m_order_id (ord b p))} = {}"
    using mk_order_pool(5) [OF ok] by (auto simp: not_le [symmetric])
  with clear_orders_upto [OF ok order_refl] show ?thesis by (simp add: clear_orders_def)
qed

lemma clear_levels_ok:
  assumes "level_ring b (h # xs @ ys)" and "length ys \<le> fuel" and "pool_ok (orders_at_price_pool b)"
    and "set ys \<subseteq> live (orders_at_price_pool b)"
  shows "\<exists>q. clear_levels fuel h (Some (hd (ys @ [h]))) b = Inr (b\<lparr>orders_at_price_pool := q\<rparr>) \<and> pool_ok q \<and>
     pool_size q = pool_size (orders_at_price_pool b) \<and> pobj q = pobj (orders_at_price_pool b) \<and>
     live q = live (orders_at_price_pool b) - set ys"
  using assms
proof (induction ys arbitrary: xs fuel b)
  case Nil
  then show ?case by (intro exI [of _ "orders_at_price_pool b"]) (simp add: clear_levels.simps)
next
  case (Cons y ys)
  have d: "distinct (h # xs @ y # ys)" using Cons.prems(1) unfolding level_ring_def by (rule ring_distinct)
  have nx: "next_entry (lev b y) = Some (hd (ys @ [h]))"
    using ring_next [of _ _ "h # xs" y ys] Cons.prems(1) unfolding level_ring_def by (cases ys) auto
  from deallocate_ok [OF Cons.prems(3), of y] Cons.prems(4) obtain q where q:
    "deallocate y (orders_at_price_pool b) = Inr q" "pool_ok q" "live q = live (orders_at_price_pool b) - {y}"
    "pool_size q = pool_size (orders_at_price_pool b)" "pobj q = pobj (orders_at_price_pool b)" by auto
  let ?b = "b\<lparr>orders_at_price_pool := q\<rparr>"
  have lv: "lev ?b = lev b" using q(5) by (simp add: lev_def fun_eq_iff)
  have r: "level_ring ?b (h # (xs @ [y]) @ ys)" using Cons.prems(1) lv by (simp add: level_ring_def)
  have sub: "set ys \<subseteq> live (orders_at_price_pool ?b)" using Cons.prems(4) q(3) d by auto
  have len: "length ys \<le> fuel - 1" and f: "fuel \<noteq> 0" using Cons.prems(2) by simp_all
  have pok: "pool_ok (orders_at_price_pool ?b)" using q(2) by simp
  from Cons.IH [OF r len pok sub] obtain q' where q': "clear_levels (fuel - 1) h (Some (hd (ys @ [h]))) ?b =
      Inr (?b\<lparr>orders_at_price_pool := q'\<rparr>)" "pool_ok q'" "pool_size q' = pool_size q" "pobj q' = pobj q" "live q' = live q - set ys"
    by auto
  have "clear_levels fuel h (Some (hd ((y # ys) @ [h]))) b = clear_levels (fuel - 1) h (next_entry (lev ?b y)) ?b"
    using d f q(1) by (simp add: clear_levels.simps [of fuel] Let_def)
  then show ?case using q q' nx lv by (intro exI [of _ q']) auto
qed

lemma clear_side_ok:
  assumes lv: "levels_ok b s ls" and pk: "pool_ok (orders_at_price_pool b)" and sub: "set ls \<subseteq> live (orders_at_price_pool b)"
  shows "\<exists>q. clear_side (side_head s b) b = Inr (b\<lparr>orders_at_price_pool := q\<rparr>) \<and> pool_ok q \<and>
     pool_size q = pool_size (orders_at_price_pool b) \<and> pobj q = pobj (orders_at_price_pool b) \<and>
     live q = live (orders_at_price_pool b) - set ls"
proof (cases ls)
  case Nil
  then show ?thesis using lv pk by (intro exI [of _ "orders_at_price_pool b"]) (simp add: clear_side_def levels_ok_def)
next
  case (Cons h ys)
  have h: "side_head s b = Some h" and r: "level_ring b (h # ys)" using lv Cons by (simp_all add: levels_ok_def)
  have nx: "next_entry (lev b h) = Some (hd (ys @ [h]))"
    using ring_next [of _ _ "[]" h ys] r unfolding level_ring_def by auto
  have "length (h # ys) = card (set ls)" using r Cons unfolding level_ring_def by (auto dest!: ring_distinct simp: distinct_card)
  also have "\<dots> \<le> card (live (orders_at_price_pool b))" by (rule card_mono [OF finite_live sub])
  also have "\<dots> \<le> pool_size (orders_at_price_pool b)" by (rule card_live)
  finally have len: "length ys \<le> pool_size (orders_at_price_pool b)" by simp
  from clear_levels_ok [of b h "[]" ys, OF _ len pk] r sub Cons obtain q where q:
    "clear_levels (pool_size (orders_at_price_pool b)) h (Some (hd (ys @ [h]))) b = Inr (b\<lparr>orders_at_price_pool := q\<rparr>)" "pool_ok q"
    "pool_size q = pool_size (orders_at_price_pool b)" "pobj q = pobj (orders_at_price_pool b)"
    "live q = live (orders_at_price_pool b) - set ys" by auto
  have "distinct (h # ys)" using r unfolding level_ring_def by (rule ring_distinct)
  then have "h \<in> live q" using sub Cons q(5) by auto
  from deallocate_ok [OF q(2) this] obtain q' where "deallocate h q = Inr q'" "pool_ok q'" "live q' = live q - {h}"
    "pool_size q' = pool_size q" "pobj q' = pobj q" by blast
  then show ?thesis using q nx h Cons by (intro exI [of _ q']) (auto simp: clear_side_def)
qed

lemma clear_book_ok:
  assumes ok: "mk_struct b S"
  shows "\<exists>op lp. clear_book b = Inr (b\<lparr>order_pool := op, oid_to_order := (\<lambda>_. None), orders_at_price_pool := lp,
       bids_by_price := None, asks_by_price := None\<rparr>) \<and>
     pool_ok op \<and> pool_size op = ME_MAX_ORDER_IDS \<and> live op = {} \<and> pobj op = pobj (order_pool b) \<and>
     pool_ok lp \<and> pool_size lp = ME_MAX_PRICE_LEVELS \<and> live lp = {} \<and> pobj lp = pobj (orders_at_price_pool b)"
proof -
  have bk: "book_ok b S" using ok by (simp add: mk_struct_def)
  note pl = book_ok_pool [OF bk]
  from clear_orders_ok [OF ok] obtain op where op: "clear_orders b = Inr (b\<lparr>order_pool := op\<rparr>)" "pool_ok op"
    "pool_size op = ME_MAX_ORDER_IDS" "pobj op = pobj (order_pool b)" "live op = {}" by blast
  let ?b2 = "b\<lparr>order_pool := op, oid_to_order := (\<lambda>_. None)\<rparr>"
  have cong: "levels_ok b' s (map fst (S s))" if "trading_side s" "lev b' = lev b" "side_head s b' = side_head s b"
    for s and b' :: market_order_book
    using levels_ok_cong [OF book_ok_levels [OF bk that(1)] that(3)] that(2) by simp
  have lev2: "lev ?b2 = lev b" by (simp add: lev_def fun_eq_iff)
  have sub: "set (map fst (S s)) \<subseteq> all_levels S" if "trading_side s" for s
    using that by (fastforce simp: all_levels_def)
  have l2: "levels_ok ?b2 BUY (map fst (S BUY))" by (rule cong [OF _ lev2]) (simp_all add: side_head_def)
  from clear_side_ok [OF l2] pl sub [of BUY] obtain q where q:
    "clear_side (bids_by_price b) ?b2 = Inr (?b2\<lparr>orders_at_price_pool := q\<rparr>)" "pool_ok q"
    "pool_size q = ME_MAX_PRICE_LEVELS" "pobj q = pobj (orders_at_price_pool b)" "live q = all_levels S - set (map fst (S BUY))"
    by (auto simp: side_head_def)
  let ?b3 = "?b2\<lparr>orders_at_price_pool := q\<rparr>"
  have lev3: "lev ?b3 = lev b" using q(4) by (simp add: lev_def fun_eq_iff)
  have l3: "levels_ok ?b3 SELL (map fst (S SELL))" by (rule cong [OF _ lev3]) (simp_all add: side_head_def)
  have "l_side (lev b l) = s" if "trading_side s" "l \<in> set (map fst (S s))" for s l
    using that book_okD(1) [OF bk that(1)] by (auto simp: level_ok_def)
  from this [of BUY] this [of SELL] have "l \<notin> set (map fst (S BUY))" if "l \<in> set (map fst (S SELL))" for l
    using that by fastforce
  then have "set (map fst (S SELL)) \<subseteq> live q" using sub [of SELL] q(5) by auto
  with clear_side_ok [OF l3] q obtain q' where q':
    "clear_side (asks_by_price b) ?b3 = Inr (?b3\<lparr>orders_at_price_pool := q'\<rparr>)" "pool_ok q'"
    "pool_size q' = ME_MAX_PRICE_LEVELS" "pobj q' = pobj (orders_at_price_pool b)"
    "live q' = all_levels S - set (map fst (S BUY)) - set (map fst (S SELL))"
    by (auto simp: side_head_def)
  have "live q' = {}" using q'(5) by (auto simp: all_levels_set)
  then show ?thesis using op q(1) q'(1-4) by (intro exI [of _ op] exI [of _ q']) (simp add: clear_book_def)
qed

lemma heads_upd_ord: "bids_by_price (upd_ord p f b) = bids_by_price b" "asks_by_price (upd_ord p f b) = asks_by_price b"
  by (simp_all add: upd_ord_def)

definition is_clear :: "MEMarketUpdate \<Rightarrow> bool" where
  "is_clear u \<longleftrightarrow> mu_type u = CLEAR \<and> mu_side u = Side_INVALID"

text \<open>
  A \<open>CLEAR\<close> update on a well-formed book never stops the client: every order and every level is given
  back to its pool exactly once, the order map and both sides are empty afterwards. Two parts of the old
  book survive: the price array still points to the freed levels, and the best bid and offer keep their
  old prices and quantities.
\<close>

theorem clear_frees_all_but_prices:
  assumes "mk_struct b S" and "is_clear u"
  shows "\<exists>b'. onMarketUpdate u b = Inr (OnOrderBookUpdate (mu_ticker_id u) (mu_price u) Side_INVALID, b') \<and>
     live (order_pool b') = {} \<and> live (orders_at_price_pool b') = {} \<and> oid_to_order b' = (\<lambda>_. None) \<and>
     bids_by_price b' = None \<and> asks_by_price b' = None \<and>
     price_orders_at_price b' = price_orders_at_price b \<and> bbo b' = bbo b"
proof -
  from clear_book_ok [OF assms(1)] obtain b' where b': "clear_book b = Inr b'" "live (order_pool b') = {}"
    "live (orders_at_price_pool b') = {}" "oid_to_order b' = (\<lambda>_. None)" "bids_by_price b' = None" "asks_by_price b' = None"
    "price_orders_at_price b' = price_orders_at_price b" "bbo b' = bbo b"
    by fastforce
  have "onMarketUpdate u b = Inr (OnOrderBookUpdate (mu_ticker_id u) (mu_price u) Side_INVALID, b')"
    using assms(2) b'(1) by (auto simp: onMarketUpdate_def is_clear_def bid_updated_def ask_updated_def apply_update_def
        updateBBO_def Let_def split: option.splits)
  with b' show ?thesis by blast
qed

definition clear_msg :: "TickerId \<Rightarrow> MEMarketUpdate" where
  "clear_msg t = \<lparr>mu_type = CLEAR, mu_order_id = OrderId_INVALID, mu_ticker_id = t, mu_side = Side_INVALID,
     mu_price = Price_INVALID, mu_qty = Qty_INVALID, mu_priority = Priority_INVALID\<rparr>"

definition add_msg :: "OrderId \<Rightarrow> Price \<Rightarrow> Qty \<Rightarrow> MEMarketUpdate" where
  "add_msg i px q = \<lparr>mu_type = ADD, mu_order_id = i, mu_ticker_id = 0, mu_side = BUY,
     mu_price = px, mu_qty = q, mu_priority = 1\<rparr>"

lemma is_clear_msg [simp]: "is_clear (clear_msg t)"
  by (simp add: is_clear_def clear_msg_def)

lemma add_first_order:
  assumes "px < int ME_MAX_PRICE_LEVELS" "0 \<le> px" "unat i < ME_MAX_ORDER_IDS"
  shows "\<exists>b S ev. onMarketUpdate (add_msg i px q) (fresh_market_book 0 0) = Inr (ev, b) \<and> mk_struct b S \<and>
     mview b S BUY = [new_market_order (add_msg i px q)] \<and> mview b S SELL = [] \<and> bbo b = BBO_default \<and> base_price b = 0"
proof -
  have up: "update_ok (base_price (fresh_market_book 0 0)) (add_msg i px q) (mview (fresh_market_book 0 0) (\<lambda>_. []))"
    using assms by (simp add: update_ok_def add_msg_def mview_empty mview_ids_def mview_size_def ME_MAX_ORDER_IDS_def)
  from onMarketUpdate_ok [OF fresh_market_book_simps(1) up] show ?thesis
    by (auto simp: mview_empty mkt_spec_def queue_insert_def add_msg_def bid_touched_def ask_touched_def bbo_spec_def Let_def)
qed

theorem clear_frees_all_but_prices_witness:
  "\<exists>b S b'. mview b S BUY = [new_market_order (add_msg 3 100 7)] \<and> onMarketUpdate (clear_msg 0) b = Inr (OnOrderBookUpdate 0 Price_INVALID Side_INVALID, b') \<and>
     live (order_pool b') = {}"
proof -
  have "\<exists>b S ev. onMarketUpdate (add_msg 3 100 7) (fresh_market_book 0 0) = Inr (ev, b) \<and> mk_struct b S \<and>
     mview b S BUY = [new_market_order (add_msg 3 100 7)] \<and> mview b S SELL = [] \<and> bbo b = BBO_default \<and> base_price b = 0"
    by (rule add_first_order) (simp_all add: ME_MAX_PRICE_LEVELS_def ME_MAX_ORDER_IDS_def)
  then obtain b S where b: "mk_struct b S" "mview b S BUY = [new_market_order (add_msg 3 100 7)]" by blast
  from clear_frees_all_but_prices [OF b(1) is_clear_msg [of 0]] b(2) show ?thesis by (fastforce simp: clear_msg_def)
qed

text \<open>
  C36. The price array that \<open>CLEAR\<close> does not reset loses orders: when the cleared book had an order at some
  price, adding an order at that price on either side afterwards, as a snapshot recovery does, either
  dereferences a null pointer or hangs the new order on the freed level, so that both sides of the book are
  still empty although the order was added.
\<close>

theorem clear_then_add_lost:
  assumes ok: "mk_struct b S" and clr: "is_clear c" and x: "trading_side s" "x \<in> set (mview b S s)"
    and add: "mu_type u = ADD" "mu_price u = o_price x" "unat (mu_order_id u) < ME_MAX_ORDER_IDS"
  shows "\<exists>ev b1. onMarketUpdate c b = Inr (ev, b1) \<and>
     (case onMarketUpdate u b1 of Inl e \<Rightarrow> e = NullDeref
      | Inr (_, b2) \<Rightarrow> bids_by_price b2 = None \<and> asks_by_price b2 = None)"
proof -
  from clear_book_ok [OF ok] obtain op lp where cb: "clear_book b = Inr (b\<lparr>order_pool := op, oid_to_order := (\<lambda>_. None),
       orders_at_price_pool := lp, bids_by_price := None, asks_by_price := None\<rparr>)" "pool_ok op"
     "pool_size op = ME_MAX_ORDER_IDS" "live op = {}" "pobj lp = pobj (orders_at_price_pool b)"
    by blast
  let ?b1 = "b\<lparr>order_pool := op, oid_to_order := (\<lambda>_. None), orders_at_price_pool := lp, bids_by_price := None, asks_by_price := None\<rparr>"
  have c: "onMarketUpdate c b = Inr (OnOrderBookUpdate (mu_ticker_id c) (mu_price c) Side_INVALID, ?b1)"
    using clr cb(1) by (auto simp: onMarketUpdate_def is_clear_def bid_updated_def ask_updated_def apply_update_def
        updateBBO_def Let_def split: option.splits)
  note bk = mk_structD(1) [OF ok]
  obtain p l os where p: "x = strip (ord b p)" "(l, os) \<in> set (S s)" "p \<in> set os"
    using x(2) by (auto simp: mview_def in_orders_of)
  note lk = book_okD [OF bk x(1) p(2)]
  have px: "o_price x = lprice b l" using level_ok_orders [OF lk(1)] p by simp
  obtain f where f: "first_order (lev b l) = Some f" using level_ok_first [OF lk(1)] by blast
  let ?o = "\<lparr>o_side = mu_side u, o_price = mu_price u, o_qty = mu_qty u, o_priority = mu_priority u,
      prev_order = None, next_order = None, m_order_id = mu_order_id u\<rparr>"
  have room: "card (live op) + 1 < pool_size op" using cb(3,4) by (simp add: ME_MAX_ORDER_IDS_def)
  from allocate_ok [OF cb(2) room, of ?o] obtain n op' where al: "allocate ?o op = Inr (n, op')"
    "pobj op' = (pobj op)(n := ?o)" by blast
  obtain b2 where b2: "b2 = ?b1\<lparr>order_pool := op'\<rparr>" by blast
  have on: "ord b2 n = ?o" using al(2) by (simp add: ord_def b2)
  have hd: "bids_by_price b2 = None" "asks_by_price b2 = None" by (simp_all add: b2)
  have ga: "getOrdersAtPrice (o_price (ord b2 n)) b2 = Inr (Some l)"
    unfolding on using add(2) px lk(2,3) by (simp add: b2 getOrdersAtPrice_def priceToIndex_def in_window_def index_of_def)
  have fl: "first_order (lev b2 l) = Some f" using f cb(5) by (simp add: lev_def b2)
  have ab: "apply_update u ?b1 = bindE (mkt_link_order n b2) (\<lambda>b1. set_oid (m_order_id (ord b1 n)) (Some n) b1)"
    using add(1) al(1) by (simp add: apply_update_def mkt_addOrder_def b2)
  have ub: "bid_updated u ?b1 = False" "ask_updated u ?b1 = False" by (simp_all add: bid_updated_def ask_updated_def)
  show ?thesis
  proof (cases "prev_order (ord b2 f)")
    case None
    then have "mkt_link_order n b2 = Inl NullDeref" by (simp add: mkt_link_order_def ga fl)
    then have "onMarketUpdate u ?b1 = Inl NullDeref" using ab add(1) by (simp add: onMarketUpdate_def Let_def)
    then show ?thesis using c by simp
  next
    case (Some last)
    then obtain b3 where b3: "mkt_link_order n b2 = Inr b3" "bids_by_price b3 = None" "asks_by_price b3 = None"
      "m_order_id (ord b3 n) = mu_order_id u"
      using hd on ga [unfolded on] 
      by (cases "n = f"; cases "f = last"; cases "n = last")
        (simp_all add: mkt_link_order_def fl Let_def heads_upd_ord cong: if_cong)
    have "onMarketUpdate u ?b1 = bindE (set_oid (m_order_id (ord b3 n)) (Some n) b3)
        (\<lambda>b1. Inr (OnOrderBookUpdate (mu_ticker_id u) (mu_price u) (mu_side u), b1))"
      using ab b3(1) add(1) ub by (simp add: onMarketUpdate_def Let_def updateBBO_def)
    then show ?thesis using c b3(2-4) add(3) by (simp add: set_oid_def)
  qed
qed

theorem clear_then_add_lost_witness:
  "\<exists>ev b S b1. onMarketUpdate (add_msg 3 100 7) (fresh_market_book 0 0) = Inr (ev, b) \<and> mk_struct b S \<and>
     (\<exists>ev1. onMarketUpdate (clear_msg 0) b = Inr (ev1, b1)) \<and>
     (case onMarketUpdate (add_msg 4 100 9) b1 of Inl e \<Rightarrow> e = NullDeref
      | Inr (_, b2) \<Rightarrow> bids_by_price b2 = None \<and> asks_by_price b2 = None)"
proof -
  have "\<exists>b S ev. onMarketUpdate (add_msg 3 100 7) (fresh_market_book 0 0) = Inr (ev, b) \<and> mk_struct b S \<and>
     mview b S BUY = [new_market_order (add_msg 3 100 7)] \<and> mview b S SELL = [] \<and> bbo b = BBO_default \<and> base_price b = 0"
    by (rule add_first_order) (simp_all add: ME_MAX_PRICE_LEVELS_def ME_MAX_ORDER_IDS_def)
  then obtain b S ev where b: "onMarketUpdate (add_msg 3 100 7) (fresh_market_book 0 0) = Inr (ev, b)" "mk_struct b S"
    "mview b S BUY = [new_market_order (add_msg 3 100 7)]" by blast
  have "new_market_order (add_msg 3 100 7) \<in> set (mview b S BUY)" using b(3) by simp
  from clear_then_add_lost [OF b(2) is_clear_msg [of 0] _ this, of "add_msg 4 100 9"] b(1,2)
  show ?thesis by (simp add: add_msg_def new_market_order_def ME_MAX_ORDER_IDS_def) blast
qed

subsection \<open>The best bid and offer\<close>

definition bbo_of :: "mkt_view \<Rightarrow> BBO" where
  "bbo_of V = \<lparr>bid_price = fst (best_of (V BUY)), ask_price = fst (best_of (V SELL)),
     bid_qty = snd (best_of (V BUY)), ask_qty = snd (best_of (V SELL))\<rparr>"

lemma view_id_unique:
  assumes ok: "mk_struct b S" and s: "trading_side s" "trading_side t"
    and x: "x \<in> set (mview b S s)" "y \<in> set (mview b S t)" "m_order_id x = m_order_id y"
  shows "x = y \<and> s = t"
proof -
  note bk = mk_structD(1) [OF ok]
  obtain p where p: "x = strip (ord b p)" "p \<in> set (orders_of (S s))" using x(1) by (auto simp: mview_def)
  obtain q where q: "y = strip (ord b q)" "q \<in> set (orders_of (S t))" using x(2) by (auto simp: mview_def)
  have id: "m_order_id (strip z) = m_order_id z" for z :: MarketOrder by (simp add: strip_def)
  have "p \<in> all_orders S" "q \<in> all_orders S" using p(2) q(2) s by (auto simp: all_orders_eq)
  then have "Some p = Some q" using mk_structD(6) [OF ok] x(3) p(1) q(1) id by metis
  then have "p = q" by simp
  moreover have "s = t"
    using order_level_unique [OF bk s(1) _ _ s(2)] p(2) q(2) \<open>p = q\<close> unfolding in_orders_of by blast
  ultimately show ?thesis using p q by simp
qed

lemma best_of_same:
  assumes "xs \<noteq> []" "ys \<noteq> []" "o_price (hd ys) = o_price (hd xs)"
    and "filter (\<lambda>y. o_price y = o_price (hd xs)) ys = filter (\<lambda>y. o_price y = o_price (hd xs)) xs"
  shows "best_of ys = best_of xs"
  using assms by (cases xs; cases ys) (auto simp: best_of_def)

text \<open>An update behind the best price does not change what is at the best price.\<close>

lemma best_of_behind:
  assumes ok: "mk_struct b S" and up: "update_ok base u (mview b S)" and con: "consistent u (mview b S)"
    and ne: "mview b S (mu_side u) \<noteq> []" and beh: "ahead (mu_side u) (o_price (hd (mview b S (mu_side u)))) (mu_price u)"
  shows "best_of (mkt_spec u (mview b S) (mu_side u)) = best_of (mview b S (mu_side u))"
proof -
  let ?s = "mu_side u"
  let ?xs = "mview b S ?s"
  let ?p = "o_price (hd ?xs)"
  have ne': "mu_price u \<noteq> ?p" using beh by (auto simp: ahead_def split: if_splits)
  show ?thesis
  proof (cases "mu_type u = MODIFY \<or> mu_type u = CANCEL")
    case True
    then obtain x where x: "x \<in> set ?xs" "trading_side ?s" "m_order_id x = mu_order_id u" "o_price x = mu_price u"
      using con by (auto simp: consistent_def)
    have only: "o_price y \<noteq> ?p" if "y \<in> set ?xs" "m_order_id y = mu_order_id u" for y
      using view_id_unique [OF ok x(2,2) that(1) x(1)] that(2) x(3,4) ne' by simp
    have hd: "m_order_id (hd ?xs) \<noteq> mu_order_id u" using only [of "hd ?xs"] ne by auto
    show ?thesis
    proof (cases "mu_type u = MODIFY")
      case True
      let ?f = "\<lambda>x. if m_order_id x = mu_order_id u then x\<lparr>o_qty := mu_qty u\<rparr> else x"
      have m: "mkt_spec u (mview b S) ?s = map ?f ?xs" using True by (simp add: mkt_spec_def)
      have "filter (\<lambda>y. o_price y = ?p) (map ?f ?xs) = map ?f (filter (\<lambda>y. o_price y = ?p) ?xs)"
        by (simp add: filter_map comp_def if_distrib cong: if_cong)
      also have "\<dots> = filter (\<lambda>y. o_price y = ?p) ?xs" by (rule map_idI) (use only in auto)
      finally show ?thesis unfolding m using ne hd by (intro best_of_same) (simp_all add: hd_map)
    next
      case False
      with True have m: "mkt_spec u (mview b S) ?s = filter (\<lambda>x. m_order_id x \<noteq> mu_order_id u) ?xs"
        by (simp add: mkt_spec_def)
      obtain z zs where z: "?xs = z # zs" using ne by (cases ?xs) auto
      have f: "filter (\<lambda>y. o_price y = ?p) (filter (\<lambda>x. m_order_id x \<noteq> mu_order_id u) ?xs) = filter (\<lambda>y. o_price y = ?p) ?xs"
        unfolding filter_filter by (rule filter_cong) (use only in auto)
      show ?thesis unfolding m by (rule best_of_same [OF ne _ _ f]) (use hd z in auto)
    qed
  next
    case nm: False
    show ?thesis
    proof (cases "mu_type u = ADD")
      case True
      let ?P = "\<lambda>y. \<not> ahead ?s (mu_price u) (o_price y)"
      have m: "mkt_spec u (mview b S) ?s = takeWhile ?P ?xs @ new_market_order u # dropWhile ?P ?xs"
        using True by (simp add: mkt_spec_def queue_insert_def new_market_order_def)
      obtain z zs where z: "?xs = z # zs" using ne by (cases ?xs) auto
      have "?P (hd ?xs)" using beh by (auto simp: ahead_def split: if_splits)
      then have h: "hd (mkt_spec u (mview b S) ?s) = hd ?xs" using z unfolding m by simp
      have "filter (\<lambda>y. o_price y = ?p) (mkt_spec u (mview b S) ?s) =
          filter (\<lambda>y. o_price y = ?p) (takeWhile ?P ?xs) @ filter (\<lambda>y. o_price y = ?p) (dropWhile ?P ?xs)"
        unfolding m using ne' by (simp add: new_market_order_def del: takeWhile_dropWhile_id)
      then have f: "filter (\<lambda>y. o_price y = ?p) (mkt_spec u (mview b S) ?s) = filter (\<lambda>y. o_price y = ?p) ?xs"
        by (simp flip: filter_append)
      show ?thesis by (rule best_of_same [OF ne _ _ f]) (use h m in auto)
    next
      case False
      then show ?thesis using nm by (simp add: mkt_spec_def)
    qed
  qed
qed

lemma other_side_same:
  assumes ok: "mk_struct b S" and up: "update_ok base u (mview b S)" and con: "consistent u (mview b S)"
    and t: "trading_side t" "t \<noteq> mu_side u"
  shows "mkt_spec u (mview b S) t = mview b S t"
proof -
  have "m_order_id y \<noteq> mu_order_id u" if c: "mu_type u = MODIFY \<or> mu_type u = CANCEL" and y: "y \<in> set (mview b S t)" for y
  proof -
    obtain x where x: "x \<in> set (mview b S (mu_side u))" "trading_side (mu_side u)" "m_order_id x = mu_order_id u"
      using con c by (auto simp: consistent_def)
    show ?thesis using view_id_unique [OF ok t(1) x(2) y x(1)] x(3) t(2) by auto
  qed
  then show ?thesis using t(2) by (auto simp: mkt_spec_def intro!: map_idI simp: filter_id_conv)
qed

text \<open>
  C35. The best bid and offer follow the book: when they are those of the book and an update of any kind but
  \<open>CLEAR\<close> arrives that carries the price and side of the order it is about, they are those of the book
  afterwards, prices and total quantities on both sides, unless the update adds the first order of a side.
\<close>

theorem bbo_follows_book:
  assumes ok: "mk_struct b S" and up: "update_ok (base_price b) u (mview b S)" and con: "consistent u (mview b S)"
    and now: "bbo b = bbo_of (mview b S)" and first: "mu_type u = ADD \<Longrightarrow> mview b S (mu_side u) \<noteq> []"
  shows "\<exists>ev b' S'. onMarketUpdate u b = Inr (ev, b') \<and> mk_struct b' S' \<and>
     mview b' S' BUY = mkt_spec u (mview b S) BUY \<and> mview b' S' SELL = mkt_spec u (mview b S) SELL \<and>
     bbo b' = bbo_of (mview b' S')"
proof -
  let ?V = "mview b S" and ?W = "mkt_spec u (mview b S)"
  from onMarketUpdate_ok [OF ok up] obtain ev b' S' where b': "onMarketUpdate u b = Inr (ev, b')" "mk_struct b' S'"
    "mview b' S' BUY = ?W BUY" "mview b' S' SELL = ?W SELL"
    "bbo b' = (if mu_type u = TRADE then bbo b else bbo_spec (bid_touched u ?V) (ask_touched u ?V) ?W (bbo b))"
    by blast
  have same: "best_of (?W s) = best_of (?V s)"
    if s: "trading_side s" and un: "mu_side u = s \<Longrightarrow> ?V s = [] \<or> ahead s (o_price (hd (?V s))) (mu_price u)" for s
  proof (cases "mu_side u = s")
    case True
    show ?thesis
    proof (cases "?V s = []")
      case e: True
      have "mu_type u \<noteq> ADD" using first e True by auto
      then show ?thesis using e True by (simp add: mkt_spec_def)
    next
      case False
      then show ?thesis using best_of_behind [OF ok up con] un True by auto
    qed
  qed (use other_side_same [OF ok up con s] in auto)
  have "best_of (?W BUY) = best_of (?V BUY)" if "\<not> bid_touched u ?V"
    using that by (intro same) (auto simp: bid_touched_def ahead_def)
  moreover have "best_of (?W SELL) = best_of (?V SELL)" if "\<not> ask_touched u ?V"
    using that by (intro same) (auto simp: ask_touched_def ahead_def)
  moreover have "?W = ?V" if "mu_type u = TRADE" using that by (simp add: mkt_spec_def)
  ultimately have "bbo b' = bbo_of ?W"
    using b'(5) now by (auto simp: bbo_of_def bbo_spec_def Let_def)
  then show ?thesis using b'(1-4) by (auto simp: bbo_of_def)
qed

theorem bbo_follows_book_witness:
  "\<exists>ev b' S'. onMarketUpdate (clear_msg 0\<lparr>mu_type := SNAPSHOT_START\<rparr>) (fresh_market_book 0 0) = Inr (ev, b') \<and>
     bbo b' = bbo_of (mview b' S')"
proof -
  let ?u = "clear_msg 0\<lparr>mu_type := SNAPSHOT_START\<rparr>"
  have "bbo (fresh_market_book 0 0) = bbo_of (mview (fresh_market_book 0 0) (\<lambda>_. []))"
    by (simp add: mview_empty bbo_of_def best_of_def BBO_default_def)
  from bbo_follows_book [OF fresh_market_book_simps(1) _ _ this, of ?u] show ?thesis
    by (fastforce simp: update_ok_def consistent_def clear_msg_def)
qed

text \<open>
  The case the previous property leaves out: the first order of a side does not reach the best bid and
  offer. Adding a bid to a book without bids puts it into the book and leaves the best bid as it was.
\<close>

theorem bbo_misses_first_bid:
  assumes ok: "mk_struct b S" and up: "update_ok (base_price b) u (mview b S)" and e: "mview b S BUY = []"
    and add: "mu_type u = ADD" "mu_side u = BUY"
  shows "\<exists>ev b' S'. onMarketUpdate u b = Inr (ev, b') \<and> mk_struct b' S' \<and>
     mview b' S' BUY = [new_market_order u] \<and> bbo b' = bbo b"
proof -
  from onMarketUpdate_ok [OF ok up] obtain ev b' S' where "onMarketUpdate u b = Inr (ev, b')" "mk_struct b' S'"
    "mview b' S' BUY = mkt_spec u (mview b S) BUY"
    "bbo b' = bbo_spec (bid_touched u (mview b S)) (ask_touched u (mview b S)) (mkt_spec u (mview b S)) (bbo b)"
    using add(1) by auto
  then show ?thesis using add e
    by (auto simp: mkt_spec_def queue_insert_def bid_touched_def ask_touched_def bbo_spec_def)
qed

theorem bbo_misses_first_bid_witness:
  "\<exists>ev b' S'. onMarketUpdate (add_msg 3 100 7) (fresh_market_book 0 0) = Inr (ev, b') \<and>
     mview b' S' BUY = [new_market_order (add_msg 3 100 7)] \<and> bbo b' = BBO_default"
proof -
  let ?m = "fresh_market_book 0 0" and ?u = "add_msg 3 100 7"
  have "update_ok (base_price ?m) ?u (mview ?m (\<lambda>_. []))"
    by (simp add: update_ok_def add_msg_def mview_empty mview_ids_def mview_size_def ME_MAX_ORDER_IDS_def ME_MAX_PRICE_LEVELS_def)
  from bbo_misses_first_bid [OF fresh_market_book_simps(1) this] show ?thesis
    by (auto simp: add_msg_def mview_empty)
qed

end
