(* ===== verification/MEPrint.thy ===== *)
theory MEPrint
  imports BookPrint ExchangeProps MarketClear
begin

text \<open>
  The printers of the exchange's book (\<open>me_order.cpp\<close>, \<open>me_order.h\<close>, \<open>me_order_book.cpp\<close>) and that the validity
  check inside the printers of both books never stops the process on a well-formed book.
\<close>

definition MEOrder_toString :: "me_order_book \<Rightarrow> nat \<Rightarrow> string" where
  "MEOrder_toString b p = (let x = ord b p in ''MEOrder['' @
     ''ticker:'' @ tickerIdToString (ticker_id x) @ '' '' @ ''cid:'' @ clientIdToString (client_id x) @ '' '' @
     ''oid:'' @ orderIdToString (client_order_id x) @ '' '' @ ''moid:'' @ orderIdToString (market_order_id x) @ '' '' @
     ''side:'' @ sideToString (o_side x) @ '' '' @ ''price:'' @ priceToString (o_price x) @ '' '' @
     ''qty:'' @ qtyToString (o_qty x) @ '' '' @ ''prio:'' @ priorityToString (o_priority x) @ '' '' @
     ''prev:'' @ orderIdToString (case prev_order x of None \<Rightarrow> OrderId_INVALID | Some q \<Rightarrow> market_order_id (ord b q)) @ '' '' @
     ''next:'' @ orderIdToString (case next_order x of None \<Rightarrow> OrderId_INVALID | Some q \<Rightarrow> market_order_id (ord b q)) @ '']'')"

definition MEOrdersAtPrice_toString :: "me_order_book \<Rightarrow> nat \<Rightarrow> string" where
  "MEOrdersAtPrice_toString b k = (let l = lev b k in ''MEOrdersAtPrice['' @
     ''side:'' @ sideToString (l_side l) @ '' '' @ ''price:'' @ priceToString (l_price l) @ '' '' @
     ''first_me_order:'' @ (case first_order l of None \<Rightarrow> ''null'' | Some p \<Rightarrow> MEOrder_toString b p) @ '' '' @
     ''prev:'' @ priceToString (case prev_entry l of None \<Rightarrow> Price_INVALID | Some j \<Rightarrow> l_price (lev b j)) @ '' '' @
     ''next:'' @ priceToString (case next_entry l of None \<Rightarrow> Price_INVALID | Some j \<Rightarrow> l_price (lev b j)) @ '']'')"

definition me_toString :: "bool \<Rightarrow> bool \<Rightarrow> me_order_book \<Rightarrow> string res" where
  "me_toString detailed validity_check b = book_toString market_order_id (book_ticker_id b) detailed validity_check b"

text \<open>
  C39. Printing with the validity check: after any well-formed session, with a price window inside the 64-bit
  range, printing the exchange's book always ends, never dereferences a null pointer and never finds a side
  out of order.
\<close>

theorem exchange_book_prints:
  assumes "\<forall>r \<in> set rs. request_ok ticker base r" and "length rs < ME_MAX_ORDER_IDS" and "distinct (new_ids rs)"
    and "Price_min < base" and "base + int ME_MAX_PRICE_LEVELS \<le> Price_INVALID"
  shows "\<exists>b text. foldE book_request rs (fresh_book ticker base) = Inr b \<and> me_toString detailed validity_check b = Inr text"
proof -
  let ?f = "fresh_book ticker base"
  obtain n A evs where r: "spec_run rs (1, \<lambda>_. []) = ((n, A), evs)" by (metis prod.exhaust)
  have "unat (1 :: 64 word) + length rs < 2 ^ 64" using assms(2) by (simp add: ME_MAX_ORDER_IDS_def)
  then obtain b S where b: "foldE book_request rs ?f = Inr b" "me_inv b S" "base_price b = base"
    using book_run_ok [of ?f "\<lambda>_. []" rs n A evs] assms(1-3) r by (auto simp: view_empty order_ids_def)
  then have bk: "book_ok b S" "live (order_pool b) = all_orders S" by (simp_all add: me_inv_def me_struct_def)
  have base: "Price_min < base_price b" "base_price b + int ME_MAX_PRICE_LEVELS \<le> Price_INVALID" using b(3) assms(4,5) by simp_all
  from book_toString_ok [OF bk(1) orders_fitI [OF bk] base] show ?thesis using b(1) by (simp add: me_toString_def)
qed

theorem exchange_book_prints_witness:
  "\<exists>b text. foldE book_request demo_requests (fresh_book 0 0) = Inr b \<and> me_toString True True b = Inr text"
  using exchange_book_prints [OF demo_requests_ok, of True True]
  by (simp add: Price_min_def Price_INVALID_def ME_MAX_PRICE_LEVELS_def)

end
