(* ===== verification/PositionKeeper.thy ===== *)
theory PositionKeeper
  imports MarketOrderBook
begin

text \<open>
  \<open>trading/strategy/position_keeper.h\<close>: position, profit and loss and volume per instrument.

  \<open>position_\<close> is an \<open>int32_t\<close> to which the code adds the unsigned product of executed quantity and side;
  it is a 32-bit word here, read as signed. The other \<open>int\<close> arithmetic of the code, the products with the old
  position and \<open>std::abs\<close>, is written with \<open>s32\<close>, which wraps. \<open>open_vwap_\<close> has no initial value in the code, so the
  constructor takes the contents as a parameter. \<open>toString\<close> is in \<open>Reports\<close>.

  The lemmas give the accounting identity: profit and loss is the cash received for the fills plus the
  value of the position at the last price, or at the mid price after an update of the best bid and offer.
  It holds as long as the product in the test for a flipped position fits 32 bits; \<open>flip_test_wraps\<close> shows
  what happens when it does not.
\<close>

definition s32 :: "int \<Rightarrow> int" where
  "s32 i = sint (word_of_int i :: 32 word)"

lemma s32_small: "\<bar>i\<bar> < 2 ^ 31 \<Longrightarrow> s32 i = i"
  unfolding s32_def sint_sbintrunc' by (rule signed_take_bit_int_eq_self) auto

record PositionInfo =
  position :: "32 word"
  real_pnl :: double
  unreal_pnl :: double
  total_pnl :: double
  open_vwap :: "nat \<Rightarrow> double"
  volume :: Qty
  pos_bbo :: "BBO option"

definition PositionInfo_new :: "(nat \<Rightarrow> double) \<Rightarrow> PositionInfo" where
  "PositionInfo_new vwap = \<lparr>position = 0, real_pnl = Fin 0, unreal_pnl = Fin 0, total_pnl = Fin 0,
     open_vwap = vwap, volume = 0, pos_bbo = None\<rparr>"

text \<open>The average price of the open position, \<open>open_vwap_[i] / std::abs(position_)\<close>.\<close>

definition avg_price :: "nat \<Rightarrow> PositionInfo \<Rightarrow> double" where
  "avg_price i p = d_div (open_vwap p i) (double_of_int (s32 \<bar>sint (position p)\<bar>))"

text \<open>The value of the open position against a price, in \<open>addFill\<close> and in \<open>updateBBO\<close>.\<close>

definition open_pnl :: "double \<Rightarrow> PositionInfo \<Rightarrow> double" where
  "open_pnl price p =
     (if sint (position p) > 0
      then d_mul (d_sub price (avg_price (sideToIndex BUY) p)) (double_of_int (s32 \<bar>sint (position p)\<bar>))
      else d_mul (d_sub (avg_price (sideToIndex SELL) p) price) (double_of_int (s32 \<bar>sint (position p)\<bar>)))"

text \<open>\<open>addFill\<close> up to the flat test: position, volume, average prices and realised profit and loss.\<close>

definition fill_position :: "MEClientResponse \<Rightarrow> PositionInfo \<Rightarrow> PositionInfo" where
  "fill_position r p =
     (let old_position = sint (position p);
          side_index = sideToIndex (rs_side r);
          opp_side_index = sideToIndex (if rs_side r = BUY then SELL else BUY);
          side_value = sideToValue (rs_side r);
          p1 = p\<lparr>position := position p + rs_exec_qty r * word_of_int side_value, volume := volume p + rs_exec_qty r\<rparr>
      in if s32 (old_position * side_value) \<ge> 0
         then p1\<lparr>open_vwap := (open_vwap p1)(side_index :=
                d_add (open_vwap p1 side_index) (double_of_int (rs_price r * uint (rs_exec_qty r))))\<rparr>
         else
           let opp_side_vwap = d_div (open_vwap p1 opp_side_index) (double_of_int (s32 \<bar>old_position\<bar>));
               p2 = p1\<lparr>open_vwap := (open_vwap p1)(opp_side_index :=
                      d_mul opp_side_vwap (double_of_int (s32 \<bar>sint (position p1)\<bar>)))\<rparr>;
               p3 = p2\<lparr>real_pnl := d_add (real_pnl p2)
                      (d_mul (d_mul (double_of_int (min (sint (rs_exec_qty r)) (s32 \<bar>old_position\<bar>)))
                                (d_sub opp_side_vwap (double_of_int (rs_price r))))
                         (double_of_int side_value))\<rparr>
           in if s32 (sint (position p3) * old_position) < 0
              then p3\<lparr>open_vwap := (open_vwap p3)(
                     side_index := double_of_int (rs_price r * s32 \<bar>sint (position p3)\<bar>), opp_side_index := Fin 0)\<rparr>
              else p3)"

definition addFill :: "MEClientResponse \<Rightarrow> PositionInfo \<Rightarrow> PositionInfo" where
  "addFill r p =
     (let p1 = fill_position r p;
          p2 = (if position p1 = 0
                then p1\<lparr>open_vwap := (open_vwap p1)(sideToIndex SELL := Fin 0, sideToIndex BUY := Fin 0), unreal_pnl := Fin 0\<rparr>
                else p1\<lparr>unreal_pnl := open_pnl (double_of_int (rs_price r)) p1\<rparr>)
      in p2\<lparr>total_pnl := d_add (unreal_pnl p2) (real_pnl p2)\<rparr>)"

definition pos_updateBBO :: "BBO \<Rightarrow> PositionInfo \<Rightarrow> PositionInfo" where
  "pos_updateBBO x p =
     (let p1 = p\<lparr>pos_bbo := Some x\<rparr> in
      if position p1 \<noteq> 0 \<and> bid_price x \<noteq> Price_INVALID \<and> ask_price x \<noteq> Price_INVALID
      then (let mid_price = d_mul (double_of_int (bid_price x + ask_price x)) (Fin (1 / 2));
                p2 = p1\<lparr>unreal_pnl := open_pnl mid_price p1\<rparr>
            in p2\<lparr>total_pnl := d_add (unreal_pnl p2) (real_pnl p2)\<rparr>)
      else p1)"

type_synonym position_keeper = "PositionInfo list"

definition position_keeper_new :: "(nat \<Rightarrow> nat \<Rightarrow> double) \<Rightarrow> position_keeper" where
  "position_keeper_new vwaps = map (\<lambda>i. PositionInfo_new (vwaps i)) [0..<ME_MAX_TICKERS]"

definition pk_addFill :: "MEClientResponse \<Rightarrow> position_keeper \<Rightarrow> position_keeper res" where
  "pk_addFill r pk = bindE (atE (length pk) (unat (rs_ticker_id r))) (\<lambda>i. Inr (pk[i := addFill r (pk ! i)]))"

definition pk_updateBBO :: "TickerId \<Rightarrow> BBO \<Rightarrow> position_keeper \<Rightarrow> position_keeper res" where
  "pk_updateBBO t x pk = bindE (atE (length pk) (unat t)) (\<lambda>i. Inr (pk[i := pos_updateBBO x (pk ! i)]))"

definition getPositionInfo :: "TickerId \<Rightarrow> position_keeper \<Rightarrow> PositionInfo res" where
  "getPositionInfo t pk = bindE (atE (length pk) (unat t)) (\<lambda>i. Inr (pk ! i))"

subsection \<open>One fill\<close>

text \<open>What a fill does to position and cash, in exact numbers.\<close>

definition signed_qty :: "MEClientResponse \<Rightarrow> int" where
  "signed_qty r = sideToValue (rs_side r) * uint (rs_exec_qty r)"

definition cash_of :: "MEClientResponse \<Rightarrow> int" where
  "cash_of r = - signed_qty r * rs_price r"

text \<open>
  The fills for which the arithmetic of the code is exact: quantity and new position fit 31 bits, price times
  quantity fits 64 bits, and, when the fill is against the position, so does the product of the new and the old
  position fit 32 bits.
\<close>

definition fill_ok :: "int \<Rightarrow> MEClientResponse \<Rightarrow> bool" where
  "fill_ok n r \<longleftrightarrow> trading_side (rs_side r) \<and> uint (rs_exec_qty r) < 2 ^ 31 \<and> \<bar>n + signed_qty r\<bar> < 2 ^ 31 \<and>
     \<bar>rs_price r\<bar> < 2 ^ 32 \<and> (n * sideToValue (rs_side r) < 0 \<longrightarrow> \<bar>(n + signed_qty r) * n\<bar> < 2 ^ 31)"

text \<open>The books balance: what was paid for the open position is \<open>open_vwap\<close>, all other cash is realised.\<close>

definition balanced :: "int \<Rightarrow> int \<Rightarrow> PositionInfo \<Rightarrow> bool" where
  "balanced n cash p \<longleftrightarrow> sint (position p) = n \<and> \<bar>n\<bar> < 2 ^ 31 \<and>
     (\<exists>vb vs. open_vwap p (sideToIndex BUY) = Fin vb \<and> open_vwap p (sideToIndex SELL) = Fin vs \<and>
        (n \<le> 0 \<longrightarrow> vb = 0) \<and> (n \<ge> 0 \<longrightarrow> vs = 0) \<and> real_pnl p = Fin (of_int cash + vb - vs))"

lemma sint_add_signed:
  assumes "sint (x :: 32 word) = n" and "\<bar>n + s * uint q\<bar> < 2 ^ 31"
  shows "sint (x + q * word_of_int s) = n + s * uint q"
proof -
  have e: "x + q * word_of_int s = word_of_int (n + s * uint q)"
    by (simp add: mult.commute flip: assms(1))
  have "sint (x + q * word_of_int s) = signed_take_bit 31 (n + s * uint q)"
    unfolding e sint_sbintrunc' by simp
  also have "\<dots> = n + s * uint q"
    using assms(2) by (intro signed_take_bit_int_eq_self) auto
  finally show ?thesis .
qed

lemma open_pnl_balanced:
  assumes "balanced n cash p" and "n \<noteq> 0"
  shows "\<exists>u r. open_pnl (Fin px) p = Fin u \<and> real_pnl p = Fin r \<and> u + r = of_int cash + of_int n * px"
proof -
  obtain vb vs where v: "open_vwap p (sideToIndex BUY) = Fin vb" "open_vwap p (sideToIndex SELL) = Fin vs"
    "n \<le> 0 \<longrightarrow> vb = 0" "n \<ge> 0 \<longrightarrow> vs = 0" "real_pnl p = Fin (of_int cash + vb - vs)" and n: "sint (position p) = n"
    and a: "s32 \<bar>n\<bar> = \<bar>n\<bar>"
    using assms(1) by (auto simp: balanced_def s32_small)
  have long: "(px - vb / of_int n) * of_int n = px * of_int n - vb"
    and short: "(vs / of_int (- n) - px) * of_int (- n) = vs + px * of_int n"
    using assms(2) by (simp_all add: field_simps)
  show ?thesis
  proof (cases "n > 0")
    case True
    then have "open_pnl (Fin px) p = Fin (px * of_int n - vb)"
      using v n a long by (simp add: open_pnl_def avg_price_def double_of_int_def del: of_int_abs)
    then show ?thesis using v True by (simp add: mult.commute)
  next
    case False
    then have "open_pnl (Fin px) p = Fin (vs + px * of_int n)"
      using v n a short assms(2) by (simp add: open_pnl_def avg_price_def double_of_int_def del: of_int_abs)
    then show ?thesis using v False by (simp add: mult.commute)
  qed
qed

lemma fill_okD:
  assumes "fill_ok n r"
  shows "rs_side r = BUY \<or> rs_side r = SELL" "sint (rs_exec_qty r) = uint (rs_exec_qty r)"
    "\<bar>n + signed_qty r\<bar> < 2 ^ 31" "sint (position p) = n \<Longrightarrow> sint (position p + rs_exec_qty r * word_of_int (sideToValue (rs_side r))) = n + signed_qty r"
proof -
  show "rs_side r = BUY \<or> rs_side r = SELL" "\<bar>n + signed_qty r\<bar> < 2 ^ 31"
    using assms by (simp_all add: fill_ok_def trading_side_def)
  have "signed_take_bit 31 (uint (rs_exec_qty r)) = uint (rs_exec_qty r)"
    using assms by (intro signed_take_bit_int_eq_self) (simp_all add: fill_ok_def order_trans [OF _ uint_ge_0])
  then show "sint (rs_exec_qty r) = uint (rs_exec_qty r)"
    by (simp add: sint_uint)
  show "sint (position p + rs_exec_qty r * word_of_int (sideToValue (rs_side r))) = n + signed_qty r" if "sint (position p) = n"
    using sint_add_signed [OF that, of "sideToValue (rs_side r)" "rs_exec_qty r"] assms
    by (simp add: fill_ok_def signed_qty_def)
qed

lemma fill_position_fields [simp]:
  "position (fill_position r p) = position p + rs_exec_qty r * word_of_int (sideToValue (rs_side r))"
  "volume (fill_position r p) = volume p + rs_exec_qty r"
  by (simp_all add: fill_position_def Let_def)

text \<open>For these fills the wrapping is not seen.\<close>

lemma fill_position_exact:
  assumes "fill_ok n r" and "sint (position p) = n" and "\<bar>n\<bar> < 2 ^ 31"
  shows "fill_position r p =
     (let side_index = sideToIndex (rs_side r);
          opp_side_index = sideToIndex (if rs_side r = BUY then SELL else BUY);
          p1 = p\<lparr>position := position p + rs_exec_qty r * word_of_int (sideToValue (rs_side r)), volume := volume p + rs_exec_qty r\<rparr>
      in if n * sideToValue (rs_side r) \<ge> 0
         then p1\<lparr>open_vwap := (open_vwap p1)(side_index :=
                d_add (open_vwap p1 side_index) (double_of_int (rs_price r * uint (rs_exec_qty r))))\<rparr>
         else
           let opp_side_vwap = d_div (open_vwap p1 opp_side_index) (double_of_int \<bar>n\<bar>);
               p2 = p1\<lparr>open_vwap := (open_vwap p1)(opp_side_index :=
                      d_mul opp_side_vwap (double_of_int \<bar>n + signed_qty r\<bar>))\<rparr>;
               p3 = p2\<lparr>real_pnl := d_add (real_pnl p2)
                      (d_mul (d_mul (double_of_int (min (sint (rs_exec_qty r)) \<bar>n\<bar>))
                                (d_sub opp_side_vwap (double_of_int (rs_price r))))
                         (double_of_int (sideToValue (rs_side r))))\<rparr>
           in if (n + signed_qty r) * n < 0
              then p3\<lparr>open_vwap := (open_vwap p3)(
                     side_index := double_of_int (rs_price r * \<bar>n + signed_qty r\<bar>), opp_side_index := Fin 0)\<rparr>
              else p3)"
proof -
  have s: "s32 (n * sideToValue (rs_side r)) = n * sideToValue (rs_side r)" "s32 \<bar>n\<bar> = \<bar>n\<bar>"
    "s32 \<bar>n + signed_qty r\<bar> = \<bar>n + signed_qty r\<bar>"
    "n * sideToValue (rs_side r) < 0 \<Longrightarrow> s32 ((n + signed_qty r) * n) = (n + signed_qty r) * n"
    using assms fill_okD(1) [OF assms(1)] by (auto simp: fill_ok_def intro!: s32_small)
  note n' = fill_okD(4) [OF assms(1,2)]
  show ?thesis
  proof (cases "n * sideToValue (rs_side r) < 0")
    case True
    then show ?thesis unfolding fill_position_def assms(2) by (simp add: Let_def s n' del: fill_position_fields)
  next
    case False
    then show ?thesis unfolding fill_position_def assms(2) by (simp add: Let_def s)
  qed
qed

lemma fill_position_balanced:
  assumes bal: "balanced n cash p" and ok: "fill_ok n r"
  shows "balanced (n + signed_qty r) (cash + cash_of r) (fill_position r p)"
proof -
  obtain vb vs where v: "open_vwap p 2 = Fin vb" "open_vwap p 0 = Fin vs"
    "n \<le> 0 \<longrightarrow> vb = 0" "n \<ge> 0 \<longrightarrow> vs = 0" "real_pnl p = Fin (of_int cash + vb - vs)" and n: "sint (position p) = n" and b: "\<bar>n\<bar> < 2 ^ 31"
    using bal by (auto simp: balanced_def)
  note ex = fill_position_exact [OF ok n b] and b' = fill_okD(3) [OF ok]
  define q px where "q = uint (rs_exec_qty r)" and "px = rs_price r"
  have q: "sint (rs_exec_qty r) = q" "0 \<le> q" "uint (rs_exec_qty r) = q" "rs_price r = px"
    using fill_okD(2) [OF ok] by (simp_all add: q_def px_def)
  have n': "sint (position p + rs_exec_qty r * word_of_int (sideToValue (rs_side r))) = n + signed_qty r"
    using fill_okD(4) [OF ok n] .
  have n'': "sint (position (fill_position r p)) = n + signed_qty r" using n' by simp
  from fill_okD(1) [OF ok] show ?thesis
  proof
    assume s: "rs_side r = BUY"
    have sq: "signed_qty r = q" "cash_of r = - q * px" by (simp_all add: signed_qty_def cash_of_def q_def px_def s)
    have n1: "sint (position p + rs_exec_qty r) = n + q" using n' s sq by simp
    show ?thesis
    proof (cases "n \<ge> 0")
      case True
      then have "fill_position r p = p\<lparr>position := position p + rs_exec_qty r, volume := volume p + rs_exec_qty r,
          open_vwap := (open_vwap p)(2 := Fin (vb + of_int (px * q)))\<rparr>"
        using s sq(1) n v q by (simp add: ex Let_def double_of_int_def)
      then show ?thesis using v True n1 sq q b' by (auto simp: balanced_def algebra_simps)
    next
      case False
      then have vb: "vb = 0" and nn: "n < 0" using v by auto
      show ?thesis
      proof (cases "n + q > 0")
        case True
        have "(n + q) * n < 0" using True nn by (rule mult_pos_neg)
        then have "fill_position r p = p\<lparr>position := position p + rs_exec_qty r, volume := volume p + rs_exec_qty r,
            open_vwap := (open_vwap p)(0 := Fin 0, 2 := Fin (of_int (px * (n + q)))),
            real_pnl := Fin (of_int cash - vs + of_int (- n) * (vs / of_int (- n) - of_int px))\<rparr>"
          using s sq(1) n n1 v vb q nn True
          by (simp add: ex Let_def double_of_int_def min_def fun_upd_twist)
        then show ?thesis using v n1 sq nn True b' by (auto simp: balanced_def field_simps)
      next
        case neg: False
        have "\<not> (n + q) * n < 0" using neg nn by (simp add: mult_less_0_iff)
        then have f: "fill_position r p = p\<lparr>position := position p + rs_exec_qty r, volume := volume p + rs_exec_qty r,
            open_vwap := (open_vwap p)(0 := Fin (vs / of_int (- n) * of_int (- (n + q)))),
            real_pnl := Fin (of_int cash - vs + of_int q * (vs / of_int (- n) - of_int px))\<rparr>"
          using s sq(1) n n1 v vb q nn neg
          by (simp add: ex Let_def double_of_int_def min_def)
        have "of_int cash - vs + of_int q * (vs / of_int (- n) - of_int px) =
            of_int (cash + cash_of r) + 0 - vs / of_int (- n) * of_int (- (n + q))"
          using nn sq by (simp add: field_simps)
        then show ?thesis using v n1 sq nn neg vb f b' unfolding balanced_def
          by (intro conjI exI [of _ 0] exI [of _ "vs / of_int (- n) * of_int (- (n + q))"]) simp_all
      qed
    qed
  next
    assume s: "rs_side r = SELL"
    have sq: "signed_qty r = - q" "cash_of r = q * px" by (simp_all add: signed_qty_def cash_of_def q_def px_def s)
    have n1: "sint (position p - rs_exec_qty r) = n - q" using n' s sq by simp
    show ?thesis
    proof (cases "n \<le> 0")
      case True
      then have "fill_position r p = p\<lparr>position := position p - rs_exec_qty r, volume := volume p + rs_exec_qty r,
          open_vwap := (open_vwap p)(0 := Fin (vs + of_int (px * q)))\<rparr>"
        using s sq(1) n v q by (simp add: ex Let_def double_of_int_def)
      then show ?thesis using v True n1 sq q b' by (auto simp: balanced_def algebra_simps)
    next
      case False
      then have vs: "vs = 0" and nn: "n > 0" using v by auto
      show ?thesis
      proof (cases "n - q < 0")
        case True
        have "(n - q) * n < 0" using True nn by (rule mult_neg_pos)
        then have f: "fill_position r p = p\<lparr>position := position p - rs_exec_qty r, volume := volume p + rs_exec_qty r,
            open_vwap := (open_vwap p)(2 := Fin 0, 0 := Fin (of_int (px * (q - n)))),
            real_pnl := Fin (of_int cash + vb - of_int n * (vb / of_int n - of_int px))\<rparr>"
          using s sq(1) n n1 v vs q nn True
          by (simp add: ex Let_def double_of_int_def min_def fun_upd_twist)
        have "of_int cash + vb - of_int n * (vb / of_int n - of_int px) =
            of_int (cash + cash_of r) + 0 - of_int (px * (q - n))"
          using nn sq by (simp add: field_simps)
        then show ?thesis using v n1 sq nn True vs f b' unfolding balanced_def
          by (intro conjI exI [of _ 0] exI [of _ "of_int (px * (q - n))"]) simp_all
      next
        case neg: False
        have "\<not> (n - q) * n < 0" using neg nn by (simp add: mult_less_0_iff)
        then have f: "fill_position r p = p\<lparr>position := position p - rs_exec_qty r, volume := volume p + rs_exec_qty r,
            open_vwap := (open_vwap p)(2 := Fin (vb / of_int n * of_int (n - q))),
            real_pnl := Fin (of_int cash + vb - of_int q * (vb / of_int n - of_int px))\<rparr>"
          using s sq(1) n n1 v vs q nn neg
          by (simp add: ex Let_def double_of_int_def min_def)
        have "of_int cash + vb - of_int q * (vb / of_int n - of_int px) =
            of_int (cash + cash_of r) + vb / of_int n * of_int (n - q) - 0"
          using nn sq by (simp add: field_simps)
        then show ?thesis using v n1 sq nn neg vs f b' unfolding balanced_def
          by (intro conjI exI [of _ 0] exI [of _ "vb / of_int n * of_int (n - q)"]) simp_all
      qed
    qed
  qed
qed

lemma balanced_open_only: "balanced n cash p \<Longrightarrow> open_vwap q = open_vwap p \<Longrightarrow> position q = position p \<Longrightarrow>
    real_pnl q = real_pnl p \<Longrightarrow> balanced n cash q"
  by (simp add: balanced_def)

lemma addFill_balanced:
  assumes bal: "balanced n cash p" and ok: "fill_ok n r"
  shows "balanced (n + signed_qty r) (cash + cash_of r) (addFill r p)"
    "total_pnl (addFill r p) = Fin (of_int (cash + cash_of r + (n + signed_qty r) * rs_price r))"
    "volume (addFill r p) = volume p + rs_exec_qty r"
proof -
  let ?n = "n + signed_qty r" and ?c = "cash + cash_of r" and ?p = "fill_position r p"
  note b = fill_position_balanced [OF bal ok]
  have n: "sint (position ?p) = ?n" using b by (simp add: balanced_def)
  have "balanced ?n ?c (addFill r p) \<and> total_pnl (addFill r p) = Fin (of_int (?c + ?n * rs_price r)) \<and>
      volume (addFill r p) = volume p + rs_exec_qty r"
  proof (cases "position ?p = 0")
    case True
    then have z: "?n = 0" using n by simp
    then have "real_pnl ?p = Fin (of_int ?c)" using b by (auto simp: balanced_def)
    then show ?thesis using True z by (auto simp: addFill_def Let_def balanced_def)
  next
    case False
    then have nz: "?n \<noteq> 0" using n by (metis signed_eq_0_iff)
    from open_pnl_balanced [OF b nz, of "of_int (rs_price r)"] obtain u v where
      "open_pnl (Fin (of_int (rs_price r))) ?p = Fin u" "real_pnl ?p = Fin v" "u + v = of_int ?c + of_int ?n * of_int (rs_price r)"
      by blast
    then show ?thesis using False balanced_open_only [OF b]
      by (simp add: addFill_def Let_def double_of_int_def)
  qed
  then show "balanced ?n ?c (addFill r p)" "total_pnl (addFill r p) = Fin (of_int (?c + ?n * rs_price r))"
    "volume (addFill r p) = volume p + rs_exec_qty r" by blast+
qed

subsection \<open>Sequences of fills\<close>

fun fills_ok :: "int \<Rightarrow> MEClientResponse list \<Rightarrow> bool" where
  "fills_ok n [] = True"
| "fills_ok n (r # rs) = (fill_ok n r \<and> fills_ok (n + signed_qty r) rs)"

lemma fills_balanced:
  assumes "balanced n cash p" and "fills_ok n rs"
  shows "balanced (n + sum_list (map signed_qty rs)) (cash + sum_list (map cash_of rs)) (fold addFill rs p) \<and>
     volume (fold addFill rs p) = volume p + sum_list (map rs_exec_qty rs)"
  using assms
proof (induction rs arbitrary: n cash p)
  case Nil
  then show ?case by simp
next
  case (Cons r rs)
  note f = addFill_balanced [OF Cons.prems(1), of r]
  from Cons.IH [OF f(1)] Cons.prems(2) f(3) show ?case by (simp add: ac_simps)
qed

lemma PositionInfo_new_balanced: "vwap 0 = Fin 0 \<Longrightarrow> vwap 2 = Fin 0 \<Longrightarrow> balanced 0 0 (PositionInfo_new vwap)"
  by (simp add: balanced_def PositionInfo_new_def)

text \<open>
  C11. The accounting identity of the position keeper, with exact reals for the doubles: start with an instrument without
  position whose average price array is zero, and take any sequence of fills whose sides are BUY and SELL, whose quantities
  and positions stay below 2^31 and whose prices are below 2^32, such that for each fill against the open position the
  product of the new and the old position is below 2^31 in absolute value (the code tests for a flip with an \<open>int\<close> product;
  beyond this it may miss the flip, see \<open>flip_test_wraps\<close>). Then the position is the signed sum of the executed quantities,
  the volume their sum, and total profit and loss is exactly the cash received minus the cash paid plus the position valued
  at the last fill's price, however the position was opened, increased, reduced, closed or flipped.
\<close>

theorem pnl_is_cash_plus_position:
  assumes "vwap (sideToIndex BUY) = Fin 0" "vwap (sideToIndex SELL) = Fin 0" and "fills_ok 0 (rs @ [r])"
  shows "let p = fold addFill (rs @ [r]) (PositionInfo_new vwap);
             n = (\<Sum>x \<leftarrow> rs @ [r]. signed_qty x) in
     sint (position p) = n \<and> volume p = (\<Sum>x \<leftarrow> rs @ [r]. rs_exec_qty x) \<and>
     total_pnl p = Fin (of_int ((\<Sum>x \<leftarrow> rs @ [r]. cash_of x) + n * rs_price r))"
proof -
  let ?p0 = "PositionInfo_new vwap"
  have app: "fills_ok n (xs @ ys) \<longleftrightarrow> fills_ok n xs \<and> fills_ok (n + sum_list (map signed_qty xs)) ys" for n xs ys
    by (induction xs arbitrary: n) (simp_all add: ac_simps)
  have ok: "fills_ok 0 rs" "fill_ok (sum_list (map signed_qty rs)) r" using assms(3) by (simp_all add: app)
  have p0: "balanced 0 0 ?p0" using assms(1,2) PositionInfo_new_balanced by simp
  from fills_balanced [OF p0 ok(1)] have b: "balanced (sum_list (map signed_qty rs)) (sum_list (map cash_of rs)) (fold addFill rs ?p0)"
    and vol: "volume (fold addFill rs ?p0) = sum_list (map rs_exec_qty rs)"
    by (simp_all add: PositionInfo_new_def)
  note f = addFill_balanced [OF b ok(2)]
  have "sint (position (addFill r (fold addFill rs ?p0))) = sum_list (map signed_qty rs) + signed_qty r"
    using f(1) by (simp add: balanced_def)
  then show ?thesis using f(2,3) vol by (simp add: Let_def)
qed

definition demo_fill :: "Side \<Rightarrow> Price \<Rightarrow> Qty \<Rightarrow> MEClientResponse" where
  "demo_fill s px q = \<lparr>rs_type = FILLED, rs_client_id = 1, rs_ticker_id = 0, rs_client_order_id = 1,
     rs_market_order_id = 1, rs_side = s, rs_price = px, rs_exec_qty = q, rs_leaves_qty = 0\<rparr>"

text \<open>
  Without the bound on the product the identity fails: a position of 50,000 that is reduced by one at its own
  price is taken for flipped and shows a profit of 4,999,900; one that is flipped to 50,000 short at its own price
  is not, and shows a loss of 5,000,000. The cash plus the position at the last price is 0 in both cases.
\<close>

theorem flip_test_wraps:
  "total_pnl (fold addFill [demo_fill BUY 100 50000, demo_fill SELL 100 1] (PositionInfo_new (\<lambda>_. Fin 0))) = Fin 4999900"
  "total_pnl (fold addFill [demo_fill BUY 100 50000, demo_fill SELL 100 100000] (PositionInfo_new (\<lambda>_. Fin 0))) = Fin (- 5000000)"
  by (simp_all add: addFill_def fill_position_def open_pnl_def avg_price_def PositionInfo_new_def demo_fill_def Let_def
      s32_def double_of_int_def del: fill_position_fields)

theorem pnl_is_cash_plus_position_witness:
  "total_pnl (fold addFill [demo_fill BUY 100 10, demo_fill SELL 104 25, demo_fill BUY 99 5]
     (PositionInfo_new (\<lambda>_. Fin 0))) = Fin 115"
proof -
  have "fills_ok 0 ([demo_fill BUY 100 10, demo_fill SELL 104 25] @ [demo_fill BUY 99 5])"
    by (simp add: fill_ok_def signed_qty_def demo_fill_def)
  from pnl_is_cash_plus_position [OF _ _ this, of "\<lambda>_. Fin 0"] show ?thesis
    by (simp add: Let_def demo_fill_def cash_of_def signed_qty_def)
qed

text \<open>
  Marking to market: after any such sequence of fills an update of the best bid and offer, both sides
  valid, makes the total profit and loss of an open position the cash of the fills plus the position valued
  at the mid price, and changes neither position, volume nor realised profit and loss. With no position, or a
  side missing, it changes no profit and loss at all.
\<close>

theorem mark_to_market:
  assumes "vwap (sideToIndex BUY) = Fin 0" "vwap (sideToIndex SELL) = Fin 0" and "fills_ok 0 rs"
  shows "let p = fold addFill rs (PositionInfo_new vwap); q = pos_updateBBO x p in
     position q = position p \<and> volume q = volume p \<and> real_pnl q = real_pnl p \<and>
     (if position p \<noteq> 0 \<and> bid_price x \<noteq> Price_INVALID \<and> ask_price x \<noteq> Price_INVALID
      then total_pnl q = Fin (of_int (\<Sum>y \<leftarrow> rs. cash_of y) + of_int (sint (position p)) * (of_int (bid_price x + ask_price x) / 2))
      else total_pnl q = total_pnl p \<and> unreal_pnl q = unreal_pnl p)"
proof -
  let ?p = "fold addFill rs (PositionInfo_new vwap)"
  let ?n = "sum_list (map signed_qty rs)" and ?mid = "of_int (bid_price x + ask_price x) / 2 :: real"
  have "balanced 0 0 (PositionInfo_new vwap)" using assms(1,2) PositionInfo_new_balanced by simp
  from fills_balanced [OF this assms(3)] have b: "balanced ?n (sum_list (map cash_of rs)) ?p" by simp
  have n: "sint (position ?p) = ?n" using b by (simp add: balanced_def)
  show ?thesis
  proof (cases "position ?p \<noteq> 0 \<and> bid_price x \<noteq> Price_INVALID \<and> ask_price x \<noteq> Price_INVALID")
    case True
    then have nz: "?n \<noteq> 0" using n by (metis signed_eq_0_iff)
    let ?q = "?p\<lparr>pos_bbo := Some x\<rparr>"
    have "balanced ?n (sum_list (map cash_of rs)) ?q" using b by (rule balanced_open_only) simp_all
    from open_pnl_balanced [OF this nz, of ?mid] obtain u v where
      "open_pnl (Fin ?mid) ?q = Fin u" "real_pnl ?q = Fin v" "u + v = of_int (sum_list (map cash_of rs)) + of_int ?n * ?mid"
      by blast
    then have "pos_updateBBO x ?p = ?q\<lparr>unreal_pnl := Fin u, total_pnl := Fin (u + v)\<rparr>"
      using True by (simp add: Let_def pos_updateBBO_def double_of_int_def)
    then show ?thesis using True n \<open>u + v = _\<close> by (simp add: Let_def)
  next
    case False
    then have "pos_updateBBO x ?p = ?p\<lparr>pos_bbo := Some x\<rparr>" by (auto simp: Let_def pos_updateBBO_def)
    then show ?thesis using False by (auto simp: Let_def)
  qed
qed

theorem mark_to_market_witness:
  "total_pnl (pos_updateBBO \<lparr>bid_price = 101, ask_price = 103, bid_qty = 1, ask_qty = 1\<rparr>
     (addFill (demo_fill BUY 100 10) (PositionInfo_new (\<lambda>_. Fin 0)))) = Fin 20"
proof -
  have ok: "fills_ok 0 [demo_fill BUY 100 10]" by (simp add: fill_ok_def signed_qty_def demo_fill_def)
  have pos: "position (addFill (demo_fill BUY 100 10) (PositionInfo_new (\<lambda>_. Fin 0))) = 10"
    by (simp add: addFill_def Let_def demo_fill_def PositionInfo_new_def)
  from mark_to_market [OF _ _ ok, of "\<lambda>_. Fin 0" "\<lparr>bid_price = 101, ask_price = 103, bid_qty = 1, ask_qty = 1\<rparr>"] pos
  show ?thesis by (simp add: Let_def Price_INVALID_def cash_of_def signed_qty_def demo_fill_def)
qed

end
