(* ===== verification/RiskManager.thy ===== *)
theory RiskManager
  imports PositionKeeper
begin

text \<open>
  \<open>trading/strategy/risk_manager.h\<close> and \<open>risk_manager.cpp\<close>: the checks before an order is sent.

  The signed 32-bit arithmetic of the position check is written with \<open>s32\<close>, which wraps. \<open>RiskInfo\<close> points
  into the position keeper; the pointer is the index there. \<open>risk_gate\<close> is what the order manager relies on:
  an allowed order cannot take the position beyond the limit.
\<close>

datatype RiskCheckResult = Risk_INVALID | ORDER_TOO_LARGE | POSITION_TOO_LARGE | LOSS_TOO_LARGE | ALLOWED

fun riskCheckResultToString :: "RiskCheckResult \<Rightarrow> string" where
  "riskCheckResultToString Risk_INVALID = ''INVALID''"
| "riskCheckResultToString ORDER_TOO_LARGE = ''ORDER_TOO_LARGE''"
| "riskCheckResultToString POSITION_TOO_LARGE = ''POSITION_TOO_LARGE''"
| "riskCheckResultToString LOSS_TOO_LARGE = ''LOSS_TOO_LARGE''"
| "riskCheckResultToString ALLOWED = ''ALLOWED''"

record RiskInfo =
  position_info :: nat
  ri_cfg :: RiskCfg

type_synonym risk_manager = "RiskInfo list"

definition risk_manager_new :: "(nat \<Rightarrow> TradeEngineCfg) \<Rightarrow> risk_manager" where
  "risk_manager_new ticker_cfg = map (\<lambda>i. \<lparr>position_info = i, ri_cfg = risk_cfg (ticker_cfg i)\<rparr>) [0..<ME_MAX_TICKERS]"

definition info_checkPreTradeRisk :: "PositionInfo \<Rightarrow> RiskCfg \<Rightarrow> Side \<Rightarrow> Qty \<Rightarrow> RiskCheckResult" where
  "info_checkPreTradeRisk p cfg side qty =
     (if qty > max_order_size cfg then ORDER_TOO_LARGE
      else if s32 \<bar>s32 (sint (position p) + s32 (sideToValue side * sint qty))\<bar> > sint (max_position cfg)
      then POSITION_TOO_LARGE
      else if d_lt (total_pnl p) (max_loss cfg) then LOSS_TOO_LARGE
      else ALLOWED)"

definition checkPreTradeRisk :: "risk_manager \<Rightarrow> position_keeper \<Rightarrow> TickerId \<Rightarrow> Side \<Rightarrow> Qty \<Rightarrow> RiskCheckResult res" where
  "checkPreTradeRisk rm pk ticker_id side qty =
     bindE (atE (length rm) (unat ticker_id)) (\<lambda>i.
     bindE (atE (length pk) (position_info (rm ! i))) (\<lambda>j.
     Inr (info_checkPreTradeRisk (pk ! j) (ri_cfg (rm ! i)) side qty)))"

text \<open>Limits for which the 32-bit sums of the check cannot wrap.\<close>

definition limits_ok :: "RiskCfg \<Rightarrow> bool" where
  "limits_ok cfg \<longleftrightarrow> uint (max_position cfg) + uint (max_order_size cfg) < 2 ^ 31"

lemma sint_small: "uint (q :: 32 word) < 2 ^ 31 \<Longrightarrow> sint q = uint q"
  by (simp add: sint_uint signed_take_bit_int_eq_self order_trans [OF _ uint_ge_0])

lemma position_check_exact:
  fixes qty :: Qty
  assumes "limits_ok cfg" and "\<bar>sint (position p)\<bar> \<le> uint (max_position cfg)" and s: "trading_side side"
    and q: "uint qty \<le> uint (max_order_size cfg)"
  shows "s32 \<bar>s32 (sint (position p) + s32 (sideToValue side * sint qty))\<bar> = \<bar>sint (position p) + sideToValue side * uint qty\<bar>"
    "sint (max_position cfg) = uint (max_position cfg)"
proof -
  have l: "uint (max_position cfg) + uint (max_order_size cfg) < 2 ^ 31" using assms(1) by (simp add: limits_ok_def)
  have nn: "0 \<le> uint (max_position cfg)" "0 \<le> uint qty" "0 \<le> uint (max_order_size cfg)" by simp_all
  have sq: "sint qty = uint qty" by (rule sint_small) (use q l nn in linarith)
  show "sint (max_position cfg) = uint (max_position cfg)" by (rule sint_small) (use l nn in linarith)
  have v: "\<bar>sideToValue side * uint qty\<bar> = uint qty" using s by (auto simp: trading_side_def)
  have s1: "s32 (sideToValue side * uint qty) = sideToValue side * uint qty"
    by (rule s32_small) (use v q l nn in linarith)
  have "\<bar>sint (position p) + sideToValue side * uint qty\<bar> < 2 ^ 31" using v q l nn assms(2) by linarith
  then show "s32 \<bar>s32 (sint (position p) + s32 (sideToValue side * sint qty))\<bar> = \<bar>sint (position p) + sideToValue side * uint qty\<bar>"
    by (simp add: s32_small sq s1)
qed

lemma allowed_position:
  assumes "limits_ok cfg" and "\<bar>sint (position p)\<bar> \<le> uint (max_position cfg)" and s: "trading_side side"
    and "info_checkPreTradeRisk p cfg side qty = ALLOWED"
  shows "uint qty \<le> uint (max_order_size cfg) \<and>
     \<bar>sint (position p) + sideToValue side * uint qty\<bar> \<le> uint (max_position cfg)"
proof -
  have q: "uint qty \<le> uint (max_order_size cfg)"
    using assms(4) by (simp add: info_checkPreTradeRisk_def not_less word_le_def split: if_splits)
  then show ?thesis
    using position_check_exact [OF assms(1-3) q] assms(4) by (simp add: info_checkPreTradeRisk_def split: if_splits)
qed

text \<open>
  The pre-trade check of an instrument whose limits cannot wrap (maximum position plus maximum order
  size below 2 to the 31) and whose position is within its limit: the size is judged against the order limit,
  then the position after a complete fill against the position limit, then total profit and loss against the
  loss limit, and the order is allowed exactly when none is violated.
\<close>

theorem risk_check_exact:
  assumes "limits_ok cfg" and "\<bar>sint (position p)\<bar> \<le> uint (max_position cfg)" and "trading_side side"
  shows "info_checkPreTradeRisk p cfg side qty =
     (if uint qty > uint (max_order_size cfg) then ORDER_TOO_LARGE
      else if \<bar>sint (position p) + sideToValue side * uint qty\<bar> > uint (max_position cfg) then POSITION_TOO_LARGE
      else if d_lt (total_pnl p) (max_loss cfg) then LOSS_TOO_LARGE else ALLOWED)"
proof (cases "uint qty > uint (max_order_size cfg)")
  case True
  then show ?thesis by (simp add: info_checkPreTradeRisk_def word_less_def)
next
  case False
  then show ?thesis using position_check_exact [OF assms, of qty]
    by (simp add: info_checkPreTradeRisk_def word_less_def)
qed

definition demo_cfg :: RiskCfg where
  "demo_cfg = \<lparr>max_order_size = 100, max_position = 150, max_loss = Fin (- 1000)\<rparr>"

theorem risk_check_exact_witness:
  "info_checkPreTradeRisk (addFill (demo_fill BUY 100 90) (PositionInfo_new (\<lambda>_. Fin 0))) demo_cfg BUY 70 = POSITION_TOO_LARGE \<and>
   info_checkPreTradeRisk (addFill (demo_fill BUY 100 90) (PositionInfo_new (\<lambda>_. Fin 0))) demo_cfg SELL 70 = ALLOWED"
proof -
  let ?p = "addFill (demo_fill BUY 100 90) (PositionInfo_new (\<lambda>_. Fin 0))"
  have p: "position ?p = 90" and t: "total_pnl ?p = Fin 0"
    using addFill_balanced [of 0 0 "PositionInfo_new (\<lambda>_. Fin 0)" "demo_fill BUY 100 90"]
    by (simp_all add: PositionInfo_new_balanced fill_ok_def signed_qty_def cash_of_def demo_fill_def)
      (simp add: addFill_def Let_def PositionInfo_new_def)
  have l: "limits_ok demo_cfg" "\<bar>sint (position ?p)\<bar> \<le> uint (max_position demo_cfg)"
    by (simp_all add: limits_ok_def demo_cfg_def p)
  from risk_check_exact [OF l, of BUY 70] risk_check_exact [OF l, of SELL 70] show ?thesis
    by (simp add: p t demo_cfg_def)
qed

end
