(* ===== verification/OrderManager.thy ===== *)
theory OrderManager
  imports RiskManager MatchingEngine
begin

text \<open>
  \<open>trading/strategy/om_order.h\<close>, \<open>order_manager.h\<close> and \<open>order_manager.cpp\<close>: the one order per instrument and
  side that a strategy works, and the requests it sends for it.

  An \<open>OMOrder *\<close> is a pair of indices into \<open>ticker_side_order_\<close>. The requests that \<open>sendClientRequest\<close> of the
  trade engine gets are collected in \<open>om_requests\<close>. The risk manager is the argument \<open>check\<close> of \<open>moveOrder\<close>;
  \<open>risk_gate\<close> is the contract it has to keep, from which follows that working orders never expose the
  account beyond the position limit.
\<close>

datatype OMOrderState = OM_INVALID | PENDING_NEW | LIVE | PENDING_CANCEL | DEAD

fun OMOrderStateToString :: "OMOrderState \<Rightarrow> string" where
  "OMOrderStateToString PENDING_NEW = ''PENDING_NEW''"
| "OMOrderStateToString LIVE = ''LIVE''"
| "OMOrderStateToString PENDING_CANCEL = ''PENDING_CANCEL''"
| "OMOrderStateToString DEAD = ''DEAD''"
| "OMOrderStateToString OM_INVALID = ''INVALID''"

record OMOrder =
  om_ticker_id :: TickerId
  om_order_id :: OrderId
  om_side :: Side
  om_price :: Price
  om_qty :: Qty
  order_state :: OMOrderState

definition OMOrder_default :: OMOrder where
  "OMOrder_default = \<lparr>om_ticker_id = TickerId_INVALID, om_order_id = OrderId_INVALID, om_side = Side_INVALID,
     om_price = Price_INVALID, om_qty = Qty_INVALID, order_state = OM_INVALID\<rparr>"

definition OMOrder_toString :: "OMOrder \<Rightarrow> string" where
  "OMOrder_toString x = ''OMOrder['' @ ''tid:'' @ tickerIdToString (om_ticker_id x) @ '' '' @
     ''oid:'' @ orderIdToString (om_order_id x) @ '' '' @ ''side:'' @ sideToString (om_side x) @ '' '' @
     ''price:'' @ priceToString (om_price x) @ '' '' @ ''qty:'' @ qtyToString (om_qty x) @ '' '' @
     ''state:'' @ OMOrderStateToString (order_state x) @ '']''"

record order_manager =
  ticker_side_order :: "nat \<Rightarrow> nat \<Rightarrow> OMOrder"
  next_order_id :: OrderId
  om_requests :: "MEClientRequest list"

definition order_manager_new :: order_manager where
  "order_manager_new = \<lparr>ticker_side_order = (\<lambda>_ _. OMOrder_default), next_order_id = 1, om_requests = []\<rparr>"

text \<open>\<open>&(ticker_side_order_.at(ticker).at(sideToIndex(side)))\<close>\<close>

type_synonym slot = "nat \<times> nat"

definition order_slot :: "TickerId \<Rightarrow> Side \<Rightarrow> slot res" where
  "order_slot ticker side =
     bindE (atE ME_MAX_TICKERS (unat ticker)) (\<lambda>t. bindE (atE (sideToIndex Side_MAX + 1) (sideToIndex side)) (\<lambda>i. Inr (t, i)))"

definition get_order :: "slot \<Rightarrow> order_manager \<Rightarrow> OMOrder" where
  "get_order k om = ticker_side_order om (fst k) (snd k)"

definition set_order :: "slot \<Rightarrow> OMOrder \<Rightarrow> order_manager \<Rightarrow> order_manager" where
  "set_order k x om = om\<lparr>ticker_side_order := (ticker_side_order om)(fst k := (ticker_side_order om (fst k))(snd k := x))\<rparr>"

definition om_send :: "MEClientRequest \<Rightarrow> order_manager \<Rightarrow> order_manager" where
  "om_send r om = om\<lparr>om_requests := om_requests om @ [r]\<rparr>"

definition newOrder :: "ClientId \<Rightarrow> slot \<Rightarrow> TickerId \<Rightarrow> Price \<Rightarrow> Side \<Rightarrow> Qty \<Rightarrow> order_manager \<Rightarrow> order_manager" where
  "newOrder client k tk price side qty om =
     (let om1 = om_send \<lparr>rq_type = NEW, rq_client_id = client, rq_ticker_id = tk, rq_order_id = next_order_id om,
            rq_side = side, rq_price = price, rq_qty = qty\<rparr> om;
          om2 = set_order k \<lparr>om_ticker_id = tk, om_order_id = next_order_id om1, om_side = side, om_price = price,
            om_qty = qty, order_state = PENDING_NEW\<rparr> om1
      in om2\<lparr>next_order_id := next_order_id om2 + 1\<rparr>)"

definition cancelOrder :: "ClientId \<Rightarrow> slot \<Rightarrow> order_manager \<Rightarrow> order_manager" where
  "cancelOrder client k om =
     (let x = get_order k om;
          om1 = om_send \<lparr>rq_type = Request_CANCEL, rq_client_id = client, rq_ticker_id = om_ticker_id x,
            rq_order_id = om_order_id x, rq_side = om_side x, rq_price = om_price x, rq_qty = om_qty x\<rparr> om
      in set_order k (x\<lparr>order_state := PENDING_CANCEL\<rparr>) om1)"

definition moveOrder :: "(TickerId \<Rightarrow> Side \<Rightarrow> Qty \<Rightarrow> RiskCheckResult res) \<Rightarrow> ClientId \<Rightarrow> slot \<Rightarrow>
    TickerId \<Rightarrow> Price \<Rightarrow> Side \<Rightarrow> Qty \<Rightarrow> order_manager \<Rightarrow> order_manager res" where
  "moveOrder check client k tk price side qty om =
     (case order_state (get_order k om) of
        LIVE \<Rightarrow> Inr (if om_price (get_order k om) \<noteq> price then cancelOrder client k om else om)
      | OM_INVALID \<Rightarrow>
          if price \<noteq> Price_INVALID
          then bindE (check tk side qty) (\<lambda>risk_result.
               Inr (if risk_result = ALLOWED then newOrder client k tk price side qty om else om))
          else Inr om
      | DEAD \<Rightarrow>
          if price \<noteq> Price_INVALID
          then bindE (check tk side qty) (\<lambda>risk_result.
               Inr (if risk_result = ALLOWED then newOrder client k tk price side qty om else om))
          else Inr om
      | PENDING_NEW \<Rightarrow> Inr om
      | PENDING_CANCEL \<Rightarrow> Inr om)"

definition moveOrders :: "(TickerId \<Rightarrow> Side \<Rightarrow> Qty \<Rightarrow> RiskCheckResult res) \<Rightarrow> ClientId \<Rightarrow>
    TickerId \<Rightarrow> Price \<Rightarrow> Price \<Rightarrow> Qty \<Rightarrow> order_manager \<Rightarrow> order_manager res" where
  "moveOrders check client tk bid_px ask_px clp om =
     bindE (order_slot tk BUY) (\<lambda>bid_order.
     bindE (moveOrder check client bid_order tk bid_px BUY clp om) (\<lambda>om1.
     bindE (order_slot tk SELL) (\<lambda>ask_order.
     moveOrder check client ask_order tk ask_px SELL clp om1)))"

definition om_onOrderUpdate :: "MEClientResponse \<Rightarrow> order_manager \<Rightarrow> order_manager res" where
  "om_onOrderUpdate r om =
     bindE (order_slot (rs_ticker_id r) (rs_side r)) (\<lambda>k.
     let x = get_order k om in
     Inr (case rs_type r of
        ACCEPTED \<Rightarrow> set_order k (x\<lparr>order_state := LIVE\<rparr>) om
      | CANCELED \<Rightarrow> set_order k (x\<lparr>order_state := DEAD\<rparr>) om
      | FILLED \<Rightarrow>
          (let om1 = set_order k (x\<lparr>om_qty := rs_leaves_qty r\<rparr>) om in
           if om_qty (get_order k om1) = 0 then set_order k ((get_order k om1)\<lparr>order_state := DEAD\<rparr>) om1 else om1)
      | CANCEL_REJECTED \<Rightarrow> om
      | Response_INVALID \<Rightarrow> om))"

subsection \<open>Slots\<close>

lemma order_slot_in: "unat t < ME_MAX_TICKERS \<Longrightarrow> order_slot t s = Inr (unat t, sideToIndex s)"
  using sideToIndex_less [of s] by (simp add: order_slot_def)

lemma order_slot_out: "\<not> unat t < ME_MAX_TICKERS \<Longrightarrow> order_slot t s = Inl OutOfRange"
  by (simp add: order_slot_def)

lemma get_set_order [simp]: "get_order k (set_order j x om) = (if k = j then x else get_order k om)"
  by (cases k; cases j) (auto simp: get_order_def set_order_def)

lemma get_order_updates [simp]:
  "get_order k (om_send r om) = get_order k om" "get_order k (om\<lparr>next_order_id := n\<rparr>) = get_order k om"
  by (simp_all add: get_order_def om_send_def)

lemma om_fields [simp]:
  "next_order_id (set_order k x om) = next_order_id om" "om_requests (set_order k x om) = om_requests om"
  "next_order_id (om_send r om) = next_order_id om" "om_requests (om_send r om) = om_requests om @ [r]"
  by (simp_all add: set_order_def om_send_def)

lemma newOrder_simps [simp]:
  "get_order j (newOrder c k t px s q om) = (if j = k then \<lparr>om_ticker_id = t, om_order_id = next_order_id om, om_side = s,
     om_price = px, om_qty = q, order_state = PENDING_NEW\<rparr> else get_order j om)"
  "next_order_id (newOrder c k t px s q om) = next_order_id om + 1"
  "om_requests (newOrder c k t px s q om) = om_requests om @ [\<lparr>rq_type = NEW, rq_client_id = c, rq_ticker_id = t,
     rq_order_id = next_order_id om, rq_side = s, rq_price = px, rq_qty = q\<rparr>]"
  by (simp_all add: newOrder_def Let_def)

lemma cancelOrder_simps [simp]:
  "get_order j (cancelOrder c k om) = (if j = k then (get_order k om)\<lparr>order_state := PENDING_CANCEL\<rparr> else get_order j om)"
  "next_order_id (cancelOrder c k om) = next_order_id om"
  "om_requests (cancelOrder c k om) = om_requests om @ [\<lparr>rq_type = Request_CANCEL, rq_client_id = c,
     rq_ticker_id = om_ticker_id (get_order k om), rq_order_id = om_order_id (get_order k om),
     rq_side = om_side (get_order k om), rq_price = om_price (get_order k om), rq_qty = om_qty (get_order k om)\<rparr>]"
  by (simp_all add: cancelOrder_def Let_def)

lemma om_onOrderUpdate_in:
  assumes "unat (rs_ticker_id r) < ME_MAX_TICKERS"
  shows "om_onOrderUpdate r om = Inr (let k = (unat (rs_ticker_id r), sideToIndex (rs_side r)); x = get_order k om in
     case rs_type r of
        ACCEPTED \<Rightarrow> set_order k (x\<lparr>order_state := LIVE\<rparr>) om
      | CANCELED \<Rightarrow> set_order k (x\<lparr>order_state := DEAD\<rparr>) om
      | FILLED \<Rightarrow> (if rs_leaves_qty r = 0 then set_order k (x\<lparr>om_qty := 0, order_state := DEAD\<rparr>) om
                   else set_order k (x\<lparr>om_qty := rs_leaves_qty r\<rparr>) om)
      | _ \<Rightarrow> om)"
  by (cases "rs_type r") (simp_all add: om_onOrderUpdate_def order_slot_in [OF assms] Let_def, simp add: set_order_def)

subsection \<open>Exposure\<close>

definition working :: "OMOrder \<Rightarrow> bool" where
  "working x \<longleftrightarrow> order_state x = PENDING_NEW \<or> order_state x = LIVE \<or> order_state x = PENDING_CANCEL"

text \<open>The position \<open>n\<close> is within the limit, and stays so if a working order is filled completely.\<close>

definition exposed :: "int \<Rightarrow> int \<Rightarrow> nat \<Rightarrow> order_manager \<Rightarrow> bool" where
  "exposed limit n t om \<longleftrightarrow> \<bar>n\<bar> \<le> limit \<and>
     (working (get_order (t, sideToIndex BUY) om) \<longrightarrow> n + uint (om_qty (get_order (t, sideToIndex BUY) om)) \<le> limit) \<and>
     (working (get_order (t, sideToIndex SELL) om) \<longrightarrow> - limit \<le> n - uint (om_qty (get_order (t, sideToIndex SELL) om)))"

lemma exposed_cancel: "exposed limit n t om \<Longrightarrow> order_state (get_order k om) = LIVE \<Longrightarrow> exposed limit n t (cancelOrder c k om)"
  by (cases k) (auto simp: exposed_def working_def)

lemma exposed_new:
  assumes "exposed limit n t om" and "trading_side side" and "\<bar>n + sideToValue side * uint q\<bar> \<le> limit"
  shows "exposed limit n t (newOrder c (t, sideToIndex side) tk px side q om)"
  using assms by (auto simp: exposed_def working_def trading_side_def)

text \<open>No working order is larger than \<open>m\<close>.\<close>

definition sized :: "int \<Rightarrow> nat \<Rightarrow> order_manager \<Rightarrow> bool" where
  "sized m t om \<longleftrightarrow> (\<forall>i. working (get_order (t, i) om) \<longrightarrow> uint (om_qty (get_order (t, i) om)) \<le> m)"

lemma sized_cancel: "sized m t om \<Longrightarrow> order_state (get_order k om) = LIVE \<Longrightarrow> sized m t (cancelOrder c k om)"
  by (cases k) (auto simp: sized_def working_def)

lemma sized_new: "sized m t om \<Longrightarrow> uint q \<le> m \<Longrightarrow> sized m t (newOrder c k tk px side q om)"
  by (cases k) (auto simp: sized_def)

lemma sized_cong: "(\<And>i. get_order (t, i) om' = get_order (t, i) om) \<Longrightarrow> sized m t om' = sized m t om"
  by (simp add: sized_def)

locale risk_gate =
  fixes check :: "'s \<Rightarrow> TickerId \<Rightarrow> Side \<Rightarrow> Qty \<Rightarrow> RiskCheckResult res"
    and pos :: "'s \<Rightarrow> TickerId \<Rightarrow> int" and limit :: "'s \<Rightarrow> TickerId \<Rightarrow> int" and ready :: "'s \<Rightarrow> TickerId \<Rightarrow> bool"
    and size :: "'s \<Rightarrow> TickerId \<Rightarrow> int"
  assumes returns: "ready s t \<Longrightarrow> \<exists>v. check s t side q = Inr v"
    and allowed: "ready s t \<Longrightarrow> trading_side side \<Longrightarrow> \<bar>pos s t\<bar> \<le> limit s t \<Longrightarrow> check s t side q = Inr ALLOWED \<Longrightarrow>
      uint q \<le> size s t \<and> \<bar>pos s t + sideToValue side * uint q\<bar> \<le> limit s t"
begin

lemma moveOrder_exposed:
  assumes "ready s t" and "trading_side side" and "exposed (limit s t) (pos s t) (unat t) om"
  shows "\<exists>om'. moveOrder (check s) c (unat t, sideToIndex side) t px side q om = Inr om' \<and>
     exposed (limit s t) (pos s t) (unat t) om' \<and> (sized (size s t) (unat t) om \<longrightarrow> sized (size s t) (unat t) om')"
proof -
  obtain v where v: "check s t side q = Inr v" using returns [OF assms(1)] by blast
  have "\<bar>pos s t\<bar> \<le> limit s t" using assms(3) by (simp add: exposed_def)
  then have "v = ALLOWED \<Longrightarrow> uint q \<le> size s t \<and> \<bar>pos s t + sideToValue side * uint q\<bar> \<le> limit s t"
    using allowed [OF assms(1,2)] v by simp
  then show ?thesis using assms v exposed_cancel exposed_new sized_cancel sized_new
    by (cases "order_state (get_order (unat t, sideToIndex side) om)") (auto simp: moveOrder_def)
qed

lemma moveOrders_exposed:
  assumes "ready s t" and "unat t < ME_MAX_TICKERS" and "exposed (limit s t) (pos s t) (unat t) om"
  shows "\<exists>om'. moveOrders (check s) c t bid ask q om = Inr om' \<and> exposed (limit s t) (pos s t) (unat t) om' \<and>
     (sized (size s t) (unat t) om \<longrightarrow> sized (size s t) (unat t) om')"
proof -
  from moveOrder_exposed [OF assms(1) _ assms(3), of BUY c bid q] obtain om1 where
    "moveOrder (check s) c (unat t, sideToIndex BUY) t bid BUY q om = Inr om1" "exposed (limit s t) (pos s t) (unat t) om1"
    "sized (size s t) (unat t) om \<longrightarrow> sized (size s t) (unat t) om1" by auto
  moreover from moveOrder_exposed [OF assms(1) _ this(2), of SELL c ask q] obtain om2 where
    "moveOrder (check s) c (unat t, sideToIndex SELL) t ask SELL q om1 = Inr om2" "exposed (limit s t) (pos s t) (unat t) om2"
    "sized (size s t) (unat t) om1 \<longrightarrow> sized (size s t) (unat t) om2" by auto
  ultimately show ?thesis by (simp add: moveOrders_def order_slot_in [OF assms(2)])
qed

end

text \<open>The risk manager keeps the contract.\<close>

definition position_of :: "risk_manager \<times> position_keeper \<Rightarrow> TickerId \<Rightarrow> int" where
  "position_of s t = sint (position (snd s ! position_info (fst s ! unat t)))"

definition limit_of :: "risk_manager \<times> position_keeper \<Rightarrow> TickerId \<Rightarrow> int" where
  "limit_of s t = uint (max_position (ri_cfg (fst s ! unat t)))"

definition size_of :: "risk_manager \<times> position_keeper \<Rightarrow> TickerId \<Rightarrow> int" where
  "size_of s t = uint (max_order_size (ri_cfg (fst s ! unat t)))"

definition risk_ready :: "risk_manager \<times> position_keeper \<Rightarrow> TickerId \<Rightarrow> bool" where
  "risk_ready s t \<longleftrightarrow> unat t < length (fst s) \<and> position_info (fst s ! unat t) < length (snd s) \<and>
     limits_ok (ri_cfg (fst s ! unat t))"

interpretation risk: risk_gate "\<lambda>s. checkPreTradeRisk (fst s) (snd s)" position_of limit_of risk_ready size_of
proof (unfold_locales, goal_cases)
  case (1 s t side q)
  then show ?case by (simp add: checkPreTradeRisk_def risk_ready_def)
next
  case (2 s t side q)
  then show ?case using allowed_position [of "ri_cfg (fst s ! unat t)" _ side q]
    by (auto simp: checkPreTradeRisk_def risk_ready_def position_of_def limit_of_def size_of_def)
qed

subsection \<open>Other instruments\<close>

lemma moveOrder_other:
  assumes "moveOrder check c k t px side q om = Inr om'" and "j \<noteq> k"
  shows "get_order j om' = get_order j om"
  using assms by (cases "order_state (get_order k om)") (auto simp: moveOrder_def res_simps split: if_splits)

lemma moveOrders_other:
  assumes "moveOrders check c t bid ask q om = Inr om'" and "fst j \<noteq> unat t"
  shows "get_order j om' = get_order j om"
proof -
  have t: "unat t < ME_MAX_TICKERS" using assms(1) order_slot_out [of t BUY] by (cases "unat t < ME_MAX_TICKERS") (auto simp: moveOrders_def)
  from assms(1) obtain om1 where m: "moveOrder check c (unat t, sideToIndex BUY) t bid BUY q om = Inr om1"
    "moveOrder check c (unat t, sideToIndex SELL) t ask SELL q om1 = Inr om'"
    by (auto simp: moveOrders_def order_slot_in [OF t] res_simps)
  have "j \<noteq> (unat t, x)" for x using assms(2) by auto
  then show ?thesis using moveOrder_other [OF m(1)] moveOrder_other [OF m(2)] by metis
qed

lemma exposed_cong:
  "(\<And>i. get_order (t, i) om' = get_order (t, i) om) \<Longrightarrow> exposed limit n t om' = exposed limit n t om"
  by (simp add: exposed_def)

subsection \<open>Responses\<close>

text \<open>
  A response about the order the client has in mind: an acknowledgement for an order that waits for one, a fill of a
  working order for no more than its quantity. The exchange's fills leave exactly the rest; those of the backtest's
  simulator may leave less.
\<close>

definition response_ok :: "MEClientResponse \<Rightarrow> order_manager \<Rightarrow> bool" where
  "response_ok r om \<longleftrightarrow> unat (rs_ticker_id r) < ME_MAX_TICKERS \<and>
     (let x = get_order (unat (rs_ticker_id r), sideToIndex (rs_side r)) om in
      (rs_type r = ACCEPTED \<longrightarrow> order_state x = PENDING_NEW) \<and>
      (rs_type r = FILLED \<longrightarrow> trading_side (rs_side r) \<and> working x \<and>
         uint (rs_leaves_qty r) + uint (rs_exec_qty r) \<le> uint (om_qty x)))"

definition filled_qty :: "MEClientResponse \<Rightarrow> int" where
  "filled_qty r = (if rs_type r = FILLED then signed_qty r else 0)"

lemma exposed_fill:
  assumes "exposed limit n t om" and "trading_side side" and "working (get_order (t, sideToIndex side) om)"
    and "uint (om_qty y) + e \<le> uint (om_qty (get_order (t, sideToIndex side) om))" and "0 \<le> e"
  shows "exposed limit (n + sideToValue side * e) t (set_order (t, sideToIndex side) y om)"
proof -
  have "e \<le> uint (om_qty (get_order (t, sideToIndex side) om))" using assms(4) uint_ge_0 [of "om_qty y"] by linarith
  moreover have "side = BUY \<or> side = SELL" using assms(2) by (simp add: trading_side_def)
  ultimately show ?thesis using assms by (elim disjE) (auto simp: exposed_def)
qed

lemma exposed_set:
  assumes "exposed limit n t om" and "working y \<longrightarrow> working (get_order k om) \<and> om_qty y = om_qty (get_order k om)"
  shows "exposed limit n t (set_order k y om)"
  using assms by (auto simp: exposed_def)

lemma sized_set:
  assumes "sized m t om" and "working y \<longrightarrow> working (get_order k om) \<and> om_qty y \<le> om_qty (get_order k om)"
  shows "sized m t (set_order k y om)"
  using assms by (auto simp: sized_def word_le_def intro: order_trans)

lemma response_sized:
  assumes ok: "response_ok r om" and m: "sized m t om" and u: "om_onOrderUpdate r om = Inr om'"
  shows "sized m t om'"
proof -
  have t: "unat (rs_ticker_id r) < ME_MAX_TICKERS" using ok by (simp add: response_ok_def)
  note e = u [unfolded om_onOrderUpdate_in [OF t], simplified]
  let ?k = "(unat (rs_ticker_id r), sideToIndex (rs_side r))"
  show ?thesis
  proof (cases "rs_type r")
    case FILLED
    have x: "working (get_order ?k om)" "uint (rs_leaves_qty r) + uint (rs_exec_qty r) \<le> uint (om_qty (get_order ?k om))"
      using ok FILLED by (simp_all add: response_ok_def Let_def)
    have "rs_leaves_qty r \<le> om_qty (get_order ?k om)" using x(2) uint_ge_0 [of "rs_exec_qty r"] unfolding word_le_def by linarith
    moreover obtain y where "om' = set_order ?k y om" "om_qty y = rs_leaves_qty r"
      using e FILLED by (auto simp: Let_def split: if_splits)
    ultimately show ?thesis using x(1) by (auto intro!: sized_set [OF m])
  next
    case ACCEPTED
    then have "order_state (get_order ?k om) = PENDING_NEW" using ok by (simp add: response_ok_def Let_def)
    then show ?thesis using e ACCEPTED by (auto simp: Let_def working_def intro!: sized_set [OF m])
  next
    case CANCELED
    then show ?thesis using e by (auto simp: Let_def working_def intro!: sized_set [OF m])
  qed (use m e in \<open>simp_all add: Let_def\<close>)
qed

lemma response_exposed:
  assumes ok: "response_ok r om" and ex: "exposed limit n (unat (rs_ticker_id r)) om"
    and u: "om_onOrderUpdate r om = Inr om'"
  shows "exposed limit (n + filled_qty r) (unat (rs_ticker_id r)) om'"
proof -
  have t: "unat (rs_ticker_id r) < ME_MAX_TICKERS" using ok by (simp add: response_ok_def)
  note e = u [unfolded om_onOrderUpdate_in [OF t], simplified]
  show ?thesis
  proof (cases "rs_type r")
    case FILLED
    have x: "trading_side (rs_side r)" "working (get_order (unat (rs_ticker_id r), sideToIndex (rs_side r)) om)"
      "uint (rs_leaves_qty r) + uint (rs_exec_qty r) \<le> uint (om_qty (get_order (unat (rs_ticker_id r), sideToIndex (rs_side r)) om))"
      using ok FILLED by (simp_all add: response_ok_def Let_def)
    obtain y where "om' = set_order (unat (rs_ticker_id r), sideToIndex (rs_side r)) y om" "om_qty y = rs_leaves_qty r"
      using e FILLED by (auto simp: Let_def split: if_splits)
    then show ?thesis using exposed_fill [OF ex x(1,2), of y "uint (rs_exec_qty r)"] x(3) FILLED
      by (simp add: filled_qty_def signed_qty_def)
  next
    case ACCEPTED
    then have "order_state (get_order (unat (rs_ticker_id r), sideToIndex (rs_side r)) om) = PENDING_NEW"
      using ok by (simp add: response_ok_def Let_def)
    then have "exposed limit n (unat (rs_ticker_id r)) om'"
      using e ACCEPTED by (auto simp: Let_def working_def intro!: exposed_set [OF ex])
    then show ?thesis using ACCEPTED by (simp add: filled_qty_def)
  next
    case CANCELED
    then have "exposed limit n (unat (rs_ticker_id r)) om'"
      using e by (auto simp: Let_def working_def intro!: exposed_set [OF ex])
    then show ?thesis using CANCELED by (simp add: filled_qty_def)
  qed (use ex e in \<open>simp_all add: filled_qty_def Let_def\<close>)
qed

lemma response_other:
  assumes "om_onOrderUpdate r om = Inr om'" and "fst j \<noteq> unat (rs_ticker_id r)"
  shows "get_order j om' = get_order j om"
proof -
  have t: "unat (rs_ticker_id r) < ME_MAX_TICKERS"
    using assms(1) order_slot_out [of "rs_ticker_id r" "rs_side r"]
    by (cases "unat (rs_ticker_id r) < ME_MAX_TICKERS") (auto simp: om_onOrderUpdate_def)
  have "j \<noteq> (unat (rs_ticker_id r), x)" for x using assms(2) by auto
  then show ?thesis using assms(1) unfolding om_onOrderUpdate_in [OF t]
    by (cases "rs_type r") (auto simp: Let_def split: if_splits)
qed

subsection \<open>The order ids a client sends\<close>

datatype om_call = MoveOrders "TickerId \<Rightarrow> Side \<Rightarrow> Qty \<Rightarrow> RiskCheckResult res" TickerId Price Price Qty
  | OnOrderUpdate MEClientResponse

fun om_exec :: "ClientId \<Rightarrow> om_call \<Rightarrow> order_manager \<Rightarrow> order_manager res" where
  "om_exec c (MoveOrders check t bid ask q) om = moveOrders check c t bid ask q om"
| "om_exec c (OnOrderUpdate r) om = om_onOrderUpdate r om"

text \<open>The ids of the new orders sent so far are the first ones counted from 1.\<close>

definition new_order_ids :: "MEClientRequest list \<Rightarrow> OrderId list" where
  "new_order_ids rs = map rq_order_id (filter (\<lambda>r. rq_type r = NEW) rs)"

definition ids_counted :: "order_manager \<Rightarrow> bool" where
  "ids_counted om \<longleftrightarrow> new_order_ids (om_requests om) = map (\<lambda>i. word_of_nat (i + 1)) [0..<length (new_order_ids (om_requests om))] \<and>
     next_order_id om = word_of_nat (length (new_order_ids (om_requests om)) + 1)"

lemma new_order_ids_append [simp]: "new_order_ids (xs @ ys) = new_order_ids xs @ new_order_ids ys"
  by (simp add: new_order_ids_def)

lemma ids_counted_new: "ids_counted om \<Longrightarrow> ids_counted (newOrder c k t px s q om)"
  by (simp add: ids_counted_def) (simp add: new_order_ids_def add.commute)

lemma ids_counted_cancel: "ids_counted om \<Longrightarrow> ids_counted (cancelOrder c k om)"
  by (simp add: ids_counted_def) (simp add: new_order_ids_def)

lemma moveOrder_counted:
  assumes "moveOrder check c k t px side q om = Inr om'" and "ids_counted om"
  shows "ids_counted om' \<and> (\<forall>r \<in> set (om_requests om'). r \<in> set (om_requests om) \<or> rq_client_id r = c)"
  using assms ids_counted_new [OF assms(2), of c k t px side q] ids_counted_cancel [OF assms(2), of c k]
  by (cases "order_state (get_order k om)") (auto simp: moveOrder_def res_simps split: if_splits)

lemma om_exec_counted:
  assumes "om_exec c call om = Inr om'" and "ids_counted om"
  shows "ids_counted om' \<and> (\<forall>r \<in> set (om_requests om'). r \<in> set (om_requests om) \<or> rq_client_id r = c)"
proof (cases call)
  case (MoveOrders check t bid ask q)
  then obtain k j om1 where m: "moveOrder check c k t bid BUY q om = Inr om1" "moveOrder check c j t ask SELL q om1 = Inr om'"
    using assms(1) by (auto simp: moveOrders_def res_simps)
  from moveOrder_counted [OF m(1) assms(2)] moveOrder_counted [OF m(2)] show ?thesis by blast
next
  case (OnOrderUpdate r)
  then obtain k where "order_slot (rs_ticker_id r) (rs_side r) = Inr k" using assms(1) by (auto simp: om_onOrderUpdate_def res_simps)
  then have "om_requests om' = om_requests om" "next_order_id om' = next_order_id om"
    using assms(1) OnOrderUpdate by (cases "rs_type r"; auto simp: om_onOrderUpdate_def Let_def split: if_splits)+
  then show ?thesis using assms(2) by (simp add: ids_counted_def)
qed

lemma om_run_counted:
  assumes "foldE (om_exec c) calls om = Inr om'" and "ids_counted om" and "\<forall>r \<in> set (om_requests om). rq_client_id r = c"
  shows "ids_counted om' \<and> (\<forall>r \<in> set (om_requests om'). rq_client_id r = c)"
  using assms
proof (induction calls arbitrary: om)
  case Nil
  then show ?case by simp
next
  case (Cons call calls)
  then obtain om1 where "om_exec c call om = Inr om1" "foldE (om_exec c) calls om1 = Inr om'" by (auto simp: res_simps)
  with Cons.IH [of om1] om_exec_counted [of c call om om1] Cons.prems(2,3) show ?case by blast
qed

text \<open>
  C26. A client never reuses an order id: whatever a strategy asks the order manager to do and whatever
  responses arrive, the new orders it sends are numbered 1, 2, 3 and so on, all with its own client id; as long
  as there are fewer than 2 to the 64 of them the pairs of client and order id are all different, which is what
  the exchange's book needs to find an order again.
\<close>

theorem order_ids_never_reused:
  assumes "foldE (om_exec c) calls order_manager_new = Inr om" and "length (new_order_ids (om_requests om)) < 2 ^ 64 - 1"
  shows "new_order_ids (om_requests om) = map (\<lambda>i. word_of_nat (i + 1)) [0..<length (new_order_ids (om_requests om))] \<and>
     distinct (new_ids (om_requests om)) \<and> (\<forall>r \<in> set (om_requests om). rq_client_id r = c)"
proof -
  let ?ids = "new_order_ids (om_requests om)"
  have "ids_counted order_manager_new" by (simp add: ids_counted_def order_manager_new_def new_order_ids_def)
  from om_run_counted [OF assms(1) this] have c: "ids_counted om" "\<forall>r \<in> set (om_requests om). rq_client_id r = c"
    by (simp_all add: order_manager_new_def)
  then have e: "?ids = map (\<lambda>i. word_of_nat (i + 1)) [0..<length ?ids]" by (simp add: ids_counted_def)
  have inj: "inj_on (\<lambda>i. word_of_nat (i + 1) :: OrderId) {0..<length ?ids}"
  proof (rule inj_onI)
    fix i j assume "i \<in> {0..<length ?ids}" "j \<in> {0..<length ?ids}" and w: "(word_of_nat (i + 1) :: OrderId) = word_of_nat (j + 1)"
    then have ij: "i + 1 < 2 ^ 64" "j + 1 < 2 ^ 64" using assms(2) by simp_all
    have "unat (word_of_nat k :: OrderId) = k" if "k < 2 ^ 64" for k
      using that by (simp add: unsigned_of_nat take_bit_nat_eq_self)
    from this [OF ij(1)] this [OF ij(2)] w show "i = j" by (metis add_right_cancel)
  qed
  then have "distinct (map (\<lambda>i. word_of_nat (i + 1) :: OrderId) [0..<length ?ids])"
    unfolding distinct_map by simp
  then have "distinct ?ids" using e by metis
  moreover have "new_ids (om_requests om) = map (Pair c) ?ids"
    using c(2) by (simp add: new_ids_def new_order_ids_def)
  ultimately have "distinct (new_ids (om_requests om))" by (simp add: distinct_map inj_on_def)
  then show ?thesis using c(2) e by blast
qed

theorem order_ids_never_reused_witness:
  "\<exists>om. foldE (om_exec 7) [MoveOrders (\<lambda>_ _ _. Inr ALLOWED) 0 100 102 5] order_manager_new = Inr om \<and>
     new_order_ids (om_requests om) = [1, 2] \<and> distinct (new_ids (om_requests om))"
proof -
  let ?calls = "[MoveOrders (\<lambda>_ _ _. Inr ALLOWED) 0 100 102 5]"
  have d: "get_order k order_manager_new = OMOrder_default" for k by (simp add: get_order_def order_manager_new_def)
  obtain om where om: "foldE (om_exec 7) ?calls order_manager_new = Inr om" "new_order_ids (om_requests om) = [1, 2]"
    by (simp add: moveOrders_def order_slot_in ME_MAX_TICKERS_def moveOrder_def d OMOrder_default_def Price_INVALID_def)
      (simp add: order_manager_new_def new_order_ids_def)
  with order_ids_never_reused [OF om(1)] show ?thesis by auto
qed

text \<open>
  What one call for one side sends: for an order that does not exist or is dead, one new order at the
  wanted price and quantity when a price is wanted and the risk check allows it; for a live order at another
  price one cancel; nothing in every other case, in particular nothing while a request is pending and nothing
  for a live order at the wanted price whose quantity is not the wanted one.
\<close>

theorem moveOrder_sends:
  assumes "check tk side qty = Inr v"
  shows "\<exists>om'. moveOrder check c k tk price side qty om = Inr om' \<and>
     (let x = get_order k om; st = order_state x in
      if (st = OM_INVALID \<or> st = DEAD) \<and> price \<noteq> Price_INVALID \<and> v = ALLOWED
      then om_requests om' = om_requests om @ [\<lparr>rq_type = NEW, rq_client_id = c, rq_ticker_id = tk,
             rq_order_id = next_order_id om, rq_side = side, rq_price = price, rq_qty = qty\<rparr>] \<and>
           order_state (get_order k om') = PENDING_NEW \<and> om_qty (get_order k om') = qty
      else if st = LIVE \<and> om_price x \<noteq> price
      then om_requests om' = om_requests om @ [\<lparr>rq_type = Request_CANCEL, rq_client_id = c, rq_ticker_id = om_ticker_id x,
             rq_order_id = om_order_id x, rq_side = om_side x, rq_price = om_price x, rq_qty = om_qty x\<rparr>] \<and>
           order_state (get_order k om') = PENDING_CANCEL
      else om' = om)"
  using assms by (cases "order_state (get_order k om)") (simp_all add: moveOrder_def Let_def)

theorem moveOrder_sends_witness:
  "\<exists>om'. moveOrder (\<lambda>_ _ _. Inr ALLOWED) 7 (0, 2) 0 100 BUY 5 order_manager_new = Inr om' \<and>
     length (om_requests om') = 1"
proof -
  have "order_state (get_order (0, 2) order_manager_new) = OM_INVALID"
    by (simp add: get_order_def order_manager_new_def OMOrder_default_def)
  with moveOrder_sends [of "\<lambda>_ _ _. Inr ALLOWED" 0 BUY 5 ALLOWED 7 "(0, 2)" 100 order_manager_new] show ?thesis
    by (auto simp: Price_INVALID_def order_manager_new_def)
qed

end
