(* ===== verification/Strategies.thy ===== *)
theory Strategies
  imports OrderManager
begin

text \<open>
  \<open>trading/strategy/feature_engine.h\<close>, \<open>market_maker.h\<close> and \<open>liquidity_taker.h\<close>: the two numbers computed from
  market data and the two algorithms that quote or trade on them.

  The algorithms end in one call of \<open>moveOrders\<close> or in none; \<open>quote\<close> is that call. Each handler gets the best bid
  and offer of the book it is called with. \<open>fair_price != Feature_INVALID\<close> compares with a not-a-number and is kept
  as written.
\<close>

definition Feature_INVALID :: double where
  "Feature_INVALID = NaN"

record feature_engine =
  mkt_price :: double
  agg_trade_qty_ratio :: double

definition feature_engine_new :: feature_engine where
  "feature_engine_new = \<lparr>mkt_price = Feature_INVALID, agg_trade_qty_ratio = Feature_INVALID\<rparr>"

definition bbo_valid :: "BBO \<Rightarrow> bool" where
  "bbo_valid x \<longleftrightarrow> bid_price x \<noteq> Price_INVALID \<and> ask_price x \<noteq> Price_INVALID"

definition fe_onOrderBookUpdate :: "BBO \<Rightarrow> feature_engine \<Rightarrow> feature_engine" where
  "fe_onOrderBookUpdate x fe =
     (if bid_price x \<noteq> Price_INVALID \<and> ask_price x \<noteq> Price_INVALID
      then fe\<lparr>mkt_price := d_div (double_of_int (bid_price x * uint (ask_qty x) + ask_price x * uint (bid_qty x)))
                             (double_of_int (uint (bid_qty x + ask_qty x)))\<rparr>
      else fe)"

definition fe_onTradeUpdate :: "MEMarketUpdate \<Rightarrow> BBO \<Rightarrow> feature_engine \<Rightarrow> feature_engine" where
  "fe_onTradeUpdate u x fe =
     (if bid_price x \<noteq> Price_INVALID \<and> ask_price x \<noteq> Price_INVALID
      then fe\<lparr>agg_trade_qty_ratio := d_div (double_of_int (uint (mu_qty u)))
                             (double_of_int (uint (if mu_side u = BUY then ask_qty x else bid_qty x)))\<rparr>
      else fe)"

text \<open>The arguments of \<open>order_manager_->moveOrders\<close>.\<close>

record quote =
  q_ticker :: TickerId
  q_bid :: Price
  q_ask :: Price
  q_clip :: Qty

definition mm_onOrderBookUpdate :: "(nat \<Rightarrow> TradeEngineCfg) \<Rightarrow> TickerId \<Rightarrow> BBO \<Rightarrow> feature_engine \<Rightarrow> quote option res" where
  "mm_onOrderBookUpdate ticker_cfg tk x fe =
     (let fair_price = mkt_price fe in
      if bid_price x \<noteq> Price_INVALID \<and> ask_price x \<noteq> Price_INVALID \<and> d_neq fair_price Feature_INVALID
      then bindE (atE ME_MAX_TICKERS (unat tk)) (\<lambda>i.
           let clp = clip (ticker_cfg i);
               thr = threshold (ticker_cfg i);
               bid = bid_price x - (if d_le thr (d_sub fair_price (double_of_int (bid_price x))) then 0 else 1);
               ask = ask_price x + (if d_le thr (d_sub (double_of_int (ask_price x)) fair_price) then 0 else 1)
           in Inr (Some \<lparr>q_ticker = tk, q_bid = bid, q_ask = ask, q_clip = clp\<rparr>))
      else Inr None)"

definition lt_onTradeUpdate :: "(nat \<Rightarrow> TradeEngineCfg) \<Rightarrow> MEMarketUpdate \<Rightarrow> BBO \<Rightarrow> feature_engine \<Rightarrow> quote option res" where
  "lt_onTradeUpdate ticker_cfg u x fe =
     (let agg_qty_ratio = agg_trade_qty_ratio fe in
      if bid_price x \<noteq> Price_INVALID \<and> ask_price x \<noteq> Price_INVALID \<and> d_neq agg_qty_ratio Feature_INVALID
      then bindE (atE ME_MAX_TICKERS (unat (mu_ticker_id u))) (\<lambda>i.
           let clp = clip (ticker_cfg i); thr = threshold (ticker_cfg i)
           in Inr (if d_le thr agg_qty_ratio
                   then Some (if mu_side u = BUY
                     then \<lparr>q_ticker = mu_ticker_id u, q_bid = ask_price x, q_ask = Price_INVALID, q_clip = clp\<rparr>
                     else \<lparr>q_ticker = mu_ticker_id u, q_bid = Price_INVALID, q_ask = bid_price x, q_clip = clp\<rparr>)
                   else None))
      else Inr None)"

subsection \<open>Properties\<close>

lemma weighted_between:
  assumes "(b :: real) \<le> a" "0 \<le> p" "0 \<le> q" "0 < p + q"
  shows "b \<le> (b * q + a * p) / (p + q)" "(b * q + a * p) / (p + q) \<le> a"
proof -
  have "b * p \<le> a * p" "b * q \<le> a * q" using assms by (simp_all add: mult_right_mono)
  then show "b \<le> (b * q + a * p) / (p + q)" "(b * q + a * p) / (p + q) \<le> a"
    using assms(4) by (simp_all add: field_simps)
qed

text \<open>
  The fair price: when both sides of the book are valid and not crossed and their quantities do not both
  vanish or wrap around 32 bits, the market price of the feature engine is the average of bid and ask weighted
  by the opposite quantities, so it lies between them.
\<close>

theorem fair_price_between:
  assumes "bbo_valid x" and "bid_price x \<le> ask_price x"
    and "0 < uint (bid_qty x) + uint (ask_qty x)" "uint (bid_qty x) + uint (ask_qty x) < 2 ^ 32"
  shows "\<exists>m. mkt_price (fe_onOrderBookUpdate x fe) = Fin m \<and> of_int (bid_price x) \<le> m \<and> m \<le> of_int (ask_price x) \<and>
     m * of_int (uint (bid_qty x) + uint (ask_qty x)) =
       of_int (bid_price x * uint (ask_qty x) + ask_price x * uint (bid_qty x))"
proof -
  let ?b = "of_int (bid_price x) :: real" and ?a = "of_int (ask_price x) :: real"
  let ?p = "of_int (uint (bid_qty x)) :: real" and ?q = "of_int (uint (ask_qty x)) :: real"
  have s: "uint (bid_qty x + ask_qty x) = uint (bid_qty x) + uint (ask_qty x)"
    using assms(4) by (simp add: uint_plus_if_size word_size)
  let ?m = "(?b * ?q + ?a * ?p) / (?p + ?q)"
  have pos: "0 < ?p + ?q" using assms(3) by (metis of_int_0_less_iff of_int_add)
  have m: "mkt_price (fe_onOrderBookUpdate x fe) = Fin ?m"
    using assms(1) pos s by (simp add: fe_onOrderBookUpdate_def bbo_valid_def double_of_int_def)
  have nn: "0 \<le> ?p" "0 \<le> ?q" by (rule of_int_nonneg, simp)+
  have ba: "?b \<le> ?a" using assms(2) by simp
  note w = weighted_between [OF ba nn pos]
  have "?m * (?p + ?q) = ?b * ?q + ?a * ?p" using pos by simp
  then have "?m * of_int (uint (bid_qty x) + uint (ask_qty x)) =
      of_int (bid_price x * uint (ask_qty x) + ask_price x * uint (bid_qty x))" by simp
  then show ?thesis using m w by blast
qed

theorem fair_price_between_witness:
  "\<exists>m. mkt_price (fe_onOrderBookUpdate \<lparr>bid_price = 100, ask_price = 103, bid_qty = 20, ask_qty = 10\<rparr> feature_engine_new) = Fin m \<and>
     100 \<le> m \<and> m \<le> 103"
  using fair_price_between [of "\<lparr>bid_price = 100, ask_price = 103, bid_qty = 20, ask_qty = 10\<rparr>" feature_engine_new]
  by (auto simp: bbo_valid_def Price_INVALID_def)

text \<open>
  The market maker's quotes: with both sides valid it always asks for one bid and one ask of its
  configured size, the bid at the best bid or one below it, the ask at the best ask or one above it, joining the
  best price exactly when the fair price is at least the threshold away, so that it never crosses the spread.
\<close>

theorem maker_quotes:
  assumes "bbo_valid x" and "unat tk < ME_MAX_TICKERS" and "mkt_price fe = Fin m" and "threshold (cfg (unat tk)) = Fin h"
  shows "\<exists>q. mm_onOrderBookUpdate cfg tk x fe = Inr (Some q) \<and> q_ticker q = tk \<and> q_clip q = clip (cfg (unat tk)) \<and>
     q_bid q = (if m - of_int (bid_price x) \<ge> h then bid_price x else bid_price x - 1) \<and>
     q_ask q = (if of_int (ask_price x) - m \<ge> h then ask_price x else ask_price x + 1)"
  using assms by (simp add: mm_onOrderBookUpdate_def bbo_valid_def Feature_INVALID_def Let_def double_of_int_def)

theorem maker_quotes_witness:
  "\<exists>q. mm_onOrderBookUpdate (\<lambda>_. default_cfg\<lparr>clip := 5, threshold := Fin 1\<rparr>) 0
       \<lparr>bid_price = 100, ask_price = 103, bid_qty = 20, ask_qty = 10\<rparr> \<lparr>mkt_price = Fin (205 / 2), agg_trade_qty_ratio = NaN\<rparr> = Inr (Some q) \<and>
     q_bid q = 100 \<and> q_ask q = 104"
  using maker_quotes [of "\<lparr>bid_price = 100, ask_price = 103, bid_qty = 20, ask_qty = 10\<rparr>" 0
      "\<lparr>mkt_price = Fin (205 / 2), agg_trade_qty_ratio = NaN\<rparr>" "205 / 2" "\<lambda>_. default_cfg\<lparr>clip := 5, threshold := Fin 1\<rparr>" 1]
  by (auto simp: bbo_valid_def Price_INVALID_def ME_MAX_TICKERS_def)

text \<open>
  The guard against an invalid fair price never works: \<open>Feature_INVALID\<close> is a not-a-number, which
  differs from everything, so with the feature still invalid and a valid book the market maker quotes one tick
  outside the best prices instead of not quoting.
\<close>

theorem maker_ignores_invalid_feature:
  assumes "bbo_valid x" and "unat tk < ME_MAX_TICKERS" and "mkt_price fe = Feature_INVALID"
  shows "mm_onOrderBookUpdate cfg tk x fe =
     Inr (Some \<lparr>q_ticker = tk, q_bid = bid_price x - 1, q_ask = ask_price x + 1, q_clip = clip (cfg (unat tk))\<rparr>)"
  using assms by (simp add: mm_onOrderBookUpdate_def bbo_valid_def Feature_INVALID_def Let_def d_sub_def)

theorem maker_ignores_invalid_feature_witness:
  "mm_onOrderBookUpdate (\<lambda>_. default_cfg) 0 \<lparr>bid_price = 100, ask_price = 103, bid_qty = 0, ask_qty = 0\<rparr> feature_engine_new =
     Inr (Some \<lparr>q_ticker = 0, q_bid = 99, q_ask = 104, q_clip = 0\<rparr>)"
  using maker_ignores_invalid_feature [of "\<lparr>bid_price = 100, ask_price = 103, bid_qty = 0, ask_qty = 0\<rparr>" 0 feature_engine_new "\<lambda>_. default_cfg"]
  by (simp add: bbo_valid_def Price_INVALID_def ME_MAX_TICKERS_def feature_engine_new_def default_cfg_def)

text \<open>
  The liquidity taker follows large trades: with both sides valid it crosses the spread with one order
  of its configured size on the side of the trade exactly when the traded quantity is at least the threshold times
  the quantity shown on the side the trade hit, and wants no order on the other side.
\<close>

theorem taker_follows_trades:
  assumes "bbo_valid x" and "unat (mu_ticker_id u) < ME_MAX_TICKERS"
    and "threshold (cfg (unat (mu_ticker_id u))) = Fin h"
    and "shown = (if mu_side u = BUY then ask_qty x else bid_qty x)" "shown \<noteq> 0"
  shows "lt_onTradeUpdate cfg u x (fe_onTradeUpdate u x fe) =
     Inr (if h * of_int (uint shown) \<le> of_int (uint (mu_qty u))
          then Some (if mu_side u = BUY
             then \<lparr>q_ticker = mu_ticker_id u, q_bid = ask_price x, q_ask = Price_INVALID, q_clip = clip (cfg (unat (mu_ticker_id u)))\<rparr>
             else \<lparr>q_ticker = mu_ticker_id u, q_bid = Price_INVALID, q_ask = bid_price x, q_clip = clip (cfg (unat (mu_ticker_id u)))\<rparr>)
          else None)"
proof -
  have nz: "uint shown \<noteq> 0" using assms(5) by (simp add: uint_0_iff)
  have pos: "(0 :: real) < of_int (uint shown)" using nz uint_ge_0 [of shown] by linarith
  have r: "agg_trade_qty_ratio (fe_onTradeUpdate u x fe) = Fin (of_int (uint (mu_qty u)) / of_int (uint shown))"
    using assms(1) pos by (simp add: fe_onTradeUpdate_def bbo_valid_def double_of_int_def flip: assms(4))
  have "h \<le> of_int (uint (mu_qty u)) / of_int (uint shown) \<longleftrightarrow> h * of_int (uint shown) \<le> of_int (uint (mu_qty u))"
    using pos by (simp add: pos_le_divide_eq)
  then show ?thesis using assms(1-3) r by (simp add: lt_onTradeUpdate_def bbo_valid_def Feature_INVALID_def Let_def)
qed

theorem taker_follows_trades_witness:
  "lt_onTradeUpdate (\<lambda>_. default_cfg\<lparr>clip := 5, threshold := Fin (1 / 2)\<rparr>)
     (MEMarketUpdate_default\<lparr>mu_type := TRADE, mu_ticker_id := 0, mu_side := BUY, mu_qty := 8\<rparr>)
     \<lparr>bid_price = 100, ask_price = 103, bid_qty = 20, ask_qty = 10\<rparr>
     (fe_onTradeUpdate (MEMarketUpdate_default\<lparr>mu_type := TRADE, mu_ticker_id := 0, mu_side := BUY, mu_qty := 8\<rparr>)
        \<lparr>bid_price = 100, ask_price = 103, bid_qty = 20, ask_qty = 10\<rparr> feature_engine_new) =
     Inr (Some \<lparr>q_ticker = 0, q_bid = 103, q_ask = Price_INVALID, q_clip = 5\<rparr>)"
  using taker_follows_trades [of "\<lparr>bid_price = 100, ask_price = 103, bid_qty = 20, ask_qty = 10\<rparr>"
      "MEMarketUpdate_default\<lparr>mu_type := TRADE, mu_ticker_id := 0, mu_side := BUY, mu_qty := 8\<rparr>"
      "\<lambda>_. default_cfg\<lparr>clip := 5, threshold := Fin (1 / 2)\<rparr>" "1 / 2" 10]
  by (simp add: bbo_valid_def Price_INVALID_def ME_MAX_TICKERS_def)

end
