(* ===== verification/TradeEngine.thy ===== *)
theory TradeEngine
  imports Strategies MarketClear
begin

text \<open>
  \<open>trading/strategy/trade_engine.h\<close> and \<open>trade_engine.cpp\<close>: the client's components put together.

  The three callbacks are chosen by \<open>algo_type\<close>: the market maker, the liquidity taker or the default ones,
  which only log. A book's notification is the result of \<open>onMarketUpdate\<close>, and \<open>te_onMarketUpdate\<close> hands it to
  the engine. \<open>te_response_step\<close> and \<open>te_update_step\<close> are the bodies of the two loops of \<open>run\<close>, \<open>te_drain\<close> one
  round of it. \<open>te_step\<close> lets responses and updates arrive in any order; the position limit is an invariant of it.
\<close>

record trade_engine =
  te_client_id :: ClientId
  te_algo :: AlgoType
  te_cfg :: "nat \<Rightarrow> TradeEngineCfg"
  te_books :: "market_order_book list"
  outgoing_ogw_requests :: "MEClientRequest lf_queue"
  incoming_ogw_responses :: "MEClientResponse lf_queue"
  incoming_md_updates :: "MEMarketUpdate lf_queue"
  te_features :: feature_engine
  te_positions :: position_keeper
  te_orders :: order_manager
  te_risk :: risk_manager

definition trade_engine_new :: "ClientId \<Rightarrow> AlgoType \<Rightarrow> (nat \<Rightarrow> TradeEngineCfg) \<Rightarrow> (nat \<Rightarrow> Price) \<Rightarrow>
    (nat \<Rightarrow> OrderId \<Rightarrow> nat option) \<Rightarrow> (nat \<Rightarrow> nat \<Rightarrow> nat option) \<Rightarrow> (nat \<Rightarrow> nat \<Rightarrow> double) \<Rightarrow> trade_engine" where
  "trade_engine_new client algo ticker_cfg base_prices oids prices vwaps =
     \<lparr>te_client_id = client, te_algo = algo, te_cfg = ticker_cfg,
      te_books = map (\<lambda>i. mkt_book_new (word_of_nat i) (base_prices i) (oids i) (prices i)) [0..<ME_MAX_TICKERS],
      outgoing_ogw_requests = lfq_new ME_MAX_CLIENT_UPDATES MEClientRequest_default,
      incoming_ogw_responses = lfq_new ME_MAX_CLIENT_UPDATES MEClientResponse_default,
      incoming_md_updates = lfq_new ME_MAX_MARKET_UPDATES MEMarketUpdate_default,
      te_features = feature_engine_new, te_positions = position_keeper_new vwaps,
      te_orders = order_manager_new, te_risk = risk_manager_new ticker_cfg\<rparr>"

definition te_sendClientRequest :: "MEClientRequest \<Rightarrow> trade_engine \<Rightarrow> trade_engine" where
  "te_sendClientRequest r e = e\<lparr>outgoing_ogw_requests := lfq_push r (outgoing_ogw_requests e)\<rparr>"

text \<open>The requests an order manager call sent go to the queue in the order it sent them.\<close>

definition te_set_orders :: "order_manager \<Rightarrow> trade_engine \<Rightarrow> trade_engine" where
  "te_set_orders om e = fold te_sendClientRequest (om_requests om) (e\<lparr>te_orders := om\<lparr>om_requests := []\<rparr>\<rparr>)"

definition te_moveOrders :: "quote option \<Rightarrow> trade_engine \<Rightarrow> trade_engine res" where
  "te_moveOrders q e =
     (case q of
        None \<Rightarrow> Inr e
      | Some q \<Rightarrow>
          bindE (moveOrders (checkPreTradeRisk (te_risk e) (te_positions e)) (te_client_id e)
                   (q_ticker q) (q_bid q) (q_ask q) (q_clip q) (te_orders e)) (\<lambda>om.
          Inr (te_set_orders om e)))"

definition algoOnOrderBookUpdate :: "TickerId \<Rightarrow> BBO \<Rightarrow> trade_engine \<Rightarrow> trade_engine res" where
  "algoOnOrderBookUpdate tk x e =
     (if te_algo e = MAKER
      then bindE (mm_onOrderBookUpdate (te_cfg e) tk x (te_features e)) (\<lambda>q. te_moveOrders q e)
      else Inr e)"

definition algoOnTradeUpdate :: "MEMarketUpdate \<Rightarrow> BBO \<Rightarrow> trade_engine \<Rightarrow> trade_engine res" where
  "algoOnTradeUpdate u x e =
     (if te_algo e = TAKER
      then bindE (lt_onTradeUpdate (te_cfg e) u x (te_features e)) (\<lambda>q. te_moveOrders q e)
      else Inr e)"

definition algoOnOrderUpdate :: "MEClientResponse \<Rightarrow> trade_engine \<Rightarrow> trade_engine res" where
  "algoOnOrderUpdate r e =
     (if te_algo e = MAKER \<or> te_algo e = TAKER
      then bindE (om_onOrderUpdate r (te_orders e)) (\<lambda>om. Inr (te_set_orders om e))
      else Inr e)"

definition te_onOrderBookUpdate :: "TickerId \<Rightarrow> market_order_book \<Rightarrow> trade_engine \<Rightarrow> trade_engine res" where
  "te_onOrderBookUpdate tk b e =
     bindE (pk_updateBBO tk (bbo b) (te_positions e)) (\<lambda>pk.
     let e1 = e\<lparr>te_positions := pk\<rparr>;
         e2 = e1\<lparr>te_features := fe_onOrderBookUpdate (bbo b) (te_features e1)\<rparr>
     in algoOnOrderBookUpdate tk (bbo b) e2)"

definition te_onTradeUpdate :: "MEMarketUpdate \<Rightarrow> market_order_book \<Rightarrow> trade_engine \<Rightarrow> trade_engine res" where
  "te_onTradeUpdate u b e =
     algoOnTradeUpdate u (bbo b) (e\<lparr>te_features := fe_onTradeUpdate u (bbo b) (te_features e)\<rparr>)"

definition te_onOrderUpdate :: "MEClientResponse \<Rightarrow> trade_engine \<Rightarrow> trade_engine res" where
  "te_onOrderUpdate r e =
     bindE (if rs_type r = FILLED
            then bindE (pk_addFill r (te_positions e)) (\<lambda>pk. Inr (e\<lparr>te_positions := pk\<rparr>))
            else Inr e) (\<lambda>e1.
     algoOnOrderUpdate r e1)"

definition te_onMarketUpdate :: "MEMarketUpdate \<Rightarrow> trade_engine \<Rightarrow> trade_engine res" where
  "te_onMarketUpdate u e =
     bindE (assertE (unat (mu_ticker_id u) < length (te_books e))) (\<lambda>_.
     bindE (onMarketUpdate u (te_books e ! unat (mu_ticker_id u))) (\<lambda>(ev, b).
     let e1 = e\<lparr>te_books := (te_books e)[unat (mu_ticker_id u) := b]\<rparr> in
     case ev of
       OnTradeUpdate v \<Rightarrow> te_onTradeUpdate v b e1
     | OnOrderBookUpdate tk price side \<Rightarrow> te_onOrderBookUpdate tk b e1))"

subsection \<open>The loop\<close>

definition te_response_step :: "trade_engine \<Rightarrow> trade_engine res" where
  "te_response_step e =
     (case getNextToRead (incoming_ogw_responses e) of
        None \<Rightarrow> Inr e
      | Some r \<Rightarrow>
          bindE (te_onOrderUpdate r e) (\<lambda>e1.
          bindE (updateReadIndex (incoming_ogw_responses e1)) (\<lambda>q.
          Inr (e1\<lparr>incoming_ogw_responses := q\<rparr>))))"

definition te_update_step :: "trade_engine \<Rightarrow> trade_engine res" where
  "te_update_step e =
     (case getNextToRead (incoming_md_updates e) of
        None \<Rightarrow> Inr e
      | Some u \<Rightarrow>
          bindE (te_onMarketUpdate u e) (\<lambda>e1.
          bindE (updateReadIndex (incoming_md_updates e1)) (\<lambda>q.
          Inr (e1\<lparr>incoming_md_updates := q\<rparr>))))"

text \<open>One round of \<open>run\<close>: every response that is waiting, then every update that is waiting.\<close>

definition te_drain :: "trade_engine \<Rightarrow> trade_engine res" where
  "te_drain e =
     bindE (foldE (\<lambda>_. te_response_step) [0..<lfq_size (incoming_ogw_responses e)] e) (\<lambda>e1.
     foldE (\<lambda>_. te_update_step) [0..<lfq_size (incoming_md_updates e1)] e1)"

subsection \<open>What the handlers leave alone\<close>

lemma te_sends [simp]:
  "te_orders (fold te_sendClientRequest rs e) = te_orders e" "te_positions (fold te_sendClientRequest rs e) = te_positions e"
  "te_risk (fold te_sendClientRequest rs e) = te_risk e" "te_client_id (fold te_sendClientRequest rs e) = te_client_id e"
  "te_algo (fold te_sendClientRequest rs e) = te_algo e" "te_cfg (fold te_sendClientRequest rs e) = te_cfg e"
  "te_books (fold te_sendClientRequest rs e) = te_books e"
  "incoming_ogw_responses (fold te_sendClientRequest rs e) = incoming_ogw_responses e"
  "incoming_md_updates (fold te_sendClientRequest rs e) = incoming_md_updates e"
  by (induction rs arbitrary: e) (simp_all add: te_sendClientRequest_def)

lemma te_set_orders_simps [simp]:
  "te_orders (te_set_orders om e) = om\<lparr>om_requests := []\<rparr>" "te_positions (te_set_orders om e) = te_positions e"
  "te_risk (te_set_orders om e) = te_risk e" "te_client_id (te_set_orders om e) = te_client_id e"
  "te_algo (te_set_orders om e) = te_algo e" "te_cfg (te_set_orders om e) = te_cfg e" "te_books (te_set_orders om e) = te_books e"
  by (simp_all add: te_set_orders_def)

subsection \<open>The position limit\<close>

definition te_position :: "nat \<Rightarrow> trade_engine \<Rightarrow> int" where
  "te_position t e = sint (position (te_positions e ! t))"

definition te_limit :: "nat \<Rightarrow> trade_engine \<Rightarrow> int" where
  "te_limit t e = uint (max_position (ri_cfg (te_risk e ! t)))"

definition te_size :: "nat \<Rightarrow> trade_engine \<Rightarrow> int" where
  "te_size t e = uint (max_order_size (ri_cfg (te_risk e ! t)))"

definition te_safe :: "trade_engine \<Rightarrow> bool" where
  "te_safe e \<longleftrightarrow> (te_algo e = MAKER \<or> te_algo e = TAKER) \<and> length (te_positions e) = ME_MAX_TICKERS \<and> length (te_risk e) = ME_MAX_TICKERS \<and>
     (\<forall>t < ME_MAX_TICKERS. position_info (te_risk e ! t) = t \<and> limits_ok (ri_cfg (te_risk e ! t)) \<and>
        exposed (te_limit t e) (te_position t e) t (te_orders e) \<and> sized (te_size t e) t (te_orders e))"

text \<open>
  One event: a response of the exchange, which is about the order the client has in mind, or any market update,
  on an engine that runs one of the two algorithms.
\<close>

inductive te_step :: "trade_engine \<Rightarrow> trade_engine \<Rightarrow> bool" where
  response: "response_ok r (te_orders e) \<Longrightarrow> te_onOrderUpdate r e = Inr e' \<Longrightarrow> te_step e e'"
| update: "te_onMarketUpdate u e = Inr e' \<Longrightarrow> te_step e e'"

inductive te_reach :: "trade_engine \<Rightarrow> trade_engine \<Rightarrow> bool" where
  start: "te_reach e e"
| again: "te_reach e e1 \<Longrightarrow> te_step e1 e2 \<Longrightarrow> te_reach e e2"

inductive_cases te_stepE: "te_step e e'"

lemma exposed_no_requests [simp]: "exposed l n t (om\<lparr>om_requests := rs\<rparr>) = exposed l n t om"
  by (simp add: exposed_def get_order_def)

lemma sized_no_requests [simp]: "sized m t (om\<lparr>om_requests := rs\<rparr>) = sized m t om"
  by (simp add: sized_def get_order_def)

lemma exposed_limit: "exposed l n t om \<Longrightarrow> \<bar>n\<bar> \<le> l"
  by (simp add: exposed_def)

lemma te_safe_cong:
  assumes "te_safe e" and "te_risk e' = te_risk e" and "te_algo e' = te_algo e" and "length (te_positions e') = length (te_positions e)"
    and "\<And>t. t < ME_MAX_TICKERS \<Longrightarrow> position (te_positions e' ! t) = position (te_positions e ! t)"
    and "\<And>t l n. exposed l n t (te_orders e') = exposed l n t (te_orders e)" and "\<And>t m. sized m t (te_orders e') = sized m t (te_orders e)"
  shows "te_safe e'"
  using assms by (simp add: te_safe_def te_limit_def te_size_def te_position_def)

lemma te_moveOrders_safe:
  assumes ok: "te_safe e" and m: "te_moveOrders q e = Inr e'"
  shows "te_safe e' \<and> te_risk e' = te_risk e"
proof (cases q)
  case None
  then show ?thesis using ok m by (simp add: te_moveOrders_def)
next
  case (Some q')
  let ?t = "q_ticker q'" and ?s = "(te_risk e, te_positions e)"
  obtain om where om: "moveOrders (checkPreTradeRisk (te_risk e) (te_positions e)) (te_client_id e) ?t (q_bid q') (q_ask q') (q_clip q')
      (te_orders e) = Inr om" "e' = te_set_orders om e"
    using m Some by (auto simp: te_moveOrders_def res_simps)
  have t: "unat ?t < ME_MAX_TICKERS"
    using om(1) order_slot_out [of ?t BUY] by (cases "unat ?t < ME_MAX_TICKERS") (auto simp: moveOrders_def)
  have r: "risk_ready ?s ?t" and l: "limit_of ?s ?t = te_limit (unat ?t) e" and p: "position_of ?s ?t = te_position (unat ?t) e"
    and z: "size_of ?s ?t = te_size (unat ?t) e"
    using ok t by (simp_all add: risk_ready_def te_safe_def limit_of_def te_limit_def position_of_def te_position_def size_of_def te_size_def)
  have "exposed (limit_of ?s ?t) (position_of ?s ?t) (unat ?t) (te_orders e)" using ok t l p by (simp add: te_safe_def)
  from risk.moveOrders_exposed [OF r t this, of "te_client_id e" "q_bid q'" "q_ask q'" "q_clip q'"] om(1)
  have ex: "exposed (te_limit (unat ?t) e) (te_position (unat ?t) e) (unat ?t) om" "sized (te_size (unat ?t) e) (unat ?t) om"
    using l p z ok t by (simp_all add: te_safe_def)
  have "exposed (te_limit u e) (te_position u e) u om \<and> sized (te_size u e) u om" if u: "u < ME_MAX_TICKERS" for u
  proof (cases "u = unat ?t")
    case False
    then have "exposed (te_limit u e) (te_position u e) u om = exposed (te_limit u e) (te_position u e) u (te_orders e)"
      by (intro exposed_cong moveOrders_other [OF om(1)]) simp
    moreover have "sized (te_size u e) u om = sized (te_size u e) u (te_orders e)"
      using False by (intro sized_cong moveOrders_other [OF om(1)]) simp
    ultimately show ?thesis using ok u by (simp add: te_safe_def)
  qed (use ex in simp)
  then show ?thesis using ok om(2) by (simp add: te_safe_def te_limit_def te_size_def te_position_def)
qed

lemma position_updateBBO [simp]: "position (pos_updateBBO x p) = position p"
  by (simp add: pos_updateBBO_def Let_def)

lemma te_update_safe:
  assumes ok: "te_safe e" and m: "te_onMarketUpdate u e = Inr e'"
  shows "te_safe e' \<and> te_risk e' = te_risk e"
proof -
  obtain ev b where ev: "onMarketUpdate u (te_books e ! unat (mu_ticker_id u)) = Inr (ev, b)"
    using m by (auto simp: te_onMarketUpdate_def res_simps split: prod.splits)
  let ?e1 = "e\<lparr>te_books := (te_books e)[unat (mu_ticker_id u) := b]\<rparr>"
  have ok1: "te_safe ?e1" using ok by (rule te_safe_cong) simp_all
  show ?thesis
  proof (cases ev)
    case (OnTradeUpdate v)
    let ?e2 = "?e1\<lparr>te_features := fe_onTradeUpdate v (bbo b) (te_features ?e1)\<rparr>"
    have ok2: "te_safe ?e2" using ok1 by (rule te_safe_cong) simp_all
    have "algoOnTradeUpdate v (bbo b) ?e2 = Inr e'"
      using m ev OnTradeUpdate by (auto simp: te_onMarketUpdate_def te_onTradeUpdate_def Let_def res_simps)
    then show ?thesis using ok2 te_moveOrders_safe [OF ok2] by (fastforce simp: algoOnTradeUpdate_def res_simps split: if_splits)
  next
    case (OnOrderBookUpdate tk price side)
    then obtain pk where pk: "pk_updateBBO tk (bbo b) (te_positions ?e1) = Inr pk"
      "algoOnOrderBookUpdate tk (bbo b) (?e1\<lparr>te_positions := pk, te_features := fe_onOrderBookUpdate (bbo b) (te_features ?e1)\<rparr>) = Inr e'"
      using m ev by (auto simp: te_onMarketUpdate_def te_onOrderBookUpdate_def Let_def res_simps)
    let ?e2 = "?e1\<lparr>te_positions := pk, te_features := fe_onOrderBookUpdate (bbo b) (te_features ?e1)\<rparr>"
    have len: "length pk = length (te_positions e)" "position (pk ! t) = position (te_positions e ! t)" for t
      using pk(1) by (auto simp: pk_updateBBO_def res_simps nth_list_update)
    have ok2: "te_safe ?e2" using ok1 by (rule te_safe_cong) (simp_all add: len)
    then show ?thesis using ok2 pk(2) te_moveOrders_safe [OF ok2] by (fastforce simp: algoOnOrderBookUpdate_def res_simps split: if_splits)
  qed
qed

lemma position_addFill: "position (addFill r p) = position p + rs_exec_qty r * word_of_int (sideToValue (rs_side r))"
  by (simp add: addFill_def Let_def)

lemma te_response_safe:
  assumes ok: "te_safe e" and r: "response_ok r (te_orders e)" and m: "te_onOrderUpdate r e = Inr e'"
  shows "te_safe e' \<and> te_risk e' = te_risk e"
proof -
  let ?t = "unat (rs_ticker_id r)"
  have t: "?t < ME_MAX_TICKERS" using r by (simp add: response_ok_def)
  have algo: "te_algo e = MAKER \<or> te_algo e = TAKER" using ok by (simp add: te_safe_def)
  define pk where "pk = (if rs_type r = FILLED then (te_positions e)[?t := addFill r (te_positions e ! ?t)] else te_positions e)"
  have len: "length (te_positions e) = ME_MAX_TICKERS" using ok by (simp add: te_safe_def)
  obtain om where om: "om_onOrderUpdate r (te_orders e) = Inr om" "e' = te_set_orders om (e\<lparr>te_positions := pk\<rparr>)"
  proof -
    have "(if rs_type r = FILLED then bindE (pk_addFill r (te_positions e)) (\<lambda>pk. Inr (e\<lparr>te_positions := pk\<rparr>)) else Inr e) =
        Inr (e\<lparr>te_positions := pk\<rparr>)"
      using t len by (simp add: pk_def pk_addFill_def)
    then have "algoOnOrderUpdate r (e\<lparr>te_positions := pk\<rparr>) = Inr e'" using m by (simp add: te_onOrderUpdate_def)
    then show ?thesis using algo that by (auto simp: algoOnOrderUpdate_def res_simps)
  qed
  have ex: "exposed (te_limit u e) (te_position u e) u (te_orders e)" if "u < ME_MAX_TICKERS" for u
    using ok that by (simp add: te_safe_def)
  note ex1 = response_exposed [OF r ex [OF t] om(1)]
  have pos: "sint (position (pk ! ?t)) = te_position ?t e + filled_qty r"
  proof (cases "rs_type r = FILLED")
    case True
    have "limits_ok (ri_cfg (te_risk e ! ?t))" using ok t by (simp add: te_safe_def)
    then have "te_limit ?t e < 2 ^ 31" using uint_ge_0 [of "max_order_size (ri_cfg (te_risk e ! ?t))"]
      unfolding limits_ok_def te_limit_def by linarith
    moreover have "\<bar>te_position ?t e + signed_qty r\<bar> \<le> te_limit ?t e" using exposed_limit [OF ex1] True by (simp add: filled_qty_def)
    ultimately have b: "\<bar>te_position ?t e + sideToValue (rs_side r) * uint (rs_exec_qty r)\<bar> < 2 ^ 31" by (simp add: signed_qty_def)
    have "sint (position (te_positions e ! ?t)) = te_position ?t e" by (simp add: te_position_def)
    from sint_add_signed [OF this b] show ?thesis
      using True t len by (simp add: pk_def position_addFill filled_qty_def signed_qty_def)
  qed (simp add: pk_def te_position_def filled_qty_def)
  have "exposed (te_limit u e) (sint (position (pk ! u))) u om" if u: "u < ME_MAX_TICKERS" for u
  proof (cases "u = ?t")
    case True
    then show ?thesis using ex1 pos by simp
  next
    case False
    then have "sint (position (pk ! u)) = te_position u e" by (simp add: pk_def te_position_def)
    moreover have "exposed (te_limit u e) n u om = exposed (te_limit u e) n u (te_orders e)" for n
      using False by (intro exposed_cong response_other [OF om(1)]) simp
    ultimately show ?thesis using ex [OF u] by simp
  qed
  moreover have "sized (te_size u e) u om" if "u < ME_MAX_TICKERS" for u
    using response_sized [OF r _ om(1)] ok that by (simp add: te_safe_def)
  moreover have "length pk = ME_MAX_TICKERS" using len by (simp add: pk_def)
  ultimately show ?thesis using ok om(2) by (simp add: te_safe_def te_limit_def te_size_def te_position_def)
qed

lemma te_response_never_fails:
  assumes ok: "te_safe e" and r: "unat (rs_ticker_id r) < ME_MAX_TICKERS"
  shows "\<exists>e'. te_onOrderUpdate r e = Inr e'"
proof -
  have om: "\<exists>om. om_onOrderUpdate r (te_orders e) = Inr om"
    using order_slot_in [OF r, of "rs_side r"] by (cases "rs_type r") (auto simp: om_onOrderUpdate_def Let_def)
  then show ?thesis using ok r
    by (auto simp: te_onOrderUpdate_def pk_addFill_def algoOnOrderUpdate_def te_safe_def)
qed

lemma te_reach_safe:
  assumes "te_reach e e'" and "te_safe e"
  shows "te_safe e' \<and> te_risk e' = te_risk e"
  using assms
proof (induction rule: te_reach.induct)
  case (start e)
  then show ?case by simp
next
  case (again e e1 e2)
  from again.hyps(2) have "te_safe e2 \<and> te_risk e2 = te_risk e1"
    using te_response_safe te_update_safe again.IH [OF again.prems] by (cases rule: te_stepE) blast+
  then show ?case using again.IH [OF again.prems] by simp
qed

definition cfgs_ok :: "(nat \<Rightarrow> TradeEngineCfg) \<Rightarrow> bool" where
  "cfgs_ok ticker_cfg \<longleftrightarrow> (\<forall>t < ME_MAX_TICKERS. limits_ok (risk_cfg (ticker_cfg t)))"

lemma te_safe_new:
  assumes "cfgs_ok ticker_cfg" and "algo = MAKER \<or> algo = TAKER"
  shows "te_safe (trade_engine_new client algo ticker_cfg base oids prices vwaps)"
  using assms
  by (auto simp: te_safe_def trade_engine_new_def cfgs_ok_def te_limit_def te_position_def position_keeper_new_def
      risk_manager_new_def PositionInfo_new_def exposed_def sized_def working_def get_order_def order_manager_new_def OMOrder_default_def)

text \<open>
  The position limit holds: start a trade engine with the market maker or the liquidity taker and limits
  that cannot wrap, and let any market updates and any responses arrive in any order, the responses being about
  the order the client has in mind. In every state reached no instrument's position is beyond its configured
  maximum, not even if every working order were filled completely.
\<close>

theorem position_limit_kept:
  assumes "cfgs_ok ticker_cfg" and "algo = MAKER \<or> algo = TAKER"
    and "te_reach (trade_engine_new client algo ticker_cfg base oids prices vwaps) e" and "t < ME_MAX_TICKERS"
  shows "\<bar>sint (position (te_positions e ! t))\<bar> \<le> uint (max_position (risk_cfg (ticker_cfg t))) \<and>
     exposed (uint (max_position (risk_cfg (ticker_cfg t)))) (sint (position (te_positions e ! t))) t (te_orders e)"
proof -
  from te_reach_safe [OF assms(3) te_safe_new [OF assms(1,2)]] have s: "te_safe e"
    "te_risk e = risk_manager_new ticker_cfg" by (simp_all add: trade_engine_new_def)
  then have "exposed (te_limit t e) (te_position t e) t (te_orders e)" using assms(4) by (simp add: te_safe_def)
  moreover have "te_limit t e = uint (max_position (risk_cfg (ticker_cfg t)))"
    using s(2) assms(4) by (simp add: te_limit_def risk_manager_new_def)
  ultimately show ?thesis using exposed_limit by (auto simp: te_position_def)
qed

definition demo_engine :: trade_engine where
  "demo_engine = trade_engine_new 7 MAKER (\<lambda>_. default_cfg\<lparr>risk_cfg := demo_cfg\<rparr>) (\<lambda>_. 0) (\<lambda>_ _. None) (\<lambda>_ _. None) (\<lambda>_ _. Fin 0)"

theorem position_limit_kept_witness:
  "\<exists>e. te_reach demo_engine e \<and> \<bar>sint (position (te_positions e ! 3))\<bar> \<le> 150"
proof -
  have c: "cfgs_ok (\<lambda>_. default_cfg\<lparr>risk_cfg := demo_cfg\<rparr>)" by (simp add: cfgs_ok_def limits_ok_def demo_cfg_def)
  have "te_reach demo_engine demo_engine" by (rule te_reach.start)
  moreover from position_limit_kept [OF c _ this [unfolded demo_engine_def], of 3]
  have "\<bar>sint (position (te_positions demo_engine ! 3))\<bar> \<le> 150"
    by (simp add: demo_engine_def ME_MAX_TICKERS_def demo_cfg_def)
  ultimately show ?thesis by blast
qed

end
