(* ===== verification/Wire.thy ===== *)
theory Wire
  imports Messages
begin

text \<open>
  The messages as they travel: the packed structs of \<open>client_request.h\<close>, \<open>client_response.h\<close> and
  \<open>market_update.h\<close> as bytes (little endian, as on the machines the code is built for), and the cutting of a
  byte stream into messages that every receive callback does.

  A byte that is no enumerator's value reads as the enumeration's INVALID here. \<open>wire_format\<close> is what the senders
  and receivers rely on; from it follows that a stream of messages can be delivered in any pieces.
\<close>

type_synonym byte = "8 word"

fun le :: "nat \<Rightarrow> nat \<Rightarrow> byte list" where
  "le 0 v = []"
| "le (Suc n) v = word_of_nat v # le n (v div 256)"

fun of_le :: "byte list \<Rightarrow> nat" where
  "of_le [] = 0"
| "of_le (b # bs) = unat b + 256 * of_le bs"

definition field :: "nat \<Rightarrow> nat \<Rightarrow> byte list \<Rightarrow> nat" where
  "field off n bs = of_le (take n (drop off bs))"

lemma length_le [simp]: "length (le n v) = n"
  by (induction n arbitrary: v) simp_all

lemma of_le_le: "v < 256 ^ n \<Longrightarrow> of_le (le n v) = v"
proof (induction n arbitrary: v)
  case 0
  then show ?case by simp
next
  case (Suc n)
  have "v div 256 < 256 ^ n" using Suc.prems by (simp add: less_mult_imp_div_less mult.commute)
  then have "of_le (le n (v div 256)) = v div 256" by (rule Suc.IH)
  then show ?case by (simp add: unsigned_of_nat take_bit_eq_mod)
qed

lemma field_skip: "n \<le> off \<Longrightarrow> field off m (le n v @ bs) = field (off - n) m bs"
  by (simp add: field_def)

lemma field_here: "v < 256 ^ n \<Longrightarrow> field 0 n (le n v @ bs) = v"
  by (simp add: field_def of_le_le)

lemma field_last: "v < 256 ^ n \<Longrightarrow> field 0 n (le n v) = v"
  using field_here [of v n "[]"] by simp

subsection \<open>The structs\<close>

definition side_byte :: "Side \<Rightarrow> nat" where
  "side_byte s = unat (word_of_int (side_repr s) :: byte)"

definition byte_side :: "nat \<Rightarrow> Side" where
  "byte_side v = (if v = 1 then BUY else if v = 255 then SELL else if v = 2 then Side_MAX else Side_INVALID)"

fun request_type_byte :: "ClientRequestType \<Rightarrow> nat" where
  "request_type_byte Request_INVALID = 0"
| "request_type_byte NEW = 1"
| "request_type_byte Request_CANCEL = 2"

definition byte_request_type :: "nat \<Rightarrow> ClientRequestType" where
  "byte_request_type v = (if v = 1 then NEW else if v = 2 then Request_CANCEL else Request_INVALID)"

fun response_type_byte :: "ClientResponseType \<Rightarrow> nat" where
  "response_type_byte Response_INVALID = 0"
| "response_type_byte ACCEPTED = 1"
| "response_type_byte CANCELED = 2"
| "response_type_byte FILLED = 3"
| "response_type_byte CANCEL_REJECTED = 4"

definition byte_response_type :: "nat \<Rightarrow> ClientResponseType" where
  "byte_response_type v = (if v = 1 then ACCEPTED else if v = 2 then CANCELED else if v = 3 then FILLED
     else if v = 4 then CANCEL_REJECTED else Response_INVALID)"

fun update_type_byte :: "MarketUpdateType \<Rightarrow> nat" where
  "update_type_byte Update_INVALID = 0"
| "update_type_byte CLEAR = 1"
| "update_type_byte ADD = 2"
| "update_type_byte MODIFY = 3"
| "update_type_byte CANCEL = 4"
| "update_type_byte TRADE = 5"
| "update_type_byte SNAPSHOT_START = 6"
| "update_type_byte SNAPSHOT_END = 7"

definition byte_update_type :: "nat \<Rightarrow> MarketUpdateType" where
  "byte_update_type v = (if v = 1 then CLEAR else if v = 2 then ADD else if v = 3 then MODIFY else if v = 4 then CANCEL
     else if v = 5 then TRADE else if v = 6 then SNAPSHOT_START else if v = 7 then SNAPSHOT_END else Update_INVALID)"

definition price_bits :: "Price \<Rightarrow> nat" where
  "price_bits p = unat (word_of_int p :: 64 word)"

definition bits_price :: "nat \<Rightarrow> Price" where
  "bits_price v = sint (word_of_nat v :: 64 word)"

definition encode_request :: "MEClientRequest \<Rightarrow> byte list" where
  "encode_request r = le 1 (request_type_byte (rq_type r)) @ le 4 (unat (rq_client_id r)) @ le 4 (unat (rq_ticker_id r)) @
     le 8 (unat (rq_order_id r)) @ le 1 (side_byte (rq_side r)) @ le 8 (price_bits (rq_price r)) @ le 4 (unat (rq_qty r))"

definition encode_om_request :: "OMClientRequest \<Rightarrow> byte list" where
  "encode_om_request m = le 8 (unat (om_seq_num m)) @ encode_request (me_client_request m)"

definition decode_om_request :: "byte list \<Rightarrow> OMClientRequest" where
  "decode_om_request bs = \<lparr>om_seq_num = word_of_nat (field 0 8 bs), me_client_request =
     \<lparr>rq_type = byte_request_type (field 8 1 bs), rq_client_id = word_of_nat (field 9 4 bs),
      rq_ticker_id = word_of_nat (field 13 4 bs), rq_order_id = word_of_nat (field 17 8 bs),
      rq_side = byte_side (field 25 1 bs), rq_price = bits_price (field 26 8 bs), rq_qty = word_of_nat (field 34 4 bs)\<rparr>\<rparr>"

definition encode_response :: "MEClientResponse \<Rightarrow> byte list" where
  "encode_response r = le 1 (response_type_byte (rs_type r)) @ le 4 (unat (rs_client_id r)) @ le 4 (unat (rs_ticker_id r)) @
     le 8 (unat (rs_client_order_id r)) @ le 8 (unat (rs_market_order_id r)) @ le 1 (side_byte (rs_side r)) @
     le 8 (price_bits (rs_price r)) @ le 4 (unat (rs_exec_qty r)) @ le 4 (unat (rs_leaves_qty r))"

definition encode_om_response :: "OMClientResponse \<Rightarrow> byte list" where
  "encode_om_response m = le 8 (unat (omr_seq_num m)) @ encode_response (me_client_response m)"

definition decode_om_response :: "byte list \<Rightarrow> OMClientResponse" where
  "decode_om_response bs = \<lparr>omr_seq_num = word_of_nat (field 0 8 bs), me_client_response =
     \<lparr>rs_type = byte_response_type (field 8 1 bs), rs_client_id = word_of_nat (field 9 4 bs),
      rs_ticker_id = word_of_nat (field 13 4 bs), rs_client_order_id = word_of_nat (field 17 8 bs),
      rs_market_order_id = word_of_nat (field 25 8 bs), rs_side = byte_side (field 33 1 bs),
      rs_price = bits_price (field 34 8 bs), rs_exec_qty = word_of_nat (field 42 4 bs), rs_leaves_qty = word_of_nat (field 46 4 bs)\<rparr>\<rparr>"

definition encode_update :: "MEMarketUpdate \<Rightarrow> byte list" where
  "encode_update u = le 1 (update_type_byte (mu_type u)) @ le 8 (unat (mu_order_id u)) @ le 4 (unat (mu_ticker_id u)) @
     le 1 (side_byte (mu_side u)) @ le 8 (price_bits (mu_price u)) @ le 4 (unat (mu_qty u)) @ le 8 (unat (mu_priority u))"

definition encode_mdp_update :: "MDPMarketUpdate \<Rightarrow> byte list" where
  "encode_mdp_update m = le 8 (unat (mdp_seq_num m)) @ encode_update (me_market_update m)"

definition decode_mdp_update :: "byte list \<Rightarrow> MDPMarketUpdate" where
  "decode_mdp_update bs = \<lparr>mdp_seq_num = word_of_nat (field 0 8 bs), me_market_update =
     \<lparr>mu_type = byte_update_type (field 8 1 bs), mu_order_id = word_of_nat (field 9 8 bs), mu_ticker_id = word_of_nat (field 17 4 bs),
      mu_side = byte_side (field 21 1 bs), mu_price = bits_price (field 22 8 bs), mu_qty = word_of_nat (field 30 4 bs),
      mu_priority = word_of_nat (field 34 8 bs)\<rparr>\<rparr>"

definition price_ok :: "Price \<Rightarrow> bool" where
  "price_ok p \<longleftrightarrow> - (2 ^ 63) \<le> p \<and> p < 2 ^ 63"

lemma bits_price_bits: "price_ok p \<Longrightarrow> bits_price (price_bits p) = p"
  unfolding price_ok_def bits_price_def price_bits_def
  by (simp add: word_of_nat_eq_iff) (simp add: sint_sbintrunc' signed_take_bit_int_eq_self)

lemma byte_side_byte [simp]: "byte_side (side_byte s) = s"
  by (cases s) (simp_all add: byte_side_def side_byte_def unsigned_minus_1_eq_mask mask_eq_exp_minus_1)

lemma byte_request_type_byte [simp]: "byte_request_type (request_type_byte t) = t"
  by (cases t) (simp_all add: byte_request_type_def)

lemma byte_response_type_byte [simp]: "byte_response_type (response_type_byte t) = t"
  by (cases t) (simp_all add: byte_response_type_def)

lemma byte_update_type_byte [simp]: "byte_update_type (update_type_byte t) = t"
  by (cases t) (simp_all add: byte_update_type_def)

lemma byte_bounds:
  "side_byte s < 256" "request_type_byte t < 256" "response_type_byte r < 256" "update_type_byte u < 256"
proof -
  show "side_byte s < 256"
    using unsigned_less [of "word_of_int (side_repr s) :: byte", where 'a = nat] by (simp add: side_byte_def)
  show "request_type_byte t < 256" by (cases t) simp_all
  show "response_type_byte r < 256" by (cases r) simp_all
  show "update_type_byte u < 256" by (cases u) simp_all
qed

lemma word_bounds:
  fixes q :: "32 word" and i :: "64 word"
  shows "price_bits p < 18446744073709551616" "unat q < 4294967296" "unat i < 18446744073709551616"
  using unsigned_less [of "word_of_int p :: 64 word", where 'a = nat] unsigned_less [of q, where 'a = nat]
    unsigned_less [of i, where 'a = nat]
  by (simp_all add: price_bits_def)

lemma field_Cons: "field off m (b # bs) = (if off = 0 then (if m = 0 then 0 else unat b + 256 * of_le (take (m - 1) bs))
   else field (off - 1) m bs)"
  by (cases off; cases m) (simp_all add: field_def)

lemma unat_byte: "v < 256 \<Longrightarrow> unat (word_of_nat v :: byte) = v"
  by (simp add: unsigned_of_nat take_bit_nat_eq_self)

lemmas field_simps_wire = field_skip field_here field_last field_Cons unat_byte byte_bounds word_bounds

lemma decode_encode_om_request:
  "price_ok (rq_price (me_client_request m)) \<Longrightarrow> decode_om_request (encode_om_request m) = m"
  by (simp add: decode_om_request_def encode_om_request_def encode_request_def field_simps_wire bits_price_bits)

lemma decode_encode_om_response:
  "price_ok (rs_price (me_client_response m)) \<Longrightarrow> decode_om_response (encode_om_response m) = m"
  by (simp add: decode_om_response_def encode_om_response_def encode_response_def field_simps_wire bits_price_bits)

lemma decode_encode_mdp_update:
  "price_ok (mu_price (me_market_update m)) \<Longrightarrow> decode_mdp_update (encode_mdp_update m) = m"
  by (simp add: decode_mdp_update_def encode_mdp_update_def encode_update_def field_simps_wire bits_price_bits)

lemma encode_lengths [simp]:
  "length (encode_om_request m) = 38" "length (encode_om_response r) = 50" "length (encode_mdp_update u) = 42"
  by (simp_all add: encode_om_request_def encode_request_def encode_om_response_def encode_response_def
      encode_mdp_update_def encode_update_def)

subsection \<open>Cutting a stream into messages\<close>

text \<open>
  The loop of every receive callback, \<open>for (; i + size <= next_rcv_valid_index_; i += size)\<close>: \<open>frames\<close> are the
  messages it looks at, \<open>leftover\<close> is what it moves to the front of the buffer for the next time.
\<close>

function frames :: "nat \<Rightarrow> 'a list \<Rightarrow> 'a list list" where
  "frames n bs = (if n = 0 \<or> length bs < n then [] else take n bs # frames n (drop n bs))"
  by auto
termination by (relation "measure (\<lambda>(n, bs). length bs)") auto

function leftover :: "nat \<Rightarrow> 'a list \<Rightarrow> 'a list" where
  "leftover n bs = (if n = 0 \<or> length bs < n then bs else leftover n (drop n bs))"
  by auto
termination by (relation "measure (\<lambda>(n, bs). length bs)") auto

declare frames.simps [simp del] leftover.simps [simp del]

lemma frames_short [simp]: "length bs < n \<Longrightarrow> frames n bs = []" "length bs < n \<Longrightarrow> leftover n bs = bs"
  by (simp_all add: frames.simps leftover.simps)

lemma frames_step:
  assumes "0 < n" and "length xs = n"
  shows "frames n (xs @ bs) = xs # frames n bs" and "leftover n (xs @ bs) = leftover n bs"
  using assms by (simp_all add: frames.simps [of n "xs @ bs"] leftover.simps [of n "xs @ bs"])

lemma length_leftover: "0 < n \<Longrightarrow> length (leftover n bs) < n"
  by (induction n bs rule: leftover.induct) (simp add: leftover.simps [of _ bs for bs])

lemma frames_append:
  assumes "0 < n"
  shows "frames n (xs @ ys) = frames n xs @ frames n (leftover n xs @ ys) \<and>
         leftover n (xs @ ys) = leftover n (leftover n xs @ ys)"
  using assms
proof (induction n xs rule: leftover.induct)
  case (1 n bs)
  show ?case
  proof (cases "length bs < n")
    case True
    then show ?thesis by simp
  next
    case False
    with 1 have IH: "frames n (drop n bs @ ys) = frames n (drop n bs) @ frames n (leftover n (drop n bs) @ ys)"
      "leftover n (drop n bs @ ys) = leftover n (leftover n (drop n bs) @ ys)" by auto
    have eq: "bs @ ys = take n bs @ (drop n bs @ ys)" by simp
    have len: "length (take n bs) = n" using False by simp
    have "frames n (bs @ ys) = take n bs # frames n (drop n bs @ ys)" "leftover n (bs @ ys) = leftover n (drop n bs @ ys)"
      using frames_step [OF 1(2) len, of "drop n bs @ ys"] by (simp_all only: eq)
    moreover have "frames n bs = take n bs # frames n (drop n bs)" "leftover n bs = leftover n (drop n bs)"
      using frames_step [OF 1(2) len, of "drop n bs"] by simp_all
    ultimately show ?thesis using IH by simp
  qed
qed

text \<open>Reads deliver the stream in pieces; the buffer keeps what is not yet a message.\<close>

fun receive_pieces :: "nat \<Rightarrow> 'a list \<Rightarrow> 'a list list \<Rightarrow> 'a list list" where
  "receive_pieces n buf [] = []"
| "receive_pieces n buf (c # cs) = frames n (buf @ c) @ receive_pieces n (leftover n (buf @ c)) cs"

lemma receive_pieces_eq: "0 < n \<Longrightarrow> length buf < n \<Longrightarrow> receive_pieces n buf cs = frames n (buf @ concat cs)"
proof (induction cs arbitrary: buf)
  case Nil
  then show ?case by simp
next
  case (Cons c cs)
  then show ?case using frames_append [of n "buf @ c" "concat cs"] by (simp add: length_leftover)
qed

locale wire_format =
  fixes encode :: "'m \<Rightarrow> byte list"
    and decode :: "byte list \<Rightarrow> 'm"
    and size :: nat
    and ok :: "'m \<Rightarrow> bool"
  assumes size_pos: "0 < size"
    and encode_size: "length (encode m) = size"
    and decode_encode: "ok m \<Longrightarrow> decode (encode m) = m"
begin

lemma frames_encoded: "frames size (concat (map encode ms) @ rest) = map encode ms @ frames size rest"
  by (induction ms) (simp_all add: frames_step [OF size_pos encode_size])

lemma leftover_encoded: "leftover size (concat (map encode ms) @ rest) = leftover size rest"
  by (induction ms) (simp_all add: frames_step [OF size_pos encode_size])

lemma decode_stream: "\<forall>m \<in> set ms. ok m \<Longrightarrow> map decode (frames size (concat (map encode ms))) = ms"
  using frames_encoded [of ms "[]"] size_pos by (simp add: decode_encode map_idI)

lemma any_pieces:
  assumes "\<forall>m \<in> set ms. ok m" and "concat pieces = concat (map encode ms)"
  shows "map decode (receive_pieces size [] pieces) = ms"
  using assms(1) by (simp add: receive_pieces_eq size_pos assms(2) decode_stream)

text \<open>Whatever part of a stream has arrived, it is whole messages and a rest the next bytes complete.\<close>

lemma split_stream:
  assumes "xs @ ys = concat (map encode ms)"
  shows "\<exists>j \<le> length ms. frames size xs = map encode (take j ms) \<and> leftover size xs @ ys = concat (map encode (drop j ms))"
  using assms
proof (induction ms arbitrary: xs)
  case Nil
  then show ?case using size_pos by simp
next
  case (Cons m ms)
  show ?case
  proof (cases "length xs < size")
    case True
    then show ?thesis using Cons.prems by (intro exI [of _ 0]) simp
  next
    case False
    have t: "take size xs = encode m"
      using arg_cong [OF Cons.prems, of "take size"] False by (simp add: encode_size)
    have d: "drop size xs @ ys = concat (map encode ms)"
      using arg_cong [OF Cons.prems, of "drop size"] False by (simp add: encode_size)
    from Cons.IH [OF d] obtain j where j: "j \<le> length ms" "frames size (drop size xs) = map encode (take j ms)"
      "leftover size (drop size xs) @ ys = concat (map encode (drop j ms))" by blast
    have x: "xs = encode m @ drop size xs" using append_take_drop_id [of size xs] t by simp
    have f: "frames size xs = encode m # frames size (drop size xs)" "leftover size xs = leftover size (drop size xs)"
      using frames_step [OF size_pos encode_size, of m "drop size xs"] by (simp_all flip: x)
    show ?thesis using j by (intro exI [of _ "Suc j"]) (simp add: f)
  qed
qed

lemma prefix_delivered:
  assumes "\<forall>m \<in> set ms. ok m" and "concat pieces = concat (map encode ms) @ rest" and "length rest < size"
  shows "map decode (receive_pieces size [] pieces) = ms"
  using assms size_pos by (simp add: receive_pieces_eq frames_encoded decode_encode map_idI)

end

interpretation request_wire: wire_format encode_om_request decode_om_request 38
    "\<lambda>m. price_ok (rq_price (me_client_request m))"
  by unfold_locales (simp_all add: decode_encode_om_request)

interpretation response_wire: wire_format encode_om_response decode_om_response 50
    "\<lambda>m. price_ok (rs_price (me_client_response m))"
  by unfold_locales (simp_all add: decode_encode_om_response)

interpretation update_wire: wire_format encode_mdp_update decode_mdp_update 42
    "\<lambda>m. price_ok (mu_price (me_market_update m))"
  by unfold_locales (simp_all add: decode_encode_mdp_update)

end
