(* ===== verification/Sockets.thy ===== *)
theory Sockets
  imports Wire
begin

text \<open>
  \<open>common/tcp_socket.cpp\<close>, \<open>common/tcp_server.cpp\<close> and \<open>common/mcast_socket.cpp\<close>: the buffers in front of the
  network.

  \<^item> A socket holds the valid prefixes of its two buffers. The operating system is an input of every call: the bytes
    that are waiting, the receive time of the read, and what \<open>::send\<close> returned. \<open>tcp_sendAndRecv\<close> returns the bytes
    that went out.
  \<^item> A write past the end of a buffer is \<open>OutOfRange\<close>: \<open>TCPSocket::send\<close> has no check of its own.
  \<^item> \<open>server_poll\<close> takes what \<open>epoll_wait\<close> and \<open>accept\<close> returned; sockets are named by a number, as the code's
    lists hold pointers.
\<close>

definition TCPBufferSize :: nat where "TCPBufferSize = 64 * 1024 * 1024"

definition McastBufferSize :: nat where "McastBufferSize = 64 * 1024 * 1024"

record socket_buffers =
  outbound :: "byte list"
  inbound :: "byte list"

definition socket_buffers_new :: socket_buffers where
  "socket_buffers_new = \<lparr>outbound = [], inbound = []\<rparr>"

subsection \<open>TCP\<close>

definition tcp_send :: "byte list \<Rightarrow> socket_buffers \<Rightarrow> socket_buffers res" where
  "tcp_send data s =
     (if TCPBufferSize < length (outbound s) + length data then Inl OutOfRange
      else Inr (s\<lparr>outbound := outbound s @ data\<rparr>))"

text \<open>
  \<open>recvmsg\<close> takes at most what fits behind the bytes that are there; \<open>n\<close> is the result of \<open>::send\<close>, negative when it
  fails. The callback works on the socket and on the state of its owner.
\<close>

definition tcp_read :: "byte list \<Rightarrow> socket_buffers \<Rightarrow> byte list" where
  "tcp_read waiting s = take (TCPBufferSize - length (inbound s)) waiting"

definition tcp_sendAndRecv ::
  "(Nanos \<Rightarrow> socket_buffers \<times> 's \<Rightarrow> (socket_buffers \<times> 's) res) \<Rightarrow> byte list \<Rightarrow> Nanos \<Rightarrow> int \<Rightarrow>
   socket_buffers \<times> 's \<Rightarrow> (bool \<times> byte list \<times> socket_buffers \<times> 's) res" where
  "tcp_sendAndRecv recv_callback waiting kernel_time n x =
     (let s = fst x; read = tcp_read waiting s in
      bindE (if read \<noteq> [] then recv_callback kernel_time (s\<lparr>inbound := inbound s @ read\<rparr>, snd x) else Inr x) (\<lambda>x1.
      let s1 = fst x1; sent = (if outbound s1 \<noteq> [] then take (nat n) (outbound s1) else []) in
      Inr (read \<noteq> [], sent, s1\<lparr>outbound := []\<rparr>, snd x1)))"

text \<open>
  What a receive callback does with the buffer: handle each whole message, move the rest to the front.
\<close>

definition on_messages ::
  "nat \<Rightarrow> (byte list \<Rightarrow> 's \<Rightarrow> 's res) \<Rightarrow> socket_buffers \<times> 's \<Rightarrow> (socket_buffers \<times> 's) res" where
  "on_messages msz handle x =
     (if length (inbound (fst x)) < msz then Inr x
      else bindE (foldE handle (frames msz (inbound (fst x))) (snd x)) (\<lambda>st.
           Inr ((fst x)\<lparr>inbound := leftover msz (inbound (fst x))\<rparr>, st)))"

lemma on_messages_eq:
  "on_messages msz handle (s, st) =
     bindE (foldE handle (frames msz (inbound s)) st) (\<lambda>st'. Inr (s\<lparr>inbound := leftover msz (inbound s)\<rparr>, st'))"
  by (simp add: on_messages_def)

text \<open>Reads one after the other, as long as each fits into the buffer, handle the stream as if it had come at once.\<close>

definition pieces_fit :: "nat \<Rightarrow> byte list list \<Rightarrow> bool" where
  "pieces_fit msz cs \<longleftrightarrow> (\<forall>c \<in> set cs. c \<noteq> [] \<and> length c + msz \<le> TCPBufferSize)"

fun tcp_rounds ::
  "(Nanos \<Rightarrow> socket_buffers \<times> 's \<Rightarrow> (socket_buffers \<times> 's) res) \<Rightarrow> byte list list \<Rightarrow> socket_buffers \<times> 's \<Rightarrow>
   (socket_buffers \<times> 's) res" where
  "tcp_rounds cb [] x = Inr x"
| "tcp_rounds cb (c # cs) x = bindE (tcp_sendAndRecv cb c 0 0 x) (\<lambda>(_, _, x'). tcp_rounds cb cs x')"

lemma foldE_handle_append: "bindE (foldE h xs st) (foldE h ys) = foldE h (xs @ ys) st"
  by (simp add: foldE_append)

lemma tcp_rounds_stream:
  assumes "0 < msz" and "msz \<le> TCPBufferSize" and "pieces_fit msz cs" and "length (inbound s) < msz" and "outbound s = []"
  shows "tcp_rounds (\<lambda>_. on_messages msz handle) cs (s, st) =
    bindE (foldE handle (receive_pieces msz (inbound s) cs) st) (\<lambda>st'.
    Inr (s\<lparr>inbound := leftover msz (inbound s @ concat cs)\<rparr>, st'))"
  using assms
proof (induction cs arbitrary: s st)
  case Nil
  then show ?case by simp
next
  case (Cons c cs)
  then have read: "tcp_read c s = c" "c \<noteq> []" and rest: "pieces_fit msz cs"
    by (auto simp: tcp_read_def pieces_fit_def)
  let ?s = "s\<lparr>inbound := leftover msz (inbound s @ c)\<rparr>"
  have step: "tcp_sendAndRecv (\<lambda>_. on_messages msz handle) c 0 0 (s, st) =
      bindE (foldE handle (frames msz (inbound s @ c)) st) (\<lambda>st'. Inr (True, [], ?s, st'))"
    using read Cons.prems(5) by (cases "foldE handle (frames msz (inbound s @ c)) st") (auto simp: tcp_sendAndRecv_def on_messages_eq Let_def)
  have IH: "tcp_rounds (\<lambda>_. on_messages msz handle) cs (?s, st') =
      bindE (foldE handle (receive_pieces msz (leftover msz (inbound s @ c)) cs) st') (\<lambda>st''.
      Inr (s\<lparr>inbound := leftover msz (inbound s @ concat (c # cs))\<rparr>, st''))" for st'
    using Cons.IH [of ?s st'] Cons.prems rest frames_append [of msz "inbound s @ c" "concat cs"]
    by (simp add: length_leftover)
  show ?case
    unfolding tcp_rounds.simps step bindE_assoc
    by (simp add: IH bindE_assoc foldE_append)
qed

subsection \<open>The server's lists of sockets\<close>

datatype epoll_flag = EPOLLIN | EPOLLOUT | EPOLLERR | EPOLLHUP

record tcp_server =
  listener :: nat
  receive_sockets :: "nat list"
  send_sockets :: "nat list"

definition push_new :: "nat \<Rightarrow> nat list \<Rightarrow> nat list" where
  "push_new k ks = (if k \<in> set ks then ks else ks @ [k])"

definition poll_event :: "nat \<times> epoll_flag list \<Rightarrow> bool \<times> tcp_server \<Rightarrow> bool \<times> tcp_server" where
  "poll_event ev x =
     (case (ev, x) of ((k, flags), (have_new_connection, sv)) \<Rightarrow>
      if EPOLLIN \<in> set flags \<and> k = listener sv then (True, sv)
      else let sv1 = (if EPOLLIN \<in> set flags then sv\<lparr>receive_sockets := push_new k (receive_sockets sv)\<rparr> else sv);
               sv2 = (if EPOLLOUT \<in> set flags then sv1\<lparr>send_sockets := push_new k (send_sockets sv1)\<rparr> else sv1);
               sv3 = (if EPOLLERR \<in> set flags \<or> EPOLLHUP \<in> set flags
                      then sv2\<lparr>receive_sockets := push_new k (receive_sockets sv2)\<rparr> else sv2)
           in (have_new_connection, sv3))"

text \<open>\<open>accepted\<close> are the connections \<open>accept\<close> hands out before it returns -1.\<close>

definition server_poll :: "(nat \<times> epoll_flag list) list \<Rightarrow> nat list \<Rightarrow> tcp_server \<Rightarrow> tcp_server" where
  "server_poll events accepted sv =
     (case fold poll_event events (False, sv) of (have_new_connection, sv1) \<Rightarrow>
      if have_new_connection then sv1\<lparr>receive_sockets := fold push_new accepted (receive_sockets sv1)\<rparr> else sv1)"

lemma set_push_new [simp]: "set (push_new k ks) = insert k (set ks)"
  by (auto simp: push_new_def)

lemma distinct_push_new [simp]: "distinct (push_new k ks) = distinct ks"
  by (auto simp: push_new_def)

lemma distinct_fold_push_new [simp]: "distinct (fold push_new ks js) = distinct js"
  by (induction ks arbitrary: js) simp_all

lemma set_fold_push_new [simp]: "set (fold push_new ks js) = set ks \<union> set js"
  by (induction ks arbitrary: js) auto

lemma poll_event_distinct:
  "distinct (receive_sockets (snd x)) \<Longrightarrow> distinct (receive_sockets (snd (poll_event ev x)))"
  by (auto simp: poll_event_def Let_def split: prod.splits)

lemma poll_events_distinct:
  "distinct (receive_sockets (snd x)) \<Longrightarrow> distinct (receive_sockets (snd (fold poll_event evs x)))"
  by (induction evs arbitrary: x) (simp_all add: poll_event_distinct)

lemma poll_events_keep:
  "set (receive_sockets (snd x)) \<subseteq> set (receive_sockets (snd (fold poll_event evs x)))"
proof (induction evs arbitrary: x)
  case Nil
  show ?case by simp
next
  case (Cons ev evs)
  have "set (receive_sockets (snd x)) \<subseteq> set (receive_sockets (snd (poll_event ev x)))"
    by (auto simp: poll_event_def Let_def split: prod.splits)
  with Cons [of "poll_event ev x"] show ?case by auto
qed

subsection \<open>Multicast\<close>

definition mcast_send :: "byte list \<Rightarrow> socket_buffers \<Rightarrow> socket_buffers res" where
  "mcast_send data s =
     (if McastBufferSize < length (outbound s) + length data then Inl OutOfRange
      else let s1 = s\<lparr>outbound := outbound s @ data\<rparr> in
           bindE (assertE (length (outbound s1) < McastBufferSize)) (\<lambda>_. Inr s1))"

definition mcast_sendAndRecv ::
  "(socket_buffers \<times> 's \<Rightarrow> (socket_buffers \<times> 's) res) \<Rightarrow> byte list \<Rightarrow> int \<Rightarrow>
   socket_buffers \<times> 's \<Rightarrow> (bool \<times> byte list \<times> socket_buffers \<times> 's) res" where
  "mcast_sendAndRecv recv_callback waiting n x =
     (let s = fst x; read = take (McastBufferSize - length (inbound s)) waiting in
      bindE (if read \<noteq> [] then recv_callback (s\<lparr>inbound := inbound s @ read\<rparr>, snd x) else Inr x) (\<lambda>x1.
      let s1 = fst x1; sent = (if outbound s1 \<noteq> [] then take (nat n) (outbound s1) else []) in
      Inr (read \<noteq> [], sent, s1\<lparr>outbound := []\<rparr>, snd x1)))"

end
