(* ===== verification/OrderServer.thy ===== *)
theory OrderServer
  imports Sockets LFQueue "HOL-Library.Multiset"
begin

text \<open>
  \<open>exchange/order_server/\<close>: the sequencer (\<open>fifo_sequencer.h\<close>) and the order server (\<open>order_server.h\<close>,
  \<open>order_server.cpp\<close>), the exchange's end of the order entry connections.

  \<^item> \<open>std::sort\<close> is an argument of \<open>sequenceAndPublish\<close>; \<open>sequencing\<close> is what the standard promises of it, a sorted
    permutation and nothing about elements that compare equal.
  \<^item> An order server keeps one entry per client in three arrays; an index that is no client's is \<open>OutOfRange\<close>
    (\<open>operator[]\<close> does not check). \<open>os_round\<close> is one round of \<open>run\<close>.
  \<^item> \<open>client_accepts\<close> is what one client can expect: the messages with the next number on its own connection.
\<close>

definition ME_MAX_PENDING_REQUESTS :: nat where "ME_MAX_PENDING_REQUESTS = 1024"

record fifo_sequencer =
  fs_incoming_requests :: "MEClientRequest lf_queue"
  pending_client_requests :: "(Nanos \<times> MEClientRequest) list"

definition fifo_sequencer_new :: "MEClientRequest lf_queue \<Rightarrow> fifo_sequencer" where
  "fifo_sequencer_new q = \<lparr>fs_incoming_requests = q, pending_client_requests = []\<rparr>"

definition addClientRequest :: "Nanos \<Rightarrow> MEClientRequest \<Rightarrow> fifo_sequencer \<Rightarrow> fifo_sequencer res" where
  "addClientRequest rx_time request fs =
     bindE (fatalE (ME_MAX_PENDING_REQUESTS \<le> length (pending_client_requests fs))) (\<lambda>_.
     Inr (fs\<lparr>pending_client_requests := pending_client_requests fs @ [(rx_time, request)]\<rparr>))"

definition sequenceAndPublish ::
  "((Nanos \<times> MEClientRequest) list \<Rightarrow> (Nanos \<times> MEClientRequest) list) \<Rightarrow> fifo_sequencer \<Rightarrow> fifo_sequencer" where
  "sequenceAndPublish std_sort fs =
     (if pending_client_requests fs = [] then fs
      else fs\<lparr>fs_incoming_requests := fold (\<lambda>cr. lfq_push (snd cr)) (std_sort (pending_client_requests fs)) (fs_incoming_requests fs),
              pending_client_requests := []\<rparr>)"

subsection \<open>The server\<close>

record order_server =
  os_responses :: "MEClientResponse lf_queue"
  cid_next_outgoing_seq_num :: "64 word list"
  cid_next_exp_seq_num :: "64 word list"
  cid_tcp_socket :: "nat option list"
  os_sockets :: "nat \<Rightarrow> socket_buffers"
  os_tcp_server :: tcp_server
  os_sequencer :: fifo_sequencer

definition order_server_new :: "MEClientRequest lf_queue \<Rightarrow> MEClientResponse lf_queue \<Rightarrow> nat \<Rightarrow> order_server" where
  "order_server_new client_requests client_responses listen_socket =
     \<lparr>os_responses = client_responses, cid_next_outgoing_seq_num = replicate ME_MAX_NUM_CLIENTS 1,
      cid_next_exp_seq_num = replicate ME_MAX_NUM_CLIENTS 1, cid_tcp_socket = replicate ME_MAX_NUM_CLIENTS None,
      os_sockets = (\<lambda>_. socket_buffers_new),
      os_tcp_server = \<lparr>listener = listen_socket, receive_sockets = [], send_sockets = []\<rparr>,
      os_sequencer = fifo_sequencer_new client_requests\<rparr>"

text \<open>One turn of the loop in \<open>recvCallback\<close>.\<close>

definition os_onRequest :: "nat \<Rightarrow> Nanos \<Rightarrow> OMClientRequest \<Rightarrow> order_server \<Rightarrow> order_server res" where
  "os_onRequest sock rx_time request os =
     bindE (atE ME_MAX_NUM_CLIENTS (unat (rq_client_id (me_client_request request)))) (\<lambda>c.
     let os1 = (if cid_tcp_socket os ! c = None then os\<lparr>cid_tcp_socket := (cid_tcp_socket os)[c := Some sock]\<rparr> else os) in
     if cid_tcp_socket os1 ! c \<noteq> Some sock then Inr os1
     else if om_seq_num request \<noteq> cid_next_exp_seq_num os1 ! c then Inr os1
     else let os2 = os1\<lparr>cid_next_exp_seq_num := (cid_next_exp_seq_num os1)[c := cid_next_exp_seq_num os1 ! c + 1]\<rparr> in
          bindE (addClientRequest rx_time (me_client_request request) (os_sequencer os2)) (\<lambda>fs.
          Inr (os2\<lparr>os_sequencer := fs\<rparr>)))"

definition os_recvCallback :: "nat \<Rightarrow> Nanos \<Rightarrow> socket_buffers \<times> order_server \<Rightarrow> (socket_buffers \<times> order_server) res" where
  "os_recvCallback sock rx_time = on_messages 38 (\<lambda>bs. os_onRequest sock rx_time (decode_om_request bs))"

definition os_recvFinishedCallback ::
  "((Nanos \<times> MEClientRequest) list \<Rightarrow> (Nanos \<times> MEClientRequest) list) \<Rightarrow> order_server \<Rightarrow> order_server" where
  "os_recvFinishedCallback std_sort os = os\<lparr>os_sequencer := sequenceAndPublish std_sort (os_sequencer os)\<rparr>"

text \<open>
  \<open>TCPServer::sendAndRecv\<close> with the order server's callbacks. \<open>io\<close> is the operating system's answer to each
  socket: bytes waiting, receive time, what \<open>::send\<close> took. The result has the bytes that went out, per socket.
\<close>

definition os_socket_io ::
  "(nat \<Rightarrow> byte list \<times> Nanos \<times> int) \<Rightarrow> nat \<Rightarrow> bool \<times> (nat \<times> byte list) list \<times> order_server \<Rightarrow>
   (bool \<times> (nat \<times> byte list) list \<times> order_server) res" where
  "os_socket_io io sock x =
     (case x of (recv, out, os) \<Rightarrow> case io sock of (waiting, kernel_time, n) \<Rightarrow>
      bindE (tcp_sendAndRecv (os_recvCallback sock) waiting kernel_time n (os_sockets os sock, os)) (\<lambda>(r, sent, s, os1).
      Inr (recv \<or> r, out @ [(sock, sent)], os1\<lparr>os_sockets := (os_sockets os1)(sock := s)\<rparr>)))"

definition os_sendAndRecv ::
  "((Nanos \<times> MEClientRequest) list \<Rightarrow> (Nanos \<times> MEClientRequest) list) \<Rightarrow> (nat \<Rightarrow> byte list \<times> Nanos \<times> int) \<Rightarrow>
   (nat \<Rightarrow> byte list \<times> Nanos \<times> int) \<Rightarrow> order_server \<Rightarrow> ((nat \<times> byte list) list \<times> order_server) res" where
  "os_sendAndRecv std_sort io io' os =
     bindE (foldE (os_socket_io io) (receive_sockets (os_tcp_server os)) (False, [], os)) (\<lambda>(recv, out, os1).
     let os2 = (if recv then os_recvFinishedCallback std_sort os1 else os1) in
     bindE (foldE (os_socket_io io') (send_sockets (os_tcp_server os2)) (False, out, os2)) (\<lambda>(_, out', os3).
     Inr (out', os3)))"

definition os_send_response :: "MEClientResponse \<Rightarrow> order_server \<Rightarrow> order_server res" where
  "os_send_response client_response os =
     bindE (atE ME_MAX_NUM_CLIENTS (unat (rs_client_id client_response))) (\<lambda>c.
     bindE (assertE (cid_tcp_socket os ! c \<noteq> None)) (\<lambda>_.
     let k = the (cid_tcp_socket os ! c) in
     bindE (tcp_send (le 8 (unat (cid_next_outgoing_seq_num os ! c))) (os_sockets os k)) (\<lambda>s1.
     bindE (tcp_send (encode_response client_response) s1) (\<lambda>s2.
     Inr (os\<lparr>os_sockets := (os_sockets os)(k := s2),
             cid_next_outgoing_seq_num := (cid_next_outgoing_seq_num os)[c := cid_next_outgoing_seq_num os ! c + 1]\<rparr>)))))"

definition os_response_step :: "order_server \<Rightarrow> order_server res" where
  "os_response_step os =
     (case getNextToRead (os_responses os) of
        None \<Rightarrow> Inr os
      | Some r \<Rightarrow>
          bindE (os_send_response r os) (\<lambda>os1.
          bindE (updateReadIndex (os_responses os1)) (\<lambda>q.
          Inr (os1\<lparr>os_responses := q\<rparr>))))"

definition os_round ::
  "((Nanos \<times> MEClientRequest) list \<Rightarrow> (Nanos \<times> MEClientRequest) list) \<Rightarrow> (nat \<times> epoll_flag list) list \<Rightarrow> nat list \<Rightarrow>
   (nat \<Rightarrow> byte list \<times> Nanos \<times> int) \<Rightarrow> (nat \<Rightarrow> byte list \<times> Nanos \<times> int) \<Rightarrow> order_server \<Rightarrow>
   ((nat \<times> byte list) list \<times> order_server) res" where
  "os_round std_sort events accepted io io' os =
     (let os1 = os\<lparr>os_tcp_server := server_poll events accepted (os_tcp_server os)\<rparr> in
      bindE (os_sendAndRecv std_sort io io' os1) (\<lambda>(out, os2).
      bindE (foldE (\<lambda>_. os_response_step) [0..<lfq_size (os_responses os2)] os2) (\<lambda>os3.
      Inr (out, os3))))"

subsection \<open>What the sequencer publishes\<close>

locale sequencing =
  fixes std_sort :: "(Nanos \<times> MEClientRequest) list \<Rightarrow> (Nanos \<times> MEClientRequest) list"
  assumes sort_mset: "mset (std_sort xs) = mset xs"
    and sort_sorted: "sorted (map fst (std_sort xs))"
begin

lemma sort_length: "length (std_sort xs) = length xs"
  using sort_mset by (metis size_mset)

lemma sort_set: "set (std_sort xs) = set xs"
  using sort_mset by (metis set_mset_mset)

text \<open>When no two times are the same there is one sorted permutation.\<close>

lemma sort_distinct_times: "distinct (map fst xs) \<Longrightarrow> sorted (map fst xs) \<Longrightarrow> std_sort xs = xs"
proof (rule map_sorted_distinct_set_unique [of fst])
  assume d: "distinct (map fst xs)" and s: "sorted (map fst xs)"
  show "inj_on fst (set (std_sort xs) \<union> set xs)" using d sort_set by (simp add: distinct_map)
  show "distinct (map fst (std_sort xs))"
    using d sort_mset [of xs] by (metis mset_eq_imp_distinct_iff mset_map)
qed (use sort_sorted sort_set in simp_all)

lemma publish_all:
  assumes "lfq_inv (fs_incoming_requests fs)"
    and "length (pending_client_requests fs) \<le> lfq_room (fs_incoming_requests fs)"
  shows "let fs' = sequenceAndPublish std_sort fs in
    lfq_list (fs_incoming_requests fs') = lfq_list (fs_incoming_requests fs) @ map snd (std_sort (pending_client_requests fs)) \<and>
    lfq_inv (fs_incoming_requests fs') \<and> pending_client_requests fs' = [] \<and>
    lfq_room (fs_incoming_requests fs') = lfq_room (fs_incoming_requests fs) - length (pending_client_requests fs)"
proof (cases "pending_client_requests fs = []")
  case True
  have "std_sort [] = []" using sort_length [of "[]"] by simp
  then show ?thesis using assms True by (simp add: sequenceAndPublish_def)
next
  case False
  have "fold (\<lambda>cr. lfq_push (snd cr)) xs q = fold lfq_push (map snd xs) q" for xs :: "(Nanos \<times> MEClientRequest) list" and q
    by (simp add: fold_map comp_def)
  then show ?thesis
    using assms False lfq.push_all [of "fs_incoming_requests fs" "map snd (std_sort (pending_client_requests fs))"]
    by (simp add: sequenceAndPublish_def sort_length)
qed

end

text \<open>The stable sort is one such function; so is one that reverses equal elements first.\<close>

interpretation stable: sequencing "sort_key fst"
  by unfold_locales simp_all

interpretation unstable: sequencing "\<lambda>xs. sort_key fst (rev xs)"
  by unfold_locales simp_all

subsection \<open>What each client can expect\<close>

definition os_ok :: "order_server \<Rightarrow> bool" where
  "os_ok os \<longleftrightarrow> length (cid_tcp_socket os) = ME_MAX_NUM_CLIENTS \<and> length (cid_next_exp_seq_num os) = ME_MAX_NUM_CLIENTS \<and>
     length (cid_next_outgoing_seq_num os) = ME_MAX_NUM_CLIENTS"

lemma os_ok_new [simp]: "os_ok (order_server_new rqs rss k)"
  by (simp add: os_ok_def order_server_new_def)

fun client_accepts ::
  "nat option \<Rightarrow> 64 word \<Rightarrow> (nat \<times> Nanos \<times> OMClientRequest) list \<Rightarrow> (Nanos \<times> MEClientRequest) list" where
  "client_accepts bound expd [] = []"
| "client_accepts bound expd ((sock, rx_time, m) # ms) =
     (if (bound = None \<or> bound = Some sock) \<and> om_seq_num m = expd
      then (rx_time, me_client_request m) # client_accepts (Some sock) (expd + 1) ms
      else client_accepts (if bound = None then Some sock else bound) expd ms)"

definition client_of :: "nat \<times> Nanos \<times> OMClientRequest \<Rightarrow> nat" where
  "client_of x = unat (rq_client_id (me_client_request (snd (snd x))))"

abbreviation os_deliver :: "(nat \<times> Nanos \<times> OMClientRequest) list \<Rightarrow> order_server \<Rightarrow> order_server res" where
  "os_deliver \<equiv> foldE (\<lambda>(sock, rx_time, m). os_onRequest sock rx_time m)"

abbreviation os_pending :: "order_server \<Rightarrow> (Nanos \<times> MEClientRequest) list" where
  "os_pending os \<equiv> pending_client_requests (os_sequencer os)"

definition pending_of :: "nat \<Rightarrow> (Nanos \<times> MEClientRequest) list \<Rightarrow> (Nanos \<times> MEClientRequest) list" where
  "pending_of c xs = filter (\<lambda>x. unat (rq_client_id (snd x)) = c) xs"

lemma pending_of_append [simp]: "pending_of c (xs @ ys) = pending_of c xs @ pending_of c ys"
  by (simp add: pending_of_def)

lemma pending_of_same [simp]: "pending_of (unat (rq_client_id r)) [(t, r)] = [(t, r)]"
  by (simp add: pending_of_def)

lemma pending_of_other [simp]: "unat (rq_client_id r) \<noteq> c \<Longrightarrow> pending_of c [(t, r)] = []"
  by (simp add: pending_of_def)

text \<open>One request: what happens to its client's entries, and that nothing happens to another's.\<close>

lemma os_onRequest_step:
  assumes ok: "os_ok os" and c: "client_of (sock, rx, m) < ME_MAX_NUM_CLIENTS"
    and room: "length (os_pending os) < ME_MAX_PENDING_REQUESTS"
  obtains os' where "os_onRequest sock rx m os = Inr os'" "os_ok os'"
    "length (os_pending os') \<le> length (os_pending os) + 1"
    "os_sockets os' = os_sockets os" "os_responses os' = os_responses os" "os_tcp_server os' = os_tcp_server os"
    "fs_incoming_requests (os_sequencer os') = fs_incoming_requests (os_sequencer os)"
    "cid_next_outgoing_seq_num os' = cid_next_outgoing_seq_num os"
    "\<And>i ms. i < ME_MAX_NUM_CLIENTS \<Longrightarrow>
       pending_of i (os_pending os') @ client_accepts (cid_tcp_socket os' ! i) (cid_next_exp_seq_num os' ! i) (filter (\<lambda>x. client_of x = i) ms) =
       pending_of i (os_pending os) @ client_accepts (cid_tcp_socket os ! i) (cid_next_exp_seq_num os ! i) (filter (\<lambda>x. client_of x = i) ((sock, rx, m) # ms))"
proof -
  let ?c = "client_of (sock, rx, m)"
  have cc: "unat (rq_client_id (me_client_request m)) = ?c" by (simp add: client_of_def)
  define os1 where "os1 = (if cid_tcp_socket os ! ?c = None then os\<lparr>cid_tcp_socket := (cid_tcp_socket os)[?c := Some sock]\<rparr> else os)"
  have s1: "cid_tcp_socket os1 ! ?c = (if cid_tcp_socket os ! ?c = None then Some sock else cid_tcp_socket os ! ?c)"
    using ok c by (simp add: os1_def os_ok_def)
  have o1: "cid_tcp_socket os1 ! i = cid_tcp_socket os ! i" if "i \<noteq> ?c" for i using that by (simp add: os1_def)
  have r1: "cid_next_exp_seq_num os1 = cid_next_exp_seq_num os" "os_sequencer os1 = os_sequencer os" "os_sockets os1 = os_sockets os"
    "os_responses os1 = os_responses os" "os_tcp_server os1 = os_tcp_server os" "cid_next_outgoing_seq_num os1 = cid_next_outgoing_seq_num os"
    by (simp_all add: os1_def)
  have ok1: "os_ok os1" using ok by (simp add: os_ok_def os1_def)
  show thesis
  proof (cases "cid_tcp_socket os1 ! ?c = Some sock \<and> om_seq_num m = cid_next_exp_seq_num os ! ?c")
    case False
    have eq: "os_onRequest sock rx m os = Inr os1"
      using False c by (auto simp: os_onRequest_def cc os1_def [symmetric] r1 Let_def)
    show thesis
    proof (rule that [OF eq ok1])
      fix i ms assume i: "i < ME_MAX_NUM_CLIENTS"
      show "pending_of i (os_pending os1) @ client_accepts (cid_tcp_socket os1 ! i) (cid_next_exp_seq_num os1 ! i) (filter (\<lambda>x. client_of x = i) ms) =
         pending_of i (os_pending os) @ client_accepts (cid_tcp_socket os ! i) (cid_next_exp_seq_num os ! i) (filter (\<lambda>x. client_of x = i) ((sock, rx, m) # ms))"
        using False s1 o1 [of i] by (cases "i = ?c") (auto simp: r1 split: if_splits)
    qed (simp_all add: r1)
  next
    case True
    define os2 where "os2 = os1\<lparr>cid_next_exp_seq_num := (cid_next_exp_seq_num os1)[?c := cid_next_exp_seq_num os1 ! ?c + 1],
      os_sequencer := (os_sequencer os)\<lparr>pending_client_requests := os_pending os @ [(rx, me_client_request m)]\<rparr>\<rparr>"
    have eq: "os_onRequest sock rx m os = Inr os2"
      using True c room by (simp add: os_onRequest_def cc os1_def [symmetric] r1 Let_def addClientRequest_def os2_def)
    have l: "?c < length (cid_next_exp_seq_num os)" using ok c by (simp add: os_ok_def)
    show thesis
    proof (rule that [OF eq])
      show "os_ok os2" using ok1 by (simp add: os_ok_def os2_def)
    next
      fix i ms assume i: "i < ME_MAX_NUM_CLIENTS"
      show "pending_of i (os_pending os2) @ client_accepts (cid_tcp_socket os2 ! i) (cid_next_exp_seq_num os2 ! i) (filter (\<lambda>x. client_of x = i) ms) =
         pending_of i (os_pending os) @ client_accepts (cid_tcp_socket os ! i) (cid_next_exp_seq_num os ! i) (filter (\<lambda>x. client_of x = i) ((sock, rx, m) # ms))"
        using True s1 o1 [of i] l by (cases "i = ?c") (auto simp: r1 os2_def cc pending_of_def split: if_splits)
    qed (simp_all add: r1 os2_def)
  qed
qed

lemma os_deliver_accepts:
  assumes "os_ok os" and "\<forall>x \<in> set ms. client_of x < ME_MAX_NUM_CLIENTS"
    and "length (os_pending os) + length ms \<le> ME_MAX_PENDING_REQUESTS"
  shows "\<exists>os'. os_deliver ms os = Inr os' \<and> os_ok os' \<and>
    os_sockets os' = os_sockets os \<and> os_responses os' = os_responses os \<and> os_tcp_server os' = os_tcp_server os \<and>
    fs_incoming_requests (os_sequencer os') = fs_incoming_requests (os_sequencer os) \<and>
    length (os_pending os') \<le> length (os_pending os) + length ms \<and>
    (\<forall>i < ME_MAX_NUM_CLIENTS. pending_of i (os_pending os') = pending_of i (os_pending os) @
       client_accepts (cid_tcp_socket os ! i) (cid_next_exp_seq_num os ! i) (filter (\<lambda>x. client_of x = i) ms))"
  using assms
proof (induction ms arbitrary: os)
  case Nil
  then show ?case by simp
next
  case (Cons x ms)
  obtain sock rx m where x: "x = (sock, rx, m)" by (cases x)
  from Cons.prems x have "client_of (sock, rx, m) < ME_MAX_NUM_CLIENTS" "length (os_pending os) < ME_MAX_PENDING_REQUESTS" by auto
  from os_onRequest_step [OF Cons.prems(1) this] obtain os1 where os1: "os_onRequest sock rx m os = Inr os1" "os_ok os1"
    "length (os_pending os1) \<le> length (os_pending os) + 1"
    "os_sockets os1 = os_sockets os" "os_responses os1 = os_responses os" "os_tcp_server os1 = os_tcp_server os"
    "fs_incoming_requests (os_sequencer os1) = fs_incoming_requests (os_sequencer os)"
    and step: "\<And>i ms. i < ME_MAX_NUM_CLIENTS \<Longrightarrow>
       pending_of i (os_pending os1) @ client_accepts (cid_tcp_socket os1 ! i) (cid_next_exp_seq_num os1 ! i) (filter (\<lambda>x. client_of x = i) ms) =
       pending_of i (os_pending os) @ client_accepts (cid_tcp_socket os ! i) (cid_next_exp_seq_num os ! i) (filter (\<lambda>x. client_of x = i) ((sock, rx, m) # ms))"
    by metis
  from Cons.IH [of os1] os1 Cons.prems obtain os' where "os_deliver ms os1 = Inr os'" "os_ok os'"
    "os_sockets os' = os_sockets os1" "os_responses os' = os_responses os1" "os_tcp_server os' = os_tcp_server os1"
    "fs_incoming_requests (os_sequencer os') = fs_incoming_requests (os_sequencer os1)"
    "length (os_pending os') \<le> length (os_pending os1) + length ms"
    "\<forall>i < ME_MAX_NUM_CLIENTS. pending_of i (os_pending os') = pending_of i (os_pending os1) @
       client_accepts (cid_tcp_socket os1 ! i) (cid_next_exp_seq_num os1 ! i) (filter (\<lambda>x. client_of x = i) ms)"
    by auto
  with os1 step x show ?case by simp
qed

subsection \<open>Properties\<close>

definition demo_request :: "ClientId \<Rightarrow> OrderId \<Rightarrow> 64 word \<Rightarrow> OMClientRequest" where
  "demo_request c oid n = \<lparr>om_seq_num = n, me_client_request =
     \<lparr>rq_type = NEW, rq_client_id = c, rq_ticker_id = 0, rq_order_id = oid, rq_side = BUY, rq_price = 100, rq_qty = 10\<rparr>\<rparr>"

text \<open>
  C12. The order server treats each client as if it alone were connected: of any interleaving of requests from all
  connections, what it keeps for a client are the requests that arrive on the client's first connection with the
  next sequence number, in the order they came; no request of another client changes that.
\<close>

theorem clients_do_not_interfere:
  assumes "os_ok os" and "\<forall>x \<in> set ms. client_of x < ME_MAX_NUM_CLIENTS"
    and "length (os_pending os) + length ms \<le> ME_MAX_PENDING_REQUESTS" and "i < ME_MAX_NUM_CLIENTS"
  shows "\<exists>os'. foldE (\<lambda>(sock, rx_time, m). os_onRequest sock rx_time m) ms os = Inr os' \<and>
    pending_of i (os_pending os') = pending_of i (os_pending os) @
      client_accepts (cid_tcp_socket os ! i) (cid_next_exp_seq_num os ! i) (filter (\<lambda>x. client_of x = i) ms)"
  using os_deliver_accepts [OF assms(1-3)] assms(4) by blast

theorem clients_do_not_interfere_witness:
  "\<exists>os'. foldE (\<lambda>(sock, rx_time, m). os_onRequest sock rx_time m)
      [(5, 10, demo_request 1 7 1), (6, 11, demo_request 2 7 1), (6, 12, demo_request 1 8 2), (5, 13, demo_request 1 9 2)]
      (order_server_new (lfq_new 4 MEClientRequest_default) (lfq_new 4 MEClientResponse_default) 3) = Inr os' \<and>
    pending_of 1 (os_pending os') = [(10, me_client_request (demo_request 1 7 1)), (13, me_client_request (demo_request 1 9 2))]"
proof -
  let ?os = "order_server_new (lfq_new 4 MEClientRequest_default) (lfq_new 4 MEClientResponse_default) 3"
  let ?ms = "[(5, 10, demo_request 1 7 1), (6, 11, demo_request 2 7 1), (6, 12, demo_request 1 8 2), (5, 13, demo_request 1 9 2)]"
  have "client_accepts (cid_tcp_socket ?os ! 1) (cid_next_exp_seq_num ?os ! 1) (filter (\<lambda>x. client_of x = 1) ?ms) =
      [(10, me_client_request (demo_request 1 7 1)), (13, me_client_request (demo_request 1 9 2))]"
    by (simp add: client_of_def demo_request_def order_server_new_def ME_MAX_NUM_CLIENTS_def)
  moreover have "pending_of 1 (os_pending ?os) = []"
    by (simp add: order_server_new_def fifo_sequencer_new_def pending_of_def)
  moreover have "\<forall>x \<in> set ?ms. client_of x < ME_MAX_NUM_CLIENTS"
    by (simp add: client_of_def demo_request_def ME_MAX_NUM_CLIENTS_def)
  moreover have "length (os_pending ?os) + length ?ms \<le> ME_MAX_PENDING_REQUESTS"
    by (simp add: order_server_new_def fifo_sequencer_new_def ME_MAX_PENDING_REQUESTS_def)
  ultimately show ?thesis
    using clients_do_not_interfere [of ?os ?ms 1] by (simp add: ME_MAX_NUM_CLIENTS_def del: foldE.simps)
qed

text \<open>
  C38. The sequencer publishes what it holds, nothing lost, nothing twice, in the order of receive times, and in
  exactly the order it was queued when the times increase.
\<close>

theorem sequencer_publishes_in_time_order:
  assumes "sequencing std_sort" and "lfq_inv (fs_incoming_requests fs)"
    and "length (pending_client_requests fs) \<le> lfq_room (fs_incoming_requests fs)"
  shows "\<exists>published. mset published = mset (pending_client_requests fs) \<and> sorted (map fst published) \<and>
    (sorted_wrt (<) (map fst (pending_client_requests fs)) \<longrightarrow> published = pending_client_requests fs) \<and>
    lfq_list (fs_incoming_requests (sequenceAndPublish std_sort fs)) = lfq_list (fs_incoming_requests fs) @ map snd published \<and>
    pending_client_requests (sequenceAndPublish std_sort fs) = []"
  using sequencing.publish_all [OF assms] sequencing.sort_mset [OF assms(1)] sequencing.sort_sorted [OF assms(1)]
    sequencing.sort_distinct_times [OF assms(1), of "pending_client_requests fs"]
  by (intro exI [of _ "std_sort (pending_client_requests fs)"]) (simp add: Let_def strict_sorted_iff)

definition demo_pending :: fifo_sequencer where
  "demo_pending = \<lparr>fs_incoming_requests = lfq_new 4 MEClientRequest_default,
     pending_client_requests = [(20, me_client_request (demo_request 1 7 1)), (10, me_client_request (demo_request 2 8 1))]\<rparr>"

theorem sequencer_publishes_in_time_order_witness:
  "\<exists>published. mset published = mset (pending_client_requests demo_pending) \<and> sorted (map fst published) \<and>
    (sorted_wrt (<) (map fst (pending_client_requests demo_pending)) \<longrightarrow> published = pending_client_requests demo_pending) \<and>
    lfq_list (fs_incoming_requests (sequenceAndPublish (sort_key fst) demo_pending)) =
      lfq_list (fs_incoming_requests demo_pending) @ map snd published \<and>
    pending_client_requests (sequenceAndPublish (sort_key fst) demo_pending) = []"
  using sequencer_publishes_in_time_order [OF stable.sequencing_axioms, of demo_pending]
  by (simp add: demo_pending_def lfq_inv_def lfq_new_def lfq_room_def)

text \<open>
  All requests of one read carry one receive time, and \<open>std::sort\<close> may exchange what compares equal: a function
  that meets its contract publishes an order and its later cancel the other way round.
\<close>

theorem ties_may_be_exchanged:
  "\<exists>std_sort. sequencing std_sort \<and>
     (\<exists>fs. bindE (addClientRequest t new (fifo_sequencer_new (lfq_new 4 MEClientRequest_default)))
            (addClientRequest t cancel) = Inr fs \<and>
       lfq_list (fs_incoming_requests (sequenceAndPublish std_sort fs)) = [cancel, new])"
proof (intro exI conjI)
  show "sequencing (\<lambda>xs :: (Nanos \<times> MEClientRequest) list. sort_key fst (rev xs))" by (rule unstable.sequencing_axioms)
  let ?q = "lfq_new 4 MEClientRequest_default"
  let ?fs = "\<lparr>fs_incoming_requests = ?q, pending_client_requests = [(t, new), (t, cancel)]\<rparr>"
  show "bindE (addClientRequest t new (fifo_sequencer_new ?q)) (addClientRequest t cancel) = Inr ?fs"
    by (simp add: addClientRequest_def fifo_sequencer_new_def ME_MAX_PENDING_REQUESTS_def)
  have "lfq_inv ?q" "lfq_list ?q = []" by simp_all
  moreover have "lfq_room ?q = 4" by (simp add: lfq_room_def lfq_new_def)
  ultimately
  show "lfq_list (fs_incoming_requests (sequenceAndPublish (\<lambda>xs. sort_key fst (rev xs)) ?fs)) = [cancel, new]"
    using unstable.publish_all [of ?fs] by (simp add: Let_def)
qed

text \<open>
  A thousand and twenty-four requests may wait between two rounds; the next one that would be accepted stops
  the exchange.
\<close>

theorem too_many_pending_stops:
  assumes "os_ok os" and "client_of (sock, rx_time, m) < ME_MAX_NUM_CLIENTS"
    and "cid_tcp_socket os ! client_of (sock, rx_time, m) \<in> {None, Some sock}"
    and "om_seq_num m = cid_next_exp_seq_num os ! client_of (sock, rx_time, m)"
    and "ME_MAX_PENDING_REQUESTS \<le> length (os_pending os)"
  shows "os_onRequest sock rx_time m os = Inl Fatal"
  using assms by (auto simp: os_onRequest_def addClientRequest_def client_of_def os_ok_def Let_def)

definition demo_full :: order_server where
  "demo_full = (order_server_new (lfq_new 4 MEClientRequest_default) (lfq_new 4 MEClientResponse_default) 3)
     \<lparr>os_sequencer := \<lparr>fs_incoming_requests = lfq_new 4 MEClientRequest_default,
        pending_client_requests = replicate 1024 (20, me_client_request (demo_request 1 7 1))\<rparr>\<rparr>"

theorem too_many_pending_stops_witness: "os_onRequest 5 30 (demo_request 2 7 1) demo_full = Inl Fatal"
proof (rule too_many_pending_stops)
  have c: "client_of (5, 30, demo_request 2 7 1) = 2" by (simp add: client_of_def demo_request_def)
  show "os_ok demo_full" using os_ok_new by (simp add: demo_full_def os_ok_def)
  show "client_of (5, 30, demo_request 2 7 1) < ME_MAX_NUM_CLIENTS" by (simp add: c ME_MAX_NUM_CLIENTS_def)
  show "cid_tcp_socket demo_full ! client_of (5, 30, demo_request 2 7 1) \<in> {None, Some 5}"
    by (simp add: c demo_full_def order_server_new_def ME_MAX_NUM_CLIENTS_def)
  show "om_seq_num (demo_request 2 7 1) = cid_next_exp_seq_num demo_full ! client_of (5, 30, demo_request 2 7 1)"
    unfolding c by (simp add: demo_full_def order_server_new_def ME_MAX_NUM_CLIENTS_def demo_request_def)
  show "ME_MAX_PENDING_REQUESTS \<le> length (os_pending demo_full)"
    by (simp add: demo_full_def ME_MAX_PENDING_REQUESTS_def)
qed

end
