(* ===== verification/OrderGateway.thy ===== *)
theory OrderGateway
  imports OrderServer
begin

text \<open>
  \<open>trading/order_gw/\<close>: the client's end of the order entry connection. It numbers the requests it takes from the
  trade engine's queue and writes them to the socket; of the responses that arrive it passes on those that carry its
  client id and the next number. The properties join it to the order server over a stream of bytes that arrives in
  arbitrary pieces.
\<close>

record order_gateway =
  og_client_id :: ClientId
  og_requests :: "MEClientRequest lf_queue"
  og_responses :: "MEClientResponse lf_queue"
  next_outgoing_seq_num :: "64 word"
  next_exp_seq_num :: "64 word"

definition order_gateway_new :: "ClientId \<Rightarrow> MEClientRequest lf_queue \<Rightarrow> MEClientResponse lf_queue \<Rightarrow> order_gateway" where
  "order_gateway_new client_id client_requests client_responses =
     \<lparr>og_client_id = client_id, og_requests = client_requests, og_responses = client_responses,
      next_outgoing_seq_num = 1, next_exp_seq_num = 1\<rparr>"

definition og_onResponse :: "OMClientResponse \<Rightarrow> order_gateway \<Rightarrow> order_gateway res" where
  "og_onResponse response og =
     (if rs_client_id (me_client_response response) \<noteq> og_client_id og then Inr og
      else if omr_seq_num response \<noteq> next_exp_seq_num og then Inr og
      else Inr (og\<lparr>next_exp_seq_num := next_exp_seq_num og + 1,
                   og_responses := lfq_push (me_client_response response) (og_responses og)\<rparr>))"

definition og_recvCallback :: "Nanos \<Rightarrow> socket_buffers \<times> order_gateway \<Rightarrow> (socket_buffers \<times> order_gateway) res" where
  "og_recvCallback rx_time = on_messages 50 (\<lambda>bs. og_onResponse (decode_om_response bs))"

definition og_send_step :: "socket_buffers \<times> order_gateway \<Rightarrow> (socket_buffers \<times> order_gateway) res" where
  "og_send_step x =
     (case x of (s, og) \<Rightarrow> case getNextToRead (og_requests og) of
        None \<Rightarrow> Inr (s, og)
      | Some r \<Rightarrow>
          bindE (tcp_send (le 8 (unat (next_outgoing_seq_num og))) s) (\<lambda>s1.
          bindE (tcp_send (encode_request r) s1) (\<lambda>s2.
          bindE (updateReadIndex (og_requests og)) (\<lambda>q.
          Inr (s2, og\<lparr>og_requests := q, next_outgoing_seq_num := next_outgoing_seq_num og + 1\<rparr>)))))"

text \<open>One round of \<open>run\<close>: socket first, then every request that is waiting.\<close>

definition og_round :: "byte list \<Rightarrow> Nanos \<Rightarrow> int \<Rightarrow> socket_buffers \<times> order_gateway \<Rightarrow>
    (byte list \<times> socket_buffers \<times> order_gateway) res" where
  "og_round waiting kernel_time n x =
     bindE (tcp_sendAndRecv og_recvCallback waiting kernel_time n x) (\<lambda>(_, sent, x1).
     bindE (foldE (\<lambda>_. og_send_step) [0..<lfq_size (og_requests (snd x1))] x1) (\<lambda>x2.
     Inr (sent, x2)))"

subsection \<open>What the gateway writes\<close>

fun number_requests :: "64 word \<Rightarrow> MEClientRequest list \<Rightarrow> OMClientRequest list" where
  "number_requests n [] = []"
| "number_requests n (r # rs) = \<lparr>om_seq_num = n, me_client_request = r\<rparr> # number_requests (n + 1) rs"

lemma number_requests_simps [simp]:
  "length (number_requests n rs) = length rs" "map me_client_request (number_requests n rs) = rs"
  by (induction rs arbitrary: n) simp_all

lemma in_number_requests: "m \<in> set (number_requests n rs) \<Longrightarrow> me_client_request m \<in> set rs"
  by (induction rs arbitrary: n) auto

lemma og_sends:
  assumes "lfq_inv (og_requests og)" and "lfq_list (og_requests og) = rs"
    and "length (outbound s) + 38 * length rs \<le> TCPBufferSize"
  shows "\<exists>q. foldE (\<lambda>_. og_send_step) (xs :: nat list) (s, og) = Inr (s\<lparr>outbound := outbound s @
       concat (map encode_om_request (take (length xs) (number_requests (next_outgoing_seq_num og) rs)))\<rparr>,
     og\<lparr>og_requests := q, next_outgoing_seq_num := next_outgoing_seq_num og + word_of_nat (min (length xs) (length rs))\<rparr>) \<and>
     lfq_inv q \<and> lfq_list q = drop (length xs) rs"
  using assms
proof (induction xs arbitrary: s og rs)
  case Nil
  then show ?case by (intro exI [of _ "og_requests og"]) simp
next
  case (Cons x xs)
  show ?case
  proof (cases rs)
    case Nil
    then have e: "og_send_step (s, og) = Inr (s, og)"
      using lfq_pop_Nil Cons.prems(1,2) by (auto simp: og_send_step_def getNextToRead_def lfq_size_def lfq_list_def)
    show ?thesis using Cons.IH [OF Cons.prems] by (simp add: e Nil)
  next
    case (Cons r rest)
    from lfq_pop_Cons [of "og_requests og" r rest] Cons.prems Cons obtain q where
      q: "lfq_pop (og_requests og) = Inr (Some (r, q))" "lfq_inv q" "lfq_list q = rest" by auto
    then have get: "getNextToRead (og_requests og) = Some r" "updateReadIndex (og_requests og) = Inr q"
      by (auto simp: lfq_pop_def res_simps split: option.splits)
    let ?og = "og\<lparr>og_requests := q, next_outgoing_seq_num := next_outgoing_seq_num og + 1\<rparr>"
    let ?s = "s\<lparr>outbound := outbound s @ encode_om_request \<lparr>om_seq_num = next_outgoing_seq_num og, me_client_request = r\<rparr>\<rparr>"
    have len: "length (encode_request r) = 30" by (simp add: encode_request_def)
    have e: "og_send_step (s, og) = Inr (?s, ?og)"
      using Cons.prems(3) \<open>rs = r # rest\<close>
      by (simp add: og_send_step_def get tcp_send_def len encode_om_request_def)
    have "length (outbound ?s) + 38 * length rest \<le> TCPBufferSize" using Cons.prems(3) \<open>rs = r # rest\<close> by simp
    with Cons.IH [of ?og rest ?s] q obtain q' where "foldE (\<lambda>_. og_send_step) xs (?s, ?og) = Inr (?s\<lparr>outbound := outbound ?s @
         concat (map encode_om_request (take (length xs) (number_requests (next_outgoing_seq_num ?og) rest)))\<rparr>,
       ?og\<lparr>og_requests := q', next_outgoing_seq_num := next_outgoing_seq_num ?og + word_of_nat (min (length xs) (length rest))\<rparr>)"
      "lfq_inv q'" "lfq_list q' = drop (length xs) rest" by auto
    then show ?thesis by (intro exI [of _ q']) (simp add: e \<open>rs = r # rest\<close> ac_simps)
  qed
qed

end
