(* ===== verification/OrderEntry.thy ===== *)
theory OrderEntry
  imports OrderGateway
begin

text \<open>
  The order entry path from end to end: gateway, stream, order server, sequencer, and the way back. The pieces in
  which the stream arrives are arbitrary; the two properties say that both directions deliver every message once.
\<close>

subsection \<open>Requests in sequence\<close>

lemma os_onRequest_accepts:
  assumes ok: "os_ok os" and c: "unat (rq_client_id r) = c" "c < ME_MAX_NUM_CLIENTS"
    and s: "cid_tcp_socket os ! c \<in> {None, Some k}" and room: "length (os_pending os) < ME_MAX_PENDING_REQUESTS"
  obtains os' where "os_onRequest k t \<lparr>om_seq_num = cid_next_exp_seq_num os ! c, me_client_request = r\<rparr> os = Inr os'"
    "os_ok os'" "cid_tcp_socket os' ! c = Some k" "cid_next_exp_seq_num os' ! c = cid_next_exp_seq_num os ! c + 1"
    "os_pending os' = os_pending os @ [(t, r)]" "os_sockets os' = os_sockets os" "os_responses os' = os_responses os"
    "os_tcp_server os' = os_tcp_server os" "fs_incoming_requests (os_sequencer os') = fs_incoming_requests (os_sequencer os)"
proof -
  define os1 where "os1 = (if cid_tcp_socket os ! c = None then os\<lparr>cid_tcp_socket := (cid_tcp_socket os)[c := Some k]\<rparr> else os)"
  have s1: "cid_tcp_socket os1 ! c = Some k" using s c ok by (auto simp: os1_def os_ok_def)
  have r1: "cid_next_exp_seq_num os1 = cid_next_exp_seq_num os" "os_sequencer os1 = os_sequencer os" "os_sockets os1 = os_sockets os"
    "os_responses os1 = os_responses os" "os_tcp_server os1 = os_tcp_server os" "cid_next_outgoing_seq_num os1 = cid_next_outgoing_seq_num os"
    by (simp_all add: os1_def)
  have ok1: "os_ok os1" using ok by (simp add: os_ok_def os1_def)
  define os2 where "os2 = os1\<lparr>cid_next_exp_seq_num := (cid_next_exp_seq_num os1)[c := cid_next_exp_seq_num os1 ! c + 1],
      os_sequencer := (os_sequencer os)\<lparr>pending_client_requests := os_pending os @ [(t, r)]\<rparr>\<rparr>"
  have "os_onRequest k t \<lparr>om_seq_num = cid_next_exp_seq_num os ! c, me_client_request = r\<rparr> os = Inr os2"
    using s1 c room by (simp add: os_onRequest_def os1_def [symmetric] r1 Let_def addClientRequest_def os2_def)
  then show thesis
    by (rule that) (use ok ok1 c s1 in \<open>simp_all add: os2_def os_ok_def r1\<close>)
qed

lemma os_deliver_in_order:
  assumes "os_ok os" and "\<forall>r \<in> set rs. unat (rq_client_id r) = c" and "c < ME_MAX_NUM_CLIENTS"
    and "cid_tcp_socket os ! c \<in> {None, Some k}" and "length (os_pending os) + length rs \<le> ME_MAX_PENDING_REQUESTS"
  shows "\<exists>os'. os_deliver (map (\<lambda>m. (k, t, m)) (number_requests (cid_next_exp_seq_num os ! c) rs)) os = Inr os' \<and> os_ok os' \<and>
    cid_tcp_socket os' ! c \<in> {None, Some k} \<and> cid_next_exp_seq_num os' ! c = cid_next_exp_seq_num os ! c + word_of_nat (length rs) \<and>
    os_pending os' = os_pending os @ map (Pair t) rs \<and> os_sockets os' = os_sockets os \<and> os_responses os' = os_responses os \<and>
    os_tcp_server os' = os_tcp_server os \<and> fs_incoming_requests (os_sequencer os') = fs_incoming_requests (os_sequencer os)"
  using assms
proof (induction rs arbitrary: os)
  case Nil
  then show ?case by simp
next
  case (Cons r rs)
  have r: "unat (rq_client_id r) = c" and room: "length (os_pending os) < ME_MAX_PENDING_REQUESTS" using Cons.prems by auto
  obtain os1 where os1: "os_onRequest k t \<lparr>om_seq_num = cid_next_exp_seq_num os ! c, me_client_request = r\<rparr> os = Inr os1"
    "os_ok os1" "cid_tcp_socket os1 ! c = Some k" "cid_next_exp_seq_num os1 ! c = cid_next_exp_seq_num os ! c + 1"
    "os_pending os1 = os_pending os @ [(t, r)]" "os_sockets os1 = os_sockets os" "os_responses os1 = os_responses os"
    "os_tcp_server os1 = os_tcp_server os" "fs_incoming_requests (os_sequencer os1) = fs_incoming_requests (os_sequencer os)"
    by (rule os_onRequest_accepts [OF Cons.prems(1) r Cons.prems(3,4) room])
  have pre: "\<forall>r \<in> set rs. unat (rq_client_id r) = c" "cid_tcp_socket os1 ! c \<in> {None, Some k}"
    "length (os_pending os1) + length rs \<le> ME_MAX_PENDING_REQUESTS" using Cons.prems os1 by auto
  from Cons.IH [OF os1(2) pre(1) Cons.prems(3) pre(2,3)] obtain os' where os':
    "os_deliver (map (\<lambda>m. (k, t, m)) (number_requests (cid_next_exp_seq_num os1 ! c) rs)) os1 = Inr os'" "os_ok os'"
    "cid_tcp_socket os' ! c \<in> {None, Some k}" "cid_next_exp_seq_num os' ! c = cid_next_exp_seq_num os1 ! c + word_of_nat (length rs)"
    "os_pending os' = os_pending os1 @ map (Pair t) rs" "os_sockets os' = os_sockets os1" "os_responses os' = os_responses os1"
    "os_tcp_server os' = os_tcp_server os1" "fs_incoming_requests (os_sequencer os') = fs_incoming_requests (os_sequencer os1)"
    by blast
  have run: "os_deliver (map (\<lambda>m. (k, t, m)) (number_requests (cid_next_exp_seq_num os ! c) (r # rs))) os = Inr os'"
    using os1(1) os'(1) by (simp add: os1(4))
  show ?case
    by (rule exI [of _ os']) (simp add: run os' os1(4-9) del: insert_iff foldE.simps number_requests.simps)
qed

subsection \<open>One read of the server\<close>

text \<open>A server with one connection: a read, then publishing, as in \<open>TCPServer::sendAndRecv\<close>.\<close>

fun os_reads ::
  "((Nanos \<times> MEClientRequest) list \<Rightarrow> (Nanos \<times> MEClientRequest) list) \<Rightarrow> (Nanos \<times> byte list) list \<Rightarrow> order_server \<Rightarrow> order_server res" where
  "os_reads std_sort [] os = Inr os"
| "os_reads std_sort ((t, piece) # reads) os =
     bindE (os_sendAndRecv std_sort (\<lambda>_. (piece, t, 0)) (\<lambda>_. ([], t, 0)) os) (\<lambda>(_, os1). os_reads std_sort reads os1)"

definition os_waits :: "nat \<Rightarrow> nat \<Rightarrow> byte list \<Rightarrow> MEClientRequest list \<Rightarrow> order_server \<Rightarrow> bool" where
  "os_waits c k coming rs os \<longleftrightarrow> os_ok os \<and> c < ME_MAX_NUM_CLIENTS \<and> cid_tcp_socket os ! c \<in> {None, Some k} \<and>
     receive_sockets (os_tcp_server os) = [k] \<and> send_sockets (os_tcp_server os) = [] \<and> os_pending os = [] \<and>
     outbound (os_sockets os k) = [] \<and> length (inbound (os_sockets os k)) < 38 \<and>
     inbound (os_sockets os k) @ coming = concat (map encode_om_request (number_requests (cid_next_exp_seq_num os ! c) rs)) \<and>
     (\<forall>r \<in> set rs. unat (rq_client_id r) = c \<and> price_ok (rq_price r)) \<and> length rs \<le> ME_MAX_PENDING_REQUESTS \<and>
     lfq_inv (fs_incoming_requests (os_sequencer os)) \<and> length rs \<le> lfq_room (fs_incoming_requests (os_sequencer os))"

lemma take_number_requests: "take j (number_requests n rs) = number_requests n (take j rs)"
  by (induction rs arbitrary: n j) (simp_all add: take_Cons split: nat.split)

lemma drop_number_requests: "j \<le> length rs \<Longrightarrow> drop j (number_requests n rs) = number_requests (n + word_of_nat j) (drop j rs)"
proof (induction rs arbitrary: n j)
  case Nil
  then show ?case by simp
next
  case (Cons r rs)
  then show ?case by (cases j) (simp_all add: ac_simps)
qed

lemma foldE_map: "foldE f (map g xs) s = foldE (\<lambda>x. f (g x)) xs s"
  by (induction xs arbitrary: s) (simp_all add: bindE_def split: sum.split)

lemma foldE_same: "\<forall>x \<in> set xs. f x = g x \<Longrightarrow> foldE f xs s = foldE g xs s"
  by (induction xs arbitrary: s) (simp_all add: bindE_def split: sum.split)

lemma deliver_encoded:
  assumes "\<forall>m \<in> set ms. price_ok (rq_price (me_client_request m))"
  shows "foldE (\<lambda>bs. os_onRequest k t (decode_om_request bs)) (map encode_om_request ms) os = os_deliver (map (\<lambda>m. (k, t, m)) ms) os"
  using assms by (simp add: foldE_map decode_encode_om_request cong: foldE_same)
    (auto intro!: foldE_same simp: decode_encode_om_request)

lemma os_read_ok:
  assumes sort: "sequencing std_sort" and w: "os_waits c k (p @ coming) rs os" and p: "p \<noteq> []" "length p + 38 \<le> TCPBufferSize"
  shows "\<exists>j os'. j \<le> length rs \<and> os_sendAndRecv std_sort (\<lambda>_. (p, t, 0)) (\<lambda>_. ([], t, 0)) os = Inr ([(k, [])], os') \<and>
    os_waits c k coming (drop j rs) os' \<and>
    lfq_list (fs_incoming_requests (os_sequencer os')) =
      lfq_list (fs_incoming_requests (os_sequencer os)) @ map snd (std_sort (map (Pair t) (take j rs)))"
proof -
  let ?n = "cid_next_exp_seq_num os ! c" and ?s = "os_sockets os k"
  have ok: "os_ok os" "c < ME_MAX_NUM_CLIENTS" "cid_tcp_socket os ! c \<in> {None, Some k}" "os_pending os = []"
    and srv: "receive_sockets (os_tcp_server os) = [k]" "send_sockets (os_tcp_server os) = []"
    and buf: "outbound ?s = []" "length (inbound ?s) < 38"
    and stream: "(inbound ?s @ p) @ coming = concat (map encode_om_request (number_requests ?n rs))"
    and rs: "\<forall>r \<in> set rs. unat (rq_client_id r) = c" "\<forall>r \<in> set rs. price_ok (rq_price r)" "length rs \<le> ME_MAX_PENDING_REQUESTS"
    and q: "lfq_inv (fs_incoming_requests (os_sequencer os))" "length rs \<le> lfq_room (fs_incoming_requests (os_sequencer os))"
    using w by (auto simp: os_waits_def)
  from request_wire.split_stream [OF stream] obtain j where j: "j \<le> length rs"
    "frames 38 (inbound ?s @ p) = map encode_om_request (number_requests ?n (take j rs))"
    "leftover 38 (inbound ?s @ p) @ coming = concat (map encode_om_request (number_requests (?n + word_of_nat j) (drop j rs)))"
    by (auto simp: take_number_requests drop_number_requests)
  have t: "\<forall>r \<in> set (take j rs). unat (rq_client_id r) = c" "length (os_pending os) + length (take j rs) \<le> ME_MAX_PENDING_REQUESTS"
    using rs ok(4) in_set_takeD by fastforce+
  from os_deliver_in_order [OF ok(1) t(1) ok(2,3) t(2), of t] obtain os1 where
    os1: "os_deliver (map (\<lambda>m. (k, t, m)) (number_requests ?n (take j rs))) os = Inr os1" "os_ok os1"
    "cid_tcp_socket os1 ! c \<in> {None, Some k}" "cid_next_exp_seq_num os1 ! c = ?n + word_of_nat (length (take j rs))"
    "os_pending os1 = os_pending os @ map (Pair t) (take j rs)" "os_sockets os1 = os_sockets os" "os_responses os1 = os_responses os"
    "os_tcp_server os1 = os_tcp_server os" "fs_incoming_requests (os_sequencer os1) = fs_incoming_requests (os_sequencer os)" by blast
  have "\<forall>m \<in> set (number_requests ?n (take j rs)). price_ok (rq_price (me_client_request m))"
    using rs(2) in_number_requests in_set_takeD by fast
  then have dec: "foldE (\<lambda>bs. os_onRequest k t (decode_om_request bs)) (frames 38 (inbound ?s @ p)) os = Inr os1"
    by (simp only: j(2) deliver_encoded os1(1))
  let ?s1 = "?s\<lparr>inbound := leftover 38 (inbound ?s @ p)\<rparr>"
  have read: "tcp_read p ?s = p" using p buf by (simp add: tcp_read_def)
  have io: "tcp_sendAndRecv (os_recvCallback k) p t 0 (?s, os) = Inr (True, [], ?s1, os1)"
    using p(1) buf(1) by (simp add: tcp_sendAndRecv_def read os_recvCallback_def on_messages_eq dec Let_def)
  let ?os2 = "os1\<lparr>os_sockets := (os_sockets os1)(k := ?s1)\<rparr>"
  let ?os3 = "os_recvFinishedCallback std_sort ?os2"
  have pend: "os_pending os1 = map (Pair t) (take j rs)" using os1(5) ok(4) by simp
  have room: "length (os_pending os1) \<le> lfq_room (fs_incoming_requests (os_sequencer os1))" using q(2) j(1) by (simp add: pend os1(9))
  note pub = sequencing.publish_all [OF sort, of "os_sequencer os1", unfolded os1(9), OF q(1), folded os1(9), OF room, unfolded Let_def]
  have run: "os_sendAndRecv std_sort (\<lambda>_. (p, t, 0)) (\<lambda>_. ([], t, 0)) os = Inr ([(k, [])], ?os3)"
    by (simp add: os_sendAndRecv_def srv os_socket_io_def io os_recvFinishedCallback_def os1(8) Let_def)
  have len: "length (leftover 38 (inbound ?s @ p)) < 38" by (rule length_leftover) simp
  have "os_waits c k coming (drop j rs) ?os3"
    unfolding os_waits_def
  proof (intro conjI)
    show "os_ok ?os3" using os1(2) by (simp add: os_ok_def os_recvFinishedCallback_def)
    show "cid_tcp_socket ?os3 ! c \<in> {None, Some k}" using os1(3) by (simp add: os_recvFinishedCallback_def)
    show "inbound (os_sockets ?os3 k) @ coming = concat (map encode_om_request (number_requests (cid_next_exp_seq_num ?os3 ! c) (drop j rs)))"
      using j(1,3) os1(4) by (simp add: os_recvFinishedCallback_def min_absorb2)
    show "\<forall>r \<in> set (drop j rs). unat (rq_client_id r) = c \<and> price_ok (rq_price r)" using rs(1,2) in_set_dropD by fast
    show "lfq_inv (fs_incoming_requests (os_sequencer ?os3))" using pub by (simp add: os_recvFinishedCallback_def)
    show "length (drop j rs) \<le> lfq_room (fs_incoming_requests (os_sequencer ?os3))"
      using pub q(2) j(1) by (simp add: os_recvFinishedCallback_def pend os1(9))
    show "os_pending ?os3 = []" using pub by (simp add: os_recvFinishedCallback_def)
  qed (use ok(2) srv buf len rs(3) in \<open>simp_all add: os_recvFinishedCallback_def os1(8)\<close>)
  moreover have "lfq_list (fs_incoming_requests (os_sequencer ?os3)) =
      lfq_list (fs_incoming_requests (os_sequencer os)) @ map snd (std_sort (map (Pair t) (take j rs)))"
    using pub by (simp add: os_recvFinishedCallback_def pend os1(9))
  ultimately show ?thesis using j(1) run by blast
qed

lemma encoded_short:
  assumes "length xs < 38" and "xs = concat (map encode_om_request (number_requests n rs))"
  shows "rs = []"
proof (cases rs)
  case (Cons r rest)
  then show ?thesis using assms by simp
qed simp

lemma os_reads_ok:
  assumes "sequencing std_sort" and "os_waits c k (concat (map snd reads)) rs os"
    and "\<forall>(t, p) \<in> set reads. p \<noteq> [] \<and> length p + 38 \<le> TCPBufferSize"
  shows "\<exists>os' parts. os_reads std_sort reads os = Inr os' \<and> concat (map snd parts) = rs \<and>
    lfq_list (fs_incoming_requests (os_sequencer os')) = lfq_list (fs_incoming_requests (os_sequencer os)) @
      concat (map (\<lambda>(t, part). map snd (std_sort (map (Pair t) part))) parts)"
  using assms(2,3)
proof (induction reads arbitrary: rs os)
  case Nil
  then have "rs = []" using encoded_short by (fastforce simp: os_waits_def)
  then show ?case by (intro exI [of _ os] exI [of _ "[]"]) simp
next
  case (Cons x reads)
  obtain t p where x: "x = (t, p)" by (cases x)
  from Cons.prems x have w: "os_waits c k (p @ concat (map snd reads)) rs os" and p: "p \<noteq> []" "length p + 38 \<le> TCPBufferSize" by auto
  from os_read_ok [OF assms(1) w p, of t] obtain j os1 where j: "j \<le> length rs"
    "os_sendAndRecv std_sort (\<lambda>_. (p, t, 0)) (\<lambda>_. ([], t, 0)) os = Inr ([(k, [])], os1)"
    "os_waits c k (concat (map snd reads)) (drop j rs) os1"
    "lfq_list (fs_incoming_requests (os_sequencer os1)) =
      lfq_list (fs_incoming_requests (os_sequencer os)) @ map snd (std_sort (map (Pair t) (take j rs)))" by blast
  from Cons.IH [OF j(3)] Cons.prems(2) obtain os' parts where "os_reads std_sort reads os1 = Inr os'"
    "concat (map snd parts) = drop j rs"
    "lfq_list (fs_incoming_requests (os_sequencer os')) = lfq_list (fs_incoming_requests (os_sequencer os1)) @
      concat (map (\<lambda>(t, part). map snd (std_sort (map (Pair t) part))) parts)" by auto
  then show ?case using j by (intro exI [of _ os'] exI [of _ "(t, take j rs) # parts"]) (simp add: x)
qed

lemma gateway_stream:
  assumes "lfq_inv q" and "lfq_list q = rs" and "38 * length rs \<le> TCPBufferSize"
  shows "\<exists>og. og_round [] t n (socket_buffers_new, order_gateway_new client q q') =
     Inr ([], \<lparr>outbound = concat (map encode_om_request (number_requests 1 rs)), inbound = []\<rparr>, og)"
proof -
  let ?og = "order_gateway_new client q q'"
  have n: "length [0..<lfq_size q] = length rs" using assms(2) by (auto simp: lfq_size_def)
  obtain q'' where "foldE (\<lambda>_. og_send_step) [0..<lfq_size q] (socket_buffers_new, ?og) =
      Inr (socket_buffers_new\<lparr>outbound := outbound socket_buffers_new @
        concat (map encode_om_request (take (length [0..<lfq_size q]) (number_requests (next_outgoing_seq_num ?og) rs)))\<rparr>,
      ?og\<lparr>og_requests := q'', next_outgoing_seq_num := next_outgoing_seq_num ?og + word_of_nat (min (length [0..<lfq_size q]) (length rs))\<rparr>)"
    using og_sends [of ?og rs socket_buffers_new "[0..<lfq_size q]"] assms by (auto simp: order_gateway_new_def socket_buffers_new_def)
  then show ?thesis unfolding n
    by (simp add: og_round_def tcp_sendAndRecv_def tcp_read_def socket_buffers_new_def order_gateway_new_def)
qed

subsection \<open>Responses\<close>

fun number_responses :: "64 word \<Rightarrow> MEClientResponse list \<Rightarrow> OMClientResponse list" where
  "number_responses n [] = []"
| "number_responses n (r # rs) = \<lparr>omr_seq_num = n, me_client_response = r\<rparr> # number_responses (n + 1) rs"

definition responses_to :: "nat \<Rightarrow> MEClientResponse list \<Rightarrow> MEClientResponse list" where
  "responses_to c rs = filter (\<lambda>r. unat (rs_client_id r) = c) rs"

lemma in_number_responses: "m \<in> set (number_responses n rs) \<Longrightarrow> me_client_response m \<in> set rs"
  by (induction rs arbitrary: n) auto

lemma os_send_response_ok:
  assumes ok: "os_ok os" and r: "unat (rs_client_id r) = i" "i < ME_MAX_NUM_CLIENTS" "cid_tcp_socket os ! i = Some j"
    and room: "length (outbound (os_sockets os j)) + 50 \<le> TCPBufferSize"
  shows "os_send_response r os = Inr (os\<lparr>os_sockets := (os_sockets os)(j := (os_sockets os j)\<lparr>outbound := outbound (os_sockets os j) @
      encode_om_response \<lparr>omr_seq_num = cid_next_outgoing_seq_num os ! i, me_client_response = r\<rparr>\<rparr>),
      cid_next_outgoing_seq_num := (cid_next_outgoing_seq_num os)[i := cid_next_outgoing_seq_num os ! i + 1]\<rparr>)"
proof -
  have "length (encode_response r) = 42" by (simp add: encode_response_def)
  with room r show ?thesis by (simp add: os_send_response_def tcp_send_def encode_om_response_def Let_def)
qed

lemma os_responses_sent:
  assumes "os_ok os" and "lfq_inv (os_responses os)" and "lfq_list (os_responses os) = rs" and "length xs = length rs"
    and "\<forall>r \<in> set rs. unat (rs_client_id r) < ME_MAX_NUM_CLIENTS \<and> cid_tcp_socket os ! unat (rs_client_id r) \<noteq> None"
    and "\<forall>j. length (outbound (os_sockets os j)) + 50 * length rs \<le> TCPBufferSize"
    and "cid_tcp_socket os ! c = Some k" and "\<forall>i < ME_MAX_NUM_CLIENTS. cid_tcp_socket os ! i = Some k \<longrightarrow> i = c"
    and "c < ME_MAX_NUM_CLIENTS"
  shows "\<exists>os'. foldE (\<lambda>_. os_response_step) (xs :: nat list) os = Inr os' \<and> lfq_list (os_responses os') = [] \<and>
    outbound (os_sockets os' k) = outbound (os_sockets os k) @
      concat (map encode_om_response (number_responses (cid_next_outgoing_seq_num os ! c) (responses_to c rs)))"
  using assms
proof (induction xs arbitrary: os rs)
  case Nil
  from Nil.prems(4) have e: "rs = []" by simp
  have "lfq_list (os_responses os) = []" using Nil.prems(3) unfolding e .
  then show ?case by (intro exI [of _ os] conjI) (simp_all add: e responses_to_def)
next
  case (Cons x xs)
  from Cons.prems(4) obtain r rest where rs: "rs = r # rest" by (cases rs) simp_all
  from lfq_pop_Cons [OF Cons.prems(2) Cons.prems(3) [unfolded rs]] obtain q where
    q: "lfq_pop (os_responses os) = Inr (Some (r, q))" "lfq_inv q" "lfq_list q = rest" by blast
  then have get: "getNextToRead (os_responses os) = Some r" "updateReadIndex (os_responses os) = Inr q"
    by (auto simp: lfq_pop_def res_simps split: option.splits)
  define i where "i = unat (rs_client_id r)"
  from Cons.prems(5) rs obtain j where i: "i < ME_MAX_NUM_CLIENTS" "cid_tcp_socket os ! i = Some j" by (auto simp: i_def)
  define s' where "s' = (os_sockets os j)\<lparr>outbound := outbound (os_sockets os j) @
      encode_om_response \<lparr>omr_seq_num = cid_next_outgoing_seq_num os ! i, me_client_response = r\<rparr>\<rparr>"
  define os1 where "os1 = os\<lparr>os_sockets := (os_sockets os)(j := s'),
      cid_next_outgoing_seq_num := (cid_next_outgoing_seq_num os)[i := cid_next_outgoing_seq_num os ! i + 1], os_responses := q\<rparr>"
  have room: "length (outbound (os_sockets os j)) + 50 \<le> TCPBufferSize" using Cons.prems(6) [rule_format, of j] rs by simp
  have step: "os_response_step os = Inr os1"
    using os_send_response_ok [OF Cons.prems(1) i_def [symmetric] i room]
    by (simp add: os_response_step_def get os1_def s'_def)
  have len: "\<forall>j. length (outbound (os_sockets os1 j)) + 50 * length rest \<le> TCPBufferSize"
  proof
    fix l show "length (outbound (os_sockets os1 l)) + 50 * length rest \<le> TCPBufferSize"
      using Cons.prems(6) [rule_format, of l] rs by (auto simp: os1_def s'_def)
  qed
  have same: "cid_tcp_socket os1 = cid_tcp_socket os" and os1: "os_ok os1" "os_responses os1 = q"
    using Cons.prems(1) by (simp_all add: os1_def os_ok_def)
  have valid: "\<forall>r \<in> set rest. unat (rs_client_id r) < ME_MAX_NUM_CLIENTS \<and> cid_tcp_socket os1 ! unat (rs_client_id r) \<noteq> None"
    using Cons.prems(5) rs same by simp
  have q1: "lfq_inv (os_responses os1)" "lfq_list (os_responses os1) = rest" "length xs = length rest"
    using os1(2) q Cons.prems(4) rs by simp_all
  from Cons.IH [OF os1(1) q1 valid len, unfolded same, OF Cons.prems(7-9)] obtain os' where os':
    "foldE (\<lambda>_. os_response_step) xs os1 = Inr os'" "lfq_list (os_responses os') = []"
    "outbound (os_sockets os' k) = outbound (os_sockets os1 k) @
      concat (map encode_om_response (number_responses (cid_next_outgoing_seq_num os1 ! c) (responses_to c rest)))" by blast
  show ?case
  proof (intro exI [of _ os'] conjI)
    show "foldE (\<lambda>_. os_response_step) (x # xs) os = Inr os'" using step os'(1) by simp
    show "outbound (os_sockets os' k) = outbound (os_sockets os k) @
      concat (map encode_om_response (number_responses (cid_next_outgoing_seq_num os ! c) (responses_to c rs)))"
    proof (cases "i = c")
      case True
      then have jk: "j = k" using i(2) Cons.prems(7) by simp
      have l: "c < length (cid_next_outgoing_seq_num os)" using Cons.prems(1,9) by (simp add: os_ok_def)
      show ?thesis using True l os'(3) by (simp add: jk os1_def s'_def rs responses_to_def i_def [symmetric])
    next
      case False
      then have "j \<noteq> k" using i Cons.prems(8) by auto
      then show ?thesis using False os'(3) by (simp add: os1_def rs responses_to_def i_def [symmetric])
    qed
  qed (rule os'(2))
qed

lemma og_accepts:
  assumes "\<forall>r \<in> set rs. rs_client_id r = og_client_id og"
  shows "foldE og_onResponse (number_responses (next_exp_seq_num og) rs) og =
    Inr (og\<lparr>next_exp_seq_num := next_exp_seq_num og + word_of_nat (length rs), og_responses := fold lfq_push rs (og_responses og)\<rparr>)"
  using assms
proof (induction rs arbitrary: og)
  case Nil
  then show ?case by simp
next
  case (Cons r rs)
  let ?og = "og\<lparr>next_exp_seq_num := next_exp_seq_num og + 1, og_responses := lfq_push r (og_responses og)\<rparr>"
  have "og_onResponse \<lparr>omr_seq_num = next_exp_seq_num og, me_client_response = r\<rparr> og = Inr ?og"
    using Cons.prems by (simp add: og_onResponse_def)
  with Cons.IH [of ?og] Cons.prems show ?case by (simp add: ac_simps)
qed

subsection \<open>Properties\<close>

text \<open>
  C13. Order entry from end to end: the gateway numbers the requests waiting in its queue and writes them to its
  socket; let the stream reach the order server on one connection in any pieces, each read followed by
  publishing. Whatever \<open>std::sort\<close> is used, the matching engine's queue receives exactly the client's requests,
  none lost, none twice; and in the client's order when the sort leaves sorted input alone.
\<close>

theorem requests_reach_the_exchange:
  assumes sort: "sequencing std_sort"
    and q: "lfq_inv q" "lfq_list q = rs" "length rs \<le> ME_MAX_PENDING_REQUESTS"
    and rs: "\<forall>r \<in> set rs. rq_client_id r = client \<and> price_ok (rq_price r)" "unat client < ME_MAX_NUM_CLIENTS"
    and room: "lfq_inv inc" "length rs \<le> lfq_room inc"
    and os: "os = (order_server_new inc resp lst)\<lparr>os_tcp_server := \<lparr>listener = lst, receive_sockets = [k], send_sockets = []\<rparr>\<rparr>"
    and gw: "og_round [] t n (socket_buffers_new, order_gateway_new client q q') = Inr (sent, s, og)"
    and pieces: "concat (map snd reads) = outbound s" "\<forall>(t, p) \<in> set reads. p \<noteq> [] \<and> length p + 38 \<le> TCPBufferSize"
  shows "\<exists>os' published. os_reads std_sort reads os = Inr os' \<and>
    lfq_list (fs_incoming_requests (os_sequencer os')) = lfq_list inc @ published \<and> mset published = mset rs \<and>
    ((\<forall>xs. sorted (map fst xs) \<longrightarrow> std_sort xs = xs) \<longrightarrow> published = rs)"
proof -
  have "38 * length rs \<le> TCPBufferSize" using q(3) by (simp add: ME_MAX_PENDING_REQUESTS_def TCPBufferSize_def)
  then have s: "outbound s = concat (map encode_om_request (number_requests 1 rs))"
    using gateway_stream [OF q(1,2), where t = t and n = n and client = client and q' = q'] gw by auto
  have "os_waits (unat client) k (concat (map snd reads)) rs os"
    using rs room q(3) by (auto simp: os_waits_def os pieces s order_server_new_def os_ok_def fifo_sequencer_new_def socket_buffers_new_def)
  from os_reads_ok [OF sort this pieces(2)] obtain os' parts where os': "os_reads std_sort reads os = Inr os'"
    "concat (map snd parts) = rs" "lfq_list (fs_incoming_requests (os_sequencer os')) = lfq_list inc @
      concat (map (\<lambda>(t, part). map snd (std_sort (map (Pair t) part))) parts)"
    by (auto simp: os order_server_new_def fifo_sequencer_new_def)
  let ?pub = "concat (map (\<lambda>(t, part). map snd (std_sort (map (Pair t) part))) parts)"
  have "mset (map snd (std_sort (map (Pair t) part))) = mset part" for t :: Nanos and part
    by (simp add: sequencing.sort_mset [OF sort] image_mset.compositionality comp_def)
  then have "mset ?pub = mset (concat (map snd parts))"
    by (induction parts) (auto split: prod.splits)
  moreover have "?pub = concat (map snd parts)" if "\<forall>xs. sorted (map fst xs) \<longrightarrow> std_sort xs = xs"
  proof -
    have "std_sort (map (Pair t) part) = map (Pair t) part" for t :: Nanos and part
      using that by (simp add: comp_def map_replicate_const)
    then show ?thesis by (induction parts) (auto simp: comp_def split: prod.splits)
  qed
  ultimately show ?thesis using os' by auto
qed

definition demo_requests :: "MEClientRequest list" where
  "demo_requests = [me_client_request (demo_request 1 7 0), me_client_request (demo_request 1 8 0)]"

definition demo_queue :: "MEClientRequest lf_queue" where
  "demo_queue = fold lfq_push demo_requests (lfq_new 4 MEClientRequest_default)"

lemma demo_queue_ok [simp]: "lfq_inv demo_queue" "lfq_list demo_queue = demo_requests"
  using lfq.push_all [of "lfq_new 4 MEClientRequest_default" demo_requests]
  by (simp_all add: demo_queue_def demo_requests_def lfq_room_def lfq_new_def lfq_inv_def lfq_list_def)

theorem requests_reach_the_exchange_witness:
  "\<exists>s og os' published. og_round [] 0 0 (socket_buffers_new, order_gateway_new 1 demo_queue (lfq_new 4 MEClientResponse_default)) = Inr ([], s, og) \<and>
    os_reads (sort_key fst) [(10, take 50 (outbound s)), (20, drop 50 (outbound s))]
      ((order_server_new (lfq_new 4 MEClientRequest_default) (lfq_new 4 MEClientResponse_default) 3)
        \<lparr>os_tcp_server := \<lparr>listener = 3, receive_sockets = [5], send_sockets = []\<rparr>\<rparr>) = Inr os' \<and>
    lfq_list (fs_incoming_requests (os_sequencer os')) = published \<and> published = demo_requests"
proof -
  let ?os = "(order_server_new (lfq_new 4 MEClientRequest_default) (lfq_new 4 MEClientResponse_default) 3)
        \<lparr>os_tcp_server := \<lparr>listener = 3, receive_sockets = [5], send_sockets = []\<rparr>\<rparr>"
  obtain og where g: "og_round [] 0 0 (socket_buffers_new, order_gateway_new 1 demo_queue (lfq_new 4 MEClientResponse_default)) =
      Inr ([], \<lparr>outbound = concat (map encode_om_request (number_requests 1 demo_requests)), inbound = []\<rparr>, og)"
    using gateway_stream [OF demo_queue_ok, of 0 0 1 "lfq_new 4 MEClientResponse_default"]
    by (auto simp: demo_requests_def TCPBufferSize_def)
  let ?s = "\<lparr>outbound = concat (map encode_om_request (number_requests 1 demo_requests)), inbound = [] :: byte list\<rparr>"
  have len: "length (outbound ?s) = 76" by (simp add: demo_requests_def)
  have reads: "concat (map snd [(10, take 50 (outbound ?s)), (20 :: Nanos, drop 50 (outbound ?s))]) = outbound ?s"
    "\<forall>(t, p) \<in> set [(10, take 50 (outbound ?s)), (20 :: Nanos, drop 50 (outbound ?s))]. p \<noteq> [] \<and> length p + 38 \<le> TCPBufferSize"
    using len by (auto simp: TCPBufferSize_def simp flip: length_greater_0_conv)
  have rs: "\<forall>r \<in> set demo_requests. rq_client_id r = 1 \<and> price_ok (rq_price r)" "unat (1 :: ClientId) < ME_MAX_NUM_CLIENTS"
    "length demo_requests \<le> ME_MAX_PENDING_REQUESTS"
    by (simp_all add: demo_requests_def demo_request_def price_ok_def ME_MAX_NUM_CLIENTS_def ME_MAX_PENDING_REQUESTS_def)
  have inc: "lfq_inv (lfq_new 4 MEClientRequest_default)" "length demo_requests \<le> lfq_room (lfq_new 4 MEClientRequest_default)"
    by simp (simp add: demo_requests_def lfq_room_def lfq_new_def)
  have stable_sort: "\<forall>xs :: (Nanos \<times> MEClientRequest) list. sorted (map fst xs) \<longrightarrow> sort_key fst xs = xs"
    by (simp add: sort_key_id_if_sorted)
  from requests_reach_the_exchange [OF stable.sequencing_axioms demo_queue_ok rs(3,1,2) inc refl g reads, where resp = "lfq_new 4 MEClientResponse_default" and lst = 3 and k = 5] stable_sort
  obtain os' where "os_reads (sort_key fst) [(10, take 50 (outbound ?s)), (20, drop 50 (outbound ?s))] ?os = Inr os'"
    "lfq_list (fs_incoming_requests (os_sequencer os')) = demo_requests" by auto
  with g show ?thesis by blast
qed

text \<open>
  C14. The way back: let any responses, to any clients, wait in the order server's queue. After one round they are in
  the sockets' buffers; what stands in the buffer of a connection that belongs to one client alone, delivered to that
  client's gateway in any pieces, puts exactly the client's responses into the trade engine's queue, in order.
\<close>

theorem responses_reach_the_client:
  assumes srv: "os_ok os" "lfq_inv (os_responses os)" "lfq_list (os_responses os) = rs"
    and rs: "\<forall>r \<in> set rs. unat (rs_client_id r) < ME_MAX_NUM_CLIENTS \<and> cid_tcp_socket os ! unat (rs_client_id r) \<noteq> None"
      "\<forall>r \<in> set rs. price_ok (rs_price r)"
    and room: "\<forall>j. length (outbound (os_sockets os j)) + 50 * length rs \<le> TCPBufferSize"
    and own: "cid_tcp_socket os ! unat client = Some k" "\<forall>i < ME_MAX_NUM_CLIENTS. cid_tcp_socket os ! i = Some k \<longrightarrow> i = unat client"
      "unat client < ME_MAX_NUM_CLIENTS"
    and fresh: "outbound (os_sockets os k) = []" "cid_next_outgoing_seq_num os ! unat client = 1"
    and og: "og = order_gateway_new client q q'" "lfq_inv q'" "length (responses_to (unat client) rs) \<le> lfq_room q'"
  shows "\<exists>os'. foldE (\<lambda>_. os_response_step) [0..<lfq_size (os_responses os)] os = Inr os' \<and>
    (\<forall>pieces. concat pieces = outbound (os_sockets os' k) \<and> pieces_fit 50 pieces \<longrightarrow>
      (\<exists>s og'. tcp_rounds og_recvCallback pieces (socket_buffers_new, og) = Inr (s, og') \<and>
         lfq_list (og_responses og') = lfq_list q' @ responses_to (unat client) rs))"
proof -
  have n: "length [0..<lfq_size (os_responses os)] = length rs" using srv(3) by (auto simp: lfq_size_def)
  let ?mine = "responses_to (unat client) rs" and ?ms = "number_responses 1 (responses_to (unat client) rs)"
  from os_responses_sent [OF srv n rs(1) room own] obtain os' where
    os': "foldE (\<lambda>_. os_response_step) [0..<lfq_size (os_responses os)] os = Inr os'"
    "outbound (os_sockets os' k) = concat (map encode_om_response ?ms)" using fresh by auto
  have mine: "\<forall>r \<in> set ?mine. rs_client_id r = client" "\<forall>r \<in> set ?mine. price_ok (rs_price r)"
    using rs(2) by (auto simp: responses_to_def word_unat_eq_iff)
  have ok: "\<forall>m \<in> set ?ms. price_ok (rs_price (me_client_response m))" using mine(2) in_number_responses by fast
  have "\<exists>s og'. tcp_rounds og_recvCallback pieces (socket_buffers_new, og) = Inr (s, og') \<and>
       lfq_list (og_responses og') = lfq_list q' @ ?mine"
    if p: "concat pieces = outbound (os_sockets os' k)" "pieces_fit 50 pieces" for pieces
  proof -
    let ?og' = "og\<lparr>next_exp_seq_num := next_exp_seq_num og + word_of_nat (length ?mine), og_responses := fold lfq_push ?mine (og_responses og)\<rparr>"
    have "map decode_om_response (receive_pieces 50 [] pieces) = ?ms"
      by (rule response_wire.any_pieces [OF ok]) (simp add: p(1) os'(2))
    then have "foldE (\<lambda>bs. og_onResponse (decode_om_response bs)) (receive_pieces 50 [] pieces) og = foldE og_onResponse ?ms og"
      by (metis foldE_map)
    also have "\<dots> = Inr ?og'" using og_accepts [of ?mine og] mine(1) og(1) by (simp add: order_gateway_new_def)
    finally have run: "tcp_rounds og_recvCallback pieces (socket_buffers_new, og) =
        Inr (socket_buffers_new\<lparr>inbound := leftover 50 (concat pieces)\<rparr>, ?og')"
      using tcp_rounds_stream [OF _ _ p(2), where s = socket_buffers_new and handle = "\<lambda>bs. og_onResponse (decode_om_response bs)" and st = og]
      by (simp add: og_recvCallback_def [abs_def] socket_buffers_new_def TCPBufferSize_def)
    have "lfq_list (og_responses ?og') = lfq_list q' @ ?mine"
      using lfq.push_all [OF og(2,3)] og(1) by (simp add: order_gateway_new_def)
    with run show ?thesis by blast
  qed
  with os'(1) show ?thesis by blast
qed

definition demo_response :: "ClientId \<Rightarrow> MEClientResponse" where
  "demo_response c = \<lparr>rs_type = ACCEPTED, rs_client_id = c, rs_ticker_id = 0, rs_client_order_id = 7, rs_market_order_id = 1,
     rs_side = BUY, rs_price = 100, rs_exec_qty = 0, rs_leaves_qty = 10\<rparr>"

definition demo_replies :: "MEClientResponse lf_queue" where
  "demo_replies = fold lfq_push [demo_response 1, demo_response 2] (lfq_new 4 MEClientResponse_default)"

definition demo_replying :: order_server where
  "demo_replying = (order_server_new (lfq_new 4 MEClientRequest_default) demo_replies 3)
     \<lparr>cid_tcp_socket := (replicate 256 None)[1 := Some 5, 2 := Some 6]\<rparr>"

theorem responses_reach_the_client_witness:
  "\<exists>os'. foldE (\<lambda>_. os_response_step) [0..<lfq_size (os_responses demo_replying)] demo_replying = Inr os' \<and>
    (\<forall>pieces. concat pieces = outbound (os_sockets os' 5) \<and> pieces_fit 50 pieces \<longrightarrow>
      (\<exists>s og'. tcp_rounds og_recvCallback pieces (socket_buffers_new,
           order_gateway_new 1 (lfq_new 4 MEClientRequest_default) (lfq_new 4 MEClientResponse_default)) = Inr (s, og') \<and>
         lfq_list (og_responses og') = [demo_response 1]))"
proof -
  let ?rs = "[demo_response 1, demo_response 2]" and ?q = "lfq_new 4 MEClientResponse_default"
  have q: "lfq_inv demo_replies" "lfq_list demo_replies = ?rs"
    using lfq.push_all [of ?q ?rs] by (simp_all add: demo_replies_def lfq_room_def lfq_new_def lfq_inv_def lfq_list_def)
  have c: "cid_tcp_socket demo_replying = (replicate 256 None)[1 := Some 5, 2 := Some 6]" by (simp add: demo_replying_def)
  have ok: "os_ok demo_replying" by (simp add: os_ok_def demo_replying_def order_server_new_def ME_MAX_NUM_CLIENTS_def)
  have o: "os_responses demo_replying = demo_replies" "os_sockets demo_replying = (\<lambda>_. socket_buffers_new)"
    "cid_next_outgoing_seq_num demo_replying = replicate 256 1"
    by (simp_all add: demo_replying_def order_server_new_def ME_MAX_NUM_CLIENTS_def)
  have r: "rs_client_id (demo_response c) = c" "rs_price (demo_response c) = 100" for c by (simp_all add: demo_response_def)
  have mine: "responses_to 1 ?rs = [demo_response 1]" by (simp add: responses_to_def r)
  have own: "\<forall>i < ME_MAX_NUM_CLIENTS. cid_tcp_socket demo_replying ! i = Some 5 \<longrightarrow> i = 1"
    by (auto simp: c ME_MAX_NUM_CLIENTS_def nth_list_update split: if_splits)
  have "lfq_inv ?q" "lfq_list ?q = []" "1 \<le> lfq_room ?q" by simp_all (simp add: lfq_room_def lfq_new_def)
  with responses_reach_the_client [of demo_replying ?rs 1 5 "order_gateway_new 1 (lfq_new 4 MEClientRequest_default) ?q"
      "lfq_new 4 MEClientRequest_default" ?q] ok o q mine own
  show ?thesis by (simp add: r c price_ok_def TCPBufferSize_def socket_buffers_new_def ME_MAX_NUM_CLIENTS_def)
qed

end
