(* ===== verification/MarketData.thy ===== *)
theory MarketData
  imports Sockets LFQueue MemPool
begin

text \<open>
  \<open>exchange/market_data/\<close>: the publisher (\<open>market_data_publisher.cpp\<close>), which numbers the matching engine's updates
  and puts them on the incremental stream, and the snapshot synthesizer (\<open>snapshot_synthesizer.cpp\<close>), which
  follows the same updates and from time to time publishes every order it knows of on the snapshot stream.

  \<^item> A socket's \<open>sendAndRecv\<close> on these streams only sends; what it sends is appended to a list of datagrams.
  \<^item> What the arrays and the pool of the synthesizer stand for, and what a snapshot cycle says, is in \<open>SnapshotRefine\<close>.
\<close>

subsection \<open>The publisher\<close>

record md_publisher =
  next_inc_seq_num :: "64 word"
  mp_updates :: "MEMarketUpdate lf_queue"
  mp_snapshot_queue :: "MDPMarketUpdate lf_queue"
  mp_socket :: socket_buffers

definition md_publisher_new :: "MEMarketUpdate lf_queue \<Rightarrow> md_publisher" where
  "md_publisher_new market_updates =
     \<lparr>next_inc_seq_num = 1, mp_updates = market_updates,
      mp_snapshot_queue = lfq_new ME_MAX_MARKET_UPDATES \<lparr>mdp_seq_num = 0, me_market_update = MEMarketUpdate_default\<rparr>,
      mp_socket = socket_buffers_new\<rparr>"

definition mp_step :: "md_publisher \<Rightarrow> md_publisher res" where
  "mp_step p =
     (case getNextToRead (mp_updates p) of
        None \<Rightarrow> Inr p
      | Some u \<Rightarrow>
          bindE (mcast_send (le 8 (unat (next_inc_seq_num p))) (mp_socket p)) (\<lambda>s1.
          bindE (mcast_send (encode_update u) s1) (\<lambda>s2.
          bindE (updateReadIndex (mp_updates p)) (\<lambda>q.
          Inr (p\<lparr>mp_socket := s2, mp_updates := q,
                 mp_snapshot_queue := lfq_push \<lparr>mdp_seq_num = next_inc_seq_num p, me_market_update = u\<rparr> (mp_snapshot_queue p),
                 next_inc_seq_num := next_inc_seq_num p + 1\<rparr>)))))"

definition mp_round :: "md_publisher \<Rightarrow> (byte list \<times> md_publisher) res" where
  "mp_round p =
     bindE (foldE (\<lambda>_. mp_step) [0..<lfq_size (mp_updates p)] p) (\<lambda>p1.
     Inr (outbound (mp_socket p1), p1\<lparr>mp_socket := (mp_socket p1)\<lparr>outbound := []\<rparr>\<rparr>))"

fun number_updates :: "64 word \<Rightarrow> MEMarketUpdate list \<Rightarrow> MDPMarketUpdate list" where
  "number_updates n [] = []"
| "number_updates n (u # us) = \<lparr>mdp_seq_num = n, me_market_update = u\<rparr> # number_updates (n + 1) us"

lemma number_updates_simps [simp]:
  "length (number_updates n us) = length us" "map me_market_update (number_updates n us) = us"
  by (induction us arbitrary: n) simp_all

lemma number_updates_append:
  "number_updates n (us @ vs) = number_updates n us @ number_updates (n + word_of_nat (length us)) vs"
  by (induction us arbitrary: n) (simp_all add: ac_simps)

lemma mcast_send_ok: "length (outbound s) + length bs < McastBufferSize \<Longrightarrow> mcast_send bs s = Inr (s\<lparr>outbound := outbound s @ bs\<rparr>)"
  by (simp add: mcast_send_def)

lemma mp_steps:
  assumes "lfq_inv (mp_updates p)" and "lfq_list (mp_updates p) = us" and "length xs = length us"
    and "length (outbound (mp_socket p)) + 42 * length us < McastBufferSize"
    and "lfq_inv (mp_snapshot_queue p)" and "length us \<le> lfq_room (mp_snapshot_queue p)"
  shows "\<exists>p'. foldE (\<lambda>_. mp_step) (xs :: nat list) p = Inr p' \<and> lfq_list (mp_updates p') = [] \<and>
    outbound (mp_socket p') = outbound (mp_socket p) @ concat (map encode_mdp_update (number_updates (next_inc_seq_num p) us)) \<and>
    lfq_list (mp_snapshot_queue p') = lfq_list (mp_snapshot_queue p) @ number_updates (next_inc_seq_num p) us \<and>
    next_inc_seq_num p' = next_inc_seq_num p + word_of_nat (length us)"
  using assms
proof (induction xs arbitrary: p us)
  case Nil
  from Nil.prems(3) have "us = []" by simp
  with Nil.prems(2) show ?case by (intro exI [of _ p]) simp
next
  case (Cons x xs)
  from Cons.prems(3) obtain u rest where us: "us = u # rest" by (cases us) simp_all
  from lfq_pop_Cons [OF Cons.prems(1) Cons.prems(2) [unfolded us]] obtain q where
    q: "lfq_pop (mp_updates p) = Inr (Some (u, q))" "lfq_inv q" "lfq_list q = rest" by blast
  then have get: "getNextToRead (mp_updates p) = Some u" "updateReadIndex (mp_updates p) = Inr q"
    by (auto simp: lfq_pop_def res_simps split: option.splits)
  let ?m = "\<lparr>mdp_seq_num = next_inc_seq_num p, me_market_update = u\<rparr>"
  define p1 where "p1 = p\<lparr>mp_socket := (mp_socket p)\<lparr>outbound := outbound (mp_socket p) @ encode_mdp_update ?m\<rparr>, mp_updates := q,
      mp_snapshot_queue := lfq_push ?m (mp_snapshot_queue p), next_inc_seq_num := next_inc_seq_num p + 1\<rparr>"
  have "length (encode_update u) = 34" by (simp add: encode_update_def)
  then have step: "mp_step p = Inr p1"
    using Cons.prems(4) us by (simp add: mp_step_def get mcast_send_ok p1_def encode_mdp_update_def)
  have room: "0 < lfq_room (mp_snapshot_queue p)" using Cons.prems(6) us by simp
  have q1: "lfq_inv (mp_updates p1)" "lfq_list (mp_updates p1) = rest" "length xs = length rest"
    "length (outbound (mp_socket p1)) + 42 * length rest < McastBufferSize"
    "lfq_inv (mp_snapshot_queue p1)" "length rest \<le> lfq_room (mp_snapshot_queue p1)"
    using Cons.prems q us room by (simp_all add: p1_def lfq.push_inv lfq.push_room)
  from Cons.IH [OF q1] obtain p' where "foldE (\<lambda>_. mp_step) xs p1 = Inr p'" "lfq_list (mp_updates p') = []"
    "outbound (mp_socket p') = outbound (mp_socket p1) @ concat (map encode_mdp_update (number_updates (next_inc_seq_num p1) rest))"
    "lfq_list (mp_snapshot_queue p') = lfq_list (mp_snapshot_queue p1) @ number_updates (next_inc_seq_num p1) rest"
    "next_inc_seq_num p' = next_inc_seq_num p1 + word_of_nat (length rest)" by blast
  moreover have "lfq_list (mp_snapshot_queue p1) = lfq_list (mp_snapshot_queue p) @ [?m]"
    using Cons.prems(5) room by (simp add: p1_def lfq.push_pending)
  ultimately show ?case using step by (intro exI [of _ p']) (simp add: us p1_def ac_simps)
qed

subsection \<open>The snapshot synthesizer\<close>

record snapshot_synthesizer =
  ss_updates :: "MDPMarketUpdate lf_queue"
  ticker_orders :: "nat \<Rightarrow> nat \<Rightarrow> nat option"
  last_inc_seq_num :: "64 word"
  last_snapshot_time :: Nanos
  ss_pool :: "MEMarketUpdate mem_pool"
  ss_socket :: socket_buffers

definition snapshot_synthesizer_new :: "MDPMarketUpdate lf_queue \<Rightarrow> snapshot_synthesizer" where
  "snapshot_synthesizer_new market_updates =
     \<lparr>ss_updates = market_updates, ticker_orders = (\<lambda>_ _. None), last_inc_seq_num = 0, last_snapshot_time = 0,
      ss_pool = pool_new ME_MAX_ORDER_IDS MEMarketUpdate_default, ss_socket = socket_buffers_new\<rparr>"

text \<open>\<open>ticker_orders_.at(t)\<close> and \<open>orders->at(i)\<close>.\<close>

definition ss_slot :: "MEMarketUpdate \<Rightarrow> (nat \<times> nat) res" where
  "ss_slot u = bindE (atE ME_MAX_TICKERS (unat (mu_ticker_id u))) (\<lambda>t.
     bindE (atE ME_MAX_ORDER_IDS (unat (mu_order_id u))) (\<lambda>i. Inr (t, i)))"

definition ss_set :: "nat \<Rightarrow> nat \<Rightarrow> nat option \<Rightarrow> snapshot_synthesizer \<Rightarrow> snapshot_synthesizer" where
  "ss_set t i x ss = ss\<lparr>ticker_orders := (ticker_orders ss)(t := (ticker_orders ss t)(i := x))\<rparr>"

text \<open>The assertions MODIFY and CANCEL share: the order is there and is the one the update means.\<close>

definition ss_existing :: "MEMarketUpdate \<Rightarrow> snapshot_synthesizer \<Rightarrow> (nat \<times> nat \<times> nat) res" where
  "ss_existing u ss =
     bindE (ss_slot u) (\<lambda>(t, i).
     bindE (assertE (ticker_orders ss t i \<noteq> None)) (\<lambda>_.
     let k = the (ticker_orders ss t i) in
     bindE (assertE (mu_order_id (pobj (ss_pool ss) k) = mu_order_id u)) (\<lambda>_.
     bindE (assertE (mu_side (pobj (ss_pool ss) k) = mu_side u)) (\<lambda>_.
     Inr (t, i, k)))))"

definition addToSnapshot :: "MDPMarketUpdate \<Rightarrow> snapshot_synthesizer \<Rightarrow> snapshot_synthesizer res" where
  "addToSnapshot market_update ss =
     (let u = me_market_update market_update in
      bindE (atE ME_MAX_TICKERS (unat (mu_ticker_id u))) (\<lambda>_.
      bindE (case mu_type u of
           ADD \<Rightarrow>
             bindE (ss_slot u) (\<lambda>(t, i).
             bindE (assertE (ticker_orders ss t i = None)) (\<lambda>_.
             bindE (allocate u (ss_pool ss)) (\<lambda>(k, pool).
             Inr ((ss_set t i (Some k) ss)\<lparr>ss_pool := pool\<rparr>))))
         | MODIFY \<Rightarrow>
             bindE (ss_existing u ss) (\<lambda>(t, i, k).
             Inr (ss\<lparr>ss_pool := pupd k (\<lambda>x. x\<lparr>mu_qty := mu_qty u, mu_price := mu_price u\<rparr>) (ss_pool ss)\<rparr>))
         | CANCEL \<Rightarrow>
             bindE (ss_existing u ss) (\<lambda>(t, i, k).
             bindE (deallocate k (ss_pool ss)) (\<lambda>pool.
             Inr ((ss_set t i None ss)\<lparr>ss_pool := pool\<rparr>)))
         | _ \<Rightarrow> Inr ss) (\<lambda>ss1.
      bindE (assertE (mdp_seq_num market_update = last_inc_seq_num ss1 + 1)) (\<lambda>_.
      Inr (ss1\<lparr>last_inc_seq_num := mdp_seq_num market_update\<rparr>)))))"

text \<open>
  Publishing: the running number, the socket and the datagrams sent so far. Sending is asked for after every order
  and at the end, not after the other messages.
\<close>

record snapshot_cycle =
  snapshot_size :: "64 word"
  cycle_socket :: socket_buffers
  cycle_sent :: "byte list list"

definition cycle_send :: "MEMarketUpdate \<Rightarrow> snapshot_cycle \<Rightarrow> snapshot_cycle res" where
  "cycle_send u x =
     bindE (mcast_send (encode_mdp_update \<lparr>mdp_seq_num = snapshot_size x, me_market_update = u\<rparr>) (cycle_socket x)) (\<lambda>s.
     Inr (x\<lparr>snapshot_size := snapshot_size x + 1, cycle_socket := s\<rparr>))"

definition cycle_flush :: "snapshot_cycle \<Rightarrow> snapshot_cycle" where
  "cycle_flush x = x\<lparr>cycle_socket := (cycle_socket x)\<lparr>outbound := []\<rparr>, cycle_sent := cycle_sent x @ [outbound (cycle_socket x)]\<rparr>"

definition snapshot_mark :: "MarketUpdateType \<Rightarrow> 64 word \<Rightarrow> MEMarketUpdate" where
  "snapshot_mark ty n = MEMarketUpdate_default\<lparr>mu_type := ty, mu_order_id := n\<rparr>"

definition snapshot_clear :: "nat \<Rightarrow> MEMarketUpdate" where
  "snapshot_clear t = MEMarketUpdate_default\<lparr>mu_type := CLEAR, mu_ticker_id := word_of_nat t\<rparr>"

definition publish_order :: "nat \<Rightarrow> snapshot_synthesizer \<Rightarrow> nat \<Rightarrow> snapshot_cycle \<Rightarrow> snapshot_cycle res" where
  "publish_order t ss i x =
     (case ticker_orders ss t i of
        None \<Rightarrow> Inr x
      | Some k \<Rightarrow> bindE (cycle_send (pobj (ss_pool ss) k) x) (\<lambda>x1. Inr (cycle_flush x1)))"

definition publish_ticker :: "snapshot_synthesizer \<Rightarrow> nat \<Rightarrow> snapshot_cycle \<Rightarrow> snapshot_cycle res" where
  "publish_ticker ss t x =
     bindE (cycle_send (snapshot_clear t) x) (foldE (publish_order t ss) [0..<ME_MAX_ORDER_IDS])"

definition publishSnapshot :: "snapshot_synthesizer \<Rightarrow> (byte list list \<times> snapshot_synthesizer) res" where
  "publishSnapshot ss =
     bindE (cycle_send (snapshot_mark SNAPSHOT_START (last_inc_seq_num ss))
              \<lparr>snapshot_size = 0, cycle_socket = ss_socket ss, cycle_sent = []\<rparr>) (\<lambda>x1.
     bindE (foldE (publish_ticker ss) [0..<ME_MAX_TICKERS] x1) (\<lambda>x2.
     bindE (cycle_send (snapshot_mark SNAPSHOT_END (last_inc_seq_num ss)) x2) (\<lambda>x3.
     let x4 = cycle_flush x3 in
     Inr (cycle_sent x4, ss\<lparr>ss_socket := cycle_socket x4\<rparr>))))"

text \<open>One round of \<open>run\<close>; \<open>now\<close> is what both calls of \<open>getCurrentNanos\<close> return.\<close>

definition ss_step :: "snapshot_synthesizer \<Rightarrow> snapshot_synthesizer res" where
  "ss_step ss =
     (case getNextToRead (ss_updates ss) of
        None \<Rightarrow> Inr ss
      | Some m \<Rightarrow>
          bindE (addToSnapshot m ss) (\<lambda>ss1.
          bindE (updateReadIndex (ss_updates ss1)) (\<lambda>q. Inr (ss1\<lparr>ss_updates := q\<rparr>))))"

definition ss_round :: "Nanos \<Rightarrow> snapshot_synthesizer \<Rightarrow> (byte list list \<times> snapshot_synthesizer) res" where
  "ss_round now ss =
     bindE (foldE (\<lambda>_. ss_step) [0..<lfq_size (ss_updates ss)] ss) (\<lambda>ss1.
     if now - last_snapshot_time ss1 > 60 * 1000000000
     then publishSnapshot (ss1\<lparr>last_snapshot_time := now\<rparr>)
     else Inr ([], ss1))"

end
