(* ===== verification/SnapshotRefine.thy ===== *)
theory SnapshotRefine
  imports MarketData
begin

text \<open>
  What the snapshot synthesizer keeps: \<open>ss_orders\<close> reads the two arrays and the pool as a map from instrument and
  order id to the last known order; \<open>ss_ok\<close> says the pool's blocks in use are exactly those the arrays point to, each
  from one place. \<open>addToSnapshot\<close> implements \<open>snap_spec\<close>, \<open>publishSnapshot\<close> publishes \<open>snapshot_updates\<close>.
\<close>

type_synonym snap = "nat \<Rightarrow> nat \<Rightarrow> MEMarketUpdate option"

definition ss_orders :: "snapshot_synthesizer \<Rightarrow> snap" where
  "ss_orders ss t i = map_option (pobj (ss_pool ss)) (ticker_orders ss t i)"

definition ss_places :: "snapshot_synthesizer \<Rightarrow> (nat \<times> nat) set" where
  "ss_places ss = {(t, i). ticker_orders ss t i \<noteq> None}"

definition ss_ok :: "snapshot_synthesizer \<Rightarrow> bool" where
  "ss_ok ss \<longleftrightarrow> pool_ok (ss_pool ss) \<and> pool_size (ss_pool ss) = ME_MAX_ORDER_IDS \<and>
     ss_places ss \<subseteq> {..<ME_MAX_TICKERS} \<times> {..<ME_MAX_ORDER_IDS} \<and>
     bij_betw (\<lambda>(t, i). the (ticker_orders ss t i)) (ss_places ss) (live (ss_pool ss)) \<and>
     (\<forall>t i x. ss_orders ss t i = Some x \<longrightarrow> unat (mu_order_id x) = i)"

definition snap_spec :: "MEMarketUpdate \<Rightarrow> snap \<Rightarrow> snap" where
  "snap_spec u M =
     (let t = unat (mu_ticker_id u); i = unat (mu_order_id u) in
      if mu_type u = ADD then M(t := (M t)(i := Some u))
      else if mu_type u = MODIFY then M(t := (M t)(i := map_option (\<lambda>x. x\<lparr>mu_qty := mu_qty u, mu_price := mu_price u\<rparr>) (M t i)))
      else if mu_type u = CANCEL then M(t := (M t)(i := None))
      else M)"

definition snap_update_ok :: "MEMarketUpdate \<Rightarrow> snap \<Rightarrow> bool" where
  "snap_update_ok u M \<longleftrightarrow> unat (mu_ticker_id u) < ME_MAX_TICKERS \<and>
     (mu_type u = ADD \<longrightarrow> unat (mu_order_id u) < ME_MAX_ORDER_IDS \<and> M (unat (mu_ticker_id u)) (unat (mu_order_id u)) = None \<and>
        card {(t, i). M t i \<noteq> None} + 1 < ME_MAX_ORDER_IDS) \<and>
     (mu_type u = MODIFY \<or> mu_type u = CANCEL \<longrightarrow>
        (\<exists>x. M (unat (mu_ticker_id u)) (unat (mu_order_id u)) = Some x \<and> mu_side x = mu_side u))"

lemma ss_ok_new: "ss_ok (snapshot_synthesizer_new q)" "ss_orders (snapshot_synthesizer_new q) = (\<lambda>_ _. None)"
  by (simp_all add: ss_ok_def snapshot_synthesizer_new_def ss_places_def ss_orders_def ME_MAX_ORDER_IDS_def fun_eq_iff bij_betw_def)

lemma ss_places_eq: "ss_places ss = {(t, i). ss_orders ss t i \<noteq> None}"
  by (simp add: ss_places_def ss_orders_def)

lemma ss_live_card: "ss_ok ss \<Longrightarrow> card (live (ss_pool ss)) = card {(t, i). ss_orders ss t i \<noteq> None}"
  unfolding ss_ok_def ss_places_eq [symmetric] by (metis bij_betw_same_card)

lemma ss_okD:
  assumes "ss_ok ss" and "ticker_orders ss t i = Some k"
  shows "t < ME_MAX_TICKERS" "i < ME_MAX_ORDER_IDS" "k \<in> live (ss_pool ss)" "unat (mu_order_id (pobj (ss_pool ss) k)) = i"
    "\<And>t' i'. ticker_orders ss t' i' = Some k \<longleftrightarrow> t' = t \<and> i' = i"
proof -
  have p: "(t, i) \<in> ss_places ss" using assms(2) by (simp add: ss_places_def)
  with assms(1) show "t < ME_MAX_TICKERS" "i < ME_MAX_ORDER_IDS" by (auto simp: ss_ok_def)
  have b: "bij_betw (\<lambda>(t, i). the (ticker_orders ss t i)) (ss_places ss) (live (ss_pool ss))" using assms(1) by (simp add: ss_ok_def)
  from bij_betwE [OF b] p show "k \<in> live (ss_pool ss)" using assms(2) by force
  show "unat (mu_order_id (pobj (ss_pool ss) k)) = i"
  proof -
    have "ss_orders ss t i = Some (pobj (ss_pool ss) k)" using assms(2) by (simp add: ss_orders_def)
    then show ?thesis using assms(1) unfolding ss_ok_def by blast
  qed
  show "ticker_orders ss t' i' = Some k \<longleftrightarrow> t' = t \<and> i' = i" for t' i'
    using bij_betw_imp_inj_on [OF b] p assms(2) by (force simp: inj_on_def ss_places_def)
qed

lemma addToSnapshot_add:
  assumes ok: "ss_ok ss" and up: "snap_update_ok u (ss_orders ss)" and add: "mu_type u = ADD" and n: "n = last_inc_seq_num ss + 1"
  shows "\<exists>ss'. addToSnapshot \<lparr>mdp_seq_num = n, me_market_update = u\<rparr> ss = Inr ss' \<and> ss_ok ss' \<and>
    ss_orders ss' = snap_spec u (ss_orders ss) \<and> last_inc_seq_num ss' = n \<and> ss_updates ss' = ss_updates ss \<and> ss_socket ss' = ss_socket ss"
proof -
  let ?t = "unat (mu_ticker_id u)" and ?i = "unat (mu_order_id u)" and ?k = "next_free_index (ss_pool ss)"
  have ti: "?t < ME_MAX_TICKERS" "?i < ME_MAX_ORDER_IDS" "ticker_orders ss ?t ?i = None"
    using up add by (auto simp: snap_update_ok_def ss_orders_def)
  have room: "card (live (ss_pool ss)) + 1 < pool_size (ss_pool ss)"
    using up add ss_live_card [OF ok] ok by (simp add: snap_update_ok_def ss_ok_def)
  have po: "pool_ok (ss_pool ss)" "pool_size (ss_pool ss) = ME_MAX_ORDER_IDS" using ok by (simp_all add: ss_ok_def)
  from allocate_ok [OF po(1) room, of u] obtain pool where a: "allocate u (ss_pool ss) = Inr (?k, pool)" "pool_ok pool"
    "live pool = insert ?k (live (ss_pool ss))" "?k \<notin> live (ss_pool ss)" "pool_size pool = pool_size (ss_pool ss)"
    "pobj pool = (pobj (ss_pool ss))(?k := u)" by blast
  define ss' where "ss' = (ss_set ?t ?i (Some ?k) ss)\<lparr>ss_pool := pool, last_inc_seq_num := n\<rparr>"
  have run: "addToSnapshot \<lparr>mdp_seq_num = n, me_market_update = u\<rparr> ss = Inr ss'"
    using ti add a(1) n by (simp add: addToSnapshot_def ss_slot_def ss'_def ss_set_def)
  have tick: "ticker_orders ss' t i = (if t = ?t \<and> i = ?i then Some ?k else ticker_orders ss t i)" for t i
    by (simp add: ss'_def ss_set_def)
  have pool: "ss_pool ss' = pool" by (simp add: ss'_def)
  have kk: "ticker_orders ss t i \<noteq> Some ?k" for t i using ss_okD(3) [OF ok] a(4) by blast
  have ord: "ss_orders ss' = snap_spec u (ss_orders ss)"
  proof (intro ext)
    fix t i
    show "ss_orders ss' t i = snap_spec u (ss_orders ss) t i"
      using add kk [of t i] by (cases "ticker_orders ss t i") (auto simp: ss_orders_def tick pool a(6) snap_spec_def Let_def)
  qed
  have pl: "ss_places ss' = insert (?t, ?i) (ss_places ss)" "(?t, ?i) \<notin> ss_places ss" using ti(3) by (auto simp: ss_places_def tick)
  have b: "bij_betw (\<lambda>(t, i). the (ticker_orders ss t i)) (ss_places ss) (live (ss_pool ss))" using ok by (simp add: ss_ok_def)
  have "bij_betw (\<lambda>(t, i). the (ticker_orders ss' t i)) (ss_places ss) (live (ss_pool ss))"
    using b pl(2) by (subst bij_betw_cong [where g = "\<lambda>(t, i). the (ticker_orders ss t i)"]) (auto simp: tick)
  then have "bij_betw (\<lambda>(t, i). the (ticker_orders ss' t i)) (insert (?t, ?i) (ss_places ss)) (insert ?k (live (ss_pool ss)))"
    using notIn_Un_bij_betw [of "(?t, ?i)" "ss_places ss" "\<lambda>(t, i). the (ticker_orders ss' t i)" "live (ss_pool ss)"] pl(2) a(4)
    by (simp add: tick)
  moreover have "\<forall>t i x. ss_orders ss' t i = Some x \<longrightarrow> unat (mu_order_id x) = i"
    using ok add by (auto simp: ord snap_spec_def ss_ok_def Let_def)
  ultimately have "ss_ok ss'" using ok ti a by (auto simp: ss_ok_def pl pool)
  with run ord show ?thesis by (intro exI [of _ ss']) (simp add: ss'_def ss_set_def)
qed

lemma ss_existing_ok:
  assumes ok: "ss_ok ss" and x: "ss_orders ss (unat (mu_ticker_id u)) (unat (mu_order_id u)) = Some x" "mu_side x = mu_side u"
  obtains k where "ss_existing u ss = Inr (unat (mu_ticker_id u), unat (mu_order_id u), k)"
    "ticker_orders ss (unat (mu_ticker_id u)) (unat (mu_order_id u)) = Some k" "pobj (ss_pool ss) k = x"
proof -
  from x obtain k where k: "ticker_orders ss (unat (mu_ticker_id u)) (unat (mu_order_id u)) = Some k" "pobj (ss_pool ss) k = x"
    by (auto simp: ss_orders_def)
  have "mu_order_id x = mu_order_id u" using ss_okD(4) [OF ok k(1)] k(2) by (simp add: word_unat_eq_iff)
  with ss_okD(1,2) [OF ok k(1)] x(2) k show thesis
    by (intro that [of k]) (simp_all add: ss_existing_def ss_slot_def Let_def)
qed

lemma addToSnapshot_modify:
  assumes ok: "ss_ok ss" and up: "snap_update_ok u (ss_orders ss)" and m: "mu_type u = MODIFY" and n: "n = last_inc_seq_num ss + 1"
  shows "\<exists>ss'. addToSnapshot \<lparr>mdp_seq_num = n, me_market_update = u\<rparr> ss = Inr ss' \<and> ss_ok ss' \<and>
    ss_orders ss' = snap_spec u (ss_orders ss) \<and> last_inc_seq_num ss' = n \<and> ss_updates ss' = ss_updates ss \<and> ss_socket ss' = ss_socket ss"
proof -
  let ?t = "unat (mu_ticker_id u)" and ?i = "unat (mu_order_id u)"
  from up m obtain x where x: "ss_orders ss ?t ?i = Some x" "mu_side x = mu_side u" "?t < ME_MAX_TICKERS" by (auto simp: snap_update_ok_def)
  obtain k where k: "ss_existing u ss = Inr (?t, ?i, k)" "ticker_orders ss ?t ?i = Some k" "pobj (ss_pool ss) k = x"
    by (rule ss_existing_ok [OF ok x(1,2)])
  let ?f = "\<lambda>x. x\<lparr>mu_qty := mu_qty u, mu_price := mu_price u\<rparr>"
  define ss' where "ss' = ss\<lparr>ss_pool := pupd k ?f (ss_pool ss), last_inc_seq_num := n\<rparr>"
  have run: "addToSnapshot \<lparr>mdp_seq_num = n, me_market_update = u\<rparr> ss = Inr ss'"
    using x(3) m n by (simp add: addToSnapshot_def k(1) ss'_def)
  have tick: "ticker_orders ss' = ticker_orders ss" by (simp add: ss'_def)
  have ord: "ss_orders ss' = snap_spec u (ss_orders ss)"
  proof (intro ext)
    fix t i
    show "ss_orders ss' t i = snap_spec u (ss_orders ss) t i"
      using m k(2) ss_okD(5) [OF ok k(2), of t i]
      by (cases "ticker_orders ss t i") (auto simp: ss_orders_def tick ss'_def snap_spec_def pobj_pupd Let_def)
  qed
  have "\<forall>t i x. ss_orders ss' t i = Some x \<longrightarrow> unat (mu_order_id x) = i"
    using ok m by (auto simp: ord snap_spec_def ss_ok_def Let_def split: if_splits)
  then have "ss_ok ss'" using ok by (simp add: ss_ok_def ss_places_def tick) (simp add: ss'_def)
  with run ord show ?thesis by (intro exI [of _ ss']) (simp add: ss'_def)
qed

lemma addToSnapshot_cancel:
  assumes ok: "ss_ok ss" and up: "snap_update_ok u (ss_orders ss)" and m: "mu_type u = CANCEL" and n: "n = last_inc_seq_num ss + 1"
  shows "\<exists>ss'. addToSnapshot \<lparr>mdp_seq_num = n, me_market_update = u\<rparr> ss = Inr ss' \<and> ss_ok ss' \<and>
    ss_orders ss' = snap_spec u (ss_orders ss) \<and> last_inc_seq_num ss' = n \<and> ss_updates ss' = ss_updates ss \<and> ss_socket ss' = ss_socket ss"
proof -
  let ?t = "unat (mu_ticker_id u)" and ?i = "unat (mu_order_id u)"
  from up m obtain x where x: "ss_orders ss ?t ?i = Some x" "mu_side x = mu_side u" "?t < ME_MAX_TICKERS" by (auto simp: snap_update_ok_def)
  obtain k where k: "ss_existing u ss = Inr (?t, ?i, k)" "ticker_orders ss ?t ?i = Some k" "pobj (ss_pool ss) k = x"
    by (rule ss_existing_ok [OF ok x(1,2)])
  have po: "pool_ok (ss_pool ss)" "pool_size (ss_pool ss) = ME_MAX_ORDER_IDS" using ok by (simp_all add: ss_ok_def)
  from deallocate_ok [OF po(1) ss_okD(3) [OF ok k(2)]] obtain pool where a: "deallocate k (ss_pool ss) = Inr pool" "pool_ok pool"
    "live pool = live (ss_pool ss) - {k}" "pool_size pool = pool_size (ss_pool ss)" "pobj pool = pobj (ss_pool ss)" by blast
  define ss' where "ss' = (ss_set ?t ?i None ss)\<lparr>ss_pool := pool, last_inc_seq_num := n\<rparr>"
  have run: "addToSnapshot \<lparr>mdp_seq_num = n, me_market_update = u\<rparr> ss = Inr ss'"
    using x(3) m n by (simp add: addToSnapshot_def k(1) a(1) ss'_def ss_set_def)
  have tick: "ticker_orders ss' t i = (if t = ?t \<and> i = ?i then None else ticker_orders ss t i)" for t i
    by (simp add: ss'_def ss_set_def)
  have pool: "ss_pool ss' = pool" by (simp add: ss'_def)
  have ord: "ss_orders ss' = snap_spec u (ss_orders ss)"
    using m by (intro ext) (simp add: ss_orders_def tick pool a(5) snap_spec_def Let_def)
  have pl: "ss_places ss' = ss_places ss - {(?t, ?i)}" "(?t, ?i) \<in> ss_places ss" using k(2) by (auto simp: ss_places_def tick)
  have b: "bij_betw (\<lambda>(t, i). the (ticker_orders ss t i)) (ss_places ss) (live (ss_pool ss))" using ok by (simp add: ss_ok_def)
  have "bij_betw (\<lambda>(t, i). the (ticker_orders ss t i)) (ss_places ss - {(?t, ?i)}) (live (ss_pool ss) - {k})"
    by (rule bij_betw_DiffI [OF b]) (use pl(2) k(2) ss_okD(3) [OF ok k(2)] in \<open>simp_all add: bij_betw_def\<close>)
  then have "bij_betw (\<lambda>(t, i). the (ticker_orders ss' t i)) (ss_places ss - {(?t, ?i)}) (live (ss_pool ss) - {k})"
    by (subst bij_betw_cong [where g = "\<lambda>(t, i). the (ticker_orders ss t i)"]) (auto simp: tick split: if_splits)
  moreover have "\<forall>t i x. ss_orders ss' t i = Some x \<longrightarrow> unat (mu_order_id x) = i"
    using ok m by (auto simp: ord snap_spec_def ss_ok_def Let_def split: if_splits)
  ultimately have "ss_ok ss'" using ok a by (auto simp: ss_ok_def pl pool)
  with run ord show ?thesis by (intro exI [of _ ss']) (simp add: ss'_def ss_set_def)
qed

lemma addToSnapshot_other:
  assumes "ss_ok ss" and "snap_update_ok u (ss_orders ss)" and "mu_type u \<notin> {ADD, MODIFY, CANCEL}" and "n = last_inc_seq_num ss + 1"
  shows "addToSnapshot \<lparr>mdp_seq_num = n, me_market_update = u\<rparr> ss = Inr (ss\<lparr>last_inc_seq_num := n\<rparr>) \<and>
    snap_spec u (ss_orders ss) = ss_orders ss"
  using assms by (cases "mu_type u") (auto simp: addToSnapshot_def snap_update_ok_def snap_spec_def)

lemma ss_ok_cong [simp]:
  "ss_ok (ss\<lparr>last_inc_seq_num := n\<rparr>) = ss_ok ss" "ss_orders (ss\<lparr>last_inc_seq_num := n\<rparr>) = ss_orders ss"
  "ss_ok (ss\<lparr>ss_updates := q\<rparr>) = ss_ok ss" "ss_orders (ss\<lparr>ss_updates := q\<rparr>) = ss_orders ss"
  "ss_ok (ss\<lparr>last_snapshot_time := t\<rparr>) = ss_ok ss" "ss_orders (ss\<lparr>last_snapshot_time := t\<rparr>) = ss_orders ss"
  by (simp_all add: ss_ok_def ss_places_def ss_orders_def fun_eq_iff)

lemma addToSnapshot_ok:
  assumes "ss_ok ss" and "snap_update_ok u (ss_orders ss)" and "n = last_inc_seq_num ss + 1"
  shows "\<exists>ss'. addToSnapshot \<lparr>mdp_seq_num = n, me_market_update = u\<rparr> ss = Inr ss' \<and> ss_ok ss' \<and>
    ss_orders ss' = snap_spec u (ss_orders ss) \<and> last_inc_seq_num ss' = n \<and> ss_updates ss' = ss_updates ss \<and> ss_socket ss' = ss_socket ss"
  using addToSnapshot_add [OF assms(1,2) _ assms(3)] addToSnapshot_modify [OF assms(1,2) _ assms(3)]
    addToSnapshot_cancel [OF assms(1,2) _ assms(3)] addToSnapshot_other [OF assms(1,2) _ assms(3)] assms(1)
  by (cases "mu_type u") auto

subsection \<open>What a snapshot cycle says\<close>

definition orders_in :: "nat \<Rightarrow> snap \<Rightarrow> MEMarketUpdate list" where
  "orders_in t M = List.map_filter (M t) [0..<ME_MAX_ORDER_IDS]"

definition snapshot_updates :: "64 word \<Rightarrow> snap \<Rightarrow> MEMarketUpdate list" where
  "snapshot_updates n M = snapshot_mark SNAPSHOT_START n #
     concat (map (\<lambda>t. snapshot_clear t # orders_in t M) [0..<ME_MAX_TICKERS]) @ [snapshot_mark SNAPSHOT_END n]"

text \<open>Bytes sent and waiting so far are the messages so far; at most \<open>m\<close> of them wait.\<close>

definition cycle_at :: "nat \<Rightarrow> MEMarketUpdate list \<Rightarrow> snapshot_cycle \<Rightarrow> bool" where
  "cycle_at m us x \<longleftrightarrow> concat (cycle_sent x) @ outbound (cycle_socket x) = concat (map encode_mdp_update (number_updates 0 us)) \<and>
     snapshot_size x = word_of_nat (length us) \<and> length (outbound (cycle_socket x)) \<le> 42 * m"

lemma cycle_send_ok:
  assumes "cycle_at m us x" and "m < 1000"
  shows "\<exists>x'. cycle_send u x = Inr x' \<and> cycle_at (Suc m) (us @ [u]) x'"
proof -
  let ?m = "\<lparr>mdp_seq_num = snapshot_size x, me_market_update = u\<rparr>" and ?s = "cycle_socket x"
  let ?x = "x\<lparr>snapshot_size := snapshot_size x + 1, cycle_socket := ?s\<lparr>outbound := outbound ?s @ encode_mdp_update ?m\<rparr>\<rparr>"
  have at: "concat (cycle_sent x) @ outbound ?s = concat (map encode_mdp_update (number_updates 0 us))"
    "snapshot_size x = word_of_nat (length us)" "length (outbound ?s) \<le> 42 * m"
    using assms(1) by (simp_all add: cycle_at_def)
  have "length (outbound ?s) + 42 < McastBufferSize" using at(3) assms(2) by (simp add: McastBufferSize_def)
  then have "cycle_send u x = Inr ?x" by (simp add: cycle_send_def mcast_send_ok)
  moreover have "concat (cycle_sent ?x) @ outbound (cycle_socket ?x) = (concat (cycle_sent x) @ outbound ?s) @ encode_mdp_update ?m" by simp
  then have "cycle_at (Suc m) (us @ [u]) ?x" using at by (simp only: cycle_at_def) (simp add: number_updates_append)
  ultimately show ?thesis by blast
qed

lemma cycle_at_mono: "cycle_at k us x \<Longrightarrow> k \<le> m \<Longrightarrow> cycle_at m us x"
  unfolding cycle_at_def by (elim conjE, intro conjI) (assumption | linarith)+

lemma cycle_flush_ok:
  assumes "cycle_at m us x"
  shows "cycle_at 0 us (cycle_flush x)"
    and "concat (cycle_sent (cycle_flush x)) = concat (map encode_mdp_update (number_updates 0 us))"
    and "outbound (cycle_socket (cycle_flush x)) = []"
  using assms by (simp_all add: cycle_at_def cycle_flush_def)

lemma publish_order_ok:
  assumes "cycle_at m us x" and "m < 1000"
  shows "\<exists>x'. publish_order t ss i x = Inr x' \<and> cycle_at m (us @ (case ss_orders ss t i of None \<Rightarrow> [] | Some u \<Rightarrow> [u])) x'"
proof (cases "ticker_orders ss t i")
  case None
  then show ?thesis using assms(1) by (simp add: publish_order_def ss_orders_def)
next
  case (Some k)
  from cycle_send_ok [OF assms, of "pobj (ss_pool ss) k"] obtain x' where
    x': "cycle_send (pobj (ss_pool ss) k) x = Inr x'" "cycle_at (Suc m) (us @ [pobj (ss_pool ss) k]) x'" by blast
  from cycle_flush_ok(1) [OF x'(2)] have "cycle_at m (us @ [pobj (ss_pool ss) k]) (cycle_flush x')" by (rule cycle_at_mono) simp
  then show ?thesis using Some x'(1) by (simp add: publish_order_def ss_orders_def)
qed

lemma publish_orders_ok:
  assumes "cycle_at m us x" and "m < 1000"
  shows "\<exists>x'. foldE (publish_order t ss) is x = Inr x' \<and> cycle_at m (us @ List.map_filter (ss_orders ss t) is) x'"
  using assms(1)
proof (induction "is" arbitrary: us x)
  case Nil
  then show ?case by (simp add: List.map_filter_def)
next
  case (Cons i "is")
  from publish_order_ok [OF Cons.prems assms(2), of t ss i] obtain x1 where x1: "publish_order t ss i x = Inr x1"
    "cycle_at m (us @ (case ss_orders ss t i of None \<Rightarrow> [] | Some u \<Rightarrow> [u])) x1" by blast
  from Cons.IH [OF x1(2)] x1(1) show ?case by (auto simp: List.map_filter_def split: option.splits)
qed

lemma publish_tickers_ok:
  assumes "cycle_at m us x" and "m + length ts < 1000"
  shows "\<exists>x'. foldE (publish_ticker ss) ts x = Inr x' \<and>
    cycle_at (m + length ts) (us @ concat (map (\<lambda>t. snapshot_clear t # orders_in t (ss_orders ss)) ts)) x'"
  using assms
proof (induction ts arbitrary: m us x)
  case Nil
  then show ?case by simp
next
  case (Cons t ts)
  then have m: "m < 1000" "Suc m < 1000" by simp_all
  from cycle_send_ok [OF Cons.prems(1) m(1), of "snapshot_clear t"] obtain x1 where
    x1: "cycle_send (snapshot_clear t) x = Inr x1" "cycle_at (Suc m) (us @ [snapshot_clear t]) x1" by blast
  from publish_orders_ok [OF x1(2) m(2), of t ss "[0..<ME_MAX_ORDER_IDS]"] obtain x2 where
    x2: "foldE (publish_order t ss) [0..<ME_MAX_ORDER_IDS] x1 = Inr x2"
    "cycle_at (Suc m) (us @ snapshot_clear t # orders_in t (ss_orders ss)) x2" by (auto simp: orders_in_def)
  have "publish_ticker ss t x = Inr x2" by (simp add: publish_ticker_def x1(1) x2(1))
  with Cons.IH [OF x2(2)] Cons.prems(2) show ?case by (auto simp: orders_in_def)
qed

lemma publishSnapshot_ok:
  assumes "outbound (ss_socket ss) = []"
  shows "\<exists>ss'. \<exists>sent. publishSnapshot ss = Inr (sent, ss') \<and> outbound (ss_socket ss') = [] \<and>
    concat sent = concat (map encode_mdp_update (number_updates 0 (snapshot_updates (last_inc_seq_num ss) (ss_orders ss)))) \<and>
    ss' = ss\<lparr>ss_socket := ss_socket ss'\<rparr>"
proof -
  let ?x0 = "\<lparr>snapshot_size = 0, cycle_socket = ss_socket ss, cycle_sent = []\<rparr>" and ?n = "last_inc_seq_num ss"
  have "cycle_at 0 [] ?x0" using assms by (simp add: cycle_at_def)
  from cycle_send_ok [OF this, of "snapshot_mark SNAPSHOT_START ?n"] obtain x1 where
    x1: "cycle_send (snapshot_mark SNAPSHOT_START ?n) ?x0 = Inr x1" "cycle_at (Suc 0) [snapshot_mark SNAPSHOT_START ?n] x1" by auto
  from publish_tickers_ok [OF x1(2), of "[0..<ME_MAX_TICKERS]" ss] obtain x2 where
    x2: "foldE (publish_ticker ss) [0..<ME_MAX_TICKERS] x1 = Inr x2"
    "cycle_at 9 (snapshot_mark SNAPSHOT_START ?n #
       concat (map (\<lambda>t. snapshot_clear t # orders_in t (ss_orders ss)) [0..<ME_MAX_TICKERS])) x2"
    by (auto simp: ME_MAX_TICKERS_def simp del: upt_Suc upt_rec_numeral)
  from cycle_send_ok [OF x2(2), of "snapshot_mark SNAPSHOT_END ?n"] obtain x3 where
    x3: "cycle_send (snapshot_mark SNAPSHOT_END ?n) x2 = Inr x3"
    "cycle_at 10 (snapshot_updates ?n (ss_orders ss)) x3" by (auto simp: snapshot_updates_def)
  note cycle_flush_ok(2,3) [OF x3(2)]
  moreover have "publishSnapshot ss = Inr (cycle_sent (cycle_flush x3), ss\<lparr>ss_socket := cycle_socket (cycle_flush x3)\<rparr>)"
    by (simp add: publishSnapshot_def x1(1) x2(1) x3(1) Let_def)
  ultimately show ?thesis by (intro exI [of _ "ss\<lparr>ss_socket := cycle_socket (cycle_flush x3)\<rparr>"] exI [of _ "cycle_sent (cycle_flush x3)"]) simp
qed

end
