(* ===== verification/SnapshotStream.thy ===== *)
theory SnapshotStream
  imports SnapshotRefine
begin

text \<open>
  The market data side of the exchange as a whole: what one round of the publisher puts on the incremental stream and
  hands to the synthesizer, and what the synthesizer's round makes of it.
\<close>

fun snap_updates_ok :: "MEMarketUpdate list \<Rightarrow> snap \<Rightarrow> bool" where
  "snap_updates_ok [] M = True"
| "snap_updates_ok (u # us) M = (snap_update_ok u M \<and> snap_updates_ok us (snap_spec u M))"

lemma addToSnapshot_all:
  assumes "ss_ok ss" and "snap_updates_ok us (ss_orders ss)" and "n = last_inc_seq_num ss + 1"
  shows "\<exists>ss'. foldE addToSnapshot (number_updates n us) ss = Inr ss' \<and> ss_ok ss' \<and> ss_orders ss' = fold snap_spec us (ss_orders ss) \<and>
    last_inc_seq_num ss' = last_inc_seq_num ss + word_of_nat (length us) \<and> ss_socket ss' = ss_socket ss"
  using assms
proof (induction us arbitrary: ss n)
  case Nil
  then show ?case by simp
next
  case (Cons u us)
  have "snap_update_ok u (ss_orders ss)" using Cons.prems(2) by simp
  from addToSnapshot_ok [OF Cons.prems(1) this Cons.prems(3)] obtain ss1 where
    s1: "addToSnapshot \<lparr>mdp_seq_num = n, me_market_update = u\<rparr> ss = Inr ss1" "ss_ok ss1" "ss_orders ss1 = snap_spec u (ss_orders ss)"
      "last_inc_seq_num ss1 = n" "ss_socket ss1 = ss_socket ss" by blast
  from Cons.IH [OF s1(2), of "n + 1"] Cons.prems(2,3) s1 show ?case by (auto simp: ac_simps)
qed

lemma addToSnapshot_time: "addToSnapshot m ss = Inr ss' \<Longrightarrow> last_snapshot_time ss' = last_snapshot_time ss"
  by (auto simp: addToSnapshot_def Let_def res_simps ss_slot_def ss_existing_def ss_set_def
      split: MarketUpdateType.splits if_splits sum.splits prod.splits)

lemma ss_step_ok:
  assumes "ss_ok ss" and "lfq_inv (ss_updates ss)" and "lfq_list (ss_updates ss) = \<lparr>mdp_seq_num = last_inc_seq_num ss + 1, me_market_update = u\<rparr> # ms"
    and "snap_update_ok u (ss_orders ss)"
  shows "\<exists>ss'. ss_step ss = Inr ss' \<and> ss_ok ss' \<and> lfq_inv (ss_updates ss') \<and> lfq_list (ss_updates ss') = ms \<and>
    ss_orders ss' = snap_spec u (ss_orders ss) \<and> last_inc_seq_num ss' = last_inc_seq_num ss + 1 \<and> ss_socket ss' = ss_socket ss \<and>
    last_snapshot_time ss' = last_snapshot_time ss \<and> length (store (ss_updates ss')) = length (store (ss_updates ss))"
proof -
  let ?m = "\<lparr>mdp_seq_num = last_inc_seq_num ss + 1, me_market_update = u\<rparr>"
  from addToSnapshot_ok [OF assms(1,4) refl] obtain ss1 where a: "addToSnapshot ?m ss = Inr ss1" "ss_ok ss1"
    "ss_orders ss1 = snap_spec u (ss_orders ss)" "last_inc_seq_num ss1 = last_inc_seq_num ss + 1" "ss_updates ss1 = ss_updates ss"
    "ss_socket ss1 = ss_socket ss" by blast
  from lfq_pop_Cons [OF assms(2,3)] obtain q where q: "lfq_pop (ss_updates ss) = Inr (Some (?m, q))" "lfq_inv q" "lfq_list q = ms"
    "length (store q) = length (store (ss_updates ss))" by blast
  then have get: "getNextToRead (ss_updates ss) = Some ?m" "updateReadIndex (ss_updates ss) = Inr q"
    by (auto simp: lfq_pop_def res_simps split: option.splits)
  have "ss_step ss = Inr (ss1\<lparr>ss_updates := q\<rparr>)" by (simp add: ss_step_def get a(1,5))
  then show ?thesis using a q addToSnapshot_time [OF a(1)] by (intro exI [of _ "ss1\<lparr>ss_updates := q\<rparr>"]) simp
qed

lemma ss_steps_ok:
  assumes "ss_ok ss" and "lfq_inv (ss_updates ss)" and "lfq_list (ss_updates ss) = number_updates (last_inc_seq_num ss + 1) us"
    and "snap_updates_ok us (ss_orders ss)" and "length xs = length us"
  shows "\<exists>ss'. foldE (\<lambda>_. ss_step) (xs :: nat list) ss = Inr ss' \<and> ss_ok ss' \<and> lfq_inv (ss_updates ss') \<and> lfq_list (ss_updates ss') = [] \<and>
    ss_orders ss' = fold snap_spec us (ss_orders ss) \<and> last_inc_seq_num ss' = last_inc_seq_num ss + word_of_nat (length us) \<and>
    ss_socket ss' = ss_socket ss \<and> last_snapshot_time ss' = last_snapshot_time ss \<and>
    length (store (ss_updates ss')) = length (store (ss_updates ss))"
  using assms
proof (induction us arbitrary: ss xs)
  case Nil
  then show ?case by simp
next
  case (Cons u us)
  from Cons.prems(5) obtain x rest where xs: "xs = x # rest" "length rest = length us" by (cases xs) auto
  have up: "snap_update_ok u (ss_orders ss)" and "snap_updates_ok us (snap_spec u (ss_orders ss))" using Cons.prems(4) by simp_all
  moreover from ss_step_ok [OF Cons.prems(1,2) _ up] Cons.prems(3) obtain ss1 where ss1: "ss_step ss = Inr ss1" "ss_ok ss1" "lfq_inv (ss_updates ss1)"
    "lfq_list (ss_updates ss1) = number_updates (last_inc_seq_num ss + 1 + 1) us" "ss_orders ss1 = snap_spec u (ss_orders ss)"
    "last_inc_seq_num ss1 = last_inc_seq_num ss + 1" "ss_socket ss1 = ss_socket ss" "last_snapshot_time ss1 = last_snapshot_time ss"
    "length (store (ss_updates ss1)) = length (store (ss_updates ss))"
    by auto
  ultimately have "snap_updates_ok us (ss_orders ss1)" by simp
  from Cons.IH [OF ss1(2,3) _ this xs(2)] ss1 show ?case by (auto simp: xs(1) ac_simps)
qed

lemma snapshot_of_updates:
  assumes "snap_updates_ok us (\<lambda>_ _. None)"
  shows "\<exists>ss sent ss'. foldE addToSnapshot (number_updates 1 us) (snapshot_synthesizer_new q) = Inr ss \<and>
    publishSnapshot ss = Inr (sent, ss') \<and> ss_orders ss = fold snap_spec us (\<lambda>_ _. None) \<and>
    concat sent = concat (map encode_mdp_update (number_updates 0 (snapshot_updates (word_of_nat (length us)) (fold snap_spec us (\<lambda>_ _. None)))))"
proof -
  have "last_inc_seq_num (snapshot_synthesizer_new q) = 0" "outbound (ss_socket (snapshot_synthesizer_new q)) = []"
    by (simp_all add: snapshot_synthesizer_new_def socket_buffers_new_def)
  with addToSnapshot_all [OF ss_ok_new(1) [of q], of us 1] assms obtain ss where
    ss: "foldE addToSnapshot (number_updates 1 us) (snapshot_synthesizer_new q) = Inr ss" "ss_orders ss = fold snap_spec us (\<lambda>_ _. None)"
      "outbound (ss_socket ss) = []" "last_inc_seq_num ss = word_of_nat (length us)" by (auto simp: ss_ok_new)
  from publishSnapshot_ok [OF ss(3)] ss(1,2,4) show ?thesis by auto
qed

text \<open>
  What is published is what was sent: one round of the publisher puts all the updates waiting in the matching engine's
  queue on the incremental stream, in order and numbered on from the number before, and hands the synthesizer the
  same updates with the same numbers.
\<close>

theorem publisher_numbers_updates:
  assumes "lfq_inv (mp_updates p)" and "lfq_list (mp_updates p) = us" and "outbound (mp_socket p) = []"
    and "42 * length us < McastBufferSize" and "lfq_inv (mp_snapshot_queue p)" and "length us \<le> lfq_room (mp_snapshot_queue p)"
  shows "\<exists>sent p'. mp_round p = Inr (sent, p') \<and> lfq_list (mp_updates p') = [] \<and> outbound (mp_socket p') = [] \<and>
    sent = concat (map encode_mdp_update (number_updates (next_inc_seq_num p) us)) \<and>
    lfq_list (mp_snapshot_queue p') = lfq_list (mp_snapshot_queue p) @ number_updates (next_inc_seq_num p) us \<and>
    next_inc_seq_num p' = next_inc_seq_num p + word_of_nat (length us)"
proof -
  have "length [0..<lfq_size (mp_updates p)] = length us" using assms(2) by (auto simp: lfq_size_def)
  from mp_steps [OF assms(1,2) this _ assms(5,6)] assms(3,4) show ?thesis by (auto simp: mp_round_def)
qed

text \<open>
  A run of the synthesizer: before each round the publisher hands it updates, numbered on; the round is at some time.
  The result has what each round sends.
\<close>

fun ss_run :: "(Nanos \<times> MEMarketUpdate list) list \<Rightarrow> 64 word \<Rightarrow> snapshot_synthesizer \<Rightarrow>
    (byte list list list \<times> snapshot_synthesizer) res" where
  "ss_run [] n ss = Inr ([], ss)"
| "ss_run ((now, us) # rounds) n ss =
     bindE (ss_round now (ss\<lparr>ss_updates := fold lfq_push (number_updates n us) (ss_updates ss)\<rparr>)) (\<lambda>(sent, ss1).
     bindE (ss_run rounds (n + word_of_nat (length us)) ss1) (\<lambda>(rest, ss2). Inr (sent # rest, ss2)))"

text \<open>When the last snapshot before a round was: one is due when the last is more than a minute ago.\<close>

fun last_snapshot :: "Nanos \<Rightarrow> Nanos list \<Rightarrow> Nanos" where
  "last_snapshot t [] = t"
| "last_snapshot t (now # ts) = last_snapshot (if now - t > 60 * 1000000000 then now else t) ts"

text \<open>The cycle for the orders \<open>M\<close> as of update \<open>n\<close>, as bytes.\<close>

definition cycle_bytes :: "64 word \<Rightarrow> snap \<Rightarrow> byte list" where
  "cycle_bytes n M = concat (map encode_mdp_update (number_updates 0 (snapshot_updates n M)))"

lemma ss_frame [simp]:
  "ss_orders (ss\<lparr>ss_socket := k\<rparr>) = ss_orders ss" "ss_orders (ss\<lparr>last_snapshot_time := t\<rparr>) = ss_orders ss"
  "ss_orders (ss\<lparr>ss_updates := q\<rparr>) = ss_orders ss"
  "ss_ok (ss\<lparr>ss_socket := k\<rparr>) = ss_ok ss" "ss_ok (ss\<lparr>last_snapshot_time := t\<rparr>) = ss_ok ss" "ss_ok (ss\<lparr>ss_updates := q\<rparr>) = ss_ok ss"
  by (simp_all add: ss_ok_def ss_places_def ss_orders_def fun_eq_iff)

lemma ss_round_ok:
  assumes ss: "ss_ok ss" "outbound (ss_socket ss) = []" "lfq_inv (ss_updates ss)" "lfq_list (ss_updates ss) = []"
    and us: "length us \<le> length (store (ss_updates ss))" "snap_updates_ok us (ss_orders ss)"
  shows "\<exists>sent ss'. ss_round now (ss\<lparr>ss_updates := fold lfq_push (number_updates (last_inc_seq_num ss + 1) us) (ss_updates ss)\<rparr>) =
      Inr (sent, ss') \<and>
    ss_ok ss' \<and> outbound (ss_socket ss') = [] \<and> lfq_inv (ss_updates ss') \<and> lfq_list (ss_updates ss') = [] \<and>
    length (store (ss_updates ss')) = length (store (ss_updates ss)) \<and> ss_orders ss' = fold snap_spec us (ss_orders ss) \<and>
    last_inc_seq_num ss' = last_inc_seq_num ss + word_of_nat (length us) \<and>
    last_snapshot_time ss' = last_snapshot (last_snapshot_time ss) [now] \<and>
    concat sent = (if now - last_snapshot_time ss > 60 * 1000000000
      then cycle_bytes (last_inc_seq_num ss + word_of_nat (length us)) (fold snap_spec us (ss_orders ss)) else [])"
proof -
  let ?nu = "number_updates (last_inc_seq_num ss + 1) us" and ?M = "fold snap_spec us (ss_orders ss)"
  let ?q = "fold lfq_push ?nu (ss_updates ss)"
  define s0 where "s0 = ss\<lparr>ss_updates := ?q\<rparr>"
  have st: "length (store (fold lfq_push vs q)) = length (store q)" for vs and q :: "'a lf_queue"
    by (induction vs arbitrary: q) simp_all
  have e: "num_elements (ss_updates ss) = 0" using arg_cong [OF ss(4), of length] by simp
  have q: "lfq_inv ?q" "lfq_list ?q = ?nu"
    using lfq.push_all [of "ss_updates ss" ?nu] ss(3,4) us(1) e by (simp_all add: lfq_room_def)
  have s0: "ss_ok s0" "ss_orders s0 = ss_orders ss" "ss_updates s0 = ?q" "last_inc_seq_num s0 = last_inc_seq_num ss"
    "ss_socket s0 = ss_socket ss" "last_snapshot_time s0 = last_snapshot_time ss"
    using ss(1) by (simp_all add: s0_def)
  have "length [0..<lfq_size ?q] = length us" using arg_cong [OF q(2), of length] by (simp add: lfq_size_def)
  from ss_steps_ok [OF s0(1) _ _ _ this] q us(2) obtain ss1 where
    s1: "foldE (\<lambda>_. ss_step) [0..<lfq_size ?q] s0 = Inr ss1" "ss_ok ss1" "lfq_inv (ss_updates ss1)" "lfq_list (ss_updates ss1) = []"
      "ss_orders ss1 = ?M" "last_inc_seq_num ss1 = last_inc_seq_num ss + word_of_nat (length us)" "ss_socket ss1 = ss_socket ss"
      "last_snapshot_time ss1 = last_snapshot_time ss" "length (store (ss_updates ss1)) = length (store (ss_updates ss))"
    by (auto simp: s0 st)
  show ?thesis
  proof (cases "now - last_snapshot_time ss > 60 * 1000000000")
    case False
    then have "ss_round now s0 = Inr ([], ss1)" using s1(8) by (simp add: ss_round_def s0(3) s1(1))
    then show ?thesis using False s1 ss(2) unfolding s0_def by (intro exI [of _ "[]"] exI [of _ ss1]) simp
  next
    case True
    define ss2 where "ss2 = ss1\<lparr>last_snapshot_time := now\<rparr>"
    have s2: "ss_ok ss2" "ss_orders ss2 = ?M" "last_inc_seq_num ss2 = last_inc_seq_num ss + word_of_nat (length us)"
      "outbound (ss_socket ss2) = []" using s1 ss(2) by (simp_all add: ss2_def)
    from publishSnapshot_ok [OF s2(4)] obtain sent ss' where p: "publishSnapshot ss2 = Inr (sent, ss')" "outbound (ss_socket ss') = []"
      "concat sent = cycle_bytes (last_inc_seq_num ss2) (ss_orders ss2)" "ss' = ss2\<lparr>ss_socket := ss_socket ss'\<rparr>"
      unfolding cycle_bytes_def by blast
    have "ss_round now s0 = Inr (sent, ss')"
      using True s1(8) by (simp add: ss_round_def s0(3) s1(1) p(1) flip: ss2_def)
    moreover have "ss_ok ss' \<and> ss_orders ss' = ?M \<and> last_inc_seq_num ss' = last_inc_seq_num ss + word_of_nat (length us) \<and>
        ss_updates ss' = ss_updates ss1 \<and> last_snapshot_time ss' = now"
      using s2(1-3) by (subst (1 2 3 4 5) p(4)) (simp add: ss2_def)
    ultimately show ?thesis using True p(2,3) s1(3,4,9) s2(2,3) unfolding s0_def
      by (intro exI [of _ sent] exI [of _ ss']) simp
  qed
qed

lemma ss_run_ok:
  assumes "ss_ok ss" "outbound (ss_socket ss) = []" "lfq_inv (ss_updates ss)" "lfq_list (ss_updates ss) = []"
    and "\<forall>(now, us) \<in> set rounds. length us \<le> length (store (ss_updates ss))"
    and "snap_updates_ok (concat (map snd rounds)) (ss_orders ss)"
  shows "\<exists>sents ss'. ss_run rounds (last_inc_seq_num ss + 1) ss = Inr (sents, ss') \<and> length sents = length rounds \<and>
    ss_orders ss' = fold snap_spec (concat (map snd rounds)) (ss_orders ss) \<and>
    (\<forall>i<length rounds. concat (sents ! i) =
      (if fst (rounds ! i) - last_snapshot (last_snapshot_time ss) (map fst (take i rounds)) > 60 * 1000000000
       then cycle_bytes (last_inc_seq_num ss + word_of_nat (length (concat (map snd (take (Suc i) rounds)))))
              (fold snap_spec (concat (map snd (take (Suc i) rounds))) (ss_orders ss))
       else []))"
  using assms
proof (induction rounds arbitrary: ss)
  case Nil
  then show ?case by simp
next
  case (Cons x rounds)
  obtain now us where x: "x = (now, us)" by (cases x)
  have ok: "snap_updates_ok us (ss_orders ss)" "snap_updates_ok (concat (map snd rounds)) (fold snap_spec us (ss_orders ss))"
  proof -
    have app: "snap_updates_ok (xs @ ys) M \<longleftrightarrow> snap_updates_ok xs M \<and> snap_updates_ok ys (fold snap_spec xs M)" for xs ys M
      by (induction xs arbitrary: M) simp_all
    show "snap_updates_ok us (ss_orders ss)" "snap_updates_ok (concat (map snd rounds)) (fold snap_spec us (ss_orders ss))"
      using Cons.prems(6) x by (simp_all add: app)
  qed
  have "length us \<le> length (store (ss_updates ss))" using Cons.prems(5) x by simp
  from ss_round_ok [OF Cons.prems(1-4) this ok(1), of now] obtain sent ss1 where
    r: "ss_round now (ss\<lparr>ss_updates := fold lfq_push (number_updates (last_inc_seq_num ss + 1) us) (ss_updates ss)\<rparr>) = Inr (sent, ss1)"
    and s1: "ss_ok ss1" "outbound (ss_socket ss1) = []" "lfq_inv (ss_updates ss1)" "lfq_list (ss_updates ss1) = []"
      "length (store (ss_updates ss1)) = length (store (ss_updates ss))" "ss_orders ss1 = fold snap_spec us (ss_orders ss)"
      "last_inc_seq_num ss1 = last_inc_seq_num ss + word_of_nat (length us)"
      "last_snapshot_time ss1 = last_snapshot (last_snapshot_time ss) [now]"
    and sent: "concat sent = (if now - last_snapshot_time ss > 60 * 1000000000
      then cycle_bytes (last_inc_seq_num ss + word_of_nat (length us)) (fold snap_spec us (ss_orders ss)) else [])"
    by blast
  from Cons.IH [OF s1(1-4)] Cons.prems(5) ok(2) s1(5,6) obtain sents ss' where
    IH: "ss_run rounds (last_inc_seq_num ss1 + 1) ss1 = Inr (sents, ss')" "length sents = length rounds"
      "ss_orders ss' = fold snap_spec (concat (map snd rounds)) (ss_orders ss1)"
      "\<forall>i<length rounds. concat (sents ! i) =
      (if fst (rounds ! i) - last_snapshot (last_snapshot_time ss1) (map fst (take i rounds)) > 60 * 1000000000
       then cycle_bytes (last_inc_seq_num ss1 + word_of_nat (length (concat (map snd (take (Suc i) rounds)))))
              (fold snap_spec (concat (map snd (take (Suc i) rounds))) (ss_orders ss1))
       else [])"
    by (auto simp: x)
  have run: "ss_run (x # rounds) (last_inc_seq_num ss + 1) ss = Inr (sent # sents, ss')"
  proof -
    have e: "last_inc_seq_num ss + 1 + word_of_nat (length us) = last_inc_seq_num ss1 + 1" using s1(7) by (simp add: ac_simps)
    show ?thesis unfolding x ss_run.simps r bindE_Inr prod.case e IH(1) ..
  qed
  have "concat ((sent # sents) ! i) =
      (if fst ((x # rounds) ! i) - last_snapshot (last_snapshot_time ss) (map fst (take i (x # rounds))) > 60 * 1000000000
       then cycle_bytes (last_inc_seq_num ss + word_of_nat (length (concat (map snd (take (Suc i) (x # rounds))))))
              (fold snap_spec (concat (map snd (take (Suc i) (x # rounds)))) (ss_orders ss))
       else [])" if i: "i < length (x # rounds)" for i
  proof (cases i)
    case 0
    then show ?thesis using sent by (simp add: x)
  next
    case (Suc j)
    then show ?thesis using IH(4) i s1(6-8) by (simp add: x ac_simps)
  qed
  with run IH(2,3) s1(6) show ?case by (simp add: x)
qed

text \<open>
  C28. A snapshot is the state of the book, through the whole run of the synthesizer. It is started new, with an empty queue,
  and given before every round any number of updates that its queue holds, numbered on from 1 and together well formed
  (\<open>snap_updates_ok\<close>: order ids and instruments in range, an ADD only of an order that is not there, MODIFY and CANCEL
  only of one that is, on its side, and the pool not exhausted). It completes all rounds. A round sends something exactly when
  the last snapshot, at first time 0, is more than 60 seconds ago, and then one cycle: it starts and ends with the number of
  the last update taken, and has for every instrument a CLEAR and each order that was added and not cancelled by any update
  so far, with the price and quantity last given to it.
\<close>

theorem snapshot_is_the_state:
  assumes "lfq_inv q" and "lfq_list q = []" and "\<forall>(now, us) \<in> set rounds. length us \<le> length (store q)"
    and "snap_updates_ok (concat (map snd rounds)) (\<lambda>_ _. None)"
  shows "\<exists>sents ss'. ss_run rounds 1 (snapshot_synthesizer_new q) = Inr (sents, ss') \<and> length sents = length rounds \<and>
    ss_orders ss' = fold snap_spec (concat (map snd rounds)) (\<lambda>_ _. None) \<and>
    (\<forall>i<length rounds. concat (sents ! i) =
      (if fst (rounds ! i) - last_snapshot 0 (map fst (take i rounds)) > 60 * 1000000000
       then cycle_bytes (word_of_nat (length (concat (map snd (take (Suc i) rounds)))))
              (fold snap_spec (concat (map snd (take (Suc i) rounds))) (\<lambda>_ _. None))
       else []))"
proof -
  let ?s = "snapshot_synthesizer_new q"
  have new: "ss_updates ?s = q" "last_inc_seq_num ?s = 0" "outbound (ss_socket ?s) = []" "last_snapshot_time ?s = 0"
    by (simp_all add: snapshot_synthesizer_new_def socket_buffers_new_def)
  have none: "ss_orders ?s = (\<lambda>_ _. None)" by (simp add: ss_ok_new)
  have "\<exists>sents ss'. ss_run rounds (last_inc_seq_num ?s + 1) ?s = Inr (sents, ss') \<and> length sents = length rounds \<and>
    ss_orders ss' = fold snap_spec (concat (map snd rounds)) (ss_orders ?s) \<and>
    (\<forall>i<length rounds. concat (sents ! i) =
      (if fst (rounds ! i) - last_snapshot (last_snapshot_time ?s) (map fst (take i rounds)) > 60 * 1000000000
       then cycle_bytes (last_inc_seq_num ?s + word_of_nat (length (concat (map snd (take (Suc i) rounds)))))
              (fold snap_spec (concat (map snd (take (Suc i) rounds))) (ss_orders ?s))
       else []))"
    by (rule ss_run_ok) (use assms in \<open>simp_all add: new none ss_ok_new(1)\<close>)
  then show ?thesis by (simp only: new none add_0_left)
qed

definition demo_snapshot :: "MEMarketUpdate list" where
  "demo_snapshot =
     [\<lparr>mu_type = ADD, mu_order_id = 1, mu_ticker_id = 0, mu_side = BUY, mu_price = 100, mu_qty = 5, mu_priority = 1\<rparr>,
      \<lparr>mu_type = ADD, mu_order_id = 2, mu_ticker_id = 1, mu_side = SELL, mu_price = 101, mu_qty = 7, mu_priority = 1\<rparr>,
      \<lparr>mu_type = MODIFY, mu_order_id = 2, mu_ticker_id = 1, mu_side = SELL, mu_price = 101, mu_qty = 3, mu_priority = 1\<rparr>,
      \<lparr>mu_type = CANCEL, mu_order_id = 1, mu_ticker_id = 0, mu_side = BUY, mu_price = 100, mu_qty = 5, mu_priority = 1\<rparr>]"

theorem publisher_numbers_updates_witness:
  "\<exists>sent p'. mp_round (md_publisher_new (fold lfq_push demo_snapshot (lfq_new 8 MEMarketUpdate_default))) = Inr (sent, p') \<and>
     length sent = 168 \<and> length (lfq_list (mp_snapshot_queue p')) = 4 \<and> next_inc_seq_num p' = 5"
proof -
  let ?q = "fold lfq_push demo_snapshot (lfq_new 8 MEMarketUpdate_default)"
  let ?p = "md_publisher_new ?q"
  have r: "lfq_room (lfq_new 8 MEMarketUpdate_default) = 8" by (simp add: lfq_room_def lfq_new_def)
  have q: "lfq_inv ?q" "lfq_list ?q = demo_snapshot"
    using lfq.push_all [of "lfq_new 8 MEMarketUpdate_default" demo_snapshot] by (simp_all add: r demo_snapshot_def)
  have p: "mp_updates ?p = ?q" "next_inc_seq_num ?p = 1" "outbound (mp_socket ?p) = []" "lfq_inv (mp_snapshot_queue ?p)"
    "lfq_list (mp_snapshot_queue ?p) = []" "lfq_room (mp_snapshot_queue ?p) = ME_MAX_MARKET_UPDATES"
    by (simp_all add: md_publisher_new_def socket_buffers_new_def lfq_room_def ME_MAX_MARKET_UPDATES_def)
      (simp add: lfq_new_def)
  from publisher_numbers_updates [of ?p demo_snapshot] p q obtain sent p' where
    "mp_round ?p = Inr (sent, p')" "sent = concat (map encode_mdp_update (number_updates 1 demo_snapshot))"
    "lfq_list (mp_snapshot_queue p') = number_updates 1 demo_snapshot" "next_inc_seq_num p' = 1 + word_of_nat (length demo_snapshot)"
    by (auto simp: demo_snapshot_def McastBufferSize_def ME_MAX_MARKET_UPDATES_def)
  then show ?thesis
    by (intro exI [of _ sent] exI [of _ p']) (simp add: demo_snapshot_def encode_mdp_update_def encode_update_def)
qed

definition demo_rounds_snapshot :: "(Nanos \<times> MEMarketUpdate list) list" where
  "demo_rounds_snapshot = [(5, take 2 demo_snapshot), (60000000001, drop 2 demo_snapshot)]"

text \<open>Two rounds: the first, too early for a snapshot, takes two updates, the second the others and sends a cycle.\<close>

theorem snapshot_is_the_state_witness:
  "\<exists>sents ss'. ss_run demo_rounds_snapshot 1
       (snapshot_synthesizer_new (lfq_new 8 \<lparr>mdp_seq_num = 0, me_market_update = MEMarketUpdate_default\<rparr>)) = Inr (sents, ss') \<and>
     concat (sents ! 0) = [] \<and> concat (sents ! 1) = cycle_bytes 4 (ss_orders ss') \<and>
     ss_orders ss' 0 1 = None \<and> map_option mu_qty (ss_orders ss' 1 2) = Some 3"
proof -
  let ?q = "lfq_new 8 \<lparr>mdp_seq_num = 0, me_market_update = MEMarketUpdate_default\<rparr>"
  let ?rounds = demo_rounds_snapshot and ?M = "fold snap_spec demo_snapshot (\<lambda>_ _. None)"
  have c: "card {(t, i). \<exists>y. (if t = (0::nat) then [Suc 0 \<mapsto> x] else (\<lambda>_. None)) i = Some y} < 1048575" for x :: MEMarketUpdate
    by (rule le_less_trans [OF card_mono [of "{(0, Suc 0)}"]]) (auto split: if_splits)
  have ok: "snap_updates_ok demo_snapshot (\<lambda>_ _. None)"
    using c by (simp add: demo_snapshot_def snap_update_ok_def snap_spec_def ME_MAX_TICKERS_def ME_MAX_ORDER_IDS_def)
  have M: "?M 0 1 = None" "map_option mu_qty (?M 1 2) = Some 3" by (simp_all add: demo_snapshot_def snap_spec_def)
  have all: "concat (map snd ?rounds) = demo_snapshot" by (simp add: demo_rounds_snapshot_def)
  have "length (store ?q) = 8" by (simp add: lfq_new_def)
  then have r: "\<forall>(now, us) \<in> set ?rounds. length us \<le> length (store ?q)" by (simp add: demo_snapshot_def demo_rounds_snapshot_def)
  have "length demo_snapshot = 4" by (simp add: demo_snapshot_def)
  from snapshot_is_the_state [OF _ _ r, unfolded all, OF _ _ ok] obtain sents ss' where
    s: "ss_run ?rounds 1 (snapshot_synthesizer_new ?q) = Inr (sents, ss')" "ss_orders ss' = ?M"
    and i: "\<And>i. i < length ?rounds \<Longrightarrow> concat (sents ! i) =
      (if fst (?rounds ! i) - last_snapshot 0 (map fst (take i ?rounds)) > 60 * 1000000000
       then cycle_bytes (word_of_nat (length (concat (map snd (take (Suc i) ?rounds)))))
              (fold snap_spec (concat (map snd (take (Suc i) ?rounds))) (\<lambda>_ _. None))
       else [])" by auto
  have "concat (sents ! 0) = []" using i [of 0] by (simp add: demo_rounds_snapshot_def)
  moreover have "concat (sents ! 1) = cycle_bytes 4 ?M"
    using i [of 1] all \<open>length demo_snapshot = 4\<close> by (simp add: demo_rounds_snapshot_def)
  ultimately show ?thesis using s(1,2) M by (intro exI [of _ sents] exI [of _ ss']) simp
qed

end
