(* ===== verification/LateJoiner.thy ===== *)
theory LateJoiner
  imports MarketClear SnapshotStream
begin

text \<open>
  The whole market data path for a client that joins late: the exchange's updates go to the snapshot synthesizer, the
  client starts from a snapshot cycle and follows the updates behind it. The updates of one instrument's book keep
  \<open>follows\<close> between the orders of the snapshot, in the order it publishes them, and the book.
\<close>

subsection \<open>A side is rebuilt from its orders by age\<close>

definition built :: "Side \<Rightarrow> MarketOrder list \<Rightarrow> MarketOrder list" where
  "built s xs = fold (queue_insert s o_price) (filter (\<lambda>x. o_side x = s) xs) []"

definition by_price :: "Side \<Rightarrow> MarketOrder list \<Rightarrow> bool" where
  "by_price s = sorted_wrt (\<lambda>x y. \<not> ahead s (o_price y) (o_price x))"

lemma ahead_le: "ahead s p r \<Longrightarrow> \<not> ahead s q r \<Longrightarrow> ahead s p q" and ahead_asym: "ahead s p q \<Longrightarrow> \<not> ahead s q p"
  by (auto simp: ahead_def split: if_splits)

lemma by_price_Cons: "by_price s (x # xs) \<longleftrightarrow> (\<forall>y \<in> set xs. \<not> ahead s (o_price y) (o_price x)) \<and> by_price s xs"
  by (simp add: by_price_def)

lemma by_price_parts:
  assumes "by_price s xs" and "y \<in> set (dropWhile (\<lambda>y. \<not> ahead s p (o_price y)) xs)"
  shows "ahead s p (o_price y)"
  using assms
proof (induction xs)
  case Nil
  then show ?case by simp
next
  case (Cons x xs)
  show ?case
  proof (cases "ahead s p (o_price x)")
    case True
    then have "y = x \<or> y \<in> set xs" using Cons.prems(2) by simp
    then show ?thesis using True ahead_le [OF True] Cons.prems(1) by (auto simp only: by_price_Cons)
  next
    case False
    then show ?thesis using Cons by (simp add: by_price_Cons)
  qed
qed

lemma sorted_wrt_insert:
  "sorted_wrt R (xs @ ys) \<Longrightarrow> (\<And>y. y \<in> set xs \<Longrightarrow> R y x) \<Longrightarrow> (\<And>y. y \<in> set ys \<Longrightarrow> R x y) \<Longrightarrow> sorted_wrt R (xs @ x # ys)"
  by (auto simp: sorted_wrt_append)

lemma by_price_insert:
  assumes xs: "by_price s xs"
  shows "by_price s (queue_insert s o_price x xs)"
proof -
  let ?a = "takeWhile (\<lambda>y. \<not> ahead s (o_price x) (o_price y)) xs" and ?b = "dropWhile (\<lambda>y. \<not> ahead s (o_price x) (o_price y)) xs"
  have ab: "by_price s (?a @ ?b)" using xs by simp
  have a: "\<not> ahead s (o_price x) (o_price y)" if "y \<in> set ?a" for y using set_takeWhileD [OF that] by simp
  have b: "\<not> ahead s (o_price y) (o_price x)" if "y \<in> set ?b" for y
    by (rule ahead_asym) (rule by_price_parts [OF xs that])
  show ?thesis unfolding queue_insert_def by_price_def
    by (rule sorted_wrt_insert) (use ab a b in \<open>auto simp only: by_price_def\<close>)
qed

lemma filter_queue_insert:
  assumes "by_price s xs"
  shows "filter P (queue_insert s o_price x xs) = (if P x then queue_insert s o_price x (filter P xs) else filter P xs)"
proof -
  let ?Q = "\<lambda>y. \<not> ahead s (o_price x) (o_price y)"
  have a: "\<forall>y \<in> set (filter P (takeWhile ?Q xs)). \<not> ahead s (o_price x) (o_price y)" by (auto dest: set_takeWhileD)
  have b: "\<forall>y \<in> set (filter P (dropWhile ?Q xs)). ahead s (o_price x) (o_price y)"
  proof
    fix y
    assume "y \<in> set (filter P (dropWhile ?Q xs))"
    then have "y \<in> set (dropWhile ?Q xs)" by (simp only: set_filter mem_Collect_eq)
    then show "ahead s (o_price x) (o_price y)" by (rule by_price_parts [OF assms])
  qed
  have "filter P xs = filter P (takeWhile ?Q xs) @ filter P (dropWhile ?Q xs)" by (simp flip: filter_append)
  then show ?thesis using queue_insert_split [where key = o_price, OF a b] by (simp add: queue_insert_def)
qed

lemma built_snoc: "built s (xs @ [x]) = (if o_side x = s then queue_insert s o_price x (built s xs) else built s xs)"
  by (simp add: built_def)

lemma by_price_built: "by_price s (built s xs)"
proof (induction xs rule: rev_induct)
  case Nil
  then show ?case by (simp add: built_def by_price_def)
next
  case (snoc x xs)
  then show ?case by (simp add: built_snoc by_price_insert)
qed

lemma filter_built: "filter P (built s xs) = built s (filter P xs)"
proof (induction xs rule: rev_induct)
  case Nil
  then show ?case by (simp add: built_def)
next
  case (snoc x xs)
  then show ?case by (simp add: built_snoc filter_queue_insert [OF by_price_built])
qed

lemma map_built:
  assumes "\<And>x. o_side (f x) = o_side x" and "\<And>x. o_price (f x) = o_price x"
  shows "map f (built s xs) = built s (map f xs)"
proof (induction xs rule: rev_induct)
  case Nil
  then show ?case by (simp add: built_def)
next
  case (snoc x xs)
  then show ?case by (simp add: built_snoc assms map_queue_insert [where key' = o_price])
qed

lemma set_built [simp]: "set (built s xs) = {x \<in> set xs. o_side x = s}"
proof (induction xs rule: rev_induct)
  case Nil
  then show ?case by (simp add: built_def)
next
  case (snoc x xs)
  then show ?case by (auto simp: built_snoc)
qed

lemma length_built: "length (built s xs) = length (filter (\<lambda>x. o_side x = s) xs)"
proof (induction xs rule: rev_induct)
  case Nil
  then show ?case by (simp add: built_def)
next
  case (snoc x xs)
  then show ?case by (simp add: built_snoc length_queue_insert)
qed

subsection \<open>The orders of a snapshot\<close>

lemma map_filter_Cons: "List.map_filter m (x # xs) = (case m x of None \<Rightarrow> List.map_filter m xs | Some y \<Rightarrow> y # List.map_filter m xs)"
  and map_filter_Nil: "List.map_filter m [] = []"
  by (simp_all add: List.map_filter_def split: option.splits)

definition old_orders :: "MEMarketUpdate list \<Rightarrow> MarketOrder list" where
  "old_orders us = map new_market_order us"

text \<open>The orders of one instrument in a snapshot, oldest first: what they have to be for a book to be built from them.\<close>

definition orders_ok :: "Price \<Rightarrow> MEMarketUpdate list \<Rightarrow> bool" where
  "orders_ok base us \<longleftrightarrow> sorted_wrt (<) (map mu_order_id us) \<and> length us < ME_MAX_ORDER_IDS \<and>
     (\<forall>u \<in> set us. mu_type u = ADD \<and> trading_side (mu_side u) \<and> unat (mu_order_id u) < ME_MAX_ORDER_IDS \<and>
        base \<le> mu_price u \<and> mu_price u < base + int ME_MAX_PRICE_LEVELS) \<and>
     (\<forall>u \<in> set us. \<forall>v \<in> set us. mu_side u \<noteq> mu_side v \<longrightarrow> mu_price u \<noteq> mu_price v)"

definition follows :: "Price \<Rightarrow> nat \<Rightarrow> snap \<Rightarrow> mkt_view \<Rightarrow> bool" where
  "follows base t M V \<longleftrightarrow> (\<forall>s. trading_side s \<longrightarrow> V s = built s (old_orders (orders_in t M))) \<and> orders_ok base (orders_in t M) \<and>
     (\<forall>i u. M t i = Some u \<longrightarrow> unat (mu_order_id u) = i \<and> i < ME_MAX_ORDER_IDS \<and> unat (mu_ticker_id u) = t) \<and>
     (\<forall>t'. t' \<noteq> t \<longrightarrow> M t' = (\<lambda>_. None))"

lemma new_market_order_simps [simp]:
  "o_side (new_market_order u) = mu_side u" "o_price (new_market_order u) = mu_price u" "m_order_id (new_market_order u) = mu_order_id u"
  "new_market_order (u\<lparr>mu_qty := q, mu_price := mu_price u\<rparr>) = (new_market_order u)\<lparr>o_qty := q\<rparr>"
  by (simp_all add: new_market_order_def)

lemma set_orders_in: "set (orders_in t M) = {u. \<exists>i < ME_MAX_ORDER_IDS. M t i = Some u}"
  by (force simp: orders_in_def List.map_filter_def)

lemma map_filter_upt_add:
  assumes "i < n" and "\<And>j. i < j \<Longrightarrow> j < n \<Longrightarrow> m j = None" and "m i = None"
  shows "List.map_filter (m(i := Some x)) [0..<n] = List.map_filter m [0..<n] @ [x]"
proof -
  have s: "[0..<n] = [0..<i] @ i # [Suc i..<n]" using assms(1) upt_add_eq_append [of 0 i "n - i"] upt_conv_Cons [of i n] by simp
  have a: "List.map_filter (m(i := Some x)) [0..<i] = List.map_filter m [0..<i]"
    unfolding List.map_filter_def by (intro arg_cong2 [where f = map] map_cong filter_cong) auto
  have b: "List.map_filter m' [Suc i..<n] = []" if "\<And>j. i < j \<Longrightarrow> j < n \<Longrightarrow> m' j = None" for m' :: "nat \<Rightarrow> 'a option"
    using that by (auto simp: List.map_filter_def filter_empty_conv)
  have "List.map_filter (m(i := Some x)) [Suc i..<n] = []" by (rule b) (simp add: assms(2))
  moreover have "List.map_filter m [Suc i..<n] = []" by (rule b) (simp add: assms(2))
  ultimately show ?thesis using a assms(3) unfolding s by (simp add: List.map_filter_def)
qed

lemma map_filter_upd:
  assumes "\<And>j u. j \<in> set is \<Longrightarrow> m j = Some u \<Longrightarrow> (K u = k) = (j = i)"
  shows "List.map_filter (m(i := map_option f (m i))) is = map (\<lambda>u. if K u = k then f u else u) (List.map_filter m is)"
    and "List.map_filter (m(i := None)) is = filter (\<lambda>u. K u \<noteq> k) (List.map_filter m is)"
  using assms by (induction "is") (auto simp: map_filter_Cons map_filter_Nil split: option.splits)

subsection \<open>The synthesizer follows the book\<close>

lemma followsD:
  assumes "follows base t M V"
  shows "trading_side s \<Longrightarrow> V s = built s (old_orders (orders_in t M))" and "orders_ok base (orders_in t M)"
    and "M t i = Some u \<Longrightarrow> unat (mu_order_id u) = i \<and> i < ME_MAX_ORDER_IDS \<and> unat (mu_ticker_id u) = t"
    and "t' \<noteq> t \<Longrightarrow> M t' = (\<lambda>_. None)"
    and "u \<in> set (orders_in t M) \<longleftrightarrow> M t (unat (mu_order_id u)) = Some u"
proof -
  show "trading_side s \<Longrightarrow> V s = built s (old_orders (orders_in t M))" "orders_ok base (orders_in t M)"
    "t' \<noteq> t \<Longrightarrow> M t' = (\<lambda>_. None)"
    using assms by (simp_all add: follows_def)
  have d: "M t i = Some u \<Longrightarrow> unat (mu_order_id u) = i \<and> i < ME_MAX_ORDER_IDS \<and> unat (mu_ticker_id u) = t" for i u
    using assms unfolding follows_def by blast
  then show "M t i = Some u \<Longrightarrow> unat (mu_order_id u) = i \<and> i < ME_MAX_ORDER_IDS \<and> unat (mu_ticker_id u) = t" by blast
  show "u \<in> set (orders_in t M) \<longleftrightarrow> M t (unat (mu_order_id u)) = Some u" using d by (auto simp: set_orders_in)
qed

lemma follows_view:
  assumes "follows base t M V"
  shows "trading_side s \<Longrightarrow> x \<in> set (V s) \<longleftrightarrow> (\<exists>u. M t (unat (mu_order_id u)) = Some u \<and> mu_side u = s \<and> x = new_market_order u)"
    and "mview_size V = length (orders_in t M)"
    and "i \<in> mview_ids V \<longleftrightarrow> M t (unat i) \<noteq> None"
proof -
  let ?L = "orders_in t M"
  have v: "x \<in> set (V s) \<longleftrightarrow> (\<exists>u. M t (unat (mu_order_id u)) = Some u \<and> mu_side u = s \<and> x = new_market_order u)"
    if s: "trading_side s" for x s
    using followsD(1) [OF assms s] followsD(5) [OF assms] by (auto simp: old_orders_def)
  then show "trading_side s \<Longrightarrow> x \<in> set (V s) \<longleftrightarrow> (\<exists>u. M t (unat (mu_order_id u)) = Some u \<and> mu_side u = s \<and> x = new_market_order u)" .
  have sd: "mu_side u = BUY \<or> mu_side u = SELL" if "u \<in> set ?L" for u
    using followsD(2) [OF assms] that by (auto simp: orders_ok_def trading_side_def)
  have "mview_size V = length (filter (\<lambda>x. o_side x = BUY) (old_orders ?L)) + length (filter (\<lambda>x. o_side x = SELL) (old_orders ?L))"
    using followsD(1) [OF assms, of BUY] followsD(1) [OF assms, of SELL] by (simp add: mview_size_def length_built)
  also have "filter (\<lambda>x. o_side x = SELL) (old_orders ?L) = filter (\<lambda>x. o_side x \<noteq> BUY) (old_orders ?L)"
    using sd by (intro filter_cong) (force simp: old_orders_def)+
  finally show "mview_size V = length ?L" using sum_length_filter_compl [of "\<lambda>x. o_side x = BUY" "old_orders ?L"] by (simp add: old_orders_def)
  show "i \<in> mview_ids V \<longleftrightarrow> M t (unat i) \<noteq> None"
  proof
    assume "i \<in> mview_ids V"
    then obtain x where "m_order_id x = i" "x \<in> set (V BUY) \<or> x \<in> set (V SELL)" by (auto simp: mview_ids_def)
    then show "M t (unat i) \<noteq> None" using v [of BUY x] v [of SELL x] by auto
  next
    assume "M t (unat i) \<noteq> None"
    then obtain u where u: "M t (unat i) = Some u" by blast
    with followsD(3) [OF assms u] have i: "mu_order_id u = i" by (simp add: word_unat_eq_iff)
    with u have "u \<in> set ?L" using followsD(5) [OF assms] by simp
    from sd [OF this] have "new_market_order u \<in> set (V BUY) \<union> set (V SELL)" using u i v [of BUY] v [of SELL] by auto
    then show "i \<in> mview_ids V" using i unfolding mview_ids_def by (auto intro!: image_eqI [where x = "new_market_order u"])
  qed
qed

lemma follows_accepted:
  assumes f: "follows base t M V" and up: "update_ok base u V" and tr: "truthful u V" and t: "unat (mu_ticker_id u) = t" "t < ME_MAX_TICKERS"
  shows "snap_update_ok u M"
proof -
  have "{(t', i). M t' i \<noteq> None} \<subseteq> (\<lambda>u. (t, unat (mu_order_id u))) ` set (orders_in t M)"
  proof clarify
    fix t' i u
    assume "M t' i = Some u"
    moreover then have "t' = t" using followsD(4) [OF f, of t'] by (cases "t' = t") simp_all
    ultimately show "(t', i) \<in> (\<lambda>u. (t, unat (mu_order_id u))) ` set (orders_in t M)"
      using followsD(3) [OF f, of i u] followsD(5) [OF f, of u] by (auto intro!: image_eqI [where x = u])
  qed
  then have c: "card {(t, i). M t i \<noteq> None} \<le> length (orders_in t M)"
    by (meson card_mono card_image_le card_length finite_imageI finite_set le_trans)
  have add: "unat (mu_order_id u) < ME_MAX_ORDER_IDS" "M t (unat (mu_order_id u)) = None" "card {(t, i). M t i \<noteq> None} + 1 < ME_MAX_ORDER_IDS"
    if "mu_type u = ADD"
  proof -
    show "unat (mu_order_id u) < ME_MAX_ORDER_IDS" "M t (unat (mu_order_id u)) = None"
      using up that follows_view(3) [OF f] by (simp_all add: update_ok_def)
    have "length (orders_in t M) + 1 < ME_MAX_ORDER_IDS" using up that follows_view(2) [OF f] by (simp add: update_ok_def)
    then show "card {(t, i). M t i \<noteq> None} + 1 < ME_MAX_ORDER_IDS" using c by linarith
  qed
  have "\<exists>x. M t (unat (mu_order_id u)) = Some x \<and> mu_side x = mu_side u" if "mu_type u = MODIFY \<or> mu_type u = CANCEL"
    using tr that follows_view(1) [OF f, of "mu_side u"] by (auto simp: truthful_def consistent_def)
  with add show ?thesis using t unfolding snap_update_ok_def by blast
qed

lemma follows_add:
  assumes f: "follows base t M V" and up: "update_ok base u V" and tr: "truthful u V" and t: "unat (mu_ticker_id u) = t"
    and ty: "mu_type u = ADD"
  shows "follows base t (snap_spec u M) (mkt_spec u V)"
proof -
  let ?L = "orders_in t M" and ?i = "unat (mu_order_id u)" and ?M = "snap_spec u M"
  note ok = followsD(2) [OF f]
  have s: "trading_side (mu_side u)" "?i < ME_MAX_ORDER_IDS" "length ?L + 1 < ME_MAX_ORDER_IDS"
    "\<forall>x \<in> set (V (opp (mu_side u))). o_price x \<noteq> mu_price u" "base \<le> mu_price u" "mu_price u < base + int ME_MAX_PRICE_LEVELS"
    "mu_order_id u \<notin> mview_ids V"
    using up ty follows_view(2) [OF f] by (simp_all add: update_ok_def)
  have old: "mu_order_id v < mu_order_id u" if "v \<in> set ?L" for v
  proof -
    have "mu_side v = BUY \<or> mu_side v = SELL" using ok that by (auto simp: orders_ok_def trading_side_def)
    then have "new_market_order v \<in> set (V BUY @ V SELL)"
      using that followsD(5) [OF f] follows_view(1) [OF f, of BUY] follows_view(1) [OF f, of SELL] by auto
    then have "m_order_id (new_market_order v) < mu_order_id u" using tr ty unfolding truthful_def newest_def by blast
    then show ?thesis by simp
  qed
  have none: "M t ?i = None" "\<And>j. ?i < j \<Longrightarrow> M t j = None"
  proof -
    show "M t ?i = None" using s(7) follows_view(3) [OF f] by simp
    show "M t j = None" if j: "?i < j" for j
    proof (rule ccontr)
      assume "M t j \<noteq> None"
      then obtain v where v: "M t j = Some v" by blast
      with followsD(3) [OF f v] followsD(5) [OF f, of v] old [of v] j show False by (simp add: word_less_nat_alt)
    qed
  qed
  have M: "?M t = (M t)(?i := Some u)" "\<And>t'. t' \<noteq> t \<Longrightarrow> ?M t' = M t'" using t ty by (simp_all add: snap_spec_def Let_def)
  have L: "orders_in t ?M = ?L @ [u]"
    unfolding orders_in_def M(1) by (rule map_filter_upt_add) (use s(2) none in simp_all)
  have "orders_ok base (?L @ [u])"
  proof -
    have apart: "mu_price v \<noteq> mu_price u" if "v \<in> set ?L" "mu_side v \<noteq> mu_side u" for v
    proof -
      have "trading_side (mu_side v)" using ok that by (simp add: orders_ok_def)
      then have "mu_side v = opp (mu_side u)" using s(1) that(2) by (auto simp: trading_side_def)
      then have "new_market_order v \<in> set (V (opp (mu_side u)))"
        using that(1) followsD(5) [OF f] follows_view(1) [OF f, of "mu_side v"] \<open>trading_side (mu_side v)\<close> by auto
      then show ?thesis using s(4) by force
    qed
    have "\<forall>v \<in> set (?L @ [u]). \<forall>w \<in> set (?L @ [u]). mu_side v \<noteq> mu_side w \<longrightarrow> mu_price v \<noteq> mu_price w"
    proof -
      have "\<forall>v \<in> set ?L. \<forall>w \<in> set ?L. mu_side v \<noteq> mu_side w \<longrightarrow> mu_price v \<noteq> mu_price w"
        using ok by (simp add: orders_ok_def)
      then show ?thesis using apart by (metis Un_iff empty_iff insert_iff list.set(1,2) set_append)
    qed
    moreover have "sorted_wrt (<) (map mu_order_id (?L @ [u]))" using ok old by (simp add: orders_ok_def sorted_wrt_append)
    ultimately show ?thesis using ok s(1-3,5,6) ty by (simp add: orders_ok_def)
  qed
  moreover have "mkt_spec u V r = built r (old_orders (?L @ [u]))" if "trading_side r" for r
    using followsD(1) [OF f that] ty by (simp add: mkt_spec_def old_orders_def built_snoc)
  moreover have "\<forall>i v. ?M t i = Some v \<longrightarrow> unat (mu_order_id v) = i \<and> i < ME_MAX_ORDER_IDS \<and> unat (mu_ticker_id v) = t"
    using followsD(3) [OF f] s(2) t by (auto simp: M(1))
  ultimately show ?thesis using M(2) followsD(4) [OF f] by (simp add: follows_def L)
qed

lemma truthful_order:
  assumes f: "follows base t M V" and tr: "truthful u V" and ty: "mu_type u = MODIFY \<or> mu_type u = CANCEL"
  obtains v where "M t (unat (mu_order_id u)) = Some v" "mu_order_id v = mu_order_id u" "mu_price v = mu_price u"
  using tr ty follows_view(1) [OF f, of "mu_side u"] by (auto simp: truthful_def consistent_def)

lemma orders_ok_map:
  assumes "\<forall>v \<in> set us. mu_order_id (h v) = mu_order_id v \<and> mu_side (h v) = mu_side v \<and> mu_type (h v) = mu_type v \<and> mu_price (h v) = mu_price v"
  shows "orders_ok base (map h us) = orders_ok base us"
proof -
  have e: "map (mu_order_id \<circ> h) us = map mu_order_id us" using assms by simp
  show ?thesis unfolding orders_ok_def map_map e
    using assms by (simp cong: ball_cong)
qed

lemma follows_modify:
  assumes f: "follows base t M V" and tr: "truthful u V" and t: "unat (mu_ticker_id u) = t" and ty: "mu_type u = MODIFY"
  shows "follows base t (snap_spec u M) (mkt_spec u V)"
proof -
  let ?L = "orders_in t M" and ?i = "unat (mu_order_id u)" and ?M = "snap_spec u M"
  let ?f = "\<lambda>x. x\<lparr>mu_qty := mu_qty u, mu_price := mu_price u\<rparr>"
  let ?g = "\<lambda>x. if m_order_id x = mu_order_id u then x\<lparr>o_qty := mu_qty u\<rparr> else x"
  let ?h = "\<lambda>v. if mu_order_id v = mu_order_id u then ?f v else v"
  from truthful_order [OF f tr] ty obtain w where w: "M t ?i = Some w" "mu_price w = mu_price u" by blast
  have M: "?M t = (M t)(?i := map_option ?f (M t ?i))" "\<And>t'. t' \<noteq> t \<Longrightarrow> ?M t' = M t'" using t ty by (simp_all add: snap_spec_def Let_def)
  have key: "(mu_order_id v = mu_order_id u) = (j = ?i)" if "M t j = Some v" for j v
    using followsD(3) [OF f that] by (auto simp: word_unat_eq_iff)
  have L: "orders_in t ?M = map ?h ?L"
    unfolding orders_in_def M(1) by (rule map_filter_upd(1)) (use key in blast)
  have price: "mu_price v = mu_price u" if "v \<in> set ?L" "mu_order_id v = mu_order_id u" for v
    using that w followsD(5) [OF f, of v] by simp
  have same: "mu_order_id (?h v) = mu_order_id v" "mu_side (?h v) = mu_side v" "mu_type (?h v) = mu_type v"
    "v \<in> set ?L \<Longrightarrow> mu_price (?h v) = mu_price v" for v
    using price [of v] by simp_all
  have "orders_ok base (map ?h ?L)" using orders_ok_map [of ?L ?h base] same followsD(2) [OF f] by blast
  moreover have "mkt_spec u V r = built r (old_orders (map ?h ?L))" if "trading_side r" for r
  proof -
    have "mkt_spec u V r = map ?g (built r (old_orders ?L))" using followsD(1) [OF f that] ty by (simp add: mkt_spec_def)
    also have "\<dots> = built r (map ?g (old_orders ?L))" by (rule map_built) simp_all
    also have "map ?g (old_orders ?L) = old_orders (map ?h ?L)"
      using price by (simp add: old_orders_def) (auto simp: new_market_order_def)
    finally show ?thesis .
  qed
  moreover have "\<forall>i v. ?M t i = Some v \<longrightarrow> unat (mu_order_id v) = i \<and> i < ME_MAX_ORDER_IDS \<and> unat (mu_ticker_id v) = t"
    using followsD(3) [OF f] w(1) by (auto simp: M(1))
  ultimately show ?thesis using M(2) followsD(4) [OF f] by (simp add: follows_def L)
qed

lemma follows_cancel:
  assumes f: "follows base t M V" and tr: "truthful u V" and t: "unat (mu_ticker_id u) = t" and ty: "mu_type u = CANCEL"
  shows "follows base t (snap_spec u M) (mkt_spec u V)"
proof -
  let ?L = "orders_in t M" and ?i = "unat (mu_order_id u)" and ?M = "snap_spec u M"
  let ?P = "\<lambda>v. mu_order_id v \<noteq> mu_order_id u"
  have M: "?M t = (M t)(?i := None)" "\<And>t'. t' \<noteq> t \<Longrightarrow> ?M t' = M t'" using t ty by (simp_all add: snap_spec_def Let_def)
  have key: "(mu_order_id v = mu_order_id u) = (j = ?i)" if "M t j = Some v" for j v
    using followsD(3) [OF f that] by (auto simp: word_unat_eq_iff)
  have L: "orders_in t ?M = filter ?P ?L"
    unfolding orders_in_def M(1) by (rule map_filter_upd(2)) (use key in blast)
  have "length (filter ?P ?L) < ME_MAX_ORDER_IDS"
    using followsD(2) [OF f] length_filter_le [of ?P ?L] unfolding orders_ok_def by linarith
  moreover have "sorted_wrt (<) (map mu_order_id (filter ?P ?L))"
    using followsD(2) [OF f] by (simp add: orders_ok_def sorted_wrt_map sorted_wrt_filter)
  ultimately have "orders_ok base (filter ?P ?L)" using followsD(2) [OF f] by (auto simp: orders_ok_def)
  moreover have "mkt_spec u V r = built r (old_orders (filter ?P ?L))" if "trading_side r" for r
    using followsD(1) [OF f that] ty by (simp add: mkt_spec_def filter_built old_orders_def filter_map comp_def)
  moreover have "\<forall>i v. ?M t i = Some v \<longrightarrow> unat (mu_order_id v) = i \<and> i < ME_MAX_ORDER_IDS \<and> unat (mu_ticker_id v) = t"
    using followsD(3) [OF f] by (auto simp: M(1))
  ultimately show ?thesis using M(2) followsD(4) [OF f] by (simp add: follows_def L)
qed

lemma follows_step:
  assumes "follows base t M V" and "update_ok base u V" and "truthful u V" and "unat (mu_ticker_id u) = t"
  shows "follows base t (snap_spec u M) (mkt_spec u V)"
proof -
  have "mu_type u = TRADE \<Longrightarrow> snap_spec u M = M \<and> mkt_spec u V = V" by (simp add: snap_spec_def mkt_spec_def)
  then show ?thesis
    using assms follows_add [OF assms] follows_modify [OF assms(1,3,4)] follows_cancel [OF assms(1,3,4)]
    by (auto simp: truthful_def)
qed

lemma follows_run:
  assumes "follows base t M V" and "updates_ok base us V" and "\<forall>u \<in> set us. unat (mu_ticker_id u) = t" and "t < ME_MAX_TICKERS"
  shows "follows base t (fold snap_spec us M) (fold mkt_spec us V) \<and> snap_updates_ok us M"
  using assms
proof (induction us arbitrary: M V)
  case Nil
  then show ?case by simp
next
  case (Cons u us)
  then show ?case using follows_step [of base t M V u] follows_accepted [of base t M V u] by simp
qed

lemma follows_start: "follows base t (\<lambda>_ _. None) (\<lambda>_. [])"
  by (simp add: follows_def orders_in_def List.map_filter_def old_orders_def built_def orders_ok_def ME_MAX_ORDER_IDS_def)

subsection \<open>The client's side\<close>

text \<open>The orders of a snapshot are accepted by an empty book, and build the sides.\<close>

lemma two_sides: "length (filter (\<lambda>x. o_side x = BUY) xs) + length (filter (\<lambda>x. o_side x = SELL) xs) \<le> length xs"
  by (induction xs) auto

lemma orders_build:
  assumes "orders_ok base us"
  shows "updates_ok base us (\<lambda>_. []) \<and> (\<forall>s. trading_side s \<longrightarrow> fold mkt_spec us (\<lambda>_. []) s = built s (old_orders us))"
  using assms
proof (induction us rule: rev_induct)
  case Nil
  then show ?case by (simp add: old_orders_def built_def)
next
  case (snoc u us)
  let ?V = "fold mkt_spec us (\<lambda>_. [])"
  have ok: "orders_ok base us" using snoc.prems by (simp add: orders_ok_def sorted_wrt_append)
  from snoc.IH [OF this] have ih: "updates_ok base us (\<lambda>_. [])" "\<And>s. trading_side s \<Longrightarrow> ?V s = built s (old_orders us)" by simp_all
  have u: "mu_type u = ADD" "trading_side (mu_side u)" "unat (mu_order_id u) < ME_MAX_ORDER_IDS" "base \<le> mu_price u"
    "mu_price u < base + int ME_MAX_PRICE_LEVELS" "length us + 1 < ME_MAX_ORDER_IDS"
    using snoc.prems by (simp_all add: orders_ok_def)
  have older: "mu_order_id v < mu_order_id u" if "v \<in> set us" for v
    using snoc.prems that by (auto simp: orders_ok_def sorted_wrt_append)
  have apart: "mu_price v \<noteq> mu_price u" if "v \<in> set us" "mu_side v \<noteq> mu_side u" for v
    using snoc.prems that unfolding orders_ok_def by (metis Un_iff list.set_intros(1) set_append)
  have view: "x \<in> set (?V s) \<Longrightarrow> trading_side s \<Longrightarrow> \<exists>v \<in> set us. mu_side v = s \<and> x = new_market_order v" for x s
    using ih(2) [of s] by (auto simp: old_orders_def)
  have lt: "m_order_id x < mu_order_id u" if "x \<in> set (?V BUY @ ?V SELL)" for x
    using that view [of x BUY] view [of x SELL] older by auto
  have new: "truthful u ?V" "mu_order_id u \<notin> mview_ids ?V"
  proof -
    show "truthful u ?V" using u(1) lt by (auto simp: truthful_def newest_def consistent_def)
    show "mu_order_id u \<notin> mview_ids ?V"
    proof
      assume "mu_order_id u \<in> mview_ids ?V"
      then obtain x where "x \<in> set (?V BUY @ ?V SELL)" "m_order_id x = mu_order_id u"
        unfolding mview_ids_def by (metis (no_types) imageE)
      with lt show False by (metis less_irrefl)
    qed
  qed
  have "mview_size ?V \<le> length us"
    using ih(2) [of BUY] ih(2) [of SELL] two_sides [of "old_orders us"] by (simp add: mview_size_def length_built old_orders_def)
  then have "mview_size ?V + 1 < ME_MAX_ORDER_IDS" using u(6) by linarith
  moreover have "o_price x \<noteq> mu_price u" if "x \<in> set (?V (opp (mu_side u)))" for x
    using view [OF that] apart u(2) by (auto simp: trading_side_def)
  ultimately have "update_ok base u ?V" using u new(2) by (simp add: update_ok_def)
  moreover have "mkt_spec u ?V s = built s (old_orders (us @ [u]))" if "trading_side s" for s
    using ih(2) [OF that] u(1) by (simp add: mkt_spec_def old_orders_def built_snoc)
  ultimately show ?case using ih(1) new(1) by (simp add: updates_ok_append)
qed

lemma feed_clear_fresh: "is_clear u \<Longrightarrow> feed u (fresh_market_book t p) = Inr (fresh_market_book t p)"
proof -
  assume u: "is_clear u"
  let ?b = "fresh_market_book t p"
  have b: "oid_to_order ?b = (\<lambda>_. None)" "bids_by_price ?b = None" "asks_by_price ?b = None"
    by (simp_all add: fresh_market_book_def mkt_book_new_def)
  have "foldE (\<lambda>i b. case oid_to_order b (word_of_nat i) of None \<Rightarrow> Inr b
       | Some p \<Rightarrow> bindE (deallocate p (order_pool b)) (\<lambda>pool. Inr (b\<lparr>order_pool := pool\<rparr>))) is ?b = Inr ?b" for "is" :: "nat list"
    by (induction "is") (simp_all add: b)
  then have "clear_orders ?b = Inr ?b" by (simp add: clear_orders_def)
  moreover have "?b\<lparr>oid_to_order := (\<lambda>_. None)\<rparr> = ?b" "?b\<lparr>bids_by_price := None, asks_by_price := None\<rparr> = ?b"
    by (simp_all add: fresh_market_book_def mkt_book_new_def)
  ultimately have "clear_book ?b = Inr ?b" by (simp add: clear_book_def Let_def b clear_side_def)
  then show ?thesis using u by (simp add: feed_def onMarketUpdate_def is_clear_def apply_update_def bid_updated_def ask_updated_def
      b updateBBO_def)
qed

definition demo_numbered :: MDPMarketUpdate where
  "demo_numbered = \<lparr>mdp_seq_num = 0, me_market_update = MEMarketUpdate_default\<rparr>"

text \<open>What a snapshot cycle says of the instrument.\<close>

lemma concat_only: "i < n \<Longrightarrow> concat (map (\<lambda>j. if j = i then xs else []) [0..<n]) = xs"
proof -
  have none: "concat (map (\<lambda>j. if j = i then xs else []) js) = []" if "i \<notin> set js" for js :: "nat list"
    using that by (induction js) auto
  assume "i < n"
  then have e: "[0..<n] = [0..<i] @ i # [Suc i..<n]" using upt_add_eq_append [of 0 i "n - i"] upt_conv_Cons [of i n] by simp
  have a: "concat (map (\<lambda>j. if j = i then xs else []) [0..<i]) = []" "concat (map (\<lambda>j. if j = i then xs else []) [Suc i..<n]) = []"
    by (rule none, simp)+
  show ?thesis unfolding e map_append concat_append list.map concat.simps a by simp
qed

lemma mark_ticker: "unat ticker < ME_MAX_TICKERS \<Longrightarrow> mu_ticker_id (snapshot_mark ty n) \<noteq> ticker"
  by (auto simp: snapshot_mark_def MEMarketUpdate_default_def TickerId_INVALID_def ME_MAX_TICKERS_def unsigned_minus_1_eq_mask mask_eq_exp_minus_1)

lemma instrument_part:
  assumes f: "follows base (unat ticker) M V" and t: "unat ticker < ME_MAX_TICKERS"
  shows "filter (\<lambda>u. mu_ticker_id u = ticker) (snapshot_updates n M) = snapshot_clear (unat ticker) # orders_in (unat ticker) M"
proof -
  let ?P = "\<lambda>u. mu_ticker_id u = ticker" and ?t = "unat ticker"
  let ?part = "snapshot_clear ?t # orders_in ?t M"
  have one: "filter ?P (snapshot_clear j # orders_in j M) = (if j = ?t then ?part else [])" if j: "j < ME_MAX_TICKERS" for j
  proof (cases "j = ?t")
    case True
    have "filter ?P (orders_in ?t M) = orders_in ?t M"
      using followsD(3,5) [OF f] by (auto simp: filter_id_conv word_unat_eq_iff)
    then show ?thesis using True by (simp add: snapshot_clear_def)
  next
    case False
    have "word_of_nat j \<noteq> ticker" using False j by (auto simp: ME_MAX_TICKERS_def unat_of_nat)
    then show ?thesis using False followsD(4) [OF f False] by (simp add: snapshot_clear_def orders_in_def List.map_filter_def)
  qed
  have "filter ?P (concat (map (\<lambda>j. snapshot_clear j # orders_in j M) [0..<ME_MAX_TICKERS])) =
      concat (map (\<lambda>j. if j = ?t then ?part else []) [0..<ME_MAX_TICKERS])"
    unfolding filter_concat map_map comp_def by (intro arg_cong [where f = concat] map_cong refl one) simp
  also have "\<dots> = ?part" using t by (rule concat_only)
  finally show ?thesis unfolding snapshot_updates_def using mark_ticker [OF t] by simp
qed

lemma updates_ok_types: "updates_ok base us V \<Longrightarrow> \<forall>u \<in> set us. mu_type u \<in> {ADD, MODIFY, CANCEL, TRADE}"
  by (induction us arbitrary: V) (auto simp: truthful_def)

lemma late_joiner_parts:
  assumes rs: "\<forall>r \<in> set rs. request_ok ticker base r" "length rs < ME_MAX_ORDER_IDS" "distinct (new_ids rs)"
    and t: "unat ticker < ME_MAX_TICKERS"
    and run: "foldE book_request rs (fresh_book ticker base) = Inr b" "updates_of (outbox b) = pre @ post"
  shows "snap_updates_ok pre (\<lambda>_ _. None)" and "\<forall>u \<in> set (pre @ post). mu_ticker_id u = ticker \<and> mu_type u \<in> {ADD, MODIFY, CANCEL, TRADE}"
    and "orders_ok base (orders_in (unat ticker) (fold snap_spec pre (\<lambda>_ _. None)))"
    and "follows base (unat ticker) (fold snap_spec pre (\<lambda>_ _. None)) (fold mkt_spec pre (\<lambda>_. []))"
    and "\<exists>S m T. me_inv b S \<and>
        foldE feed (filter (\<lambda>u. mu_ticker_id u = ticker) (snapshot_updates n (fold snap_spec pre (\<lambda>_ _. None))) @ post) (fresh_market_book ticker base) = Inr m \<and>
        mk_struct m T \<and> mview m T BUY = map to_market (view b S BUY) \<and> mview m T SELL = map to_market (view b S SELL)"
proof -
  let ?f = "fresh_book ticker base" and ?m = "fresh_market_book ticker base" and ?t = "unat ticker"
  let ?M = "fold snap_spec pre (\<lambda>_ _. None)" and ?V = "fold mkt_spec pre (\<lambda>_. [])"
  let ?L = "orders_in ?t ?M"
  obtain S where b: "me_inv b S" "\<And>s. trading_side s \<Longrightarrow> fold mkt_spec (pre @ post) (\<lambda>_. []) s = map to_market (view b S s)"
    using session_updates(3) [OF rs run(1)] run(2) by auto
  have u: "updates_ok base (pre @ post) (\<lambda>_. [])" and tk: "\<forall>u \<in> set (pre @ post). mu_ticker_id u = ticker"
    using session_updates(1,2) [OF rs run(1)] run(2) by simp_all
  with updates_ok_types [of base "pre @ post"]
  show "\<forall>u \<in> set (pre @ post). mu_ticker_id u = ticker \<and> mu_type u \<in> {ADD, MODIFY, CANCEL, TRADE}" by blast
  from follows_run [OF follows_start _ _ t, of base pre] u tk
  show fo: "snap_updates_ok pre (\<lambda>_ _. None)" "follows base ?t ?M ?V" by (simp_all add: updates_ok_append)
  show "orders_ok base ?L" by (rule followsD(2) [OF fo(2)])
  from orders_build [OF this] have L: "updates_ok base ?L (\<lambda>_. [])" "\<And>s. trading_side s \<Longrightarrow> fold mkt_spec ?L (\<lambda>_. []) s = ?V s"
    using followsD(1) [OF fo(2)] by auto
  note cong = updates_ok_cong [where V = ?V and W = "fold mkt_spec ?L (\<lambda>_. [])" and us = post and base = base]
  have "updates_ok base (?L @ post) (\<lambda>_. [])" using L cong u by (simp add: updates_ok_append)
  then obtain m T where m: "foldE feed (?L @ post) ?m = Inr m" "mk_struct m T"
    "mview m T BUY = fold mkt_spec (?L @ post) (\<lambda>_. []) BUY" "mview m T SELL = fold mkt_spec (?L @ post) (\<lambda>_. []) SELL"
    using feed_ok [of ?m "\<lambda>_. []" "?L @ post"] by (auto simp: mview_empty)
  have "is_clear (snapshot_clear ?t)" by (simp add: is_clear_def snapshot_clear_def MEMarketUpdate_default_def)
  then have "foldE feed (filter (\<lambda>u. mu_ticker_id u = ticker) (snapshot_updates n ?M) @ post) ?m = Inr m"
    using m(1) by (simp add: instrument_part [OF fo(2) t] feed_clear_fresh)
  moreover have "mview m T s = map to_market (view b S s)" if "s = BUY \<or> s = SELL" for s
    using that m(3,4) cong L(2) b(2) [of s] by auto
  ultimately show "\<exists>S m T. me_inv b S \<and> foldE feed (filter (\<lambda>u. mu_ticker_id u = ticker) (snapshot_updates n ?M) @ post) ?m = Inr m \<and>
      mk_struct m T \<and> mview m T BUY = map to_market (view b S BUY) \<and> mview m T SELL = map to_market (view b S SELL)"
    using b(1) m(2) by blast
qed

text \<open>
  C15. A client that joins late, or recovers, sees the same book: run any well-formed sequence of requests on the exchange's
  book of an instrument and cut its updates anywhere. The snapshot synthesizer takes the first part without stopping and
  publishes a cycle; a client with an empty book that is given the instrument's messages of that cycle and after them
  the rest of the updates ends with exactly the exchange's resting orders on both sides, in the same order.
\<close>

theorem late_joiner_mirrors:
  assumes rs: "\<forall>r \<in> set rs. request_ok ticker base r" "length rs < ME_MAX_ORDER_IDS" "distinct (new_ids rs)"
    and t: "unat ticker < ME_MAX_TICKERS"
    and run: "foldE book_request rs (fresh_book ticker base) = Inr b" "updates_of (outbox b) = pre @ post"
  shows "\<exists>ss sent ss' cycle. foldE addToSnapshot (number_updates 1 pre) (snapshot_synthesizer_new q) = Inr ss \<and>
     publishSnapshot ss = Inr (sent, ss') \<and> concat sent = concat (map encode_mdp_update (number_updates 0 cycle)) \<and>
     (\<exists>S m T. me_inv b S \<and> foldE feed (filter (\<lambda>u. mu_ticker_id u = ticker) cycle @ post) (fresh_market_book ticker base) = Inr m \<and>
        mk_struct m T \<and> mview m T BUY = map to_market (view b S BUY) \<and> mview m T SELL = map to_market (view b S SELL))"
proof -
  note parts = late_joiner_parts [OF rs t run]
  from snapshot_of_updates [OF parts(1), of q] obtain ss sent ss' where
    "foldE addToSnapshot (number_updates 1 pre) (snapshot_synthesizer_new q) = Inr ss" "publishSnapshot ss = Inr (sent, ss')"
    "concat sent = concat (map encode_mdp_update (number_updates 0 (snapshot_updates (word_of_nat (length pre)) (fold snap_spec pre (\<lambda>_ _. None)))))"
    by blast
  then show ?thesis using parts(5) by blast
qed

theorem late_joiner_mirrors_witness:
  "\<exists>b ss sent ss' cycle m. foldE book_request demo_requests (fresh_book 0 0) = Inr b \<and> length (updates_of (outbox b)) = 4 \<and>
     foldE addToSnapshot (number_updates 1 (take 2 (updates_of (outbox b)))) (snapshot_synthesizer_new (lfq_new 8 demo_numbered)) = Inr ss \<and>
     publishSnapshot ss = Inr (sent, ss') \<and> concat sent = concat (map encode_mdp_update (number_updates 0 cycle)) \<and>
     foldE feed (filter (\<lambda>u. mu_ticker_id u = 0) cycle @ drop 2 (updates_of (outbox b))) (fresh_market_book 0 0) = Inr m"
proof -
  obtain b where b: "foldE book_request demo_requests (fresh_book 0 0) = Inr b" "length (updates_of (outbox b)) = 4"
    using demo_session by blast
  have cut: "updates_of (outbox b) = take 2 (updates_of (outbox b)) @ drop 2 (updates_of (outbox b))" by simp
  have "unat (0 :: TickerId) < ME_MAX_TICKERS" by (simp add: ME_MAX_TICKERS_def)
  from late_joiner_mirrors [OF demo_requests_ok this b(1) cut, of "lfq_new 8 demo_numbered"] b show ?thesis by auto
qed

end
