(* ===== verification/MarketDataConsumer.thy ===== *)
theory MarketDataConsumer
  imports MarketData
begin

text \<open>
  \<open>trading/market_data/market_data_consumer.cpp\<close>: the client's end of the two market data streams. It passes the
  incremental updates on while their numbers are consecutive; after a gap it joins the snapshot stream, queues what
  arrives on both and tries after each message whether it has a complete snapshot and every update since.

  \<^item> A \<open>std::map\<close> is the list of its entries in the order of the keys. Whether creating and joining the snapshot socket
    works is the argument \<open>joins\<close>.
  \<^item> \<open>mc_replay_step\<close> is the other mode, in which the updates come from a queue.
\<close>

type_synonym queued = "(64 word \<times> MEMarketUpdate) list"

fun queued_put :: "64 word \<Rightarrow> MEMarketUpdate \<Rightarrow> queued \<Rightarrow> queued" where
  "queued_put k u [] = [(k, u)]"
| "queued_put k u ((j, v) # xs) = (if k < j then (k, u) # (j, v) # xs else if k = j then (k, u) # xs else (j, v) # queued_put k u xs)"

record md_consumer =
  next_exp_inc_seq_num :: "64 word"
  mc_updates :: "MEMarketUpdate lf_queue"
  in_recovery :: bool
  snapshot_joined :: bool
  snapshot_queued_msgs :: queued
  incremental_queued_msgs :: queued

definition md_consumer_new :: "MEMarketUpdate lf_queue \<Rightarrow> md_consumer" where
  "md_consumer_new market_updates = \<lparr>next_exp_inc_seq_num = 1, mc_updates = market_updates, in_recovery = False,
     snapshot_joined = False, snapshot_queued_msgs = [], incremental_queued_msgs = []\<rparr>"

definition startSnapshotSync :: "bool \<Rightarrow> md_consumer \<Rightarrow> md_consumer res" where
  "startSnapshotSync joins c =
     (let c1 = c\<lparr>snapshot_queued_msgs := [], incremental_queued_msgs := []\<rparr> in
      bindE (assertE joins) (\<lambda>_. Inr (c1\<lparr>snapshot_joined := True\<rparr>)))"

definition final_event :: "MEMarketUpdate \<Rightarrow> bool" where
  "final_event u \<longleftrightarrow> mu_type u \<noteq> SNAPSHOT_START \<and> mu_type u \<noteq> SNAPSHOT_END"

text \<open>The loop over the queued snapshot messages: whether there is no gap, and the events collected.\<close>

fun snapshot_scan :: "64 word \<Rightarrow> queued \<Rightarrow> MEMarketUpdate list \<Rightarrow> bool \<times> MEMarketUpdate list" where
  "snapshot_scan next_snapshot_seq [] final_events = (True, final_events)"
| "snapshot_scan next_snapshot_seq ((k, u) # ms) final_events =
     (if k \<noteq> next_snapshot_seq then (False, final_events)
      else snapshot_scan (next_snapshot_seq + 1) ms (if final_event u then final_events @ [u] else final_events))"

text \<open>The loop over the queued incrementals, those the snapshot covers skipped.\<close>

fun incremental_scan :: "64 word \<Rightarrow> queued \<Rightarrow> MEMarketUpdate list \<Rightarrow> bool \<times> 64 word \<times> MEMarketUpdate list" where
  "incremental_scan next_exp [] final_events = (True, next_exp, final_events)"
| "incremental_scan next_exp ((k, u) # ms) final_events =
     (if k < next_exp then incremental_scan next_exp ms final_events
      else if k \<noteq> next_exp then (False, next_exp, final_events)
      else incremental_scan (next_exp + 1) ms (if final_event u then final_events @ [u] else final_events))"

definition checkSnapshotSync :: "md_consumer \<Rightarrow> md_consumer" where
  "checkSnapshotSync c =
     (if snapshot_queued_msgs c = [] then c
      else if mu_type (snd (hd (snapshot_queued_msgs c))) \<noteq> SNAPSHOT_START then c\<lparr>snapshot_queued_msgs := []\<rparr>
      else case snapshot_scan 0 (snapshot_queued_msgs c) [] of (have_complete_snapshot, events) \<Rightarrow>
        if \<not> have_complete_snapshot then c\<lparr>snapshot_queued_msgs := []\<rparr>
        else let last_snapshot_msg = snd (last (snapshot_queued_msgs c)) in
          if mu_type last_snapshot_msg \<noteq> SNAPSHOT_END then c
          else case incremental_scan (mu_order_id last_snapshot_msg + 1) (incremental_queued_msgs c) events of
            (have_complete_incremental, next_exp, final_events) \<Rightarrow>
              let c1 = c\<lparr>next_exp_inc_seq_num := next_exp\<rparr> in
              if \<not> have_complete_incremental then c1\<lparr>snapshot_queued_msgs := []\<rparr>
              else c1\<lparr>mc_updates := fold lfq_push final_events (mc_updates c1), snapshot_queued_msgs := [],
                      incremental_queued_msgs := [], in_recovery := False, snapshot_joined := False\<rparr>)"

definition queueMessage :: "bool \<Rightarrow> MDPMarketUpdate \<Rightarrow> md_consumer \<Rightarrow> md_consumer" where
  "queueMessage is_snapshot request c =
     (let k = mdp_seq_num request; u = me_market_update request in
      checkSnapshotSync
        (if is_snapshot
         then let q = (if k \<in> fst ` set (snapshot_queued_msgs c) then [] else snapshot_queued_msgs c)
              in c\<lparr>snapshot_queued_msgs := queued_put k u q\<rparr>
         else c\<lparr>incremental_queued_msgs := queued_put k u (incremental_queued_msgs c)\<rparr>))"

text \<open>One turn of the loop in \<open>recvCallback\<close>.\<close>

definition mc_onUpdate :: "bool \<Rightarrow> bool \<Rightarrow> MDPMarketUpdate \<Rightarrow> md_consumer \<Rightarrow> md_consumer res" where
  "mc_onUpdate joins is_snapshot request c =
     (let already_in_recovery = in_recovery c;
          c1 = c\<lparr>in_recovery := already_in_recovery \<or> mdp_seq_num request \<noteq> next_exp_inc_seq_num c\<rparr> in
      if in_recovery c1
      then bindE (if \<not> already_in_recovery then startSnapshotSync joins c1 else Inr c1) (\<lambda>c2.
           Inr (queueMessage is_snapshot request c2))
      else if \<not> is_snapshot
      then Inr (c1\<lparr>next_exp_inc_seq_num := next_exp_inc_seq_num c1 + 1,
                   mc_updates := lfq_push (me_market_update request) (mc_updates c1)\<rparr>)
      else Inr c1)"

definition mc_recvCallback :: "bool \<Rightarrow> bool \<Rightarrow> socket_buffers \<times> md_consumer \<Rightarrow> (socket_buffers \<times> md_consumer) res" where
  "mc_recvCallback joins is_snapshot x =
     (if is_snapshot \<and> \<not> in_recovery (snd x) then Inr ((fst x)\<lparr>inbound := []\<rparr>, snd x)
      else on_messages 42 (\<lambda>bs. mc_onUpdate joins is_snapshot (decode_mdp_update bs)) x)"

text \<open>One round of \<open>run\<close>: the two sockets with what waits at each; a socket that is not joined reads nothing.\<close>

definition mc_round ::
  "bool \<Rightarrow> byte list \<Rightarrow> byte list \<Rightarrow> socket_buffers \<times> socket_buffers \<times> md_consumer \<Rightarrow>
   (socket_buffers \<times> socket_buffers \<times> md_consumer) res" where
  "mc_round joins waiting_inc waiting_snap x =
     (case x of (inc, snap, c) \<Rightarrow>
      bindE (mcast_sendAndRecv (mc_recvCallback joins False) waiting_inc 0 (inc, c)) (\<lambda>(_, _, inc1, c1).
      bindE (mcast_sendAndRecv (mc_recvCallback joins True) (if snapshot_joined c1 then waiting_snap else []) 0 (snap, c1)) (\<lambda>(_, _, snap1, c2).
      Inr (inc1, snap1, c2))))"

subsection \<open>Replay\<close>

definition replay_waits :: "md_consumer \<Rightarrow> bool" where
  "replay_waits c \<longleftrightarrow> ME_MAX_MARKET_UPDATES * 3 div 4 \<le> lfq_size (mc_updates c)"

text \<open>The thread waits while the trade engine is behind: then it makes no step.\<close>

definition mc_replay_step :: "MDPMarketUpdate \<Rightarrow> md_consumer \<Rightarrow> md_consumer" where
  "mc_replay_step request c =
     (if replay_waits c then c
      else let gap = (in_recovery c \<or> mdp_seq_num request \<noteq> next_exp_inc_seq_num c);
               c1 = (if gap then c\<lparr>in_recovery := False, next_exp_inc_seq_num := mdp_seq_num request + 1\<rparr>
                     else c\<lparr>in_recovery := False, next_exp_inc_seq_num := next_exp_inc_seq_num c + 1\<rparr>)
           in c1\<lparr>mc_updates := lfq_push (me_market_update request) (mc_updates c1)\<rparr>)"

subsection \<open>Consecutive updates\<close>

lemma mc_onUpdate_next:
  assumes "\<not> in_recovery c" and "mdp_seq_num m = next_exp_inc_seq_num c"
  shows "mc_onUpdate joins False m c = Inr (c\<lparr>next_exp_inc_seq_num := next_exp_inc_seq_num c + 1,
     mc_updates := lfq_push (me_market_update m) (mc_updates c)\<rparr>)"
  using assms by (simp add: mc_onUpdate_def Let_def)

lemma mc_forwards:
  assumes "\<not> in_recovery c"
  shows "foldE (mc_onUpdate joins False) (number_updates (next_exp_inc_seq_num c) us) c =
    Inr (c\<lparr>next_exp_inc_seq_num := next_exp_inc_seq_num c + word_of_nat (length us), mc_updates := fold lfq_push us (mc_updates c)\<rparr>)"
  using assms
proof (induction us arbitrary: c)
  case Nil
  then show ?case by simp
next
  case (Cons u us)
  let ?c = "c\<lparr>next_exp_inc_seq_num := next_exp_inc_seq_num c + 1, mc_updates := lfq_push u (mc_updates c)\<rparr>"
  have "mc_onUpdate joins False \<lparr>mdp_seq_num = next_exp_inc_seq_num c, me_market_update = u\<rparr> c = Inr ?c"
    using mc_onUpdate_next [OF Cons.prems] by simp
  with Cons.IH [of ?c] Cons.prems show ?case by (simp add: ac_simps)
qed

subsection \<open>Recovery\<close>

definition consecutive :: "64 word \<Rightarrow> MEMarketUpdate list \<Rightarrow> queued" where
  "consecutive n us = map (\<lambda>m. (mdp_seq_num m, me_market_update m)) (number_updates n us)"

lemma consecutive_simps [simp]:
  "consecutive n [] = []" "consecutive n (u # us) = (n, u) # consecutive (n + 1) us" "consecutive n us = [] \<longleftrightarrow> us = []"
  by (simp_all add: consecutive_def) (metis length_0_conv number_updates_simps(1))

lemma hd_consecutive: "us \<noteq> [] \<Longrightarrow> snd (hd (consecutive n us)) = hd us"
  by (cases us) simp_all

lemma consecutive_append: "consecutive n (us @ vs) = consecutive n us @ consecutive (n + word_of_nat (length us)) vs"
  by (simp add: consecutive_def number_updates_append)

lemma snapshot_scan_consecutive: "snapshot_scan n (consecutive n us) evs = (True, evs @ filter final_event us)"
  by (induction us arbitrary: n evs) simp_all

lemma incremental_scan_consecutive:
  "incremental_scan n (consecutive n us) evs = (True, n + word_of_nat (length us), evs @ filter final_event us)"
  by (induction us arbitrary: n evs) (simp_all add: ac_simps)

lemma incremental_scan_covered:
  "\<forall>x \<in> set old. fst x < n \<Longrightarrow> incremental_scan n (old @ ms) evs = incremental_scan n ms evs"
  by (induction old) auto

lemma queued_put_last: "\<forall>x \<in> set q. fst x < k \<Longrightarrow> queued_put k u q = q @ [(k, u)]"
  by (induction q) auto

lemma unat_add_of_nat: "unat (n :: 64 word) + i < 2 ^ 64 \<Longrightarrow> unat (n + word_of_nat i) = unat n + i"
  by (simp add: unat_word_ariths unsigned_of_nat take_bit_nat_eq_self)

lemma consecutive_keys:
  "unat n + length us \<le> 2 ^ 64 \<Longrightarrow> x \<in> set (consecutive n us) \<Longrightarrow> unat n \<le> unat (fst x) \<and> unat (fst x) < unat n + length us"
proof (induction us arbitrary: n)
  case Nil
  then show ?case by simp
next
  case (Cons u us)
  show ?case
  proof (cases "x = (n, u)")
    case True
    then show ?thesis by simp
  next
    case False
    then have x: "x \<in> set (consecutive (n + 1) us)" using Cons.prems(2) by simp
    then have "us \<noteq> []" by auto
    then have "0 < length us" by simp
    moreover have "unat n + Suc (length us) \<le> 2 ^ 64" using Cons.prems(1) by simp
    ultimately have "unat n + 1 < 2 ^ 64" by linarith
    then have n: "unat (n + 1) = unat n + 1" using unat_add_of_nat [of n 1] by simp
    have "unat (n + 1) + length us \<le> 2 ^ 64" using Cons.prems(1) n by simp
    from Cons.IH [OF this x] n show ?thesis by simp
  qed
qed

lemma queued_put_consecutive:
  assumes "unat n + length us < 2 ^ 64"
  shows "queued_put (n + word_of_nat (length us)) u (consecutive n us) = consecutive n (us @ [u])"
    and "n + word_of_nat (length us) \<notin> fst ` set (consecutive n us)"
proof -
  have less: "\<forall>x \<in> set (consecutive n us). fst x < n + word_of_nat (length us)"
    using consecutive_keys [of n us] assms unat_add_of_nat [OF assms] by (fastforce simp: word_less_nat_alt)
  then show "queued_put (n + word_of_nat (length us)) u (consecutive n us) = consecutive n (us @ [u])"
    by (simp add: queued_put_last consecutive_append)
  show "n + word_of_nat (length us) \<notin> fst ` set (consecutive n us)" using less by fastforce
qed

definition not_end :: "MEMarketUpdate \<Rightarrow> bool" where
  "not_end u \<longleftrightarrow> mu_type u \<noteq> SNAPSHOT_END"

definition good_start :: "MEMarketUpdate list \<Rightarrow> bool" where
  "good_start us \<longleftrightarrow> us = [] \<or> mu_type (hd us) = SNAPSHOT_START"

lemma check_waits:
  assumes "snapshot_queued_msgs c = consecutive 0 us" and "good_start us" and "\<forall>u \<in> set us. not_end u"
  shows "checkSnapshotSync c = c"
proof (cases us rule: rev_cases)
  case Nil
  then show ?thesis using assms(1) by (simp add: checkSnapshotSync_def)
next
  case (snoc vs v)
  have hd: "mu_type (snd (hd (consecutive 0 us))) = SNAPSHOT_START"
    using assms(2) snoc by (simp add: good_start_def hd_consecutive)
  have "mu_type (snd (last (consecutive 0 us))) \<noteq> SNAPSHOT_END"
    using assms(3) snoc by (simp add: consecutive_append not_end_def)
  then show ?thesis using assms(1) hd snoc by (simp add: checkSnapshotSync_def snapshot_scan_consecutive Let_def)
qed

lemma mc_onUpdate_recovering:
  assumes "in_recovery c"
  shows "mc_onUpdate joins s m c = Inr (queueMessage s m c)"
proof -
  have "mc_onUpdate joins s m c = Inr (queueMessage s m (c\<lparr>in_recovery := True\<rparr>))" using assms by (simp add: mc_onUpdate_def)
  moreover have "c\<lparr>in_recovery := True\<rparr> = c" using assms by (cases c) simp
  ultimately show ?thesis by (simp only:)
qed

lemma recovery_collects:
  assumes "in_recovery c" and "snapshot_queued_msgs c = consecutive 0 us0" and "incremental_queued_msgs c = consecutive j vs0"
    and "map snd (filter fst msgs) = number_updates (word_of_nat (length us0)) us1"
    and "map snd (filter (\<lambda>x. \<not> fst x) msgs) = number_updates (j + word_of_nat (length vs0)) vs1"
    and "good_start (us0 @ us1)" and "\<forall>u \<in> set (us0 @ us1). not_end u"
    and "length (us0 @ us1) < 2 ^ 64" and "unat j + length (vs0 @ vs1) < 2 ^ 64"
  shows "foldE (\<lambda>(s, m). mc_onUpdate joins s m) msgs c = Inr (c\<lparr>snapshot_queued_msgs := consecutive 0 (us0 @ us1),
     incremental_queued_msgs := consecutive j (vs0 @ vs1)\<rparr>)"
  using assms
proof (induction msgs arbitrary: c us0 us1 vs0 vs1)
  case Nil
  then have "us1 = []" "vs1 = []" by (cases us1; simp) (cases vs1; use Nil in simp)
  then show ?case using Nil by simp
next
  case (Cons x msgs)
  obtain s m where x: "x = (s, m)" by (cases x)
  show ?case
  proof (cases s)
    case True
    then obtain u us2 where us1: "us1 = u # us2" "m = \<lparr>mdp_seq_num = word_of_nat (length us0), me_market_update = u\<rparr>"
      "map snd (filter fst msgs) = number_updates (word_of_nat (length (us0 @ [u]))) us2"
      using Cons.prems(4) x by (cases us1) (auto simp: add.commute)
    let ?c = "c\<lparr>snapshot_queued_msgs := consecutive 0 (us0 @ [u])\<rparr>"
    have put: "queued_put (word_of_nat (length us0)) u (consecutive 0 us0) = consecutive 0 (us0 @ [u])"
      "word_of_nat (length us0) \<notin> fst ` set (consecutive 0 us0)"
      using queued_put_consecutive(1) [of 0 us0 u] queued_put_consecutive(2) [of 0 us0] Cons.prems(8) by simp_all
    have "good_start (us0 @ [u])" using Cons.prems(6) us1(1) by (cases us0) (auto simp: good_start_def)
    then have "checkSnapshotSync ?c = ?c" using Cons.prems(7) us1(1) by (intro check_waits) auto
    then have "mc_onUpdate joins s m c = Inr ?c"
      using True Cons.prems(1,2) put by (simp add: mc_onUpdate_recovering queueMessage_def us1(2) Let_def)
    with Cons.IH [of ?c "us0 @ [u]" vs0 us2 vs1] Cons.prems us1 x True show ?thesis by simp
  next
    case False
    then obtain v vs2 where vs1: "vs1 = v # vs2" "m = \<lparr>mdp_seq_num = j + word_of_nat (length vs0), me_market_update = v\<rparr>"
      "map snd (filter (\<lambda>x. \<not> fst x) msgs) = number_updates (j + word_of_nat (length (vs0 @ [v]))) vs2"
      using Cons.prems(5) x by (cases vs1) (auto simp: ac_simps)
    let ?c = "c\<lparr>incremental_queued_msgs := consecutive j (vs0 @ [v])\<rparr>"
    have put: "queued_put (j + word_of_nat (length vs0)) v (consecutive j vs0) = consecutive j (vs0 @ [v])"
      using queued_put_consecutive(1) [of j vs0 v] Cons.prems(9) by simp
    have "good_start us0" using Cons.prems(6) by (cases us0) (auto simp: good_start_def)
    then have "checkSnapshotSync ?c = ?c" using Cons.prems(2,7) by (intro check_waits [of _ us0]) auto
    then have "mc_onUpdate joins s m c = Inr ?c"
      using False Cons.prems(1,3) put by (simp add: mc_onUpdate_recovering queueMessage_def vs1(2) Let_def)
    with Cons.IH [of ?c us0 "vs0 @ [v]" us1 vs2] Cons.prems vs1 x False show ?thesis by simp
  qed
qed

text \<open>The end of the snapshot: the updates it covers are skipped, the others follow it.\<close>

lemma consecutive_drop:
  assumes "i \<le> length us"
  shows "consecutive n us = consecutive n (take i us) @ consecutive (n + word_of_nat i) (drop i us)"
  using consecutive_append [of n "take i us" "drop i us"] assms by (simp add: min_absorb2)

lemma incremental_scan_drop:
  assumes "unat j \<le> unat n" and "unat n \<le> unat j + length vs" and "unat j + length vs < 2 ^ 64"
  shows "incremental_scan n (consecutive j vs) evs =
    (True, j + word_of_nat (length vs), evs @ filter final_event (drop (unat n - unat j) vs))"
proof -
  let ?i = "unat n - unat j"
  have i: "?i \<le> length vs" using assms by simp
  have "unat j + ?i < 2 ^ 64" using assms by simp
  from unat_add_of_nat [OF this] have n: "j + word_of_nat ?i = n" using assms(1) by (simp add: word_unat_eq_iff)
  have "unat j + length (take ?i vs) \<le> 2 ^ 64" using assms i by (simp add: min_absorb2)
  from consecutive_keys [OF this] have "\<forall>x \<in> set (consecutive j (take ?i vs)). fst x < n"
    using assms(1) i by (fastforce simp: word_less_nat_alt min_absorb2)
  then have "incremental_scan n (consecutive j vs) evs = incremental_scan n (consecutive n (drop ?i vs)) evs"
    using consecutive_drop [OF i, of j] n by (simp add: incremental_scan_covered)
  also have "\<dots> = (True, n + word_of_nat (length vs - ?i), evs @ filter final_event (drop ?i vs))"
    by (simp add: incremental_scan_consecutive)
  also have "n + word_of_nat (length vs - ?i) = j + word_of_nat (?i + (length vs - ?i))"
    using n by (simp only: of_nat_add add.assoc [symmetric])
  also have "?i + (length vs - ?i) = length vs" using i by simp
  finally show ?thesis .
qed

definition snapshot_cycle_of :: "64 word \<Rightarrow> MEMarketUpdate list \<Rightarrow> MEMarketUpdate list" where
  "snapshot_cycle_of n mid = snapshot_mark SNAPSHOT_START n # mid"

lemma recovery_ends:
  assumes rec: "in_recovery c" and q: "snapshot_queued_msgs c = consecutive 0 (snapshot_cycle_of n0 mid)"
    "incremental_queued_msgs c = consecutive j vs"
    and mid: "\<forall>u \<in> set mid. final_event u" "length mid + 1 < 2 ^ 64"
    and n: "unat j \<le> unat (n + 1)" "unat (n + 1) \<le> unat j + length vs" "unat j + length vs < 2 ^ 64"
  shows "mc_onUpdate joins True \<lparr>mdp_seq_num = word_of_nat (length mid + 1), me_market_update = snapshot_mark SNAPSHOT_END n\<rparr> c =
    Inr (c\<lparr>next_exp_inc_seq_num := j + word_of_nat (length vs),
      mc_updates := fold lfq_push (mid @ filter final_event (drop (unat (n + 1) - unat j) vs)) (mc_updates c),
      snapshot_queued_msgs := [], incremental_queued_msgs := [], in_recovery := False, snapshot_joined := False\<rparr>)"
proof -
  let ?us = "snapshot_cycle_of n0 mid" and ?e = "snapshot_mark SNAPSHOT_END n"
  have len: "unat (0 :: 64 word) + length ?us < 2 ^ 64" using mid(2) by (simp add: snapshot_cycle_of_def)
  have k: "word_of_nat (length ?us) = (word_of_nat (length mid + 1) :: 64 word)" by (simp add: snapshot_cycle_of_def)
  note put = queued_put_consecutive(1) [OF len, of ?e, unfolded add_0 k] queued_put_consecutive(2) [OF len, unfolded add_0 k]
  have ev: "filter final_event (?us @ [?e]) = mid"
    using mid(1) by (simp add: snapshot_cycle_of_def final_event_def snapshot_mark_def filter_id_conv)
  define q where "q = consecutive 0 (?us @ [?e])"
  have ne: "q \<noteq> []" by (simp add: q_def)
  have hd: "mu_type (snd (hd q)) = SNAPSHOT_START"
    by (simp add: q_def hd_consecutive snapshot_cycle_of_def snapshot_mark_def)
  have last: "snd (last q) = ?e" by (simp add: q_def consecutive_append)
  have marks: "mu_type ?e = SNAPSHOT_END" "mu_order_id ?e = n" by (simp_all add: snapshot_mark_def)
  have scan: "snapshot_scan 0 q [] = (True, mid)" by (simp only: q_def snapshot_scan_consecutive ev append_Nil)
  note inc = incremental_scan_drop [OF n, of mid, folded q(2)]
  let ?c = "c\<lparr>snapshot_queued_msgs := q\<rparr>"
  have sync: "checkSnapshotSync ?c = c\<lparr>next_exp_inc_seq_num := j + word_of_nat (length vs),
      mc_updates := fold lfq_push (mid @ filter final_event (drop (unat (n + 1) - unat j) vs)) (mc_updates c),
      snapshot_queued_msgs := [], incremental_queued_msgs := [], in_recovery := False, snapshot_joined := False\<rparr>"
    by (simp add: checkSnapshotSync_def ne hd last marks scan inc Let_def)
  show ?thesis unfolding sync [symmetric]
    using put by (simp add: mc_onUpdate_recovering [OF rec] queueMessage_def q(1) q_def Let_def)
qed

subsection \<open>Properties\<close>

text \<open>
  While no update is missing the consumer passes every update on, once and in order, and expects the next one.
\<close>

theorem consumer_forwards:
  assumes "\<not> in_recovery c" and "lfq_inv (mc_updates c)" and "length us \<le> lfq_room (mc_updates c)"
  shows "\<exists>c'. foldE (mc_onUpdate joins False) (number_updates (next_exp_inc_seq_num c) us) c = Inr c' \<and> \<not> in_recovery c' \<and>
    next_exp_inc_seq_num c' = next_exp_inc_seq_num c + word_of_nat (length us) \<and>
    lfq_list (mc_updates c') = lfq_list (mc_updates c) @ us"
  using mc_forwards [OF assms(1)] lfq.push_all [OF assms(2,3)] assms(1) by auto

definition demo_update :: "OrderId \<Rightarrow> MEMarketUpdate" where
  "demo_update i = \<lparr>mu_type = ADD, mu_order_id = i, mu_ticker_id = 0, mu_side = BUY, mu_price = 100, mu_qty = 5, mu_priority = 1\<rparr>"

definition demo_consumer :: md_consumer where
  "demo_consumer = md_consumer_new (lfq_new 8 MEMarketUpdate_default)"

lemma demo_consumer_simps [simp]:
  "\<not> in_recovery demo_consumer" "lfq_inv (mc_updates demo_consumer)" "lfq_room (mc_updates demo_consumer) = 8"
  "next_exp_inc_seq_num demo_consumer = 1" "lfq_list (mc_updates demo_consumer) = []"
  by (simp_all add: demo_consumer_def md_consumer_new_def lfq_room_def) (simp add: lfq_new_def)

theorem consumer_forwards_witness:
  "\<exists>c'. foldE (mc_onUpdate True False) (number_updates 1 [demo_update 1, demo_update 2]) demo_consumer = Inr c' \<and>
    lfq_list (mc_updates c') = [demo_update 1, demo_update 2]"
  using consumer_forwards [of demo_consumer "[demo_update 1, demo_update 2]" True] by auto

lemma recovery_run:
  assumes "\<not> in_recovery c" and "j \<noteq> next_exp_inc_seq_num c"
    and snap: "map snd (filter fst msgs) = number_updates 0 (snapshot_cycle_of n0 mid)"
    and inc: "map snd (filter (\<lambda>x. \<not> fst x) msgs) = number_updates (j + 1) vs"
    and mid: "\<forall>u \<in> set mid. final_event u" "length mid + 1 < 2 ^ 64"
    and n: "unat j \<le> unat (n + 1)" "unat (n + 1) \<le> unat j + length (v # vs)" "unat j + length (v # vs) < 2 ^ 64"
    and q: "lfq_inv (mc_updates c)" "length mid + length (v # vs) \<le> lfq_room (mc_updates c)"
  shows "\<exists>c'. foldE (\<lambda>(s, m). mc_onUpdate True s m) ((False, \<lparr>mdp_seq_num = j, me_market_update = v\<rparr>) # msgs @
      [(True, \<lparr>mdp_seq_num = word_of_nat (length mid + 1), me_market_update = snapshot_mark SNAPSHOT_END n\<rparr>)]) c = Inr c' \<and>
    \<not> in_recovery c' \<and> next_exp_inc_seq_num c' = j + word_of_nat (length (v # vs)) \<and>
    lfq_list (mc_updates c') = lfq_list (mc_updates c) @ mid @ filter final_event (drop (unat (n + 1) - unat j) (v # vs)) \<and>
    lfq_inv (mc_updates c') \<and> lfq_room (mc_updates c) \<le> lfq_room (mc_updates c') + (length mid + length (v # vs))"
proof -
  define c1 where "c1 = c\<lparr>in_recovery := True, snapshot_joined := True, snapshot_queued_msgs := [], incremental_queued_msgs := [(j, v)]\<rparr>"
  have first: "mc_onUpdate True False \<lparr>mdp_seq_num = j, me_market_update = v\<rparr> c = Inr c1"
    using assms(1,2) by (simp add: mc_onUpdate_def startSnapshotSync_def queueMessage_def checkSnapshotSync_def c1_def)
  define c2 where "c2 = c1\<lparr>snapshot_queued_msgs := consecutive 0 (snapshot_cycle_of n0 mid), incremental_queued_msgs := consecutive j (v # vs)\<rparr>"
  have not_end: "\<forall>u \<in> set (snapshot_cycle_of n0 mid). not_end u"
    using mid(1) by (auto simp: snapshot_cycle_of_def not_end_def final_event_def snapshot_mark_def)
  have start: "good_start (snapshot_cycle_of n0 mid)" by (simp add: good_start_def snapshot_cycle_of_def snapshot_mark_def)
  have "foldE (\<lambda>(s, m). mc_onUpdate True s m) msgs c1 = Inr c2"
    using recovery_collects [of c1 "[]" j "[v]" msgs "snapshot_cycle_of n0 mid" vs True] snap inc mid(2) n(3) not_end start
    by (simp add: c1_def c2_def snapshot_cycle_of_def)
  moreover have "mc_onUpdate True True \<lparr>mdp_seq_num = word_of_nat (length mid + 1), me_market_update = snapshot_mark SNAPSHOT_END n\<rparr> c2 =
      Inr (c2\<lparr>next_exp_inc_seq_num := j + word_of_nat (length (v # vs)),
        mc_updates := fold lfq_push (mid @ filter final_event (drop (unat (n + 1) - unat j) (v # vs))) (mc_updates c2),
        snapshot_queued_msgs := [], incremental_queued_msgs := [], in_recovery := False, snapshot_joined := False\<rparr>)" (is "_ = Inr ?c3")
    by (rule recovery_ends [OF _ _ _ mid n]) (simp_all add: c2_def c1_def)
  ultimately have run: "foldE (\<lambda>(s, m). mc_onUpdate True s m) ((False, \<lparr>mdp_seq_num = j, me_market_update = v\<rparr>) # msgs @
      [(True, \<lparr>mdp_seq_num = word_of_nat (length mid + 1), me_market_update = snapshot_mark SNAPSHOT_END n\<rparr>)]) c = Inr ?c3"
    using first by (simp add: foldE_append)
  have same: "mc_updates c2 = mc_updates c" by (simp add: c2_def c1_def)
  let ?pass = "mid @ filter final_event (drop (unat (n + 1) - unat j) (v # vs))"
  have "length (filter final_event (drop (unat (n + 1) - unat j) (v # vs))) \<le> length (v # vs)"
    by (rule order_trans [OF length_filter_le]) simp
  then have pass: "length ?pass \<le> length mid + length (v # vs)" by simp
  then have room: "length ?pass \<le> lfq_room (mc_updates c)" using q(2) by linarith
  have "lfq_room (mc_updates c) \<le> (lfq_room (mc_updates c) - length ?pass) + (length mid + length (v # vs))" using pass by linarith
  with lfq.push_all [OF q(1) room] run show ?thesis by (intro exI [of _ ?c3]) (simp add: same)
qed

text \<open>
  C17. Recovery: after a gap (the first update to arrive has not the expected number), let the updates from the gap on
  and a whole snapshot cycle arrive in any interleaving, the cycle's end last. If the snapshot reaches up to the
  updates that were queued, recovery ends with it: the trade engine gets the snapshot's messages, then exactly the
  updates behind the number the end carries, and the consumer expects the number after the last one. The
  number the cycle's start carries is not looked at.
\<close>

theorem recovery_completes:
  assumes "\<not> in_recovery c" and "j \<noteq> next_exp_inc_seq_num c"
    and snap: "map snd (filter fst msgs) = number_updates 0 (snapshot_cycle_of n0 mid)"
    and inc: "map snd (filter (\<lambda>x. \<not> fst x) msgs) = number_updates (j + 1) vs"
    and mid: "\<forall>u \<in> set mid. final_event u" "length mid + 1 < 2 ^ 64"
    and n: "unat j \<le> unat (n + 1)" "unat (n + 1) \<le> unat j + length (v # vs)" "unat j + length (v # vs) < 2 ^ 64"
    and q: "lfq_inv (mc_updates c)" "length mid + length (v # vs) \<le> lfq_room (mc_updates c)"
  shows "\<exists>c'. foldE (\<lambda>(s, m). mc_onUpdate True s m) ((False, \<lparr>mdp_seq_num = j, me_market_update = v\<rparr>) # msgs @
      [(True, \<lparr>mdp_seq_num = word_of_nat (length mid + 1), me_market_update = snapshot_mark SNAPSHOT_END n\<rparr>)]) c = Inr c' \<and>
    \<not> in_recovery c' \<and> next_exp_inc_seq_num c' = j + word_of_nat (length (v # vs)) \<and>
    lfq_list (mc_updates c') = lfq_list (mc_updates c) @ mid @ filter final_event (drop (unat (n + 1) - unat j) (v # vs))"
  using recovery_run [OF assms] by blast

theorem recovery_completes_witness:
  "\<exists>c'. foldE (\<lambda>(s, m). mc_onUpdate True s m)
      ((False, \<lparr>mdp_seq_num = 4, me_market_update = demo_update 4\<rparr>) #
       [(True, \<lparr>mdp_seq_num = 0, me_market_update = snapshot_mark SNAPSHOT_START 4\<rparr>),
        (False, \<lparr>mdp_seq_num = 5, me_market_update = demo_update 5\<rparr>),
        (True, \<lparr>mdp_seq_num = 1, me_market_update = demo_update 1\<rparr>)] @
       [(True, \<lparr>mdp_seq_num = word_of_nat (length [demo_update 1] + 1), me_market_update = snapshot_mark SNAPSHOT_END 4\<rparr>)])
      demo_consumer = Inr c' \<and>
    \<not> in_recovery c' \<and> next_exp_inc_seq_num c' = 6 \<and> lfq_list (mc_updates c') = [demo_update 1, demo_update 5]"
proof -
  have f: "final_event (demo_update i)" for i by (simp add: final_event_def demo_update_def)
  show ?thesis
    using recovery_completes [of demo_consumer 4
        "[(True, \<lparr>mdp_seq_num = 0, me_market_update = snapshot_mark SNAPSHOT_START 4\<rparr>),
          (False, \<lparr>mdp_seq_num = 5, me_market_update = demo_update 5\<rparr>),
          (True, \<lparr>mdp_seq_num = 1, me_market_update = demo_update 1\<rparr>)]" 4 "[demo_update 1]" "[demo_update 5]" 4 "demo_update 4"]
    by (simp add: snapshot_cycle_of_def f del: foldE.simps)
qed

text \<open>
  In replay mode an update with an unexpected number is not dropped, whatever the log says: every update
  read while the trade engine keeps up reaches it, and the consumer goes on from its number.
\<close>

theorem replay_never_drops:
  assumes "\<not> replay_waits c" and "lfq_inv (mc_updates c)" and "0 < lfq_room (mc_updates c)" and "\<not> in_recovery c"
  shows "lfq_list (mc_updates (mc_replay_step m c)) = lfq_list (mc_updates c) @ [me_market_update m] \<and>
    next_exp_inc_seq_num (mc_replay_step m c) = mdp_seq_num m + 1 \<and> \<not> in_recovery (mc_replay_step m c)"
  using assms lfq.push_pending [OF assms(2,3)] by (auto simp: mc_replay_step_def Let_def)

theorem replay_never_drops_witness:
  "lfq_list (mc_updates (mc_replay_step \<lparr>mdp_seq_num = 7, me_market_update = demo_update 7\<rparr> demo_consumer)) = [demo_update 7]"
proof -
  have "\<not> replay_waits demo_consumer"
    using length_lfq_list [of "mc_updates demo_consumer"] by (simp add: replay_waits_def ME_MAX_MARKET_UPDATES_def lfq_size_def)
  then show ?thesis using replay_never_drops [of demo_consumer "\<lparr>mdp_seq_num = 7, me_market_update = demo_update 7\<rparr>"] by simp
qed

end
