(* ===== verification/MarketDataPath.thy ===== *)
theory MarketDataPath
  imports LateJoiner MarketDataConsumer
begin

text \<open>
  Recovery from end to end: matching engine, snapshot synthesizer, market data consumer and the client's book, put
  together for a client that has missed the beginning of the updates.
\<close>

lemma number_updates_eq_Cons: "number_updates n us = m # ms \<longleftrightarrow>
    (\<exists>v vs. us = v # vs \<and> m = \<lparr>mdp_seq_num = n, me_market_update = v\<rparr> \<and> ms = number_updates (n + 1) vs)"
  by (cases us) auto









end
