(* ===== verification/FillSimulator.thy ===== *)
theory FillSimulator
  imports MarketOrderBook LFQueue "HOL-Library.Multiset"
begin

text \<open>
  \<open>backtest/fill_simulator.cpp\<close>: the stand-in for the exchange in a backtest. It acknowledges the strategy's
  orders, fills them against the best bid and offer, and in queue-aware mode keeps an estimate of the quantity ahead
  of each resting order and fills it from the trades behind that.

  \<^item> \<open>pending_\<close> is an unordered map: its entries as a list, and every loop over it takes its order from the argument
    \<open>order\<close>, of which \<open>hash_order\<close> says that it is some order of the entries.
  \<^item> The best bid and offer is another thread's: what a read of \<open>*bbo_\<close> gives is an argument.
  \<^item> The responses are the calls of \<open>emitResponse\<close> in order; \<open>fs_deliver\<close> writes them to the queue.
\<close>

datatype FillMode = AGGRESSIVE_ONLY | QUEUE_AWARE

record PendingOrder =
  po_req :: MEClientRequest
  bbo_at_submit :: BBO
  po_leaves_qty :: Qty
  queue_ahead_qty :: Qty
  priority_watermark :: Priority
  queue_aware :: bool

type_synonym pending_map = "(OrderId \<times> PendingOrder) list"

record fill_simulator =
  fsim_mode :: FillMode
  fsim_has_book :: bool
  fsim_out :: "MEClientResponse list"
  global_priority_watermark :: Priority
  fsim_pending :: pending_map
  next_market_order_id :: OrderId
  fills_emitted :: nat
  passive_fills_emitted :: nat

definition fill_simulator_new :: "FillMode \<Rightarrow> bool \<Rightarrow> bool \<Rightarrow> fill_simulator res" where
  "fill_simulator_new mode has_book has_events =
     bindE (if mode = QUEUE_AWARE
            then bindE (assertE has_book) (\<lambda>_. assertE has_events) else Inr ()) (\<lambda>_.
     Inr \<lparr>fsim_mode = mode, fsim_has_book = has_book, fsim_out = [], global_priority_watermark = 0, fsim_pending = [],
          next_market_order_id = 1, fills_emitted = 0, passive_fills_emitted = 0\<rparr>)"

definition emitResponse ::
  "MEClientRequest \<Rightarrow> ClientResponseType \<Rightarrow> Qty \<Rightarrow> Qty \<Rightarrow> Price \<Rightarrow> fill_simulator \<Rightarrow> fill_simulator" where
  "emitResponse req ty exec_qty leaves_qty fill_price f =
     f\<lparr>fsim_out := fsim_out f @ [\<lparr>rs_type = ty, rs_client_id = rq_client_id req, rs_ticker_id = rq_ticker_id req,
          rs_client_order_id = rq_order_id req, rs_market_order_id = next_market_order_id f, rs_side = rq_side req,
          rs_price = fill_price, rs_exec_qty = exec_qty, rs_leaves_qty = leaves_qty\<rparr>],
       next_market_order_id := next_market_order_id f + 1\<rparr>"

definition avail :: "Qty \<Rightarrow> Qty" where
  "avail q = (if q = Qty_INVALID then 0 else q)"

definition tryAggressiveFill :: "MEClientRequest \<Rightarrow> BBO \<Rightarrow> Qty \<Rightarrow> fill_simulator \<Rightarrow> bool \<times> fill_simulator" where
  "tryAggressiveFill req cur leaves_qty f =
     (if rq_side req = BUY \<and> ask_price cur \<noteq> Price_INVALID \<and> rq_price req \<ge> ask_price cur
      then let fill_qty = min leaves_qty (avail (ask_qty cur)) in
           if fill_qty = 0 then (False, f)
           else (True, (emitResponse req FILLED fill_qty 0 (ask_price cur) f)\<lparr>fills_emitted := fills_emitted f + 1\<rparr>)
      else if rq_side req = SELL \<and> bid_price cur \<noteq> Price_INVALID \<and> rq_price req \<le> bid_price cur
      then let fill_qty = min leaves_qty (avail (bid_qty cur)) in
           if fill_qty = 0 then (False, f)
           else (True, (emitResponse req FILLED fill_qty 0 (bid_price cur) f)\<lparr>fills_emitted := fills_emitted f + 1\<rparr>)
      else (False, f))"

definition snapshotQueueAhead :: "Price \<Rightarrow> Side \<Rightarrow> BBO \<Rightarrow> fill_simulator \<Rightarrow> Qty" where
  "snapshotQueueAhead price side cur f =
     (if \<not> fsim_has_book f then 0
      else if side = BUY \<and> price = bid_price cur \<and> bid_qty cur \<noteq> Qty_INVALID then bid_qty cur
      else if side = SELL \<and> price = ask_price cur \<and> ask_qty cur \<noteq> Qty_INVALID then ask_qty cur
      else 0)"

subsection \<open>Market events\<close>

text \<open>One turn of the loop in \<open>onSimMarketEvent\<close>: the entry as it is afterwards, if it is still there.\<close>

definition sim_event_order ::
  "MEMarketUpdate \<Rightarrow> OrderId \<times> PendingOrder \<Rightarrow> fill_simulator \<Rightarrow> (OrderId \<times> PendingOrder) option \<times> fill_simulator" where
  "sim_event_order ev x f =
     (let po = snd x in
      if \<not> queue_aware po \<or> rq_price (po_req po) \<noteq> mu_price ev \<or> rq_side (po_req po) \<noteq> mu_side ev then (Some x, f)
      else if mu_type ev = TRADE
      then let ahead = (mu_priority ev \<le> priority_watermark po);
               consumed_ahead = (if ahead then min (mu_qty ev) (queue_ahead_qty po) else 0);
               po1 = po\<lparr>queue_ahead_qty := queue_ahead_qty po - consumed_ahead\<rparr>;
               trade_left = mu_qty ev - consumed_ahead in
           if queue_ahead_qty po1 = 0 \<and> trade_left > 0 \<and> po_leaves_qty po1 > 0
           then let fill_qty = min (po_leaves_qty po1) trade_left;
                    po2 = po1\<lparr>po_leaves_qty := po_leaves_qty po1 - fill_qty\<rparr>;
                    f1 = (emitResponse (po_req po2) FILLED fill_qty (po_leaves_qty po2) (rq_price (po_req po2)) f)
                           \<lparr>fills_emitted := fills_emitted f + 1, passive_fills_emitted := passive_fills_emitted f + 1\<rparr> in
                (if po_leaves_qty po2 = 0 then None else Some (fst x, po2), f1)
           else (Some (fst x, po1), f)
      else if mu_type ev = CANCEL
      then (Some (fst x, if mu_priority ev \<le> priority_watermark po
                         then po\<lparr>queue_ahead_qty := queue_ahead_qty po - min (mu_qty ev) (queue_ahead_qty po)\<rparr> else po), f)
      else (Some x, f))"

text \<open>A loop over the map that may erase the entry it is at.\<close>

fun sweep ::
  "('a \<Rightarrow> 's \<Rightarrow> 'a option \<times> 's) \<Rightarrow> 'a list \<Rightarrow> 's \<Rightarrow> 'a list \<times> 's" where
  "sweep step [] s = ([], s)"
| "sweep step (x # xs) s =
     (case step x s of (kept, s1) \<Rightarrow>
      case sweep step xs s1 of (rest, s2) \<Rightarrow>
      ((case kept of None \<Rightarrow> rest | Some y \<Rightarrow> y # rest), s2))"

definition onSimMarketEvent :: "(pending_map \<Rightarrow> pending_map) \<Rightarrow> MEMarketUpdate \<Rightarrow> fill_simulator \<Rightarrow> fill_simulator" where
  "onSimMarketEvent order ev f =
     (let f1 = (if mu_priority ev \<noteq> Priority_INVALID \<and> mu_priority ev > global_priority_watermark f
                then f\<lparr>global_priority_watermark := mu_priority ev\<rparr> else f) in
      case sweep (sim_event_order ev) (order (fsim_pending f1)) f1 of (kept, f2) \<Rightarrow> f2\<lparr>fsim_pending := kept\<rparr>)"

subsection \<open>Requests\<close>

definition fs_request :: "BBO \<Rightarrow> MEClientRequest \<Rightarrow> fill_simulator \<Rightarrow> fill_simulator" where
  "fs_request bbo_now req f =
     (if rq_type req = NEW
      then let f1 = emitResponse req ACCEPTED 0 (rq_qty req) (rq_price req) f;
               po = \<lparr>po_req = req, bbo_at_submit = bbo_now, po_leaves_qty = rq_qty req, queue_ahead_qty = 0,
                     priority_watermark = 0, queue_aware = False\<rparr> in
           if rq_order_id req \<in> fst ` set (fsim_pending f1) then f1
           else f1\<lparr>fsim_pending := (rq_order_id req, po) # fsim_pending f1\<rparr>
      else if rq_type req = Request_CANCEL
      then (if rq_order_id req \<in> fst ` set (fsim_pending f)
            then (emitResponse req CANCELED 0 0 (rq_price req) f)
                   \<lparr>fsim_pending := filter (\<lambda>x. fst x \<noteq> rq_order_id req) (fsim_pending f)\<rparr>
            else emitResponse req CANCEL_REJECTED 0 0 (rq_price req) f)
      else f)"

subsection \<open>Aggressive fills\<close>

definition bboChanged :: "BBO \<Rightarrow> BBO \<Rightarrow> bool" where
  "bboChanged a b \<longleftrightarrow> bid_price a \<noteq> bid_price b \<or> ask_price a \<noteq> ask_price b \<or> bid_qty a \<noteq> bid_qty b \<or> ask_qty a \<noteq> ask_qty b"

text \<open>
  \<open>cur\<close> is the round's copy; \<open>snapshotQueueAhead\<close> reads the best prices again for every order, and
  \<open>again\<close> gives what it finds for the order with this id.
\<close>

definition aggressive_order ::
  "BBO \<Rightarrow> (OrderId \<Rightarrow> BBO) \<Rightarrow> OrderId \<times> PendingOrder \<Rightarrow> fill_simulator \<Rightarrow> (OrderId \<times> PendingOrder) option \<times> fill_simulator" where
  "aggressive_order cur again x f =
     (let po = snd x in
      if \<not> bboChanged cur (bbo_at_submit po) then (Some x, f)
      else case tryAggressiveFill (po_req po) cur (po_leaves_qty po) f of (filled, f1) \<Rightarrow>
        if filled then (None, f1)
        else let po1 = (if fsim_mode f1 = QUEUE_AWARE \<and> \<not> queue_aware po
                        then po\<lparr>queue_ahead_qty := snapshotQueueAhead (rq_price (po_req po)) (rq_side (po_req po)) (again (fst x)) f1,
                                priority_watermark := global_priority_watermark f1, queue_aware := True\<rparr>
                        else po)
             in (Some (fst x, po1\<lparr>bbo_at_submit := cur\<rparr>), f1))"

definition fs_aggressive :: "(pending_map \<Rightarrow> pending_map) \<Rightarrow> BBO \<Rightarrow> (OrderId \<Rightarrow> BBO) \<Rightarrow> fill_simulator \<Rightarrow> fill_simulator" where
  "fs_aggressive order cur again f =
     (case sweep (aggressive_order cur again) (order (fsim_pending f)) f of (kept, f1) \<Rightarrow> f1\<lparr>fsim_pending := kept\<rparr>)"

text \<open>One round of \<open>run\<close>: every request with the best prices read for it, every event, then the fills.\<close>

definition fs_round ::
  "(pending_map \<Rightarrow> pending_map) \<Rightarrow> (BBO \<times> MEClientRequest) list \<Rightarrow> MEMarketUpdate list \<Rightarrow> BBO \<Rightarrow> (OrderId \<Rightarrow> BBO) \<Rightarrow>
   fill_simulator \<Rightarrow> fill_simulator" where
  "fs_round order requests events cur again f =
     (let f1 = fold (\<lambda>(b, r). fs_request b r) requests f;
          f2 = (if fsim_mode f1 = QUEUE_AWARE then fold (onSimMarketEvent order) events f1 else f1)
      in fs_aggressive order cur again f2)"

definition fs_deliver :: "fill_simulator \<Rightarrow> MEClientResponse lf_queue \<Rightarrow> fill_simulator \<times> MEClientResponse lf_queue" where
  "fs_deliver f q = (f\<lparr>fsim_out := []\<rparr>, fold lfq_push (fsim_out f) q)"

locale hash_order =
  fixes order :: "'a list \<Rightarrow> 'a list"
  assumes order_mset: "mset (order xs) = mset xs"
begin

lemma order_set: "set (order xs) = set xs"
  using order_mset by (metis set_mset_mset)

lemma order_distinct: "distinct (map f (order xs)) \<longleftrightarrow> distinct (map f xs)"
  using order_mset by (metis mset_eq_imp_distinct_iff mset_map)

lemma order_sum: "(\<Sum>x \<leftarrow> order xs. g x) = (\<Sum>x \<leftarrow> xs. g x :: nat)"
  using order_mset by (metis mset_map sum_mset_sum_list)

end

interpretation as_listed: hash_order "\<lambda>xs. xs"
  by unfold_locales simp

subsection \<open>What is filled\<close>

definition exec_of :: "OrderId \<Rightarrow> MEClientResponse list \<Rightarrow> nat" where
  "exec_of k rs = (\<Sum>r \<leftarrow> filter (\<lambda>r. rs_type r = FILLED \<and> rs_client_order_id r = k) rs. unat (rs_exec_qty r))"

lemma exec_of_simps [simp]:
  "exec_of k [] = 0" "exec_of k (rs @ rs') = exec_of k rs + exec_of k rs'"
  "exec_of k [r] = (if rs_type r = FILLED \<and> rs_client_order_id r = k then unat (rs_exec_qty r) else 0)"
  by (simp_all add: exec_of_def)

text \<open>A fill is for the order it names, on its side, and at its limit or better.\<close>

definition within_limit :: "MEClientRequest \<Rightarrow> MEClientResponse \<Rightarrow> bool" where
  "within_limit q r \<longleftrightarrow> rs_side r = rq_side q \<and> rs_client_id r = rq_client_id q \<and> rs_ticker_id r = rq_ticker_id q \<and>
     (rq_side q = BUY \<longrightarrow> rs_price r \<le> rq_price q) \<and> (rq_side q = SELL \<longrightarrow> rq_price q \<le> rs_price r)"

text \<open>
  The invariant, about the orders taken so far, the entries of the map in whatever order, and the simulator: what
  was filled of an order and what is left of it are together no more than was asked for.
\<close>

definition sim_inv :: "(OrderId \<Rightarrow> MEClientRequest option) \<Rightarrow> pending_map \<Rightarrow> fill_simulator \<Rightarrow> bool" where
  "sim_inv orders L f \<longleftrightarrow> distinct (map fst L) \<and>
     (\<forall>(k, po) \<in> set L. orders k = Some (po_req po) \<and> rq_order_id (po_req po) = k \<and>
        exec_of k (fsim_out f) + unat (po_leaves_qty po) \<le> unat (rq_qty (po_req po))) \<and>
     (\<forall>k. exec_of k (fsim_out f) \<le> (case orders k of None \<Rightarrow> 0 | Some q \<Rightarrow> unat (rq_qty q))) \<and>
     (\<forall>r \<in> set (fsim_out f). rs_type r = FILLED \<longrightarrow> (\<exists>q. orders (rs_client_order_id r) = Some q \<and> within_limit q r))"

lemma sim_inv_rotate:
  assumes "mset L = mset L'" and "sim_inv orders L f"
  shows "sim_inv orders L' f"
proof -
  have "set L = set L'" using assms(1) by (rule mset_eq_setD)
  moreover have "mset (map fst L) = mset (map fst L')" using assms(1) by simp
  then have "distinct (map fst L) = distinct (map fst L')" by (rule mset_eq_imp_distinct_iff)
  ultimately show ?thesis using assms(2) unfolding sim_inv_def by simp
qed

lemma sim_inv_same:
  "fsim_out f' = fsim_out f \<Longrightarrow> sim_inv orders L f' = sim_inv orders L f"
  by (simp add: sim_inv_def)

lemma emitResponse_simps [simp]:
  "fsim_out (emitResponse q ty e l p f) = fsim_out f @ [\<lparr>rs_type = ty, rs_client_id = rq_client_id q, rs_ticker_id = rq_ticker_id q,
     rs_client_order_id = rq_order_id q, rs_market_order_id = next_market_order_id f, rs_side = rq_side q,
     rs_price = p, rs_exec_qty = e, rs_leaves_qty = l\<rparr>]"
  "fsim_mode (emitResponse q ty e l p f) = fsim_mode f" "fsim_pending (emitResponse q ty e l p f) = fsim_pending f"
  "global_priority_watermark (emitResponse q ty e l p f) = global_priority_watermark f"
  "fsim_has_book (emitResponse q ty e l p f) = fsim_has_book f"
  by (simp_all add: emitResponse_def)

text \<open>A fill of part of what is left of an entry; the entry stays with the rest or goes.\<close>

lemma sim_inv_fill:
  assumes inv: "sim_inv orders ((k, po) # L) f" and e: "unat e \<le> unat (po_leaves_qty po)"
    and out: "fsim_out f' = fsim_out f @ [r]" "rs_type r = FILLED" "rs_client_order_id r = rq_order_id (po_req po)"
      "rs_exec_qty r = e" "within_limit (po_req po) r"
    and kept: "L' = L \<or> (\<exists>po'. L' = (k, po') # L \<and> po_req po' = po_req po \<and> unat (po_leaves_qty po') + unat e \<le> unat (po_leaves_qty po))"
  shows "sim_inv orders L' f'"
proof -
  have k: "orders k = Some (po_req po)" "rq_order_id (po_req po) = k" "k \<notin> fst ` set L"
    "exec_of k (fsim_out f) + unat (po_leaves_qty po) \<le> unat (rq_qty (po_req po))"
    using inv by (auto simp: sim_inv_def)
  have ex: "exec_of j (fsim_out f') = exec_of j (fsim_out f) + (if j = k then unat e else 0)" for j
    using out k(2) by simp
  have bound: "exec_of j (fsim_out f') \<le> (case orders j of None \<Rightarrow> 0 | Some q \<Rightarrow> unat (rq_qty q))" for j
    using inv k(1,4) e by (cases "j = k") (simp_all add: ex sim_inv_def)
  have fill: "\<forall>x \<in> set (fsim_out f'). rs_type x = FILLED \<longrightarrow> (\<exists>q. orders (rs_client_order_id x) = Some q \<and> within_limit q x)"
    using inv out k(1,2) by (auto simp: sim_inv_def)
  have rest: "\<forall>(j, x) \<in> set L. orders j = Some (po_req x) \<and> rq_order_id (po_req x) = j \<and>
      exec_of j (fsim_out f') + unat (po_leaves_qty x) \<le> unat (rq_qty (po_req x))"
  proof clarify
    fix j x assume jx: "(j, x) \<in> set L"
    then have "j \<noteq> k" using k(3) by (metis fst_conv image_eqI)
    moreover have "orders j = Some (po_req x) \<and> rq_order_id (po_req x) = j \<and>
        exec_of j (fsim_out f) + unat (po_leaves_qty x) \<le> unat (rq_qty (po_req x))"
      using inv jx unfolding sim_inv_def by fastforce
    ultimately show "orders j = Some (po_req x) \<and> rq_order_id (po_req x) = j \<and>
        exec_of j (fsim_out f') + unat (po_leaves_qty x) \<le> unat (rq_qty (po_req x))" by (simp add: ex)
  qed
  from kept show ?thesis
  proof (elim disjE exE conjE)
    assume "L' = L"
    then show ?thesis using inv bound fill rest by (simp add: sim_inv_def)
  next
    fix po' assume p: "L' = (k, po') # L" "po_req po' = po_req po" "unat (po_leaves_qty po') + unat e \<le> unat (po_leaves_qty po)"
    then show ?thesis using inv bound fill rest k by (simp add: sim_inv_def ex)
  qed
qed

text \<open>Changing an entry without a fill.\<close>

lemma sim_inv_change:
  assumes "sim_inv orders ((k, po) # L) f" and "po_req po' = po_req po" "po_leaves_qty po' = po_leaves_qty po"
    and "fsim_out f' = fsim_out f"
  shows "sim_inv orders ((k, po') # L) f'"
  using assms by (simp add: sim_inv_def)

definition kept_list :: "'a option \<Rightarrow> 'a list" where
  "kept_list x = (case x of None \<Rightarrow> [] | Some y \<Rightarrow> [y])"

text \<open>
  What a turn of either loop can do to an entry: keep it, with its order and what is left of it, or fill it and keep
  it with the rest or erase it.
\<close>

definition fill_of :: "PendingOrder \<Rightarrow> MEClientResponse \<Rightarrow> bool" where
  "fill_of po r \<longleftrightarrow> rs_type r = FILLED \<and> rs_client_order_id r = rq_order_id (po_req po) \<and> within_limit (po_req po) r \<and>
     rs_exec_qty r \<noteq> 0 \<and> unat (rs_exec_qty r) + unat (rs_leaves_qty r) \<le> unat (po_leaves_qty po)"

definition entry_turn ::
  "OrderId \<times> PendingOrder \<Rightarrow> fill_simulator \<Rightarrow> (OrderId \<times> PendingOrder) option \<Rightarrow> fill_simulator \<Rightarrow> bool" where
  "entry_turn x f kept f1 \<longleftrightarrow> (\<exists>po'. po_req po' = po_req (snd x) \<and>
     (kept = Some (fst x, po') \<and> po_leaves_qty po' = po_leaves_qty (snd x) \<and> fsim_out f1 = fsim_out f \<or>
      (\<exists>r. fill_of (snd x) r \<and> fsim_out f1 = fsim_out f @ [r] \<and> po_leaves_qty po' = rs_leaves_qty r \<and>
         kept_list kept = (if rs_leaves_qty r = 0 then [] else [(fst x, po')]))))"

lemma unat_sub_le: "(a :: Qty) \<le> b \<Longrightarrow> unat (b - a) + unat a = unat b"
  by (simp add: unat_sub word_le_nat_alt)

lemma sim_event_order_turn:
  assumes s: "sim_event_order ev x f = (kept, f1)"
  shows "entry_turn x f kept f1"
proof -
  obtain k po where x: "x = (k, po)" by (cases x)
  let ?c = "if mu_priority ev \<le> priority_watermark po then min (mu_qty ev) (queue_ahead_qty po) else 0"
  let ?po1 = "po\<lparr>queue_ahead_qty := queue_ahead_qty po - ?c\<rparr>"
  let ?fill = "min (po_leaves_qty po) (mu_qty ev - ?c)"
  show ?thesis
  proof (cases "queue_aware po \<and> rq_price (po_req po) = mu_price ev \<and> rq_side (po_req po) = mu_side ev \<and> mu_type ev = TRADE \<and>
      queue_ahead_qty ?po1 = 0 \<and> mu_qty ev - ?c > 0 \<and> po_leaves_qty po > 0")
    case True
    let ?po2 = "?po1\<lparr>po_leaves_qty := po_leaves_qty po - ?fill\<rparr>"
    let ?r = "\<lparr>rs_type = FILLED, rs_client_id = rq_client_id (po_req po), rs_ticker_id = rq_ticker_id (po_req po),
       rs_client_order_id = rq_order_id (po_req po), rs_market_order_id = next_market_order_id f, rs_side = rq_side (po_req po),
       rs_price = rq_price (po_req po), rs_exec_qty = ?fill, rs_leaves_qty = po_leaves_qty po - ?fill\<rparr>"
    have out: "fsim_out f1 = fsim_out f @ [?r]" "kept_list kept = (if po_leaves_qty po - ?fill = 0 then [] else [(k, ?po2)])"
      using s True x by (auto simp: sim_event_order_def Let_def kept_list_def)
    have "?fill \<noteq> 0" using True by (auto simp: min_def)
    then have "fill_of po ?r" using unat_sub_le [of ?fill "po_leaves_qty po"] by (simp add: fill_of_def within_limit_def)
    then show ?thesis using out x unfolding entry_turn_def by (intro exI [of _ ?po2] conjI disjI2 exI [of _ ?r]) simp_all
  next
    case False
    then have "\<exists>po'. kept = Some (k, po') \<and> po_req po' = po_req po \<and> po_leaves_qty po' = po_leaves_qty po \<and> f1 = f"
      using s x by (auto simp: sim_event_order_def Let_def split: if_splits)
    then show ?thesis using x by (auto simp: entry_turn_def)
  qed
qed

lemma tryAggressiveFill_cases:
  assumes "tryAggressiveFill req cur leaves f = (filled, f1)"
  shows "if filled then \<exists>e p. e \<noteq> 0 \<and> e \<le> leaves \<and> fsim_out f1 = fsim_out f @ [\<lparr>rs_type = FILLED, rs_client_id = rq_client_id req,
      rs_ticker_id = rq_ticker_id req, rs_client_order_id = rq_order_id req, rs_market_order_id = next_market_order_id f,
      rs_side = rq_side req, rs_price = p, rs_exec_qty = e, rs_leaves_qty = 0\<rparr>] \<and>
      (rq_side req = BUY \<longrightarrow> p \<le> rq_price req) \<and> (rq_side req = SELL \<longrightarrow> rq_price req \<le> p)
    else f1 = f"
  using assms by (auto simp: tryAggressiveFill_def Let_def split: if_splits)

lemma aggressive_order_turn:
  assumes s: "aggressive_order cur again x f = (kept, f1)"
  shows "entry_turn x f kept f1"
proof -
  obtain k po where x: "x = (k, po)" by (cases x)
  obtain filled f2 where t: "tryAggressiveFill (po_req po) cur (po_leaves_qty po) f = (filled, f2)"
    by (cases "tryAggressiveFill (po_req po) cur (po_leaves_qty po) f")
  show ?thesis
  proof (cases "bboChanged cur (bbo_at_submit po) \<and> filled")
    case True
    then have k: "kept = None" "f1 = f2" using s t x by (auto simp: aggressive_order_def)
    from tryAggressiveFill_cases [OF t] True obtain e p where e: "e \<noteq> 0" "e \<le> po_leaves_qty po"
      "fsim_out f2 = fsim_out f @ [\<lparr>rs_type = FILLED, rs_client_id = rq_client_id (po_req po),
        rs_ticker_id = rq_ticker_id (po_req po), rs_client_order_id = rq_order_id (po_req po),
        rs_market_order_id = next_market_order_id f, rs_side = rq_side (po_req po), rs_price = p, rs_exec_qty = e, rs_leaves_qty = 0\<rparr>]"
      "rq_side (po_req po) = BUY \<longrightarrow> p \<le> rq_price (po_req po)" "rq_side (po_req po) = SELL \<longrightarrow> rq_price (po_req po) \<le> p"
      by auto
    define r where "r = \<lparr>rs_type = FILLED, rs_client_id = rq_client_id (po_req po),
        rs_ticker_id = rq_ticker_id (po_req po), rs_client_order_id = rq_order_id (po_req po),
        rs_market_order_id = next_market_order_id f, rs_side = rq_side (po_req po), rs_price = p, rs_exec_qty = e, rs_leaves_qty = 0\<rparr>"
    have r: "fill_of po r" "rs_leaves_qty r = 0"
      using e(1,2,4,5) by (simp_all add: r_def fill_of_def within_limit_def word_le_nat_alt)
    show ?thesis unfolding entry_turn_def using x k r e(3) [folded r_def]
      by (intro exI [of _ "po\<lparr>po_leaves_qty := 0\<rparr>"] conjI disjI2 exI [of _ r]) (simp_all add: kept_list_def)
  next
    case False
    then have "\<exists>po'. kept = Some (k, po') \<and> po_req po' = po_req po \<and> po_leaves_qty po' = po_leaves_qty po \<and> f1 = f"
      using s t x tryAggressiveFill_cases [OF t] by (auto simp: aggressive_order_def Let_def split: if_splits)
    then show ?thesis using x by (auto simp: entry_turn_def)
  qed
qed

text \<open>
  What both loops keep, once for every invariant of the entries and the responses: one that does not depend on the order
  of the entries and that a turn keeps.
\<close>

locale entries_invariant =
  fixes I :: "pending_map \<Rightarrow> fill_simulator \<Rightarrow> bool"
  assumes rotate: "mset L = mset L' \<Longrightarrow> I L f \<Longrightarrow> I L' f"
    and same: "fsim_out f' = fsim_out f \<Longrightarrow> I L f \<Longrightarrow> I L f'"
    and turn: "I (x # xs) f \<Longrightarrow> entry_turn x f kept f1 \<Longrightarrow> I (kept_list kept @ xs) f1"
begin

lemma sweep_keeps:
  assumes step: "\<And>x f kept f1. step x f = (kept, f1) \<Longrightarrow> entry_turn x f kept f1"
  shows "I (xs @ zs) f \<Longrightarrow> sweep step xs f = (kept, f1) \<Longrightarrow> I (kept @ zs) f1"
proof (induction xs arbitrary: zs f kept f1)
  case Nil
  then show ?case by simp
next
  case (Cons x xs)
  obtain o1 f2 where s: "step x f = (o1, f2)" by (cases "step x f")
  obtain rest f3 where r: "sweep step xs f2 = (rest, f3)" by (cases "sweep step xs f2")
  have k: "kept = kept_list o1 @ rest" "f1 = f3" using Cons.prems(2) s r by (auto simp: kept_list_def split: option.splits)
  have "I (kept_list o1 @ xs @ zs) f2" using turn [OF _ step [OF s], of "xs @ zs"] Cons.prems(1) by simp
  then have "I (xs @ kept_list o1 @ zs) f2" by (rule rotate [rotated]) simp
  from Cons.IH [OF this r] have "I (rest @ kept_list o1 @ zs) f3" .
  then show ?case unfolding k by (rule rotate [rotated]) simp
qed

lemma sweep_pending:
  assumes "hash_order order" and "\<And>x f kept f1. step x f = (kept, f1) \<Longrightarrow> entry_turn x f kept f1"
    and "I (fsim_pending f) f" and "sweep step (order (fsim_pending f)) f = (kept, f1)"
  shows "I kept (f1\<lparr>fsim_pending := kept\<rparr>)"
proof -
  have "I (order (fsim_pending f) @ []) f"
    using assms(3) by (rule rotate [rotated]) (simp add: hash_order.order_mset [OF assms(1)])
  from sweep_keeps [OF assms(2) this assms(4)] have "I kept f1" by simp
  then show ?thesis by (rule same [rotated]) simp
qed

lemma event_keeps:
  assumes "hash_order order" and inv: "I (fsim_pending f) f"
  shows "I (fsim_pending (onSimMarketEvent order ev f)) (onSimMarketEvent order ev f)"
proof -
  let ?f1 = "if mu_priority ev \<noteq> Priority_INVALID \<and> mu_priority ev > global_priority_watermark f
                then f\<lparr>global_priority_watermark := mu_priority ev\<rparr> else f"
  obtain kept f2 where s: "sweep (sim_event_order ev) (order (fsim_pending ?f1)) ?f1 = (kept, f2)"
    by (cases "sweep (sim_event_order ev) (order (fsim_pending ?f1)) ?f1")
  have "fsim_pending ?f1 = fsim_pending f" "fsim_out ?f1 = fsim_out f" by simp_all
  then have "I (fsim_pending ?f1) ?f1" using same [OF _ inv, of ?f1] by (simp only:)
  from sweep_pending [OF assms(1) sim_event_order_turn this s] s show ?thesis by (simp add: onSimMarketEvent_def)
qed

lemma aggressive_keeps:
  assumes "hash_order order" and "I (fsim_pending f) f"
  shows "I (fsim_pending (fs_aggressive order cur again f)) (fs_aggressive order cur again f)"
proof -
  obtain kept f1 where s: "sweep (aggressive_order cur again) (order (fsim_pending f)) f = (kept, f1)"
    by (cases "sweep (aggressive_order cur again) (order (fsim_pending f)) f")
  from sweep_pending [OF assms(1) aggressive_order_turn assms(2) s] s show ?thesis by (simp add: fs_aggressive_def)
qed

end

lemma entry_turn_inv:
  assumes inv: "sim_inv orders (x # xs) f" and t: "entry_turn x f kept f1"
  shows "sim_inv orders (kept_list kept @ xs) f1"
proof -
  obtain k po where x: "x = (k, po)" by (cases x)
  obtain po' where po': "po_req po' = po_req po" and c:
    "kept = Some (k, po') \<and> po_leaves_qty po' = po_leaves_qty po \<and> fsim_out f1 = fsim_out f \<or>
     (\<exists>r. fill_of po r \<and> fsim_out f1 = fsim_out f @ [r] \<and> po_leaves_qty po' = rs_leaves_qty r \<and>
         kept_list kept = (if rs_leaves_qty r = 0 then [] else [(k, po')]))"
    using t x by (auto simp: entry_turn_def)
  from c show ?thesis
  proof (elim disjE exE conjE)
    assume "kept = Some (k, po')" "po_leaves_qty po' = po_leaves_qty po" "fsim_out f1 = fsim_out f"
    then show ?thesis using sim_inv_change inv x po' by (simp add: kept_list_def)
  next
    fix r assume r: "fill_of po r" "fsim_out f1 = fsim_out f @ [r]" "po_leaves_qty po' = rs_leaves_qty r"
      "kept_list kept = (if rs_leaves_qty r = 0 then [] else [(k, po')])"
    show ?thesis
      by (rule sim_inv_fill [where k = k and po = po and L = xs and f = f and e = "rs_exec_qty r", OF _ _ r(2)])
        (use inv x r po' in \<open>auto simp: fill_of_def\<close>)
  qed
qed

interpretation limits: entries_invariant "sim_inv orders" for orders
proof
  show "sim_inv orders L' f" if "mset L = mset L'" "sim_inv orders L f" for L L' f by (rule sim_inv_rotate [OF that])
  show "sim_inv orders (kept_list kept @ xs) f1" if "sim_inv orders (x # xs) f" "entry_turn x f kept f1" for x xs f kept f1
    by (rule entry_turn_inv [OF that])
  show "sim_inv orders L f'" if "fsim_out f' = fsim_out f" "sim_inv orders L f" for f f' L
    using that(2) sim_inv_same [OF that(1)] by simp
qed

lemma fs_request_inv:
  assumes inv: "sim_inv orders (fsim_pending f) f" and new: "rq_type r = NEW \<Longrightarrow> orders (rq_order_id r) = None"
  shows "sim_inv (if rq_type r = NEW then orders(rq_order_id r \<mapsto> r) else orders) (fsim_pending (fs_request b r f)) (fs_request b r f)"
proof (cases "rq_type r = NEW")
  case True
  let ?k = "rq_order_id r" and ?o = "orders(rq_order_id r \<mapsto> r)" and ?f = "emitResponse r ACCEPTED 0 (rq_qty r) (rq_price r) f"
  have n: "orders ?k = None" using new True .
  have fresh: "?k \<notin> fst ` set (fsim_pending f)" using inv n by (fastforce simp: sim_inv_def)
  have zero: "exec_of ?k (fsim_out f) = 0" using inv n unfolding sim_inv_def by (metis le_zero_eq option.simps(4))
  have ent: "\<forall>(j, x) \<in> set (fsim_pending f). ?o j = Some (po_req x) \<and> rq_order_id (po_req x) = j \<and>
      exec_of j (fsim_out f) + unat (po_leaves_qty x) \<le> unat (rq_qty (po_req x))"
  proof clarify
    fix j x assume jx: "(j, x) \<in> set (fsim_pending f)"
    then have "j \<noteq> ?k" using fresh by (metis fst_conv image_eqI)
    moreover have "orders j = Some (po_req x) \<and> rq_order_id (po_req x) = j \<and>
        exec_of j (fsim_out f) + unat (po_leaves_qty x) \<le> unat (rq_qty (po_req x))"
      using inv jx unfolding sim_inv_def by fastforce
    ultimately show "?o j = Some (po_req x) \<and> rq_order_id (po_req x) = j \<and>
        exec_of j (fsim_out f) + unat (po_leaves_qty x) \<le> unat (rq_qty (po_req x))" by simp
  qed
  have cap: "exec_of j (fsim_out f) \<le> (case ?o j of None \<Rightarrow> 0 | Some q \<Rightarrow> unat (rq_qty q))" for j
    using inv zero by (simp add: sim_inv_def)
  have fill: "\<forall>x \<in> set (fsim_out f). rs_type x = FILLED \<longrightarrow> (\<exists>q. ?o (rs_client_order_id x) = Some q \<and> within_limit q x)"
    using inv n by (fastforce simp: sim_inv_def)
  have d: "distinct (map fst (fsim_pending f))" using inv by (simp add: sim_inv_def)
  show ?thesis using True fresh zero ent cap fill d by (simp add: fs_request_def sim_inv_def)
next
  case False
  have sub: "sim_inv orders (filter P L) f" if "sim_inv orders L f" for P L
    using that by (auto simp: sim_inv_def distinct_map_filter)
  have out: "sim_inv orders L (emitResponse r ty e l p f) = sim_inv orders L f" if "ty \<noteq> FILLED" for L ty e l p
    using that by (simp add: sim_inv_def)
  have same: "sim_inv orders L (g\<lparr>fsim_pending := M\<rparr>) = sim_inv orders L g" for L M and g :: fill_simulator
    by (rule sim_inv_same) simp
  show ?thesis using False inv by (auto simp: fs_request_def out same sub)
qed

fun note_orders :: "MEClientRequest list \<Rightarrow> (OrderId \<Rightarrow> MEClientRequest option) \<Rightarrow> OrderId \<Rightarrow> MEClientRequest option" where
  "note_orders [] orders = orders"
| "note_orders (r # rs) orders = note_orders rs (if rq_type r = NEW then orders(rq_order_id r \<mapsto> r) else orders)"

definition fresh_ids :: "MEClientRequest list \<Rightarrow> (OrderId \<Rightarrow> MEClientRequest option) \<Rightarrow> bool" where
  "fresh_ids rs orders \<longleftrightarrow> distinct (map rq_order_id (filter (\<lambda>r. rq_type r = NEW) rs)) \<and>
     (\<forall>r \<in> set rs. rq_type r = NEW \<longrightarrow> orders (rq_order_id r) = None)"

lemma fs_requests_inv:
  assumes "sim_inv orders (fsim_pending f) f" and "fresh_ids (map snd brs) orders"
  shows "sim_inv (note_orders (map snd brs) orders) (fsim_pending (fold (\<lambda>(b, r). fs_request b r) brs f)) (fold (\<lambda>(b, r). fs_request b r) brs f)"
  using assms
proof (induction brs arbitrary: orders f)
  case Nil
  then show ?case by simp
next
  case (Cons x brs)
  obtain b r where x: "x = (b, r)" by (cases x)
  let ?o = "if rq_type r = NEW then orders(rq_order_id r \<mapsto> r) else orders"
  have "sim_inv ?o (fsim_pending (fs_request b r f)) (fs_request b r f)"
    by (rule fs_request_inv) (use Cons.prems x in \<open>auto simp: fresh_ids_def\<close>)
  moreover have "fresh_ids (map snd brs) ?o"
    using Cons.prems(2) x by (auto simp: fresh_ids_def image_iff split: if_splits)
  ultimately show ?case using Cons.IH [of ?o "fs_request b r f"] x by simp
qed

lemma fs_round_inv:
  assumes "hash_order order" and "sim_inv orders (fsim_pending f) f" and "fresh_ids (map snd requests) orders"
  shows "let f' = fs_round order requests events cur again f in
    sim_inv (note_orders (map snd requests) orders) (fsim_pending f') f'"
proof -
  let ?o = "note_orders (map snd requests) orders" and ?f1 = "fold (\<lambda>(b, r). fs_request b r) requests f"
  have f1: "sim_inv ?o (fsim_pending ?f1) ?f1" by (rule fs_requests_inv [OF assms(2,3)])
  have "sim_inv ?o (fsim_pending (fold (onSimMarketEvent order) events g)) (fold (onSimMarketEvent order) events g)"
    if "sim_inv ?o (fsim_pending g) g" for g
    using that by (induction events arbitrary: g) (simp_all add: limits.event_keeps [OF assms(1)])
  with f1 show ?thesis by (simp add: fs_round_def Let_def limits.aggressive_keeps [OF assms(1)])
qed

subsection \<open>Whole runs\<close>

type_synonym sim_round = "(BBO \<times> MEClientRequest) list \<times> MEMarketUpdate list \<times> BBO \<times> (OrderId \<Rightarrow> BBO)"

definition fs_run :: "(pending_map \<Rightarrow> pending_map) \<Rightarrow> sim_round list \<Rightarrow> fill_simulator \<Rightarrow> fill_simulator" where
  "fs_run order rounds f = fold (\<lambda>(requests, events, cur, again). fs_round order requests events cur again) rounds f"

definition run_requests :: "sim_round list \<Rightarrow> MEClientRequest list" where
  "run_requests rounds = concat (map (\<lambda>(requests, _). map snd requests) rounds)"

lemma note_orders_append: "note_orders (rs @ rs') orders = note_orders rs' (note_orders rs orders)"
  by (induction rs arbitrary: orders) simp_all

lemma note_orders_some:
  "note_orders rs orders k = Some q \<Longrightarrow> orders k = Some q \<or> (q \<in> set rs \<and> rq_type q = NEW \<and> rq_order_id q = k)"
  by (induction rs arbitrary: orders) (fastforce split: if_splits)+

lemma note_orders_none:
  "note_orders rs orders k = None \<longleftrightarrow> orders k = None \<and> (\<forall>r \<in> set rs. rq_type r = NEW \<longrightarrow> rq_order_id r \<noteq> k)"
  by (induction rs arbitrary: orders) auto

lemma fresh_ids_append:
  "fresh_ids (rs @ rs') orders \<longleftrightarrow> fresh_ids rs orders \<and> fresh_ids rs' (note_orders rs orders)"
  by (fastforce simp: fresh_ids_def note_orders_none)

lemma fs_run_inv:
  assumes "hash_order order" and "sim_inv orders (fsim_pending f) f" and "fresh_ids (run_requests rounds) orders"
  shows "sim_inv (note_orders (run_requests rounds) orders) (fsim_pending (fs_run order rounds f)) (fs_run order rounds f)"
  using assms(2,3)
proof (induction rounds arbitrary: orders f)
  case Nil
  then show ?case by (simp add: fs_run_def run_requests_def)
next
  case (Cons x rounds)
  obtain requests events cur again where x: "x = (requests, events, cur, again)" by (cases x)
  have fr: "fresh_ids (map snd requests) orders" "fresh_ids (run_requests rounds) (note_orders (map snd requests) orders)"
    using Cons.prems(2) x by (simp_all add: run_requests_def fresh_ids_append)
  from Cons.IH [OF fs_round_inv [OF assms(1) Cons.prems(1) fr(1), unfolded Let_def] fr(2)] x
  show ?case by (simp add: fs_run_def run_requests_def note_orders_append)
qed

lemma new_simulator_inv: "fill_simulator_new mode b e = Inr f \<Longrightarrow> sim_inv (\<lambda>_. None) (fsim_pending f) f"
  by (auto simp: fill_simulator_new_def sim_inv_def res_simps)

lemma hash_order_short:
  assumes "hash_order order"
  shows "order [] = []" "order [x] = [x]"
  using hash_order.order_mset [OF assms, of "[]"] hash_order.order_mset [OF assms, of "[x]"] by simp_all

subsection \<open>One order and the events at its price\<close>

text \<open>
  What the estimate of a resting order sees in an event: whether it is at its price and side, and whether it is of an
  order that was there before, which a trade or a cancel then takes out of the queue ahead.
\<close>

definition at_order :: "PendingOrder \<Rightarrow> MEMarketUpdate \<Rightarrow> bool" where
  "at_order po ev \<longleftrightarrow> mu_price ev = rq_price (po_req po) \<and> mu_side ev = rq_side (po_req po)"

definition gone_ahead :: "PendingOrder \<Rightarrow> MEMarketUpdate \<Rightarrow> nat" where
  "gone_ahead po ev =
     (if at_order po ev \<and> (mu_type ev = TRADE \<or> mu_type ev = CANCEL) \<and> mu_priority ev \<le> priority_watermark po
      then unat (mu_qty ev) else 0)"

text \<open>What a trade leaves for the order when the quantity \<open>n\<close> is ahead of it.\<close>

definition offered :: "PendingOrder \<Rightarrow> nat \<Rightarrow> MEMarketUpdate \<Rightarrow> nat" where
  "offered po n ev =
     (if at_order po ev \<and> mu_type ev = TRADE
      then if mu_priority ev \<le> priority_watermark po then unat (mu_qty ev) - n
           else if n = 0 then unat (mu_qty ev) else 0
      else 0)"

lemma unat_minus_min: "unat (a - min b a) = unat a - unat b" "unat (b - min b a) = unat b - unat a" for a b :: Qty
  by (simp_all add: unat_sub unat_min)

lemma sim_event_order_entry:
  assumes s: "sim_event_order ev (k, po) f = (kept, f1)" and po: "queue_aware po" "0 < po_leaves_qty po" "rq_order_id (po_req po) = k"
  shows "\<exists>po' rs. fsim_out f1 = fsim_out f @ rs \<and>
    exec_of k rs = min (unat (po_leaves_qty po)) (offered po (unat (queue_ahead_qty po)) ev) \<and>
    po_req po' = po_req po \<and> priority_watermark po' = priority_watermark po \<and> queue_aware po' \<and>
    unat (queue_ahead_qty po') = unat (queue_ahead_qty po) - gone_ahead po ev \<and>
    unat (po_leaves_qty po') = unat (po_leaves_qty po) - offered po (unat (queue_ahead_qty po)) ev \<and>
    kept = (if po_leaves_qty po' = 0 then None else Some (k, po'))"
proof (cases "at_order po ev \<and> mu_type ev = TRADE")
  case False
  let ?po1 = "if gone_ahead po ev = 0 then po else po\<lparr>queue_ahead_qty := queue_ahead_qty po - min (mu_qty ev) (queue_ahead_qty po)\<rparr>"
  have "queue_ahead_qty po - min (mu_qty ev) (queue_ahead_qty po) = queue_ahead_qty po" if "mu_qty ev = 0"
    using that by (simp add: min_def)
  then have k: "kept = Some (k, ?po1)" "f1 = f"
    using s False po(1) by (auto simp: sim_event_order_def at_order_def gone_ahead_def unat_eq_zero split: if_splits)
  have "unat (queue_ahead_qty ?po1) = unat (queue_ahead_qty po) - gone_ahead po ev"
    by (auto simp: unat_minus_min gone_ahead_def)
  then show ?thesis using k po False
    by (intro exI [of _ ?po1] exI [of _ "[]"]) (auto simp: offered_def)
next
  case True
  let ?c = "if mu_priority ev \<le> priority_watermark po then min (mu_qty ev) (queue_ahead_qty po) else 0"
  let ?po1 = "po\<lparr>queue_ahead_qty := queue_ahead_qty po - ?c\<rparr>"
  let ?o = "offered po (unat (queue_ahead_qty po)) ev"
  have ahead: "unat (queue_ahead_qty ?po1) = unat (queue_ahead_qty po) - gone_ahead po ev"
    using True by (simp add: unat_minus_min gone_ahead_def)
  have z: "queue_ahead_qty ?po1 = 0 \<longleftrightarrow> unat (queue_ahead_qty po) - gone_ahead po ev = 0"
    unfolding ahead [symmetric] by (simp add: unat_eq_zero)
  have left: "?o = (if queue_ahead_qty ?po1 = 0 then unat (mu_qty ev - ?c) else 0)"
    unfolding z using True by (auto simp: offered_def gone_ahead_def unat_minus_min)
  show ?thesis
  proof (cases "queue_ahead_qty ?po1 = 0 \<and> mu_qty ev - ?c > 0")
    case fill: True
    let ?fill = "min (po_leaves_qty po) (mu_qty ev - ?c)"
    let ?po2 = "?po1\<lparr>po_leaves_qty := po_leaves_qty po - ?fill\<rparr>"
    let ?r = "\<lparr>rs_type = FILLED, rs_client_id = rq_client_id (po_req po), rs_ticker_id = rq_ticker_id (po_req po),
       rs_client_order_id = k, rs_market_order_id = next_market_order_id f, rs_side = rq_side (po_req po),
       rs_price = rq_price (po_req po), rs_exec_qty = ?fill, rs_leaves_qty = po_leaves_qty po - ?fill\<rparr>"
    have out: "kept = (if po_leaves_qty ?po2 = 0 then None else Some (k, ?po2))" "fsim_out f1 = fsim_out f @ [?r]"
      using s fill True po by (auto simp: sim_event_order_def at_order_def Let_def)
    have o: "unat (mu_qty ev - ?c) = ?o" using left fill by simp
    have "exec_of k [?r] = min (unat (po_leaves_qty po)) ?o" by (simp add: unat_min o)
    moreover have "unat (po_leaves_qty ?po2) = unat (po_leaves_qty po) - ?o"
      by (simp add: min.commute [of "po_leaves_qty po"] unat_minus_min o)
    ultimately show ?thesis using out po ahead
      by (intro exI [of _ ?po2] exI [of _ "[?r]"]) (simp del: exec_of_simps)
  next
    case none: False
    have "?o = 0" using left none by (auto simp: word_gt_0 unat_eq_zero)
    moreover have "kept = Some (k, ?po1)" "f1 = f"
      using s none True po(1) by (auto simp: sim_event_order_def at_order_def Let_def split: if_splits)
    ultimately show ?thesis using po ahead by (intro exI [of _ ?po1] exI [of _ "[]"]) simp
  qed
qed

text \<open>The other entries of the map: a loop neither fills this order for them nor changes its entry.\<close>

definition keyed :: "pending_map \<Rightarrow> bool" where
  "keyed L \<longleftrightarrow> distinct (map fst L) \<and> (\<forall>(j, po) \<in> set L. rq_order_id (po_req po) = j)"

lemma entry_turn_other:
  assumes "entry_turn (j, po) f kept f1" and "rq_order_id (po_req po) = j"
  shows "\<exists>rs. fsim_out f1 = fsim_out f @ rs \<and> (\<forall>k. k \<noteq> j \<longrightarrow> exec_of k rs = 0)"
    "kept_list kept = [] \<or> (\<exists>po'. kept_list kept = [(j, po')] \<and> rq_order_id (po_req po') = j)"
  using assms by (fastforce simp: entry_turn_def fill_of_def kept_list_def split: if_splits)+

lemma sweep_other:
  assumes "sweep (sim_event_order ev) L f = (kept, f1)" and "keyed L"
  shows "keyed kept \<and> fst ` set kept \<subseteq> fst ` set L \<and>
    (\<exists>rs. fsim_out f1 = fsim_out f @ rs \<and> (\<forall>k. k \<notin> fst ` set L \<longrightarrow> exec_of k rs = 0))"
  using assms
proof (induction L arbitrary: f kept f1)
  case Nil
  then show ?case by simp
next
  case (Cons x L)
  obtain j po where x: "x = (j, po)" by (cases x)
  obtain o1 f2 where s: "sim_event_order ev (j, po) f = (o1, f2)" by (cases "sim_event_order ev (j, po) f")
  obtain rest f3 where r: "sweep (sim_event_order ev) L f2 = (rest, f3)" by (cases "sweep (sim_event_order ev) L f2")
  have k: "kept = kept_list o1 @ rest" "f1 = f3" using Cons.prems(1) s r x by (auto simp: kept_list_def split: option.splits)
  have j: "rq_order_id (po_req po) = j" "keyed L" "j \<notin> fst ` set L" using Cons.prems(2) x by (auto simp: keyed_def)
  note t = entry_turn_other [OF sim_event_order_turn [OF s] j(1)]
  from Cons.IH [OF r j(2)] have rest: "keyed rest" "fst ` set rest \<subseteq> fst ` set L" by blast+
  obtain rs where rs: "fsim_out f2 = fsim_out f @ rs" "\<forall>k. k \<noteq> j \<longrightarrow> exec_of k rs = 0" using t(1) by blast
  obtain rs' where rs': "fsim_out f3 = fsim_out f2 @ rs'" "\<forall>k. k \<notin> fst ` set L \<longrightarrow> exec_of k rs' = 0"
    using Cons.IH [OF r j(2)] by blast
  have "\<forall>po. (j, po) \<notin> set rest" using rest(2) j(3) by force
  then have "keyed kept \<and> fst ` set kept \<subseteq> fst ` set (x # L)" using t(2) rest k(1) x by (auto simp: keyed_def)
  moreover have "fsim_out f1 = fsim_out f @ (rs @ rs') \<and> (\<forall>k. k \<notin> fst ` set (x # L) \<longrightarrow> exec_of k (rs @ rs') = 0)"
    using rs rs' k(2) x by simp
  ultimately show ?case by blast
qed

lemma keyed_order:
  assumes "hash_order order" and "keyed L"
  shows "keyed (order L)" "set (order L) = set L"
  using assms(2) hash_order.order_set [OF assms(1), of L] hash_order.order_distinct [OF assms(1), of fst L]
  by (simp_all add: keyed_def)

lemma sweep_append:
  "sweep step (xs @ ys) s = (case sweep step xs s of (kept, s1) \<Rightarrow> case sweep step ys s1 of (rest, s2) \<Rightarrow> (kept @ rest, s2))"
  by (induction xs arbitrary: s) (simp_all split: prod.splits option.splits)

text \<open>One event, for one of the orders: what it executes, what is then ahead and left.\<close>

definition entry_after :: "PendingOrder \<Rightarrow> nat \<Rightarrow> nat \<Rightarrow> PendingOrder \<Rightarrow> bool" where
  "entry_after po n l po' \<longleftrightarrow> po_req po' = po_req po \<and> priority_watermark po' = priority_watermark po \<and> queue_aware po' \<and>
     unat (queue_ahead_qty po') = n \<and> unat (po_leaves_qty po') = l"

lemma sweep_entry:
  assumes s: "sweep (sim_event_order ev) L f = (kept, f1)" and L: "keyed L" "(k, po) \<in> set L"
    and po: "queue_aware po" "0 < po_leaves_qty po"
  shows "\<exists>po' rs. keyed kept \<and> fsim_out f1 = fsim_out f @ rs \<and>
    exec_of k rs = min (unat (po_leaves_qty po)) (offered po (unat (queue_ahead_qty po)) ev) \<and>
    entry_after po (unat (queue_ahead_qty po) - gone_ahead po ev)
      (unat (po_leaves_qty po) - offered po (unat (queue_ahead_qty po)) ev) po' \<and>
    (if po_leaves_qty po' = 0 then k \<notin> fst ` set kept else (k, po') \<in> set kept)"
proof -
  from split_list [OF L(2)] obtain L1 L2 where L12: "L = L1 @ (k, po) # L2" by blast
  have id: "rq_order_id (po_req po) = k" and k: "keyed L1" "keyed L2" "k \<notin> fst ` set L1" "k \<notin> fst ` set L2"
    using L(1) L12 by (auto simp: keyed_def)
  obtain kept1 g1 where s1: "sweep (sim_event_order ev) L1 f = (kept1, g1)" by (cases "sweep (sim_event_order ev) L1 f")
  obtain o2 g2 where s2: "sim_event_order ev (k, po) g1 = (o2, g2)" by (cases "sim_event_order ev (k, po) g1")
  obtain kept3 g3 where s3: "sweep (sim_event_order ev) L2 g2 = (kept3, g3)" by (cases "sweep (sim_event_order ev) L2 g2")
  have kept: "kept = kept1 @ kept_list o2 @ kept3" "f1 = g3"
    using s s1 s2 s3 by (auto simp: L12 sweep_append kept_list_def split: option.splits)
  from sweep_other [OF s1 k(1)] obtain rs1 where r1: "fsim_out g1 = fsim_out f @ rs1" "exec_of k rs1 = 0"
    "fst ` set kept1 \<subseteq> fst ` set L1" using k(3) by blast
  from sweep_other [OF s3 k(2)] obtain rs3 where r3: "fsim_out g3 = fsim_out g2 @ rs3" "exec_of k rs3 = 0"
    "fst ` set kept3 \<subseteq> fst ` set L2" using k(4) by blast
  from sim_event_order_entry [OF s2 po id] obtain po' rs2 where r2: "fsim_out g2 = fsim_out g1 @ rs2"
    "exec_of k rs2 = min (unat (po_leaves_qty po)) (offered po (unat (queue_ahead_qty po)) ev)"
    "entry_after po (unat (queue_ahead_qty po) - gone_ahead po ev)
      (unat (po_leaves_qty po) - offered po (unat (queue_ahead_qty po)) ev) po'"
    "o2 = (if po_leaves_qty po' = 0 then None else Some (k, po'))" unfolding entry_after_def by blast
  have "k \<notin> fst ` set kept1" "k \<notin> fst ` set kept3" using r1(3) r3(3) k(3,4) by blast+
  then have "if po_leaves_qty po' = 0 then k \<notin> fst ` set kept else (k, po') \<in> set kept"
    unfolding kept(1) by (auto simp: r2(4) kept_list_def)
  moreover have "keyed kept" using sweep_other [OF s L(1)] by blast
  ultimately show ?thesis using r1(1,2) r2(1-3) r3(1,2) kept(2)
    by (intro exI [of _ po'] exI [of _ "rs1 @ rs2 @ rs3"]) simp
qed

lemma event_watermark_out:
  "\<exists>f1. fsim_out f1 = fsim_out f \<and> fsim_pending f1 = fsim_pending f \<and>
     onSimMarketEvent order ev f = (case sweep (sim_event_order ev) (order (fsim_pending f)) f1 of (kept, f2) \<Rightarrow> f2\<lparr>fsim_pending := kept\<rparr>)"
  by (rule exI [of _ "if mu_priority ev \<noteq> Priority_INVALID \<and> mu_priority ev > global_priority_watermark f
      then f\<lparr>global_priority_watermark := mu_priority ev\<rparr> else f"]) (simp add: onSimMarketEvent_def Let_def)

lemma events_other:
  assumes h: "hash_order order"
  shows "keyed (fsim_pending f) \<Longrightarrow> k \<notin> fst ` set (fsim_pending f) \<Longrightarrow>
    exec_of k (fsim_out (fold (onSimMarketEvent order) evs f)) = exec_of k (fsim_out f)"
proof (induction evs arbitrary: f)
  case Nil
  then show ?case by simp
next
  case (Cons ev evs)
  obtain f1 where f1: "fsim_out f1 = fsim_out f" "onSimMarketEvent order ev f =
      (case sweep (sim_event_order ev) (order (fsim_pending f)) f1 of (kept, f2) \<Rightarrow> f2\<lparr>fsim_pending := kept\<rparr>)"
    using event_watermark_out by blast
  obtain kept f2 where s: "sweep (sim_event_order ev) (order (fsim_pending f)) f1 = (kept, f2)"
    by (cases "sweep (sim_event_order ev) (order (fsim_pending f)) f1")
  note o = keyed_order [OF h Cons.prems(1)]
  from sweep_other [OF s o(1)] obtain rs where r: "keyed kept" "fst ` set kept \<subseteq> fst ` set (fsim_pending f)"
    "fsim_out f2 = fsim_out f1 @ rs" "exec_of k rs = 0" using Cons.prems(2) o(2) by auto
  then show ?case using Cons.IH [of "f2\<lparr>fsim_pending := kept\<rparr>"] Cons.prems(2) f1 s by auto
qed

text \<open>
  The events in a row: the quantity ahead when the \<open>i\<close>th comes is what was ahead less what the earlier ones took out.
\<close>

definition offered_total :: "PendingOrder \<Rightarrow> nat \<Rightarrow> MEMarketUpdate list \<Rightarrow> nat" where
  "offered_total po n evs = (\<Sum>i<length evs. offered po (n - (\<Sum>j<i. gone_ahead po (evs ! j))) (evs ! i))"

lemma offered_total_simps [simp]:
  "offered_total po n [] = 0"
  "offered_total po n (ev # evs) = offered po n ev + offered_total po (n - gone_ahead po ev) evs"
  by (simp_all add: offered_total_def sum.lessThan_Suc_shift del: sum.lessThan_Suc)

lemma entry_after_offered:
  assumes "entry_after po n l po'"
  shows "offered_total po' m evs = offered_total po m evs"
proof -
  have "offered po' = offered po" "gone_ahead po' = gone_ahead po"
    using assms by (simp_all add: entry_after_def offered_def gone_ahead_def at_order_def fun_eq_iff)
  then show ?thesis by (simp add: offered_total_def)
qed

lemma min_split: "min l a + min (l - a) b = min l (a + b)" for l :: nat
  by linarith

lemma events_exact:
  assumes h: "hash_order order"
  shows "keyed (fsim_pending f) \<Longrightarrow> (k, po) \<in> set (fsim_pending f) \<Longrightarrow> queue_aware po \<Longrightarrow> 0 < po_leaves_qty po \<Longrightarrow>
    exec_of k (fsim_out (fold (onSimMarketEvent order) evs f)) =
      exec_of k (fsim_out f) + min (unat (po_leaves_qty po)) (offered_total po (unat (queue_ahead_qty po)) evs)"
proof (induction evs arbitrary: f po)
  case Nil
  then show ?case by simp
next
  case (Cons ev evs)
  let ?n = "unat (queue_ahead_qty po)" and ?l = "unat (po_leaves_qty po)"
  obtain f1 where f1: "fsim_out f1 = fsim_out f" "onSimMarketEvent order ev f =
      (case sweep (sim_event_order ev) (order (fsim_pending f)) f1 of (kept, f2) \<Rightarrow> f2\<lparr>fsim_pending := kept\<rparr>)"
    using event_watermark_out by blast
  obtain kept f2 where s: "sweep (sim_event_order ev) (order (fsim_pending f)) f1 = (kept, f2)"
    by (cases "sweep (sim_event_order ev) (order (fsim_pending f)) f1")
  note o = keyed_order [OF h Cons.prems(1)]
  have m: "(k, po) \<in> set (order (fsim_pending f))" using Cons.prems(2) o(2) by simp
  from sweep_entry [OF s o(1) m Cons.prems(3,4)] obtain po' rs where e: "keyed kept" "fsim_out f2 = fsim_out f1 @ rs"
    "exec_of k rs = min ?l (offered po ?n ev)" "entry_after po (?n - gone_ahead po ev) (?l - offered po ?n ev) po'"
    "if po_leaves_qty po' = 0 then k \<notin> fst ` set kept else (k, po') \<in> set kept" by blast
  have a: "queue_aware po'" "unat (queue_ahead_qty po') = ?n - gone_ahead po ev" "unat (po_leaves_qty po') = ?l - offered po ?n ev"
    using e(4) by (simp_all add: entry_after_def)
  let ?f2 = "f2\<lparr>fsim_pending := kept\<rparr>"
  have f2: "onSimMarketEvent order ev f = ?f2" using f1(2) s by simp
  have out: "exec_of k (fsim_out ?f2) = exec_of k (fsim_out f) + min ?l (offered po ?n ev)" using f1(1) e(2,3) by simp
  show ?case
  proof (cases "po_leaves_qty po' = 0")
    case True
    then have "?l \<le> offered po ?n ev" using a(3) by simp
    then show ?thesis using True e(1,5) events_other [OF h, of ?f2 k evs] out by (simp add: f2)
  next
    case False
    then have "exec_of k (fsim_out (fold (onSimMarketEvent order) evs ?f2)) = exec_of k (fsim_out ?f2) +
        min (unat (po_leaves_qty po')) (offered_total po' (unat (queue_ahead_qty po')) evs)"
      using Cons.IH [of ?f2 po'] e(1,5) a(1) by (simp add: word_gt_0)
    then show ?thesis using out a(2,3) min_split entry_after_offered [OF e(4)] by (simp add: f2)
  qed
qed

subsection \<open>Properties\<close>

text \<open>
  C22. No order is filled beyond its quantity or its limit: over any run of the simulator, in either mode, with any
  market events, any best prices and any iteration order of the hash map, client order ids not reused, the fills of an
  order sum to at most its quantity, and each is for an order that was sent, on its side, at its price or better.
\<close>

theorem fills_within_orders:
  assumes "hash_order order" and "fill_simulator_new mode has_book has_events = Inr f0"
    and "distinct (map rq_order_id (filter (\<lambda>r. rq_type r = NEW) (run_requests rounds)))"
  shows "exec_of k (fsim_out (fs_run order rounds f0)) \<le>
      (\<Sum>r \<leftarrow> filter (\<lambda>r. rq_type r = NEW \<and> rq_order_id r = k) (run_requests rounds). unat (rq_qty r)) \<and>
    (\<forall>r \<in> set (fsim_out (fs_run order rounds f0)). rs_type r = FILLED \<longrightarrow>
      (\<exists>q \<in> set (run_requests rounds). rq_type q = NEW \<and> rq_order_id q = rs_client_order_id r \<and> within_limit q r))"
proof -
  let ?rs = "run_requests rounds" and ?f = "fs_run order rounds f0" and ?o = "note_orders (run_requests rounds) (\<lambda>_. None)"
  have "fresh_ids ?rs (\<lambda>_. None)" using assms(3) by (simp add: fresh_ids_def)
  from fs_run_inv [OF assms(1) new_simulator_inv [OF assms(2)] this] have inv: "sim_inv ?o (fsim_pending ?f) ?f" .
  from inv have most: "exec_of k (fsim_out ?f) \<le> (case ?o k of None \<Rightarrow> 0 | Some q \<Rightarrow> unat (rq_qty q))" unfolding sim_inv_def by blast
  have "exec_of k (fsim_out ?f) \<le> (\<Sum>r \<leftarrow> filter (\<lambda>r. rq_type r = NEW \<and> rq_order_id r = k) ?rs. unat (rq_qty r))"
  proof (cases "?o k")
    case None
    then show ?thesis using most by simp
  next
    case (Some q)
    then have "q \<in> set (filter (\<lambda>r. rq_type r = NEW \<and> rq_order_id r = k) ?rs)" using note_orders_some [OF Some] by simp
    then have "unat (rq_qty q) \<le> (\<Sum>r \<leftarrow> filter (\<lambda>r. rq_type r = NEW \<and> rq_order_id r = k) ?rs. unat (rq_qty r))"
      by (intro member_le_sum_list) auto
    moreover have "exec_of k (fsim_out ?f) \<le> unat (rq_qty q)" using most Some by simp
    ultimately show ?thesis by (rule order_trans [rotated])
  qed
  moreover have "\<exists>q \<in> set ?rs. rq_type q = NEW \<and> rq_order_id q = rs_client_order_id r \<and> within_limit q r"
    if "r \<in> set (fsim_out ?f)" "rs_type r = FILLED" for r
  proof -
    from inv that obtain q where "?o (rs_client_order_id r) = Some q" "within_limit q r" unfolding sim_inv_def by blast
    then show ?thesis using note_orders_some by fastforce
  qed
  ultimately show ?thesis by blast
qed

definition demo_sim :: fill_simulator where
  "demo_sim = \<lparr>fsim_mode = AGGRESSIVE_ONLY, fsim_has_book = False, fsim_out = [], global_priority_watermark = 0, fsim_pending = [],
     next_market_order_id = 1, fills_emitted = 0, passive_fills_emitted = 0\<rparr>"

definition demo_buy :: MEClientRequest where
  "demo_buy = \<lparr>rq_type = NEW, rq_client_id = 1, rq_ticker_id = 0, rq_order_id = 7, rq_side = BUY, rq_price = 101, rq_qty = 10\<rparr>"

definition demo_rounds :: "sim_round list" where
  "demo_rounds = [([(BBO_default, demo_buy)], [], \<lparr>bid_price = 99, ask_price = 100, bid_qty = 5, ask_qty = 8\<rparr>, \<lambda>_. BBO_default)]"

theorem fills_within_orders_witness:
  "exec_of 7 (fsim_out (fs_run (\<lambda>xs. xs) demo_rounds demo_sim)) \<le> 10 \<and>
   exec_of 7 (fsim_out (fs_run (\<lambda>xs. xs) demo_rounds demo_sim)) = 8"
proof -
  have "fill_simulator_new AGGRESSIVE_ONLY False False = Inr demo_sim" by (simp add: fill_simulator_new_def demo_sim_def)
  from fills_within_orders [OF as_listed.hash_order_axioms this, of demo_rounds 7]
  have "exec_of 7 (fsim_out (fs_run (\<lambda>xs. xs) demo_rounds demo_sim)) \<le> 10"
    by (simp add: run_requests_def demo_rounds_def demo_buy_def)
  moreover have "exec_of 7 (fsim_out (fs_run (\<lambda>xs. xs) demo_rounds demo_sim)) = 8"
    by (simp add: fs_run_def demo_rounds_def fs_round_def fs_request_def demo_buy_def demo_sim_def fs_aggressive_def
        aggressive_order_def bboChanged_def BBO_default_def Price_INVALID_def Qty_INVALID_def tryAggressiveFill_def avail_def exec_of_def)
  ultimately show ?thesis by simp
qed

text \<open>
  C23. The queue position is honoured exactly. Take any of the pending orders that is queue-aware, whatever other
  orders are pending and in whatever order the map holds them, and any market events one after the other. The quantity
  ahead of it at each event is what was ahead at first less the trades and cancels, so far, of orders that were there
  before it (\<open>gone_ahead\<close>). A trade of such an order fills it by what exceeds the quantity then ahead, in the same
  event; a trade of an order behind it by its whole quantity once nothing is ahead, and not before. Over all the events
  it is filled by the sum of these, and at most by what is left of it; nothing else fills it. (That what is left of a trade after the
  queue ahead fills the order at once is what the comment in \<open>onSimMarketEvent\<close> says; the header speaks of the next trade.)
\<close>

theorem queue_position_exact:
  assumes "hash_order order" and "keyed (fsim_pending f)" and "(k, po) \<in> set (fsim_pending f)"
    and "queue_aware po" and "0 < po_leaves_qty po"
  shows "exec_of k (fsim_out (fold (onSimMarketEvent order) evs f)) = exec_of k (fsim_out f) +
    min (unat (po_leaves_qty po))
      (\<Sum>i<length evs. offered po (unat (queue_ahead_qty po) - (\<Sum>j<i. gone_ahead po (evs ! j))) (evs ! i))"
  using events_exact [OF assms] by (simp add: offered_total_def)

definition demo_resting :: "MEClientRequest \<Rightarrow> PendingOrder" where
  "demo_resting r = \<lparr>po_req = r, bbo_at_submit = BBO_default, po_leaves_qty = 10, queue_ahead_qty = 12,
     priority_watermark = 3, queue_aware = True\<rparr>"

definition demo_event :: "MarketUpdateType \<Rightarrow> Qty \<Rightarrow> Priority \<Rightarrow> MEMarketUpdate" where
  "demo_event t n p = \<lparr>mu_type = t, mu_order_id = 2, mu_ticker_id = 0, mu_side = BUY, mu_price = 101, mu_qty = n, mu_priority = p\<rparr>"

text \<open>
  12 ahead of it: a trade of 5 and a cancel of 4 leave 3; a trade behind it does nothing; a trade of 5 ahead fills 2 in
  the same event; a trade of 3 behind it fills 3. Another order at the same price does not matter.
\<close>

theorem queue_position_exact_witness:
  "exec_of 7 (fsim_out (fold (onSimMarketEvent rev)
     [demo_event TRADE 5 2, demo_event CANCEL 4 3, demo_event TRADE 6 4, demo_event TRADE 5 1, demo_event TRADE 3 5]
     (demo_sim\<lparr>fsim_pending := [(7, demo_resting demo_buy), (8, demo_resting (demo_buy\<lparr>rq_order_id := 8\<rparr>))]\<rparr>))) = 5"
proof -
  have h: "hash_order rev" by unfold_locales simp
  have "exec_of 7 (fsim_out demo_sim) = 0" by (simp add: demo_sim_def)
  then show ?thesis
    using queue_position_exact [OF h, folded offered_total_def, of "demo_sim\<lparr>fsim_pending := [(7, demo_resting demo_buy), (8, demo_resting (demo_buy\<lparr>rq_order_id := 8\<rparr>))]\<rparr>"
      7 "demo_resting demo_buy" "[demo_event TRADE 5 2, demo_event CANCEL 4 3, demo_event TRADE 6 4, demo_event TRADE 5 1, demo_event TRADE 3 5]"]
    by (simp add: keyed_def demo_resting_def demo_event_def demo_buy_def offered_def gone_ahead_def at_order_def)
qed

end
