(* ===== verification/Replay.thy ===== *)
theory Replay
  imports Doubles Messages
begin

text \<open>
  \<open>backtest/lobster_replay.cpp\<close>: the lines of a LOBSTER file become market updates numbered from 1. The splitting of
  a line into fields and the reading of integers are shared with \<open>BinanceReplay\<close>.

  \<^item> A file is the list of its lines. What is written to the output queues, the same to both, is the list of updates;
    waiting for room in the queues changes none of them.
  \<^item> \<open>std::from_chars\<close> on integers reads the longest number and leaves the value alone when there is none or it does
    not fit the type.
  \<^item> \<open>refs_ok\<close> says that every update that is not an ADD is about an order added before and not cancelled since.
\<close>

subsection \<open>Fields and numbers\<close>

definition nextField :: "string \<Rightarrow> string \<times> string" where
  "nextField s = (takeWhile (\<lambda>c. c \<noteq> CHR '','') s, drop 1 (dropWhile (\<lambda>c. c \<noteq> CHR '','') s))"

definition is_digit :: "char \<Rightarrow> bool" where
  "is_digit c \<longleftrightarrow> 48 \<le> (of_char c :: nat) \<and> (of_char c :: nat) \<le> 57"

definition digits_value :: "string \<Rightarrow> nat" where
  "digits_value ds = foldl (\<lambda>n c. 10 * n + (of_char c - 48)) 0 ds"

definition from_chars_int :: "bool \<Rightarrow> int \<Rightarrow> int \<Rightarrow> string \<Rightarrow> int" where
  "from_chars_int sg lo hi s =
     (let neg = (sg \<and> s \<noteq> [] \<and> hd s = CHR ''-'');
          ds = takeWhile is_digit (if neg then tl s else s);
          v = (if neg then - int (digits_value ds) else int (digits_value ds)) in
      if ds = [] \<or> v < lo \<or> hi < v then 0 else v)"

definition parse_int32 :: "string \<Rightarrow> int" where "parse_int32 = from_chars_int True (- (2 ^ 31)) (2 ^ 31 - 1)"

definition parse_int64 :: "string \<Rightarrow> int" where "parse_int64 = from_chars_int True (- (2 ^ 63)) (2 ^ 63 - 1)"

definition parse_uint32 :: "string \<Rightarrow> int" where "parse_uint32 = from_chars_int False 0 (2 ^ 32 - 1)"

definition parse_uint64 :: "string \<Rightarrow> int" where "parse_uint64 = from_chars_int False 0 (2 ^ 64 - 1)"

lemma from_chars_int_range: "lo \<le> 0 \<Longrightarrow> 0 \<le> hi \<Longrightarrow> lo \<le> from_chars_int sg lo hi s \<and> from_chars_int sg lo hi s \<le> hi"
  by (auto simp: from_chars_int_def Let_def)

subsection \<open>LOBSTER\<close>

definition mapType :: "int \<Rightarrow> MarketUpdateType" where
  "mapType lobster_type =
     (if lobster_type = 1 then ADD else if lobster_type = 2 then MODIFY else if lobster_type = 3 then CANCEL
      else if lobster_type = 4 then TRADE else if lobster_type = 5 then TRADE else Update_INVALID)"

record lobster_replay =
  lr_ticker_id :: TickerId
  lobster_id_to_slot :: "64 word \<Rightarrow> OrderId option"
  next_slot :: OrderId
  lr_seq_num :: "64 word"
  lr_emitted :: "MDPMarketUpdate list"
  lr_skipped :: nat

definition lobster_replay_new :: "TickerId \<Rightarrow> lobster_replay" where
  "lobster_replay_new ticker = \<lparr>lr_ticker_id = ticker, lobster_id_to_slot = (\<lambda>_. None), next_slot = 0, lr_seq_num = 1,
     lr_emitted = [], lr_skipped = 0\<rparr>"

record lobster_row =
  row_type :: string
  row_oid :: string
  row_size :: string
  row_price :: string
  row_dir :: string

definition lobster_fields :: "string \<Rightarrow> lobster_row" where
  "lobster_fields line =
     (case nextField line of (_, s0) \<Rightarrow>
      case nextField s0 of (type_field, s1) \<Rightarrow>
      case nextField s1 of (oid_field, s2) \<Rightarrow>
      case nextField s2 of (size_field, s3) \<Rightarrow>
      case nextField s3 of (price_field, s4) \<Rightarrow>
      case nextField s4 of (dir_field, _) \<Rightarrow>
      \<lparr>row_type = type_field, row_oid = oid_field, row_size = size_field, row_price = price_field, row_dir = dir_field\<rparr>)"

definition lr_skip :: "lobster_replay \<Rightarrow> lobster_replay" where
  "lr_skip r = r\<lparr>lr_skipped := lr_skipped r + 1\<rparr>"

text \<open>Building and writing the update of a row whose order has the given slot.\<close>

definition lr_emit :: "MarketUpdateType \<Rightarrow> OrderId \<Rightarrow> lobster_row \<Rightarrow> lobster_replay \<Rightarrow> lobster_replay" where
  "lr_emit ty slot row r =
     (let me = \<lparr>mu_type = ty, mu_order_id = slot, mu_ticker_id = lr_ticker_id r,
          mu_side = (if parse_int32 (row_dir row) = 1 then BUY else SELL), mu_price = parse_int64 (row_price row),
          mu_qty = word_of_int (parse_uint32 (row_size row)), mu_priority = slot\<rparr> in
      r\<lparr>lr_seq_num := lr_seq_num r + 1,
        lr_emitted := lr_emitted r @ [\<lparr>mdp_seq_num = lr_seq_num r, me_market_update = me\<rparr>]\<rparr>)"

text \<open>One line; \<open>None\<close> is the \<open>break\<close> when the slots have run out.\<close>

definition lobster_line :: "string \<Rightarrow> lobster_replay \<Rightarrow> lobster_replay option" where
  "lobster_line line r =
     (if line = [] then Some r
      else let row = lobster_fields line; mu = mapType (parse_int32 (row_type row)) in
        if mu = Update_INVALID then Some (lr_skip r)
        else let oid = word_of_int (parse_uint64 (row_oid row)) in
          case lobster_id_to_slot r oid of
            Some slot \<Rightarrow>
              let r1 = lr_emit mu slot row r in
              Some (if mu = CANCEL then r1\<lparr>lobster_id_to_slot := (lobster_id_to_slot r1)(oid := None)\<rparr> else r1)
          | None \<Rightarrow>
              if mu \<noteq> ADD then Some (lr_skip r)
              else if ME_MAX_ORDER_IDS \<le> unat (next_slot r) then None
              else let slot = next_slot r in
                Some (lr_emit mu slot row (r\<lparr>next_slot := next_slot r + 1,
                        lobster_id_to_slot := (lobster_id_to_slot r)(oid \<mapsto> slot)\<rparr>)))"

fun lobster_run :: "string list \<Rightarrow> lobster_replay \<Rightarrow> lobster_replay" where
  "lobster_run [] r = r"
| "lobster_run (line # lines) r = (case lobster_line line r of None \<Rightarrow> r | Some r1 \<Rightarrow> lobster_run lines r1)"

text \<open>What the client's book needs of a stream: every update but an ADD is about an order added and not cancelled.\<close>

fun refs_ok :: "OrderId set \<Rightarrow> MEMarketUpdate list \<Rightarrow> bool" where
  "refs_ok live [] = True"
| "refs_ok live (u # us) =
     (if mu_type u = ADD then unat (mu_order_id u) < ME_MAX_ORDER_IDS \<and> refs_ok (insert (mu_order_id u) live) us
      else mu_order_id u \<in> live \<and> refs_ok (if mu_type u = CANCEL then live - {mu_order_id u} else live) us)"

fun live_after :: "OrderId set \<Rightarrow> MEMarketUpdate list \<Rightarrow> OrderId set" where
  "live_after live [] = live"
| "live_after live (u # us) =
     live_after (if mu_type u = ADD then insert (mu_order_id u) live else if mu_type u = CANCEL then live - {mu_order_id u} else live) us"

lemma refs_ok_append: "refs_ok live (us @ vs) \<longleftrightarrow> refs_ok live us \<and> refs_ok (live_after live us) vs"
  by (induction us arbitrary: live) auto

lemma live_after_append: "live_after live (us @ vs) = live_after (live_after live us) vs"
  by (induction us arbitrary: live) auto

fun numbered_from :: "64 word \<Rightarrow> MDPMarketUpdate list \<Rightarrow> bool" where
  "numbered_from n [] = True"
| "numbered_from n (m # ms) = (mdp_seq_num m = n \<and> numbered_from (n + 1) ms)"

lemma numbered_from_append: "numbered_from n (ms @ ms') \<longleftrightarrow> numbered_from n ms \<and> numbered_from (n + word_of_nat (length ms)) ms'"
  by (induction ms arbitrary: n) (auto simp: ac_simps)

definition lr_inv :: "lobster_replay \<Rightarrow> bool" where
  "lr_inv r \<longleftrightarrow> inj_on (lobster_id_to_slot r) (dom (lobster_id_to_slot r)) \<and>
     (\<forall>slot \<in> ran (lobster_id_to_slot r). unat slot < unat (next_slot r)) \<and> unat (next_slot r) \<le> ME_MAX_ORDER_IDS \<and>
     refs_ok {} (map me_market_update (lr_emitted r)) \<and>
     live_after {} (map me_market_update (lr_emitted r)) = ran (lobster_id_to_slot r) \<and>
     numbered_from 1 (lr_emitted r) \<and> lr_seq_num r = 1 + word_of_nat (length (lr_emitted r)) \<and>
     (\<forall>m \<in> set (lr_emitted r). mu_ticker_id (me_market_update m) = lr_ticker_id r)"

lemma lr_inv_new: "lr_inv (lobster_replay_new t)"
  by (simp add: lr_inv_def lobster_replay_new_def)

lemma lr_emit_simps [simp]:
  "lobster_id_to_slot (lr_emit ty slot row r) = lobster_id_to_slot r" "next_slot (lr_emit ty slot row r) = next_slot r"
  "lr_ticker_id (lr_emit ty slot row r) = lr_ticker_id r" "lr_seq_num (lr_emit ty slot row r) = lr_seq_num r + 1"
  "\<exists>m. lr_emitted (lr_emit ty slot row r) = lr_emitted r @ [m] \<and> mdp_seq_num m = lr_seq_num r \<and>
     mu_type (me_market_update m) = ty \<and> mu_order_id (me_market_update m) = slot \<and> mu_ticker_id (me_market_update m) = lr_ticker_id r"
  by (simp_all add: lr_emit_def Let_def)

lemma lr_inv_skip: "lr_inv r \<Longrightarrow> lr_inv (lr_skip r)"
  by (simp add: lr_inv_def lr_skip_def)

lemma lr_inv_known:
  assumes inv: "lr_inv r" and k: "lobster_id_to_slot r oid = Some slot" and ty: "ty \<noteq> CANCEL"
  shows "lr_inv (lr_emit ty slot row r)"
proof -
  obtain m where m: "lr_emitted (lr_emit ty slot row r) = lr_emitted r @ [m]" "mdp_seq_num m = lr_seq_num r"
    "mu_type (me_market_update m) = ty" "mu_order_id (me_market_update m) = slot" "mu_ticker_id (me_market_update m) = lr_ticker_id r"
    using lr_emit_simps(5) [of ty slot row r] by blast
  have s: "slot \<in> ran (lobster_id_to_slot r)" using k by (rule ranI)
  then have "unat slot < ME_MAX_ORDER_IDS" using inv by (fastforce simp: lr_inv_def)
  with inv s ty show ?thesis
    by (auto simp: lr_inv_def m refs_ok_append live_after_append numbered_from_append insert_absorb)
qed

lemma ran_remove:
  assumes "inj_on M (dom M)" and "M k = Some v"
  shows "ran (M(k := None)) = ran M - {v}"
proof -
  have "k \<noteq> a" if "M a = Some x" "x \<noteq> v" for a x using that assms(2) by auto
  moreover have "a = k" if "M a = Some v" for a using inj_onD [OF assms(1), of a k] that assms(2) by auto
  ultimately show ?thesis unfolding ran_def by (force split: if_splits)
qed

lemma lr_inv_cancel:
  assumes inv: "lr_inv r" and k: "lobster_id_to_slot r oid = Some slot"
  shows "lr_inv ((lr_emit CANCEL slot row r)\<lparr>lobster_id_to_slot := (lobster_id_to_slot r)(oid := None)\<rparr>)"
proof -
  obtain m where m: "lr_emitted (lr_emit CANCEL slot row r) = lr_emitted r @ [m]" "mdp_seq_num m = lr_seq_num r"
    "mu_type (me_market_update m) = CANCEL" "mu_order_id (me_market_update m) = slot" "mu_ticker_id (me_market_update m) = lr_ticker_id r"
    using lr_emit_simps(5) [of CANCEL slot row r] by blast
  have s: "slot \<in> ran (lobster_id_to_slot r)" using k by (rule ranI)
  have inj: "inj_on (lobster_id_to_slot r) (dom (lobster_id_to_slot r))" using inv by (simp add: lr_inv_def)
  then have inj': "inj_on ((lobster_id_to_slot r)(oid := None)) (dom ((lobster_id_to_slot r)(oid := None)))"
    by (auto simp: inj_on_def)
  have rn: "ran ((lobster_id_to_slot r)(oid := None)) = ran (lobster_id_to_slot r) - {slot}" by (rule ran_remove [OF inj k])
  show ?thesis using inv s inj' by (auto simp: lr_inv_def m rn refs_ok_append live_after_append numbered_from_append)
qed

lemma lr_inv_add:
  assumes inv: "lr_inv r" and n: "lobster_id_to_slot r oid = None" and room: "unat (next_slot r) < ME_MAX_ORDER_IDS"
  shows "lr_inv (lr_emit ADD (next_slot r) row (r\<lparr>next_slot := next_slot r + 1, lobster_id_to_slot := (lobster_id_to_slot r)(oid \<mapsto> next_slot r)\<rparr>))"
proof -
  let ?r = "r\<lparr>next_slot := next_slot r + 1, lobster_id_to_slot := (lobster_id_to_slot r)(oid \<mapsto> next_slot r)\<rparr>"
  obtain m where m: "lr_emitted (lr_emit ADD (next_slot r) row ?r) = lr_emitted r @ [m]" "mdp_seq_num m = lr_seq_num r"
    "mu_type (me_market_update m) = ADD" "mu_order_id (me_market_update m) = next_slot r" "mu_ticker_id (me_market_update m) = lr_ticker_id r"
    using lr_emit_simps(5) [of ADD "next_slot r" row ?r] by auto
  have nx: "unat (next_slot r + 1) = unat (next_slot r) + 1"
    using room by (simp add: unat_word_ariths ME_MAX_ORDER_IDS_def)
  have old: "\<forall>slot \<in> ran (lobster_id_to_slot r). slot \<noteq> next_slot r" using inv by (fastforce simp: lr_inv_def)
  have inj: "inj_on (lobster_id_to_slot r) (dom (lobster_id_to_slot r))" using inv by (simp add: lr_inv_def)
  have inj': "inj_on ((lobster_id_to_slot r)(oid \<mapsto> next_slot r)) (dom ((lobster_id_to_slot r)(oid \<mapsto> next_slot r)))"
    using inj old n by (auto simp: inj_on_def dom_def ran_def)
  have rn: "ran ((lobster_id_to_slot r)(oid \<mapsto> next_slot r)) = insert (next_slot r) (ran (lobster_id_to_slot r))"
    using n by simp
  have "\<forall>slot \<in> ran (lobster_id_to_slot r). unat slot < unat (next_slot r)" using inv by (simp add: lr_inv_def)
  then have "\<forall>slot \<in> ran (lobster_id_to_slot r). unat slot < unat (next_slot r + 1)" unfolding nx by auto
  with inv inj' room nx show ?thesis
    by (auto simp: lr_inv_def m rn refs_ok_append live_after_append numbered_from_append)
qed

lemma lobster_line_inv: "lr_inv r \<Longrightarrow> lobster_line line r = Some r' \<Longrightarrow> lr_inv r'"
  by (auto simp: lobster_line_def Let_def lr_inv_skip lr_inv_known lr_inv_cancel lr_inv_add split: if_splits option.splits)

lemma lobster_run_inv: "lr_inv r \<Longrightarrow> lr_inv (lobster_run lines r)"
  by (induction lines arbitrary: r) (auto intro: lobster_line_inv split: option.split)

text \<open>
  C30. What LobsterReplay writes is a well-formed stream, whatever is in the file: its updates are numbered 1, 2, 3, \<dots>
  without a gap, all carry the replay's ticker, every order id is below \<open>ME_MAX_ORDER_IDS\<close>, so the client's book can
  index its order table with it, and every update that is not an ADD is about an order that was added before and not
  cancelled since.
\<close>

theorem lobster_stream_ok:
  fixes lines :: "string list" and t :: TickerId
  defines "out \<equiv> lr_emitted (lobster_run lines (lobster_replay_new t))"
  shows "numbered_from 1 out \<and> refs_ok {} (map me_market_update out) \<and>
    list_all (\<lambda>m. mu_ticker_id (me_market_update m) = t) out"
proof -
  have t: "lr_ticker_id (lobster_run lines r) = lr_ticker_id r" for r
    by (induction lines arbitrary: r)
       (auto simp: lobster_line_def lr_skip_def Let_def split: option.splits if_splits)
  show ?thesis
    using lobster_run_inv [OF lr_inv_new [of t], of lines] t [of "lobster_replay_new t"]
    by (simp add: lr_inv_def out_def list_all_iff lobster_replay_new_def)
qed

end
