(* ===== verification/Rounding.thy ===== *)
theory Rounding
  imports Complex_Main "HOL-Library.Log_Nat" "HOL-Library.Word"
begin

text \<open>
  Rounding to a \<open>double\<close>, where the code converts the result to an integer and a unit matters: a non-negative number is
  a fraction of natural numbers, and \<open>d_round\<close> is the fraction with 53 binary digits nearest to it, half to even.
  Overflow and subnormal numbers are not modelled.
\<close>

definition round_half_even :: "nat \<Rightarrow> nat \<Rightarrow> nat" where
  "round_half_even n d =
     (let q = n div d; r = n mod d in
      if 2 * r < d then q else if d < 2 * r then q + 1 else if even q then q else q + 1)"

definition by_power :: "int \<Rightarrow> nat \<times> nat \<Rightarrow> nat \<times> nat" where
  "by_power e x = (if 0 \<le> e then (fst x, snd x * 2 ^ nat e) else (fst x * 2 ^ nat (- e), snd x))"

definition round_exponent :: "nat \<times> nat \<Rightarrow> int" where
  "round_exponent x =
     (let e = int (floorlog 2 (fst x)) - int (floorlog 2 (snd x)) - 53 in
      if snd (by_power e x) * 2 ^ 53 \<le> fst (by_power e x) then e + 1 else e)"

definition d_round :: "nat \<times> nat \<Rightarrow> nat \<times> nat" where
  "d_round x =
     (if fst x = 0 then (0, 1)
      else let e = round_exponent x; m = round_half_even (fst (by_power e x)) (snd (by_power e x)) in
        by_power (- e) (m, 1))"

subsection \<open>Rounding\<close>

definition frac_of :: "nat \<times> nat \<Rightarrow> real" where
  "frac_of x = real (fst x) / real (snd x)"

lemma round_half_even_error:
  assumes d: "0 < d"
  shows "\<bar>real (round_half_even n d) - real n / real d\<bar> \<le> 1 / 2"
proof -
  define q r where "q = n div d" and "r = n mod d"
  have n: "real n = real q * real d + real r" unfolding q_def r_def
    by (metis div_mult_mod_eq of_nat_add of_nat_mult)
  have f: "real n / real d = real q + real r / real d" using d by (simp add: n add_divide_distrib)
  have r: "real r / real d < 1" "0 \<le> real r / real d" using d by (simp_all add: r_def)
  have lo: "real r / real d \<le> 1 / 2" if "2 * r \<le> d" using that d by (simp add: divide_le_eq)
  have hi: "1 / 2 \<le> real r / real d" if "d \<le> 2 * r" using that d by (simp add: le_divide_eq)
  have cs: "round_half_even n d = (if 2 * r < d then q else if d < 2 * r then q + 1 else if even q then q else q + 1)"
    unfolding round_half_even_def Let_def q_def r_def ..
  show ?thesis unfolding f cs using r lo hi by (simp add: abs_le_iff)
qed

lemma by_power_value: "0 < snd x \<Longrightarrow> frac_of (by_power e x) = frac_of x / 2 powi e"
  by (auto simp: frac_of_def by_power_def power_int_def divide_simps)

lemma by_power_pos: "0 < snd x \<Longrightarrow> 0 < snd (by_power e x)"
  by (simp add: by_power_def)

lemma floorlog_real_bounds:
  assumes "0 < n"
  shows "2 powi (int (floorlog 2 n) - 1) \<le> real n" "real n < 2 powi int (floorlog 2 n)"
proof -
  have b: "2 ^ (floorlog 2 n - 1) \<le> n" "n < 2 ^ floorlog 2 n" using floorlog_bounds [of n 2] assms by simp_all
  have "0 < floorlog 2 n" using assms by (simp add: floorlog_def)
  then have e: "int (floorlog 2 n) - 1 = int (floorlog 2 n - 1)" by simp
  show "2 powi (int (floorlog 2 n) - 1) \<le> real n" unfolding e power_int_of_nat
    using b(1) by (metis of_nat_le_iff of_nat_numeral of_nat_power)
  show "real n < 2 powi int (floorlog 2 n)" unfolding power_int_of_nat
    using b(2) by (metis of_nat_less_iff of_nat_numeral of_nat_power)
qed

lemma round_exponent_large:
  assumes n: "0 < fst x" and d: "0 < snd x"
  shows "2 ^ 52 \<le> frac_of (by_power (round_exponent x) x)"
proof -
  define e where "e = int (floorlog 2 (fst x)) - int (floorlog 2 (snd x)) - 53"
  have ex: "round_exponent x = (if snd (by_power e x) * 2 ^ 53 \<le> fst (by_power e x) then e + 1 else e)"
    unfolding round_exponent_def e_def Let_def ..
  have lo: "2 powi (int (floorlog 2 (fst x)) - 1) / 2 powi int (floorlog 2 (snd x)) \<le> frac_of x"
    unfolding frac_of_def using floorlog_real_bounds [OF n] floorlog_real_bounds [OF d] d
    by (intro frac_le) auto
  have "2 powi (int (floorlog 2 (fst x)) - 1) / 2 powi int (floorlog 2 (snd x)) = 2 powi e * (2 ^ 52 :: real)"
  proof -
    have "(2 :: real) powi (int (floorlog 2 (fst x)) - 1) / 2 powi int (floorlog 2 (snd x)) = 2 powi (e + int 52)"
      unfolding e_def by (subst power_int_diff [symmetric]) (simp_all add: algebra_simps)
    also have "\<dots> = 2 powi e * 2 ^ 52" using power_int_add [of "2 :: real" e "int 52"] by (simp only: power_int_of_nat) simp
    finally show ?thesis .
  qed
  with lo have a: "2 ^ 52 \<le> frac_of x / 2 powi e" by (simp add: field_simps)
  show ?thesis
  proof (cases "snd (by_power e x) * 2 ^ 53 \<le> fst (by_power e x)")
    case True
    have p: "0 < snd (by_power e x)" by (rule by_power_pos [OF d])
    have "real (snd (by_power e x) * 2 ^ 53) \<le> real (fst (by_power e x))" using True by (simp only: of_nat_le_iff)
    then have "2 ^ 53 \<le> frac_of (by_power e x)" using p by (simp add: frac_of_def le_divide_eq mult.commute)
    then have "2 ^ 53 \<le> frac_of x / 2 powi e" by (simp only: by_power_value [OF d])
    then show ?thesis using True unfolding ex by (simp add: by_power_value [OF d] power_int_add field_simps)
  next
    case False
    then show ?thesis using a unfolding ex by (simp add: by_power_value [OF d])
  qed
qed

lemma d_round_error:
  assumes d: "0 < snd x"
  shows "\<bar>frac_of (d_round x) - frac_of x\<bar> \<le> frac_of x / 2 ^ 53" and "0 < snd (d_round x)"
proof -
  show "0 < snd (d_round x)" by (simp add: d_round_def Let_def by_power_def)
  show "\<bar>frac_of (d_round x) - frac_of x\<bar> \<le> frac_of x / 2 ^ 53"
  proof (cases "fst x = 0")
    case True then show ?thesis by (simp add: d_round_def frac_of_def)
  next
    case False
    define e where "e = round_exponent x"
    define y where "y = by_power e x"
    define m where "m = round_half_even (fst y) (snd y)"
    have v: "frac_of (d_round x) = real m * 2 powi e"
      using False by (simp add: d_round_def Let_def m_def y_def e_def by_power_value)
         (simp add: frac_of_def power_int_minus field_simps)
    have y: "frac_of y = frac_of x / 2 powi e" unfolding y_def by (rule by_power_value [OF d])
    have y52: "2 ^ 52 \<le> frac_of y" using round_exponent_large [OF _ d] False by (simp add: y_def e_def)
    have "\<bar>real m - frac_of y\<bar> \<le> 1 / 2"
      unfolding m_def frac_of_def by (rule round_half_even_error) (simp add: y_def by_power_pos [OF d])
    also have "\<dots> \<le> frac_of y / 2 ^ 53" using y52 by simp
    finally have "\<bar>real m - frac_of y\<bar> * 2 powi e \<le> frac_of y / 2 ^ 53 * 2 powi e" by (rule mult_right_mono) simp
    moreover have "\<bar>real m - frac_of y\<bar> * 2 powi e = \<bar>(real m - frac_of y) * 2 powi e\<bar>" by (simp add: abs_mult)
    ultimately show ?thesis unfolding v by (simp add: y left_diff_distrib)
  qed
qed

lemma truncate_near:
  assumes d: "0 < d" and e: "\<bar>frac_of (n, d) - real p\<bar> < 1"
  shows "n div d = p \<or> n div d + 1 = p"
proof -
  have lo: "real p - 1 < real n / real d" and hi: "real n / real d < real p + 1"
    using e by (simp_all add: frac_of_def abs_less_iff)
  have "real n < real ((p + 1) * d)" using hi d by (simp add: field_simps)
  then have "n < (p + 1) * d" by (simp only: of_nat_less_iff)
  then have u: "n div d < p + 1" using d by (simp add: div_less_iff_less_mult)
  have "real (p * d) < real (n + d)" using lo d by (simp add: field_simps)
  then have "p * d < n + d" by (simp only: of_nat_less_iff)
  then have "p * d < (n div d + 2) * d"
    using mod_less_divisor [OF d, of n] div_mult_mod_eq [of n d] by (simp only: add_mult_distrib mult_2)
  then have "p < n div d + 2" by (simp only: mult_less_cancel2)
  with u show ?thesis by linarith
qed

subsection \<open>Products that are cut to an integer\<close>

lemma round_exponent_small:
  assumes n: "0 < fst x" and d: "0 < snd x"
  shows "frac_of (by_power (round_exponent x) x) < 2 ^ 53"
proof -
  define e where "e = int (floorlog 2 (fst x)) - int (floorlog 2 (snd x)) - 53"
  have ex: "round_exponent x = (if snd (by_power e x) * 2 ^ 53 \<le> fst (by_power e x) then e + 1 else e)"
    unfolding round_exponent_def e_def Let_def ..
  have "frac_of x < 2 powi int (floorlog 2 (fst x)) / 2 powi (int (floorlog 2 (snd x)) - 1)"
    unfolding frac_of_def using floorlog_real_bounds [OF n] floorlog_real_bounds [OF d] d
    by (intro frac_less) auto
  also have "\<dots> = 2 powi (e + int 54)" by (simp add: e_def power_int_diff [symmetric] algebra_simps flip: power_int_of_nat)
  also have "\<dots> = 2 powi e * 2 ^ 54" using power_int_add [of "2 :: real" e "int 54"] by (simp only: power_int_of_nat) simp
  finally have u: "frac_of x / 2 powi e < 2 ^ 54" by (simp add: field_simps)
  show ?thesis
  proof (cases "snd (by_power e x) * 2 ^ 53 \<le> fst (by_power e x)")
    case True
    then show ?thesis using u unfolding ex by (simp add: by_power_value [OF d] power_int_add field_simps)
  next
    case False
    have p: "0 < snd (by_power e x)" by (rule by_power_pos [OF d])
    have "real (fst (by_power e x)) < real (snd (by_power e x) * 2 ^ 53)" using False by (simp only: of_nat_less_iff not_le)
    then show ?thesis using p False unfolding ex by (simp add: frac_of_def divide_less_eq mult.commute)
  qed
qed

lemma round_half_even_near:
  assumes d: "0 < d" and k: "\<bar>real n / real d - real k\<bar> < 1 / 2"
  shows "round_half_even n d = k"
proof -
  have "\<bar>real (round_half_even n d) - real k\<bar> < 1" using round_half_even_error [OF d, of n] k by linarith
  then show ?thesis by linarith
qed

lemma d_round_integer:
  assumes m: "0 < m" "m < 2 ^ 52" and d: "0 < snd x" and x: "\<bar>frac_of x - real m\<bar> \<le> real m / 2 ^ 55"
  shows "frac_of (d_round x) = real m"
proof -
  define e where "e = round_exponent x"
  have m1: "1 \<le> real m" "real m < 2 ^ 52" using m by (simp, metis of_nat_less_iff of_nat_numeral of_nat_power)
  have num: "(2 :: real) ^ 55 = 36028797018963968" by simp
  have "0 < frac_of x" using x [unfolded num] m1 by linarith
  then have n: "0 < fst x" by (cases "fst x") (simp_all add: frac_of_def)
  have y: "frac_of (by_power e x) = frac_of x / 2 powi e" by (rule by_power_value [OF d])
  have lo: "2 ^ 52 \<le> frac_of x / 2 powi e" using round_exponent_large [OF n d] y by (simp add: e_def)
  have hi: "frac_of x / 2 powi e < 2 ^ 53" using round_exponent_small [OF n d] y by (simp add: e_def)
  have "e \<le> 0"
  proof (rule ccontr)
    assume "\<not> e \<le> 0"
    then have "(2 :: real) powi 1 \<le> 2 powi e" by (intro power_int_increasing) auto
    then have "2 ^ 52 * 2 \<le> frac_of x" using lo by (simp add: field_simps)
    then show False using x m1 by (simp add: abs_le_iff)
  qed
  define k where "k = m * 2 ^ nat (- e)"
  have pe: "(2 :: real) powi e = 1 / 2 ^ nat (- e)" using \<open>e \<le> 0\<close> by (simp add: power_int_def divide_simps)
  have k: "real k = real m / 2 powi e" by (simp add: k_def pe)
  have "\<bar>frac_of x / 2 powi e - real k\<bar> = \<bar>frac_of x - real m\<bar> / 2 powi e" by (simp add: k diff_divide_distrib [symmetric])
  also have "\<dots> \<le> real m / 2 ^ 55 / 2 powi e" using x by (intro divide_right_mono) auto
  also have "\<dots> = real k / 2 ^ 55" by (simp add: k)
  finally have near: "\<bar>frac_of x / 2 powi e - real k\<bar> \<le> real k / 2 ^ 55" .
  have num': "(2 :: real) ^ 53 = 9007199254740992" by simp
  have "real k / 2 ^ 55 < 1 / 2" using near [unfolded num] hi [unfolded num'] unfolding num by linarith
  then have "round_half_even (fst (by_power e x)) (snd (by_power e x)) = k"
    using near y by (intro round_half_even_near by_power_pos [OF d]) (simp add: frac_of_def)
  then have "d_round x = by_power (- e) (k, 1)" using n by (simp add: d_round_def Let_def e_def)
  then show ?thesis by (simp add: by_power_value) (simp add: frac_of_def k power_int_minus field_simps)
qed

text \<open>The integer part of \<open>n * p / q\<close> is not changed by rounding \<open>p / q\<close> and then the product.\<close>

lemma rounded_floor:
  assumes n: "0 < n" "n \<le> 1000000" and q: "0 < q" "q \<le> 1000" and p: "0 < p" "p \<le> q" and d: "0 < d"
    and c: "\<bar>frac_of (a, d) - real p / real q\<bar> \<le> real p / real q / 2 ^ 55"
  shows "fst (d_round (n * a, d)) div snd (d_round (n * a, d)) = n * p div q"
proof -
  let ?x = "(n * a, d)" and ?y = "d_round (n * a, d)"
  define r where "r = real (n * p) / real q"
  have yd: "0 < snd ?y" by (rule d_round_error(2)) (simp add: d)
  have x: "frac_of ?x = real n * frac_of (a, d)" by (simp add: frac_of_def)
  have "real n * \<bar>frac_of (a, d) - real p / real q\<bar> \<le> real n * (real p / real q / 2 ^ 55)" using c by (rule mult_left_mono) simp
  moreover have "frac_of ?x - r = real n * (frac_of (a, d) - real p / real q)" by (simp add: x r_def right_diff_distrib)
  then have "real n * \<bar>frac_of (a, d) - real p / real q\<bar> = \<bar>frac_of ?x - r\<bar>" by (simp add: abs_mult)
  ultimately have xr: "\<bar>frac_of ?x - r\<bar> \<le> r / 2 ^ 55" by (simp add: r_def)
  have "real p / real q \<le> 1" using p q by simp
  then have "r \<le> real n" using mult_left_mono [of "real p / real q" 1 "real n"] by (simp add: r_def)
  then have r: "0 < r" "r \<le> 1000000" using n p q by (simp_all add: r_def)
  have floor: "int (fst ?y div snd ?y) = \<lfloor>frac_of ?y\<rfloor>" unfolding frac_of_def by (rule floor_divide_of_nat_eq [symmetric])
  have fr: "\<lfloor>r\<rfloor> = int (n * p div q)" unfolding r_def by (rule floor_divide_of_nat_eq)
  have "\<lfloor>frac_of ?y\<rfloor> = \<lfloor>r\<rfloor>"
  proof (cases "q dvd n * p")
    case True
    then obtain m where m: "n * p = q * m" by blast
    then have rm: "r = real m" unfolding r_def m using q by simp
    have "0 < m" using m n p by (cases m) auto
    moreover have "m < 2 ^ 52" using r(2) by (simp add: rm)
    ultimately have "frac_of ?y = real m" using xr d rm by (intro d_round_integer) auto
    then show ?thesis by (simp add: rm)
  next
    case False
    define m f where "m = n * p div q" and "f = n * p mod q"
    have "f \<noteq> 0" "f < q" using False q by (simp_all add: f_def mod_eq_0_iff_dvd)
    then have f: "1 \<le> real f" "real f \<le> real q - 1" by linarith+
    have "real (n * p) = real m * real q + real f" unfolding m_def f_def by (metis div_mult_mod_eq of_nat_add of_nat_mult)
    then have rf: "r = real m + real f / real q" using q by (simp add: r_def add_divide_distrib)
    have fq: "1 / 1000 \<le> real f / real q" "real f / real q \<le> 1 - 1 / 1000"
      using f q by (simp_all add: field_simps)
    have "\<bar>frac_of ?y - frac_of ?x\<bar> \<le> frac_of ?x / 2 ^ 53" using d_round_error(1) [of ?x] d by simp
    moreover have num: "(2 :: real) ^ 53 = 9007199254740992" "(2 :: real) ^ 55 = 36028797018963968" by simp_all
    ultimately have "\<bar>frac_of ?y - r\<bar> < 1 / 1000" using xr r unfolding num by linarith
    with rf fq have "real m \<le> frac_of ?y" "frac_of ?y < real m + 1" by linarith+
    moreover have "real m \<le> r" "r < real m + 1" using rf fq by linarith+
    ultimately have "\<lfloor>frac_of ?y\<rfloor> = int m" "\<lfloor>r\<rfloor> = int m" by (simp_all add: floor_eq_iff)
    then show ?thesis by simp
  qed
  then show ?thesis using floor fr by simp
qed

end
