(* ===== verification/BinanceReplay.thy ===== *)
theory BinanceReplay
  imports Replay Rounding
begin

text \<open>
  \<open>backtest/binance_aggtrades_replay.cpp\<close>: the trades of a file become a stream of market updates with a synthetic
  book of one order per side.

  \<^item> A \<open>double\<close> of the file is a sign and a fraction of natural numbers. \<open>std::from_chars\<close> gives the \<open>double\<close> nearest to
    the decimal number, and a product is the \<open>double\<close> nearest to the product of its factors: \<open>d_round\<close> rounds to 53
    binary digits, half to even. Overflow, subnormal numbers, infinities and not-a-number do not occur in a file of
    prices and quantities and are not modelled.
  \<^item> A conversion of a \<open>double\<close> that does not fit the integer type is undefined behaviour: the run is then \<open>None\<close>.
  \<^item> What is written to the output queues, the same to both, is the list of updates; waiting for room in them changes
    nothing.
\<close>

subsection \<open>Doubles of the file\<close>

definition exponent_value :: "string \<Rightarrow> int" where
  "exponent_value s =
     (if s \<noteq> [] \<and> (hd s = CHR ''e'' \<or> hd s = CHR ''E'')
      then let neg = (tl s \<noteq> [] \<and> hd (tl s) = CHR ''-'');
               ds = takeWhile is_digit (if tl s \<noteq> [] \<and> (hd (tl s) = CHR ''-'' \<or> hd (tl s) = CHR ''+'') then tl (tl s) else tl s) in
           if neg then - int (digits_value ds) else int (digits_value ds)
      else 0)"

definition parseDouble :: "string \<Rightarrow> bool \<times> nat \<times> nat" where
  "parseDouble s =
     (let neg = (s \<noteq> [] \<and> hd s = CHR ''-'');
          t = (if neg then tl s else s);
          ip = takeWhile is_digit t;
          t1 = dropWhile is_digit t;
          dot = (t1 \<noteq> [] \<and> hd t1 = CHR ''.'');
          fp = (if dot then takeWhile is_digit (tl t1) else []);
          t2 = (if dot then dropWhile is_digit (tl t1) else t1);
          k = int (length fp) - exponent_value t2;
          n = digits_value (ip @ fp) in
      if ip @ fp = [] then (False, 0, 1)
      else (neg, d_round (if 0 \<le> k then (n, 10 ^ nat k) else (n * 10 ^ nat (- k), 1))))"

definition d_scale :: "nat \<Rightarrow> bool \<times> nat \<times> nat \<Rightarrow> bool \<times> nat \<times> nat" where
  "d_scale c v = (fst v, d_round (fst (snd v) * c, snd (snd v)))"

definition d_truncate :: "bool \<times> nat \<times> nat \<Rightarrow> int" where
  "d_truncate v = (case v of (neg, n, d) \<Rightarrow> if neg then - int (n div d) else int (n div d))"

definition parseBoolField :: "string \<Rightarrow> bool" where
  "parseBoolField s \<longleftrightarrow> s \<noteq> [] \<and> (hd s = CHR ''T'' \<or> hd s = CHR ''t'' \<or> hd s = CHR ''1'')"

definition PRICE_SCALE :: nat where "PRICE_SCALE = 100"
definition QTY_SCALE :: nat where "QTY_SCALE = 1000000"
definition SYNTHETIC_SIDE_QTY :: Qty where "SYNTHETIC_SIDE_QTY = 1000000"

definition to_price :: "bool \<times> nat \<times> nat \<Rightarrow> Price option" where
  "to_price v = (if - (2 ^ 63) \<le> d_truncate v \<and> d_truncate v < 2 ^ 63 then Some (d_truncate v) else None)"

definition to_qty :: "bool \<times> nat \<times> nat \<Rightarrow> Qty option" where
  "to_qty v = (if 0 \<le> d_truncate v \<and> d_truncate v < 2 ^ 32 then Some (word_of_int (d_truncate v)) else None)"

subsection \<open>The replay\<close>

record binance_replay =
  br_ticker_id :: TickerId
  br_best_bid :: Price
  br_best_ask :: Price
  br_bid_oid :: OrderId
  br_ask_oid :: OrderId
  br_next_oid :: OrderId
  br_seq_num :: "64 word"
  br_emitted :: "MDPMarketUpdate list"
  br_skipped :: nat
  trades_processed :: nat

definition binance_replay_new :: "TickerId \<Rightarrow> binance_replay" where
  "binance_replay_new ticker = \<lparr>br_ticker_id = ticker, br_best_bid = Price_INVALID, br_best_ask = Price_INVALID,
     br_bid_oid = 0, br_ask_oid = 0, br_next_oid = 1, br_seq_num = 1, br_emitted = [], br_skipped = 0, trades_processed = 0\<rparr>"

definition br_push :: "MEMarketUpdate \<Rightarrow> binance_replay \<Rightarrow> binance_replay" where
  "br_push me r = r\<lparr>br_seq_num := br_seq_num r + 1,
     br_emitted := br_emitted r @ [\<lparr>mdp_seq_num = br_seq_num r, me_market_update = me\<rparr>]\<rparr>"

definition fresh_oid :: "binance_replay \<Rightarrow> OrderId \<times> binance_replay" where
  "fresh_oid r =
     (let oid = br_next_oid r; next = oid + 1 in
      (oid, r\<lparr>br_next_oid := (if ME_MAX_ORDER_IDS - 1 < unat next then 1 else next)\<rparr>))"

definition synthetic_order :: "MarketUpdateType \<Rightarrow> OrderId \<Rightarrow> Side \<Rightarrow> Price \<Rightarrow> binance_replay \<Rightarrow> MEMarketUpdate" where
  "synthetic_order ty oid side price r = \<lparr>mu_type = ty, mu_order_id = oid, mu_ticker_id = br_ticker_id r, mu_side = side,
     mu_price = price, mu_qty = SYNTHETIC_SIDE_QTY, mu_priority = oid\<rparr>"

text \<open>A seller hit the bid, or a buyer lifted the ask, at a new price.\<close>

definition bid_moved :: "Price \<Rightarrow> binance_replay \<Rightarrow> binance_replay" where
  "bid_moved scaled_price r =
     (if scaled_price \<noteq> br_best_bid r
      then let r1 = (if br_best_bid r \<noteq> Price_INVALID
                     then br_push (synthetic_order CANCEL (br_bid_oid r) BUY (br_best_bid r) r) r else r) in
        case fresh_oid r1 of (oid, r2) \<Rightarrow>
          let r3 = r2\<lparr>br_bid_oid := oid, br_best_bid := scaled_price\<rparr> in
          br_push (synthetic_order ADD oid BUY scaled_price r3) r3
      else r)"

definition ask_moved :: "Price \<Rightarrow> binance_replay \<Rightarrow> binance_replay" where
  "ask_moved scaled_price r =
     (if scaled_price \<noteq> br_best_ask r
      then let r1 = (if br_best_ask r \<noteq> Price_INVALID
                     then br_push (synthetic_order CANCEL (br_ask_oid r) SELL (br_best_ask r) r) r else r) in
        case fresh_oid r1 of (oid, r2) \<Rightarrow>
          let r3 = r2\<lparr>br_ask_oid := oid, br_best_ask := scaled_price\<rparr> in
          br_push (synthetic_order ADD oid SELL scaled_price r3) r3
      else r)"

text \<open>The trade of a line: the aggressor sold, the price and the quantity; \<open>None\<close> is a conversion that is undefined.\<close>

definition binance_fields :: "string \<Rightarrow> (bool \<times> Price \<times> Qty) option" where
  "binance_fields line =
     (case nextField line of (_, s0) \<Rightarrow>
      case nextField s0 of (price_field, s1) \<Rightarrow>
      case nextField s1 of (qty_field, s2) \<Rightarrow>
      case nextField s2 of (_, s3) \<Rightarrow>
      case nextField s3 of (_, s4) \<Rightarrow>
      case nextField s4 of (_, s5) \<Rightarrow>
      case nextField s5 of (is_maker_field, _) \<Rightarrow>
      case to_price (d_scale PRICE_SCALE (parseDouble price_field)) of
        None \<Rightarrow> None
      | Some scaled_price \<Rightarrow>
          (case to_qty (d_scale QTY_SCALE (parseDouble qty_field)) of
             None \<Rightarrow> None
           | Some scaled_qty \<Rightarrow> Some (parseBoolField is_maker_field, scaled_price, scaled_qty)))"

definition binance_trade :: "bool \<times> Price \<times> Qty \<Rightarrow> binance_replay \<Rightarrow> binance_replay" where
  "binance_trade t r =
     (case t of (is_buyer_maker, scaled_price, scaled_qty) \<Rightarrow>
      if scaled_qty = 0 then r\<lparr>br_skipped := br_skipped r + 1\<rparr>
      else let r1 = r\<lparr>trades_processed := trades_processed r + 1\<rparr>;
               r2 = (if is_buyer_maker then bid_moved scaled_price r1 else ask_moved scaled_price r1) in
        br_push \<lparr>mu_type = TRADE, mu_order_id = 0, mu_ticker_id = br_ticker_id r2,
          mu_side = (if is_buyer_maker then SELL else BUY), mu_price = scaled_price, mu_qty = scaled_qty, mu_priority = 0\<rparr> r2)"

definition header_row :: "string \<Rightarrow> binance_replay \<Rightarrow> bool" where
  "header_row line r \<longleftrightarrow> br_emitted r = [] \<and> trades_processed r = 0 \<and> \<not> is_digit (hd line)"

definition binance_line :: "string \<Rightarrow> binance_replay \<Rightarrow> binance_replay option" where
  "binance_line line r =
     (if line = [] then Some r
      else if header_row line r then Some (r\<lparr>br_skipped := br_skipped r + 1\<rparr>)
      else map_option (\<lambda>t. binance_trade t r) (binance_fields line))"

fun binance_run :: "string list \<Rightarrow> binance_replay \<Rightarrow> binance_replay option" where
  "binance_run [] r = Some r"
| "binance_run (line # lines) r = (case binance_line line r of None \<Rightarrow> None | Some r1 \<Rightarrow> binance_run lines r1)"

lemmas round_eval = d_round_def Let_def round_exponent_def by_power_def compute_floorlog round_half_even_def d_scale_def

lemmas parse_eval = round_eval parseDouble_def is_digit_def digits_value_def exponent_value_def

lemmas fields_eval = binance_fields_def nextField_def to_price_def to_qty_def d_truncate_def PRICE_SCALE_def QTY_SCALE_def
  parseBoolField_def

subsection \<open>Rounded twice\<close>

text \<open>Rounded twice, a number of cents is off by less than one.\<close>

lemma scaled_error:
  assumes d: "0 < d" and c: "0 < c" and p: "p < 2 ^ 50" and x: "frac_of (n, d) * real c = real p"
  shows "\<bar>frac_of (d_round (fst (d_round (n, d)) * c, snd (d_round (n, d)))) - real p\<bar> < 1"
proof -
  let ?y = "d_round (n, d)"
  let ?z = "(fst ?y * c, snd ?y)"
  have yd: "0 < snd ?y" and e1: "\<bar>frac_of ?y - frac_of (n, d)\<bar> \<le> frac_of (n, d) / 2 ^ 53"
    using d_round_error [of "(n, d)"] d by simp_all
  have z: "frac_of ?z = frac_of ?y * real c" by (simp add: frac_of_def)
  have "\<bar>frac_of ?y - frac_of (n, d)\<bar> * real c \<le> frac_of (n, d) / 2 ^ 53 * real c"
    by (rule mult_right_mono [OF e1]) simp
  moreover have "\<bar>frac_of ?y - frac_of (n, d)\<bar> * real c = \<bar>(frac_of ?y - frac_of (n, d)) * real c\<bar>" by (simp add: abs_mult)
  moreover have "frac_of (n, d) / 2 ^ 53 * real c = real p / 2 ^ 53" using x by (simp add: field_simps)
  ultimately have a: "\<bar>frac_of ?z - real p\<bar> \<le> real p / 2 ^ 53" unfolding z by (simp add: left_diff_distrib x)
  have b: "\<bar>frac_of (d_round ?z) - frac_of ?z\<bar> \<le> frac_of ?z / 2 ^ 53" using d_round_error [of ?z] yd by simp
  have p50: "real p < 2 ^ 50" using p by (metis of_nat_less_iff of_nat_numeral of_nat_power)
  have "frac_of ?z \<le> real p + real p / 2 ^ 53" using a by linarith
  moreover have num: "(2 :: real) ^ 53 = 9007199254740992" "(2 :: real) ^ 50 = 1125899906842624" by simp_all
  ultimately show ?thesis using a [unfolded num] b [unfolded num] p50 [unfolded num] unfolding num by linarith
qed

subsection \<open>The price that is read\<close>

lemma takeWhile_digits: "list_all is_digit ds \<Longrightarrow> (ys = [] \<or> \<not> is_digit (hd ys)) \<Longrightarrow> takeWhile is_digit (ds @ ys) = ds"
  by (induction ds) (cases ys; simp)+

lemma dropWhile_digits: "list_all is_digit ds \<Longrightarrow> (ys = [] \<or> \<not> is_digit (hd ys)) \<Longrightarrow> dropWhile is_digit (ds @ ys) = ys"
  by (induction ds) (cases ys; simp)+

lemma parseDouble_fixed:
  assumes ip: "list_all is_digit ip" "ip \<noteq> []" and fp: "list_all is_digit fp"
  shows "parseDouble (ip @ CHR ''.'' # fp) = (False, d_round (digits_value (ip @ fp), 10 ^ length fp))"
proof -
  have h: "hd (ip @ CHR ''.'' # fp) \<noteq> CHR ''-''" using ip by (cases ip) (auto simp: is_digit_def)
  have d: "\<not> is_digit (CHR ''.'')" by (simp add: is_digit_def)
  have t: "takeWhile is_digit (ip @ CHR ''.'' # fp) = ip" "dropWhile is_digit (ip @ CHR ''.'' # fp) = CHR ''.'' # fp"
    using takeWhile_digits [OF ip(1), of "CHR ''.'' # fp"] dropWhile_digits [OF ip(1), of "CHR ''.'' # fp"] d by simp_all
  have f: "takeWhile is_digit fp = fp" "dropWhile is_digit fp = []"
    using takeWhile_digits [OF fp, of "[]"] dropWhile_digits [OF fp, of "[]"] by simp_all
  show ?thesis unfolding parseDouble_def Let_def using h ip(2) by (simp add: t f exponent_value_def)
qed

text \<open>
  C32. How far a price can be from the file's: for a price written with at most two decimals, the internal price is the
  exact number of cents or one cent less, below 2 to the 50th cents. The two roundings (the decimal to a \<open>double\<close>, the
  product with \<open>PRICE_SCALE\<close>) together move it by less than one, and the conversion to an integer then cuts it off.
\<close>

theorem price_within_a_tick:
  assumes "list_all is_digit ip" and "ip \<noteq> []" and "list_all is_digit fp" and k: "length fp \<le> 2"
    and p: "digits_value (ip @ fp) * 10 ^ (2 - length fp) < 2 ^ 50"
  shows "to_price (d_scale PRICE_SCALE (parseDouble (ip @ CHR ''.'' # fp))) \<in>
    {Some (int (digits_value (ip @ fp) * 10 ^ (2 - length fp))), Some (int (digits_value (ip @ fp) * 10 ^ (2 - length fp)) - 1)}"
proof -
  let ?n = "digits_value (ip @ fp)" and ?d = "10 ^ length fp :: nat" and ?p = "digits_value (ip @ fp) * 10 ^ (2 - length fp)"
  let ?y = "d_round (?n, ?d)"
  let ?z = "d_round (fst ?y * 100, snd ?y)"
  have "length fp = 0 \<or> length fp = 1 \<or> length fp = 2" using k by linarith
  then have "frac_of (?n, ?d) * real 100 = real ?p" by (auto simp: frac_of_def)
  then have e: "\<bar>frac_of (fst ?z, snd ?z) - real ?p\<bar> < 1" using scaled_error [of ?d 100 ?p ?n] p by simp
  have "0 < snd ?z" using d_round_error(2) by (simp add: d_round_error(2))
  then have "fst ?z div snd ?z = ?p \<or> fst ?z div snd ?z + 1 = ?p" by (rule truncate_near [OF _ e])
  then have q: "int (fst ?z div snd ?z) = int ?p \<or> int (fst ?z div snd ?z) = int ?p - 1" by linarith
  have "d_scale PRICE_SCALE (parseDouble (ip @ CHR ''.'' # fp)) = (False, ?z)"
    by (simp add: parseDouble_fixed assms d_scale_def PRICE_SCALE_def split: prod.split)
  then have "d_truncate (d_scale PRICE_SCALE (parseDouble (ip @ CHR ''.'' # fp))) = int (fst ?z div snd ?z)"
    by (simp only: d_truncate_def prod.case_eq_if fst_conv snd_conv if_False)
  with q have t: "d_truncate (d_scale PRICE_SCALE (parseDouble (ip @ CHR ''.'' # fp))) \<in> {int ?p, int ?p - 1}"
    by (simp only: insert_iff empty_iff simp_thms)
  have "int ?p < 2 ^ 50" using p by (simp only: of_nat_less_numeral_power_cancel_iff)
  then have "int ?p < 2 ^ 63" by (rule less_trans) simp
  moreover have "0 \<le> int ?p" by (rule of_nat_0_le_iff)
  ultimately show ?thesis using t by (auto simp only: to_price_def insert_iff empty_iff if_True split: if_splits)
qed

theorem price_within_a_tick_witness:
  "to_price (d_scale PRICE_SCALE (parseDouble (''65536'' @ CHR ''.'' # ''01''))) \<in> {Some 6553601, Some 6553600}"
  using price_within_a_tick [of "''65536''" "''01''"] by (simp add: is_digit_def digits_value_def)

lemma parsed:
  "parseDouble ''65536.01'' = (False, 4503600314565263, 68719476736)"
  "parseDouble ''10.5'' = (False, 5910974510923776, 562949953421312)"
  "parseDouble ''10.75'' = (False, 6051711999279104, 562949953421312)"
  "parseDouble ''10.25'' = (False, 5770237022568448, 562949953421312)"
  "parseDouble ''2'' = (False, 4503599627370496, 2251799813685248)"
  "parseDouble ''1'' = (False, 4503599627370496, 4503599627370496)"
  by (simp_all add: parse_eval)

lemma scaled:
  "d_scale 100 (False, 4503600314565263, 68719476736) = (False, 7036875491508223, 1073741824)"
  "d_scale 100 (False, 5910974510923776, 562949953421312) = (False, 4617948836659200, 4398046511104)"
  "d_scale 100 (False, 6051711999279104, 562949953421312) = (False, 4727899999436800, 4398046511104)"
  "d_scale 100 (False, 5770237022568448, 562949953421312) = (False, 4507997673881600, 4398046511104)"
  "d_scale 1000000 (False, 4503599627370496, 2251799813685248) = (False, 8589934592000000, 4294967296)"
  "d_scale 1000000 (False, 4503599627370496, 4503599627370496) = (False, 8589934592000000, 8589934592)"
  by (simp_all add: round_eval)

text \<open>
  The cent is lost: the conversion truncates where it should round, and 65536.01 dollars become 6553600 cents, not
  6553601.
\<close>

theorem price_loses_a_tick:
  "to_price (d_scale PRICE_SCALE (parseDouble ''65536.01'')) = Some 6553600"
  by (simp add: parsed scaled fields_eval)

subsection \<open>The synthetic book\<close>

text \<open>The book a stream describes, the trades of the lines, and the price of the last trade against a side.\<close>

definition l1_apply :: "MEMarketUpdate \<Rightarrow> (OrderId \<Rightarrow> (Side \<times> Price) option) \<Rightarrow> OrderId \<Rightarrow> (Side \<times> Price) option" where
  "l1_apply u book =
     (if mu_type u = ADD then book(mu_order_id u \<mapsto> (mu_side u, mu_price u))
      else if mu_type u = CANCEL then book(mu_order_id u := None) else book)"

definition l1_book :: "MDPMarketUpdate list \<Rightarrow> OrderId \<Rightarrow> (Side \<times> Price) option" where
  "l1_book ms = foldl (\<lambda>b m. l1_apply (me_market_update m) b) (\<lambda>_. None) ms"

definition binance_trades :: "string list \<Rightarrow> (bool \<times> Price \<times> Qty) list" where
  "binance_trades lines = filter (\<lambda>t. snd (snd t) \<noteq> 0) (List.map_filter binance_fields lines)"

definition last_price :: "bool \<Rightarrow> (bool \<times> Price \<times> Qty) list \<Rightarrow> Price" where
  "last_price b ts = foldl (\<lambda>p t. if fst t = b then fst (snd t) else p) Price_INVALID ts"

definition adds :: "MDPMarketUpdate list \<Rightarrow> nat" where
  "adds ms = length (filter (\<lambda>m. mu_type (me_market_update m) = ADD) ms)"

definition l1_of :: "Price \<Rightarrow> OrderId \<Rightarrow> Price \<Rightarrow> OrderId \<Rightarrow> OrderId \<Rightarrow> (Side \<times> Price) option" where
  "l1_of bid bid_oid ask ask_oid =
     (\<lambda>o1. if bid \<noteq> Price_INVALID \<and> o1 = bid_oid then Some (BUY, bid)
           else if ask \<noteq> Price_INVALID \<and> o1 = ask_oid then Some (SELL, ask) else None)"

definition oid_used :: "Price \<Rightarrow> OrderId \<Rightarrow> nat \<Rightarrow> bool" where
  "oid_used p oid n \<longleftrightarrow> (p \<noteq> Price_INVALID \<longrightarrow> 1 \<le> unat oid \<and> unat oid \<le> n)"

definition br_book_ok :: "binance_replay \<Rightarrow> bool" where
  "br_book_ok r \<longleftrightarrow> unat (br_next_oid r) = adds (br_emitted r) + 1 \<and>
     oid_used (br_best_bid r) (br_bid_oid r) (adds (br_emitted r)) \<and> oid_used (br_best_ask r) (br_ask_oid r) (adds (br_emitted r)) \<and>
     (br_best_bid r \<noteq> Price_INVALID \<longrightarrow> br_best_ask r \<noteq> Price_INVALID \<longrightarrow> br_bid_oid r \<noteq> br_ask_oid r) \<and>
     l1_book (br_emitted r) = l1_of (br_best_bid r) (br_bid_oid r) (br_best_ask r) (br_ask_oid r)"

definition br_inv :: "TickerId \<Rightarrow> (bool \<times> Price \<times> Qty) list \<Rightarrow> binance_replay \<Rightarrow> bool" where
  "br_inv t ts r \<longleftrightarrow> br_ticker_id r = t \<and> numbered_from 1 (br_emitted r) \<and>
     br_seq_num r = 1 + word_of_nat (length (br_emitted r)) \<and>
     br_best_bid r = last_price True ts \<and> br_best_ask r = last_price False ts \<and>
     (adds (br_emitted r) + 1 < ME_MAX_ORDER_IDS \<longrightarrow> br_book_ok r)"

lemma l1_book_snoc [simp]: "l1_book (ms @ [m]) = l1_apply (me_market_update m) (l1_book ms)"
  by (simp add: l1_book_def)

lemma adds_snoc [simp]: "adds (ms @ [m]) = (if mu_type (me_market_update m) = ADD then adds ms + 1 else adds ms)"
  by (simp add: adds_def)

lemma last_price_snoc [simp]: "last_price b (ts @ [t]) = (if fst t = b then fst (snd t) else last_price b ts)"
  by (simp add: last_price_def)

lemma fresh_oid_next:
  assumes "unat (br_next_oid r) = n + 1" and "n + 2 < ME_MAX_ORDER_IDS"
  shows "fresh_oid r = (br_next_oid r, r\<lparr>br_next_oid := br_next_oid r + 1\<rparr>) \<and> unat (br_next_oid r + 1) = n + 2"
proof -
  have "unat (br_next_oid r + 1) = n + 2" using assms by (simp add: unat_word_ariths ME_MAX_ORDER_IDS_def)
  then show ?thesis using assms by (simp add: fresh_oid_def Let_def)
qed

lemma br_push_simps [simp]:
  "br_ticker_id (br_push u r) = br_ticker_id r" "br_best_bid (br_push u r) = br_best_bid r"
  "br_best_ask (br_push u r) = br_best_ask r" "br_bid_oid (br_push u r) = br_bid_oid r" "br_ask_oid (br_push u r) = br_ask_oid r"
  "br_next_oid (br_push u r) = br_next_oid r" "br_seq_num (br_push u r) = br_seq_num r + 1"
  "br_emitted (br_push u r) = br_emitted r @ [\<lparr>mdp_seq_num = br_seq_num r, me_market_update = u\<rparr>]"
  by (simp_all add: br_push_def)

lemma fresh_oid_simps [simp]:
  "fst (fresh_oid r) = br_next_oid r"
  "br_ticker_id (snd (fresh_oid r)) = br_ticker_id r" "br_best_bid (snd (fresh_oid r)) = br_best_bid r"
  "br_best_ask (snd (fresh_oid r)) = br_best_ask r" "br_bid_oid (snd (fresh_oid r)) = br_bid_oid r"
  "br_ask_oid (snd (fresh_oid r)) = br_ask_oid r" "br_seq_num (snd (fresh_oid r)) = br_seq_num r"
  "br_emitted (snd (fresh_oid r)) = br_emitted r"
  by (simp_all add: fresh_oid_def Let_def)

lemma synthetic_order_simps [simp]:
  "mu_type (synthetic_order ty oid side p r) = ty" "mu_order_id (synthetic_order ty oid side p r) = oid"
  "mu_side (synthetic_order ty oid side p r) = side" "mu_price (synthetic_order ty oid side p r) = p"
  by (simp_all add: synthetic_order_def)

text \<open>The parts of the state that do not depend on the order ids.\<close>

definition br_stream_ok :: "binance_replay \<Rightarrow> bool" where
  "br_stream_ok r \<longleftrightarrow> numbered_from 1 (br_emitted r) \<and> br_seq_num r = 1 + word_of_nat (length (br_emitted r))"

lemma br_stream_push: "br_stream_ok r \<Longrightarrow> br_stream_ok (br_push u r)"
  by (simp add: br_stream_ok_def numbered_from_append)

lemma moved_stream: "br_stream_ok r \<Longrightarrow> br_stream_ok (bid_moved p r)" "br_stream_ok r \<Longrightarrow> br_stream_ok (ask_moved p r)"
  by (simp_all add: bid_moved_def ask_moved_def Let_def case_prod_beta br_stream_ok_def numbered_from_append add.commute)

lemma moved_prices [simp]:
  "br_best_bid (bid_moved p r) = p" "br_best_ask (bid_moved p r) = br_best_ask r" "br_ticker_id (bid_moved p r) = br_ticker_id r"
  "br_best_ask (ask_moved p r) = p" "br_best_bid (ask_moved p r) = br_best_bid r" "br_ticker_id (ask_moved p r) = br_ticker_id r"
  by (simp_all add: bid_moved_def ask_moved_def Let_def case_prod_beta)

lemma moved_adds:
  "adds (br_emitted (bid_moved p r)) = (if p = br_best_bid r then adds (br_emitted r) else adds (br_emitted r) + 1)"
  "adds (br_emitted (ask_moved p r)) = (if p = br_best_ask r then adds (br_emitted r) else adds (br_emitted r) + 1)"
  by (simp_all add: bid_moved_def ask_moved_def Let_def case_prod_beta)

lemma oid_used_new: "oid_used q oid n \<Longrightarrow> q \<noteq> Price_INVALID \<Longrightarrow> unat next = n + 1 \<Longrightarrow> oid \<noteq> next"
  by (auto simp: oid_used_def)

lemma oid_used_mono: "oid_used q oid n \<Longrightarrow> oid_used q oid (n + 1)"
  by (auto simp: oid_used_def)

lemma bid_moved_book:
  assumes ok: "br_book_ok r" and p: "p \<noteq> Price_INVALID" and few: "adds (br_emitted (bid_moved p r)) + 1 < ME_MAX_ORDER_IDS"
  shows "br_book_ok (bid_moved p r)"
proof (cases "p = br_best_bid r")
  case True then show ?thesis using ok by (simp add: bid_moved_def)
next
  case False
  define n where "n = adds (br_emitted r)"
  have n: "n + 2 < ME_MAX_ORDER_IDS" using few False by (simp add: moved_adds n_def)
  have nx: "unat (br_next_oid r) = n + 1" and bu: "oid_used (br_best_bid r) (br_bid_oid r) n"
    and au: "oid_used (br_best_ask r) (br_ask_oid r) n" 
    and ne: "br_best_bid r \<noteq> Price_INVALID \<longrightarrow> br_best_ask r \<noteq> Price_INVALID \<longrightarrow> br_bid_oid r \<noteq> br_ask_oid r"
    and bk: "l1_book (br_emitted r) = l1_of (br_best_bid r) (br_bid_oid r) (br_best_ask r) (br_ask_oid r)"
    using ok by (simp_all add: br_book_ok_def n_def)
  define r1 where "r1 = (if br_best_bid r \<noteq> Price_INVALID
    then br_push (synthetic_order CANCEL (br_bid_oid r) BUY (br_best_bid r) r) r else r)"
  have r1: "br_next_oid r1 = br_next_oid r" "br_best_ask r1 = br_best_ask r" "br_ask_oid r1 = br_ask_oid r"
    "adds (br_emitted r1) = n" by (simp_all add: r1_def n_def)
  have b1: "l1_book (br_emitted r1) = l1_of Price_INVALID 0 (br_best_ask r) (br_ask_oid r)"
    using bk ne by (auto simp: r1_def l1_apply_def l1_of_def fun_eq_iff)
  have f: "fresh_oid r1 = (br_next_oid r, r1\<lparr>br_next_oid := br_next_oid r + 1\<rparr>)" "unat (br_next_oid r + 1) = n + 2"
    using fresh_oid_next [of r1 n] nx n r1 by simp_all
  have m: "bid_moved p r = (let r3 = r1\<lparr>br_next_oid := br_next_oid r + 1, br_bid_oid := br_next_oid r, br_best_bid := p\<rparr> in
      br_push (synthetic_order ADD (br_next_oid r) BUY p r3) r3)"
    using False f unfolding bid_moved_def Let_def r1_def [symmetric] by simp
  show ?thesis using p f(2) nx oid_used_mono [OF au] oid_used_new [OF au _ nx] b1
    by (auto simp: br_book_ok_def m Let_def r1 l1_apply_def l1_of_def fun_eq_iff oid_used_def)
qed

lemma ask_moved_book:
  assumes ok: "br_book_ok r" and p: "p \<noteq> Price_INVALID" and few: "adds (br_emitted (ask_moved p r)) + 1 < ME_MAX_ORDER_IDS"
  shows "br_book_ok (ask_moved p r)"
proof (cases "p = br_best_ask r")
  case True then show ?thesis using ok by (simp add: ask_moved_def)
next
  case False
  define n where "n = adds (br_emitted r)"
  have n: "n + 2 < ME_MAX_ORDER_IDS" using few False by (simp add: moved_adds n_def)
  have nx: "unat (br_next_oid r) = n + 1" and bu: "oid_used (br_best_bid r) (br_bid_oid r) n"
    and ne: "br_best_bid r \<noteq> Price_INVALID \<longrightarrow> br_best_ask r \<noteq> Price_INVALID \<longrightarrow> br_bid_oid r \<noteq> br_ask_oid r"
    and bk: "l1_book (br_emitted r) = l1_of (br_best_bid r) (br_bid_oid r) (br_best_ask r) (br_ask_oid r)"
    using ok by (simp_all add: br_book_ok_def n_def)
  define r1 where "r1 = (if br_best_ask r \<noteq> Price_INVALID
    then br_push (synthetic_order CANCEL (br_ask_oid r) SELL (br_best_ask r) r) r else r)"
  have r1: "br_next_oid r1 = br_next_oid r" "br_best_bid r1 = br_best_bid r" "br_bid_oid r1 = br_bid_oid r"
    "adds (br_emitted r1) = n" by (simp_all add: r1_def n_def)
  have b1: "l1_book (br_emitted r1) = l1_of (br_best_bid r) (br_bid_oid r) Price_INVALID 0"
    using bk ne by (auto simp: r1_def l1_apply_def l1_of_def fun_eq_iff)
  have f: "fresh_oid r1 = (br_next_oid r, r1\<lparr>br_next_oid := br_next_oid r + 1\<rparr>)" "unat (br_next_oid r + 1) = n + 2"
    using fresh_oid_next [of r1 n] nx n r1 by simp_all
  have m: "ask_moved p r = (let r3 = r1\<lparr>br_next_oid := br_next_oid r + 1, br_ask_oid := br_next_oid r, br_best_ask := p\<rparr> in
      br_push (synthetic_order ADD (br_next_oid r) SELL p r3) r3)"
    using False f unfolding ask_moved_def Let_def r1_def [symmetric] by simp
  show ?thesis using p f(2) nx oid_used_mono [OF bu] oid_used_new [OF bu _ nx] b1
    by (auto simp: br_book_ok_def m Let_def r1 l1_apply_def l1_of_def fun_eq_iff oid_used_def)
qed

lemma binance_trade_inv:
  assumes inv: "br_inv t ts r" and p: "fst (snd tr) \<noteq> Price_INVALID"
  shows "br_inv t (if snd (snd tr) = 0 then ts else ts @ [tr]) (binance_trade tr r)"
proof (cases "snd (snd tr) = 0")
  case True
  have "br_book_ok (r\<lparr>br_skipped := br_skipped r + 1\<rparr>) = br_book_ok r" by (simp add: br_book_ok_def)
  then show ?thesis using inv True by (simp add: binance_trade_def br_inv_def case_prod_beta)
next
  case False
  obtain m p q where tr: "tr = (m, p, q)" by (cases tr)
  define r1 where "r1 = r\<lparr>trades_processed := trades_processed r + 1\<rparr>"
  define r2 where "r2 = (if m then bid_moved p r1 else ask_moved p r1)"
  have s1: "br_stream_ok r1" "br_ticker_id r1 = t" "br_best_bid r1 = last_price True ts" "br_best_ask r1 = last_price False ts"
    "br_emitted r1 = br_emitted r" using inv by (simp_all add: br_inv_def r1_def br_stream_ok_def)
  have b1: "br_book_ok r1" if "adds (br_emitted r1) + 1 < ME_MAX_ORDER_IDS"
  proof -
    have "br_book_ok r1 = br_book_ok r" by (simp add: r1_def br_book_ok_def)
    with that show ?thesis using inv s1(5) by (simp add: br_inv_def)
  qed
  have s2: "br_stream_ok r2" "br_ticker_id r2 = t" "br_best_bid r2 = last_price True (ts @ [tr])"
    "br_best_ask r2 = last_price False (ts @ [tr])"
    using s1 by (simp_all add: r2_def moved_stream tr)
  have b2: "br_book_ok r2" if "adds (br_emitted r2) + 1 < ME_MAX_ORDER_IDS"
  proof -
    have "adds (br_emitted r1) + 1 < ME_MAX_ORDER_IDS"
      using that by (cases m) (auto simp: r2_def moved_adds split: if_splits)
    then show ?thesis using that bid_moved_book [OF b1] ask_moved_book [OF b1] p by (auto simp: r2_def tr)
  qed
  define u where "u = \<lparr>mu_type = TRADE, mu_order_id = 0, mu_ticker_id = br_ticker_id r2,
    mu_side = (if m then SELL else BUY), mu_price = p, mu_qty = q, mu_priority = 0\<rparr>"
  have e: "binance_trade tr r = br_push u r2"
    using False by (simp add: binance_trade_def tr Let_def r1_def r2_def u_def)
  have "mu_type u = TRADE" by (simp add: u_def)
  then have "br_book_ok r2 \<Longrightarrow> br_book_ok (br_push u r2)" "adds (br_emitted (br_push u r2)) = adds (br_emitted r2)"
    by (simp_all add: br_book_ok_def l1_apply_def)
  then show ?thesis
    using False b2 s2 br_stream_push [OF s2(1), of u] by (simp add: br_inv_def e br_stream_ok_def)
qed

lemma header_row_digit: "is_digit (hd line) \<Longrightarrow> \<not> header_row line r"
  by (simp add: header_row_def)

lemma binance_run_inv:
  assumes "br_inv t ts r" and "binance_run lines r = Some r'" and "list_all (\<lambda>l. l \<noteq> [] \<and> is_digit (hd l)) lines"
    and "list_all (\<lambda>tr. fst (snd tr) \<noteq> Price_INVALID) (List.map_filter binance_fields lines)"
  shows "br_inv t (ts @ binance_trades lines) r'"
  using assms
proof (induction lines arbitrary: r ts)
  case Nil then show ?case by (simp add: binance_trades_def)
next
  case (Cons line lines)
  from Cons.prems(3) have l: "line \<noteq> []" "\<not> header_row line r" by (simp_all add: header_row_digit)
  from Cons.prems(2) l obtain tr where f: "binance_fields line = Some tr" and r: "binance_run lines (binance_trade tr r) = Some r'"
    by (cases "binance_fields line") (simp_all add: binance_line_def)
  have p: "fst (snd tr) \<noteq> Price_INVALID" using Cons.prems(4) f by simp
  have "br_inv t ((if snd (snd tr) = 0 then ts else ts @ [tr]) @ binance_trades lines) r'"
    by (rule Cons.IH [OF binance_trade_inv [OF Cons.prems(1) p] r]) (use Cons.prems f in simp_all)
  moreover have "binance_trades (line # lines) = (if snd (snd tr) = 0 then [] else [tr]) @ binance_trades lines"
    using f by (simp add: binance_trades_def)
  ultimately show ?case by (simp split: if_splits)
qed

lemma br_inv_new: "br_inv t [] (binance_replay_new t)"
  by (simp add: br_inv_def binance_replay_new_def br_book_ok_def last_price_def adds_def oid_used_def l1_book_def l1_of_def)

text \<open>
  C29. The synthetic book is the last trades: for a file of trades without a header, as long as fewer than
  \<open>ME_MAX_ORDER_IDS - 1\<close> orders are added, so that the ids have not wrapped, the book that the emitted ADDs and CANCELs
  leave is one order on the bid, at the price of the last trade whose buyer was the maker, and one on the ask, at the
  price of the last trade whose buyer was the aggressor, each only if there was such a trade; and the updates are
  numbered 1, 2, 3, \<dots> without a gap.
\<close>

theorem binance_book_is_last_trades:
  assumes run: "binance_run lines (binance_replay_new t) = Some r"
    and rows: "list_all (\<lambda>l. l \<noteq> [] \<and> is_digit (hd l)) lines"
    and prices: "list_all (\<lambda>tr. fst (snd tr) \<noteq> Price_INVALID) (List.map_filter binance_fields lines)"
    and few: "adds (br_emitted r) + 1 < ME_MAX_ORDER_IDS"
  shows "numbered_from 1 (br_emitted r) \<and>
    (\<exists>bid_oid ask_oid. (last_price True (binance_trades lines) \<noteq> Price_INVALID \<longrightarrow>
        last_price False (binance_trades lines) \<noteq> Price_INVALID \<longrightarrow> bid_oid \<noteq> ask_oid) \<and>
      l1_book (br_emitted r) =
        l1_of (last_price True (binance_trades lines)) bid_oid (last_price False (binance_trades lines)) ask_oid)"
proof -
  have i: "br_inv t (binance_trades lines) r" using binance_run_inv [OF br_inv_new [of t] run rows prices] by simp
  then have p: "br_best_bid r = last_price True (binance_trades lines)" "br_best_ask r = last_price False (binance_trades lines)"
    by (simp_all only: br_inv_def)
  have "br_book_ok r" using i few by (simp add: br_inv_def)
  then have "(br_best_bid r \<noteq> Price_INVALID \<longrightarrow> br_best_ask r \<noteq> Price_INVALID \<longrightarrow> br_bid_oid r \<noteq> br_ask_oid r) \<and>
      l1_book (br_emitted r) = l1_of (br_best_bid r) (br_bid_oid r) (br_best_ask r) (br_ask_oid r)"
    unfolding br_book_ok_def by blast
  moreover have "numbered_from 1 (br_emitted r)" using i by (simp only: br_inv_def)
  ultimately show ?thesis unfolding p by blast
qed

definition binance_example :: "string list" where
  "binance_example = [''1,10.5,2,5,6,1700,True,True'', ''2,10.75,1,5,6,1700,False,True'', ''3,10.25,1,5,6,1700,True,True'']"

lemma binance_example_fields:
  "binance_fields ''1,10.5,2,5,6,1700,True,True'' = Some (True, 1050, 2000000)"
  "binance_fields ''2,10.75,1,5,6,1700,False,True'' = Some (False, 1075, 1000000)"
  "binance_fields ''3,10.25,1,5,6,1700,True,True'' = Some (True, 1025, 1000000)"
  by (simp_all add: parsed scaled fields_eval)

lemmas binance_run_eval = binance_line_def header_row_def binance_trade_def bid_moved_def ask_moved_def fresh_oid_def br_push_def
  synthetic_order_def Let_def

lemma binance_example_run:
  "\<exists>r. binance_run binance_example (binance_replay_new 3) = Some r \<and> adds (br_emitted r) = 3 \<and> br_best_bid r = 1025 \<and> br_best_ask r = 1075"
  by (simp add: binance_example_def binance_replay_new_def binance_example_fields binance_run_eval is_digit_def Price_INVALID_def
      ME_MAX_ORDER_IDS_def adds_def)

theorem binance_book_is_last_trades_witness:
  "\<exists>r bid_oid ask_oid. binance_run binance_example (binance_replay_new 3) = Some r \<and> bid_oid \<noteq> ask_oid \<and>
     l1_book (br_emitted r) = l1_of 1025 bid_oid 1075 ask_oid"
proof -
  obtain r where r: "binance_run binance_example (binance_replay_new 3) = Some r" "adds (br_emitted r) = 3"
    using binance_example_run by blast
  have t: "last_price True (binance_trades binance_example) = 1025" "last_price False (binance_trades binance_example) = 1075"
    by (simp_all add: last_price_def binance_trades_def binance_example_def binance_example_fields)
  have "list_all (\<lambda>l. l \<noteq> [] \<and> is_digit (hd l)) binance_example" by (simp add: binance_example_def is_digit_def)
  moreover have "list_all (\<lambda>tr. fst (snd tr) \<noteq> Price_INVALID) (List.map_filter binance_fields binance_example)"
    by (simp add: binance_example_def binance_example_fields Price_INVALID_def)
  ultimately show ?thesis
    using binance_book_is_last_trades [OF r(1)] r by (simp add: t ME_MAX_ORDER_IDS_def Price_INVALID_def)
qed

end
