(* ===== verification/UnorderedBook.thy ===== *)
theory UnorderedBook
  imports ExchangeProps MEPrint
begin

text \<open>
  \<open>exchange/matcher/unordered_map_me_order_book.h\<close> and \<open>.cpp\<close>: the matching book on hash maps, kept beside
  \<open>MEOrderBook\<close> for \<open>benchmarks/hash_benchmark.cpp\<close>, which times the two on the same requests.

  \<^item> The class has the fields of \<open>MEOrderBook\<close>, but for \<open>base_price_\<close>, which no operation here reads. A lookup
    in a hash map that has no such key and one that finds a null pointer are the same to the code, so the maps are
    functions to \<open>option\<close>; the only place where presence counts is the number of clients in the outer map, kept as the
    list \<open>um_clients\<close> of its keys.
  \<^item> An index is the price modulo the number of levels, computed unsigned: nothing is out of range.
  \<^item> What is shown: on prices inside the array's window the operations give what \<open>MEOrderBook\<close>'s give, and sessions
    give the same messages, except that \<open>cancel\<close> compares the client's id with the number of clients.
\<close>

record um_order_book =
  um_book :: me_order_book
  um_clients :: "ClientId list"

definition um_book_new :: "TickerId \<Rightarrow> um_order_book" where
  "um_book_new ticker = \<lparr>um_book = me_book_new ticker 0 (\<lambda>_ _. None) (\<lambda>_. None), um_clients = []\<rparr>"

subsection \<open>Prices and levels\<close>

definition um_priceToIndex :: "Price \<Rightarrow> nat" where
  "um_priceToIndex price = nat ((price mod 2 ^ 64) mod int ME_MAX_PRICE_LEVELS)"

definition um_getOrdersAtPrice :: "Price \<Rightarrow> me_order_book \<Rightarrow> nat option" where
  "um_getOrdersAtPrice price b = price_orders_at_price b (um_priceToIndex price)"

definition um_addOrdersAtPrice :: "nat \<Rightarrow> me_order_book \<Rightarrow> me_order_book res" where
  "um_addOrdersAtPrice n b =
     (let s = l_side (lev b n); px = l_price (lev b n);
          b0 = b\<lparr>price_orders_at_price := (price_orders_at_price b)(um_priceToIndex px := Some n)\<rparr> in
      case side_head s b0 of
        None \<Rightarrow> Inr (upd_lev n (\<lambda>l. l\<lparr>prev_entry := Some n, next_entry := Some n\<rparr>) (set_side_head s (Some n) b0))
      | Some best \<Rightarrow>
          bindE (find_target s px best b0) (\<lambda>(add_after, target).
          if add_after
          then bindE (if target = best then derefE (prev_entry (lev b0 best)) else Inr target) (\<lambda>t.
               insert_level_after n t b0)
          else bindE (insert_level_before n target b0) (\<lambda>b1.
               if more_aggressive s px (lev b1 best)
               then Inr (set_side_head s (Some n)
                      (upd_lev target (\<lambda>l. l\<lparr>next_entry :=
                         (if next_entry l = Some best then Some n else next_entry l)\<rparr>) b1))
               else Inr b1)))"

definition um_removeOrdersAtPrice :: "Side \<Rightarrow> Price \<Rightarrow> me_order_book \<Rightarrow> me_order_book res" where
  "um_removeOrdersAtPrice s px b =
     (let best = side_head s b in
      bindE (derefE (um_getOrdersAtPrice px b)) (\<lambda>l.
      bindE (if next_entry (lev b l) = Some l then Inr (set_side_head s None b)
             else bindE (derefE (prev_entry (lev b l))) (\<lambda>before.
                  let b1 = upd_lev before (\<lambda>x. x\<lparr>next_entry := next_entry (lev b l)\<rparr>) b in
                  bindE (derefE (next_entry (lev b1 l))) (\<lambda>after.
                  let b2 = upd_lev after (\<lambda>x. x\<lparr>prev_entry := prev_entry (lev b1 l)\<rparr>) b1 in
                  Inr (if Some l = best then set_side_head s (next_entry (lev b2 l)) b2 else b2)))) (\<lambda>b3.
      let b4 = upd_lev l (\<lambda>x. x\<lparr>next_entry := None, prev_entry := None\<rparr>) b3;
          b5 = b4\<lparr>price_orders_at_price := (price_orders_at_price b4)(um_priceToIndex px := None)\<rparr> in
      bindE (deallocate l (orders_at_price_pool b5)) (\<lambda>pool.
      Inr (b5\<lparr>orders_at_price_pool := pool\<rparr>)))))"

definition um_getNextPriority :: "Price \<Rightarrow> me_order_book \<Rightarrow> Priority res" where
  "um_getNextPriority price b =
     (case um_getOrdersAtPrice price b of
        None \<Rightarrow> Inr 1
      | Some l \<Rightarrow>
          bindE (derefE (first_order (lev b l))) (\<lambda>first.
          bindE (derefE (prev_order (ord b first))) (\<lambda>last.
          Inr (o_priority (ord b last) + 1))))"

subsection \<open>Orders\<close>

text \<open>The unlinking and linking parts of \<open>removeOrder\<close> and \<open>addOrder\<close>.\<close>

definition um_unlink_order :: "nat \<Rightarrow> me_order_book \<Rightarrow> me_order_book res" where
  "um_unlink_order p b =
     (let order = ord b p; orders_at_price = um_getOrdersAtPrice (o_price order) b in
      if prev_order order = Some p then um_removeOrdersAtPrice (o_side order) (o_price order) b
      else bindE (derefE (prev_order order)) (\<lambda>before.
           let b1 = upd_ord before (\<lambda>x. x\<lparr>next_order := next_order order\<rparr>) b in
           bindE (derefE (next_order order)) (\<lambda>after.
           let b2 = upd_ord after (\<lambda>x. x\<lparr>prev_order := prev_order order\<rparr>) b1 in
           bindE (derefE orders_at_price) (\<lambda>l.
           let b3 = (if first_order (lev b2 l) = Some p
                     then upd_lev l (\<lambda>x. x\<lparr>first_order := next_order order\<rparr>) b2 else b2) in
           Inr (upd_ord p (\<lambda>x. x\<lparr>next_order := None, prev_order := None\<rparr>) b3)))))"

definition um_link_order :: "nat \<Rightarrow> me_order_book \<Rightarrow> me_order_book res" where
  "um_link_order p b =
     (case um_getOrdersAtPrice (o_price (ord b p)) b of
       None \<Rightarrow>
         (let b1 = upd_ord p (\<lambda>x. x\<lparr>prev_order := Some p, next_order := Some p\<rparr>) b in
          bindE (allocate \<lparr>l_side = o_side (ord b1 p), l_price = o_price (ord b1 p), first_order = Some p,
                   prev_entry = None, next_entry = None\<rparr> (orders_at_price_pool b1)) (\<lambda>(n, pool).
          um_addOrdersAtPrice n (b1\<lparr>orders_at_price_pool := pool\<rparr>)))
     | Some l \<Rightarrow>
         bindE (derefE (first_order (lev b l))) (\<lambda>first.
         bindE (derefE (prev_order (ord b first))) (\<lambda>last.
         let b1 = upd_ord last (\<lambda>x. x\<lparr>next_order := Some p\<rparr>) b;
             b2 = upd_ord p (\<lambda>x. x\<lparr>prev_order := prev_order (ord b1 first)\<rparr>) b1;
             b3 = upd_ord p (\<lambda>x. x\<lparr>next_order := Some first\<rparr>) b2 in
         Inr (upd_ord first (\<lambda>x. x\<lparr>prev_order := Some p\<rparr>) b3))))"

text \<open>\<open>cid_oid_to_order_[client_id][client_order_id] = p\<close>: the outer map gets the client when it is not there.\<close>

definition um_touch :: "ClientId \<Rightarrow> um_order_book \<Rightarrow> um_order_book" where
  "um_touch c u = u\<lparr>um_clients := List.insert c (um_clients u)\<rparr>"

definition um_set_cid_oid :: "ClientId \<Rightarrow> OrderId \<Rightarrow> nat option \<Rightarrow> um_order_book \<Rightarrow> um_order_book" where
  "um_set_cid_oid c i p u =
     (let b = um_book u in
      (um_touch c u)\<lparr>um_book := b\<lparr>cid_oid_to_order := (cid_oid_to_order b)(c := (cid_oid_to_order b c)(i := p))\<rparr>\<rparr>)"

definition um_removeOrder :: "nat \<Rightarrow> um_order_book \<Rightarrow> um_order_book res" where
  "um_removeOrder p u =
     bindE (um_unlink_order p (um_book u)) (\<lambda>b1.
     let u2 = um_set_cid_oid (client_id (ord b1 p)) (client_order_id (ord b1 p)) None (u\<lparr>um_book := b1\<rparr>) in
     bindE (deallocate p (order_pool (um_book u2))) (\<lambda>pool.
     Inr (u2\<lparr>um_book := (um_book u2)\<lparr>order_pool := pool\<rparr>\<rparr>)))"

definition um_addOrder :: "nat \<Rightarrow> um_order_book \<Rightarrow> um_order_book res" where
  "um_addOrder p u =
     bindE (um_link_order p (um_book u)) (\<lambda>b1.
     Inr (um_set_cid_oid (client_id (ord b1 p)) (client_order_id (ord b1 p)) (Some p) (u\<lparr>um_book := b1\<rparr>)))"

subsection \<open>Matching\<close>

definition um_sendClientResponse :: "MEClientResponse \<Rightarrow> um_order_book \<Rightarrow> um_order_book" where
  "um_sendClientResponse r u = u\<lparr>um_book := sendClientResponse r (um_book u)\<rparr>"

definition um_sendMarketUpdate :: "MEMarketUpdate \<Rightarrow> um_order_book \<Rightarrow> um_order_book" where
  "um_sendMarketUpdate m u = u\<lparr>um_book := sendMarketUpdate m (um_book u)\<rparr>"

definition um_match ::
  "TickerId \<Rightarrow> ClientId \<Rightarrow> Side \<Rightarrow> OrderId \<Rightarrow> OrderId \<Rightarrow> nat \<Rightarrow> Qty \<Rightarrow> um_order_book \<Rightarrow> (Qty \<times> um_order_book) res"
where
  "um_match ticker client side coid new_market_order_id itr leaves_qty u =
     (let order_qty = o_qty (ord (um_book u) itr);
          fill_qty = min leaves_qty order_qty;
          leaves_qty' = leaves_qty - fill_qty;
          u1 = u\<lparr>um_book := upd_ord itr (\<lambda>x. x\<lparr>o_qty := o_qty x - fill_qty\<rparr>) (um_book u)\<rparr>;
          order = ord (um_book u1) itr;
          u2 = um_sendClientResponse
            \<lparr>rs_type = FILLED, rs_client_id = client, rs_ticker_id = ticker, rs_client_order_id = coid,
             rs_market_order_id = new_market_order_id, rs_side = side, rs_price = o_price order,
             rs_exec_qty = fill_qty, rs_leaves_qty = leaves_qty'\<rparr> u1;
          u3 = um_sendClientResponse
            \<lparr>rs_type = FILLED, rs_client_id = client_id order, rs_ticker_id = ticker,
             rs_client_order_id = client_order_id order, rs_market_order_id = market_order_id order,
             rs_side = o_side order, rs_price = o_price order, rs_exec_qty = fill_qty,
             rs_leaves_qty = o_qty order\<rparr> u2;
          u4 = um_sendMarketUpdate
            \<lparr>mu_type = TRADE, mu_order_id = OrderId_INVALID, mu_ticker_id = ticker, mu_side = side,
             mu_price = o_price order, mu_qty = fill_qty, mu_priority = Priority_INVALID\<rparr> u3 in
      if o_qty order = 0
      then bindE (um_removeOrder itr (um_sendMarketUpdate
             \<lparr>mu_type = CANCEL, mu_order_id = market_order_id order, mu_ticker_id = ticker, mu_side = o_side order,
              mu_price = o_price order, mu_qty = order_qty, mu_priority = Priority_INVALID\<rparr> u4)) (\<lambda>u5.
           Inr (leaves_qty', u5))
      else Inr (leaves_qty', um_sendMarketUpdate
             \<lparr>mu_type = MODIFY, mu_order_id = market_order_id order, mu_ticker_id = ticker, mu_side = o_side order,
              mu_price = o_price order, mu_qty = o_qty order, mu_priority = o_priority order\<rparr> u4))"

fun um_match_loop ::
  "nat \<Rightarrow> TickerId \<Rightarrow> ClientId \<Rightarrow> Side \<Rightarrow> Price \<Rightarrow> OrderId \<Rightarrow> OrderId \<Rightarrow> Qty \<Rightarrow> um_order_book \<Rightarrow>
   (Qty \<times> um_order_book) res"
where
  "um_match_loop fuel ticker client side price coid new_id leaves_qty u =
     (if leaves_qty = 0 then Inr (leaves_qty, u)
      else case passive_head side (um_book u) of
        None \<Rightarrow> Inr (leaves_qty, u)
      | Some l \<Rightarrow>
          bindE (derefE (first_order (lev (um_book u) l))) (\<lambda>itr.
          if outside side price (o_price (ord (um_book u) itr)) then Inr (leaves_qty, u)
          else if fuel = 0 then Inl Diverges
          else bindE (um_match ticker client side coid new_id itr leaves_qty u) (\<lambda>(leaves_qty', u').
               um_match_loop (fuel - 1) ticker client side price coid new_id leaves_qty' u')))"

declare um_match_loop.simps [simp del]

definition um_checkForMatch ::
  "ClientId \<Rightarrow> OrderId \<Rightarrow> TickerId \<Rightarrow> Side \<Rightarrow> Price \<Rightarrow> Qty \<Rightarrow> Qty \<Rightarrow> um_order_book \<Rightarrow> (Qty \<times> um_order_book) res" where
  "um_checkForMatch client coid ticker side price qty new_market_order_id u =
     (if side = BUY \<or> side = SELL
      then um_match_loop (pool_size (order_pool (um_book u)) + 1) ticker client side price coid
             (ucast new_market_order_id) qty u
      else Inr (qty, u))"

definition um_add ::
  "ClientId \<Rightarrow> OrderId \<Rightarrow> TickerId \<Rightarrow> Side \<Rightarrow> Price \<Rightarrow> Qty \<Rightarrow> um_order_book \<Rightarrow> um_order_book res" where
  "um_add client coid ticker side price qty u =
     (case generateNewMarketOrderId (um_book u) of (new_market_order_id, b1) \<Rightarrow>
      let u2 = um_sendClientResponse
            \<lparr>rs_type = ACCEPTED, rs_client_id = client, rs_ticker_id = ticker, rs_client_order_id = coid,
             rs_market_order_id = new_market_order_id, rs_side = side, rs_price = price,
             rs_exec_qty = 0, rs_leaves_qty = qty\<rparr> (u\<lparr>um_book := b1\<rparr>) in
      bindE (um_checkForMatch client coid ticker side price qty (ucast new_market_order_id) u2) (\<lambda>(leaves_qty, u3).
      if leaves_qty \<noteq> 0
      then bindE (um_getNextPriority price (um_book u3)) (\<lambda>priority.
           bindE (allocate \<lparr>o_side = side, o_price = price, o_qty = leaves_qty, o_priority = priority,
                    prev_order = None, next_order = None, ticker_id = ticker, client_id = client,
                    client_order_id = coid, market_order_id = new_market_order_id\<rparr> (order_pool (um_book u3))) (\<lambda>(p, pool).
           bindE (um_addOrder p (u3\<lparr>um_book := (um_book u3)\<lparr>order_pool := pool\<rparr>\<rparr>)) (\<lambda>u4.
           Inr (um_sendMarketUpdate
             \<lparr>mu_type = ADD, mu_order_id = new_market_order_id, mu_ticker_id = ticker, mu_side = side,
              mu_price = price, mu_qty = leaves_qty, mu_priority = priority\<rparr> u4))))
      else Inr u3))"

text \<open>\<open>is_cancelable = (client_id < cid_oid_to_order_.size())\<close>: the number of clients, not the room for them.\<close>

definition um_cancel :: "ClientId \<Rightarrow> OrderId \<Rightarrow> TickerId \<Rightarrow> um_order_book \<Rightarrow> um_order_book res" where
  "um_cancel client order_id ticker u =
     (let is_cancelable = (unat client < length (um_clients u));
          u0 = (if is_cancelable then um_touch client u else u) in
      case (if is_cancelable then cid_oid_to_order (um_book u0) client order_id else None) of
        None \<Rightarrow> Inr (um_sendClientResponse
          \<lparr>rs_type = CANCEL_REJECTED, rs_client_id = client, rs_ticker_id = ticker, rs_client_order_id = order_id,
           rs_market_order_id = OrderId_INVALID, rs_side = Side_INVALID, rs_price = Price_INVALID,
           rs_exec_qty = Qty_INVALID, rs_leaves_qty = Qty_INVALID\<rparr> u0)
      | Some p \<Rightarrow>
          (let order = ord (um_book u0) p;
               response = \<lparr>rs_type = CANCELED, rs_client_id = client, rs_ticker_id = ticker,
                 rs_client_order_id = order_id, rs_market_order_id = market_order_id order, rs_side = o_side order,
                 rs_price = o_price order, rs_exec_qty = Qty_INVALID, rs_leaves_qty = o_qty order\<rparr>;
               update = \<lparr>mu_type = CANCEL, mu_order_id = market_order_id order, mu_ticker_id = ticker,
                 mu_side = o_side order, mu_price = o_price order, mu_qty = 0, mu_priority = o_priority order\<rparr> in
           bindE (um_removeOrder p u0) (\<lambda>u1.
           Inr (um_sendClientResponse response (um_sendMarketUpdate update u1)))))"

definition um_request :: "MEClientRequest \<Rightarrow> um_order_book \<Rightarrow> um_order_book res" where
  "um_request r u =
     (case rq_type r of
        NEW \<Rightarrow> um_add (rq_client_id r) (rq_order_id r) (rq_ticker_id r) (rq_side r) (rq_price r) (rq_qty r) u
      | Request_CANCEL \<Rightarrow> um_cancel (rq_client_id r) (rq_order_id r) (rq_ticker_id r) u
      | _ \<Rightarrow> Inr u)"

definition um_toString :: "bool \<Rightarrow> bool \<Rightarrow> um_order_book \<Rightarrow> string res" where
  "um_toString detailed validity_check u =
     book_toString market_order_id (book_ticker_id (um_book u)) detailed validity_check (um_book u)"

subsection \<open>Inside the array's window\<close>

text \<open>No operation changes the base price.\<close>

lemma base_price_send [simp]:
  "base_price (sendClientResponse r b) = base_price b" "base_price (sendMarketUpdate m b) = base_price b"
  by (simp_all add: sendClientResponse_def sendMarketUpdate_def)

lemma insert_level_base: 
  "insert_level_after n t b = Inr b' \<Longrightarrow> base_price b' = base_price b"
  "insert_level_before n t b = Inr b' \<Longrightarrow> base_price b' = base_price b"
  by (auto simp: insert_level_after_def insert_level_before_def Let_def res_simps)

lemma addOrdersAtPrice_base: "addOrdersAtPrice n b = Inr b' \<Longrightarrow> base_price b' = base_price b"
  by (auto simp: addOrdersAtPrice_def Let_def res_simps split: option.splits if_splits dest!: insert_level_base)

lemma removeOrdersAtPrice_base: "removeOrdersAtPrice s px b = Inr b' \<Longrightarrow> base_price b' = base_price b"
  by (auto simp: removeOrdersAtPrice_def Let_def res_simps split: if_splits)

lemma unlink_order_base: "unlink_order p b = Inr b' \<Longrightarrow> base_price b' = base_price b"
  by (auto simp: unlink_order_def Let_def res_simps split: if_splits dest!: removeOrdersAtPrice_base)

lemma link_order_base: "link_order p b = Inr b' \<Longrightarrow> base_price b' = base_price b"
  by (auto simp: link_order_def Let_def res_simps split: option.splits dest!: addOrdersAtPrice_base)

lemma priceToIndex_um: "in_window px b \<Longrightarrow> base_price b = 0 \<Longrightarrow> priceToIndex px b = Inr (um_priceToIndex px)"
  by (simp add: priceToIndex_in um_priceToIndex_def in_window_def index_of_def ME_MAX_PRICE_LEVELS_def)

lemma getOrdersAtPrice_um: "in_window px b \<Longrightarrow> base_price b = 0 \<Longrightarrow> getOrdersAtPrice px b = Inr (um_getOrdersAtPrice px b)"
  by (simp add: getOrdersAtPrice_def um_getOrdersAtPrice_def priceToIndex_um)

lemma addOrdersAtPrice_um: "in_window (l_price (lev b n)) b \<Longrightarrow> base_price b = 0 \<Longrightarrow> addOrdersAtPrice n b = um_addOrdersAtPrice n b"
  for b :: me_order_book
  unfolding addOrdersAtPrice_def um_addOrdersAtPrice_def Let_def by (simp add: priceToIndex_um)

lemma removeOrdersAtPrice_um:
  fixes b :: me_order_book
  assumes w: "in_window px b" and z: "base_price b = 0"
  shows "removeOrdersAtPrice s px b = um_removeOrdersAtPrice s px b"
proof -
  have "priceToIndex px b' = Inr (um_priceToIndex px)" if "base_price b' = base_price b" for b' :: me_order_book
    using that w z by (simp add: priceToIndex_um in_window_cong [OF that])
  then show ?thesis
    unfolding removeOrdersAtPrice_def um_removeOrdersAtPrice_def Let_def getOrdersAtPrice_um [OF w z] bindE_Inr
    by (intro bindE_cong refl) (auto simp: res_simps Let_def split: if_splits)
qed

lemma getOrdersAtPrice_window: "getOrdersAtPrice px b = Inr x \<Longrightarrow> in_window px b"
  using getOrdersAtPrice_out by (cases "in_window px b") force+

lemma unlink_order_um:
  fixes b :: me_order_book
  assumes "unlink_order p b = Inr b'" and z: "base_price b = 0"
  shows "um_unlink_order p b = Inr b'"
proof -
  from assms(1) obtain x where "getOrdersAtPrice (o_price (ord b p)) b = Inr x"
    by (auto simp: unlink_order_def Let_def res_simps)
  then have w: "in_window (o_price (ord b p)) b" by (rule getOrdersAtPrice_window)
  show ?thesis
    using assms(1) unfolding unlink_order_def um_unlink_order_def Let_def getOrdersAtPrice_um [OF w z] bindE_Inr
      removeOrdersAtPrice_um [OF w z] .
qed

lemma allocate_obj: "allocate x p = Inr (n, q) \<Longrightarrow> pobj q n = x"
  by (auto simp: allocate_def Let_def res_simps updateNextFreeIndex_def pobj_def)

lemma link_order_um:
  fixes b :: me_order_book
  assumes "link_order p b = Inr b'" and z: "base_price b = 0"
  shows "um_link_order p b = Inr b'"
proof -
  from assms(1) obtain x where "getOrdersAtPrice (o_price (ord b p)) b = Inr x"
    by (auto simp: link_order_def Let_def res_simps)
  then have w: "in_window (o_price (ord b p)) b" by (rule getOrdersAtPrice_window)
  show ?thesis
  proof (cases "um_getOrdersAtPrice (o_price (ord b p)) b")
    case (Some l)
    then show ?thesis using assms(1) unfolding link_order_def um_link_order_def getOrdersAtPrice_um [OF w z] by simp
  next
    case None
    then obtain n pool where a: "allocate \<lparr>l_side = o_side (ord b p), l_price = o_price (ord b p), first_order = Some p,
          prev_entry = None, next_entry = None\<rparr> (orders_at_price_pool b) = Inr (n, pool)"
      "addOrdersAtPrice n ((upd_ord p (\<lambda>x. x\<lparr>prev_order := Some p, next_order := Some p\<rparr>) b)\<lparr>orders_at_price_pool := pool\<rparr>) = Inr b'"
      using assms(1) unfolding link_order_def getOrdersAtPrice_um [OF w z] by (auto simp: Let_def res_simps)
    let ?b = "(upd_ord p (\<lambda>x. x\<lparr>prev_order := Some p, next_order := Some p\<rparr>) b)\<lparr>orders_at_price_pool := pool\<rparr>"
    have "l_price (lev ?b n) = o_price (ord b p)" using allocate_obj [OF a(1)] by (simp add: lev_def)
    then have "addOrdersAtPrice n ?b = um_addOrdersAtPrice n ?b"
      using w z by (intro addOrdersAtPrice_um) (simp_all add: in_window_def)
    then show ?thesis using a None by (simp add: um_link_order_def Let_def)
  qed
qed

text \<open>
  Each operation that the array book completes, the hash book completes with the same book. Its clients only grow.
\<close>

definition um_sim :: "um_order_book res \<Rightarrow> um_order_book \<Rightarrow> me_order_book \<Rightarrow> bool" where
  "um_sim r u b' \<longleftrightarrow> (\<exists>ks. r = Inr \<lparr>um_book = b', um_clients = ks\<rparr>) \<and> base_price b' = base_price (um_book u)"

lemma set_cid_oid_um: "set_cid_oid c i p (um_book u) = Inr b' \<Longrightarrow>
    \<exists>ks. um_set_cid_oid c i p u = \<lparr>um_book = b', um_clients = ks\<rparr> \<and> base_price b' = base_price (um_book u)"
  by (cases u) (auto simp: set_cid_oid_def um_set_cid_oid_def um_touch_def Let_def res_simps)

lemma removeOrder_um:
  assumes "removeOrder p (um_book u) = Inr b'" and z: "base_price (um_book u) = 0"
  shows "um_sim (um_removeOrder p u) u b'"
proof -
  from assms(1) obtain b1 b2 pool where b: "unlink_order p (um_book u) = Inr b1"
    "set_cid_oid (client_id (ord b1 p)) (client_order_id (ord b1 p)) None b1 = Inr b2"
    "deallocate p (order_pool b2) = Inr pool" "b' = b2\<lparr>order_pool := pool\<rparr>"
    by (auto simp: removeOrder_def res_simps)
  from b(2) set_cid_oid_um [of "client_id (ord b1 p)" "client_order_id (ord b1 p)" None "u\<lparr>um_book := b1\<rparr>" b2]
  obtain ks where ks: "um_set_cid_oid (client_id (ord b1 p)) (client_order_id (ord b1 p)) None (u\<lparr>um_book := b1\<rparr>) =
      \<lparr>um_book = b2, um_clients = ks\<rparr>" "base_price b2 = base_price b1" by auto
  show ?thesis using b ks unlink_order_base [OF b(1)] unlink_order_um [OF b(1) z]
    by (simp add: um_sim_def um_removeOrder_def Let_def)
qed

lemma addOrder_um:
  assumes "addOrder p (um_book u) = Inr b'" and z: "base_price (um_book u) = 0"
  shows "um_sim (um_addOrder p u) u b'"
proof -
  from assms(1) obtain b1 where b: "link_order p (um_book u) = Inr b1"
    "set_cid_oid (client_id (ord b1 p)) (client_order_id (ord b1 p)) (Some p) b1 = Inr b'"
    by (auto simp: addOrder_def res_simps)
  from b(2) set_cid_oid_um [of "client_id (ord b1 p)" "client_order_id (ord b1 p)" "Some p" "u\<lparr>um_book := b1\<rparr>" b']
  show ?thesis using b(1) link_order_base [OF b(1)] link_order_um [OF b(1) z]
    by (auto simp: um_sim_def um_addOrder_def)
qed

lemma um_send_simps [simp]:
  "um_book (um_sendClientResponse r u) = sendClientResponse r (um_book u)"
  "um_book (um_sendMarketUpdate m u) = sendMarketUpdate m (um_book u)"
  by (simp_all add: um_sendClientResponse_def um_sendMarketUpdate_def)

lemma um_send_eq:
  "um_sendClientResponse r \<lparr>um_book = b, um_clients = ks\<rparr> = \<lparr>um_book = sendClientResponse r b, um_clients = ks\<rparr>"
  "um_sendMarketUpdate m \<lparr>um_book = b, um_clients = ks\<rparr> = \<lparr>um_book = sendMarketUpdate m b, um_clients = ks\<rparr>"
  by (simp_all add: um_sendClientResponse_def um_sendMarketUpdate_def)

lemma me_match_um:
  assumes "me_match ticker client side coid new_id itr q (um_book u) = Inr (q', b')" and z: "base_price (um_book u) = 0"
  shows "\<exists>u'. um_match ticker client side coid new_id itr q u = Inr (q', u') \<and> um_book u' = b' \<and> base_price b' = 0"
proof -
  define f where "f = min q (o_qty (ord (um_book u) itr))"
  define u1 where "u1 = u\<lparr>um_book := upd_ord itr (\<lambda>x. x\<lparr>o_qty := o_qty x - f\<rparr>) (um_book u)\<rparr>"
  define x where "x = ord (um_book u1) itr"
  define r1 where "r1 = \<lparr>rs_type = FILLED, rs_client_id = client, rs_ticker_id = ticker, rs_client_order_id = coid,
    rs_market_order_id = new_id, rs_side = side, rs_price = o_price x, rs_exec_qty = f, rs_leaves_qty = q - f\<rparr>"
  define r2 where "r2 = \<lparr>rs_type = FILLED, rs_client_id = client_id x, rs_ticker_id = ticker, rs_client_order_id = client_order_id x,
    rs_market_order_id = market_order_id x, rs_side = o_side x, rs_price = o_price x, rs_exec_qty = f, rs_leaves_qty = o_qty x\<rparr>"
  define m1 where "m1 = \<lparr>mu_type = TRADE, mu_order_id = OrderId_INVALID, mu_ticker_id = ticker, mu_side = side,
    mu_price = o_price x, mu_qty = f, mu_priority = Priority_INVALID\<rparr>"
  define m2 where "m2 = \<lparr>mu_type = CANCEL, mu_order_id = market_order_id x, mu_ticker_id = ticker, mu_side = o_side x,
    mu_price = o_price x, mu_qty = o_qty (ord (um_book u) itr), mu_priority = Priority_INVALID\<rparr>"
  define m3 where "m3 = \<lparr>mu_type = MODIFY, mu_order_id = market_order_id x, mu_ticker_id = ticker, mu_side = o_side x,
    mu_price = o_price x, mu_qty = o_qty x, mu_priority = o_priority x\<rparr>"
  define u4 where "u4 = um_sendMarketUpdate m1 (um_sendClientResponse r2 (um_sendClientResponse r1 u1))"
  have um: "um_match ticker client side coid new_id itr q u =
      (if o_qty x = 0 then bindE (um_removeOrder itr (um_sendMarketUpdate m2 u4)) (\<lambda>u5. Inr (q - f, u5))
       else Inr (q - f, um_sendMarketUpdate m3 u4))"
    unfolding um_match_def Let_def u4_def m3_def m2_def m1_def r2_def r1_def x_def u1_def f_def by (rule refl)
  have "um_book u4 = sendMarketUpdate m1 (sendClientResponse r2 (sendClientResponse r1 (um_book u1)))" by (simp add: u4_def)
  then have me: "me_match ticker client side coid new_id itr q (um_book u) =
      (if o_qty x = 0 then bindE (removeOrder itr (sendMarketUpdate m2 (um_book u4))) (\<lambda>b5. Inr (q - f, b5))
       else Inr (q - f, sendMarketUpdate m3 (um_book u4)))"
    unfolding me_match_def Let_def m3_def m2_def m1_def r2_def r1_def x_def u1_def f_def by simp
  have z4: "base_price (um_book u4) = 0" using z by (simp add: u4_def u1_def)
  show ?thesis
  proof (cases "o_qty x = 0")
    case False
    then show ?thesis using assms(1) z4 unfolding um me by auto
  next
    case True
    then have r: "removeOrder itr (um_book (um_sendMarketUpdate m2 u4)) = Inr b'" "q' = q - f"
      using assms(1) unfolding me by (simp_all add: bindE_eq_Inr)
    show ?thesis using removeOrder_um [OF r(1)] z4 True r(2) unfolding um by (auto simp: um_sim_def)
  qed
qed

lemma match_loop_um:
  assumes "match_loop fuel ticker client side price coid new_id q (um_book u) = Inr (q', b')" and "base_price (um_book u) = 0"
  shows "\<exists>u'. um_match_loop fuel ticker client side price coid new_id q u = Inr (q', u') \<and> um_book u' = b' \<and> base_price b' = 0"
  using assms
proof (induction fuel arbitrary: q u)
  case 0
  then show ?case unfolding um_match_loop.simps [of 0] match_loop.simps [of 0]
    by (cases "passive_head side (um_book u)") (auto simp: res_simps split: if_splits)
next
  case (Suc fuel)
  show ?case
  proof (cases "q = 0 \<or> passive_head side (um_book u) = None")
    case True
    then show ?thesis using Suc.prems unfolding um_match_loop.simps [of "Suc fuel"] match_loop.simps [of "Suc fuel"] by auto
  next
    case False
    then obtain l where l: "passive_head side (um_book u) = Some l" "q \<noteq> 0" by auto
    from Suc.prems(1) l obtain itr where i: "first_order (lev (um_book u) l) = Some itr"
      unfolding match_loop.simps [of "Suc fuel"] by (auto simp: res_simps)
    show ?thesis
    proof (cases "outside side price (o_price (ord (um_book u) itr))")
      case True
      then show ?thesis using Suc.prems l i unfolding um_match_loop.simps [of "Suc fuel"] match_loop.simps [of "Suc fuel"] by auto
    next
      case inside: False
      from Suc.prems(1) l i inside obtain q1 b1 where m: "me_match ticker client side coid new_id itr q (um_book u) = Inr (q1, b1)"
        "match_loop fuel ticker client side price coid new_id q1 b1 = Inr (q', b')"
        unfolding match_loop.simps [of "Suc fuel"] by (auto simp: res_simps)
      from me_match_um [OF m(1) Suc.prems(2)] obtain u1 where u1:
        "um_match ticker client side coid new_id itr q u = Inr (q1, u1)" "um_book u1 = b1" "base_price b1 = 0" by blast
      from Suc.IH [of q1 u1] m(2) u1 obtain u' where
        "um_match_loop fuel ticker client side price coid new_id q1 u1 = Inr (q', u')" "um_book u' = b'" "base_price b' = 0" by auto
      then show ?thesis using l i inside u1(1) unfolding um_match_loop.simps [of "Suc fuel"] by simp
    qed
  qed
qed

lemma getNextPriority_um:
  assumes "getNextPriority price b = Inr pr" and z: "base_price b = 0"
  shows "um_getNextPriority price b = Inr pr"
proof -
  from assms(1) obtain x where "getOrdersAtPrice price b = Inr x" by (auto simp: getNextPriority_def res_simps)
  then have w: "in_window price b" by (rule getOrdersAtPrice_window)
  show ?thesis using assms(1) unfolding getNextPriority_def um_getNextPriority_def getOrdersAtPrice_um [OF w z] by simp
qed

lemma me_add_um:
  assumes "me_add client coid ticker side price qty (um_book u) = Inr b'" and z: "base_price (um_book u) = 0"
  shows "\<exists>u'. um_add client coid ticker side price qty u = Inr u' \<and> um_book u' = b' \<and> base_price b' = 0"
proof -
  define id1 where "id1 = next_market_order_id (um_book u)"
  define r1 where "r1 = \<lparr>rs_type = ACCEPTED, rs_client_id = client, rs_ticker_id = ticker, rs_client_order_id = coid,
    rs_market_order_id = id1, rs_side = side, rs_price = price, rs_exec_qty = 0, rs_leaves_qty = qty\<rparr>"
  define u2 where "u2 = um_sendClientResponse r1 (u\<lparr>um_book := (um_book u)\<lparr>next_market_order_id := id1 + 1\<rparr>\<rparr>)"
  define x where "x = (\<lambda>q pr. \<lparr>o_side = side, o_price = price, o_qty = q, o_priority = pr, prev_order = None, next_order = None,
    ticker_id = ticker, client_id = client, client_order_id = coid, market_order_id = id1\<rparr>)"
  define m where "m = (\<lambda>q pr. \<lparr>mu_type = ADD, mu_order_id = id1, mu_ticker_id = ticker, mu_side = side, mu_price = price,
    mu_qty = q, mu_priority = pr\<rparr>)"
  have z2: "base_price (um_book u2) = 0" using z by (simp add: u2_def)
  have um: "um_add client coid ticker side price qty u =
     bindE (um_checkForMatch client coid ticker side price qty (ucast id1) u2) (\<lambda>(leaves_qty, u3).
      if leaves_qty \<noteq> 0
      then bindE (um_getNextPriority price (um_book u3)) (\<lambda>pr.
           bindE (allocate (x leaves_qty pr) (order_pool (um_book u3))) (\<lambda>(p, pool).
           bindE (um_addOrder p (u3\<lparr>um_book := (um_book u3)\<lparr>order_pool := pool\<rparr>\<rparr>)) (\<lambda>u4.
           Inr (um_sendMarketUpdate (m leaves_qty pr) u4))))
      else Inr u3)"
    unfolding um_add_def generateNewMarketOrderId_def case_prod_conv Let_def u2_def m_def x_def r1_def id1_def by (rule refl)
  have "um_book u2 = sendClientResponse r1 ((um_book u)\<lparr>next_market_order_id := id1 + 1\<rparr>)" by (simp add: u2_def)
  then have me: "me_add client coid ticker side price qty (um_book u) =
     bindE (checkForMatch client coid ticker side price qty (ucast id1) (um_book u2)) (\<lambda>(leaves_qty, b3).
      if leaves_qty \<noteq> 0
      then bindE (getNextPriority price b3) (\<lambda>pr.
           bindE (allocate (x leaves_qty pr) (order_pool b3)) (\<lambda>(p, pool).
           bindE (addOrder p (b3\<lparr>order_pool := pool\<rparr>)) (\<lambda>b4.
           Inr (sendMarketUpdate (m leaves_qty pr) b4))))
      else Inr b3)"
    unfolding me_add_def generateNewMarketOrderId_def case_prod_conv Let_def m_def x_def r1_def id1_def by simp
  from assms(1) obtain q3 b3 where c: "checkForMatch client coid ticker side price qty (ucast id1) (um_book u2) = Inr (q3, b3)"
    unfolding me by (auto simp: bindE_eq_Inr)
  have "\<exists>u3. um_checkForMatch client coid ticker side price qty (ucast id1) u2 = Inr (q3, u3) \<and> um_book u3 = b3 \<and> base_price b3 = 0"
    using c match_loop_um [OF _ z2] z2 unfolding checkForMatch_def um_checkForMatch_def
    by (cases "side = BUY \<or> side = SELL") (simp_all only: if_True if_False, auto)
  then obtain u3 where u3: "um_checkForMatch client coid ticker side price qty (ucast id1) u2 = Inr (q3, u3)"
    "um_book u3 = b3" "base_price b3 = 0" by blast
  show ?thesis
  proof (cases "q3 = 0")
    case True
    then show ?thesis using assms(1) c u3 unfolding um me by simp
  next
    case False
    with assms(1) c obtain pr p pool b4 where b4: "getNextPriority price b3 = Inr pr"
      "allocate (x q3 pr) (order_pool b3) = Inr (p, pool)" "addOrder p (b3\<lparr>order_pool := pool\<rparr>) = Inr b4"
      "b' = sendMarketUpdate (m q3 pr) b4"
      unfolding me by (auto simp: bindE_eq_Inr)
    let ?u = "u3\<lparr>um_book := b3\<lparr>order_pool := pool\<rparr>\<rparr>"
    from addOrder_um [of p ?u b4] b4(3) u3(3) obtain ks where "um_addOrder p ?u = Inr \<lparr>um_book = b4, um_clients = ks\<rparr>"
      "base_price b4 = 0" by (auto simp: um_sim_def)
    then show ?thesis using False b4 u3 getNextPriority_um [OF b4(1) u3(3)] unfolding um by simp
  qed
qed

lemma me_cancel_um:
  assumes "me_cancel client oid ticker (um_book u) = Inr b'" and z: "base_price (um_book u) = 0"
    and c: "unat client < ME_MAX_NUM_CLIENTS" and k: "unat client < length (um_clients u)"
  shows "\<exists>u'. um_cancel client oid ticker u = Inr u' \<and> um_book u' = b' \<and> base_price b' = 0"
proof -
  have t: "um_book (um_touch client u) = um_book u" by (simp add: um_touch_def)
  show ?thesis
  proof (cases "cid_oid_to_order (um_book u) client oid")
    case None
    then show ?thesis using assms(1) z c k t by (auto simp: me_cancel_def um_cancel_def Let_def res_simps)
  next
    case (Some p)
    from assms(1) c Some obtain b1 where b1: "removeOrder p (um_book (um_touch client u)) = Inr b1"
      unfolding t by (auto simp: me_cancel_def Let_def res_simps)
    from removeOrder_um [OF b1] z t obtain ks where
      "um_removeOrder p (um_touch client u) = Inr \<lparr>um_book = b1, um_clients = ks\<rparr>" "base_price b1 = 0"
      by (auto simp: um_sim_def)
    then show ?thesis using assms(1) c k t Some b1 by (auto simp: me_cancel_def um_cancel_def Let_def res_simps)
  qed
qed

text \<open>The clients' ids stay below the number of clients whenever they cancel, as the run goes.\<close>

fun cancels_known :: "MEClientRequest list \<Rightarrow> um_order_book \<Rightarrow> bool" where
  "cancels_known [] u = True"
| "cancels_known (r # rs) u =
     ((rq_type r = Request_CANCEL \<longrightarrow> unat (rq_client_id r) < length (um_clients u)) \<and>
      (case um_request r u of Inl e \<Rightarrow> True | Inr u' \<Rightarrow> cancels_known rs u'))"

lemma request_um:
  assumes "book_request r (um_book u) = Inr b'" and "base_price (um_book u) = 0" and "unat (rq_client_id r) < ME_MAX_NUM_CLIENTS"
    and "rq_type r = Request_CANCEL \<longrightarrow> unat (rq_client_id r) < length (um_clients u)"
  shows "\<exists>u'. um_request r u = Inr u' \<and> um_book u' = b' \<and> base_price b' = 0"
  using assms me_add_um [of _ _ _ _ _ _ u b'] me_cancel_um [of _ _ _ u b']
  by (cases "rq_type r") (simp_all add: book_request_def um_request_def)

lemma run_um:
  assumes "foldE book_request rs (um_book u) = Inr b'" and "base_price (um_book u) = 0"
    and "\<forall>r \<in> set rs. unat (rq_client_id r) < ME_MAX_NUM_CLIENTS" and "cancels_known rs u"
  shows "\<exists>u'. foldE um_request rs u = Inr u' \<and> um_book u' = b'"
  using assms
proof (induction rs arbitrary: u)
  case Nil then show ?case by simp
next
  case (Cons r rs)
  from Cons.prems(1) obtain b1 where b1: "book_request r (um_book u) = Inr b1" "foldE book_request rs b1 = Inr b'"
    by (auto simp: res_simps)
  from request_um [OF b1(1)] Cons.prems obtain u1 where u1: "um_request r u = Inr u1" "um_book u1 = b1" "base_price b1 = 0"
    by auto
  show ?case using Cons.IH [of u1] b1(2) u1 Cons.prems(3,4) by simp
qed

text \<open>
  C20. The two books the benchmark compares, on sessions that cancel only for clients the hash book can look up. The hash book
  accepts a CANCEL only if the client's id is below the number of clients it has an entry for (\<open>cancels_known\<close>: so it is for
  every CANCEL of the session; where it is not, the books differ, see \<open>hash_book_rejects_cancel\<close>). On every well-formed session with prices in \<open>[0, 2^21)\<close> whose CANCELs all satisfy this,
  the hash book completes every request and ends with exactly the array book's state, down to the pointers, the pools and
  the messages sent; so it too computes the specification's messages.
\<close>

theorem hash_book_equivalent:
  assumes "\<forall>r \<in> set rs. request_ok ticker 0 r" and "length rs < ME_MAX_ORDER_IDS" and "distinct (new_ids rs)"
    and "cancels_known rs (um_book_new ticker)" and "spec_run rs (1, \<lambda>_. []) = ((n, A), evs)"
  shows "\<exists>b u. foldE book_request rs (fresh_book ticker 0) = Inr b \<and> foldE um_request rs (um_book_new ticker) = Inr u \<and>
    um_book u = b \<and> outbox (um_book u) = evs"
proof -
  have "unat (1 :: 64 word) + length rs < 2 ^ 64" using assms(2) by (simp add: ME_MAX_ORDER_IDS_def)
  then obtain b where b: "foldE book_request rs (fresh_book ticker 0) = Inr b" "outbox b = evs"
    using book_run_ok [of "fresh_book ticker 0" "\<lambda>_. []" rs n A evs] assms by (auto simp: view_empty order_ids_def)
  have f: "um_book (um_book_new ticker) = fresh_book ticker 0" by (simp add: um_book_new_def fresh_book_def)
  have "\<forall>r \<in> set rs. unat (rq_client_id r) < ME_MAX_NUM_CLIENTS" using assms(1) by (simp add: request_ok_def)
  with run_um [of rs "um_book_new ticker" b] b assms(4) show ?thesis by (auto simp: f)
qed

lemmas um_eval = um_book_new_def um_request_def um_add_def generateNewMarketOrderId_def Let_def um_checkForMatch_def
  um_match_loop.simps passive_head_def um_sendClientResponse_def um_sendMarketUpdate_def um_getNextPriority_def
  um_getOrdersAtPrice_def um_addOrder_def um_link_order_def um_addOrdersAtPrice_def side_head_def um_set_cid_oid_def
  um_touch_def me_book_new_def sendClientResponse_def sendMarketUpdate_def um_priceToIndex_def ME_MAX_PRICE_LEVELS_def
  ME_MAX_ORDER_IDS_def allocate_def pool_new_def updateNextFreeIndex_def find_free.simps next_index_def ord_def lev_def
  pobj_def upd_ord_def pupd_def upd_lev_def set_side_head_def

definition one_client :: "ClientId \<Rightarrow> MEClientRequest list" where
  "one_client c =
    [\<lparr>rq_type = NEW, rq_client_id = c, rq_ticker_id = 0, rq_order_id = 1, rq_side = BUY, rq_price = 100, rq_qty = 10\<rparr>,
     \<lparr>rq_type = Request_CANCEL, rq_client_id = c, rq_ticker_id = 0, rq_order_id = 1, rq_side = Side_INVALID,
      rq_price = Price_INVALID, rq_qty = Qty_INVALID\<rparr>]"

lemma one_client_new: "\<exists>u. um_request (one_client c ! 0) (um_book_new 0) = Inr u \<and> um_clients u = [c]"
  by (simp add: um_eval one_client_def)

lemma one_client_ok: "unat c < ME_MAX_NUM_CLIENTS \<Longrightarrow> \<forall>r \<in> set (one_client c). request_ok 0 0 r"
  "length (one_client c) < ME_MAX_ORDER_IDS" "distinct (new_ids (one_client c))"
  by (simp_all add: one_client_def request_ok_def new_ids_def ME_MAX_ORDER_IDS_def ME_MAX_PRICE_LEVELS_def)

lemma one_client_spec: "\<exists>n A evs. spec_run (one_client c) (1, \<lambda>_. []) = ((n, A), evs) \<and> map rs_type (responses_of evs) = [ACCEPTED, CANCELED]"
  by (simp add: one_client_def spec_request_def spec_add_def spec_cancel_def Let_def outside_def queue_insert_def
        spec_new_order_def fill_events_def cancel_events_def owned_by_def responses_of_def)

theorem hash_book_equivalent_witness:
  "\<exists>b u. foldE book_request (one_client 0) (fresh_book 0 0) = Inr b \<and> foldE um_request (one_client 0) (um_book_new 0) = Inr u \<and>
     um_book u = b \<and> map rs_type (responses_of (outbox (um_book u))) = [ACCEPTED, CANCELED]"
proof -
  obtain u where u: "um_request (one_client 0 ! 0) (um_book_new 0) = Inr u" "um_clients u = [0]" using one_client_new by blast
  have "cancels_known (one_client 0) (um_book_new 0)" using u by (simp add: one_client_def split: sum.split)
  moreover obtain n A evs where "spec_run (one_client 0) (1, \<lambda>_. []) = ((n, A), evs)" "map rs_type (responses_of evs) = [ACCEPTED, CANCELED]"
    using one_client_spec [of 0] by (elim exE conjE)
  ultimately show ?thesis
    using hash_book_equivalent [OF one_client_ok(1) one_client_ok(2,3), of 0 n A evs] by (auto simp: ME_MAX_NUM_CLIENTS_def)
qed

text \<open>
  Outside that condition they are not: a client whose id is not below the number of clients in the hash map can
  never cancel. One client, with any id but 0, enters an order and cancels it: the array book answers CANCELED, the hash
  book CANCEL_REJECTED, and its order stays in the book.
\<close>

theorem hash_book_rejects_cancel:
  fixes c :: ClientId
  assumes "0 < c" and "unat c < ME_MAX_NUM_CLIENTS"
  shows "\<exists>b u. foldE book_request (one_client c) (fresh_book 0 0) = Inr b \<and> foldE um_request (one_client c) (um_book_new 0) = Inr u \<and>
    map rs_type (responses_of (outbox b)) = [ACCEPTED, CANCELED] \<and>
    map rs_type (responses_of (outbox (um_book u))) = [ACCEPTED, CANCEL_REJECTED] \<and>
    cid_oid_to_order (um_book u) c 1 \<noteq> None"
proof -
  obtain n A evs where evs: "spec_run (one_client c) (1, \<lambda>_. []) = ((n, A), evs)" "map rs_type (responses_of evs) = [ACCEPTED, CANCELED]"
    using one_client_spec [of c] by (elim exE conjE)
  have "unat (1 :: 64 word) + length (one_client c) < 2 ^ 64" by (simp add: one_client_def)
  then obtain b where b: "foldE book_request (one_client c) (fresh_book 0 0) = Inr b" "outbox b = evs"
    using book_run_ok [of "fresh_book 0 0" "\<lambda>_. []" "one_client c" n A evs] one_client_ok [of c] assms(2) evs(1)
    by (auto simp: view_empty order_ids_def)
  have "\<not> unat c < 1" using assms(1) by (simp add: word_less_nat_alt)
  then have "\<exists>u. foldE um_request (one_client c) (um_book_new 0) = Inr u \<and> cid_oid_to_order (um_book u) c 1 \<noteq> None \<and>
      map rs_type (responses_of (outbox (um_book u))) = [ACCEPTED, CANCEL_REJECTED]"
    by (simp add: um_eval one_client_def um_cancel_def responses_of_def)
  with b evs(2) show ?thesis by auto
qed

theorem hash_book_rejects_cancel_witness:
  "\<exists>b u. foldE book_request (one_client 5) (fresh_book 0 0) = Inr b \<and> foldE um_request (one_client 5) (um_book_new 0) = Inr u \<and>
    map rs_type (responses_of (outbox b)) = [ACCEPTED, CANCELED] \<and>
    map rs_type (responses_of (outbox (um_book u))) = [ACCEPTED, CANCEL_REJECTED]"
  using hash_book_rejects_cancel [of 5] by (auto simp: ME_MAX_NUM_CLIENTS_def)

end
