(* ===== verification/Logging.thy ===== *)
theory Logging
  imports LFQueue Doubles
begin

text \<open>
  \<open>common/logging.h\<close> and \<open>common/opt_logging.h\<close>: the loggers every component writes to. \<open>log\<close> cuts a format string
  into elements and puts them on a queue; the logger's thread takes them off and writes them to the file.

  \<^item> \<open>LogElement\<close> and \<open>OptLogElement\<close> are the tagged unions; \<open>log_arg\<close> is an argument of \<open>log\<close>, one constructor for
    every overload of \<open>pushValue\<close>. A \<open>float\<close> is written like the \<open>double\<close> of its value.
  \<^item> \<open>logger\<close> holds the queue and the contents of the file. How an output stream prints a \<open>double\<close> is the parameter
    \<open>fmt\<close>; opening and closing the file and the sleeps are not modelled.
  \<^item> The two classes have the same \<open>log\<close>, over their own \<open>pushValue\<close>: \<open>log_with\<close> is that code. \<open>log_writer\<close> states what
    it needs of \<open>pushValue\<close>; both classes are instances.
\<close>

datatype LogElement =
    Log_CHAR char
  | Log_INTEGER "32 word"
  | Log_LONG_INTEGER "64 word"
  | Log_LONG_LONG_INTEGER "64 word"
  | Log_UNSIGNED_INTEGER "32 word"
  | Log_UNSIGNED_LONG_INTEGER "64 word"
  | Log_UNSIGNED_LONG_LONG_INTEGER "64 word"
  | Log_FLOAT double
  | Log_DOUBLE double

datatype OptLogElement =
    Opt_CHAR char
  | Opt_INTEGER "32 word"
  | Opt_LONG_INTEGER "64 word"
  | Opt_LONG_LONG_INTEGER "64 word"
  | Opt_UNSIGNED_INTEGER "32 word"
  | Opt_UNSIGNED_LONG_INTEGER "64 word"
  | Opt_UNSIGNED_LONG_LONG_INTEGER "64 word"
  | Opt_FLOAT double
  | Opt_DOUBLE double
  | Opt_STRING string

datatype log_arg =
    Arg_char char
  | Arg_int "32 word"
  | Arg_long "64 word"
  | Arg_long_long "64 word"
  | Arg_unsigned "32 word"
  | Arg_unsigned_long "64 word"
  | Arg_unsigned_long_long "64 word"
  | Arg_float double
  | Arg_double double
  | Arg_string string

definition LOG_QUEUE_SIZE :: nat where "LOG_QUEUE_SIZE = 8 * 1024 * 1024"

record 'e logger =
  log_queue :: "'e lf_queue"
  log_file :: string

definition logger_new :: "LogElement logger" where
  "logger_new = \<lparr>log_queue = lfq_new LOG_QUEUE_SIZE (Log_CHAR (CHR 0x00)), log_file = []\<rparr>"

definition opt_logger_new :: "OptLogElement logger" where
  "opt_logger_new = \<lparr>log_queue = lfq_new LOG_QUEUE_SIZE (Opt_CHAR (CHR 0x00)), log_file = []\<rparr>"

subsection \<open>Writing to the file\<close>

fun element_text :: "(double \<Rightarrow> string) \<Rightarrow> LogElement \<Rightarrow> string" where
  "element_text fmt (Log_CHAR c) = [c]"
| "element_text fmt (Log_INTEGER i) = int_to_string (sint i)"
| "element_text fmt (Log_LONG_INTEGER l) = int_to_string (sint l)"
| "element_text fmt (Log_LONG_LONG_INTEGER ll) = int_to_string (sint ll)"
| "element_text fmt (Log_UNSIGNED_INTEGER u) = int_to_string (uint u)"
| "element_text fmt (Log_UNSIGNED_LONG_INTEGER ul) = int_to_string (uint ul)"
| "element_text fmt (Log_UNSIGNED_LONG_LONG_INTEGER ull) = int_to_string (uint ull)"
| "element_text fmt (Log_FLOAT f) = fmt f"
| "element_text fmt (Log_DOUBLE d) = fmt d"

fun opt_element_text :: "(double \<Rightarrow> string) \<Rightarrow> OptLogElement \<Rightarrow> string" where
  "opt_element_text fmt (Opt_CHAR c) = [c]"
| "opt_element_text fmt (Opt_INTEGER i) = int_to_string (sint i)"
| "opt_element_text fmt (Opt_LONG_INTEGER l) = int_to_string (sint l)"
| "opt_element_text fmt (Opt_LONG_LONG_INTEGER ll) = int_to_string (sint ll)"
| "opt_element_text fmt (Opt_UNSIGNED_INTEGER u) = int_to_string (uint u)"
| "opt_element_text fmt (Opt_UNSIGNED_LONG_INTEGER ul) = int_to_string (uint ul)"
| "opt_element_text fmt (Opt_UNSIGNED_LONG_LONG_INTEGER ull) = int_to_string (uint ull)"
| "opt_element_text fmt (Opt_FLOAT f) = fmt f"
| "opt_element_text fmt (Opt_DOUBLE d) = fmt d"
| "opt_element_text fmt (Opt_STRING s) = s"

text \<open>The inner loop of \<open>flushQueue\<close>, as many rounds as there are elements.\<close>

fun flush_loop :: "nat \<Rightarrow> ('e \<Rightarrow> string) \<Rightarrow> 'e logger \<Rightarrow> 'e logger res" where
  "flush_loop 0 txt lg = Inr lg"
| "flush_loop (Suc n) txt lg =
     (case getNextToRead (log_queue lg) of
        None \<Rightarrow> Inr lg
      | Some next \<Rightarrow>
          bindE (updateReadIndex (log_queue lg)) (\<lambda>q.
          flush_loop n txt \<lparr>log_queue = q, log_file = log_file lg @ txt next\<rparr>))"

definition flushQueue :: "(double \<Rightarrow> string) \<Rightarrow> LogElement logger \<Rightarrow> LogElement logger res" where
  "flushQueue fmt lg = flush_loop (lfq_size (log_queue lg)) (element_text fmt) lg"

definition opt_flushQueue :: "(double \<Rightarrow> string) \<Rightarrow> OptLogElement logger \<Rightarrow> OptLogElement logger res" where
  "opt_flushQueue fmt lg = flush_loop (lfq_size (log_queue lg)) (opt_element_text fmt) lg"

subsection \<open>Elements\<close>

definition push_element :: "'e \<Rightarrow> 'e logger \<Rightarrow> 'e logger" where
  "push_element e lg = lg\<lparr>log_queue := lfq_push e (log_queue lg)\<rparr>"

text \<open>The characters of a C string.\<close>

definition c_str :: "string \<Rightarrow> string" where
  "c_str s = takeWhile (\<lambda>c. c \<noteq> CHR 0x00) s"

fun pushValue :: "log_arg \<Rightarrow> LogElement logger \<Rightarrow> LogElement logger" where
  "pushValue (Arg_char c) lg = push_element (Log_CHAR c) lg"
| "pushValue (Arg_int i) lg = push_element (Log_INTEGER i) lg"
| "pushValue (Arg_long l) lg = push_element (Log_LONG_INTEGER l) lg"
| "pushValue (Arg_long_long ll) lg = push_element (Log_LONG_LONG_INTEGER ll) lg"
| "pushValue (Arg_unsigned u) lg = push_element (Log_UNSIGNED_INTEGER u) lg"
| "pushValue (Arg_unsigned_long ul) lg = push_element (Log_UNSIGNED_LONG_INTEGER ul) lg"
| "pushValue (Arg_unsigned_long_long ull) lg = push_element (Log_UNSIGNED_LONG_LONG_INTEGER ull) lg"
| "pushValue (Arg_float f) lg = push_element (Log_FLOAT f) lg"
| "pushValue (Arg_double d) lg = push_element (Log_DOUBLE d) lg"
| "pushValue (Arg_string s) lg = fold (\<lambda>c. push_element (Log_CHAR c)) (c_str s) lg"

text \<open>\<open>strncpy\<close> into the 256 zeroed bytes of the element copies at most 255.\<close>

fun opt_pushValue :: "log_arg \<Rightarrow> OptLogElement logger \<Rightarrow> OptLogElement logger" where
  "opt_pushValue (Arg_char c) lg = push_element (Opt_CHAR c) lg"
| "opt_pushValue (Arg_int i) lg = push_element (Opt_INTEGER i) lg"
| "opt_pushValue (Arg_long l) lg = push_element (Opt_LONG_INTEGER l) lg"
| "opt_pushValue (Arg_long_long ll) lg = push_element (Opt_LONG_LONG_INTEGER ll) lg"
| "opt_pushValue (Arg_unsigned u) lg = push_element (Opt_UNSIGNED_INTEGER u) lg"
| "opt_pushValue (Arg_unsigned_long ul) lg = push_element (Opt_UNSIGNED_LONG_INTEGER ul) lg"
| "opt_pushValue (Arg_unsigned_long_long ull) lg = push_element (Opt_UNSIGNED_LONG_LONG_INTEGER ull) lg"
| "opt_pushValue (Arg_float f) lg = push_element (Opt_FLOAT f) lg"
| "opt_pushValue (Arg_double d) lg = push_element (Opt_DOUBLE d) lg"
| "opt_pushValue (Arg_string s) lg = push_element (Opt_STRING (take 255 (c_str s))) lg"

subsection \<open>Formats\<close>

fun log_with :: "(log_arg \<Rightarrow> 'q \<Rightarrow> 'q) \<Rightarrow> string \<Rightarrow> log_arg list \<Rightarrow> 'q \<Rightarrow> 'q res" where
  "log_with push [] [] q = Inr q"
| "log_with push [] (a # as) q = Inl Fatal"
| "log_with push (c # s) args q =
     (if c = CHR ''%''
      then (if s \<noteq> [] \<and> hd s = CHR ''%'' then log_with push (tl s) args (push (Arg_char c) q)
            else case args of
                [] \<Rightarrow> Inl Fatal
              | a # as \<Rightarrow> log_with push s as (push a q))
      else log_with push s args (push (Arg_char c) q))"

definition logger_log :: "string \<Rightarrow> log_arg list \<Rightarrow> LogElement logger \<Rightarrow> LogElement logger res" where
  "logger_log s args lg = log_with pushValue s args lg"

definition opt_log :: "string \<Rightarrow> log_arg list \<Rightarrow> OptLogElement logger \<Rightarrow> OptLogElement logger res" where
  "opt_log s args lg = log_with opt_pushValue s args lg"

text \<open>What a call means: the text, the number of elements, and the number of placeholders of the format.\<close>

fun log_text :: "(log_arg \<Rightarrow> string) \<Rightarrow> string \<Rightarrow> log_arg list \<Rightarrow> string" where
  "log_text sh [] args = []"
| "log_text sh (c # s) args =
     (if c = CHR ''%''
      then (if s \<noteq> [] \<and> hd s = CHR ''%'' then CHR ''%'' # log_text sh (tl s) args
            else case args of [] \<Rightarrow> [] | a # as \<Rightarrow> sh a @ log_text sh s as)
      else c # log_text sh s args)"

fun placeholders :: "string \<Rightarrow> nat" where
  "placeholders [] = 0"
| "placeholders (c # s) =
     (if c = CHR ''%'' then (if s \<noteq> [] \<and> hd s = CHR ''%'' then placeholders (tl s) else placeholders s + 1) else placeholders s)"

fun arg_text :: "(double \<Rightarrow> string) \<Rightarrow> log_arg \<Rightarrow> string" where
  "arg_text fmt (Arg_char c) = [c]"
| "arg_text fmt (Arg_int i) = int_to_string (sint i)"
| "arg_text fmt (Arg_long l) = int_to_string (sint l)"
| "arg_text fmt (Arg_long_long l) = int_to_string (sint l)"
| "arg_text fmt (Arg_unsigned u) = int_to_string (uint u)"
| "arg_text fmt (Arg_unsigned_long u) = int_to_string (uint u)"
| "arg_text fmt (Arg_unsigned_long_long u) = int_to_string (uint u)"
| "arg_text fmt (Arg_float f) = fmt f"
| "arg_text fmt (Arg_double d) = fmt d"
| "arg_text fmt (Arg_string s) = c_str s"

definition opt_arg_text :: "(double \<Rightarrow> string) \<Rightarrow> log_arg \<Rightarrow> string" where
  "opt_arg_text fmt a = (case a of Arg_string s \<Rightarrow> take 255 (c_str s) | _ \<Rightarrow> arg_text fmt a)"

definition arg_elements :: "log_arg \<Rightarrow> nat" where
  "arg_elements a = (case a of Arg_string s \<Rightarrow> length (c_str s) | _ \<Rightarrow> 1)"

lemma log_with_fatal: "log_with push s args q = Inl e \<Longrightarrow> e = Fatal"
  by (induction push s args q rule: log_with.induct) (auto split: if_splits list.splits)

lemma log_with_total: "(\<exists>q'. log_with push s args q = Inr q') \<longleftrightarrow> placeholders s = length args"
  by (induction push s args q rule: log_with.induct) (auto split: list.splits)

lemma log_with_stops: "(log_with push s args q = Inl Fatal) = (placeholders s \<noteq> length args)"
  using log_with_total [of push s args q] log_with_fatal [of push s args q] by (cases "log_with push s args q") auto

subsection \<open>What \<open>log\<close> needs of \<open>pushValue\<close>\<close>

locale log_writer =
  fixes inv :: "'q \<Rightarrow> bool"
    and room :: "'q \<Rightarrow> nat"
    and written :: "'q \<Rightarrow> string"
    and push :: "log_arg \<Rightarrow> 'q \<Rightarrow> 'q"
    and need :: "log_arg \<Rightarrow> nat"
    and sh :: "log_arg \<Rightarrow> string"
  assumes push_ok: "inv q \<Longrightarrow> need a \<le> room q \<Longrightarrow>
      inv (push a q) \<and> room (push a q) = room q - need a \<and> written (push a q) = written q @ sh a"
    and char_need: "need (Arg_char c) = 1" and char_text: "sh (Arg_char c) = [c]"
begin

lemma log_writes:
  assumes "inv q" and "length s + sum_list (map need args) \<le> room q" and "placeholders s = length args"
  shows "\<exists>q'. log_with push s args q = Inr q' \<and> inv q' \<and> written q' = written q @ log_text sh s args \<and>
    room q \<le> room q' + (length s + sum_list (map need args))"
  using assms
proof (induction "length s" arbitrary: s args q rule: less_induct)
  case less
  show ?case
  proof (cases s)
    case Nil
    then show ?thesis using less.prems by simp
  next
    case s: (Cons c s1)
    have c: "inv (push (Arg_char c) q)" "room (push (Arg_char c) q) = room q - 1" "written (push (Arg_char c) q) = written q @ [c]"
      using push_ok [of q "Arg_char c"] less.prems s char_need char_text by simp_all
    consider (plain) "c \<noteq> CHR ''%''" | (escape) s2 where "c = CHR ''%''" "s1 = CHR ''%'' # s2"
      | (arg) a as where "c = CHR ''%''" "\<not> (s1 \<noteq> [] \<and> hd s1 = CHR ''%'')" "args = a # as"
      using less.prems(3) s by (cases args; cases s1) (auto split: if_splits)
    then show ?thesis
    proof cases
      case plain
      then show ?thesis using less.hyps [of s1 "push (Arg_char c) q" args] less.prems s c by fastforce
    next
      case escape
      then show ?thesis using less.hyps [of s2 "push (Arg_char c) q" args] less.prems s c by fastforce
    next
      case arg
      have "inv (push a q)" "room (push a q) = room q - need a" "written (push a q) = written q @ sh a"
        using push_ok [of q a] less.prems arg by simp_all
      then show ?thesis using less.hyps [of s1 "push a q" as] less.prems s arg(1,3) arg(2) by (cases "s1 = []") fastforce+
    qed
  qed
qed

text \<open>Several calls, one after the other.\<close>

lemma calls_write:
  assumes "inv q" and "(\<Sum>(s, args) \<leftarrow> calls. length s + sum_list (map need args)) \<le> room q"
    and "\<forall>(s, args) \<in> set calls. placeholders s = length args"
  shows "\<exists>q'. foldE (\<lambda>(s, args). log_with push s args) calls q = Inr q' \<and> inv q' \<and>
    written q' = written q @ concat (map (\<lambda>(s, args). log_text sh s args) calls)"
  using assms
proof (induction calls arbitrary: q)
  case Nil
  then show ?case by simp
next
  case (Cons x calls)
  obtain s args where x: "x = (s, args)" by (cases x)
  from log_writes [OF Cons.prems(1), of s args] Cons.prems(2,3) x obtain q1 where
    "log_with push s args q = Inr q1" "inv q1" "written q1 = written q @ log_text sh s args"
    "room q \<le> room q1 + (length s + sum_list (map need args))" by auto
  then show ?case using Cons.IH [of q1] Cons.prems(2,3) x by auto
qed

end

text \<open>Both loggers are writers.\<close>

definition logger_inv :: "'e logger \<Rightarrow> bool" where
  "logger_inv lg \<longleftrightarrow> lfq_inv (log_queue lg)"

definition logger_room :: "'e logger \<Rightarrow> nat" where
  "logger_room lg = lfq_room (log_queue lg)"

definition pending_text :: "('e \<Rightarrow> string) \<Rightarrow> 'e logger \<Rightarrow> string" where
  "pending_text txt lg = log_file lg @ concat (map txt (lfq_list (log_queue lg)))"

lemma push_element_ok:
  assumes "logger_inv lg" and "0 < logger_room lg"
  shows "logger_inv (push_element e lg) \<and> logger_room (push_element e lg) = logger_room lg - 1 \<and>
    pending_text txt (push_element e lg) = pending_text txt lg @ txt e"
  using assms by (simp add: logger_inv_def logger_room_def pending_text_def push_element_def lfq_inv_push lfq_list_push lfq_room_push)

lemma push_chars_ok:
  assumes "logger_inv lg" and "length s \<le> logger_room lg"
  shows "logger_inv (fold (\<lambda>c. push_element (Log_CHAR c)) s lg) \<and>
    logger_room (fold (\<lambda>c. push_element (Log_CHAR c)) s lg) = logger_room lg - length s \<and>
    pending_text (element_text fmt) (fold (\<lambda>c. push_element (Log_CHAR c)) s lg) = pending_text (element_text fmt) lg @ s"
  using assms
proof (induction s arbitrary: lg)
  case Nil then show ?case by simp
next
  case (Cons c s)
  from Cons.prems have "0 < logger_room lg" by simp
  from push_element_ok [OF Cons.prems(1) this, of "Log_CHAR c" "element_text fmt"] Cons.IH [of "push_element (Log_CHAR c) lg"] Cons.prems
  show ?case by simp
qed

interpretation logger_writer: log_writer logger_inv logger_room "pending_text (element_text fmt)" pushValue arg_elements "arg_text fmt"
  for fmt
proof
  fix lg :: "LogElement logger" and a
  assume "logger_inv lg" and "arg_elements a \<le> logger_room lg"
  then show "logger_inv (pushValue a lg) \<and> logger_room (pushValue a lg) = logger_room lg - arg_elements a \<and>
      pending_text (element_text fmt) (pushValue a lg) = pending_text (element_text fmt) lg @ arg_text fmt a"
    by (cases a) (simp_all add: arg_elements_def push_element_ok push_chars_ok)
qed (simp_all add: arg_elements_def)

interpretation opt_writer: log_writer logger_inv logger_room "pending_text (opt_element_text fmt)" opt_pushValue "\<lambda>_. 1" "opt_arg_text fmt"
  for fmt
proof
  fix lg :: "OptLogElement logger" and a
  assume "logger_inv lg" and "1 \<le> logger_room lg"
  then show "logger_inv (opt_pushValue a lg) \<and> logger_room (opt_pushValue a lg) = logger_room lg - 1 \<and>
      pending_text (opt_element_text fmt) (opt_pushValue a lg) = pending_text (opt_element_text fmt) lg @ opt_arg_text fmt a"
    by (cases a) (simp_all add: push_element_ok opt_arg_text_def)
qed (simp_all add: opt_arg_text_def)

lemma flush_loop_ok:
  assumes "lfq_inv (log_queue lg)" and "length (lfq_list (log_queue lg)) = n"
  shows "\<exists>lg'. flush_loop n txt lg = Inr lg' \<and> log_file lg' = pending_text txt lg"
  using assms
proof (induction n arbitrary: lg)
  case 0
  then have "lfq_list (log_queue lg) = []" by (simp only: length_0_conv)
  then show ?case by (simp add: pending_text_def)
next
  case (Suc n)
  then obtain v vs where v: "lfq_list (log_queue lg) = v # vs" by (cases "lfq_list (log_queue lg)") auto
  then have g: "getNextToRead (log_queue lg) = Some v" using Suc.prems by (simp add: getNextToRead_list)
  from updateReadIndex_ok [OF Suc.prems(1)] v obtain q where q: "updateReadIndex (log_queue lg) = Inr q" "lfq_inv q" "lfq_list q = vs"
    by auto
  from Suc.IH [of "\<lparr>log_queue = q, log_file = log_file lg @ txt v\<rparr>"] q v Suc.prems(2) g
  show ?case by (simp add: pending_text_def del: length_lfq_list)
qed

lemma flush_ok:
  "logger_inv lg \<Longrightarrow> \<exists>lg'. flushQueue fmt lg = Inr lg' \<and> log_file lg' = pending_text (element_text fmt) lg"
  "logger_inv ol \<Longrightarrow> \<exists>ol'. opt_flushQueue fmt ol = Inr ol' \<and> log_file ol' = pending_text (opt_element_text fmt) ol"
  unfolding flushQueue_def opt_flushQueue_def logger_inv_def
  by (simp_all add: flush_loop_ok lfq_size_def)

text \<open>
  What is logged is what is written: with as many arguments as the format has placeholders and room on the queue for
  the elements, \<open>log\<close> followed by a flush of the logger's thread appends to the file, after everything logged before,
  the format with \<open>%%\<close> turned into \<open>%\<close> and every other \<open>%\<close> into the next argument.
\<close>

theorem log_reaches_the_file:
  assumes "logger_inv lg" and "placeholders s = length args"
    and "length s + sum_list (map arg_elements args) \<le> logger_room lg"
  shows "\<exists>lg1 lg2. logger_log s args lg = Inr lg1 \<and> flushQueue fmt lg1 = Inr lg2 \<and>
    log_file lg2 = pending_text (element_text fmt) lg @ log_text (arg_text fmt) s args"
proof -
  from logger_writer.log_writes [OF assms(1,3,2), of fmt] obtain lg1 where
    "logger_log s args lg = Inr lg1" "logger_inv lg1"
    "pending_text (element_text fmt) lg1 = pending_text (element_text fmt) lg @ log_text (arg_text fmt) s args"
    by (auto simp: logger_log_def)
  with flush_ok(1) [of lg1 fmt] show ?thesis by auto
qed

lemma logger_new_ok: "logger_inv logger_new" "logger_room logger_new = 8388608" "pending_text txt logger_new = []"
  by (simp_all add: logger_new_def logger_inv_def logger_room_def lfq_room_def pending_text_def LOG_QUEUE_SIZE_def lfq_new_def)
    (simp_all add: lfq_inv_def lfq_list_def)

lemma opt_logger_new_ok: "logger_inv opt_logger_new" "logger_room opt_logger_new = 8388608" "pending_text txt opt_logger_new = []"
  by (simp_all add: opt_logger_new_def logger_inv_def logger_room_def lfq_room_def pending_text_def LOG_QUEUE_SIZE_def lfq_new_def)
    (simp_all add: lfq_inv_def lfq_list_def)

theorem log_reaches_the_file_witness:
  "\<exists>lg1 lg2. logger_log ''% of %%'' [Arg_int 5] logger_new = Inr lg1 \<and> flushQueue (\<lambda>_. []) lg1 = Inr lg2 \<and>
    log_file lg2 = ''5 of %''"
  using log_reaches_the_file [of logger_new "''% of %%''" "[Arg_int 5]" "\<lambda>_. []"]
  by (simp add: logger_new_ok arg_elements_def int_to_string_def nat_to_string.simps digit_char_def char_of_def bit_0)

text \<open>
  A call with the wrong number of arguments stops the process: \<open>log\<close>, of either logger, completes exactly when the
  format has as many placeholders as there are arguments, and ends in FATAL otherwise.
\<close>

theorem log_counts_arguments:
  "(\<exists>lg'. logger_log s args lg = Inr lg') = (placeholders s = length args) \<and>
   (logger_log s args lg = Inl Fatal) = (placeholders s \<noteq> length args) \<and>
   (opt_log s args ol = Inl Fatal) = (placeholders s \<noteq> length args)"
  by (simp add: logger_log_def opt_log_def log_with_total log_with_stops)

text \<open>What the optimised logger makes of an argument: a string longer than its element is cut.\<close>

definition cut_arg :: "log_arg \<Rightarrow> log_arg" where
  "cut_arg a = (case a of Arg_string s \<Rightarrow> Arg_string (take 255 (c_str s)) | _ \<Rightarrow> a)"

lemma c_str_take: "c_str (take n (c_str s)) = take n (c_str s)"
  unfolding c_str_def by (rule takeWhile_eq_all_conv [THEN iffD2]) (metis in_set_takeD set_takeWhileD)

lemma opt_arg_text_cut: "opt_arg_text fmt = arg_text fmt \<circ> cut_arg"
proof
  show "opt_arg_text fmt a = (arg_text fmt \<circ> cut_arg) a" for a
    by (cases a) (simp_all add: opt_arg_text_def cut_arg_def c_str_take)
qed

lemma log_text_map: "log_text sh s (map f args) = log_text (sh \<circ> f) s args"
proof (induction s arbitrary: args rule: length_induct)
  case (1 s)
  then show ?case by (cases s) (auto split: list.splits)
qed

lemma log_text_cong: "(\<And>a. a \<in> set args \<Longrightarrow> f a = g a) \<Longrightarrow> log_text f s args = log_text g s args"
proof (induction s arbitrary: args rule: length_induct)
  case (1 s)
  then show ?case by (cases s) (auto split: list.splits)
qed

lemma log_text_short:
  assumes "\<forall>t. Arg_string t \<in> set args \<longrightarrow> length (c_str t) < 256"
  shows "log_text (arg_text fmt) s (map cut_arg args) = log_text (arg_text fmt) s args"
  unfolding log_text_map
proof (rule log_text_cong)
  have "c_str (c_str t) = c_str t" for t using c_str_take [of "length (c_str t)" t] by simp
  then show "(arg_text fmt \<circ> cut_arg) a = arg_text fmt a" if "a \<in> set args" for a
    using assms that by (cases a) (auto simp: cut_arg_def)
qed

text \<open>
  C33. What the two loggers leave in their files, on any sequence of calls with as many arguments as placeholders and room
  on the queues for their elements: the logger leaves the texts of the calls, each the format with \<open>%%\<close> turned into
  \<open>%\<close> and every other \<open>%\<close> into the next argument; the optimised logger leaves the texts of the same calls with every
  string argument cut after 255 characters, which is what its elements hold. So the files are the same if all
  string arguments are shorter than 256 characters.
\<close>

theorem opt_log_same_text:
  assumes "\<forall>(s, args) \<in> set calls. placeholders s = length args"
    and "(\<Sum>(s, args) \<leftarrow> calls. length s + sum_list (map arg_elements args)) \<le> LOG_QUEUE_SIZE"
    and "(\<Sum>(s, args) \<leftarrow> calls. length s + length args) \<le> LOG_QUEUE_SIZE"
  shows "\<exists>lg1 lg2 ol1 ol2.
    foldE (\<lambda>(s, args). logger_log s args) calls logger_new = Inr lg1 \<and> flushQueue fmt lg1 = Inr lg2 \<and>
    foldE (\<lambda>(s, args). opt_log s args) calls opt_logger_new = Inr ol1 \<and> opt_flushQueue fmt ol1 = Inr ol2 \<and>
    log_file lg2 = concat (map (\<lambda>(s, args). log_text (arg_text fmt) s args) calls) \<and>
    log_file ol2 = concat (map (\<lambda>(s, args). log_text (arg_text fmt) s (map cut_arg args)) calls) \<and>
    ((\<forall>(s, args) \<in> set calls. \<forall>t. Arg_string t \<in> set args \<longrightarrow> length (c_str t) < 256) \<longrightarrow> log_file ol2 = log_file lg2)"
proof -
  have "(\<Sum>(s, args) \<leftarrow> calls. length s + sum_list (map arg_elements args)) \<le> logger_room logger_new"
    using assms(2) by (simp add: logger_new_ok LOG_QUEUE_SIZE_def)
  from logger_writer.calls_write [OF logger_new_ok(1) this assms(1), of fmt] obtain lg1 where a:
    "foldE (\<lambda>(s, args). logger_log s args) calls logger_new = Inr lg1" "logger_inv lg1"
    "pending_text (element_text fmt) lg1 = concat (map (\<lambda>(s, args). log_text (arg_text fmt) s args) calls)"
    by (auto simp: logger_log_def [abs_def] logger_new_ok)
  have "(\<Sum>(s, args) \<leftarrow> calls. length s + sum_list (map (\<lambda>_. 1) args)) \<le> logger_room opt_logger_new"
    using assms(3) by (simp add: opt_logger_new_ok LOG_QUEUE_SIZE_def sum_list_triv)
  from opt_writer.calls_write [OF opt_logger_new_ok(1) this assms(1), of fmt] obtain ol1 where b:
    "foldE (\<lambda>(s, args). opt_log s args) calls opt_logger_new = Inr ol1" "logger_inv ol1"
    "pending_text (opt_element_text fmt) ol1 = concat (map (\<lambda>(s, args). log_text (opt_arg_text fmt) s args) calls)"
    by (auto simp: opt_log_def [abs_def] opt_logger_new_ok)
  have cut: "log_text (opt_arg_text fmt) s args = log_text (arg_text fmt) s (map cut_arg args)" for s args
    by (simp only: log_text_map opt_arg_text_cut)
  have "concat (map (\<lambda>(s, args). log_text (arg_text fmt) s (map cut_arg args)) calls) =
      concat (map (\<lambda>(s, args). log_text (arg_text fmt) s args) calls)"
    if "\<forall>(s, args) \<in> set calls. \<forall>t. Arg_string t \<in> set args \<longrightarrow> length (c_str t) < 256"
    using that log_text_short by (intro arg_cong [where f = concat] map_cong refl) fastforce
  with flush_ok(1) [OF a(2), of fmt] flush_ok(2) [OF b(2), of fmt] a b show ?thesis by (auto simp: cut)
qed

text \<open>Two calls, the second with a string of 300 characters, of which the optimised logger writes 255.\<close>

theorem opt_log_same_text_witness:
  "\<exists>lg1 lg2 ol1 ol2. foldE (\<lambda>(s, args). logger_log s args) [(''id:%'', [Arg_string ''ab'']), (''%'', [Arg_string (replicate 300 CHR ''x'')])]
      logger_new = Inr lg1 \<and> flushQueue (\<lambda>_. []) lg1 = Inr lg2 \<and>
    foldE (\<lambda>(s, args). opt_log s args) [(''id:%'', [Arg_string ''ab'']), (''%'', [Arg_string (replicate 300 CHR ''x'')])]
      opt_logger_new = Inr ol1 \<and> opt_flushQueue (\<lambda>_. []) ol1 = Inr ol2 \<and>
    log_file lg2 = ''id:ab'' @ replicate 300 CHR ''x'' \<and> log_file ol2 = ''id:ab'' @ replicate 255 CHR ''x''"
proof -
  have x: "c_str (replicate n CHR ''x'') = replicate n CHR ''x''" for n by (simp add: c_str_def takeWhile_replicate)
  show ?thesis
    using opt_log_same_text [of "[(''id:%'', [Arg_string ''ab'']), (''%'', [Arg_string (replicate 300 CHR ''x'')])]" "\<lambda>_. []"]
    by (auto simp: LOG_QUEUE_SIZE_def arg_elements_def cut_arg_def x c_str_def [of "''ab''"])
qed

end
