(* ===== verification/LatencyStats.thy ===== *)
theory LatencyStats
  imports Rounding LFQueue "HOL-Library.Multiset"
begin

text \<open>
  \<open>common/latency_stats.h\<close>: the ring of latency samples and its percentiles.

  \<^item> \<open>MAX_SAMPLES\<close>, the template's parameter, is the length of \<open>ls_samples\<close>; the default is a million.
  \<^item> Durations are reals: the roundings of the products with \<open>nanos_per_cycle\<close> and of the sum are not modelled. The
    index of a percentile is: it is the product of the count and a decimal constant, both \<open>double\<close>, cut to an integer,
    and the constants are the \<open>double\<close>s nearest to 0.9, 0.99 and 0.999. A read past the end of the buffer is an error.
  \<^item> \<open>dumpToCSV\<close> is in \<open>Reports\<close>.
\<close>

record latency_stats =
  ls_samples :: "64 word list"
  ls_next_index :: nat
  ls_count :: nat

definition latency_stats_new :: "nat \<Rightarrow> latency_stats" where
  "latency_stats_new max_samples = \<lparr>ls_samples = replicate max_samples 0, ls_next_index = 0, ls_count = 0\<rparr>"

text \<open>\<open>record\<close>, \<open>reset\<close>\<close>

definition record_sample :: "64 word \<Rightarrow> latency_stats \<Rightarrow> latency_stats" where
  "record_sample cycles s =
     (let max_samples = length (ls_samples s) in
      s\<lparr>ls_samples := (ls_samples s)[ls_next_index s := cycles],
        ls_next_index := (ls_next_index s + 1) mod max_samples,
        ls_count := (if ls_count s < max_samples then ls_count s + 1 else ls_count s)\<rparr>)"

definition reset_stats :: "latency_stats \<Rightarrow> latency_stats" where
  "reset_stats s = s\<lparr>ls_count := 0, ls_next_index := 0\<rparr>"

record latency_percentiles =
  lp_p50 :: real
  lp_p90 :: real
  lp_p99 :: real
  lp_p999 :: real
  lp_max :: real
  lp_mean :: real
  lp_min :: real
  lp_count :: nat

text \<open>\<open>static_cast<size_t>(count_ * c)\<close> for a \<open>double\<close> constant \<open>c\<close>\<close>

definition index_of_share :: "nat \<times> nat \<Rightarrow> nat \<Rightarrow> nat" where
  "index_of_share c n = (let y = d_round (n * fst c, snd c) in fst y div snd y)"

definition share_50 :: "nat \<times> nat" where "share_50 = (1, 2)"
definition share_90 :: "nat \<times> nat" where "share_90 = (8106479329266893, 9007199254740992)"
definition share_99 :: "nat \<times> nat" where "share_99 = (4458563631096791, 4503599627370496)"
definition share_999 :: "nat \<times> nat" where "share_999 = (8998192055486251, 9007199254740992)"

definition computePercentiles :: "real \<Rightarrow> latency_stats \<Rightarrow> latency_percentiles res" where
  "computePercentiles nanos_per_cycle s =
     (let n = ls_count s in
      if n = 0 then Inr \<lparr>lp_p50 = 0, lp_p90 = 0, lp_p99 = 0, lp_p999 = 0, lp_max = 0, lp_mean = 0, lp_min = 0, lp_count = 0\<rparr>
      else let buf = sort (map (\<lambda>c. real (unat c) * nanos_per_cycle) (take n (ls_samples s))) in
        bindE (atE (length buf) (index_of_share share_50 n)) (\<lambda>i50.
        bindE (atE (length buf) (index_of_share share_90 n)) (\<lambda>i90.
        bindE (atE (length buf) (index_of_share share_99 n)) (\<lambda>i99.
        bindE (atE (length buf) (min (index_of_share share_999 n) (n - 1))) (\<lambda>i999.
        Inr \<lparr>lp_p50 = buf ! i50, lp_p90 = buf ! i90, lp_p99 = buf ! i99, lp_p999 = buf ! i999, lp_max = buf ! (n - 1),
             lp_mean = sum_list buf / real n, lp_min = buf ! 0, lp_count = n\<rparr>)))))"

subsection \<open>The last samples\<close>

definition ls_holds :: "64 word list \<Rightarrow> latency_stats \<Rightarrow> bool" where
  "ls_holds xs s \<longleftrightarrow> 0 < length (ls_samples s) \<and> ls_count s = min (length xs) (length (ls_samples s)) \<and>
     ls_next_index s = length xs mod length (ls_samples s) \<and>
     (\<forall>j < length xs. length xs \<le> j + length (ls_samples s) \<longrightarrow> ls_samples s ! (j mod length (ls_samples s)) = xs ! j)"

lemma ls_holds_new: "0 < n \<Longrightarrow> ls_holds [] (latency_stats_new n)"
  by (simp add: ls_holds_def latency_stats_new_def)

lemma mod_eq_close: "j mod m = n mod m \<Longrightarrow> j < n \<Longrightarrow> n < j + m \<Longrightarrow> False" for j n m :: nat
proof -
  assume a: "j mod m = n mod m" "j < n" "n < j + m"
  then have "n - j < m" "0 < m" by linarith+
  then have "0 = n - j" using mod_add_inj [of j 0 m "n - j"] a by simp
  then show False using a by simp
qed

lemma ls_holds_record:
  assumes h: "ls_holds xs s"
  shows "ls_holds (xs @ [x]) (record_sample x s)"
proof -
  let ?m = "length (ls_samples s)"
  have m: "0 < ?m" and ix: "ls_next_index s = length xs mod ?m" using h by (simp_all add: ls_holds_def)
  have "(ls_samples s)[length xs mod ?m := x] ! (j mod ?m) = (xs @ [x]) ! j"
    if j: "j < Suc (length xs)" "Suc (length xs) \<le> j + ?m" for j
  proof (cases "j = length xs")
    case True
    then show ?thesis using m by simp
  next
    case False
    then have "j mod ?m \<noteq> length xs mod ?m" using mod_eq_close [of j ?m "length xs"] j by auto
    then show ?thesis using h j False by (auto simp: ls_holds_def nth_append)
  qed
  with h m show ?thesis by (auto simp: ls_holds_def record_sample_def Let_def mod_Suc_eq)
qed

lemma ls_holds_fold: "ls_holds xs s \<Longrightarrow> ls_holds (xs @ ys) (fold record_sample ys s)"
proof (induction ys arbitrary: xs s)
  case Nil then show ?case by simp
next
  case (Cons y ys)
  from Cons.IH [OF ls_holds_record [OF Cons.prems, of y]] show ?case by simp
qed

definition last_samples :: "nat \<Rightarrow> 64 word list \<Rightarrow> 64 word list" where
  "last_samples m xs = drop (length xs - m) xs"

lemma ls_holds_mset:
  assumes h: "ls_holds xs s"
  shows "mset (take (ls_count s) (ls_samples s)) = mset (last_samples (length (ls_samples s)) xs)"
proof -
  let ?m = "length (ls_samples s)" and ?n = "length xs"
  have m: "0 < ?m" "ls_count s = min ?n ?m" using h by (simp_all add: ls_holds_def)
  have at: "ls_samples s ! (j mod ?m) = xs ! j" if "j < ?n" "?n \<le> j + ?m" for j using h that by (simp add: ls_holds_def)
  show ?thesis
  proof (cases "?n \<le> ?m")
    case True
    have "take ?n (ls_samples s) = xs"
    proof (rule nth_equalityI)
      show "length (take ?n (ls_samples s)) = length xs" using True by simp
      fix i assume "i < length (take ?n (ls_samples s))"
      then have "i < ?n" "i mod ?m = i" using True by simp_all
      then show "take ?n (ls_samples s) ! i = xs ! i" using at [of i] True by simp
    qed
    then show ?thesis using m True by (simp add: last_samples_def min_def)
  next
    case False
    have "rotate (?n - ?m) (ls_samples s) = drop (?n - ?m) xs"
      by (rule nth_equalityI) (use False at m in \<open>auto simp: nth_rotate\<close>)
    then have "mset (drop (?n - ?m) xs) = mset (ls_samples s)" by (metis mset_append append_take_drop_id rotate_drop_take union_commute)
    then show ?thesis using m False by (simp add: last_samples_def min_def)
  qed
qed

subsection \<open>The percentiles\<close>

lemmas share_defs = share_50_def share_90_def share_99_def share_999_def

lemma index_of_share:
  assumes "0 < n" and "n \<le> 1000000"
  shows "index_of_share share_50 n = n div 2" "index_of_share share_90 n = n * 9 div 10"
    "index_of_share share_99 n = n * 99 div 100" "index_of_share share_999 n = n * 999 div 1000"
proof -
  show "index_of_share share_50 n = n div 2" using rounded_floor [of n 2 1 2 1] assms
    by (simp add: index_of_share_def share_defs Let_def frac_of_def)
  show "index_of_share share_90 n = n * 9 div 10" using rounded_floor [of n 10 9 9007199254740992 8106479329266893] assms
    by (simp add: index_of_share_def share_defs Let_def frac_of_def)
  show "index_of_share share_99 n = n * 99 div 100" using rounded_floor [of n 100 99 4503599627370496 4458563631096791] assms
    by (simp add: index_of_share_def share_defs Let_def frac_of_def)
  show "index_of_share share_999 n = n * 999 div 1000" using rounded_floor [of n 1000 999 9007199254740992 8998192055486251] assms
    by (simp add: index_of_share_def share_defs Let_def frac_of_def)
qed

lemma share_le:
  assumes "p * q' \<le> p' * q" and "0 < q" and "0 < q'"
  shows "n * p div q \<le> n * p' div (q' :: nat)"
proof -
  have "(n * p div q) * q * q' \<le> n * p * q'" by simp
  also have "\<dots> \<le> n * p' * q" using mult_le_mono2 [OF assms(1), of n] by (simp add: mult.assoc)
  finally have "(n * p div q) * q' * q \<le> n * p' * q" by (simp only: mult.assoc mult.commute [of q'])
  then have "(n * p div q) * q' \<le> n * p'" using assms(2) by simp
  then show ?thesis using assms(3) by (simp add: less_eq_div_iff_mult_less_eq)
qed

text \<open>
  The percentiles are those of the latest samples: after any sequence of \<open>record\<close> calls on a ring of at most a
  million samples, \<open>computePercentiles\<close> reads nothing out of bounds and returns, of the sorted durations of the last
  samples that fit in the ring, the ones at the exact positions n/2, 9n/10, 99n/100 and 999n/1000 (rounded down, in
  spite of the constants and products being rounded \<open>double\<close>s), the first, the last and the mean; they are in order.
\<close>

theorem percentiles_of_last_samples:
  assumes "xs \<noteq> []" and m: "0 < m" "m \<le> 1000000"
    and L: "L = sort (map (\<lambda>c. real (unat c) * nanos_per_cycle) (last_samples m xs))" and n: "n = length L"
  shows "\<exists>p. computePercentiles nanos_per_cycle (fold record_sample xs (latency_stats_new m)) = Inr p \<and>
    p = \<lparr>lp_p50 = L ! (n div 2), lp_p90 = L ! (n * 9 div 10), lp_p99 = L ! (n * 99 div 100), lp_p999 = L ! (n * 999 div 1000),
         lp_max = last L, lp_mean = sum_list L / real n, lp_min = hd L, lp_count = n\<rparr> \<and>
    sorted [lp_min p, lp_p50 p, lp_p90 p, lp_p99 p, lp_p999 p, lp_max p]"
proof -
  define s where "s = fold record_sample xs (latency_stats_new m)"
  have h: "ls_holds xs s" using ls_holds_fold [OF ls_holds_new [OF m(1)], of xs] by (simp add: s_def)
  have len: "length (ls_samples s) = m"
  proof -
    have "length (ls_samples (fold record_sample ys t)) = length (ls_samples t)" for ys t
      by (induction ys arbitrary: t) (simp_all add: record_sample_def Let_def)
    then show ?thesis by (simp add: s_def latency_stats_new_def)
  qed
  have nn: "n = min (length xs) m" by (simp add: n L last_samples_def min_def)
  then have np: "0 < n" "n \<le> 1000000" "ls_count s = n" using assms(1) m h len by (simp_all add: ls_holds_def)
  have buf: "sort (map (\<lambda>c. real (unat c) * nanos_per_cycle) (take n (ls_samples s))) = L"
    unfolding L by (rule properties_for_sort) (use ls_holds_mset [OF h] np(3) len in \<open>simp_all add: mset_map\<close>)
  have Ln: "L \<noteq> []" using n np(1) by auto
  have ix: "n div 2 < length L" "n * 9 div 10 < length L" "n * 99 div 100 < length L" "n * 999 div 1000 < length L"
    "min (n * 999 div 1000) (n - 1) = n * 999 div 1000"
  proof -
    show "n div 2 < length L" using np(1) n by simp
    show "n * 9 div 10 < length L" "n * 99 div 100 < length L" "n * 999 div 1000 < length L"
      using np(1) unfolding n [symmetric] by (simp_all add: div_less_iff_less_mult)
    then show "min (n * 999 div 1000) (n - 1) = n * 999 div 1000" unfolding n [symmetric] by simp
  qed
  have c: "computePercentiles nanos_per_cycle s = Inr
    \<lparr>lp_p50 = L ! (n div 2), lp_p90 = L ! (n * 9 div 10), lp_p99 = L ! (n * 99 div 100), lp_p999 = L ! (n * 999 div 1000),
     lp_max = last L, lp_mean = sum_list L / real n, lp_min = hd L, lp_count = n\<rparr>"
    unfolding computePercentiles_def Let_def np(3) buf index_of_share [OF np(1,2)] ix(5)
    using np(1) ix(1-4) Ln by (simp add: last_conv_nth hd_conv_nth n)
  have "sorted L" by (simp add: L)
  then have le: "L ! i \<le> L ! j" if "i \<le> j" "j < n" for i j using that n by (simp add: sorted_nth_mono)
  have "L ! 0 \<le> L ! (n div 2)" "L ! (n div 2) \<le> L ! (n * 9 div 10)" "L ! (n * 9 div 10) \<le> L ! (n * 99 div 100)"
    "L ! (n * 99 div 100) \<le> L ! (n * 999 div 1000)" "L ! (n * 999 div 1000) \<le> L ! (n - 1)"
    using share_le [of 1 10 9 2 n] share_le [of 9 100 99 10 n] share_le [of 99 1000 999 100 n] ix np(1) n
    by (simp_all add: le)
  then have "sorted [L ! 0, L ! (n div 2), L ! (n * 9 div 10), L ! (n * 99 div 100), L ! (n * 999 div 1000), L ! (n - 1)]"
    unfolding sorted2_simps by (auto intro: order.trans)
  then show ?thesis using c Ln n by (simp add: s_def hd_conv_nth last_conv_nth)
qed

theorem percentiles_of_last_samples_witness:
  "\<exists>p. computePercentiles 1 (fold record_sample [7, 5, 9, 3] (latency_stats_new 3)) = Inr p \<and> lp_p50 p = 5 \<and> lp_max p = 9 \<and> lp_min p = 3"
proof -
  have "[3, 5, 9] = sort (map (\<lambda>c. real (unat c) * 1) (last_samples 3 [7, 5, 9, 3]))"
    by (simp add: last_samples_def)
  from percentiles_of_last_samples [OF _ _ _ this refl] show ?thesis by simp
qed

end
