(* ===== verification/EquityRecorder.thy ===== *)
theory EquityRecorder
  imports PositionKeeper
begin

text \<open>
  \<open>backtest/equity_recorder.h\<close> and \<open>.cpp\<close>: samples of a position over time, the CSV file and the summary.

  \<^item> \<open>sample_position\<close> is one round of \<open>run\<close>, at the time \<open>now\<close>; the thread and its sleeps are not modelled.
  \<^item> \<open>finalize\<close> returns the file's text and the summary's numbers; how a stream prints a \<open>double\<close> is the parameter \<open>fmt\<close>.
\<close>

record Sample =
  wall_ns :: Nanos
  s_total_pnl :: double
  s_realized_pnl :: double
  s_unrealized_pnl :: double
  s_position :: "32 word"
  s_volume :: Qty

record equity_recorder =
  er_samples :: "Sample list"

definition position_sample :: "Nanos \<Rightarrow> PositionInfo \<Rightarrow> Sample" where
  "position_sample now p = \<lparr>wall_ns = now, s_total_pnl = total_pnl p, s_realized_pnl = real_pnl p,
     s_unrealized_pnl = unreal_pnl p, s_position = position p, s_volume = volume p\<rparr>"

definition sample_position :: "Nanos \<Rightarrow> PositionInfo \<Rightarrow> equity_recorder \<Rightarrow> equity_recorder" where
  "sample_position now p er = er\<lparr>er_samples := er_samples er @ [position_sample now p]\<rparr>"

definition csv_row :: "(double \<Rightarrow> string) \<Rightarrow> Sample \<Rightarrow> string" where
  "csv_row fmt s = int_to_string (wall_ns s) @ '','' @ fmt (s_total_pnl s) @ '','' @ fmt (s_realized_pnl s) @ '','' @
     fmt (s_unrealized_pnl s) @ '','' @ int_to_string (sint (s_position s)) @ '','' @ int_to_string (uint (s_volume s)) @ [CHR 0x0A]"

record equity_summary =
  sum_samples :: nat
  final_pnl :: double
  peak_pnl :: double
  max_drawdown :: double
  final_volume :: Qty

text \<open>The loop over the samples: the running peak and the largest distance below it.\<close>

definition drawdown_step :: "Sample \<Rightarrow> double \<times> double \<Rightarrow> double \<times> double" where
  "drawdown_step s acc =
     (case acc of (peak, drawdown) \<Rightarrow>
      let peak' = d_max peak (s_total_pnl s) in (peak', d_max drawdown (d_sub peak' (s_total_pnl s))))"

definition finalize :: "(double \<Rightarrow> string) \<Rightarrow> Nanos \<Rightarrow> PositionInfo option \<Rightarrow> equity_recorder \<Rightarrow> string \<times> equity_summary" where
  "finalize fmt now keeper er =
     (let samples = (case keeper of None \<Rightarrow> er_samples er | Some p \<Rightarrow> er_samples er @ [position_sample now p]);
          csv = ''wall_ns,total_pnl,real_pnl,unreal_pnl,position,volume'' @ [CHR 0x0A] @ concat (map (csv_row fmt) samples) in
      case fold drawdown_step samples (Fin 0, Fin 0) of (peak, drawdown) \<Rightarrow>
      (csv, \<lparr>sum_samples = length samples,
             final_pnl = (if samples = [] then Fin 0 else s_total_pnl (last samples)),
             peak_pnl = peak, max_drawdown = drawdown,
             final_volume = (if samples = [] then 0 else s_volume (last samples))\<rparr>))"

text \<open>What the two numbers are: \<open>peak\<close> the largest of 0 and the values; \<open>d\<close> the largest fall from an earlier value or 0.\<close>

definition is_peak :: "real list \<Rightarrow> real \<Rightarrow> bool" where
  "is_peak xs peak \<longleftrightarrow> peak \<in> insert 0 (set xs) \<and> 0 \<le> peak \<and> (\<forall>x \<in> set xs. x \<le> peak)"

definition falls :: "real list \<Rightarrow> real set" where
  "falls xs = {0} \<union> uminus ` set xs \<union> {xs ! i - xs ! j | i j. i \<le> j \<and> j < length xs}"

definition is_max_fall :: "real list \<Rightarrow> real \<Rightarrow> bool" where
  "is_max_fall xs d \<longleftrightarrow> d \<in> falls xs \<and> (\<forall>f \<in> falls xs. f \<le> d)"

lemma falls_snoc: "falls (xs @ [x]) = falls xs \<union> {- x, 0} \<union> {y - x | y. y \<in> set xs}"
proof -
  have "uminus ` set (xs @ [x]) = uminus ` set xs \<union> {- x}" by auto
  moreover have "{(xs @ [x]) ! i - (xs @ [x]) ! j | i j. i \<le> j \<and> j < length (xs @ [x])} =
      {xs ! i - xs ! j | i j. i \<le> j \<and> j < length xs} \<union> {y - x | y. y \<in> set xs} \<union> {0}" (is "?l = ?r")
  proof (intro equalityI subsetI)
    fix v assume "v \<in> ?l"
    then obtain i j where v: "v = (xs @ [x]) ! i - (xs @ [x]) ! j" "i \<le> j" "j < Suc (length xs)" by auto
    then consider "j < length xs" | "j = length xs" "i < length xs" | "j = length xs" "i = length xs" by linarith
    then show "v \<in> ?r" using v by cases (auto simp: nth_append)
  next
    fix v assume "v \<in> ?r"
    then consider i j where "v = xs ! i - xs ! j" "i \<le> j" "j < length xs" | i where "v = xs ! i - x" "i < length xs" | "v = 0"
      by (auto simp: in_set_conv_nth)
    then show "v \<in> ?l"
    proof cases
      case (1 i j)
      then have "v = (xs @ [x]) ! i - (xs @ [x]) ! j \<and> i \<le> j \<and> j < length (xs @ [x])" by (simp add: nth_append)
      then show ?thesis by blast
    next
      case (2 i)
      then have "v = (xs @ [x]) ! i - (xs @ [x]) ! length xs \<and> i \<le> length xs \<and> length xs < length (xs @ [x])"
        by (simp add: nth_append)
      then show ?thesis by blast
    next
      case 3
      then have "v = (xs @ [x]) ! length xs - (xs @ [x]) ! length xs \<and> length xs < length (xs @ [x])" by simp
      then show ?thesis by blast
    qed
  qed
  ultimately show ?thesis unfolding falls_def by blast
qed

lemma drawdown_fold:
  assumes "map s_total_pnl samples = map Fin xs"
  shows "\<exists>peak d. fold drawdown_step samples (Fin 0, Fin 0) = (Fin peak, Fin d) \<and> is_peak xs peak \<and> is_max_fall xs d"
  using assms
proof (induction samples arbitrary: xs rule: rev_induct)
  case Nil then show ?case by (simp add: is_peak_def is_max_fall_def falls_def)
next
  case (snoc s samples)
  then obtain ys y where xs: "xs = ys @ [y]" "map s_total_pnl samples = map Fin ys" "s_total_pnl s = Fin y"
    by (cases xs rule: rev_cases) auto
  from snoc.IH [OF xs(2)] obtain peak d where p: "fold drawdown_step samples (Fin 0, Fin 0) = (Fin peak, Fin d)"
    "is_peak ys peak" "is_max_fall ys d" by blast
  have f: "fold drawdown_step (samples @ [s]) (Fin 0, Fin 0) = (Fin (max peak y), Fin (max d (max peak y - y)))"
    using p(1) xs(3) by (simp add: drawdown_step_def Let_def)
  have "is_peak xs (max peak y)" using p(2) by (auto simp: is_peak_def xs(1) max_def)
  moreover have "is_max_fall xs (max d (max peak y - y))"
    using p(2,3) unfolding is_max_fall_def is_peak_def xs(1) falls_snoc by (auto simp: max_def)
  ultimately show ?case using f by blast
qed

text \<open>
  C34. The summary's peak and drawdown: for samples with finite profits, the peak is the largest of 0 and the profits, the
  maximal drawdown is the largest fall from 0 or from an earlier profit to a later one, both are non-negative and the
  last profit is at least the peak less the drawdown; the final sample is counted too.
\<close>

theorem drawdown_is_largest_fall:
  assumes xs: "map s_total_pnl (er_samples er) = map Fin xs" and p: "total_pnl p = Fin x"
  shows "\<exists>peak d. peak_pnl (snd (finalize fmt now (Some p) er)) = Fin peak \<and> max_drawdown (snd (finalize fmt now (Some p) er)) = Fin d \<and>
    is_peak (xs @ [x]) peak \<and> is_max_fall (xs @ [x]) d \<and> peak - d \<le> x \<and> final_pnl (snd (finalize fmt now (Some p) er)) = Fin x \<and>
    sum_samples (snd (finalize fmt now (Some p) er)) = length xs + 1"
proof -
  let ?ss = "er_samples er @ [position_sample now p]"
  have m: "map s_total_pnl ?ss = map Fin (xs @ [x])" using assms by (simp add: position_sample_def)
  from drawdown_fold [OF m] obtain peak d where f: "fold drawdown_step ?ss (Fin 0, Fin 0) = (Fin peak, Fin d)"
    "is_peak (xs @ [x]) peak" "is_max_fall (xs @ [x]) d" by blast
  have "peak - x \<in> falls (xs @ [x])" using f(2) unfolding is_peak_def falls_snoc by auto
  then have "peak - d \<le> x" using f(3) by (auto simp: is_max_fall_def)
  moreover have "length (er_samples er) = length xs" using xs by (metis length_map)
  ultimately show ?thesis using f p by (simp add: finalize_def Let_def position_sample_def)
qed

theorem drawdown_is_largest_fall_witness:
  "\<exists>er p d. max_drawdown (snd (finalize (\<lambda>_. []) 0 (Some p) er)) = Fin d \<and> is_max_fall [5, 2] d"
proof -
  let ?p = "\<lambda>x. (PositionInfo_new (\<lambda>_. Fin 0))\<lparr>total_pnl := Fin x\<rparr>"
  have "map s_total_pnl (er_samples (sample_position 0 (?p 5) \<lparr>er_samples = []\<rparr>)) = map Fin [5]"
    by (simp add: sample_position_def position_sample_def)
  from drawdown_is_largest_fall [OF this, of "?p 2" 2 "\<lambda>_. []" 0] show ?thesis by auto
qed

end
