(* ===== verification/OrderLife.thy ===== *)
theory OrderLife
  imports OrderManager
begin

text \<open>
  The life of an order between the order manager and whoever answers it, the exchange's book or the fill simulator. The
  two see it at different times: the order manager's state, the requests and the responses on their way, and what the
  other party has standing, all for one slot (an instrument and a side).

  \<^item> \<open>fills_lead\<close> says that the responses on their way are fills of the order, one after another, that lead to what is
    left standing of it; \<open>link\<close> what can be on its way in each state of the order manager.
  \<^item> The lemmas: every operation of either party keeps \<open>link\<close>, and a response that arrives is one that
    \<open>response_ok\<close> describes. At most two requests and a number of responses bounded by the order's quantity are on
    their way.
\<close>

subsection \<open>Slots\<close>

definition rq_slot :: "MEClientRequest \<Rightarrow> slot" where
  "rq_slot r = (unat (rq_ticker_id r), sideToIndex (rq_side r))"

definition rs_slot :: "MEClientResponse \<Rightarrow> slot" where
  "rs_slot r = (unat (rs_ticker_id r), sideToIndex (rs_side r))"

definition trading_slot :: "slot \<Rightarrow> bool" where
  "trading_slot k \<longleftrightarrow> fst k < ME_MAX_TICKERS \<and> (snd k = sideToIndex BUY \<or> snd k = sideToIndex SELL)"

text \<open>
  The slot a response is about. The exchange's CANCEL_REJECTED carries no side, so it takes the slot that the order id
  was given to, \<open>so\<close>.
\<close>

definition reply_slot :: "(OrderId \<Rightarrow> slot) \<Rightarrow> MEClientResponse \<Rightarrow> slot" where
  "reply_slot so u = (if rs_type u = CANCEL_REJECTED then so (rs_client_order_id u) else rs_slot u)"

definition slot_requests :: "slot \<Rightarrow> MEClientRequest list \<Rightarrow> MEClientRequest list" where
  "slot_requests k = filter (\<lambda>r. rq_slot r = k)"

definition slot_responses :: "(OrderId \<Rightarrow> slot) \<Rightarrow> slot \<Rightarrow> MEClientResponse list \<Rightarrow> MEClientResponse list" where
  "slot_responses so k = filter (\<lambda>u. reply_slot so u = k)"

text \<open>What the other party has standing: slots, ids and quantities left.\<close>

type_synonym standing = "(slot \<times> OrderId \<times> Qty) list"

definition slot_standing :: "slot \<Rightarrow> standing \<Rightarrow> (OrderId \<times> Qty) list" where
  "slot_standing k L = map snd (filter (\<lambda>x. fst x = k) L)"

lemma slot_simps [simp]:
  "slot_requests k [] = []" "slot_requests k (rs @ rs') = slot_requests k rs @ slot_requests k rs'"
  "slot_requests k (r # rs) = (if rq_slot r = k then r # slot_requests k rs else slot_requests k rs)"
  "slot_responses so k [] = []" "slot_responses so k (us @ us') = slot_responses so k us @ slot_responses so k us'"
  "slot_responses so k (u # us) = (if reply_slot so u = k then u # slot_responses so k us else slot_responses so k us)"
  "slot_standing k [] = []" "slot_standing k (L @ L') = slot_standing k L @ slot_standing k L'"
  "slot_standing k (x # L) = (if fst x = k then [snd x] else []) @ slot_standing k L"
  by (simp_all add: slot_requests_def slot_responses_def slot_standing_def)

subsection \<open>What is on its way\<close>

fun fills_lead :: "OrderId \<Rightarrow> Qty \<Rightarrow> MEClientResponse list \<Rightarrow> (OrderId \<times> Qty) list \<Rightarrow> bool" where
  "fills_lead i q [] p = (p = [(i, q)] \<or> q = 0 \<and> p = [])"
| "fills_lead i q (r # rs) p =
     (rs_type r = FILLED \<and> rs_exec_qty r \<noteq> 0 \<and> unat (rs_exec_qty r) + unat (rs_leaves_qty r) \<le> unat q \<and>
      (if rs_leaves_qty r = 0 then rs = [] \<and> p = [] else fills_lead i (rs_leaves_qty r) rs p))"

text \<open>(An order of quantity 0 need not stand anywhere: the exchange accepts it and forgets it.)\<close>

text \<open>The order's end: the answer to its cancel, behind the fills that came before it.\<close>

definition ended :: "OrderId \<Rightarrow> Qty \<Rightarrow> MEClientResponse list \<Rightarrow> (OrderId \<times> Qty) list \<Rightarrow> bool" where
  "ended i q rs p \<longleftrightarrow> (\<exists>fs e p0. rs = fs @ [e] \<and> p = [] \<and> fills_lead i q fs p0 \<and>
     rs_type e = (if p0 = [] then CANCEL_REJECTED else CANCELED))"

text \<open>A cancel that came too late, or its rejection.\<close>

definition stale :: "MEClientRequest list \<Rightarrow> MEClientResponse list \<Rightarrow> bool" where
  "stale reqs resps \<longleftrightarrow> reqs = [] \<and> resps = [] \<or> (\<exists>c. reqs = [c] \<and> rq_type c = Request_CANCEL \<and> resps = []) \<or>
     (\<exists>j. reqs = [] \<and> resps = [j] \<and> rs_type j = CANCEL_REJECTED)"

definition link :: "OMOrder \<Rightarrow> MEClientRequest list \<Rightarrow> MEClientResponse list \<Rightarrow> (OrderId \<times> Qty) list \<Rightarrow> bool" where
  "link x reqs resps p =
     (case order_state x of
        OM_INVALID \<Rightarrow> p = [] \<and> stale reqs resps
      | DEAD \<Rightarrow> p = [] \<and> stale reqs resps
      | PENDING_NEW \<Rightarrow>
          (\<exists>cs n. reqs = cs @ [n] \<and> rq_type n = NEW \<and> rq_order_id n = om_order_id x \<and> rq_qty n = om_qty x \<and> p = [] \<and> stale cs resps) \<or>
          (\<exists>js a rest. reqs = [] \<and> resps = js @ a # rest \<and> (js = [] \<or> (\<exists>j. js = [j] \<and> rs_type j = CANCEL_REJECTED)) \<and>
             rs_type a = ACCEPTED \<and> fills_lead (om_order_id x) (om_qty x) rest p)
      | LIVE \<Rightarrow> reqs = [] \<and> fills_lead (om_order_id x) (om_qty x) resps p
      | PENDING_CANCEL \<Rightarrow>
          (\<exists>c. reqs = [c] \<and> rq_type c = Request_CANCEL \<and> rq_order_id c = om_order_id x \<and> fills_lead (om_order_id x) (om_qty x) resps p) \<or>
          reqs = [] \<and> ended (om_order_id x) (om_qty x) resps p \<or> reqs = [] \<and> resps = [] \<and> p = [] \<and> om_qty x = 0)"

subsection \<open>Chains\<close>

lemma chain_pending: "fills_lead i q rs p \<Longrightarrow> p = [] \<or> (\<exists>q'. p = [(i, q')] \<and> unat q' \<le> unat q)"
  by (induction rs arbitrary: q) (fastforce split: if_splits)+

lemma chain_snoc:
  assumes "fills_lead i q rs [(i, q')]" and "rs_type r = FILLED" and "rs_exec_qty r \<noteq> 0"
    and "unat (rs_exec_qty r) + unat (rs_leaves_qty r) \<le> unat q'"
  shows "fills_lead i q (rs @ [r]) (if rs_leaves_qty r = 0 then [] else [(i, rs_leaves_qty r)])"
  using assms by (induction rs arbitrary: q) (auto split: if_splits)

lemma chain_length: "fills_lead i q rs p \<Longrightarrow> length rs \<le> unat q"
proof (induction rs arbitrary: q)
  case (Cons r rs)
  then have e: "unat (rs_exec_qty r) \<noteq> 0" "unat (rs_exec_qty r) + unat (rs_leaves_qty r) \<le> unat q"
    by (simp_all add: unat_eq_zero)
  show ?case
  proof (cases "rs_leaves_qty r = 0")
    case True
    then show ?thesis using Cons.prems e by simp
  next
    case False
    then have "length rs \<le> unat (rs_leaves_qty r)" using Cons.prems by (intro Cons.IH) simp
    then show ?thesis using e by simp
  qed
qed simp

lemma link_acked:
  assumes "order_state x = PENDING_NEW" and "rs_type a = ACCEPTED" and "js = [] \<or> (\<exists>j. js = [j] \<and> rs_type j = CANCEL_REJECTED)"
    and "fills_lead (om_order_id x) (om_qty x) rest p"
  shows "link x [] (js @ a # rest) p"
  using assms by (auto simp: link_def)

lemma stale_length: "stale reqs resps \<Longrightarrow> length reqs \<le> 1 \<and> length resps \<le> 1"
  by (auto simp: stale_def)

text \<open>How much can be on its way.\<close>

lemma link_length:
  assumes "link x reqs resps p"
  shows "length reqs \<le> 2" "length resps \<le> 2 + (if working x then unat (om_qty x) else 0)"
  using assms by (cases "order_state x"; auto simp: link_def ended_def working_def dest!: stale_length chain_length)+

lemma link_pending: "link x reqs resps p \<Longrightarrow> p = [] \<or> (\<exists>q. p = [(om_order_id x, q)])"
  by (cases "order_state x") (auto simp: link_def ended_def dest!: chain_pending)

subsection \<open>The order manager's operations\<close>

lemma link_new:
  assumes "link x reqs resps p" and "order_state x = OM_INVALID \<or> order_state x = DEAD"
    and "rq_type n = NEW" and "order_state y = PENDING_NEW" and "rq_order_id n = om_order_id y" and "rq_qty n = om_qty y"
  shows "link y (reqs @ [n]) resps p"
  using assms by (auto simp: link_def)

lemma link_cancel:
  assumes "link x reqs resps p" and "order_state x = LIVE" and "rq_type c = Request_CANCEL" and "rq_order_id c = om_order_id x"
  shows "link (x\<lparr>order_state := PENDING_CANCEL\<rparr>) (reqs @ [c]) resps p"
  using assms by (auto simp: link_def)

text \<open>The state of an order after a response, as \<open>om_onOrderUpdate\<close> changes it.\<close>

definition after_response :: "MEClientResponse \<Rightarrow> OMOrder \<Rightarrow> OMOrder" where
  "after_response r x =
     (case rs_type r of
        ACCEPTED \<Rightarrow> x\<lparr>order_state := LIVE\<rparr>
      | CANCELED \<Rightarrow> x\<lparr>order_state := DEAD\<rparr>
      | FILLED \<Rightarrow> if rs_leaves_qty r = 0 then x\<lparr>om_qty := 0, order_state := DEAD\<rparr> else x\<lparr>om_qty := rs_leaves_qty r\<rparr>
      | CANCEL_REJECTED \<Rightarrow> x
      | Response_INVALID \<Rightarrow> x)"

lemma stale_response: "stale reqs (r # resps) \<Longrightarrow> rs_type r = CANCEL_REJECTED \<and> reqs = [] \<and> resps = []"
  by (auto simp: stale_def)

lemma stale_Nil [simp]: "stale [] []"
  by (simp add: stale_def)

lemma link_response:
  assumes "link x reqs (r # resps) p"
  shows "link (after_response r x) reqs resps p"
    "rs_type r = ACCEPTED \<Longrightarrow> order_state x = PENDING_NEW"
    "rs_type r = FILLED \<Longrightarrow> working x \<and> unat (rs_leaves_qty r) + unat (rs_exec_qty r) \<le> unat (om_qty x)"
proof -
  have "link (after_response r x) reqs resps p \<and> (rs_type r = ACCEPTED \<longrightarrow> order_state x = PENDING_NEW) \<and>
    (rs_type r = FILLED \<longrightarrow> working x \<and> unat (rs_leaves_qty r) + unat (rs_exec_qty r) \<le> unat (om_qty x))"
  proof (cases "order_state x")
    case PENDING_NEW
    then consider cs n where "reqs = cs @ [n]" "rq_type n = NEW" "rq_order_id n = om_order_id x" "rq_qty n = om_qty x" "p = []" "stale cs (r # resps)"
      | j a rest where "reqs = []" "r # resps = [j] @ a # rest" "rs_type j = CANCEL_REJECTED" "rs_type a = ACCEPTED" "fills_lead (om_order_id x) (om_qty x) rest p"
      | "reqs = []" "rs_type r = ACCEPTED" "fills_lead (om_order_id x) (om_qty x) resps p"
      using assms by (auto simp: link_def)
    then show ?thesis
    proof cases
      case 1
      from stale_response [OF 1(6)] 1 show ?thesis using PENDING_NEW by (auto simp: link_def after_response_def)
    next
      case 2
      then show ?thesis using PENDING_NEW link_acked [of x a "[]" rest p] by (auto simp: after_response_def)
    next
      case 3
      then show ?thesis using PENDING_NEW by (auto simp: link_def after_response_def)
    qed
  next
    case LIVE
    then show ?thesis using assms by (auto simp: link_def after_response_def working_def split: if_splits)
  next
    case PENDING_CANCEL
    then consider c where "reqs = [c]" "rq_type c = Request_CANCEL" "rq_order_id c = om_order_id x" "fills_lead (om_order_id x) (om_qty x) (r # resps) p"
      | "reqs = []" "ended (om_order_id x) (om_qty x) (r # resps) p" using assms by (auto simp: link_def)
    then show ?thesis
    proof cases
      case 1
      then show ?thesis using PENDING_CANCEL by (auto simp: link_def after_response_def working_def stale_def split: if_splits)
    next
      case 2
      then obtain fs e p0 where e: "r # resps = fs @ [e]" "p = []" "fills_lead (om_order_id x) (om_qty x) fs p0"
        "rs_type e = (if p0 = [] then CANCEL_REJECTED else CANCELED)" by (auto simp: ended_def)
      show ?thesis
      proof (cases fs)
        case Nil
        then show ?thesis using e 2(1) PENDING_CANCEL by (auto simp: link_def after_response_def)
      next
        case (Cons f fs')
        then show ?thesis using e 2(1) PENDING_CANCEL
          by (auto simp: link_def after_response_def working_def stale_def ended_def split: if_splits)
      qed
    qed
  qed (use assms in \<open>auto simp: link_def after_response_def dest!: stale_response\<close>)
  then show "link (after_response r x) reqs resps p" "rs_type r = ACCEPTED \<Longrightarrow> order_state x = PENDING_NEW"
    "rs_type r = FILLED \<Longrightarrow> working x \<and> unat (rs_leaves_qty r) + unat (rs_exec_qty r) \<le> unat (om_qty x)" by blast+
qed

subsection \<open>The simulator's operations\<close>

lemma stale_cons: "stale (r # reqs) resps \<Longrightarrow> rq_type r = Request_CANCEL \<and> reqs = [] \<and> resps = []"
  by (auto simp: stale_def)

text \<open>The simulator takes a new order: nothing was pending, and it answers ACCEPTED.\<close>

lemma link_take_new:
  assumes "link x (r # reqs) resps p" and "rq_type r = NEW" and "rs_type a = ACCEPTED"
  shows "p = []" "link x reqs (resps @ [a]) [(rq_order_id r, rq_qty r)]" "rq_qty r = 0 \<Longrightarrow> link x reqs (resps @ [a]) []"
proof -
  have st: "order_state x = PENDING_NEW"
    using assms(1,2) by (cases "order_state x") (auto simp: link_def dest!: stale_cons)
  then obtain cs n where c: "r # reqs = cs @ [n]" "rq_order_id n = om_order_id x" "rq_qty n = om_qty x" "p = []" "stale cs resps"
    using assms(1) by (auto simp: link_def)
  have "cs = []" using c(1,5) assms(2) by (cases cs) (auto dest!: stale_cons)
  then have "r = n" "reqs = []" "stale [] resps" using c by simp_all
  then show "p = []" "link x reqs (resps @ [a]) [(rq_order_id r, rq_qty r)]" "rq_qty r = 0 \<Longrightarrow> link x reqs (resps @ [a]) []"
    using c(2-4) st assms(3) link_acked [of x a resps "[]" "[(rq_order_id r, rq_qty r)]"] link_acked [of x a resps "[]" "[]"]
    by (auto simp: stale_def)
qed

text \<open>The simulator takes a cancel: of the pending order, or too late.\<close>

lemma link_take_cancel:
  assumes "link x (r # reqs) resps p" and "rq_type r = Request_CANCEL"
    and "rs_type a = (if p = [] then CANCEL_REJECTED else CANCELED)"
  shows "p \<noteq> [] \<Longrightarrow> \<exists>q. p = [(rq_order_id r, q)]" "link x reqs (resps @ [a]) []"
proof -
  have "(p \<noteq> [] \<longrightarrow> (\<exists>q. p = [(rq_order_id r, q)])) \<and> link x reqs (resps @ [a]) []"
  proof (cases "order_state x")
    case PENDING_CANCEL
    then have c: "reqs = []" "rq_order_id r = om_order_id x" "fills_lead (om_order_id x) (om_qty x) resps p"
      using assms(1) by (auto simp: link_def)
    then show ?thesis using PENDING_CANCEL assms(3) chain_pending [OF c(3)] by (auto simp: link_def ended_def)
  next
    case PENDING_NEW
    then obtain cs n where c: "r # reqs = cs @ [n]" "rq_type n = NEW" "rq_order_id n = om_order_id x" "rq_qty n = om_qty x" "p = []" "stale cs resps"
      using assms(1) by (auto simp: link_def)
    then have "cs = [r]" "reqs = [n]" using assms(2) by (cases cs; auto dest!: stale_cons)+
    then show ?thesis using c PENDING_NEW assms(3) by (auto simp: link_def stale_def)
  qed (use assms in \<open>auto simp: link_def stale_def\<close>)
  then show "p \<noteq> [] \<Longrightarrow> \<exists>q. p = [(rq_order_id r, q)]" "link x reqs (resps @ [a]) []" by auto
qed

text \<open>The simulator fills a pending order.\<close>

lemma link_fill:
  assumes "link x reqs resps [(i, q)]" and "rs_type r = FILLED" and "rs_exec_qty r \<noteq> 0"
    and "unat (rs_exec_qty r) + unat (rs_leaves_qty r) \<le> unat q"
  shows "link x reqs (resps @ [r]) (if rs_leaves_qty r = 0 then [] else [(i, rs_leaves_qty r)])"
proof -
  have i: "i = om_order_id x" using link_pending [OF assms(1)] by simp
  have s: "fills_lead i q0 (rs @ [r]) (if rs_leaves_qty r = 0 then [] else [(i, rs_leaves_qty r)])"
    if "fills_lead i q0 rs [(i, q)]" for q0 rs
    by (rule chain_snoc [OF that assms(2-4)])
  show ?thesis
  proof (cases "order_state x")
    case PENDING_NEW
    then obtain js a rest where "reqs = []" "resps = js @ a # rest" "js = [] \<or> (\<exists>j. js = [j] \<and> rs_type j = CANCEL_REJECTED)"
      "rs_type a = ACCEPTED" "fills_lead (om_order_id x) (om_qty x) rest [(i, q)]" using assms(1) by (auto simp: link_def)
    then show ?thesis using PENDING_NEW s [of "om_qty x" rest] i
        link_acked [of x a js "rest @ [r]" "if rs_leaves_qty r = 0 then [] else [(i, rs_leaves_qty r)]"] by simp
  qed (use assms(1) s i in \<open>auto simp: link_def ended_def\<close>)
qed

end
