(* ===== verification/OrderWires.thy ===== *)
theory OrderWires
  imports OrderLife "HOL-Library.Multiset"
begin

text \<open>
  An order manager and whoever answers its orders, with the requests and the responses on their way between them.

  \<^item> \<open>wired\<close> says that every slot is as \<open>OrderLife\<close> describes; the argument \<open>so\<close> remembers which slot an order id was
    given to. The order manager's operations keep it, and \<open>wired_take\<close> and \<open>wired_fill\<close> say what the other party may do.
  \<^item> Nothing is assumed of the other party but that it answers requests in order and fills what stands.
\<close>

subsection \<open>Every slot is linked\<close>

declare split_paired_All [simp del] split_paired_Ex [simp del]

definition wired :: "(OrderId \<Rightarrow> slot) \<Rightarrow> order_manager \<Rightarrow> MEClientRequest list \<Rightarrow> MEClientResponse list \<Rightarrow> standing \<Rightarrow> bool" where
  "wired so om reqs resps L \<longleftrightarrow>
     (\<forall>k. trading_slot k \<longrightarrow> link (get_order k om) (slot_requests k reqs) (slot_responses so k resps) (slot_standing k L)) \<and>
     (\<forall>k. trading_slot k \<longrightarrow> working (get_order k om) \<longrightarrow> so (om_order_id (get_order k om)) = k \<and>
        om_order_id (get_order k om) < next_order_id om \<and>
        (unat (om_ticker_id (get_order k om)), sideToIndex (om_side (get_order k om))) = k) \<and>
     (\<forall>r \<in> set reqs. trading_slot (rq_slot r) \<and> so (rq_order_id r) = rq_slot r \<and> rq_order_id r < next_order_id om \<and>
        rq_type r \<noteq> Request_INVALID) \<and>
     (\<forall>u \<in> set resps. unat (rs_ticker_id u) < ME_MAX_TICKERS \<and> trading_slot (reply_slot so u) \<and>
        (rs_type u = CANCEL_REJECTED \<longrightarrow> rs_client_order_id u < next_order_id om)) \<and>
     (\<forall>x \<in> set L. trading_slot (fst x) \<and> so (fst (snd x)) = fst x \<and> fst (snd x) < next_order_id om)"

lemma wired_link:
  "wired so om reqs resps L \<Longrightarrow> trading_slot k \<Longrightarrow> link (get_order k om) (slot_requests k reqs) (slot_responses so k resps) (slot_standing k L)"
  unfolding wired_def by blast

lemma wired_entry:
  "wired so om reqs resps L \<Longrightarrow> x \<in> set L \<Longrightarrow> trading_slot (fst x) \<and> so (fst (snd x)) = fst x \<and> fst (snd x) < next_order_id om"
  unfolding wired_def by blast

lemma wired_reply:
  "wired so om reqs resps L \<Longrightarrow> u \<in> set resps \<Longrightarrow> unat (rs_ticker_id u) < ME_MAX_TICKERS \<and> trading_slot (reply_slot so u) \<and>
     (rs_type u = CANCEL_REJECTED \<longrightarrow> rs_client_order_id u < next_order_id om)"
  unfolding wired_def by blast

lemma trading_slotI: "unat tk < ME_MAX_TICKERS \<Longrightarrow> trading_side side \<Longrightarrow> trading_slot (unat tk, sideToIndex side)"
  by (auto simp: trading_slot_def trading_side_def)

lemma trading_slot_side: "trading_slot (t, sideToIndex side) \<Longrightarrow> trading_side side \<and> t < ME_MAX_TICKERS"
  by (auto simp: trading_slot_def trading_side_def sideToIndex_inj simp del: sideToIndex_simps)

text \<open>The order manager's requests, by slot.\<close>

lemma reply_slot_new:
  assumes "\<forall>u \<in> set resps. rs_type u = CANCEL_REJECTED \<longrightarrow> rs_client_order_id u \<noteq> i"
  shows "\<forall>u \<in> set resps. reply_slot (so(i := k)) u = reply_slot so u" "slot_responses (so(i := k)) j resps = slot_responses so j resps"
proof -
  show r: "\<forall>u \<in> set resps. reply_slot (so(i := k)) u = reply_slot so u" using assms by (simp add: reply_slot_def)
  then show "slot_responses (so(i := k)) j resps = slot_responses so j resps" unfolding slot_responses_def by (intro filter_cong) simp_all
qed

lemma wired_new:
  fixes c px q
  assumes w: "wired so om (R @ om_requests om) resps L" and k: "k = (unat tk, sideToIndex side)" "trading_slot k"
    and st: "order_state (get_order k om) = OM_INVALID \<or> order_state (get_order k om) = DEAD" and n: "next_order_id om \<noteq> - 1"
  defines "om' \<equiv> newOrder c k tk px side q om"
  shows "wired (so(next_order_id om := k)) om' (R @ om_requests om') resps L"
proof -
  let ?i = "next_order_id om" and ?so = "so(next_order_id om := k)"
  let ?n = "\<lparr>rq_type = NEW, rq_client_id = c, rq_ticker_id = tk, rq_order_id = next_order_id om, rq_side = side, rq_price = px, rq_qty = q\<rparr>"
  let ?y = "\<lparr>om_ticker_id = tk, om_order_id = next_order_id om, om_side = side, om_price = px, om_qty = q, order_state = PENDING_NEW\<rparr>"
  have om': "om_requests om' = om_requests om @ [?n]" "next_order_id om' = ?i + 1" "\<And>j. get_order j om' = (if j = k then ?y else get_order j om)"
    by (simp_all add: om'_def newOrder_def Let_def)
  have lt: "?i < ?i + 1" using n by (rule word_less_plus_one)
  then have less: "j < ?i \<Longrightarrow> j < ?i + 1 \<and> j \<noteq> ?i" for j by (auto intro: less_trans)
  have slot: "rq_slot ?n = k" using k by (simp add: rq_slot_def)
  have "\<forall>u \<in> set resps. rs_type u = CANCEL_REJECTED \<longrightarrow> rs_client_order_id u \<noteq> ?i"
    using wired_reply [OF w] by (metis order_less_irrefl)
  note reply = reply_slot_new [OF this, of so k]
  have "link ?y (slot_requests k (R @ om_requests om) @ [?n]) (slot_responses so k resps) (slot_standing k L)"
    by (rule link_new [OF wired_link [OF w k(2)] st]) simp_all
  then have "link (get_order j om') (slot_requests j (R @ om_requests om')) (slot_responses ?so j resps) (slot_standing j L)" if "trading_slot j" for j
    using wired_link [OF w that] by (cases "j = k") (simp_all add: om'(1,3) slot reply(2))
  moreover have "\<forall>u \<in> set resps. unat (rs_ticker_id u) < ME_MAX_TICKERS \<and> trading_slot (reply_slot ?so u) \<and>
        (rs_type u = CANCEL_REJECTED \<longrightarrow> rs_client_order_id u < next_order_id om')"
    using w reply(1) less unfolding wired_def by (simp add: om')
  moreover have "\<forall>x \<in> set L. trading_slot (fst x) \<and> ?so (fst (snd x)) = fst x \<and> fst (snd x) < next_order_id om'"
    using w less unfolding wired_def by (simp add: om')
  moreover have "\<forall>r \<in> set (R @ om_requests om'). trading_slot (rq_slot r) \<and> ?so (rq_order_id r) = rq_slot r \<and> rq_order_id r < next_order_id om' \<and>
        rq_type r \<noteq> Request_INVALID"
    using w less lt slot k(2) unfolding wired_def by (auto simp: om')
  moreover have "\<forall>j. trading_slot j \<longrightarrow> working (get_order j om') \<longrightarrow> ?so (om_order_id (get_order j om')) = j \<and>
        om_order_id (get_order j om') < next_order_id om' \<and>
        (unat (om_ticker_id (get_order j om')), sideToIndex (om_side (get_order j om'))) = j"
    using w less lt k(1) unfolding wired_def by (simp add: om')
  ultimately show ?thesis unfolding wired_def by blast
qed

lemma wired_cancel:
  fixes c
  assumes w: "wired so om (R @ om_requests om) resps L" and k: "trading_slot k" and st: "order_state (get_order k om) = LIVE"
  defines "om' \<equiv> cancelOrder c k om"
  shows "wired so om' (R @ om_requests om') resps L"
proof -
  let ?x = "get_order k om"
  let ?c = "\<lparr>rq_type = Request_CANCEL, rq_client_id = c, rq_ticker_id = om_ticker_id ?x, rq_order_id = om_order_id ?x, rq_side = om_side ?x,
    rq_price = om_price ?x, rq_qty = om_qty ?x\<rparr>"
  have om': "om_requests om' = om_requests om @ [?c]" "next_order_id om' = next_order_id om"
    "\<And>j. get_order j om' = (if j = k then ?x\<lparr>order_state := PENDING_CANCEL\<rparr> else get_order j om)"
    by (simp_all add: om'_def cancelOrder_def Let_def)
  have wk: "working ?x" using st by (simp add: working_def)
  then have x: "so (om_order_id ?x) = k" "om_order_id ?x < next_order_id om" "rq_slot ?c = k"
    using w k by (auto simp: wired_def rq_slot_def)
  have "link (?x\<lparr>order_state := PENDING_CANCEL\<rparr>) (slot_requests k (R @ om_requests om) @ [?c]) (slot_responses so k resps) (slot_standing k L)"
    by (rule link_cancel [OF wired_link [OF w k] st]) simp_all
  then have "link (get_order j om') (slot_requests j (R @ om_requests om')) (slot_responses so j resps) (slot_standing j L)" if "trading_slot j" for j
    using wired_link [OF w that] by (cases "j = k") (simp_all add: om'(1,3) x(3))
  then show ?thesis using w k x wk unfolding wired_def by (auto simp: om')
qed

lemma wired_moveOrder:
  assumes w: "wired so om (R @ om_requests om) resps L" and k: "unat tk < ME_MAX_TICKERS" "trading_side side"
    and m: "moveOrder check c (unat tk, sideToIndex side) tk px side q om = Inr om'" and n: "next_order_id om \<noteq> - 1"
  shows "\<exists>so'. wired so' om' (R @ om_requests om') resps L \<and> unat (next_order_id om') \<le> unat (next_order_id om) + 1"
proof -
  let ?k = "(unat tk, sideToIndex side)"
  note ts = trading_slotI [OF k]
  consider "om' = om" | "om' = newOrder c ?k tk px side q om" "order_state (get_order ?k om) = OM_INVALID \<or> order_state (get_order ?k om) = DEAD"
    | "om' = cancelOrder c ?k om" "order_state (get_order ?k om) = LIVE"
    using m by (auto simp: moveOrder_def res_simps split: OMOrderState.splits if_splits)
  then show ?thesis
  proof cases
    case 2
    have "unat (next_order_id om') = unat (next_order_id om) + 1"
      using unat_plus_one [OF word_less_plus_one [OF n]] by (simp add: 2(1) newOrder_def Let_def)
    moreover have "wired (so(next_order_id om := ?k)) om' (R @ om_requests om') resps L"
      using wired_new [OF w refl ts 2(2) n, of c px q] 2(1) by simp
    ultimately show ?thesis by (intro exI conjI) simp_all
  next
    case 3
    then have "next_order_id om' = next_order_id om" by (simp add: cancelOrder_def Let_def)
    then show ?thesis using wired_cancel [OF w ts 3(2), of c] 3(1) by auto
  qed (use w in auto)
qed

lemma wired_moveOrders:
  assumes w: "wired so om (R @ om_requests om) resps L" and m: "moveOrders check c tk bid ask q om = Inr om'"
    and n: "unat (next_order_id om) + 2 < 2 ^ 64"
  shows "\<exists>so'. wired so' om' (R @ om_requests om') resps L \<and> unat (next_order_id om') \<le> unat (next_order_id om) + 2"
proof -
  have t: "unat tk < ME_MAX_TICKERS" using m order_slot_out [of tk BUY] by (cases "unat tk < ME_MAX_TICKERS") (auto simp: moveOrders_def)
  from m obtain om1 where m1: "moveOrder check c (unat tk, sideToIndex BUY) tk bid BUY q om = Inr om1"
    "moveOrder check c (unat tk, sideToIndex SELL) tk ask SELL q om1 = Inr om'"
    by (auto simp: moveOrders_def order_slot_in [OF t] res_simps simp del: sideToIndex_simps)
  have small: "i \<noteq> - 1" if "unat i + 1 < 2 ^ 64" for i :: OrderId
    using that by (auto simp: unsigned_minus_1_eq_mask mask_eq_exp_minus_1)
  have "next_order_id om \<noteq> - 1" by (rule small) (use n in simp)
  from wired_moveOrder [OF w t _ m1(1) this] obtain so1 where so1: "wired so1 om1 (R @ om_requests om1) resps L"
    "unat (next_order_id om1) \<le> unat (next_order_id om) + 1" by auto
  have "next_order_id om1 \<noteq> - 1" by (rule small) (use n so1(2) in linarith)
  from wired_moveOrder [OF so1(1) t _ m1(2) this] so1(2) show ?thesis by fastforce
qed

lemma wired_clear: "wired so (om\<lparr>om_requests := rs\<rparr>) reqs resps L = wired so om reqs resps L"
  by (simp add: wired_def get_order_def)

text \<open>A response arrives.\<close>

lemma after_response_same:
  "om_order_id (after_response r x) = om_order_id x" "om_ticker_id (after_response r x) = om_ticker_id x"
  "om_side (after_response r x) = om_side x"
  by (simp_all add: after_response_def split: ClientResponseType.split)

lemma after_rejected [simp]: "rs_type r = CANCEL_REJECTED \<Longrightarrow> after_response r x = x"
  by (simp add: after_response_def)

lemma om_after_response:
  assumes "om_onOrderUpdate r om = Inr om'"
  shows "\<And>j. get_order j om' = (if j = reply_slot so r then after_response r (get_order j om) else get_order j om)"
    "next_order_id om' = next_order_id om" "om_requests om' = om_requests om"
proof -
  have t: "unat (rs_ticker_id r) < ME_MAX_TICKERS"
    using assms order_slot_out [of "rs_ticker_id r" "rs_side r"]
    by (cases "unat (rs_ticker_id r) < ME_MAX_TICKERS") (auto simp: om_onOrderUpdate_def)
  note e = assms [unfolded om_onOrderUpdate_def order_slot_in [OF t] bindE_Inr Let_def, folded rs_slot_def]
  show "\<And>j. get_order j om' = (if j = reply_slot so r then after_response r (get_order j om) else get_order j om)"
    "next_order_id om' = next_order_id om" "om_requests om' = om_requests om"
    using e by (cases "rs_type r"; auto simp: reply_slot_def after_response_def split: if_splits)+
qed

lemma wired_response:
  assumes w: "wired so om reqs (r # resps) L" and m: "om_onOrderUpdate r om = Inr om'"
  shows "wired so om' reqs resps L" "response_ok r om"
proof -
  let ?k = "reply_slot so r"
  let ?x = "get_order ?k om"
  have k: "trading_slot ?k" and t: "unat (rs_ticker_id r) < ME_MAX_TICKERS" using w by (simp_all add: wired_def)
  note om = om_after_response(1) [OF m, where so = so] om_after_response(2,3) [OF m]
  have "link ?x (slot_requests ?k reqs) (r # slot_responses so ?k resps) (slot_standing ?k L)"
    using wired_link [OF w k] by simp
  note l = link_response [OF this]
  have "link (get_order j om') (slot_requests j reqs) (slot_responses so j resps) (slot_standing j L)" if "trading_slot j" for j
    using wired_link [OF w that] l(1) by (cases "j = ?k") (auto simp: om)
  moreover have "working ?x" if "working (after_response r ?x)"
  proof (cases "rs_type r = ACCEPTED")
    case True
    then show ?thesis using l(2) by (simp add: working_def)
  qed (use that in \<open>auto simp: after_response_def working_def split: ClientResponseType.splits if_splits\<close>)
  ultimately show "wired so om' reqs resps L" using w unfolding wired_def by (auto simp: om after_response_same)
  have s: "?k = rs_slot r \<and> trading_side (rs_side r)" if "rs_type r \<noteq> CANCEL_REJECTED"
    using trading_slot_side [of "unat (rs_ticker_id r)" "rs_side r"] k that by (simp add: reply_slot_def rs_slot_def)
  have q: "uint (rs_leaves_qty r) + uint (rs_exec_qty r) \<le> uint (om_qty ?x)" if "rs_type r = FILLED"
  proof -
    have "int (unat (rs_leaves_qty r) + unat (rs_exec_qty r)) \<le> int (unat (om_qty ?x))" using l(3) [OF that] by linarith
    then show ?thesis by simp
  qed
  show "response_ok r om"
  proof (cases "rs_type r = CANCEL_REJECTED")
    case True
    then show ?thesis using t by (simp add: response_ok_def)
  next
    case False
    then show ?thesis using s t l(2,3) q by (auto simp: response_ok_def rs_slot_def Let_def)
  qed
qed

subsection \<open>The other party\<close>

lemma wired_rotate:
  assumes w: "wired so om reqs resps L" and m: "mset L = mset L'"
  shows "wired so om reqs resps L'"
proof -
  have "slot_standing k L' = slot_standing k L" if "trading_slot k" for k
  proof -
    have e: "mset (slot_standing k L') = mset (slot_standing k L)"
      by (simp add: slot_standing_def m)
    from link_pending [OF wired_link [OF w that]] show ?thesis
      using e by (elim disjE exE) simp_all
  qed
  moreover have "set L' = set L" using m by (metis set_mset_mset)
  ultimately show ?thesis using w unfolding wired_def by auto
qed

text \<open>A standing order is filled: all of it, or it stands with the rest.\<close>

definition rest_of :: "slot \<Rightarrow> OrderId \<Rightarrow> Qty \<Rightarrow> standing" where
  "rest_of k i q = (if q = 0 then [] else [(k, i, q)])"

lemma wired_fill:
  assumes w: "wired so om reqs resps ((k, i, q) # L)" and r: "rs_slot r = k" "rs_type r = FILLED" "rs_exec_qty r \<noteq> 0"
    "unat (rs_exec_qty r) + unat (rs_leaves_qty r) \<le> unat q"
  shows "wired so om reqs (resps @ [r]) (rest_of k i (rs_leaves_qty r) @ L)"
proof -
  have k: "trading_slot k" using w by (simp add: wired_def)
  then have t: "unat (rs_ticker_id r) < ME_MAX_TICKERS" using r(1) by (auto simp: trading_slot_def rs_slot_def)
  have a: "reply_slot so r = k" using r(1,2) by (simp add: reply_slot_def)
  have "slot_standing k ((k, i, q) # L) = [(i, q)]"
    using link_pending [OF wired_link [OF w k]] by auto
  then have rest: "slot_standing k L = []" by simp
  have "link (get_order k om) (slot_requests k reqs) (slot_responses so k resps) [(i, q)]"
    using wired_link [OF w k] rest by simp
  note l = link_fill [OF this r(2-4)]
  have p: "slot_standing j (rest_of k i (rs_leaves_qty r) @ L) =
      (if j = k then (if rs_leaves_qty r = 0 then [] else [(i, rs_leaves_qty r)]) else slot_standing j L)" for j
    using rest by (simp add: rest_of_def)
  have "link (get_order j om) (slot_requests j reqs) (slot_responses so j (resps @ [r])) (slot_standing j (rest_of k i (rs_leaves_qty r) @ L))"
    if "trading_slot j" for j
    using wired_link [OF w that] l unfolding p by (cases "j = k") (auto simp: a)
  then show ?thesis using w k t r(2) a unfolding wired_def by (auto simp: rest_of_def)
qed

text \<open>A request is taken and answered.\<close>

lemma wired_take:
  assumes w: "wired so om (r # reqs) resps L" and a: "reply_slot so a = rq_slot r" "rs_ticker_id a = rq_ticker_id r" "rs_client_order_id a = rq_order_id r"
    and l: "link (get_order (rq_slot r) om) (slot_requests (rq_slot r) reqs) (slot_responses so (rq_slot r) resps @ [a]) (slot_standing (rq_slot r) L')"
    and p: "\<And>k. k \<noteq> rq_slot r \<Longrightarrow> slot_standing k L' = slot_standing k L"
    and L': "\<And>x. x \<in> set L' \<Longrightarrow> x \<in> set L \<or> fst x = rq_slot r \<and> fst (snd x) = rq_order_id r"
  shows "wired so om reqs (resps @ [a]) L'"
proof -
  have k: "trading_slot (rq_slot r)" "so (rq_order_id r) = rq_slot r" "rq_order_id r < next_order_id om" using w by (simp_all add: wired_def)
  have t: "unat (rs_ticker_id a) < ME_MAX_TICKERS" using k(1) a(2) by (auto simp: trading_slot_def rq_slot_def)
  have "link (get_order k om) (slot_requests k reqs) (slot_responses so k (resps @ [a])) (slot_standing k L')" if "trading_slot k" for k
    using wired_link [OF w that] l p [of k] by (cases "k = rq_slot r") (simp_all add: a(1))
  moreover have "trading_slot (fst x) \<and> so (fst (snd x)) = fst x \<and> fst (snd x) < next_order_id om" if "x \<in> set L'" for x
    using L' [OF that] wired_entry [OF w, of x] k by (elim disjE) simp_all
  ultimately show ?thesis using w a k t unfolding wired_def by simp
qed

lemma wired_take_new:
  assumes w: "wired so om (r # reqs) resps L" and r: "rq_type r = NEW"
    and a: "rs_type a = ACCEPTED" "rs_slot a = rq_slot r" "rs_ticker_id a = rq_ticker_id r" "rs_client_order_id a = rq_order_id r"
  shows "\<And>x. x \<in> set L \<Longrightarrow> fst (snd x) \<noteq> rq_order_id r" "wired so om reqs (resps @ [a]) ((rq_slot r, rq_order_id r, rq_qty r) # L)"
    "wired so om reqs (resps @ [a]) (rest_of (rq_slot r) (rq_order_id r) (rq_qty r) @ L)"
proof -
  let ?k = "rq_slot r"
  have k: "trading_slot ?k" "so (rq_order_id r) = ?k" using w by (simp_all add: wired_def)
  have "link (get_order ?k om) (r # slot_requests ?k reqs) (slot_responses so ?k resps) (slot_standing ?k L)" using wired_link [OF w k(1)] by simp
  note new = link_take_new [OF this r a(1)]
  show "fst (snd x) \<noteq> rq_order_id r" if "x \<in> set L" for x
  proof
    assume "fst (snd x) = rq_order_id r"
    then have "fst x = ?k" using wired_entry [OF w that] k(2) by simp
    then have "x \<in> set (filter (\<lambda>x. fst x = ?k) L)" using that by simp
    then show False using new(1) by (auto simp: slot_standing_def filter_empty_conv)
  qed
  have s: "reply_slot so a = ?k" using a(1,2) by (simp add: reply_slot_def)
  show "wired so om reqs (resps @ [a]) ((?k, rq_order_id r, rq_qty r) # L)"
    by (rule wired_take [OF w s a(3,4)]) (use new in auto)
  show "wired so om reqs (resps @ [a]) (rest_of ?k (rq_order_id r) (rq_qty r) @ L)"
    by (rule wired_take [OF w s a(3,4)]) (use new in \<open>auto simp: rest_of_def split: if_splits\<close>)
qed

lemma wired_take_cancel:
  assumes w: "wired so om (r # reqs) resps L" and r: "rq_type r = Request_CANCEL"
    and a: "rs_type a = (if rq_order_id r \<in> fst ` snd ` set L then CANCELED else CANCEL_REJECTED)" "rs_type a = CANCELED \<Longrightarrow> rs_slot a = rq_slot r"
      "rs_ticker_id a = rq_ticker_id r" "rs_client_order_id a = rq_order_id r"
  shows "wired so om reqs (resps @ [a]) (filter (\<lambda>x. fst (snd x) \<noteq> rq_order_id r) L)"
    "\<And>x. x \<in> set L \<Longrightarrow> fst (snd x) = rq_order_id r \<Longrightarrow> fst x = rq_slot r"
proof -
  let ?k = "rq_slot r" and ?M = "filter (\<lambda>x. fst (snd x) \<noteq> rq_order_id r) L"
  have k: "trading_slot ?k" "so (rq_order_id r) = ?k" using w by (simp_all add: wired_def)
  show own: "fst x = ?k" if "x \<in> set L" "fst (snd x) = rq_order_id r" for x using wired_entry [OF w that(1)] that(2) k(2) by simp
  have l: "link (get_order ?k om) (r # slot_requests ?k reqs) (slot_responses so ?k resps) (slot_standing ?k L)" using wired_link [OF w k(1)] by simp
  have M: "slot_standing ?k ?M = filter (\<lambda>y. fst y \<noteq> rq_order_id r) (slot_standing ?k L)"
    by (simp add: slot_standing_def filter_map o_def conj_commute)
  have "slot_standing ?k L = [] \<longleftrightarrow> rq_order_id r \<notin> fst ` snd ` set L"
  proof
    assume "slot_standing ?k L = []"
    then show "rq_order_id r \<notin> fst ` snd ` set L" using own by (fastforce simp: slot_standing_def filter_empty_conv)
  next
    assume n: "rq_order_id r \<notin> fst ` snd ` set L"
    show "slot_standing ?k L = []"
    proof (rule ccontr)
      assume "slot_standing ?k L \<noteq> []"
      from link_take_cancel(1) [OF l r _ this, of "a\<lparr>rs_type := CANCELED\<rparr>"] this
      have "rq_order_id r \<in> fst ` set (slot_standing ?k L)" by auto
      then show False using n by (force simp: slot_standing_def)
    qed
  qed
  then have ty: "rs_type a = (if slot_standing ?k L = [] then CANCEL_REJECTED else CANCELED)" using a(1) by simp
  note cancel = link_take_cancel [OF l r ty]
  have "slot_standing ?k ?M = []" unfolding M using cancel(1) by (cases "slot_standing ?k L = []") auto
  then have l': "link (get_order ?k om) (slot_requests ?k reqs) (slot_responses so ?k resps @ [a]) (slot_standing ?k ?M)" using cancel(2) by simp
  have p: "slot_standing j ?M = slot_standing j L" if "j \<noteq> ?k" for j
    using own that unfolding slot_standing_def by (intro arg_cong [where f = "map _"]) (auto intro: filter_cong)
  have s: "reply_slot so a = ?k" using a k(2) by (cases "rs_type a = CANCELED") (auto simp: reply_slot_def split: if_splits)
  show "wired so om reqs (resps @ [a]) ?M" by (rule wired_take [OF w s a(3,4) l' p]) auto
qed

end
