(* ===== verification/EngineWires.thy ===== *)
theory EngineWires
  imports OrderWires TradeEngine
begin

text \<open>
  A trade engine and whoever answers its orders, over the queues \<open>outgoing_ogw_requests\<close> and \<open>incoming_ogw_responses\<close>.

  \<^item> What is on its way fits: two requests a slot, and no more responses than the limits leave quantity to fill.
  \<^item> \<open>engine_wired\<close> puts \<open>wired\<close> together with the engine's limits and its queues; \<open>engine_update\<close>, \<open>engine_response\<close> and
    \<open>engine_delivered\<close> are the steps that keep it, and the lemmas after them what holds in every state: the position limit,
    the queues' bounds, and the agreement of both parties once nothing is on its way.
\<close>

subsection \<open>What fits\<close>

definition slots :: "slot list" where
  "slots = concat (map (\<lambda>t. [(t, sideToIndex BUY), (t, sideToIndex SELL)]) [0..<ME_MAX_TICKERS])"

lemma trading_slots: "trading_slot k \<longleftrightarrow> k \<in> set slots"
  by (cases k) (auto simp: trading_slot_def slots_def)

lemma sum_two: "sum_list (map f (concat (map (\<lambda>t. [a t, b t]) ts))) = (\<Sum>t \<leftarrow> ts. f (a t) + f (b t) :: nat)"
  by (induction ts) simp_all

lemma sum_slots: "sum_list (map f slots) = (\<Sum>t \<leftarrow> [0..<ME_MAX_TICKERS]. f (t, sideToIndex BUY) + f (t, sideToIndex SELL) :: nat)"
  unfolding slots_def by (rule sum_two)

lemma link_lengths:
  assumes "wired so om reqs resps L" and "trading_slot k"
  shows "length (slot_requests k reqs) \<le> 2"
    "length (slot_responses so k resps) \<le> 2 + (if working (get_order k om) then unat (om_qty (get_order k om)) else 0)"
  using link_length [OF wired_link [OF assms]] by blast+

lemma requests_fit:
  assumes w: "wired so om reqs resps L"
  shows "length reqs \<le> 4 * ME_MAX_TICKERS"
proof -
  have "length reqs \<le> (\<Sum>k \<leftarrow> slots. length (filter (\<lambda>r. rq_slot r = k) reqs))"
    by (rule length_by_class) (use w in \<open>simp add: wired_def trading_slots\<close>)
  also have "\<dots> \<le> (\<Sum>k \<leftarrow> slots. 2)"
    by (rule sum_list_mono) (use link_lengths(1) [OF w] in \<open>simp add: trading_slots slot_requests_def\<close>)
  also have "\<dots> = 4 * ME_MAX_TICKERS" unfolding sum_slots by (simp add: sum_list_triv)
  finally show ?thesis .
qed

lemma exposed_quantity:
  assumes "exposed l n t om" and "sized m t om"
  shows "(if working (get_order (t, sideToIndex BUY) om) then unat (om_qty (get_order (t, sideToIndex BUY) om)) else 0) +
    (if working (get_order (t, sideToIndex SELL) om) then unat (om_qty (get_order (t, sideToIndex SELL) om)) else 0) \<le> 2 * nat (min l m)"
proof -
  let ?b = "get_order (t, sideToIndex BUY) om" and ?s = "get_order (t, sideToIndex SELL) om"
  have i: "uint q = int (unat q)" for q :: Qty by simp
  have "\<bar>n\<bar> \<le> l" "working ?b \<longrightarrow> n + int (unat (om_qty ?b)) \<le> l" "working ?s \<longrightarrow> - l \<le> n - int (unat (om_qty ?s))"
    using assms(1) unfolding exposed_def i by blast+
  moreover have "working ?b \<longrightarrow> int (unat (om_qty ?b)) \<le> m" "working ?s \<longrightarrow> int (unat (om_qty ?s)) \<le> m"
    using assms(2) unfolding sized_def i by blast+
  ultimately show ?thesis by (cases "working ?b"; cases "working ?s"; simp del: sideToIndex_simps; linarith)
qed

lemma responses_fit:
  assumes w: "wired so om reqs resps L" and e: "\<And>t. t < ME_MAX_TICKERS \<Longrightarrow> exposed (l t) (n t) t om \<and> sized (m t) t om"
  shows "length resps \<le> (\<Sum>t \<leftarrow> [0..<ME_MAX_TICKERS]. 4 + 2 * nat (min (l t) (m t)))"
proof -
  let ?q = "\<lambda>k. if working (get_order k om) then unat (om_qty (get_order k om)) else 0"
  have "length resps \<le> (\<Sum>k \<leftarrow> slots. length (filter (\<lambda>r. reply_slot so r = k) resps))"
    by (rule length_by_class) (use w in \<open>simp add: wired_def trading_slots\<close>)
  also have "\<dots> \<le> (\<Sum>k \<leftarrow> slots. 2 + ?q k)"
    by (rule sum_list_mono) (use link_lengths(2) [OF w] in \<open>simp add: trading_slots slot_responses_def\<close>)
  also have "\<dots> \<le> (\<Sum>t \<leftarrow> [0..<ME_MAX_TICKERS]. 4 + 2 * nat (min (l t) (m t)))"
    unfolding sum_slots by (rule sum_list_mono) (use exposed_quantity [OF e [THEN conjunct1] e [THEN conjunct2]] in \<open>fastforce simp del: sideToIndex_simps\<close>)
  finally show ?thesis .
qed

lemma push_all_fits:
  assumes "lfq_inv q" and "length (store q) = n" and "length (lfq_list q @ vs) \<le> n"
  shows "lfq_list (fold lfq_push vs q) = lfq_list q @ vs" "lfq_inv (fold lfq_push vs q)" "length (store (fold lfq_push vs q)) = n"
proof -
  have "length vs \<le> lfq_room q" using assms(2,3) by (simp add: lfq_room_def)
  from lfq.push_all [OF assms(1) this] show "lfq_list (fold lfq_push vs q) = lfq_list q @ vs" "lfq_inv (fold lfq_push vs q)" by blast+
  show "length (store (fold lfq_push vs q)) = n" using assms(2) by (induction vs arbitrary: q) simp_all
qed

subsection \<open>The engine's handlers\<close>

text \<open>What a market update does to the orders and the queues.\<close>

definition moved :: "ClientId \<Rightarrow> order_manager \<Rightarrow> order_manager \<Rightarrow> bool" where
  "moved c om om' \<longleftrightarrow> om' = om \<or> (\<exists>check tk bid ask q. moveOrders check c tk bid ask q om = Inr om')"

definition engine_turn :: "trade_engine \<Rightarrow> trade_engine \<Rightarrow> bool" where
  "engine_turn e e' \<longleftrightarrow> (\<exists>om. moved (te_client_id e) (te_orders e) om \<and> te_client_id e' = te_client_id e \<and> te_orders e' = om\<lparr>om_requests := []\<rparr> \<and>
     outgoing_ogw_requests e' = fold lfq_push (om_requests om) (outgoing_ogw_requests e) \<and>
     incoming_ogw_responses e' = incoming_ogw_responses e)"

lemma te_set_orders_queues [simp]:
  "outgoing_ogw_requests (te_set_orders om e) = fold lfq_push (om_requests om) (outgoing_ogw_requests e)"
  "incoming_ogw_responses (te_set_orders om e) = incoming_ogw_responses e"
proof -
  have "outgoing_ogw_requests (fold te_sendClientRequest rs e) = fold lfq_push rs (outgoing_ogw_requests e)" for rs e
    by (induction rs arbitrary: e) (simp_all add: te_sendClientRequest_def)
  then show "outgoing_ogw_requests (te_set_orders om e) = fold lfq_push (om_requests om) (outgoing_ogw_requests e)"
    "incoming_ogw_responses (te_set_orders om e) = incoming_ogw_responses e" by (simp_all add: te_set_orders_def)
qed

lemma engine_turn_same:
  assumes "om_requests (te_orders e) = []"
  shows "engine_turn e e"
proof -
  have "te_orders e = (te_orders e)\<lparr>om_requests := []\<rparr>" using assms by (intro order_manager.equality) simp_all
  then show ?thesis unfolding engine_turn_def using assms by (intro exI [of _ "te_orders e"]) (simp add: moved_def)
qed

lemma te_moveOrders_turn:
  assumes "om_requests (te_orders e) = []" and "te_moveOrders q e = Inr e'"
  shows "engine_turn e e'"
proof (cases q)
  case None
  then show ?thesis using assms engine_turn_same by (simp add: te_moveOrders_def)
next
  case (Some q')
  then obtain om where "moveOrders (checkPreTradeRisk (te_risk e) (te_positions e)) (te_client_id e) (q_ticker q') (q_bid q') (q_ask q')
      (q_clip q') (te_orders e) = Inr om" "e' = te_set_orders om e"
    using assms(2) by (auto simp: te_moveOrders_def res_simps)
  then show ?thesis unfolding engine_turn_def moved_def by (intro exI [of _ om]) auto
qed

lemma engine_turn_cong:
  "te_orders e1 = te_orders e \<Longrightarrow> te_client_id e1 = te_client_id e \<Longrightarrow> outgoing_ogw_requests e1 = outgoing_ogw_requests e \<Longrightarrow>
   incoming_ogw_responses e1 = incoming_ogw_responses e \<Longrightarrow> engine_turn e1 e' = engine_turn e e'"
  by (simp add: engine_turn_def)

lemma te_update_turn:
  assumes r: "om_requests (te_orders e) = []" and m: "te_onMarketUpdate u e = Inr e'"
  shows "engine_turn e e'"
proof -
  obtain ev b where ev: "onMarketUpdate u (te_books e ! unat (mu_ticker_id u)) = Inr (ev, b)"
    using m by (auto simp: te_onMarketUpdate_def res_simps split: prod.splits)
  let ?e1 = "e\<lparr>te_books := (te_books e)[unat (mu_ticker_id u) := b]\<rparr>"
  show ?thesis
  proof (cases ev)
    case (OnTradeUpdate v)
    let ?e2 = "?e1\<lparr>te_features := fe_onTradeUpdate v (bbo b) (te_features ?e1)\<rparr>"
    have "algoOnTradeUpdate v (bbo b) ?e2 = Inr e'"
      using m ev OnTradeUpdate by (auto simp: te_onMarketUpdate_def te_onTradeUpdate_def Let_def res_simps)
    then have "engine_turn ?e2 e'" using te_moveOrders_turn [of ?e2] engine_turn_same [of ?e2] r
      by (auto simp: algoOnTradeUpdate_def res_simps split: if_splits)
    then show ?thesis by (subst (asm) engine_turn_cong [of _ e]) simp_all
  next
    case (OnOrderBookUpdate tk price side)
    then obtain pk where pk:
      "algoOnOrderBookUpdate tk (bbo b) (?e1\<lparr>te_positions := pk, te_features := fe_onOrderBookUpdate (bbo b) (te_features ?e1)\<rparr>) = Inr e'"
      using m ev by (auto simp: te_onMarketUpdate_def te_onOrderBookUpdate_def Let_def res_simps)
    let ?e2 = "?e1\<lparr>te_positions := pk, te_features := fe_onOrderBookUpdate (bbo b) (te_features ?e1)\<rparr>"
    have "engine_turn ?e2 e'" using te_moveOrders_turn [of ?e2] engine_turn_same [of ?e2] r pk
      by (auto simp: algoOnOrderBookUpdate_def res_simps split: if_splits)
    then show ?thesis by (subst (asm) engine_turn_cong [of _ e]) simp_all
  qed
qed

lemma te_response_orders:
  assumes a: "te_algo e = MAKER \<or> te_algo e = TAKER" and m: "te_onOrderUpdate r e = Inr e'"
  shows "\<exists>om. om_onOrderUpdate r (te_orders e) = Inr om \<and> te_orders e' = om\<lparr>om_requests := []\<rparr> \<and>
     outgoing_ogw_requests e' = fold lfq_push (om_requests om) (outgoing_ogw_requests e) \<and>
     incoming_ogw_responses e' = incoming_ogw_responses e \<and> te_client_id e' = te_client_id e"
proof -
  obtain e1 where e1: "(if rs_type r = FILLED then bindE (pk_addFill r (te_positions e)) (\<lambda>pk. Inr (e\<lparr>te_positions := pk\<rparr>)) else Inr e) = Inr e1"
    "algoOnOrderUpdate r e1 = Inr e'"
    using m by (auto simp: te_onOrderUpdate_def res_simps)
  have "te_orders e1 = te_orders e \<and> te_algo e1 = te_algo e \<and> outgoing_ogw_requests e1 = outgoing_ogw_requests e \<and>
      incoming_ogw_responses e1 = incoming_ogw_responses e \<and> te_client_id e1 = te_client_id e"
    using e1(1) by (auto simp: res_simps split: if_splits)
  then show ?thesis using e1(2) a by (auto simp: algoOnOrderUpdate_def res_simps)
qed

subsection \<open>Engine and queues\<close>

definition queue_ok :: "'a lf_queue \<Rightarrow> bool" where
  "queue_ok q \<longleftrightarrow> lfq_inv q \<and> length (store q) = ME_MAX_CLIENT_UPDATES"

text \<open>What the limits may leave on its way to the engine.\<close>

definition most_responses :: "trade_engine \<Rightarrow> nat" where
  "most_responses e = (\<Sum>t \<leftarrow> [0..<ME_MAX_TICKERS]. 4 + 2 * nat (min (te_limit t e) (te_size t e)))"

lemma safe_responses_fit:
  assumes "te_safe e" and "wired so (te_orders e) reqs resps L"
  shows "length resps \<le> most_responses e"
  unfolding most_responses_def
  by (rule responses_fit [OF assms(2), where n = "\<lambda>t. te_position t e"]) (use assms(1) in \<open>simp add: te_safe_def\<close>)

lemma requests_room: "4 * ME_MAX_TICKERS \<le> ME_MAX_CLIENT_UPDATES"
  by (simp add: ME_MAX_TICKERS_def ME_MAX_CLIENT_UPDATES_def)

lemma push_queue_ok:
  assumes "queue_ok q" and "length (lfq_list q @ vs) \<le> ME_MAX_CLIENT_UPDATES"
  shows "lfq_list (fold lfq_push vs q) = lfq_list q @ vs \<and> queue_ok (fold lfq_push vs q)"
  using push_all_fits [of q ME_MAX_CLIENT_UPDATES vs] assms by (simp add: queue_ok_def)

lemma take_queue_ok:
  assumes "queue_ok q" and "getNextToRead q = Some v"
  shows "\<exists>q' vs. lfq_list q = v # vs \<and> updateReadIndex q = Inr q' \<and> lfq_list q' = vs \<and> queue_ok q'"
proof -
  have i: "lfq_inv q" "length (store q) = ME_MAX_CLIENT_UPDATES" using assms(1) by (simp_all add: queue_ok_def)
  obtain vs where vs: "lfq_list q = v # vs" using assms(2) getNextToRead_list [OF i(1)] by (cases "lfq_list q") simp_all
  then show ?thesis using updateReadIndex_ok [OF i(1)] i(2) by (auto simp: queue_ok_def)
qed

lemma most_responses_cong: "te_risk e' = te_risk e \<Longrightarrow> most_responses e' = most_responses e"
  by (simp add: most_responses_def te_limit_def te_size_def)

lemma limits_cong: "te_risk e' = te_risk e \<Longrightarrow> te_limit t e' = te_limit t e"
  by (simp add: te_limit_def)

text \<open>Behind the engine's queues more may be on its way: the requests \<open>A\<close> and the responses \<open>B\<close>.\<close>

definition engine_wired ::
  "(OrderId \<Rightarrow> slot) \<Rightarrow> nat \<Rightarrow> trade_engine \<Rightarrow> MEClientRequest list \<Rightarrow> MEClientResponse list \<Rightarrow> standing \<Rightarrow> bool" where
  "engine_wired so n e A B L \<longleftrightarrow> te_safe e \<and> om_requests (te_orders e) = [] \<and>
     queue_ok (outgoing_ogw_requests e) \<and> queue_ok (incoming_ogw_responses e) \<and>
     most_responses e \<le> ME_MAX_CLIENT_UPDATES \<and> unat (next_order_id (te_orders e)) \<le> n \<and>
     (\<forall>r \<in> set (A @ lfq_list (outgoing_ogw_requests e)). rq_client_id r = te_client_id e) \<and>
     wired so (te_orders e) (A @ lfq_list (outgoing_ogw_requests e)) (lfq_list (incoming_ogw_responses e) @ B) L"

definition same_engine :: "trade_engine \<Rightarrow> trade_engine \<Rightarrow> bool" where
  "same_engine e e' \<longleftrightarrow> te_risk e' = te_risk e \<and> te_client_id e' = te_client_id e"

lemma moveOrder_client:
  "moveOrder check c k tk px side q om = Inr om' \<Longrightarrow> r \<in> set (om_requests om') \<Longrightarrow> r \<in> set (om_requests om) \<or> rq_client_id r = c"
  by (auto simp: moveOrder_def newOrder_def cancelOrder_def Let_def res_simps split: OMOrderState.splits if_splits)

lemma moved_client:
  assumes "moved c om om'" and "r \<in> set (om_requests om')"
  shows "r \<in> set (om_requests om) \<or> rq_client_id r = c"
proof (cases "om' = om")
  case False
  then obtain check tk bid ask q where m: "moveOrders check c tk bid ask q om = Inr om'" using assms(1) by (auto simp: moved_def)
  have t: "unat tk < ME_MAX_TICKERS" using m order_slot_out [of tk BUY] by (cases "unat tk < ME_MAX_TICKERS") (auto simp: moveOrders_def)
  from m obtain om1 where "moveOrder check c (unat tk, sideToIndex BUY) tk bid BUY q om = Inr om1"
    "moveOrder check c (unat tk, sideToIndex SELL) tk ask SELL q om1 = Inr om'"
    by (auto simp: moveOrders_def order_slot_in [OF t] res_simps simp del: sideToIndex_simps)
  then show ?thesis using moveOrder_client assms(2) by blast
qed (use assms(2) in simp)

text \<open>The engine's steps.\<close>

lemma engine_update:
  assumes inv: "engine_wired so n e A B L" and n: "n + 2 < 2 ^ 64" and m: "te_onMarketUpdate u e = Inr e'"
  shows "(\<exists>so'. engine_wired so' (n + 2) e' A B L) \<and> same_engine e e'"
proof -
  let ?R = "lfq_list (outgoing_ogw_requests e)" and ?S = "lfq_list (incoming_ogw_responses e)"
  have i: "te_safe e" "om_requests (te_orders e) = []" "queue_ok (outgoing_ogw_requests e)"
    "queue_ok (incoming_ogw_responses e)" "most_responses e \<le> ME_MAX_CLIENT_UPDATES" "unat (next_order_id (te_orders e)) \<le> n"
    "\<forall>r \<in> set (A @ ?R). rq_client_id r = te_client_id e" and so: "wired so (te_orders e) (A @ ?R) (?S @ B) L"
    using inv by (simp_all add: engine_wired_def)
  from te_update_safe [OF i(1) m] have safe: "te_safe e'" "te_risk e' = te_risk e" by simp_all
  obtain om where om: "moved (te_client_id e) (te_orders e) om" "te_client_id e' = te_client_id e" "te_orders e' = om\<lparr>om_requests := []\<rparr>"
    "outgoing_ogw_requests e' = fold lfq_push (om_requests om) (outgoing_ogw_requests e)"
    "incoming_ogw_responses e' = incoming_ogw_responses e" using te_update_turn [OF i(2) m] unfolding engine_turn_def by blast
  have w0: "wired so (te_orders e) ((A @ ?R) @ om_requests (te_orders e)) (?S @ B) L" using so i(2) by simp
  obtain so' where so': "wired so' om ((A @ ?R) @ om_requests om) (?S @ B) L" "unat (next_order_id om) \<le> n + 2"
  proof (cases "om = te_orders e")
    case True
    then show ?thesis using that [of so] w0 i(6) by simp
  next
    case False
    then obtain check tk bid ask q where mv: "moveOrders check (te_client_id e) tk bid ask q (te_orders e) = Inr om"
      using om(1) by (auto simp: moved_def)
    have "unat (next_order_id (te_orders e)) + 2 < 2 ^ 64" using i(6) n by linarith
    from wired_moveOrders [OF w0 mv this] that i(6) show ?thesis by (meson add_le_mono1 order_trans)
  qed
  have q: "lfq_list (outgoing_ogw_requests e') = ?R @ om_requests om \<and> queue_ok (outgoing_ogw_requests e')"
    unfolding om(4) by (rule push_queue_ok [OF i(3)]) (use requests_fit [OF so'(1)] requests_room in simp)
  have "\<forall>r \<in> set (om_requests om). rq_client_id r = te_client_id e" using moved_client [OF om(1)] i(2) by auto
  then show ?thesis using safe i q so' om(2,3,5) most_responses_cong [OF safe(2)]
    by (auto simp: engine_wired_def same_engine_def wired_clear)
qed

lemma engine_response:
  assumes inv: "engine_wired so n e A B L"
  shows "\<exists>e'. te_response_step e = Inr e' \<and> engine_wired so n e' A B L \<and> same_engine e e'"
proof (cases "getNextToRead (incoming_ogw_responses e)")
  case None
  then show ?thesis using inv by (simp add: te_response_step_def same_engine_def)
next
  case (Some r)
  let ?R = "A @ lfq_list (outgoing_ogw_requests e)"
  have i: "te_safe e" "om_requests (te_orders e) = []" "queue_ok (incoming_ogw_responses e)" "te_algo e = MAKER \<or> te_algo e = TAKER"
    using inv by (simp_all add: engine_wired_def te_safe_def)
  obtain q' vs where q': "lfq_list (incoming_ogw_responses e) = r # vs" "updateReadIndex (incoming_ogw_responses e) = Inr q'"
    "lfq_list q' = vs" "queue_ok q'" using take_queue_ok [OF i(3) Some] by blast
  have so: "wired so (te_orders e) ?R (r # vs @ B) L" using inv q'(1) by (simp add: engine_wired_def)
  have t: "unat (rs_ticker_id r) < ME_MAX_TICKERS" using wired_reply [OF so, of r] by simp
  obtain e1 where e1: "te_onOrderUpdate r e = Inr e1" using te_response_never_fails [OF i(1) t] by blast
  obtain om where om: "om_onOrderUpdate r (te_orders e) = Inr om" "te_orders e1 = om\<lparr>om_requests := []\<rparr>"
    "outgoing_ogw_requests e1 = fold lfq_push (om_requests om) (outgoing_ogw_requests e)"
    "incoming_ogw_responses e1 = incoming_ogw_responses e" "te_client_id e1 = te_client_id e" using te_response_orders [OF i(4) e1] by blast
  note w = wired_response [OF so om(1)]
  from te_response_safe [OF i(1) w(2) e1] have safe: "te_safe e1" "te_risk e1 = te_risk e" by simp_all
  have o: "om_requests om = []" "next_order_id om = next_order_id (te_orders e)" using om_after_response [OF om(1)] i(2) by simp_all
  let ?e2 = "e1\<lparr>incoming_ogw_responses := q'\<rparr>"
  have "te_response_step e = Inr ?e2" using Some e1 q'(2) om(4) by (simp add: te_response_step_def)
  moreover have "te_safe ?e2" using safe(1) by (rule te_safe_cong) simp_all
  moreover have "most_responses ?e2 = most_responses e" by (rule most_responses_cong) (simp add: safe(2))
  ultimately show ?thesis using inv q' w(1) om(2,3,5) o safe(2) by (auto simp: engine_wired_def same_engine_def wired_clear)
qed

text \<open>The other party's steps. The queues pass on what is in them, and what it answers fits.\<close>

lemma engine_delivered:
  assumes inv: "engine_wired so n e A B L" and q: "queue_ok q"
    and c: "set (A' @ lfq_list q) \<subseteq> set (A @ lfq_list (outgoing_ogw_requests e))"
    and w: "wired so (te_orders e) (A' @ lfq_list q) (lfq_list (incoming_ogw_responses e) @ out @ B') L'"
  defines "e' \<equiv> e\<lparr>outgoing_ogw_requests := q, incoming_ogw_responses := fold lfq_push out (incoming_ogw_responses e)\<rparr>"
  shows "engine_wired so n e' A' B' L'" "same_engine e e'"
proof -
  let ?q = "incoming_ogw_responses e"
  have i: "te_safe e" "queue_ok ?q" "most_responses e \<le> ME_MAX_CLIENT_UPDATES" using inv by (simp_all add: engine_wired_def)
  have "lfq_list (fold lfq_push out ?q) = lfq_list ?q @ out \<and> queue_ok (fold lfq_push out ?q)"
    by (rule push_queue_ok [OF i(2)]) (use safe_responses_fit [OF i(1) w] i(3) in simp)
  moreover have "te_safe e'" using i(1) by (rule te_safe_cong) (simp_all add: e'_def)
  moreover have "most_responses e' = most_responses e" by (rule most_responses_cong) (simp add: e'_def)
  ultimately show "engine_wired so n e' A' B' L'" using inv q c w by (auto simp: engine_wired_def e'_def)
  show "same_engine e e'" by (simp add: same_engine_def e'_def)
qed

lemma engine_wired_more: "engine_wired so n e A B L \<Longrightarrow> n \<le> m \<Longrightarrow> engine_wired so m e A B L"
  by (auto simp: engine_wired_def)

lemma queue_ok_new: "queue_ok (lfq_new ME_MAX_CLIENT_UPDATES z)"
  by (simp add: queue_ok_def ME_MAX_CLIENT_UPDATES_def) (simp add: lfq_new_def)

lemma engine_wired_new:
  assumes "te_safe e" and "te_orders e = order_manager_new" and "most_responses e \<le> ME_MAX_CLIENT_UPDATES"
    and "outgoing_ogw_requests e = lfq_new ME_MAX_CLIENT_UPDATES x" and "incoming_ogw_responses e = lfq_new ME_MAX_CLIENT_UPDATES y"
  shows "engine_wired so 1 e [] [] []"
proof -
  have "wired so order_manager_new [] [] []"
    by (simp add: wired_def order_manager_new_def get_order_def OMOrder_default_def link_def working_def)
  then show ?thesis using assms by (simp add: engine_wired_def queue_ok_new) (simp add: order_manager_new_def)
qed

text \<open>What follows in every state.\<close>

lemma engine_wired_limit:
  assumes "engine_wired so n e A B L" and "t < ME_MAX_TICKERS"
  shows "\<bar>sint (position (te_positions e ! t))\<bar> \<le> te_limit t e"
proof -
  have "exposed (te_limit t e) (te_position t e) t (te_orders e)" using assms by (simp add: engine_wired_def te_safe_def)
  from exposed_limit [OF this] show ?thesis by (simp add: te_position_def)
qed

lemma engine_wired_fits:
  assumes "engine_wired so n e A B L"
  shows "length A + lfq_size (outgoing_ogw_requests e) \<le> 4 * ME_MAX_TICKERS" "lfq_size (incoming_ogw_responses e) + length B \<le> most_responses e"
proof -
  have w: "wired so (te_orders e) (A @ lfq_list (outgoing_ogw_requests e)) (lfq_list (incoming_ogw_responses e) @ B) L" "te_safe e"
    using assms by (simp_all add: engine_wired_def)
  show "length A + lfq_size (outgoing_ogw_requests e) \<le> 4 * ME_MAX_TICKERS" using requests_fit [OF w(1)] by (simp add: lfq_size_def)
  show "lfq_size (incoming_ogw_responses e) + length B \<le> most_responses e" using safe_responses_fit [OF w(2,1)] by (simp add: lfq_size_def)
qed

text \<open>
  Nothing on its way: the engine's working orders are live and exactly those that stand, quantities included, except
  that of an order of quantity 0 nothing need stand.
\<close>

definition agrees :: "OMOrder \<Rightarrow> (OrderId \<times> Qty) list \<Rightarrow> bool" where
  "agrees x p \<longleftrightarrow> (if working x then order_state x = LIVE \<and> p = [(om_order_id x, om_qty x)] \<or> om_qty x = 0 \<and> p = [] else p = [])"

lemma link_drained: "link x [] [] p \<Longrightarrow> agrees x p"
  by (cases "order_state x") (auto simp: link_def stale_def ended_def working_def agrees_def)

lemma engine_wired_drained:
  assumes inv: "engine_wired so n e [] [] L" and q: "lfq_size (outgoing_ogw_requests e) = 0" "lfq_size (incoming_ogw_responses e) = 0"
    and k: "trading_slot k"
  shows "agrees (get_order k (te_orders e)) (slot_standing k L)"
proof -
  have "lfq_list (outgoing_ogw_requests e) = []" "lfq_list (incoming_ogw_responses e) = []" using q by (simp_all add: lfq_size_def lfq_list_def)
  then have "wired so (te_orders e) [] [] L" using inv by (simp add: engine_wired_def)
  from link_drained [of _ "slot_standing k L"] wired_link [OF this k] show ?thesis by simp
qed

end
