(* ===== verification/Mains.thy ===== *)
theory Mains
  imports TradeEngine FillSimulator Replay
begin

text \<open>
  The command lines: \<open>parseArgs\<close> and the set-up and drain loop of \<open>backtest/backtest_main.cpp\<close>, the ticker
  configuration that \<open>trading/trading_main.cpp\<close> reads from its arguments, and how it waits for the trade engine.

  \<^item> A program that stops while it reads its arguments is a value of \<open>start_error\<close>: \<open>std::exit\<close> with its message, an
    exception of \<open>std::stoul\<close>, \<open>std::stoll\<close> or \<open>std::array::at\<close> that nobody catches, or undefined behaviour.
  \<^item> \<open>std::stoul\<close>, \<open>std::stoll\<close> and \<open>std::atoi\<close> are written out: leading white space, a sign, the longest run of digits,
    the range. The readers of \<open>double\<close> values, \<open>std::stod\<close> and \<open>std::atof\<close>, are arguments.
  \<^item> What is shown: the options are read back as written, incomplete and oversized command lines stop, and a backtest
    whose \<open>--clip\<close> is above 100 never trades.
\<close>

datatype start_error =
    MissingValue string
  | UnknownArg string
  | NoData
  | InvalidArgument     \<comment> \<open>\<open>std::invalid_argument\<close>: no number\<close>
  | NumberOutOfRange    \<comment> \<open>\<open>std::out_of_range\<close> of a conversion\<close>
  | TickerOutOfRange    \<comment> \<open>\<open>std::out_of_range\<close> of \<open>std::array::at\<close>\<close>
  | UnknownAlgo string
  | UnknownFillMode string
  | UnknownDataFormat string
  | Undefined           \<comment> \<open>\<open>argv\<close> read past its end, or \<open>atoi\<close> of a number that is no \<open>int\<close>\<close>

subsection \<open>Numbers\<close>

definition is_space :: "char \<Rightarrow> bool" where
  "is_space c \<longleftrightarrow> (of_char c :: nat) = 32 \<or> 9 \<le> (of_char c :: nat) \<and> (of_char c :: nat) \<le> 13"

text \<open>Sign and digits of what follows the white space.\<close>

definition scan_number :: "string \<Rightarrow> bool \<times> string" where
  "scan_number s =
     (let t = dropWhile is_space s;
          neg = (t \<noteq> [] \<and> hd t = CHR ''-'');
          u = (if t \<noteq> [] \<and> (hd t = CHR ''-'' \<or> hd t = CHR ''+'') then tl t else t) in
      (neg, takeWhile is_digit u))"

definition stoul :: "string \<Rightarrow> start_error + 64 word" where
  "stoul s =
     (case scan_number s of (neg, ds) \<Rightarrow>
      if ds = [] then Inl InvalidArgument
      else if 2 ^ 64 \<le> digits_value ds then Inl NumberOutOfRange
      else Inr (if neg then - word_of_nat (digits_value ds) else word_of_nat (digits_value ds)))"

definition signed_value :: "bool \<times> string \<Rightarrow> int" where
  "signed_value x = (if fst x then - int (digits_value (snd x)) else int (digits_value (snd x)))"

definition stoll :: "string \<Rightarrow> start_error + int" where
  "stoll s =
     (if snd (scan_number s) = [] then Inl InvalidArgument
      else if signed_value (scan_number s) < - (2 ^ 63) \<or> 2 ^ 63 \<le> signed_value (scan_number s) then Inl NumberOutOfRange
      else Inr (signed_value (scan_number s)))"

definition atoi :: "string \<Rightarrow> start_error + int" where
  "atoi s =
     (if - (2 ^ 31) \<le> signed_value (scan_number s) \<and> signed_value (scan_number s) < 2 ^ 31
      then Inr (signed_value (scan_number s)) else Inl Undefined)"

definition map_res :: "('a \<Rightarrow> 'b) \<Rightarrow> 'e + 'a \<Rightarrow> 'e + 'b" where
  "map_res f x = (case x of Inl e \<Rightarrow> Inl e | Inr a \<Rightarrow> Inr (f a))"

lemma map_res_simps [simp]: "map_res f (Inl e) = Inl e" "map_res f (Inr a) = Inr (f a)"
  by (simp_all add: map_res_def)

subsection \<open>\<open>parseArgs\<close>\<close>

record Args =
  data_format :: string
  data_path :: string
  arg_ticker_id :: TickerId
  arg_clip :: Qty
  arg_threshold :: double
  arg_max_order_size :: Qty
  arg_max_position :: Qty
  arg_max_loss :: double
  equity_csv :: string
  arg_algo :: string
  fill_mode :: string
  arg_base_price :: Price

definition Args_default :: Args where
  "Args_default = \<lparr>data_format = ''lobster'', data_path = [], arg_ticker_id = 0, arg_clip = 10, arg_threshold = Fin (1 / 2),
     arg_max_order_size = 100, arg_max_position = 1000, arg_max_loss = Fin (- 100000),
     equity_csv = ''benchmarks/backtest/lobster/equity.csv'', arg_algo = ''taker'', fill_mode = ''auto'', arg_base_price = 0\<rparr>"

text \<open>One option and its value: \<open>None\<close> when there is no such option.\<close>

definition set_option :: "(string \<Rightarrow> start_error + double) \<Rightarrow> string \<Rightarrow> (string \<Rightarrow> Args \<Rightarrow> start_error + Args) option" where
  "set_option stod arg =
     (if arg = ''--data-format'' then Some (\<lambda>v a. Inr (a\<lparr>data_format := v\<rparr>))
      else if arg = ''--data'' then Some (\<lambda>v a. Inr (a\<lparr>data_path := v\<rparr>))
      else if arg = ''--ticker'' then Some (\<lambda>v a. map_res (\<lambda>n. a\<lparr>arg_ticker_id := ucast n\<rparr>) (stoul v))
      else if arg = ''--clip'' then Some (\<lambda>v a. map_res (\<lambda>n. a\<lparr>arg_clip := ucast n\<rparr>) (stoul v))
      else if arg = ''--threshold'' then Some (\<lambda>v a. map_res (\<lambda>d. a\<lparr>arg_threshold := d\<rparr>) (stod v))
      else if arg = ''--max-pos'' then Some (\<lambda>v a. map_res (\<lambda>n. a\<lparr>arg_max_position := ucast n\<rparr>) (stoul v))
      else if arg = ''--equity-csv'' then Some (\<lambda>v a. Inr (a\<lparr>equity_csv := v\<rparr>))
      else if arg = ''--base-price'' then Some (\<lambda>v a. map_res (\<lambda>p. a\<lparr>arg_base_price := p\<rparr>) (stoll v))
      else if arg = ''--algo'' then Some (\<lambda>v a. Inr (a\<lparr>arg_algo := v\<rparr>))
      else if arg = ''--fill-mode'' then Some (\<lambda>v a. Inr (a\<lparr>fill_mode := v\<rparr>))
      else None)"

fun parse_options :: "(string \<Rightarrow> start_error + double) \<Rightarrow> string list \<Rightarrow> Args \<Rightarrow> start_error + Args" where
  "parse_options stod [] a = Inr a"
| "parse_options stod [arg] a = Inl (if set_option stod arg = None then UnknownArg arg else MissingValue arg)"
| "parse_options stod (arg # v # rest) a =
     (case set_option stod arg of
        None \<Rightarrow> Inl (UnknownArg arg)
      | Some f \<Rightarrow> (case f v a of Inl e \<Rightarrow> Inl e | Inr a1 \<Rightarrow> parse_options stod rest a1))"

definition parseArgs :: "(string \<Rightarrow> start_error + double) \<Rightarrow> string list \<Rightarrow> start_error + Args" where
  "parseArgs stod argv =
     (case parse_options stod (tl argv) Args_default of
        Inl e \<Rightarrow> Inl e
      | Inr a \<Rightarrow> if data_path a = [] then Inl NoData else Inr a)"

subsection \<open>The set-up of the backtest\<close>

record backtest_setup =
  bt_cfg :: "nat \<Rightarrow> TradeEngineCfg"
  bt_base_prices :: "nat \<Rightarrow> Price"
  bt_algo :: AlgoType
  bt_fill_mode :: FillMode
  bt_lobster :: bool
  bt_tee :: bool

definition backtest_main :: "Args \<Rightarrow> start_error + backtest_setup" where
  "backtest_main a =
     (let t = unat (arg_ticker_id a) in
      if \<not> t < ME_MAX_TICKERS then Inl TickerOutOfRange
      else if arg_algo a \<noteq> ''taker'' \<and> arg_algo a \<noteq> ''maker'' then Inl (UnknownAlgo (arg_algo a))
      else if fill_mode a \<noteq> ''auto'' \<and> fill_mode a \<noteq> ''queue-aware'' \<and> fill_mode a \<noteq> ''aggressive''
      then Inl (UnknownFillMode (fill_mode a))
      else if data_format a \<noteq> ''lobster'' \<and> data_format a \<noteq> ''binance-aggtrades'' then Inl (UnknownDataFormat (data_format a))
      else
        (let mode = (if fill_mode a = ''auto'' then (if data_format a = ''lobster'' then QUEUE_AWARE else AGGRESSIVE_ONLY)
                     else if fill_mode a = ''queue-aware'' then QUEUE_AWARE else AGGRESSIVE_ONLY) in
         Inr \<lparr>bt_cfg = (\<lambda>_. default_cfg)(t := \<lparr>clip = arg_clip a, threshold = arg_threshold a,
                 risk_cfg = \<lparr>max_order_size = arg_max_order_size a, max_position = arg_max_position a, max_loss = arg_max_loss a\<rparr>\<rparr>),
              bt_base_prices = (\<lambda>_. 0)(t := arg_base_price a),
              bt_algo = (if arg_algo a = ''taker'' then TAKER else MAKER),
              bt_fill_mode = mode, bt_lobster = (data_format a = ''lobster''), bt_tee = (mode = QUEUE_AWARE)\<rparr>))"

definition backtest_engine ::
  "backtest_setup \<Rightarrow> (nat \<Rightarrow> OrderId \<Rightarrow> nat option) \<Rightarrow> (nat \<Rightarrow> nat \<Rightarrow> nat option) \<Rightarrow> (nat \<Rightarrow> nat \<Rightarrow> double) \<Rightarrow> trade_engine" where
  "backtest_engine s = trade_engine_new 1 (bt_algo s) (bt_cfg s) (bt_base_prices s)"

text \<open>
  The drain loop on what it sees of the queues, one sum of their sizes per round: the rounds it takes, if the
  observations given let it end.
\<close>

fun drain_rounds :: "nat \<Rightarrow> nat list \<Rightarrow> nat option" where
  "drain_rounds idle_iters [] = (if idle_iters < 20 then None else Some 0)"
| "drain_rounds idle_iters (busy # obs) =
     (if idle_iters < 20 then map_option Suc (drain_rounds (if busy = 0 then idle_iters + 1 else 0) obs) else Some 0)"

subsection \<open>Waiting for the trade engine\<close>

text \<open>
  \<open>silentSeconds\<close>, a division that cuts towards 0; the loop of \<open>trading_main\<close> that waits for a minute without events, on
  the clock and the time of the last event as it reads them, once per round; and the loop of \<open>TradeEngine::stop\<close>, on the
  sizes of the two queues. The value is the number of rounds, if the observations given let the loop end.
\<close>

definition NANOS_TO_SECS :: int where "NANOS_TO_SECS = 1000000000"

definition silentSeconds :: "int \<Rightarrow> int \<Rightarrow> int" where
  "silentSeconds now last_event_time = sgn (now - last_event_time) * (\<bar>now - last_event_time\<bar> div NANOS_TO_SECS)"

fun wait_rounds :: "(int \<times> int) list \<Rightarrow> nat option" where
  "wait_rounds [] = None"
| "wait_rounds ((now, last_event_time) # obs) =
     (if silentSeconds now last_event_time < 60 then map_option Suc (wait_rounds obs) else Some 0)"

fun stop_rounds :: "(nat \<times> nat) list \<Rightarrow> nat option" where
  "stop_rounds [] = None"
| "stop_rounds ((responses, updates) # obs) =
     (if responses \<noteq> 0 \<or> updates \<noteq> 0 then map_option Suc (stop_rounds obs) else Some 0)"

lemma silentSeconds_minute: "silentSeconds now last_event_time < 60 \<longleftrightarrow> now - last_event_time < 60 * NANOS_TO_SECS"
proof (cases "0 \<le> now - last_event_time")
  case True
  then have "silentSeconds now last_event_time = (now - last_event_time) div NANOS_TO_SECS"
    by (cases "now = last_event_time") (simp_all add: silentSeconds_def)
  then show ?thesis by (simp add: NANOS_TO_SECS_def) linarith
next
  case False
  then have "silentSeconds now last_event_time \<le> 0"
    by (simp add: silentSeconds_def NANOS_TO_SECS_def pos_imp_zdiv_nonneg_iff)
  then show ?thesis using False by (simp add: NANOS_TO_SECS_def)
qed

text \<open>The engine is stopped at the first look at the clock after a minute of silence, and not before.\<close>

lemma wait_rounds_iff:
  "wait_rounds obs = Some k \<longleftrightarrow> k < length obs \<and> 60 * NANOS_TO_SECS \<le> fst (obs ! k) - snd (obs ! k) \<and>
     (\<forall>j < k. fst (obs ! j) - snd (obs ! j) < 60 * NANOS_TO_SECS)"
proof (induction obs arbitrary: k)
  case (Cons x obs)
  show ?case
  proof (cases k)
    case 0
    then show ?thesis by (cases x) (simp add: silentSeconds_minute not_less)
  next
    case (Suc i)
    then show ?thesis using Cons.IH [of i] by (cases x) (auto simp: silentSeconds_minute nth_Cons less_Suc_eq_0_disj split: nat.splits)
  qed
qed simp

lemma stop_rounds_iff:
  "stop_rounds obs = Some k \<longleftrightarrow> k < length obs \<and> obs ! k = (0, 0) \<and> (\<forall>j < k. obs ! j \<noteq> (0, 0))"
proof (induction obs arbitrary: k)
  case (Cons x obs)
  then show ?case by (cases x; cases k) (auto simp: less_Suc_eq_0_disj)
qed simp

subsection \<open>The tickers of \<open>trading_main\<close>\<close>

fun parse_tickers ::
  "(string \<Rightarrow> double) \<Rightarrow> string list \<Rightarrow> nat \<Rightarrow> (nat \<Rightarrow> TradeEngineCfg) \<Rightarrow> start_error + (nat \<Rightarrow> TradeEngineCfg)" where
  "parse_tickers atof [] next_ticker_id cfg = Inr cfg"
| "parse_tickers atof (c # th # os # mp # ml # rest) next_ticker_id cfg =
     (case (atoi c, atoi os, atoi mp) of
        (Inr c', Inr os', Inr mp') \<Rightarrow>
          if next_ticker_id < ME_MAX_TICKERS
          then parse_tickers atof rest (next_ticker_id + 1) (cfg(next_ticker_id :=
                 \<lparr>clip = word_of_int c', threshold = atof th,
                  risk_cfg = \<lparr>max_order_size = word_of_int os', max_position = word_of_int mp', max_loss = atof ml\<rparr>\<rparr>))
          else Inl TickerOutOfRange
      | _ \<Rightarrow> Inl Undefined)"
| "parse_tickers atof _ next_ticker_id cfg = Inl Undefined"

definition trading_main_cfg :: "(string \<Rightarrow> double) \<Rightarrow> string list \<Rightarrow> start_error + (nat \<Rightarrow> TradeEngineCfg)" where
  "trading_main_cfg atof argv = parse_tickers atof (drop 3 argv) 0 (\<lambda>_. default_cfg)"

subsection \<open>Printed numbers are read back\<close>

lemma digit_char_code: "d < 10 \<Longrightarrow> (of_char (digit_char d) :: nat) = 48 + d"
  by (simp add: digit_char_def)

lemma digit_char_class: "d < 10 \<Longrightarrow> is_digit (digit_char d)" "d < 10 \<Longrightarrow> \<not> is_space (digit_char d)"
  "d < 10 \<Longrightarrow> digit_char d \<noteq> CHR ''-''" "d < 10 \<Longrightarrow> digit_char d \<noteq> CHR ''+''"
  by (auto simp: is_digit_def is_space_def digit_char_code dest: arg_cong [where f = "of_char :: char \<Rightarrow> nat"])

lemma digits_value_nat [simp]: "digits_value (nat_to_string n) = n"
proof (induction n rule: nat_to_string.induct)
  case (1 n)
  show ?case
  proof (cases "n < 10")
    case True
    then show ?thesis by (subst nat_to_string.simps) (simp add: digits_value_def digit_char_code)
  next
    case False
    then show ?thesis using 1 by (subst nat_to_string.simps) (simp add: digits_value_def digit_char_code)
  qed
qed

lemma nat_to_string_digits: "c \<in> set (nat_to_string n) \<Longrightarrow> is_digit c \<and> \<not> is_space c \<and> c \<noteq> CHR ''-'' \<and> c \<noteq> CHR ''+''"
  using nat_to_string_chars [of c n] digit_char_class by auto

lemma nat_to_string_hd: "is_digit (hd (nat_to_string n)) \<and> \<not> is_space (hd (nat_to_string n)) \<and>
    hd (nat_to_string n) \<noteq> CHR ''-'' \<and> hd (nat_to_string n) \<noteq> CHR ''+''"
  using nat_to_string_digits [of "hd (nat_to_string n)" n] nat_to_string_nonempty [of n] by simp

lemma scan_nat [simp]: "scan_number (nat_to_string n) = (False, nat_to_string n)"
proof -
  obtain c cs where c: "nat_to_string n = c # cs" using nat_to_string_nonempty [of n] by (cases "nat_to_string n") auto
  then have h: "\<not> is_space c" "c \<noteq> CHR ''-''" "c \<noteq> CHR ''+''" using nat_to_string_hd [of n] by simp_all
  have "takeWhile is_digit (nat_to_string n) = nat_to_string n" using nat_to_string_digits by (simp add: takeWhile_eq_all_conv)
  then show ?thesis using h by (simp add: scan_number_def c)
qed

lemma scan_negative: "scan_number (CHR ''-'' # nat_to_string n) = (True, nat_to_string n)"
proof -
  have "takeWhile is_digit (nat_to_string n) = nat_to_string n" using nat_to_string_digits by (simp add: takeWhile_eq_all_conv)
  then show ?thesis by (simp add: scan_number_def is_space_def)
qed

lemma signed_value_int [simp]: "signed_value (scan_number (int_to_string i)) = i" "snd (scan_number (int_to_string i)) \<noteq> []"
  by (auto simp: int_to_string_def scan_negative signed_value_def nat_to_string_nonempty)

lemma stoul_word: "stoul (nat_to_string (unat w)) = Inr (ucast w)" for w :: "32 word"
proof -
  have "unat w < 2 ^ 32" using unsigned_less [of w, where 'a = nat] by simp
  then have "unat w < 2 ^ 64" by simp
  moreover have "(word_of_nat (unat w) :: 64 word) = ucast w" by (simp add: unsigned_ucast_eq word_unat_eq_iff)
  ultimately show ?thesis by (simp add: stoul_def nat_to_string_nonempty)
qed

lemma stoll_int: "- (2 ^ 63) \<le> i \<Longrightarrow> i < 2 ^ 63 \<Longrightarrow> stoll (int_to_string i) = Inr i"
  by (simp add: stoll_def)

lemma atoi_word: "uint w < 2 ^ 31 \<Longrightarrow> atoi (int_to_string (uint w)) = Inr (uint w)" for w :: "32 word"
  using order_trans [of "- 2147483648" 0 "uint w"] by (simp add: atoi_def)

subsection \<open>The command line of the backtest\<close>

definition print_args :: "string \<Rightarrow> string \<Rightarrow> Args \<Rightarrow> string list" where
  "print_args program threshold_text a =
     [program, ''--data-format'', data_format a, ''--data'', data_path a, ''--ticker'', nat_to_string (unat (arg_ticker_id a)),
      ''--clip'', nat_to_string (unat (arg_clip a)), ''--threshold'', threshold_text,
      ''--max-pos'', nat_to_string (unat (arg_max_position a)), ''--equity-csv'', equity_csv a,
      ''--base-price'', int_to_string (arg_base_price a), ''--algo'', arg_algo a, ''--fill-mode'', fill_mode a]"

text \<open>
  C31. The options are read back as written: a command line that names every option gives exactly the settings it was
  printed from, for any strings, identifiers and quantities, any 64-bit base price and a threshold the reader of
  \<open>double\<close> values knows. The order size and the loss limit have no option and keep their defaults.
\<close>

theorem parseArgs_roundtrip:
  assumes "stod threshold_text = Inr (arg_threshold a)" and "data_path a \<noteq> []"
    and "- (2 ^ 63) \<le> arg_base_price a" and "arg_base_price a < 2 ^ 63"
    and "arg_max_order_size a = 100" and "arg_max_loss a = Fin (- 100000)"
  shows "parseArgs stod (print_args program threshold_text a) = Inr a"
proof -
  have u: "ucast (ucast w :: 64 word) = w" for w :: "32 word" by (rule bit_eqI) (simp add: bit_simps)
  show ?thesis using assms
    by (simp add: parseArgs_def print_args_def set_option_def stoul_word stoll_int u Args_default_def)
qed

theorem parseArgs_roundtrip_witness:
  "parseArgs (\<lambda>s. if s = ''0.25'' then Inr (Fin (1 / 4)) else Inl InvalidArgument)
     (print_args ''backtest_main'' ''0.25'' (Args_default\<lparr>data_path := ''a.csv'', arg_threshold := Fin (1 / 4), arg_base_price := - 5\<rparr>)) =
   Inr (Args_default\<lparr>data_path := ''a.csv'', arg_threshold := Fin (1 / 4), arg_base_price := - 5\<rparr>)"
  by (rule parseArgs_roundtrip) (simp_all add: Args_default_def)

lemma if_SomeE:
  assumes "(if c then Some x else y) = Some f"
  obtains "x = f" | "y = Some f"
  using assms by (auto split: if_splits)

lemma set_option_order_size:
  "set_option stod arg = Some f \<Longrightarrow> f v a = Inr a1 \<Longrightarrow> arg_max_order_size a1 = arg_max_order_size a"
  unfolding set_option_def by (elim if_SomeE) (auto simp: map_res_def split: sum.splits)

lemma parse_options_order_size:
  "parse_options stod xs a = Inr a' \<Longrightarrow> arg_max_order_size a' = arg_max_order_size a"
proof (induction stod xs a rule: parse_options.induct)
  case (3 stod arg v rest a)
  from 3(2) obtain f a1 where f: "set_option stod arg = Some f" "f v a = Inr a1" "parse_options stod rest a1 = Inr a'"
    by (auto split: option.splits sum.splits)
  then show ?case using 3(1) [OF f(1,2)] set_option_order_size [OF f(1,2)] by simp
qed simp_all

lemma parseArgs_order_size: "parseArgs stod argv = Inr a \<Longrightarrow> arg_max_order_size a = 100"
  using parse_options_order_size [of stod "tl argv" Args_default a]
  by (auto simp: parseArgs_def Args_default_def split: sum.splits if_splits)

subsection \<open>An instrument whose clip exceeds its order size\<close>

definition idle :: "OMOrder \<Rightarrow> bool" where
  "idle x \<longleftrightarrow> order_state x = OM_INVALID \<or> order_state x = DEAD"

lemma idle_iff: "idle x \<longleftrightarrow> \<not> working x"
  by (cases "order_state x") (simp_all add: idle_def working_def)

definition parked :: "nat \<Rightarrow> trade_engine \<Rightarrow> bool" where
  "parked t e \<longleftrightarrow> position (te_positions e ! t) = 0 \<and> (\<forall>i. idle (get_order (t, i) (te_orders e))) \<and> position_info (te_risk e ! t) = t \<and>
     max_order_size (ri_cfg (te_risk e ! t)) < clip (te_cfg e t)"

lemma parked_cong:
  "parked t e \<Longrightarrow> te_risk e' = te_risk e \<Longrightarrow> te_cfg e' = te_cfg e \<Longrightarrow> position (te_positions e' ! t) = position (te_positions e ! t) \<Longrightarrow>
   (\<And>i. get_order (t, i) (te_orders e') = get_order (t, i) (te_orders e)) \<Longrightarrow> parked t e'"
  by (simp add: parked_def)

lemma moveOrder_refused:
  assumes "moveOrder check client k tk price side qty om = Inr om'" and "idle (get_order k om)"
    and "\<And>v. check tk side qty = Inr v \<Longrightarrow> v \<noteq> ALLOWED"
  shows "om' = om"
  using assms by (auto simp: moveOrder_def idle_def res_simps split: if_splits OMOrderState.splits)

lemma moveOrders_parked:
  assumes "moveOrders check client tk bid ask clp om = Inr om'" and "\<forall>i. idle (get_order (unat tk, i) om)"
    and "\<And>side v. check tk side clp = Inr v \<Longrightarrow> v \<noteq> ALLOWED"
  shows "om' = om"
proof -
  have t: "unat tk < ME_MAX_TICKERS" using assms(1) order_slot_out [of tk BUY] by (cases "unat tk < ME_MAX_TICKERS") (auto simp: moveOrders_def)
  from assms(1) obtain om1 where m: "moveOrder check client (unat tk, sideToIndex BUY) tk bid BUY clp om = Inr om1"
    "moveOrder check client (unat tk, sideToIndex SELL) tk ask SELL clp om1 = Inr om'"
    by (auto simp: moveOrders_def order_slot_in [OF t] res_simps simp del: sideToIndex_simps)
  have "om1 = om" using m(1) assms(2,3) by (intro moveOrder_refused [OF m(1)]) auto
  moreover have "om' = om1" using assms(2,3) calculation by (intro moveOrder_refused [OF m(2)]) auto
  ultimately show ?thesis by simp
qed

lemma te_moveOrders_parked:
  assumes "parked t e" and "te_moveOrders q e = Inr e'" and "\<And>q'. q = Some q' \<Longrightarrow> q_clip q' = clip (te_cfg e (unat (q_ticker q')))"
  shows "parked t e'"
proof (cases q)
  case None
  then show ?thesis using assms(1,2) by (simp add: te_moveOrders_def)
next
  case (Some q')
  let ?check = "checkPreTradeRisk (te_risk e) (te_positions e)"
  obtain om where om: "moveOrders ?check (te_client_id e) (q_ticker q') (q_bid q') (q_ask q') (q_clip q') (te_orders e) = Inr om"
    "e' = te_set_orders om e"
    using assms(2) Some by (auto simp: te_moveOrders_def res_simps)
  have "get_order (t, i) om = get_order (t, i) (te_orders e)" for i
  proof (cases "unat (q_ticker q') = t")
    case True
    have "v \<noteq> ALLOWED" if "?check (q_ticker q') side (q_clip q') = Inr v" for side v
      using that assms(1) assms(3) [OF Some] True
      by (auto simp: checkPreTradeRisk_def info_checkPreTradeRisk_def parked_def res_simps)
    then have "om = te_orders e" using assms(1) True by (intro moveOrders_parked [OF om(1)]) (auto simp: parked_def)
    then show ?thesis by simp
  next
    case False
    then show ?thesis using moveOrders_other [OF om(1)] by simp
  qed
  then show ?thesis using assms(1) om(2) by (intro parked_cong [OF assms(1)]) (simp_all add: get_order_def)
qed

lemma quote_clip:
  "mm_onOrderBookUpdate cfg tk x fe = Inr (Some q) \<Longrightarrow> q_clip q = clip (cfg (unat (q_ticker q)))"
  "lt_onTradeUpdate cfg u x fe = Inr (Some q) \<Longrightarrow> q_clip q = clip (cfg (unat (q_ticker q)))"
  by (auto simp: mm_onOrderBookUpdate_def lt_onTradeUpdate_def Let_def res_simps split: if_splits)

lemma algo_parked:
  assumes "parked t e"
  shows "algoOnTradeUpdate v x e = Inr e' \<Longrightarrow> parked t e'" "algoOnOrderBookUpdate tk x e = Inr e' \<Longrightarrow> parked t e'"
proof -
  assume "algoOnTradeUpdate v x e = Inr e'"
  then consider "e' = e" | q where "lt_onTradeUpdate (te_cfg e) v x (te_features e) = Inr q" "te_moveOrders q e = Inr e'"
    by (auto simp: algoOnTradeUpdate_def res_simps split: if_splits)
  then show "parked t e'" by cases (use assms quote_clip(2) in \<open>auto intro!: te_moveOrders_parked [OF assms]\<close>)
next
  assume "algoOnOrderBookUpdate tk x e = Inr e'"
  then consider "e' = e" | q where "mm_onOrderBookUpdate (te_cfg e) tk x (te_features e) = Inr q" "te_moveOrders q e = Inr e'"
    by (auto simp: algoOnOrderBookUpdate_def res_simps split: if_splits)
  then show "parked t e'" by cases (use assms quote_clip(1) in \<open>auto intro!: te_moveOrders_parked [OF assms]\<close>)
qed

lemma te_update_parked:
  assumes "parked t e" and "te_onMarketUpdate u e = Inr e'"
  shows "parked t e'"
proof -
  obtain ev b where ev: "onMarketUpdate u (te_books e ! unat (mu_ticker_id u)) = Inr (ev, b)"
    using assms(2) by (auto simp: te_onMarketUpdate_def res_simps split: prod.splits)
  let ?e1 = "e\<lparr>te_books := (te_books e)[unat (mu_ticker_id u) := b]\<rparr>"
  show ?thesis
  proof (cases ev)
    case (OnTradeUpdate v)
    let ?e2 = "?e1\<lparr>te_features := fe_onTradeUpdate v (bbo b) (te_features ?e1)\<rparr>"
    have p: "parked t ?e2" by (rule parked_cong [OF assms(1)]) simp_all
    have "algoOnTradeUpdate v (bbo b) ?e2 = Inr e'"
      using assms(2) ev OnTradeUpdate by (auto simp: te_onMarketUpdate_def te_onTradeUpdate_def Let_def res_simps)
    then show ?thesis by (rule algo_parked(1) [OF p])
  next
    case (OnOrderBookUpdate tk price side)
    then obtain pk where pk: "pk_updateBBO tk (bbo b) (te_positions ?e1) = Inr pk"
      "algoOnOrderBookUpdate tk (bbo b) (?e1\<lparr>te_positions := pk, te_features := fe_onOrderBookUpdate (bbo b) (te_features ?e1)\<rparr>) = Inr e'"
      using assms(2) ev by (auto simp: te_onMarketUpdate_def te_onOrderBookUpdate_def Let_def res_simps)
    let ?e2 = "?e1\<lparr>te_positions := pk, te_features := fe_onOrderBookUpdate (bbo b) (te_features ?e1)\<rparr>"
    have "position (pk ! t) = position (te_positions e ! t)"
      using pk(1) by (auto simp: pk_updateBBO_def res_simps nth_list_update)
    then have p: "parked t ?e2" by (intro parked_cong [OF assms(1)]) simp_all
    from algo_parked(2) [OF this pk(2)] show ?thesis .
  qed
qed

lemma te_response_parked:
  assumes p: "parked t e" and r: "response_ok r (te_orders e)" and m: "te_onOrderUpdate r e = Inr e'"
  shows "parked t e'"
proof -
  let ?k = "(unat (rs_ticker_id r), sideToIndex (rs_side r))"
  obtain e1 where e1: "(if rs_type r = FILLED then bindE (pk_addFill r (te_positions e)) (\<lambda>pk. Inr (e\<lparr>te_positions := pk\<rparr>)) else Inr e) = Inr e1"
    "algoOnOrderUpdate r e1 = Inr e'"
    using m by (auto simp: te_onOrderUpdate_def res_simps)
  have other: "unat (rs_ticker_id r) \<noteq> t" if "rs_type r = FILLED"
    using r p that by (auto simp: response_ok_def parked_def idle_iff Let_def)
  have p1: "parked t e1"
  proof (cases "rs_type r = FILLED")
    case True
    then show ?thesis using e1(1) other by (auto simp: pk_addFill_def res_simps intro!: parked_cong [OF p])
  qed (use e1(1) p in simp)
  have o1: "te_orders e1 = te_orders e" using e1(1) by (auto simp: res_simps split: if_splits)
  show ?thesis
  proof (cases "te_algo e1 = MAKER \<or> te_algo e1 = TAKER")
    case True
    then obtain om where om: "om_onOrderUpdate r (te_orders e) = Inr om" "e' = te_set_orders om e1"
      using e1(2) o1 by (auto simp: algoOnOrderUpdate_def res_simps)
    have "idle (get_order (t, i) om)" for i
    proof (cases "t = unat (rs_ticker_id r)")
      case True
      have id: "idle (get_order ?k (te_orders e))" "idle (get_order (t, i) (te_orders e))" using p True by (simp_all add: parked_def)
      have "rs_type r \<noteq> ACCEPTED" "rs_type r \<noteq> FILLED"
        using r id(1) by (auto simp: response_ok_def idle_def working_def Let_def)
      then show ?thesis using om(1) id r unfolding om_onOrderUpdate_def
        by (cases "rs_type r") (auto simp: response_ok_def order_slot_in idle_def Let_def split: if_splits)
    next
      case False
      then show ?thesis using response_other [OF om(1), of "(t, i)"] p by (simp add: parked_def)
    qed
    then show ?thesis using p1 om(2) by (simp add: parked_def get_order_def)
  next
    case False
    then show ?thesis using e1(2) p1 by (simp add: algoOnOrderUpdate_def)
  qed
qed

lemma te_reach_parked: "te_reach e e' \<Longrightarrow> parked t e \<Longrightarrow> parked t e'"
proof (induction rule: te_reach.induct)
  case (again e e1 e2)
  from again.hyps(2) show ?case
    using te_response_parked te_update_parked again.IH [OF again.prems] by (cases rule: te_stepE) blast+
qed simp

text \<open>
  C27. A backtest whose clip is above 100 never trades. The order size limit is 100 and has no option, so whatever the rest
  of the command line says, whatever the market data and whichever algorithm runs: as long as the exchange answers
  only orders it was sent, no order of the instrument is ever entered and its position stays 0. The program starts
  and runs all the same.
\<close>

theorem clip_above_limit_never_trades:
  assumes "parseArgs stod argv = Inr a" and "100 < arg_clip a" and "backtest_main a = Inr s"
    and "te_reach (backtest_engine s oids prices vwaps) e"
  shows "position (te_positions e ! unat (arg_ticker_id a)) = 0 \<and>
     (\<forall>side. \<not> working (get_order (unat (arg_ticker_id a), sideToIndex side) (te_orders e)))"
proof -
  let ?t = "unat (arg_ticker_id a)"
  have t: "?t < ME_MAX_TICKERS" using assms(3) by (auto simp: backtest_main_def Let_def split: if_splits)
  have cfg: "bt_cfg s ?t = \<lparr>clip = arg_clip a, threshold = arg_threshold a,
      risk_cfg = \<lparr>max_order_size = arg_max_order_size a, max_position = arg_max_position a, max_loss = arg_max_loss a\<rparr>\<rparr>"
    using assms(3) unfolding backtest_main_def Let_def by (simp only: split: if_split_asm) auto
  have "parked ?t (backtest_engine s oids prices vwaps)"
    using t cfg parseArgs_order_size [OF assms(1)] assms(2)
    by (simp add: parked_def backtest_engine_def trade_engine_new_def position_keeper_new_def PositionInfo_new_def risk_manager_new_def
        idle_def get_order_def order_manager_new_def OMOrder_default_def)
  from te_reach_parked [OF assms(4) this] show ?thesis by (simp add: parked_def idle_iff)
qed

theorem clip_above_limit_never_trades_witness:
  "\<exists>a s. parseArgs (\<lambda>_. Inl InvalidArgument) [''backtest_main'', ''--data'', ''a.csv'', ''--clip'', ''101''] = Inr a \<and> backtest_main a = Inr s \<and>
     position (te_positions (backtest_engine s (\<lambda>_ _. None) (\<lambda>_ _. None) (\<lambda>_ _. Fin 0)) ! unat (arg_ticker_id a)) = 0"
proof -
  let ?a = "Args_default\<lparr>data_path := ''a.csv'', arg_clip := 101\<rparr>"
  have p: "parseArgs (\<lambda>_. Inl InvalidArgument) [''backtest_main'', ''--data'', ''a.csv'', ''--clip'', ''101''] = Inr ?a"
    by (simp add: parseArgs_def set_option_def stoul_def scan_number_def is_space_def is_digit_def digits_value_def Args_default_def)
  obtain s where s: "backtest_main ?a = Inr s" by (simp add: backtest_main_def Args_default_def ME_MAX_TICKERS_def Let_def)
  from clip_above_limit_never_trades [OF p _ s te_reach.start] p s show ?thesis by auto
qed

subsection \<open>The drain loop\<close>

lemma drain_rounds_iff:
  "k \<le> 20 \<Longrightarrow> drain_rounds k obs \<noteq> None \<longleftrightarrow>
     take (20 - k) obs = replicate (20 - k) 0 \<or> (\<exists>ys zs. obs = ys @ replicate 20 0 @ zs)"
proof (induction obs arbitrary: k)
  case Nil
  then show ?case by auto
next
  case (Cons busy obs)
  show ?case
  proof (cases "k = 20")
    case False
    then have k: "k < 20" using Cons.prems by simp
    then obtain m where m: "20 - k = Suc m" "20 - (k + 1) = m" "m \<le> 19" by (cases "20 - k") auto
    have split: "(\<exists>ys zs. busy # obs = ys @ replicate 20 0 @ zs) \<longleftrightarrow>
        busy = 0 \<and> take 19 obs = replicate 19 0 \<or> (\<exists>ys zs. obs = ys @ replicate 20 0 @ zs)"
    proof
      assume "\<exists>ys zs. busy # obs = ys @ replicate 20 0 @ zs"
      then obtain ys zs where e: "busy # obs = ys @ replicate (Suc 19) 0 @ zs" by auto
      show "busy = 0 \<and> take 19 obs = replicate 19 0 \<or> (\<exists>ys zs. obs = ys @ replicate 20 0 @ zs)"
      proof (cases ys)
        case Nil
        then have "busy = 0" "obs = replicate 19 0 @ zs" using e by (simp_all only: replicate.simps append.simps list.inject)
        then show ?thesis by simp
      next
        case (Cons y ys')
        then have "obs = ys' @ replicate (Suc 19) 0 @ zs" using e by (simp only: append.simps list.inject)
        then have "obs = ys' @ replicate 20 0 @ zs" by simp
        then show ?thesis by blast
      qed
    next
      assume "busy = 0 \<and> take 19 obs = replicate 19 0 \<or> (\<exists>ys zs. obs = ys @ replicate 20 0 @ zs)"
      then show "\<exists>ys zs. busy # obs = ys @ replicate 20 0 @ zs"
      proof
        assume h: "busy = 0 \<and> take 19 obs = replicate 19 0"
        then have "busy # obs = [] @ replicate (Suc 19) 0 @ drop 19 obs"
          using append_take_drop_id [of 19 obs] by (simp only: replicate.simps append.simps)
        then have "busy # obs = [] @ replicate 20 0 @ drop 19 obs" by simp
        then show ?thesis by blast
      next
        assume "\<exists>ys zs. obs = ys @ replicate 20 0 @ zs"
        then obtain ys zs where "obs = ys @ replicate 20 0 @ zs" by blast
        then have "busy # obs = (busy # ys) @ replicate 20 0 @ zs" by simp
        then show ?thesis by blast
      qed
    qed
    have t: "take m obs = replicate m 0" if "take 19 obs = replicate 19 0"
      using arg_cong [OF that, of "take m"] m(3) by (simp add: min_def)
    have full: "(\<exists>ys zs. obs = ys @ replicate 20 0 @ zs)" if "take 20 obs = replicate 20 0"
      using that append_take_drop_id [of 20 obs] by (metis append_Nil)
    show ?thesis
    proof (cases "busy = 0")
      case True
      then have "drain_rounds k (busy # obs) \<noteq> None \<longleftrightarrow> drain_rounds (k + 1) obs \<noteq> None" using k by simp
      also have "\<dots> \<longleftrightarrow> take m obs = replicate m 0 \<or> (\<exists>ys zs. obs = ys @ replicate 20 0 @ zs)"
        using Cons.IH [of "k + 1"] k unfolding m(2) by simp
      also have "\<dots> \<longleftrightarrow> take (20 - k) (busy # obs) = replicate (20 - k) 0 \<or> (\<exists>ys zs. busy # obs = ys @ replicate 20 0 @ zs)"
        using t True unfolding split m(1) by auto
      finally show ?thesis .
    next
      case False
      then have "drain_rounds k (busy # obs) \<noteq> None \<longleftrightarrow> drain_rounds 0 obs \<noteq> None" using k by simp
      also have "\<dots> \<longleftrightarrow> (\<exists>ys zs. obs = ys @ replicate 20 0 @ zs)" using Cons.IH [of 0] full by auto
      also have "\<dots> \<longleftrightarrow> take (20 - k) (busy # obs) = replicate (20 - k) 0 \<or> (\<exists>ys zs. busy # obs = ys @ replicate 20 0 @ zs)"
        using False unfolding split m(1) by auto
      finally show ?thesis .
    qed
  qed simp
qed

text \<open>
  The drain loop ends exactly when the queues have been seen empty twenty times in a row: never while there is work,
  and always if the work runs out.
\<close>

theorem drain_ends_when_idle:
  "drain_rounds 0 obs \<noteq> None \<longleftrightarrow> (\<exists>ys zs. obs = ys @ replicate 20 0 @ zs)"
proof -
  have "(\<exists>ys zs. obs = ys @ replicate 20 0 @ zs)" if "take 20 obs = replicate 20 (0 :: nat)"
    using that append_take_drop_id [of 20 obs] by (metis append_Nil)
  then show ?thesis using drain_rounds_iff [of 0 obs] by auto
qed

subsection \<open>The tickers of \<open>trading_main\<close>, proved\<close>

definition print_ticker :: "(double \<Rightarrow> string) \<Rightarrow> TradeEngineCfg \<Rightarrow> string list" where
  "print_ticker dtoa c = [int_to_string (uint (clip c)), dtoa (threshold c), int_to_string (uint (max_order_size (risk_cfg c))),
     int_to_string (uint (max_position (risk_cfg c))), dtoa (max_loss (risk_cfg c))]"

definition int_cfg :: "TradeEngineCfg \<Rightarrow> bool" where
  "int_cfg c \<longleftrightarrow> uint (clip c) < 2 ^ 31 \<and> uint (max_order_size (risk_cfg c)) < 2 ^ 31 \<and> uint (max_position (risk_cfg c)) < 2 ^ 31"

lemma cfg_eta: "\<lparr>clip = clip c, threshold = threshold c, risk_cfg = \<lparr>max_order_size = max_order_size (risk_cfg c),
    max_position = max_position (risk_cfg c), max_loss = max_loss (risk_cfg c)\<rparr>\<rparr> = c" for c :: TradeEngineCfg
  by (rule TradeEngineCfg.equality) (simp_all add: RiskCfg.equality)

definition read_back :: "(string \<Rightarrow> double) \<Rightarrow> (double \<Rightarrow> string) \<Rightarrow> TradeEngineCfg \<Rightarrow> bool" where
  "read_back atof dtoa c \<longleftrightarrow> atof (dtoa (threshold c)) = threshold c \<and> atof (dtoa (max_loss (risk_cfg c))) = max_loss (risk_cfg c)"

lemma parse_tickers_print:
  assumes "\<forall>c \<in> set cs. int_cfg c \<and> read_back atof dtoa c" and "n + length cs \<le> ME_MAX_TICKERS"
  shows "parse_tickers atof (concat (map (print_ticker dtoa) cs) @ rest) n cfg =
     parse_tickers atof rest (n + length cs) (\<lambda>i. if n \<le> i \<and> i < n + length cs then cs ! (i - n) else cfg i)"
  using assms
proof (induction cs arbitrary: n cfg)
  case Nil
  have "(\<lambda>i. if n \<le> i \<and> i < n + 0 then [] ! (i - n) else cfg i) = cfg" by (rule ext) auto
  then show ?case by simp
next
  case (Cons c cs)
  have "parse_tickers atof (print_ticker dtoa c @ xs) n cfg = parse_tickers atof xs (n + 1) (cfg(n := c))" for xs
    using Cons.prems by (simp add: print_ticker_def int_cfg_def read_back_def atoi_word cfg_eta)
  note step = this
  have e: "(\<lambda>i. if n + 1 \<le> i \<and> i < n + 1 + length cs then cs ! (i - (n + 1)) else (cfg(n := c)) i) =
      (\<lambda>i. if n \<le> i \<and> i < n + length (c # cs) then (c # cs) ! (i - n) else cfg i)"
    by (rule ext) (auto simp: nth_Cons')
  have "parse_tickers atof (concat (map (print_ticker dtoa) cs) @ rest) (n + 1) (cfg(n := c)) =
      parse_tickers atof rest (n + 1 + length cs) (\<lambda>i. if n \<le> i \<and> i < n + length (c # cs) then (c # cs) ! (i - n) else cfg i)"
    unfolding e [symmetric] by (rule Cons.IH) (use Cons.prems in simp_all)
  then show ?case by (simp add: step del: fun_upd_apply)
qed

text \<open>
  The tickers of \<open>trading_main\<close>: with quantities below 2 to the 31 and texts the reader of \<open>double\<close> values reads
  back, up to eight groups of five arguments configure the first tickers in order and leave the rest at zero; a ninth
  group stops the program, and so does a group that is cut short, whose missing values are read past the end of
  the arguments.
\<close>

theorem trading_main_tickers:
  assumes "\<forall>c \<in> set cs. int_cfg c \<and> read_back atof dtoa c" and "length cs \<le> ME_MAX_TICKERS" and "int_cfg c"
    and "length program = 3" and "0 < k" and "k < 5"
  shows "trading_main_cfg atof (program @ concat (map (print_ticker dtoa) cs)) =
       Inr (\<lambda>i. if i < length cs then cs ! i else default_cfg) \<and>
     (length cs = ME_MAX_TICKERS \<longrightarrow> trading_main_cfg atof (program @ concat (map (print_ticker dtoa) (cs @ [c]))) = Inl TickerOutOfRange) \<and>
     trading_main_cfg atof (program @ concat (map (print_ticker dtoa) cs) @ take k (print_ticker dtoa c)) = Inl Undefined"
proof -
  have p: "parse_tickers atof (concat (map (print_ticker dtoa) cs) @ rest) 0 cfg =
      parse_tickers atof rest (length cs) (\<lambda>i. if i < length cs then cs ! i else cfg i)" for rest cfg
    using parse_tickers_print [OF assms(1), of 0] assms(2) by (simp cong: if_cong)
  have "parse_tickers atof (print_ticker dtoa c) ME_MAX_TICKERS cfg = Inl TickerOutOfRange" for cfg
    using assms(3) by (simp add: print_ticker_def int_cfg_def atoi_word)
  moreover have "parse_tickers atof (take k (print_ticker dtoa c)) n cfg = Inl Undefined" for n cfg
  proof -
    have "k = 1 \<or> k = 2 \<or> k = 3 \<or> k = 4" using assms(5,6) by auto
    then show ?thesis by (elim disjE) (simp_all add: print_ticker_def)
  qed
  ultimately show ?thesis using p [of "[]"] p assms(4) by (simp add: trading_main_cfg_def)
qed

theorem trading_main_tickers_witness:
  "\<exists>cfg. trading_main_cfg (\<lambda>_. Fin 0) ([''trading_main'', ''1'', ''MAKER''] @ print_ticker (\<lambda>_. ''0'') (default_cfg\<lparr>clip := 7\<rparr>)) = Inr cfg \<and>
     clip (cfg 0) = 7 \<and> clip (cfg 1) = 0 \<and>
   trading_main_cfg (\<lambda>_. Fin 0) ([''trading_main'', ''1'', ''MAKER''] @ print_ticker (\<lambda>_. ''0'') (default_cfg\<lparr>clip := 7\<rparr>) @
     take 2 (print_ticker (\<lambda>_. ''0'') (default_cfg\<lparr>clip := 7\<rparr>))) = Inl Undefined"
  using trading_main_tickers [of "[default_cfg\<lparr>clip := 7\<rparr>]" "\<lambda>_. Fin 0" "\<lambda>_. ''0''" "default_cfg\<lparr>clip := 7\<rparr>"
      "[''trading_main'', ''1'', ''MAKER'']" 2]
  by (simp add: int_cfg_def read_back_def default_cfg_def ME_MAX_TICKERS_def)

end
