(* ===== verification/BacktestLoop.thy ===== *)
theory BacktestLoop
  imports EngineWires Mains
begin

text \<open>
  The trade engine and the fill simulator in a backtest, each on its thread, joined by the two queues
  \<open>ogw_requests\<close> and \<open>ogw_responses\<close> that \<open>backtest/backtest_main.cpp\<close> creates.

  \<^item> A step is one handler of either thread: the engine takes a response or a market update, the simulator takes a
    request, a market event or a sweep of its resting orders. Steps come in any order; the updates, the events, what the
    simulator reads of the best prices and the order in which it visits its hash map are arbitrary.
  \<^item> What the simulator has standing are its pending orders. Its loops are sequences of turns, each of which fills an order
    or leaves it, so they keep \<open>wired\<close>; so does taking a request.
  \<^item> The invariant of all steps is \<open>engine_wired\<close>, from the set-up of \<open>backtest_main.cpp\<close> on. What follows: the position
    limit with nothing assumed of the responses, queues that are never overrun, and agreement once they are empty.
\<close>

record backtest =
  bt_engine :: trade_engine
  bt_sim :: fill_simulator

definition bt_deliver :: "fill_simulator \<Rightarrow> trade_engine \<Rightarrow> backtest" where
  "bt_deliver f e = (case fs_deliver f (incoming_ogw_responses e) of (f', q) \<Rightarrow>
     \<lparr>bt_engine = e\<lparr>incoming_ogw_responses := q\<rparr>, bt_sim = f'\<rparr>)"

definition bt_request_step :: "BBO \<Rightarrow> backtest \<Rightarrow> backtest res" where
  "bt_request_step bbo_now b =
     (case getNextToRead (outgoing_ogw_requests (bt_engine b)) of
        None \<Rightarrow> Inr b
      | Some r \<Rightarrow>
          let b1 = bt_deliver (fs_request bbo_now r (bt_sim b)) (bt_engine b) in
          bindE (updateReadIndex (outgoing_ogw_requests (bt_engine b1))) (\<lambda>q.
          Inr (b1\<lparr>bt_engine := (bt_engine b1)\<lparr>outgoing_ogw_requests := q\<rparr>\<rparr>)))"

inductive bt_step :: "backtest \<Rightarrow> backtest \<Rightarrow> bool" where
  response: "te_response_step (bt_engine b) = Inr e \<Longrightarrow> bt_step b (b\<lparr>bt_engine := e\<rparr>)"
| update: "te_onMarketUpdate u (bt_engine b) = Inr e \<Longrightarrow> bt_step b (b\<lparr>bt_engine := e\<rparr>)"
| request: "bt_request_step bbo_now b = Inr b' \<Longrightarrow> bt_step b b'"
| event: "hash_order order \<Longrightarrow> bt_step b (bt_deliver (onSimMarketEvent order ev (bt_sim b)) (bt_engine b))"
| sweep: "hash_order order \<Longrightarrow> bt_step b (bt_deliver (fs_aggressive order cur again (bt_sim b)) (bt_engine b))"

inductive bt_reach :: "nat \<Rightarrow> backtest \<Rightarrow> backtest \<Rightarrow> bool" where
  start: "bt_reach 0 b b"
| again: "bt_reach n b b1 \<Longrightarrow> bt_step b1 b2 \<Longrightarrow> bt_reach (Suc n) b b2"

subsection \<open>The simulator's side\<close>

definition pending_entry :: "OrderId \<times> PendingOrder \<Rightarrow> slot \<times> OrderId \<times> Qty" where
  "pending_entry x = (rq_slot (po_req (snd x)), fst x, po_leaves_qty (snd x))"

definition sim_wired :: "(OrderId \<Rightarrow> slot) \<Rightarrow> order_manager \<Rightarrow> MEClientRequest list \<Rightarrow> MEClientResponse list \<Rightarrow> pending_map \<Rightarrow> fill_simulator \<Rightarrow> bool" where
  "sim_wired so om reqs R L f \<longleftrightarrow> wired so om reqs (R @ fsim_out f) (map pending_entry L)"

lemma wired_turn:
  assumes w: "sim_wired so om reqs R (x # xs) f" and t: "entry_turn x f kept f1"
  shows "sim_wired so om reqs R (kept_list kept @ xs) f1"
proof -
  obtain i po where x: "x = (i, po)" by (cases x)
  obtain po' where po': "po_req po' = po_req po" and c:
    "kept = Some (i, po') \<and> po_leaves_qty po' = po_leaves_qty po \<and> fsim_out f1 = fsim_out f \<or>
     (\<exists>r. fill_of po r \<and> fsim_out f1 = fsim_out f @ [r] \<and> po_leaves_qty po' = rs_leaves_qty r \<and>
         kept_list kept = (if rs_leaves_qty r = 0 then [] else [(i, po')]))"
    using t x by (auto simp: entry_turn_def)
  from c show ?thesis
  proof (elim disjE exE conjE)
    assume "kept = Some (i, po')" "po_leaves_qty po' = po_leaves_qty po" "fsim_out f1 = fsim_out f"
    then show ?thesis using w x po' by (simp add: kept_list_def sim_wired_def pending_entry_def)
  next
    fix r assume r: "fill_of po r" "fsim_out f1 = fsim_out f @ [r]" "po_leaves_qty po' = rs_leaves_qty r"
      "kept_list kept = (if rs_leaves_qty r = 0 then [] else [(i, po')])"
    have "wired so om reqs (R @ fsim_out f) ((rq_slot (po_req po), i, po_leaves_qty po) # map pending_entry xs)"
      using w by (simp add: sim_wired_def x pending_entry_def)
    from wired_fill [OF this, of r] r(1)
    have "wired so om reqs ((R @ fsim_out f) @ [r]) (rest_of (rq_slot (po_req po)) i (rs_leaves_qty r) @ map pending_entry xs)"
      by (simp add: fill_of_def within_limit_def rs_slot_def rq_slot_def)
    then show ?thesis using r(2-4) po' by (simp add: sim_wired_def pending_entry_def rest_of_def split: if_splits)
  qed
qed

interpretation wires: entries_invariant "sim_wired so om reqs R" for so om reqs R
proof
  show "sim_wired so om reqs R (kept_list kept @ xs) f1" if "sim_wired so om reqs R (x # xs) f" "entry_turn x f kept f1" for x xs f kept f1
    by (rule wired_turn [OF that])
  show "sim_wired so om reqs R L' f" if "mset L = mset L'" "sim_wired so om reqs R L f" for L L' f
    using that(2) unfolding sim_wired_def by (rule wired_rotate) (simp add: that(1))
qed (simp add: sim_wired_def)

text \<open>The simulator takes a request.\<close>

lemma pending_ids: "fst ` snd ` set (map pending_entry L) = fst ` set L"
  by (force simp: pending_entry_def)

lemma wired_request:
  assumes w: "sim_wired so om (r # reqs) R (fsim_pending f) f"
  shows "sim_wired so om reqs R (fsim_pending (fs_request b r f)) (fs_request b r f)"
proof -
  let ?L = "fsim_pending f" and ?resps = "R @ fsim_out f"
  note w = w [unfolded sim_wired_def]
  define ans where "ans ty e q p = \<lparr>rs_type = ty, rs_client_id = rq_client_id r, rs_ticker_id = rq_ticker_id r,
     rs_client_order_id = rq_order_id r, rs_market_order_id = next_market_order_id f, rs_side = rq_side r,
     rs_price = p, rs_exec_qty = e, rs_leaves_qty = q\<rparr>" for ty e q p
  have ans: "rs_type (ans ty e q p) = ty" "rs_slot (ans ty e q p) = rq_slot r" "rs_ticker_id (ans ty e q p) = rq_ticker_id r"
    "rs_client_order_id (ans ty e q p) = rq_order_id r" for ty e q p
    by (simp_all add: ans_def rs_slot_def rq_slot_def)
  have "rq_type r \<noteq> Request_INVALID" using w by (simp add: wired_def)
  then consider "rq_type r = NEW" | "rq_type r = Request_CANCEL" by (cases "rq_type r") simp_all
  then show ?thesis
  proof cases
    case 1
    note new = wired_take_new [OF w 1, of "ans ACCEPTED 0 (rq_qty r) (rq_price r)", OF ans]
    have "fst y \<noteq> rq_order_id r" if "y \<in> set ?L" for y using new(1) [of "pending_entry y"] that by (simp add: pending_entry_def)
    then have "rq_order_id r \<notin> fst ` set ?L" by (metis imageE)
    then show ?thesis using 1 new(2) by (simp add: fs_request_def sim_wired_def ans_def pending_entry_def)
  next
    case 2
    have e: "map pending_entry (filter (\<lambda>x. fst x \<noteq> rq_order_id r) ?L) = filter (\<lambda>x. fst (snd x) \<noteq> rq_order_id r) (map pending_entry ?L)"
      by (simp add: filter_map o_def pending_entry_def)
    have c: "wired so om reqs (?resps @ [a]) (map pending_entry (filter (\<lambda>x. fst x \<noteq> rq_order_id r) ?L))"
      if "rs_type a = (if rq_order_id r \<in> fst ` set ?L then CANCELED else CANCEL_REJECTED)" "rs_slot a = rq_slot r"
        "rs_ticker_id a = rq_ticker_id r" "rs_client_order_id a = rq_order_id r" for a
      using wired_take_cancel(1) [OF w 2, of a] that unfolding pending_ids e by simp
    show ?thesis
    proof (cases "rq_order_id r \<in> fst ` set ?L")
      case True
      then show ?thesis using 2 c [of "ans CANCELED 0 0 (rq_price r)"] ans by (simp add: fs_request_def sim_wired_def ans_def)
    next
      case False
      then have "filter (\<lambda>x. fst x \<noteq> rq_order_id r) ?L = ?L" by (intro filter_True) (auto simp: image_iff)
      then show ?thesis using 2 False c [of "ans CANCEL_REJECTED 0 0 (rq_price r)"] ans by (simp add: fs_request_def sim_wired_def ans_def)
    qed
  qed
qed

subsection \<open>The steps\<close>

definition bt_inv :: "nat \<Rightarrow> backtest \<Rightarrow> bool" where
  "bt_inv n b \<longleftrightarrow> fsim_out (bt_sim b) = [] \<and> (\<exists>so. engine_wired so n (bt_engine b) [] [] (map pending_entry (fsim_pending (bt_sim b))))"

lemma bt_deliver_eq:
  "bt_deliver f e = \<lparr>bt_engine = e\<lparr>incoming_ogw_responses := fold lfq_push (fsim_out f) (incoming_ogw_responses e)\<rparr>, bt_sim = f\<lparr>fsim_out := []\<rparr>\<rparr>"
  by (simp add: bt_deliver_def fs_deliver_def)

lemma bt_delivered:
  assumes inv: "bt_inv n b"
    and keeps: "\<And>so reqs om R. sim_wired so om reqs R (fsim_pending (bt_sim b)) (bt_sim b) \<Longrightarrow> sim_wired so om reqs R (fsim_pending f) f"
  shows "bt_inv n (bt_deliver f (bt_engine b)) \<and> same_engine (bt_engine b) (bt_engine (bt_deliver f (bt_engine b)))"
proof -
  let ?e = "bt_engine b"
  obtain so where so: "engine_wired so n ?e [] [] (map pending_entry (fsim_pending (bt_sim b)))" and out: "fsim_out (bt_sim b) = []"
    using inv by (auto simp: bt_inv_def)
  have "sim_wired so (te_orders ?e) (lfq_list (outgoing_ogw_requests ?e)) (lfq_list (incoming_ogw_responses ?e)) (fsim_pending (bt_sim b)) (bt_sim b)"
    using so out by (simp add: sim_wired_def engine_wired_def)
  note w = keeps [OF this, unfolded sim_wired_def]
  have "queue_ok (outgoing_ogw_requests ?e)" using so by (simp add: engine_wired_def)
  from engine_delivered [OF so this, of "[]" "fsim_out f" "[]"] w show ?thesis by (auto simp: bt_deliver_eq bt_inv_def)
qed

lemma bt_request:
  assumes inv: "bt_inv n b"
  shows "\<exists>b'. bt_request_step bbo_now b = Inr b' \<and> bt_inv n b' \<and> same_engine (bt_engine b) (bt_engine b')"
proof (cases "getNextToRead (outgoing_ogw_requests (bt_engine b))")
  case None
  then show ?thesis using inv by (simp add: bt_request_step_def same_engine_def)
next
  case (Some r)
  let ?e = "bt_engine b" and ?f = "fs_request bbo_now r (bt_sim b)"
  obtain so where so: "engine_wired so n ?e [] [] (map pending_entry (fsim_pending (bt_sim b)))" and out: "fsim_out (bt_sim b) = []"
    using inv by (auto simp: bt_inv_def)
  have "queue_ok (outgoing_ogw_requests ?e)" using so by (simp add: engine_wired_def)
  from take_queue_ok [OF this Some] obtain q' where q': "lfq_list (outgoing_ogw_requests ?e) = r # lfq_list q'"
    "updateReadIndex (outgoing_ogw_requests ?e) = Inr q'" "queue_ok q'" by blast
  have "sim_wired so (te_orders ?e) (r # lfq_list q') (lfq_list (incoming_ogw_responses ?e)) (fsim_pending (bt_sim b)) (bt_sim b)"
    using so out q'(1) by (simp add: sim_wired_def engine_wired_def)
  note w = wired_request [OF this, of bbo_now, unfolded sim_wired_def]
  have c: "set ([] @ lfq_list q') \<subseteq> set ([] @ lfq_list (outgoing_ogw_requests ?e))" using q'(1) by auto
  have "wired so (te_orders ?e) ([] @ lfq_list q') (lfq_list (incoming_ogw_responses ?e) @ fsim_out ?f @ []) (map pending_entry (fsim_pending ?f))"
    using w by simp
  note d = engine_delivered [OF so q'(3) c this]
  let ?b' = "\<lparr>bt_engine = ?e\<lparr>outgoing_ogw_requests := q', incoming_ogw_responses := fold lfq_push (fsim_out ?f) (incoming_ogw_responses ?e)\<rparr>,
    bt_sim = ?f\<lparr>fsim_out := []\<rparr>\<rparr>"
  have "bt_request_step bbo_now b = Inr ?b'" using Some q'(2) by (simp add: bt_request_step_def bt_deliver_eq Let_def)
  then show ?thesis using d by (auto simp: bt_inv_def)
qed

lemma bt_step_inv:
  assumes "bt_step b b'" and inv: "bt_inv n b" and n: "n + 2 < 2 ^ 64"
  shows "bt_inv (n + 2) b' \<and> same_engine (bt_engine b) (bt_engine b')"
proof -
  have more: "bt_inv n c \<Longrightarrow> bt_inv (n + 2) c" for c
    using engine_wired_more [where n = n and m = "n + 2"] unfolding bt_inv_def by (metis le_add1)
  obtain so where so: "engine_wired so n (bt_engine b) [] [] (map pending_entry (fsim_pending (bt_sim b)))" and out: "fsim_out (bt_sim b) = []"
    using inv by (auto simp: bt_inv_def)
  from assms(1) show ?thesis
  proof (cases rule: bt_step.cases)
    case (response e)
    then have "bt_inv n b' \<and> same_engine (bt_engine b) (bt_engine b')" using engine_response [OF so] out by (auto simp: bt_inv_def)
    then show ?thesis using more by blast
  next
    case (update u e)
    then show ?thesis using engine_update [OF so n] out by (auto simp: bt_inv_def)
  next
    case (request bbo_now)
    then show ?thesis using bt_request [OF inv, of bbo_now] more by auto
  next
    case (event order ev)
    then show ?thesis using more bt_delivered [OF inv, of "onSimMarketEvent order ev (bt_sim b)"] wires.event_keeps by blast
  next
    case (sweep order cur again)
    then show ?thesis using more bt_delivered [OF inv, of "fs_aggressive order cur again (bt_sim b)"] wires.aggressive_keeps by blast
  qed
qed

lemma bt_reach_inv:
  assumes "bt_reach m b b'" and "bt_inv n b" and "n + 2 * m < 2 ^ 64"
  shows "bt_inv (n + 2 * m) b' \<and> same_engine (bt_engine b) (bt_engine b')"
  using assms
proof (induction rule: bt_reach.induct)
  case (start b)
  then show ?case by (simp add: same_engine_def)
next
  case (again m b b1 b2)
  then have "bt_inv (n + 2 * m) b1 \<and> same_engine (bt_engine b) (bt_engine b1)" by simp
  then show ?case using bt_step_inv [OF again.hyps(2), of "n + 2 * m"] again.prems(2) by (simp add: algebra_simps same_engine_def)
qed

end
