(* ===== verification/BacktestDemo.thy ===== *)
theory BacktestDemo
  imports BacktestLoop
begin

text \<open>
  A backtest to look at, for the witnesses of \<open>BacktestRun\<close>: the program's defaults with the market maker. Four updates of
  market data give the book a bid and an ask, on which the maker quotes on both sides; the simulator takes both orders, the
  engine the two acknowledgements; then the simulator fills 4 of the 10 units of the bid, and the engine takes the fill.
\<close>

definition demo_args :: Args where
  "demo_args = Args_default\<lparr>data_path := ''a.csv'', arg_algo := ''maker''\<rparr>"

definition demo_setup :: backtest_setup where
  "demo_setup = \<lparr>bt_cfg = (\<lambda>_. default_cfg)(0 := \<lparr>clip = 10, threshold = Fin (1 / 2),
       risk_cfg = \<lparr>max_order_size = 100, max_position = 1000, max_loss = Fin (- 100000)\<rparr>\<rparr>),
     bt_base_prices = (\<lambda>_. 0), bt_algo = MAKER, bt_fill_mode = QUEUE_AWARE, bt_lobster = True, bt_tee = True\<rparr>"

definition demo_backtest :: backtest where
  "demo_backtest = \<lparr>bt_engine = backtest_engine demo_setup (\<lambda>_ _. None) (\<lambda>_ _. None) (\<lambda>_ _. Fin 0),
     bt_sim = \<lparr>fsim_mode = QUEUE_AWARE, fsim_has_book = True, fsim_out = [], global_priority_watermark = 0, fsim_pending = [],
       next_market_order_id = 1, fills_emitted = 0, passive_fills_emitted = 0\<rparr>\<rparr>"

subsection \<open>The book\<close>

definition demo_add :: "OrderId \<Rightarrow> Side \<Rightarrow> Price \<Rightarrow> MEMarketUpdate" where
  "demo_add i s px = \<lparr>mu_type = ADD, mu_order_id = i, mu_ticker_id = 0, mu_side = s, mu_price = px, mu_qty = 5, mu_priority = 1\<rparr>"

lemma demo_add_step:
  assumes b: "mk_struct b S" "base_price b = 0" and s: "trading_side s" and px: "0 \<le> px" "px < 1000"
    and V: "mview b S BUY = V BUY" "mview b S SELL = V SELL" and size: "length (V BUY) + length (V SELL) < 10"
    and i: "i \<notin> m_order_id ` set (V BUY @ V SELL)" "unat i < 100" and away: "\<forall>x \<in> set (V (opp s)). o_price x \<noteq> px"
  shows "\<exists>b' S'. onMarketUpdate (demo_add i s px) b = Inr (OnOrderBookUpdate 0 px s, b') \<and> mk_struct b' S' \<and> base_price b' = 0 \<and>
     mview b' S' BUY = mkt_spec (demo_add i s px) V BUY \<and> mview b' S' SELL = mkt_spec (demo_add i s px) V SELL \<and>
     bbo b' = bbo_spec (bid_touched (demo_add i s px) V) (ask_touched (demo_add i s px) V) (mkt_spec (demo_add i s px) V) (bbo b)"
proof -
  let ?u = "demo_add i s px"
  have "trading_side (opp s)" using s by simp
  then have o: "mview b S (opp s) = V (opp s)" using V by (auto simp: trading_side_def)
  have "update_ok (base_price b) ?u (mview b S)"
    using s px size i away V o b(2) by (simp add: update_ok_def demo_add_def mview_ids_def mview_size_def ME_MAX_ORDER_IDS_def ME_MAX_PRICE_LEVELS_def)
  from onMarketUpdate_ok [OF b(1) this] obtain b' S' where b': "onMarketUpdate ?u b = Inr (OnOrderBookUpdate 0 px s, b')" "mk_struct b' S'"
    "mview b' S' BUY = mkt_spec ?u (mview b S) BUY" "mview b' S' SELL = mkt_spec ?u (mview b S) SELL"
    "bbo b' = bbo_spec (bid_touched ?u (mview b S)) (ask_touched ?u (mview b S)) (mkt_spec ?u (mview b S)) (bbo b)" "base_price b' = 0"
    using b(2) by (auto simp: demo_add_def)
  have m: "mkt_spec ?u (mview b S) BUY = mkt_spec ?u V BUY" "mkt_spec ?u (mview b S) SELL = mkt_spec ?u V SELL"
    using V s by (auto simp: mkt_spec_def demo_add_def trading_side_def)
  have "bid_touched ?u (mview b S) = bid_touched ?u V" "ask_touched ?u (mview b S) = ask_touched ?u V"
    using V by (simp_all add: bid_touched_def ask_touched_def)
  then show ?thesis using b' m by (intro exI [of _ b'] exI [of _ S']) (simp add: bbo_spec_def Let_def)
qed

lemmas demo_eval = mkt_spec_def demo_add_def queue_insert_def new_market_order_def bid_touched_def ask_touched_def bbo_spec_def best_of_def
  ahead_def

lemma demo_book: "\<exists>b1 b2 b3 b4. onMarketUpdate (demo_add 1 BUY 100) (fresh_market_book 0 0) = Inr (OnOrderBookUpdate 0 100 BUY, b1) \<and>
    onMarketUpdate (demo_add 2 BUY 100) b1 = Inr (OnOrderBookUpdate 0 100 BUY, b2) \<and>
    onMarketUpdate (demo_add 3 SELL 102) b2 = Inr (OnOrderBookUpdate 0 102 SELL, b3) \<and>
    onMarketUpdate (demo_add 4 SELL 102) b3 = Inr (OnOrderBookUpdate 0 102 SELL, b4) \<and>
    ask_price (bbo b1) = Price_INVALID \<and> ask_price (bbo b2) = Price_INVALID \<and> ask_price (bbo b3) = Price_INVALID \<and>
    bbo b4 = \<lparr>bid_price = 100, ask_price = 102, bid_qty = 10, ask_qty = 10\<rparr>"
proof -
  let ?V0 = "\<lambda>_ :: Side. [] :: MarketOrder list"
  let ?V1 = "mkt_spec (demo_add 1 BUY 100) ?V0"
  let ?V2 = "mkt_spec (demo_add 2 BUY 100) ?V1"
  let ?V3 = "mkt_spec (demo_add 3 SELL 102) ?V2"
  obtain b1 S1 where b1: "onMarketUpdate (demo_add 1 BUY 100) (fresh_market_book 0 0) = Inr (OnOrderBookUpdate 0 100 BUY, b1)"
    "mk_struct b1 S1" "base_price b1 = 0" "mview b1 S1 BUY = ?V1 BUY" "mview b1 S1 SELL = ?V1 SELL" "bbo b1 = BBO_default"
    using demo_add_step [OF fresh_market_book_simps(1,2), of BUY 100 0 ?V0 1] by (auto simp: mview_empty demo_eval)
  obtain b2 S2 where b2: "onMarketUpdate (demo_add 2 BUY 100) b1 = Inr (OnOrderBookUpdate 0 100 BUY, b2)"
    "mk_struct b2 S2" "base_price b2 = 0" "mview b2 S2 BUY = ?V2 BUY" "mview b2 S2 SELL = ?V2 SELL"
    "bbo b2 = BBO_default\<lparr>bid_price := 100, bid_qty := 10\<rparr>"
    using demo_add_step [OF b1(2,3) _ _ _ b1(4,5), of BUY 100 2] b1(6) by (auto simp: demo_eval)
  obtain b3 S3 where b3: "onMarketUpdate (demo_add 3 SELL 102) b2 = Inr (OnOrderBookUpdate 0 102 SELL, b3)"
    "mk_struct b3 S3" "base_price b3 = 0" "mview b3 S3 BUY = ?V3 BUY" "mview b3 S3 SELL = ?V3 SELL"
    "bbo b3 = BBO_default\<lparr>bid_price := 100, bid_qty := 10\<rparr>"
    using demo_add_step [OF b2(2,3) _ _ _ b2(4,5), of SELL 102 3] b2(6) by (auto simp: demo_eval)
  obtain b4 where b4: "onMarketUpdate (demo_add 4 SELL 102) b3 = Inr (OnOrderBookUpdate 0 102 SELL, b4)"
    "bbo b4 = BBO_default\<lparr>bid_price := 100, bid_qty := 10, ask_price := 102, ask_qty := 10\<rparr>"
    using demo_add_step [OF b3(2,3) _ _ _ b3(4,5), of SELL 102 4] b3(6) by (auto simp: demo_eval)
  show ?thesis using b1(1,6) b2(1,6) b3(1,6) b4
    by (intro exI [of _ b1] exI [of _ b2] exI [of _ b3] exI [of _ b4]) (simp add: BBO_default_def)
qed

subsection \<open>The engine\<close>

definition demo_ready :: "trade_engine \<Rightarrow> market_order_book \<Rightarrow> bool" where
  "demo_ready e b \<longleftrightarrow> te_algo e = MAKER \<and> te_client_id e = 1 \<and> te_cfg e = bt_cfg demo_setup \<and>
     te_risk e = risk_manager_new (bt_cfg demo_setup) \<and> length (te_books e) = ME_MAX_TICKERS \<and> te_books e ! 0 = b \<and>
     length (te_positions e) = ME_MAX_TICKERS \<and> position (te_positions e ! 0) = 0 \<and> total_pnl (te_positions e ! 0) = Fin 0 \<and>
     te_orders e = order_manager_new \<and> queue_ok (outgoing_ogw_requests e) \<and> queue_ok (incoming_ogw_responses e) \<and>
     lfq_list (outgoing_ogw_requests e) = [] \<and> lfq_list (incoming_ogw_responses e) = []"

lemma tickers: "0 < ME_MAX_TICKERS"
  by (simp add: ME_MAX_TICKERS_def)

lemma demo_ready_start: "demo_ready (bt_engine demo_backtest) (fresh_market_book 0 0)"
  by (simp add: demo_ready_def demo_backtest_def backtest_engine_def trade_engine_new_def demo_setup_def position_keeper_new_def
      PositionInfo_new_def queue_ok_new fresh_market_book_def tickers)

lemma demo_quiet:
  assumes e: "demo_ready e b" and u: "onMarketUpdate u b = Inr (OnOrderBookUpdate 0 px s, b')" "mu_ticker_id u = 0"
    and v: "ask_price (bbo b') = Price_INVALID"
  shows "\<exists>e'. te_onMarketUpdate u e = Inr e' \<and> demo_ready e' b'"
proof -
  let ?e' = "e\<lparr>te_books := (te_books e)[0 := b'], te_positions := (te_positions e)[0 := pos_updateBBO (bbo b') (te_positions e ! 0)]\<rparr>"
  have pnl: "total_pnl (pos_updateBBO (bbo b') p) = total_pnl p" "position (pos_updateBBO (bbo b') p) = position p" for p
    using v by (simp_all add: pos_updateBBO_def Let_def)
  have "te_onMarketUpdate u e = Inr ?e'"
    using e u v tickers by (simp add: te_onMarketUpdate_def demo_ready_def te_onOrderBookUpdate_def pk_updateBBO_def Let_def
        algoOnOrderBookUpdate_def mm_onOrderBookUpdate_def te_moveOrders_def fe_onOrderBookUpdate_def)
  moreover have "demo_ready ?e' b'" using e tickers pnl by (simp add: demo_ready_def)
  ultimately show ?thesis by blast
qed

definition demo_order :: "OrderId \<Rightarrow> Side \<Rightarrow> Price \<Rightarrow> MEClientRequest" where
  "demo_order i s px = \<lparr>rq_type = NEW, rq_client_id = 1, rq_ticker_id = 0, rq_order_id = i, rq_side = s, rq_price = px, rq_qty = 10\<rparr>"

definition demo_om_order :: "OrderId \<Rightarrow> Side \<Rightarrow> Price \<Rightarrow> OMOrderState \<Rightarrow> OMOrder" where
  "demo_om_order i s px st = \<lparr>om_ticker_id = 0, om_order_id = i, om_side = s, om_price = px, om_qty = 10, order_state = st\<rparr>"

text \<open>What is where after the fourth update: requests, responses and the two orders.\<close>

definition demo_engine_at ::
  "trade_engine \<Rightarrow> MEClientRequest list \<Rightarrow> MEClientResponse list \<Rightarrow> OMOrderState \<Rightarrow> OMOrderState \<Rightarrow> bool" where
  "demo_engine_at e reqs resps st1 st2 \<longleftrightarrow> te_algo e = MAKER \<and> length (te_positions e) = ME_MAX_TICKERS \<and>
     position (te_positions e ! 0) = 0 \<and> om_requests (te_orders e) = [] \<and>
     get_order (0, sideToIndex BUY) (te_orders e) = demo_om_order 1 BUY 100 st1 \<and>
     get_order (0, sideToIndex SELL) (te_orders e) = demo_om_order 2 SELL 102 st2 \<and>
     queue_ok (outgoing_ogw_requests e) \<and> queue_ok (incoming_ogw_responses e) \<and>
     lfq_list (outgoing_ogw_requests e) = reqs \<and> lfq_list (incoming_ogw_responses e) = resps"

lemma demo_allowed:
  assumes "position p = 0" and "total_pnl p = Fin 0" and "side = BUY \<or> side = SELL"
  shows "info_checkPreTradeRisk p \<lparr>max_order_size = 100, max_position = 1000, max_loss = Fin (- 100000)\<rparr> side 10 = ALLOWED"
  using assms by (auto simp: info_checkPreTradeRisk_def s32_def)

lemma demo_moved:
  assumes "\<And>side. side = BUY \<or> side = SELL \<Longrightarrow> check 0 side 10 = Inr ALLOWED"
  shows "moveOrders check 1 0 100 102 10 order_manager_new =
    Inr (newOrder 1 (0, sideToIndex SELL) 0 102 SELL 10 (newOrder 1 (0, sideToIndex BUY) 0 100 BUY 10 order_manager_new))"
proof -
  have st: "order_state (get_order k order_manager_new) = OM_INVALID" for k
    by (simp add: order_manager_new_def get_order_def OMOrder_default_def)
  have t: "unat (0 :: TickerId) < ME_MAX_TICKERS" by (simp add: tickers)
  show ?thesis using assms [of BUY] assms [of SELL]
    by (simp add: moveOrders_def order_slot_in [OF t] moveOrder_def st sideToIndex_inj Price_INVALID_def del: sideToIndex_simps)
qed

lemma demo_push:
  assumes "queue_ok q" and "lfq_list q = xs" and "length xs + length vs \<le> 100"
  shows "lfq_list (fold lfq_push vs q) = xs @ vs \<and> queue_ok (fold lfq_push vs q)"
proof -
  have "length (lfq_list q @ vs) \<le> ME_MAX_CLIENT_UPDATES" unfolding assms(2) using assms(3) by (simp add: ME_MAX_CLIENT_UPDATES_def)
  from push_queue_ok [OF assms(1) this] show ?thesis unfolding assms(2) .
qed

lemma demo_front:
  assumes "queue_ok q" and "lfq_list q = x # xs"
  shows "getNextToRead q = Some x" "\<exists>q'. updateReadIndex q = Inr q' \<and> lfq_list q' = xs \<and> queue_ok q'"
proof -
  show f: "getNextToRead q = Some x" using getNextToRead_list [of q] assms by (simp add: queue_ok_def)
  show "\<exists>q'. updateReadIndex q = Inr q' \<and> lfq_list q' = xs \<and> queue_ok q'" using take_queue_ok [OF assms(1) f] assms(2) by auto
qed

lemma demo_quote:
  assumes e: "demo_ready e b" and u: "onMarketUpdate u b = Inr (OnOrderBookUpdate 0 px s, b')" "mu_ticker_id u = 0"
    and v: "bbo b' = \<lparr>bid_price = 100, ask_price = 102, bid_qty = 10, ask_qty = 10\<rparr>"
  shows "\<exists>e'. te_onMarketUpdate u e = Inr e' \<and> demo_engine_at e' [demo_order 1 BUY 100, demo_order 2 SELL 102] [] PENDING_NEW PENDING_NEW"
proof -
  let ?p = "pos_updateBBO (bbo b') (te_positions e ! 0)"
  let ?e1 = "e\<lparr>te_books := (te_books e)[0 := b'], te_positions := (te_positions e)[0 := ?p], te_features := fe_onOrderBookUpdate (bbo b') (te_features e)\<rparr>"
  have p: "position ?p = 0" "total_pnl ?p = Fin 0" using e by (simp_all add: pos_updateBBO_def Let_def demo_ready_def)
  have mm: "mm_onOrderBookUpdate (te_cfg e) 0 (bbo b') (fe_onOrderBookUpdate (bbo b') (te_features e)) =
      Inr (Some \<lparr>q_ticker = 0, q_bid = 100, q_ask = 102, q_clip = 10\<rparr>)"
    using e tickers by (simp add: mm_onOrderBookUpdate_def fe_onOrderBookUpdate_def v Price_INVALID_def Feature_INVALID_def Let_def
        double_of_int_def demo_ready_def demo_setup_def)
  have check: "checkPreTradeRisk (te_risk ?e1) (te_positions ?e1) 0 side 10 = Inr ALLOWED" if "side = BUY \<or> side = SELL" for side
    using e tickers demo_allowed [OF p that] by (simp add: checkPreTradeRisk_def demo_ready_def risk_manager_new_def demo_setup_def)
  let ?om = "newOrder 1 (0, sideToIndex SELL) 0 102 SELL 10 (newOrder 1 (0, sideToIndex BUY) 0 100 BUY 10 order_manager_new)"
  have "moveOrders (checkPreTradeRisk (te_risk ?e1) (te_positions ?e1)) 1 0 100 102 10 order_manager_new = Inr ?om"
    by (rule demo_moved) (rule check)
  then have run: "te_onMarketUpdate u e = Inr (te_set_orders ?om ?e1)"
    using e u tickers mm
    by (simp add: te_onMarketUpdate_def demo_ready_def te_onOrderBookUpdate_def pk_updateBBO_def Let_def algoOnOrderBookUpdate_def te_moveOrders_def
        del: sideToIndex_simps)
  have om: "om_requests ?om = [demo_order 1 BUY 100, demo_order 2 SELL 102]"
    "get_order (0, sideToIndex BUY) ?om = demo_om_order 1 BUY 100 PENDING_NEW" "get_order (0, sideToIndex SELL) ?om = demo_om_order 2 SELL 102 PENDING_NEW"
    by (simp_all add: demo_order_def demo_om_order_def order_manager_new_def)
  have sends: "outgoing_ogw_requests (fold te_sendClientRequest rs f) = fold lfq_push rs (outgoing_ogw_requests f)" for rs f
    by (induction rs arbitrary: f) (simp_all add: te_sendClientRequest_def)
  let ?q = "fold lfq_push [demo_order 1 BUY 100, demo_order 2 SELL 102] (outgoing_ogw_requests e)"
  have out: "outgoing_ogw_requests (te_set_orders ?om ?e1) = ?q" unfolding te_set_orders_def om(1) sends by simp
  have q: "lfq_list ?q = [demo_order 1 BUY 100, demo_order 2 SELL 102] \<and> queue_ok ?q"
    using demo_push [of "outgoing_ogw_requests e" "[]" "[demo_order 1 BUY 100, demo_order 2 SELL 102]"] e by (simp add: demo_ready_def)
  have "incoming_ogw_responses (te_set_orders ?om ?e1) = incoming_ogw_responses e" by simp
  moreover have "get_order k (?om\<lparr>om_requests := []\<rparr>) = get_order k ?om" for k by (simp add: get_order_def)
  ultimately have "demo_engine_at (te_set_orders ?om ?e1) [demo_order 1 BUY 100, demo_order 2 SELL 102] [] PENDING_NEW PENDING_NEW"
    using e q out om(2,3) p(1) tickers unfolding demo_engine_at_def demo_ready_def by simp
  with run show ?thesis by blast
qed

subsection \<open>The simulator\<close>

definition demo_entry :: "OrderId \<Rightarrow> Side \<Rightarrow> Price \<Rightarrow> PendingOrder" where
  "demo_entry i s px = \<lparr>po_req = demo_order i s px, bbo_at_submit = BBO_default, po_leaves_qty = 10, queue_ahead_qty = 0,
     priority_watermark = 0, queue_aware = False\<rparr>"

definition demo_answer :: "ClientResponseType \<Rightarrow> OrderId \<Rightarrow> Side \<Rightarrow> Price \<Rightarrow> Qty \<Rightarrow> Qty \<Rightarrow> OrderId \<Rightarrow> MEClientResponse" where
  "demo_answer ty i s px e l m = \<lparr>rs_type = ty, rs_client_id = 1, rs_ticker_id = 0, rs_client_order_id = i, rs_market_order_id = m,
     rs_side = s, rs_price = px, rs_exec_qty = e, rs_leaves_qty = l\<rparr>"

lemma demo_request_step:
  assumes at: "demo_engine_at e (demo_order i s px # reqs) resps st1 st2" and f: "i \<notin> fst ` set (fsim_pending f)" "fsim_out f = []"
    and size: "length resps < 100"
  shows "\<exists>e'. bt_step \<lparr>bt_engine = e, bt_sim = f\<rparr>
      \<lparr>bt_engine = e', bt_sim = f\<lparr>fsim_pending := (i, demo_entry i s px) # fsim_pending f, next_market_order_id := next_market_order_id f + 1\<rparr>\<rparr> \<and>
    demo_engine_at e' reqs (resps @ [demo_answer ACCEPTED i s px 0 10 (next_market_order_id f)]) st1 st2"
proof -
  let ?r = "demo_answer ACCEPTED i s px 0 10 (next_market_order_id f)" and ?in = "incoming_ogw_responses e"
  have q: "queue_ok (outgoing_ogw_requests e)" "lfq_list (outgoing_ogw_requests e) = demo_order i s px # reqs" "queue_ok ?in" "lfq_list ?in = resps"
    using at by (simp_all add: demo_engine_at_def)
  note front = demo_front [OF q(1,2)]
  then obtain q' where q': "updateReadIndex (outgoing_ogw_requests e) = Inr q'" "lfq_list q' = reqs" "queue_ok q'" by blast
  have p: "lfq_list (lfq_push ?r ?in) = resps @ [?r]" "queue_ok (lfq_push ?r ?in)"
    using demo_push [OF q(3,4), of "[?r]"] size by simp_all
  let ?e' = "e\<lparr>outgoing_ogw_requests := q', incoming_ogw_responses := lfq_push ?r ?in\<rparr>"
  have sim: "fs_request BBO_default (demo_order i s px) f = f\<lparr>fsim_out := [?r], fsim_pending := (i, demo_entry i s px) # fsim_pending f,
      next_market_order_id := next_market_order_id f + 1\<rparr>"
    using f by (simp add: fs_request_def emitResponse_def demo_order_def demo_answer_def demo_entry_def)
  have "bt_request_step BBO_default \<lparr>bt_engine = e, bt_sim = f\<rparr> = Inr \<lparr>bt_engine = ?e', bt_sim =
      f\<lparr>fsim_pending := (i, demo_entry i s px) # fsim_pending f, next_market_order_id := next_market_order_id f + 1\<rparr>\<rparr>"
    using front(1) q'(1) f(2) by (simp add: bt_request_step_def bt_deliver_eq sim)
  from bt_step.request [OF this] show ?thesis using at q' p by (intro exI [of _ ?e']) (simp add: demo_engine_at_def)
qed

lemma demo_answer_step:
  assumes at: "demo_engine_at e reqs (r # resps) st1 st2" and r: "rs_type r = ACCEPTED" "rs_ticker_id r = 0" "rs_side r = BUY \<or> rs_side r = SELL"
  shows "\<exists>e'. bt_step \<lparr>bt_engine = e, bt_sim = f\<rparr> \<lparr>bt_engine = e', bt_sim = f\<rparr> \<and>
    demo_engine_at e' reqs resps (if rs_side r = BUY then LIVE else st1) (if rs_side r = SELL then LIVE else st2)"
proof -
  have q: "queue_ok (incoming_ogw_responses e)" "lfq_list (incoming_ogw_responses e) = r # resps" using at by (simp_all add: demo_engine_at_def)
  note front = demo_front [OF q]
  then obtain q' where q': "updateReadIndex (incoming_ogw_responses e) = Inr q'" "lfq_list q' = resps" "queue_ok q'" by blast
  let ?k = "(0, sideToIndex (rs_side r))"
  let ?om = "set_order ?k ((get_order ?k (te_orders e))\<lparr>order_state := LIVE\<rparr>) (te_orders e)"
  have t: "unat (rs_ticker_id r) < ME_MAX_TICKERS" using r(2) tickers by simp
  have om: "om_onOrderUpdate r (te_orders e) = Inr ?om" using r by (simp add: om_onOrderUpdate_in [OF t] Let_def)
  have none: "om_requests (set_order k x om) = om_requests om" for k x om by (simp add: set_order_def)
  have set: "te_set_orders ?om e = e\<lparr>te_orders := ?om\<rparr>" using at by (simp add: te_set_orders_def none demo_engine_at_def)
  have "te_response_step e = Inr (e\<lparr>te_orders := ?om, incoming_ogw_responses := q'\<rparr>)"
    using front(1) q'(1) r(1) at om by (simp add: te_response_step_def te_onOrderUpdate_def algoOnOrderUpdate_def set demo_engine_at_def)
  from bt_step.response [of "\<lparr>bt_engine = e, bt_sim = f\<rparr>", simplified, OF this] show ?thesis using at q' r(3)
    by (intro exI [of _ "e\<lparr>te_orders := ?om, incoming_ogw_responses := q'\<rparr>"])
      (auto simp: demo_engine_at_def demo_om_order_def none sideToIndex_inj simp del: sideToIndex_simps)
qed

subsection \<open>The run\<close>

definition demo_sim_at :: "pending_map \<Rightarrow> OrderId \<Rightarrow> fill_simulator" where
  "demo_sim_at L m = (bt_sim demo_backtest)\<lparr>fsim_pending := L, next_market_order_id := m\<rparr>"

lemma demo_sim_at_simps [simp]:
  "fsim_pending (demo_sim_at L m) = L" "next_market_order_id (demo_sim_at L m) = m" "fsim_out (demo_sim_at L m) = []"
  "(demo_sim_at L m)\<lparr>fsim_pending := L', next_market_order_id := m'\<rparr> = demo_sim_at L' m'" "fsim_mode (demo_sim_at L m) = QUEUE_AWARE"
  by (simp_all add: demo_sim_at_def demo_backtest_def)

lemma demo_updates: "\<exists>e. bt_reach 4 demo_backtest \<lparr>bt_engine = e, bt_sim = demo_sim_at [] 1\<rparr> \<and>
    demo_engine_at e [demo_order 1 BUY 100, demo_order 2 SELL 102] [] PENDING_NEW PENDING_NEW"
proof -
  let ?e0 = "bt_engine demo_backtest" and ?f = "demo_sim_at [] 1"
  have b0: "\<lparr>bt_engine = ?e0, bt_sim = ?f\<rparr> = demo_backtest" by (simp add: demo_sim_at_def demo_backtest_def)
  have m: "mu_ticker_id (demo_add i s px) = 0" for i s px by (simp add: demo_add_def)
  have up: "bt_reach (Suc n) demo_backtest \<lparr>bt_engine = e', bt_sim = ?f\<rparr>"
    if "bt_reach n demo_backtest \<lparr>bt_engine = e, bt_sim = ?f\<rparr>" "te_onMarketUpdate u e = Inr e'" for n e u e'
    using bt_reach.again [OF that(1) bt_step.update [of u _ e']] that(2) by simp
  obtain b1 b2 b3 b4 where b: "onMarketUpdate (demo_add 1 BUY 100) (fresh_market_book 0 0) = Inr (OnOrderBookUpdate 0 100 BUY, b1)"
    "onMarketUpdate (demo_add 2 BUY 100) b1 = Inr (OnOrderBookUpdate 0 100 BUY, b2)"
    "onMarketUpdate (demo_add 3 SELL 102) b2 = Inr (OnOrderBookUpdate 0 102 SELL, b3)"
    "onMarketUpdate (demo_add 4 SELL 102) b3 = Inr (OnOrderBookUpdate 0 102 SELL, b4)"
    "ask_price (bbo b1) = Price_INVALID" "ask_price (bbo b2) = Price_INVALID" "ask_price (bbo b3) = Price_INVALID"
    "bbo b4 = \<lparr>bid_price = 100, ask_price = 102, bid_qty = 10, ask_qty = 10\<rparr>"
    using demo_book by blast
  obtain e1 where e1: "te_onMarketUpdate (demo_add 1 BUY 100) ?e0 = Inr e1" "demo_ready e1 b1"
    using demo_quiet [OF demo_ready_start b(1) m b(5)] by blast
  obtain e2 where e2: "te_onMarketUpdate (demo_add 2 BUY 100) e1 = Inr e2" "demo_ready e2 b2"
    using demo_quiet [OF e1(2) b(2) m b(6)] by blast
  obtain e3 where e3: "te_onMarketUpdate (demo_add 3 SELL 102) e2 = Inr e3" "demo_ready e3 b3"
    using demo_quiet [OF e2(2) b(3) m b(7)] by blast
  obtain e4 where e4: "te_onMarketUpdate (demo_add 4 SELL 102) e3 = Inr e4"
    "demo_engine_at e4 [demo_order 1 BUY 100, demo_order 2 SELL 102] [] PENDING_NEW PENDING_NEW"
    using demo_quote [OF e3(2) b(4) m b(8)] by blast
  have "bt_reach (Suc (Suc (Suc (Suc 0)))) demo_backtest \<lparr>bt_engine = e4, bt_sim = ?f\<rparr>"
    by (rule up [OF up [OF up [OF up [OF _ e1(1)] e2(1)] e3(1)] e4(1)]) (simp add: b0 bt_reach.start)
  then show ?thesis using e4(2) by (auto simp: numeral_eq_Suc)
qed

definition demo_orders :: pending_map where
  "demo_orders = [(2, demo_entry 2 SELL 102), (1, demo_entry 1 BUY 100)]"

lemma demo_live: "\<exists>e. bt_reach 8 demo_backtest \<lparr>bt_engine = e, bt_sim = demo_sim_at demo_orders 3\<rparr> \<and> demo_engine_at e [] [] LIVE LIVE"
proof -
  let ?buy = "demo_order 1 BUY 100" and ?sell = "demo_order 2 SELL 102"
  let ?a1 = "demo_answer ACCEPTED 1 BUY 100 0 10 1" and ?a2 = "demo_answer ACCEPTED 2 SELL 102 0 10 2"
  obtain e4 where e4: "bt_reach 4 demo_backtest \<lparr>bt_engine = e4, bt_sim = demo_sim_at [] 1\<rparr>"
    "demo_engine_at e4 [?buy, ?sell] [] PENDING_NEW PENDING_NEW" using demo_updates by blast
  obtain e5 where e5: "bt_step \<lparr>bt_engine = e4, bt_sim = demo_sim_at [] 1\<rparr> \<lparr>bt_engine = e5, bt_sim = demo_sim_at [(1, demo_entry 1 BUY 100)] 2\<rparr>"
    "demo_engine_at e5 [?sell] [?a1] PENDING_NEW PENDING_NEW"
    using demo_request_step [OF e4(2), of "demo_sim_at [] 1"] by auto
  obtain e6 where e6: "bt_step \<lparr>bt_engine = e5, bt_sim = demo_sim_at [(1, demo_entry 1 BUY 100)] 2\<rparr> \<lparr>bt_engine = e6, bt_sim = demo_sim_at demo_orders 3\<rparr>"
    "demo_engine_at e6 [] [?a1, ?a2] PENDING_NEW PENDING_NEW"
    using demo_request_step [OF e5(2), of "demo_sim_at [(1, demo_entry 1 BUY 100)] 2"] by (auto simp: demo_orders_def)
  obtain e7 where e7: "bt_step \<lparr>bt_engine = e6, bt_sim = demo_sim_at demo_orders 3\<rparr> \<lparr>bt_engine = e7, bt_sim = demo_sim_at demo_orders 3\<rparr>"
    "demo_engine_at e7 [] [?a2] LIVE PENDING_NEW"
    using demo_answer_step [OF e6(2), of "demo_sim_at demo_orders 3"] by (auto simp: demo_answer_def)
  obtain e8 where e8: "bt_step \<lparr>bt_engine = e7, bt_sim = demo_sim_at demo_orders 3\<rparr> \<lparr>bt_engine = e8, bt_sim = demo_sim_at demo_orders 3\<rparr>"
    "demo_engine_at e8 [] [] LIVE LIVE"
    using demo_answer_step [OF e7(2), of "demo_sim_at demo_orders 3"] by (auto simp: demo_answer_def)
  have "bt_reach (Suc (Suc (Suc (Suc 4)))) demo_backtest \<lparr>bt_engine = e8, bt_sim = demo_sim_at demo_orders 3\<rparr>"
    by (rule bt_reach.again [OF bt_reach.again [OF bt_reach.again [OF bt_reach.again [OF e4(1) e5(1)] e6(1)] e7(1)] e8(1)])
  then show ?thesis using e8(2) by auto
qed

text \<open>The ask falls to 99, with 4 units: the simulator fills them of the bid, and the engine takes the fill.\<close>

definition demo_ask :: BBO where
  "demo_ask = \<lparr>bid_price = Price_INVALID, ask_price = 99, bid_qty = Qty_INVALID, ask_qty = 4\<rparr>"

lemma demo_filled: "\<exists>b. bt_reach 10 demo_backtest b \<and> position (te_positions (bt_engine b) ! 0) = 4"
proof -
  obtain e8 where e8: "bt_reach 8 demo_backtest \<lparr>bt_engine = e8, bt_sim = demo_sim_at demo_orders 3\<rparr>" "demo_engine_at e8 [] [] LIVE LIVE"
    using demo_live by blast
  let ?f = "fs_aggressive (\<lambda>xs. xs) demo_ask (\<lambda>_. demo_ask) (demo_sim_at demo_orders 3)" and ?r = "demo_answer FILLED 1 BUY 99 4 0 3"
  let ?in = "incoming_ogw_responses e8"
  let ?e9 = "e8\<lparr>incoming_ogw_responses := lfq_push ?r ?in\<rparr>"
  have out: "fsim_out ?f = [?r]"
    by (simp add: fs_aggressive_def demo_orders_def aggressive_order_def bboChanged_def demo_entry_def demo_ask_def BBO_default_def
        tryAggressiveFill_def demo_order_def demo_answer_def avail_def Price_INVALID_def Qty_INVALID_def emitResponse_def Let_def)
  have id: "hash_order (\<lambda>xs :: pending_map. xs)" by unfold_locales simp
  from bt_step.sweep [OF this, of "\<lparr>bt_engine = e8, bt_sim = demo_sim_at demo_orders 3\<rparr>" demo_ask "\<lambda>_. demo_ask"]
  have s9: "bt_step \<lparr>bt_engine = e8, bt_sim = demo_sim_at demo_orders 3\<rparr> \<lparr>bt_engine = ?e9, bt_sim = ?f\<lparr>fsim_out := []\<rparr>\<rparr>"
    by (simp add: bt_deliver_eq out)
  have q: "lfq_list (lfq_push ?r ?in) = [?r]" "queue_ok (lfq_push ?r ?in)"
    using demo_push [of ?in "[]" "[?r]"] e8(2) by (simp_all add: demo_engine_at_def)
  note front = demo_front [OF q(2,1)]
  then obtain q' where q': "updateReadIndex (lfq_push ?r ?in) = Inr q'" by blast
  let ?k = "(0, sideToIndex BUY)"
  let ?pk = "(te_positions e8)[0 := addFill ?r (te_positions e8 ! 0)]"
  obtain om where om: "om_onOrderUpdate ?r (te_orders e8) = Inr om"
    using om_onOrderUpdate_in [of ?r "te_orders e8"] tickers by (auto simp: demo_answer_def)
  let ?e10 = "(te_set_orders om (?e9\<lparr>te_positions := ?pk\<rparr>))\<lparr>incoming_ogw_responses := q'\<rparr>"
  have "te_response_step ?e9 = Inr ?e10"
    using front(1) q' om e8(2) tickers
    by (simp add: te_response_step_def te_onOrderUpdate_def algoOnOrderUpdate_def demo_engine_at_def pk_addFill_def demo_answer_def)
  from bt_step.response [of "\<lparr>bt_engine = ?e9, bt_sim = ?f\<lparr>fsim_out := []\<rparr>\<rparr>", simplified, OF this]
  have s10: "bt_step \<lparr>bt_engine = ?e9, bt_sim = ?f\<lparr>fsim_out := []\<rparr>\<rparr> \<lparr>bt_engine = ?e10, bt_sim = ?f\<lparr>fsim_out := []\<rparr>\<rparr>" .
  have "position (te_positions ?e10 ! 0) = 4"
    using e8(2) tickers by (simp add: demo_engine_at_def position_addFill demo_answer_def)
  then have "position (te_positions (bt_engine \<lparr>bt_engine = ?e10, bt_sim = ?f\<lparr>fsim_out := []\<rparr>\<rparr>) ! 0) = 4" by simp
  moreover have "bt_reach (Suc (Suc 8)) demo_backtest \<lparr>bt_engine = ?e10, bt_sim = ?f\<lparr>fsim_out := []\<rparr>\<rparr>"
    by (rule bt_reach.again [OF bt_reach.again [OF e8(1) s9] s10])
  moreover have "Suc (Suc 8) = (10 :: nat)" by simp
  ultimately show ?thesis by metis
qed

end
