(* ===== verification/BacktestRun.thy ===== *)
theory BacktestRun
  imports BacktestDemo
begin

text \<open>
  Whole backtests: what holds in every state that the steps of \<open>BacktestLoop\<close> reach from the set-up of \<open>backtest_main.cpp\<close>,
  for any command line whose position limit is an \<open>int\<close>.
\<close>

subsection \<open>The set-up\<close>

definition backtest_start ::
  "backtest_setup \<Rightarrow> (nat \<Rightarrow> OrderId \<Rightarrow> nat option) \<Rightarrow> (nat \<Rightarrow> nat \<Rightarrow> nat option) \<Rightarrow> (nat \<Rightarrow> nat \<Rightarrow> double) \<Rightarrow> backtest res" where
  "backtest_start s oids prices vwaps =
     bindE (fill_simulator_new (bt_fill_mode s) True True) (\<lambda>f.
     Inr \<lparr>bt_engine = backtest_engine s oids prices vwaps, bt_sim = f\<rparr>)"

text \<open>
  The position limits for which the 32-bit sums of the position check cannot wrap: at most \<open>2^31 - 101\<close>, as orders have at most
  100 units.
\<close>

definition int_limit :: "Qty \<Rightarrow> bool" where
  "int_limit q \<longleftrightarrow> uint q + 100 < 2 ^ 31"

lemma sum_one: "t < k \<Longrightarrow> (\<Sum>i \<leftarrow> [0..<k]. c + (if i = t then d else 0)) = c * k + (d :: nat)"
proof (induction k)
  case (Suc k)
  have "(\<Sum>i \<leftarrow> [0..<k]. c + (if i = k then d else 0)) = (\<Sum>i \<leftarrow> [0..<k]. c)"
    by (intro arg_cong [where f = sum_list] map_cong) auto
  then show ?case using Suc by (cases "t = k") (simp_all add: sum_list_triv)
qed simp

lemma backtest_cfg:
  assumes "backtest_main a = Inr s"
  shows "unat (arg_ticker_id a) < ME_MAX_TICKERS" "bt_algo s = MAKER \<or> bt_algo s = TAKER"
    "bt_cfg s t = (if t = unat (arg_ticker_id a) then \<lparr>clip = arg_clip a, threshold = arg_threshold a,
      risk_cfg = \<lparr>max_order_size = arg_max_order_size a, max_position = arg_max_position a, max_loss = arg_max_loss a\<rparr>\<rparr> else default_cfg)"
  using assms unfolding backtest_main_def Let_def by (simp_all only: split: if_split_asm) auto

lemma backtest_start_inv:
  assumes p: "parseArgs stod argv = Inr a" and m: "backtest_main a = Inr s" and l: "int_limit (arg_max_position a)"
    and b: "backtest_start s oids prices vwaps = Inr b0"
  shows "bt_inv 1 b0" "\<And>t. t < ME_MAX_TICKERS \<Longrightarrow> te_limit t (bt_engine b0) = (if t = unat (arg_ticker_id a) then uint (arg_max_position a) else 0)"
    "most_responses (bt_engine b0) = 4 * ME_MAX_TICKERS + 2 * unat (min (arg_max_position a) 100)"
proof -
  let ?e = "backtest_engine s oids prices vwaps" and ?t = "unat (arg_ticker_id a)"
  obtain f where f: "fill_simulator_new (bt_fill_mode s) True True = Inr f" "b0 = \<lparr>bt_engine = ?e, bt_sim = f\<rparr>"
    using b by (auto simp: backtest_start_def res_simps)
  then have sim: "fsim_pending f = []" "fsim_out f = []" by (auto simp: fill_simulator_new_def res_simps)
  have e: "?e = trade_engine_new 1 (bt_algo s) (bt_cfg s) (bt_base_prices s) oids prices vwaps" by (simp add: backtest_engine_def)
  note cfg = backtest_cfg [OF m]
  have "limits_ok (risk_cfg (bt_cfg s t))" for t
    using l parseArgs_order_size [OF p] unfolding cfg(3) by (simp add: limits_ok_def default_cfg_def int_limit_def)
  then have "cfgs_ok (bt_cfg s)" by (simp add: cfgs_ok_def)
  from te_safe_new [OF this cfg(2)] have safe: "te_safe ?e" unfolding e .
  have lim: "te_limit t ?e = (if t = ?t then uint (arg_max_position a) else 0)" if "t < ME_MAX_TICKERS" for t
    using that by (simp add: te_limit_def e trade_engine_new_def risk_manager_new_def cfg(3) default_cfg_def)
  then show "te_limit t (bt_engine b0) = (if t = ?t then uint (arg_max_position a) else 0)" if "t < ME_MAX_TICKERS" for t
    using that by (simp add: f(2))
  have size: "te_size t ?e = (if t = ?t then 100 else 0)" if "t < ME_MAX_TICKERS" for t
    using that parseArgs_order_size [OF p] by (simp add: te_size_def e trade_engine_new_def risk_manager_new_def cfg(3) default_cfg_def)
  have min: "nat (min (uint q) 100) = unat (min q 100)" for q :: Qty
    by (simp add: min_def word_le_def nat_uint_eq)
  have "most_responses ?e = (\<Sum>t \<leftarrow> [0..<ME_MAX_TICKERS]. 4 + (if t = ?t then 2 * unat (min (arg_max_position a) 100) else 0))"
    unfolding most_responses_def by (intro arg_cong [where f = sum_list] map_cong) (auto simp: lim size min)
  also have "\<dots> = 4 * ME_MAX_TICKERS + 2 * unat (min (arg_max_position a) 100)" by (rule sum_one [OF cfg(1)])
  finally have most: "most_responses ?e = 4 * ME_MAX_TICKERS + 2 * unat (min (arg_max_position a) 100)" .
  then show "most_responses (bt_engine b0) = 4 * ME_MAX_TICKERS + 2 * unat (min (arg_max_position a) 100)" by (simp add: f(2))
  have om: "te_orders ?e = order_manager_new" by (simp add: e trade_engine_new_def)
  have q: "outgoing_ogw_requests ?e = lfq_new ME_MAX_CLIENT_UPDATES MEClientRequest_default"
    "incoming_ogw_responses ?e = lfq_new ME_MAX_CLIENT_UPDATES MEClientResponse_default" by (simp_all add: e trade_engine_new_def)
  have "unat (min (arg_max_position a) 100) \<le> unat (100 :: Qty)" unfolding word_le_nat_alt [symmetric] by simp
  then have "most_responses ?e \<le> ME_MAX_CLIENT_UPDATES" using most by (simp add: ME_MAX_TICKERS_def ME_MAX_CLIENT_UPDATES_def)
  from engine_wired_new [OF safe om this q] show "bt_inv 1 b0" using sim by (auto simp: bt_inv_def f(2))
qed

text \<open>Every state a backtest reaches in fewer than \<open>2 ^ 62\<close> steps, far more than its order ids last for.\<close>

lemma backtest_reached:
  assumes "parseArgs stod argv = Inr a" and "backtest_main a = Inr s" and "int_limit (arg_max_position a)"
    and "backtest_start s oids prices vwaps = Inr b0" and "bt_reach n b0 b" and "n < 2 ^ 62"
  shows "bt_inv (1 + 2 * n) b" "most_responses (bt_engine b) = 4 * ME_MAX_TICKERS + 2 * unat (min (arg_max_position a) 100)"
    "t < ME_MAX_TICKERS \<Longrightarrow> te_limit t (bt_engine b) = (if t = unat (arg_ticker_id a) then uint (arg_max_position a) else 0)"
proof -
  note st = backtest_start_inv [OF assms(1-4)]
  from bt_reach_inv [OF assms(5) st(1)] assms(6) have "bt_inv (1 + 2 * n) b" "te_risk (bt_engine b) = te_risk (bt_engine b0)"
    by (simp_all add: same_engine_def)
  then show "bt_inv (1 + 2 * n) b" "most_responses (bt_engine b) = 4 * ME_MAX_TICKERS + 2 * unat (min (arg_max_position a) 100)"
    "t < ME_MAX_TICKERS \<Longrightarrow> te_limit t (bt_engine b) = (if t = unat (arg_ticker_id a) then uint (arg_max_position a) else 0)"
    using st(2,3) most_responses_cong limits_cong by metis+
qed

text \<open>The backtest of \<open>BacktestDemo\<close>.\<close>

lemma demo_parsed: "parseArgs (\<lambda>_. Inl InvalidArgument) [''backtest_main'', ''--data'', ''a.csv'', ''--algo'', ''maker''] = Inr demo_args"
  by (simp add: parseArgs_def set_option_def Args_default_def demo_args_def)

lemma demo_set_up: "backtest_main demo_args = Inr demo_setup"
  by (simp add: backtest_main_def demo_args_def demo_setup_def Args_default_def ME_MAX_TICKERS_def fun_upd_idem Let_def)

lemma demo_limit: "int_limit (arg_max_position demo_args)"
  by (simp add: int_limit_def demo_args_def Args_default_def)

lemma demo_started: "backtest_start demo_setup (\<lambda>_ _. None) (\<lambda>_ _. None) (\<lambda>_ _. Fin 0) = Inr demo_backtest"
  by (simp add: backtest_start_def fill_simulator_new_def demo_backtest_def demo_setup_def)

lemmas demo_hyps = demo_parsed demo_set_up demo_limit demo_started

subsection \<open>Properties\<close>

text \<open>
  C9. The position limit holds in a whole backtest, with nothing assumed of the responses. Start the program with any
  command line it accepts whose \<open>--max-pos\<close> is at most \<open>2^31 - 101\<close> (\<open>int_limit\<close>: beyond it the 32-bit sum of the position
  check could wrap, and nothing is claimed), with either strategy, and let the engine, the simulator, the market updates
  and the best prices interleave in any way, for fewer than \<open>2^62\<close> steps. The position of the instrument never exceeds
  \<open>--max-pos\<close>, and no other instrument is ever traded.
\<close>

theorem backtest_position_limit:
  assumes "parseArgs stod argv = Inr a" and "backtest_main a = Inr s" and "int_limit (arg_max_position a)"
    and "backtest_start s oids prices vwaps = Inr b0" and "bt_reach n b0 b" and "n < 2 ^ 62" and "t < ME_MAX_TICKERS"
  shows "\<bar>sint (position (te_positions (bt_engine b) ! t))\<bar> \<le> (if t = unat (arg_ticker_id a) then uint (arg_max_position a) else 0)"
proof -
  note r = backtest_reached [OF assms(1-6)]
  obtain so where "engine_wired so (1 + 2 * n) (bt_engine b) [] [] (map pending_entry (fsim_pending (bt_sim b)))" using r(1) by (auto simp: bt_inv_def)
  from engine_wired_limit [OF this assms(7)] show ?thesis using r(3) [OF assms(7)] by simp
qed

theorem backtest_position_limit_witness:
  "\<exists>b. bt_reach 10 demo_backtest b \<and> position (te_positions (bt_engine b) ! 0) = 4 \<and>
     \<bar>sint (position (te_positions (bt_engine b) ! 0))\<bar> \<le> 1000"
proof -
  obtain b where b: "bt_reach 10 demo_backtest b" "position (te_positions (bt_engine b) ! 0) = 4" using demo_filled by blast
  from backtest_position_limit [OF demo_hyps b(1), of 0] b show ?thesis
    by (intro exI [of _ b]) (simp add: ME_MAX_TICKERS_def demo_args_def Args_default_def)
qed

text \<open>
  Neither queue of a backtest is ever overrun, and neither thread stops on a request or a response: at most 32 requests
  are waiting, at most 32 responses and two for each unit of the position limit up to 100, and the handlers of both complete.
\<close>

theorem backtest_queues_fit:
  assumes "parseArgs stod argv = Inr a" and "backtest_main a = Inr s" and "int_limit (arg_max_position a)"
    and "backtest_start s oids prices vwaps = Inr b0" and "bt_reach n b0 b" and "n < 2 ^ 62"
  shows "lfq_size (outgoing_ogw_requests (bt_engine b)) \<le> 32 \<and>
    lfq_size (incoming_ogw_responses (bt_engine b)) \<le> 32 + 2 * unat (min (arg_max_position a) 100) \<and>
    (\<exists>e'. te_response_step (bt_engine b) = Inr e') \<and> (\<exists>b'. bt_request_step bbo_now b = Inr b')"
proof -
  note r = backtest_reached [OF assms(1-6)]
  obtain so where so: "engine_wired so (1 + 2 * n) (bt_engine b) [] [] (map pending_entry (fsim_pending (bt_sim b)))" using r(1) by (auto simp: bt_inv_def)
  show ?thesis using engine_wired_fits [OF so] engine_response [OF so] bt_request [OF r(1)] r(2) by (auto simp: ME_MAX_TICKERS_def)
qed

theorem backtest_queues_fit_witness:
  "\<exists>b. bt_reach 8 demo_backtest b \<and> lfq_size (incoming_ogw_responses (bt_engine b)) \<le> 232 \<and>
   (\<exists>b'. bt_request_step BBO_default b = Inr b')"
proof -
  obtain e where e: "bt_reach 8 demo_backtest \<lparr>bt_engine = e, bt_sim = demo_sim_at demo_orders 3\<rparr>" using demo_live by blast
  from backtest_queues_fit [OF demo_hyps e, of BBO_default] show ?thesis
    by (intro exI [of _ "\<lparr>bt_engine = e, bt_sim = demo_sim_at demo_orders 3\<rparr>"]) (use e in \<open>simp add: demo_args_def Args_default_def\<close>)
qed

text \<open>
  C10. When a backtest has drained, the engine and the simulator agree on the orders, for any accepted command line whose
  \<open>--max-pos\<close> is at most \<open>2^31 - 101\<close> and any fewer than \<open>2^62\<close> steps. For each instrument and side: if the engine has a
  working order whose quantity is not 0, then it is live and the simulator has exactly that order pending there, with the
  quantity the engine thinks is left; if the engine has no working order, the simulator has none pending there. Nothing is
  pending for any other instrument or side. (Of an order of quantity 0, which \<open>--clip 0\<close> gives, nothing is claimed.)
\<close>

theorem backtest_drained_agrees:
  assumes "parseArgs stod argv = Inr a" and "backtest_main a = Inr s" and "int_limit (arg_max_position a)"
    and "backtest_start s oids prices vwaps = Inr b0" and "bt_reach n b0 b" and "n < 2 ^ 62"
    and "lfq_size (outgoing_ogw_requests (bt_engine b)) = 0" and "lfq_size (incoming_ogw_responses (bt_engine b)) = 0"
    and "t < ME_MAX_TICKERS" and "side = BUY \<or> side = SELL"
  shows "let k = (t, sideToIndex side); x = get_order k (te_orders (bt_engine b));
      p = slot_standing k (map pending_entry (fsim_pending (bt_sim b))) in
    (working x \<and> om_qty x \<noteq> 0 \<longrightarrow> order_state x = LIVE \<and> p = [(om_order_id x, om_qty x)]) \<and> (\<not> working x \<longrightarrow> p = []) \<and>
    (y \<in> set (fsim_pending (bt_sim b)) \<longrightarrow> trading_slot (rq_slot (po_req (snd y))))"
proof -
  let ?k = "(t, sideToIndex side)" and ?e = "bt_engine b" and ?L = "map pending_entry (fsim_pending (bt_sim b))"
  obtain so where so: "engine_wired so (1 + 2 * n) ?e [] [] ?L" using backtest_reached(1) [OF assms(1-6)] by (auto simp: bt_inv_def)
  have "trading_slot ?k" using assms(9,10) by (auto simp: trading_slot_def)
  note ag = engine_wired_drained [OF so assms(7,8) this]
  have "wired so (te_orders ?e) (lfq_list (outgoing_ogw_requests ?e)) (lfq_list (incoming_ogw_responses ?e)) ?L" using so by (simp add: engine_wired_def)
  from wired_entry [OF this, of "pending_entry y"] ag show ?thesis
    by (auto simp: agrees_def pending_entry_def Let_def split: if_splits)
qed

theorem backtest_drained_agrees_witness:
  "\<exists>b. bt_reach 8 demo_backtest b \<and> lfq_size (outgoing_ogw_requests (bt_engine b)) = 0 \<and>
     lfq_size (incoming_ogw_responses (bt_engine b)) = 0 \<and> get_order (0, sideToIndex BUY) (te_orders (bt_engine b)) = demo_om_order 1 BUY 100 LIVE \<and>
     slot_standing (0, sideToIndex BUY) (map pending_entry (fsim_pending (bt_sim b))) = [(1, 10)]"
proof -
  obtain e where e: "bt_reach 8 demo_backtest \<lparr>bt_engine = e, bt_sim = demo_sim_at demo_orders 3\<rparr>" and at: "demo_engine_at e [] [] LIVE LIVE"
    using demo_live by blast
  let ?b = "\<lparr>bt_engine = e, bt_sim = demo_sim_at demo_orders 3\<rparr>"
  have "lfq_inv (outgoing_ogw_requests e)" "lfq_inv (incoming_ogw_responses e)" using at by (simp_all add: demo_engine_at_def queue_ok_def)
  then have size: "lfq_size (outgoing_ogw_requests (bt_engine ?b)) = 0" "lfq_size (incoming_ogw_responses (bt_engine ?b)) = 0"
    using at length_lfq_list [of "outgoing_ogw_requests e"] length_lfq_list [of "incoming_ogw_responses e"]
    by (simp_all add: demo_engine_at_def lfq_size_def del: length_lfq_list)
  have x: "get_order (0, sideToIndex BUY) (te_orders (bt_engine ?b)) = demo_om_order 1 BUY 100 LIVE" using at by (simp add: demo_engine_at_def)
  from backtest_drained_agrees [OF demo_hyps e _ size, of 0 BUY "(1, demo_entry 1 BUY 100)"] x have
    "slot_standing (0, sideToIndex BUY) (map pending_entry (fsim_pending (bt_sim ?b))) = [(1, 10)]"
    by (simp add: ME_MAX_TICKERS_def Let_def working_def demo_om_order_def del: sideToIndex_simps)
  with e size x show ?thesis by blast
qed

end
