(* ===== verification/EngineFeed.thy ===== *)
theory EngineFeed
  imports TradeEngine
begin

text \<open>
  The trade engine behind the exchange: the updates of all the exchange's books reach one engine, interleaved in any way
  with each other and with the responses. No update can stop the engine, and its books follow the exchange's.

  \<^item> \<open>te_run\<close> is a run of the engine with the list of the updates it has taken.
  \<^item> \<open>books_follow\<close>: the book of every instrument is well-formed and holds what the instrument's updates say.
\<close>

inductive te_run :: "MEMarketUpdate list \<Rightarrow> trade_engine \<Rightarrow> trade_engine \<Rightarrow> bool" where
  start: "te_run [] e e"
| response: "te_run us e e1 \<Longrightarrow> response_ok r (te_orders e1) \<Longrightarrow> te_onOrderUpdate r e1 = Inr e2 \<Longrightarrow> te_run us e e2"
| update: "te_run us e e1 \<Longrightarrow> te_onMarketUpdate u e1 = Inr e2 \<Longrightarrow> te_run (us @ [u]) e e2"

definition updates_for :: "nat \<Rightarrow> MEMarketUpdate list \<Rightarrow> MEMarketUpdate list" where
  "updates_for t = filter (\<lambda>u. unat (mu_ticker_id u) = t)"

lemma updates_for_simps [simp]:
  "updates_for t [] = []" "updates_for t (us @ vs) = updates_for t us @ updates_for t vs"
  "updates_for t [u] = (if unat (mu_ticker_id u) = t then [u] else [])"
  by (simp_all add: updates_for_def)

definition books_follow :: "(nat \<Rightarrow> Price) \<Rightarrow> MEMarketUpdate list \<Rightarrow> trade_engine \<Rightarrow> bool" where
  "books_follow base us e \<longleftrightarrow> length (te_books e) = ME_MAX_TICKERS \<and>
     (\<forall>t < ME_MAX_TICKERS. \<exists>S. mk_struct (te_books e ! t) S \<and> base_price (te_books e ! t) = base t \<and>
        (\<forall>s. trading_side s \<longrightarrow> mview (te_books e ! t) S s = fold mkt_spec (updates_for t us) (\<lambda>_. []) s))"

definition streams_ok :: "(nat \<Rightarrow> Price) \<Rightarrow> MEMarketUpdate list \<Rightarrow> bool" where
  "streams_ok base us \<longleftrightarrow> (\<forall>u \<in> set us. unat (mu_ticker_id u) < ME_MAX_TICKERS) \<and>
     (\<forall>t < ME_MAX_TICKERS. updates_ok (base t) (updates_for t us) (\<lambda>_. []))"

lemma streams_ok_prefix: "streams_ok base (us @ vs) \<Longrightarrow> streams_ok base us"
  by (auto simp: streams_ok_def updates_ok_append)

subsection \<open>The books of the engine\<close>

lemma te_response_books: "te_onOrderUpdate r e = Inr e' \<Longrightarrow> te_books e' = te_books e"
  by (auto simp: te_onOrderUpdate_def algoOnOrderUpdate_def res_simps split: if_splits)

lemma te_moveOrders_books: "te_moveOrders q e = Inr e' \<Longrightarrow> te_books e' = te_books e"
  by (auto simp: te_moveOrders_def res_simps split: option.splits)

lemma algo_books:
  "algoOnTradeUpdate v x e = Inr e' \<Longrightarrow> te_books e' = te_books e" "algoOnOrderBookUpdate tk x e = Inr e' \<Longrightarrow> te_books e' = te_books e"
  by (auto simp: algoOnTradeUpdate_def algoOnOrderBookUpdate_def res_simps te_moveOrders_books split: if_splits)

lemma te_update_books:
  assumes "te_onMarketUpdate u e = Inr e'"
  shows "\<exists>ev b. onMarketUpdate u (te_books e ! unat (mu_ticker_id u)) = Inr (ev, b) \<and> te_books e' = (te_books e)[unat (mu_ticker_id u) := b]"
proof -
  obtain ev b where ev: "onMarketUpdate u (te_books e ! unat (mu_ticker_id u)) = Inr (ev, b)"
    using assms by (auto simp: te_onMarketUpdate_def res_simps split: prod.splits)
  then have "te_books e' = (te_books e)[unat (mu_ticker_id u) := b]" using assms
    by (cases ev) (auto simp: te_onMarketUpdate_def te_onTradeUpdate_def te_onOrderBookUpdate_def Let_def res_simps dest!: algo_books)
  then show ?thesis using ev by blast
qed

text \<open>The book of an update's instrument takes it.\<close>

lemma next_update_ok:
  assumes f: "books_follow base us e" and ok: "streams_ok base (us @ [u])"
  shows "\<exists>ev b S. onMarketUpdate u (te_books e ! unat (mu_ticker_id u)) = Inr (ev, b) \<and>
     ev = (if mu_type u = TRADE then OnTradeUpdate u else OnOrderBookUpdate (mu_ticker_id u) (mu_price u) (mu_side u)) \<and>
     mk_struct b S \<and> base_price b = base (unat (mu_ticker_id u)) \<and>
     (\<forall>s. trading_side s \<longrightarrow> mview b S s = fold mkt_spec (updates_for (unat (mu_ticker_id u)) (us @ [u])) (\<lambda>_. []) s)"
proof -
  let ?t = "unat (mu_ticker_id u)" and ?W = "fold mkt_spec (updates_for (unat (mu_ticker_id u)) us) (\<lambda>_. [])"
  have t: "?t < ME_MAX_TICKERS" using ok by (simp add: streams_ok_def)
  obtain S where S: "mk_struct (te_books e ! ?t) S" "base_price (te_books e ! ?t) = base ?t"
    "\<And>s. trading_side s \<Longrightarrow> mview (te_books e ! ?t) S s = ?W s" using f t unfolding books_follow_def by blast
  have V: "mview (te_books e ! ?t) S BUY = ?W BUY" "mview (te_books e ! ?t) S SELL = ?W SELL" by (simp_all add: S(3))
  have "update_ok (base ?t) u ?W" using ok t by (auto simp: streams_ok_def updates_ok_append)
  then have up: "update_ok (base_price (te_books e ! ?t)) u (mview (te_books e ! ?t) S)" using mkt_spec_cong(1) [OF V] S(2) by simp
  from onMarketUpdate_ok [OF S(1) up] obtain b S' where b:
    "onMarketUpdate u (te_books e ! ?t) = Inr (if mu_type u = TRADE then OnTradeUpdate u
       else OnOrderBookUpdate (mu_ticker_id u) (mu_price u) (mu_side u), b)" "mk_struct b S'" "base_price b = base_price (te_books e ! ?t)"
    "mview b S' BUY = mkt_spec u (mview (te_books e ! ?t) S) BUY" "mview b S' SELL = mkt_spec u (mview (te_books e ! ?t) S) SELL"
    by blast
  have "mview b S' s = fold mkt_spec (updates_for ?t (us @ [u])) (\<lambda>_. []) s" if "trading_side s" for s
    using b(4,5) mkt_spec_cong(3) [OF V, of s u] that by (auto simp: trading_side_def)
  then show ?thesis using b(1-3) S(2) by (intro exI conjI) auto
qed

lemma books_follow_update:
  assumes f: "books_follow base us e" and ok: "streams_ok base (us @ [u])" and m: "te_onMarketUpdate u e = Inr e'"
  shows "books_follow base (us @ [u]) e'"
proof -
  let ?t = "unat (mu_ticker_id u)"
  obtain b S where b: "te_books e' = (te_books e)[?t := b]" "mk_struct b S" "base_price b = base ?t"
    "\<forall>s. trading_side s \<longrightarrow> mview b S s = fold mkt_spec (updates_for ?t (us @ [u])) (\<lambda>_. []) s"
    using next_update_ok [OF f ok] te_update_books [OF m] by auto
  have len: "length (te_books e) = ME_MAX_TICKERS" using f by (simp add: books_follow_def)
  have "\<exists>S. mk_struct (te_books e' ! t) S \<and> base_price (te_books e' ! t) = base t \<and>
        (\<forall>s. trading_side s \<longrightarrow> mview (te_books e' ! t) S s = fold mkt_spec (updates_for t (us @ [u])) (\<lambda>_. []) s)"
    if t: "t < ME_MAX_TICKERS" for t
  proof (cases "t = ?t")
    case True
    then have "te_books e' ! t = b" using t len b(1) by simp
    then show ?thesis using b(2-4) True by blast
  next
    case False
    then have "te_books e' ! t = te_books e ! t" using b(1) by simp
    moreover have "updates_for t (us @ [u]) = updates_for t us" using False by simp
    ultimately show ?thesis using f t unfolding books_follow_def by metis
  qed
  then show ?thesis using len b(1) by (simp add: books_follow_def)
qed

subsection \<open>No update stops the engine\<close>

lemma te_moveOrders_completes:
  assumes ok: "te_safe e" and t: "\<And>q'. q = Some q' \<Longrightarrow> unat (q_ticker q') < ME_MAX_TICKERS"
  shows "\<exists>e'. te_moveOrders q e = Inr e'"
proof (cases q)
  case None
  then show ?thesis by (simp add: te_moveOrders_def)
next
  case (Some q')
  let ?t = "q_ticker q'" and ?s = "(te_risk e, te_positions e)"
  have t: "unat ?t < ME_MAX_TICKERS" using t Some by simp
  have r: "risk_ready ?s ?t" and l: "limit_of ?s ?t = te_limit (unat ?t) e" and p: "position_of ?s ?t = te_position (unat ?t) e"
    using ok t by (simp_all add: risk_ready_def te_safe_def limit_of_def te_limit_def position_of_def te_position_def)
  have "exposed (limit_of ?s ?t) (position_of ?s ?t) (unat ?t) (te_orders e)" using ok t l p by (simp add: te_safe_def)
  from risk.moveOrders_exposed [OF r t this, of "te_client_id e" "q_bid q'" "q_ask q'" "q_clip q'"]
  show ?thesis using Some by (auto simp: te_moveOrders_def)
qed

lemma quote_ticker:
  "unat tk < ME_MAX_TICKERS \<Longrightarrow> \<exists>q. mm_onOrderBookUpdate cfg tk x fe = Inr q \<and> (\<forall>q'. q = Some q' \<longrightarrow> q_ticker q' = tk)"
  "unat (mu_ticker_id u) < ME_MAX_TICKERS \<Longrightarrow> \<exists>q. lt_onTradeUpdate cfg u x fe = Inr q \<and> (\<forall>q'. q = Some q' \<longrightarrow> q_ticker q' = mu_ticker_id u)"
  by (auto simp: mm_onOrderBookUpdate_def lt_onTradeUpdate_def Let_def)

lemma algo_completes:
  assumes ok: "te_safe e"
  shows "unat (mu_ticker_id v) < ME_MAX_TICKERS \<Longrightarrow> \<exists>e'. algoOnTradeUpdate v x e = Inr e'"
    "unat tk < ME_MAX_TICKERS \<Longrightarrow> \<exists>e'. algoOnOrderBookUpdate tk x e = Inr e'"
proof -
  assume t: "unat (mu_ticker_id v) < ME_MAX_TICKERS"
  from quote_ticker(2) [OF t] obtain q where q: "lt_onTradeUpdate (te_cfg e) v x (te_features e) = Inr q"
    "\<forall>q'. q = Some q' \<longrightarrow> q_ticker q' = mu_ticker_id v" by blast
  have "\<exists>e'. te_moveOrders q e = Inr e'" by (rule te_moveOrders_completes [OF ok]) (use q(2) t in auto)
  then show "\<exists>e'. algoOnTradeUpdate v x e = Inr e'" using q(1) by (simp add: algoOnTradeUpdate_def)
next
  assume t: "unat tk < ME_MAX_TICKERS"
  from quote_ticker(1) [OF t] obtain q where q: "mm_onOrderBookUpdate (te_cfg e) tk x (te_features e) = Inr q"
    "\<forall>q'. q = Some q' \<longrightarrow> q_ticker q' = tk" by blast
  have "\<exists>e'. te_moveOrders q e = Inr e'" by (rule te_moveOrders_completes [OF ok]) (use q(2) t in auto)
  then show "\<exists>e'. algoOnOrderBookUpdate tk x e = Inr e'" using q(1) by (simp add: algoOnOrderBookUpdate_def)
qed

lemma te_update_completes:
  assumes ok: "te_safe e" and f: "books_follow base us e" and s: "streams_ok base (us @ [u])"
  shows "\<exists>e'. te_onMarketUpdate u e = Inr e'"
proof -
  let ?t = "unat (mu_ticker_id u)"
  obtain b where b: "onMarketUpdate u (te_books e ! ?t) = Inr (if mu_type u = TRADE then OnTradeUpdate u
       else OnOrderBookUpdate (mu_ticker_id u) (mu_price u) (mu_side u), b)" using next_update_ok [OF f s] by blast
  let ?e1 = "e\<lparr>te_books := (te_books e)[?t := b]\<rparr>"
  have t: "?t < ME_MAX_TICKERS" "?t < length (te_books e)" "?t < length (te_positions e)"
    using s f ok by (simp_all add: streams_ok_def books_follow_def te_safe_def)
  have ok1: "te_safe ?e1" using ok by (rule te_safe_cong) simp_all
  show ?thesis
  proof (cases "mu_type u = TRADE")
    case True
    let ?e2 = "?e1\<lparr>te_features := fe_onTradeUpdate u (bbo b) (te_features ?e1)\<rparr>"
    have "te_safe ?e2" using ok1 by (rule te_safe_cong) simp_all
    from algo_completes(1) [OF this t(1)] show ?thesis using True b t(2) by (simp add: te_onMarketUpdate_def te_onTradeUpdate_def)
  next
    case False
    define pk where "pk = (te_positions e)[?t := pos_updateBBO (bbo b) (te_positions e ! ?t)]"
    let ?e2 = "?e1\<lparr>te_positions := pk, te_features := fe_onOrderBookUpdate (bbo b) (te_features ?e1)\<rparr>"
    have "position (pk ! i) = position (te_positions e ! i)" for i using t(3) by (simp add: pk_def nth_list_update)
    then have "te_safe ?e2" by (intro te_safe_cong [OF ok1]) (simp_all add: pk_def)
    from algo_completes(2) [OF this t(1)] show ?thesis
      using False b t(2,3) by (simp add: te_onMarketUpdate_def te_onOrderBookUpdate_def pk_updateBBO_def pk_def [symmetric] Let_def)
  qed
qed

lemma te_run_ok:
  assumes "te_run us e e'" and "te_safe e" and "books_follow base [] e" and "streams_ok base us"
  shows "te_safe e' \<and> books_follow base us e'"
  using assms
proof (induction rule: te_run.induct)
  case (response us e e1 r e2)
  then have "te_safe e1 \<and> books_follow base us e1" by simp
  then show ?case using te_response_safe [OF _ response.hyps(2,3)] te_response_books [OF response.hyps(3)] by (simp add: books_follow_def)
next
  case (update us e e1 u e2)
  then have "te_safe e1 \<and> books_follow base us e1" using streams_ok_prefix by blast
  then show ?case using te_update_safe [OF _ update.hyps(2)] books_follow_update [OF _ update.prems(3) update.hyps(2)] by simp
qed simp

lemma books_follow_new: "books_follow base [] (trade_engine_new client algo cfg base (\<lambda>_ _. None) (\<lambda>_ _. None) vwaps)"
proof -
  have "te_books (trade_engine_new client algo cfg base (\<lambda>_ _. None) (\<lambda>_ _. None) vwaps) ! t = fresh_market_book (word_of_nat t) (base t)"
    if "t < ME_MAX_TICKERS" for t using that by (simp add: trade_engine_new_def fresh_market_book_def)
  then show ?thesis unfolding books_follow_def
    by (auto simp: mview_empty intro!: exI [of _ "\<lambda>_. []"]) (simp add: trade_engine_new_def)
qed

subsection \<open>Behind the exchange\<close>

text \<open>Sessions of the exchange's books, one for each instrument.\<close>

definition exchange_session :: "(nat \<Rightarrow> Price) \<Rightarrow> (nat \<Rightarrow> MEClientRequest list) \<Rightarrow> (nat \<Rightarrow> me_order_book) \<Rightarrow> bool" where
  "exchange_session base rs b \<longleftrightarrow> (\<forall>t < ME_MAX_TICKERS. (\<forall>r \<in> set (rs t). request_ok (word_of_nat t) (base t) r) \<and>
     length (rs t) < ME_MAX_ORDER_IDS \<and> distinct (new_ids (rs t)) \<and>
     foldE book_request (rs t) (fresh_book (word_of_nat t) (base t)) = Inr (b t))"

lemma session_stream:
  assumes x: "exchange_session base rs b" and t: "t < ME_MAX_TICKERS"
  shows "updates_ok (base t) (updates_of (outbox (b t))) (\<lambda>_. [])" "u \<in> set (updates_of (outbox (b t))) \<Longrightarrow> unat (mu_ticker_id u) = t"
    "\<exists>S. me_inv (b t) S \<and> (\<forall>s. trading_side s \<longrightarrow> fold mkt_spec (updates_of (outbox (b t))) (\<lambda>_. []) s = map to_market (view (b t) S s))"
proof -
  have r: "\<forall>r \<in> set (rs t). request_ok (word_of_nat t) (base t) r" "length (rs t) < ME_MAX_ORDER_IDS" "distinct (new_ids (rs t))"
    "foldE book_request (rs t) (fresh_book (word_of_nat t) (base t)) = Inr (b t)"
    using x t by (simp_all add: exchange_session_def)
  note u = session_updates [OF r]
  show "updates_ok (base t) (updates_of (outbox (b t))) (\<lambda>_. [])" by (rule u(1))
  have "unat (word_of_nat t :: TickerId) = t" using t by (simp add: ME_MAX_TICKERS_def unat_of_nat)
  then show "u \<in> set (updates_of (outbox (b t))) \<Longrightarrow> unat (mu_ticker_id u) = t" using u(2) by auto
  show "\<exists>S. me_inv (b t) S \<and> (\<forall>s. trading_side s \<longrightarrow> fold mkt_spec (updates_of (outbox (b t))) (\<lambda>_. []) s = map to_market (view (b t) S s))"
    by (rule u(3))
qed

text \<open>The updates seen of each instrument are the first of those its book published.\<close>

definition seen :: "(nat \<Rightarrow> me_order_book) \<Rightarrow> MEMarketUpdate list \<Rightarrow> bool" where
  "seen b us \<longleftrightarrow> (\<forall>u \<in> set us. unat (mu_ticker_id u) < ME_MAX_TICKERS) \<and>
     (\<forall>t < ME_MAX_TICKERS. \<exists>rest. updates_of (outbox (b t)) = updates_for t us @ rest)"

lemma seen_streams: "exchange_session base rs b \<Longrightarrow> seen b us \<Longrightarrow> streams_ok base us"
  using session_stream(1) unfolding seen_def streams_ok_def by (metis updates_ok_append)

lemma seen_next:
  assumes "exchange_session base rs b" and "seen b us" and "t < ME_MAX_TICKERS" and "updates_of (outbox (b t)) = updates_for t us @ u # rest"
  shows "seen b (us @ [u])"
proof -
  have u: "unat (mu_ticker_id u) = t" using session_stream(2) [OF assms(1,3), of u] assms(4) by simp
  have "\<exists>rest. updates_of (outbox (b s)) = updates_for s (us @ [u]) @ rest" if "s < ME_MAX_TICKERS" for s
    using assms(2,4) that u by (cases "s = t") (auto simp: seen_def)
  then show ?thesis using assms(2,3) u by (auto simp: seen_def)
qed

text \<open>
  C5. The engine can always go on, and its books are the exchange's: let every book of the exchange run any well-formed
  session, and let the engine take the books' updates, each book's in order and otherwise interleaved in any way with each
  other and with responses about its orders. The next update of any instrument and the next response never stop it, and
  once it has seen all updates of an instrument its book has exactly the exchange's resting orders, in the same order.
\<close>

theorem engine_follows_exchange:
  assumes "cfgs_ok cfg" and "algo = MAKER \<or> algo = TAKER" and "exchange_session base rs b" and "seen b us"
    and "te_run us (trade_engine_new client algo cfg base (\<lambda>_ _. None) (\<lambda>_ _. None) vwaps) e" and "t < ME_MAX_TICKERS"
  shows "(updates_of (outbox (b t)) = updates_for t us @ u # rest \<longrightarrow> (\<exists>e'. te_onMarketUpdate u e = Inr e')) \<and>
    (response_ok r (te_orders e) \<longrightarrow> (\<exists>e'. te_onOrderUpdate r e = Inr e')) \<and>
    (updates_of (outbox (b t)) = updates_for t us \<longrightarrow>
      (\<exists>S T. me_inv (b t) S \<and> mk_struct (te_books e ! t) T \<and> mview (te_books e ! t) T BUY = map to_market (view (b t) S BUY) \<and>
         mview (te_books e ! t) T SELL = map to_market (view (b t) S SELL)))"
proof -
  have ok: "te_safe e" "books_follow base us e"
    using te_run_ok [OF assms(5) te_safe_new [OF assms(1,2)] books_follow_new seen_streams [OF assms(3,4)]] by simp_all
  have "\<exists>e'. te_onMarketUpdate u e = Inr e'" if "updates_of (outbox (b t)) = updates_for t us @ u # rest"
    by (rule te_update_completes [OF ok seen_streams [OF assms(3) seen_next [OF assms(3,4,6) that]]])
  moreover have "\<exists>e'. te_onOrderUpdate r e = Inr e'" if "response_ok r (te_orders e)"
    using te_response_never_fails [OF ok(1)] that by (simp add: response_ok_def)
  moreover have "\<exists>S T. me_inv (b t) S \<and> mk_struct (te_books e ! t) T \<and> mview (te_books e ! t) T BUY = map to_market (view (b t) S BUY) \<and>
         mview (te_books e ! t) T SELL = map to_market (view (b t) S SELL)" if "updates_of (outbox (b t)) = updates_for t us"
  proof -
    obtain S where "me_inv (b t) S" "\<forall>s. trading_side s \<longrightarrow> fold mkt_spec (updates_of (outbox (b t))) (\<lambda>_. []) s = map to_market (view (b t) S s)"
      using session_stream(3) [OF assms(3,6)] by blast
    moreover obtain T where "mk_struct (te_books e ! t) T"
      "\<forall>s. trading_side s \<longrightarrow> mview (te_books e ! t) T s = fold mkt_spec (updates_for t us) (\<lambda>_. []) s"
      using ok(2) assms(6) unfolding books_follow_def by blast
    ultimately show ?thesis using that by (intro exI [of _ S] exI [of _ T]) (simp add: trading_side_def)
  qed
  ultimately show ?thesis by blast
qed

definition demo_sessions :: "nat \<Rightarrow> MEClientRequest list" where
  "demo_sessions t = (if t = 0 then demo_requests else [])"

theorem engine_follows_exchange_witness:
  "\<exists>b e. foldE book_request demo_requests (fresh_book 0 0) = Inr b \<and> length (updates_of (outbox b)) = 4 \<and>
     te_run (updates_of (outbox b)) (trade_engine_new 7 MAKER (\<lambda>_. default_cfg\<lparr>risk_cfg := demo_cfg\<rparr>) (\<lambda>_. 0) (\<lambda>_ _. None) (\<lambda>_ _. None) (\<lambda>_ _. Fin 0)) e"
proof -
  let ?cfg = "\<lambda>_. default_cfg\<lparr>risk_cfg := demo_cfg\<rparr>" and ?rs = demo_sessions
  let ?e0 = "trade_engine_new 7 MAKER ?cfg (\<lambda>_. 0) (\<lambda>_ _. None) (\<lambda>_ _. None) (\<lambda>_ _. Fin 0)"
  obtain d where d: "foldE book_request demo_requests (fresh_book 0 0) = Inr d" "length (updates_of (outbox d)) = 4"
    using demo_session by blast
  define b where "b t = (if t = 0 then d else fresh_book (word_of_nat t) 0)" for t :: nat
  have c: "cfgs_ok ?cfg" by (simp add: cfgs_ok_def limits_ok_def demo_cfg_def)
  have x: "exchange_session (\<lambda>_. 0) ?rs b" using d(1) demo_requests_ok
    by (auto simp: exchange_session_def demo_sessions_def b_def new_ids_def ME_MAX_ORDER_IDS_def)
  have p: "updates_for 0 (updates_of (outbox d)) = updates_of (outbox d)"
    using session_stream(2) [OF x, of 0] by (simp add: ME_MAX_TICKERS_def b_def updates_for_def filter_id_conv)
  have tk: "\<forall>u \<in> set (updates_of (outbox d)). unat (mu_ticker_id u) = 0"
    using session_stream(2) [OF x, of 0] by (simp add: ME_MAX_TICKERS_def b_def)
  have z: "updates_for t (take k (updates_of (outbox d))) = (if t = 0 then take k (updates_of (outbox d)) else [])" for t k
    using tk by (auto simp: updates_for_def filter_id_conv filter_empty_conv dest: in_set_takeD)
  have s: "seen b (take k (updates_of (outbox d)))" for k
    using tk by (auto simp: seen_def z b_def ME_MAX_TICKERS_def dest: in_set_takeD intro!: exI [of _ "drop k (updates_of (outbox d))"])
  have "\<exists>e. te_run (take k (updates_of (outbox d))) ?e0 e" if "k \<le> 4" for k using that
  proof (induction k)
    case 0
    then show ?case using te_run.start by auto
  next
    case (Suc k)
    then obtain e where e: "te_run (take k (updates_of (outbox d))) ?e0 e" by auto
    let ?u = "updates_of (outbox d) ! k"
    have cut: "updates_of (outbox (b 0)) = updates_for 0 (take k (updates_of (outbox d))) @ ?u # drop (Suc k) (updates_of (outbox d))"
      using Suc.prems d(2) by (simp add: z b_def id_take_nth_drop [symmetric])
    have "(0 :: nat) < ME_MAX_TICKERS" by (simp add: ME_MAX_TICKERS_def)
    from engine_follows_exchange [OF c _ x s e this, of ?u] cut obtain e' where "te_onMarketUpdate ?u e = Inr e'" by blast
    from te_run.update [OF e this] show ?case using Suc.prems d(2) by (auto simp: take_Suc_conv_app_nth)
  qed
  from this [of 4] d show ?thesis by auto
qed

end
