(* ===== verification/ExchangeWires.thy ===== *)
theory ExchangeWires
  imports OrderWires MatchingEngine
begin

text \<open>
  The exchange as the party that answers an order manager: what a client has standing in a book are its resting orders,
  and adding, matching and cancelling, of the client's own orders and of anyone else's, keep \<open>wired\<close>.

  \<^item> Everything here is about the specification of the book, \<open>MEBookSpec\<close>; \<open>ExchangeLoop\<close> carries it over to the code.
  \<^item> A client is told of its orders only: \<open>for_client\<close> picks its responses.
\<close>

subsection \<open>A client's orders and responses\<close>

definition for_client :: "ClientId \<Rightarrow> MEClientResponse list \<Rightarrow> MEClientResponse list" where
  "for_client c = filter (\<lambda>u. rs_client_id u = c)"

lemma for_client_simps [simp]:
  "for_client c [] = []" "for_client c (us @ vs) = for_client c us @ for_client c vs"
  "for_client c (u # us) = (if rs_client_id u = c then u # for_client c us else for_client c us)"
  by (simp_all add: for_client_def)

definition order_entry :: "nat \<Rightarrow> MEOrder \<Rightarrow> slot \<times> OrderId \<times> Qty" where
  "order_entry t x = ((t, sideToIndex (o_side x)), client_order_id x, o_qty x)"

definition resting :: "ClientId \<Rightarrow> nat \<Rightarrow> MEOrder list \<Rightarrow> standing" where
  "resting c t xs = map (order_entry t) (filter (\<lambda>x. client_id x = c) xs)"

lemma resting_simps [simp]:
  "resting c t [] = []" "resting c t (xs @ ys) = resting c t xs @ resting c t ys"
  "resting c t (x # xs) = (if client_id x = c then order_entry t x # resting c t xs else resting c t xs)"
  by (simp_all add: resting_def)

definition book_standing :: "ClientId \<Rightarrow> nat \<Rightarrow> view \<Rightarrow> standing" where
  "book_standing c t A = resting c t (A BUY) @ resting c t (A SELL)"

lemma book_standing_sides: "trading_side s \<Longrightarrow> mset (book_standing c t A) = mset (resting c t (A s) @ resting c t (A (opp s)))"
  by (auto simp: book_standing_def trading_side_def)

lemma resting_insert: "mset (resting c t (queue_insert s key x xs)) = mset (resting c t [x] @ resting c t xs)"
proof -
  let ?P = "\<lambda>y. \<not> ahead s (key x) (key y)"
  have e: "resting c t xs = resting c t (takeWhile ?P xs) @ resting c t (dropWhile ?P xs)"
    by (metis resting_simps(2) takeWhile_dropWhile_id)
  show ?thesis unfolding e by (simp add: queue_insert_def)
qed

lemma responses_of_simps [simp]:
  "responses_of [] = []" "responses_of (Response r # evs) = r # responses_of evs" "responses_of (Update u # evs) = responses_of evs"
  "responses_of (evs @ evs') = responses_of evs @ responses_of evs'"
  by (simp_all add: responses_of_def)

subsection \<open>Matching\<close>

text \<open>What stands of an incoming order while it is matched, if it is the client's.\<close>

definition incoming :: "ClientId \<Rightarrow> ClientId \<Rightarrow> slot \<Rightarrow> OrderId \<Rightarrow> Qty \<Rightarrow> standing" where
  "incoming c client k coid leaves = (if client = c then rest_of k coid leaves else [])"

lemma wired_one_fill:
  assumes w: "wired so om reqs R (incoming c client (t, sideToIndex side) coid leaves @ resting c t (x # xs) @ L)"
    and t: "unat ticker = t" and f: "fill \<noteq> 0" "fill \<le> leaves" "fill \<le> o_qty x"
    and r1: "rs_type r1 = FILLED" "rs_client_id r1 = client" "rs_ticker_id r1 = ticker" "rs_side r1 = side" "rs_exec_qty r1 = fill"
      "rs_leaves_qty r1 = leaves - fill"
    and r2: "rs_type r2 = FILLED" "rs_client_id r2 = client_id x" "rs_ticker_id r2 = ticker" "rs_side r2 = o_side x" "rs_exec_qty r2 = fill"
      "rs_leaves_qty r2 = o_qty x - fill"
  shows "wired so om reqs (R @ for_client c [r1, r2]) (incoming c client (t, sideToIndex side) coid (leaves - fill) @
    (if client_id x = c then rest_of (t, sideToIndex (o_side x)) (client_order_id x) (o_qty x - fill) else []) @ resting c t xs @ L)"
proof -
  let ?k = "(t, sideToIndex side)" and ?j = "(t, sideToIndex (o_side x))"
  have sub: "unat a + unat (b - a) \<le> unat b" if "a \<le> b" for a b :: Qty using that by (simp add: unat_sub word_le_nat_alt)
  have l: "leaves \<noteq> 0" using f(1,2) by auto
  have w1: "wired so om reqs (R @ for_client c [r1]) (incoming c client ?k coid (leaves - fill) @ resting c t (x # xs) @ L)"
  proof (cases "client = c")
    case True
    then have "wired so om reqs R ((?k, coid, leaves) # resting c t (x # xs) @ L)" using w l by (simp add: incoming_def rest_of_def)
    from wired_fill [OF this, of r1] show ?thesis
      using True r1 f(1) sub [OF f(2)] t by (simp add: incoming_def rs_slot_def)
  qed (use w r1(2) in \<open>simp add: incoming_def\<close>)
  show ?thesis
  proof (cases "client_id x = c")
    case True
    let ?I = "incoming c client ?k coid (leaves - fill)"
    have "wired so om reqs (R @ for_client c [r1]) ((?j, client_order_id x, o_qty x) # ?I @ resting c t xs @ L)"
      using w1 by (rule wired_rotate) (simp add: True order_entry_def)
    from wired_fill [OF this, of r2] have
      "wired so om reqs ((R @ for_client c [r1]) @ [r2]) (rest_of ?j (client_order_id x) (o_qty x - fill) @ ?I @ resting c t xs @ L)"
      using r2 f(1) sub [OF f(3)] t by (simp add: rs_slot_def)
    then have "wired so om reqs ((R @ for_client c [r1]) @ [r2]) (?I @ rest_of ?j (client_order_id x) (o_qty x - fill) @ resting c t xs @ L)"
      by (rule wired_rotate) simp
    then show ?thesis using True r2(2) by (simp split: if_splits)
  qed (use w1 r2(2) in \<open>simp split: if_splits\<close>)
qed

lemma wired_match:
  assumes "spec_match ticker client side price coid new_id leaves xs = (leaves', xs', evs)" and "\<forall>x \<in> set xs. o_qty x \<noteq> 0" and "unat ticker = t"
    and "wired so om reqs R (incoming c client (t, sideToIndex side) coid leaves @ resting c t xs @ L)"
  shows "wired so om reqs (R @ for_client c (responses_of evs)) (incoming c client (t, sideToIndex side) coid leaves' @ resting c t xs' @ L)"
  using assms
proof (induction xs arbitrary: leaves leaves' xs' evs R)
  case Nil
  then show ?case by simp
next
  case (Cons x xs)
  show ?case
  proof (cases "leaves = 0 \<or> outside side price (o_price x)")
    case True
    then show ?thesis using Cons.prems by auto
  next
    case False
    let ?f = "min leaves (o_qty x)" and ?x = "x\<lparr>o_qty := o_qty x - min leaves (o_qty x)\<rparr>"
    let ?e = "fill_events ticker client side coid new_id ?f (leaves - ?f) ?x"
    obtain r1 r2 where r: "responses_of ?e = [r1, r2]"
      "rs_type r1 = FILLED" "rs_client_id r1 = client" "rs_ticker_id r1 = ticker" "rs_side r1 = side" "rs_exec_qty r1 = ?f"
      "rs_leaves_qty r1 = leaves - ?f"
      "rs_type r2 = FILLED" "rs_client_id r2 = client_id x" "rs_ticker_id r2 = ticker" "rs_side r2 = o_side x" "rs_exec_qty r2 = ?f"
      "rs_leaves_qty r2 = o_qty x - ?f"
      by (simp add: fill_events_def)
    have f: "?f \<noteq> 0" using False Cons.prems(2) by (simp add: min_def)
    note one = wired_one_fill [OF Cons.prems(4,3) f _ _ r(2-), OF min.cobounded1 min.cobounded2]
    show ?thesis
    proof (cases "o_qty ?x = 0")
      case True
      obtain l1 x1 e1 where m: "spec_match ticker client side price coid new_id (leaves - ?f) xs = (l1, x1, e1)" by (metis prod_cases3)
      have e: "leaves' = l1" "xs' = x1" "responses_of evs = [r1, r2] @ responses_of e1"
        using Cons.prems(1) False True m r(1) by (auto simp: Let_def)
      have rest: "(if client_id x = c then rest_of (t, sideToIndex (o_side x)) (client_order_id x) (o_qty x - ?f) else []) = []"
        using True by (simp add: rest_of_def)
      have w1: "wired so om reqs (R @ for_client c [r1, r2]) (incoming c client (t, sideToIndex side) coid (leaves - ?f) @ resting c t xs @ L)"
        using one unfolding rest append_Nil .
      have nz: "\<forall>x \<in> set xs. o_qty x \<noteq> 0" using Cons.prems(2) by simp
      from Cons.IH [OF m nz Cons.prems(3) w1] show ?thesis unfolding e for_client_simps(2) append_assoc .
    next
      case left: False
      have e: "leaves' = leaves - ?f" "xs' = ?x # xs" "responses_of evs = [r1, r2]"
        using Cons.prems(1) False left r(1) by (auto simp: Let_def)
      show ?thesis using one left unfolding e by (simp add: rest_of_def order_entry_def split: if_splits)
    qed
  qed
qed

subsection \<open>Requests\<close>

lemma wired_add:
  assumes a: "spec_add client coid ticker side price qty n A = (A', evs)" and s: "trading_side side" and t: "unat ticker = t"
    and nz: "\<forall>x \<in> set (A (opp side)). o_qty x \<noteq> 0"
    and w: "wired so om reqs (R @ for_client c [accepted]) (incoming c client (t, sideToIndex side) coid qty @ book_standing c t A @ L)"
    and acc: "accepted = \<lparr>rs_type = ACCEPTED, rs_client_id = client, rs_ticker_id = ticker, rs_client_order_id = coid,
      rs_market_order_id = n, rs_side = side, rs_price = price, rs_exec_qty = 0, rs_leaves_qty = qty\<rparr>"
  shows "wired so om reqs (R @ for_client c (responses_of evs)) (book_standing c t A' @ L)"
proof -
  let ?I = "incoming c client (t, sideToIndex side) coid"
  obtain leaves xs' me where m: "spec_match ticker client side price coid (ucast (ucast n :: 32 word)) qty (A (opp side)) = (leaves, xs', me)"
    by (metis prod_cases3)
  note sa = spec_add_simps [where A = A, OF m]
  have o: "opp side \<noteq> side" using s by simp
  have evs: "responses_of evs = accepted # responses_of me" using sa(2) a by (simp add: acc)
  have "wired so om reqs (R @ for_client c [accepted]) (?I qty @ resting c t (A (opp side)) @ (resting c t (A side) @ L))"
    using w by (rule wired_rotate) (simp add: book_standing_sides [OF s])
  from wired_match [OF m nz t this] have
    m': "wired so om reqs (R @ for_client c (responses_of evs)) (?I leaves @ resting c t xs' @ (resting c t (A side) @ L))"
    by (simp add: evs split: if_splits)
  then show ?thesis
  proof (rule wired_rotate)
    let ?x = "spec_new_order ticker client side price coid n leaves (A side)"
    have A': "A' (opp side) = xs'" "A' side = (if leaves = 0 then A side else queue_insert side o_price ?x (A side))"
      using sa(1) a o by auto
    have x: "mset (resting c t [?x]) = mset (?I leaves)" if "leaves \<noteq> 0"
      using that by (simp add: incoming_def rest_of_def order_entry_def spec_new_order_def)
    have "mset (resting c t (A' side)) = mset (?I leaves) + mset (resting c t (A side))"
      using x by (cases "leaves = 0") (simp_all add: A'(2) resting_insert incoming_def rest_of_def)
    then show "mset (?I leaves @ resting c t xs' @ resting c t (A side) @ L) = mset (book_standing c t A' @ L)"
      by (simp add: book_standing_sides [OF s] A'(1))
  qed
qed

lemma find_owned_None: "find (owned_by c i) xs = None \<longleftrightarrow> (\<forall>x \<in> set xs. \<not> owned_by c i x)"
  by (metis find_None_iff)

lemma resting_ids: "(k, i, q) \<in> set (resting c t xs) \<longleftrightarrow> (\<exists>x \<in> set xs. owned_by c i x \<and> (k, i, q) = order_entry t x)"
  by (auto simp: resting_def owned_by_def order_entry_def)

lemma resting_filter: "filter (\<lambda>y. fst (snd y) \<noteq> i) (resting c t xs) = resting c t (filter (\<lambda>x. \<not> owned_by c i x) xs)"
  by (induction xs) (auto simp: order_entry_def owned_by_def)

text \<open>A cancel by the client.\<close>

lemma wired_own_cancel:
  assumes a: "spec_cancel c i ticker A = (A', evs)" and t: "unat ticker = t" "unat (rq_ticker_id r) = t" "rq_ticker_id r = ticker"
    and r: "rq_type r = Request_CANCEL" "rq_order_id r = i"
    and sides: "\<forall>x \<in> set (A BUY). o_side x = BUY" "\<forall>x \<in> set (A SELL). o_side x = SELL"
    and w: "wired so om (r # reqs) R (book_standing c t A @ L)" and L: "\<forall>x \<in> set L. fst (fst x) \<noteq> t"
  shows "wired so om reqs (R @ for_client c (responses_of evs)) (book_standing c t A' @ L)"
proof -
  let ?B = "book_standing c t A" and ?k = "rq_slot r"
  have own: "fst x = ?k" if "x \<in> set (?B @ L)" "fst (snd x) = i" for x
  proof -
    have k: "so (rq_order_id r) = ?k" using w by (simp add: wired_def)
    show ?thesis using wired_entry [OF w that(1)] that(2) k r(2) by simp
  qed
  have Lno: "fst (snd x) \<noteq> i" if "x \<in> set L" for x using own [of x] L that t(2) by (auto simp: rq_slot_def)
  then have LL: "filter (\<lambda>x. fst (snd x) \<noteq> i) L = L" by (simp add: filter_id_conv)
  have ids: "i \<in> fst ` snd ` set (?B @ L) \<longleftrightarrow> (\<exists>x \<in> set (A BUY @ A SELL). owned_by c i x)"
  proof
    assume "i \<in> fst ` snd ` set (?B @ L)"
    then obtain y where y: "y \<in> set (?B @ L)" "fst (snd y) = i" by (elim imageE) simp
    have "y \<notin> set L" using Lno y(2) by blast
    then have "y \<in> set ?B" using y(1) by simp
    then show "\<exists>x \<in> set (A BUY @ A SELL). owned_by c i x"
      using y(2) resting_ids [of "fst y" i "snd (snd y)" c t] by (auto simp: book_standing_def)
  next
    assume "\<exists>x \<in> set (A BUY @ A SELL). owned_by c i x"
    then obtain x where "x \<in> set (A BUY @ A SELL)" "client_id x = c" "client_order_id x = i" by (auto simp: owned_by_def)
    then have "order_entry t x \<in> set ?B" "fst (snd (order_entry t x)) = i" by (auto simp: book_standing_def resting_def order_entry_def)
    then show "i \<in> fst ` snd ` set (?B @ L)" by force
  qed
  have fB: "filter (\<lambda>x. fst (snd x) \<noteq> i) (?B @ L) =
      resting c t (filter (\<lambda>x. \<not> owned_by c i x) (A BUY)) @ resting c t (filter (\<lambda>x. \<not> owned_by c i x) (A SELL)) @ L"
    by (simp add: book_standing_def resting_filter LL)
  show ?thesis
  proof (cases "find (owned_by c i) (A BUY @ A SELL)")
    case None
    then have none: "\<forall>x \<in> set (A BUY @ A SELL). \<not> owned_by c i x" by (simp add: find_owned_None)
    have e: "A' = A" "responses_of evs = [case cancel_rejected c i ticker of Response a \<Rightarrow> a]"
      using a None by (auto simp: spec_cancel_def cancel_rejected_def)
    define x where "x = (case cancel_rejected c i ticker of Response a \<Rightarrow> a)"
    have x: "rs_type x = CANCEL_REJECTED" "rs_ticker_id x = ticker" "rs_client_order_id x = i" "rs_client_id x = c"
      by (simp_all add: x_def cancel_rejected_def)
    from wired_take_cancel(1) [OF w r(1), of x] x t(3) r(2) ids none
    have "wired so om reqs (R @ [x]) (filter (\<lambda>x. fst (snd x) \<noteq> i) (?B @ L))" by auto
    moreover have "filter (\<lambda>x. fst (snd x) \<noteq> i) (?B @ L) = ?B @ L"
      unfolding fB using none by (simp add: book_standing_def filter_id_conv)
    ultimately show ?thesis using x(4) by (simp add: e x_def [symmetric])
  next
    case (Some z)
    then have z: "z \<in> set (A BUY @ A SELL)" "owned_by c i z" by (metis find_Some_iff nth_mem)+
    let ?a = "\<lparr>rs_type = CANCELED, rs_client_id = c, rs_ticker_id = ticker, rs_client_order_id = i,
        rs_market_order_id = market_order_id z, rs_side = o_side z, rs_price = o_price z,
        rs_exec_qty = Qty_INVALID, rs_leaves_qty = o_qty z\<rparr>"
    have e: "A' = A(o_side z := filter (\<lambda>y. \<not> owned_by c i y) (A (o_side z)))" "responses_of evs = [?a]"
      using a Some by (auto simp: spec_cancel_def cancel_events_def)
    have slot: "(t, sideToIndex (o_side y)) = ?k" if "y \<in> set (A BUY @ A SELL)" "owned_by c i y" for y
    proof -
      have "order_entry t y \<in> set (?B @ L)" "fst (snd (order_entry t y)) = i"
        using that by (auto simp: book_standing_def resting_def order_entry_def owned_by_def)
      from own [OF this] show ?thesis by (simp add: order_entry_def)
    qed
    have side: "o_side y = o_side z" if "y \<in> set (A BUY @ A SELL)" "owned_by c i y" for y
      using slot [OF that] slot [OF z] sideToIndex_inj [of "o_side y" "o_side z"] by (metis prod.inject)
    have "wired so om reqs (R @ [?a]) (filter (\<lambda>x. fst (snd x) \<noteq> rq_order_id r) (?B @ L))"
      by (rule wired_take_cancel(1) [OF w r(1)])
        (use z ids slot [OF z] t r(2) in \<open>auto simp: rs_slot_def simp del: sideToIndex_simps\<close>)
    moreover have "filter (\<lambda>x. fst (snd x) \<noteq> rq_order_id r) (?B @ L) = book_standing c t A' @ L"
    proof -
      consider "o_side z = BUY" "z \<in> set (A BUY)" | "o_side z = SELL" "z \<in> set (A SELL)" using z(1) sides by auto
      then show ?thesis unfolding r(2) fB
      proof cases
        case 1
        then have "filter (\<lambda>x. \<not> owned_by c i x) (A SELL) = A SELL" using side sides by (fastforce simp: filter_id_conv)
        then show "resting c t (filter (\<lambda>x. \<not> owned_by c i x) (A BUY)) @ resting c t (filter (\<lambda>x. \<not> owned_by c i x) (A SELL)) @ L =
            book_standing c t A' @ L" using 1 by (simp add: e(1) book_standing_def)
      next
        case 2
        then have "filter (\<lambda>x. \<not> owned_by c i x) (A BUY) = A BUY" using side sides by (fastforce simp: filter_id_conv)
        then show "resting c t (filter (\<lambda>x. \<not> owned_by c i x) (A BUY)) @ resting c t (filter (\<lambda>x. \<not> owned_by c i x) (A SELL)) @ L =
            book_standing c t A' @ L" using 2 by (simp add: e(1) book_standing_def)
      qed
    qed
    ultimately show ?thesis by (simp add: e(2))
  qed
qed

text \<open>A cancel by another client.\<close>

lemma other_cancel:
  assumes a: "spec_cancel d i ticker A = (A', evs)" and "d \<noteq> c"
  shows "book_standing c t A' = book_standing c t A" "for_client c (responses_of evs) = []"
proof -
  have f: "resting c t (filter (\<lambda>y. \<not> owned_by d i y) xs) = resting c t xs" for xs
    using assms(2) by (induction xs) (auto simp: owned_by_def)
  show "book_standing c t A' = book_standing c t A"
    using a f by (auto simp: spec_cancel_def book_standing_def split: option.splits)
  show "for_client c (responses_of evs) = []"
    using a assms(2) by (auto simp: spec_cancel_def cancel_rejected_def cancel_events_def split: option.splits)
qed

text \<open>Both requests, of the client and of another.\<close>

lemma wired_own_request:
  assumes a: "spec_request r (n, A) = ((n', A'), evs)" and r: "request_ok ticker base r" "rq_client_id r = c" and t: "unat ticker = t"
    and v: "view_ok ticker n A" and w: "wired so om (r # reqs) R (book_standing c t A @ L)" and L: "\<forall>x \<in> set L. fst (fst x) \<noteq> t"
  shows "wired so om reqs (R @ for_client c (responses_of evs)) (book_standing c t A' @ L)"
    "rq_type r = NEW \<Longrightarrow> (rq_client_id r, rq_order_id r) \<notin> order_ids A"
proof -
  have tk: "rq_ticker_id r = ticker" "rq_type r \<noteq> Request_INVALID" using r(1) by (simp_all add: request_ok_def)
  have sides: "\<forall>x \<in> set (A BUY). o_side x = BUY \<and> o_qty x \<noteq> 0" "\<forall>x \<in> set (A SELL). o_side x = SELL \<and> o_qty x \<noteq> 0"
    using view_okD(1) [OF v, of BUY] view_okD(1) [OF v, of SELL] by (simp_all add: order_ok_def)
  let ?acc = "\<lparr>rs_type = ACCEPTED, rs_client_id = c, rs_ticker_id = ticker, rs_client_order_id = rq_order_id r,
      rs_market_order_id = n, rs_side = rq_side r, rs_price = rq_price r, rs_exec_qty = 0, rs_leaves_qty = rq_qty r\<rparr>"
  have slot: "rs_slot ?acc = rq_slot r" "rq_slot r = (t, sideToIndex (rq_side r))" using tk(1) t by (simp_all add: rs_slot_def rq_slot_def)
  show fresh: "(rq_client_id r, rq_order_id r) \<notin> order_ids A" if new: "rq_type r = NEW"
  proof
    assume "(rq_client_id r, rq_order_id r) \<in> order_ids A"
    then obtain x where x: "x \<in> set (A BUY @ A SELL)" "client_id x = c" "client_order_id x = rq_order_id r"
      using r(2) unfolding order_ids_def by (elim UnE imageE) simp_all
    then have "order_entry t x \<in> set (book_standing c t A @ L)" by (auto simp: book_standing_def resting_def)
    from wired_take_new(1) [OF w new, of ?acc, OF _ slot(1) _ _ this] x(3) tk(1) show False by (simp add: order_entry_def)
  qed
  show "wired so om reqs (R @ for_client c (responses_of evs)) (book_standing c t A' @ L)"
  proof (cases "rq_type r = NEW")
    case True
    have s: "trading_side (rq_side r)" using r(1) True by (simp add: request_ok_def)
    have add: "spec_add c (rq_order_id r) ticker (rq_side r) (rq_price r) (rq_qty r) n A = (A', evs)"
      using a True r(2) tk(1) by (auto simp: spec_request_def split: prod.splits)
    have "wired so om reqs (R @ [?acc]) (rest_of (rq_slot r) (rq_order_id r) (rq_qty r) @ book_standing c t A @ L)"
      by (rule wired_take_new(3) [OF w True]) (use slot tk(1) in simp_all)
    then have w1: "wired so om reqs (R @ for_client c [?acc]) (incoming c c (t, sideToIndex (rq_side r)) (rq_order_id r) (rq_qty r) @ book_standing c t A @ L)"
      by (simp add: incoming_def slot(2))
    have nz: "\<forall>x \<in> set (A (opp (rq_side r))). o_qty x \<noteq> 0" using s sides by (auto simp: trading_side_def)
    show ?thesis by (rule wired_add [OF add s t nz w1]) simp
  next
    case False
    then have c: "rq_type r = Request_CANCEL" using tk(2) by (cases "rq_type r") simp_all
    have can: "spec_cancel c (rq_order_id r) ticker A = (A', evs)" using a False r(2) tk(1) by (auto simp: spec_request_def split: prod.splits)
    show ?thesis by (rule wired_own_cancel [OF can t _ tk(1) c refl _ _ w L]) (use sides t tk(1) in auto)
  qed
qed

lemma wired_other_request:
  assumes a: "spec_request r (n, A) = ((n', A'), evs)" and r: "request_ok ticker base r" "rq_client_id r \<noteq> c" and t: "unat ticker = t"
    and v: "view_ok ticker n A" and w: "wired so om reqs R (book_standing c t A @ L)"
  shows "wired so om reqs (R @ for_client c (responses_of evs)) (book_standing c t A' @ L)"
proof (cases "rq_type r = NEW")
  case True
  have tk: "rq_ticker_id r = ticker" and s: "trading_side (rq_side r)" using r(1) True by (simp_all add: request_ok_def)
  have add: "spec_add (rq_client_id r) (rq_order_id r) ticker (rq_side r) (rq_price r) (rq_qty r) n A = (A', evs)"
    using a True tk by (auto simp: spec_request_def split: prod.splits)
  have nz: "\<forall>x \<in> set (A (opp (rq_side r))). o_qty x \<noteq> 0" using view_okD(1) [OF v, of "opp (rq_side r)"] s by (auto simp: order_ok_def)
  show ?thesis by (rule wired_add [OF add s t nz _ refl]) (use w r(2) in \<open>simp add: incoming_def\<close>)
next
  case False
  then have "spec_cancel (rq_client_id r) (rq_order_id r) (rq_ticker_id r) A = (A', evs)"
    using a by (auto simp: spec_request_def split: prod.splits)
  from other_cancel [OF this r(2)] w show ?thesis by simp
qed

end
