(* ===== verification/ExchangeLoop.thy ===== *)
theory ExchangeLoop
  imports EngineWires ExchangeWires
begin

text \<open>
  A trade engine and the exchange, with everything on the way between them: the engine's two queues, the connection through
  the order gateway and the order server, and the matching engine's own queues, which other clients use as well.

  \<^item> A step is one hop of a request or of a response, a turn of the matching engine, or a turn of the trade engine. Steps
    come in any order. The connection keeps order and loses nothing, as \<open>OrderEntry\<close> shows of the gateway and the server.
  \<^item> \<open>mk_inv\<close> is the invariant: the exchange's books are well-formed, and what they hold of the client's orders, together
    with what is on its way, fits what the engine believes (\<open>engine_wired\<close>).
\<close>

record market =
  mk_engine :: trade_engine
  mk_up :: "MEClientRequest list"
  mk_down :: "MEClientResponse list"
  mk_exchange :: matching_engine

subsection \<open>Hops\<close>

text \<open>The gateway takes the engine's next request, and the server hands it to the matching engine.\<close>

definition mk_send :: "market \<Rightarrow> market res" where
  "mk_send m =
     (case getNextToRead (outgoing_ogw_requests (mk_engine m)) of
        None \<Rightarrow> Inr m
      | Some r \<Rightarrow>
          bindE (updateReadIndex (outgoing_ogw_requests (mk_engine m))) (\<lambda>q.
          Inr (m\<lparr>mk_engine := (mk_engine m)\<lparr>outgoing_ogw_requests := q\<rparr>, mk_up := mk_up m @ [r]\<rparr>)))"

definition mk_request :: "MEClientRequest \<Rightarrow> market \<Rightarrow> market" where
  "mk_request r m = m\<lparr>mk_exchange := (mk_exchange m)\<lparr>incoming_requests := lfq_push r (incoming_requests (mk_exchange m))\<rparr>\<rparr>"

text \<open>The server takes the matching engine's next response, which is the client's or another's, and the gateway hands it on.\<close>

definition mk_answer :: "market \<Rightarrow> market res" where
  "mk_answer m =
     (case getNextToRead (outgoing_ogw_responses (mk_exchange m)) of
        None \<Rightarrow> Inr m
      | Some u \<Rightarrow>
          bindE (updateReadIndex (outgoing_ogw_responses (mk_exchange m))) (\<lambda>q.
          Inr (m\<lparr>mk_exchange := (mk_exchange m)\<lparr>outgoing_ogw_responses := q\<rparr>,
                 mk_down := mk_down m @ for_client (te_client_id (mk_engine m)) [u]\<rparr>)))"

definition mk_receive :: "market \<Rightarrow> market" where
  "mk_receive m =
     (case mk_down m of
        [] \<Rightarrow> m
      | u # us \<Rightarrow> m\<lparr>mk_down := us,
          mk_engine := (mk_engine m)\<lparr>incoming_ogw_responses := lfq_push u (incoming_ogw_responses (mk_engine m))\<rparr>\<rparr>)"

text \<open>
  A request that the exchange can take: well-formed, within the price window of its book, with a new order id if another
  client sends it, and with room for what the book issues. The requests taken before are \<open>rs\<close>.
\<close>

definition fits :: "MEClientRequest \<Rightarrow> matching_engine \<Rightarrow> bool" where
  "fits r x = (case book_request r (ticker_order_book x ! unat (rq_ticker_id r)) of
     Inl _ \<Rightarrow> True
   | Inr b \<Rightarrow> length (responses_of (outbox b)) \<le> lfq_room (outgoing_ogw_responses x) \<and>
        length (updates_of (outbox b)) \<le> lfq_room (outgoing_md_updates x))"

definition acceptable :: "ClientId \<Rightarrow> MEClientRequest list \<Rightarrow> MEClientRequest \<Rightarrow> matching_engine \<Rightarrow> bool" where
  "acceptable c rs r x \<longleftrightarrow> unat (rq_ticker_id r) < ME_MAX_TICKERS \<and>
     request_ok (rq_ticker_id r) (base_price (ticker_order_book x ! unat (rq_ticker_id r))) r \<and>
     (rq_client_id r \<noteq> c \<and> rq_type r = NEW \<longrightarrow> (rq_client_id r, rq_order_id r) \<notin> set (new_ids rs)) \<and>
     length rs + 1 < ME_MAX_ORDER_IDS \<and> fits r x"

inductive mk_step :: "MEClientRequest list \<Rightarrow> market \<Rightarrow> MEClientRequest list \<Rightarrow> market \<Rightarrow> bool" where
  response: "te_response_step (mk_engine m) = Inr e \<Longrightarrow> mk_step rs m rs (m\<lparr>mk_engine := e\<rparr>)"
| update: "te_onMarketUpdate u (mk_engine m) = Inr e \<Longrightarrow> mk_step rs m rs (m\<lparr>mk_engine := e\<rparr>)"
| send: "mk_send m = Inr m' \<Longrightarrow> mk_step rs m rs m'"
| arrive: "mk_up m = r # us \<Longrightarrow> 0 < lfq_room (incoming_requests (mk_exchange m)) \<Longrightarrow> mk_step rs m rs (mk_request r (m\<lparr>mk_up := us\<rparr>))"
| other: "rq_client_id r \<noteq> te_client_id (mk_engine m) \<Longrightarrow> 0 < lfq_room (incoming_requests (mk_exchange m)) \<Longrightarrow>
    mk_step rs m rs (mk_request r m)"
| match: "getNextToRead (incoming_requests (mk_exchange m)) = Some r \<Longrightarrow> acceptable (te_client_id (mk_engine m)) rs r (mk_exchange m) \<Longrightarrow>
    engine_step (mk_exchange m) = Inr x \<Longrightarrow> mk_step rs m (rs @ [r]) (m\<lparr>mk_exchange := x\<rparr>)"
| publish: "getNextToRead (outgoing_md_updates (mk_exchange m)) = Some u \<Longrightarrow> updateReadIndex (outgoing_md_updates (mk_exchange m)) = Inr q \<Longrightarrow>
    mk_step rs m rs (m\<lparr>mk_exchange := (mk_exchange m)\<lparr>outgoing_md_updates := q\<rparr>\<rparr>)"
| answer: "mk_answer m = Inr m' \<Longrightarrow> mk_step rs m rs m'"
| receive: "mk_step rs m rs (mk_receive m)"

inductive mk_run :: "nat \<Rightarrow> market \<Rightarrow> MEClientRequest list \<Rightarrow> market \<Rightarrow> bool" where
  start: "mk_run 0 m [] m"
| again: "mk_run n m rs m1 \<Longrightarrow> mk_step rs m1 rs' m2 \<Longrightarrow> mk_run (Suc n) m rs' m2"

subsection \<open>The exchange's side\<close>

definition books_standing :: "ClientId \<Rightarrow> (nat \<Rightarrow> view) \<Rightarrow> nat list \<Rightarrow> standing" where
  "books_standing c A ts = concat (map (\<lambda>t. book_standing c t (A t)) ts)"

definition book_views :: "matching_engine \<Rightarrow> (nat \<Rightarrow> shape) \<Rightarrow> nat \<Rightarrow> view" where
  "book_views x S t = view (ticker_order_book x ! t) (S t)"

text \<open>The books after the requests \<open>rs\<close>.\<close>

definition exchange_ok :: "MEClientRequest list \<Rightarrow> matching_engine \<Rightarrow> (nat \<Rightarrow> shape) \<Rightarrow> bool" where
  "exchange_ok rs x S \<longleftrightarrow> engine_ok x S \<and> lfq_inv (incoming_requests x) \<and>
     (\<forall>t < ME_MAX_TICKERS. resting_orders (ticker_order_book x ! t) (S t) \<le> length rs \<and>
        unat (next_market_order_id (ticker_order_book x ! t)) \<le> 1 + length rs \<and>
        order_ids (book_views x S t) \<subseteq> set (new_ids rs))"

lemma exchange_okD:
  assumes "exchange_ok rs x S" and "t < ME_MAX_TICKERS"
  shows "me_inv (ticker_order_book x ! t) (S t)" "cid_complete (ticker_order_book x ! t) (S t)"
    "book_ticker_id (ticker_order_book x ! t) = word_of_nat t" "outbox (ticker_order_book x ! t) = []"
    "resting_orders (ticker_order_book x ! t) (S t) \<le> length rs" "unat (next_market_order_id (ticker_order_book x ! t)) \<le> 1 + length rs"
    "order_ids (book_views x S t) \<subseteq> set (new_ids rs)" "view_ok (word_of_nat t) (next_market_order_id (ticker_order_book x ! t)) (book_views x S t)"
  using assms by (auto simp: exchange_ok_def engine_ok_def me_inv_def book_views_def)

lemma book_standing_cong: "A BUY = B BUY \<Longrightarrow> A SELL = B SELL \<Longrightarrow> book_standing c t A = book_standing c t B"
  by (simp add: book_standing_def)

lemma book_standing_slots: "y \<in> set (book_standing c t A) \<Longrightarrow> fst (fst y) = t"
  by (auto simp: book_standing_def resting_def order_entry_def)

lemma books_standing_split:
  assumes "t < n"
  shows "mset (books_standing c A [0..<n]) = mset (book_standing c t (A t) @ books_standing c A (filter (\<lambda>s. s \<noteq> t) [0..<n]))"
proof -
  have "distinct ts \<Longrightarrow> t \<in> set ts \<Longrightarrow> mset (books_standing c A ts) = mset (book_standing c t (A t)) + mset (books_standing c A (filter (\<lambda>s. s \<noteq> t) ts))" for ts
  proof (induction ts)
    case (Cons s ts)
    have "filter (\<lambda>s. s \<noteq> t) ts = ts" if "t \<notin> set ts" using that by (intro filter_True) auto
    with Cons show ?case by (cases "s = t") (auto simp: books_standing_def)
  qed simp
  then show ?thesis using assms by simp
qed

lemma books_standing_other:
  assumes "\<And>s. s \<in> set ts \<Longrightarrow> s \<noteq> t \<Longrightarrow> A s = B s"
  shows "books_standing c A (filter (\<lambda>s. s \<noteq> t) ts) = books_standing c B (filter (\<lambda>s. s \<noteq> t) ts)"
  unfolding books_standing_def by (intro arg_cong [where f = concat] map_cong) (use assms in auto)


lemma take_next:
  assumes "lfq_inv q" and "getNextToRead q = Some v"
  shows "\<exists>q' vs. lfq_list q = v # vs \<and> updateReadIndex q = Inr q' \<and> lfq_list q' = vs \<and> lfq_inv q'"
proof -
  obtain vs where vs: "lfq_list q = v # vs" using assms(2) getNextToRead_list [OF assms(1)] by (cases "lfq_list q") simp_all
  then show ?thesis using updateReadIndex_ok [OF assms(1)] by auto
qed

lemma exchange_ids:
  assumes "exchange_ok rs x S" and "t < ME_MAX_TICKERS" and "length rs + 1 < ME_MAX_ORDER_IDS"
  shows "next_market_order_id (ticker_order_book x ! t) \<noteq> - 1"
proof -
  have "unat (next_market_order_id (ticker_order_book x ! t)) + 1 < 2 ^ 64"
    using exchange_okD(6) [OF assms(1,2)] assms(3) unfolding ME_MAX_ORDER_IDS_def by simp
  then show ?thesis by (auto simp: unsigned_minus_1_eq_mask mask_eq_exp_minus_1)
qed

text \<open>A request on the book of its instrument.\<close>

lemma exchange_process:
  assumes ok: "exchange_ok rs x S" and t: "unat (rq_ticker_id r) < ME_MAX_TICKERS"
    and r: "request_ok (rq_ticker_id r) (base_price (ticker_order_book x ! unat (rq_ticker_id r))) r" and len: "length rs + 1 < ME_MAX_ORDER_IDS"
    and fresh: "rq_type r = NEW \<longrightarrow> (rq_client_id r, rq_order_id r) \<notin> order_ids (book_views x S (unat (rq_ticker_id r)))"
    and spec: "spec_request r (next_market_order_id (ticker_order_book x ! unat (rq_ticker_id r)), book_views x S (unat (rq_ticker_id r))) = ((n', A'), evs)"
    and fit: "length (responses_of evs) \<le> lfq_room (outgoing_ogw_responses x)" "length (updates_of evs) \<le> lfq_room (outgoing_md_updates x)"
  shows "\<exists>x' S'. processClientRequest r x = Inr x' \<and> exchange_ok (rs @ [r]) x' S' \<and> incoming_requests x' = incoming_requests x \<and>
     lfq_list (outgoing_ogw_responses x') = lfq_list (outgoing_ogw_responses x) @ responses_of evs \<and>
     lfq_list (outgoing_md_updates x') = lfq_list (outgoing_md_updates x) @ updates_of evs \<and>
     next_market_order_id (ticker_order_book x' ! unat (rq_ticker_id r)) = n' \<and>
     base_price (ticker_order_book x' ! unat (rq_ticker_id r)) = base_price (ticker_order_book x ! unat (rq_ticker_id r)) \<and>
     book_views x' S' (unat (rq_ticker_id r)) BUY = A' BUY \<and> book_views x' S' (unat (rq_ticker_id r)) SELL = A' SELL \<and>
     (\<forall>s < ME_MAX_TICKERS. s \<noteq> unat (rq_ticker_id r) \<longrightarrow> book_views x' S' s = book_views x S s)"
proof -
  let ?t = "unat (rq_ticker_id r)"
  let ?b = "ticker_order_book x ! ?t"
  have e: "engine_ok x S" "lfq_inv (incoming_requests x)" using ok by (simp_all add: exchange_ok_def)
  note b = exchange_okD [OF ok t]
  have room: "resting_orders ?b (S ?t) + 1 < ME_MAX_ORDER_IDS" using b(5) len by simp
  have n1: "next_market_order_id ?b \<noteq> - 1" by (rule exchange_ids [OF ok t len])
  from processClientRequest_ok [OF e(1) refl t r room n1 fresh [unfolded book_views_def] spec [unfolded book_views_def] fit] obtain x1 Si where x1:
    "processClientRequest r x = Inr x1" "engine_ok x1 (S(?t := Si))"
    "view (ticker_order_book x1 ! ?t) Si BUY = A' BUY" "view (ticker_order_book x1 ! ?t) Si SELL = A' SELL"
    "\<And>j. j < ME_MAX_TICKERS \<Longrightarrow> j \<noteq> ?t \<Longrightarrow> ticker_order_book x1 ! j = ticker_order_book x ! j"
    "lfq_list (outgoing_ogw_responses x1) = lfq_list (outgoing_ogw_responses x) @ responses_of evs"
    "lfq_list (outgoing_md_updates x1) = lfq_list (outgoing_md_updates x) @ updates_of evs"
    "incoming_requests x1 = incoming_requests x" "base_price (ticker_order_book x1 ! ?t) = base_price ?b"
    "next_market_order_id (ticker_order_book x1 ! ?t) = n'"
    "resting_orders (ticker_order_book x1 ! ?t) Si \<le> resting_orders ?b (S ?t) + 1"
    "order_ids (view (ticker_order_book x1 ! ?t) Si) \<subseteq> order_ids (view ?b (S ?t)) \<union> set (new_ids [r])"
    by blast
  let ?S = "S(?t := Si)"
  have n': "unat n' \<le> unat (next_market_order_id ?b) + 1"
  proof -
    have "n' = next_market_order_id ?b + 1 \<or> n' = next_market_order_id ?b" using spec by (auto simp: spec_request_def split: prod.splits if_splits)
    then show ?thesis using unat_plus_one [OF word_less_plus_one [OF n1]] by auto
  qed
  have new: "new_ids (rs @ [r]) = new_ids rs @ new_ids [r]" by (simp add: new_ids_def)
  have ids: "order_ids (view (ticker_order_book x1 ! ?t) Si) \<subseteq> set (new_ids (rs @ [r]))"
    using x1(12) b(7) unfolding new book_views_def by auto
  have other: "book_views x1 ?S s = book_views x S s" if "s < ME_MAX_TICKERS" "s \<noteq> ?t" for s using x1(5) [OF that] that(2) by (simp add: book_views_def)
  have "resting_orders (ticker_order_book x1 ! s) (?S s) \<le> length (rs @ [r]) \<and> unat (next_market_order_id (ticker_order_book x1 ! s)) \<le> 1 + length (rs @ [r]) \<and>
      order_ids (book_views x1 ?S s) \<subseteq> set (new_ids (rs @ [r]))" if s: "s < ME_MAX_TICKERS" for s
  proof (cases "s = ?t")
    case True
    then show ?thesis using x1(10,11) b(5,6) n' ids by (simp add: book_views_def)
  next
    case False
    then show ?thesis using exchange_okD(5,6,7) [OF ok s] x1(5) [OF s False] other [OF s False] new by auto
  qed
  then have "exchange_ok (rs @ [r]) x1 ?S" using x1(2,8) e(2) by (simp add: exchange_ok_def)
  then show ?thesis using x1(1,3,4,6-10) other by (intro exI [of _ x1] exI [of _ ?S]) (simp add: book_views_def)
qed

text \<open>A turn of the matching engine.\<close>

lemma exchange_turn:
  assumes ok: "exchange_ok rs x S" and q: "getNextToRead (incoming_requests x) = Some r" and a: "acceptable c rs r x"
    and fresh: "rq_type r = NEW \<longrightarrow> (rq_client_id r, rq_order_id r) \<notin> order_ids (book_views x S (unat (rq_ticker_id r)))"
    and spec: "spec_request r (next_market_order_id (ticker_order_book x ! unat (rq_ticker_id r)), book_views x S (unat (rq_ticker_id r))) = ((n', A'), evs)"
  shows "\<exists>x' S' vs. engine_step x = Inr x' \<and> exchange_ok (rs @ [r]) x' S' \<and>
     lfq_list (incoming_requests x) = r # vs \<and> lfq_list (incoming_requests x') = vs \<and>
     lfq_list (outgoing_ogw_responses x') = lfq_list (outgoing_ogw_responses x) @ responses_of evs \<and>
     book_views x' S' (unat (rq_ticker_id r)) BUY = A' BUY \<and> book_views x' S' (unat (rq_ticker_id r)) SELL = A' SELL \<and>
     (\<forall>s < ME_MAX_TICKERS. s \<noteq> unat (rq_ticker_id r) \<longrightarrow> book_views x' S' s = book_views x S s)"
proof -
  let ?t = "unat (rq_ticker_id r)"
  let ?b = "ticker_order_book x ! ?t"
  have t: "?t < ME_MAX_TICKERS" and r: "request_ok (rq_ticker_id r) (base_price ?b) r" and len: "length rs + 1 < ME_MAX_ORDER_IDS"
    and f: "fits r x" using a by (simp_all add: acceptable_def)
  note b = exchange_okD [OF ok t]
  have room: "resting_orders ?b (S ?t) + 1 < ME_MAX_ORDER_IDS" using b(5) len by simp
  have "request_ok (book_ticker_id ?b) (base_price ?b) r" using r b(3) by simp
  from book_request_ok [OF b(1,2) this room exchange_ids [OF ok t len] fresh [unfolded book_views_def] spec [unfolded book_views_def]]
  have "\<exists>b'. book_request r ?b = Inr b' \<and> outbox b' = evs" using b(4) by auto
  then have fit: "length (responses_of evs) \<le> lfq_room (outgoing_ogw_responses x)" "length (updates_of evs) \<le> lfq_room (outgoing_md_updates x)"
    using f by (auto simp: fits_def)
  from exchange_process [OF ok t r len fresh spec fit] obtain x1 S' where x1: "processClientRequest r x = Inr x1" "exchange_ok (rs @ [r]) x1 S'"
    "incoming_requests x1 = incoming_requests x" "lfq_list (outgoing_ogw_responses x1) = lfq_list (outgoing_ogw_responses x) @ responses_of evs"
    "book_views x1 S' ?t BUY = A' BUY" "book_views x1 S' ?t SELL = A' SELL"
    "\<forall>s < ME_MAX_TICKERS. s \<noteq> ?t \<longrightarrow> book_views x1 S' s = book_views x S s" by blast
  have "lfq_inv (incoming_requests x)" using ok by (simp add: exchange_ok_def)
  from take_next [OF this q] obtain q' vs where q': "lfq_list (incoming_requests x) = r # vs" "updateReadIndex (incoming_requests x) = Inr q'"
    "lfq_list q' = vs" "lfq_inv q'" by blast
  let ?x = "x1\<lparr>incoming_requests := q'\<rparr>"
  have "book_views ?x S' = book_views x1 S'" by (simp add: book_views_def fun_eq_iff)
  moreover have "exchange_ok (rs @ [r]) ?x S'" using x1(2) q'(4) by (simp add: exchange_ok_def engine_ok_def book_views_def)
  moreover have "engine_step x = Inr ?x" using q q'(2) x1(1,3) by (simp add: engine_step_def)
  ultimately show ?thesis using q' x1 by (intro exI [of _ ?x] exI [of _ S'] exI [of _ vs]) simp
qed

subsection \<open>The invariant\<close>

definition own_requests :: "ClientId \<Rightarrow> MEClientRequest list \<Rightarrow> MEClientRequest list" where
  "own_requests c = filter (\<lambda>r. rq_client_id r = c)"

lemma own_requests_simps [simp]:
  "own_requests c [] = []" "own_requests c (rs @ rs') = own_requests c rs @ own_requests c rs'"
  "own_requests c (r # rs) = (if rq_client_id r = c then r # own_requests c rs else own_requests c rs)"
  by (simp_all add: own_requests_def)

definition mk_wired :: "(OrderId \<Rightarrow> slot) \<Rightarrow> nat \<Rightarrow> (nat \<Rightarrow> view) \<Rightarrow> market \<Rightarrow> bool" where
  "mk_wired so n A m \<longleftrightarrow> engine_wired so n (mk_engine m)
     (own_requests (te_client_id (mk_engine m)) (lfq_list (incoming_requests (mk_exchange m))) @ mk_up m)
     (mk_down m @ for_client (te_client_id (mk_engine m)) (lfq_list (outgoing_ogw_responses (mk_exchange m))))
     (books_standing (te_client_id (mk_engine m)) A [0..<ME_MAX_TICKERS])"

definition mk_inv :: "nat \<Rightarrow> MEClientRequest list \<Rightarrow> market \<Rightarrow> bool" where
  "mk_inv n rs m \<longleftrightarrow> (\<exists>so S. exchange_ok rs (mk_exchange m) S \<and> mk_wired so n (book_views (mk_exchange m) S) m)"

definition same_party :: "market \<Rightarrow> market \<Rightarrow> bool" where
  "same_party m m' \<longleftrightarrow> same_engine (mk_engine m) (mk_engine m')"

lemma mk_inv_more: "mk_inv n rs m \<Longrightarrow> n \<le> k \<Longrightarrow> mk_inv k rs m"
  unfolding mk_inv_def mk_wired_def by (blast intro: engine_wired_more)

text \<open>The queues of the exchange that a step does not touch.\<close>

lemma exchange_ok_queues:
  assumes "exchange_ok rs x S" and "lfq_inv i" and "lfq_inv o'" and "lfq_inv u"
  shows "exchange_ok rs (x\<lparr>incoming_requests := i, outgoing_ogw_responses := o', outgoing_md_updates := u\<rparr>) S"
  using assms by (simp add: exchange_ok_def engine_ok_def book_views_def)

lemma exchange_queues: "exchange_ok rs x S \<Longrightarrow> lfq_inv (incoming_requests x) \<and> lfq_inv (outgoing_ogw_responses x) \<and> lfq_inv (outgoing_md_updates x)"
  by (simp add: exchange_ok_def engine_ok_def)

text \<open>The hops.\<close>

lemma mk_send_inv:
  assumes inv: "mk_inv n rs m"
  shows "\<exists>m'. mk_send m = Inr m' \<and> mk_inv n rs m' \<and> same_party m m'"
proof (cases "getNextToRead (outgoing_ogw_requests (mk_engine m))")
  case None
  then show ?thesis using inv by (simp add: mk_send_def same_party_def same_engine_def)
next
  case (Some r)
  let ?e = "mk_engine m" and ?x = "mk_exchange m"
  let ?c = "te_client_id ?e"
  let ?A = "own_requests ?c (lfq_list (incoming_requests ?x)) @ mk_up m"
    and ?B = "mk_down m @ for_client ?c (lfq_list (outgoing_ogw_responses ?x))"
  obtain so S where so: "exchange_ok rs ?x S" "mk_wired so n (book_views ?x S) m" using inv by (auto simp: mk_inv_def)
  note w = so(2) [unfolded mk_wired_def]
  have "queue_ok (outgoing_ogw_requests ?e)" using w by (simp add: engine_wired_def)
  from take_queue_ok [OF this Some] obtain q' where q': "lfq_list (outgoing_ogw_requests ?e) = r # lfq_list q'"
    "updateReadIndex (outgoing_ogw_requests ?e) = Inr q'" "queue_ok q'" by blast
  have "wired so (te_orders ?e) ((?A @ [r]) @ lfq_list q') (lfq_list (incoming_ogw_responses ?e) @ [] @ ?B) (books_standing ?c (book_views ?x S) [0..<ME_MAX_TICKERS])"
    using w q'(1) by (simp add: engine_wired_def)
  note d = engine_delivered [OF w q'(3) _ this]
  let ?e' = "?e\<lparr>outgoing_ogw_requests := q'\<rparr>"
  let ?m' = "m\<lparr>mk_engine := ?e', mk_up := mk_up m @ [r]\<rparr>"
  have "mk_send m = Inr ?m'" using Some q'(2) by (simp add: mk_send_def)
  moreover have "mk_wired so n (book_views ?x S) ?m'" "same_party m ?m'" using d q'(1) by (simp_all add: mk_wired_def same_party_def)
  ultimately show ?thesis using so(1) by (auto simp: mk_inv_def)
qed

lemma mk_receive_inv:
  assumes inv: "mk_inv n rs m"
  shows "mk_inv n rs (mk_receive m) \<and> same_party m (mk_receive m)"
proof (cases "mk_down m")
  case Nil
  then show ?thesis using inv by (simp add: mk_receive_def same_party_def same_engine_def)
next
  case (Cons u us)
  let ?e = "mk_engine m" and ?x = "mk_exchange m"
  let ?c = "te_client_id ?e"
  let ?A = "own_requests ?c (lfq_list (incoming_requests ?x)) @ mk_up m"
    and ?B = "us @ for_client ?c (lfq_list (outgoing_ogw_responses ?x))"
  obtain so S where so: "exchange_ok rs ?x S" "mk_wired so n (book_views ?x S) m" using inv by (auto simp: mk_inv_def)
  note w = so(2) [unfolded mk_wired_def]
  have q: "queue_ok (outgoing_ogw_requests ?e)" using w by (simp add: engine_wired_def)
  have "wired so (te_orders ?e) (?A @ lfq_list (outgoing_ogw_requests ?e)) (lfq_list (incoming_ogw_responses ?e) @ [u] @ ?B)
      (books_standing ?c (book_views ?x S) [0..<ME_MAX_TICKERS])"
    using w Cons by (simp add: engine_wired_def)
  note d = engine_delivered [OF w q _ this]
  show ?thesis using d so(1) Cons by (auto simp: mk_inv_def mk_wired_def same_party_def mk_receive_def)
qed

text \<open>The exchange's queues.\<close>

lemma push_one:
  assumes "lfq_inv q" and "0 < lfq_room q"
  shows "lfq_inv (lfq_push v q)" "lfq_list (lfq_push v q) = lfq_list q @ [v]"
  using lfq.push_all [of q "[v]"] assms by simp_all

lemma mk_queued_inv:
  assumes inv: "mk_inv n rs m" and i: "lfq_inv i" and o: "lfq_inv o'" and u: "lfq_inv u"
    and r: "own_requests (te_client_id (mk_engine m)) (lfq_list i) @ up =
      own_requests (te_client_id (mk_engine m)) (lfq_list (incoming_requests (mk_exchange m))) @ mk_up m"
    and d: "down @ for_client (te_client_id (mk_engine m)) (lfq_list o') =
      mk_down m @ for_client (te_client_id (mk_engine m)) (lfq_list (outgoing_ogw_responses (mk_exchange m)))"
    and m': "m' = m\<lparr>mk_up := up, mk_down := down,
      mk_exchange := (mk_exchange m)\<lparr>incoming_requests := i, outgoing_ogw_responses := o', outgoing_md_updates := u\<rparr>\<rparr>"
  shows "mk_inv n rs m' \<and> same_party m m'"
proof -
  let ?x = "mk_exchange m"
  obtain so S where so: "exchange_ok rs ?x S" "mk_wired so n (book_views ?x S) m" using inv by (auto simp: mk_inv_def)
  have "book_views (?x\<lparr>incoming_requests := i, outgoing_ogw_responses := o', outgoing_md_updates := u\<rparr>) S = book_views ?x S"
    by (simp add: book_views_def fun_eq_iff)
  moreover have "mk_wired so n (book_views ?x S) m'" using so(2) r d unfolding mk_wired_def by (simp add: m')
  ultimately have "mk_inv n rs m'" unfolding mk_inv_def using exchange_ok_queues [OF so(1) i o u]
    by (intro exI [of _ so] exI [of _ S]) (simp add: m')
  then show ?thesis by (simp add: m' same_party_def same_engine_def)
qed

lemma mk_arrive_inv:
  assumes inv: "mk_inv n rs m" and up: "mk_up m = r # us" and room: "0 < lfq_room (incoming_requests (mk_exchange m))"
  shows "mk_inv n rs (mk_request r (m\<lparr>mk_up := us\<rparr>)) \<and> same_party m (mk_request r (m\<lparr>mk_up := us\<rparr>))"
proof -
  obtain so S where so: "exchange_ok rs (mk_exchange m) S" "mk_wired so n (book_views (mk_exchange m) S) m" using inv by (auto simp: mk_inv_def)
  note q = exchange_queues [OF so(1)]
  then have i: "lfq_inv (incoming_requests (mk_exchange m))" by simp
  have own: "rq_client_id r = te_client_id (mk_engine m)" using so(2) up by (simp add: mk_wired_def engine_wired_def)
  show ?thesis
    by (rule mk_queued_inv [OF inv, where i = "lfq_push r (incoming_requests (mk_exchange m))" and o' = "outgoing_ogw_responses (mk_exchange m)" and u = "outgoing_md_updates (mk_exchange m)" and up = "us" and down = "mk_down m"])
      (use q push_one [OF i room] own up in \<open>simp_all add: mk_request_def\<close>)
qed

lemma mk_other_inv:
  assumes inv: "mk_inv n rs m" and r: "rq_client_id r \<noteq> te_client_id (mk_engine m)" and room: "0 < lfq_room (incoming_requests (mk_exchange m))"
  shows "mk_inv n rs (mk_request r m) \<and> same_party m (mk_request r m)"
proof -
  obtain S where "exchange_ok rs (mk_exchange m) S" using inv by (auto simp: mk_inv_def)
  note q = exchange_queues [OF this]
  then have i: "lfq_inv (incoming_requests (mk_exchange m))" by simp
  show ?thesis
    by (rule mk_queued_inv [OF inv, where i = "lfq_push r (incoming_requests (mk_exchange m))" and o' = "outgoing_ogw_responses (mk_exchange m)" and u = "outgoing_md_updates (mk_exchange m)" and up = "mk_up m" and down = "mk_down m"])
      (use q push_one [OF i room] r in \<open>simp_all add: mk_request_def\<close>)
qed

lemma mk_publish_inv:
  assumes inv: "mk_inv n rs m" and u: "getNextToRead (outgoing_md_updates (mk_exchange m)) = Some u"
    and q': "updateReadIndex (outgoing_md_updates (mk_exchange m)) = Inr q"
  defines "m' \<equiv> m\<lparr>mk_exchange := (mk_exchange m)\<lparr>outgoing_md_updates := q\<rparr>\<rparr>"
  shows "mk_inv n rs m' \<and> same_party m m'"
proof -
  obtain S where "exchange_ok rs (mk_exchange m) S" using inv by (auto simp: mk_inv_def)
  note q = exchange_queues [OF this]
  then have "lfq_inv q" using take_next [OF _ u] q' by auto
  then show ?thesis by (intro mk_queued_inv [OF inv, where i = "incoming_requests (mk_exchange m)" and o' = "outgoing_ogw_responses (mk_exchange m)" and u = "q" and up = "mk_up m" and down = "mk_down m"])
    (use q in \<open>simp_all add: m'_def\<close>)
qed

lemma mk_answer_inv:
  assumes inv: "mk_inv n rs m"
  shows "\<exists>m'. mk_answer m = Inr m' \<and> mk_inv n rs m' \<and> same_party m m'"
proof (cases "getNextToRead (outgoing_ogw_responses (mk_exchange m))")
  case None
  then show ?thesis using inv by (simp add: mk_answer_def same_party_def same_engine_def)
next
  case (Some u)
  obtain S where "exchange_ok rs (mk_exchange m) S" using inv by (auto simp: mk_inv_def)
  note q = exchange_queues [OF this]
  then obtain q' vs where q': "lfq_list (outgoing_ogw_responses (mk_exchange m)) = u # vs"
    "updateReadIndex (outgoing_ogw_responses (mk_exchange m)) = Inr q'" "lfq_list q' = vs" "lfq_inv q'"
    using take_next [OF _ Some] by blast
  let ?m' = "m\<lparr>mk_exchange := (mk_exchange m)\<lparr>outgoing_ogw_responses := q'\<rparr>,
    mk_down := mk_down m @ for_client (te_client_id (mk_engine m)) [u]\<rparr>"
  have "mk_inv n rs ?m' \<and> same_party m ?m'"
    by (rule mk_queued_inv [OF inv, where i = "incoming_requests (mk_exchange m)" and o' = "q'" and u = "outgoing_md_updates (mk_exchange m)" and up = "mk_up m" and down = "mk_down m @ for_client (te_client_id (mk_engine m)) [u]"])
      (use q q' in simp_all)
  then show ?thesis using Some q'(2) by (simp add: mk_answer_def)
qed

lemma engine_wired_behind:
  assumes "engine_wired so n e A B L" and "set A' \<subseteq> set A"
    and "wired so (te_orders e) (A' @ lfq_list (outgoing_ogw_requests e)) (lfq_list (incoming_ogw_responses e) @ B') L'"
  shows "engine_wired so n e A' B' L'"
  using assms unfolding engine_wired_def set_append by blast

text \<open>A turn of the matching engine.\<close>

text \<open>The next request, the client's or another's: what stands changes as the book does, and a new order id is not that of a resting order.\<close>

lemma mk_match_wired:
  assumes so: "exchange_ok rs (mk_exchange m) S" "mk_wired so n (book_views (mk_exchange m) S) m"
    and a: "acceptable (te_client_id (mk_engine m)) rs r (mk_exchange m)"
    and vs: "lfq_list (incoming_requests (mk_exchange m)) = r # vs"
    and spec: "spec_request r (next_market_order_id (ticker_order_book (mk_exchange m) ! unat (rq_ticker_id r)),
        book_views (mk_exchange m) S (unat (rq_ticker_id r))) = ((n', A'), evs)"
  shows "wired so (te_orders (mk_engine m))
      (own_requests (te_client_id (mk_engine m)) vs @ mk_up m @ lfq_list (outgoing_ogw_requests (mk_engine m)))
      ((lfq_list (incoming_ogw_responses (mk_engine m)) @ mk_down m @
          for_client (te_client_id (mk_engine m)) (lfq_list (outgoing_ogw_responses (mk_exchange m)))) @
        for_client (te_client_id (mk_engine m)) (responses_of evs))
      (book_standing (te_client_id (mk_engine m)) (unat (rq_ticker_id r)) A' @
        books_standing (te_client_id (mk_engine m)) (book_views (mk_exchange m) S) (filter (\<lambda>s. s \<noteq> unat (rq_ticker_id r)) [0..<ME_MAX_TICKERS]))"
    "rq_type r = NEW \<longrightarrow> (rq_client_id r, rq_order_id r) \<notin> order_ids (book_views (mk_exchange m) S (unat (rq_ticker_id r)))"
proof -
  let ?e = "mk_engine m" and ?x = "mk_exchange m"
  let ?c = "te_client_id ?e" and ?t = "unat (rq_ticker_id r)" and ?ts = "[0..<ME_MAX_TICKERS]"
  let ?V = "book_views ?x S" and ?n = "next_market_order_id (ticker_order_book ?x ! ?t)"
  have t: "?t < ME_MAX_TICKERS" and r: "request_ok (rq_ticker_id r) (base_price (ticker_order_book ?x ! ?t)) r" using a by (simp_all add: acceptable_def)
  note v = exchange_okD(8) [OF so(1) t] and ids = exchange_okD(7) [OF so(1) t]
  let ?L = "books_standing ?c ?V (filter (\<lambda>s. s \<noteq> ?t) ?ts)"
  let ?R = "lfq_list (incoming_ogw_responses ?e) @ mk_down m @ for_client ?c (lfq_list (outgoing_ogw_responses ?x))"
  let ?Q = "own_requests ?c vs @ mk_up m @ lfq_list (outgoing_ogw_requests ?e)"
  have L: "\<forall>y \<in> set ?L. fst (fst y) \<noteq> ?t" by (auto simp: books_standing_def dest: book_standing_slots)
  have wired0: "wired so (te_orders ?e) ((own_requests ?c (r # vs) @ mk_up m) @ lfq_list (outgoing_ogw_requests ?e)) ?R (books_standing ?c ?V ?ts)"
    using so(2) unfolding mk_wired_def engine_wired_def vs by blast
  have eq: "(own_requests ?c (r # vs) @ mk_up m) @ lfq_list (outgoing_ogw_requests ?e) = (if rq_client_id r = ?c then [r] else []) @ ?Q" by simp
  have w: "wired so (te_orders ?e) ((if rq_client_id r = ?c then [r] else []) @ ?Q) ?R (book_standing ?c ?t (?V ?t) @ ?L)"
  proof (rule wired_rotate)
    show "wired so (te_orders ?e) ((if rq_client_id r = ?c then [r] else []) @ ?Q) ?R (books_standing ?c ?V ?ts)"
      using wired0 unfolding eq .
  qed (rule books_standing_split [OF t])
  have "wired so (te_orders ?e) ?Q (?R @ for_client ?c (responses_of evs)) (book_standing ?c ?t A' @ ?L) \<and>
     (rq_type r = NEW \<longrightarrow> (rq_client_id r, rq_order_id r) \<notin> order_ids (?V ?t))"
  proof (cases "rq_client_id r = ?c")
    case True
    then have "wired so (te_orders ?e) (r # ?Q) ?R (book_standing ?c ?t (?V ?t) @ ?L)" using w by simp
    from wired_own_request [OF spec r True refl _ this L] v show ?thesis by simp
  next
    case False
    then have "wired so (te_orders ?e) ?Q ?R (book_standing ?c ?t (?V ?t) @ ?L)" using w by simp
    from wired_other_request [OF spec r False refl _ this] v a False ids show ?thesis by (auto simp: acceptable_def)
  qed
  then show "wired so (te_orders ?e) ?Q (?R @ for_client ?c (responses_of evs)) (book_standing ?c ?t A' @ ?L)"
    and "rq_type r = NEW \<longrightarrow> (rq_client_id r, rq_order_id r) \<notin> order_ids (?V ?t)" by blast+
qed

lemma mk_match_inv:
  assumes inv: "mk_inv n rs m" and h: "getNextToRead (incoming_requests (mk_exchange m)) = Some r"
    and a: "acceptable (te_client_id (mk_engine m)) rs r (mk_exchange m)"
  shows "\<exists>x S. engine_step (mk_exchange m) = Inr x \<and> mk_inv n (rs @ [r]) (m\<lparr>mk_exchange := x\<rparr>) \<and> same_party m (m\<lparr>mk_exchange := x\<rparr>) \<and>
    me_inv (ticker_order_book (mk_exchange m) ! unat (rq_ticker_id r)) S \<and>
    (rq_type r = NEW \<longrightarrow> (rq_client_id r, rq_order_id r) \<notin> order_ids (view (ticker_order_book (mk_exchange m) ! unat (rq_ticker_id r)) S))"
proof -
  let ?e = "mk_engine m" and ?x = "mk_exchange m"
  let ?c = "te_client_id ?e" and ?t = "unat (rq_ticker_id r)" and ?ts = "[0..<ME_MAX_TICKERS]"
  obtain so S where so: "exchange_ok rs ?x S" "mk_wired so n (book_views ?x S) m" using inv by (auto simp: mk_inv_def)
  let ?V = "book_views ?x S" and ?n = "next_market_order_id (ticker_order_book ?x ! ?t)"
  have t: "?t < ME_MAX_TICKERS" using a by (simp add: acceptable_def)
  obtain vs where vs: "lfq_list (incoming_requests ?x) = r # vs" using take_next [OF _ h] exchange_queues [OF so(1)] by blast
  obtain n' A' evs where spec: "spec_request r (?n, ?V ?t) = ((n', A'), evs)" by (metis prod.exhaust)
  let ?L = "books_standing ?c ?V (filter (\<lambda>s. s \<noteq> ?t) ?ts)"
  let ?R = "lfq_list (incoming_ogw_responses ?e) @ mk_down m @ for_client ?c (lfq_list (outgoing_ogw_responses ?x))"
  let ?Q = "own_requests ?c vs @ mk_up m @ lfq_list (outgoing_ogw_requests ?e)"
  note w' = mk_match_wired(1) [OF so a vs spec] and fresh = mk_match_wired(2) [OF so a vs spec]
  from exchange_turn [OF so(1) h a fresh spec] vs obtain x' S' where x': "engine_step ?x = Inr x'" "exchange_ok (rs @ [r]) x' S'"
    "lfq_list (incoming_requests x') = vs" "lfq_list (outgoing_ogw_responses x') = lfq_list (outgoing_ogw_responses ?x) @ responses_of evs"
    "book_views x' S' ?t BUY = A' BUY" "book_views x' S' ?t SELL = A' SELL" "\<And>s. s < ME_MAX_TICKERS \<Longrightarrow> s \<noteq> ?t \<Longrightarrow> book_views x' S' s = ?V s"
    by auto
  have e: "book_standing ?c ?t (book_views x' S' ?t) = book_standing ?c ?t A'" by (rule book_standing_cong [OF x'(5,6)])
  have "books_standing ?c (book_views x' S') (filter (\<lambda>s. s \<noteq> ?t) ?ts) = ?L" by (rule books_standing_other) (use x'(7) in simp)
  with books_standing_split [OF t, of ?c "book_views x' S'"] e
  have "mset (book_standing ?c ?t A' @ ?L) = mset (books_standing ?c (book_views x' S') ?ts)" by simp
  with w' have "wired so (te_orders ?e) ?Q (?R @ for_client ?c (responses_of evs)) (books_standing ?c (book_views x' S') ?ts)" by (rule wired_rotate)
  then have w2: "wired so (te_orders ?e) ((own_requests ?c vs @ mk_up m) @ lfq_list (outgoing_ogw_requests ?e))
      (lfq_list (incoming_ogw_responses ?e) @ mk_down m @ for_client ?c (lfq_list (outgoing_ogw_responses x'))) (books_standing ?c (book_views x' S') ?ts)"
    unfolding x'(4) for_client_simps(2) append_assoc .
  have "set (own_requests ?c vs @ mk_up m) \<subseteq> set (own_requests ?c (lfq_list (incoming_requests ?x)) @ mk_up m)" using vs by auto
  from engine_wired_behind [OF so(2) [unfolded mk_wired_def] this w2]
  have "mk_wired so n (book_views x' S') (m\<lparr>mk_exchange := x'\<rparr>)" unfolding mk_wired_def using x'(3) by simp
  then have "mk_inv n (rs @ [r]) (m\<lparr>mk_exchange := x'\<rparr>)" using x'(2) by (auto simp: mk_inv_def)
  then show ?thesis using x'(1) exchange_okD(1) [OF so(1) t] fresh
    by (intro exI [of _ x'] exI [of _ "S ?t"]) (simp add: same_party_def same_engine_def book_views_def)
qed

text \<open>Any step, and any run.\<close>

lemma mk_engine_inv:
  assumes "exchange_ok rs (mk_exchange m) S" and "same_engine (mk_engine m) e"
    and "engine_wired so k e
     (own_requests (te_client_id (mk_engine m)) (lfq_list (incoming_requests (mk_exchange m))) @ mk_up m)
     (mk_down m @ for_client (te_client_id (mk_engine m)) (lfq_list (outgoing_ogw_responses (mk_exchange m))))
     (books_standing (te_client_id (mk_engine m)) (book_views (mk_exchange m) S) [0..<ME_MAX_TICKERS])"
  shows "mk_inv k rs (m\<lparr>mk_engine := e\<rparr>) \<and> same_party m (m\<lparr>mk_engine := e\<rparr>)"
proof -
  have "te_client_id e = te_client_id (mk_engine m)" using assms(2) by (simp add: same_engine_def)
  then have "mk_wired so k (book_views (mk_exchange m) S) (m\<lparr>mk_engine := e\<rparr>)" using assms(3) unfolding mk_wired_def by simp
  then show ?thesis using assms(1,2) unfolding mk_inv_def same_party_def by (intro conjI exI [of _ so] exI [of _ S]) simp_all
qed

lemma mk_step_inv:
  assumes "mk_step rs m rs' m'" and inv: "mk_inv n rs m" and n: "n + 2 < 2 ^ 64"
  shows "mk_inv (n + 2) rs' m' \<and> same_party m m'"
proof -
  have more: "mk_inv n qs c \<Longrightarrow> mk_inv (n + 2) qs c" for qs c by (erule mk_inv_more) linarith
  obtain so S where so: "exchange_ok rs (mk_exchange m) S" "mk_wired so n (book_views (mk_exchange m) S) m" using inv unfolding mk_inv_def by blast
  from assms(1) show ?thesis
  proof (cases rule: mk_step.cases)
    case (response e)
    from engine_response [OF so(2) [unfolded mk_wired_def]] response(3) mk_engine_inv [OF so(1), of e] show ?thesis
      unfolding response by (metis more old.sum.inject(2))
  next
    case (update u e)
    from engine_update [OF so(2) [unfolded mk_wired_def] n update(3)] mk_engine_inv [OF so(1), of e] show ?thesis
      unfolding update by blast
  next
    case send
    then show ?thesis using mk_send_inv [OF inv] more by auto
  next
    case (arrive r us)
    then show ?thesis using mk_arrive_inv [OF inv arrive(3,4)] more by simp
  next
    case (other r)
    then show ?thesis using mk_other_inv [OF inv other(3,4)] more by simp
  next
    case (match r x)
    then show ?thesis using mk_match_inv [OF inv match(3,4)] more by auto
  next
    case (publish u q)
    then show ?thesis using mk_publish_inv [OF inv publish(3,4)] more by simp
  next
    case answer
    then show ?thesis using mk_answer_inv [OF inv] more by auto
  next
    case receive
    then show ?thesis using mk_receive_inv [OF inv] more by simp
  qed
qed

lemma mk_run_inv:
  assumes "mk_run k m rs m'" and "mk_inv n [] m" and "n + 2 * k < 2 ^ 64"
  shows "mk_inv (n + 2 * k) rs m' \<and> same_party m m'"
  using assms
proof (induction rule: mk_run.induct)
  case (start m)
  then show ?case by (simp add: same_party_def same_engine_def)
next
  case (again k m rs m1 rs' m2)
  then have "mk_inv (n + 2 * k) rs m1 \<and> same_party m m1" by simp
  then show ?case using mk_step_inv [OF again.hyps(2), of "n + 2 * k"] again.prems(2) by (simp add: algebra_simps same_party_def same_engine_def)
qed

subsection \<open>Reading off what stands\<close>

definition own_orders :: "ClientId \<Rightarrow> MEOrder list \<Rightarrow> (OrderId \<times> Qty) list" where
  "own_orders c xs = map (\<lambda>x. (client_order_id x, o_qty x)) (filter (\<lambda>x. client_id x = c) xs)"

lemma slot_resting:
  assumes "\<forall>x \<in> set xs. o_side x = side"
  shows "slot_standing k (resting c t xs) = (if k = (t, sideToIndex side) then own_orders c xs else [])"
  using assms by (induction xs) (auto simp: own_orders_def order_entry_def)

lemma slot_books:
  assumes "\<forall>s \<in> set ts. \<exists>n. view_ok (word_of_nat s) n (A s)" and "distinct ts" and "side = BUY \<or> side = SELL"
  shows "slot_standing (t, sideToIndex side) (books_standing c A ts) = (if t \<in> set ts then own_orders c (A t side) else [])"
  using assms(1,2)
proof (induction ts)
  case (Cons s ts)
  then obtain n where v: "view_ok (word_of_nat s) n (A s)" by auto
  have sides: "\<forall>x \<in> set (A s BUY). o_side x = BUY" "\<forall>x \<in> set (A s SELL). o_side x = SELL"
    using view_okD(1) [OF v, of BUY] view_okD(1) [OF v, of SELL] by (simp_all add: order_ok_def)
  have "slot_standing (t, sideToIndex side) (book_standing c s (A s)) = (if s = t then own_orders c (A t side) else [])"
    using assms(3) by (auto simp: book_standing_def slot_resting [OF sides(1)] slot_resting [OF sides(2)])
  then show ?case using Cons by (auto simp: books_standing_def)
qed (simp add: books_standing_def)

end
