(* ===== verification/ExchangeRun.thy ===== *)
theory ExchangeRun
  imports ExchangeLoop ExchangeProps
begin

text \<open>
  A trading client at the exchange: what holds in every state that the steps of \<open>ExchangeLoop\<close> reach from the set-up of
  \<open>trading/trading_main.cpp\<close> and \<open>exchange/exchange_main.cpp\<close>, whatever the other clients do.
\<close>

subsection \<open>The set-up\<close>

definition market_start :: "ClientId \<Rightarrow> AlgoType \<Rightarrow> (nat \<Rightarrow> TradeEngineCfg) \<Rightarrow> (nat \<Rightarrow> Price) \<Rightarrow> (nat \<Rightarrow> Price) \<Rightarrow> (nat \<Rightarrow> nat \<Rightarrow> double) \<Rightarrow> market" where
  "market_start client algo cfg base engine_base vwaps =
     \<lparr>mk_engine = trade_engine_new client algo cfg engine_base (\<lambda>_ _. None) (\<lambda>_ _. None) vwaps, mk_up = [], mk_down = [],
      mk_exchange = engine_new base (\<lambda>_ _ _. None) (\<lambda>_ _. None)\<rparr>"

text \<open>How many responses can be on their way, and limits for which they are sure to fit.\<close>

definition responses_bound :: "(nat \<Rightarrow> TradeEngineCfg) \<Rightarrow> nat" where
  "responses_bound cfg = (\<Sum>t \<leftarrow> [0..<ME_MAX_TICKERS]. 4 + 2 * unat (min (max_position (risk_cfg (cfg t))) (max_order_size (risk_cfg (cfg t)))))"

definition limits_fit :: "(nat \<Rightarrow> TradeEngineCfg) \<Rightarrow> bool" where
  "limits_fit cfg \<longleftrightarrow> responses_bound cfg \<le> ME_MAX_CLIENT_UPDATES"

lemma exchange_start:
  "exchange_ok [] (engine_new base (\<lambda>_ _ _. None) (\<lambda>_ _. None)) (\<lambda>_ _. [])"
  "t < ME_MAX_TICKERS \<Longrightarrow> book_views (engine_new base (\<lambda>_ _ _. None) (\<lambda>_ _. None)) (\<lambda>_ _. []) t = (\<lambda>_. [])"
proof -
  let ?x = "engine_new base (\<lambda>_ _ _. None) (\<lambda>_ _. None)"
  have b: "ticker_order_book ?x ! t = fresh_book (word_of_nat t) (base t)" if "t < ME_MAX_TICKERS" for t
    using that by (simp add: engine_new_def fresh_book_def)
  show v: "book_views ?x (\<lambda>_ _. []) t = (\<lambda>_. [])" if "t < ME_MAX_TICKERS" for t
    using that by (simp add: book_views_def fun_eq_iff view_empty)
  have "lfq_inv (incoming_requests ?x)" by (simp add: engine_new_def ME_MAX_CLIENT_UPDATES_def)
  then show "exchange_ok [] ?x (\<lambda>_ _. [])"
    using engine_new_ok v by (auto simp: exchange_ok_def b resting_orders_def view_empty order_ids_def)
qed

lemma nat_min_uint: "nat (min (uint a) (uint b)) = unat (min a b)" for a b :: Qty
  by (simp add: min_def word_le_def nat_uint_eq)

lemma market_start_inv:
  assumes c: "cfgs_ok cfg" "algo = MAKER \<or> algo = TAKER" and l: "limits_fit cfg"
  shows "mk_inv 1 [] (market_start client algo cfg base engine_base vwaps)"
    "t < ME_MAX_TICKERS \<Longrightarrow> te_limit t (mk_engine (market_start client algo cfg base engine_base vwaps)) = uint (max_position (risk_cfg (cfg t)))"
    "most_responses (mk_engine (market_start client algo cfg base engine_base vwaps)) = responses_bound cfg"
proof -
  let ?e = "trade_engine_new client algo cfg engine_base (\<lambda>_ _. None) (\<lambda>_ _. None) vwaps" and ?x = "engine_new base (\<lambda>_ _ _. None) (\<lambda>_ _. None)"
  have lim: "te_limit t ?e = uint (max_position (risk_cfg (cfg t)))" if "t < ME_MAX_TICKERS" for t
    using that by (simp add: te_limit_def trade_engine_new_def risk_manager_new_def)
  then show "te_limit t (mk_engine (market_start client algo cfg base engine_base vwaps)) = uint (max_position (risk_cfg (cfg t)))"
    if "t < ME_MAX_TICKERS" for t using that by (simp add: market_start_def)
  have sz: "te_size t ?e = uint (max_order_size (risk_cfg (cfg t)))" if "t < ME_MAX_TICKERS" for t
    using that by (simp add: te_size_def trade_engine_new_def risk_manager_new_def)
  have most: "most_responses ?e = responses_bound cfg"
    unfolding most_responses_def responses_bound_def by (intro arg_cong [where f = sum_list] map_cong) (auto simp: lim sz nat_min_uint)
  then show "most_responses (mk_engine (market_start client algo cfg base engine_base vwaps)) = responses_bound cfg" by (simp add: market_start_def)
  have "te_orders ?e = order_manager_new" "outgoing_ogw_requests ?e = lfq_new ME_MAX_CLIENT_UPDATES MEClientRequest_default"
    "incoming_ogw_responses ?e = lfq_new ME_MAX_CLIENT_UPDATES MEClientResponse_default" by (simp_all add: trade_engine_new_def)
  from engine_wired_new [OF te_safe_new [OF c] this(1) _ this(2,3)] most l
  have w: "engine_wired so 1 ?e [] [] []" for so by (simp add: limits_fit_def)
  have "books_standing client (book_views ?x (\<lambda>_ _. [])) [0..<ME_MAX_TICKERS] = []"
    using exchange_start(2) by (auto simp: books_standing_def book_standing_def)
  moreover have "lfq_list (incoming_requests ?x) = []" "lfq_list (outgoing_ogw_responses ?x) = []"
    by (simp_all add: engine_new_def)
  moreover have "te_client_id ?e = client" by (simp add: trade_engine_new_def)
  ultimately have "mk_wired so 1 (book_views ?x (\<lambda>_ _. [])) (market_start client algo cfg base engine_base vwaps)" for so
    using w by (simp add: mk_wired_def market_start_def)
  then show "mk_inv 1 [] (market_start client algo cfg base engine_base vwaps)"
    using exchange_start(1) unfolding mk_inv_def by (intro exI [of _ "\<lambda>_. (0, 0)"] exI [of _ "\<lambda>_ _. []"]) (simp add: market_start_def)
qed

lemma market_reached:
  assumes "cfgs_ok cfg" and "algo = MAKER \<or> algo = TAKER" and "limits_fit cfg"
    and "mk_run n (market_start client algo cfg base engine_base vwaps) rs m" and "n < 2 ^ 62"
  shows "mk_inv (1 + 2 * n) rs m" "te_client_id (mk_engine m) = client"
    "t < ME_MAX_TICKERS \<Longrightarrow> te_limit t (mk_engine m) = uint (max_position (risk_cfg (cfg t)))"
    "most_responses (mk_engine m) = responses_bound cfg"
proof -
  note st = market_start_inv [OF assms(1-3), where client = client and base = base and engine_base = engine_base and vwaps = vwaps]
  from mk_run_inv [OF assms(4) st(1)] assms(5)
  have r: "mk_inv (1 + 2 * n) rs m" "te_risk (mk_engine m) = te_risk (mk_engine (market_start client algo cfg base engine_base vwaps))"
    "te_client_id (mk_engine m) = te_client_id (mk_engine (market_start client algo cfg base engine_base vwaps))"
    by (simp_all add: same_party_def same_engine_def)
  show "mk_inv (1 + 2 * n) rs m" by (rule r(1))
  show "te_client_id (mk_engine m) = client" using r(3) by (simp add: market_start_def trade_engine_new_def)
  show "t < ME_MAX_TICKERS \<Longrightarrow> te_limit t (mk_engine m) = uint (max_position (risk_cfg (cfg t)))" using limits_cong [OF r(2)] st(2) by simp
  show "most_responses (mk_engine m) = responses_bound cfg"
    using most_responses_cong [OF r(2)] st(3) by simp
qed

text \<open>Nothing of the client on its way.\<close>

definition quiet :: "market \<Rightarrow> bool" where
  "quiet m \<longleftrightarrow> lfq_size (outgoing_ogw_requests (mk_engine m)) = 0 \<and> lfq_size (incoming_ogw_responses (mk_engine m)) = 0 \<and>
     mk_up m = [] \<and> mk_down m = [] \<and> own_requests (te_client_id (mk_engine m)) (lfq_list (incoming_requests (mk_exchange m))) = [] \<and>
     for_client (te_client_id (mk_engine m)) (lfq_list (outgoing_ogw_responses (mk_exchange m))) = []"

text \<open>A run to look at: client 7 trades with small limits, and client 1 sends an order, which the exchange takes.\<close>

definition demo_limits :: "nat \<Rightarrow> TradeEngineCfg" where
  "demo_limits _ = default_cfg\<lparr>risk_cfg := \<lparr>max_order_size = 10, max_position = 100, max_loss = Fin (- 1000)\<rparr>\<rparr>"

definition demo_market :: market where
  "demo_market = market_start 7 MAKER demo_limits (\<lambda>_. 0) (\<lambda>_. 0) (\<lambda>_ _. Fin 0)"

lemma demo_limits_ok: "cfgs_ok demo_limits" "limits_fit demo_limits"
  by (simp_all add: cfgs_ok_def limits_ok_def demo_limits_def limits_fit_def responses_bound_def sum_list_triv ME_MAX_TICKERS_def ME_MAX_CLIENT_UPDATES_def)

lemma demo_market_client: "te_client_id (mk_engine demo_market) = 7"
  by (simp add: demo_market_def market_start_def trade_engine_new_def)

lemma demo_fits: "fits (demo_requests ! 0) (engine_new (\<lambda>_. 0) (\<lambda>_ _ _. None) (\<lambda>_ _. None))"
proof -
  let ?r = "demo_requests ! 0" and ?x = "engine_new (\<lambda>_. 0) (\<lambda>_ _ _. None) (\<lambda>_ _. None)"
  obtain n A evs where sp: "spec_request ?r (1, \<lambda>_. []) = ((n, A), evs)" by (metis prod.exhaust)
  have e: "map rs_type (responses_of evs) = [ACCEPTED]" "map mu_type (updates_of evs) = [ADD]"
    using sp by (auto simp: demo_requests_def spec_request_def spec_add_def Let_def responses_of_def updates_of_def)
  have len: "length (responses_of evs) = 1" "length (updates_of evs) = 1"
    using arg_cong [OF e(1), of length] arg_cong [OF e(2), of length] by simp_all
  have f: "(1 :: OrderId) \<noteq> - 1" "request_ok 0 0 ?r" using demo_requests_ok(1) by (simp_all add: demo_requests_def)
  from book_request_ok [of "fresh_book 0 0" "\<lambda>_. []" ?r n A evs] sp f
  have "\<exists>b. book_request ?r (fresh_book 0 0) = Inr b \<and> outbox b = evs"
    by (auto simp: view_empty order_ids_def resting_orders_def ME_MAX_ORDER_IDS_def)
  moreover have "lfq_room (outgoing_ogw_responses ?x) = ME_MAX_CLIENT_UPDATES" "lfq_room (outgoing_md_updates ?x) = ME_MAX_MARKET_UPDATES"
    by (simp_all add: engine_new_def lfq_room_def) (simp_all add: lfq_new_def)
  moreover have "unat (rq_ticker_id ?r) = 0" "ticker_order_book ?x ! 0 = fresh_book 0 0"
    by (simp_all add: demo_requests_def engine_new_def fresh_book_def ME_MAX_TICKERS_def)
  ultimately show ?thesis using len by (auto simp: fits_def ME_MAX_CLIENT_UPDATES_def ME_MAX_MARKET_UPDATES_def)
qed

lemma demo_market_run: "mk_run 1 demo_market [] (mk_request (demo_requests ! 0) demo_market)"
proof -
  have "mk_step [] demo_market [] (mk_request (demo_requests ! 0) demo_market)"
  proof (rule mk_step.other)
    show "rq_client_id (demo_requests ! 0) \<noteq> te_client_id (mk_engine demo_market)" by (simp add: demo_market_client) (simp add: demo_requests_def)
    show "0 < lfq_room (incoming_requests (mk_exchange demo_market))"
      by (simp add: demo_market_def market_start_def engine_new_def lfq_room_def ME_MAX_CLIENT_UPDATES_def) (simp add: lfq_new_def)
  qed
  from mk_run.again [OF mk_run.start this] show ?thesis by simp
qed

lemma fits_queued: "fits r (x\<lparr>incoming_requests := q\<rparr>) = fits r x"
  by (simp add: fits_def split: sum.split)

lemma demo_market_next: "getNextToRead (incoming_requests (mk_exchange (mk_request (demo_requests ! 0) demo_market))) = Some (demo_requests ! 0)"
  "acceptable 7 [] (demo_requests ! 0) (mk_exchange (mk_request (demo_requests ! 0) demo_market))"
proof -
  let ?q = "incoming_requests (mk_exchange demo_market)"
  have q: "lfq_inv ?q" "lfq_list ?q = []" "0 < lfq_room ?q"
    by (simp_all add: demo_market_def market_start_def engine_new_def ME_MAX_CLIENT_UPDATES_def lfq_room_def) (simp add: lfq_new_def)
  have "getNextToRead (lfq_push (demo_requests ! 0) ?q) = Some (demo_requests ! 0)"
    using push_one [OF q(1,3)] q(2) by (simp add: getNextToRead_list)
  then show "getNextToRead (incoming_requests (mk_exchange (mk_request (demo_requests ! 0) demo_market))) = Some (demo_requests ! 0)"
    by (simp add: mk_request_def)
  have "fits (demo_requests ! 0) (mk_exchange (mk_request (demo_requests ! 0) demo_market))"
    using demo_fits by (simp add: fits_queued mk_request_def demo_market_def market_start_def)
  moreover have "base_price (ticker_order_book (mk_exchange (mk_request (demo_requests ! 0) demo_market)) ! 0) = 0"
    by (simp add: mk_request_def demo_market_def market_start_def engine_new_def ME_MAX_TICKERS_def me_book_new_def)
  moreover have "request_ok 0 0 (demo_requests ! 0)" "rq_ticker_id (demo_requests ! 0) = 0"
    using demo_requests_ok(1) by (simp_all add: demo_requests_def)
  ultimately show "acceptable 7 [] (demo_requests ! 0) (mk_exchange (mk_request (demo_requests ! 0) demo_market))"
    by (simp add: acceptable_def ME_MAX_TICKERS_def ME_MAX_ORDER_IDS_def new_ids_def)
qed

lemma demo_market_run2: "\<exists>m. mk_run 2 demo_market [demo_requests ! 0] m"
proof -
  let ?m = "mk_request (demo_requests ! 0) demo_market"
  have "mk_inv (1 + 2 * 1) [] ?m" "te_client_id (mk_engine ?m) = 7"
    using market_reached(1,2) [OF demo_limits_ok(1) _ demo_limits_ok(2) demo_market_run [unfolded demo_market_def]] by (simp_all add: demo_market_def)
  with mk_match_inv [OF this(1) demo_market_next(1)] demo_market_next(2) obtain x where "engine_step (mk_exchange ?m) = Inr x" by auto
  from mk_step.match [OF demo_market_next(1) _ this, of "[]"] demo_market_next(2) \<open>te_client_id (mk_engine ?m) = 7\<close>
  have "mk_step [] ?m [demo_requests ! 0] (?m\<lparr>mk_exchange := x\<rparr>)" by simp
  from mk_run.again [OF demo_market_run this] show ?thesis by (auto simp: numeral_2_eq_2)
qed

text \<open>
  An order of quantity 0: the exchange accepts it and forgets it, so its cancel is rejected; the order manager ignores the
  rejection, and sends nothing more for an order that waits for its cancel.
\<close>

lemma zero_quantity_never_rests:
  "trading_side side \<Longrightarrow> spec_add client coid ticker side price 0 n A = (A, [Response \<lparr>rs_type = ACCEPTED, rs_client_id = client,
     rs_ticker_id = ticker, rs_client_order_id = coid, rs_market_order_id = n, rs_side = side, rs_price = price,
     rs_exec_qty = 0, rs_leaves_qty = 0\<rparr>])"
  "rs_type r = CANCEL_REJECTED \<Longrightarrow> om_onOrderUpdate r om = Inr om' \<Longrightarrow> om' = om"
  "order_state (get_order k om) = PENDING_CANCEL \<Longrightarrow> moveOrder check c k tk px side q om = Inr om' \<Longrightarrow> om' = om"
proof -
  have "spec_match ticker client side price coid m 0 xs = (0, xs, [])" for m xs by (cases xs) simp_all
  then show "spec_add client coid ticker side price 0 n A = (A, [Response \<lparr>rs_type = ACCEPTED, rs_client_id = client,
     rs_ticker_id = ticker, rs_client_order_id = coid, rs_market_order_id = n, rs_side = side, rs_price = price,
     rs_exec_qty = 0, rs_leaves_qty = 0\<rparr>])" by (simp add: spec_add_def)
  show "rs_type r = CANCEL_REJECTED \<Longrightarrow> om_onOrderUpdate r om = Inr om' \<Longrightarrow> om' = om"
    by (simp add: om_onOrderUpdate_def res_simps Let_def)
  show "order_state (get_order k om) = PENDING_CANCEL \<Longrightarrow> moveOrder check c k tk px side q om = Inr om' \<Longrightarrow> om' = om"
    by (simp add: moveOrder_def)
qed

subsection \<open>Properties\<close>

text \<open>
  C6. The position limit holds at the exchange, with nothing assumed of the responses: start a client with any limits that
  fit and either strategy against an exchange that is just up, and let the client, the connection, the matching engine and
  any number of other clients interleave in any way. The client's position in an instrument never exceeds its limit, and
  would not if all its working orders of either side filled. (A run is one in which the matching engine finds every request
  \<open>acceptable\<close>: well-formed, within the price window, with room in its queues.)
\<close>

theorem market_position_limit:
  assumes "cfgs_ok cfg" and "algo = MAKER \<or> algo = TAKER" and "limits_fit cfg"
    and "mk_run n (market_start client algo cfg base engine_base vwaps) rs m" and "n < 2 ^ 62" and "t < ME_MAX_TICKERS"
  shows "\<bar>sint (position (te_positions (mk_engine m) ! t))\<bar> \<le> uint (max_position (risk_cfg (cfg t))) \<and>
    exposed (uint (max_position (risk_cfg (cfg t)))) (sint (position (te_positions (mk_engine m) ! t))) t (te_orders (mk_engine m))"
proof -
  note r = market_reached [OF assms(1-5)]
  from r(1) obtain so A B L where w: "engine_wired so (1 + 2 * n) (mk_engine m) A B L" unfolding mk_inv_def mk_wired_def by blast
  then have "exposed (te_limit t (mk_engine m)) (te_position t (mk_engine m)) t (te_orders (mk_engine m))"
    using assms(6) by (simp add: engine_wired_def te_safe_def)
  with engine_wired_limit [OF w assms(6)] show ?thesis using r(3) [OF assms(6)] by (simp add: te_position_def)
qed

theorem market_position_limit_witness:
  "\<exists>m. mk_run 2 demo_market [demo_requests ! 0] m \<and> \<bar>sint (position (te_positions (mk_engine m) ! 3))\<bar> \<le> 100"
proof -
  obtain m where m: "mk_run 2 demo_market [demo_requests ! 0] m" using demo_market_run2 by blast
  from market_position_limit [OF demo_limits_ok(1) _ demo_limits_ok(2) m [unfolded demo_market_def], of 3] m show ?thesis
    by (auto simp: ME_MAX_TICKERS_def demo_limits_def)
qed

text \<open>
  C8. Orders and responses move on, and what is on its way is bounded. In any such run: the client's requests between its
  order manager and the books are at most 32; the responses to it at most 4 for each instrument and 2 for each unit of the
  smaller of its two limits, on its position and on the size of an order; the trade engine's response handler completes, and
  so do the two senders of the connection. Of the next request at the matching engine: if it is \<open>acceptable\<close>, the engine
  completes on it, and if it is also a new order of this client, its id is not that of an order of the client that still rests
  in the book. (The trade engine's handler of market data is the subject of \<open>engine_follows_exchange\<close>; of a request that
  is not acceptable nothing is claimed.)
\<close>

theorem market_goes_on:
  assumes "cfgs_ok cfg" and "algo = MAKER \<or> algo = TAKER" and "limits_fit cfg"
    and "mk_run n (market_start client algo cfg base engine_base vwaps) rs m" and "n < 2 ^ 62"
  shows "length (own_requests client (lfq_list (incoming_requests (mk_exchange m)))) + length (mk_up m) +
      lfq_size (outgoing_ogw_requests (mk_engine m)) \<le> 32 \<and>
    lfq_size (incoming_ogw_responses (mk_engine m)) + length (mk_down m) +
      length (for_client client (lfq_list (outgoing_ogw_responses (mk_exchange m)))) \<le> responses_bound cfg \<and>
    (\<exists>e. te_response_step (mk_engine m) = Inr e) \<and> (\<exists>m'. mk_send m = Inr m') \<and> (\<exists>m'. mk_answer m = Inr m') \<and>
    (\<forall>r. getNextToRead (incoming_requests (mk_exchange m)) = Some r \<and> acceptable client rs r (mk_exchange m) \<longrightarrow>
      (\<exists>x S. engine_step (mk_exchange m) = Inr x \<and> me_inv (ticker_order_book (mk_exchange m) ! unat (rq_ticker_id r)) S \<and>
        (rq_client_id r = client \<and> rq_type r = NEW \<longrightarrow>
          (client, rq_order_id r) \<notin> order_ids (view (ticker_order_book (mk_exchange m) ! unat (rq_ticker_id r)) S))))"
proof -
  note r = market_reached [OF assms(1-5)]
  let ?A = "own_requests client (lfq_list (incoming_requests (mk_exchange m))) @ mk_up m"
    and ?B = "mk_down m @ for_client client (lfq_list (outgoing_ogw_responses (mk_exchange m)))"
  from r(1) obtain so L where so: "engine_wired so (1 + 2 * n) (mk_engine m) ?A ?B L" unfolding mk_inv_def mk_wired_def r(2) by blast
  have "length ?A + lfq_size (outgoing_ogw_requests (mk_engine m)) \<le> 32" using engine_wired_fits(1) [OF so] by (simp add: ME_MAX_TICKERS_def)
  moreover have "lfq_size (incoming_ogw_responses (mk_engine m)) + length ?B \<le> responses_bound cfg" using engine_wired_fits(2) [OF so] r(4) by simp
  moreover have "\<exists>x S. engine_step (mk_exchange m) = Inr x \<and> me_inv (ticker_order_book (mk_exchange m) ! unat (rq_ticker_id r)) S \<and>
        (rq_client_id r = client \<and> rq_type r = NEW \<longrightarrow>
          (client, rq_order_id r) \<notin> order_ids (view (ticker_order_book (mk_exchange m) ! unat (rq_ticker_id r)) S))"
    if "getNextToRead (incoming_requests (mk_exchange m)) = Some r" "acceptable client rs r (mk_exchange m)" for r
    using mk_match_inv [OF r(1) that(1), unfolded r(2), OF that(2)] by (elim exE) (intro exI, auto)
  moreover have "\<exists>e. te_response_step (mk_engine m) = Inr e" "\<exists>m'. mk_send m = Inr m'" "\<exists>m'. mk_answer m = Inr m'"
    using engine_response [OF so] mk_send_inv [OF r(1)] mk_answer_inv [OF r(1)] by blast+
  ultimately show ?thesis by simp
qed

theorem market_goes_on_witness:
  "\<exists>x S. engine_step (mk_exchange (mk_request (demo_requests ! 0) demo_market)) = Inr x \<and>
     me_inv (ticker_order_book (mk_exchange (mk_request (demo_requests ! 0) demo_market)) ! 0) S \<and>
     lfq_size (incoming_ogw_responses (mk_engine (mk_request (demo_requests ! 0) demo_market))) \<le> 192"
proof -
  let ?m = "mk_request (demo_requests ! 0) demo_market"
  have tk: "unat (rq_ticker_id (demo_requests ! 0)) = 0" by (simp add: demo_requests_def)
  note g = market_goes_on [OF demo_limits_ok(1) _ demo_limits_ok(2) demo_market_run [unfolded demo_market_def], folded demo_market_def]
  from g have all: "\<forall>r. getNextToRead (incoming_requests (mk_exchange ?m)) = Some r \<and> acceptable 7 [] r (mk_exchange ?m) \<longrightarrow>
      (\<exists>x S. engine_step (mk_exchange ?m) = Inr x \<and> me_inv (ticker_order_book (mk_exchange ?m) ! unat (rq_ticker_id r)) S)"
    and "lfq_size (incoming_ogw_responses (mk_engine ?m)) \<le> responses_bound demo_limits" by force+
  moreover have "responses_bound demo_limits = 192" by (simp add: responses_bound_def demo_limits_def sum_list_triv ME_MAX_TICKERS_def)
  ultimately show ?thesis using all [rule_format, OF conjI [OF demo_market_next]] unfolding tk by auto
qed

text \<open>
  C7. When nothing of the client is on its way, the client and the exchange agree on every order: in any such run, for each
  instrument and side, the client has a working order, of any quantity but 0, exactly when one of its orders rests on that
  side of the exchange's book, and then it is live and rests with the order id and with exactly the quantity the client thinks
  is left. (An order of quantity 0 is accepted and never rests.)
\<close>

theorem market_drained_agrees:
  assumes "cfgs_ok cfg" and "algo = MAKER \<or> algo = TAKER" and "limits_fit cfg"
    and "mk_run n (market_start client algo cfg base engine_base vwaps) rs m" and "n < 2 ^ 62"
    and "quiet m" and "t < ME_MAX_TICKERS" and "side = BUY \<or> side = SELL"
  shows "\<exists>S. me_inv (ticker_order_book (mk_exchange m) ! t) S \<and>
    (let x = get_order (t, sideToIndex side) (te_orders (mk_engine m));
         p = own_orders client (view (ticker_order_book (mk_exchange m) ! t) S side) in
     (working x \<and> om_qty x \<noteq> 0 \<longrightarrow> order_state x = LIVE \<and> p = [(om_order_id x, om_qty x)]) \<and> (\<not> working x \<longrightarrow> p = []))"
proof -
  note r = market_reached [OF assms(1-5)]
  let ?x = "mk_exchange m" and ?k = "(t, sideToIndex side)"
  from r(1) obtain so S where so: "exchange_ok rs ?x S" "mk_wired so (1 + 2 * n) (book_views ?x S) m" unfolding mk_inv_def by blast
  have w: "engine_wired so (1 + 2 * n) (mk_engine m) [] [] (books_standing client (book_views ?x S) [0..<ME_MAX_TICKERS])"
    using so(2) assms(6) r(2) by (simp add: mk_wired_def quiet_def)
  have "trading_slot ?k" using assms(7,8) by (auto simp: trading_slot_def)
  from engine_wired_drained [OF w _ _ this] assms(6)
  have ag: "agrees (get_order ?k (te_orders (mk_engine m))) (slot_standing ?k (books_standing client (book_views ?x S) [0..<ME_MAX_TICKERS]))"
    by (simp add: quiet_def)
  have "\<forall>s \<in> set [0..<ME_MAX_TICKERS]. \<exists>k. view_ok (word_of_nat s) k (book_views ?x S s)"
    by (intro ballI exI, rule exchange_okD(8) [OF so(1)]) simp
  from slot_books [OF this _ assms(8), of t client] assms(7)
  have "slot_standing ?k (books_standing client (book_views ?x S) [0..<ME_MAX_TICKERS]) = own_orders client (book_views ?x S t side)"
    by simp
  also have "book_views ?x S t side = view (ticker_order_book ?x ! t) (S t) side" by (simp add: book_views_def)
  finally have "agrees (get_order ?k (te_orders (mk_engine m))) (own_orders client (view (ticker_order_book ?x ! t) (S t) side))" using ag by simp
  then show ?thesis using exchange_okD(1) [OF so(1) assms(7)] by (intro exI [of _ "S t"]) (auto simp: agrees_def Let_def split: if_splits)
qed

theorem market_drained_agrees_witness:
  "\<exists>S. me_inv (ticker_order_book (mk_exchange (mk_request (demo_requests ! 0) demo_market)) ! 0) S \<and>
     own_orders 7 (view (ticker_order_book (mk_exchange (mk_request (demo_requests ! 0) demo_market)) ! 0) S BUY) = []"
proof -
  let ?m = "mk_request (demo_requests ! 0) demo_market"
  have z: "lfq_size (outgoing_ogw_requests (mk_engine ?m)) = 0" "lfq_size (incoming_ogw_responses (mk_engine ?m)) = 0"
    "lfq_list (outgoing_ogw_responses (mk_exchange ?m)) = []" "lfq_list (incoming_requests (mk_exchange demo_market)) = []"
    "mk_up ?m = []" "mk_down ?m = []" "te_client_id (mk_engine ?m) = 7"
    by (simp_all add: mk_request_def demo_market_def market_start_def trade_engine_new_def engine_new_def lfq_size_def) (simp_all add: lfq_new_def)
  have "own_requests 7 (lfq_list (incoming_requests (mk_exchange ?m))) = []"
  proof -
    let ?q = "incoming_requests (mk_exchange demo_market)"
    have q: "lfq_inv ?q" "0 < lfq_room ?q"
      by (simp_all add: demo_market_def market_start_def engine_new_def ME_MAX_CLIENT_UPDATES_def lfq_room_def) (simp add: lfq_new_def)
    show ?thesis using push_one(2) [OF q, of "demo_requests ! 0"] z(4) by (simp add: mk_request_def) (simp add: demo_requests_def)
  qed
  then have q: "quiet ?m" using z by (simp add: quiet_def)
  have "te_orders (mk_engine ?m) = order_manager_new" by (simp add: mk_request_def demo_market_def market_start_def trade_engine_new_def)
  then have "\<not> working (get_order (0, sideToIndex BUY) (te_orders (mk_engine ?m)))"
    by (simp add: order_manager_new_def get_order_def OMOrder_default_def working_def)
  with market_drained_agrees [OF demo_limits_ok(1) _ demo_limits_ok(2) demo_market_run [unfolded demo_market_def] _ q [unfolded demo_market_def], of 0 BUY]
  show ?thesis by (auto simp: ME_MAX_TICKERS_def demo_market_def Let_def simp del: sideToIndex_simps)
qed

end
