(* ===== verification/Workloads.thy ===== *)
theory Workloads
  imports UnorderedBook
begin

text \<open>
  The programs that drive the exchange with generated orders: the RANDOM client of \<open>trading/trading_main.cpp\<close>,
  \<open>benchmarks/hash_benchmark.cpp\<close> and the second part of \<open>benchmarks/latency_benchmark.cpp\<close>.

  \<^item> The numbers are parameters: \<open>rnd k\<close> is what call \<open>k\<close> of \<open>rand()\<close> (or of the generator) returns, \<open>quiet n\<close> whether
    the engine has been silent for a minute after \<open>n\<close> rounds. Nothing is assumed of \<open>rnd\<close> and \<open>quiet\<close>.
  \<^item> \<open>random_client\<close>, \<open>hash_requests\<close> and \<open>rest_requests\<close> are the requests the three programs send, in order.
  \<^item> What is shown: these requests satisfy the conditions under which the books were proved right, so the book of each
    ticker completes them all, whatever the numbers and however the clients' requests interleave; the two books
    \<open>hash_benchmark\<close> compares do the same work; the orders \<open>latency_benchmark\<close> wants to rest do rest.
\<close>

subsection \<open>The RANDOM client\<close>

record client_loop =
  rand_calls :: nat
  next_order_id :: OrderId
  requests_vec :: "MEClientRequest list"
  sent_requests :: "MEClientRequest list"

definition random_side :: "nat \<Rightarrow> Side" where
  "random_side r = (if r mod 2 \<noteq> 0 then BUY else SELL)"

definition ticker_base_price :: "(nat \<Rightarrow> nat) \<Rightarrow> Price list" where
  "ticker_base_price rnd = map (\<lambda>i. int (rnd i mod 100) + 100) [0..<ME_MAX_TICKERS]"

definition random_start :: "ClientId \<Rightarrow> client_loop" where
  "random_start client = \<lparr>rand_calls = ME_MAX_TICKERS, next_order_id = ucast (client * 1000), requests_vec = [], sent_requests = []\<rparr>"

definition random_new :: "(nat \<Rightarrow> nat) \<Rightarrow> ClientId \<Rightarrow> client_loop \<Rightarrow> MEClientRequest" where
  "random_new rnd client w =
     (let k = rand_calls w;
          ticker = rnd k mod ME_MAX_TICKERS;
          price = ticker_base_price rnd ! ticker + int (rnd (k + 1) mod 10) + 1;
          qty = 1 + word_of_nat (rnd (k + 2) mod 100) + 1;
          side = random_side (rnd (k + 3)) in
      \<lparr>rq_type = NEW, rq_client_id = client, rq_ticker_id = word_of_nat ticker, rq_order_id = next_order_id w,
       rq_side = side, rq_price = price, rq_qty = qty\<rparr>)"

definition random_round :: "(nat \<Rightarrow> nat) \<Rightarrow> ClientId \<Rightarrow> client_loop \<Rightarrow> client_loop" where
  "random_round rnd client w =
     (let new_request = random_new rnd client w;
          vec = requests_vec w @ [new_request];
          cxl_index = rnd (rand_calls w + 4) mod length vec;
          cxl_request = (vec ! cxl_index)\<lparr>rq_type := Request_CANCEL\<rparr> in
      \<lparr>rand_calls = rand_calls w + 5, next_order_id = next_order_id w + 1, requests_vec = vec,
       sent_requests = sent_requests w @ [new_request, cxl_request]\<rparr>)"

fun random_rounds :: "nat \<Rightarrow> (nat \<Rightarrow> nat) \<Rightarrow> (nat \<Rightarrow> bool) \<Rightarrow> ClientId \<Rightarrow> client_loop \<Rightarrow> client_loop" where
  "random_rounds 0 rnd quiet client w = w"
| "random_rounds (Suc n) rnd quiet client w =
     (let w1 = random_round rnd client w in
      if quiet (length (requests_vec w1)) then w1 else random_rounds n rnd quiet client w1)"

definition random_client :: "(nat \<Rightarrow> nat) \<Rightarrow> (nat \<Rightarrow> bool) \<Rightarrow> ClientId \<Rightarrow> MEClientRequest list" where
  "random_client rnd quiet client = sent_requests (random_rounds 10000 rnd quiet client (random_start client))"

subsection \<open>The benchmark of the two books\<close>

definition loop_count :: nat where "loop_count = 100000"

definition hash_new :: "(nat \<Rightarrow> nat) \<Rightarrow> nat \<Rightarrow> OrderId \<Rightarrow> MEClientRequest" where
  "hash_new rnd k order_id =
     \<lparr>rq_type = NEW, rq_client_id = 0, rq_ticker_id = 0, rq_order_id = order_id, rq_side = random_side (rnd (k + 2)),
      rq_price = (int (rnd 0 mod 100) + 100) + int (rnd k mod 10) + 1, rq_qty = 1 + word_of_nat (rnd (k + 1) mod 100) + 1\<rparr>"

function hash_fill :: "(nat \<Rightarrow> nat) \<Rightarrow> nat \<Rightarrow> OrderId \<Rightarrow> MEClientRequest list \<Rightarrow> MEClientRequest list" where
  "hash_fill rnd k order_id vec =
     (if length vec < loop_count
      then (let vec1 = vec @ [hash_new rnd k order_id];
                cxl_index = rnd (k + 3) mod length vec1 in
            hash_fill rnd (k + 4) (order_id + 1) (vec1 @ [(vec1 ! cxl_index)\<lparr>rq_type := Request_CANCEL\<rparr>]))
      else vec)"
  by pat_completeness auto
termination
  by (relation "measure (\<lambda>(rnd, k, order_id, vec). loop_count - length vec)") auto

declare hash_fill.simps [simp del]

definition hash_requests :: "(nat \<Rightarrow> nat) \<Rightarrow> MEClientRequest list" where
  "hash_requests rnd = hash_fill rnd 1 1000 []"

text \<open>\<open>benchmarkHashMap\<close> on either book, without the cycle counter: the first \<open>loop_count\<close> requests of the vector.\<close>

definition bench_array_request :: "MEClientRequest \<Rightarrow> me_order_book \<Rightarrow> me_order_book res" where
  "bench_array_request r b =
     (case rq_type r of
        NEW \<Rightarrow> me_add (rq_client_id r) (rq_order_id r) (rq_ticker_id r) (rq_side r) (rq_price r) (rq_qty r) b
      | Request_CANCEL \<Rightarrow> me_cancel (rq_client_id r) (rq_order_id r) (rq_ticker_id r) b
      | _ \<Rightarrow> Inr b)"

definition bench_array :: "MEClientRequest list \<Rightarrow> me_order_book \<Rightarrow> me_order_book res" where
  "bench_array rs = foldE (\<lambda>i b. bindE (atE (length rs) i) (\<lambda>i. bench_array_request (rs ! i) b)) [0..<loop_count]"

definition bench_hash :: "MEClientRequest list \<Rightarrow> um_order_book \<Rightarrow> um_order_book res" where
  "bench_hash rs = foldE (\<lambda>i u. bindE (atE (length rs) i) (\<lambda>i. um_request (rs ! i) u)) [0..<loop_count]"

subsection \<open>The benchmark of resting orders\<close>

definition NUM_ORDERS :: nat where "NUM_ORDERS = 500000"

definition rest_request :: "(nat \<Rightarrow> nat) \<Rightarrow> (nat \<Rightarrow> Qty) \<Rightarrow> nat \<Rightarrow> MEClientRequest" where
  "rest_request rng qty_dist i =
     \<lparr>rq_type = NEW, rq_client_id = 0, rq_ticker_id = 0, rq_order_id = word_of_nat (i mod ME_MAX_ORDER_IDS),
      rq_side = (if i mod 2 = 0 then BUY else SELL),
      rq_price = (if i mod 2 = 0 then 90 else 101) + int (rng i mod 10), rq_qty = qty_dist i\<rparr>"

definition rest_requests :: "(nat \<Rightarrow> nat) \<Rightarrow> (nat \<Rightarrow> Qty) \<Rightarrow> MEClientRequest list" where
  "rest_requests rng qty_dist = map (rest_request rng qty_dist) [0..<NUM_ORDERS]"

subsection \<open>Ids of a session\<close>

lemma new_ids_append: "new_ids (xs @ ys) = new_ids xs @ new_ids ys"
  by (simp add: new_ids_def)

lemma new_ids_client: "filter (\<lambda>x. fst x = c) (new_ids rs) = new_ids (filter (\<lambda>r. rq_client_id r = c) rs)"
  by (induction rs) (simp_all add: new_ids_def)

lemma distinct_new_ids_filter: "distinct (new_ids rs) \<Longrightarrow> distinct (new_ids (filter P rs))"
  by (induction rs) (auto simp: new_ids_def split: if_splits)

subsection \<open>What the generators draw\<close>

definition drawn :: "ClientId \<Rightarrow> MEClientRequest \<Rightarrow> bool" where
  "drawn client r \<longleftrightarrow> rq_client_id r = client \<and> rq_type r \<noteq> Request_INVALID \<and> unat (rq_ticker_id r) < ME_MAX_TICKERS \<and>
     trading_side (rq_side r) \<and> 101 \<le> rq_price r \<and> rq_price r \<le> 209 \<and> 2 \<le> unat (rq_qty r) \<and> unat (rq_qty r) \<le> 101"

lemma unat_small: "x < 2 ^ LENGTH('a) \<Longrightarrow> unat (word_of_nat x :: 'a::len word) = x"
  by (simp add: unat_of_nat)

lemma drawn_qty: "2 \<le> unat (1 + word_of_nat (x mod 100) + 1 :: Qty)" "unat (1 + word_of_nat (x mod 100) + 1 :: Qty) \<le> 101"
proof -
  have m: "x mod 100 < 100" by simp
  have "(1 + word_of_nat (x mod 100) + 1 :: Qty) = word_of_nat (x mod 100 + 2)" by simp
  moreover have "unat (word_of_nat (x mod 100 + 2) :: Qty) = x mod 100 + 2"
    using m by (intro unat_small) simp
  ultimately have "unat (1 + word_of_nat (x mod 100) + 1 :: Qty) = x mod 100 + 2" by metis
  then show "2 \<le> unat (1 + word_of_nat (x mod 100) + 1 :: Qty)" "unat (1 + word_of_nat (x mod 100) + 1 :: Qty) \<le> 101"
    using m by linarith+
qed

lemma random_side_trading [simp]: "trading_side (random_side r)"
  by (simp add: random_side_def)

lemma drawn_price: "101 \<le> int (x mod 100) + 100 + int (y mod 10) + 1" "int (x mod 100) + 100 + int (y mod 10) + 1 \<le> 209"
proof -
  have "x mod 100 \<le> 99" "y mod 10 \<le> 9" using mod_less_divisor [of 100 x] mod_less_divisor [of 10 y] by linarith+
  then show "101 \<le> int (x mod 100) + 100 + int (y mod 10) + 1" "int (x mod 100) + 100 + int (y mod 10) + 1 \<le> 209"
    by linarith+
qed

lemma random_new_drawn: "drawn client (random_new rnd client w)"
proof -
  let ?t = "rnd (rand_calls w) mod ME_MAX_TICKERS"
  have t: "?t < ME_MAX_TICKERS" by (simp add: ME_MAX_TICKERS_def)
  then have u: "unat (word_of_nat ?t :: TickerId) = ?t" by (intro unat_small) (simp add: ME_MAX_TICKERS_def)
  have b: "ticker_base_price rnd ! ?t = int (rnd ?t mod 100) + 100" using t by (simp add: ticker_base_price_def del: upt.simps of_nat_mod)
  show ?thesis unfolding drawn_def random_new_def Let_def MEClientRequest.simps b u
    by (intro conjI refl t drawn_qty drawn_price random_side_trading ClientRequestType.distinct)
qed

lemma drawn_cancel [simp]: "drawn c r \<Longrightarrow> drawn c (r\<lparr>rq_type := Request_CANCEL\<rparr>)"
  by (simp add: drawn_def)

text \<open>A request vector whose entries were drawn and whose new orders are numbered from \<open>start\<close> on.\<close>

definition numbered :: "ClientId \<Rightarrow> nat \<Rightarrow> nat \<Rightarrow> MEClientRequest list \<Rightarrow> bool" where
  "numbered client start n rs \<longleftrightarrow> (\<forall>r \<in> set rs. drawn client r \<and> unat (rq_order_id r) < start + n) \<and> distinct (new_ids rs)"

lemma numbered_step:
  assumes "numbered client start n rs" and "drawn client r" and "rq_type r = NEW" and "unat (rq_order_id r) = start + n"
    and "drawn client c" and "rq_type c = Request_CANCEL" and "unat (rq_order_id c) \<le> start + n"
  shows "numbered client start (Suc n) (rs @ [r, c])"
proof -
  have "(rq_client_id r, rq_order_id r) \<notin> set (new_ids rs)"
  proof
    assume "(rq_client_id r, rq_order_id r) \<in> set (new_ids rs)"
    then obtain r' where "r' \<in> set rs" "rq_order_id r' = rq_order_id r" by (auto simp: new_ids_def)
    then show False using assms(1,4) by (auto simp: numbered_def)
  qed
  moreover have "new_ids [r, c] = [(rq_client_id r, rq_order_id r)]" using assms(3,6) by (simp add: new_ids_def)
  ultimately show ?thesis using assms by (fastforce simp: numbered_def new_ids_append)
qed

subsection \<open>The RANDOM client's session\<close>

definition loop_ok :: "ClientId \<Rightarrow> nat \<Rightarrow> client_loop \<Rightarrow> bool" where
  "loop_ok client n w \<longleftrightarrow> length (requests_vec w) = n \<and> unat (next_order_id w) = unat client * 1000 + n \<and>
     (\<forall>r \<in> set (requests_vec w). drawn client r \<and> unat (rq_order_id r) < unat client * 1000 + n) \<and>
     numbered client (unat client * 1000) n (sent_requests w) \<and> length (sent_requests w) = 2 * n"

lemma loop_start: "unat client < ME_MAX_NUM_CLIENTS \<Longrightarrow> loop_ok client 0 (random_start client)"
proof -
  assume c: "unat client < ME_MAX_NUM_CLIENTS"
  then have "unat (client * 1000) = unat client * 1000"
    by (simp add: unat_word_ariths ME_MAX_NUM_CLIENTS_def)
  then have "unat (ucast (client * 1000) :: OrderId) = unat client * 1000"
    using c by (simp add: unsigned_ucast_eq take_bit_nat_eq_self ME_MAX_NUM_CLIENTS_def)
  then show ?thesis by (simp add: loop_ok_def random_start_def numbered_def new_ids_def)
qed

lemma loop_round:
  assumes "loop_ok client n w" and "unat client < ME_MAX_NUM_CLIENTS" and "n < 10000"
  shows "loop_ok client (Suc n) (random_round rnd client w)"
proof -
  let ?r = "random_new rnd client w" and ?vec = "requests_vec w @ [random_new rnd client w]"
  let ?i = "rnd (rand_calls w + 4) mod length ?vec"
  have v: "?vec ! ?i \<in> set ?vec" by (intro nth_mem mod_less_divisor) simp
  have id: "rq_order_id ?r = next_order_id w" "rq_type ?r = NEW" by (simp_all add: random_new_def Let_def)
  have vec: "\<forall>r \<in> set ?vec. drawn client r \<and> unat (rq_order_id r) < unat client * 1000 + Suc n"
    using assms(1) random_new_drawn id by (auto simp: loop_ok_def intro: less_SucI)
  have "next_order_id w \<noteq> - 1"
  proof
    assume "next_order_id w = - 1"
    then have "unat (next_order_id w) = 2 ^ 64 - 1" by (simp add: unsigned_minus_1_eq_mask mask_eq_exp_minus_1)
    then show False using assms by (simp add: loop_ok_def ME_MAX_NUM_CLIENTS_def)
  qed
  from unat_plus_one [OF word_less_plus_one [OF this]] assms(1)
  have n1: "unat (next_order_id w + 1) = unat client * 1000 + Suc n" by (simp add: loop_ok_def)
  have "numbered client (unat client * 1000) (Suc n) (sent_requests w @ [?r, (?vec ! ?i)\<lparr>rq_type := Request_CANCEL\<rparr>])"
    using assms(1) vec v id random_new_drawn by (intro numbered_step) (auto simp: loop_ok_def less_Suc_eq_le)
  then show ?thesis using assms(1) vec n1 by (simp add: loop_ok_def random_round_def Let_def)
qed

lemma loop_rounds:
  "loop_ok client n w \<Longrightarrow> unat client < ME_MAX_NUM_CLIENTS \<Longrightarrow> n + k \<le> 10000 \<Longrightarrow>
   \<exists>m \<le> n + k. loop_ok client m (random_rounds k rnd quiet client w)"
proof (induction k arbitrary: n w)
  case 0
  then show ?case by auto
next
  case (Suc k)
  have 1: "loop_ok client (Suc n) (random_round rnd client w)" using Suc.prems by (intro loop_round) simp_all
  show ?case
  proof (cases "quiet (length (requests_vec (random_round rnd client w)))")
    case True
    then show ?thesis using 1 by (intro exI [of _ "Suc n"]) (simp add: Let_def)
  next
    case False
    then show ?thesis using Suc.IH [OF 1 Suc.prems(2)] Suc.prems(3) by (simp add: Let_def)
  qed
qed

lemma random_client_ok:
  assumes "unat client < ME_MAX_NUM_CLIENTS"
  shows "numbered client (unat client * 1000) 10000 (random_client rnd quiet client)" "length (random_client rnd quiet client) \<le> 20000"
proof -
  obtain m where "m \<le> 10000" "loop_ok client m (random_rounds 10000 rnd quiet client (random_start client))"
    using loop_rounds [OF loop_start [OF assms] assms, of 10000 rnd quiet] by auto
  then show "numbered client (unat client * 1000) 10000 (random_client rnd quiet client)"
    "length (random_client rnd quiet client) \<le> 20000"
    by (fastforce simp: loop_ok_def random_client_def numbered_def)+
qed

text \<open>
  The clients' requests, interleaved in any way: each client's own requests come in its order.
\<close>

definition interleaved :: "ClientId list \<Rightarrow> (ClientId \<Rightarrow> nat \<Rightarrow> nat) \<Rightarrow> (ClientId \<Rightarrow> nat \<Rightarrow> bool) \<Rightarrow> MEClientRequest list \<Rightarrow> bool" where
  "interleaved cs rnd quiet rs \<longleftrightarrow> (\<forall>r \<in> set rs. rq_client_id r \<in> set cs) \<and>
     (\<forall>c \<in> set cs. filter (\<lambda>r. rq_client_id r = c) rs = random_client (rnd c) (quiet c) c)"

lemma interleaved_ok:
  assumes "interleaved cs rnd quiet rs" and "\<forall>c \<in> set cs. unat c < ME_MAX_NUM_CLIENTS" and "length cs \<le> 52"
  shows "\<forall>r \<in> set rs. drawn (rq_client_id r) r \<and> unat (rq_order_id r) < ME_MAX_ORDER_IDS" "distinct (new_ids rs)"
    "length rs < ME_MAX_ORDER_IDS"
proof -
  have f: "filter (\<lambda>r. rq_client_id r = c) rs = random_client (rnd c) (quiet c) c" if "c \<in> set cs" for c
    using assms(1) that by (simp add: interleaved_def)
  show "\<forall>r \<in> set rs. drawn (rq_client_id r) r \<and> unat (rq_order_id r) < ME_MAX_ORDER_IDS"
  proof
    fix r
    assume r: "r \<in> set rs"
    let ?c = "rq_client_id r"
    have c: "?c \<in> set cs" using assms(1) r by (simp add: interleaved_def)
    then have "r \<in> set (random_client (rnd ?c) (quiet ?c) ?c)" using r f [OF c, symmetric] by simp
    then have "drawn ?c r \<and> unat (rq_order_id r) < unat ?c * 1000 + 10000"
      using random_client_ok(1) [of ?c "rnd ?c" "quiet ?c"] assms(2) c by (simp add: numbered_def)
    moreover have "unat ?c < 256" using assms(2) c by (simp add: ME_MAX_NUM_CLIENTS_def)
    ultimately show "drawn ?c r \<and> unat (rq_order_id r) < ME_MAX_ORDER_IDS" by (simp add: ME_MAX_ORDER_IDS_def)
  qed
  show "distinct (new_ids rs)"
  proof (rule distinct_by_class [where key = fst])
    fix c
    show "distinct (filter (\<lambda>x. fst x = c) (new_ids rs))"
    proof (cases "c \<in> set cs")
      case True
      then show ?thesis using random_client_ok(1) [of c "rnd c" "quiet c"] assms(2)
        by (simp add: new_ids_client f numbered_def)
    next
      case False
      then have "filter (\<lambda>r. rq_client_id r = c) rs = []" using assms(1) by (auto simp: interleaved_def filter_empty_conv)
      then show ?thesis by (simp only: new_ids_client) (simp add: new_ids_def)
    qed
  qed
  have "length rs \<le> sum_list (map (\<lambda>c. length (filter (\<lambda>r. rq_client_id r = c) rs)) cs)"
    using assms(1) by (intro length_by_class) (simp add: interleaved_def)
  also have "\<dots> \<le> sum_list (map (\<lambda>c. 20000) cs)"
    using random_client_ok(2) assms(2) by (intro sum_list_mono) (simp add: f)
  also have "\<dots> < ME_MAX_ORDER_IDS" using assms(3) by (simp add: sum_list_triv ME_MAX_ORDER_IDS_def)
  finally show "length rs < ME_MAX_ORDER_IDS" .
qed

lemma drawn_request_ok:
  assumes "drawn client r" and "unat client < ME_MAX_NUM_CLIENTS" and "unat (rq_order_id r) < ME_MAX_ORDER_IDS" and "rq_ticker_id r = ticker"
  shows "request_ok ticker 0 r"
  using assms by (simp add: request_ok_def drawn_def ME_MAX_PRICE_LEVELS_def)

text \<open>
  C18. The RANDOM clients cannot stop the exchange: however many there are, up to 52, with ids below 256, whatever numbers
  their generators return, however their sessions interleave and wherever they stop early, the book of every ticker
  completes all the requests it gets, sends exactly the specification's messages and ends as the book the specification
  gives, in price-time priority and not crossed. \<open>me_inv\<close> ties the shape \<open>S\<close> to the orders the book's pointers lead to.
\<close>

theorem random_clients_never_stop:
  assumes "interleaved cs rnd quiet rs" and "\<forall>c \<in> set cs. unat c < ME_MAX_NUM_CLIENTS" and "length cs \<le> 52"
  shows "\<exists>b S. foldE book_request (filter (\<lambda>r. rq_ticker_id r = ticker) rs) (fresh_book ticker 0) = Inr b \<and> me_inv b S \<and>
     outbox b = snd (spec_run (filter (\<lambda>r. rq_ticker_id r = ticker) rs) (1, \<lambda>_. [])) \<and>
     view b S BUY = snd (fst (spec_run (filter (\<lambda>r. rq_ticker_id r = ticker) rs) (1, \<lambda>_. []))) BUY \<and>
     view b S SELL = snd (fst (spec_run (filter (\<lambda>r. rq_ticker_id r = ticker) rs) (1, \<lambda>_. []))) SELL \<and>
     sorted_wrt (before BUY) (view b S BUY) \<and> sorted_wrt (before SELL) (view b S SELL) \<and>
     (\<forall>x \<in> set (view b S BUY). \<forall>y \<in> set (view b S SELL). o_price x < o_price y)"
proof -
  let ?rs = "filter (\<lambda>r. rq_ticker_id r = ticker) rs"
  note ok = interleaved_ok [OF assms]
  have r: "\<forall>r \<in> set ?rs. request_ok ticker 0 r"
    using ok(1) assms(1,2) by (auto simp: interleaved_def intro!: drawn_request_ok)
  have l: "length ?rs < ME_MAX_ORDER_IDS" using ok(3) length_filter_le [of _ rs] by (rule order.strict_trans1 [rotated])
  have d: "distinct (new_ids ?rs)" using ok(2) by (rule distinct_new_ids_filter)
  obtain n A evs where e: "spec_run ?rs (1, \<lambda>_. []) = ((n, A), evs)" by (metis prod.exhaust)
  have "unat (1 :: 64 word) + length ?rs < 2 ^ 64" using l by (simp add: ME_MAX_ORDER_IDS_def)
  then obtain b S where b: "foldE book_request ?rs (fresh_book ticker 0) = Inr b" "me_inv b S" "outbox b = evs"
    "view b S BUY = A BUY" "view b S SELL = A SELL"
    using book_run_ok [of "fresh_book ticker 0" "\<lambda>_. []" ?rs n A evs] r l d e by (auto simp: view_empty order_ids_def)
  have ok: "view_ok (book_ticker_id b) (next_market_order_id b) (view b S)" using b(2) by (simp add: me_inv_def)
  then have "\<forall>x \<in> set (view b S BUY). \<forall>y \<in> set (view b S SELL). o_price x < o_price y" by (simp add: view_ok_def)
  moreover have "sorted_wrt (before BUY) (view b S BUY)" "sorted_wrt (before SELL) (view b S SELL)"
    using view_okD(2) [OF ok, of BUY] view_okD(2) [OF ok, of SELL] by simp_all
  ultimately show ?thesis using b e by (intro exI [of _ b] exI [of _ S]) simp
qed

definition demo_clients :: "MEClientRequest list" where
  "demo_clients = (let a = random_client (\<lambda>_. 0) (\<lambda>_. True) 1; b = random_client (\<lambda>k. k) (\<lambda>_. True) 2 in
     [a ! 0, b ! 0, b ! 1, a ! 1])"

lemma one_round: "random_client rnd (\<lambda>_. True) c = sent_requests (random_round rnd c (random_start c))"
proof -
  have "random_rounds (Suc 9999) rnd (\<lambda>_. True) c (random_start c) = random_round rnd c (random_start c)"
    by (simp only: random_rounds.simps Let_def if_True)
  then show ?thesis by (simp add: random_client_def)
qed

theorem random_clients_never_stop_witness:
  "\<exists>b S. foldE book_request (filter (\<lambda>r. rq_ticker_id r = 0) demo_clients) (fresh_book 0 0) = Inr b \<and> me_inv b S \<and>
     map rq_type demo_clients = [NEW, NEW, Request_CANCEL, Request_CANCEL]"
proof -
  have "interleaved [1, 2] (\<lambda>c. if c = 1 then (\<lambda>_. 0) else (\<lambda>k. k)) (\<lambda>_ _. True) demo_clients"
    by (simp add: interleaved_def demo_clients_def one_round random_round_def random_start_def random_new_def Let_def)
  from random_clients_never_stop [OF this, of 0] show ?thesis
    by (auto simp: ME_MAX_NUM_CLIENTS_def demo_clients_def one_round random_round_def random_start_def random_new_def Let_def)
qed

subsection \<open>The benchmark of the two books, proved\<close>

text \<open>The hash book forgets no client.\<close>

lemma um_removeOrder_clients: "um_removeOrder p u = Inr u' \<Longrightarrow> set (um_clients u) \<subseteq> set (um_clients u')"
  by (auto simp: um_removeOrder_def um_set_cid_oid_def um_touch_def Let_def res_simps)

lemma List_insert_nonempty [simp]: "List.insert x xs \<noteq> []"
  by (auto simp: List.insert_def)

lemma um_addOrder_clients: "um_addOrder p u = Inr u' \<Longrightarrow> set (um_clients u) \<subseteq> set (um_clients u') \<and> um_clients u' \<noteq> []"
  by (auto simp: um_addOrder_def um_set_cid_oid_def um_touch_def Let_def res_simps)

lemma um_send_clients [simp]:
  "um_clients (um_sendClientResponse r u) = um_clients u" "um_clients (um_sendMarketUpdate m u) = um_clients u"
  by (simp_all add: um_sendClientResponse_def um_sendMarketUpdate_def)

lemma um_match_clients:
  "um_match ticker client side coid new_id itr q u = Inr (q', u') \<Longrightarrow> set (um_clients u) \<subseteq> set (um_clients u')"
  by (auto simp: um_match_def Let_def res_simps dest!: um_removeOrder_clients split: if_splits)

lemma um_match_loop_clients:
  "um_match_loop fuel ticker client side price coid new_id q u = Inr (q', u') \<Longrightarrow> set (um_clients u) \<subseteq> set (um_clients u')"
proof (induction fuel arbitrary: q u)
  case 0
  then show ?case by (auto simp: um_match_loop.simps [of 0] res_simps split: if_splits option.splits)
next
  case (Suc fuel)
  then show ?case unfolding um_match_loop.simps [of "Suc fuel"]
    by (auto simp: res_simps dest!: um_match_clients split: if_splits option.splits)
qed

lemma um_add_clients:
  assumes "um_add client coid ticker side price qty u = Inr u'"
  shows "set (um_clients u) \<subseteq> set (um_clients u')"
proof -
  obtain n b1 where n: "generateNewMarketOrderId (um_book u) = (n, b1)" by fastforce
  let ?u2 = "um_sendClientResponse
    \<lparr>rs_type = ACCEPTED, rs_client_id = client, rs_ticker_id = ticker, rs_client_order_id = coid, rs_market_order_id = n,
     rs_side = side, rs_price = price, rs_exec_qty = 0, rs_leaves_qty = qty\<rparr> (u\<lparr>um_book := b1\<rparr>)"
  from assms n obtain q u3 where c: "um_checkForMatch client coid ticker side price qty (ucast n) ?u2 = Inr (q, u3)"
    and r: "set (um_clients u3) \<subseteq> set (um_clients u')"
    by (auto simp: um_add_def Let_def res_simps dest!: um_addOrder_clients split: if_splits)
  have "set (um_clients ?u2) \<subseteq> set (um_clients u3)"
    using c by (auto simp: um_checkForMatch_def dest!: um_match_loop_clients split: if_splits)
  then show ?thesis using r by auto
qed

lemma um_cancel_clients: "um_cancel client oid ticker u = Inr u' \<Longrightarrow> set (um_clients u) \<subseteq> set (um_clients u')"
  by (auto simp: um_cancel_def um_touch_def Let_def res_simps dest!: um_removeOrder_clients split: option.splits if_splits)

lemma um_request_clients: "um_request r u = Inr u' \<Longrightarrow> set (um_clients u) \<subseteq> set (um_clients u')"
  by (cases "rq_type r") (auto simp: um_request_def dest: um_add_clients um_cancel_clients)

lemma um_first_add_clients:
  assumes "um_request r (um_book_new ticker) = Inr u'" and "rq_type r = NEW" and "rq_qty r \<noteq> 0"
  shows "um_clients u' \<noteq> []"
  using assms
  by (auto simp: um_request_def um_add_def generateNewMarketOrderId_def um_checkForMatch_def um_match_loop.simps passive_head_def
      um_book_new_def me_book_new_def sendClientResponse_def um_sendClientResponse_def Let_def res_simps
      dest!: um_addOrder_clients split: if_splits)

lemma cancels_known_client0:
  "\<forall>r \<in> set rs. rq_client_id r = 0 \<Longrightarrow> um_clients u \<noteq> [] \<Longrightarrow> cancels_known rs u"
proof (induction rs arbitrary: u)
  case Nil
  then show ?case by simp
next
  case (Cons r rs)
  have "cancels_known rs u'" if "um_request r u = Inr u'" for u'
    using Cons.IH [of u'] Cons.prems um_request_clients [OF that] by (cases "um_clients u'") auto
  then show ?case using Cons.prems by (auto split: sum.split)
qed

definition hash_inv :: "nat \<Rightarrow> OrderId \<Rightarrow> MEClientRequest list \<Rightarrow> bool" where
  "hash_inv n order_id vec \<longleftrightarrow> numbered 0 1000 n vec \<and> length vec = 2 * n \<and> unat order_id = 1000 + n \<and>
     (\<forall>r \<in> set vec. rq_ticker_id r = 0) \<and> (vec \<noteq> [] \<longrightarrow> rq_type (hd vec) = NEW)"

lemma hash_new_drawn: "drawn 0 (hash_new rnd k order_id)"
  unfolding drawn_def hash_new_def MEClientRequest.simps
  using drawn_qty drawn_price by (simp add: ME_MAX_TICKERS_def del: of_nat_mod)

lemma hash_inv_step:
  fixes rnd k order_id vec
  defines "vec1 \<equiv> vec @ [hash_new rnd k order_id]"
  assumes inv: "hash_inv n order_id vec" and n: "n < 50000"
  shows "hash_inv (Suc n) (order_id + 1) (vec1 @ [(vec1 ! (i mod length vec1))\<lparr>rq_type := Request_CANCEL\<rparr>])"
proof -
  let ?r = "hash_new rnd k order_id"
  let ?c = "(vec1 ! (i mod length vec1))\<lparr>rq_type := Request_CANCEL\<rparr>"
  have v: "vec1 ! (i mod length vec1) \<in> set vec1" unfolding vec1_def by (intro nth_mem mod_less_divisor) simp
  have r: "rq_type ?r = NEW" "rq_order_id ?r = order_id" "rq_ticker_id ?r = 0" by (simp_all add: hash_new_def)
  have all: "\<forall>x \<in> set vec1. drawn 0 x \<and> unat (rq_order_id x) \<le> 1000 + n \<and> rq_ticker_id x = 0"
    using inv hash_new_drawn r by (auto simp: vec1_def hash_inv_def numbered_def)
  have "numbered 0 1000 (Suc n) (vec @ [?r, ?c])"
    using inv hash_new_drawn r all v by (intro numbered_step) (auto simp: hash_inv_def)
  then have num: "numbered 0 1000 (Suc n) (vec1 @ [?c])" by (simp add: vec1_def)
  have "order_id \<noteq> - 1"
  proof
    assume "order_id = - 1"
    then have "unat order_id = 2 ^ 64 - 1" by (simp add: unsigned_minus_1_eq_mask mask_eq_exp_minus_1)
    then show False using inv n by (simp add: hash_inv_def)
  qed
  from unat_plus_one [OF word_less_plus_one [OF this]] have o: "unat (order_id + 1) = 1000 + Suc n"
    using inv by (simp add: hash_inv_def)
  have "hd (vec1 @ [?c]) = (if vec = [] then ?r else hd vec)" by (simp add: vec1_def)
  moreover have "\<forall>x \<in> set (vec1 @ [?c]). rq_ticker_id x = 0" using all v by auto
  moreover have "length (vec1 @ [?c]) = 2 * Suc n" using inv by (simp add: vec1_def hash_inv_def)
  ultimately show ?thesis using inv num o r unfolding hash_inv_def by simp
qed

lemma hash_fill_ok:
  "hash_inv n order_id vec \<Longrightarrow> n \<le> 50000 \<Longrightarrow> \<exists>order_id'. hash_inv 50000 order_id' (hash_fill rnd k order_id vec)"
proof (induction "50000 - n" arbitrary: n k order_id vec)
  case 0
  then have "n = 50000" by simp
  moreover from this 0 have "\<not> length vec < loop_count" by (simp add: hash_inv_def loop_count_def)
  ultimately show ?case using 0 by (subst hash_fill.simps) auto
next
  case (Suc m)
  then have n: "n < 50000" by simp
  have "length vec < loop_count" using Suc.prems n by (simp add: hash_inv_def loop_count_def)
  moreover have "m = 50000 - Suc n" "Suc n \<le> 50000" using Suc.hyps(2) by simp_all
  note Suc.hyps(1) [OF this(1) hash_inv_step [OF Suc.prems(1) n] this(2)]
  ultimately show ?case by (subst hash_fill.simps) (simp only: if_True Let_def)
qed

lemma hash_requests_ok: "\<exists>order_id. hash_inv 50000 order_id (hash_requests rnd)"
  unfolding hash_requests_def by (rule hash_fill_ok [where n = 0]) (simp_all add: hash_inv_def numbered_def new_ids_def)

lemma foldE_index:
  "foldE (\<lambda>i s. bindE (atE (length rs) i) (\<lambda>i. f (rs ! i) s)) [0..<length rs] s = foldE f rs s"
proof -
  have "foldE (\<lambda>i s. bindE (atE (length xs) i) (\<lambda>i. f (xs ! i) s)) [0..<n] s = foldE f (take n xs) s"
    if "n \<le> length xs" for n xs
    using that
  proof (induction n)
    case 0
    then show ?case by simp
  next
    case (Suc n)
    then have "take (Suc n) xs = take n xs @ [xs ! n]" by (simp add: take_Suc_conv_app_nth)
    then show ?case using Suc by (simp add: foldE_snoc)
  qed
  from this [of "length rs" rs] show ?thesis by simp
qed

lemma foldE_cong: "(\<And>x s. x \<in> set xs \<Longrightarrow> f x s = g x s) \<Longrightarrow> foldE f xs s = foldE g xs s"
  by (induction xs arbitrary: s) (auto simp: bindE_def split: sum.split)

text \<open>
  C21. \<open>hash_benchmark\<close> compares like with like: whatever \<open>rand()\<close> returns, its vector has exactly the \<open>loop_count\<close> requests
  the loop reads, and on them both books complete every call and end in the same state with the same messages sent.
\<close>

theorem hash_benchmark_agrees:
  "length (hash_requests rnd) = loop_count \<and>
   (\<exists>b u. bench_array (hash_requests rnd) (fresh_book 0 0) = Inr b \<and> bench_hash (hash_requests rnd) (um_book_new 0) = Inr u \<and>
     um_book u = b \<and> outbox b = snd (spec_run (hash_requests rnd) (1, \<lambda>_. [])))"
proof -
  let ?rs = "hash_requests rnd"
  obtain oid where inv: "hash_inv 50000 oid ?rs" using hash_requests_ok by blast
  then have len: "length ?rs = loop_count" and dr: "\<forall>r \<in> set ?rs. drawn 0 r \<and> rq_ticker_id r = 0 \<and> unat (rq_order_id r) < 51000"
    and d: "distinct (new_ids ?rs)"
    by (auto simp: hash_inv_def numbered_def loop_count_def)
  have ok: "\<forall>r \<in> set ?rs. request_ok 0 0 r"
    using dr by (auto simp: ME_MAX_NUM_CLIENTS_def ME_MAX_ORDER_IDS_def intro!: drawn_request_ok)
  have l: "length ?rs < ME_MAX_ORDER_IDS" by (simp add: len loop_count_def ME_MAX_ORDER_IDS_def)
  obtain n A evs where e: "spec_run ?rs (1, \<lambda>_. []) = ((n, A), evs)" by (metis prod.exhaust)
  have "unat (1 :: 64 word) + length ?rs < 2 ^ 64" using l by (simp add: ME_MAX_ORDER_IDS_def)
  then obtain b where b: "foldE book_request ?rs (fresh_book 0 0) = Inr b" "outbox b = evs"
    using book_run_ok [of "fresh_book 0 0" "\<lambda>_. []" ?rs n A evs] ok l d e by (auto simp: view_empty order_ids_def)
  have f: "um_book (um_book_new 0) = fresh_book 0 0" by (simp add: um_book_new_def fresh_book_def)
  have cl: "\<forall>r \<in> set ?rs. unat (rq_client_id r) < ME_MAX_NUM_CLIENTS" using ok by (simp add: request_ok_def)
  have "?rs \<noteq> []" using len by (auto simp: loop_count_def)
  then obtain r rest where r: "?rs = r # rest" by (cases ?rs) auto
  have new: "rq_type r = NEW" "rq_qty r \<noteq> 0" using inv dr r by (auto simp: hash_inv_def drawn_def)
  have "cancels_known rest u'" if "um_request r (um_book_new 0) = Inr u'" for u'
    using um_first_add_clients [OF that new] dr r by (intro cancels_known_client0) (auto simp: drawn_def)
  then have "cancels_known ?rs (um_book_new 0)" using new r by (auto split: sum.split)
  then obtain u where u: "foldE um_request ?rs (um_book_new 0) = Inr u" "um_book u = b"
    using run_um [of ?rs "um_book_new 0" b] b(1) f cl by auto
  have "foldE bench_array_request ?rs (fresh_book 0 0) = foldE book_request ?rs (fresh_book 0 0)"
    using ok by (intro foldE_cong) (auto simp: bench_array_request_def book_request_def request_ok_def split: ClientRequestType.split)
  then have "bench_array ?rs (fresh_book 0 0) = Inr b" "bench_hash ?rs (um_book_new 0) = Inr u"
    unfolding bench_array_def bench_hash_def len [symmetric] foldE_index using b u by simp_all
  then show ?thesis using len u(2) b(2) e by auto
qed

subsection \<open>The resting orders, proved\<close>

text \<open>A request that rests in front of a book whose two sides keep apart at \<open>mid\<close>, and what it leaves behind.\<close>

definition rests :: "Price \<Rightarrow> MEClientRequest \<Rightarrow> bool" where
  "rests mid r \<longleftrightarrow> rq_type r = NEW \<and> rq_qty r \<noteq> 0 \<and>
     (rq_side r = BUY \<and> rq_price r \<le> mid \<or> rq_side r = SELL \<and> mid < rq_price r)"

definition apart :: "Price \<Rightarrow> view \<Rightarrow> bool" where
  "apart mid A \<longleftrightarrow> (\<forall>x \<in> set (A BUY). o_price x \<le> mid) \<and> (\<forall>x \<in> set (A SELL). mid < o_price x)"

lemma spec_match_outside:
  "\<forall>x \<in> set xs. outside side price (o_price x) \<Longrightarrow> spec_match ticker client side price coid new_id q xs = (q, xs, [])"
  by (cases xs) simp_all

lemma rest_request_spec:
  assumes "rests mid r" and "apart mid A" and "spec_request r (n, A) = ((n', A'), evs)"
  shows "apart mid A'" "n' = n + 1" "map rs_type (responses_of evs) = [ACCEPTED]" "map mu_type (updates_of evs) = [ADD]"
    "length (A' BUY) = length (A BUY) + (if rq_side r = BUY then 1 else 0)"
    "length (A' SELL) = length (A SELL) + (if rq_side r = SELL then 1 else 0)"
proof -
  have s: "rq_side r = BUY \<or> rq_side r = SELL" using assms(1) by (auto simp: rests_def)
  have "\<forall>x \<in> set (A (opp (rq_side r))). outside (rq_side r) (rq_price r) (o_price x)"
    using assms(1,2) by (fastforce simp: rests_def apart_def outside_def opp_def)
  note m = spec_match_outside [OF this]
  show "apart mid A'" "n' = n + 1" "map rs_type (responses_of evs) = [ACCEPTED]" "map mu_type (updates_of evs) = [ADD]"
    "length (A' BUY) = length (A BUY) + (if rq_side r = BUY then 1 else 0)"
    "length (A' SELL) = length (A SELL) + (if rq_side r = SELL then 1 else 0)"
    using assms s m by (auto simp: spec_request_def spec_add_def Let_def rests_def apart_def spec_new_order_def length_queue_insert
        responses_of_def updates_of_def split: if_splits)
qed

lemma rest_run:
  assumes "\<forall>r \<in> set rs. rests mid r" and "apart mid A" and "spec_run rs (n, A) = ((n', A'), evs)"
  shows "map rs_type (responses_of evs) = replicate (length rs) ACCEPTED \<and> map mu_type (updates_of evs) = replicate (length rs) ADD \<and>
     length (A' BUY) = length (A BUY) + length (filter (\<lambda>r. rq_side r = BUY) rs) \<and>
     length (A' SELL) = length (A SELL) + length (filter (\<lambda>r. rq_side r = SELL) rs)"
  using assms
proof (induction rs arbitrary: n A n' A' evs)
  case Nil
  then show ?case by (auto simp: responses_of_def updates_of_def)
next
  case (Cons r rs)
  obtain n1 A1 e1 where a: "spec_request r (n, A) = ((n1, A1), e1)" by (metis prod.exhaust)
  obtain n2 A2 e2 where c: "spec_run rs (n1, A1) = ((n2, A2), e2)" by (metis prod.exhaust)
  have e: "A' = A2" "evs = e1 @ e2" using Cons.prems(3) a c by auto
  have r: "rests mid r" using Cons.prems(1) by simp
  note h = rest_request_spec [OF r Cons.prems(2) a]
  have app: "responses_of (e1 @ e2) = responses_of e1 @ responses_of e2" "updates_of (e1 @ e2) = updates_of e1 @ updates_of e2"
    by (simp_all add: responses_of_def updates_of_def)
  from Cons.IH [OF _ h(1) c] Cons.prems(1) h show ?case by (simp add: e app)
qed

lemma rest_request_rests: "qty_dist i \<noteq> 0 \<Longrightarrow> rests 100 (rest_request rng qty_dist i)"
proof -
  have "rng i mod 10 < 10" by simp
  then show "qty_dist i \<noteq> 0 \<Longrightarrow> rests 100 (rest_request rng qty_dist i)"
    by (auto simp: rests_def rest_request_def simp del: of_nat_mod)
qed

lemma rest_request_ok: "i < NUM_ORDERS \<Longrightarrow> request_ok 0 0 (rest_request rng qty_dist i)"
proof -
  assume i: "i < NUM_ORDERS"
  then have "unat (word_of_nat (i mod ME_MAX_ORDER_IDS) :: OrderId) = i"
    by (simp add: NUM_ORDERS_def ME_MAX_ORDER_IDS_def unat_small)
  moreover have "rng i mod 10 < 10" by simp
  ultimately show ?thesis using i
    by (auto simp: request_ok_def rest_request_def NUM_ORDERS_def ME_MAX_ORDER_IDS_def ME_MAX_NUM_CLIENTS_def
        ME_MAX_PRICE_LEVELS_def simp del: of_nat_mod)
qed

lemma rest_new_ids: "distinct (new_ids (rest_requests rng qty_dist))"
proof -
  have "new_ids (rest_requests rng qty_dist) = map (\<lambda>i. (0, word_of_nat (i mod ME_MAX_ORDER_IDS))) [0..<NUM_ORDERS]"
    by (simp add: new_ids_def rest_requests_def filter_map rest_request_def comp_def)
  moreover have "inj_on (\<lambda>i. (0 :: ClientId, word_of_nat (i mod ME_MAX_ORDER_IDS) :: OrderId)) {0..<NUM_ORDERS}"
  proof (rule inj_onI)
    fix i j
    assume ij: "i \<in> {0..<NUM_ORDERS}" "j \<in> {0..<NUM_ORDERS}"
      "(0 :: ClientId, word_of_nat (i mod ME_MAX_ORDER_IDS) :: OrderId) = (0, word_of_nat (j mod ME_MAX_ORDER_IDS))"
    have "unat (word_of_nat (k mod ME_MAX_ORDER_IDS) :: OrderId) = k" if "k \<in> {0..<NUM_ORDERS}" for k
      using that by (simp add: NUM_ORDERS_def ME_MAX_ORDER_IDS_def unat_small)
    from this [OF ij(1)] this [OF ij(2)] ij(3) show "i = j" by (metis prod.inject)
  qed
  ultimately show ?thesis by (simp add: distinct_map)
qed

lemma rest_sides:
  "length (filter (\<lambda>r. rq_side r = BUY) (rest_requests rng qty_dist)) = 250000"
  "length (filter (\<lambda>r. rq_side r = SELL) (rest_requests rng qty_dist)) = 250000"
proof -
  have even_count: "length (filter (\<lambda>i. i mod 2 = 0) [0..<2 * k]) = k" for k :: nat
    by (induction k) (simp_all add: upt_Suc_append)
  have odd_count: "length (filter (\<lambda>i. i mod 2 \<noteq> 0) [0..<2 * k]) = k" for k :: nat
    by (induction k) (simp_all add: upt_Suc_append)
  have n: "NUM_ORDERS = 2 * 250000" by (simp add: NUM_ORDERS_def)
  have "filter (\<lambda>r. rq_side r = BUY) (rest_requests rng qty_dist) = map (rest_request rng qty_dist) (filter (\<lambda>i. i mod 2 = 0) [0..<NUM_ORDERS])"
    "filter (\<lambda>r. rq_side r = SELL) (rest_requests rng qty_dist) = map (rest_request rng qty_dist) (filter (\<lambda>i. i mod 2 \<noteq> 0) [0..<NUM_ORDERS])"
    unfolding rest_requests_def filter_map by (rule arg_cong [where f = "map (rest_request rng qty_dist)"], rule filter_cong, rule refl, simp add: rest_request_def comp_def)+
  then show "length (filter (\<lambda>r. rq_side r = BUY) (rest_requests rng qty_dist)) = 250000"
    "length (filter (\<lambda>r. rq_side r = SELL) (rest_requests rng qty_dist)) = 250000"
    unfolding n by (simp_all only: length_map even_count odd_count)
qed

text \<open>
  The benchmark of resting orders measures what it says: with quantities from 1 to 100, as its distribution promises,
  none of its 500000 orders meets another. Each gets one ACCEPTED response and one ADD update, and the book ends with
  250000 orders on either side.
\<close>

theorem rest_benchmark_rests:
  assumes "\<forall>i. 1 \<le> unat (qty_dist i) \<and> unat (qty_dist i) \<le> 100"
  shows "\<exists>b S. foldE book_request (rest_requests rng qty_dist) (fresh_book 0 0) = Inr b \<and>
     length (view b S BUY) = 250000 \<and> length (view b S SELL) = 250000 \<and>
     map rs_type (responses_of (outbox b)) = replicate NUM_ORDERS ACCEPTED \<and>
     map mu_type (updates_of (outbox b)) = replicate NUM_ORDERS ADD"
proof -
  let ?rs = "rest_requests rng qty_dist"
  obtain n A evs where e: "spec_run ?rs (1, \<lambda>_. []) = ((n, A), evs)" by (metis prod.exhaust)
  have l: "length ?rs = NUM_ORDERS" by (simp add: rest_requests_def)
  have "qty_dist i \<noteq> 0" for i using assms by (metis not_one_le_zero unsigned_0)
  then have "\<forall>r \<in> set ?rs. rests 100 r" by (auto simp: rest_requests_def intro: rest_request_rests)
  note run = rest_run [OF this _ e]
  have "\<forall>r \<in> set ?rs. request_ok 0 0 r" by (auto simp: rest_requests_def intro: rest_request_ok)
  then obtain b S where "foldE book_request ?rs (fresh_book 0 0) = Inr b" "view b S BUY = A BUY" "view b S SELL = A SELL" "outbox b = evs"
    using book_run_ok [of "fresh_book 0 0" "\<lambda>_. []" ?rs n A evs] rest_new_ids l e
    by (auto simp: view_empty order_ids_def NUM_ORDERS_def ME_MAX_ORDER_IDS_def)
  moreover have "length (A BUY) = 250000 \<and> length (A SELL) = 250000" "map rs_type (responses_of evs) = replicate NUM_ORDERS ACCEPTED"
    "map mu_type (updates_of evs) = replicate NUM_ORDERS ADD"
    using run rest_sides [of rng qty_dist] l by (simp_all add: apart_def)
  ultimately show ?thesis by metis
qed

theorem rest_benchmark_rests_witness:
  "\<exists>b S. foldE book_request (rest_requests id (\<lambda>_. 7)) (fresh_book 0 0) = Inr b \<and> length (view b S BUY) = 250000"
  using rest_benchmark_rests [of "\<lambda>_. 7" id] by auto

end
