(* ===== verification/MixedBenchmark.thy ===== *)
theory MixedBenchmark
  imports ExchangeRun Workloads
begin

text \<open>
  The first part of \<open>benchmarks/latency_benchmark.cpp\<close>, which times the matching engine on orders that cross: a warm-up that
  fills the book and the queues, then one order at a time, with the queues drained after each.

  \<^item> \<open>price_dist k\<close> and \<open>qty_dist k\<close> are what draw \<open>k\<close> of the two distributions returns. What is relied on of them is their range.
  \<^item> What is shown: the matching engine completes every order with its queues never overrun, although the warm-up does not
    drain them, and the book ends as the specification says.
\<close>

subsection \<open>The loops\<close>

definition WARMUP :: nat where "WARMUP = 1000"

definition mixed_request :: "(nat \<Rightarrow> Price) \<Rightarrow> (nat \<Rightarrow> Qty) \<Rightarrow> ClientId \<Rightarrow> nat \<Rightarrow> nat \<Rightarrow> MEClientRequest" where
  "mixed_request price_dist qty_dist client k i =
     \<lparr>rq_type = NEW, rq_client_id = client, rq_ticker_id = 0, rq_order_id = word_of_nat i,
      rq_side = (if i mod 2 = 0 then BUY else SELL), rq_price = price_dist k, rq_qty = qty_dist k\<rparr>"

text \<open>\<open>while (queue.size()) queue.updateReadIndex();\<close>\<close>

fun drain_loop :: "nat \<Rightarrow> 'a lf_queue \<Rightarrow> 'a lf_queue res" where
  "drain_loop 0 q = (if lfq_size q = 0 then Inr q else Inl Diverges)"
| "drain_loop (Suc fuel) q = (if lfq_size q = 0 then Inr q else bindE (updateReadIndex q) (drain_loop fuel))"

definition drain_queue :: "'a lf_queue \<Rightarrow> 'a lf_queue res" where
  "drain_queue q = drain_loop (lfq_size q) q"

definition drain_outputs :: "matching_engine \<Rightarrow> matching_engine res" where
  "drain_outputs e =
     bindE (drain_queue (outgoing_ogw_responses e)) (\<lambda>responses.
     bindE (drain_queue (outgoing_md_updates e)) (\<lambda>updates.
     Inr (e\<lparr>outgoing_ogw_responses := responses, outgoing_md_updates := updates\<rparr>)))"

definition mixed_warmup :: "(nat \<Rightarrow> Price) \<Rightarrow> (nat \<Rightarrow> Qty) \<Rightarrow> matching_engine \<Rightarrow> matching_engine res" where
  "mixed_warmup price_dist qty_dist e =
     bindE (foldE (\<lambda>i. processClientRequest (mixed_request price_dist qty_dist 0 i i)) [0..<WARMUP] e) drain_outputs"

definition mixed_round :: "(nat \<Rightarrow> Price) \<Rightarrow> (nat \<Rightarrow> Qty) \<Rightarrow> nat \<Rightarrow> matching_engine \<Rightarrow> matching_engine res" where
  "mixed_round price_dist qty_dist i e =
     bindE (processClientRequest (mixed_request price_dist qty_dist 1 (WARMUP + i) i) e) drain_outputs"

definition mixed_benchmark :: "(nat \<Rightarrow> Price) \<Rightarrow> (nat \<Rightarrow> Qty) \<Rightarrow> matching_engine \<Rightarrow> matching_engine res" where
  "mixed_benchmark price_dist qty_dist e =
     bindE (mixed_warmup price_dist qty_dist e) (foldE (mixed_round price_dist qty_dist) [0..<NUM_ORDERS])"

text \<open>The requests in order, for the specification.\<close>

definition mixed_requests :: "(nat \<Rightarrow> Price) \<Rightarrow> (nat \<Rightarrow> Qty) \<Rightarrow> nat \<Rightarrow> MEClientRequest list" where
  "mixed_requests price_dist qty_dist n = map (\<lambda>i. mixed_request price_dist qty_dist 0 i i) [0..<WARMUP] @
     map (\<lambda>i. mixed_request price_dist qty_dist 1 (WARMUP + i) i) [0..<n]"

subsection \<open>Draining\<close>

lemma drain_loop_ok:
  "lfq_inv q \<Longrightarrow> length (lfq_list q) \<le> fuel \<Longrightarrow>
     \<exists>q'. drain_loop fuel q = Inr q' \<and> lfq_inv q' \<and> lfq_list q' = [] \<and> length (store q') = length (store q)"
proof (induction fuel arbitrary: q)
  case 0
  then show ?case by (auto simp: lfq_size_def lfq_list_def)
next
  case (Suc fuel)
  show ?case
  proof (cases "lfq_list q")
    case Nil
    then show ?thesis using Suc.prems(1) by (auto simp: lfq_size_def lfq_list_def)
  next
    case (Cons v vs)
    with updateReadIndex_ok [OF Suc.prems(1)] obtain q1 where q1: "updateReadIndex q = Inr q1" "lfq_inv q1" "lfq_list q1 = vs"
      "length (store q1) = length (store q)" by auto
    have "lfq_size q \<noteq> 0" using Cons length_lfq_list [of q] by (auto simp: lfq_size_def)
    moreover have "length (lfq_list q1) \<le> fuel" using Suc.prems(2) Cons q1(3) by simp
    ultimately show ?thesis using Suc.IH [OF q1(2)] q1(1,4) by simp
  qed
qed

lemma drain_queue_ok:
  "lfq_inv q \<Longrightarrow> \<exists>q'. drain_queue q = Inr q' \<and> lfq_inv q' \<and> lfq_list q' = [] \<and> length (store q') = length (store q)"
  unfolding drain_queue_def by (rule drain_loop_ok) (simp_all add: lfq_size_def)

lemma room_list: "lfq_room q = length (store q) - length (lfq_list q)"
  by (simp add: lfq_room_def)

lemma fold_push_store: "length (store (fold lfq_push vs q)) = length (store q)"
  by (induction vs arbitrary: q) simp_all

lemma process_stores:
  assumes "processClientRequest r e = Inr e'"
  shows "length (store (outgoing_ogw_responses e')) = length (store (outgoing_ogw_responses e))"
    "length (store (outgoing_md_updates e')) = length (store (outgoing_md_updates e))"
  using assms by (auto simp: processClientRequest_def deliver_def fold_engine_send fold_push_store res_simps)

subsection \<open>How much one order sends\<close>

lemma unat_split: "b \<le> a \<Longrightarrow> unat (a - b) + unat b = unat (a :: Qty)"
  by (simp add: unat_sub word_le_nat_alt)

lemma spec_match_sends:
  assumes "spec_match ticker client side price coid new_id leaves xs = (leaves', xs', evs)" and "\<forall>x \<in> set xs. o_qty x \<noteq> 0"
  shows "length (responses_of evs) + 2 * unat leaves' \<le> 2 * unat leaves \<and> length (updates_of evs) + 2 * unat leaves' \<le> 2 * unat leaves"
  using assms
proof (induction xs arbitrary: leaves leaves' xs' evs)
  case (Cons x xs)
  let ?f = "min leaves (o_qty x)"
  show ?case
  proof (cases "leaves = 0 \<or> outside side price (o_price x)")
    case True
    then show ?thesis using Cons.prems by auto
  next
    case False
    define a b where "a = unat (leaves - ?f)" and "b = unat ?f"
    have f: "a + b = unat leaves" unfolding a_def b_def by (rule unat_split [OF min.cobounded1])
    have b: "b \<noteq> 0" using False Cons.prems(2) by (simp add: b_def min_def unat_eq_zero)
    obtain l1 x1 e1 where m: "spec_match ticker client side price coid new_id (leaves - ?f) xs = (l1, x1, e1)" by (metis prod_cases3)
    have "\<forall>x \<in> set xs. o_qty x \<noteq> 0" using Cons.prems(2) by simp
    from Cons.IH [OF m this] have ih: "length (responses_of e1) + 2 * unat l1 \<le> 2 * a" "length (updates_of e1) + 2 * unat l1 \<le> 2 * a"
      unfolding a_def by blast+
    have "unat leaves' = unat l1 \<and> length (responses_of evs) = 2 + length (responses_of e1) \<and> length (updates_of evs) = 2 + length (updates_of e1) \<or>
        unat leaves' = a \<and> length (responses_of evs) = 2 \<and> length (updates_of evs) = 2"
      using Cons.prems(1) False m by (auto simp: a_def Let_def fill_events_def updates_of_def split: if_splits)
    then show ?thesis using ih f b by linarith
  qed
qed simp_all

lemma spec_add_sends:
  assumes "spec_add client coid ticker side price qty n A = (A', evs)" and "\<forall>x \<in> set (A (opp side)). o_qty x \<noteq> 0" and "unat qty \<le> 100"
  shows "length (responses_of evs) \<le> 201" "length (updates_of evs) \<le> 201"
proof -
  obtain leaves xs' me where m: "spec_match ticker client side price coid (ucast (ucast n :: 32 word)) qty (A (opp side)) = (leaves, xs', me)"
    by (metis prod_cases3)
  have "length (responses_of evs) = 1 + length (responses_of me)" "length (updates_of evs) \<le> length (updates_of me) + 1"
    using assms(1) spec_add_simps(2) [where A = A, OF m] by (auto simp: updates_of_def split: if_splits)
  then show "length (responses_of evs) \<le> 201" "length (updates_of evs) \<le> 201"
    using spec_match_sends [OF m assms(2)] assms(3) by linarith+
qed

lemma spec_run_snoc:
  "spec_run (rs @ [r]) s = (case spec_run rs s of (s1, e1) \<Rightarrow> case spec_request r s1 of (s2, e2) \<Rightarrow> (s2, e1 @ e2))"
  by (induction rs arbitrary: s) (auto split: prod.splits)

subsection \<open>The session\<close>

definition mixed_inv :: "MEClientRequest list \<Rightarrow> matching_engine \<Rightarrow> bool" where
  "mixed_inv rs e \<longleftrightarrow> (\<exists>S n A evs. exchange_ok rs e S \<and> spec_run rs (1, \<lambda>_. []) = ((n, A), evs) \<and>
     next_market_order_id (ticker_order_book e ! 0) = n \<and> base_price (ticker_order_book e ! 0) = 0 \<and>
     book_views e S 0 BUY = A BUY \<and> book_views e S 0 SELL = A SELL) \<and>
     length (store (outgoing_ogw_responses e)) = ME_MAX_CLIENT_UPDATES \<and> length (store (outgoing_md_updates e)) = ME_MAX_MARKET_UPDATES"

definition mixed_ok :: "MEClientRequest \<Rightarrow> bool" where
  "mixed_ok r \<longleftrightarrow> rq_type r = NEW \<and> rq_ticker_id r = 0 \<and> trading_side (rq_side r) \<and> unat (rq_client_id r) < ME_MAX_NUM_CLIENTS \<and>
     unat (rq_order_id r) < ME_MAX_ORDER_IDS \<and> 90 \<le> rq_price r \<and> rq_price r \<le> 110 \<and> unat (rq_qty r) \<le> 100"

lemma mixed_process:
  assumes inv: "mixed_inv rs e" and r: "mixed_ok r" and len: "length rs + 1 < ME_MAX_ORDER_IDS"
    and fresh: "(rq_client_id r, rq_order_id r) \<notin> set (new_ids rs)"
    and room: "length (lfq_list (outgoing_ogw_responses e)) + 201 \<le> ME_MAX_CLIENT_UPDATES"
      "length (lfq_list (outgoing_md_updates e)) + 201 \<le> ME_MAX_MARKET_UPDATES"
  shows "\<exists>e'. processClientRequest r e = Inr e' \<and> mixed_inv (rs @ [r]) e' \<and>
     length (lfq_list (outgoing_ogw_responses e')) \<le> length (lfq_list (outgoing_ogw_responses e)) + 201 \<and>
     length (lfq_list (outgoing_md_updates e')) \<le> length (lfq_list (outgoing_md_updates e)) + 201"
proof -
  let ?n = "next_market_order_id (ticker_order_book e ! 0)"
  obtain S A evs where i: "exchange_ok rs e S" "spec_run rs (1, \<lambda>_. []) = ((?n, A), evs)" "base_price (ticker_order_book e ! 0) = 0"
    "book_views e S 0 BUY = A BUY" "book_views e S 0 SELL = A SELL"
    and st: "length (store (outgoing_ogw_responses e)) = ME_MAX_CLIENT_UPDATES" "length (store (outgoing_md_updates e)) = ME_MAX_MARKET_UPDATES"
    using inv unfolding mixed_inv_def by blast
  have z: "unat (rq_ticker_id r) = 0" "rq_ticker_id r = 0" "rq_type r = NEW" "trading_side (rq_side r)" "unat (rq_qty r) \<le> 100"
    using r by (simp_all add: mixed_ok_def)
  have zero: "(0 :: nat) < ME_MAX_TICKERS" by (simp add: ME_MAX_TICKERS_def)
  have ok: "request_ok (rq_ticker_id r) (base_price (ticker_order_book e ! 0)) r"
    using r i(3) by (auto simp: mixed_ok_def request_ok_def ME_MAX_PRICE_LEVELS_def)
  obtain n1 A1 e1 where sp: "spec_request r (?n, book_views e S 0) = ((n1, A1), e1)" by (metis prod.exhaust)
  then have add: "spec_add (rq_client_id r) (rq_order_id r) 0 (rq_side r) (rq_price r) (rq_qty r) ?n (book_views e S 0) = (A1, e1)"
    using z(2,3) by (auto simp: spec_request_def split: prod.splits)
  have "\<forall>x \<in> set (book_views e S 0 (opp (rq_side r))). o_qty x \<noteq> 0"
    using view_okD(1) [OF exchange_okD(8) [OF i(1) zero], of "opp (rq_side r)"] z(4) by (auto simp: order_ok_def)
  note sends = spec_add_sends [OF add this z(5)]
  have fit: "length (responses_of e1) \<le> lfq_room (outgoing_ogw_responses e)" "length (updates_of e1) \<le> lfq_room (outgoing_md_updates e)"
    using sends room st by (simp_all add: room_list)
  have fr: "rq_type r = NEW \<longrightarrow> (rq_client_id r, rq_order_id r) \<notin> order_ids (book_views e S (unat (rq_ticker_id r)))"
    using fresh exchange_okD(7) [OF i(1) zero] z(1) by auto
  from exchange_process [OF i(1) _ _ len fr _ fit] zero ok sp z(1) obtain e' S' where e': "processClientRequest r e = Inr e'"
    "exchange_ok (rs @ [r]) e' S'" "lfq_list (outgoing_ogw_responses e') = lfq_list (outgoing_ogw_responses e) @ responses_of e1"
    "lfq_list (outgoing_md_updates e') = lfq_list (outgoing_md_updates e) @ updates_of e1"
    "next_market_order_id (ticker_order_book e' ! 0) = n1" "base_price (ticker_order_book e' ! 0) = 0"
    "book_views e' S' 0 BUY = A1 BUY" "book_views e' S' 0 SELL = A1 SELL" using i(3) by auto
  obtain n2 A2 e2 where sp2: "spec_request r (?n, A) = ((n2, A2), e2)" by (metis prod.exhaust)
  from spec_request_cong [OF _ _ _ sp sp2] i(4,5) z(4) have eq: "n2 = n1" "A2 BUY = A1 BUY" "A2 SELL = A1 SELL" by simp_all
  have "spec_run (rs @ [r]) (1, \<lambda>_. []) = ((n1, A2), evs @ e2)" by (simp add: spec_run_snoc i(2) sp2 eq(1))
  then have "mixed_inv (rs @ [r]) e'" using e' eq process_stores [OF e'(1)] st unfolding mixed_inv_def
    by (intro conjI exI [of _ S'] exI [of _ n1] exI [of _ A2] exI [of _ "evs @ e2"]) simp_all
  moreover have "length (lfq_list (outgoing_ogw_responses e')) \<le> length (lfq_list (outgoing_ogw_responses e)) + 201"
    "length (lfq_list (outgoing_md_updates e')) \<le> length (lfq_list (outgoing_md_updates e)) + 201"
    unfolding e'(3,4) length_append using sends by simp_all
  ultimately show ?thesis using e'(1) by blast
qed

text \<open>
  No slot of a queue is overwritten before it is read: \<open>size\<close> counts the elements written and not read, and a queue that was
  overrun has more of them than slots.
\<close>

definition not_overrun :: "matching_engine \<Rightarrow> bool" where
  "not_overrun e \<longleftrightarrow> lfq_size (outgoing_ogw_responses e) \<le> length (store (outgoing_ogw_responses e)) \<and>
     lfq_size (outgoing_md_updates e) \<le> length (store (outgoing_md_updates e))"

lemma mixed_fits:
  assumes "mixed_inv rs e"
  shows "not_overrun e"
proof -
  obtain S where "exchange_ok rs e S" using assms unfolding mixed_inv_def by blast
  from exchange_queues [OF this] show ?thesis by (simp add: not_overrun_def lfq_inv_def lfq_size_def)
qed

lemma mixed_drain:
  assumes inv: "mixed_inv rs e"
  shows "\<exists>e'. drain_outputs e = Inr e' \<and> mixed_inv rs e' \<and> lfq_list (outgoing_ogw_responses e') = [] \<and> lfq_list (outgoing_md_updates e') = []"
proof -
  obtain S n A evs where i: "exchange_ok rs e S" "spec_run rs (1, \<lambda>_. []) = ((n, A), evs)"
    "next_market_order_id (ticker_order_book e ! 0) = n" "base_price (ticker_order_book e ! 0) = 0"
    "book_views e S 0 BUY = A BUY" "book_views e S 0 SELL = A SELL"
    and st: "length (store (outgoing_ogw_responses e)) = ME_MAX_CLIENT_UPDATES" "length (store (outgoing_md_updates e)) = ME_MAX_MARKET_UPDATES"
    using inv unfolding mixed_inv_def by blast
  note q = exchange_queues [OF i(1)]
  obtain qr where qr: "drain_queue (outgoing_ogw_responses e) = Inr qr" "lfq_inv qr" "lfq_list qr = []"
    "length (store qr) = length (store (outgoing_ogw_responses e))" using drain_queue_ok q by blast
  obtain qu where qu: "drain_queue (outgoing_md_updates e) = Inr qu" "lfq_inv qu" "lfq_list qu = []"
    "length (store qu) = length (store (outgoing_md_updates e))" using drain_queue_ok q by blast
  let ?e = "e\<lparr>outgoing_ogw_responses := qr, outgoing_md_updates := qu\<rparr>"
  have "exchange_ok rs ?e S" using exchange_ok_queues [OF i(1) _ qr(2) qu(2), of "incoming_requests e"] q by simp
  then have "mixed_inv rs ?e" using i(2-6) st qr(4) qu(4) unfolding mixed_inv_def
    by (intro conjI exI [of _ S] exI [of _ n] exI [of _ A] exI [of _ evs]) (simp_all add: book_views_def)
  then show ?thesis using qr(1,3) qu(1,3) by (simp add: drain_outputs_def)
qed

subsection \<open>The requests\<close>

text \<open>What the two distributions return.\<close>

definition dists_ok :: "(nat \<Rightarrow> Price) \<Rightarrow> (nat \<Rightarrow> Qty) \<Rightarrow> bool" where
  "dists_ok price_dist qty_dist \<longleftrightarrow> (\<forall>k. 90 \<le> price_dist k \<and> price_dist k \<le> 110 \<and> 1 \<le> unat (qty_dist k) \<and> unat (qty_dist k) \<le> 100)"

lemma small_id: "i < NUM_ORDERS \<Longrightarrow> unat (word_of_nat i :: OrderId) = i"
  by (rule unat_small) (simp add: NUM_ORDERS_def)

lemma mixed_request_ok:
  assumes "dists_ok price_dist qty_dist" and "c = 0 \<or> c = 1" and "i < NUM_ORDERS"
  shows "mixed_ok (mixed_request price_dist qty_dist c k i)"
proof -
  have "unat c < ME_MAX_NUM_CLIENTS" using assms(2) by (auto simp: ME_MAX_NUM_CLIENTS_def)
  moreover have "unat (word_of_nat i :: OrderId) < ME_MAX_ORDER_IDS"
    using small_id [OF assms(3)] assms(3) by (simp add: NUM_ORDERS_def ME_MAX_ORDER_IDS_def)
  ultimately show ?thesis using assms(1) by (auto simp: mixed_ok_def mixed_request_def dists_ok_def)
qed

lemma new_ids_mixed:
  "new_ids (map (\<lambda>i. mixed_request price_dist qty_dist c (f i) i) is) = map (\<lambda>i. (c, word_of_nat i)) is"
  by (induction "is") (simp_all add: new_ids_def mixed_request_def)

lemma fresh_mixed:
  assumes "n < NUM_ORDERS"
  shows "(c, word_of_nat n :: OrderId) \<notin> set (map (\<lambda>i. (c, word_of_nat i)) [0..<n])"
proof
  assume "(c, word_of_nat n :: OrderId) \<in> set (map (\<lambda>i. (c, word_of_nat i)) [0..<n])"
  then obtain i where i: "i < n" "word_of_nat i = (word_of_nat n :: OrderId)" by auto
  then have "unat (word_of_nat i :: OrderId) = unat (word_of_nat n :: OrderId)" by simp
  then show False using i(1) small_id [of i] small_id [of n] assms by simp
qed

lemma mixed_start: "mixed_inv [] (engine_new (\<lambda>_. 0) (\<lambda>_ _ _. None) (\<lambda>_ _. None))"
    "lfq_list (outgoing_ogw_responses (engine_new (\<lambda>_. 0) (\<lambda>_ _ _. None) (\<lambda>_ _. None))) = []"
    "lfq_list (outgoing_md_updates (engine_new (\<lambda>_. 0) (\<lambda>_ _ _. None) (\<lambda>_ _. None))) = []"
proof -
  let ?x = "engine_new (\<lambda>_. 0) (\<lambda>_ _ _. None) (\<lambda>_ _. None)"
  have b: "ticker_order_book ?x ! 0 = fresh_book 0 0" by (simp add: engine_new_def fresh_book_def ME_MAX_TICKERS_def)
  have v: "book_views ?x (\<lambda>_ _. []) 0 = (\<lambda>_. [])" by (rule exchange_start(2)) (simp add: ME_MAX_TICKERS_def)
  have "length (store (outgoing_ogw_responses ?x)) = ME_MAX_CLIENT_UPDATES" "length (store (outgoing_md_updates ?x)) = ME_MAX_MARKET_UPDATES"
    by (simp_all add: engine_new_def) (simp_all add: lfq_new_def)
  then show "mixed_inv [] ?x" using exchange_start(1) [of "\<lambda>_. 0"] v b unfolding mixed_inv_def
    by (intro conjI exI [of _ "\<lambda>_ _. []"] exI [of _ 1] exI [of _ "\<lambda>_. []"] exI [of _ "[]"]) simp_all
  show "lfq_list (outgoing_ogw_responses ?x) = []" "lfq_list (outgoing_md_updates ?x) = []" by (simp_all add: engine_new_def)
qed

subsection \<open>The benchmark\<close>

lemma warmup_ok:
  assumes d: "dists_ok price_dist qty_dist" and n: "n \<le> WARMUP"
  shows "\<exists>e. foldE (\<lambda>i. processClientRequest (mixed_request price_dist qty_dist 0 i i)) [0..<n] (engine_new (\<lambda>_. 0) (\<lambda>_ _ _. None) (\<lambda>_ _. None)) = Inr e \<and>
     mixed_inv (map (\<lambda>i. mixed_request price_dist qty_dist 0 i i) [0..<n]) e \<and>
     length (lfq_list (outgoing_ogw_responses e)) \<le> 201 * n \<and> length (lfq_list (outgoing_md_updates e)) \<le> 201 * n"
  using n
proof (induction n)
  case 0
  then show ?case using mixed_start by (simp del: length_lfq_list)
next
  case (Suc n)
  let ?rs = "map (\<lambda>i. mixed_request price_dist qty_dist 0 i i) [0..<n]" and ?r = "mixed_request price_dist qty_dist 0 n n"
  from Suc obtain e where e: "foldE (\<lambda>i. processClientRequest (mixed_request price_dist qty_dist 0 i i)) [0..<n] (engine_new (\<lambda>_. 0) (\<lambda>_ _ _. None) (\<lambda>_ _. None)) = Inr e"
    "mixed_inv ?rs e" "length (lfq_list (outgoing_ogw_responses e)) \<le> 201 * n" "length (lfq_list (outgoing_md_updates e)) \<le> 201 * n" by auto
  have n: "n < NUM_ORDERS" "n < 1000" using Suc.prems by (simp_all add: WARMUP_def NUM_ORDERS_def)
  have "(rq_client_id ?r, rq_order_id ?r) \<notin> set (new_ids ?rs)"
    using fresh_mixed [OF n(1), of 0] unfolding new_ids_mixed by (simp add: mixed_request_def)
  from mixed_process [OF e(2) mixed_request_ok [OF d _ n(1)] _ this] e(3,4) n(2) obtain e' where e': "processClientRequest ?r e = Inr e'"
    "mixed_inv (?rs @ [?r]) e'" "length (lfq_list (outgoing_ogw_responses e')) \<le> length (lfq_list (outgoing_ogw_responses e)) + 201"
    "length (lfq_list (outgoing_md_updates e')) \<le> length (lfq_list (outgoing_md_updates e)) + 201"
    by (fastforce simp: ME_MAX_ORDER_IDS_def ME_MAX_CLIENT_UPDATES_def ME_MAX_MARKET_UPDATES_def simp del: length_lfq_list)
  then show ?case using e by (simp add: foldE_snoc del: length_lfq_list)
qed

lemma round_process:
  assumes d: "dists_ok price_dist qty_dist" and e: "mixed_inv (mixed_requests price_dist qty_dist n) e"
    "lfq_list (outgoing_ogw_responses e) = []" "lfq_list (outgoing_md_updates e) = []" and n: "n < NUM_ORDERS"
  shows "\<exists>e'. processClientRequest (mixed_request price_dist qty_dist 1 (WARMUP + n) n) e = Inr e' \<and>
     mixed_inv (mixed_requests price_dist qty_dist (Suc n)) e'"
proof -
  let ?rs = "mixed_requests price_dist qty_dist n" and ?r = "mixed_request price_dist qty_dist 1 (WARMUP + n) n"
  have "(1, word_of_nat n :: OrderId) \<notin> set (map (\<lambda>i. (0 :: ClientId, word_of_nat i)) [0..<WARMUP])" by auto
  then have fresh: "(rq_client_id ?r, rq_order_id ?r) \<notin> set (new_ids ?rs)"
    using fresh_mixed [OF n, of 1] unfolding mixed_requests_def new_ids_append new_ids_mixed set_append by (simp add: mixed_request_def)
  have len: "length ?rs + 1 < ME_MAX_ORDER_IDS" using n by (simp add: mixed_requests_def WARMUP_def NUM_ORDERS_def ME_MAX_ORDER_IDS_def)
  from mixed_process [OF e(1) mixed_request_ok [OF d _ n] len fresh] e(2,3)
  obtain e2 where e2: "processClientRequest ?r e = Inr e2" "mixed_inv (?rs @ [?r]) e2"
    by (auto simp: ME_MAX_CLIENT_UPDATES_def ME_MAX_MARKET_UPDATES_def simp del: length_lfq_list)
  moreover have "mixed_requests price_dist qty_dist (Suc n) = ?rs @ [?r]" by (simp add: mixed_requests_def)
  ultimately show ?thesis by simp
qed

lemma rounds_ok:
  assumes d: "dists_ok price_dist qty_dist" and start: "mixed_inv (mixed_requests price_dist qty_dist 0) e"
    "lfq_list (outgoing_ogw_responses e) = []" "lfq_list (outgoing_md_updates e) = []" and n: "n \<le> NUM_ORDERS"
  shows "\<exists>e'. foldE (mixed_round price_dist qty_dist) [0..<n] e = Inr e' \<and> mixed_inv (mixed_requests price_dist qty_dist n) e' \<and>
     lfq_list (outgoing_ogw_responses e') = [] \<and> lfq_list (outgoing_md_updates e') = []"
  using n
proof (induction n)
  case 0
  then show ?case using start by simp
next
  case (Suc n)
  from Suc obtain e1 where e1: "foldE (mixed_round price_dist qty_dist) [0..<n] e = Inr e1" "mixed_inv (mixed_requests price_dist qty_dist n) e1"
    "lfq_list (outgoing_ogw_responses e1) = []" "lfq_list (outgoing_md_updates e1) = []" by auto
  from round_process [OF d e1(2-4)] Suc.prems obtain e2 where
    e2: "processClientRequest (mixed_request price_dist qty_dist 1 (WARMUP + n) n) e1 = Inr e2"
      "mixed_inv (mixed_requests price_dist qty_dist (Suc n)) e2" by auto
  from mixed_drain [OF e2(2)] obtain e3 where e3: "drain_outputs e2 = Inr e3" "mixed_inv (mixed_requests price_dist qty_dist (Suc n)) e3"
    "lfq_list (outgoing_ogw_responses e3) = []" "lfq_list (outgoing_md_updates e3) = []" by blast
  have "mixed_round price_dist qty_dist n e1 = Inr e3" by (simp add: mixed_round_def e2(1) e3(1))
  then show ?case using e1(1) e3 by (simp add: foldE_snoc)
qed

text \<open>
  C19. The first benchmark of \<open>latency_benchmark\<close> runs to its end, whatever its two distributions return within their range:
  each of the 501,000 orders is completed, and neither queue is ever overrun. After each of the first 1,000 orders, which are
  sent without draining the queues, both have at most as many elements as slots; each later order finds both empty and
  leaves both so. (Within an order the engine only writes, so the elements at its end are the most there were.) At
  the end both queues are empty and the book is the one the specification gives for these orders, in price-time
  priority and not crossed; \<open>engine_ok\<close> ties the shape \<open>S\<close> to the orders the books' pointers lead to.
\<close>

theorem mixed_benchmark_completes:
  assumes "dists_ok price_dist qty_dist"
  shows "\<exists>e S n A evs. mixed_benchmark price_dist qty_dist (engine_new (\<lambda>_. 0) (\<lambda>_ _ _. None) (\<lambda>_ _. None)) = Inr e \<and>
     lfq_size (outgoing_ogw_responses e) = 0 \<and> lfq_size (outgoing_md_updates e) = 0 \<and> engine_ok e S \<and>
     spec_run (mixed_requests price_dist qty_dist NUM_ORDERS) (1, \<lambda>_. []) = ((n, A), evs) \<and>
     view (ticker_order_book e ! 0) (S 0) BUY = A BUY \<and> view (ticker_order_book e ! 0) (S 0) SELL = A SELL \<and>
     sorted_wrt (before BUY) (A BUY) \<and> sorted_wrt (before SELL) (A SELL) \<and>
     (\<forall>x \<in> set (A BUY). \<forall>y \<in> set (A SELL). o_price x < o_price y) \<and>
     (\<forall>i \<le> WARMUP. \<exists>e1. foldE (\<lambda>i. processClientRequest (mixed_request price_dist qty_dist 0 i i)) [0..<i]
          (engine_new (\<lambda>_. 0) (\<lambda>_ _ _. None) (\<lambda>_ _. None)) = Inr e1 \<and> not_overrun e1) \<and>
     (\<forall>i < NUM_ORDERS. \<exists>e1 e2. bindE (mixed_warmup price_dist qty_dist (engine_new (\<lambda>_. 0) (\<lambda>_ _ _. None) (\<lambda>_ _. None)))
            (foldE (mixed_round price_dist qty_dist) [0..<i]) = Inr e1 \<and>
          lfq_size (outgoing_ogw_responses e1) = 0 \<and> lfq_size (outgoing_md_updates e1) = 0 \<and>
          processClientRequest (mixed_request price_dist qty_dist 1 (WARMUP + i) i) e1 = Inr e2 \<and> not_overrun e2)"
proof -
  let ?x = "engine_new (\<lambda>_. 0) (\<lambda>_ _ _. None) (\<lambda>_ _. None)"
  have size: "lfq_size (outgoing_ogw_responses e) = 0" "lfq_size (outgoing_md_updates e) = 0"
    if "lfq_list (outgoing_ogw_responses e) = []" "lfq_list (outgoing_md_updates e) = []" for e
    using arg_cong [OF that(1), of length] arg_cong [OF that(2), of length] by (simp_all add: lfq_size_def)
  have warm: "\<exists>e1. foldE (\<lambda>i. processClientRequest (mixed_request price_dist qty_dist 0 i i)) [0..<i] ?x = Inr e1 \<and> not_overrun e1"
    if "i \<le> WARMUP" for i using warmup_ok [OF assms that] mixed_fits by blast
  obtain e1 where e1: "foldE (\<lambda>i. processClientRequest (mixed_request price_dist qty_dist 0 i i)) [0..<WARMUP] ?x = Inr e1"
    "mixed_inv (mixed_requests price_dist qty_dist 0) e1" using warmup_ok [OF assms order_refl] by (auto simp: mixed_requests_def)
  obtain e2 where e2: "drain_outputs e1 = Inr e2" "mixed_inv (mixed_requests price_dist qty_dist 0) e2"
    "lfq_list (outgoing_ogw_responses e2) = []" "lfq_list (outgoing_md_updates e2) = []" using mixed_drain [OF e1(2)] by blast
  have w: "mixed_warmup price_dist qty_dist ?x = Inr e2" using e1(1) e2(1) by (simp add: mixed_warmup_def)
  note rounds = rounds_ok [OF assms e2(2-4)]
  have each: "\<exists>e1 e2. bindE (mixed_warmup price_dist qty_dist ?x) (foldE (mixed_round price_dist qty_dist) [0..<i]) = Inr e1 \<and>
      lfq_size (outgoing_ogw_responses e1) = 0 \<and> lfq_size (outgoing_md_updates e1) = 0 \<and>
      processClientRequest (mixed_request price_dist qty_dist 1 (WARMUP + i) i) e1 = Inr e2 \<and> not_overrun e2" if i: "i < NUM_ORDERS" for i
  proof -
    from rounds [of i] i obtain f where f: "foldE (mixed_round price_dist qty_dist) [0..<i] e2 = Inr f"
      "mixed_inv (mixed_requests price_dist qty_dist i) f" "lfq_list (outgoing_ogw_responses f) = []" "lfq_list (outgoing_md_updates f) = []"
      by auto
    from round_process [OF assms f(2-4) i] mixed_fits show ?thesis using f(1) size [OF f(3,4)] by (fastforce simp: w)
  qed
  from rounds [OF order_refl] obtain e3 where e3: "foldE (mixed_round price_dist qty_dist) [0..<NUM_ORDERS] e2 = Inr e3"
    "mixed_inv (mixed_requests price_dist qty_dist NUM_ORDERS) e3" "lfq_list (outgoing_ogw_responses e3) = []" "lfq_list (outgoing_md_updates e3) = []"
    by blast
  have run: "mixed_benchmark price_dist qty_dist ?x = Inr e3" using e3(1) by (simp add: mixed_benchmark_def w)
  obtain S n A evs where i: "exchange_ok (mixed_requests price_dist qty_dist NUM_ORDERS) e3 S"
    "spec_run (mixed_requests price_dist qty_dist NUM_ORDERS) (1, \<lambda>_. []) = ((n, A), evs)"
    "book_views e3 S 0 BUY = A BUY" "book_views e3 S 0 SELL = A SELL" using e3(2) unfolding mixed_inv_def by blast
  have t0: "(0 :: nat) < ME_MAX_TICKERS" by (simp add: ME_MAX_TICKERS_def)
  from exchange_okD(8) [OF i(1) t0] have "\<forall>x \<in> set (A BUY). \<forall>y \<in> set (A SELL). o_price x < o_price y"
    using i(3,4) by (simp add: view_ok_def)
  moreover have "sorted_wrt (before BUY) (A BUY)" "sorted_wrt (before SELL) (A SELL)"
    using view_okD(2) [OF exchange_okD(8) [OF i(1) t0], of BUY] view_okD(2) [OF exchange_okD(8) [OF i(1) t0], of SELL] i(3,4) by simp_all
  moreover note size [OF e3(3,4)]
  ultimately show ?thesis using run i warm each
    by (intro exI [of _ e3] exI [of _ S] exI [of _ n] exI [of _ A] exI [of _ evs] conjI) (simp_all add: exchange_ok_def book_views_def)
qed

theorem mixed_benchmark_completes_witness:
  "\<exists>e. mixed_benchmark (\<lambda>k. 90 + int k mod 21) (\<lambda>_. 7) (engine_new (\<lambda>_. 0) (\<lambda>_ _ _. None) (\<lambda>_ _. None)) = Inr e \<and>
     lfq_size (outgoing_ogw_responses e) = 0"
proof -
  have "int k mod 21 < 21" "0 \<le> int k mod 21" for k :: nat by simp_all
  then have "dists_ok (\<lambda>k. 90 + int k mod 21) (\<lambda>_. 7)" by (fastforce simp: dists_ok_def)
  from mixed_benchmark_completes [OF this] show ?thesis by blast
qed

end
