(* ===== verification/Reports.thy ===== *)
theory Reports
  imports RiskManager LatencyStats Mains
begin

text \<open>
  What the program prints about itself: positions, limits and configurations (\<open>position_keeper.h\<close>, \<open>risk_manager.h\<close>,
  \<open>types.h\<close>), the table and the samples of the latency benchmark, the lines around a backtest.

  \<^item> How a floating point number is written is the argument \<open>num\<close>: a stream's default format for \<open>double\<close>, and for the
    table, whose numbers are reals, its format with \<open>std::fixed\<close> and \<open>std::setprecision(0)\<close>.
  \<^item> The lemmas: a report of the positions has a line for every instrument and one for the total; the table is
    aligned; what is dumped are the last samples.
\<close>

subsection \<open>Limits and positions\<close>

definition RiskCfg_toString :: "(double \<Rightarrow> string) \<Rightarrow> RiskCfg \<Rightarrow> string" where
  "RiskCfg_toString num cfg = ''RiskCfg{'' @ ''max-order-size:'' @ qtyToString (max_order_size cfg) @ '' '' @
     ''max-position:'' @ qtyToString (max_position cfg) @ '' '' @ ''max-loss:'' @ num (max_loss cfg) @ ''}''"

definition TradeEngineCfg_toString :: "(double \<Rightarrow> string) \<Rightarrow> TradeEngineCfg \<Rightarrow> string" where
  "TradeEngineCfg_toString num cfg = ''TradeEngineCfg{'' @ ''clip:'' @ qtyToString (clip cfg) @ '' '' @
     ''thresh:'' @ num (threshold cfg) @ '' '' @ ''risk:'' @ RiskCfg_toString num (risk_cfg cfg) @ ''}''"

definition PositionInfo_toString :: "(double \<Rightarrow> string) \<Rightarrow> PositionInfo \<Rightarrow> string" where
  "PositionInfo_toString num p =
     (let vwap = (\<lambda>side. if position p \<noteq> 0 then avg_price (sideToIndex side) p else Fin 0) in
      ''Position{'' @ ''pos:'' @ int_to_string (sint (position p)) @ '' u-pnl:'' @ num (unreal_pnl p) @
      '' r-pnl:'' @ num (real_pnl p) @ '' t-pnl:'' @ num (total_pnl p) @ '' vol:'' @ qtyToString (volume p) @
      '' vwaps:['' @ num (vwap BUY) @ ''X'' @ num (vwap SELL) @ ''] '' @
      (case pos_bbo p of None \<Rightarrow> '''' | Some x \<Rightarrow> BBO_toString x) @ ''}'')"

definition PositionKeeper_toString :: "(double \<Rightarrow> string) \<Rightarrow> PositionInfo list \<Rightarrow> string" where
  "PositionKeeper_toString num ps =
     concat (map (\<lambda>i. ''TickerId:'' @ tickerIdToString (word_of_nat i) @ '' '' @ PositionInfo_toString num (ps ! i) @ newline) [0..<length ps]) @
     ''Total PnL:'' @ num (fold (\<lambda>p total. d_add total (total_pnl p)) ps (Fin 0)) @
     '' Vol:'' @ nat_to_string (unat (fold (\<lambda>p total. total + volume p) ps 0)) @ newline"

definition RiskInfo_toString :: "(double \<Rightarrow> string) \<Rightarrow> PositionInfo list \<Rightarrow> RiskInfo \<Rightarrow> string" where
  "RiskInfo_toString num ps x = ''RiskInfo'' @ ''['' @ ''pos:'' @ PositionInfo_toString num (ps ! position_info x) @ '' '' @
     RiskCfg_toString num (ri_cfg x) @ '']''"

subsection \<open>The latency benchmark\<close>

text \<open>(\<open>pad_right\<close> is \<open>std::setw\<close> with \<open>std::left\<close>, \<open>pad_left\<close> with \<open>std::right\<close>.)\<close>

definition printPercentiles :: "(real \<Rightarrow> string) \<Rightarrow> string \<Rightarrow> latency_percentiles \<Rightarrow> string" where
  "printPercentiles num label p =
     pad_right 35 label @ pad_left 8 (num (lp_min p)) @ pad_left 8 (num (lp_p50 p)) @ pad_left 8 (num (lp_p90 p)) @
     pad_left 8 (num (lp_p99 p)) @ pad_left 10 (num (lp_p999 p)) @ pad_left 10 (num (lp_max p)) @
     pad_left 10 (num (lp_mean p)) @ pad_left 10 (nat_to_string (lp_count p)) @ newline"

definition table_head :: string where
  "table_head = pad_right 35 ''Measurement'' @ pad_left 8 ''min'' @ pad_left 8 ''p50'' @ pad_left 8 ''p90'' @ pad_left 8 ''p99'' @
     pad_left 10 ''p99.9'' @ pad_left 10 ''max'' @ pad_left 10 ''mean'' @ pad_left 10 ''count''"

definition table_rule :: string where
  "table_rule = replicate 99 (CHR ''-'')"

definition printHeader :: string where
  "printHeader = table_head @ newline @ table_rule @ newline"

text \<open>\<open>dumpToCSV\<close>, which reads the samples as they lie in the buffer.\<close>

definition dumpToCSV :: "(real \<Rightarrow> string) \<Rightarrow> real \<Rightarrow> latency_stats \<Rightarrow> string" where
  "dumpToCSV num nanos_per_cycle s = ''latency_ns'' @ newline @
     concat (map (\<lambda>i. num (real (unat (ls_samples s ! i)) * nanos_per_cycle) @ newline) [0..<ls_count s])"

subsection \<open>The backtest\<close>

definition print_backtest_args :: "(double \<Rightarrow> string) \<Rightarrow> Args \<Rightarrow> string" where
  "print_backtest_args num a = ''=== NanoTrade Backtest ==='' @ newline @
     ''format:     '' @ data_format a @ newline @ ''data:       '' @ data_path a @ newline @
     ''ticker:     '' @ nat_to_string (unat (arg_ticker_id a)) @ newline @ ''algo:       '' @ arg_algo a @ newline @
     ''clip:       '' @ nat_to_string (unat (arg_clip a)) @ newline @ ''threshold:  '' @ num (arg_threshold a) @ newline @
     ''max_pos:    '' @ nat_to_string (unat (arg_max_position a)) @ newline @
     ''base_price: '' @ int_to_string (arg_base_price a) @ newline @ ''equity_csv: '' @ equity_csv a @ newline @ newline"

definition print_fill_counts :: "fill_simulator \<Rightarrow> string" where
  "print_fill_counts f = ''FillSimulator: fills='' @ nat_to_string (fills_emitted f) @
     '' passive='' @ nat_to_string (passive_fills_emitted f) @ '' pending='' @ nat_to_string (length (fsim_pending f)) @ newline"

subsection \<open>What the reports look like\<close>

definition lines_in :: "string \<Rightarrow> nat" where
  "lines_in s = length (filter (\<lambda>c. c = CHR 0x0A) s)"

definition one_line :: "string \<Rightarrow> bool" where
  "one_line s \<longleftrightarrow> CHR 0x0A \<notin> set s"

lemma lines_in_simps [simp]:
  "lines_in [] = 0" "lines_in (s @ t) = lines_in s + lines_in t" "lines_in newline = 1"
  "lines_in (c # s) = (if c = CHR 0x0A then 1 else 0) + lines_in s"
  by (simp_all add: lines_in_def newline_def)

lemma one_line_iff: "one_line s \<longleftrightarrow> lines_in s = 0"
  by (auto simp: one_line_def lines_in_def filter_empty_conv)

lemma digit_no_line: "d < 10 \<Longrightarrow> digit_char d \<noteq> CHR 0x0A"
  using digit_char_code [of d] by auto

lemma nat_line [simp]: "lines_in (nat_to_string n) = 0"
proof (induction n rule: nat_to_string.induct)
  case (1 n)
  then show ?case using digit_no_line by (subst nat_to_string.simps) simp
qed

lemma text_line [simp]: "lines_in (int_to_string i) = 0" "lines_in (qtyToString q) = 0" "lines_in (tickerIdToString t) = 0"
  "lines_in (priceToString p) = 0" "lines_in (BBO_toString x) = 0"
proof -
  show i: "lines_in (int_to_string i) = 0" for i by (simp add: int_to_string_def)
  show q: "lines_in (qtyToString q) = 0" for q by (simp add: qtyToString_def)
  show "lines_in (tickerIdToString t) = 0" by (simp add: tickerIdToString_def)
  show p: "lines_in (priceToString p) = 0" for p using i by (simp add: priceToString_def)
  show "lines_in (BBO_toString x) = 0" using p q by (simp add: BBO_toString_def)
qed

lemma report_line:
  assumes "\<And>x. one_line (num x)"
  shows "one_line (RiskCfg_toString num cfg)" "one_line (TradeEngineCfg_toString num tcfg)" "one_line (PositionInfo_toString num p)"
    "one_line (RiskInfo_toString num ps x)"
proof -
  have n: "lines_in (num x) = 0" for x using assms by (simp add: one_line_iff)
  show r: "one_line (RiskCfg_toString num cfg)" for cfg using n by (simp add: one_line_iff RiskCfg_toString_def)
  then show "one_line (TradeEngineCfg_toString num tcfg)" using n by (simp add: one_line_iff TradeEngineCfg_toString_def)
  show p: "one_line (PositionInfo_toString num p)" for p using n by (simp add: one_line_iff PositionInfo_toString_def Let_def split: option.split)
  show "one_line (RiskInfo_toString num ps x)" using r p by (simp add: one_line_iff RiskInfo_toString_def)
qed

text \<open>A line for every instrument and one for the total.\<close>

lemma positions_report_lines:
  assumes "\<And>x. one_line (num x)"
  shows "lines_in (PositionKeeper_toString num ps) = length ps + 1"
proof -
  have n: "lines_in (num x) = 0" "lines_in (PositionInfo_toString num p) = 0" for x p
    using assms report_line(3) [of num] by (simp_all add: one_line_iff)
  have "lines_in (concat (map f is)) = length is" if "\<And>i. lines_in (f i) = 1" for f and "is" :: "nat list"
    using that by (induction "is") simp_all
  then show ?thesis using n by (simp add: PositionKeeper_toString_def)
qed

text \<open>The rows of the table are as wide as its head when the numbers fit their columns; the rule below the head is shorter.\<close>

lemma table_aligned:
  assumes "length label \<le> 35" and "\<forall>x \<in> {lp_min p, lp_p50 p, lp_p90 p, lp_p99 p}. length (num x) \<le> 8"
    and "\<forall>x \<in> {lp_p999 p, lp_max p, lp_mean p}. length (num x) \<le> 10" and "length (nat_to_string (lp_count p)) \<le> 10"
  shows "length (printPercentiles num label p) = length table_head + 1"
proof -
  have "length (pad_right n s) = max n (length s)" "length (pad_left n s) = max n (length s)" for n s
    by (auto simp: pad_right_def pad_left_def)
  then show ?thesis using assms by (simp add: printPercentiles_def table_head_def newline_def max_def)
qed

lemma table_rule_short: "length table_head = 107" "length table_rule = 99"
  by (simp_all add: table_head_def table_rule_def pad_right_def pad_left_def)

text \<open>The file has one row for each of the last samples, in some order.\<close>

lemma dump_is_last_samples:
  assumes "ls_holds xs s"
  shows "\<exists>ys. mset ys = mset (last_samples (length (ls_samples s)) xs) \<and>
     dumpToCSV num nanos_per_cycle s = ''latency_ns'' @ newline @ concat (map (\<lambda>c. num (real (unat c) * nanos_per_cycle) @ newline) ys)"
proof -
  have "ls_count s \<le> length (ls_samples s)" using assms by (simp add: ls_holds_def)
  then have "take (ls_count s) (ls_samples s) = map ((!) (ls_samples s)) [0..<ls_count s]"
    by (intro nth_equalityI) simp_all
  then show ?thesis using ls_holds_mset [OF assms]
    by (intro exI [of _ "take (ls_count s) (ls_samples s)"]) (simp add: dumpToCSV_def comp_def)
qed

end
