(* ===== verification/SocketSetup.thy ===== *)
theory SocketSetup
  imports Types
begin

text \<open>
  \<open>common/socket_utils.h\<close>: how a socket is opened. The operating system is a parameter: \<open>os_calls\<close> says what each call
  returns, for the socket of the \<open>i\<close>-th address that \<open>getaddrinfo\<close> found.

  \<^item> \<open>createSocket\<close> gives the descriptor of the last address, or stops at the first assertion that fails.
  \<^item> What is shown: exactly which calls have to succeed; a failed \<open>connect\<close> is not among them.
\<close>

record SocketCfg =
  sc_ip :: string
  sc_iface :: string
  sc_port :: int
  is_udp :: bool
  is_listening :: bool
  needs_so_timestamp :: bool

definition bool_to_string :: "bool \<Rightarrow> string" where
  "bool_to_string b = (if b then ''1'' else ''0'')"

definition SocketCfg_toString :: "SocketCfg \<Rightarrow> string" where
  "SocketCfg_toString c = ''SocketCfg[ip:'' @ sc_ip c @ '' iface:'' @ sc_iface c @ '' port:'' @ int_to_string (sc_port c) @
     '' is_udp:'' @ bool_to_string (is_udp c) @ '' is_listening:'' @ bool_to_string (is_listening c) @
     '' needs_SO_timestamp:'' @ bool_to_string (needs_so_timestamp c) @ '']''"

definition MaxTCPServerBacklog :: int where "MaxTCPServerBacklog = 1024"

text \<open>An interface as \<open>getifaddrs\<close> lists it: its name and, for an address of the family \<open>AF_INET\<close>, its numeric form.\<close>

type_synonym ifaddr = "string \<times> string option"

fun find_iface :: "string \<Rightarrow> ifaddr list \<Rightarrow> string" where
  "find_iface iface [] = []"
| "find_iface iface ((name, addr) # rest) =
     (case addr of Some host \<Rightarrow> if iface = name then host else find_iface iface rest | None \<Rightarrow> find_iface iface rest)"

text \<open>\<open>None\<close> when \<open>getifaddrs\<close> fails.\<close>

definition getIfaceIP :: "ifaddr list option \<Rightarrow> string \<Rightarrow> string" where
  "getIfaceIP ifaddrs iface = (case ifaddrs of None \<Rightarrow> [] | Some ifs \<Rightarrow> find_iface iface ifs)"

record os_calls =
  os_ifaddrs :: "ifaddr list option"
  os_getaddrinfo :: "string \<Rightarrow> string \<Rightarrow> int \<times> nat"   \<comment> \<open>the return code and the number of addresses\<close>
  os_socket :: "nat \<Rightarrow> int"
  os_nonblock_flag :: "nat \<Rightarrow> bool"   \<comment> \<open>\<open>F_GETFL\<close> says \<open>O_NONBLOCK\<close>\<close>
  os_setfl :: "nat \<Rightarrow> int"
  os_nodelay :: "nat \<Rightarrow> int"
  os_connect :: "nat \<Rightarrow> int"
  os_reuseaddr :: "nat \<Rightarrow> int"
  os_bind :: "nat \<Rightarrow> int"
  os_listen :: "nat \<Rightarrow> int \<Rightarrow> int"
  os_timestamp :: "nat \<Rightarrow> int"

definition setNonBlocking :: "os_calls \<Rightarrow> nat \<Rightarrow> bool" where
  "setNonBlocking os i = (if os_nonblock_flag os i then True else os_setfl os i \<noteq> - 1)"

definition disableNagle :: "os_calls \<Rightarrow> nat \<Rightarrow> bool" where
  "disableNagle os i = (os_nodelay os i \<noteq> - 1)"

definition setSOTimestamp :: "os_calls \<Rightarrow> nat \<Rightarrow> bool" where
  "setSOTimestamp os i = (os_timestamp os i \<noteq> - 1)"

definition open_address :: "os_calls \<Rightarrow> SocketCfg \<Rightarrow> nat \<Rightarrow> int res" where
  "open_address os c i =
     bindE (assertE (os_socket os i \<noteq> - 1)) (\<lambda>_.
     bindE (assertE (setNonBlocking os i)) (\<lambda>_.
     bindE (if \<not> is_udp c then assertE (disableNagle os i) else Inr ()) (\<lambda>_.
     bindE (if \<not> is_listening c then assertE (os_connect os i \<noteq> 1) else Inr ()) (\<lambda>_.
     bindE (if is_listening c then assertE (os_reuseaddr os i = 0) else Inr ()) (\<lambda>_.
     bindE (if is_listening c then assertE (os_bind os i = 0) else Inr ()) (\<lambda>_.
     bindE (if \<not> is_udp c \<and> is_listening c then assertE (os_listen os i MaxTCPServerBacklog = 0) else Inr ()) (\<lambda>_.
     bindE (if needs_so_timestamp c then assertE (setSOTimestamp os i) else Inr ()) (\<lambda>_.
     Inr (os_socket os i)))))))))"

definition createSocket :: "os_calls \<Rightarrow> SocketCfg \<Rightarrow> int res" where
  "createSocket os c =
     (let ip = (if sc_ip c = [] then getIfaceIP (os_ifaddrs os) (sc_iface c) else sc_ip c);
          (rc, n) = os_getaddrinfo os ip (int_to_string (sc_port c)) in
      bindE (assertE (rc = 0)) (\<lambda>_. foldE (\<lambda>i socket_fd. open_address os c i) [0..<n] (- 1)))"

subsection \<open>What has to succeed\<close>

definition address_opens :: "os_calls \<Rightarrow> SocketCfg \<Rightarrow> nat \<Rightarrow> bool" where
  "address_opens os c i \<longleftrightarrow> os_socket os i \<noteq> - 1 \<and> (os_nonblock_flag os i \<or> os_setfl os i \<noteq> - 1) \<and>
     (is_udp c \<or> os_nodelay os i \<noteq> - 1) \<and>
     (is_listening c \<longrightarrow> os_reuseaddr os i = 0 \<and> os_bind os i = 0 \<and> (is_udp c \<or> os_listen os i 1024 = 0)) \<and>
     (needs_so_timestamp c \<longrightarrow> os_timestamp os i \<noteq> - 1)"

lemma open_address_iff:
  assumes "os_connect os i = 0 \<or> os_connect os i = - 1"
  shows "open_address os c i = (if address_opens os c i then Inr (os_socket os i) else Inl AssertFailed)"
proof -
  have conn: "os_connect os i \<noteq> 1" using assms by auto
  have a: "assertE p = (if p then Inr () else Inl AssertFailed)" for p by (simp add: assertE_def)
  show ?thesis
    by (cases "is_udp c"; cases "is_listening c"; cases "needs_so_timestamp c")
      (simp_all add: conn open_address_def address_opens_def setNonBlocking_def disableNagle_def setSOTimestamp_def
        MaxTCPServerBacklog_def a bindE_def)
qed

lemma open_all:
  assumes "\<And>i. os_connect os i = 0 \<or> os_connect os i = - 1"
  shows "foldE (\<lambda>i fd. open_address os c i) is fd =
     (if \<forall>i \<in> set is. address_opens os c i then Inr (if is = [] then fd else os_socket os (last is)) else Inl AssertFailed)"
  by (induction "is" arbitrary: fd) (simp_all add: open_address_iff [OF assms])

text \<open>
  C40. Opening a socket succeeds exactly when the address is understood and, for every address found, the calls for
  the socket, the non-blocking mode, the TCP options, the server's bind and listen and the time stamps succeed; the
  descriptor is the last one. The calls of \<open>connect\<close>, which return 0 or -1, are not among the conditions: the assertion
  on them compares with 1, so a client whose connection is refused gets its socket as if it were connected.
\<close>

theorem createSocket_ignores_connect:
  assumes "\<And>i. os_connect os i = 0 \<or> os_connect os i = - 1"
    and "os_getaddrinfo os (if sc_ip c = [] then getIfaceIP (os_ifaddrs os) (sc_iface c) else sc_ip c) (int_to_string (sc_port c)) = (rc, n)"
  shows "createSocket os c =
     (if rc = 0 \<and> (\<forall>i < n. address_opens os c i) then Inr (if n = 0 then - 1 else os_socket os (n - 1)) else Inl AssertFailed)"
  using assms(2) by (cases "rc = 0") (auto simp: createSocket_def open_all [OF assms(1)] last_upt)

definition refusing_os :: os_calls where
  "refusing_os = \<lparr>os_ifaddrs = Some [(''lo'', Some ''127.0.0.1'')], os_getaddrinfo = (\<lambda>_ _. (0, 1)), os_socket = (\<lambda>_. 5),
     os_nonblock_flag = (\<lambda>_. False), os_setfl = (\<lambda>_. 0), os_nodelay = (\<lambda>_. 0), os_connect = (\<lambda>_. - 1), os_reuseaddr = (\<lambda>_. 0),
     os_bind = (\<lambda>_. 0), os_listen = (\<lambda>_ _. 0), os_timestamp = (\<lambda>_. 0)\<rparr>"

theorem createSocket_ignores_connect_witness:
  "createSocket refusing_os \<lparr>sc_ip = [], sc_iface = ''lo'', sc_port = 12345, is_udp = False, is_listening = False, needs_so_timestamp = True\<rparr> = Inr 5"
  using createSocket_ignores_connect [of refusing_os
      "\<lparr>sc_ip = [], sc_iface = ''lo'', sc_port = 12345, is_udp = False, is_listening = False, needs_so_timestamp = True\<rparr>" 0 1]
  by (simp add: refusing_os_def address_opens_def)

end
