(* ===== verification/Spec2Isabelle.thy ===== *)
theory Spec2Isabelle
  imports SPSC MEPrint TradeEngine OrderEntry MarketDataPath FillSimulator BinanceReplay UnorderedBook Logging LatencyStats
    EquityRecorder BacktestRun EngineFeed MixedBenchmark Reports SocketSetup
begin

text \<open>
  NanoTrade is an electronic exchange and a trading client for it, in C++, with a backtest harness that puts recorded
  market data in the place of the exchange. This development models its components as they are written and proves what
  makes them correct.

  \<^bold>\<open>The program and the theories.\<close> Every thread is a loop over queues and sockets; a component here is the record of its
  fields, a function for every operation, and a function for one round of its loop.

  \<^item> Shared parts (\<open>common/\<close>). \<open>Prelude\<close>: how the program stops (\<open>error\<close>, \<open>res\<close>) and the generic lemmas. \<open>Types\<close>:
    \<open>types.h\<close>. \<open>Doubles\<close>, \<open>Rounding\<close>: what the code relies on of \<open>double\<close>. \<open>LFQueue\<close>, \<open>SPSC\<close>: the ring buffer
    \<open>lf_queue.h\<close>, used by one thread and by two at once. \<open>MemPool\<close>: \<open>mem_pool.h\<close> and \<open>opt_mem_pool.h\<close>. \<open>Sockets\<close>: the
    buffers of \<open>tcp_socket.cpp\<close>, \<open>tcp_server.cpp\<close>, \<open>mcast_socket.cpp\<close>. \<open>SocketSetup\<close>: how \<open>socket_utils.h\<close> opens a socket,
    with the answers of the operating system as a parameter. \<open>Logging\<close>: \<open>logging.h\<close> and \<open>opt_logging.h\<close>.
    \<open>LatencyStats\<close>: \<open>latency_stats.h\<close>.
  \<^item> Messages. \<open>Messages\<close>: the structs of \<open>client_request.h\<close>, \<open>client_response.h\<close>, \<open>market_update.h\<close>. \<open>Wire\<close>: their
    bytes, and the cutting of a stream into messages.
  \<^item> The exchange (\<open>exchange/\<close>). A request comes in through \<open>OrderServer\<close> (\<open>order_server/\<close>), which numbers the clients'
    messages and sorts them by receive time; \<open>MatchingEngine\<close> (\<open>matcher/matching_engine.h\<close>, \<open>.cpp\<close>) hands it to the book of its
    instrument, \<open>MEOrderBook\<close> (\<open>matcher/me_order_book.h\<close>, \<open>.cpp\<close>), whose responses go back to the order server and whose
    updates go to \<open>MarketData\<close> (\<open>market_data/\<close>): the publisher of the incremental stream and the snapshot synthesizer.
    \<open>UnorderedBook\<close> is the other book, on hash maps, that \<open>benchmarks/hash_benchmark.cpp\<close> compares.
  \<^item> The client (\<open>trading/\<close>). \<open>OrderGateway\<close> is its end of the order connection, \<open>MarketDataConsumer\<close> its end of the two
    market data streams, with recovery from a snapshot and a replay mode. \<open>TradeEngine\<close> (\<open>strategy/trade_engine.h\<close>, \<open>.cpp\<close>)
    applies the updates to \<open>MarketOrderBook\<close>, the book as the client sees it, and calls \<open>Strategies\<close> (the feature engine, the
    market maker, the liquidity taker), which send orders through \<open>OrderManager\<close>, which asks \<open>RiskManager\<close>, which looks at
    \<open>PositionKeeper\<close>.
  \<^item> The backtest (\<open>backtest/\<close>). \<open>Replay\<close> and \<open>BinanceReplay\<close> turn files into market updates, \<open>FillSimulator\<close> answers the
    client's orders in the place of the exchange, \<open>EquityRecorder\<close> records the result.
  \<^item> Starting and driving the program. \<open>Mains\<close>: the command lines of \<open>backtest_main.cpp\<close> and \<open>trading_main.cpp\<close>, the set-up
    and the drain loop of the backtest. \<open>Workloads\<close>: the requests that the RANDOM client of \<open>trading_main.cpp\<close>,
    \<open>hash_benchmark.cpp\<close> and \<open>latency_benchmark.cpp\<close> generate, for any sequence of random numbers, and that they meet the
    conditions under which the books were proved right. \<open>MixedBenchmark\<close>: the first part of \<open>latency_benchmark.cpp\<close>,
    with the matching engine and the draining of its queues. \<open>Reports\<close>: what the program prints about positions, limits,
    latencies and backtests.

  The two order books share their pointer structure: circular lists of levels and orders in memory pools. \<open>LinkRings\<close> has the
  theory of such lists; \<open>BookCore\<close>, \<open>BookLevels\<close> and \<open>BookOrders\<close> the code common to both books and the lemma that linking
  or unlinking an order is an insertion in or removal from the list of orders in price-time priority; \<open>BookPrint\<close> and
  \<open>MEPrint\<close> the printers.

  \<^bold>\<open>Specifications and refinement.\<close> \<open>MEBookSpec\<close> says what the exchange's book promises without pointers: each side a list in
  price-time priority, \<open>spec_add\<close> and \<open>spec_cancel\<close> what happens to it and which messages go out. \<open>MEBookRefine\<close> shows
  that the pointer code implements this, \<open>ExchangeProps\<close> collects what follows. \<open>MarketBookRefine\<close> does the same for the
  client's book; \<open>MarketProps\<close> proves that the client's book, fed the exchange's updates, is the exchange's book, and
  \<open>MarketClear\<close> what the best bid and offer and the CLEAR update do. \<open>SnapshotRefine\<close> shows that the synthesizer's arrays
  and pool implement a map from order id to order, \<open>SnapshotStream\<close> that it publishes exactly that map. \<open>LateJoiner\<close> and
  \<open>MarketDataPath\<close> put engine, synthesizer, consumer and client's book together: a client that joins late or has lost
  updates ends with the exchange's book. \<open>EngineFeed\<close> puts the whole trade engine behind all the exchange's books: nothing they
  publish can stop it. \<open>OrderEntry\<close> joins gateway and order server over a byte stream cut in arbitrary
  pieces, in both directions. \<open>OrderLife\<close>, \<open>OrderWires\<close> and \<open>EngineWires\<close> say what can be on its way between an order
  manager and whoever answers its orders, in each state of an order, and that the engine's steps keep it. There are two who
  answer: \<open>BacktestLoop\<close> and \<open>BacktestRun\<close> put the fill simulator there, over the two queues of a backtest (\<open>BacktestDemo\<close> is
  such a run, from the first update to a fill);
  \<open>ExchangeWires\<close>, \<open>ExchangeLoop\<close> and \<open>ExchangeRun\<close> the exchange's books, behind gateway, server and matching engine and
  among other clients. What follows holds of whole runs: the position limit, bounded queues, and agreement on every order.

  \<^bold>\<open>Interfaces.\<close> Where a component relies on another only through a contract, the contract is a locale, with an interpretation
  on the model's own definitions: \<open>queue_interface\<close> (the ring buffer), \<open>allocator\<close> and \<open>checked_allocator\<close> (both memory
  pools), \<open>wire_format\<close> (requests, responses, updates), \<open>sequencing\<close> (what the standard promises of \<open>std::sort\<close>),
  \<open>risk_gate\<close> (the risk manager for the order manager), \<open>log_writer\<close> (both loggers), \<open>hash_order\<close> (iteration over an
  unordered map), \<open>entries_invariant\<close> (what the fill simulator's loops keep of its orders, interpreted twice: on the
  quantities filled and on the agreement with the engine).

  \<^bold>\<open>Lemma groups.\<close> Invariants: \<open>pool_ok\<close>, \<open>lfq_inv\<close>, \<open>spsc_inv\<close>, \<open>book_ok\<close>, \<open>me_struct\<close>, \<open>mk_struct\<close>, \<open>ss_ok\<close>, \<open>os_ok\<close>,
  \<open>sim_inv\<close>, \<open>engine_wired\<close>, \<open>bt_inv\<close>, \<open>mk_inv\<close>, \<open>lr_inv\<close>, \<open>br_inv\<close>, \<open>ls_holds\<close>, each with lemmas that every operation keeps it. Refinement: each \<open>_ok\<close> lemma says that
  an operation succeeds and what it does to the abstract state. Composition: \<open>run\<close>, \<open>steps\<close> and \<open>fold\<close> lemmas by induction over
  sequences of requests, updates or rounds. The step relations \<open>spsc_step\<close>, \<open>te_step\<close>, \<open>te_run\<close>,
  \<open>bt_step\<close> and \<open>mk_step\<close> interleave threads and messages.

  \<^bold>\<open>Representation.\<close> Identifiers, quantities and priorities are words of their width. Prices are integers; the positions' 32-bit
  arithmetic wraps. A pointer into a pool is the index of its block; a null pointer is \<open>None\<close>. Stopping the process (a failed
  ASSERT, FATAL, \<open>at\<close> out of range in a \<open>noexcept\<close> function, a null pointer, a loop that does not end) is a value of
  \<open>error\<close>. Loops over pointers take the size of the pool as fuel, more than which no ring can need: the properties say that the
  result is not \<open>Diverges\<close>. The clock, the operating system's answers, \<open>std::sort\<close>, the order of a hash map and the text of
  a \<open>double\<close> are arguments. Numbers of type \<open>double\<close> are reals with infinities and a not-a-number, except where a result is
  converted to an integer (\<open>Rounding\<close>): there they are rounded as the standard says.

  \<^bold>\<open>Bounds.\<close> Sessions of fewer than \<open>ME_MAX_ORDER_IDS\<close> requests per book, prices within the window of the price array, and
  queues with room for what is written: the code checks none of these, and outside them it writes over unread or foreign
  memory or stops. (\<open>acceptable\<close> says this of a request in a run with other clients.) Runs of a trade engine are shorter than
  \<open>2 ^ 62\<close> steps, so that its order ids do not wrap. The limits on positions and order sizes are such that the sums of the risk
  check stay within 32 bits (\<open>limits_ok\<close>; for a backtest, \<open>--max-pos\<close> at most \<open>2^31 - 101\<close>), and the profit and loss identity is for
  positions whose products, as the position keeper forms them, do (\<open>fill_ok\<close>).

  \<^bold>\<open>Not modelled.\<close> Joining streams and closing sockets, starting and joining threads, sleeping, opening files, reading
  the clock and the cycle counter (\<open>thread_utils.h\<close>, \<open>time_utils.h\<close>, \<open>perf_utils.h\<close>, \<open>macros.h\<close>): operating system calls
  with no decision of the program in them. What the mains do besides reading their arguments, waiting and printing is to
  construct the components and delete them; the examples show them and the benchmarks time them. Printers of \<open>double\<close>
  values take the number's text as an argument. Memory ordering is sequentially consistent, as the default of
  \<open>std::atomic\<close> is.
\<close>

end
